(* ===== verification/Kore_Prelude.thy ===== *)
theory Kore_Prelude
  imports Main "HOL-Library.Word" "HOL-Library.Multiset" "HOL-Library.Sublist"
begin

text \<open>
  Shared ground of the development: the machine types of the C code, faults as values, the parts
  of the C library the sources call (character classes, string comparison, \<open>strchr\<close>, \<open>strsep\<close>),
  block copies into arrays, and the generic list and word lemmas the component theories rely on.

  A C string is the list of its bytes before the terminating NUL; a memory block is the list of
  all of its bytes. Where a source routine can run past the end of a block the model works on the
  block and the overrun is the fault \<open>Out_of_bounds\<close>.
\<close>

unbundle bit_operations_syntax

section \<open>Machine types\<close>

type_synonym byte = "8 word"
type_synonym u16 = "16 word"
type_synonym u32 = "32 word"
type_synonym u64 = "64 word"
type_synonym size_t = "64 word"

text \<open>String and character literals of the C sources as bytes.\<close>

definition bs :: "string \<Rightarrow> byte list" where
  "bs s = map of_char s"

abbreviation ch :: "char \<Rightarrow> byte" where
  "ch c \<equiv> of_char c"

text \<open>Collections the component theories fill: laws of byte codecs, of the buffer operations, and
  of the well-formedness invariants.\<close>

named_theorems codec_simps
named_theorems buf_simps
named_theorems inv_intros

section \<open>Faults and results\<close>

text \<open>
  \<open>Fatal\<close> is a call of \<open>fatal()\<close> with its message (the process logs and exits);
  the other constructors are undefined behaviour or a signal in C. \<open>Assert_failed\<close> is a failed
  \<open>assert\<close>; \<open>Use_after_free\<close> is the use of an object that was given back, or the removal of an element
  from a list it is not on. \<open>Out_of_fuel\<close> marks a recursion the model cut off; the theorems show where it cannot occur.
\<close>

datatype fault =
    Fatal string
  | Out_of_bounds
  | Null_deref
  | Div_by_zero
  | Assert_failed
  | Use_after_free
  | Out_of_fuel

type_synonym 'a res = "fault + 'a"

definition rbind :: "'a res \<Rightarrow> ('a \<Rightarrow> 'b res) \<Rightarrow> 'b res" where
  "rbind m f = (case m of Inl e \<Rightarrow> Inl e | Inr x \<Rightarrow> f x)"

lemma rbind_simps [simp]:
  "rbind (Inl e) f = Inl e"
  "rbind (Inr x) f = f x"
  by (simp_all add: rbind_def)

lemma rbind_eq_Inr: "rbind m f = Inr y \<longleftrightarrow> (\<exists>x. m = Inr x \<and> f x = Inr y)"
  by (cases m) simp_all

lemma rbind_cong [fundef_cong]:
  "m = m' \<Longrightarrow> (\<And>x. m' = Inr x \<Longrightarrow> f x = f' x) \<Longrightarrow> rbind m f = rbind m' f'"
  by (cases m') simp_all

text \<open>The integer result codes of \<open>kore.h\<close>.\<close>

definition KORE_RESULT_ERROR :: int where "KORE_RESULT_ERROR = 0"
definition KORE_RESULT_OK :: int where "KORE_RESULT_OK = 1"
definition KORE_RESULT_RETRY :: int where "KORE_RESULT_RETRY = 2"

lemmas kore_results = KORE_RESULT_ERROR_def KORE_RESULT_OK_def KORE_RESULT_RETRY_def

lemma kore_results_distinct [simp]:
  "KORE_RESULT_ERROR \<noteq> KORE_RESULT_OK" "KORE_RESULT_OK \<noteq> KORE_RESULT_ERROR"
  "KORE_RESULT_ERROR \<noteq> KORE_RESULT_RETRY" "KORE_RESULT_RETRY \<noteq> KORE_RESULT_ERROR"
  "KORE_RESULT_OK \<noteq> KORE_RESULT_RETRY" "KORE_RESULT_RETRY \<noteq> KORE_RESULT_OK"
  by (simp_all add: kore_results)

section \<open>The C library: characters and strings\<close>

definition isspace :: "byte \<Rightarrow> bool" where
  "isspace c \<longleftrightarrow> c = 32 \<or> (9 \<le> c \<and> c \<le> 13)"

definition isdigit :: "byte \<Rightarrow> bool" where
  "isdigit c \<longleftrightarrow> 48 \<le> c \<and> c \<le> 57"

definition isxdigit :: "byte \<Rightarrow> bool" where
  "isxdigit c \<longleftrightarrow> isdigit c \<or> (65 \<le> c \<and> c \<le> 70) \<or> (97 \<le> c \<and> c \<le> 102)"

definition tolower :: "byte \<Rightarrow> byte" where
  "tolower c = (if 65 \<le> c \<and> c \<le> 90 then c + 32 else c)"

text \<open>\<open>strcasecmp\<close> and \<open>strncasecmp\<close>, used only for their zero result.\<close>

definition strcaseeq :: "byte list \<Rightarrow> byte list \<Rightarrow> bool" where
  "strcaseeq a b \<longleftrightarrow> map tolower a = map tolower b"

definition strncaseeq :: "byte list \<Rightarrow> byte list \<Rightarrow> nat \<Rightarrow> bool" where
  "strncaseeq a b n \<longleftrightarrow> map tolower (take n a) = map tolower (take n b)"

definition strneq :: "byte list \<Rightarrow> byte list \<Rightarrow> nat \<Rightarrow> bool" where
  "strneq a b n \<longleftrightarrow> take n a = take n b"

text \<open>\<open>strchr\<close>: the suffix that starts at the first occurrence.\<close>

fun strchr :: "byte list \<Rightarrow> byte \<Rightarrow> byte list option" where
  "strchr [] c = None"
| "strchr (x # xs) c = (if x = c then Some (x # xs) else strchr xs c)"

lemma strchr_Some_iff: "strchr s c = Some t \<longleftrightarrow> (\<exists>p. s = p @ c # tl t \<and> t = c # tl t \<and> c \<notin> set p)"
proof (induction s)
  case (Cons x xs)
  show ?case
  proof (cases "x = c")
    case True
    have "(\<exists>p. x # xs = p @ c # tl t \<and> t = c # tl t \<and> c \<notin> set p) \<longleftrightarrow> t = x # xs"
    proof
      assume "\<exists>p. x # xs = p @ c # tl t \<and> t = c # tl t \<and> c \<notin> set p"
      then obtain p where p: "x # xs = p @ c # tl t" "t = c # tl t" "c \<notin> set p" by blast
      with True have "p = []" by (cases p) auto
      with p show "t = x # xs" by simp
    next
      assume "t = x # xs"
      with True show "\<exists>p. x # xs = p @ c # tl t \<and> t = c # tl t \<and> c \<notin> set p"
        by (intro exI [of _ "[]"]) simp
    qed
    with True show ?thesis by auto
  next
    case False
    have "(\<exists>p. x # xs = p @ c # tl t \<and> t = c # tl t \<and> c \<notin> set p)
      \<longleftrightarrow> (\<exists>p. xs = p @ c # tl t \<and> t = c # tl t \<and> c \<notin> set p)"
    proof
      assume "\<exists>p. x # xs = p @ c # tl t \<and> t = c # tl t \<and> c \<notin> set p"
      then obtain p where p: "x # xs = p @ c # tl t" "t = c # tl t" "c \<notin> set p" by blast
      with False have "xs = tl p @ c # tl t" "c \<notin> set (tl p)" by (cases p; auto)+
      with p(2) show "\<exists>p. xs = p @ c # tl t \<and> t = c # tl t \<and> c \<notin> set p" by blast
    next
      assume "\<exists>p. xs = p @ c # tl t \<and> t = c # tl t \<and> c \<notin> set p"
      then obtain p where "xs = p @ c # tl t" "t = c # tl t" "c \<notin> set p" by blast
      with False show "\<exists>p. x # xs = p @ c # tl t \<and> t = c # tl t \<and> c \<notin> set p"
        by (intro exI [of _ "x # p"]) auto
    qed
    with False Cons.IH show ?thesis by simp
  qed
qed simp

lemma strchr_None_iff: "strchr s c = None \<longleftrightarrow> c \<notin> set s"
  by (induction s) auto

section \<open>Blocks of memory\<close>

text \<open>\<open>memcpy(xs + off, d, length d)\<close>: the caller has checked that the copy fits.\<close>

definition memcpy_at :: "'a list \<Rightarrow> nat \<Rightarrow> 'a list \<Rightarrow> 'a list" where
  "memcpy_at xs off d = take off xs @ d @ drop (off + length d) xs"

lemma length_memcpy_at [simp]:
  "off + length d \<le> length xs \<Longrightarrow> length (memcpy_at xs off d) = length xs"
  by (simp add: memcpy_at_def)

lemma take_memcpy_at [simp]:
  "off \<le> length xs \<Longrightarrow> take (off + length d) (memcpy_at xs off d) = take off xs @ d"
  by (simp add: memcpy_at_def)

text \<open>Fresh memory holds whatever was there before: \<open>junk\<close> says what.\<close>

definition fresh :: "(nat \<Rightarrow> byte) \<Rightarrow> nat \<Rightarrow> byte list" where
  "fresh junk n = map junk [0..<n]"

lemma length_fresh [simp]: "length (fresh junk n) = n"
  by (simp add: fresh_def)

section \<open>Sizes\<close>

text \<open>\<open>size_t\<close> and \<open>u_int64_t\<close> arithmetic on naturals with the wrap-around written out, for the
  counters and sizes that never take part in bit operations.\<close>

definition SIZE_MAX :: nat where "SIZE_MAX = 2 ^ 64 - 1"

definition wadd64 :: "nat \<Rightarrow> nat \<Rightarrow> nat" where
  "wadd64 a b = (a + b) mod 2 ^ 64"

definition wsub64 :: "nat \<Rightarrow> nat \<Rightarrow> nat" where
  "wsub64 a b = (if b \<le> a then a - b else 2 ^ 64 + a - b) mod 2 ^ 64"

lemma wadd64_small [simp]: "a + b < 2 ^ 64 \<Longrightarrow> wadd64 a b = a + b"
  by (simp add: wadd64_def)

lemma wsub64_small [simp]: "b \<le> a \<Longrightarrow> a < 2 ^ 64 \<Longrightarrow> wsub64 a b = a - b"
  by (simp add: wsub64_def)

lemma wadd64_lt [simp]: "wadd64 a b < 2 ^ 64"
  by (simp add: wadd64_def)

lemma wsub64_lt [simp]: "wsub64 a b < 2 ^ 64"
  by (simp add: wsub64_def)

section \<open>Words\<close>

lemma unat_bound: "unat (a :: 'a::len word) < 2 ^ LENGTH('a)"
  by (rule unsigned_less)

lemma add_no_wrap_iff:
  fixes a b :: "'a::len word"
  shows "a + b < b \<longleftrightarrow> 2 ^ LENGTH('a) \<le> unat a + unat b"
proof -
  let ?M = "2 ^ LENGTH('a) :: nat"
  have sum: "unat (a + b) = (unat a + unat b) mod ?M" by (rule unat_word_ariths)
  have bounds: "unat a < ?M" "unat b < ?M" by (rule unat_bound)+
  show ?thesis
  proof (cases "?M \<le> unat a + unat b")
    case True
    then have "(unat a + unat b) mod ?M = (unat a + unat b - ?M) mod ?M" by (rule le_mod_geq)
    also have "\<dots> = unat a + unat b - ?M" using bounds by (intro mod_less) linarith
    finally have "unat (a + b) < unat b" using sum bounds True by linarith
    with True show ?thesis by (simp add: word_less_nat_alt)
  next
    case False
    then have "(unat a + unat b) mod ?M = unat a + unat b" by (intro mod_less) linarith
    with sum False show ?thesis by (simp add: word_less_nat_alt)
  qed
qed

lemma unat_add_no_wrap:
  fixes a b :: "'a::len word"
  assumes "\<not> a + b < b"
  shows "unat (a + b) = unat a + unat b"
proof -
  from assms have "unat a + unat b < 2 ^ LENGTH('a)" by (simp add: add_no_wrap_iff not_le)
  then show ?thesis by (simp add: unat_word_ariths)
qed

lemma unat_of_nat_len [simp]: "n < 2 ^ 64 \<Longrightarrow> unat (of_nat n :: u64) = n"
  by (simp add: unat_of_nat take_bit_nat_eq_self)

section \<open>The codec interface\<close>

text \<open>The round-trip contract the encoders of the code base share.\<close>

locale text_codec =
  fixes valid :: "'a \<Rightarrow> bool" and encode :: "'a \<Rightarrow> byte list" and decode :: "byte list \<Rightarrow> 'a option"
  assumes decode_encode: "valid x \<Longrightarrow> decode (encode x) = Some x"
begin

lemma encode_inj: "valid x \<Longrightarrow> valid y \<Longrightarrow> encode x = encode y \<Longrightarrow> x = y"
  by (metis decode_encode option.inject)

lemma encode_eq_iff: "valid x \<Longrightarrow> valid y \<Longrightarrow> encode x = encode y \<longleftrightarrow> x = y"
  using encode_inj by blast

end

section \<open>The byte sink interface\<close>

locale byte_sink =
  fixes inv :: "'b \<Rightarrow> bool"
    and room :: "'b \<Rightarrow> nat \<Rightarrow> bool"
    and put :: "'b \<Rightarrow> byte list \<Rightarrow> 'b res"
    and contents :: "'b \<Rightarrow> byte list"
  assumes put_total: "inv b \<Longrightarrow> room b (length d) \<Longrightarrow> \<exists>b'. put b d = Inr b'"
    and put_inv: "inv b \<Longrightarrow> room b (length d) \<Longrightarrow> put b d = Inr b' \<Longrightarrow> inv b'"
    and put_contents: "inv b \<Longrightarrow> room b (length d) \<Longrightarrow> put b d = Inr b' \<Longrightarrow>
          contents b' = contents b @ d"
    and room_put: "inv b \<Longrightarrow> room b (length d + n) \<Longrightarrow> put b d = Inr b' \<Longrightarrow> room b' n"
    and room_mono: "room b n \<Longrightarrow> m \<le> n \<Longrightarrow> room b m"
begin

text \<open>Writing a list of chunks one by one.\<close>

fun put_all :: "'b \<Rightarrow> byte list list \<Rightarrow> 'b res" where
  "put_all b [] = Inr b"
| "put_all b (d # ds) = rbind (put b d) (\<lambda>b'. put_all b' ds)"

lemma put_all_contents:
  "inv b \<Longrightarrow> room b (length (concat ds)) \<Longrightarrow>
    \<exists>b'. put_all b ds = Inr b' \<and> inv b' \<and> contents b' = contents b @ concat ds"
proof (induction ds arbitrary: b)
  case (Cons d ds)
  then have rd: "room b (length d + length (concat ds))" by simp
  then have r: "room b (length d)" by (rule room_mono) simp
  with put_total Cons.prems(1) obtain b1 where p: "put b d = Inr b1" by blast
  from Cons.IH [OF put_inv [OF Cons.prems(1) r p] room_put [OF Cons.prems(1) rd p]]
  show ?case using p put_contents [OF Cons.prems(1) r p] by auto
qed simp

text \<open>A sound sink that holds \<open>cs\<close> and takes \<open>n\<close> more bytes.\<close>

definition holds :: "'b \<Rightarrow> byte list \<Rightarrow> nat \<Rightarrow> bool" where
  "holds b cs n \<longleftrightarrow> inv b \<and> contents b = cs \<and> room b n"

lemma holds_put:
  assumes "holds b cs (length d + n)"
  shows "\<exists>b'. put b d = Inr b' \<and> holds b' (cs @ d) n"
proof -
  from assms have b: "inv b" "contents b = cs" "room b (length d + n)" by (auto simp: holds_def)
  then have r: "room b (length d)" by (meson le_add1 room_mono)
  with put_total b(1) obtain b1 where p: "put b d = Inr b1" by blast
  with put_inv [OF b(1) r p] put_contents [OF b(1) r p] room_put [OF b(1,3) p] b(2) show ?thesis
    by (auto simp: holds_def)
qed

lemma holds_mono: "holds b cs n \<Longrightarrow> m \<le> n \<Longrightarrow> holds b cs m"
  using room_mono by (auto simp: holds_def)

end

end
