(* ===== verification/Kore_Pool.thy ===== *)
theory Kore_Pool
  imports Kore_Prelude
begin

text \<open>
  The fixed-size object pools of \<open>base/kore/pool.c\<close>. A pool carves regions obtained from
  \<open>mmap\<close> into elements of \<open>slen\<close> bytes, each an entry header followed by \<open>elen\<close> bytes for the
  client; free elements are on a list. Addresses are naturals, the \<open>state\<close> fields of the entry
  headers are the partial map \<open>estate\<close>, and the answer of the operating system to the one
  \<open>mmap\<close> call an operation can make is the argument \<open>mm\<close> (\<open>None\<close> for \<open>MAP_FAILED\<close>).

  The interface \<open>slot_allocator\<close> states what clients rely on; its interpretation at the end is
  the pool itself.
\<close>

section \<open>The allocator interface\<close>

text \<open>What a client of an allocator relies on: an allocation is not live before and is live
  after, releasing a live address works and ends its life, releasing a dead one is a fault.\<close>

locale slot_allocator =
  fixes inv :: "'s \<Rightarrow> bool"
    and ok_env :: "'s \<Rightarrow> 'e \<Rightarrow> bool"
    and alloc :: "'e \<Rightarrow> 's \<Rightarrow> ('s \<times> nat) res"
    and release :: "'s \<Rightarrow> nat \<Rightarrow> 's res"
    and live :: "'s \<Rightarrow> nat set"
  assumes alloc_inv: "inv s \<Longrightarrow> ok_env s e \<Longrightarrow> alloc e s = Inr (s', a) \<Longrightarrow> inv s'"
    and alloc_fresh: "inv s \<Longrightarrow> ok_env s e \<Longrightarrow> alloc e s = Inr (s', a) \<Longrightarrow> a \<notin> live s"
    and alloc_live: "inv s \<Longrightarrow> ok_env s e \<Longrightarrow> alloc e s = Inr (s', a) \<Longrightarrow>
          live s' = insert a (live s)"
    and release_total: "inv s \<Longrightarrow> a \<in> live s \<Longrightarrow> \<exists>s'. release s a = Inr s'"
    and release_inv: "inv s \<Longrightarrow> release s a = Inr s' \<Longrightarrow> inv s'"
    and release_live: "inv s \<Longrightarrow> release s a = Inr s' \<Longrightarrow> a \<in> live s \<and> live s' = live s - {a}"
begin

text \<open>A run of allocations, each answered by its own environment.\<close>

fun alloc_all :: "'e list \<Rightarrow> 's \<Rightarrow> ('s \<times> nat list) res" where
  "alloc_all [] s = Inr (s, [])"
| "alloc_all (e # es) s =
     rbind (alloc e s) (\<lambda>(s', a). rbind (alloc_all es s') (\<lambda>(s'', as). Inr (s'', a # as)))"

fun ok_envs :: "'e list \<Rightarrow> 's \<Rightarrow> bool" where
  "ok_envs [] s = True"
| "ok_envs (e # es) s = (ok_env s e \<and> (\<forall>s' a. alloc e s = Inr (s', a) \<longrightarrow> ok_envs es s'))"

lemma alloc_all_distinct:
  "inv s \<Longrightarrow> ok_envs es s \<Longrightarrow> alloc_all es s = Inr (s', as) \<Longrightarrow>
    distinct as \<and> set as \<inter> live s = {} \<and> live s' = set as \<union> live s \<and> inv s'"
proof (induction es arbitrary: s as)
  case (Cons e es)
  from Cons.prems(3) obtain s1 a as1 where
      step: "alloc e s = Inr (s1, a)" and rest: "alloc_all es s1 = Inr (s', as1)"
      and as: "as = a # as1"
    by (auto simp: rbind_eq_Inr)
  from Cons.prems(2) have env: "ok_env s e" by simp
  note fr = alloc_fresh [OF Cons.prems(1) env step]
    and lv = alloc_live [OF Cons.prems(1) env step]
    and iv = alloc_inv [OF Cons.prems(1) env step]
  have "ok_envs es s1" using Cons.prems(2) step by simp
  note IH = Cons.IH [OF iv this rest]
  from IH fr lv as show ?case by auto
qed simp

lemma release_alloc:
  "inv s \<Longrightarrow> ok_env s e \<Longrightarrow> alloc e s = Inr (s1, a) \<Longrightarrow>
    \<exists>s2. release s1 a = Inr s2 \<and> live s2 = live s \<and> inv s2"
  using alloc_inv alloc_fresh alloc_live release_total release_live release_inv
  by (metis Diff_insert_absorb insertI1)

lemma double_release:
  "inv s \<Longrightarrow> release s a = Inr s' \<Longrightarrow> \<exists>f. release s' a = Inl f"
  using release_live release_inv by (metis Diff_iff insertI1 sum.exhaust)

end

section \<open>State\<close>

datatype pool_state = POOL_ELEMENT_BUSY | POOL_ELEMENT_FREE

record kore_pool_region =
  reg_start :: nat
  reg_length :: nat

record kore_pool =
  elen :: nat
  slen :: nat
  elms :: nat
  inuse :: nat
  pool_name :: "string option"
  regions :: "kore_pool_region list"
  freelist :: "nat list"
  estate :: "nat \<rightharpoonup> pool_state"

text \<open>\<open>sizeof(struct kore_pool_entry)\<close> on LP64: the state byte padded to 8, the region pointer and
  the two pointers of the list entry.\<close>

definition sizeof_pool_entry :: nat where
  "sizeof_pool_entry = 32"

section \<open>Operations\<close>

text \<open>The loop of \<open>pool_region_create\<close>: \<open>n\<close> more entries from \<open>p\<close> on.\<close>

fun region_fill :: "nat \<Rightarrow> nat \<Rightarrow> kore_pool \<Rightarrow> kore_pool" where
  "region_fill 0 p pool = pool"
| "region_fill (Suc n) p pool =
     region_fill n (p + slen pool)
       (pool\<lparr>estate := (estate pool)(p \<mapsto> POOL_ELEMENT_FREE), freelist := p # freelist pool\<rparr>)"

definition pool_region_create :: "(nat \<Rightarrow> nat option) \<Rightarrow> kore_pool \<Rightarrow> nat \<Rightarrow> kore_pool res" where
  "pool_region_create mm pool n =
     (if n = 0 then Inl Div_by_zero
      else if SIZE_MAX div n < slen pool then Inl (Fatal ''pool_region_create: overflow'')
      else let len = n * slen pool in
        case mm len of
          None \<Rightarrow> Inl Out_of_bounds
        | Some start \<Rightarrow>
            (if start = 0 then Inl (Fatal ''mmap'')
             else let pool1 = pool\<lparr>regions := \<lparr>reg_start = start, reg_length = len\<rparr> # regions pool\<rparr>;
                      pool2 = region_fill n start pool1
                  in Inr (pool2\<lparr>elms := wadd64 (elms pool2) n\<rparr>)))"

text \<open>\<open>MAP_FAILED\<close> is \<open>(void *)-1\<close>, which the test against \<open>NULL\<close> lets through; the first
  header write then faults.\<close>

definition kore_pool_init ::
    "(nat \<Rightarrow> nat option) \<Rightarrow> string \<Rightarrow> nat \<Rightarrow> nat \<Rightarrow> kore_pool res" where
  "kore_pool_init mm name len elm =
     pool_region_create mm
       \<lparr>elen = len, slen = wadd64 len sizeof_pool_entry, elms = 0, inuse = 0,
        pool_name = Some name, regions = [], freelist = [], estate = Map.empty\<rparr> elm"

text \<open>Unmapping the regions one by one also ends the life of every header in them.\<close>

fun unmap_regions :: "kore_pool_region list \<Rightarrow> (nat \<rightharpoonup> pool_state) \<Rightarrow> (nat \<rightharpoonup> pool_state)" where
  "unmap_regions [] m = m"
| "unmap_regions (r # rs) m =
     unmap_regions rs (m |` {a. a < reg_start r \<or> reg_start r + reg_length r \<le> a})"

definition pool_region_destroy :: "kore_pool \<Rightarrow> kore_pool" where
  "pool_region_destroy pool =
     pool\<lparr>estate := unmap_regions (regions pool) (estate pool), regions := [], freelist := [],
          elms := 0\<rparr>"

definition kore_pool_cleanup :: "kore_pool \<Rightarrow> kore_pool" where
  "kore_pool_cleanup pool =
     pool_region_destroy
       (pool\<lparr>elms := 0, inuse := 0, elen := 0, slen := 0, pool_name := None\<rparr>)"

definition kore_pool_get :: "(nat \<Rightarrow> nat option) \<Rightarrow> kore_pool \<Rightarrow> (kore_pool \<times> nat) res" where
  "kore_pool_get mm pool =
     rbind (if freelist pool = [] then pool_region_create mm pool (elms pool) else Inr pool)
       (\<lambda>pool1. case freelist pool1 of
           [] \<Rightarrow> Inl Null_deref
         | entry # rest \<Rightarrow>
             (if estate pool1 entry \<noteq> Some POOL_ELEMENT_FREE then Inl (Fatal ''element was not free'')
              else Inr (pool1\<lparr>freelist := rest,
                             estate := (estate pool1)(entry \<mapsto> POOL_ELEMENT_BUSY),
                             inuse := wadd64 (inuse pool1) 1\<rparr>,
                        entry + sizeof_pool_entry)))"

definition kore_pool_put :: "kore_pool \<Rightarrow> nat \<Rightarrow> kore_pool res" where
  "kore_pool_put pool ptr =
     (if ptr < sizeof_pool_entry then Inl Out_of_bounds
      else let entry = ptr - sizeof_pool_entry in
        case estate pool entry of
          None \<Rightarrow> Inl Out_of_bounds
        | Some POOL_ELEMENT_FREE \<Rightarrow> Inl (Fatal ''element was not busy'')
        | Some POOL_ELEMENT_BUSY \<Rightarrow>
            Inr (pool\<lparr>estate := (estate pool)(entry \<mapsto> POOL_ELEMENT_FREE),
                      freelist := entry # freelist pool,
                      inuse := wsub64 (inuse pool) 1\<rparr>))"


section \<open>Invariant\<close>

text \<open>Entries are at least an element apart, so the client areas of two entries never overlap.\<close>

definition spaced :: "nat \<Rightarrow> nat set \<Rightarrow> bool" where
  "spaced d A \<longleftrightarrow> (\<forall>a\<in>A. \<forall>b\<in>A. a \<noteq> b \<longrightarrow> a + d \<le> b \<or> b + d \<le> a)"

definition in_regions :: "kore_pool \<Rightarrow> nat \<Rightarrow> bool" where
  "in_regions pool a \<longleftrightarrow>
     (\<exists>r\<in>set (regions pool). reg_start r \<le> a \<and> a + slen pool \<le> reg_start r + reg_length r)"

definition pool_ok :: "kore_pool \<Rightarrow> bool" where
  "pool_ok pool \<longleftrightarrow>
     slen pool = elen pool + sizeof_pool_entry \<and>
     distinct (freelist pool) \<and>
     set (freelist pool) = {a. estate pool a = Some POOL_ELEMENT_FREE} \<and>
     finite (dom (estate pool)) \<and>
     elms pool = card (dom (estate pool)) \<and> elms pool < 2 ^ 64 \<and>
     inuse pool = card {a. estate pool a = Some POOL_ELEMENT_BUSY} \<and>
     spaced (slen pool) (dom (estate pool)) \<and>
     (\<forall>a\<in>dom (estate pool). in_regions pool a)"

text \<open>The pointers a client holds: the addresses after the headers of busy elements.\<close>

definition pool_live :: "kore_pool \<Rightarrow> nat set" where
  "pool_live pool = {a + sizeof_pool_entry | a. estate pool a = Some POOL_ELEMENT_BUSY}"

text \<open>What \<open>mmap\<close> promises: a new mapping does not overlap the ones in use.\<close>

definition mmap_ok :: "kore_pool \<Rightarrow> (nat \<Rightarrow> nat option) \<Rightarrow> bool" where
  "mmap_ok pool mm \<longleftrightarrow>
     (\<forall>len start. mm len = Some start \<longrightarrow>
        (\<forall>r\<in>set (regions pool). start + len \<le> reg_start r \<or> reg_start r + reg_length r \<le> start))"

lemma pool_okD:
  assumes "pool_ok pool"
  shows "slen pool = elen pool + sizeof_pool_entry"
    and "distinct (freelist pool)"
    and "set (freelist pool) = {a. estate pool a = Some POOL_ELEMENT_FREE}"
    and "finite (dom (estate pool))"
    and "elms pool = card (dom (estate pool))"
    and "elms pool < 2 ^ 64"
    and "inuse pool = card {a. estate pool a = Some POOL_ELEMENT_BUSY}"
    and "spaced (slen pool) (dom (estate pool))"
    and "a \<in> dom (estate pool) \<Longrightarrow> in_regions pool a"
  using assms unfolding pool_ok_def by blast+

lemma pool_ok_slen: "pool_ok pool \<Longrightarrow> 32 \<le> slen pool"
  by (simp add: pool_okD(1) sizeof_pool_entry_def)

section \<open>Creating regions\<close>

definition fill_entries :: "nat \<Rightarrow> nat \<Rightarrow> nat \<Rightarrow> nat list" where
  "fill_entries n p d = map (\<lambda>i. p + i * d) [0..<n]"

lemma fill_entries_Suc: "fill_entries (Suc n) p d = p # fill_entries n (p + d) d"
  by (simp add: fill_entries_def map_Suc_upt [symmetric] upt_conv_Cons del: upt_Suc)

lemma fill_entries_0 [simp]: "fill_entries 0 p d = []"
  by (simp add: fill_entries_def)

lemma region_fill_freelist:
  "freelist (region_fill n p pool) = rev (fill_entries n p (slen pool)) @ freelist pool"
  by (induction n p pool rule: region_fill.induct) (simp_all add: fill_entries_Suc)

lemma region_fill_estate:
  "estate (region_fill n p pool) a =
     (if a \<in> set (fill_entries n p (slen pool)) then Some POOL_ELEMENT_FREE else estate pool a)"
  by (induction n p pool arbitrary: a rule: region_fill.induct) (auto simp: fill_entries_Suc)

lemma region_fill_frame [simp]:
  "elen (region_fill n p pool) = elen pool"
  "slen (region_fill n p pool) = slen pool"
  "elms (region_fill n p pool) = elms pool"
  "inuse (region_fill n p pool) = inuse pool"
  "regions (region_fill n p pool) = regions pool"
  by (induction n p pool rule: region_fill.induct) simp_all

lemma fill_entries_distinct: "0 < d \<Longrightarrow> distinct (fill_entries n p d)"
  by (auto simp: fill_entries_def distinct_map inj_on_def)

lemma fill_entries_within: "a \<in> set (fill_entries n p d) \<Longrightarrow> p \<le> a \<and> a + d \<le> p + n * d"
proof -
  assume "a \<in> set (fill_entries n p d)"
  then obtain i where i: "i < n" "a = p + i * d" by (auto simp: fill_entries_def)
  then have "Suc i * d \<le> n * d" by (intro mult_le_mono1) simp
  with i show ?thesis by simp
qed

lemma fill_entries_spaced: "spaced d (set (fill_entries n p d))"
proof -
  have "p + i * d + d \<le> p + j * d" if "i < j" for i j
    using mult_le_mono1 [of "Suc i" j d] that by simp
  then show ?thesis
    unfolding spaced_def fill_entries_def by (auto simp: linorder_neq_iff)
qed

lemma spaced_Un:
  "spaced d A \<Longrightarrow> spaced d B \<Longrightarrow> (\<And>a b. a \<in> A \<Longrightarrow> b \<in> B \<Longrightarrow> a + d \<le> b \<or> b + d \<le> a) \<Longrightarrow>
    spaced d (A \<union> B)"
  unfolding spaced_def by blast

lemma region_create_fits:
  assumes "d \<le> SIZE_MAX div n"
  shows "n * d \<le> SIZE_MAX"
proof -
  have "n * d \<le> n * (SIZE_MAX div n)" using assms by (rule mult_le_mono2)
  also have "\<dots> \<le> SIZE_MAX" by (rule times_div_less_eq_dividend)
  finally show ?thesis .
qed

text \<open>The pool after a region of \<open>n\<close> entries was mapped at \<open>start\<close>.\<close>

definition region_added :: "kore_pool \<Rightarrow> nat \<Rightarrow> nat \<Rightarrow> kore_pool" where
  "region_added pool n start =
     (let pool2 = region_fill n start
        (pool\<lparr>regions := \<lparr>reg_start = start, reg_length = n * slen pool\<rparr> # regions pool\<rparr>)
      in pool2\<lparr>elms := wadd64 (elms pool2) n\<rparr>)"

lemma pool_region_create_Inr:
  "pool_region_create mm pool n = Inr pool' \<longleftrightarrow>
     n \<noteq> 0 \<and> slen pool \<le> SIZE_MAX div n \<and>
     (\<exists>start. start \<noteq> 0 \<and> mm (n * slen pool) = Some start \<and> pool' = region_added pool n start)"
  by (auto simp: pool_region_create_def region_added_def Let_def not_less split: option.split)

lemma region_added_fields:
  "freelist (region_added pool n start) = rev (fill_entries n start (slen pool)) @ freelist pool"
  "slen (region_added pool n start) = slen pool"
  "elen (region_added pool n start) = elen pool"
  "inuse (region_added pool n start) = inuse pool"
  "elms (region_added pool n start) = wadd64 (elms pool) n"
  "regions (region_added pool n start) =
     \<lparr>reg_start = start, reg_length = n * slen pool\<rparr> # regions pool"
  "estate (region_added pool n start) a =
     (if a \<in> set (fill_entries n start (slen pool)) then Some POOL_ELEMENT_FREE else estate pool a)"
  by (simp_all add: region_added_def Let_def region_fill_freelist region_fill_estate)

lemma region_added_dom:
  "dom (estate (region_added pool n start)) =
     set (fill_entries n start (slen pool)) \<union> dom (estate pool)"
  by (auto simp: region_added_fields dom_def)

lemma region_added_apart:
  assumes "pool_ok pool" and "mmap_ok pool mm" and "mm (n * slen pool) = Some start"
    and "a \<in> set (fill_entries n start (slen pool))" and "b \<in> dom (estate pool)"
  shows "a + slen pool \<le> b \<or> b + slen pool \<le> a"
proof -
  obtain r where r: "r \<in> set (regions pool)" "reg_start r \<le> b"
      "b + slen pool \<le> reg_start r + reg_length r"
    using pool_okD(9) [OF assms(1,5)] by (auto simp: in_regions_def)
  from assms(2,3) r(1) have "start + n * slen pool \<le> reg_start r
      \<or> reg_start r + reg_length r \<le> start"
    by (auto simp: mmap_ok_def)
  with fill_entries_within [OF assms(4)] r show ?thesis by linarith
qed

lemma region_added_card:
  assumes "pool_ok pool" and "set (fill_entries n start (slen pool)) \<inter> dom (estate pool) = {}"
  shows "card (dom (estate (region_added pool n start))) = elms pool + n"
proof -
  from assms(1) have "0 < slen pool" by (simp add: pool_ok_def sizeof_pool_entry_def)
  then have "card (set (fill_entries n start (slen pool))) = n"
    by (simp add: distinct_card fill_entries_distinct) (simp add: fill_entries_def)
  with assms show ?thesis
    by (simp add: region_added_dom card_Un_disjoint pool_ok_def)
qed

text \<open>A successful region creation keeps the invariant: the element counter cannot wrap when at
  least as many elements are added as there were.\<close>

lemma pool_region_create_ok:
  assumes ok: "pool_ok pool" and env: "mmap_ok pool mm"
    and res: "pool_region_create mm pool n = Inr pool'" and cnt: "elms pool \<le> n"
  shows "pool_ok pool' \<and> freelist pool' \<noteq> [] \<and>
    (\<forall>a. estate pool' a = Some POOL_ELEMENT_BUSY \<longleftrightarrow> estate pool a = Some POOL_ELEMENT_BUSY)"
proof -
  let ?d = "slen pool" and ?D = "dom (estate pool)"
  from res obtain start where n: "n \<noteq> 0" and fit: "?d \<le> SIZE_MAX div n"
    and st: "mm (n * ?d) = Some start" and pool': "pool' = region_added pool n start"
    by (auto simp: pool_region_create_Inr)
  let ?F = "fill_entries n start ?d"
  note fields = region_added_fields [of pool n start, folded pool']
  have d: "32 \<le> ?d" using ok by (rule pool_ok_slen)
  note apart = region_added_apart [OF ok env st]
  have disj: "set ?F \<inter> ?D = {}"
  proof -
    have False if "a \<in> set ?F" "a \<in> ?D" for a using apart [OF that] d by simp
    then show ?thesis by blast
  qed
  have "n * 32 \<le> n * ?d" using d by simp
  also have "\<dots> \<le> SIZE_MAX" using fit by (rule region_create_fits)
  finally have room: "elms pool + n < 2 ^ 64" using cnt by (simp add: SIZE_MAX_def)
  have busy: "estate pool' a = Some POOL_ELEMENT_BUSY \<longleftrightarrow> estate pool a = Some POOL_ELEMENT_BUSY" for a
    using disj by (auto simp: fields)
  have free: "set (freelist pool') = {a. estate pool' a = Some POOL_ELEMENT_FREE}"
    using ok by (auto simp: fields pool_ok_def)
  have dist: "distinct (freelist pool')"
  proof -
    have "set ?F \<inter> set (freelist pool) = {}" using disj pool_okD(3) [OF ok] by auto
    moreover have "distinct ?F" using d by (intro fill_entries_distinct) simp
    ultimately show ?thesis using pool_okD(2) [OF ok] by (simp add: fields)
  qed
  have sp: "spaced ?d (dom (estate pool'))"
    unfolding pool' region_added_dom using apart ok
    by (intro spaced_Un fill_entries_spaced) (auto simp: pool_ok_def)
  have inr: "in_regions pool' a" if "a \<in> dom (estate pool')" for a
    using that unfolding pool' region_added_dom
  proof
    assume "a \<in> set ?F"
    then show "in_regions (region_added pool n start) a"
      using fill_entries_within by (auto simp: in_regions_def region_added_fields)
  next
    assume "a \<in> ?D"
    then have "in_regions pool a" by (rule pool_okD(9) [OF ok])
    then show "in_regions (region_added pool n start) a"
      unfolding in_regions_def region_added_fields by auto
  qed
  have "card (dom (estate pool')) = elms pool + n"
    unfolding pool' by (rule region_added_card [OF ok disj])
  moreover have "finite (dom (estate pool'))"
    using ok by (simp add: pool' region_added_dom pool_ok_def)
  moreover have "inuse pool' = card {a. estate pool' a = Some POOL_ELEMENT_BUSY}"
    unfolding busy using pool_okD(7) [OF ok] by (simp only: fields)
  ultimately have "pool_ok pool'"
    using ok free dist sp inr room by (simp add: pool_ok_def fields)
  moreover have "freelist pool' \<noteq> []" using n by (simp add: fields fill_entries_def)
  ultimately show ?thesis using busy by blast
qed

section \<open>Getting and putting elements\<close>

text \<open>Handing out the head of the free list.\<close>

definition entry_taken :: "kore_pool \<Rightarrow> nat \<Rightarrow> nat list \<Rightarrow> kore_pool" where
  "entry_taken pool entry rest =
     pool\<lparr>freelist := rest, estate := (estate pool)(entry \<mapsto> POOL_ELEMENT_BUSY),
          inuse := wadd64 (inuse pool) 1\<rparr>"

lemma entry_taken_fields [simp]:
  "freelist (entry_taken pool entry rest) = rest"
  "slen (entry_taken pool entry rest) = slen pool"
  "elen (entry_taken pool entry rest) = elen pool"
  "elms (entry_taken pool entry rest) = elms pool"
  "regions (entry_taken pool entry rest) = regions pool"
  "estate (entry_taken pool entry rest) = (estate pool)(entry \<mapsto> POOL_ELEMENT_BUSY)"
  "inuse (entry_taken pool entry rest) = wadd64 (inuse pool) 1"
  by (simp_all add: entry_taken_def)

lemma in_regions_cong:
  "regions p = regions q \<Longrightarrow> slen p = slen q \<Longrightarrow> in_regions p a = in_regions q a"
  by (simp add: in_regions_def)

lemma busy_le_elms:
  assumes "pool_ok pool" shows "card {a. estate pool a = Some POOL_ELEMENT_BUSY} \<le> elms pool"
proof -
  have "{a. estate pool a = Some POOL_ELEMENT_BUSY} \<subseteq> dom (estate pool)" by auto
  then show ?thesis using pool_okD(4,5) [OF assms] by (simp add: card_mono)
qed

lemma entry_taken_ok:
  assumes ok: "pool_ok pool" and fl: "freelist pool = entry # rest"
  shows "pool_ok (entry_taken pool entry rest)"
proof -
  let ?B = "{a. estate pool a = Some POOL_ELEMENT_BUSY}" and ?p = "entry_taken pool entry rest"
  have fr: "estate pool entry = Some POOL_ELEMENT_FREE" using pool_okD(3) [OF ok] fl by auto
  have dom: "dom (estate ?p) = dom (estate pool)" using fr by auto
  have fin: "finite ?B"
    using pool_okD(4) [OF ok] by (rule rev_finite_subset) auto
  have "{a. estate ?p a = Some POOL_ELEMENT_BUSY} = insert entry ?B" by auto
  then have card: "card {a. estate ?p a = Some POOL_ELEMENT_BUSY} = Suc (card ?B)"
    using fin fr by simp
  have "Suc (card ?B) \<le> elms pool"
  proof -
    have "insert entry ?B \<subseteq> dom (estate pool)" using fr by auto
    then have "card (insert entry ?B) \<le> card (dom (estate pool))"
      by (intro card_mono pool_okD(4) [OF ok])
    then show ?thesis using fin fr pool_okD(5) [OF ok] by simp
  qed
  then have "inuse ?p = Suc (card ?B)"
    using pool_okD(6,7) [OF ok] by simp
  moreover have "set rest = {a. estate ?p a = Some POOL_ELEMENT_FREE}"
    using pool_okD(2,3) [OF ok] fl by auto
  ultimately show ?thesis
    unfolding pool_ok_def dom card
    using pool_okD [OF ok] fl in_regions_cong [of ?p pool] by (auto simp del: dom_fun_upd)
qed

lemma pool_live_taken:
  "pool_live (entry_taken pool entry rest) = insert (entry + sizeof_pool_entry) (pool_live pool)"
  by (auto simp: pool_live_def)

text \<open>Every successful \<open>kore_pool_get\<close> takes an entry that was free, from a pool that satisfies the
  invariant and has the same elements in use.\<close>

lemma kore_pool_get_Inr:
  assumes ok: "pool_ok pool" and env: "mmap_ok pool mm"
    and res: "kore_pool_get mm pool = Inr (pool', ptr)"
  obtains pool1 entry rest where
    "pool_ok pool1" "freelist pool1 = entry # rest" "pool' = entry_taken pool1 entry rest"
    "ptr = entry + sizeof_pool_entry" "pool_live pool1 = pool_live pool"
proof -
  from res obtain pool1 where
      src: "(if freelist pool = [] then pool_region_create mm pool (elms pool) else Inr pool) = Inr pool1"
    and step: "(case freelist pool1 of [] \<Rightarrow> Inl Null_deref | entry # rest \<Rightarrow>
        if estate pool1 entry \<noteq> Some POOL_ELEMENT_FREE then Inl (Fatal ''element was not free'')
        else Inr (entry_taken pool1 entry rest, entry + sizeof_pool_entry)) = Inr (pool', ptr)"
    unfolding kore_pool_get_def rbind_eq_Inr entry_taken_def by blast
  from step obtain entry rest where get: "freelist pool1 = entry # rest"
      "pool' = entry_taken pool1 entry rest" "ptr = entry + sizeof_pool_entry"
    by (auto split: list.splits if_splits)
  have "pool_ok pool1 \<and> pool_live pool1 = pool_live pool"
  proof (cases "freelist pool = []")
    case True
    with src have "pool_region_create mm pool (elms pool) = Inr pool1" by simp
    from pool_region_create_ok [OF ok env this] show ?thesis by (simp add: pool_live_def)
  next
    case False
    with src ok show ?thesis by simp
  qed
  with get show thesis using that by blast
qed

lemma kore_pool_put_Inr:
  "kore_pool_put pool ptr = Inr pool' \<longleftrightarrow>
     (\<exists>entry. ptr = entry + sizeof_pool_entry \<and> estate pool entry = Some POOL_ELEMENT_BUSY \<and>
        pool' = pool\<lparr>estate := (estate pool)(entry \<mapsto> POOL_ELEMENT_FREE),
                     freelist := entry # freelist pool, inuse := wsub64 (inuse pool) 1\<rparr>)"
  by (auto simp: kore_pool_put_def Let_def split: option.split pool_state.split
      intro!: exI [of _ "ptr - sizeof_pool_entry"])

lemma kore_pool_put_ok:
  assumes ok: "pool_ok pool" and res: "kore_pool_put pool ptr = Inr pool'"
  shows "pool_ok pool'"
proof -
  from res obtain entry where bz: "estate pool entry = Some POOL_ELEMENT_BUSY"
    and pool': "pool' = pool\<lparr>estate := (estate pool)(entry \<mapsto> POOL_ELEMENT_FREE),
                     freelist := entry # freelist pool, inuse := wsub64 (inuse pool) 1\<rparr>"
    by (auto simp: kore_pool_put_Inr)
  let ?B = "{a. estate pool a = Some POOL_ELEMENT_BUSY}"
  have fin: "finite ?B" using pool_okD(4) [OF ok] by (rule rev_finite_subset) auto
  have dom: "dom (estate pool') = dom (estate pool)" using bz by (auto simp: pool')
  have "{a. estate pool' a = Some POOL_ELEMENT_BUSY} = ?B - {entry}" by (auto simp: pool')
  then have card: "card {a. estate pool' a = Some POOL_ELEMENT_BUSY} = card ?B - 1"
    using bz by simp
  have pos: "1 \<le> card ?B" using bz fin card_gt_0_iff [of ?B] by fastforce
  have "inuse pool' = card ?B - 1"
    using pos busy_le_elms [OF ok] pool_okD(6,7) [OF ok] by (simp add: pool')
  moreover have "set (freelist pool') = {a. estate pool' a = Some POOL_ELEMENT_FREE}"
    "distinct (freelist pool')"
    using pool_okD(2,3) [OF ok] bz by (auto simp: pool')
  moreover have "slen pool' = slen pool" "elen pool' = elen pool" "elms pool' = elms pool"
    "in_regions pool' = in_regions pool"
    by (simp_all add: pool' in_regions_def fun_eq_iff)
  ultimately show ?thesis
    unfolding pool_ok_def dom card using pool_okD [OF ok] by simp
qed

lemma kore_pool_put_live:
  "kore_pool_put pool ptr = Inr pool' \<Longrightarrow>
     ptr \<in> pool_live pool \<and> pool_live pool' = pool_live pool - {ptr}"
  by (auto simp: kore_pool_put_Inr pool_live_def split: if_splits)

section \<open>The pool is an allocator\<close>

interpretation pool: slot_allocator pool_ok mmap_ok kore_pool_get kore_pool_put pool_live
proof
  fix s s' :: kore_pool and e a
  assume ok: "pool_ok s" and env: "mmap_ok s e" and get: "kore_pool_get e s = Inr (s', a)"
  show "pool_ok s'"
    by (rule kore_pool_get_Inr [OF ok env get]) (simp add: entry_taken_ok)
  show "a \<notin> pool_live s"
  proof (rule kore_pool_get_Inr [OF ok env get])
    fix p1 entry rest
    assume p1: "pool_ok p1" "freelist p1 = entry # rest" "a = entry + sizeof_pool_entry"
      and live: "pool_live p1 = pool_live s"
    have "estate p1 entry = Some POOL_ELEMENT_FREE" using pool_okD(3) [OF p1(1)] p1(2) by auto
    with p1(3) have "a \<notin> pool_live p1" by (simp add: pool_live_def)
    with live show ?thesis by simp
  qed
  show "pool_live s' = insert a (pool_live s)"
    by (rule kore_pool_get_Inr [OF ok env get]) (simp add: pool_live_taken)
next
  fix s :: kore_pool and a
  assume "pool_ok s" "a \<in> pool_live s"
  then show "\<exists>s'. kore_pool_put s a = Inr s'"
    unfolding kore_pool_put_Inr by (auto simp: pool_live_def)
qed (auto dest: kore_pool_put_ok kore_pool_put_live)

section \<open>Pools over time\<close>

text \<open>The states a pool goes through: initialised, then any sequence of successful gets and puts. The
  second component is the set of pointers clients were handed and have not put back.\<close>

inductive pool_reach :: "kore_pool \<Rightarrow> nat set \<Rightarrow> bool" where
  init: "kore_pool_init mm name len elm = Inr pool \<Longrightarrow> len + sizeof_pool_entry < 2 ^ 64 \<Longrightarrow>
    pool_reach pool {}"
| get: "pool_reach pool H \<Longrightarrow> mmap_ok pool mm \<Longrightarrow> kore_pool_get mm pool = Inr (pool', ptr) \<Longrightarrow>
    pool_reach pool' (insert ptr H)"
| put: "pool_reach pool H \<Longrightarrow> kore_pool_put pool ptr = Inr pool' \<Longrightarrow>
    pool_reach pool' (H - {ptr})"

lemma kore_pool_init_ok:
  assumes "kore_pool_init mm name len elm = Inr pool" and "len + sizeof_pool_entry < 2 ^ 64"
  shows "pool_ok pool \<and> pool_live pool = {}"
proof -
  let ?p0 = "\<lparr>elen = len, slen = wadd64 len sizeof_pool_entry, elms = 0, inuse = 0,
        pool_name = Some name, regions = [], freelist = [], estate = Map.empty\<rparr>"
  have "pool_ok ?p0" using assms(2) by (simp add: pool_ok_def spaced_def)
  moreover have "mmap_ok ?p0 mm" by (simp add: mmap_ok_def)
  ultimately show ?thesis
    using pool_region_create_ok [of ?p0 mm elm pool] assms(1)
    by (simp add: kore_pool_init_def pool_live_def)
qed

lemma pool_reach_inv: "pool_reach pool H \<Longrightarrow> pool_ok pool \<and> pool_live pool = H"
proof (induction rule: pool_reach.induct)
  case (init mm name len elm pool)
  then show ?case by (rule kore_pool_init_ok)
next
  case (get pool H mm pool' ptr)
  then show ?case using pool.alloc_inv pool.alloc_live by blast
next
  case (put pool H ptr pool')
  then show ?case using pool.release_inv pool.release_live by blast
qed

lemma pool_live_apart:
  assumes ok: "pool_ok pool" and p: "p \<in> pool_live pool" and q: "q \<in> pool_live pool" and "p \<noteq> q"
  shows "p + elen pool + sizeof_pool_entry \<le> q \<or> q + elen pool + sizeof_pool_entry \<le> p"
proof -
  from p q obtain a b where ab: "p = a + sizeof_pool_entry" "q = b + sizeof_pool_entry"
      "a \<in> dom (estate pool)" "b \<in> dom (estate pool)"
    by (auto simp: pool_live_def)
  with \<open>p \<noteq> q\<close> pool_okD(8) [OF ok] have "a + slen pool \<le> b \<or> b + slen pool \<le> a"
    by (auto simp: spaced_def)
  with ab pool_okD(1) [OF ok] show ?thesis by linarith
qed

text \<open>(C8) Pools never hand out overlapping memory: in every state a pool can reach, the pointers held
  by clients are exactly the busy elements, their number is the \<open>inuse\<close> counter, and the
  \<open>elen\<close> bytes of any two of them (and the entry header in front) are disjoint.\<close>

theorem pool_reach_no_overlap:
  assumes "pool_reach pool H"
  shows "inuse pool = card H \<and>
    (\<forall>p q. p \<in> H \<and> q \<in> H \<and> p \<noteq> q \<longrightarrow>
      p + elen pool + sizeof_pool_entry \<le> q \<or> q + elen pool + sizeof_pool_entry \<le> p)"
proof -
  from pool_reach_inv [OF assms] have ok: "pool_ok pool" and live: "pool_live pool = H" by auto
  have "pool_live pool = (\<lambda>a. a + sizeof_pool_entry) ` {a. estate pool a = Some POOL_ELEMENT_BUSY}"
    by (auto simp: pool_live_def)
  then have "card H = card {a. estate pool a = Some POOL_ELEMENT_BUSY}"
    using live by (simp add: card_image)
  then have "inuse pool = card H" using pool_okD(7) [OF ok] by simp
  then show ?thesis using pool_live_apart [OF ok] live by simp
qed

lemma region_fill_numeral:
  "region_fill (numeral k) p pool = region_fill (pred_numeral k) (p + slen pool)
     (pool\<lparr>estate := (estate pool)(p \<mapsto> POOL_ELEMENT_FREE), freelist := p # freelist pool\<rparr>)"
  by (simp add: numeral_eq_Suc)

text \<open>A pool of two 8-byte elements mapped at 4096, with both elements handed out.\<close>

definition example_pool :: kore_pool where
  "example_pool = \<lparr>elen = 8, slen = 40, elms = 2, inuse = 0, pool_name = Some ''p'',
     regions = [\<lparr>reg_start = 4096, reg_length = 80\<rparr>], freelist = [4136, 4096],
     estate = [4096 \<mapsto> POOL_ELEMENT_FREE, 4136 \<mapsto> POOL_ELEMENT_FREE]\<rparr>"

lemma example_pool_reach: "pool_reach example_pool {}"
proof (rule pool_reach.init)
  show "kore_pool_init (\<lambda>_. Some 4096) ''p'' 8 2 = Inr example_pool"
    by (simp add: kore_pool_init_def pool_region_create_def SIZE_MAX_def sizeof_pool_entry_def
        region_fill_numeral example_pool_def)
qed (simp add: sizeof_pool_entry_def)

definition example_pool2 :: kore_pool where
  "example_pool2 = entry_taken (entry_taken example_pool 4136 [4096]) 4096 []"

lemma example_pool2_reach: "pool_reach example_pool2 {4128, 4168}"
proof -
  have mm: "mmap_ok p (\<lambda>_. None)" for p by (simp add: mmap_ok_def)
  have "pool_reach (entry_taken example_pool 4136 [4096]) (insert 4168 {})"
    by (rule pool_reach.get [OF example_pool_reach mm])
      (simp add: kore_pool_get_def example_pool_def entry_taken_def sizeof_pool_entry_def)
  then have "pool_reach example_pool2 (insert 4128 (insert 4168 {}))"
    unfolding example_pool2_def
    by (rule pool_reach.get [OF _ mm])
      (simp add: kore_pool_get_def example_pool_def entry_taken_def sizeof_pool_entry_def)
  then show ?thesis by simp
qed

theorem pool_reach_no_overlap_witness:
  "pool_reach example_pool2 {4128, 4168} \<and> inuse example_pool2 = card {4128, 4168 :: nat} \<and>
   (4128 + elen example_pool2 + sizeof_pool_entry \<le> 4168
    \<or> 4168 + elen example_pool2 + sizeof_pool_entry \<le> (4128 :: nat))"
proof -
  note no = pool_reach_no_overlap [OF example_pool2_reach]
  have "4128 + elen example_pool2 + sizeof_pool_entry \<le> 4168
    \<or> 4168 + elen example_pool2 + sizeof_pool_entry \<le> (4128 :: nat)"
    by (rule no [THEN conjunct2, rule_format]) simp
  with no example_pool2_reach show ?thesis by blast
qed

text \<open>A pool with a free element, or one whose doubling fits the address space and is mapped by
  the system, delivers an element that no client holds.\<close>

theorem kore_pool_get_delivers:
  assumes "pool_ok pool" and "mmap_ok pool mm"
    and "freelist pool \<noteq> [] \<or>
      0 < elms pool \<and> elms pool * slen pool \<le> SIZE_MAX \<and>
      (\<exists>start > 0. mm (elms pool * slen pool) = Some start)"
  shows "\<exists>pool' ptr. kore_pool_get mm pool = Inr (pool', ptr) \<and> ptr \<notin> pool_live pool"
proof -
  obtain pool1 where src:
      "(if freelist pool = [] then pool_region_create mm pool (elms pool) else Inr pool) = Inr pool1"
      and ok1: "pool_ok pool1" and ne: "freelist pool1 \<noteq> []"
  proof (cases "freelist pool = []")
    case True
    with assms(3) obtain start where "0 < elms pool" "slen pool \<le> SIZE_MAX div elms pool"
        "start \<noteq> 0" "mm (elms pool * slen pool) = Some start"
      by (auto simp: less_eq_div_iff_mult_less_eq mult.commute)
    then obtain p1 where "pool_region_create mm pool (elms pool) = Inr p1"
      by (auto simp: pool_region_create_Inr)
    with that True pool_region_create_ok [OF assms(1,2)] show ?thesis by force
  qed (use assms(1) that in auto)
  from ne obtain entry rest where fl: "freelist pool1 = entry # rest" by (cases "freelist pool1") auto
  with pool_okD(3) [OF ok1] have "estate pool1 entry = Some POOL_ELEMENT_FREE" by auto
  with src fl obtain pool' ptr where get: "kore_pool_get mm pool = Inr (pool', ptr)"
    by (simp add: kore_pool_get_def)
  with pool.alloc_fresh [OF assms(1,2) get] show ?thesis by blast
qed

theorem kore_pool_get_delivers_witness:
  "\<exists>pool' ptr. kore_pool_get (\<lambda>_. None) example_pool = Inr (pool', ptr) \<and>
     ptr \<notin> pool_live example_pool"
proof (rule kore_pool_get_delivers)
  show "pool_ok example_pool" using pool_reach_inv [OF example_pool_reach] by simp
qed (simp_all add: mmap_ok_def example_pool_def)

text \<open>Putting an element back twice is caught: the second put finds the element free and stops
  the process, whatever the pool.\<close>

theorem kore_pool_double_put:
  assumes "kore_pool_put pool ptr = Inr pool'"
  shows "kore_pool_put pool' ptr = Inl (Fatal ''element was not busy'')"
  using assms by (auto simp: kore_pool_put_Inr) (simp add: kore_pool_put_def)

theorem kore_pool_double_put_witness:
  "\<exists>pool'. kore_pool_put example_pool2 4128 = Inr pool' \<and>
     kore_pool_put pool' 4128 = Inl (Fatal ''element was not busy'')"
proof -
  have "\<exists>pool'. kore_pool_put example_pool2 4128 = Inr pool'"
    by (simp add: kore_pool_put_def example_pool2_def example_pool_def sizeof_pool_entry_def)
  with kore_pool_double_put show ?thesis by blast
qed

text \<open>After \<open>kore_pool_cleanup\<close> the pool has no elements, and the next \<open>kore_pool_get\<close> tries to
  double that number: the overflow test of \<open>pool_region_create\<close> divides by zero. The same
  happens for a pool initialised with no elements.\<close>

theorem kore_pool_get_after_cleanup:
  "kore_pool_get mm (kore_pool_cleanup pool) = Inl Div_by_zero \<and>
   kore_pool_init mm name len 0 = Inl Div_by_zero"
  by (simp add: kore_pool_get_def kore_pool_cleanup_def pool_region_destroy_def
      pool_region_create_def kore_pool_init_def)

end
