(* ===== verification/Kore_Buf.thy ===== *)
theory Kore_Buf
  imports Kore_Prelude
begin

text \<open>
  The growable byte buffers of \<open>base/kore/buf.c\<close> and the scanner \<open>kore_mem_find\<close> of
  \<open>base/kore/utils.c\<close> that they use. A buffer owns its block exclusively, so the block is a value
  inside the record: \<open>None\<close> is the \<open>NULL\<close> pointer, \<open>Some xs\<close> a block of \<open>length xs\<close> bytes. New
  bytes of a block come from \<open>junk\<close>, since \<open>kore_malloc\<close> does not clear memory.

  The interface \<open>byte_sink\<close> is what writers rely on; \<open>kore_buf\<close> is an instance.
\<close>

section \<open>Searching memory\<close>

text \<open>\<open>kore_mem_find\<close>: \<open>nd\<close> is the memory at \<open>needle\<close>, of which the first byte and then \<open>len\<close> bytes
  are read; the result is the offset of the match from \<open>src\<close>.\<close>

fun mem_find_from :: "nat \<Rightarrow> byte list \<Rightarrow> byte list \<Rightarrow> nat \<Rightarrow> nat option" where
  "mem_find_from pos [] nd len = None"
| "mem_find_from pos (x # xs) nd len =
     (if [x] \<noteq> take 1 nd then mem_find_from (Suc pos) xs nd len
      else if length (x # xs) < len then None
      else if take len (x # xs) = take len nd then Some pos
      else mem_find_from (Suc pos) xs nd len)"

definition kore_mem_find :: "byte list \<Rightarrow> byte list \<Rightarrow> nat \<Rightarrow> nat option" where
  "kore_mem_find src nd len = mem_find_from 0 src nd len"

section \<open>State\<close>

record kore_buf =
  bdata :: "byte list option"
  bflags :: int
  blength :: nat
  boffset :: nat

definition KORE_BUF_OWNER_API :: int where "KORE_BUF_OWNER_API = 1"

text \<open>\<open>kore_malloc\<close> and \<open>kore_realloc\<close> on an exclusively owned block.\<close>

definition malloc_block :: "(nat \<Rightarrow> byte) \<Rightarrow> nat \<Rightarrow> byte list res" where
  "malloc_block junk n = (if n = 0 then Inl (Fatal ''kore_malloc(): zero size'') else Inr (fresh junk n))"

definition realloc_block :: "(nat \<Rightarrow> byte) \<Rightarrow> byte list option \<Rightarrow> nat \<Rightarrow> byte list res" where
  "realloc_block junk old n =
     (if n = 0 then Inl (Fatal ''kore_realloc(): zero size'')
      else case old of
          None \<Rightarrow> malloc_block junk n
        | Some xs \<Rightarrow> rbind (malloc_block junk n)
            (\<lambda>ys. Inr (memcpy_at ys 0 (take (min n (length xs)) xs))))"

section \<open>Operations\<close>

definition kore_buf_init :: "(nat \<Rightarrow> byte) \<Rightarrow> nat \<Rightarrow> kore_buf res" where
  "kore_buf_init junk initial =
     rbind (if initial > 0 then rbind (malloc_block junk initial) (\<lambda>xs. Inr (Some xs)) else Inr None)
       (\<lambda>d. Inr \<lparr>bdata = d, bflags = 0, blength = initial, boffset = 0\<rparr>)"

definition kore_buf_alloc :: "(nat \<Rightarrow> byte) \<Rightarrow> nat \<Rightarrow> kore_buf res" where
  "kore_buf_alloc junk initial =
     rbind (kore_buf_init junk initial) (\<lambda>b. Inr (b\<lparr>bflags := KORE_BUF_OWNER_API\<rparr>))"

definition kore_buf_cleanup :: "kore_buf \<Rightarrow> kore_buf" where
  "kore_buf_cleanup b = b\<lparr>bdata := None, boffset := 0, blength := 0\<rparr>"

text \<open>\<open>kore_buf_free\<close>: the cleaned buffer, and whether the structure itself is freed too.\<close>

definition kore_buf_free :: "kore_buf \<Rightarrow> kore_buf \<times> bool" where
  "kore_buf_free b = (kore_buf_cleanup b, bflags b AND KORE_BUF_OWNER_API \<noteq> 0)"

text \<open>The growth shared by \<open>kore_buf_append\<close> and \<open>kore_buf_reserve\<close>, which have the same lines.\<close>

definition kore_buf_reserve :: "(nat \<Rightarrow> byte) \<Rightarrow> kore_buf \<Rightarrow> nat \<Rightarrow> (kore_buf \<times> nat) res" where
  "kore_buf_reserve junk b len =
     (if wadd64 (boffset b) len < len then Inl (Fatal ''overflow in kore_buf_append'')
      else rbind
        (if wadd64 (boffset b) len > blength b
         then let n = wadd64 (blength b) len in
           rbind (realloc_block junk (bdata b) n)
             (\<lambda>xs. Inr (b\<lparr>bdata := Some xs, blength := n\<rparr>))
         else Inr b)
        (\<lambda>b1. Inr (b1, boffset b1)))"

definition kore_buf_append :: "(nat \<Rightarrow> byte) \<Rightarrow> kore_buf \<Rightarrow> byte list \<Rightarrow> kore_buf res" where
  "kore_buf_append junk b d =
     rbind (kore_buf_reserve junk b (length d))
       (\<lambda>(b1, off). case bdata b1 of
           None \<Rightarrow> if d = [] then Inr b1 else Inl Null_deref
         | Some xs \<Rightarrow>
             (if off + length d \<le> length xs
              then Inr (b1\<lparr>bdata := Some (memcpy_at xs off d), boffset := wadd64 off (length d)\<rparr>)
              else Inl Out_of_bounds))"

text \<open>\<open>kore_buf_stringify\<close> returns the block (as the C string) and stores the length before the
  terminator was added. Reading \<open>data[offset - 1]\<close> of an empty buffer is before the block.\<close>

definition kore_buf_stringify :: "(nat \<Rightarrow> byte) \<Rightarrow> kore_buf \<Rightarrow> (kore_buf \<times> nat) res" where
  "kore_buf_stringify junk b =
     (case bdata b of
        None \<Rightarrow> Inl Null_deref
      | Some xs \<Rightarrow>
          (if boffset b = 0 \<or> length xs < boffset b then Inl Out_of_bounds
           else if xs ! (boffset b - 1) \<noteq> 0
             then rbind (kore_buf_append junk b [0]) (\<lambda>b1. Inr (b1, boffset b))
             else Inr (b, boffset b)))"

definition kore_buf_release :: "kore_buf \<Rightarrow> byte list option \<times> nat \<times> kore_buf" where
  "kore_buf_release b = (bdata b, boffset b, fst (kore_buf_free (b\<lparr>bdata := None\<rparr>)))"

definition kore_buf_reset :: "kore_buf \<Rightarrow> kore_buf" where
  "kore_buf_reset b = b\<lparr>boffset := 0\<rparr>"

text \<open>\<open>vsnprintf\<close> and \<open>vasprintf\<close> are given by their complete outputs \<open>out1\<close> and \<open>out2\<close> (\<open>None\<close> for the
  result \<open>-1\<close>). They are two parameters because the second call reads an argument list that the
  first one has already consumed. \<open>kore_buf_appendf\<close> only wraps the list.\<close>

definition BUFSIZ :: nat where "BUFSIZ = 8192"

definition kore_buf_appendv ::
    "(nat \<Rightarrow> byte) \<Rightarrow> kore_buf \<Rightarrow> byte list option \<Rightarrow> byte list option \<Rightarrow> kore_buf res" where
  "kore_buf_appendv junk b out1 out2 =
     (case out1 of
        None \<Rightarrow> Inl (Fatal ''kore_buf_appendv(): vsnprintf error'')
      | Some t \<Rightarrow>
          if length t \<ge> BUFSIZ then
            case out2 of
              None \<Rightarrow> Inl (Fatal ''kore_buf_appendv(): error or truncation'')
            | Some t2 \<Rightarrow> kore_buf_append junk b t2
          else kore_buf_append junk b t)"

text \<open>One turn of the loop of \<open>kore_buf_replace_string\<close>; \<open>nd\<close> is the memory of the C string \<open>src\<close>,
  terminator included.\<close>

definition replace_step ::
    "(nat \<Rightarrow> byte) \<Rightarrow> byte list \<Rightarrow> byte list option \<Rightarrow> nat \<Rightarrow> kore_buf \<times> nat \<Rightarrow> (kore_buf \<times> nat) option" where
  "replace_step junk src dst len = (\<lambda>(b, off).
     let p = (case bdata b of None \<Rightarrow> [] | Some xs \<Rightarrow> xs);
         blen = boffset b; nlen = wadd64 blen len; klen = length src in
     case kore_mem_find (take (boffset b - off) (drop off p)) (src @ [0]) klen of
       None \<Rightarrow> None
     | Some k \<Rightarrow>
         let off1 = off + k; end = off1 + klen; off2 = boffset b - end;
             tmp0 = fresh junk nlen;
             tmp1 = memcpy_at tmp0 0 (take off1 p);
             tmp2 = (case dst of None \<Rightarrow> tmp1 | Some d \<Rightarrow> memcpy_at tmp1 off1 (take len d));
             tmp3 = memcpy_at tmp2 (off1 + len) (take off2 (drop end p))
         in Some (b\<lparr>bdata := Some tmp3, boffset := off1 + len + off2, blength := nlen\<rparr>, off1 + len))"

fun replace_loop ::
    "nat \<Rightarrow> (nat \<Rightarrow> byte) \<Rightarrow> byte list \<Rightarrow> byte list option \<Rightarrow> nat \<Rightarrow> kore_buf \<times> nat \<Rightarrow> kore_buf option" where
  "replace_loop 0 junk src dst len s = None"
| "replace_loop (Suc fuel) junk src dst len s =
     (case replace_step junk src dst len s of
        None \<Rightarrow> Some (fst s)
      | Some s' \<Rightarrow> replace_loop fuel junk src dst len s')"

definition kore_buf_replace_string ::
    "nat \<Rightarrow> (nat \<Rightarrow> byte) \<Rightarrow> kore_buf \<Rightarrow> byte list \<Rightarrow> byte list option \<Rightarrow> nat \<Rightarrow> kore_buf option" where
  "kore_buf_replace_string fuel junk b src dst len = replace_loop fuel junk src dst len (b, 0)"

section \<open>Invariant and contents\<close>

definition buf_ok :: "kore_buf \<Rightarrow> bool" where
  "buf_ok b \<longleftrightarrow> boffset b \<le> blength b \<and> blength b < 2 ^ 64 \<and>
     blength b = (case bdata b of None \<Rightarrow> 0 | Some xs \<Rightarrow> length xs)"

definition buf_contents :: "kore_buf \<Rightarrow> byte list" where
  "buf_contents b = (case bdata b of None \<Rightarrow> [] | Some xs \<Rightarrow> take (boffset b) xs)"

text \<open>Growing must not wrap the length: the check in the code is on the offset alone.\<close>

definition buf_room :: "kore_buf \<Rightarrow> nat \<Rightarrow> bool" where
  "buf_room b n \<longleftrightarrow> blength b + n < 2 ^ 64"

lemma length_buf_contents: "buf_ok b \<Longrightarrow> length (buf_contents b) = boffset b"
  by (auto simp: buf_ok_def buf_contents_def split: option.splits)

lemma kore_buf_alloc_ok:
  "n < 2 ^ 64 \<Longrightarrow> \<exists>b. kore_buf_alloc junk n = Inr b \<and> buf_ok b \<and> buf_contents b = [] \<and>
     blength b = n \<and> boffset b = 0"
  by (auto simp: kore_buf_alloc_def kore_buf_init_def malloc_block_def buf_ok_def buf_contents_def)

text \<open>What a successful reservation leaves: the same contents and room for the new bytes.\<close>

lemma kore_buf_reserve_ok:
  assumes ok: "buf_ok b" and room: "buf_room b n"
  shows "\<exists>b1. kore_buf_reserve junk b n = Inr (b1, boffset b) \<and> buf_ok b1 \<and>
     boffset b1 = boffset b \<and> buf_contents b1 = buf_contents b \<and>
     boffset b + n \<le> blength b1 \<and> blength b1 \<le> blength b + n"
proof -
  from ok room have sm: "boffset b + n < 2 ^ 64" "blength b + n < 2 ^ 64"
    by (auto simp: buf_ok_def buf_room_def)
  show ?thesis
  proof (cases "boffset b + n > blength b")
    case False
    with ok sm show ?thesis by (auto simp: kore_buf_reserve_def)
  next
    case True
    with ok have pos: "blength b + n \<noteq> 0" by (auto simp: buf_ok_def)
    show ?thesis
    proof (cases "bdata b")
      case None
      with True ok sm pos show ?thesis
        by (auto simp: kore_buf_reserve_def realloc_block_def malloc_block_def buf_ok_def
            buf_contents_def Let_def)
    next
      case (Some xs)
      with ok have "length xs = blength b" "boffset b \<le> length xs" by (auto simp: buf_ok_def)
      with True Some sm pos show ?thesis
        by (auto simp: kore_buf_reserve_def realloc_block_def malloc_block_def buf_ok_def
            buf_contents_def Let_def memcpy_at_def)
    qed
  qed
qed

lemma kore_buf_append_ok:
  assumes ok: "buf_ok b" and room: "buf_room b (length d)"
  shows "\<exists>b'. kore_buf_append junk b d = Inr b' \<and> buf_ok b' \<and>
     buf_contents b' = buf_contents b @ d \<and> blength b' \<le> blength b + length d"
proof -
  from kore_buf_reserve_ok [OF ok room, of junk] obtain b1 where
      res: "kore_buf_reserve junk b (length d) = Inr (b1, boffset b)" and ok1: "buf_ok b1"
      and off: "boffset b1 = boffset b" and con: "buf_contents b1 = buf_contents b"
      and fits: "boffset b + length d \<le> blength b1" "blength b1 \<le> blength b + length d"
    by blast
  show ?thesis
  proof (cases "bdata b1")
    case None
    with ok1 fits have "d = []" "boffset b = 0" by (auto simp: buf_ok_def)
    with None res ok1 con fits show ?thesis by (auto simp: kore_buf_append_def)
  next
    case (Some xs)
    with ok1 have len: "length xs = blength b1" "blength b1 < 2 ^ 64" by (auto simp: buf_ok_def)
    with fits have le: "boffset b + length d \<le> length xs" by simp
    let ?b = "b1\<lparr>bdata := Some (memcpy_at xs (boffset b) d),
      boffset := boffset b + length d\<rparr>"
    have "kore_buf_append junk b d = Inr ?b"
      using res Some le len by (simp add: kore_buf_append_def)
    moreover have "buf_ok ?b" using fits len le by (simp add: buf_ok_def)
    moreover have "buf_contents ?b = buf_contents b @ d"
      using Some con off le by (simp add: buf_contents_def)
    ultimately show ?thesis using fits by auto
  qed
qed

lemma kore_buf_append_Inr:
  assumes "kore_buf_append junk b d = Inr b'" and "buf_ok b" and "buf_room b (length d)"
  shows "buf_ok b' \<and> buf_contents b' = buf_contents b @ d \<and> blength b' \<le> blength b + length d"
  using kore_buf_append_ok [OF assms(2,3), of junk] assms(1) by auto

interpretation kbuf: byte_sink buf_ok buf_room "kore_buf_append junk" buf_contents for junk
proof
  fix b and d :: "byte list"
  assume "buf_ok b" and "buf_room b (length d)"
  then show "\<exists>b'. kore_buf_append junk b d = Inr b'" using kore_buf_append_ok by blast
next
  fix b b' n and d :: "byte list"
  assume ok: "buf_ok b" and room: "buf_room b (length d + n)" and app: "kore_buf_append junk b d = Inr b'"
  then have "buf_room b (length d)" by (simp add: buf_room_def)
  with kore_buf_append_Inr [OF app ok] have "blength b' \<le> blength b + length d" by auto
  with room show "buf_room b' n" by (simp add: buf_room_def)
qed (auto dest: kore_buf_append_Inr simp: buf_room_def)

text \<open>A buffer that holds \<open>cs\<close> and has room for \<open>n\<close> more bytes, and what appending does to it: the
  form in which the writers' proofs use the interface.\<close>

definition buf_holds :: "kore_buf \<Rightarrow> byte list \<Rightarrow> nat \<Rightarrow> bool" where
  "buf_holds b cs n \<longleftrightarrow> buf_ok b \<and> buf_contents b = cs \<and> buf_room b n"

lemma buf_holds_append [buf_simps]:
  assumes "buf_holds b cs (length d + n)"
  shows "\<exists>b'. kore_buf_append junk b d = Inr b' \<and> buf_holds b' (cs @ d) n"
proof -
  from assms have ok: "buf_ok b" "buf_contents b = cs" "buf_room b (length d + n)" "buf_room b (length d)"
    by (auto simp: buf_holds_def buf_room_def)
  from kbuf.put_total [OF ok(1,4)] obtain b' where app: "kore_buf_append junk b d = Inr b'" by blast
  with kbuf.put_inv [OF ok(1,4) app] kbuf.put_contents [OF ok(1,4) app] kbuf.room_put [OF ok(1,3) app] ok(2)
  show ?thesis by (auto simp: buf_holds_def)
qed

lemma buf_holds_mono: "buf_holds b cs n \<Longrightarrow> m \<le> n \<Longrightarrow> buf_holds b cs m"
  by (auto simp: buf_holds_def buf_room_def)

lemma buf_holds_alloc:
  "m + n < 2 ^ 64 \<Longrightarrow> \<exists>b. kore_buf_alloc junk m = Inr b \<and> buf_holds b [] n"
  using kore_buf_alloc_ok [of m junk] by (auto simp: buf_holds_def buf_room_def)

section \<open>Searching and replacing\<close>

text \<open>The first position where \<open>nd\<close> occurs, as a reference definition.\<close>

fun first_occ :: "byte list \<Rightarrow> byte list \<Rightarrow> nat option" where
  "first_occ nd [] = None"
| "first_occ nd (x # xs) = (if prefix nd (x # xs) then Some 0 else map_option Suc (first_occ nd xs))"

text \<open>Replacing every occurrence from left to right, as a reference definition.\<close>

fun replace_all :: "byte list \<Rightarrow> byte list \<Rightarrow> byte list \<Rightarrow> byte list" where
  "replace_all nd d [] = []"
| "replace_all nd d (x # xs) =
     (if nd \<noteq> [] \<and> prefix nd (x # xs) then d @ replace_all nd d (drop (length nd - 1) xs)
      else x # replace_all nd d xs)"

lemma first_occ_short: "nd \<noteq> [] \<Longrightarrow> length xs < length nd \<Longrightarrow> first_occ nd xs = None"
  by (induction xs) (auto dest: prefix_length_le)

lemma prefix_take_iff: "prefix nd xs \<longleftrightarrow> length nd \<le> length xs \<and> take (length nd) xs = nd"
  by (metis append_eq_conv_conj append_take_drop_id length_append le_add1 prefixE prefixI)

lemma mem_find_from_first_occ:
  "nd \<noteq> [] \<Longrightarrow> mem_find_from pos src (nd @ r) (length nd) = map_option (\<lambda>k. pos + k) (first_occ nd src)"
proof (induction src arbitrary: pos)
  case (Cons x xs)
  from Cons.prems obtain n ns where nd: "nd = n # ns" by (cases nd) auto
  have rec: "mem_find_from (Suc pos) xs (nd @ r) (length nd)
      = map_option (\<lambda>k. pos + k) (map_option Suc (first_occ nd xs))"
    using Cons by (cases "first_occ nd xs") simp_all
  show ?case
  proof (cases "x = n \<and> length (x # xs) < length nd")
    case True
    then have "first_occ nd (x # xs) = None" using Cons.prems by (intro first_occ_short) auto
    with True nd show ?thesis by simp
  next
    case False
    with rec nd show ?thesis by (auto simp: prefix_take_iff simp del: first_occ.simps(1))
  qed
qed simp

lemma first_occ_None: "nd \<noteq> [] \<Longrightarrow> first_occ nd xs = None \<longleftrightarrow> (\<forall>p. \<not> prefix nd (drop p xs))"
proof (induction xs)
  case (Cons x xs)
  have "(\<forall>p. \<not> prefix nd (drop p (x # xs))) \<longleftrightarrow>
      \<not> prefix nd (x # xs) \<and> (\<forall>p. \<not> prefix nd (drop p xs))"
    using less_Suc_eq_0_disj by (metis drop0 drop_Suc_Cons not0_implies_Suc)
  with Cons show ?case by simp
qed (auto simp: prefix_def)

lemma first_occ_Some:
  "nd \<noteq> [] \<Longrightarrow> first_occ nd xs = Some p \<longleftrightarrow>
     prefix nd (drop p xs) \<and> (\<forall>q < p. \<not> prefix nd (drop q xs))"
proof (induction xs arbitrary: p)
  case (Cons x xs)
  then show ?case by (cases p) (auto simp: All_less_Suc2)
qed (auto simp: prefix_def)

text \<open>\<open>kore_mem_find\<close> finds the first occurrence of a non-empty needle in a block, and reports
  none exactly when there is none.\<close>

theorem kore_mem_find_first:
  assumes "nd \<noteq> []"
  shows "(kore_mem_find src (nd @ r) (length nd) = Some p \<longleftrightarrow>
      prefix nd (drop p src) \<and> (\<forall>q < p. \<not> prefix nd (drop q src)))
    \<and> (kore_mem_find src (nd @ r) (length nd) = None \<longleftrightarrow> (\<forall>q. \<not> prefix nd (drop q src)))"
  unfolding kore_mem_find_def mem_find_from_first_occ [OF assms]
  by (simp add: first_occ_Some [OF assms, symmetric] first_occ_None [OF assms, symmetric]
      del: all_simps)

theorem kore_mem_find_first_witness:
  "kore_mem_find (bs ''a&b=c&d'') (bs ''&'' @ [0]) 1 = Some 1 \<and>
   prefix (bs ''&'') (drop 1 (bs ''a&b=c&d''))"
  using kore_mem_find_first [of "bs ''&''" "bs ''a&b=c&d''" "[0]" 1] by (simp add: bs_def kore_mem_find_def)

lemma replace_all_first_occ:
  assumes "nd \<noteq> []"
  shows "replace_all nd d xs = (case first_occ nd xs of None \<Rightarrow> xs
     | Some k \<Rightarrow> take k xs @ d @ replace_all nd d (drop (k + length nd) xs))"
proof (induction xs)
  case (Cons x xs)
  have "drop (length nd - 1) xs = drop (length nd) (x # xs)"
    using assms by (cases nd) simp_all
  with Cons assms show ?case by (auto split: option.splits)
qed simp

text \<open>The states of the replacement loop: the block holds the bytes, what is before \<open>off\<close> is done, and
  the sizes stay below \<open>SIZE_MAX\<close> for as many replacements as the rest can hold.\<close>

definition replace_inv :: "nat \<Rightarrow> kore_buf \<times> nat \<Rightarrow> bool" where
  "replace_inv len = (\<lambda>(b, off). buf_ok b \<and> off \<le> boffset b \<and>
     boffset b + (boffset b - off + 1) * len < 2 ^ 64)"

definition buf_bytes :: "kore_buf \<Rightarrow> byte list" where
  "buf_bytes b = (case bdata b of None \<Rightarrow> [] | Some xs \<Rightarrow> xs)"

lemma buf_contents_bytes: "buf_contents b = take (boffset b) (buf_bytes b)"
  by (simp add: buf_contents_def buf_bytes_def split: option.split)

lemma replace_step_find:
  "src \<noteq> [] \<Longrightarrow> off \<le> boffset b \<Longrightarrow>
    kore_mem_find (take (boffset b - off) (drop off (buf_bytes b))) (src @ [0]) (length src)
      = first_occ src (drop off (buf_contents b))"
  by (simp add: kore_mem_find_def mem_find_from_first_occ buf_contents_bytes drop_take option.map_ident)

lemma replace_step_None:
  "src \<noteq> [] \<Longrightarrow> off \<le> boffset b \<Longrightarrow> first_occ src (drop off (buf_contents b)) = None \<Longrightarrow>
    replace_step junk src dst len (b, off) = None"
  using replace_step_find [of src off b]
  by (simp add: replace_step_def Let_def buf_bytes_def split: option.splits)

lemma memcpy3:
  assumes "length xs = a + length d + length r + n" and "length p = a"
  shows "take (a + length d + length r)
     (memcpy_at (memcpy_at (memcpy_at xs 0 p) a d) (a + length d) r) = p @ d @ r"
  using assms by (simp add: memcpy_at_def)

lemma first_occ_bound:
  "nd \<noteq> [] \<Longrightarrow> first_occ nd xs = Some k \<Longrightarrow> k + length nd \<le> length xs"
proof -
  assume nd: "nd \<noteq> []" and "first_occ nd xs = Some k"
  then have "prefix nd (drop k xs)" by (simp add: first_occ_Some)
  from prefix_length_le [OF this] nd have "length nd \<le> length xs - k" "0 < length nd" by simp_all
  then show ?thesis by linarith
qed

lemma replace_step_Some:
  assumes inv: "replace_inv (length d) (b, off)" and src: "src \<noteq> []"
    and occ: "first_occ src (drop off (buf_contents b)) = Some k"
  obtains b' where
    "replace_step junk src (Some d) (length d) (b, off) = Some (b', off + k + length d)"
    "replace_inv (length d) (b', off + k + length d)"
    "buf_contents b' = take (off + k) (buf_contents b) @ d @ drop (off + k + length src) (buf_contents b)"
    "boffset b' - (off + k + length d) < boffset b - off"
proof -
  let ?xs = "buf_bytes b" and ?cs = "buf_contents b" and ?n = "boffset b" and ?len = "length d"
  let ?a = "off + k" and ?K = "length src"
  from inv have ok: "buf_ok b" "off \<le> ?n" "?n + (?n - off + 1) * ?len < 2 ^ 64"
    by (auto simp: replace_inv_def)
  then have lc: "length ?cs = ?n" and lx: "?n \<le> length ?xs"
    by (simp add: length_buf_contents) (use ok in \<open>auto simp: buf_ok_def buf_bytes_def split: option.splits\<close>)
  have K: "0 < ?K" "?a + ?K \<le> ?n" using src first_occ_bound [OF src occ] lc ok(2) by auto
  have nlen: "wadd64 ?n ?len = ?n + ?len" using ok(3) by simp
  let ?r = "take (?n - (?a + ?K)) (drop (?a + ?K) ?xs)"
  let ?b' = "b\<lparr>bdata := Some (memcpy_at (memcpy_at (memcpy_at (fresh junk (?n + ?len)) 0 (take ?a ?xs))
      ?a d) (?a + ?len) ?r), boffset := ?a + ?len + (?n - (?a + ?K)), blength := ?n + ?len\<rparr>"
  have step: "replace_step junk src (Some d) ?len (b, off) = Some (?b', ?a + ?len)"
    using replace_step_find [OF src ok(2)] occ nlen
    by (simp add: replace_step_def Let_def buf_bytes_def)
  have lr: "length ?r = ?n - (?a + ?K)" using lx by simp
  have con: "buf_contents ?b' = take ?a ?xs @ d @ ?r"
    using memcpy3 [of "fresh junk (?n + ?len)" ?a d ?r ?K "take ?a ?xs"] lr K lx
    by (simp add: buf_contents_def)
  also have "\<dots> = take ?a ?cs @ d @ drop (?a + ?K) ?cs"
    using K by (simp add: buf_contents_bytes drop_take min_def)
  finally have con': "buf_contents ?b' = take ?a ?cs @ d @ drop (?a + ?K) ?cs" .
  have "(?n - (?a + ?K) + 1) * ?len \<le> (?n - off) * ?len" using K by (intro mult_le_mono1) linarith
  then have "?n + ?len + (?n - (?a + ?K) + 1) * ?len < 2 ^ 64" using ok(3) by (simp add: algebra_simps)
  moreover have "?a + ?len + (?n - (?a + ?K)) \<le> ?n + ?len"
    using K by linarith
  ultimately have "?a + ?len + (?n - (?a + ?K)) + (?n - (?a + ?K) + 1) * ?len < 2 ^ 64" by linarith
  then have "?a + ?len + (?n - (?a + ?K))
      + (?a + ?len + (?n - (?a + ?K)) - (?a + ?len) + 1) * ?len < 2 ^ 64" by simp
  moreover have "buf_ok ?b'"
    using K lx ok(3) lr by (simp add: buf_ok_def)
  ultimately have "replace_inv ?len (?b', ?a + ?len)" by (simp add: replace_inv_def)
  moreover have "boffset ?b' - (?a + ?len) < ?n - off"
  proof -
    have "boffset ?b' = ?a + ?len + (?n - (?a + ?K))" by simp
    with K show ?thesis by linarith
  qed
  ultimately show thesis using that [OF step] con' by blast
qed

text \<open>Enough fuel runs the loop to its end, which is the reference replacement of the rest.\<close>

lemma replace_loop_correct:
  assumes "src \<noteq> []"
  shows "replace_inv (length d) (b, off) \<Longrightarrow> boffset b - off < fuel \<Longrightarrow>
    \<exists>b'. replace_loop fuel junk src (Some d) (length d) (b, off) = Some b' \<and> buf_ok b' \<and>
      buf_contents b' = take off (buf_contents b) @ replace_all src d (drop off (buf_contents b))"
proof (induction fuel arbitrary: b off)
  case (Suc fuel)
  let ?cs = "buf_contents b"
  from Suc.prems(1) have ok: "buf_ok b" "off \<le> boffset b" by (auto simp: replace_inv_def)
  show ?case
  proof (cases "first_occ src (drop off ?cs)")
    case None
    with ok assms show ?thesis
      by (simp add: replace_step_None replace_all_first_occ [OF assms, of d "drop off ?cs"])
  next
    case (Some k)
    obtain b1 where st: "replace_step junk src (Some d) (length d) (b, off) = Some (b1, off + k + length d)"
      and inv1: "replace_inv (length d) (b1, off + k + length d)"
      and con1: "buf_contents b1 = take (off + k) ?cs @ d @ drop (off + k + length src) ?cs"
      and less: "boffset b1 - (off + k + length d) < boffset b - off"
      by (rule replace_step_Some [OF Suc.prems(1) assms Some])
    from less Suc.prems(2) have "boffset b1 - (off + k + length d) < fuel" by linarith
    from Suc.IH [OF inv1 this] obtain b' where
        b': "replace_loop fuel junk src (Some d) (length d) (b1, off + k + length d) = Some b'" "buf_ok b'"
          "buf_contents b' = take (off + k + length d) (buf_contents b1)
             @ replace_all src d (drop (off + k + length d) (buf_contents b1))"
      by blast
    have "off + k \<le> length ?cs" using first_occ_bound [OF assms Some] length_buf_contents [OF ok(1)] ok(2)
      by simp
    then have "buf_contents b' = take (off + k) ?cs @ d @ replace_all src d (drop (off + k + length src) ?cs)"
      by (simp add: b'(3) con1)
    also have "\<dots> = take off ?cs @ take k (drop off ?cs) @ d
        @ replace_all src d (drop (k + length src) (drop off ?cs))"
      by (simp add: take_add) (simp add: ac_simps)
    also have "\<dots> = take off ?cs @ replace_all src d (drop off ?cs)"
      using Some by (simp add: replace_all_first_occ [OF assms, of d "drop off ?cs"])
    finally show ?thesis using b' st by simp
  qed
qed simp

text \<open>\<open>kore_buf_replace_string\<close> with a non-empty search string terminates (a unit of fuel per byte
  and one more is enough) and replaces every occurrence, from left to right and without
  rescanning what it inserted.\<close>

theorem kore_buf_replace_string_correct:
  assumes "src \<noteq> []" and "buf_ok b" and "boffset b + (boffset b + 1) * length d < 2 ^ 64"
    and "boffset b < fuel"
  shows "\<exists>b'. kore_buf_replace_string fuel junk b src (Some d) (length d) = Some b' \<and> buf_ok b' \<and>
    buf_contents b' = replace_all src d (buf_contents b)"
  using replace_loop_correct [OF assms(1), of d b 0 fuel junk] assms(2-)
  by (simp add: kore_buf_replace_string_def replace_inv_def)

theorem kore_buf_replace_string_correct_witness:
  "\<exists>b'. kore_buf_replace_string 9 (\<lambda>_. 0) \<lparr>bdata = Some (bs ''$x$y'' @ [7, 7]), bflags = 1, blength = 6, boffset = 4\<rparr>
      (bs ''$'') (Some (bs ''ab'')) (length (bs ''ab'')) = Some b' \<and> buf_ok b' \<and>
    buf_contents b' = replace_all (bs ''$'') (bs ''ab'')
      (buf_contents \<lparr>bdata = Some (bs ''$x$y'' @ [7, 7]), bflags = 1, blength = 6, boffset = 4\<rparr>)"
  by (rule kore_buf_replace_string_correct) (simp_all add: bs_def buf_ok_def)

text \<open>With an empty search string the scanner stops at the next NUL byte.\<close>

lemma kore_mem_find_empty_needle:
  assumes "0 \<in> set xs"
  shows "\<exists>k < length xs. kore_mem_find xs [0] 0 = Some k \<and> xs ! k = 0"
proof -
  have "0 \<in> set xs \<Longrightarrow> \<exists>k < length xs. mem_find_from n xs [0] 0 = Some (n + k) \<and> xs ! k = 0" for n
  proof (induction xs arbitrary: n)
    case (Cons x xs)
    show ?case
    proof (cases "x = 0")
      case False
      with Cons.prems Cons.IH [of "Suc n"] obtain k where
        "k < length xs" "mem_find_from (Suc n) xs [0] 0 = Some (Suc n + k)" "xs ! k = 0" by auto
      with False show ?thesis by (intro exI [of _ "Suc k"]) simp
    qed (auto intro: exI [of _ 0])
  qed simp
  from this [OF assms, of 0] show ?thesis by (simp add: kore_mem_find_def)
qed

lemma replace_step_empty:
  assumes ok: "buf_ok b" and off: "off \<le> boffset b" and z: "0 \<in> set (drop off (buf_contents b))"
  shows "\<exists>b' off'. replace_step junk [] (Some []) 0 (b, off) = Some (b', off') \<and> buf_ok b' \<and>
    off' \<le> boffset b' \<and> 0 \<in> set (drop off' (buf_contents b'))"
proof -
  let ?xs = "buf_bytes b" and ?n = "boffset b"
  have lx: "?n \<le> length ?xs" using ok by (auto simp: buf_ok_def buf_bytes_def split: option.splits)
  from kore_mem_find_empty_needle [OF z] obtain k where
    k: "k < ?n - off" "kore_mem_find (take (?n - off) (drop off ?xs)) [0] 0 = Some k" "?xs ! (off + k) = 0"
    by (auto simp: buf_contents_bytes drop_take)
  let ?a = "off + k" and ?r = "take (?n - (off + k)) (drop (off + k) ?xs)"
  let ?b' = "b\<lparr>bdata := Some (memcpy_at (memcpy_at (memcpy_at (fresh junk ?n) 0 (take ?a ?xs)) ?a [])
      ?a ?r), boffset := ?n, blength := ?n\<rparr>"
  have "?n < 2 ^ 64" using ok by (simp add: buf_ok_def)
  then have st: "replace_step junk [] (Some []) 0 (b, off) = Some (?b', ?a)"
    using k off by (simp add: replace_step_def Let_def buf_bytes_def)
  have con: "buf_contents ?b' = take ?a ?xs @ ?r"
    using memcpy3 [of "fresh junk ?n" ?a "[]" ?r 0 "take ?a ?xs"] k off lx by (simp add: buf_contents_def)
  then have "drop ?a (buf_contents ?b') = ?r" using k off lx by simp
  moreover have "0 \<in> set ?r"
    using k off lx by (auto simp: in_set_conv_nth intro!: exI [of _ 0])
  ultimately have "0 \<in> set (drop ?a (buf_contents ?b'))" by simp
  moreover have "buf_ok ?b'" "?a \<le> boffset ?b'"
    using \<open>?n < 2 ^ 64\<close> k off lx by (simp_all add: buf_ok_def)
  ultimately show ?thesis using st by blast
qed

text \<open>With an empty search string the loop of \<open>kore_buf_replace_string\<close> never ends once the buffer
  holds a NUL byte: the empty match is at the NUL, and nothing moves past it.\<close>

theorem kore_buf_replace_string_empty_diverges:
  assumes "buf_ok b" and "0 \<in> set (buf_contents b)"
  shows "kore_buf_replace_string fuel junk b [] (Some []) 0 = None"
proof -
  have "buf_ok c \<Longrightarrow> off \<le> boffset c \<Longrightarrow> 0 \<in> set (drop off (buf_contents c)) \<Longrightarrow>
      replace_loop fuel junk [] (Some []) 0 (c, off) = None" for c off
  proof (induction fuel arbitrary: c off)
    case (Suc fuel)
    then show ?case using replace_step_empty [of c off junk] by fastforce
  qed simp
  from this [of b 0] assms show ?thesis by (simp add: kore_buf_replace_string_def)
qed

theorem kore_buf_replace_string_empty_diverges_witness:
  "kore_buf_replace_string 5 (\<lambda>_. 1) \<lparr>bdata = Some [65, 0], bflags = 1, blength = 2, boffset = 2\<rparr>
     [] (Some []) 0 = None"
  by (rule kore_buf_replace_string_empty_diverges) (simp_all add: buf_ok_def buf_contents_def)

section \<open>Appending and terminating\<close>

text \<open>\<open>kore_buf_append\<close> never fails on a well-formed buffer whose size does not wrap, keeps the
  buffer well-formed and adds exactly the given bytes, whatever the fresh memory held.\<close>

theorem kore_buf_append_correct:
  assumes "buf_ok b" and "blength b + length d < 2 ^ 64"
  shows "\<exists>b'. kore_buf_append junk b d = Inr b' \<and> buf_ok b' \<and> buf_contents b' = buf_contents b @ d"
  using kore_buf_append_ok [of b d junk] assms by (auto simp: buf_room_def)

theorem kore_buf_append_correct_witness:
  "\<exists>b'. kore_buf_append (\<lambda>_. 9) \<lparr>bdata = Some [1, 2], bflags = 0, blength = 2, boffset = 1\<rparr> [5, 6, 7] = Inr b'
     \<and> buf_ok b' \<and> buf_contents b' = buf_contents \<lparr>bdata = Some [1, 2], bflags = 0, blength = 2, boffset = 1\<rparr> @ [5, 6, 7]"
  by (rule kore_buf_append_correct) (simp_all add: buf_ok_def)

text \<open>\<open>kore_buf_stringify\<close> on a buffer with contents returns the number of bytes and leaves the
  contents NUL-terminated, adding a terminator only where there was none. On an empty
  buffer it reads in front of the block.\<close>

lemma kore_buf_stringify_ok:
  assumes "buf_ok b" and "blength b + 1 < 2 ^ 64" and "bdata b \<noteq> None"
  shows "if buf_contents b = [] then kore_buf_stringify junk b = Inl Out_of_bounds
    else \<exists>b'. kore_buf_stringify junk b = Inr (b', length (buf_contents b)) \<and> buf_ok b' \<and>
      buf_contents b' = (if last (buf_contents b) = 0 then buf_contents b else buf_contents b @ [0])"
proof -
  from assms(1,3) obtain xs where xs: "bdata b = Some xs" "boffset b \<le> length xs"
    by (auto simp: buf_ok_def)
  have len: "length (buf_contents b) = boffset b" using assms(1) by (rule length_buf_contents)
  have last: "buf_contents b \<noteq> [] \<Longrightarrow> last (buf_contents b) = xs ! (boffset b - 1)"
    using xs len by (simp add: last_conv_nth) (simp add: buf_contents_def)
  have "\<exists>b'. kore_buf_append junk b [0] = Inr b' \<and> buf_ok b' \<and> buf_contents b' = buf_contents b @ [0]"
    using kore_buf_append_ok [of b "[0]" junk] assms by (auto simp: buf_room_def)
  with assms(1) xs len last show ?thesis by (auto simp: kore_buf_stringify_def)
qed

end
