(* ===== verification/Kore_Str.thy ===== *)
theory Kore_Str
  imports Kore_Prelude
begin

text \<open>
  The string and number helpers of \<open>base/kore/utils.c\<close>: bounded copy, splitting, stripping,
  trimming, line reading, and the number parsers over \<open>strtoll\<close> and \<open>strtoull\<close>.
\<close>

section \<open>Bounded copy\<close>

text \<open>The copying loop of \<open>kore_strlcpy\<close>: \<open>src\<close> is the memory from \<open>s\<close> on, \<open>n\<close> the distance from \<open>d\<close>
  to \<open>end\<close>. The result is what was written and the memory from the final \<open>s\<close> on.\<close>

fun strlcpy_copy :: "byte list \<Rightarrow> nat \<Rightarrow> (byte list \<times> byte list) res" where
  "strlcpy_copy [] n = Inl Out_of_bounds"
| "strlcpy_copy (c # cs) n =
     (if c = 0 then Inr ([0], c # cs)
      else case n of
          0 \<Rightarrow> Inr ([0], c # cs)
        | Suc m \<Rightarrow> rbind (strlcpy_copy cs m) (\<lambda>(w, r). Inr (c # w, r)))"

text \<open>\<open>while (*s != 0) s++\<close>: how many bytes up to the NUL.\<close>

fun scan_nul :: "byte list \<Rightarrow> nat res" where
  "scan_nul [] = Inl Out_of_bounds"
| "scan_nul (c # cs) = (if c = 0 then Inr 0 else rbind (scan_nul cs) (\<lambda>n. Inr (Suc n)))"

definition kore_strlcpy :: "byte list \<Rightarrow> nat \<Rightarrow> (byte list \<times> nat) res" where
  "kore_strlcpy src len =
     (if len = 0 then Inl (Fatal ''kore_strlcpy: len == 0'')
      else rbind (strlcpy_copy src (len - 1))
        (\<lambda>(w, r). rbind (scan_nul r) (\<lambda>n. Inr (w, length src - length r + n))))"

lemma scan_nul_string: "0 \<notin> set s \<Longrightarrow> scan_nul (s @ 0 # r) = Inr (length s)"
  by (induction s) auto

lemma strlcpy_copy_string:
  "0 \<notin> set s \<Longrightarrow> strlcpy_copy (s @ 0 # r) n = Inr (take n s @ [0], drop n s @ 0 # r)"
proof (induction s arbitrary: n)
  case (Cons c cs)
  then show ?case by (cases n) auto
qed simp

lemma kore_strlcpy_string:
  assumes "0 \<notin> set s" and "0 < len"
  shows "kore_strlcpy (s @ 0 # r) len = Inr (take (len - 1) s @ [0], length s)"
proof -
  have "0 \<notin> set (drop (len - 1) s)" using assms(1) by (meson in_set_dropD)
  from scan_nul_string [OF this, of r] assms show ?thesis
    by (simp add: kore_strlcpy_def strlcpy_copy_string)
qed

text \<open>\<open>kore_strlcpy\<close> writes at most \<open>len\<close> bytes, always NUL-terminated, copies as much of the
  string as fits, and returns the full length of the source string.\<close>

theorem kore_strlcpy_correct:
  assumes "0 \<notin> set s" and "0 < len"
  shows "kore_strlcpy (s @ 0 # r) len = Inr (take (len - 1) s @ [0], length s) \<and>
    length (take (len - 1) s @ [0]) \<le> len"
  using kore_strlcpy_string [OF assms] assms(2) by auto

theorem kore_strlcpy_correct_witness:
  "kore_strlcpy (bs ''hello'' @ 0 # [9]) 3 = Inr (take (3 - 1) (bs ''hello'') @ [0], length (bs ''hello'')) \<and>
   length (take (3 - 1) (bs ''hello'') @ [0]) \<le> 3"
  by (rule kore_strlcpy_correct) (simp_all add: bs_def)

section \<open>Splitting\<close>

text \<open>\<open>strsep\<close>: the token up to the first delimiter and, when there was one, the rest after it.\<close>

fun strsep :: "byte list \<Rightarrow> byte list \<Rightarrow> byte list \<times> byte list option" where
  "strsep [] delim = ([], None)"
| "strsep (c # cs) delim =
     (if c \<in> set delim then ([], Some cs)
      else let (tok, rest) = strsep cs delim in (c # tok, rest))"

lemma strsep_rest_shorter: "strsep s delim = (tok, Some rest) \<Longrightarrow> length rest < length s"
  by (induction s arbitrary: tok) (auto split: if_splits prod.splits)

text \<open>The loop of \<open>kore_split_string\<close>: \<open>n\<close> slots left before the last, \<open>input\<close> is \<open>NULL\<close> when \<open>None\<close>.\<close>

function split_loop :: "nat \<Rightarrow> byte list option \<Rightarrow> byte list \<Rightarrow> byte list list" where
  "split_loop n input delim =
     (if n = 0 then []
      else case input of
          None \<Rightarrow> []
        | Some s \<Rightarrow> (case strsep s delim of (tok, rest) \<Rightarrow>
            if tok \<noteq> [] then tok # split_loop (n - 1) rest delim else split_loop n rest delim))"
  by pat_completeness auto
termination
  by (relation "measure (\<lambda>(n, input, delim). case input of None \<Rightarrow> 0 | Some s \<Rightarrow> Suc (length s))")
    (auto split: option.splits dest: strsep_rest_shorter [OF sym])

declare split_loop.simps [simp del]

text \<open>The tokens; the returned count is their number, and slot \<open>count\<close> holds \<open>NULL\<close>.\<close>

definition kore_split_string :: "byte list \<Rightarrow> byte list \<Rightarrow> nat \<Rightarrow> byte list list" where
  "kore_split_string input delim ele =
     (if ele = 0 then [] else split_loop (ele - 1) (Some input) delim)"

text \<open>Reference definition: all fields between delimiters, empty ones included.\<close>

fun fields :: "byte list \<Rightarrow> byte list \<Rightarrow> byte list list" where
  "fields delim [] = [[]]"
| "fields delim (c # cs) =
     (if c \<in> set delim then [] # fields delim cs
      else case fields delim cs of [] \<Rightarrow> [[c]] | f # fs \<Rightarrow> (c # f) # fs)"

lemma fields_strsep:
  "fields delim s = (case strsep s delim of (tok, None) \<Rightarrow> [tok] | (tok, Some r) \<Rightarrow> tok # fields delim r)"
  by (induction s) (auto split: prod.splits option.splits)

lemma split_loop_fields:
  "split_loop n (Some s) delim = take n (filter (\<lambda>f. f \<noteq> []) (fields delim s))"
proof (induction "length s" arbitrary: n s rule: less_induct)
  case less
  obtain tok rest where sep: "strsep s delim = (tok, rest)" by fastforce
  show ?case
  proof (cases rest)
    case None
    then show ?thesis using sep
      by (simp add: split_loop.simps [of n "Some s"] split_loop.simps [of _ None] fields_strsep [of delim s])
  next
    case (Some r)
    with sep have "length r < length s" by (simp add: strsep_rest_shorter)
    note IH = less [OF this]
    show ?thesis using sep Some IH
      by (cases n) (simp_all add: split_loop.simps [of _ "Some s"] fields_strsep [of delim s])
  qed
qed

text \<open>\<open>kore_split_string\<close> returns the non-empty fields between delimiters in order, cut off at
  one less than the size of the output array; every token is non-empty and free of
  delimiters.\<close>

theorem kore_split_string_fields:
  "kore_split_string s delim ele = take (ele - 1) (filter (\<lambda>f. f \<noteq> []) (fields delim s)) \<and>
   length (kore_split_string s delim ele) \<le> ele - 1"
  by (simp add: kore_split_string_def split_loop_fields)

lemma fields_free: "f \<in> set (fields delim s) \<Longrightarrow> set f \<inter> set delim = {}"
  by (induction s arbitrary: f) (fastforce split: if_splits list.splits)+

lemma fields_join: "set delim \<subseteq> {d} \<Longrightarrow> d \<notin> set a \<Longrightarrow> delim \<noteq> [] \<Longrightarrow>
    fields delim (a @ d # b) = a # fields delim b"
proof (induction a)
  case Nil
  then have "d \<in> set delim" by (cases delim) auto
  then show ?case by simp
next
  case (Cons x a)
  then have "x \<notin> set delim" by auto
  with Cons show ?case by simp
qed

lemma fields_single: "set a \<inter> set delim = {} \<Longrightarrow> fields delim a = [a]"
  by (induction a) auto

section \<open>Stripping, trimming, reading lines\<close>

text \<open>The length is kept in 32 bits: only that many bytes are looked at, and a length of \<open>2^32 - 1\<close> asks
  for a block of size zero.\<close>

definition kore_strip_chars :: "byte list \<Rightarrow> byte \<Rightarrow> byte list res" where
  "kore_strip_chars s strip =
     (let len = length s mod 2 ^ 32 in
      if (len + 1) mod 2 ^ 32 = 0 then Inl (Fatal ''kore_malloc(): zero size'')
      else Inr (filter (\<lambda>c. c \<noteq> strip) (take len s)))"

text \<open>\<open>kore_text_trim\<close> on a string of exactly \<open>len\<close> bytes: both loops stop at the last byte left.\<close>

fun trim_front :: "byte list \<Rightarrow> byte list" where
  "trim_front (c # d # s) = (if isspace c then trim_front (d # s) else c # d # s)"
| "trim_front s = s"

definition kore_text_trim :: "byte list \<Rightarrow> byte list" where
  "kore_text_trim s = rev (trim_front (rev (trim_front s)))"

lemma trim_front_dropWhile:
  "trim_front s = (if s \<noteq> [] \<and> list_all isspace s then [last s] else dropWhile isspace s)"
  by (induction s rule: trim_front.induct) auto

text \<open>\<open>kore_read_line\<close>: \<open>line\<close> is what \<open>fgets\<close> stored, \<open>None\<close> at the end of the file.\<close>

definition kore_read_line :: "byte list option \<Rightarrow> byte list option" where
  "kore_read_line line =
     (case line of
        None \<Rightarrow> None
      | Some l \<Rightarrow>
          let p = dropWhile isspace (takeWhile (\<lambda>c. c \<noteq> ch (CHR 0x0A)) l) in
          if p = [] \<or> hd p = ch (CHR ''#'') then Some []
          else Some (map (\<lambda>c. if c = ch (CHR 0x09) then ch (CHR '' '') else c) p))"

section \<open>Numbers\<close>

text \<open>\<open>strtoll\<close> and \<open>strtoull\<close> share the scan: white space, a sign, the prefix \<open>0x\<close> in base 16 when a
  hex digit follows, then digits. The result is the sign, the digit values and the rest;
  \<open>None\<close> when there is no digit (then the end pointer is the start).\<close>

definition digit_val :: "byte \<Rightarrow> nat option" where
  "digit_val c =
     (if isdigit c then Some (unat c - 48)
      else if 97 \<le> c \<and> c \<le> 122 then Some (unat c - 87)
      else if 65 \<le> c \<and> c \<le> 90 then Some (unat c - 55)
      else None)"

definition is_base_digit :: "nat \<Rightarrow> byte \<Rightarrow> bool" where
  "is_base_digit base c = (case digit_val c of None \<Rightarrow> False | Some v \<Rightarrow> v < base)"

definition digits_val :: "nat \<Rightarrow> byte list \<Rightarrow> nat" where
  "digits_val base ds = foldl (\<lambda>a c. base * a + the (digit_val c)) 0 ds"

definition skip_sign :: "byte list \<Rightarrow> bool \<times> byte list" where
  "skip_sign s = (case s of
      [] \<Rightarrow> (False, [])
    | c # cs \<Rightarrow> if c = ch (CHR ''-'') then (True, cs) else if c = ch (CHR ''+'') then (False, cs)
                else (False, s))"

definition skip_0x :: "nat \<Rightarrow> byte list \<Rightarrow> byte list" where
  "skip_0x base s =
     (case s of
        a # b # c # cs \<Rightarrow>
          if base = 16 \<and> a = ch (CHR ''0'') \<and> (b = ch (CHR ''x'') \<or> b = ch (CHR ''X'')) \<and> is_base_digit 16 c
          then c # cs else s
      | _ \<Rightarrow> s)"

definition scan_num :: "nat \<Rightarrow> byte list \<Rightarrow> (bool \<times> nat \<times> byte list) option" where
  "scan_num base s =
     (let (neg, s1) = skip_sign (dropWhile isspace s);
          s2 = skip_0x base s1;
          ds = takeWhile (is_base_digit base) s2
      in if ds = [] then None else Some (neg, digits_val base ds, drop (length ds) s2))"

definition LLONG_MAX :: int where "LLONG_MAX = 2 ^ 63 - 1"
definition LLONG_MIN :: int where "LLONG_MIN = - (2 ^ 63)"
definition ULLONG_MAX :: int where "ULLONG_MAX = 2 ^ 64 - 1"

text \<open>Value, whether \<open>errno\<close> was set to \<open>ERANGE\<close>, and the end pointer (\<open>None\<close>: at the start).\<close>

definition strtoll :: "byte list \<Rightarrow> nat \<Rightarrow> int \<times> bool \<times> byte list option" where
  "strtoll s base =
     (case scan_num base s of
        None \<Rightarrow> (0, False, None)
      | Some (neg, m, rest) \<Rightarrow>
          let v = (if neg then - int m else int m) in
          if v < LLONG_MIN then (LLONG_MIN, True, Some rest)
          else if v > LLONG_MAX then (LLONG_MAX, True, Some rest)
          else (v, False, Some rest))"

definition strtoull :: "byte list \<Rightarrow> nat \<Rightarrow> int \<times> bool \<times> byte list option" where
  "strtoull s base =
     (case scan_num base s of
        None \<Rightarrow> (0, False, None)
      | Some (neg, m, rest) \<Rightarrow>
          if int m > ULLONG_MAX then (ULLONG_MAX, True, Some rest)
          else ((if neg then (- int m) mod 2 ^ 64 else int m), False, Some rest))"

text \<open>The returned number and \<open>*err\<close>.\<close>

definition kore_strtonum :: "byte list \<Rightarrow> nat \<Rightarrow> int \<Rightarrow> int \<Rightarrow> int \<times> int" where
  "kore_strtonum str base mn mx =
     (if mn > mx then (0, KORE_RESULT_ERROR)
      else case strtoll str base of (l, erange, ep) \<Rightarrow>
        if erange \<or> ep = None \<or> ep \<noteq> Some [] then (0, KORE_RESULT_ERROR)
        else if l < mn then (0, KORE_RESULT_ERROR)
        else if l > mx then (0, KORE_RESULT_ERROR)
        else (l, KORE_RESULT_OK))"

text \<open>\<open>kore_strtonum64\<close> does not clear \<open>errno\<close>: \<open>errno0\<close> says whether it held \<open>EINVAL\<close> or \<open>ERANGE\<close>
  before. The number is the 64-bit pattern, read as unsigned.\<close>

definition kore_strtonum64 :: "bool \<Rightarrow> byte list \<Rightarrow> bool \<Rightarrow> int \<times> int" where
  "kore_strtonum64 errno0 str sign =
     (case strtoll str 10 of (ll, e1, ep1) \<Rightarrow>
        let errno1 = errno0 \<or> e1;
            ranged = errno1 \<and> (ll = LLONG_MIN \<or> ll = LLONG_MAX) in
        if ranged \<and> sign then (0, KORE_RESULT_ERROR)
        else let check = \<not> ranged in
          case (if sign then (0, False, ep1) else strtoull str 10) of (l, e2, ep2) \<Rightarrow>
            if \<not> sign \<and> (errno1 \<or> e2) \<and> l = ULLONG_MAX then (0, KORE_RESULT_ERROR)
            else if \<not> sign \<and> check \<and> ll < 0 then (0, KORE_RESULT_ERROR)
            else if ep2 = None \<or> ep2 \<noteq> Some [] then (0, KORE_RESULT_ERROR)
            else ((if sign then ll mod 2 ^ 64 else l), KORE_RESULT_OK))"

section \<open>What the number parsers accept\<close>

lemma is_base_digit_10: "is_base_digit 10 c \<longleftrightarrow> isdigit c"
proof -
  have "unat c - 87 \<ge> 10" if "97 \<le> c" using that by (simp add: word_le_nat_alt)
  moreover have "unat c - 55 \<ge> 10" if "65 \<le> c" using that by (simp add: word_le_nat_alt)
  moreover have "unat c - 48 < 10" if "isdigit c" using that by (auto simp: isdigit_def word_le_nat_alt)
  ultimately show ?thesis by (auto simp: is_base_digit_def digit_val_def not_less)
qed

lemma isdigit_not_special:
  assumes "isdigit c" shows "\<not> isspace c" "c \<noteq> ch (CHR ''-'')" "c \<noteq> ch (CHR ''+'')" "c \<noteq> 0"
  using assms by (auto simp: isdigit_def isspace_def word_le_nat_alt)

text \<open>A decimal numeral: white space, an optional sign, digits.\<close>

definition is_decimal :: "byte list \<Rightarrow> int \<Rightarrow> bool" where
  "is_decimal s v \<longleftrightarrow> (\<exists>ws sg ds. s = ws @ sg @ ds \<and> list_all isspace ws \<and>
     sg \<in> {[], bs ''-'', bs ''+''} \<and> ds \<noteq> [] \<and> list_all isdigit ds \<and>
     v = (if sg = bs ''-'' then - int (digits_val 10 ds) else int (digits_val 10 ds)))"

lemma skip_0x_10 [simp]: "skip_0x 10 s = s"
  by (auto simp: skip_0x_def split: list.splits)

lemma skip_sign_cases:
  obtains (minus) cs where "skip_sign s = (True, cs)" "s = bs ''-'' @ cs"
  | (plus) cs where "skip_sign s = (False, cs)" "s = bs ''+'' @ cs"
  | (none) "skip_sign s = (False, s)"
proof (cases s)
  case Nil
  then show thesis using none by (simp add: skip_sign_def)
next
  case (Cons c cs)
  consider "c = 45" | "c = 43" | "c \<noteq> 45 \<and> c \<noteq> 43" by blast
  then show thesis
    by cases (use Cons minus [of cs] plus [of cs] none in \<open>simp_all add: skip_sign_def bs_def\<close>)
qed

lemma scan_num_10_full:
  "scan_num 10 s = Some (neg, m, []) \<Longrightarrow> is_decimal s (if neg then - int m else int m)"
proof -
  assume scan: "scan_num 10 s = Some (neg, m, [])"
  let ?t = "dropWhile isspace s"
  obtain ng s1 where sg: "skip_sign ?t = (ng, s1)" by fastforce
  let ?ds = "takeWhile isdigit s1"
  have "is_base_digit 10 = isdigit" by (simp add: fun_eq_iff is_base_digit_10)
  with scan sg have ds: "?ds \<noteq> []" "ng = neg" "m = digits_val 10 ?ds" "drop (length ?ds) s1 = []"
    by (auto simp: scan_num_def Let_def split: if_splits)
  have s1: "s1 = ?ds" "list_all isdigit s1"
    using ds(4) by (metis append_Nil2 takeWhile_dropWhile_id dropWhile_eq_drop)
      (metis ds(4) append_Nil2 list_all_iff set_takeWhileD takeWhile_dropWhile_id dropWhile_eq_drop)
  obtain g where g: "?t = g @ s1" "g \<in> {[], bs ''-'', bs ''+''}" "neg \<longleftrightarrow> g = bs ''-''"
    by (rule skip_sign_cases [of ?t]) (use sg ds(2) in \<open>auto simp: bs_def\<close>)
  have "s = takeWhile isspace s @ g @ s1" using g(1) by (metis takeWhile_dropWhile_id)
  moreover have "list_all isspace (takeWhile isspace s)" by (auto simp: list_all_iff dest: set_takeWhileD)
  moreover have "s1 \<noteq> []" using ds(1) s1(1) by auto
  moreover have "m = digits_val 10 s1" using ds(3) s1(1) by simp
  ultimately show ?thesis unfolding is_decimal_def using g(2,3) s1(2)
    by (intro exI [of _ "takeWhile isspace s"] exI [of _ g] exI [of _ s1]) simp
qed

lemma scan_num_10_of_decimal:
  assumes "is_decimal s v"
  obtains neg m where "scan_num 10 s = Some (neg, m, [])" "v = (if neg then - int m else int m)"
proof -
  from assms obtain ws g ds where s: "s = ws @ g @ ds" and ws: "list_all isspace ws"
    and g: "g \<in> {[], bs ''-'', bs ''+''}" and ds: "ds \<noteq> []" "list_all isdigit ds"
    and v: "v = (if g = bs ''-'' then - int (digits_val 10 ds) else int (digits_val 10 ds))"
    unfolding is_decimal_def by blast
  from ds obtain d ds' where d: "ds = d # ds'" "isdigit d" by (cases ds) auto
  note nd = isdigit_not_special [OF d(2)]
  have "\<not> isspace (ch (CHR ''-''))" "\<not> isspace (ch (CHR ''+''))" by (simp_all add: isspace_def)
  then have dw: "dropWhile isspace s = g @ ds"
    using ws g d nd unfolding s by (subst dropWhile_append2) (auto simp: list_all_iff bs_def)
  have sk: "skip_sign (g @ ds) = (g = bs ''-'', ds)"
    using g d nd by (auto simp: skip_sign_def bs_def)
  have tw: "takeWhile (is_base_digit 10) ds = ds"
    using ds(2) by (simp add: takeWhile_eq_all_conv list_all_iff is_base_digit_10)
  have "scan_num 10 s = Some (g = bs ''-'', digits_val 10 ds, [])"
    using ds(1) by (simp add: scan_num_def dw sk tw)
  with that v show thesis by blast
qed

lemma kore_strtonum_OK_iff:
  "kore_strtonum s 10 mn mx = (v, KORE_RESULT_OK) \<longleftrightarrow>
     is_decimal s v \<and> mn \<le> v \<and> v \<le> mx \<and> LLONG_MIN \<le> v \<and> v \<le> LLONG_MAX"
proof
  assume acc: "kore_strtonum s 10 mn mx = (v, KORE_RESULT_OK)"
  then obtain neg m where sc: "scan_num 10 s = Some (neg, m, [])"
    and v: "v = (if neg then - int m else int m)"
    by (auto simp: kore_strtonum_def strtoll_def Let_def split: if_splits prod.splits option.splits)
  with acc scan_num_10_full [OF sc]
  show "is_decimal s v \<and> mn \<le> v \<and> v \<le> mx \<and> LLONG_MIN \<le> v \<and> v \<le> LLONG_MAX"
    by (auto simp: kore_strtonum_def strtoll_def Let_def split: if_splits)
next
  assume r: "is_decimal s v \<and> mn \<le> v \<and> v \<le> mx \<and> LLONG_MIN \<le> v \<and> v \<le> LLONG_MAX"
  then obtain neg m where "scan_num 10 s = Some (neg, m, [])" "v = (if neg then - int m else int m)"
    using scan_num_10_of_decimal by blast
  with r show "kore_strtonum s 10 mn mx = (v, KORE_RESULT_OK)"
    by (auto simp: kore_strtonum_def strtoll_def Let_def)
qed

text \<open>\<open>kore_strtonum\<close> in base 10 accepts exactly the decimal numerals (leading white space and a
  sign allowed, nothing after the digits) whose value is in the requested range and in
  the range of \<open>long long\<close>, and returns that value.\<close>

theorem kore_strtonum_accepts:
  "kore_strtonum s 10 mn mx = (v, KORE_RESULT_OK) \<longleftrightarrow>
     is_decimal s v \<and> mn \<le> v \<and> v \<le> mx \<and> LLONG_MIN \<le> v \<and> v \<le> LLONG_MAX"
  by (rule kore_strtonum_OK_iff)

text \<open>The unsigned mode of \<open>kore_strtonum64\<close> is wrong at the edges of its range: the largest
  64-bit number is rejected, because \<open>errno\<close> still holds the \<open>ERANGE\<close> of the signed
  attempt, and a negative number below the signed range is accepted, wrapped around.\<close>

theorem kore_strtonum64_edges:
  "kore_strtonum64 False (bs ''18446744073709551615'') False = (0, KORE_RESULT_ERROR) \<and>
   kore_strtonum64 False (bs ''18446744073709551614'') False = (18446744073709551614, KORE_RESULT_OK) \<and>
   kore_strtonum64 False (bs ''-9223372036854775809'') False = (9223372036854775807, KORE_RESULT_OK)"
  by (simp_all add: kore_strtonum64_def strtoll_def strtoull_def scan_num_def skip_sign_def bs_def
      isspace_def is_base_digit_def digit_val_def isdigit_def digits_val_def LLONG_MAX_def LLONG_MIN_def
      ULLONG_MAX_def)

end
