(* ===== verification/Kore_Base64.thy ===== *)
theory Kore_Base64
  imports Kore_Buf Kore_Str
begin

text \<open>
  \<open>kore_base64_encode\<close> and \<open>kore_base64_decode\<close> of \<open>base/kore/utils.c\<close>, on the buffers of
  \<open>Kore_Buf\<close>, against the usual definition of base64 by groups of three bytes. They
  implement the interface \<open>text_codec\<close>.
\<close>

section \<open>Encoding\<close>

definition b64table :: "byte list" where
  "b64table = bs ''ABCDEFGHIJKLMNOPQRSTUVWXYZabcdefghijklmnopqrstuvwxyz0123456789+/'' @ [0]"

text \<open>The number of padding bytes.\<close>

definition pad_of :: "nat \<Rightarrow> nat" where
  "pad_of len = (if len mod 3 \<noteq> 0 then 3 - len mod 3 else 0)"

text \<open>The inner loop, for \<open>i = k - 1\<close> down to 0; \<open>past\<close> is \<open>idx >= len\<close>. \<open>None\<close> is the error return.\<close>

fun enc_inner :: "(nat \<Rightarrow> byte) \<Rightarrow> nat \<Rightarrow> u32 \<Rightarrow> bool \<Rightarrow> nat \<Rightarrow> kore_buf \<Rightarrow> kore_buf option res" where
  "enc_inner junk 0 b past padding res = Inr (Some res)"
| "enc_inner junk (Suc i) b past padding res =
     (let n = drop_bit (6 * i) b AND 0x3f in
      if unat n \<ge> length b64table then Inr None
      else if past \<and> i < padding then Inr (Some res)
      else rbind (kore_buf_append junk res [b64table ! unat n])
             (\<lambda>res1. enc_inner junk i b past padding res1))"

fun enc_loop ::
    "(nat \<Rightarrow> byte) \<Rightarrow> byte list \<Rightarrow> nat \<Rightarrow> nat \<Rightarrow> u32 \<Rightarrow> nat \<Rightarrow> nat \<Rightarrow> kore_buf \<Rightarrow> kore_buf option res" where
  "enc_loop junk [] idx i b len padding res = Inr (Some res)"
| "enc_loop junk (x # xs) idx i b len padding res =
     (let b1 = b OR push_bit (i * 8) (ucast x) in
      if i = 0 then
        rbind (enc_inner junk 4 b1 (idx \<ge> len) padding res)
          (\<lambda>r. case r of None \<Rightarrow> Inr None
             | Some res1 \<Rightarrow> enc_loop junk xs (idx + 1) 2 0 len padding res1)
      else enc_loop junk xs (idx + 1) (i - 1) b1 len padding res)"

fun pad_loop :: "(nat \<Rightarrow> byte) \<Rightarrow> nat \<Rightarrow> kore_buf \<Rightarrow> kore_buf res" where
  "pad_loop junk 0 res = Inr res"
| "pad_loop junk (Suc n) res = rbind (kore_buf_append junk res (bs ''='')) (pad_loop junk n)"

text \<open>The result code and the string in \<open>*out\<close> (with its terminator). \<open>after\<close> is the memory behind the
  block of the buffer, which the final \<open>kore_strlcpy\<close> reads: the encoded text is not
  NUL-terminated.\<close>

definition kore_base64_encode ::
    "(nat \<Rightarrow> byte) \<Rightarrow> byte list \<Rightarrow> byte list \<Rightarrow> (int \<times> byte list) res" where
  "kore_base64_encode junk after data =
     (let len = length data;
          padding = pad_of len;
          plen = wadd64 len padding in
      if plen < len then Inl (Fatal ''plen wrapped'')
      else let pdata = data @ replicate padding 0 in
        rbind (kore_buf_alloc junk plen) (\<lambda>res.
        rbind (enc_loop junk pdata 0 2 0 len padding res) (\<lambda>r.
          case r of None \<Rightarrow> Inr (KORE_RESULT_ERROR, [])
          | Some res1 \<Rightarrow>
              rbind (pad_loop junk padding res1) (\<lambda>res2.
                case kore_buf_release res2 of (p, olen, _) \<Rightarrow>
                  if wadd64 olen 1 < olen then Inl (Fatal ''plen wrapped'')
                  else case p of
                      None \<Rightarrow> Inl Null_deref
                    | Some block \<Rightarrow>
                        rbind (kore_strlcpy (block @ after) (olen + 1))
                          (\<lambda>(w, _). Inr (KORE_RESULT_OK, w))))))"

section \<open>Decoding\<close>

text \<open>The scan of the table; the index 65 means not found.\<close>

fun table_find :: "byte \<Rightarrow> byte list \<Rightarrow> nat \<Rightarrow> nat" where
  "table_find c [] o' = o'"
| "table_find c (t # ts) o' = (if t = c then o' else table_find c ts (Suc o'))"

text \<open>Emitting \<open>b >> (8 * i)\<close> for \<open>i = k - 1\<close> down to \<open>stop\<close>.\<close>

fun emit_bytes :: "(nat \<Rightarrow> byte) \<Rightarrow> nat \<Rightarrow> nat \<Rightarrow> u32 \<Rightarrow> kore_buf \<Rightarrow> kore_buf res" where
  "emit_bytes junk 0 stop b res = Inr res"
| "emit_bytes junk (Suc i) stop b res =
     (if i < stop then Inr res
      else rbind (kore_buf_append junk res [ucast (drop_bit (8 * i) b)]) (emit_bytes junk i stop b))"

text \<open>The loop over the input: the result says whether it stopped at \<open>=\<close>, with the final \<open>i\<close>, \<open>b\<close> and
  buffer; \<open>None\<close> for a character outside the alphabet.\<close>

fun dec_loop ::
    "(nat \<Rightarrow> byte) \<Rightarrow> byte list \<Rightarrow> nat \<Rightarrow> u32 \<Rightarrow> kore_buf \<Rightarrow> (bool \<times> nat \<times> u32 \<times> kore_buf) option res" where
  "dec_loop junk [] i b res = Inr (Some (False, i, b, res))"
| "dec_loop junk (c # cs) i b res =
     (if c = ch (CHR ''='') then Inr (Some (True, i, b, res))
      else let d = table_find c b64table 0 in
        if d = length b64table then Inr None
        else let b1 = b OR push_bit ((i - 1) * 6) (of_nat d AND 0x3f) in
          if i = 1 then
            rbind (emit_bytes junk 3 0 b1 res) (\<lambda>res1. dec_loop junk cs 4 0 res1)
          else dec_loop junk cs (i - 1) b1 res)"

text \<open>The result code, with the block and its length on success.\<close>

definition kore_base64_decode ::
    "(nat \<Rightarrow> byte) \<Rightarrow> byte list \<Rightarrow> (int \<times> byte list) res" where
  "kore_base64_decode junk s =
     rbind (kore_buf_alloc junk (length s)) (\<lambda>res.
     rbind (dec_loop junk s 4 0 res) (\<lambda>r.
       case r of None \<Rightarrow> Inr (KORE_RESULT_ERROR, [])
       | Some (eq, i, b, res1) \<Rightarrow>
           if eq \<and> i > 2 then Inr (KORE_RESULT_ERROR, [])
           else rbind (if eq then emit_bytes junk 3 i b res1 else Inr res1) (\<lambda>res2.
             case kore_buf_release res2 of (p, olen, _) \<Rightarrow>
               Inr (KORE_RESULT_OK, take olen (case p of None \<Rightarrow> [] | Some block \<Rightarrow> block)))))"

section \<open>Reference definition\<close>

text \<open>A group of three bytes as a 24-bit number, and its four six-bit digits.\<close>

definition group24 :: "byte \<Rightarrow> byte \<Rightarrow> byte \<Rightarrow> u32" where
  "group24 x y z = push_bit 16 (ucast x) OR push_bit 8 (ucast y) OR ucast z"

definition sextet :: "nat \<Rightarrow> u32 \<Rightarrow> nat" where
  "sextet i b = unat (drop_bit (6 * i) b AND 0x3f)"

definition b64char :: "nat \<Rightarrow> u32 \<Rightarrow> byte" where
  "b64char i b = b64table ! sextet i b"

fun base64 :: "byte list \<Rightarrow> byte list" where
  "base64 [] = []"
| "base64 [x] = (let g = group24 x 0 0 in [b64char 3 g, b64char 2 g] @ bs ''=='')"
| "base64 [x, y] = (let g = group24 x y 0 in [b64char 3 g, b64char 2 g, b64char 1 g] @ bs ''='')"
| "base64 (x # y # z # r) =
     (let g = group24 x y z in [b64char 3 g, b64char 2 g, b64char 1 g, b64char 0 g] @ base64 r)"

section \<open>Bits and table\<close>

lemma length_b64table [simp]: "length b64table = 65"
  by (simp add: b64table_def bs_def)

lemma sextet_lt [simp]: "sextet i b < 64"
proof -
  have "drop_bit (6 * i) b AND 0x3f \<le> (0x3f :: u32)" by (rule word_and_le1)
  then show ?thesis by (simp add: sextet_def word_le_nat_alt)
qed

lemma b64table_entries:
  assumes "n < 64"
  shows "table_find (b64table ! n) b64table 0 = n" "b64table ! n \<noteq> 0" "b64table ! n \<noteq> ch (CHR ''='')"
proof -
  have "\<forall>n \<in> set [0..<64]. table_find (b64table ! n) b64table 0 = n" by code_simp
  with assms show "table_find (b64table ! n) b64table 0 = n" by simp
  have "\<forall>c \<in> set (take 64 b64table). c \<noteq> 0 \<and> c \<noteq> ch (CHR ''='')"
    by (simp add: b64table_def bs_def)
  moreover have "b64table ! n \<in> set (take 64 b64table)"
    using assms by (auto simp: in_set_conv_nth intro!: exI [of _ n])
  ultimately show "b64table ! n \<noteq> 0" "b64table ! n \<noteq> ch (CHR ''='')" by blast+
qed

lemma sextets_join:
  "push_bit 18 (drop_bit 18 b AND 0x3f) OR push_bit 12 (drop_bit 12 b AND 0x3f) OR
   push_bit 6 (drop_bit 6 b AND 0x3f) OR (b AND 0x3f) = b AND (mask 24 :: u32)"
proof -
  have m: "(0x3f :: u32) = mask 6" by (simp add: mask_numeral)
  show ?thesis unfolding m
  proof (rule bit_word_eqI)
    fix n assume "n < LENGTH(32)"
    consider "n < 6" | "6 \<le> n" "n < 12" | "12 \<le> n" "n < 18" | "18 \<le> n" "n < 24" | "24 \<le> n"
      by linarith
    then show "bit (push_bit 18 (drop_bit 18 b AND mask 6) OR push_bit 12 (drop_bit 12 b AND mask 6) OR
        push_bit 6 (drop_bit 6 b AND mask 6) OR (b AND mask 6)) n = bit (b AND mask 24) n"
      by cases (use \<open>n < LENGTH(32)\<close> in \<open>simp_all add: bit_simps\<close>, linarith+)
  qed
qed

lemma group24_bytes:
  "ucast (drop_bit 16 (group24 x y z)) = x"
  "ucast (drop_bit 8 (group24 x y z)) = y"
  "ucast (group24 x y z) = z"
  unfolding group24_def
  by (rule bit_word_eqI; auto simp: bit_simps dest: bit_imp_le_length)+

lemma group24_mask: "group24 x y z AND mask 24 = group24 x y z"
  unfolding group24_def by (rule bit_word_eqI) (auto simp: bit_simps dest: bit_imp_le_length)

text \<open>The unused digits of a short last group are zero.\<close>

lemma group24_low_zero:
  "group24 x y 0 AND 0x3f = 0"
  "drop_bit 6 (group24 x 0 0) AND 0x3f = 0"
proof -
  have m: "(0x3f :: u32) = mask 6" by (simp add: mask_numeral)
  show "group24 x y 0 AND 0x3f = 0" "drop_bit 6 (group24 x 0 0) AND 0x3f = 0"
    unfolding group24_def m by (rule bit_word_eqI; auto simp: bit_simps)+
qed

lemma group24_join:
  "push_bit 18 (drop_bit 18 (group24 x y z) AND 0x3f) OR push_bit 12 (drop_bit 12 (group24 x y z) AND 0x3f) OR
   push_bit 6 (drop_bit 6 (group24 x y z) AND 0x3f) OR (group24 x y z AND 0x3f) = group24 x y z"
  using sextets_join [of "group24 x y z"] unfolding group24_mask .

section \<open>The encoder\<close>

lemma enc_inner_holds:
  assumes "lo = (if past then p else 0)"
  shows "buf_holds res cs (k - lo + n) \<Longrightarrow>
    \<exists>res'. enc_inner junk k b past p res = Inr (Some res') \<and>
      buf_holds res' (cs @ map (\<lambda>i. b64char i b) (rev [lo..<k])) n"
proof (induction k arbitrary: res cs)
  case (Suc i)
  have lt: "unat (drop_bit (6 * i) b AND 0x3f) < 65"
    using sextet_lt [of i b] by (simp add: sextet_def)
  show ?case
  proof (cases "past \<and> i < p")
    case True
    with lt Suc.prems assms show ?thesis by (simp add: Let_def)
  next
    case False
    with assms have lo: "lo \<le> i" by (auto split: if_splits)
    then have upt: "rev [lo..<Suc i] = i # rev [lo..<i]" by simp
    from Suc.prems lo have "buf_holds res cs (length [b64char i b] + (i - lo + n))"
      by (simp add: Suc_diff_le)
    from buf_holds_append [OF this, of junk] obtain r1 where
      r1: "kore_buf_append junk res [b64char i b] = Inr r1" "buf_holds r1 (cs @ [b64char i b]) (i - lo + n)"
      by blast
    from Suc.IH [OF r1(2)] obtain r2 where
      "enc_inner junk i b past p r1 = Inr (Some r2)"
      "buf_holds r2 ((cs @ [b64char i b]) @ map (\<lambda>i. b64char i b) (rev [lo..<i])) n"
      by blast
    with r1(1) False lt show ?thesis
      unfolding upt by (auto simp: Let_def b64char_def sextet_def)
  qed
qed simp

lemma rev_upt_numerals:
  "rev [0..<4] = [3, 2, 1, 0::nat]" "rev [Suc 0..<4] = [3, 2, Suc 0]" "rev [2..<4] = [3, 2::nat]"
  by (simp_all add: upt_conv_Cons numeral_eq_Suc)

lemma replicate_numerals: "replicate 1 a = [a]" "replicate 2 a = [a, a]"
  by (simp_all add: numeral_eq_Suc)

lemma enc_loop_group:
  "enc_loop junk (x # y # z # xs) idx 2 0 len p res =
     rbind (enc_inner junk 4 (group24 x y z) (idx + 2 \<ge> len) p res)
       (\<lambda>r. case r of None \<Rightarrow> Inr None | Some res1 \<Rightarrow> enc_loop junk xs (idx + 3) 2 0 len p res1)"
proof -
  have "Suc (Suc idx) = idx + 2" "Suc (Suc (Suc idx)) = idx + 3" by simp_all
  then show ?thesis by (simp add: group24_def or.assoc numeral_eq_Suc del: enc_inner.simps)
qed

declare enc_loop.simps(2) [simp del]

lemma enc_loop_holds:
  "buf_holds res cs (length (base64 data) + n) \<Longrightarrow>
    \<exists>res' body. enc_loop junk (data @ replicate (pad_of (length data)) 0) idx 2 0 (idx + length data)
        (pad_of (length data)) res = Inr (Some res') \<and>
      base64 data = body @ replicate (pad_of (length data)) (ch (CHR ''='')) \<and>
      buf_holds res' (cs @ body) (pad_of (length data) + n)"
proof (induction data arbitrary: idx res cs rule: base64.induct)
  case 1
  then show ?case by (auto simp: pad_of_def)
next
  case (2 x)
  then have "buf_holds res cs (4 - 2 + (2 + n))" by (simp add: Let_def bs_def)
  from enc_inner_holds [OF _ this, of True 2 junk "group24 x 0 0"] show ?case
    by (auto simp: pad_of_def enc_loop_group Let_def bs_def rev_upt_numerals replicate_numerals)
next
  case (3 x y)
  then have "buf_holds res cs (4 - 1 + (1 + n))" by (simp add: Let_def bs_def numeral_eq_Suc)
  from enc_inner_holds [OF _ this, of True 1 junk "group24 x y 0"] show ?case
    by (auto simp: pad_of_def enc_loop_group Let_def bs_def rev_upt_numerals replicate_numerals)
next
  case (4 x y z r)
  let ?g = "group24 x y z" and ?p = "pad_of (length r)"
  have pad: "pad_of (length (x # y # z # r)) = ?p" by (simp add: pad_of_def)
  from 4(2) have "buf_holds res cs (4 - 0 + (length (base64 r) + n))"
    by (simp add: Let_def numeral_eq_Suc)
  from enc_inner_holds [OF _ this, of False ?p junk ?g] obtain r1 where
    r1: "enc_inner junk 4 ?g False ?p res = Inr (Some r1)"
      "buf_holds r1 (cs @ [b64char 3 ?g, b64char 2 ?g, b64char 1 ?g, b64char 0 ?g]) (length (base64 r) + n)"
    by (auto simp: rev_upt_numerals)
  from "4.IH" [OF refl r1(2), of "idx + 3"] obtain r2 body where
    "enc_loop junk (r @ replicate ?p 0) (idx + 3) 2 0 (idx + 3 + length r) ?p r1 = Inr (Some r2)"
    "base64 r = body @ replicate ?p (ch CHR ''='')"
    "buf_holds r2 ((cs @ [b64char 3 ?g, b64char 2 ?g, b64char 1 ?g, b64char 0 ?g]) @ body) (?p + n)"
    by blast
  moreover have len: "idx + length (x # y # z # r) = idx + 3 + length r" by simp
  moreover have "\<not> idx + 3 + length r \<le> idx + 2" by simp
  ultimately show ?case
    unfolding pad append_Cons enc_loop_group len using r1(1) by (simp add: Let_def)
qed


lemma pad_loop_holds:
  "buf_holds res cs (p + n) \<Longrightarrow>
    \<exists>res'. pad_loop junk p res = Inr res' \<and> buf_holds res' (cs @ replicate p (ch (CHR ''=''))) n"
proof (induction p arbitrary: res cs)
  case (Suc p)
  then have "buf_holds res cs (length (bs ''='') + (p + n))" by (simp add: bs_def)
  from buf_holds_append [OF this, of junk] obtain r1 where
    "kore_buf_append junk res (bs ''='') = Inr r1" "buf_holds r1 (cs @ bs ''='') (p + n)" by blast
  with Suc.IH [of r1 "cs @ bs ''=''"] show ?case by (auto simp: bs_def)
qed simp

lemma base64_no_nul: "0 \<notin> set (base64 data)"
  by (induction data rule: base64.induct)
    (auto simp: Let_def b64char_def bs_def b64table_entries(2) [OF sextet_lt] dest: sym)

lemma length_base64_le: "length (base64 data) \<le> 4 * length data"
  by (induction data rule: base64.induct) (simp_all add: Let_def bs_def)

text \<open>A copy of exactly the encoded bytes: whatever follows them in memory, as long as there is a NUL.\<close>

lemma kore_strlcpy_prefix:
  assumes "0 \<notin> set t" and "0 \<in> set m"
  shows "\<exists>n. kore_strlcpy (t @ m) (length t + 1) = Inr (t @ [0], n)"
proof -
  from split_list_first [OF assms(2)] obtain a r where m: "m = a @ 0 # r" "0 \<notin> set a" by blast
  then have "kore_strlcpy ((t @ a) @ 0 # r) (length t + 1) = Inr (t @ [0], length (t @ a))"
    using kore_strlcpy_string [of "t @ a" "length t + 1" r] assms(1) by simp
  with m show ?thesis by auto
qed

lemma kore_base64_encode_eq:
  assumes "length data < 2 ^ 60" and "0 \<in> set after"
  shows "kore_base64_encode junk after data =
    (if data = [] then Inl Null_deref else Inr (KORE_RESULT_OK, base64 data @ [0]))"
proof (cases "data = []")
  case True
  then show ?thesis
    by (simp add: kore_base64_encode_def kore_buf_alloc_def kore_buf_init_def kore_buf_release_def pad_of_def)
next
  case False
  let ?p = "pad_of (length data)"
  have pl: "?p \<le> 2" by (auto simp: pad_of_def)
  have w: "wadd64 (length data) ?p = length data + ?p" using assms(1) pl by simp
  note lb = length_base64_le [of data]
  have "length data + ?p + (length (base64 data) + 0) < 2 ^ 64" using lb assms(1) pl by simp
  from buf_holds_alloc [OF this, of junk] obtain res where
    al: "kore_buf_alloc junk (length data + ?p) = Inr res" "buf_holds res [] (length (base64 data) + 0)"
    by blast
  from enc_loop_holds [OF al(2), of junk 0] obtain res1 body where
    l: "enc_loop junk (data @ replicate ?p 0) 0 2 0 (length data) ?p res = Inr (Some res1)"
      "base64 data = body @ replicate ?p (ch (CHR ''=''))" "buf_holds res1 body (?p + 0)"
    by auto
  from pad_loop_holds [OF l(3), of junk] obtain res2 where
    pd: "pad_loop junk ?p res1 = Inr res2" "buf_holds res2 (base64 data) 0" using l(2) by auto
  then have ok: "buf_ok res2" "buf_contents res2 = base64 data" by (auto simp: buf_holds_def)
  have ol: "boffset res2 = length (base64 data)" using length_buf_contents [OF ok(1)] ok(2) by simp
  then have w2: "\<not> wadd64 (boffset res2) (Suc 0) < boffset res2" using lb assms(1) by simp
  have "base64 data \<noteq> []" using False by (cases data rule: base64.cases) (auto simp: Let_def)
  with ok(2) obtain block where block: "bdata res2 = Some block" "take (boffset res2) block = base64 data"
    by (auto simp: buf_contents_def split: option.splits)
  then have "block @ after = base64 data @ (drop (boffset res2) block @ after)"
    by (metis append.assoc append_take_drop_id)
  with kore_strlcpy_prefix [OF base64_no_nul, of "drop (boffset res2) block @ after"] assms(2) ol
  obtain n where "kore_strlcpy (block @ after) (boffset res2 + 1) = Inr (base64 data @ [0], n)" by auto
  with False block show ?thesis
    by (simp add: kore_base64_encode_def Let_def w al(1) l(1) pd(1)
        kore_buf_release_def w2)
qed

text \<open>For non-empty input \<open>kore_base64_encode\<close> returns the NUL-terminated base64 text, provided a
  NUL byte follows the unterminated buffer somewhere in memory; for empty input it
  dereferences \<open>NULL\<close>.\<close>

theorem kore_base64_encode_correct:
  assumes "length data < 2 ^ 60" and "0 \<in> set after"
  shows "kore_base64_encode junk after data =
    (if data = [] then Inl Null_deref else Inr (KORE_RESULT_OK, base64 data @ [0]))"
  using assms by (rule kore_base64_encode_eq)

theorem kore_base64_encode_correct_witness:
  "kore_base64_encode (\<lambda>_. 7) [0xd0, 0xd0, 0] (bs ''ab'') =
    (if bs ''ab'' = [] then Inl Null_deref else Inr (KORE_RESULT_OK, base64 (bs ''ab'') @ [0]))"
  by (rule kore_base64_encode_correct) (simp_all add: bs_def)

section \<open>The decoder\<close>

lemma dec_loop_char:
  "dec_loop junk (b64char i g # cs) j b res =
     (let b1 = b OR push_bit ((j - 1) * 6) (drop_bit (6 * i) g AND 0x3f) in
      if j = 1 then rbind (emit_bytes junk 3 0 b1 res) (\<lambda>res1. dec_loop junk cs 4 0 res1)
      else dec_loop junk cs (j - 1) b1 res)"
proof -
  note e = b64table_entries [OF sextet_lt, of i g]
  have "(of_nat (sextet i g) :: u32) AND 0x3f = drop_bit (6 * i) g AND 0x3f"
    by (simp add: sextet_def ac_simps)
  moreover have "sextet i g \<noteq> 65" using sextet_lt [of i g] by linarith
  ultimately show ?thesis using e by (simp add: dec_loop.simps(2) b64char_def Let_def)
qed

declare dec_loop.simps(2) [simp del]

lemma dec_loop_eq: "dec_loop junk (ch (CHR ''='') # cs) j b res = Inr (Some (True, j, b, res))"
  by (simp add: dec_loop.simps(2))

lemma emit_bytes_holds:
  "buf_holds res cs (k - stop + n) \<Longrightarrow>
    \<exists>res'. emit_bytes junk k stop b res = Inr res' \<and>
      buf_holds res' (cs @ map (\<lambda>i. ucast (drop_bit (8 * i) b)) (rev [stop..<k])) n"
proof (induction k arbitrary: res cs)
  case (Suc i)
  show ?case
  proof (cases "i < stop")
    case False
    let ?d = "[ucast (drop_bit (8 * i) b)] :: byte list"
    from False Suc.prems have "buf_holds res cs (length ?d + (i - stop + n))" by (simp add: Suc_diff_le)
    from buf_holds_append [OF this, of junk] obtain r1 where
      r1: "kore_buf_append junk res ?d = Inr r1" "buf_holds r1 (cs @ ?d) (i - stop + n)" by blast
    from Suc.IH [OF r1(2)] r1(1) False show ?thesis by auto
  qed (use Suc.prems in simp)
qed simp

lemma dec_loop_group:
  "dec_loop junk ([b64char 3 g, b64char 2 g, b64char 1 g, b64char 0 g] @ cs) 4 0 res =
     rbind (emit_bytes junk 3 0 (g AND mask 24) res) (\<lambda>res1. dec_loop junk cs 4 0 res1)"
  using sextets_join [of g] by (simp add: dec_loop_char Let_def or.assoc)

lemma rev_upt_bytes: "rev [0..<3] = [2, Suc 0, 0]" "rev [Suc 0..<3] = [2, Suc 0]" "rev [2..<3] = [2::nat]"
  by (simp_all add: upt_conv_Cons numeral_eq_Suc)

lemma dec_loop_holds:
  "buf_holds res cs (length data + n) \<Longrightarrow>
    \<exists>eq i b res1. dec_loop junk (base64 data) 4 0 res = Inr (Some (eq, i, b, res1)) \<and> \<not> (eq \<and> i > 2) \<and>
      (\<exists>res2. (if eq then emit_bytes junk 3 i b res1 else Inr res1) = Inr res2 \<and>
        buf_holds res2 (cs @ data) n)"
proof (induction data arbitrary: res cs rule: base64.induct)
  case (2 x)
  let ?g = "group24 x 0 0"
  have g: "push_bit 18 (drop_bit 18 ?g AND 0x3f) OR push_bit 12 (drop_bit 12 ?g AND 0x3f) = ?g"
    using group24_join [of x 0 0] group24_low_zero(1) [of x 0] group24_low_zero(2) [of x] by simp
  from 2 have "buf_holds res cs (3 - 2 + n)" by simp
  from emit_bytes_holds [OF this, of junk ?g] g show ?case
    by (auto simp: Let_def bs_def dec_loop_char dec_loop_eq [simplified] rev_upt_bytes group24_bytes)
next
  case (3 x y)
  let ?g = "group24 x y 0"
  have g: "push_bit 18 (drop_bit 18 ?g AND 0x3f) OR push_bit 12 (drop_bit 12 ?g AND 0x3f)
      OR push_bit 6 (drop_bit 6 ?g AND 0x3f) = ?g"
    using group24_join [of x y 0] group24_low_zero(1) [of x y] by simp
  from 3 have "buf_holds res cs (3 - 1 + n)" by simp
  from emit_bytes_holds [OF this, of junk ?g] g show ?case
    by (auto simp: Let_def bs_def dec_loop_char dec_loop_eq [simplified] rev_upt_bytes group24_bytes or.assoc)
next
  case (4 x y z r)
  let ?g = "group24 x y z"
  from 4(2) have "buf_holds res cs (3 - 0 + (length r + n))" by (simp add: numeral_eq_Suc)
  from emit_bytes_holds [OF this, of junk ?g] obtain r1 where
    "emit_bytes junk 3 0 ?g res = Inr r1" "buf_holds r1 (cs @ [x, y, z]) (length r + n)"
    by (auto simp: rev_upt_bytes group24_bytes)
  with "4.IH" [OF refl this(2)] show ?case
    using dec_loop_group [of junk ?g "base64 r" res] by (simp add: Let_def group24_mask)
qed (auto intro: exI [of _ False])

lemma length_base64_ge: "length data \<le> length (base64 data)"
  by (induction data rule: base64.induct) (simp_all add: Let_def bs_def)

lemma base64_decode_encode:
  assumes "length data < 2 ^ 60"
  shows "kore_base64_decode junk (base64 data) = Inr (KORE_RESULT_OK, data)"
proof -
  have "length (base64 data) + (length data + 0) < 2 ^ 64" using length_base64_le [of data] assms by simp
  from buf_holds_alloc [OF this, of junk] obtain res where
    al: "kore_buf_alloc junk (length (base64 data)) = Inr res" "buf_holds res [] (length data + 0)" by blast
  from dec_loop_holds [OF al(2), of junk] obtain eq i b res1 res2 where
    "dec_loop junk (base64 data) 4 0 res = Inr (Some (eq, i, b, res1))" "\<not> (eq \<and> i > 2)"
    "(if eq then emit_bytes junk 3 i b res1 else Inr res1) = Inr res2" "buf_holds res2 data 0" by auto
  moreover from this(4) have "take (boffset res2) (case bdata res2 of None \<Rightarrow> [] | Some b \<Rightarrow> b) = data"
    by (auto simp: buf_holds_def buf_contents_def split: option.splits)
  ultimately show ?thesis using al(1) by (simp add: kore_base64_decode_def kore_buf_release_def)
qed

definition base64_decode_opt :: "(nat \<Rightarrow> byte) \<Rightarrow> byte list \<Rightarrow> byte list option" where
  "base64_decode_opt junk s =
     (case kore_base64_decode junk s of Inr (r, d) \<Rightarrow> if r = KORE_RESULT_OK then Some d else None
      | Inl _ \<Rightarrow> None)"

interpretation b64: text_codec "\<lambda>data. length data < 2 ^ 60" base64 "base64_decode_opt junk" for junk
  by unfold_locales (simp add: base64_decode_opt_def base64_decode_encode)



end
