(* ===== verification/Kore_Timer.thy ===== *)
theory Kore_Timer
  imports Kore_Prelude
begin

text \<open>
  The timers of \<open>base/kore/timer.c\<close>. A timer is an address into a store of timer structures; the list
  \<open>kore_timers\<close> is a list of addresses, kept in the order of \<open>nextrun\<close>. \<open>now_ms\<close> is the value
  \<open>kore_time_ms()\<close> returns during the call. A callback may change the whole state.

  \<open>kore_timer_run\<close> loops while timers are due; it carries fuel, and the result is \<open>None\<close> when that runs
  out.
\<close>

section \<open>State\<close>

record kore_timer =
  nextrun :: u64
  interval :: u64
  tflags :: u32

definition KORE_TIMER_ONESHOT :: u32 where "KORE_TIMER_ONESHOT = 0x01"
definition KORE_TIMER_INPLACE :: u32 where "KORE_TIMER_INPLACE = 0x02"

text \<open>\<open>client\<close> is whatever else the callbacks act on.\<close>

record 'c timers =
  kore_timers :: "nat list"
  tstore :: "nat \<Rightarrow> kore_timer"
  client :: 'c

definition kore_timer_init :: "'c timers \<Rightarrow> 'c timers" where
  "kore_timer_init s = s\<lparr>kore_timers := []\<rparr>"

section \<open>Operations\<close>

text \<open>The walk to the first timer that runs later, with the insertion before it or at the tail.\<close>

fun insert_timer :: "(nat \<Rightarrow> kore_timer) \<Rightarrow> nat \<Rightarrow> nat list \<Rightarrow> nat list" where
  "insert_timer st timer [] = [timer]"
| "insert_timer st timer (t # ts) =
     (if nextrun (st t) > nextrun (st timer) then timer # t # ts else t # insert_timer st timer ts)"

text \<open>\<open>timer\<close> is the address \<open>kore_malloc\<close> returned.\<close>

definition kore_timer_new :: "u64 \<Rightarrow> nat \<Rightarrow> u64 \<Rightarrow> u32 \<Rightarrow> 'c timers \<Rightarrow> 'c timers" where
  "kore_timer_new now_ms timer ival flags s =
     s\<lparr>tstore := (tstore s)(timer := \<lparr>nextrun = now_ms + ival, interval = ival, tflags = flags\<rparr>)\<rparr>"

definition kore_timer_set :: "u64 \<Rightarrow> nat \<Rightarrow> 'c timers \<Rightarrow> 'c timers" where
  "kore_timer_set now_ms timer s =
     (let t = (tstore s timer)\<lparr>nextrun := now_ms + interval (tstore s timer)\<rparr> in
      if tflags t AND KORE_TIMER_INPLACE = 0 then
        let st = (tstore s)(timer := t\<lparr>tflags := tflags t OR KORE_TIMER_INPLACE\<rparr>) in
        s\<lparr>tstore := st, kore_timers := insert_timer st timer (kore_timers s)\<rparr>
      else s\<lparr>tstore := (tstore s)(timer := t)\<rparr>)"

definition kore_timer_add :: "u64 \<Rightarrow> nat \<Rightarrow> u64 \<Rightarrow> u32 \<Rightarrow> 'c timers \<Rightarrow> 'c timers" where
  "kore_timer_add now_ms timer ival flags s =
     (let s1 = kore_timer_new now_ms timer ival flags s;
          t = tstore s1 timer;
          st = (tstore s1)(timer := t\<lparr>tflags := tflags t OR KORE_TIMER_INPLACE\<rparr>)
      in s1\<lparr>tstore := st, kore_timers := insert_timer st timer (kore_timers s1)\<rparr>)"

text \<open>\<open>TAILQ_REMOVE\<close> of a timer that is on the list; the structure is freed.\<close>

definition kore_timer_remove :: "nat \<Rightarrow> 'c timers \<Rightarrow> 'c timers" where
  "kore_timer_remove timer s = s\<lparr>kore_timers := remove1 timer (kore_timers s)\<rparr>"

text \<open>One turn of the loop of \<open>kore_timer_run\<close> for a timer that is due, at the head of the list.\<close>

definition run_timer :: "(u64 \<Rightarrow> nat \<Rightarrow> 'c timers \<Rightarrow> 'c timers) \<Rightarrow> u64 \<Rightarrow> nat \<Rightarrow> 'c timers \<Rightarrow> 'c timers" where
  "run_timer cb now timer s =
     (let t = tstore s timer;
          s1 = s\<lparr>kore_timers := tl (kore_timers s),
                 tstore := (tstore s)(timer := t\<lparr>tflags := tflags t AND NOT KORE_TIMER_INPLACE\<rparr>)\<rparr>;
          s2 = cb now timer s1
      in if tflags (tstore s2 timer) AND KORE_TIMER_ONESHOT \<noteq> 0 then s2
         else let t2 = tstore s2 timer;
                  st = (tstore s2)(timer := t2\<lparr>nextrun := now + interval t2\<rparr>)
           in s2\<lparr>tstore := st, kore_timers := insert_timer st timer (kore_timers s2)\<rparr>)"

fun run_loop ::
    "nat \<Rightarrow> (u64 \<Rightarrow> nat \<Rightarrow> 'c timers \<Rightarrow> 'c timers) \<Rightarrow> u64 \<Rightarrow> 'c timers \<Rightarrow> ('c timers \<times> u64) option" where
  "run_loop 0 cb now s = None"
| "run_loop (Suc fuel) cb now s =
     (case kore_timers s of
        [] \<Rightarrow> Some (s, 100)
      | timer # _ \<Rightarrow>
          if nextrun (tstore s timer) > now then Some (s, nextrun (tstore s timer) - now)
          else run_loop fuel cb now (run_timer cb now timer s))"

definition kore_timer_run ::
    "nat \<Rightarrow> (u64 \<Rightarrow> nat \<Rightarrow> 'c timers \<Rightarrow> 'c timers) \<Rightarrow> u64 \<Rightarrow> 'c timers \<Rightarrow> ('c timers \<times> u64) option" where
  "kore_timer_run fuel cb now s =
     (case run_loop fuel cb now s of
        None \<Rightarrow> None
      | Some (s1, next_timer) \<Rightarrow> Some (s1, if next_timer > 1 then next_timer - 1 else next_timer))"

section \<open>Order\<close>

definition timers_sorted :: "'c timers \<Rightarrow> bool" where
  "timers_sorted s \<longleftrightarrow> sorted_wrt (\<lambda>a b. nextrun (tstore s a) \<le> nextrun (tstore s b)) (kore_timers s)"

lemma set_insert_timer [simp]: "set (insert_timer st t ts) = insert t (set ts)"
  by (induction ts) auto

lemma mset_insert_timer [simp]: "mset (insert_timer st t ts) = add_mset t (mset ts)"
  by (induction ts) auto

lemma insert_timer_distinct: "distinct ts \<Longrightarrow> t \<notin> set ts \<Longrightarrow> distinct (insert_timer st t ts)"
  by (induction ts) auto

lemma insert_timer_cong: "(\<And>x. x \<in> insert t (set ts) \<Longrightarrow> nextrun (st x) = nextrun (st' x)) \<Longrightarrow> insert_timer st t ts = insert_timer st' t ts"
  by (induction ts) auto

lemma insert_timer_sorted:
  "sorted_wrt (\<lambda>a b. nextrun (st a) \<le> nextrun (st b)) ts \<Longrightarrow>
   sorted_wrt (\<lambda>a b. nextrun (st a) \<le> nextrun (st b)) (insert_timer st t ts)"
  by (induction ts) auto

lemma sorted_wrt_store:
  assumes "sorted_wrt (\<lambda>a b. nextrun (st a) \<le> nextrun (st b)) ts" "\<And>x. x \<in> set ts \<Longrightarrow> nextrun (st' x) = nextrun (st x)"
  shows "sorted_wrt (\<lambda>a b. nextrun (st' a) \<le> nextrun (st' b)) ts"
  using assms by (auto intro: sorted_wrt_mono_rel [rotated])

text \<open>Callbacks that act on their own state and leave the timers alone.\<close>

definition on_client :: "(u64 \<Rightarrow> nat \<Rightarrow> 'c \<Rightarrow> 'c) \<Rightarrow> u64 \<Rightarrow> nat \<Rightarrow> 'c timers \<Rightarrow> 'c timers" where
  "on_client f now t s = s\<lparr>client := f now t (client s)\<rparr>"

definition due :: "u64 \<Rightarrow> 'c timers \<Rightarrow> nat list" where
  "due now s = takeWhile (\<lambda>t. nextrun (tstore s t) \<le> now) (kore_timers s)"

text \<open>Periodic timers move ahead of \<open>now\<close> when they are rescheduled.\<close>

definition advances :: "u64 \<Rightarrow> 'c timers \<Rightarrow> bool" where
  "advances now s \<longleftrightarrow> (\<forall>t \<in> set (kore_timers s). tflags (tstore s t) AND KORE_TIMER_ONESHOT = 0 \<longrightarrow>
     now < now + interval (tstore s t))"

definition timers_ok :: "u64 \<Rightarrow> 'c timers \<Rightarrow> bool" where
  "timers_ok now s \<longleftrightarrow> distinct (kore_timers s) \<and> timers_sorted s \<and> advances now s"

lemma flag_simps: "(f AND NOT KORE_TIMER_INPLACE) AND KORE_TIMER_ONESHOT = f AND KORE_TIMER_ONESHOT"
  by (rule bit_word_eqI) (auto simp: KORE_TIMER_ONESHOT_def KORE_TIMER_INPLACE_def bit_simps)


text \<open>Timers the run keeps: all but the due one-shot ones.\<close>

definition kept :: "u64 \<Rightarrow> 'c timers \<Rightarrow> nat \<Rightarrow> bool" where
  "kept now s t \<longleftrightarrow> nextrun (tstore s t) > now \<or> tflags (tstore s t) AND KORE_TIMER_ONESHOT = 0"

lemma due_Cons:
  assumes "kore_timers s = t # ts" "nextrun (tstore s t) \<le> now" "t \<notin> set ts"
  shows "due now s = t # takeWhile (\<lambda>x. nextrun (tstore s x) \<le> now) ts"
  using assms by (simp add: due_def)

text \<open>Inserting a timer that is not due does not change which timers are due.\<close>

lemma takeWhile_insert_timer:
  assumes "nextrun (st t) > now"
  shows "takeWhile (\<lambda>x. nextrun (st x) \<le> now) (insert_timer st t ts) = takeWhile (\<lambda>x. nextrun (st x) \<le> now) ts"
  using assms by (induction ts) auto

definition stepped :: "(u64 \<Rightarrow> nat \<Rightarrow> 'c \<Rightarrow> 'c) \<Rightarrow> u64 \<Rightarrow> nat \<Rightarrow> 'c timers \<Rightarrow> 'c timers \<Rightarrow> bool" where
  "stepped f now t s s' \<longleftrightarrow>
     timers_ok now s' \<and> due now s = t # due now s' \<and> client s' = f now t (client s) \<and>
     set (kore_timers s') = {x \<in> set (kore_timers s). x \<noteq> t \<or> kept now s t} \<and>
     (\<forall>x. x \<noteq> t \<longrightarrow> tstore s' x = tstore s x) \<and> (kept now s t \<longrightarrow> kept now s' t)"

lemma run_timer_stepped:
  assumes ok: "timers_ok now s" and l: "kore_timers s = t # ts" and d: "nextrun (tstore s t) \<le> now"
  shows "stepped f now t s (run_timer (on_client f) now t s)"
proof -
  let ?t = "tstore s t" and ?tf = "tflags (tstore s t) AND NOT KORE_TIMER_INPLACE"
  have nt: "t \<notin> set ts" "distinct ts" using ok l by (auto simp: timers_ok_def)
  have srt: "sorted_wrt (\<lambda>a b. nextrun (tstore s a) \<le> nextrun (tstore s b)) ts"
    using ok l by (auto simp: timers_ok_def timers_sorted_def)
  have other1: "takeWhile (\<lambda>x. nextrun (((tstore s)(t := v)) x) \<le> now) ts = takeWhile (\<lambda>x. nextrun (tstore s x) \<le> now) ts" for v
    using nt(1) by (auto intro!: takeWhile_cong)
  have other2: "sorted_wrt (\<lambda>a b. nextrun (((tstore s)(t := v)) a) \<le> nextrun (((tstore s)(t := v)) b)) ts" for v
    by (rule sorted_wrt_store [OF srt]) (use nt(1) in auto)
  note other = other1 other2
  show ?thesis
  proof (cases "tflags ?t AND KORE_TIMER_ONESHOT = 0")
    case False
    define s' where "s' = s\<lparr>kore_timers := ts, tstore := (tstore s)(t := ?t\<lparr>tflags := ?tf\<rparr>), client := f now t (client s)\<rparr>"
    have "run_timer (on_client f) now t s = s'"
      using False l by (simp add: s'_def run_timer_def on_client_def Let_def flag_simps)
    moreover have "due now s = t # due now s'" using due_Cons [OF l d nt(1)] other(1) by (simp add: due_def s'_def)
    moreover have "timers_ok now s'" using ok l nt other(2)
      by (auto simp: timers_ok_def timers_sorted_def advances_def s'_def)
    moreover have "\<not> kept now s t" using False d by (auto simp: kept_def)
    ultimately show ?thesis using l nt by (auto simp: stepped_def s'_def)
  next
    case True
    let ?v = "?t\<lparr>tflags := ?tf, nextrun := now + interval ?t\<rparr>"
    define st where "st = (tstore s)(t := ?v)"
    have st: "st t = ?v" "\<And>x. x \<noteq> t \<Longrightarrow> st x = tstore s x" by (simp_all add: st_def)
    define s' where "s' = s\<lparr>kore_timers := insert_timer st t ts, tstore := st, client := f now t (client s)\<rparr>"
    have "run_timer (on_client f) now t s = s'"
      using True l by (simp add: s'_def st_def run_timer_def on_client_def Let_def flag_simps)
    moreover have adv: "now < now + interval ?t" using ok l True by (auto simp: timers_ok_def advances_def)
    moreover have "due now s = t # due now s'"
      using due_Cons [OF l d nt(1)] other(1) [of ?v] takeWhile_insert_timer [of now st t ts] adv
      by (simp add: due_def s'_def st_def)
    moreover have "timers_ok now s'"
    proof -
      have "timers_sorted s'"
      using insert_timer_sorted [OF other(2) [of ?v], of t] by (simp add: timers_sorted_def s'_def flip: st_def)
      moreover have "st x = tstore s x" if "x \<in> set ts" for x using st(2) nt(1) that by metis
      ultimately show ?thesis using ok l nt adv
        by (auto simp: timers_ok_def advances_def s'_def insert_timer_distinct st(1))
    qed
    moreover have "kept now s t" "kept now s' t" using True adv by (auto simp: kept_def s'_def st)
    ultimately show ?thesis using l by (auto simp: stepped_def s'_def st)
  qed
qed

lemma stepped_kept: "stepped f now t s s' \<Longrightarrow> x \<noteq> t \<Longrightarrow> kept now s' x \<longleftrightarrow> kept now s x"
  by (simp add: stepped_def kept_def)

lemma run_loop_correct:
  assumes "timers_ok now s" "length (due now s) < fuel"
  shows "\<exists>s' next_timer. run_loop fuel (on_client f) now s = Some (s', next_timer) \<and>
    timers_ok now s' \<and> due now s' = [] \<and> client s' = fold (f now) (due now s) (client s) \<and>
    set (kore_timers s') = {x \<in> set (kore_timers s). kept now s x} \<and>
    next_timer = (case kore_timers s' of [] \<Rightarrow> 100 | t # _ \<Rightarrow> nextrun (tstore s' t) - now)"
  using assms
proof (induction fuel arbitrary: s)
  case (Suc fuel)
  have none: ?case if "due now s = []" "run_loop (Suc fuel) (on_client f) now s = Some (s, n)"
    "n = (case kore_timers s of [] \<Rightarrow> 100 | t # _ \<Rightarrow> nextrun (tstore s t) - now)" for n
  proof -
    have "kept now s x" if x: "x \<in> set (kore_timers s)" for x
    proof -
      obtain t ts where l: "kore_timers s = t # ts" using x by (cases "kore_timers s") auto
      then have "nextrun (tstore s t) > now" using \<open>due now s = []\<close> by (auto simp: due_def split: if_splits)
      moreover have "nextrun (tstore s t) \<le> nextrun (tstore s x)"
        using Suc.prems(1) l x by (auto simp: timers_ok_def timers_sorted_def)
      ultimately show ?thesis by (auto simp: kept_def intro: less_le_trans)
    qed
    with that Suc.prems(1) show ?case by auto
  qed
  show ?case
  proof (cases "kore_timers s")
    case Nil
    then show ?thesis by (intro none [of 100]) (simp_all add: due_def)
  next
    case (Cons t ts)
    show ?thesis
    proof (cases "nextrun (tstore s t) > now")
      case True
      with Cons show ?thesis by (intro none [of "nextrun (tstore s t) - now"]) (simp_all add: due_def)
    next
      case False
      let ?s = "run_timer (on_client f) now t s"
      have st: "stepped f now t s ?s" using False by (intro run_timer_stepped [OF Suc.prems(1) Cons]) simp
      then have "timers_ok now ?s" "length (due now ?s) < fuel" using Suc.prems(2) by (auto simp: stepped_def)
      from Suc.IH [OF this] obtain s' n where IH: "run_loop fuel (on_client f) now ?s = Some (s', n)"
        "timers_ok now s'" "due now s' = []" "client s' = fold (f now) (due now ?s) (client ?s)"
        "set (kore_timers s') = {x \<in> set (kore_timers ?s). kept now ?s x}"
        "n = (case kore_timers s' of [] \<Rightarrow> 100 | t # _ \<Rightarrow> nextrun (tstore s' t) - now)" by blast
      have "x \<in> set (kore_timers ?s) \<and> kept now ?s x \<longleftrightarrow> x \<in> set (kore_timers s) \<and> kept now s x" for x
        using st stepped_kept [OF st, of x] by (cases "x = t") (auto simp: stepped_def)
      then have "{x \<in> set (kore_timers ?s). kept now ?s x} = {x \<in> set (kore_timers s). kept now s x}" by blast
      with IH st False Cons show ?thesis by (auto simp: stepped_def)
    qed
  qed
qed simp

section \<open>Properties\<close>


definition two_timers :: "nat list timers" where
  "two_timers = \<lparr>kore_timers = [4, 9],
     tstore = (\<lambda>t. if t = 4 then \<lparr>nextrun = 10, interval = 50, tflags = 2\<rparr>
                    else \<lparr>nextrun = 20, interval = 5, tflags = 3\<rparr>),
     client = []\<rparr>"


text \<open>Adding a timer keeps the list sorted and puts the new timer on it once.\<close>

theorem kore_timer_add_sorted:
  assumes "timers_sorted s" and "distinct (kore_timers s)" and "timer \<notin> set (kore_timers s)"
  shows "timers_sorted (kore_timer_add now_ms timer ival flags s) \<and>
    mset (kore_timers (kore_timer_add now_ms timer ival flags s)) = add_mset timer (mset (kore_timers s)) \<and>
    nextrun (tstore (kore_timer_add now_ms timer ival flags s) timer) = now_ms + ival"
proof -
  let ?s = "kore_timer_add now_ms timer ival flags s"
  have "sorted_wrt (\<lambda>a b. nextrun (tstore ?s a) \<le> nextrun (tstore ?s b)) (kore_timers s)"
    by (rule sorted_wrt_store [of "tstore s"])
      (use assms in \<open>auto simp: timers_sorted_def kore_timer_add_def kore_timer_new_def Let_def\<close>)
  moreover have l: "kore_timers ?s = insert_timer (tstore ?s) timer (kore_timers s)"
    by (simp add: kore_timer_add_def kore_timer_new_def Let_def)
  ultimately have "timers_sorted ?s" unfolding timers_sorted_def l by (intro insert_timer_sorted)
  then show ?thesis by (simp add: kore_timer_add_def kore_timer_new_def Let_def)
qed

theorem kore_timer_add_sorted_witness:
  "timers_sorted (kore_timer_add 7 5 8 0 two_timers) \<and>
    mset (kore_timers (kore_timer_add 7 5 8 0 two_timers)) = add_mset 5 (mset (kore_timers two_timers)) \<and>
    nextrun (tstore (kore_timer_add 7 5 8 0 two_timers) 5) = 7 + 8"
proof (rule kore_timer_add_sorted)
  show "timers_sorted two_timers" by code_simp
qed (simp_all add: two_timers_def)

text \<open>\<open>kore_timer_set\<close> breaks both: on a timer that is on the list it changes \<open>nextrun\<close> in place, which
  unsorts the list; and a periodic timer that has run once has lost its in-place mark, so that
  \<open>kore_timer_set\<close> puts it on the list a second time.\<close>

theorem kore_timer_set_breaks_list:
  "timers_sorted two_timers \<and> \<not> timers_sorted (kore_timer_set 100 4 two_timers) \<and>
   (case kore_timer_run 3 (on_client (\<lambda>_ _ log. log)) 25 two_timers of
      None \<Rightarrow> False
    | Some (s, _) \<Rightarrow> kore_timers s = [4] \<and> kore_timers (kore_timer_set 30 4 s) = [4, 4])"
  by code_simp

text \<open>A periodic timer with interval zero keeps \<open>kore_timer_run\<close> in its loop forever.\<close>

theorem kore_timer_run_zero_interval:
  assumes "kore_timers s = [t]" and "nextrun (tstore s t) \<le> now" and "interval (tstore s t) = 0"
    and "tflags (tstore s t) AND KORE_TIMER_ONESHOT = 0"
  shows "kore_timer_run fuel (on_client f) now s = None"
proof -
  have "run_loop fuel (on_client f) now s = None"
    using assms
  proof (induction fuel arbitrary: s)
    case (Suc fuel)
    let ?s = "run_timer (on_client f) now t s"
    have "kore_timers ?s = [t]" "nextrun (tstore ?s t) \<le> now" "interval (tstore ?s t) = 0"
      "tflags (tstore ?s t) AND KORE_TIMER_ONESHOT = 0"
      using Suc.prems by (simp_all add: run_timer_def on_client_def Let_def flag_simps)
    from Suc.IH [OF this] Suc.prems show ?case by simp
  qed simp
  then show ?thesis by (simp add: kore_timer_run_def)
qed

theorem kore_timer_run_zero_interval_witness:
  "kore_timer_run 100 (on_client (\<lambda>_ _ c. c)) 9
     \<lparr>kore_timers = [3], tstore = (\<lambda>_. \<lparr>nextrun = 5, interval = 0, tflags = 2\<rparr>), client = ()\<rparr> = None"
  by (rule kore_timer_run_zero_interval) (simp_all add: KORE_TIMER_ONESHOT_def)

end
