(* ===== verification/Ccan_Utf8.thy ===== *)
theory Ccan_Utf8
  imports Kore_Prelude
begin

text \<open>
  The Unicode helpers of \<open>base/ccan_json.c\<close>: validation, reading and writing of one UTF-8 character,
  surrogate pairs, and the four-digit hexadecimal numbers of \<open>\u\<close> escapes.

  A C string is the list of its bytes without the terminator; a read at or behind its end gives the
  NUL that ends it. None of these routines reads on once it has seen that NUL.
\<close>

section \<open>Operations\<close>

definition cz :: "byte list \<Rightarrow> nat \<Rightarrow> byte" where
  "cz s i = (if i < length s then s ! i else 0)"

definition is_cont :: "byte \<Rightarrow> bool" where
  "is_cont c \<longleftrightarrow> c AND 0xC0 = 0x80"

definition utf8_validate_cz :: "byte list \<Rightarrow> nat" where
  "utf8_validate_cz s =
     (let c = cz s 0 in
      if c \<le> 0x7F then 1
      else if c \<le> 0xC1 then 0
      else if c \<le> 0xDF then
        (if \<not> is_cont (cz s 1) then 0 else 2)
      else if c \<le> 0xEF then
        (if c = 0xE0 \<and> cz s 1 < 0xA0 then 0
         else if c = 0xED \<and> cz s 1 > 0x9F then 0
         else if \<not> is_cont (cz s 1) then 0
         else if \<not> is_cont (cz s 2) then 0
         else 3)
      else if c \<le> 0xF4 then
        (if c = 0xF0 \<and> cz s 1 < 0x90 then 0
         else if c = 0xF4 \<and> cz s 1 > 0x8F then 0
         else if \<not> is_cont (cz s 1) then 0
         else if \<not> is_cont (cz s 2) then 0
         else if \<not> is_cont (cz s 3) then 0
         else 4)
      else 0)"

function utf8_validate :: "byte list \<Rightarrow> bool" where
  "utf8_validate s =
     (if s = [] then True
      else let len = utf8_validate_cz s in
        if len = 0 then False else utf8_validate (drop len s))"
  by pat_completeness auto
termination
  by (relation "measure length") auto

declare utf8_validate.simps [simp del]

text \<open>The code point and the length read.\<close>

definition utf8_read_char :: "byte list \<Rightarrow> (u32 \<times> nat) res" where
  "utf8_read_char s =
     (let c = (\<lambda>i. ucast (cz s i) :: u32) in
      if utf8_validate_cz s = 0 then Inl Assert_failed
      else if cz s 0 \<le> 0x7F then Inr (c 0, 1)
      else if cz s 0 \<le> 0xDF then
        Inr (push_bit 6 (c 0 AND 0x1F) OR (c 1 AND 0x3F), 2)
      else if cz s 0 \<le> 0xEF then
        Inr (push_bit 12 (c 0 AND 0xF) OR push_bit 6 (c 1 AND 0x3F) OR (c 2 AND 0x3F), 3)
      else
        Inr (push_bit 18 (c 0 AND 0x7) OR push_bit 12 (c 1 AND 0x3F) OR
             push_bit 6 (c 2 AND 0x3F) OR (c 3 AND 0x3F), 4))"

text \<open>Code points that are not surrogates.\<close>

definition unicode_scalar :: "u32 \<Rightarrow> bool" where
  "unicode_scalar u \<longleftrightarrow> u \<le> 0x10FFFF \<and> \<not> (u \<ge> 0xD800 \<and> u \<le> 0xDFFF)"

text \<open>The bytes written; the returned length is their number.\<close>

definition utf8_write_char :: "u32 \<Rightarrow> byte list res" where
  "utf8_write_char u =
     (if \<not> unicode_scalar u then Inl Assert_failed
      else if u \<le> 0x7F then Inr [ucast u]
      else if u \<le> 0x7FF then
        Inr [ucast (0xC0 OR drop_bit 6 u), ucast (0x80 OR (u AND 0x3F))]
      else if u \<le> 0xFFFF then
        Inr [ucast (0xE0 OR drop_bit 12 u), ucast (0x80 OR (drop_bit 6 u AND 0x3F)),
             ucast (0x80 OR (u AND 0x3F))]
      else
        Inr [ucast (0xF0 OR drop_bit 18 u), ucast (0x80 OR (drop_bit 12 u AND 0x3F)),
             ucast (0x80 OR (drop_bit 6 u AND 0x3F)), ucast (0x80 OR (u AND 0x3F))])"

definition from_surrogate_pair :: "u16 \<Rightarrow> u16 \<Rightarrow> u32 option" where
  "from_surrogate_pair uc lc =
     (if uc \<ge> 0xD800 \<and> uc \<le> 0xDBFF \<and> lc \<ge> 0xDC00 \<and> lc \<le> 0xDFFF
      then Some (0x10000 + (push_bit 10 (ucast uc AND 0x3FF) OR (ucast lc AND 0x3FF)))
      else None)"

definition to_surrogate_pair :: "u32 \<Rightarrow> (u16 \<times> u16) res" where
  "to_surrogate_pair u =
     (if \<not> (u \<ge> 0x10000 \<and> u \<le> 0x10FFFF) then Inl Assert_failed
      else let n = u - 0x10000 in
        Inr (ucast ((drop_bit 10 n AND 0x3FF) OR 0xD800), ucast ((n AND 0x3FF) OR 0xDC00)))"

definition hex16_digit :: "byte \<Rightarrow> u16 option" where
  "hex16_digit c =
     (if c \<ge> ch (CHR ''0'') \<and> c \<le> ch (CHR ''9'') then Some (ucast c - 48)
      else if c \<ge> ch (CHR ''A'') \<and> c \<le> ch (CHR ''F'') then Some (ucast c - 65 + 10)
      else if c \<ge> ch (CHR ''a'') \<and> c \<le> ch (CHR ''f'') then Some (ucast c - 97 + 10)
      else None)"

text \<open>The loop of \<open>parse_hex16\<close> with \<open>k\<close> turns left.\<close>

fun hex16_loop :: "nat \<Rightarrow> u16 \<Rightarrow> byte list \<Rightarrow> (u16 \<times> byte list) option" where
  "hex16_loop 0 ret s = Some (ret, s)"
| "hex16_loop (Suc k) ret s =
     (case s of
        [] \<Rightarrow> None
      | c # cs \<Rightarrow>
          (case hex16_digit c of None \<Rightarrow> None
           | Some tmp \<Rightarrow> hex16_loop k (push_bit 4 ret + tmp) cs))"

definition parse_hex16 :: "byte list \<Rightarrow> (u16 \<times> byte list) option" where
  "parse_hex16 s = hex16_loop 4 0 s"

definition hex_digits :: "byte list" where
  "hex_digits = bs ''0123456789ABCDEF''"

definition write_hex16 :: "u16 \<Rightarrow> byte list" where
  "write_hex16 val =
     [hex_digits ! unat (drop_bit 12 val AND 0xF), hex_digits ! unat (drop_bit 8 val AND 0xF),
      hex_digits ! unat (drop_bit 4 val AND 0xF), hex_digits ! unat (val AND 0xF)]"

section \<open>Arithmetic of the bit operations\<close>

lemma is_cont_range: "is_cont b \<longleftrightarrow> 128 \<le> unat b \<and> unat b < 192"
proof -
  have "\<forall>n \<in> set [0..<256]. is_cont (of_nat n) \<longleftrightarrow> 128 \<le> n \<and> n < 192" by code_simp
  then show ?thesis using unsigned_less [of b] by (auto dest: bspec [of _ _ "unat b"])
qed

lemma nat_or_push:
  assumes "(x::nat) < 2 ^ k"
  shows "push_bit k a OR x = push_bit k a + x"
proof -
  have "\<not> bit x n" if "k \<le> n" for n
    using assms that by (metis bit_take_bit_iff leD take_bit_nat_eq_self)
  then have "push_bit k a AND x = 0" by (intro bit_eqI) (auto simp: bit_simps)
  then show ?thesis by (simp add: disjunctive_add_eq_or)
qed

lemma unat_or_push:
  fixes a x :: "'a::len word"
  assumes "unat x < 2 ^ k" and "unat a * 2 ^ k < 2 ^ LENGTH('a)"
  shows "unat (push_bit k a OR x) = unat a * 2 ^ k + unat x"
proof -
  have "unat (push_bit k a) = push_bit k (unat a)"
    unfolding unsigned_push_bit_eq using assms(2) by (simp add: push_bit_eq_mult take_bit_nat_eq_self)
  then show ?thesis using nat_or_push [OF assms(1), of "unat a"]
    by (simp add: unsigned_or_eq push_bit_eq_mult)
qed

lemma unat_and_mask:
  fixes x :: "'a::len word"
  shows "unat (x AND mask k) = unat x mod 2 ^ k"
proof -
  have "unat (x AND mask k) = unat (take_bit k x)" by (simp only: take_bit_eq_mask)
  also have "\<dots> = take_bit k (unat x)" by (simp only: unsigned_take_bit_eq)
  finally show ?thesis by (simp only: take_bit_eq_mod)
qed

lemma mask_literals:
  "(0x7 :: 'a::len word) = mask 3" "(0xF :: 'a word) = mask 4" "(0x1F :: 'a word) = mask 5"
  "(0x3F :: 'a word) = mask 6" "(0x3FF :: 'a word) = mask 10"
  by (simp_all add: mask_numeral)

lemma unat_or_literals:
  fixes x :: u32
  shows "unat x < 32 \<Longrightarrow> unat (0xC0 OR x) = 192 + unat x"
    and "unat x < 16 \<Longrightarrow> unat (0xE0 OR x) = 224 + unat x"
    and "unat x < 8 \<Longrightarrow> unat (0xF0 OR x) = 240 + unat x"
    and "unat x < 64 \<Longrightarrow> unat (0x80 OR x) = 128 + unat x"
  using unat_or_push [of x 5 6] unat_or_push [of x 4 14] unat_or_push [of x 3 30] unat_or_push [of x 6 2]
  by simp_all

section \<open>UTF-8 over the naturals\<close>

text \<open>The encoding of RFC 3629 as arithmetic, and its inverse.\<close>

definition utf8_nats :: "nat \<Rightarrow> nat list" where
  "utf8_nats n =
     (if n \<le> 0x7F then [n]
      else if n \<le> 0x7FF then [192 + n div 64, 128 + n mod 64]
      else if n \<le> 0xFFFF then [224 + n div 4096, 128 + n div 64 mod 64, 128 + n mod 64]
      else [240 + n div 262144, 128 + n div 4096 mod 64, 128 + n div 64 mod 64, 128 + n mod 64])"

lemma ucast_of_unat: "(ucast (x :: u32) :: byte) = of_nat (unat x)"
  by simp

lemma utf8_write_char_nats:
  assumes "unicode_scalar u"
  shows "utf8_write_char u = Inr (map of_nat (utf8_nats (unat u)))"
proof -
  let ?n = "unat u"
  have b: "?n \<le> 0x10FFFF" using assms by (simp add: unicode_scalar_def word_le_nat_alt)
  have d: "unat (drop_bit k u) = ?n div 2 ^ k" for k
    unfolding unsigned_drop_bit_eq using unat_bound [of u] by (simp add: drop_bit_eq_div take_bit_nat_eq_self)
  have c: "u \<le> 0x7F \<longleftrightarrow> ?n \<le> 0x7F" "u \<le> 0x7FF \<longleftrightarrow> ?n \<le> 0x7FF" "u \<le> 0xFFFF \<longleftrightarrow> ?n \<le> 0xFFFF"
    by (simp_all add: word_le_nat_alt)
  have m: "unat (x AND 0x3F) = unat x mod 64" for x :: u32
    using unat_and_mask [of x 6] by (simp add: mask_literals)
  consider "?n \<le> 0x7F" | "0x7F < ?n" "?n \<le> 0x7FF" | "0x7FF < ?n" "?n \<le> 0xFFFF" | "0xFFFF < ?n"
    by linarith
  then show ?thesis
  proof cases
    case 1
    with assms c show ?thesis by (simp add: utf8_write_char_def utf8_nats_def)
  next
    case 2
    then have "unat (0xC0 OR drop_bit 6 u) = 192 + ?n div 64" "unat (0x80 OR (u AND 0x3F)) = 128 + ?n mod 64"
      using unat_or_literals(1) [of "drop_bit 6 u"] unat_or_literals(4) [of "u AND 0x3F"] by (simp_all add: d m)
    with 2 assms c show ?thesis by (simp add: utf8_write_char_def utf8_nats_def ucast_of_unat del: of_nat_unat)
  next
    case 3
    then have "unat (0xE0 OR drop_bit 12 u) = 224 + ?n div 4096"
      "unat (0x80 OR (drop_bit 6 u AND 0x3F)) = 128 + ?n div 64 mod 64"
      "unat (0x80 OR (u AND 0x3F)) = 128 + ?n mod 64"
      using unat_or_literals(2) [of "drop_bit 12 u"] unat_or_literals(4) [of "u AND 0x3F"]
        unat_or_literals(4) [of "drop_bit 6 u AND 0x3F"] by (simp_all add: d m)
    with 3 assms c show ?thesis by (simp add: utf8_write_char_def utf8_nats_def ucast_of_unat del: of_nat_unat)
  next
    case 4
    then have "unat (0xF0 OR drop_bit 18 u) = 240 + ?n div 262144"
      "unat (0x80 OR (drop_bit 12 u AND 0x3F)) = 128 + ?n div 4096 mod 64"
      "unat (0x80 OR (drop_bit 6 u AND 0x3F)) = 128 + ?n div 64 mod 64"
      "unat (0x80 OR (u AND 0x3F)) = 128 + ?n mod 64"
      using unat_or_literals(3) [of "drop_bit 18 u"] unat_or_literals(4) [of "u AND 0x3F"] b
        unat_or_literals(4) [of "drop_bit 6 u AND 0x3F"] unat_or_literals(4) [of "drop_bit 12 u AND 0x3F"]
      by (simp_all add: d m)
    with 4 assms c show ?thesis by (simp add: utf8_write_char_def utf8_nats_def ucast_of_unat del: of_nat_unat)
  qed
qed

text \<open>Reading, with the bytes as naturals.\<close>

definition utf8_value :: "(nat \<Rightarrow> nat) \<Rightarrow> nat \<Rightarrow> nat" where
  "utf8_value c len =
     (if len = 1 then c 0
      else if len = 2 then c 0 mod 32 * 64 + c 1 mod 64
      else if len = 3 then c 0 mod 16 * 4096 + (c 1 mod 64 * 64 + c 2 mod 64)
      else c 0 mod 8 * 262144 + (c 1 mod 64 * 4096 + (c 2 mod 64 * 64 + c 3 mod 64)))"

lemma utf8_validate_cz_len:
  assumes "utf8_validate_cz s \<noteq> 0"
  shows "utf8_validate_cz s =
    (if cz s 0 \<le> 0x7F then 1 else if cz s 0 \<le> 0xDF then 2 else if cz s 0 \<le> 0xEF then 3 else 4)"
  using assms by (auto simp: utf8_validate_cz_def Let_def split: if_splits)

lemma utf8_read_char_nats:
  assumes "utf8_validate_cz s \<noteq> 0"
  shows "\<exists>u. utf8_read_char s = Inr (u, utf8_validate_cz s) \<and>
    unat u = utf8_value (\<lambda>i. unat (cz s i)) (utf8_validate_cz s)"
proof -
  let ?c = "\<lambda>i. ucast (cz s i) :: u32" and ?n = "\<lambda>i. unat (cz s i)"
  have n: "unat (?c i AND mask k) = ?n i mod 2 ^ k" for i k
    using unat_and_mask [of "?c i" k] unat_bound [of "cz s i"] by (simp add: unsigned_ucast_eq take_bit_nat_eq_self)
  have m: "unat (?c i AND 0x7) = ?n i mod 8" "unat (?c i AND 0xF) = ?n i mod 16"
    "unat (?c i AND 0x1F) = ?n i mod 32" "unat (?c i AND 0x3F) = ?n i mod 64" for i
    using n [of i 3] n [of i 4] n [of i 5] n [of i 6] by (simp_all add: mask_literals)
  have p6: "unat (push_bit 6 a OR (?c i AND 0x3F)) = unat a * 64 + ?n i mod 64" if "unat a < 64" for a i
    using unat_or_push [of "?c i AND 0x3F" 6 a] that by (simp add: m)
  have p12: "unat (push_bit 12 a OR x) = unat a * 4096 + unat x" if "unat a < 64" "unat x < 4096" for a x :: u32
    using unat_or_push [of x 12 a] that by simp
  have p18: "unat (push_bit 18 a OR x) = unat a * 262144 + unat x" if "unat a < 8" "unat x < 262144" for a x :: u32
    using unat_or_push [of x 18 a] that by simp
  have m4: "a mod 64 * 64 + b mod 64 < (4096::nat)" for a b
  proof -
    have "a mod 64 < 64" "b mod 64 < 64" by simp_all
    then show ?thesis by linarith
  qed
  have m5: "a mod 64 * 4096 + (b mod 64 * 64 + c mod 64) < (262144::nat)" for a b c
  proof -
    have "a mod 64 < 64" by simp
    with m4 [of b c] show ?thesis by linarith
  qed
  note v = utf8_validate_cz_len [OF assms]
  show ?thesis
  proof (cases "cz s 0 \<le> 0x7F")
    case True
    with v assms show ?thesis
      using unat_bound [of "cz s 0"]
      by (simp add: utf8_read_char_def utf8_value_def unsigned_ucast_eq take_bit_nat_eq_self)
  next
    case f1: False
    show ?thesis
    proof (cases "cz s 0 \<le> 0xDF")
      case True
      with f1 v assms show ?thesis using p6 [of "?c 0 AND 0x1F" 1]
        by (simp add: utf8_read_char_def utf8_value_def m)
    next
      case f2: False
      show ?thesis
      proof (cases "cz s 0 \<le> 0xEF")
        case True
        with f1 f2 v assms show ?thesis
          using p12 [of "?c 0 AND 0xF" "push_bit 6 (?c 1 AND 0x3F) OR (?c 2 AND 0x3F)"] p6 [of "?c 1 AND 0x3F" 2]
          by (simp add: utf8_read_char_def utf8_value_def m m4 del: push_bit_and)
      next
        case False
        with f1 f2 v assms show ?thesis
          using p18 [of "?c 0 AND 0x7" "push_bit 12 (?c 1 AND 0x3F) OR push_bit 6 (?c 2 AND 0x3F) OR (?c 3 AND 0x3F)"]
            p12 [of "?c 1 AND 0x3F" "push_bit 6 (?c 2 AND 0x3F) OR (?c 3 AND 0x3F)"] p6 [of "?c 2 AND 0x3F" 3]
          by (simp add: utf8_read_char_def utf8_value_def m m4 m5 del: push_bit_and)
      qed
    qed
  qed
qed

section \<open>Round trips\<close>

lemma utf8_validate_cz_nat:
  "utf8_validate_cz s =
     (let c = (\<lambda>i. unat (cz s i)); cont = (\<lambda>i. 128 \<le> c i \<and> c i < 192) in
      if c 0 \<le> 0x7F then 1
      else if c 0 \<le> 0xC1 then 0
      else if c 0 \<le> 0xDF then (if cont 1 then 2 else 0)
      else if c 0 \<le> 0xEF then
        (if c 0 = 0xE0 \<and> c 1 < 0xA0 \<or> c 0 = 0xED \<and> c 1 > 0x9F \<or> \<not> cont 1 \<or> \<not> cont 2 then 0 else 3)
      else if c 0 \<le> 0xF4 then
        (if c 0 = 0xF0 \<and> c 1 < 0x90 \<or> c 0 = 0xF4 \<and> c 1 > 0x8F \<or> \<not> cont 1 \<or> \<not> cont 2 \<or> \<not> cont 3
         then 0 else 4)
      else 0)"
  by (simp add: utf8_validate_cz_def Let_def is_cont_range word_le_nat_alt word_less_nat_alt word_unat_eq_iff)

lemma unat_byte_of_nat: "n < 256 \<Longrightarrow> unat (of_nat n :: byte) = n"
  by (simp add: unat_of_nat take_bit_nat_eq_self)

text \<open>A number in base 64, up to four digits.\<close>

lemma digits64: "(n::nat) = n div 4096 * 4096 + (n div 64 mod 64 * 64 + n mod 64)"
proof -
  have "n div 64 div 64 = n div 4096" by (simp add: div_mult2_eq [symmetric])
  then show ?thesis
    using div_mult_mod_eq [of n 64] div_mult_mod_eq [of "n div 64" 64] by linarith
qed

lemma digits64_4: "(n::nat) = n div 262144 * 262144 + (n div 4096 mod 64 * 4096 + (n div 64 mod 64 * 64 + n mod 64))"
proof -
  have "n div 4096 div 64 = n div 262144" by (simp add: div_mult2_eq [symmetric])
  then show ?thesis using digits64 [of n] div_mult_mod_eq [of "n div 4096" 64] by linarith
qed

lemma lead_mod:
  fixes n :: nat
  shows "n < 32 \<Longrightarrow> (192 + n) mod 32 = n" and "n < 16 \<Longrightarrow> (224 + n) mod 16 = n"
    and "n < 8 \<Longrightarrow> (240 + n) mod 8 = n" and "n < 64 \<Longrightarrow> (128 + n) mod 64 = n"
  using mod_mult_self1 [of n 6 32] mod_mult_self1 [of n 14 16] mod_mult_self1 [of n 30 8]
    mod_mult_self1 [of n 2 64] by (simp_all add: add.commute)

text \<open>What is written is valid, of the right length, and read back.\<close>

lemma utf8_nats_read:
  assumes n: "n \<le> 0x10FFFF" "\<not> (0xD800 \<le> n \<and> n \<le> 0xDFFF)" and s: "s = map of_nat (utf8_nats n) @ r"
  shows "utf8_validate_cz s = length (utf8_nats n) \<and>
    utf8_value (\<lambda>i. unat (cz s i)) (length (utf8_nats n)) = n"
proof -
  consider "n \<le> 0x7F" | "0x7F < n" "n \<le> 0x7FF" | "0x7FF < n" "n \<le> 0xFFFF" | "0xFFFF < n"
    by linarith
  then show ?thesis
  proof cases
    case 1
    then have "unat (cz s 0) = n" by (simp add: s utf8_nats_def cz_def unat_byte_of_nat)
    with 1 show ?thesis by (simp add: utf8_validate_cz_nat utf8_value_def utf8_nats_def)
  next
    case 2
    then have "unat (cz s 0) = 192 + n div 64" "unat (cz s 1) = 128 + n mod 64"
      by (simp_all add: s utf8_nats_def cz_def unat_byte_of_nat del: of_nat_add)
    moreover from 2 have "2 \<le> n div 64" "n div 64 < 32" by linarith+
    ultimately show ?thesis using 2
      by (simp add: utf8_validate_cz_nat utf8_value_def utf8_nats_def Let_def lead_mod)
  next
    case 3
    define a b c where abc: "a = n div 4096" "b = n div 64 mod 64" "c = n mod 64"
    from 3 have "unat (cz s 0) = 224 + a" "unat (cz s 1) = 128 + b" "unat (cz s 2) = 128 + c"
      by (simp_all add: abc s utf8_nats_def cz_def unat_byte_of_nat del: of_nat_add)
    moreover have lt: "b < 64" "c < 64" by (simp_all add: abc)
    moreover have nn: "n = a * 4096 + (b * 64 + c)" unfolding abc by (rule digits64)
    moreover have "a < 16" using 3 nn by linarith
    moreover have "\<not> (a = 0 \<and> b < 32)" "\<not> (a = 13 \<and> b > 31)" using 3 n nn lt by linarith+
    ultimately show ?thesis using 3
      by (simp add: utf8_validate_cz_nat utf8_value_def utf8_nats_def Let_def lead_mod)
  next
    case 4
    define a b c d where abcd: "a = n div 262144" "b = n div 4096 mod 64" "c = n div 64 mod 64" "d = n mod 64"
    have lt: "b < 64" "c < 64" "d < 64" by (simp_all add: abcd)
    moreover have nn: "n = a * 262144 + (b * 4096 + (c * 64 + d))" unfolding abcd by (rule digits64_4)
    moreover have a: "a < 8" "a \<le> 4" using n nn by linarith+
    moreover have "unat (cz s 0) = 240 + a" "unat (cz s 1) = 128 + b" "unat (cz s 2) = 128 + c" "unat (cz s 3) = 128 + d"
      using 4 lt a by (simp_all add: s utf8_nats_def cz_def unat_byte_of_nat del: of_nat_add flip: abcd)
    moreover have "\<not> (a = 0 \<and> b < 16)" "\<not> (a = 4 \<and> b > 15)" using 4 n nn lt by linarith+
    ultimately show ?thesis using 4
      by (simp add: utf8_validate_cz_nat utf8_value_def utf8_nats_def Let_def lead_mod)
  qed
qed

lemma unicode_scalar_nat:
  "unicode_scalar u \<longleftrightarrow> unat u \<le> 0x10FFFF \<and> \<not> (0xD800 \<le> unat u \<and> unat u \<le> 0xDFFF)"
  by (simp add: unicode_scalar_def word_le_nat_alt)

lemma utf8_write_read:
  assumes "utf8_write_char u = Inr w"
  shows "utf8_validate_cz (w @ r) = length w" and "utf8_read_char (w @ r) = Inr (u, length w)"
    and "w \<noteq> []" and "length w \<le> 4"
proof -
  from assms have u: "unicode_scalar u" by (auto simp: utf8_write_char_def split: if_splits)
  let ?n = "unat u"
  from assms utf8_write_char_nats [OF u] have w: "w = map of_nat (utf8_nats ?n)" by simp
  from u have "?n \<le> 0x10FFFF" "\<not> (0xD800 \<le> ?n \<and> ?n \<le> 0xDFFF)" by (simp_all add: unicode_scalar_nat)
  from utf8_nats_read [OF this, of "w @ r" r] have
    v: "utf8_validate_cz (w @ r) = length w" "utf8_value (\<lambda>i. unat (cz (w @ r) i)) (length w) = ?n"
    by (simp_all add: w)
  show "w \<noteq> []" "length w \<le> 4" by (simp_all add: w utf8_nats_def)
  then have "utf8_validate_cz (w @ r) \<noteq> 0" by (simp add: v)
  from utf8_read_char_nats [OF this] v show "utf8_read_char (w @ r) = Inr (u, length w)"
    by (auto simp: word_unat_eq_iff)
  show "utf8_validate_cz (w @ r) = length w" by (rule v)
qed

text \<open>Conversely, a validated character lies within the string, its code point is a scalar value, and
  writing that gives the same bytes: there is no second encoding of a character.\<close>

lemma digits64_split:
  fixes a b c :: nat
  assumes "b < 64" "c < 64"
  shows "(a * 4096 + (b * 64 + c)) div 4096 = a" "(a * 4096 + (b * 64 + c)) div 64 = a * 64 + b"
    "(a * 4096 + (b * 64 + c)) mod 64 = c"
proof -
  have e: "a * 4096 + (b * 64 + c) = (a * 64 + b) * 64 + c" by simp
  show d: "(a * 4096 + (b * 64 + c)) div 64 = a * 64 + b" unfolding e using assms(2) by simp
  show "(a * 4096 + (b * 64 + c)) mod 64 = c" unfolding e mod_mult_self3 using assms(2) by simp
  have "(a * 4096 + (b * 64 + c)) div 4096 = (a * 4096 + (b * 64 + c)) div 64 div 64"
    by (simp add: div_mult2_eq [symmetric])
  then show "(a * 4096 + (b * 64 + c)) div 4096 = a" unfolding d using assms(1) by simp
qed

lemma digits64_4_split:
  fixes a b c d :: nat
  assumes "b < 64" "c < 64" "d < 64"
  shows "(a * 262144 + (b * 4096 + (c * 64 + d))) div 262144 = a"
    "(a * 262144 + (b * 4096 + (c * 64 + d))) div 4096 = a * 64 + b"
    "(a * 262144 + (b * 4096 + (c * 64 + d))) div 64 mod 64 = c"
    "(a * 262144 + (b * 4096 + (c * 64 + d))) mod 64 = d"
proof -
  let ?n = "a * 262144 + (b * 4096 + (c * 64 + d))"
  have e: "?n = (a * 64 + b) * 4096 + (c * 64 + d)" by simp
  note s = digits64_split [OF assms(2,3), of "a * 64 + b"]
  show d: "?n div 4096 = a * 64 + b" "?n mod 64 = d" unfolding e using s by simp_all
  have "?n div 64 = (a * 64 + b) * 64 + c" unfolding e by (rule s)
  then show "?n div 64 mod 64 = c" unfolding mod_mult_self3 using assms(2)
    by (simp only: mod_mult_self3 mod_less)
  have "?n div 262144 = ?n div 4096 div 64" by (simp add: div_mult2_eq [symmetric])
  then show "?n div 262144 = a" unfolding d(1) using assms(1) by simp
qed

lemma take_cz:
  assumes "\<And>i. i < k \<Longrightarrow> i < length s"
  shows "take k s = map (cz s) [0..<k]" and "k \<le> length s"
proof -
  show k: "k \<le> length s" using assms [of "k - 1"] by (cases k) auto
  then show "take k s = map (cz s) [0..<k]" by (intro nth_equalityI) (auto simp: cz_def)
qed

lemma cz_length: "cz s i \<noteq> 0 \<Longrightarrow> i < length s"
  by (auto simp: cz_def split: if_splits)

lemma upt_small:
  "[0..<2] = [0, 1]" "[0..<3] = [0, 1, 2]" "[0..<4] = [0, 1, 2, 3]"
  by (simp_all add: upt_conv_Cons)

lemma less_small:
  fixes i :: nat
  shows "i < 2 \<longleftrightarrow> i = 0 \<or> i = 1" "i < 3 \<longleftrightarrow> i = 0 \<or> i = 1 \<or> i = 2"
    "i < 4 \<longleftrightarrow> i = 0 \<or> i = 1 \<or> i = 2 \<or> i = 3"
  by linarith+

lemma utf8_nats_value:
  assumes "utf8_validate_cz s = len" "len \<noteq> 0" and c: "c = (\<lambda>i. unat (cz s i))"
  shows "utf8_nats (utf8_value c len) = map c [0..<len] \<and> utf8_value c len \<le> 0x10FFFF \<and>
    \<not> (0xD800 \<le> utf8_value c len \<and> utf8_value c len \<le> 0xDFFF) \<and> (\<forall>i. 0 < i \<and> i < len \<longrightarrow> c i \<noteq> 0)"
proof -
  from assms(1,2) consider
      "len = 1" "c 0 \<le> 0x7F"
    | "len = 2" "0xC1 < c 0" "c 0 \<le> 0xDF" "128 \<le> c 1" "c 1 < 192"
    | "len = 3" "0xDF < c 0" "c 0 \<le> 0xEF" "128 \<le> c 1" "c 1 < 192" "128 \<le> c 2" "c 2 < 192"
        "\<not> (c 0 = 0xE0 \<and> c 1 < 0xA0)" "\<not> (c 0 = 0xED \<and> c 1 > 0x9F)"
    | "len = 4" "0xEF < c 0" "c 0 \<le> 0xF4" "128 \<le> c 1" "c 1 < 192" "128 \<le> c 2" "c 2 < 192" "128 \<le> c 3" "c 3 < 192"
        "\<not> (c 0 = 0xF0 \<and> c 1 < 0x90)" "\<not> (c 0 = 0xF4 \<and> c 1 > 0x8F)"
    unfolding c by (auto simp: utf8_validate_cz_nat Let_def split: if_splits)
  then show ?thesis
  proof cases
    case 1
    then show ?thesis by (auto simp: utf8_value_def utf8_nats_def)
  next
    case 2
    define a b where ab: "a = c 0 - 192" "b = c 1 - 128"
    with 2 have k: "c 0 = 192 + a" "c 1 = 128 + b" "a < 32" "2 \<le> a" "b < 64" by simp_all
    then have "utf8_value c len = a * 64 + b" using 2(1) by (simp add: utf8_value_def lead_mod)
    with k 2(1) show ?thesis by (auto simp: utf8_nats_def upt_small less_small)
  next
    case 3
    define a b d where ab: "a = c 0 - 224" "b = c 1 - 128" "d = c 2 - 128"
    with 3 have k: "c 0 = 224 + a" "c 1 = 128 + b" "c 2 = 128 + d" "a < 16" "b < 64" "d < 64" by simp_all
    then have v: "utf8_value c len = a * 4096 + (b * 64 + d)" using 3(1) by (simp add: utf8_value_def lead_mod)
    moreover have "0x7FF < a * 4096 + (b * 64 + d)" "a * 4096 + (b * 64 + d) \<le> 0xFFFF"
      using 3(8) k by auto
    moreover have "\<not> (0xD800 \<le> a * 4096 + (b * 64 + d) \<and> a * 4096 + (b * 64 + d) \<le> 0xDFFF)"
    proof -
      consider "a \<le> 12" | "a = 13" | "14 \<le> a" by linarith
      then show ?thesis by cases (use 3(9) k in linarith)+
    qed
    ultimately show ?thesis using k 3(1)
      by (auto simp: utf8_nats_def upt_small less_small digits64_split)
  next
    case 4
    define a b d e where ab: "a = c 0 - 240" "b = c 1 - 128" "d = c 2 - 128" "e = c 3 - 128"
    with 4 have k: "c 0 = 240 + a" "c 1 = 128 + b" "c 2 = 128 + d" "c 3 = 128 + e" "a \<le> 4" "b < 64" "d < 64" "e < 64"
      by simp_all
    then have v: "utf8_value c len = a * 262144 + (b * 4096 + (d * 64 + e))"
      using 4(1) by (simp add: utf8_value_def lead_mod)
    moreover have "0xFFFF < a * 262144 + (b * 4096 + (d * 64 + e))" "a * 262144 + (b * 4096 + (d * 64 + e)) \<le> 0x10FFFF"
      using 4(10,11) k by auto
    ultimately show ?thesis using k 4(1)
      by (auto simp: utf8_nats_def upt_small less_small digits64_4_split)
  qed
qed

lemma utf8_read_write:
  assumes "utf8_validate_cz s = len" "len \<noteq> 0" "s \<noteq> []" and nz: "0 \<notin> set s"
  shows "len \<le> length s" and "\<exists>u. utf8_read_char s = Inr (u, len) \<and> unicode_scalar u \<and>
    utf8_write_char u = Inr (take len s)"
proof -
  let ?c = "\<lambda>i. unat (cz s i)"
  note v = utf8_nats_value [OF assms(1,2) refl]
  from v have "cz s i \<noteq> 0" if "0 < i" "i < len" for i using that by (metis unat_0)
  moreover have "cz s 0 \<noteq> 0" using assms(3) nz by (cases s) (auto simp: cz_def)
  ultimately have "i < length s" if "i < len" for i
    using that cz_length [of s i] by (cases i) auto
  note t = take_cz [of len s, OF this]
  show "len \<le> length s" by (rule t(2))
  from utf8_read_char_nats [of s] assms(1,2) obtain u where
    u: "utf8_read_char s = Inr (u, len)" "unat u = utf8_value ?c len" by auto
  then have "unicode_scalar u" using v unfolding unicode_scalar_nat by presburger
  moreover have "utf8_write_char u = Inr (take len s)"
    unfolding utf8_write_char_nats [OF \<open>unicode_scalar u\<close>] u(2) t(1) v [THEN conjunct1]
    by (simp add: comp_def t(1) [symmetric])
  ultimately show "\<exists>u. utf8_read_char s = Inr (u, len) \<and> unicode_scalar u \<and> utf8_write_char u = Inr (take len s)"
    using u(1) by blast
qed

section \<open>Surrogate pairs and hexadecimal\<close>

lemma unat_mask10: "unat (x AND 0x3FF) = unat x mod 1024" for x :: "'a::len word"
  using unat_and_mask [of x 10] by (simp add: mask_literals)

lemma surrogate_roundtrip:
  assumes "to_surrogate_pair u = Inr (uc, lc)"
  shows "from_surrogate_pair uc lc = Some u" and "uc \<ge> 0xD800 \<and> uc \<le> 0xDBFF"
proof -
  let ?w = "u - 0x10000"
  define n where "n = unat ?w"
  from assms have u: "u \<ge> 0x10000" "u \<le> 0x10FFFF" and
    uc: "uc = ucast ((drop_bit 10 ?w AND 0x3FF) OR 0xD800)" and lc: "lc = ucast ((?w AND 0x3FF) OR 0xDC00)"
    by (auto simp: to_surrogate_pair_def Let_def split: if_splits)
  have un: "unat u = 0x10000 + n" "n < 1048576"
    using u unat_sub [OF u(1)] by (simp_all add: n_def word_le_nat_alt)
  have d: "unat (drop_bit 10 ?w) = n div 1024"
    unfolding unsigned_drop_bit_eq using unat_bound [of ?w] by (simp add: drop_bit_eq_div take_bit_nat_eq_self n_def)
  have o1: "unat ((x AND 0x3FF) OR 0xD800) = 0xD800 + unat x mod 1024"
    and o2: "unat ((x AND 0x3FF) OR 0xDC00) = 0xDC00 + unat x mod 1024" for x :: u32
    using unat_or_push [of "x AND 0x3FF" 10 54] unat_or_push [of "x AND 0x3FF" 10 55]
    by (simp_all add: unat_mask10 or.commute)
  have "unat uc = 0xD800 + n div 1024"
    unfolding uc unsigned_ucast_eq using o1 [of "drop_bit 10 ?w"] un(2) by (simp add: d take_bit_nat_eq_self)
  moreover have "unat lc = 0xDC00 + n mod 1024"
    unfolding lc unsigned_ucast_eq using o2 [of ?w] by (simp add: n_def take_bit_nat_eq_self)
  ultimately have r: "unat uc = 0xD800 + n div 1024" "unat lc = 0xDC00 + n mod 1024" "n div 1024 < 1024"
    using un(2) by simp_all
  show "uc \<ge> 0xD800 \<and> uc \<le> 0xDBFF" using r by (simp add: word_le_nat_alt)
  have x: "unat (ucast uc :: u32) = unat uc" "unat (ucast lc :: u32) = unat lc"
    using unat_bound [of uc] unat_bound [of lc] by (simp_all add: unsigned_ucast_eq take_bit_nat_eq_self)
  have m: "(55296 + n div 1024) mod 1024 = n div 1024" "(56320 + n mod 1024) mod 1024 = n mod 1024"
    using mod_mult_self1 [of "n div 1024" 54 1024] mod_mult_self1 [of "n mod 1024" 55 1024] r(3)
    by (simp_all add: add.commute)
  let ?v = "push_bit 10 (ucast uc AND 0x3FF) OR (ucast lc AND 0x3FF) :: u32"
  have "unat ?v = n div 1024 * 1024 + n mod 1024"
    using unat_or_push [of "ucast lc AND 0x3FF" 10 "ucast uc AND 0x3FF :: u32"]
      less_trans [OF r(3), of 4194304]
    by (simp add: unat_mask10 x r m del: push_bit_and)
  then have "?v = ?w" by (simp add: word_unat_eq_iff n_def [symmetric])
  then show "from_surrogate_pair uc lc = Some u"
    using r by (simp add: from_surrogate_pair_def word_le_nat_alt)
qed

lemma hex16_digit_digits: "n < 16 \<Longrightarrow> hex16_digit (hex_digits ! n) = Some (of_nat n)"
proof -
  assume "n < 16"
  moreover have "\<forall>n \<in> set [0..<16]. hex16_digit (hex_digits ! n) = Some (of_nat n)" by code_simp
  ultimately show ?thesis by simp
qed

lemma parse_hex16_digits:
  assumes "hex16_digit a = Some A" "hex16_digit b = Some B" "hex16_digit c = Some C" "hex16_digit d = Some D"
  shows "parse_hex16 (a # b # c # d # r) =
    Some (push_bit 4 (push_bit 4 (push_bit 4 (push_bit 4 0 + A) + B) + C) + D, r)"
proof -
  have "(4::nat) = Suc (Suc (Suc (Suc 0)))" by simp
  then show ?thesis unfolding parse_hex16_def using assms by (simp only: hex16_loop.simps list.case option.case)
qed

lemma parse_write_hex16: "parse_hex16 (write_hex16 v @ r) = Some (v, r)"
proof -
  let ?n = "unat v"
  have m: "unat (x AND 0xF) = unat x mod 16" for x :: u16
    using unat_and_mask [of x 4] by (simp add: mask_literals)
  have d: "unat (drop_bit k v AND 0xF) = ?n div 2 ^ k mod 16" for k
    unfolding m unsigned_drop_bit_eq using unat_bound [of v] by (simp add: drop_bit_eq_div take_bit_nat_eq_self)
  have p: "unat (push_bit 4 a + (x AND 0xF)) = unat a * 16 + unat x mod 16" if "unat a < 4096" for a x :: u16
  proof -
    have "unat (push_bit 4 a) = unat a * 16"
      unfolding unsigned_push_bit_eq using that by (simp add: push_bit_eq_mult take_bit_nat_eq_self)
    with that show ?thesis by (subst unat_add_lem [THEN iffD1]) (simp_all add: m)
  qed
  have q: "?n div 256 div 16 = ?n div 4096" "?n div 16 div 16 = ?n div 256"
    by (simp_all add: div_mult2_eq [symmetric])
  have n: "?n < 65536" using unat_bound [of v] by simp
  have nd: "?n div 256 < 4096" "?n div 16 < 4096" using n by (simp_all add: less_mult_imp_div_less)
  define a0 where "a0 = push_bit 4 0 + (drop_bit 12 v AND 0xF)"
  define a1 where "a1 = push_bit 4 a0 + (drop_bit 8 v AND 0xF)"
  define a2 where "a2 = push_bit 4 a1 + (drop_bit 4 v AND 0xF)"
  have h0: "unat a0 = ?n div 4096" "unat a0 < 4096" using n d [of 12] by (simp_all add: a0_def)
  have h1: "unat a1 = ?n div 256" "unat a1 < 4096" using nd(1) p [OF h0(2), of "drop_bit 8 v"] d [of 8] h0(1) q(1)
      div_mult_mod_eq [of "?n div 256" 16] unfolding a1_def m by simp_all
  have h2: "unat a2 = ?n div 16" "unat a2 < 4096" using nd(2) p [OF h1(2), of "drop_bit 4 v"] d [of 4] h1(1) q(2)
      div_mult_mod_eq [of "?n div 16" 16] unfolding a2_def m by simp_all
  have "push_bit 4 a2 + (v AND 0xF) = v" unfolding word_unat_eq_iff
    using p [OF h2(2), of v] h2(1) div_mult_mod_eq [of ?n 16] by simp
  moreover have "hex16_digit (hex_digits ! unat (x AND 0xF)) = Some (x AND 0xF)" for x :: u16
  proof -
    have "unat (x AND 0xF) < 16" by (simp add: m)
    from hex16_digit_digits [OF this] show ?thesis by (simp only: of_nat_unat ucast_id)
  qed
  ultimately show ?thesis
    unfolding write_hex16_def append_Cons append_Nil
    by (subst parse_hex16_digits) (auto simp only: a0_def a1_def a2_def)
qed

section \<open>Codec instances\<close>

definition utf8_encode :: "u32 \<Rightarrow> byte list" where
  "utf8_encode u = (case utf8_write_char u of Inr w \<Rightarrow> w | Inl _ \<Rightarrow> [])"

definition utf8_decode :: "byte list \<Rightarrow> u32 option" where
  "utf8_decode s = (case utf8_read_char s of Inr (u, n) \<Rightarrow> if n = length s then Some u else None | Inl _ \<Rightarrow> None)"

lemma utf8_write_char_scalar: "unicode_scalar u \<Longrightarrow> utf8_write_char u = Inr (utf8_encode u)"
  by (simp add: utf8_encode_def utf8_write_char_nats)

interpretation utf8: text_codec unicode_scalar utf8_encode utf8_decode
proof
  fix u assume "unicode_scalar u"
  from utf8_write_read(2) [OF utf8_write_char_scalar [OF this], of "[]"]
  show "utf8_decode (utf8_encode u) = Some u" by (simp add: utf8_decode_def)
qed

definition hex16_decode :: "byte list \<Rightarrow> u16 option" where
  "hex16_decode s = (case parse_hex16 s of Some (v, []) \<Rightarrow> Some v | _ \<Rightarrow> None)"

interpretation hex16: text_codec "\<lambda>_. True" write_hex16 hex16_decode
  by unfold_locales (use parse_write_hex16 [of _ "[]"] in \<open>simp add: hex16_decode_def\<close>)

section \<open>Properties\<close>

text \<open>(C10) The UTF-8 validator accepts exactly the encodings of Unicode scalar values: a non-empty string
  without NUL passes \<open>utf8_validate_cz\<close> with length \<open>len\<close> iff it starts with the \<open>len\<close> bytes that
  \<open>utf8_write_char\<close> produces for some code point outside the surrogates, and that code point is
  what \<open>utf8_read_char\<close> returns.\<close>

theorem utf8_validate_cz_iff:
  assumes "s \<noteq> []" and "0 \<notin> set s" and "len \<noteq> 0"
  shows "utf8_validate_cz s = len \<longleftrightarrow>
    (\<exists>u. unicode_scalar u \<and> len \<le> length s \<and> utf8_write_char u = Inr (take len s) \<and>
       utf8_read_char s = Inr (u, len))"
proof
  assume "utf8_validate_cz s = len"
  from utf8_read_write [OF this assms(3,1,2)] show "\<exists>u. unicode_scalar u \<and> len \<le> length s \<and>
      utf8_write_char u = Inr (take len s) \<and> utf8_read_char s = Inr (u, len)" by blast
next
  assume "\<exists>u. unicode_scalar u \<and> len \<le> length s \<and> utf8_write_char u = Inr (take len s) \<and>
      utf8_read_char s = Inr (u, len)"
  then show "utf8_validate_cz s = len"
    using utf8_write_read(1) [of _ "take len s" "drop len s"] by auto
qed

theorem utf8_validate_cz_iff_witness:
  "utf8_validate_cz [0xE2, 0x82, 0xAC, 0x21] = 3 \<longleftrightarrow>
    (\<exists>u. unicode_scalar u \<and> 3 \<le> length [0xE2, 0x82, 0xAC, 0x21 :: byte] \<and>
       utf8_write_char u = Inr (take 3 [0xE2, 0x82, 0xAC, 0x21]) \<and>
       utf8_read_char [0xE2, 0x82, 0xAC, 0x21] = Inr (u, 3))"
  by (rule utf8_validate_cz_iff) simp_all

text \<open>A code point beyond the basic plane survives the two \<open>\u\<close> escapes of its surrogate pair:
  splitting it, writing both halves as four hex digits, parsing those and joining the halves gives
  the code point back, and the first half is recognised as a leading surrogate.\<close>

theorem surrogate_escape_roundtrip:
  assumes "u \<ge> 0x10000" and "u \<le> 0x10FFFF"
  shows "\<exists>uc lc. to_surrogate_pair u = Inr (uc, lc) \<and>
    parse_hex16 (write_hex16 uc @ r) = Some (uc, r) \<and> parse_hex16 (write_hex16 lc @ r') = Some (lc, r') \<and>
    uc \<ge> 0xD800 \<and> uc \<le> 0xDBFF \<and> from_surrogate_pair uc lc = Some u"
proof -
  from assms obtain uc lc where p: "to_surrogate_pair u = Inr (uc, lc)"
    by (simp add: to_surrogate_pair_def Let_def)
  from surrogate_roundtrip [OF p] p parse_write_hex16 show ?thesis by blast
qed

theorem surrogate_escape_roundtrip_witness:
  "\<exists>uc lc. to_surrogate_pair 0x1F600 = Inr (uc, lc) \<and>
    parse_hex16 (write_hex16 uc @ []) = Some (uc, []) \<and> parse_hex16 (write_hex16 lc @ [34]) = Some (lc, [34]) \<and>
    uc \<ge> 0xD800 \<and> uc \<le> 0xDBFF \<and> from_surrogate_pair uc lc = Some 0x1F600"
  by (rule surrogate_escape_roundtrip) simp_all

end
