(* ===== verification/Ccan_SB.thy ===== *)
theory Ccan_SB
  imports Kore_Buf
begin

text \<open>
  The string buffer \<open>SB\<close> of \<open>base/ccan_json.c\<close>. The three pointers are the block and two offsets into
  it: \<open>sb_cur\<close> is \<open>cur - start\<close>, \<open>sb_end\<close> is \<open>end - start\<close>; the block has one byte more, for the
  terminator. \<open>SB\<close> is the second instance of \<open>byte_sink\<close>.
\<close>

section \<open>Operations\<close>

record SB =
  sb_start :: "byte list"
  sb_cur :: nat
  sb_end :: nat

definition sb_init :: "(nat \<Rightarrow> byte) \<Rightarrow> SB res" where
  "sb_init junk = rbind (malloc_block junk 17) (\<lambda>b. Inr \<lparr>sb_start = b, sb_cur = 0, sb_end = 16\<rparr>)"

text \<open>The doubling loop of \<open>sb_grow\<close>. After 64 turns the 64-bit \<open>alloc\<close> is zero for good, so the loop ends
  within 64 turns or never.\<close>

fun grow_alloc :: "nat \<Rightarrow> nat \<Rightarrow> nat \<Rightarrow> nat res" where
  "grow_alloc 0 alloc target = Inl Out_of_fuel"
| "grow_alloc (Suc n) alloc target =
     (let a = alloc * 2 mod 2 ^ 64 in if a < target then grow_alloc n a target else Inr a)"

definition sb_grow :: "(nat \<Rightarrow> byte) \<Rightarrow> SB \<Rightarrow> nat \<Rightarrow> SB res" where
  "sb_grow junk sb need =
     rbind (grow_alloc 64 (sb_end sb) (wadd64 (sb_cur sb) need)) (\<lambda>alloc.
     rbind (realloc_block junk (Some (sb_start sb)) (wadd64 alloc 1)) (\<lambda>b.
       Inr (sb\<lparr>sb_start := b, sb_end := alloc\<rparr>)))"

definition sb_need :: "(nat \<Rightarrow> byte) \<Rightarrow> SB \<Rightarrow> nat \<Rightarrow> SB res" where
  "sb_need junk sb need =
     (if int (sb_end sb) - int (sb_cur sb) < int need then sb_grow junk sb need else Inr sb)"

text \<open>A store through \<open>cur\<close> (or the local copy \<open>b\<close> of it) with the pointer advanced.\<close>

definition sb_write :: "SB \<Rightarrow> byte list \<Rightarrow> SB res" where
  "sb_write sb d =
     (if sb_cur sb + length d \<le> length (sb_start sb)
      then Inr (sb\<lparr>sb_start := memcpy_at (sb_start sb) (sb_cur sb) d, sb_cur := sb_cur sb + length d\<rparr>)
      else Inl Out_of_bounds)"

text \<open>\<open>sb_put\<close> with \<open>count\<close> equal to the length of \<open>d\<close>.\<close>

definition sb_put :: "(nat \<Rightarrow> byte) \<Rightarrow> SB \<Rightarrow> byte list \<Rightarrow> SB res" where
  "sb_put junk sb d = rbind (sb_need junk sb (length d)) (\<lambda>sb1. sb_write sb1 d)"

definition sb_putc :: "(nat \<Rightarrow> byte) \<Rightarrow> SB \<Rightarrow> byte \<Rightarrow> SB res" where
  "sb_putc junk sb c =
     rbind (if sb_cur sb \<ge> sb_end sb then sb_grow junk sb 1 else Inr sb) (\<lambda>sb1. sb_write sb1 [c])"

text \<open>\<open>strlen\<close> is converted to \<open>int\<close>: a length of \<open>2^31\<close> or more becomes negative, which \<open>memcpy\<close> takes as
  a huge size, or loses its upper bits.\<close>

definition sb_puts :: "(nat \<Rightarrow> byte) \<Rightarrow> SB \<Rightarrow> byte list \<Rightarrow> SB res" where
  "sb_puts junk sb str =
     (let count = sint (of_nat (length str) :: u32) in
      if count < 0 then Inl Out_of_bounds else sb_put junk sb (take (nat count) str))"

text \<open>The finished string, without its terminator.\<close>

definition sb_finish :: "SB \<Rightarrow> byte list res" where
  "sb_finish sb =
     (if sb_cur sb \<ge> length (sb_start sb) then Inl Out_of_bounds
      else let b = (sb_start sb)[sb_cur sb := 0]; str = takeWhile (\<lambda>c. c \<noteq> 0) b in
        if length str = sb_cur sb then Inr str else Inl Assert_failed)"

section \<open>Invariant and growth\<close>

definition sb_ok :: "SB \<Rightarrow> bool" where
  "sb_ok sb \<longleftrightarrow> sb_cur sb \<le> sb_end sb \<and> 16 \<le> sb_end sb \<and> sb_end sb < 2 ^ 32 \<and> length (sb_start sb) = sb_end sb + 1"

definition sb_contents :: "SB \<Rightarrow> byte list" where
  "sb_contents sb = take (sb_cur sb) (sb_start sb)"

definition sb_room :: "SB \<Rightarrow> nat \<Rightarrow> bool" where
  "sb_room sb n \<longleftrightarrow> sb_cur sb + n + 14 < 2 ^ 31"

lemma length_sb_contents: "sb_ok sb \<Longrightarrow> length (sb_contents sb) = sb_cur sb"
  by (simp add: sb_ok_def sb_contents_def)

lemma grow_alloc_ok:
  assumes "0 < alloc" "alloc < target" "target < 2 ^ 31" "target \<le> alloc * 2 ^ n"
  shows "\<exists>a. grow_alloc n alloc target = Inr a \<and> target \<le> a \<and> a < 2 * target \<and> alloc \<le> a"
  using assms
proof (induction n arbitrary: alloc)
  case (Suc n)
  have m: "alloc * 2 mod 2 ^ 64 = alloc * 2" using Suc.prems by simp
  show ?case
  proof (cases "alloc * 2 < target")
    case True
    with Suc.IH [of "alloc * 2"] Suc.prems m show ?thesis by (auto simp: Let_def)
  qed (use m Suc.prems in \<open>simp add: Let_def\<close>)
qed simp

lemma sb_grow_ok:
  assumes "sb_ok sb" "sb_end sb < sb_cur sb + need" "sb_cur sb + need < 2 ^ 31"
  shows "\<exists>sb'. sb_grow junk sb need = Inr sb' \<and> sb_ok sb' \<and> sb_contents sb' = sb_contents sb \<and>
    sb_cur sb' = sb_cur sb \<and> sb_cur sb + need \<le> sb_end sb'"
proof -
  let ?t = "sb_cur sb + need" and ?l = "length (sb_start sb)"
  have sb: "sb_cur sb \<le> sb_end sb" "16 \<le> sb_end sb" "?l = sb_end sb + 1" using assms(1) by (auto simp: sb_ok_def)
  have "?t \<le> sb_end sb * 2 ^ 64" using sb(2) assms(3) by simp
  from grow_alloc_ok [OF _ assms(2,3) this] sb obtain a where
    a: "grow_alloc 64 (sb_end sb) ?t = Inr a" "?t \<le> a" "a < 2 * ?t" "sb_end sb \<le> a" by auto
  have w: "wadd64 (sb_cur sb) need = ?t" "wadd64 a 1 = a + 1" using a(3) assms(3) by simp_all
  let ?b = "memcpy_at (fresh junk (a + 1)) 0 (sb_start sb)"
  have "sb_grow junk sb need = Inr (sb\<lparr>sb_start := ?b, sb_end := a\<rparr>)"
    unfolding sb_grow_def w rbind_simps a(1) using a(4) sb(3) by (simp add: w(2) [simplified] realloc_block_def malloc_block_def)
  moreover have "take (sb_cur sb) ?b = take (sb_cur sb) (sb_start sb)"
    using sb by (simp add: memcpy_at_def)
  moreover have "length ?b = a + 1" using a(4) sb(3) by simp
  ultimately show ?thesis using a assms sb by (auto simp: sb_ok_def sb_contents_def)
qed

lemma sb_need_ok:
  assumes "sb_ok sb" "sb_cur sb + need < 2 ^ 31"
  shows "\<exists>sb'. sb_need junk sb need = Inr sb' \<and> sb_ok sb' \<and> sb_contents sb' = sb_contents sb \<and>
    sb_cur sb' = sb_cur sb \<and> sb_cur sb + need \<le> sb_end sb'"
  using sb_grow_ok [OF assms(1) _ assms(2), of junk] assms(1) by (fastforce simp: sb_need_def)

lemma sb_write_ok:
  assumes "sb_ok sb" "sb_cur sb + length d \<le> sb_end sb"
  shows "\<exists>sb'. sb_write sb d = Inr sb' \<and> sb_ok sb' \<and> sb_contents sb' = sb_contents sb @ d \<and>
    sb_cur sb' = sb_cur sb + length d \<and> sb_end sb' = sb_end sb"
  using assms by (simp add: sb_write_def sb_ok_def sb_contents_def)

lemma sb_put_ok:
  assumes "sb_ok sb" "sb_room sb (length d)"
  shows "\<exists>sb'. sb_put junk sb d = Inr sb' \<and> sb_ok sb' \<and> sb_contents sb' = sb_contents sb @ d \<and>
    sb_cur sb' = sb_cur sb + length d"
proof -
  from sb_need_ok [OF assms(1), of "length d" junk] assms(2) obtain s1 where
    s1: "sb_need junk sb (length d) = Inr s1" "sb_ok s1" "sb_contents s1 = sb_contents sb" "sb_cur s1 = sb_cur sb"
      "sb_cur s1 + length d \<le> sb_end s1" by (auto simp: sb_room_def)
  from sb_write_ok [OF s1(2,5)] s1 show ?thesis by (auto simp: sb_put_def)
qed

interpretation jsb: byte_sink sb_ok sb_room "sb_put junk" sb_contents for junk
proof
  fix b d b' n
  show "\<exists>b'. sb_put junk b d = Inr b'" if "sb_ok b" "sb_room b (length d)" using sb_put_ok [OF that] by blast
  show "sb_ok b'" if "sb_ok b" "sb_room b (length d)" "sb_put junk b d = Inr b'"
    using sb_put_ok [OF that(1,2), of junk] that(3) by auto
  show "sb_contents b' = sb_contents b @ d" if "sb_ok b" "sb_room b (length d)" "sb_put junk b d = Inr b'"
    using sb_put_ok [OF that(1,2), of junk] that(3) by auto
  show "sb_room b' n" if "sb_ok b" "sb_room b (length d + n)" "sb_put junk b d = Inr b'"
  proof -
    have "sb_room b (length d)" using that(2) by (simp add: sb_room_def)
    from sb_put_ok [OF that(1) this, of junk] that(2,3) show ?thesis by (auto simp: sb_room_def)
  qed
  show "sb_room b m" if "sb_room b n" "m \<le> n" for m using that by (simp add: sb_room_def)
qed

abbreviation sb_holds :: "SB \<Rightarrow> byte list \<Rightarrow> nat \<Rightarrow> bool" where
  "sb_holds \<equiv> jsb.holds"

text \<open>The other writers, in the same form.\<close>

lemma sb_puts_holds:
  assumes "sb_holds sb cs (length d + n)"
  shows "\<exists>sb'. sb_puts junk sb d = Inr sb' \<and> sb_holds sb' (cs @ d) n"
proof -
  from assms have "length d < 2 ^ 31" by (simp add: jsb.holds_def sb_room_def)
  then have "sint (of_nat (length d) :: u32) = int (length d)"
    by (simp add: sint_uint unsigned_of_nat take_bit_nat_eq_self signed_take_bit_int_eq_self)
  then have "sb_puts junk sb d = sb_put junk sb d" by (simp add: sb_puts_def)
  with jsb.holds_put [OF assms] show ?thesis by simp
qed

lemma sb_putc_put: "sb_ok sb \<Longrightarrow> sb_putc junk sb c = sb_put junk sb [c]"
  by (auto simp: sb_putc_def sb_put_def sb_need_def sb_ok_def)

lemma sb_putc_holds:
  assumes "sb_holds sb cs (Suc n)"
  shows "\<exists>sb'. sb_putc junk sb c = Inr sb' \<and> sb_holds sb' (cs @ [c]) n"
  using jsb.holds_put [of sb cs "[c]" n junk] assms by (simp add: sb_putc_put jsb.holds_def)

lemma sb_finish_holds:
  assumes "sb_holds sb cs n" "0 \<notin> set cs"
  shows "sb_finish sb = Inr cs"
proof -
  from assms(1) have sb: "sb_ok sb" "cs = take (sb_cur sb) (sb_start sb)"
    by (auto simp: jsb.holds_def sb_contents_def)
  then have lt: "sb_cur sb < length (sb_start sb)" by (simp add: sb_ok_def)
  then have "(sb_start sb)[sb_cur sb := 0] = cs @ 0 # drop (Suc (sb_cur sb)) (sb_start sb)"
    by (simp add: sb(2) upd_conv_take_nth_drop)
  moreover have "takeWhile (\<lambda>c. c \<noteq> 0) (cs @ 0 # x) = cs" for x
    using assms(2) by (induction cs) auto
  ultimately show ?thesis using lt sb(2) by (simp add: sb_finish_def)
qed

lemma sb_init_holds: "n + 14 < 2 ^ 31 \<Longrightarrow> \<exists>sb. sb_init junk = Inr sb \<and> sb_holds sb [] n"
  by (simp add: sb_init_def malloc_block_def jsb.holds_def sb_ok_def sb_contents_def sb_room_def)

end
