(* ===== verification/Ccan_Parse.thy ===== *)
theory Ccan_Parse
  imports Ccan_Utf8 Ccan_SB
begin

text \<open>
  The JSON parser of \<open>base/ccan_json.c\<close> on the values the node trees stand for. \<open>out\<close> says whether the
  caller passed a place for the result: \<open>json_decode\<close> does, \<open>json_validate\<close> passes \<open>NULL\<close>.
  A parser returns \<open>None\<close> for \<open>false\<close>, otherwise the value (when asked for) and the text left.

  Numbers are of an arbitrary type: \<open>sd\<close> stands for \<open>strtod\<close>. The recursion carries fuel, one unit
  for each nested call; the theorems show that \<open>2 * length + 2\<close> units are enough for every text.
\<close>

section \<open>Values\<close>

datatype 'd json =
    JSON_NULL
  | JSON_BOOL bool
  | JSON_STRING "byte list"
  | JSON_NUMBER 'd
  | JSON_ARRAY "'d json list"
  | JSON_OBJECT "(byte list \<times> 'd json) list"

definition when_out :: "bool \<Rightarrow> 'a \<Rightarrow> 'a option" where
  "when_out out v = (if out then Some v else None)"

lemma when_out_simps [simp]: "when_out True v = Some v" "when_out False v = None"
  by (simp_all add: when_out_def)

section \<open>Lexical parts\<close>

definition is_space :: "byte \<Rightarrow> bool" where
  "is_space c \<longleftrightarrow> c = 9 \<or> c = 10 \<or> c = 13 \<or> c = 32"

definition is_digit :: "byte \<Rightarrow> bool" where
  "is_digit c \<longleftrightarrow> c \<ge> ch (CHR ''0'') \<and> c \<le> ch (CHR ''9'')"

definition skip_space :: "byte list \<Rightarrow> byte list" where
  "skip_space s = dropWhile is_space s"

fun expect_literal :: "byte list \<Rightarrow> byte list \<Rightarrow> byte list option" where
  "expect_literal s [] = Some s"
| "expect_literal [] (c # cs) = None"
| "expect_literal (x # s) (c # cs) = (if x \<noteq> c then None else expect_literal s cs)"

text \<open>One or more digits: the three digit loops of \<open>parse_number\<close>.\<close>

definition digits1 :: "byte list \<Rightarrow> byte list option" where
  "digits1 s = (if is_digit (cz s 0) then Some (dropWhile is_digit s) else None)"

text \<open>The parts of the number pattern, in order: the optional sign, the integer part, the optional
  fraction and the optional exponent; each gives the text behind it.\<close>

definition num_sign :: "byte list \<Rightarrow> byte list" where
  "num_sign s = (if cz s 0 = ch (CHR ''-'') then drop 1 s else s)"

definition num_int :: "byte list \<Rightarrow> byte list option" where
  "num_int s = (if cz s 0 = ch (CHR ''0'') then Some (drop 1 s) else digits1 s)"

definition num_frac :: "byte list \<Rightarrow> byte list option" where
  "num_frac s = (if cz s 0 = ch (CHR ''.'') then digits1 (drop 1 s) else Some s)"

definition num_exp :: "byte list \<Rightarrow> byte list option" where
  "num_exp s =
     (if cz s 0 = ch (CHR ''E'') \<or> cz s 0 = ch (CHR ''e'') then
        (let s1 = drop 1 s in
         digits1 (if cz s1 0 = ch (CHR ''+'') \<or> cz s1 0 = ch (CHR ''-'') then drop 1 s1 else s1))
      else Some s)"

definition number_end :: "byte list \<Rightarrow> byte list option" where
  "number_end s =
     (case num_int (num_sign s) of
        None \<Rightarrow> None
      | Some s1 \<Rightarrow> (case num_frac s1 of None \<Rightarrow> None | Some s2 \<Rightarrow> num_exp s2))"

definition parse_number :: "(byte list \<Rightarrow> 'd) \<Rightarrow> bool \<Rightarrow> byte list \<Rightarrow> ('d option \<times> byte list) option" where
  "parse_number sd out s =
     (case number_end s of None \<Rightarrow> None | Some r \<Rightarrow> Some (when_out out (sd s), r))"

definition number_is_valid :: "byte list \<Rightarrow> bool" where
  "number_is_valid num \<longleftrightarrow>
     (case parse_number (\<lambda>_. ()) False num of None \<Rightarrow> False | Some (_, r) \<Rightarrow> r = [])"

section \<open>Strings\<close>

text \<open>One turn of the loop of \<open>parse_string\<close>: the bytes of the next character and the text behind it.\<close>

definition parse_escape_u :: "byte list \<Rightarrow> (byte list \<times> byte list) option res" where
  "parse_escape_u s =
     (case parse_hex16 s of
        None \<Rightarrow> Inr None
      | Some (uc, s1) \<Rightarrow>
          if uc \<ge> 0xD800 \<and> uc \<le> 0xDFFF then
            (if cz s1 0 \<noteq> ch (CHR 0x5C) \<or> cz s1 1 \<noteq> ch (CHR ''u'') then Inr None
             else case parse_hex16 (drop 2 s1) of
                 None \<Rightarrow> Inr None
               | Some (lc, s2) \<Rightarrow>
                   (case from_surrogate_pair uc lc of
                      None \<Rightarrow> Inr None
                    | Some u \<Rightarrow> rbind (utf8_write_char u) (\<lambda>w. Inr (Some (w, s2)))))
          else if uc = 0 then Inr None
          else rbind (utf8_write_char (ucast uc)) (\<lambda>w. Inr (Some (w, s1))))"

definition parse_char :: "byte list \<Rightarrow> (byte list \<times> byte list) option res" where
  "parse_char s =
     (let c = cz s 0 in
      if c = ch (CHR 0x5C) then
        (let e = cz s 1; r = drop 2 s in
         if e = ch (CHR 0x22) \<or> e = ch (CHR 0x5C) \<or> e = ch (CHR ''/'') then Inr (Some ([e], r))
         else if e = ch (CHR ''b'') then Inr (Some ([8], r))
         else if e = ch (CHR ''f'') then Inr (Some ([12], r))
         else if e = ch (CHR ''n'') then Inr (Some ([10], r))
         else if e = ch (CHR ''r'') then Inr (Some ([13], r))
         else if e = ch (CHR ''t'') then Inr (Some ([9], r))
         else if e = ch (CHR ''u'') then parse_escape_u r
         else Inr None)
      else if c \<le> 0x1F then Inr None
      else let len = utf8_validate_cz s in
        if len = 0 then Inr None else Inr (Some (take len s, drop len s)))"

text \<open>Storing the character: into the string buffer, with room made for the next one, or over the
  four-byte throwaway buffer.\<close>

definition store_char :: "(nat \<Rightarrow> byte) \<Rightarrow> SB option \<Rightarrow> byte list \<Rightarrow> SB option res" where
  "store_char junk sbo w =
     (case sbo of
        None \<Rightarrow> if length w \<le> 4 then Inr None else Inl Out_of_bounds
      | Some sb \<Rightarrow> rbind (sb_write sb w) (\<lambda>sb1. rbind (sb_need junk sb1 4) (\<lambda>sb2. Inr (Some sb2))))"

lemma length_hex16_loop: "hex16_loop k v s = Some (u, r) \<Longrightarrow> length s = k + length r"
  by (induction k v s rule: hex16_loop.induct) (auto split: list.splits option.splits)

lemma parse_hex16_length: "parse_hex16 s = Some (u, r) \<Longrightarrow> length s = 4 + length r"
  by (simp add: parse_hex16_def length_hex16_loop)

lemma parse_char_shorter:
  assumes "parse_char s = Inr (Some (w, r))"
  shows "length r < length s"
proof (cases s)
  case Nil
  with assms show ?thesis by (simp add: parse_char_def cz_def)
next
  case (Cons c cs)
  then have "length s > 0" by simp
  with assms show ?thesis
    unfolding parse_char_def parse_escape_u_def Let_def
    by (auto split: if_splits option.splits simp: rbind_eq_Inr dest!: parse_hex16_length)
qed

function string_loop ::
    "(nat \<Rightarrow> byte) \<Rightarrow> SB option \<Rightarrow> byte list \<Rightarrow> (SB option \<times> byte list) option res" where
  "string_loop junk sbo s =
     (if cz s 0 = ch (CHR 0x22) then Inr (Some (sbo, drop 1 s))
      else rbind (parse_char s) (\<lambda>p.
        case p of
          None \<Rightarrow> Inr None
        | Some (w, r) \<Rightarrow> rbind (store_char junk sbo w) (\<lambda>sbo1. string_loop junk sbo1 r)))"
  by pat_completeness auto
termination
  by (relation "measure (\<lambda>(junk, sbo, s). length s)") (auto dest: parse_char_shorter)

declare string_loop.simps [simp del]

definition parse_string ::
    "(nat \<Rightarrow> byte) \<Rightarrow> bool \<Rightarrow> byte list \<Rightarrow> (byte list option \<times> byte list) option res" where
  "parse_string junk out s =
     (if cz s 0 \<noteq> ch (CHR 0x22) then Inr None
      else rbind
        (if out then rbind (sb_init junk) (\<lambda>sb. rbind (sb_need junk sb 4) (\<lambda>sb1. Inr (Some sb1)))
         else Inr None) (\<lambda>sbo.
      rbind (string_loop junk sbo (drop 1 s)) (\<lambda>p.
        case p of
          None \<Rightarrow> Inr None
        | Some (None, r) \<Rightarrow> Inr (Some (None, r))
        | Some (Some sb, r) \<Rightarrow> rbind (sb_finish sb) (\<lambda>str. Inr (Some (Some str, r))))))"

section \<open>Values, arrays, objects\<close>

definition opt_list :: "'a option \<Rightarrow> 'a list" where
  "opt_list x = (case x of None \<Rightarrow> [] | Some v \<Rightarrow> [v])"

fun opt_member :: "'a option \<Rightarrow> 'b option \<Rightarrow> ('a \<times> 'b) list" where
  "opt_member (Some k) (Some v) = [(k, v)]"
| "opt_member _ _ = []"

type_synonym 'd parsed = "('d json option \<times> byte list) option res"

text \<open>The bodies of the mutually recursive parsers, with the recursive calls as arguments: \<open>pv\<close> for
  \<open>parse_value\<close>, \<open>al\<close> and \<open>ol\<close> for the loops of \<open>parse_array\<close> and \<open>parse_object\<close>.\<close>

definition parse_array :: "('d json list \<Rightarrow> byte list \<Rightarrow> 'd parsed) \<Rightarrow> bool \<Rightarrow> byte list \<Rightarrow> 'd parsed" where
  "parse_array al out s =
     (if cz s 0 \<noteq> ch (CHR ''['') then Inr None
      else let s1 = skip_space (drop 1 s) in
        if cz s1 0 = ch (CHR '']'') then Inr (Some (when_out out (JSON_ARRAY []), drop 1 s1))
        else al [] s1)"

definition parse_object ::
    "((byte list \<times> 'd json) list \<Rightarrow> byte list \<Rightarrow> 'd parsed) \<Rightarrow> bool \<Rightarrow> byte list \<Rightarrow> 'd parsed" where
  "parse_object ol out s =
     (if cz s 0 \<noteq> ch (CHR ''{'') then Inr None
      else let s1 = skip_space (drop 1 s) in
        if cz s1 0 = ch (CHR ''}'') then Inr (Some (when_out out (JSON_OBJECT []), drop 1 s1))
        else ol [] s1)"

definition parse_literal :: "bool \<Rightarrow> byte list \<Rightarrow> byte list \<Rightarrow> 'd json \<Rightarrow> 'd parsed" where
  "parse_literal out s str v =
     (case expect_literal s str of None \<Rightarrow> Inr None | Some r \<Rightarrow> Inr (Some (when_out out v, r)))"

definition value_body ::
    "('d json list \<Rightarrow> byte list \<Rightarrow> 'd parsed) \<Rightarrow> ((byte list \<times> 'd json) list \<Rightarrow> byte list \<Rightarrow> 'd parsed) \<Rightarrow>
     (nat \<Rightarrow> byte) \<Rightarrow> (byte list \<Rightarrow> 'd) \<Rightarrow> bool \<Rightarrow> byte list \<Rightarrow> 'd parsed" where
  "value_body al ol junk sd out s =
     (let c = cz s 0 in
      if c = ch (CHR ''n'') then parse_literal out s (bs ''null'') JSON_NULL
      else if c = ch (CHR ''f'') then parse_literal out s (bs ''false'') (JSON_BOOL False)
      else if c = ch (CHR ''t'') then parse_literal out s (bs ''true'') (JSON_BOOL True)
      else if c = ch (CHR 0x22) then
        rbind (parse_string junk out s) (\<lambda>p.
          case p of None \<Rightarrow> Inr None | Some (str, r) \<Rightarrow> Inr (Some (map_option JSON_STRING str, r)))
      else if c = ch (CHR ''['') then parse_array al out s
      else if c = ch (CHR ''{'') then parse_object ol out s
      else
        (case parse_number sd out s of None \<Rightarrow> Inr None
         | Some (num, r) \<Rightarrow> Inr (Some (map_option JSON_NUMBER num, r))))"

text \<open>One turn of the loops; \<open>acc\<close> is the list of children of the node under construction.\<close>

definition array_turn ::
    "(byte list \<Rightarrow> 'd parsed) \<Rightarrow> ('d json list \<Rightarrow> byte list \<Rightarrow> 'd parsed) \<Rightarrow> bool \<Rightarrow>
     'd json list \<Rightarrow> byte list \<Rightarrow> 'd parsed" where
  "array_turn pv al out acc s =
     rbind (pv s) (\<lambda>p.
       case p of
         None \<Rightarrow> Inr None
       | Some (element, s1) \<Rightarrow>
           let s2 = skip_space s1; acc1 = acc @ opt_list element in
           if cz s2 0 = ch (CHR '']'') then Inr (Some (when_out out (JSON_ARRAY acc1), drop 1 s2))
           else if cz s2 0 \<noteq> ch (CHR '','') then Inr None
           else al acc1 (skip_space (drop 1 s2)))"

definition object_turn ::
    "(byte list \<Rightarrow> 'd parsed) \<Rightarrow> ((byte list \<times> 'd json) list \<Rightarrow> byte list \<Rightarrow> 'd parsed) \<Rightarrow> (nat \<Rightarrow> byte) \<Rightarrow> bool \<Rightarrow>
     (byte list \<times> 'd json) list \<Rightarrow> byte list \<Rightarrow> 'd parsed" where
  "object_turn pv ol junk out acc s =
     rbind (parse_string junk out s) (\<lambda>p.
       case p of
         None \<Rightarrow> Inr None
       | Some (key, s1) \<Rightarrow>
           let s2 = skip_space s1 in
           if cz s2 0 \<noteq> ch (CHR '':'') then Inr None
           else rbind (pv (skip_space (drop 1 s2))) (\<lambda>q.
             case q of
               None \<Rightarrow> Inr None
             | Some (val, s3) \<Rightarrow>
                 let s4 = skip_space s3; acc1 = acc @ opt_member key val in
                 if cz s4 0 = ch (CHR ''}'') then Inr (Some (when_out out (JSON_OBJECT acc1), drop 1 s4))
                 else if cz s4 0 \<noteq> ch (CHR '','') then Inr None
                 else ol acc1 (skip_space (drop 1 s4))))"

fun parse_value :: "(nat \<Rightarrow> byte) \<Rightarrow> (byte list \<Rightarrow> 'd) \<Rightarrow> bool \<Rightarrow> nat \<Rightarrow> byte list \<Rightarrow> 'd parsed"
and array_loop :: "(nat \<Rightarrow> byte) \<Rightarrow> (byte list \<Rightarrow> 'd) \<Rightarrow> bool \<Rightarrow> nat \<Rightarrow> 'd json list \<Rightarrow> byte list \<Rightarrow> 'd parsed"
and object_loop ::
    "(nat \<Rightarrow> byte) \<Rightarrow> (byte list \<Rightarrow> 'd) \<Rightarrow> bool \<Rightarrow> nat \<Rightarrow> (byte list \<times> 'd json) list \<Rightarrow> byte list \<Rightarrow> 'd parsed" where
  "parse_value junk sd out 0 s = Inl Out_of_fuel"
| "parse_value junk sd out (Suc n) s =
     value_body (array_loop junk sd out n) (object_loop junk sd out n) junk sd out s"
| "array_loop junk sd out 0 acc s = Inl Out_of_fuel"
| "array_loop junk sd out (Suc n) acc s =
     array_turn (parse_value junk sd out n) (array_loop junk sd out n) out acc s"
| "object_loop junk sd out 0 acc s = Inl Out_of_fuel"
| "object_loop junk sd out (Suc n) acc s =
     object_turn (parse_value junk sd out n) (object_loop junk sd out n) junk out acc s"

definition parse_fuel :: "byte list \<Rightarrow> nat" where
  "parse_fuel s = 2 * length s + 2"

definition json_decode :: "(nat \<Rightarrow> byte) \<Rightarrow> (byte list \<Rightarrow> 'd) \<Rightarrow> byte list \<Rightarrow> 'd json option res" where
  "json_decode junk sd json =
     rbind (parse_value junk sd True (parse_fuel json) (skip_space json)) (\<lambda>p.
       case p of
         None \<Rightarrow> Inr None
       | Some (ret, s) \<Rightarrow> if skip_space s \<noteq> [] then Inr None else Inr ret)"

definition json_validate :: "(nat \<Rightarrow> byte) \<Rightarrow> byte list \<Rightarrow> bool res" where
  "json_validate junk json =
     rbind (parse_value junk (\<lambda>_. ()) False (parse_fuel json) (skip_space json)) (\<lambda>p.
       case p of
         None \<Rightarrow> Inr False
       | Some (_, s) \<Rightarrow> Inr (skip_space s = []))"

section \<open>Characters\<close>

text \<open>One complete UTF-8 character other than NUL.\<close>

definition utf8_char :: "byte list \<Rightarrow> bool" where
  "utf8_char w \<longleftrightarrow> w \<noteq> [] \<and> 0 \<notin> set w \<and> length w \<le> 4 \<and> (\<forall>t. utf8_validate_cz (w @ t) = length w)"

lemma utf8_char_ascii: "c \<le> 0x7F \<Longrightarrow> c \<noteq> 0 \<Longrightarrow> utf8_char [c]"
  by (auto simp: utf8_char_def utf8_validate_cz_def cz_def Let_def)

lemma utf8_nats_range:
  assumes "n \<le> 0x10FFFF" "m \<in> set (utf8_nats n)"
  shows "m < 256 \<and> (m = 0 \<longrightarrow> n = 0)"
proof -
  have m: "x mod 64 < 64" for x :: nat by simp
  have d: "n \<le> 0x7FF \<Longrightarrow> n div 64 < 32" "n \<le> 0xFFFF \<Longrightarrow> n div 4096 < 16" "n div 262144 < 8"
    using assms(1) by (simp_all add: less_mult_imp_div_less)
  consider "n \<le> 0x7F" | "0x7F < n" "n \<le> 0x7FF" | "0x7FF < n" "n \<le> 0xFFFF" | "0xFFFF < n"
    by linarith
  then show ?thesis
  proof cases
    case 1
    then show ?thesis using assms(2) by (simp add: utf8_nats_def)
  next
    case 2
    then have "m = 192 + n div 64 \<or> m = 128 + n mod 64" using assms(2) by (simp add: utf8_nats_def)
    then show ?thesis using d(1) 2 m [of n] by linarith
  next
    case 3
    then have "m = 224 + n div 4096 \<or> m = 128 + n div 64 mod 64 \<or> m = 128 + n mod 64"
      using assms(2) by (simp add: utf8_nats_def)
    then show ?thesis using d(2) 3 m [of n] m [of "n div 64"] by linarith
  next
    case 4
    then have "m = 240 + n div 262144 \<or> m = 128 + n div 4096 mod 64 \<or> m = 128 + n div 64 mod 64 \<or> m = 128 + n mod 64"
      using assms(2) by (simp add: utf8_nats_def)
    then show ?thesis using d(3) m [of n] m [of "n div 64"] m [of "n div 4096"] by linarith
  qed
qed

lemma utf8_char_write:
  assumes "utf8_write_char u = Inr w" "u \<noteq> 0"
  shows "utf8_char w"
proof -
  from assms(1) have u: "unicode_scalar u" by (auto simp: utf8_write_char_def split: if_splits)
  then have w: "w = map of_nat (utf8_nats (unat u))" using assms(1) utf8_write_char_nats by simp
  have "(of_nat m :: byte) \<noteq> 0" if "m \<in> set (utf8_nats (unat u))" for m
    using utf8_nats_range [OF _ that] u assms(2)
    by (metis unat_byte_of_nat unat_0 unat_eq_zero unicode_scalar_nat)
  then have "0 \<notin> set w" by (auto simp: w)
  with utf8_write_read [OF assms(1)] show ?thesis by (simp add: utf8_char_def)
qed

lemma utf8_validate_cz_local:
  assumes "utf8_validate_cz s = len" "len \<noteq> 0" "\<And>i. i < len \<Longrightarrow> cz s' i = cz s i"
  shows "utf8_validate_cz s' = len"
proof -
  from assms(2,3) have "cz s' 0 = cz s 0" by simp
  moreover note utf8_validate_cz_len [of s] assms(1,2)
  moreover have "1 < len \<Longrightarrow> cz s' (Suc 0) = cz s (Suc 0)" "2 < len \<Longrightarrow> cz s' 2 = cz s 2" "3 < len \<Longrightarrow> cz s' 3 = cz s 3"
    using assms(3) by auto
  ultimately show ?thesis unfolding utf8_validate_cz_def Let_def by (auto split: if_splits)
qed

lemma utf8_char_raw:
  assumes "utf8_validate_cz s = len" "len \<noteq> 0" "cz s 0 \<noteq> 0"
  shows "utf8_char (take len s)" "len \<le> length s"
proof -
  note v = utf8_nats_value [OF assms(1,2) refl]
  have nz: "cz s i \<noteq> 0" if "i < len" for i
    using that v assms(3) by (cases i) (auto dest: spec [of _ i])
  then have "\<And>i. i < len \<Longrightarrow> i < length s" by (blast intro: cz_length)
  note t = take_cz [of len s, OF this]
  show "len \<le> length s" by (rule t(2))
  have "cz (take len s @ t) i = cz s i" if "i < len" for i t
    using that \<open>len \<le> length s\<close> by (simp add: cz_def nth_append)
  then have "utf8_validate_cz (take len s @ t) = len" for t
    by (intro utf8_validate_cz_local [OF assms(1,2)])
  moreover have "len \<le> 4" using utf8_validate_cz_len [of s] assms(1,2) by (auto split: if_splits)
  moreover have "0 \<notin> set (take len s)" using nz by (auto simp: t(1) dest: sym)
  ultimately show "utf8_char (take len s)" using assms(2) \<open>len \<le> length s\<close>
    by (auto simp: utf8_char_def)
qed

lemma from_surrogate_pair_scalar:
  assumes "from_surrogate_pair uc lc = Some u"
  shows "unicode_scalar u" "u \<noteq> 0"
proof -
  let ?v = "push_bit 10 (ucast uc AND 0x3FF) OR (ucast lc AND 0x3FF) :: u32"
  have m: "unat (x AND 0x3FF) < 1024" for x :: u32 by (simp add: unat_mask10)
  have "unat (ucast uc AND 0x3FF :: u32) * 2 ^ 10 < 2 ^ 32" using m [of "ucast uc"] by simp
  then have "unat ?v = unat (ucast uc AND 0x3FF :: u32) * 1024 + unat (ucast lc AND 0x3FF :: u32)"
    using unat_or_push [of "ucast lc AND 0x3FF" 10 "ucast uc AND 0x3FF :: u32"] m [of "ucast lc"]
    by (simp del: push_bit_and)
  then have b: "unat ?v < 1048576" using m [of "ucast uc"] m [of "ucast lc"] by linarith
  from assms have u: "u = 0x10000 + ?v" by (auto simp: from_surrogate_pair_def split: if_splits)
  have "unat u = 0x10000 + unat ?v" unfolding u using b by (subst unat_add_lem [THEN iffD1]) simp_all
  with b show "unicode_scalar u" "u \<noteq> 0" by (auto simp: unicode_scalar_nat)
qed

lemma ucast_u16_scalar:
  assumes "\<not> (uc \<ge> 0xD800 \<and> uc \<le> 0xDFFF)" "uc \<noteq> (0::u16)"
  shows "unicode_scalar (ucast uc)" "(ucast uc :: u32) \<noteq> 0"
proof -
  have x: "unat (ucast uc :: u32) = unat uc" using unat_bound [of uc]
    by (simp add: unsigned_ucast_eq take_bit_nat_eq_self)
  with assms unat_bound [of uc] show "unicode_scalar (ucast uc)" by (auto simp: unicode_scalar_nat word_le_nat_alt)
  from x assms(2) show "(ucast uc :: u32) \<noteq> 0" by (metis unat_0 unat_eq_zero)
qed

text \<open>What one turn of the string loop does: it does not fault; a character it accepts is a complete
  UTF-8 character, and no longer than the text it consumed.\<close>

definition char_step_ok :: "nat \<Rightarrow> (byte list \<times> byte list) option res \<Rightarrow> bool" where
  "char_step_ok n p \<longleftrightarrow> (\<exists>q. p = Inr q \<and>
     (case q of None \<Rightarrow> True | Some (w, r) \<Rightarrow> utf8_char w \<and> length w + length r \<le> n))"

lemma char_step_ok_mono: "char_step_ok m p \<Longrightarrow> m \<le> n \<Longrightarrow> char_step_ok n p"
proof -
  assume a: "char_step_ok m p" "m \<le> n"
  then obtain q where "p = Inr q" "case q of None \<Rightarrow> True | Some (w, r) \<Rightarrow> utf8_char w \<and> length w + length r \<le> m"
    unfolding char_step_ok_def by blast
  with a(2) show ?thesis by (cases q) (auto simp: char_step_ok_def)
qed

lemma char_step_ok_write:
  assumes "unicode_scalar u" "u \<noteq> 0" "4 + length r \<le> n"
  shows "char_step_ok n (rbind (utf8_write_char u) (\<lambda>w. Inr (Some (w, r))))"
proof -
  have w: "utf8_write_char u = Inr (utf8_encode u)" using assms(1) by (rule utf8_write_char_scalar)
  from utf8_char_write [OF w assms(2)] assms(3) w show ?thesis by (auto simp: char_step_ok_def utf8_char_def)
qed

lemma parse_escape_u_ok: "char_step_ok (length s) (parse_escape_u s)"
proof (cases "parse_hex16 s")
  case None
  then show ?thesis by (simp add: parse_escape_u_def char_step_ok_def)
next
  case (Some p)
  obtain uc s1 where p: "p = (uc, s1)" by fastforce
  note l1 = parse_hex16_length [OF Some [unfolded p]]
  show ?thesis
  proof (cases "uc \<ge> 0xD800 \<and> uc \<le> 0xDFFF")
    case False
    then show ?thesis
    proof (cases "uc = 0")
      case True
      then show ?thesis using Some p by (simp add: parse_escape_u_def char_step_ok_def)
    next
      case nz: False
      show ?thesis
        unfolding parse_escape_u_def Some p option.case prod.case if_not_P [OF False] if_not_P [OF nz]
        using ucast_u16_scalar [OF False nz] l1 by (intro char_step_ok_write) simp_all
    qed
  next
    case True
    have "char_step_ok (length s) (case parse_hex16 (drop 2 s1) of None \<Rightarrow> Inr None
        | Some (lc, s2) \<Rightarrow> (case from_surrogate_pair uc lc of None \<Rightarrow> Inr None
           | Some u \<Rightarrow> rbind (utf8_write_char u) (\<lambda>w. Inr (Some (w, s2)))))"
      using l1 by (auto simp: char_step_ok_def [of _ "Inr None"] split: option.splits
          intro!: char_step_ok_write from_surrogate_pair_scalar dest!: parse_hex16_length)
    with Some p True show ?thesis
      by (simp add: parse_escape_u_def) (simp add: char_step_ok_def)
  qed
qed

lemma parse_char_ok: "char_step_ok (length s) (parse_char s)"
proof (cases "cz s 0 = ch (CHR 0x5C)")
  case True
  let ?e = "cz s 1" and ?r = "drop 2 s"
  have raw: "char_step_ok (length s) (Inr (Some ([b], ?r)))" if "b \<le> 0x7F" "b \<noteq> 0" "?e \<noteq> 0" for b
    using utf8_char_ascii [OF that(1,2)] cz_length [OF that(3)] by (auto simp: char_step_ok_def)
  have u: "char_step_ok (length s) (parse_escape_u ?r)"
    by (rule char_step_ok_mono [OF parse_escape_u_ok]) simp
  have n: "char_step_ok (length s) (Inr None)" by (simp add: char_step_ok_def)
  show ?thesis using True u n raw unfolding parse_char_def Let_def by (auto split del: if_split split: if_split)
next
  case False
  have n: "char_step_ok (length s) (Inr None)" by (simp add: char_step_ok_def)
  show ?thesis
  proof (cases "cz s 0 \<le> 0x1F \<or> utf8_validate_cz s = 0")
    case True
    with False n show ?thesis unfolding parse_char_def Let_def by auto
  next
    case f: False
    then have nz: "cz s 0 \<noteq> 0" by auto
    from utf8_char_raw [OF refl _ nz] f have "char_step_ok (length s)
        (Inr (Some (take (utf8_validate_cz s) s, drop (utf8_validate_cz s) s)))" by (auto simp: char_step_ok_def)
    with f False show ?thesis unfolding parse_char_def Let_def by auto
  qed
qed

end
