(* ===== verification/Ccan_Grammar.thy ===== *)
theory Ccan_Grammar
  imports Ccan_Parse
begin

text \<open>
  The language of the JSON parser as a grammar, and the parser's correctness against it: it is sound,
  complete, total on every text below one gigabyte, and its validating mode accepts exactly the
  texts its decoding mode accepts.
\<close>

section \<open>The grammar\<close>

text \<open>\<open>jchars s str r\<close>: the text \<open>s\<close>, behind an opening quote, reads as the string \<open>str\<close> up to its closing
  quote, with \<open>r\<close> behind it.\<close>

inductive jchars :: "byte list \<Rightarrow> byte list \<Rightarrow> byte list \<Rightarrow> bool" where
  close: "cz s 0 = ch (CHR 0x22) \<Longrightarrow> jchars s [] (drop 1 s)"
| char: "cz s 0 \<noteq> ch (CHR 0x22) \<Longrightarrow> parse_char s = Inr (Some (w, r)) \<Longrightarrow> jchars r str r' \<Longrightarrow>
    jchars s (w @ str) r'"

definition jstring :: "byte list \<Rightarrow> byte list \<Rightarrow> byte list \<Rightarrow> bool" where
  "jstring s str r \<longleftrightarrow> cz s 0 = ch (CHR 0x22) \<and> jchars (drop 1 s) str r"

text \<open>\<open>jvalue sd s v r\<close>: the text \<open>s\<close> starts with a JSON value that means \<open>v\<close>, with \<open>r\<close> behind it; likewise
  for the elements of an array and the members of an object, up to the closing bracket.\<close>

inductive jvalue :: "(byte list \<Rightarrow> 'd) \<Rightarrow> byte list \<Rightarrow> 'd json \<Rightarrow> byte list \<Rightarrow> bool"
  and jelems :: "(byte list \<Rightarrow> 'd) \<Rightarrow> byte list \<Rightarrow> 'd json list \<Rightarrow> byte list \<Rightarrow> bool"
  and jmembers :: "(byte list \<Rightarrow> 'd) \<Rightarrow> byte list \<Rightarrow> (byte list \<times> 'd json) list \<Rightarrow> byte list \<Rightarrow> bool"
  for sd :: "byte list \<Rightarrow> 'd" where
  jnull: "expect_literal s (bs ''null'') = Some r \<Longrightarrow> jvalue sd s JSON_NULL r"
| jfalse: "expect_literal s (bs ''false'') = Some r \<Longrightarrow> jvalue sd s (JSON_BOOL False) r"
| jtrue: "expect_literal s (bs ''true'') = Some r \<Longrightarrow> jvalue sd s (JSON_BOOL True) r"
| jstr: "jstring s str r \<Longrightarrow> jvalue sd s (JSON_STRING str) r"
| jnum: "number_end s = Some r \<Longrightarrow> jvalue sd s (JSON_NUMBER (sd s)) r"
| jarr0: "cz s 0 = ch (CHR ''['') \<Longrightarrow> s1 = skip_space (drop 1 s) \<Longrightarrow> cz s1 0 = ch (CHR '']'') \<Longrightarrow>
    jvalue sd s (JSON_ARRAY []) (drop 1 s1)"
| jarr: "cz s 0 = ch (CHR ''['') \<Longrightarrow> jelems sd (skip_space (drop 1 s)) vs r \<Longrightarrow> jvalue sd s (JSON_ARRAY vs) r"
| jobj0: "cz s 0 = ch (CHR ''{'') \<Longrightarrow> s1 = skip_space (drop 1 s) \<Longrightarrow> cz s1 0 = ch (CHR ''}'') \<Longrightarrow>
    jvalue sd s (JSON_OBJECT []) (drop 1 s1)"
| jobj: "cz s 0 = ch (CHR ''{'') \<Longrightarrow> jmembers sd (skip_space (drop 1 s)) ms r \<Longrightarrow> jvalue sd s (JSON_OBJECT ms) r"
| jlast: "jvalue sd s v s1 \<Longrightarrow> s2 = skip_space s1 \<Longrightarrow> cz s2 0 = ch (CHR '']'') \<Longrightarrow> jelems sd s [v] (drop 1 s2)"
| jmore: "jvalue sd s v s1 \<Longrightarrow> s2 = skip_space s1 \<Longrightarrow> cz s2 0 = ch (CHR '','') \<Longrightarrow>
    jelems sd (skip_space (drop 1 s2)) vs r \<Longrightarrow> jelems sd s (v # vs) r"
| jmlast: "jstring s k s1 \<Longrightarrow> s2 = skip_space s1 \<Longrightarrow> cz s2 0 = ch (CHR '':'') \<Longrightarrow>
    jvalue sd (skip_space (drop 1 s2)) v s3 \<Longrightarrow> s4 = skip_space s3 \<Longrightarrow> cz s4 0 = ch (CHR ''}'') \<Longrightarrow>
    jmembers sd s [(k, v)] (drop 1 s4)"
| jmmore: "jstring s k s1 \<Longrightarrow> s2 = skip_space s1 \<Longrightarrow> cz s2 0 = ch (CHR '':'') \<Longrightarrow>
    jvalue sd (skip_space (drop 1 s2)) v s3 \<Longrightarrow> s4 = skip_space s3 \<Longrightarrow> cz s4 0 = ch (CHR '','') \<Longrightarrow>
    jmembers sd (skip_space (drop 1 s4)) ms r \<Longrightarrow> jmembers sd s ((k, v) # ms) r"

text \<open>A whole text: a value with white space around it.\<close>

definition jtext :: "(byte list \<Rightarrow> 'd) \<Rightarrow> byte list \<Rightarrow> 'd json \<Rightarrow> bool" where
  "jtext sd s v \<longleftrightarrow> (\<exists>r. jvalue sd (skip_space s) v r \<and> skip_space r = [])"

section \<open>Lengths\<close>

lemma skip_space_length: "length (skip_space s) \<le> length s"
  by (simp add: skip_space_def length_dropWhile_le)

lemma cz_nonzero_Cons: "cz s 0 \<noteq> 0 \<Longrightarrow> \<exists>c t. s = c # t"
  by (cases s) (simp_all add: cz_def)

lemma drop1_length: "cz s 0 = c \<Longrightarrow> c \<noteq> 0 \<Longrightarrow> length (drop 1 s) < length s"
  by (cases s) (simp_all add: cz_def)

lemma jchars_length: "jchars s str r \<Longrightarrow> length r < length s"
  by (induction rule: jchars.induct) (auto dest: drop1_length parse_char_shorter)

lemma jstring_length: "jstring s str r \<Longrightarrow> length r < length s"
  using jchars_length drop1_length [of s] by (fastforce simp: jstring_def)

section \<open>Strings\<close>

definition sbo_ok :: "SB option \<Rightarrow> byte list \<Rightarrow> nat \<Rightarrow> bool" where
  "sbo_ok sbo cs n \<longleftrightarrow>
     (case sbo of None \<Rightarrow> True | Some sb \<Rightarrow> sb_holds sb cs n \<and> sb_cur sb + 4 \<le> sb_end sb)"

lemma sb_need_holds:
  assumes "sb_holds sb cs n" "k \<le> n + 14"
  shows "\<exists>sb'. sb_need junk sb k = Inr sb' \<and> sb_holds sb' cs n \<and> sb_cur sb' + k \<le> sb_end sb'"
  using sb_need_ok [of sb k junk] assms by (auto simp: jsb.holds_def sb_room_def)

lemma sb_write_holds:
  assumes "sb_holds sb cs (length d + n)" "sb_cur sb + length d \<le> sb_end sb"
  shows "\<exists>sb'. sb_write sb d = Inr sb' \<and> sb_holds sb' (cs @ d) n \<and>
    sb_cur sb' = sb_cur sb + length d \<and> sb_end sb' = sb_end sb"
  using sb_write_ok [of sb d] assms by (auto simp: jsb.holds_def sb_room_def)

lemma store_char_ok:
  assumes "sbo_ok sbo cs (length w + n)" "length w \<le> 4"
  shows "\<exists>sbo'. store_char junk sbo w = Inr sbo' \<and> sbo_ok sbo' (cs @ w) n \<and> (sbo' = None \<longleftrightarrow> sbo = None)"
proof (cases sbo)
  case None
  with assms show ?thesis by (simp add: store_char_def sbo_ok_def)
next
  case (Some sb)
  with assms have "sb_holds sb cs (length w + n)" "sb_cur sb + length w \<le> sb_end sb" by (auto simp: sbo_ok_def)
  from sb_write_holds [OF this] obtain s1 where
    s1: "sb_write sb w = Inr s1" "sb_holds s1 (cs @ w) n" by blast
  from sb_need_holds [OF s1(2), of 4 junk] obtain s2 where
    "sb_need junk s1 4 = Inr s2" "sb_holds s2 (cs @ w) n" "sb_cur s2 + 4 \<le> sb_end s2" by auto
  with s1(1) Some show ?thesis by (simp add: store_char_def sbo_ok_def)
qed

lemma jchars_quote: "cz s 0 = ch (CHR 0x22) \<Longrightarrow> jchars s str r \<longleftrightarrow> str = [] \<and> r = drop 1 s"
  using jchars.close [of s] by (auto elim: jchars.cases)

lemma jchars_char: "cz s 0 \<noteq> ch (CHR 0x22) \<Longrightarrow>
    jchars s str r \<longleftrightarrow> (\<exists>w s' str'. parse_char s = Inr (Some (w, s')) \<and> jchars s' str' r \<and> str = w @ str')"
  by (auto elim: jchars.cases intro: jchars.char)

text \<open>The loop either reads a string of the grammar, or there is none and it fails.\<close>

lemma string_loop_spec:
  assumes "sbo_ok sbo cs (length s)"
  shows "(\<exists>str r sbo'. jchars s str r \<and> string_loop junk sbo s = Inr (Some (sbo', r)) \<and>
       sbo_ok sbo' (cs @ str) (length r) \<and> (sbo' = None \<longleftrightarrow> sbo = None)) \<or>
     (\<forall>str r. \<not> jchars s str r) \<and> string_loop junk sbo s = Inr None"
  using assms
proof (induction "length s" arbitrary: s sbo cs rule: less_induct)
  case less
  show ?case
  proof (cases "cz s 0 = ch (CHR 0x22)")
    case True
    then have "sbo_ok sbo cs (length (drop 1 s))" using less.prems
      by (auto simp: sbo_ok_def intro: jsb.holds_mono split: option.splits)
    with True show ?thesis by (simp add: jchars_quote string_loop.simps [of junk sbo s])
  next
    case False
    from parse_char_ok [of s] obtain q where q: "parse_char s = Inr q"
      "case q of None \<Rightarrow> True | Some (w, r) \<Rightarrow> utf8_char w \<and> length w + length r \<le> length s"
      by (auto simp: char_step_ok_def)
    show ?thesis
    proof (cases q)
      case None
      with q False show ?thesis by (simp add: jchars_char string_loop.simps [of junk sbo s])
    next
      case (Some p)
      obtain w r where p: "p = (w, r)" by fastforce
      from q Some p have w: "parse_char s = Inr (Some (w, r))" "utf8_char w" "length w + length r \<le> length s" by auto
      have "sbo_ok sbo cs (length w + length r)" using less.prems w(3)
        by (auto simp: sbo_ok_def intro: jsb.holds_mono split: option.splits)
      from store_char_ok [OF this, of junk] w(2) obtain sbo1 where
        s1: "store_char junk sbo w = Inr sbo1" "sbo_ok sbo1 (cs @ w) (length r)" "sbo1 = None \<longleftrightarrow> sbo = None"
        by (auto simp: utf8_char_def)
      have e: "string_loop junk sbo s = string_loop junk sbo1 r"
        using False w(1) s1(1) by (simp add: string_loop.simps [of junk sbo s])
      from less.hyps [OF parse_char_shorter [OF w(1)] s1(2)] show ?thesis
        using False w(1) s1(3) unfolding e jchars_char [OF False] by auto
    qed
  qed
qed

lemma jchars_utf8: "jchars s str r \<Longrightarrow> 0 \<notin> set str \<and> utf8_validate str"
proof (induction rule: jchars.induct)
  case (char s w r str r1)
  from parse_char_ok [of s] char(2) have w: "utf8_char w" by (simp add: char_step_ok_def)
  then have "utf8_validate (w @ str) = utf8_validate str"
    by (subst utf8_validate.simps) (simp add: utf8_char_def)
  with w char.IH show ?case by (auto simp: utf8_char_def)
qed (simp add: utf8_validate.simps)

lemma parse_string_spec:
  assumes "length s < 2 ^ 30"
  shows "(\<exists>str r. jstring s str r \<and> parse_string junk out s = Inr (Some (when_out out str, r))) \<or>
     (\<forall>str r. \<not> jstring s str r) \<and> parse_string junk out s = Inr None"
proof (cases "cz s 0 = ch (CHR 0x22)")
  case q: True
  show ?thesis
  proof (cases out)
    case False
    from string_loop_spec [of None "[]" "drop 1 s" junk] q False show ?thesis
      by (auto simp: sbo_ok_def parse_string_def jstring_def)
  next
    case True
    have "length (drop 1 s) + 14 < 2 ^ 31" using assms by simp
    from sb_init_holds [OF this] obtain sb where sb: "sb_init junk = Inr sb" "sb_holds sb [] (length (drop 1 s))"
      by blast
    from sb_need_holds [OF sb(2), of 4 junk] obtain sb1 where
      sb1: "sb_need junk sb 4 = Inr sb1" "sbo_ok (Some sb1) [] (length (drop 1 s))" by (auto simp: sbo_ok_def)
    have fin: "sb_finish sb2 = Inr str" if "jchars (drop 1 s) str r" "sbo_ok (Some sb2) str n" for sb2 str r n
      using that sb_finish_holds jchars_utf8 by (auto simp: sbo_ok_def)
    from string_loop_spec [OF sb1(2), of junk] show ?thesis
      using q True sb(1) sb1(1) fin by (auto simp: parse_string_def jstring_def)
  qed
next
  case False
  then show ?thesis by (simp add: parse_string_def jstring_def)
qed

section \<open>Values\<close>

text \<open>A parser reads a relation: it returns the only value related to the text, or there is none and it
  fails. In particular it does not fault.\<close>

definition reads :: "('a \<Rightarrow> byte list \<Rightarrow> bool) \<Rightarrow> bool \<Rightarrow> ('a \<Rightarrow> 'b) \<Rightarrow> ('b option \<times> byte list) option res \<Rightarrow> bool" where
  "reads R out mk p \<longleftrightarrow>
     (\<exists>v r. (\<forall>v' r'. R v' r' \<longleftrightarrow> v' = v \<and> r' = r) \<and> p = Inr (Some (when_out out (mk v), r))) \<or>
     (\<forall>v r. \<not> R v r) \<and> p = Inr None"

lemma reads_cases:
  assumes "reads R out mk p"
  obtains (yes) v r where "\<And>v' r'. R v' r' \<longleftrightarrow> v' = v \<and> r' = r" "p = Inr (Some (when_out out (mk v), r))"
    | (no) "\<And>v r. \<not> R v r" "p = Inr None"
  using assms unfolding reads_def by blast

lemma jchars_det: "jchars s str r \<Longrightarrow> jchars s str' r' \<Longrightarrow> str' = str \<and> r' = r"
proof (induction arbitrary: str' r' rule: jchars.induct)
  case (char s w r str r1)
  from char.prems obtain str2 where "jchars r str2 r'" "str' = w @ str2"
    unfolding jchars_char [OF char(1)] char(2) by auto
  with char.IH show ?case by blast
qed (simp add: jchars_quote)

lemma parse_string_reads:
  assumes "length s < 2 ^ 30"
  shows "reads (jstring s) out id (parse_string junk out s)"
proof -
  have "jstring s str r \<Longrightarrow> jstring s str' r' \<longleftrightarrow> str' = str \<and> r' = r" for str r str' r'
    using jchars_det by (auto simp: jstring_def)
  with parse_string_spec [OF assms, of junk out] show ?thesis unfolding reads_def id_apply by meson
qed

lemma expect_literal_first: "expect_literal s (c # cs) = Some r \<Longrightarrow> cz s 0 = c"
  by (cases s) (auto simp: cz_def split: if_splits)

lemma expect_literal_length: "expect_literal s cs = Some r \<Longrightarrow> length s = length cs + length r"
  by (induction s cs rule: expect_literal.induct) (auto split: if_splits)

lemma digits1_length: "digits1 s = Some r \<Longrightarrow> length r < length s"
  by (cases s) (auto simp: digits1_def cz_def is_digit_def split: if_splits intro: le_less_trans [OF length_dropWhile_le])

lemma num_int_length: "num_int s = Some r \<Longrightarrow> length r < length s"
  using digits1_length [of s r] drop1_length [of s] by (auto simp: num_int_def split: if_splits)

lemma num_frac_length: "num_frac s = Some r \<Longrightarrow> length r \<le> length s"
  using digits1_length [of "drop 1 s" r] by (auto simp: num_frac_def split: if_splits)

lemma num_exp_length: "num_exp s = Some r \<Longrightarrow> length r \<le> length s"
  by (auto simp: num_exp_def Let_def split: if_splits dest!: digits1_length)

lemma number_end_length: "number_end s = Some r \<Longrightarrow> length r < length s"
  by (auto simp: number_end_def num_sign_def split: option.splits if_splits
      dest!: num_int_length num_frac_length num_exp_length)

lemma number_end_first: "number_end s = Some r \<Longrightarrow> cz s 0 = ch (CHR ''-'') \<or> is_digit (cz s 0)"
  by (auto simp: number_end_def num_sign_def num_int_def digits1_def is_digit_def split: if_splits option.splits)

lemmas literal_firsts = expect_literal_first [of _ "ch (CHR ''n'')" "bs ''ull''"]
  expect_literal_first [of _ "ch (CHR ''f'')" "bs ''alse''"] expect_literal_first [of _ "ch (CHR ''t'')" "bs ''rue''"]

lemma jvalue_length:
  "jvalue sd s v r \<Longrightarrow> length r < length s"
  "jelems sd s vs r \<Longrightarrow> length r < length s"
  "jmembers sd s ms r \<Longrightarrow> length r < length s"
proof (induction rule: jvalue_jelems_jmembers.inducts)
  case (jnull s r)
  then show ?case using expect_literal_length [OF jnull] by (simp add: bs_def)
next
  case (jfalse s r)
  then show ?case using expect_literal_length [OF jfalse] by (simp add: bs_def)
next
  case (jtrue s r)
  then show ?case using expect_literal_length [OF jtrue] by (simp add: bs_def)
next
  case (jarr0 s s1)
  then show ?case using drop1_length [of s] skip_space_length [of "drop 1 s"] by auto
next
  case (jarr s vs r)
  then show ?case using drop1_length [of s] skip_space_length [of "drop 1 s"] by auto
next
  case (jobj0 s s1)
  then show ?case using drop1_length [of s] skip_space_length [of "drop 1 s"] by auto
next
  case (jobj s ms r)
  then show ?case using drop1_length [of s] skip_space_length [of "drop 1 s"] by auto
next
  case (jlast s v s1 s2)
  then show ?case using drop1_length [of s2] skip_space_length [of s1] by auto
next
  case (jmore s v s1 s2 vs r)
  then show ?case using skip_space_length [of s1] skip_space_length [of "drop 1 s2"] by auto
next
  case (jmlast s k s1 s2 v s3 s4)
  then show ?case using skip_space_length [of s1] skip_space_length [of "drop 1 s2"] skip_space_length [of s3]
      jstring_length [OF jmlast(1)] by auto
next
  case (jmmore s k s1 s2 v s3 s4 ms r)
  then show ?case using skip_space_length [of s1] skip_space_length [of "drop 1 s2"] skip_space_length [of s3]
      skip_space_length [of "drop 1 s4"] jstring_length [OF jmmore(1)] by auto
qed (auto dest: jstring_length number_end_length)

inductive_cases jvalue_E: "jvalue sd s v r"

lemma jelems_iff:
  "jelems sd s vs r \<longleftrightarrow> (\<exists>v s1. jvalue sd s v s1 \<and>
     (cz (skip_space s1) 0 = ch (CHR '']'') \<and> vs = [v] \<and> r = drop 1 (skip_space s1) \<or>
      cz (skip_space s1) 0 = ch (CHR '','') \<and>
        (\<exists>vs'. vs = v # vs' \<and> jelems sd (skip_space (drop 1 (skip_space s1))) vs' r)))"
  by (subst jelems.simps) blast

lemma jmembers_iff:
  "jmembers sd s ms r \<longleftrightarrow> (\<exists>k s1 v s3. jstring s k s1 \<and> cz (skip_space s1) 0 = ch (CHR '':'') \<and>
     jvalue sd (skip_space (drop 1 (skip_space s1))) v s3 \<and>
     (cz (skip_space s3) 0 = ch (CHR ''}'') \<and> ms = [(k, v)] \<and> r = drop 1 (skip_space s3) \<or>
      cz (skip_space s3) 0 = ch (CHR '','') \<and>
        (\<exists>ms'. ms = (k, v) # ms' \<and> jmembers sd (skip_space (drop 1 (skip_space s3))) ms' r)))"
    (is "_ \<longleftrightarrow> ?R")
proof
  assume "jmembers sd s ms r"
  then show ?R
  proof cases
    case (jmlast k s1 s2 v s3 s4)
    then show ?thesis by (intro exI [of _ k] exI [of _ s1] exI [of _ v] exI [of _ s3]) simp
  next
    case (jmmore k s1 s2 v s3 s4 ms')
    then show ?thesis by (intro exI [of _ k] exI [of _ s1] exI [of _ v] exI [of _ s3]) simp
  qed
next
  assume ?R
  then obtain k s1 v s3 where a: "jstring s k s1" "cz (skip_space s1) 0 = ch (CHR '':'')"
      "jvalue sd (skip_space (drop 1 (skip_space s1))) v s3" and
    b: "cz (skip_space s3) 0 = ch (CHR ''}'') \<and> ms = [(k, v)] \<and> r = drop 1 (skip_space s3) \<or>
      cz (skip_space s3) 0 = ch (CHR '','') \<and>
        (\<exists>ms'. ms = (k, v) # ms' \<and> jmembers sd (skip_space (drop 1 (skip_space s3))) ms' r)" by blast
  from b show "jmembers sd s ms r"
    using jmlast [OF a(1) refl a(2,3) refl] jmmore [OF a(1) refl a(2,3) refl] by blast
qed

lemma jvalue_first:
  assumes "jvalue sd s v r"
  shows "cz s 0 = ch (CHR ''n'') \<and> v = JSON_NULL \<and> expect_literal s (bs ''null'') = Some r \<or>
    cz s 0 = ch (CHR ''f'') \<and> v = JSON_BOOL False \<and> expect_literal s (bs ''false'') = Some r \<or>
    cz s 0 = ch (CHR ''t'') \<and> v = JSON_BOOL True \<and> expect_literal s (bs ''true'') = Some r \<or>
    cz s 0 = ch (CHR 0x22) \<and> (\<exists>str. v = JSON_STRING str \<and> jstring s str r) \<or>
    cz s 0 = ch (CHR ''['') \<and> (\<exists>vs. v = JSON_ARRAY vs \<and>
      (cz (skip_space (drop 1 s)) 0 = ch (CHR '']'') \<and> vs = [] \<and> r = drop 1 (skip_space (drop 1 s)) \<or>
       jelems sd (skip_space (drop 1 s)) vs r)) \<or>
    cz s 0 = ch (CHR ''{'') \<and> (\<exists>ms. v = JSON_OBJECT ms \<and>
      (cz (skip_space (drop 1 s)) 0 = ch (CHR ''}'') \<and> ms = [] \<and> r = drop 1 (skip_space (drop 1 s)) \<or>
       jmembers sd (skip_space (drop 1 s)) ms r)) \<or>
    (cz s 0 = ch (CHR ''-'') \<or> is_digit (cz s 0)) \<and> v = JSON_NUMBER (sd s) \<and> number_end s = Some r"
  using assms
  by (cases rule: jvalue_E; simp add: bs_def)
    (auto simp: jstring_def dest: literal_firsts [simplified bs_def, simplified] number_end_first)

lemma jvalue_by_first:
  "cz s 0 = ch (CHR ''n'') \<Longrightarrow> jvalue sd s v r \<longleftrightarrow> v = JSON_NULL \<and> expect_literal s (bs ''null'') = Some r"
  "cz s 0 = ch (CHR ''f'') \<Longrightarrow> jvalue sd s v r \<longleftrightarrow> v = JSON_BOOL False \<and> expect_literal s (bs ''false'') = Some r"
  "cz s 0 = ch (CHR ''t'') \<Longrightarrow> jvalue sd s v r \<longleftrightarrow> v = JSON_BOOL True \<and> expect_literal s (bs ''true'') = Some r"
  "cz s 0 = ch (CHR 0x22) \<Longrightarrow> jvalue sd s v r \<longleftrightarrow> (\<exists>str. v = JSON_STRING str \<and> jstring s str r)"
  "cz s 0 = ch (CHR ''['') \<Longrightarrow> jvalue sd s v r \<longleftrightarrow> (\<exists>vs. v = JSON_ARRAY vs \<and>
      (cz (skip_space (drop 1 s)) 0 = ch (CHR '']'') \<and> vs = [] \<and> r = drop 1 (skip_space (drop 1 s)) \<or>
       jelems sd (skip_space (drop 1 s)) vs r))"
  "cz s 0 = ch (CHR ''{'') \<Longrightarrow> jvalue sd s v r \<longleftrightarrow> (\<exists>ms. v = JSON_OBJECT ms \<and>
      (cz (skip_space (drop 1 s)) 0 = ch (CHR ''}'') \<and> ms = [] \<and> r = drop 1 (skip_space (drop 1 s)) \<or>
       jmembers sd (skip_space (drop 1 s)) ms r))"
  subgoal by (rule iffI, drule jvalue_first, simp add: is_digit_def, blast intro: jnull)
  subgoal by (rule iffI, drule jvalue_first, simp add: is_digit_def, blast intro: jfalse)
  subgoal by (rule iffI, drule jvalue_first, simp add: is_digit_def, blast intro: jtrue)
  subgoal by (rule iffI, drule jvalue_first, simp add: is_digit_def, blast intro: jstr)
  subgoal by (rule iffI, drule jvalue_first, simp add: is_digit_def, blast intro: jarr jarr0)
  subgoal by (rule iffI, drule jvalue_first, simp add: is_digit_def, blast intro: jobj jobj0)
  done

lemma jvalue_number:
  assumes "cz s 0 \<notin> {ch (CHR ''n''), ch (CHR ''f''), ch (CHR ''t''), ch (CHR 0x22), ch (CHR ''[''), ch (CHR ''{'')}"
  shows "jvalue sd s v r \<longleftrightarrow> v = JSON_NUMBER (sd s) \<and> number_end s = Some r"
  using assms jvalue_first [of sd s v r] by (blast intro: jnum)

lemma not_jelems_close: "cz s 0 = ch (CHR '']'') \<Longrightarrow> \<not> jelems sd s vs r"
  unfolding jelems_iff [of sd s] by (auto dest!: jvalue_first simp: is_digit_def)

lemma not_jmembers_close: "cz s 0 = ch (CHR ''}'') \<Longrightarrow> \<not> jmembers sd s ms r"
  unfolding jmembers_iff [of sd s] by (auto simp: jstring_def)

lemma reads_one:
  assumes "\<And>v' r'. R v' r' \<longleftrightarrow> v' = v \<and> r' = r"
  shows "reads R out mk (Inr (Some (when_out out (mk v), r)))"
  using assms unfolding reads_def by blast

lemma reads_fail: "(\<And>v r. \<not> R v r) \<Longrightarrow> reads R out mk (Inr None)"
  by (simp add: reads_def)

lemma reads_map:
  assumes "reads R out mk p" "\<And>v r. R' v r \<longleftrightarrow> (\<exists>x. v = f x \<and> R x r)" "\<And>x. out \<Longrightarrow> mk x = g (f x)"
  shows "reads R' out g p"
  using assms(1)
proof (cases rule: reads_cases)
  case (yes v r)
  then have "R' v' r' \<longleftrightarrow> v' = f v \<and> r' = r" for v' r' unfolding assms(2) by auto
  from reads_one [OF this, of out g] yes(2) show ?thesis by (cases out) (simp_all add: assms(3))
next
  case no
  then have "\<not> R' v r" for v r unfolding assms(2) by blast
  with no(2) show ?thesis by (simp add: reads_fail)
qed

lemma parse_literal_reads:
  assumes "\<And>v' r. R v' r \<longleftrightarrow> v' = v \<and> expect_literal s str = Some r"
  shows "reads R out id (parse_literal out s str v)"
proof (cases "expect_literal s str")
  case None
  then show ?thesis by (simp add: parse_literal_def reads_fail assms)
next
  case (Some r)
  then show ?thesis using reads_one [of R v r out id] by (auto simp: parse_literal_def assms)
qed

lemma value_body_reads:
  assumes len: "length s < 2 ^ 30"
    and al: "\<And>s'. length s' < length s \<Longrightarrow> reads (jelems sd s') out JSON_ARRAY (al [] s')"
    and ol: "\<And>s'. length s' < length s \<Longrightarrow> reads (jmembers sd s') out JSON_OBJECT (ol [] s')"
  shows "reads (jvalue sd s) out id (value_body al ol junk sd out s)"
proof -
  let ?s1 = "skip_space (drop 1 s)"
  consider (n) "cz s 0 = ch (CHR ''n'')" | (f) "cz s 0 = ch (CHR ''f'')" | (t) "cz s 0 = ch (CHR ''t'')"
    | (q) "cz s 0 = ch (CHR 0x22)" | (a) "cz s 0 = ch (CHR ''['')" | (b) "cz s 0 = ch (CHR ''{'')"
    | (d) "cz s 0 \<notin> {ch (CHR ''n''), ch (CHR ''f''), ch (CHR ''t''), ch (CHR 0x22), ch (CHR ''[''), ch (CHR ''{'')}"
    by blast
  then show ?thesis
  proof cases
    case n
    from parse_literal_reads [OF jvalue_by_first(1) [OF n]] n show ?thesis by (simp add: value_body_def)
  next
    case f
    from parse_literal_reads [OF jvalue_by_first(2) [OF f]] f show ?thesis by (simp add: value_body_def)
  next
    case t
    from parse_literal_reads [OF jvalue_by_first(3) [OF t]] t show ?thesis by (simp add: value_body_def)
  next
    case q
    have "value_body al ol junk sd out s = rbind (parse_string junk out s) (\<lambda>p.
        case p of None \<Rightarrow> Inr None | Some (str, r) \<Rightarrow> Inr (Some (map_option JSON_STRING str, r)))"
      using q by (simp add: value_body_def)
    moreover have "reads (jstring s) out JSON_STRING (rbind (parse_string junk out s) (\<lambda>p.
        case p of None \<Rightarrow> Inr None | Some (str, r) \<Rightarrow> Inr (Some (map_option JSON_STRING str, r))))"
      using parse_string_reads [OF len, of out junk]
    proof (cases rule: reads_cases)
      case (yes v r)
      then have "reads (jstring s) out JSON_STRING (Inr (Some (when_out out (JSON_STRING v), r)))"
        by (intro reads_one)
      with yes(2) show ?thesis by (cases out) simp_all
    qed (simp add: reads_fail)
    ultimately have "reads (jstring s) out JSON_STRING (value_body al ol junk sd out s)" by simp
    then show ?thesis by (rule reads_map [where f = JSON_STRING]) (simp_all add: jvalue_by_first(4) [OF q])
  next
    case a
    then have v: "value_body al ol junk sd out s = parse_array al out s" by (simp add: value_body_def)
    show ?thesis
    proof (cases "cz ?s1 0 = ch (CHR '']'')")
      case True
      then have "jvalue sd s v r \<longleftrightarrow> v = JSON_ARRAY [] \<and> r = drop 1 ?s1" for v r
        unfolding jvalue_by_first(5) [OF a] using not_jelems_close by blast
      from reads_one [OF this, of out id] show ?thesis using a True unfolding v by (simp add: parse_array_def)
    next
      case False
      have "length ?s1 < length s" using drop1_length [OF a] skip_space_length [of "drop 1 s"] by simp
      from reads_map [OF al [OF this], of "jvalue sd s" JSON_ARRAY id] have "reads (jvalue sd s) out id (al [] ?s1)"
        using False unfolding jvalue_by_first(5) [OF a] by simp
      then show ?thesis using a False unfolding v by (simp add: parse_array_def)
    qed
  next
    case b
    then have v: "value_body al ol junk sd out s = parse_object ol out s" by (simp add: value_body_def)
    show ?thesis
    proof (cases "cz ?s1 0 = ch (CHR ''}'')")
      case True
      then have "jvalue sd s v r \<longleftrightarrow> v = JSON_OBJECT [] \<and> r = drop 1 ?s1" for v r
        unfolding jvalue_by_first(6) [OF b] using not_jmembers_close by blast
      from reads_one [OF this, of out id] show ?thesis using b True unfolding v by (simp add: parse_object_def)
    next
      case False
      have "length ?s1 < length s" using drop1_length [OF b] skip_space_length [of "drop 1 s"] by simp
      from reads_map [OF ol [OF this], of "jvalue sd s" JSON_OBJECT id] have "reads (jvalue sd s) out id (ol [] ?s1)"
        using False unfolding jvalue_by_first(6) [OF b] by simp
      then show ?thesis using b False unfolding v by (simp add: parse_object_def)
    qed
  next
    case d
    then have v: "value_body al ol junk sd out s = (case number_end s of None \<Rightarrow> Inr None
        | Some r \<Rightarrow> Inr (Some (when_out out (JSON_NUMBER (sd s)), r)))"
      by (cases out) (simp_all add: value_body_def parse_number_def split: option.splits)
    show ?thesis
    proof (cases "number_end s")
      case None
      then show ?thesis unfolding v using jvalue_number [OF d, of sd] by (simp add: reads_fail)
    next
      case (Some r)
      then show ?thesis unfolding v using jvalue_number [OF d, of sd]
          reads_one [of "jvalue sd s" "JSON_NUMBER (sd s)" r out id] by auto
    qed
  qed
qed

lemma array_turn_reads:
  assumes pv: "reads (jvalue sd s) out id (pv s)"
    and al: "\<And>s' acc'. length s' < length s \<Longrightarrow>
      reads (jelems sd s') out (\<lambda>vs. JSON_ARRAY (acc' @ vs)) (al acc' s')"
  shows "reads (jelems sd s) out (\<lambda>vs. JSON_ARRAY (acc @ vs)) (array_turn pv al out acc s)"
  using pv
proof (cases rule: reads_cases)
  case no
  then show ?thesis by (simp add: array_turn_def jelems_iff [of sd s] reads_fail)
next
  case (yes v s1)
  let ?s2 = "skip_space s1" and ?acc = "acc @ opt_list (when_out out v)"
  let ?s3 = "skip_space (drop 1 ?s2)"
  have lt: "length s1 < length s" using yes(1) [of v s1] by (simp add: jvalue_length)
  have iff: "jelems sd s vs r \<longleftrightarrow> cz ?s2 0 = ch (CHR '']'') \<and> vs = [v] \<and> r = drop 1 ?s2 \<or>
      cz ?s2 0 = ch (CHR '','') \<and> (\<exists>vs'. vs = v # vs' \<and> jelems sd ?s3 vs' r)" for vs r
    unfolding jelems_iff [of sd s vs r] yes(1) by blast
  have turn: "array_turn pv al out acc s =
      (if cz ?s2 0 = ch (CHR '']'') then Inr (Some (when_out out (JSON_ARRAY ?acc), drop 1 ?s2))
       else if cz ?s2 0 \<noteq> ch (CHR '','') then Inr None else al ?acc ?s3)"
    unfolding array_turn_def yes(2) by (simp add: Let_def)
  consider (close) "cz ?s2 0 = ch (CHR '']'')" | (comma) "cz ?s2 0 = ch (CHR '','')"
    | (bad) "cz ?s2 0 \<noteq> ch (CHR '']'')" "cz ?s2 0 \<noteq> ch (CHR '','')" by blast
  then show ?thesis
  proof cases
    case close
    then have "jelems sd s vs r \<longleftrightarrow> vs = [v] \<and> r = drop 1 ?s2" for vs r unfolding iff by simp
    from reads_one [OF this, of out "\<lambda>vs. JSON_ARRAY (acc @ vs)"] close show ?thesis
      unfolding turn by (cases out) (simp_all add: opt_list_def)
  next
    case comma
    have "length ?s3 < length s"
      using lt skip_space_length [of s1] skip_space_length [of "drop 1 ?s2"] by simp
    from al [OF this, of "?acc"] have "reads (jelems sd s) out (\<lambda>vs. JSON_ARRAY (acc @ vs)) (al ?acc ?s3)"
      by (rule reads_map [where f = "\<lambda>vs. v # vs"]) (use comma in \<open>simp_all add: iff opt_list_def\<close>)
    with comma show ?thesis unfolding turn by simp
  next
    case bad
    then show ?thesis unfolding turn by (simp add: reads_fail iff)
  qed
qed

lemma object_turn_reads:
  assumes len: "length s < 2 ^ 30"
    and pv: "\<And>s'. length s' < length s \<Longrightarrow> reads (jvalue sd s') out id (pv s')"
    and ol: "\<And>s' acc'. length s' < length s \<Longrightarrow>
      reads (jmembers sd s') out (\<lambda>ms. JSON_OBJECT (acc' @ ms)) (ol acc' s')"
  shows "reads (jmembers sd s) out (\<lambda>ms. JSON_OBJECT (acc @ ms)) (object_turn pv ol junk out acc s)"
  using parse_string_reads [OF len, of out junk]
proof (cases rule: reads_cases)
  case no
  then show ?thesis by (simp add: object_turn_def jmembers_iff [of sd s] reads_fail)
next
  case (yes k s1)
  let ?s2 = "skip_space s1"
  let ?t = "skip_space (drop 1 ?s2)"
  have lt: "length s1 < length s" using yes(1) [of k s1] by (simp add: jstring_length)
  show ?thesis
  proof (cases "cz ?s2 0 = ch (CHR '':'')")
    case False
    then show ?thesis unfolding object_turn_def yes(2) by (simp add: jmembers_iff [of sd s] yes(1) reads_fail)
  next
    case colon: True
    have lt2: "length ?t < length s"
      using lt skip_space_length [of s1] skip_space_length [of "drop 1 ?s2"] by simp
    from pv [OF this] show ?thesis
    proof (cases rule: reads_cases)
      case no
      with colon show ?thesis
        unfolding object_turn_def yes(2) by (simp add: jmembers_iff [of sd s] yes(1) reads_fail)
    next
      case v: (yes v s3)
      let ?s4 = "skip_space s3" and ?acc = "acc @ opt_member (when_out out k) (when_out out v)"
      let ?s5 = "skip_space (drop 1 ?s4)"
      have lt3: "length s3 < length s" using v(1) [of v s3] lt2 by (auto dest: jvalue_length)
      have iff: "jmembers sd s ms r \<longleftrightarrow> cz ?s4 0 = ch (CHR ''}'') \<and> ms = [(k, v)] \<and> r = drop 1 ?s4 \<or>
          cz ?s4 0 = ch (CHR '','') \<and> (\<exists>ms'. ms = (k, v) # ms' \<and> jmembers sd ?s5 ms' r)" for ms r
        using colon v(1) by (simp add: jmembers_iff [of sd s ms r] yes(1))
      have turn: "object_turn pv ol junk out acc s =
          (if cz ?s4 0 = ch (CHR ''}'') then Inr (Some (when_out out (JSON_OBJECT ?acc), drop 1 ?s4))
           else if cz ?s4 0 \<noteq> ch (CHR '','') then Inr None else ol ?acc ?s5)"
        unfolding object_turn_def yes(2) using colon v(2) by (simp add: Let_def)
      consider (close) "cz ?s4 0 = ch (CHR ''}'')" | (comma) "cz ?s4 0 = ch (CHR '','')"
        | (bad) "cz ?s4 0 \<noteq> ch (CHR ''}'')" "cz ?s4 0 \<noteq> ch (CHR '','')" by blast
      then show ?thesis
      proof cases
        case close
        then have "jmembers sd s ms r \<longleftrightarrow> ms = [(k, v)] \<and> r = drop 1 ?s4" for ms r unfolding iff by simp
        from reads_one [OF this, of out "\<lambda>ms. JSON_OBJECT (acc @ ms)"] close show ?thesis
          unfolding turn by (cases out) simp_all
      next
        case comma
        have "length ?s5 < length s"
          using lt3 skip_space_length [of s3] skip_space_length [of "drop 1 ?s4"] by simp
        from ol [OF this, of "?acc"] have "reads (jmembers sd s) out (\<lambda>ms. JSON_OBJECT (acc @ ms)) (ol ?acc ?s5)"
          by (rule reads_map [where f = "\<lambda>ms. (k, v) # ms"]) (use comma in \<open>simp_all add: iff\<close>)
        with comma show ?thesis unfolding turn by simp
      next
        case bad
        then show ?thesis unfolding turn by (simp add: reads_fail iff)
      qed
    qed
  qed
qed

text \<open>With one unit of fuel for each of at most two calls for a byte, the parsers read the grammar.\<close>

lemma parse_value_reads:
  "\<lbrakk>length s < 2 ^ 30; 2 * length s + 1 \<le> n\<rbrakk> \<Longrightarrow> reads (jvalue sd s) out id (parse_value junk sd out n s)"
  "\<lbrakk>length s < 2 ^ 30; 2 * length s + 2 \<le> n\<rbrakk> \<Longrightarrow>
     reads (jelems sd s) out (\<lambda>vs. JSON_ARRAY (acc @ vs)) (array_loop junk sd out n acc s)"
  "\<lbrakk>length s < 2 ^ 30; 2 * length s + 2 \<le> n\<rbrakk> \<Longrightarrow>
     reads (jmembers sd s) out (\<lambda>ms. JSON_OBJECT (acc' @ ms)) (object_loop junk sd out n acc' s)"
proof (induction n arbitrary: s acc acc')
  case (Suc n)
  {
    case 1
    then have "2 * length s' + 2 \<le> n" "length s' < 2 ^ 30" if "length s' < length s" for s' :: "byte list" using that by auto
    then show ?case unfolding parse_value.simps(2)
      using Suc.IH(2) [of _ "[]"] Suc.IH(3) [of _ "[]"] 1(1) by (intro value_body_reads) simp_all
  next
    case 2
    then show ?case unfolding array_loop.simps(2)
      by (intro array_turn_reads) (simp_all add: Suc.IH(1) Suc.IH(2))
  next
    case 3
    then show ?case unfolding object_loop.simps(2)
      by (intro object_turn_reads) (simp_all add: Suc.IH(1) Suc.IH(3))
  }
qed simp_all

section \<open>Whole texts\<close>

text \<open>Strings as C strings of valid UTF-8, everywhere in a value.\<close>

definition str_ok :: "byte list \<Rightarrow> bool" where
  "str_ok s \<longleftrightarrow> 0 \<notin> set s \<and> utf8_validate s"

fun json_ok :: "'d json \<Rightarrow> bool" where
  "json_ok (JSON_STRING s) \<longleftrightarrow> str_ok s"
| "json_ok (JSON_ARRAY vs) \<longleftrightarrow> (\<forall>v \<in> set vs. json_ok v)"
| "json_ok (JSON_OBJECT ms) \<longleftrightarrow> (\<forall>(k, v) \<in> set ms. str_ok k \<and> json_ok v)"
| "json_ok _ \<longleftrightarrow> True"

lemma jstring_ok: "jstring s str r \<Longrightarrow> str_ok str"
  using jchars_utf8 by (auto simp: jstring_def str_ok_def)

lemma jvalue_ok:
  "jvalue sd s v r \<Longrightarrow> json_ok v"
  "jelems sd s vs r \<Longrightarrow> \<forall>v \<in> set vs. json_ok v"
  "jmembers sd s ms r \<Longrightarrow> \<forall>(k, v) \<in> set ms. str_ok k \<and> json_ok v"
  by (induction rule: jvalue_jelems_jmembers.inducts) (auto dest: jstring_ok)

text \<open>What is accepted does not depend on the meaning of numbers.\<close>

lemma jvalue_any_number:
  "jvalue sd s v r \<Longrightarrow> \<exists>v'. jvalue sd' s v' r"
  "jelems sd s vs r \<Longrightarrow> \<exists>vs'. jelems sd' s vs' r"
  "jmembers sd s ms r \<Longrightarrow> \<exists>ms'. jmembers sd' s ms' r"
  by (induction rule: jvalue_jelems_jmembers.inducts) (blast intro: jvalue_jelems_jmembers.intros)+

lemma jtext_any_number: "(\<exists>v. jtext sd s v) \<longleftrightarrow> (\<exists>v. jtext sd' s v)"
  unfolding jtext_def using jvalue_any_number(1) [of sd _ _ _ sd'] jvalue_any_number(1) [of sd' _ _ _ sd] by blast

lemma parse_text_reads:
  assumes "length s < 2 ^ 30"
  shows "reads (jvalue sd (skip_space s)) out id (parse_value junk sd out (parse_fuel s) (skip_space s))"
proof -
  have "length (skip_space s) < 2 ^ 30" "2 * length (skip_space s) + 1 \<le> parse_fuel s"
    using assms skip_space_length [of s] by (auto simp: parse_fuel_def)
  then show ?thesis by (rule parse_value_reads(1))
qed

lemma json_decode_grammar:
  assumes "length s < 2 ^ 30"
  shows "\<exists>ret. json_decode junk sd s = Inr ret \<and> (\<forall>v. ret = Some v \<longleftrightarrow> jtext sd s v)"
  using parse_text_reads [OF assms, of sd True junk]
proof (cases rule: reads_cases)
  case (yes v r)
  then show ?thesis by (auto simp: json_decode_def jtext_def)
next
  case no
  then show ?thesis by (simp add: json_decode_def jtext_def)
qed

lemma json_validate_grammar:
  assumes "length s < 2 ^ 30"
  shows "json_validate junk s = Inr (\<exists>v. jtext (\<lambda>_. ()) s v)"
  using parse_text_reads [OF assms, of "\<lambda>_. ()" False junk]
proof (cases rule: reads_cases)
  case (yes v r)
  then show ?thesis by (simp add: json_validate_def jtext_def)
next
  case no
  then show ?thesis by (simp add: json_validate_def jtext_def)
qed

section \<open>Properties\<close>



text \<open>(C4) \<open>json_validate\<close>, which parses into a four-byte throwaway buffer and builds no nodes, accepts
  exactly the texts that \<open>json_decode\<close> accepts, whatever \<open>strtod\<close> does with the numbers.\<close>

theorem json_validate_decode:
  assumes "length s < 2 ^ 30"
  shows "json_validate junk s = Inr (\<exists>v. json_decode junk' sd s = Inr (Some v))"
proof -
  from json_decode_grammar [OF assms, of junk' sd] have "(\<exists>v. json_decode junk' sd s = Inr (Some v)) \<longleftrightarrow> (\<exists>v. jtext sd s v)"
    by auto
  also have "\<dots> \<longleftrightarrow> (\<exists>v. jtext (\<lambda>_. ()) s v)" by (rule jtext_any_number)
  finally show ?thesis using json_validate_grammar [OF assms] by simp
qed

theorem json_validate_decode_witness:
  "json_validate (\<lambda>_. 1) (bs ''{}x'') = Inr (\<exists>v. json_decode (\<lambda>_. 2) length (bs ''{}x'') = Inr (Some v))"
  by (rule json_validate_decode) (simp add: bs_def)

text \<open>(C5) Every string and every object key of a decoded tree is a valid UTF-8 C string without an embedded
  NUL, so the assertions of the emitter hold on it.\<close>

theorem json_decode_strings_ok:
  assumes "length s < 2 ^ 30" and "json_decode junk sd s = Inr (Some v)"
  shows "json_ok v"
proof -
  from json_decode_grammar [OF assms(1), of junk sd] assms(2) have "jtext sd s v" by auto
  then show ?thesis using jvalue_ok(1) by (auto simp: jtext_def)
qed

theorem json_decode_strings_ok_witness:
  "json_decode (\<lambda>_. 7) length (bs ''{'' @ [34, 92, 110, 34] @ bs '': 12}'') =
     Inr (Some (JSON_OBJECT [([10], JSON_NUMBER 3)])) \<and>
   json_ok (JSON_OBJECT [([10 :: byte], JSON_NUMBER (3::nat))])"
proof -
  have d: "json_decode (\<lambda>_. 7) length (bs ''{'' @ [34, 92, 110, 34] @ bs '': 12}'') =
     Inr (Some (JSON_OBJECT [([10], JSON_NUMBER 3)]))" by code_simp
  with json_decode_strings_ok [OF _ d] show ?thesis by (simp add: bs_def)
qed

end
