(* ===== verification/Ccan_Emit.thy ===== *)
theory Ccan_Emit
  imports Ccan_Grammar
begin

text \<open>
  The emitter of \<open>base/ccan_json.c\<close>: \<open>json_encode\<close>, \<open>json_stringify\<close> and \<open>json_encode_string\<close> over the
  string buffer, with the text they produce as a plain function and the round trip through the
  parser. \<open>fmt\<close> stands for \<open>sprintf\<close> with the format \<open>%.16g\<close>.
\<close>

section \<open>Strings\<close>

text \<open>One turn of the loop of \<open>emit_string\<close>: the escape text for the next character, and the string behind
  it. \<open>escape_unicode\<close> is the local constant of that name.\<close>

definition escape_unicode :: bool where "escape_unicode = False"

definition backslash :: byte where "backslash = ch (CHR 0x5C)"

definition emit_unicode :: "u32 \<Rightarrow> byte list res" where
  "emit_unicode u =
     (if u \<le> 0xFFFF then Inr ([backslash, ch (CHR ''u'')] @ write_hex16 (ucast u))
      else if \<not> u \<le> 0x10FFFF then Inl Assert_failed
      else rbind (to_surrogate_pair u) (\<lambda>(uc, lc).
        Inr ([backslash, ch (CHR ''u'')] @ write_hex16 uc @ [backslash, ch (CHR ''u'')] @ write_hex16 lc)))"

definition emit_char :: "byte list \<Rightarrow> (byte list \<times> byte list) res" where
  "emit_char s =
     (let c = cz s 0; r = drop 1 s in
      if c = ch (CHR 0x22) then Inr ([backslash, ch (CHR 0x22)], r)
      else if c = backslash then Inr ([backslash, backslash], r)
      else if c = 8 then Inr ([backslash, ch (CHR ''b'')], r)
      else if c = 12 then Inr ([backslash, ch (CHR ''f'')], r)
      else if c = 10 then Inr ([backslash, ch (CHR ''n'')], r)
      else if c = 13 then Inr ([backslash, ch (CHR ''r'')], r)
      else if c = 9 then Inr ([backslash, ch (CHR ''t'')], r)
      else let len = utf8_validate_cz s in
        if len = 0 then Inl Assert_failed
        else if c < 0x1F \<or> (c \<ge> 0x80 \<and> escape_unicode) then
          rbind (utf8_read_char s) (\<lambda>(u, n). rbind (emit_unicode u) (\<lambda>w. Inr (w, drop n s)))
        else Inr (take len s, drop len s))"

lemma emit_char_shorter:
  assumes "emit_char s = Inr (w, r)" "s \<noteq> []"
  shows "length r < length s"
proof -
  have "length s > 0" using assms(2) by simp
  with assms(1) show ?thesis
    unfolding emit_char_def utf8_read_char_def Let_def
    by (auto split: if_splits prod.splits simp: rbind_eq_Inr)
qed

function emit_string_loop :: "(nat \<Rightarrow> byte) \<Rightarrow> SB \<Rightarrow> byte list \<Rightarrow> SB res" where
  "emit_string_loop junk sb s =
     (if s = [] then Inr sb
      else rbind (emit_char s) (\<lambda>(w, r).
        rbind (sb_write sb w) (\<lambda>sb1. rbind (sb_need junk sb1 14) (\<lambda>sb2. emit_string_loop junk sb2 r))))"
  by pat_completeness auto
termination
  by (relation "measure (\<lambda>(junk, sb, s). length s)") (auto dest: emit_char_shorter)

declare emit_string_loop.simps [simp del]

definition emit_string :: "(nat \<Rightarrow> byte) \<Rightarrow> SB \<Rightarrow> byte list \<Rightarrow> SB res" where
  "emit_string junk out str =
     (if \<not> utf8_validate str then Inl Assert_failed
      else rbind (sb_need junk out 14) (\<lambda>sb.
        rbind (sb_write sb [ch (CHR 0x22)]) (\<lambda>sb1.
        rbind (emit_string_loop junk sb1 str) (\<lambda>sb2. sb_write sb2 [ch (CHR 0x22)]))))"

definition json_encode_string :: "(nat \<Rightarrow> byte) \<Rightarrow> byte list \<Rightarrow> byte list res" where
  "json_encode_string junk str =
     rbind (sb_init junk) (\<lambda>sb. rbind (emit_string junk sb str) sb_finish)"

section \<open>Values\<close>

text \<open>\<open>sprintf\<close> writes into a buffer of 64 bytes.\<close>

definition emit_number :: "('d \<Rightarrow> byte list) \<Rightarrow> (nat \<Rightarrow> byte) \<Rightarrow> SB \<Rightarrow> 'd \<Rightarrow> SB res" where
  "emit_number fmt junk out num =
     (let buf = fmt num in
      if length buf \<ge> 64 then Inl Out_of_bounds
      else if number_is_valid buf then sb_puts junk out buf
      else sb_puts junk out (bs ''null''))"

fun emit_value :: "('d \<Rightarrow> byte list) \<Rightarrow> (nat \<Rightarrow> byte) \<Rightarrow> SB \<Rightarrow> 'd json \<Rightarrow> SB res"
and emit_elements :: "('d \<Rightarrow> byte list) \<Rightarrow> (nat \<Rightarrow> byte) \<Rightarrow> SB \<Rightarrow> 'd json list \<Rightarrow> SB res"
and emit_members :: "('d \<Rightarrow> byte list) \<Rightarrow> (nat \<Rightarrow> byte) \<Rightarrow> SB \<Rightarrow> (byte list \<times> 'd json) list \<Rightarrow> SB res" where
  "emit_value fmt junk out JSON_NULL = sb_puts junk out (bs ''null'')"
| "emit_value fmt junk out (JSON_BOOL b) = sb_puts junk out (if b then bs ''true'' else bs ''false'')"
| "emit_value fmt junk out (JSON_STRING s) = emit_string junk out s"
| "emit_value fmt junk out (JSON_NUMBER d) = emit_number fmt junk out d"
| "emit_value fmt junk out (JSON_ARRAY vs) =
     rbind (sb_putc junk out (ch (CHR ''[''))) (\<lambda>sb.
     rbind (emit_elements fmt junk sb vs) (\<lambda>sb1. sb_putc junk sb1 (ch (CHR '']''))))"
| "emit_value fmt junk out (JSON_OBJECT ms) =
     rbind (sb_putc junk out (ch (CHR ''{''))) (\<lambda>sb.
     rbind (emit_members fmt junk sb ms) (\<lambda>sb1. sb_putc junk sb1 (ch (CHR ''}''))))"
| "emit_elements fmt junk out [] = Inr out"
| "emit_elements fmt junk out (v # vs) =
     rbind (emit_value fmt junk out v) (\<lambda>sb.
     rbind (if vs \<noteq> [] then sb_putc junk sb (ch (CHR '','')) else Inr sb) (\<lambda>sb1.
       emit_elements fmt junk sb1 vs))"
| "emit_members fmt junk out [] = Inr out"
| "emit_members fmt junk out ((k, v) # ms) =
     rbind (emit_string junk out k) (\<lambda>sb.
     rbind (sb_putc junk sb (ch (CHR '':''))) (\<lambda>sb1.
     rbind (emit_value fmt junk sb1 v) (\<lambda>sb2.
     rbind (if ms \<noteq> [] then sb_putc junk sb2 (ch (CHR '','')) else Inr sb2) (\<lambda>sb3.
       emit_members fmt junk sb3 ms))))"

text \<open>The indentation loops: \<open>n\<close> copies of \<open>space\<close>.\<close>

fun emit_indent :: "(nat \<Rightarrow> byte) \<Rightarrow> SB \<Rightarrow> byte list \<Rightarrow> nat \<Rightarrow> SB res" where
  "emit_indent junk out space 0 = Inr out"
| "emit_indent junk out space (Suc n) = rbind (sb_puts junk out space) (\<lambda>sb. emit_indent junk sb space n)"

fun emit_value_indented :: "('d \<Rightarrow> byte list) \<Rightarrow> (nat \<Rightarrow> byte) \<Rightarrow> byte list \<Rightarrow> SB \<Rightarrow> 'd json \<Rightarrow> nat \<Rightarrow> SB res"
and emit_elements_indented :: "('d \<Rightarrow> byte list) \<Rightarrow> (nat \<Rightarrow> byte) \<Rightarrow> byte list \<Rightarrow> SB \<Rightarrow> 'd json list \<Rightarrow> nat \<Rightarrow> SB res"
and emit_members_indented ::
    "('d \<Rightarrow> byte list) \<Rightarrow> (nat \<Rightarrow> byte) \<Rightarrow> byte list \<Rightarrow> SB \<Rightarrow> (byte list \<times> 'd json) list \<Rightarrow> nat \<Rightarrow> SB res" where
  "emit_value_indented fmt junk space out JSON_NULL lvl = sb_puts junk out (bs ''null'')"
| "emit_value_indented fmt junk space out (JSON_BOOL b) lvl = sb_puts junk out (if b then bs ''true'' else bs ''false'')"
| "emit_value_indented fmt junk space out (JSON_STRING s) lvl = emit_string junk out s"
| "emit_value_indented fmt junk space out (JSON_NUMBER d) lvl = emit_number fmt junk out d"
| "emit_value_indented fmt junk space out (JSON_ARRAY vs) lvl =
     (if vs = [] then sb_puts junk out (bs ''[]'')
      else rbind (sb_puts junk out [ch (CHR ''[''), 10]) (\<lambda>sb.
        rbind (emit_elements_indented fmt junk space sb vs lvl) (\<lambda>sb1.
        rbind (emit_indent junk sb1 space lvl) (\<lambda>sb2. sb_putc junk sb2 (ch (CHR '']''))))))"
| "emit_value_indented fmt junk space out (JSON_OBJECT ms) lvl =
     (if ms = [] then sb_puts junk out (bs ''{}'')
      else rbind (sb_puts junk out [ch (CHR ''{''), 10]) (\<lambda>sb.
        rbind (emit_members_indented fmt junk space sb ms lvl) (\<lambda>sb1.
        rbind (emit_indent junk sb1 space lvl) (\<lambda>sb2. sb_putc junk sb2 (ch (CHR ''}''))))))"
| "emit_elements_indented fmt junk space out [] lvl = Inr out"
| "emit_elements_indented fmt junk space out (v # vs) lvl =
     rbind (emit_indent junk out space (lvl + 1)) (\<lambda>sb.
     rbind (emit_value_indented fmt junk space sb v (lvl + 1)) (\<lambda>sb1.
     rbind (sb_puts junk sb1 (if vs \<noteq> [] then [ch (CHR '',''), 10] else [10])) (\<lambda>sb2.
       emit_elements_indented fmt junk space sb2 vs lvl)))"
| "emit_members_indented fmt junk space out [] lvl = Inr out"
| "emit_members_indented fmt junk space out ((k, v) # ms) lvl =
     rbind (emit_indent junk out space (lvl + 1)) (\<lambda>sb.
     rbind (emit_string junk sb k) (\<lambda>sb1.
     rbind (sb_puts junk sb1 (bs '': '')) (\<lambda>sb2.
     rbind (emit_value_indented fmt junk space sb2 v (lvl + 1)) (\<lambda>sb3.
     rbind (sb_puts junk sb3 (if ms \<noteq> [] then [ch (CHR '',''), 10] else [10])) (\<lambda>sb4.
       emit_members_indented fmt junk space sb4 ms lvl)))))"

text \<open>\<open>space = NULL\<close> is \<open>None\<close>.\<close>

definition json_stringify ::
    "('d \<Rightarrow> byte list) \<Rightarrow> (nat \<Rightarrow> byte) \<Rightarrow> 'd json \<Rightarrow> byte list option \<Rightarrow> byte list res" where
  "json_stringify fmt junk node space =
     rbind (sb_init junk) (\<lambda>sb.
     rbind (case space of Some sp \<Rightarrow> emit_value_indented fmt junk sp sb node 0
            | None \<Rightarrow> emit_value fmt junk sb node) sb_finish)"

definition json_encode :: "('d \<Rightarrow> byte list) \<Rightarrow> (nat \<Rightarrow> byte) \<Rightarrow> 'd json \<Rightarrow> byte list res" where
  "json_encode fmt junk node = json_stringify fmt junk node None"

section \<open>The emitted text\<close>

function chars_text :: "byte list \<Rightarrow> byte list" where
  "chars_text s =
     (if s = [] then []
      else case emit_char s of Inr (w, r) \<Rightarrow> w @ chars_text r | Inl _ \<Rightarrow> [])"
  by pat_completeness auto
termination
  by (relation "measure length") (auto dest: emit_char_shorter)

declare chars_text.simps [simp del]

definition string_text :: "byte list \<Rightarrow> byte list" where
  "string_text s = [ch (CHR 0x22)] @ chars_text s @ [ch (CHR 0x22)]"

definition number_text :: "('d \<Rightarrow> byte list) \<Rightarrow> 'd \<Rightarrow> byte list" where
  "number_text fmt d = (if number_is_valid (fmt d) then fmt d else bs ''null'')"

fun value_text :: "('d \<Rightarrow> byte list) \<Rightarrow> 'd json \<Rightarrow> byte list"
and elements_text :: "('d \<Rightarrow> byte list) \<Rightarrow> 'd json list \<Rightarrow> byte list"
and members_text :: "('d \<Rightarrow> byte list) \<Rightarrow> (byte list \<times> 'd json) list \<Rightarrow> byte list" where
  "value_text fmt JSON_NULL = bs ''null''"
| "value_text fmt (JSON_BOOL b) = (if b then bs ''true'' else bs ''false'')"
| "value_text fmt (JSON_STRING s) = string_text s"
| "value_text fmt (JSON_NUMBER d) = number_text fmt d"
| "value_text fmt (JSON_ARRAY vs) = [ch (CHR ''['')] @ elements_text fmt vs @ [ch (CHR '']'')]"
| "value_text fmt (JSON_OBJECT ms) = [ch (CHR ''{'')] @ members_text fmt ms @ [ch (CHR ''}'')]"
| "elements_text fmt [] = []"
| "elements_text fmt (v # vs) =
     value_text fmt v @ (if vs \<noteq> [] then [ch (CHR '','')] else []) @ elements_text fmt vs"
| "members_text fmt [] = []"
| "members_text fmt ((k, v) # ms) =
     string_text k @ [ch (CHR '':'')] @ value_text fmt v @ (if ms \<noteq> [] then [ch (CHR '','')] else []) @
     members_text fmt ms"

section \<open>Characters there and back\<close>

lemma utf8_validate_step:
  assumes "utf8_validate s" "s \<noteq> []"
  shows "utf8_validate_cz s \<noteq> 0" "utf8_validate (drop (utf8_validate_cz s) s)"
  using assms by (subst (asm) (1) utf8_validate.simps, simp add: Let_def split: if_splits)+

lemma utf8_validate_cz_ascii: "cz s 0 \<le> 0x7F \<Longrightarrow> utf8_validate_cz s = 1"
  by (simp add: utf8_validate_cz_def)

lemma control_escape:
  assumes "c < 0x1F" "c \<noteq> (0::byte)"
  shows "emit_unicode (ucast c) = Inr ([backslash, ch (CHR ''u'')] @ write_hex16 (ucast c))"
    and "parse_escape_u (write_hex16 (ucast c) @ t) = Inr (Some ([c], t))"
proof -
  have n: "unat c < 31" "unat c \<noteq> 0" using assms by (simp_all add: word_less_nat_alt unat_eq_zero)
  have u: "unat (ucast c :: u32) = unat c" "unat (ucast c :: u16) = unat c"
    using unat_bound [of c] by (simp_all add: unsigned_ucast_eq take_bit_nat_eq_self)
  have uu: "(ucast (ucast c :: u32) :: u16) = ucast c" "(ucast (ucast c :: u16) :: u32) = ucast c"
    by (rule bit_word_eqI; auto simp: bit_simps dest: bit_imp_le_length)+
  show "emit_unicode (ucast c) = Inr ([backslash, ch (CHR ''u'')] @ write_hex16 (ucast c))"
    using n u(1) by (simp add: emit_unicode_def word_le_nat_alt uu)
  have sc: "unicode_scalar (ucast c)" using n by (simp add: unicode_scalar_nat u)
  have "utf8_write_char (ucast c) = Inr [c]"
    unfolding utf8_write_char_nats [OF sc] u(1) using n(1) by (simp add: utf8_nats_def)
  moreover have "\<not> 0xD800 \<le> (ucast c :: u16)" "(ucast c :: u16) \<noteq> 0"
    using n u(2) by (auto simp: word_le_nat_alt simp flip: unat_eq_zero)
  ultimately show "parse_escape_u (write_hex16 (ucast c) @ t) = Inr (Some ([c], t))"
    unfolding parse_escape_u_def parse_write_hex16 by (simp add: uu)
qed

lemma length_write_hex16 [simp]: "length (write_hex16 v) = 4"
  by (simp add: write_hex16_def)

lemma write_hex16_no_nul: "0 \<notin> set (write_hex16 v)"
proof -
  have "\<forall>n \<in> set [0..<16]. hex_digits ! n \<noteq> 0" by code_simp
  moreover have "unat (x AND 0xF) < 16" for x :: u16
    using unat_and_mask [of x 4] by (simp add: mask_literals)
  ultimately have "hex_digits ! unat (x AND 0xF) \<noteq> 0" for x :: u16 by simp
  then show ?thesis unfolding write_hex16_def by (metis empty_iff empty_set insertE list.simps(15))
qed

text \<open>The next character of a valid string is emitted whole, in at most twelve bytes without NUL; unless it
  is U+001F the text reads back as that character.\<close>

definition emits_char :: "byte list \<Rightarrow> byte list \<Rightarrow> byte list \<Rightarrow> bool" where
  "emits_char c w s \<longleftrightarrow> utf8_char c \<and> w \<noteq> [] \<and> length w \<le> 12 \<and> 0 \<notin> set w \<and>
     (0x1F \<notin> set c \<longrightarrow> (\<forall>t. parse_char (w @ t) = Inr (Some (c, t)) \<and> cz (w @ t) 0 \<noteq> ch (CHR 0x22)))"

lemma emit_char_ok:
  assumes "utf8_validate s" "s \<noteq> []" "0 \<notin> set s"
  shows "\<exists>c w r. s = c @ r \<and> emit_char s = Inr (w, r) \<and> emits_char c w s \<and> utf8_validate r"
proof -
  from assms(2) obtain c0 s0 where s: "s = c0 # s0" by (cases s) auto
  have c0: "cz s 0 = c0" "c0 \<noteq> 0" using assms(3) by (auto simp: s cz_def)
  note v = utf8_validate_step [OF assms(1,2)]
  have I: ?thesis if "s = c @ r" "emit_char s = Inr (w, r)" "emits_char c w s" "utf8_validate r" for c w r
    using that by blast
  consider (sp) "c0 \<in> {ch (CHR 0x22), backslash, 8, 12, 10, 13, 9}"
    | (ctl) "c0 \<notin> {ch (CHR 0x22), backslash, 8, 12, 10, 13, 9}" "c0 < 0x1F"
    | (raw) "c0 \<notin> {ch (CHR 0x22), backslash, 8, 12, 10, 13, 9}" "\<not> c0 < 0x1F" by blast
  then show ?thesis
  proof cases
    case sp
    then have "utf8_validate_cz s = 1" using c0 by (intro utf8_validate_cz_ascii) (auto simp: backslash_def)
    then have "utf8_validate s0" using v(2) by (simp add: s)
    moreover have "utf8_char [c0]" using sp c0(2) by (intro utf8_char_ascii) (auto simp: backslash_def)
    moreover from sp obtain w where "emit_char s = Inr (w, s0)" "w \<noteq> [] \<and> length w \<le> 12 \<and> 0 \<notin> set w \<and>
        (\<forall>t. parse_char (w @ t) = Inr (Some ([c0], t)) \<and> cz (w @ t) 0 \<noteq> ch (CHR 0x22))"
      by (elim insertE emptyE) (simp_all add: emit_char_def s cz_def backslash_def parse_char_def)
    ultimately show ?thesis by (intro I [of "[c0]" s0 w]) (simp_all add: s emits_char_def)
  next
    case ctl
    then have a: "c0 \<le> 0x7F" by (auto simp: word_less_nat_alt word_le_nat_alt)
    then have v1: "utf8_validate_cz s = 1" using c0 by (intro utf8_validate_cz_ascii) simp
    have "utf8_read_char s = Inr (ucast c0, 1)" using a v1 c0(1) by (simp add: utf8_read_char_def)
    then have "emit_char s = Inr ([backslash, ch (CHR ''u'')] @ write_hex16 (ucast c0), s0)"
      using ctl v1 c0 control_escape(1) [OF ctl(2) c0(2)] by (simp add: emit_char_def s)
    moreover have "utf8_char [c0]" using a c0(2) by (rule utf8_char_ascii)
    moreover have "utf8_validate s0" using v(2) v1 by (simp add: s)
    moreover have "parse_char (([backslash, ch (CHR ''u'')] @ write_hex16 (ucast c0)) @ t) = Inr (Some ([c0], t))" for t
      using control_escape(2) [OF ctl(2) c0(2), of t] by (simp add: parse_char_def cz_def backslash_def)
    ultimately show ?thesis using write_hex16_no_nul
      by (intro I [of "[c0]" s0 "[backslash, ch (CHR ''u'')] @ write_hex16 (ucast c0)"])
        (simp_all add: s emits_char_def cz_def, auto simp: backslash_def)
  next
    case raw
    let ?l = "utf8_validate_cz s"
    have u: "utf8_char (take ?l s)" "?l \<le> length s" using utf8_char_raw [OF refl v(1)] c0 by auto
    have e: "emit_char s = Inr (take ?l s, drop ?l s)"
      using raw v(1) c0(1) by (simp add: emit_char_def escape_unicode_def Let_def)
    have "parse_char (take ?l s @ t) = Inr (Some (take ?l s, t))" "cz (take ?l s @ t) 0 \<noteq> ch (CHR 0x22)"
      if "0x1F \<notin> set (take ?l s)" for t
    proof -
      have h: "cz (take ?l s @ t) 0 = c0" using v(1) by (simp add: s cz_def take_Cons')
      have "c0 \<noteq> 0x1F" using that v(1) by (auto simp: s take_Cons')
      then have "\<not> c0 \<le> 0x1F" using raw(2) by simp
      moreover have "utf8_validate_cz (take ?l s @ t) = ?l" using u by (simp add: utf8_char_def)
      ultimately show "parse_char (take ?l s @ t) = Inr (Some (take ?l s, t))"
        using h raw(1) v(1) u(2) by (simp add: parse_char_def backslash_def Let_def)
      show "cz (take ?l s @ t) 0 \<noteq> ch (CHR 0x22)" using h raw(1) by simp
    qed
    then have "emits_char (take ?l s) (take ?l s) s" using u by (auto simp: emits_char_def utf8_char_def)
    then show ?thesis using e v(2) by (intro I [of "take ?l s" "drop ?l s" "take ?l s"]) simp_all
  qed
qed

section \<open>What is emitted\<close>

lemma chars_text_step: "s \<noteq> [] \<Longrightarrow> emit_char s = Inr (w, r) \<Longrightarrow> chars_text s = w @ chars_text r"
  by (simp add: chars_text.simps [of s])

lemma chars_text_Nil [simp]: "chars_text [] = []"
  by (simp add: chars_text.simps)

lemma emit_string_loop_holds:
  assumes "str_ok s" "sb_holds sb cs (length (chars_text s) + Suc n)" "sb_cur sb + 13 \<le> sb_end sb"
  shows "\<exists>sb'. emit_string_loop junk sb s = Inr sb' \<and> sb_holds sb' (cs @ chars_text s) (Suc n) \<and>
    sb_cur sb' + 13 \<le> sb_end sb'"
  using assms
proof (induction "length s" arbitrary: s sb cs rule: less_induct)
  case less
  show ?case
  proof (cases "s = []")
    case True
    with less.prems show ?thesis by (simp add: emit_string_loop.simps [of junk sb "[]"])
  next
    case False
    from less.prems(1) emit_char_ok [OF _ False] obtain c w r where
      e: "s = c @ r" "emit_char s = Inr (w, r)" "emits_char c w s" "utf8_validate r" by (auto simp: str_ok_def)
    have r: "str_ok r" using less.prems(1) e(1,4) by (simp add: str_ok_def)
    note t = chars_text_step [OF False e(2)]
    have "length w \<le> 12" using e(3) by (simp add: emits_char_def)
    with less.prems t have "sb_holds sb cs (length w + (length (chars_text r) + Suc n))"
      "sb_cur sb + length w \<le> sb_end sb" by (simp_all add: add.assoc)
    from sb_write_holds [OF this] obtain s1 where
      s1: "sb_write sb w = Inr s1" "sb_holds s1 (cs @ w) (length (chars_text r) + Suc n)" by blast
    from sb_need_holds [OF s1(2), of 14 junk] obtain s2 where
      s2: "sb_need junk s1 14 = Inr s2" "sb_holds s2 (cs @ w) (length (chars_text r) + Suc n)"
        "sb_cur s2 + 14 \<le> sb_end s2" by auto
    have "emit_string_loop junk sb s = emit_string_loop junk s2 r"
      using False e(2) s1(1) s2(1) by (simp add: emit_string_loop.simps [of junk sb s])
    with less.hyps [OF emit_char_shorter [OF e(2) False] r s2(2)] s2(3) t show ?thesis by simp
  qed
qed

lemma emit_string_holds:
  assumes "str_ok s" "sb_holds sb cs (length (string_text s) + n)"
  shows "\<exists>sb'. emit_string junk sb s = Inr sb' \<and> sb_holds sb' (cs @ string_text s) n"
proof -
  from sb_need_holds [OF assms(2), of 14 junk] obtain s1 where
    s1: "sb_need junk sb 14 = Inr s1" "sb_holds s1 cs (length (string_text s) + n)" "sb_cur s1 + 14 \<le> sb_end s1"
    by auto
  then have "sb_holds s1 cs (length [ch (CHR 0x22)] + (length (chars_text s) + Suc n))"
    "sb_cur s1 + length [ch (CHR 0x22) :: byte] \<le> sb_end s1" by (simp_all add: string_text_def)
  from sb_write_holds [OF this] s1(3) obtain s2 where
    s2: "sb_write s1 [ch (CHR 0x22)] = Inr s2" "sb_holds s2 (cs @ [ch (CHR 0x22)]) (length (chars_text s) + Suc n)"
      "sb_cur s2 + 13 \<le> sb_end s2" by auto
  from emit_string_loop_holds [OF assms(1) s2(2,3), of junk] obtain s3 where
    s3: "emit_string_loop junk s2 s = Inr s3"
      "sb_holds s3 ((cs @ [ch (CHR 0x22)]) @ chars_text s) (length [ch (CHR 0x22) :: byte] + n)"
      "sb_cur s3 + length [ch (CHR 0x22) :: byte] \<le> sb_end s3" by auto
  from sb_write_holds [OF s3(2,3)] s1(1) s2(1) s3(1) assms(1) show ?thesis
    by (auto simp: emit_string_def string_text_def str_ok_def)
qed

text \<open>Numbers that \<open>sprintf\<close> prints within its buffer, everywhere in a value.\<close>

fun nums :: "'d json \<Rightarrow> 'd set" where
  "nums (JSON_NUMBER d) = {d}"
| "nums (JSON_ARRAY vs) = (\<Union>v \<in> set vs. nums v)"
| "nums (JSON_OBJECT ms) = (\<Union>m \<in> set ms. nums (snd m))"
| "nums _ = {}"

definition fmt_fits :: "('d \<Rightarrow> byte list) \<Rightarrow> 'd json \<Rightarrow> bool" where
  "fmt_fits fmt v \<longleftrightarrow> (\<forall>d \<in> nums v. length (fmt d) < 64 \<and> 0 \<notin> set (fmt d))"

lemma emit_number_holds:
  assumes "length (fmt d) < 64" "sb_holds sb cs (length (number_text fmt d) + n)"
  shows "\<exists>sb'. emit_number fmt junk sb d = Inr sb' \<and> sb_holds sb' (cs @ number_text fmt d) n"
  using sb_puts_holds [OF assms(2), of junk] assms(1) by (auto simp: emit_number_def number_text_def Let_def)

text \<open>Composing writers.\<close>

definition writes :: "(SB \<Rightarrow> SB res) \<Rightarrow> byte list \<Rightarrow> bool" where
  "writes f t \<longleftrightarrow> (\<forall>sb cs n. sb_holds sb cs (length t + n) \<longrightarrow> (\<exists>sb'. f sb = Inr sb' \<and> sb_holds sb' (cs @ t) n))"

lemma writes_bind:
  assumes "writes f t" "writes g u"
  shows "writes (\<lambda>sb. rbind (f sb) g) (t @ u)"
  unfolding writes_def
proof (intro allI impI)
  fix sb cs n assume "sb_holds sb cs (length (t @ u) + n)"
  then have "sb_holds sb cs (length t + (length u + n))" by (simp add: add.assoc)
  with assms(1) obtain s1 where s1: "f sb = Inr s1" "sb_holds s1 (cs @ t) (length u + n)"
    unfolding writes_def by blast
  with assms(2) obtain s2 where "g s1 = Inr s2" "sb_holds s2 ((cs @ t) @ u) n" unfolding writes_def by blast
  with s1(1) show "\<exists>sb'. rbind (f sb) g = Inr sb' \<and> sb_holds sb' (cs @ t @ u) n" by auto
qed

lemma writes_prims [intro]:
  "writes (\<lambda>sb. sb_puts junk sb t) t"
  "writes (\<lambda>sb. sb_putc junk sb c) [c]"
  "writes Inr []"
  "str_ok s \<Longrightarrow> writes (\<lambda>sb. emit_string junk sb s) (string_text s)"
  "length (fmt d) < 64 \<Longrightarrow> writes (\<lambda>sb. emit_number fmt junk sb d) (number_text fmt d)"
  unfolding writes_def using sb_puts_holds sb_putc_holds emit_string_holds emit_number_holds by auto

lemma writes_comma:
  "writes (\<lambda>sb. if b then sb_putc junk sb c else Inr sb) (if b then [c] else [])"
  by auto

lemma emit_value_writes:
  "json_ok v \<Longrightarrow> fmt_fits fmt v \<Longrightarrow> writes (\<lambda>sb. emit_value fmt junk sb v) (value_text fmt v)"
  "(\<forall>v \<in> set vs. json_ok v \<and> fmt_fits fmt v) \<Longrightarrow> writes (\<lambda>sb. emit_elements fmt junk sb vs) (elements_text fmt vs)"
  "(\<forall>(k, v) \<in> set ms. str_ok k \<and> json_ok v \<and> fmt_fits fmt v) \<Longrightarrow>
     writes (\<lambda>sb. emit_members fmt junk sb ms) (members_text fmt ms)"
proof (induction fmt v and fmt vs and fmt ms rule: value_text_elements_text_members_text.induct)
  case (5 fmt vs)
  then have "writes (\<lambda>sb. emit_elements fmt junk sb vs) (elements_text fmt vs)" by (auto simp: fmt_fits_def)
  then show ?case unfolding emit_value.simps value_text.simps by (intro writes_bind writes_prims)
next
  case (6 fmt ms)
  then have "writes (\<lambda>sb. emit_members fmt junk sb ms) (members_text fmt ms)" by (intro 6(1)) (force simp: fmt_fits_def)
  then show ?case unfolding emit_value.simps value_text.simps by (intro writes_bind writes_prims)
next
  case (8 fmt v vs)
  then have "writes (\<lambda>sb. emit_value fmt junk sb v) (value_text fmt v)"
    "writes (\<lambda>sb. emit_elements fmt junk sb vs) (elements_text fmt vs)" by auto
  then show ?case unfolding emit_elements.simps elements_text.simps
    by (intro writes_bind writes_comma)
next
  case (10 fmt k v ms)
  then have "writes (\<lambda>sb. emit_value fmt junk sb v) (value_text fmt v)" "str_ok k"
    "writes (\<lambda>sb. emit_members fmt junk sb ms) (members_text fmt ms)" by auto
  then show ?case unfolding emit_members.simps members_text.simps
    by (intro writes_bind writes_comma writes_prims)
qed (auto simp: fmt_fits_def)

lemma sb_run:
  assumes "writes f t" "length t + 14 < 2 ^ 31" "0 \<notin> set t"
  shows "rbind (sb_init junk) (\<lambda>sb. rbind (f sb) sb_finish) = Inr t"
proof -
  from sb_init_holds [OF assms(2)] obtain sb where sb: "sb_init junk = Inr sb" "sb_holds sb [] (length t + 0)" by auto
  with assms(1) obtain s1 where "f sb = Inr s1" "sb_holds s1 ([] @ t) 0" unfolding writes_def by blast
  with sb(1) sb_finish_holds [of s1 t 0] assms(3) show ?thesis by simp
qed

section \<open>Reading the text back\<close>

text \<open>Text behind a number that does not continue it.\<close>

definition stops :: "byte list \<Rightarrow> bool" where
  "stops r \<longleftrightarrow> \<not> is_digit (cz r 0) \<and> cz r 0 \<notin> {ch (CHR ''.''), ch (CHR ''E''), ch (CHR ''e'')}"

lemma cz_append: "cz x 0 \<noteq> 0 \<Longrightarrow> cz (x @ r) 0 = cz x 0 \<and> drop 1 (x @ r) = drop 1 x @ r"
  by (cases x) (simp_all add: cz_def)

lemma cz_append_if: "cz (x @ r) 0 = (if x = [] then cz r 0 else cz x 0)"
  by (cases x) (simp_all add: cz_def)

lemma digits1_append: "digits1 x = Some y \<Longrightarrow> stops r \<Longrightarrow> digits1 (x @ r) = Some (y @ r)"
proof -
  assume a: "digits1 x = Some y" "stops r"
  then have x: "is_digit (cz x 0)" "y = dropWhile is_digit x" by (auto simp: digits1_def split: if_splits)
  then have "cz x 0 \<noteq> 0" by (auto simp: is_digit_def)
  then have "cz (x @ r) 0 = cz x 0" by (simp add: cz_append)
  moreover have "dropWhile is_digit (x @ r) = dropWhile is_digit x @ r"
  proof (cases "\<forall>c \<in> set x. is_digit c")
    case True
    moreover have "dropWhile is_digit r = r" using a(2) by (cases r) (auto simp: stops_def cz_def)
    ultimately show ?thesis by (simp add: dropWhile_append2)
  qed (auto simp: dropWhile_append1)
  ultimately show ?thesis using x by (simp add: digits1_def)
qed

lemma num_int_append:
  assumes "num_int x = Some y" "stops r"
  shows "num_int (x @ r) = Some (y @ r)" "cz x 0 \<noteq> 0"
proof -
  from assms(1) show nz: "cz x 0 \<noteq> 0" by (auto simp: num_int_def digits1_def is_digit_def split: if_splits)
  show "num_int (x @ r) = Some (y @ r)" using assms digits1_append [of x y r] cz_append [OF nz, of r]
    by (auto simp: num_int_def split: if_splits)
qed

lemma num_frac_append:
  assumes "num_frac x = Some y" "stops r"
  shows "num_frac (x @ r) = Some (y @ r)"
proof (cases "x = []")
  case True
  with assms show ?thesis by (auto simp: num_frac_def cz_def stops_def split: if_splits)
next
  case False
  then have "cz (x @ r) 0 = cz x 0" "drop 1 (x @ r) = drop 1 x @ r" by (cases x; simp add: cz_def)+
  with assms digits1_append [of "drop 1 x" y r] show ?thesis by (auto simp: num_frac_def split: if_splits)
qed

lemma num_exp_append:
  assumes "num_exp x = Some y" "stops r"
  shows "num_exp (x @ r) = Some (y @ r)"
proof (cases "cz x 0 = ch (CHR ''E'') \<or> cz x 0 = ch (CHR ''e'')")
  case False
  with assms have y: "y = x" by (auto simp: num_exp_def)
  show ?thesis using False assms(2) by (cases x) (auto simp: y num_exp_def cz_def stops_def split: if_splits)
next
  case True
  let ?x = "drop 1 x"
  from True have x: "cz (x @ r) 0 = cz x 0" "drop 1 (x @ r) = ?x @ r" using cz_append [of x r] by auto
  from True assms(1) have d: "digits1 (if cz ?x 0 = ch (CHR ''+'') \<or> cz ?x 0 = ch (CHR ''-'') then drop 1 ?x else ?x) = Some y"
    unfolding num_exp_def Let_def if_P [OF True] by simp
  then have "?x \<noteq> []" by (auto simp: digits1_def cz_def is_digit_def split: if_splits)
  then have x1: "cz (?x @ r) 0 = cz ?x 0" "drop 1 (?x @ r) = drop 1 ?x @ r" by (cases ?x; simp add: cz_def)+
  from True show ?thesis unfolding num_exp_def x Let_def x1
    using digits1_append [OF d assms(2)] by (auto split: if_splits)
qed

lemma number_end_append:
  assumes "number_end x = Some y" "stops r"
  shows "number_end (x @ r) = Some (y @ r)"
proof -
  from assms(1) obtain s1 s2 where p: "num_int (num_sign x) = Some s1" "num_frac s1 = Some s2" "num_exp s2 = Some y"
    by (auto simp: number_end_def split: option.splits)
  have "x \<noteq> []" using num_int_append(2) [OF p(1) assms(2)] by (auto simp: num_sign_def cz_def)
  then have "num_sign (x @ r) = num_sign x @ r" by (cases x) (auto simp: num_sign_def cz_def)
  with num_int_append(1) [OF p(1) assms(2)] num_frac_append [OF p(2) assms(2)] num_exp_append [OF p(3) assms(2)]
  show ?thesis by (simp add: number_end_def)
qed

lemma number_is_valid_iff: "number_is_valid s \<longleftrightarrow> number_end s = Some []"
  by (auto simp: number_is_valid_def parse_number_def split: option.splits)

lemma jchars_text:
  assumes "str_ok s" "0x1F \<notin> set s"
  shows "jchars (chars_text s @ ch (CHR 0x22) # t) s t"
  using assms
proof (induction "length s" arbitrary: s rule: less_induct)
  case less
  show ?case
  proof (cases "s = []")
    case True
    then show ?thesis using jchars.close [of "ch (CHR 0x22) # t"] by (simp add: cz_def)
  next
    case False
    from less.prems(1) emit_char_ok [OF _ False] obtain c w r where
      e: "s = c @ r" "emit_char s = Inr (w, r)" "emits_char c w s" "utf8_validate r" by (auto simp: str_ok_def)
    let ?t = "chars_text r @ ch (CHR 0x22) # t"
    have "str_ok r" "0x1F \<notin> set r" using less.prems e(1,4) by (auto simp: str_ok_def)
    with less.hyps emit_char_shorter [OF e(2) False] have "jchars ?t r t" by blast
    moreover have "parse_char (w @ ?t) = Inr (Some (c, ?t))" "cz (w @ ?t) 0 \<noteq> ch (CHR 0x22)"
      using e(1,3) less.prems(2) by (auto simp: emits_char_def)
    ultimately have "jchars (w @ ?t) (c @ r) t" by (intro jchars.char)
    then show ?thesis unfolding chars_text_step [OF False e(2)] e(1) [symmetric] by simp
  qed
qed

lemma jstring_text:
  assumes "str_ok s" "0x1F \<notin> set s"
  shows "jstring (string_text s @ t) s t"
  using jchars_text [OF assms, of t] by (simp add: jstring_def string_text_def cz_def)

text \<open>What may follow a value in emitted text.\<close>

definition ends :: "byte list \<Rightarrow> bool" where
  "ends r \<longleftrightarrow> r = [] \<or> hd r \<in> {ch (CHR '',''), ch (CHR '']''), ch (CHR ''}''), 10}"

lemma ends_stops: "ends r \<Longrightarrow> stops r"
  by (cases r) (auto simp: ends_def stops_def cz_def is_digit_def)

text \<open>A number that survives: its text is a JSON number, and \<open>strtod\<close> reads it back.\<close>

definition num_rt :: "(byte list \<Rightarrow> 'd) \<Rightarrow> ('d \<Rightarrow> byte list) \<Rightarrow> 'd \<Rightarrow> bool" where
  "num_rt sd fmt d \<longleftrightarrow> number_is_valid (fmt d) \<and> (\<forall>r. ends r \<longrightarrow> sd (fmt d @ r) = d)"

fun json_strings :: "'d json \<Rightarrow> byte list set" where
  "json_strings (JSON_STRING s) = {s}"
| "json_strings (JSON_ARRAY vs) = (\<Union>v \<in> set vs. json_strings v)"
| "json_strings (JSON_OBJECT ms) = (\<Union>m \<in> set ms. insert (fst m) (json_strings (snd m)))"
| "json_strings _ = {}"

definition json_rt :: "(byte list \<Rightarrow> 'd) \<Rightarrow> ('d \<Rightarrow> byte list) \<Rightarrow> 'd json \<Rightarrow> bool" where
  "json_rt sd fmt v \<longleftrightarrow> json_ok v \<and> (\<forall>s \<in> json_strings v. 0x1F \<notin> set s) \<and> (\<forall>d \<in> nums v. num_rt sd fmt d)"

lemma json_rt_simps:
  "json_rt sd fmt (JSON_STRING s) \<longleftrightarrow> str_ok s \<and> 0x1F \<notin> set s"
  "json_rt sd fmt (JSON_NUMBER d) \<longleftrightarrow> num_rt sd fmt d"
  "json_rt sd fmt (JSON_ARRAY vs) \<longleftrightarrow> (\<forall>v \<in> set vs. json_rt sd fmt v)"
  "json_rt sd fmt (JSON_OBJECT ms) \<longleftrightarrow>
     (\<forall>m \<in> set ms. str_ok (fst m) \<and> 0x1F \<notin> set (fst m) \<and> json_rt sd fmt (snd m))"
  unfolding json_rt_def by (auto simp: case_prod_beta)

lemma skip_space_id: "\<not> is_space (cz s 0) \<Longrightarrow> skip_space s = s"
  by (cases s) (auto simp: skip_space_def cz_def)

lemma skip_space_jvalue: "jvalue sd s v r \<Longrightarrow> skip_space s = s"
  by (rule skip_space_id) (auto dest!: jvalue_first simp: is_space_def is_digit_def)

lemma skip_space_jelems: "jelems sd s vs r \<Longrightarrow> skip_space s = s"
  unfolding jelems_iff [of sd s] using skip_space_jvalue by blast

lemma skip_space_jstring: "jstring s str r \<Longrightarrow> skip_space s = s"
  by (rule skip_space_id) (auto simp: jstring_def is_space_def)

lemma skip_space_jmembers: "jmembers sd s ms r \<Longrightarrow> skip_space s = s"
  unfolding jmembers_iff [of sd s] using skip_space_jstring by blast

lemma skip_space_Cons: "\<not> is_space c \<Longrightarrow> skip_space (c # s) = c # s"
  by (simp add: skip_space_def)

lemma not_space_chars:
  "\<not> is_space (ch (CHR '',''))" "\<not> is_space (ch (CHR '']''))" "\<not> is_space (ch (CHR ''}''))" "\<not> is_space (ch (CHR '':''))"
  by (simp_all add: is_space_def)

lemma value_text_jvalue:
  "json_rt sd fmt v \<Longrightarrow> ends r \<Longrightarrow> jvalue sd (value_text fmt v @ r) v r"
  "\<forall>v \<in> set vs. json_rt sd fmt v \<Longrightarrow> vs \<noteq> [] \<Longrightarrow> jelems sd (elements_text fmt vs @ ch (CHR '']'') # r) vs r"
  "\<forall>m \<in> set ms. str_ok (fst m) \<and> 0x1F \<notin> set (fst m) \<and> json_rt sd fmt (snd m) \<Longrightarrow> ms \<noteq> [] \<Longrightarrow>
     jmembers sd (members_text fmt ms @ ch (CHR ''}'') # r) ms r"
proof (induction fmt v and fmt vs and fmt ms arbitrary: r and r and r rule: value_text_elements_text_members_text.induct)
  case (1 fmt)
  show ?case using jnull [of "bs ''null'' @ r" r sd] by (simp add: bs_def)
next
  case (2 fmt b)
  show ?case using jfalse [of "bs ''false'' @ r" r sd] jtrue [of "bs ''true'' @ r" r sd] by (cases b) (simp_all add: bs_def)
next
  case (3 fmt s)
  then show ?case by (auto intro: jstr jstring_text simp: json_rt_simps)
next
  case (4 fmt d)
  then have "number_end (fmt d @ r) = Some r" "number_text fmt d = fmt d" "sd (fmt d @ r) = d"
    using number_end_append [of "fmt d" "[]" r] ends_stops [of r]
    by (auto simp: json_rt_simps num_rt_def number_is_valid_iff number_text_def)
  with jnum [of "fmt d @ r" r sd] show ?case by simp
next
  case (5 fmt vs)
  let ?s = "ch (CHR ''['') # elements_text fmt vs @ ch (CHR '']'') # r"
  have z: "cz ?s 0 = ch (CHR ''['')" "drop 1 ?s = elements_text fmt vs @ ch (CHR '']'') # r" by (simp_all add: cz_def)
  show ?case
  proof (cases "vs = []")
    case True
    with jarr0 [OF z(1) refl] z show ?thesis by (simp add: skip_space_Cons not_space_chars [simplified] cz_def)
  next
    case False
    with 5 have "jelems sd (elements_text fmt vs @ ch (CHR '']'') # r) vs r" by (simp add: json_rt_simps)
    with jarr [OF z(1), of sd vs r] skip_space_jelems [OF this] show ?thesis unfolding z(2) by simp
  qed
next
  case (6 fmt ms)
  let ?s = "ch (CHR ''{'') # members_text fmt ms @ ch (CHR ''}'') # r"
  have z: "cz ?s 0 = ch (CHR ''{'')" "drop 1 ?s = members_text fmt ms @ ch (CHR ''}'') # r" by (simp_all add: cz_def)
  show ?case
  proof (cases "ms = []")
    case True
    with jobj0 [OF z(1) refl] z show ?thesis by (simp add: skip_space_Cons not_space_chars [simplified] cz_def)
  next
    case False
    with 6 have "jmembers sd (members_text fmt ms @ ch (CHR ''}'') # r) ms r" by (simp add: json_rt_simps)
    with jobj [OF z(1), of sd ms r] skip_space_jmembers [OF this] show ?thesis unfolding z(2) by simp
  qed
next
  case (8 fmt v vs)
  show ?case
  proof (cases "vs = []")
    case True
    let ?r = "ch (CHR '']'') # r"
    have "jvalue sd (value_text fmt v @ ?r) v ?r" using 8 by (simp add: ends_def)
    from jlast [OF this refl] True show ?thesis by (simp add: skip_space_Cons not_space_chars [simplified] cz_def)
  next
    case False
    let ?t = "elements_text fmt vs @ ch (CHR '']'') # r"
    let ?r = "ch (CHR '','') # ?t"
    have "jvalue sd (value_text fmt v @ ?r) v ?r" using 8 by (simp add: ends_def)
    moreover have "jelems sd ?t vs r" using 8 False by simp
    ultimately show ?thesis using jmore [of sd "value_text fmt v @ ?r" v ?r ?r vs r] skip_space_jelems [of sd ?t vs r] False
      by (simp add: skip_space_Cons not_space_chars [simplified] cz_def)
  qed
next
  case (10 fmt k v ms)
  let ?tl = "if ms = [] then ch (CHR ''}'') # r else ch (CHR '','') # members_text fmt ms @ ch (CHR ''}'') # r"
  let ?v = "value_text fmt v @ ?tl"
  let ?c = "ch (CHR '':'') # ?v"
  have k: "jstring (string_text k @ ?c) k ?c" using 10 by (intro jstring_text) auto
  have v: "jvalue sd ?v v ?tl" using 10 by (intro "10.IH") (auto simp: ends_def)
  have c: "?c = skip_space ?c" "cz ?c 0 = ch (CHR '':'')" by (simp_all add: skip_space_Cons not_space_chars [simplified] cz_def)
  have v': "jvalue sd (skip_space (drop 1 ?c)) v ?tl" using v skip_space_jvalue [OF v] by simp
  show ?case
  proof (cases "ms = []")
    case True
    with jmlast [OF k c v' refl] show ?thesis by (simp add: skip_space_Cons not_space_chars [simplified] cz_def)
  next
    case False
    let ?t = "members_text fmt ms @ ch (CHR ''}'') # r"
    have "jmembers sd ?t ms r" using 10 False by simp
    with jmmore [OF k c v' refl, of ms r] skip_space_jmembers [OF this] False show ?thesis
      by (simp add: skip_space_Cons not_space_chars [simplified] cz_def)
  qed
qed simp_all

section \<open>Indented text\<close>

definition indent :: "byte list \<Rightarrow> nat \<Rightarrow> byte list" where
  "indent sp n = concat (replicate n sp)"

fun value_itext :: "('d \<Rightarrow> byte list) \<Rightarrow> byte list \<Rightarrow> 'd json \<Rightarrow> nat \<Rightarrow> byte list"
and elements_itext :: "('d \<Rightarrow> byte list) \<Rightarrow> byte list \<Rightarrow> 'd json list \<Rightarrow> nat \<Rightarrow> byte list"
and members_itext :: "('d \<Rightarrow> byte list) \<Rightarrow> byte list \<Rightarrow> (byte list \<times> 'd json) list \<Rightarrow> nat \<Rightarrow> byte list" where
  "value_itext fmt sp JSON_NULL lvl = bs ''null''"
| "value_itext fmt sp (JSON_BOOL b) lvl = (if b then bs ''true'' else bs ''false'')"
| "value_itext fmt sp (JSON_STRING s) lvl = string_text s"
| "value_itext fmt sp (JSON_NUMBER d) lvl = number_text fmt d"
| "value_itext fmt sp (JSON_ARRAY vs) lvl =
     (if vs = [] then bs ''[]''
      else [ch (CHR ''[''), 10] @ elements_itext fmt sp vs lvl @ indent sp lvl @ [ch (CHR '']'')])"
| "value_itext fmt sp (JSON_OBJECT ms) lvl =
     (if ms = [] then bs ''{}''
      else [ch (CHR ''{''), 10] @ members_itext fmt sp ms lvl @ indent sp lvl @ [ch (CHR ''}'')])"
| "elements_itext fmt sp [] lvl = []"
| "elements_itext fmt sp (v # vs) lvl =
     indent sp (lvl + 1) @ value_itext fmt sp v (lvl + 1) @
     (if vs \<noteq> [] then [ch (CHR '',''), 10] else [10]) @ elements_itext fmt sp vs lvl"
| "members_itext fmt sp [] lvl = []"
| "members_itext fmt sp ((k, v) # ms) lvl =
     indent sp (lvl + 1) @ string_text k @ bs '': '' @ value_itext fmt sp v (lvl + 1) @
     (if ms \<noteq> [] then [ch (CHR '',''), 10] else [10]) @ members_itext fmt sp ms lvl"

lemma emit_indent_writes: "writes (\<lambda>sb. emit_indent junk sb sp n) (indent sp n)"
proof (induction n)
  case (Suc n)
  then show ?case unfolding emit_indent.simps indent_def replicate_Suc concat.simps
    by (intro writes_bind writes_prims)
qed (auto simp: indent_def)

lemma emit_value_indented_writes:
  "json_ok v \<Longrightarrow> fmt_fits fmt v \<Longrightarrow> writes (\<lambda>sb. emit_value_indented fmt junk sp sb v lvl) (value_itext fmt sp v lvl)"
  "(\<forall>v \<in> set vs. json_ok v \<and> fmt_fits fmt v) \<Longrightarrow>
     writes (\<lambda>sb. emit_elements_indented fmt junk sp sb vs lvl) (elements_itext fmt sp vs lvl)"
  "(\<forall>(k, v) \<in> set ms. str_ok k \<and> json_ok v \<and> fmt_fits fmt v) \<Longrightarrow>
     writes (\<lambda>sb. emit_members_indented fmt junk sp sb ms lvl) (members_itext fmt sp ms lvl)"
proof (induction fmt sp v lvl and fmt sp vs lvl and fmt sp ms lvl rule: value_itext_elements_itext_members_itext.induct)
  case (5 fmt sp vs lvl)
  show ?case
  proof (cases "vs = []")
    case False
    with 5 have "writes (\<lambda>sb. emit_elements_indented fmt junk sp sb vs lvl) (elements_itext fmt sp vs lvl)"
      by (auto simp: fmt_fits_def)
    then show ?thesis unfolding emit_value_indented.simps value_itext.simps if_not_P [OF False]
      by (intro writes_bind writes_prims emit_indent_writes)
  qed auto
next
  case (6 fmt sp ms lvl)
  show ?case
  proof (cases "ms = []")
    case False
    have "writes (\<lambda>sb. emit_members_indented fmt junk sp sb ms lvl) (members_itext fmt sp ms lvl)"
      using 6(2,3) by (intro "6.IH" [OF False]) (force simp: fmt_fits_def)
    then show ?thesis unfolding emit_value_indented.simps value_itext.simps if_not_P [OF False]
      by (intro writes_bind writes_prims emit_indent_writes)
  qed auto
next
  case (8 fmt sp v vs lvl)
  then have "writes (\<lambda>sb. emit_value_indented fmt junk sp sb v (lvl + 1)) (value_itext fmt sp v (lvl + 1))"
    "writes (\<lambda>sb. emit_elements_indented fmt junk sp sb vs lvl) (elements_itext fmt sp vs lvl)" by auto
  then show ?case unfolding emit_elements_indented.simps elements_itext.simps
    by (intro writes_bind writes_prims emit_indent_writes)
next
  case (10 fmt sp k v ms lvl)
  then have "writes (\<lambda>sb. emit_value_indented fmt junk sp sb v (lvl + 1)) (value_itext fmt sp v (lvl + 1))" "str_ok k"
    "writes (\<lambda>sb. emit_members_indented fmt junk sp sb ms lvl) (members_itext fmt sp ms lvl)" by auto
  then show ?case unfolding emit_members_indented.simps members_itext.simps
    by (intro writes_bind writes_prims emit_indent_writes)
qed (auto simp: fmt_fits_def)

lemma skip_space_append: "list_all is_space ws \<Longrightarrow> skip_space (ws @ s) = skip_space s"
  by (simp add: skip_space_def dropWhile_append2 list_all_iff)

lemma indent_space: "list_all is_space sp \<Longrightarrow> skip_space (indent sp n @ s) = skip_space s"
  by (rule skip_space_append) (auto simp: indent_def list_all_iff)

lemma newline_space: "skip_space (10 # s) = skip_space s" "skip_space (32 # s) = skip_space s"
  by (simp_all add: skip_space_def is_space_def)

lemma value_itext_jvalue:
  assumes sp: "list_all is_space sp"
  shows "json_rt sd fmt v \<Longrightarrow> ends r \<Longrightarrow> jvalue sd (value_itext fmt sp v lvl @ r) v r"
    and "\<forall>v \<in> set vs. json_rt sd fmt v \<Longrightarrow> vs \<noteq> [] \<Longrightarrow>
      jelems sd (skip_space (elements_itext fmt sp vs lvl @ indent sp lvl @ ch (CHR '']'') # r)) vs r"
    and "\<forall>m \<in> set ms. str_ok (fst m) \<and> 0x1F \<notin> set (fst m) \<and> json_rt sd fmt (snd m) \<Longrightarrow> ms \<noteq> [] \<Longrightarrow>
      jmembers sd (skip_space (members_itext fmt sp ms lvl @ indent sp lvl @ ch (CHR ''}'') # r)) ms r"
  using sp
proof (induction fmt sp v lvl and fmt sp vs lvl and fmt sp ms lvl arbitrary: r and r and r
    rule: value_itext_elements_itext_members_itext.induct)
  case (1 fmt sp lvl)
  show ?case using jnull [of "bs ''null'' @ r" r sd] by (simp add: bs_def)
next
  case (2 fmt sp b lvl)
  show ?case using jfalse [of "bs ''false'' @ r" r sd] jtrue [of "bs ''true'' @ r" r sd] by (cases b) (simp_all add: bs_def)
next
  case (3 fmt sp s lvl)
  then show ?case by (auto intro: jstr jstring_text simp: json_rt_simps)
next
  case (4 fmt sp d lvl)
  then show ?case using value_text_jvalue(1) [of sd fmt "JSON_NUMBER d" r] by simp
next
  case (5 fmt sp vs lvl)
  show ?case
  proof (cases "vs = []")
    case True
    then show ?thesis using value_text_jvalue(1) [of sd fmt "JSON_ARRAY []" r] 5(3) by (simp add: json_rt_simps bs_def)
  next
    case False
    let ?t = "elements_itext fmt sp vs lvl @ indent sp lvl @ ch (CHR '']'') # r"
    let ?s = "ch (CHR ''['') # 10 # ?t"
    have z: "cz ?s 0 = ch (CHR ''['')" "skip_space (drop 1 ?s) = skip_space ?t" by (simp_all add: cz_def newline_space)
    have "jelems sd (skip_space ?t) vs r" using 5 False by (intro "5.IH") (simp_all add: json_rt_simps)
    from jarr [OF z(1), of sd vs r, unfolded z(2), OF this] False show ?thesis by simp
  qed
next
  case (6 fmt sp ms lvl)
  show ?case
  proof (cases "ms = []")
    case True
    then show ?thesis using value_text_jvalue(1) [of sd fmt "JSON_OBJECT []" r] 6(3) by (simp add: json_rt_simps bs_def)
  next
    case False
    let ?t = "members_itext fmt sp ms lvl @ indent sp lvl @ ch (CHR ''}'') # r"
    let ?s = "ch (CHR ''{'') # 10 # ?t"
    have z: "cz ?s 0 = ch (CHR ''{'')" "skip_space (drop 1 ?s) = skip_space ?t" by (simp_all add: cz_def newline_space)
    have "jmembers sd (skip_space ?t) ms r" using 6 False by (intro "6.IH") (simp_all add: json_rt_simps)
    from jobj [OF z(1), of sd ms r, unfolded z(2), OF this] False show ?thesis by simp
  qed
next
  case (8 fmt sp v vs lvl)
  let ?close = "indent sp lvl @ ch (CHR '']'') # r"
  let ?t = "elements_itext fmt sp vs lvl @ ?close"
  let ?tl = "if vs = [] then 10 # ?close else ch (CHR '','') # 10 # ?t"
  let ?v = "value_itext fmt sp v (lvl + 1) @ ?tl"
  have v: "jvalue sd ?v v ?tl" using 8 by (intro "8.IH"(1)) (auto simp: ends_def)
  have s: "skip_space (elements_itext fmt sp (v # vs) lvl @ ?close) = ?v"
    using skip_space_jvalue [OF v] 8(5) by (cases "vs = []") (simp_all add: indent_space)
  show ?case unfolding s
  proof (cases "vs = []")
    case True
    then have "skip_space ?tl = ch (CHR '']'') # r"
      using 8(5) by (simp add: newline_space indent_space skip_space_Cons not_space_chars [simplified])
    with jlast [OF v refl] True show "jelems sd ?v (v # vs) r" by (simp add: cz_def)
  next
    case False
    have "jelems sd (skip_space ?t) vs r" using 8 False by (intro "8.IH"(2)) auto
    moreover have "skip_space ?tl = ?tl" "cz ?tl 0 = ch (CHR '','')" "skip_space (drop 1 ?tl) = skip_space ?t"
      using False by (simp_all add: newline_space skip_space_Cons not_space_chars [simplified] cz_def)
    ultimately show "jelems sd ?v (v # vs) r" using jmore [OF v, of ?tl vs r] by simp
  qed
next
  case (10 fmt sp k v ms lvl)
  let ?close = "indent sp lvl @ ch (CHR ''}'') # r"
  let ?t = "members_itext fmt sp ms lvl @ ?close"
  let ?tl = "if ms = [] then 10 # ?close else ch (CHR '','') # 10 # ?t"
  let ?v = "value_itext fmt sp v (lvl + 1) @ ?tl"
  let ?c = "ch (CHR '':'') # 32 # ?v"
  have k: "jstring (string_text k @ ?c) k ?c" using 10 by (intro jstring_text) auto
  have v: "jvalue sd ?v v ?tl" using 10 by (intro "10.IH"(1)) (auto simp: ends_def)
  have c: "?c = skip_space ?c" "cz ?c 0 = ch (CHR '':'')" by (simp_all add: skip_space_Cons not_space_chars [simplified] cz_def)
  have v': "jvalue sd (skip_space (drop 1 ?c)) v ?tl" using v skip_space_jvalue [OF v] by (simp add: newline_space)
  have s: "skip_space (members_itext fmt sp ((k, v) # ms) lvl @ ?close) = string_text k @ ?c"
    using skip_space_jstring [OF k] 10(5) by (cases "ms = []") (simp_all add: indent_space bs_def)
  show ?case unfolding s
  proof (cases "ms = []")
    case True
    then have "skip_space ?tl = ch (CHR ''}'') # r"
      using 10(5) by (simp add: newline_space indent_space skip_space_Cons not_space_chars [simplified])
    with jmlast [OF k c v' refl] True show "jmembers sd (string_text k @ ?c) ((k, v) # ms) r" by (simp add: cz_def)
  next
    case False
    have "jmembers sd (skip_space ?t) ms r" using 10 False by (intro "10.IH"(2)) auto
    moreover have "skip_space ?tl = ?tl" "cz ?tl 0 = ch (CHR '','')" "skip_space (drop 1 ?tl) = skip_space ?t"
      using False by (simp_all add: newline_space skip_space_Cons not_space_chars [simplified] cz_def)
    ultimately show "jmembers sd (string_text k @ ?c) ((k, v) # ms) r" using jmmore [OF k c v', of ?tl ms r] by simp
  qed
qed simp_all

section \<open>Whole texts\<close>

lemma string_text_no_nul: "str_ok s \<Longrightarrow> 0 \<notin> set (string_text s)"
proof -
  have "str_ok s \<Longrightarrow> 0 \<notin> set (chars_text s)"
  proof (induction "length s" arbitrary: s rule: less_induct)
    case less
    show ?case
    proof (cases "s = []")
      case False
      from less.prems emit_char_ok [OF _ False] obtain c w r where
        e: "s = c @ r" "emit_char s = Inr (w, r)" "emits_char c w s" "utf8_validate r" by (auto simp: str_ok_def)
      then have "str_ok r" using less.prems by (simp add: str_ok_def)
      with less.hyps emit_char_shorter [OF e(2) False] e(3) show ?thesis
        by (simp add: chars_text_step [OF False e(2)] emits_char_def)
    qed simp
  qed
  then show "str_ok s \<Longrightarrow> 0 \<notin> set (string_text s)" by (simp add: string_text_def)
qed

lemma number_text_no_nul: "0 \<notin> set (fmt d) \<Longrightarrow> 0 \<notin> set (number_text fmt d)"
  by (simp add: number_text_def bs_def)

lemma value_text_no_nul:
  "json_ok v \<Longrightarrow> fmt_fits fmt v \<Longrightarrow> 0 \<notin> set (value_text fmt v)"
  "\<forall>v \<in> set vs. json_ok v \<and> fmt_fits fmt v \<Longrightarrow> 0 \<notin> set (elements_text fmt vs)"
  "\<forall>m \<in> set ms. str_ok (fst m) \<and> json_ok (snd m) \<and> fmt_fits fmt (snd m) \<Longrightarrow> 0 \<notin> set (members_text fmt ms)"
  by (induction fmt v and fmt vs and fmt ms rule: value_text_elements_text_members_text.induct)
    (auto simp: bs_def fmt_fits_def number_text_no_nul string_text_no_nul case_prod_beta split: if_splits)

lemma value_itext_no_nul:
  "json_ok v \<Longrightarrow> fmt_fits fmt v \<Longrightarrow> 0 \<notin> set sp \<Longrightarrow> 0 \<notin> set (value_itext fmt sp v lvl)"
  "\<forall>v \<in> set vs. json_ok v \<and> fmt_fits fmt v \<Longrightarrow> 0 \<notin> set sp \<Longrightarrow> 0 \<notin> set (elements_itext fmt sp vs lvl)"
  "\<forall>m \<in> set ms. str_ok (fst m) \<and> json_ok (snd m) \<and> fmt_fits fmt (snd m) \<Longrightarrow> 0 \<notin> set sp \<Longrightarrow>
     0 \<notin> set (members_itext fmt sp ms lvl)"
  by (induction fmt sp v lvl and fmt sp vs lvl and fmt sp ms lvl rule: value_itext_elements_itext_members_itext.induct)
    (auto simp: bs_def indent_def fmt_fits_def number_text_no_nul string_text_no_nul case_prod_beta split: if_splits)

definition stringify_text :: "('d \<Rightarrow> byte list) \<Rightarrow> 'd json \<Rightarrow> byte list option \<Rightarrow> byte list" where
  "stringify_text fmt v space = (case space of None \<Rightarrow> value_text fmt v | Some sp \<Rightarrow> value_itext fmt sp v 0)"

definition space_ok :: "byte list option \<Rightarrow> bool" where
  "space_ok space \<longleftrightarrow> (case space of None \<Rightarrow> True | Some sp \<Rightarrow> list_all is_space sp)"

lemma space_no_nul: "list_all is_space sp \<Longrightarrow> 0 \<notin> set sp"
  by (auto simp: list_all_iff is_space_def)

lemma json_stringify_eq:
  assumes "json_ok v" "fmt_fits fmt v" "space_ok space" "length (stringify_text fmt v space) < 2 ^ 30"
  shows "json_stringify fmt junk v space = Inr (stringify_text fmt v space)"
proof (cases space)
  case None
  with assms(4) have "length (value_text fmt v) + 14 < 2 ^ 31" by (simp add: stringify_text_def)
  with sb_run [OF emit_value_writes(1) [OF assms(1,2)], of junk junk] value_text_no_nul(1) [OF assms(1,2)] None
  show ?thesis by (simp add: json_stringify_def stringify_text_def)
next
  case (Some sp)
  with assms(4) have "length (value_itext fmt sp v 0) + 14 < 2 ^ 31" by (simp add: stringify_text_def)
  moreover have "0 \<notin> set sp" using assms(3) Some by (simp add: space_ok_def space_no_nul)
  ultimately show ?thesis
    using sb_run [OF emit_value_indented_writes(1) [OF assms(1,2)], of sp 0 junk junk]
      value_itext_no_nul(1) [OF assms(1,2)] Some by (simp add: json_stringify_def stringify_text_def)
qed

lemma stringify_text_jtext:
  assumes "json_rt sd fmt v" "space_ok space"
  shows "jtext sd (stringify_text fmt v space) v"
proof -
  have "jvalue sd (stringify_text fmt v space @ []) v []"
  proof (cases space)
    case None
    then show ?thesis using value_text_jvalue(1) [OF assms(1), of "[]"] by (simp add: stringify_text_def ends_def)
  next
    case (Some sp)
    with assms(2) have "list_all is_space sp" by (simp add: space_ok_def)
    from value_itext_jvalue(1) [OF this assms(1), of "[]" 0] Some show ?thesis by (simp add: stringify_text_def ends_def)
  qed
  then have j: "jvalue sd (stringify_text fmt v space) v []" by simp
  show ?thesis unfolding jtext_def skip_space_jvalue [OF j] using j by (auto simp: skip_space_def)
qed

section \<open>Properties\<close>

text \<open>(C2) Encoding and decoding are inverse: for a tree of valid strings without U+001F, whose numbers
  \<open>%.16g\<close> and \<open>strtod\<close> carry over, \<open>json_stringify\<close> succeeds, compact or indented by white space, and
  \<open>json_decode\<close> of its text gives the same tree.\<close>

theorem json_stringify_roundtrip:
  assumes "json_rt sd fmt v" and "fmt_fits fmt v" and "space_ok space"
    and "length (stringify_text fmt v space) < 2 ^ 30"
  shows "\<exists>t. json_stringify fmt junk v space = Inr t \<and> json_decode junk' sd t = Inr (Some v)"
proof -
  have "json_ok v" using assms(1) by (simp add: json_rt_def)
  from json_stringify_eq [OF this assms(2,3,4)] json_decode_grammar [OF assms(4), of junk' sd]
    stringify_text_jtext [OF assms(1,3)] show ?thesis by auto
qed

text \<open>Numbers of the instances below: two values, printed as one digit.\<close>

definition fmt_small :: "bool \<Rightarrow> byte list" where
  "fmt_small b = (if b then bs ''1'' else bs ''0'')"

definition sd_small :: "byte list \<Rightarrow> bool" where
  "sd_small s \<longleftrightarrow> cz s 0 = ch (CHR ''1'')"

lemma small_numbers: "num_rt sd_small fmt_small d" "length (fmt_small d) < 64" "0 \<notin> set (fmt_small d)"
proof -
  have "\<forall>b \<in> set [True, False]. number_is_valid (fmt_small b)" by code_simp
  then show "num_rt sd_small fmt_small d"
    by (cases d) (auto simp: num_rt_def sd_small_def fmt_small_def cz_def bs_def)
qed (simp_all add: fmt_small_def bs_def)

theorem json_stringify_roundtrip_witness:
  "\<exists>t. json_stringify fmt_small (\<lambda>_. 7) (JSON_OBJECT [(bs ''a'', JSON_ARRAY [JSON_NUMBER True, JSON_STRING [10]])]) (Some [9])
       = Inr t \<and>
    json_decode (\<lambda>_. 3) sd_small t = Inr (Some (JSON_OBJECT [(bs ''a'', JSON_ARRAY [JSON_NUMBER True, JSON_STRING [10]])]))"
  (is "\<exists>t. json_stringify _ _ ?v _ = _ \<and> _")
proof (rule json_stringify_roundtrip)
  have "json_ok ?v" by code_simp
  then show "json_rt sd_small fmt_small ?v" by (simp add: json_rt_def small_numbers bs_def)
  show "fmt_fits fmt_small ?v" by (simp add: fmt_fits_def small_numbers)
  show "space_ok (Some [9])" by (simp add: space_ok_def is_space_def)
  have "length (stringify_text fmt_small ?v (Some [9])) < 64" by code_simp
  then show "length (stringify_text fmt_small ?v (Some [9])) < 2 ^ 30" by simp
qed

text \<open>(C3) On a tree of valid strings the emitter never fails an assertion and never writes outside its
  buffers: it returns the text of the tree, for every output below one gigabyte.\<close>

theorem json_stringify_safe:
  assumes "json_ok v" and "fmt_fits fmt v" and "space_ok space"
    and "length (stringify_text fmt v space) < 2 ^ 30"
  shows "json_stringify fmt junk v space = Inr (stringify_text fmt v space)"
  using assms by (rule json_stringify_eq)

theorem json_stringify_safe_witness:
  "json_stringify fmt_small (\<lambda>_. 0) (JSON_STRING [34, 0xC3, 0xA9, 1]) None =
     Inr (stringify_text fmt_small (JSON_STRING [34, 0xC3, 0xA9, 1]) None)"
proof (rule json_stringify_safe)
  show "json_ok (JSON_STRING [34, 0xC3, 0xA9, 1])" by code_simp
  have "length (stringify_text fmt_small (JSON_STRING [34, 0xC3, 0xA9, 1]) None) < 64" by code_simp
  then show "length (stringify_text fmt_small (JSON_STRING [34, 0xC3, 0xA9, 1]) None) < 2 ^ 30" by simp
qed (simp_all add: fmt_fits_def space_ok_def)

text \<open>The exception in the round trip: a string with the single character U+001F is valid and is emitted
  unescaped, and the parser rejects that text, because the emitter escapes control characters
  below \<open>0x1F\<close> and the parser refuses those up to \<open>0x1F\<close>.\<close>

theorem json_unit_separator_lost:
  "json_ok (JSON_STRING [0x1F]) \<and>
   json_encode fmt_small junk (JSON_STRING [0x1F]) = Inr [34, 0x1F, 34] \<and>
   json_validate junk' [34, 0x1F, 34] = Inr False"
proof -
  have ok: "json_ok (JSON_STRING [0x1F])" by code_simp
  have t: "stringify_text fmt_small (JSON_STRING [0x1F]) None = [34, 0x1F, 34]" by code_simp
  have "json_encode fmt_small junk (JSON_STRING [0x1F]) = Inr [34, 0x1F, 34]"
    using json_stringify_eq [OF ok, of fmt_small None junk] unfolding t
    by (simp add: json_encode_def fmt_fits_def space_ok_def)
  moreover have "\<not> jtext (\<lambda>_. ()) [34, 0x1F, 34] v" for v
  proof -
    have "skip_space [34, 0x1F, 34] = [34, 0x1F, 34]" by code_simp
    moreover have "parse_char [0x1F, 34] = Inr None" by code_simp
    ultimately show ?thesis
      by (auto simp: jtext_def jvalue_by_first(4) [simplified] jstring_def cz_def jchars_char [simplified])
  qed
  ultimately show ?thesis using ok json_validate_grammar [of "[34, 0x1F, 34]" junk'] by simp
qed

end
