(* ===== verification/Ccan_Tree.thy ===== *)
theory Ccan_Tree
  imports Ccan_Parse
begin

text \<open>
  The node trees of \<open>base/ccan_json.c\<close>: construction, modification, lookup, deletion and the checker, on
  the linked structure of the code. A heap maps the address of a node to its fields; children are
  a doubly linked list between \<open>head\<close> and \<open>tail\<close>. Following a null pointer or an address that holds no node
  is a fault. The addresses that \<open>kore_calloc\<close> returns are arguments.

  The specification has no links: a forest maps an address to a value whose arrays are lists of addresses
  and whose objects are lists of keys with addresses. The refinement lemmas show that the operations on
  links implement the list operations.
\<close>

section \<open>Nodes\<close>

definition TAG_NULL :: u32 where "TAG_NULL = 0"
definition TAG_BOOL :: u32 where "TAG_BOOL = 1"
definition TAG_STRING :: u32 where "TAG_STRING = 2"
definition TAG_NUMBER :: u32 where "TAG_NUMBER = 3"
definition TAG_ARRAY :: u32 where "TAG_ARRAY = 4"
definition TAG_OBJECT :: u32 where "TAG_OBJECT = 5"

lemmas json_tags = TAG_NULL_def TAG_BOOL_def TAG_STRING_def TAG_NUMBER_def TAG_ARRAY_def TAG_OBJECT_def

text \<open>The members of the union are fields of their own; the code reads the one that belongs to the tag.\<close>

record 'd jnode =
  n_parent :: "nat option"
  n_prev :: "nat option"
  n_next :: "nat option"
  n_key :: "byte list option"
  n_tag :: u32
  n_bool :: bool
  n_string :: "byte list option"
  n_number :: 'd
  n_head :: "nat option"
  n_tail :: "nat option"

type_synonym 'd jheap = "nat \<rightharpoonup> 'd jnode"

definition getn :: "'d jheap \<Rightarrow> nat \<Rightarrow> 'd jnode res" where
  "getn h p = (case h p of None \<Rightarrow> Inl Use_after_free | Some n \<Rightarrow> Inr n)"

definition modn :: "'d jheap \<Rightarrow> nat \<Rightarrow> ('d jnode \<Rightarrow> 'd jnode) \<Rightarrow> 'd jheap res" where
  "modn h p f = rbind (getn h p) (\<lambda>n. Inr (h(p \<mapsto> f n)))"

section \<open>Construction\<close>

definition mknode :: "u32 \<Rightarrow> ('d::zero) jnode" where
  "mknode tag = \<lparr>n_parent = None, n_prev = None, n_next = None, n_key = None, n_tag = tag, n_bool = False,
     n_string = None, n_number = 0, n_head = None, n_tail = None\<rparr>"

definition json_mknull :: "('d::zero) jnode" where "json_mknull = mknode TAG_NULL"

definition json_mkbool :: "bool \<Rightarrow> ('d::zero) jnode" where "json_mkbool b = (mknode TAG_BOOL)\<lparr>n_bool := b\<rparr>"

definition mkstring :: "byte list \<Rightarrow> ('d::zero) jnode" where "mkstring s = (mknode TAG_STRING)\<lparr>n_string := Some s\<rparr>"

definition json_mkstring :: "byte list \<Rightarrow> ('d::zero) jnode" where "json_mkstring s = mkstring s"

definition json_mknumber :: "'d \<Rightarrow> ('d::zero) jnode" where "json_mknumber x = (mknode TAG_NUMBER)\<lparr>n_number := x\<rparr>"

definition json_mkarray :: "('d::zero) jnode" where "json_mkarray = mknode TAG_ARRAY"

definition json_mkobject :: "('d::zero) jnode" where "json_mkobject = mknode TAG_OBJECT"

definition append_node :: "'d jheap \<Rightarrow> nat \<Rightarrow> nat \<Rightarrow> 'd jheap res" where
  "append_node h parent child =
     rbind (modn h child (\<lambda>n. n\<lparr>n_parent := Some parent\<rparr>)) (\<lambda>h1.
     rbind (getn h1 parent) (\<lambda>p1.
     rbind (modn h1 child (\<lambda>n. n\<lparr>n_prev := n_tail p1, n_next := None\<rparr>)) (\<lambda>h2.
     rbind (getn h2 parent) (\<lambda>p2.
     rbind (case n_tail p2 of
              Some t \<Rightarrow> modn h2 t (\<lambda>n. n\<lparr>n_next := Some child\<rparr>)
            | None \<Rightarrow> modn h2 parent (\<lambda>n. n\<lparr>n_head := Some child\<rparr>)) (\<lambda>h3.
     modn h3 parent (\<lambda>n. n\<lparr>n_tail := Some child\<rparr>))))))"

definition prepend_node :: "'d jheap \<Rightarrow> nat \<Rightarrow> nat \<Rightarrow> 'd jheap res" where
  "prepend_node h parent child =
     rbind (modn h child (\<lambda>n. n\<lparr>n_parent := Some parent, n_prev := None\<rparr>)) (\<lambda>h1.
     rbind (getn h1 parent) (\<lambda>p1.
     rbind (modn h1 child (\<lambda>n. n\<lparr>n_next := n_head p1\<rparr>)) (\<lambda>h2.
     rbind (getn h2 parent) (\<lambda>p2.
     rbind (case n_head p2 of
              Some t \<Rightarrow> modn h2 t (\<lambda>n. n\<lparr>n_prev := Some child\<rparr>)
            | None \<Rightarrow> modn h2 parent (\<lambda>n. n\<lparr>n_tail := Some child\<rparr>)) (\<lambda>h3.
     modn h3 parent (\<lambda>n. n\<lparr>n_head := Some child\<rparr>))))))"

definition append_member :: "'d jheap \<Rightarrow> nat \<Rightarrow> byte list \<Rightarrow> nat \<Rightarrow> 'd jheap res" where
  "append_member h object key value =
     rbind (modn h value (\<lambda>n. n\<lparr>n_key := Some key\<rparr>)) (\<lambda>h1. append_node h1 object value)"

text \<open>The assertions of the four public operations.\<close>

definition assert_kind :: "'d jheap \<Rightarrow> u32 \<Rightarrow> nat \<Rightarrow> nat \<Rightarrow> unit res" where
  "assert_kind h tag parent child =
     rbind (getn h parent) (\<lambda>p.
       if n_tag p \<noteq> tag then Inl Assert_failed
       else rbind (getn h child) (\<lambda>c. if n_parent c \<noteq> None then Inl Assert_failed else Inr ()))"

definition json_append_element :: "'d jheap \<Rightarrow> nat \<Rightarrow> nat \<Rightarrow> 'd jheap res" where
  "json_append_element h arr element = rbind (assert_kind h TAG_ARRAY arr element) (\<lambda>_. append_node h arr element)"

definition json_prepend_element :: "'d jheap \<Rightarrow> nat \<Rightarrow> nat \<Rightarrow> 'd jheap res" where
  "json_prepend_element h arr element = rbind (assert_kind h TAG_ARRAY arr element) (\<lambda>_. prepend_node h arr element)"

definition json_append_member :: "'d jheap \<Rightarrow> nat \<Rightarrow> byte list \<Rightarrow> nat \<Rightarrow> 'd jheap res" where
  "json_append_member h object key value =
     rbind (assert_kind h TAG_OBJECT object value) (\<lambda>_. append_member h object key value)"

definition json_prepend_member :: "'d jheap \<Rightarrow> nat \<Rightarrow> byte list \<Rightarrow> nat \<Rightarrow> 'd jheap res" where
  "json_prepend_member h object key value =
     rbind (assert_kind h TAG_OBJECT object value) (\<lambda>_.
     rbind (modn h value (\<lambda>n. n\<lparr>n_key := Some key\<rparr>)) (\<lambda>h1. prepend_node h1 object value))"

section \<open>Removal\<close>

definition json_remove_from_parent :: "'d jheap \<Rightarrow> nat \<Rightarrow> 'd jheap res" where
  "json_remove_from_parent h node =
     rbind (getn h node) (\<lambda>n.
       case n_parent n of
         None \<Rightarrow> Inr h
       | Some parent \<Rightarrow>
           rbind (case n_prev n of
                    Some q \<Rightarrow> modn h q (\<lambda>m. m\<lparr>n_next := n_next n\<rparr>)
                  | None \<Rightarrow> modn h parent (\<lambda>m. m\<lparr>n_head := n_next n\<rparr>)) (\<lambda>h1.
           rbind (getn h1 node) (\<lambda>n1.
           rbind (case n_next n1 of
                    Some q \<Rightarrow> modn h1 q (\<lambda>m. m\<lparr>n_prev := n_prev n1\<rparr>)
                  | None \<Rightarrow> modn h1 parent (\<lambda>m. m\<lparr>n_tail := n_prev n1\<rparr>)) (\<lambda>h2.
           modn h2 node (\<lambda>m. m\<lparr>n_parent := None, n_prev := None, n_next := None, n_key := None\<rparr>)))))"

text \<open>\<open>delete_loop\<close> is the loop over the children; it reads the successor before it deletes the child.\<close>

fun json_delete :: "nat \<Rightarrow> 'd jheap \<Rightarrow> nat option \<Rightarrow> 'd jheap res"
  and delete_loop :: "nat \<Rightarrow> 'd jheap \<Rightarrow> nat option \<Rightarrow> 'd jheap res" where
  "json_delete fuel h None = Inr h"
| "json_delete 0 h (Some p) = Inl Out_of_fuel"
| "json_delete (Suc fuel) h (Some p) =
     rbind (json_remove_from_parent h p) (\<lambda>h1.
     rbind (getn h1 p) (\<lambda>n.
     rbind (if n_tag n = TAG_ARRAY \<or> n_tag n = TAG_OBJECT then delete_loop fuel h1 (n_head n) else Inr h1) (\<lambda>h2.
     rbind (getn h2 p) (\<lambda>_. Inr (h2(p := None))))))"
| "delete_loop fuel h None = Inr h"
| "delete_loop 0 h (Some c) = Inl Out_of_fuel"
| "delete_loop (Suc fuel) h (Some c) =
     rbind (getn h c) (\<lambda>n. rbind (json_delete fuel h (Some c)) (\<lambda>h1. delete_loop fuel h1 (n_next n)))"

section \<open>Lookup\<close>

definition json_first_child :: "'d jheap \<Rightarrow> nat option \<Rightarrow> nat option res" where
  "json_first_child h node =
     (case node of
        None \<Rightarrow> Inr None
      | Some p \<Rightarrow> rbind (getn h p) (\<lambda>n.
          Inr (if n_tag n = TAG_ARRAY \<or> n_tag n = TAG_OBJECT then n_head n else None)))"

fun element_loop :: "nat \<Rightarrow> 'd jheap \<Rightarrow> nat option \<Rightarrow> int \<Rightarrow> int \<Rightarrow> nat option res" where
  "element_loop fuel h None i index = Inr None"
| "element_loop 0 h (Some c) i index = Inl Out_of_fuel"
| "element_loop (Suc fuel) h (Some c) i index =
     (if i = index then Inr (Some c) else rbind (getn h c) (\<lambda>n. element_loop fuel h (n_next n) (i + 1) index))"

definition json_find_element :: "nat \<Rightarrow> 'd jheap \<Rightarrow> nat option \<Rightarrow> int \<Rightarrow> nat option res" where
  "json_find_element fuel h arr index =
     (case arr of
        None \<Rightarrow> Inr None
      | Some p \<Rightarrow> rbind (getn h p) (\<lambda>n.
          if n_tag n \<noteq> TAG_ARRAY then Inr None
          else rbind (json_first_child h arr) (\<lambda>c. element_loop fuel h c 0 index)))"

fun member_loop :: "nat \<Rightarrow> 'd jheap \<Rightarrow> nat option \<Rightarrow> byte list \<Rightarrow> nat option res" where
  "member_loop fuel h None name = Inr None"
| "member_loop 0 h (Some c) name = Inl Out_of_fuel"
| "member_loop (Suc fuel) h (Some c) name =
     rbind (getn h c) (\<lambda>n.
       case n_key n of
         None \<Rightarrow> Inl Null_deref
       | Some k \<Rightarrow> if k = name then Inr (Some c) else member_loop fuel h (n_next n) name)"

definition json_find_member :: "nat \<Rightarrow> 'd jheap \<Rightarrow> nat option \<Rightarrow> byte list \<Rightarrow> nat option res" where
  "json_find_member fuel h object name =
     (case object of
        None \<Rightarrow> Inr None
      | Some p \<Rightarrow> rbind (getn h p) (\<lambda>n.
          if n_tag n \<noteq> TAG_OBJECT then Inr None
          else rbind (json_first_child h object) (\<lambda>c. member_loop fuel h c name)))"

section \<open>The checker\<close>

definition tag_is_valid :: "u32 \<Rightarrow> bool" where
  "tag_is_valid tag \<longleftrightarrow> tag \<le> TAG_OBJECT"

text \<open>A problem is the format string of its message; \<open>None\<close> is the result \<open>true\<close>.\<close>

fun json_check :: "nat \<Rightarrow> 'd jheap \<Rightarrow> nat \<Rightarrow> string option res"
  and check_loop :: "nat \<Rightarrow> 'd jheap \<Rightarrow> nat \<Rightarrow> nat \<Rightarrow> nat option \<Rightarrow> nat option \<Rightarrow> string option res" where
  "json_check 0 h node = Inl Out_of_fuel"
| "json_check (Suc fuel) h node =
     rbind (getn h node) (\<lambda>n.
       if (case n_key n of None \<Rightarrow> False | Some k \<Rightarrow> \<not> utf8_validate k) then Inr (Some ''key contains invalid UTF-8'')
       else if \<not> tag_is_valid (n_tag n) then Inr (Some ''tag is invalid (%u)'')
       else if n_tag n = TAG_BOOL then
         (if n_bool n \<noteq> False \<and> n_bool n \<noteq> True then Inr (Some ''bool_ is neither false (%d) nor true (%d)'')
          else Inr None)
       else if n_tag n = TAG_STRING then
         (case n_string n of
            None \<Rightarrow> Inr (Some ''string_ is NULL'')
          | Some s \<Rightarrow> if \<not> utf8_validate s then Inr (Some ''string_ contains invalid UTF-8'') else Inr None)
       else if n_tag n = TAG_ARRAY \<or> n_tag n = TAG_OBJECT then
         (case n_head n of
            None \<Rightarrow> if n_tail n \<noteq> None then Inr (Some ''head is NULL, but tail is not'') else Inr None
          | Some hp \<Rightarrow>
              if n_tail n = None then Inr (Some ''tail is NULL, but head is not'')
              else rbind (getn h hp) (\<lambda>hn.
                if n_prev hn \<noteq> None then Inr (Some ''First child's prev pointer is not NULL'')
                else check_loop fuel h node hp None (Some hp)))
       else Inr None)"
| "check_loop fuel h node hp lastp None =
     rbind (getn h node) (\<lambda>n.
       if lastp \<noteq> n_tail n
       then Inr (Some ''tail does not match pointer found by starting at head and following next links'')
       else Inr None)"
| "check_loop 0 h node hp lastp (Some child) = Inl Out_of_fuel"
| "check_loop (Suc fuel) h node hp lastp (Some child) =
     (if child = node then Inr (Some ''node is its own child'')
      else rbind (getn h child) (\<lambda>c.
        if n_next c = Some child then Inr (Some ''child->next == child (cycle)'')
        else if n_next c = Some hp then Inr (Some ''child->next == head (cycle)'')
        else if n_parent c \<noteq> Some node then Inr (Some ''child does not point back to parent'')
        else rbind (case n_next c of None \<Rightarrow> Inr False | Some x \<Rightarrow> rbind (getn h x) (\<lambda>m. Inr (n_prev m \<noteq> Some child))) (\<lambda>bad.
          if bad then Inr (Some ''child->next does not point back to child'')
          else rbind (getn h node) (\<lambda>n.
            if n_tag n = TAG_ARRAY \<and> n_key c \<noteq> None then Inr (Some ''Array element's key is not NULL'')
            else if n_tag n = TAG_OBJECT \<and> n_key c = None then Inr (Some ''Object member's key is NULL'')
            else rbind (json_check fuel h child) (\<lambda>r.
              case r of
                Some m \<Rightarrow> Inr (Some m)
              | None \<Rightarrow> check_loop fuel h node hp (Some child) (n_next c))))))"

section \<open>The specification: forests without links\<close>

datatype 'd aval =
    ANull
  | ABool bool
  | AString "byte list"
  | ANumber 'd
  | AArray "nat list"
  | AObject "(byte list \<times> nat) list"

type_synonym 'd forest = "nat \<rightharpoonup> 'd aval"

text \<open>The children of a value with their keys.\<close>

fun entries :: "'d aval \<Rightarrow> (byte list option \<times> nat) list" where
  "entries (AArray cs) = map (\<lambda>c. (None, c)) cs"
| "entries (AObject ms) = map (\<lambda>(k, c). (Some k, c)) ms"
| "entries _ = []"

abbreviation kids :: "'d aval \<Rightarrow> nat list" where
  "kids v \<equiv> map snd (entries v)"

fun tag_of :: "'d aval \<Rightarrow> u32" where
  "tag_of ANull = TAG_NULL"
| "tag_of (ABool b) = TAG_BOOL"
| "tag_of (AString s) = TAG_STRING"
| "tag_of (ANumber x) = TAG_NUMBER"
| "tag_of (AArray cs) = TAG_ARRAY"
| "tag_of (AObject ms) = TAG_OBJECT"

text \<open>A node of the forest that is no child of another.\<close>

definition orphan :: "'d forest \<Rightarrow> nat \<Rightarrow> bool" where
  "orphan A c \<longleftrightarrow> c \<in> dom A \<and> (\<forall>v \<in> ran A. c \<notin> set (kids v))"

fun drop_kid :: "nat \<Rightarrow> 'd aval \<Rightarrow> 'd aval" where
  "drop_kid c (AArray cs) = AArray (filter (\<lambda>d. d \<noteq> c) cs)"
| "drop_kid c (AObject ms) = AObject (filter (\<lambda>m. snd m \<noteq> c) ms)"
| "drop_kid c v = v"

section \<open>Links and contents\<close>

text \<open>A heap is looked at through two maps: the links of each node, and the rest of its fields.\<close>

definition links :: "'d jnode \<Rightarrow> nat option \<times> nat option \<times> nat option \<times> byte list option" where
  "links n = (n_parent n, n_prev n, n_next n, n_key n)"

definition cont :: "'d jnode \<Rightarrow> u32 \<times> bool \<times> byte list option \<times> 'd \<times> nat option \<times> nat option" where
  "cont n = (n_tag n, n_bool n, n_string n, n_number n, n_head n, n_tail n)"

definition lk :: "'d jheap \<Rightarrow> nat \<Rightarrow> (nat option \<times> nat option \<times> nat option \<times> byte list option) option" where
  "lk h p = map_option links (h p)"

definition body :: "'d jheap \<Rightarrow> nat \<Rightarrow> (u32 \<times> bool \<times> byte list option \<times> 'd \<times> nat option \<times> nat option) option" where
  "body h p = map_option cont (h p)"

lemma lk_upd [simp]: "lk (h(p \<mapsto> n)) = (lk h)(p \<mapsto> links n)"
  by (auto simp: lk_def)

lemma body_upd [simp]: "body (h(p \<mapsto> n)) = (body h)(p \<mapsto> cont n)"
  by (auto simp: body_def)

lemma lk_del [simp]: "lk (h(p := None)) = (lk h)(p := None)"
  by (auto simp: lk_def)

lemma body_del [simp]: "body (h(p := None)) = (body h)(p := None)"
  by (auto simp: body_def)

lemma lk_SomeE:
  assumes "lk h p = Some (a, b, c, d)"
  obtains n where "h p = Some n" "n_parent n = a" "n_prev n = b" "n_next n = c" "n_key n = d"
  using assms by (auto simp: lk_def links_def)

lemma body_SomeE:
  assumes "body h p = Some (t, b, s, x, hp, tp)"
  obtains n where "h p = Some n" "n_tag n = t" "n_bool n = b" "n_string n = s" "n_number n = x" "n_head n = hp" "n_tail n = tp"
  using assms by (auto simp: body_def cont_def)

lemma lk_None_iff [simp]: "lk h p = None \<longleftrightarrow> h p = None" "body h p = None \<longleftrightarrow> h p = None"
  by (simp_all add: lk_def body_def)

lemma getn_Some [simp]: "h p = Some n \<Longrightarrow> getn h p = Inr n"
  by (simp add: getn_def)

lemma modn_Some [simp]: "h p = Some n \<Longrightarrow> modn h p f = Inr (h(p \<mapsto> f n))"
  by (simp add: modn_def)

text \<open>The first and the last address of a list of entries, and the linked list between two ends.\<close>

definition first_or :: "('k \<times> nat) list \<Rightarrow> nat option \<Rightarrow> nat option" where
  "first_or es d = (case es of [] \<Rightarrow> d | e # _ \<Rightarrow> Some (snd e))"

definition last_or :: "('k \<times> nat) list \<Rightarrow> nat option \<Rightarrow> nat option" where
  "last_or es d = (if es = [] then d else Some (snd (last es)))"

lemma ends_simps [simp]:
  "first_or [] d = d" "first_or (e # es) d = Some (snd e)" "last_or [] d = d" "last_or (es @ [e]) d = Some (snd e)"
  "first_or (es @ fs) d = first_or es (first_or fs d)" "last_or (e # es) d = last_or es (Some (snd e))"
  by (simp_all add: first_or_def last_or_def split: list.splits)

lemma last_or_append [simp]: "last_or (es @ fs) d = last_or fs (last_or es d)"
  by (simp add: last_or_def)

fun seg :: "(nat \<Rightarrow> (nat option \<times> nat option \<times> nat option \<times> byte list option) option) \<Rightarrow> nat \<Rightarrow> nat option \<Rightarrow>
    (byte list option \<times> nat) list \<Rightarrow> nat option \<Rightarrow> bool" where
  "seg L p prv [] nxt = True"
| "seg L p prv ((k, c) # es) nxt \<longleftrightarrow> L c = Some (Some p, prv, first_or es nxt, k) \<and> seg L p (Some c) es nxt"

lemma seg_append: "seg L p prv (es @ fs) nxt \<longleftrightarrow> seg L p prv es (first_or fs nxt) \<and> seg L p (last_or es prv) fs nxt"
proof (induction es arbitrary: prv)
  case (Cons e es)
  then show ?case by (cases e) simp
qed simp

lemma seg_cong:
  assumes "\<And>c. c \<in> snd ` set es \<Longrightarrow> L' c = L c" "seg L p prv es nxt"
  shows "seg L' p prv es nxt"
  using assms
proof (induction es arbitrary: prv)
  case (Cons e es)
  then show ?case by (cases e) simp
qed simp

lemma seg_linked: "seg L p prv es nxt \<Longrightarrow> c \<in> snd ` set es \<Longrightarrow> \<exists>pv nx k. L c = Some (Some p, pv, nx, k)"
proof (induction es arbitrary: prv)
  case (Cons e es)
  obtain k d where e: "e = (k, d)" by (cases e)
  have s: "seg L p (Some d) es nxt" "L d = Some (Some p, prv, first_or es nxt, k)"
    using Cons.prems(1) by (simp_all add: e)
  show ?case
    using Cons.IH [OF s(1)] s(2) Cons.prems(2) by (cases "c = d") (simp_all add: e)
qed simp

lemma seg_upd: "t \<notin> snd ` set es \<Longrightarrow> seg (L(t := x)) p prv es nxt \<longleftrightarrow> seg L p prv es nxt"
  by (rule iffI; erule seg_cong [rotated]; clarify?; force)

text \<open>A segment whose last node gets another successor, or its first node another predecessor.\<close>

lemma seg_end:
  assumes "seg L p prv (es @ [(k, t)]) nxt" "t \<notin> snd ` set es"
  shows "seg (L(t \<mapsto> (Some p, last_or es prv, nx, k))) p prv (es @ [(k, t)]) nx"
  using assms by (simp add: seg_append seg_upd)

lemma seg_begin:
  assumes "seg L p prv ((k, t) # es) nxt" "t \<notin> snd ` set es"
  shows "seg (L(t \<mapsto> (Some p, pv, first_or es nxt, k))) p pv ((k, t) # es) nxt"
  using assms by (simp add: seg_upd)

section \<open>The refinement relation\<close>

fun body_rel :: "u32 \<times> bool \<times> byte list option \<times> 'd \<times> nat option \<times> nat option \<Rightarrow> 'd aval \<Rightarrow> bool" where
  "body_rel (t, b, s, x, hp, tp) v \<longleftrightarrow> t = tag_of v \<and>
     (case v of
        ANull \<Rightarrow> True | ABool b1 \<Rightarrow> b = b1 | AString s1 \<Rightarrow> s = Some s1 | ANumber x1 \<Rightarrow> x = x1
      | _ \<Rightarrow> hp = first_or (entries v) None \<and> tp = last_or (entries v) None)"

lemma body_rel_container:
  "tag_of v = TAG_ARRAY \<or> tag_of v = TAG_OBJECT \<Longrightarrow>
   body_rel (tag_of v, b, s, x, first_or (entries v) None, last_or (entries v) None) v"
  by (cases v) (auto simp: json_tags)

definition forest_rep :: "'d jheap \<Rightarrow> 'd forest \<Rightarrow> bool" where
  "forest_rep h A \<longleftrightarrow>
     (\<forall>p. rel_option body_rel (body h p) (A p)) \<and>
     (\<forall>p v. A p = Some v \<longrightarrow> seg (lk h) p None (entries v) None \<and> distinct (kids v)) \<and>
     (\<forall>c p pv nx k. lk h c = Some (Some p, pv, nx, k) \<longrightarrow> (\<exists>v. A p = Some v \<and> c \<in> set (kids v))) \<and>
     (\<forall>c pv nx k. lk h c = Some (None, pv, nx, k) \<longrightarrow> pv = None \<and> nx = None \<and> k = None)"

lemma forest_repD:
  assumes "forest_rep h A"
  shows forest_body: "rel_option body_rel (body h p) (A p)"
    and forest_seg: "A p = Some v \<Longrightarrow> seg (lk h) p None (entries v) None"
    and forest_distinct: "A p = Some v \<Longrightarrow> distinct (kids v)"
    and forest_parent: "lk h c = Some (Some p, pv, nx, k) \<Longrightarrow> \<exists>v. A p = Some v \<and> c \<in> set (kids v)"
    and forest_root: "lk h c = Some (None, pv, nx, k) \<Longrightarrow> pv = None \<and> nx = None \<and> k = None"
  using assms unfolding forest_rep_def by blast+

lemma forest_dom: "forest_rep h A \<Longrightarrow> h p = None \<longleftrightarrow> A p = None"
  using forest_body [of h A p] by (auto simp: body_def elim!: option.rel_cases)

lemma forest_some:
  assumes "forest_rep h A" "A p = Some v"
  obtains n where "h p = Some n" "body_rel (cont n) v"
  using forest_body [OF assms(1), of p] assms(2) by (auto simp: body_def option_rel_Some2)

lemma forest_orphan:
  assumes "forest_rep h A" "c \<in> dom A"
  shows "orphan A c \<longleftrightarrow> lk h c = Some (None, None, None, None)"
proof -
  obtain a b d e where l: "lk h c = Some (a, b, d, e)"
    using assms forest_dom [OF assms(1), of c] by (cases "lk h c") auto
  show ?thesis
  proof (cases a)
    case None
    have "c \<notin> set (kids v)" if "A p = Some v" for p v
      using seg_linked [OF forest_seg [OF assms(1) that], of c] l None by auto
    then show ?thesis
      using assms(2) forest_root [OF assms(1) l [unfolded None]] l None by (auto simp: orphan_def ran_def)
  next
    case (Some p)
    then show ?thesis
      using forest_parent [OF assms(1) l [unfolded Some]] l by (auto simp: orphan_def ran_def)
  qed
qed

section \<open>Appending and prepending\<close>

text \<open>An assignment through a pointer changes one of the two maps.\<close>

lemma modn_link:
  assumes "lk h c = Some (a, b, d, e)" "\<And>n. cont (f n) = cont n"
    and "\<And>n. links n = (a, b, d, e) \<Longrightarrow> links (f n) = l"
  shows "\<exists>h'. modn h c f = Inr h' \<and> lk h' = (lk h)(c \<mapsto> l) \<and> body h' = body h"
proof -
  obtain n where n: "h c = Some n" "links n = (a, b, d, e)" using assms(1) by (auto simp: lk_def)
  then have "(body h)(c \<mapsto> cont n) = body h" by (simp add: body_def fun_upd_idem)
  then show ?thesis using n assms(2,3) by simp
qed

lemma modn_cont:
  assumes "body h c = Some b" "\<And>n. links (f n) = links n" "\<And>n. cont n = b \<Longrightarrow> cont (f n) = b'"
  shows "\<exists>h'. modn h c f = Inr h' \<and> body h' = (body h)(c \<mapsto> b') \<and> lk h' = lk h"
proof -
  obtain n where n: "h c = Some n" "cont n = b" using assms(1) by (auto simp: body_def)
  then have "(lk h)(c \<mapsto> links n) = lk h" by (simp add: lk_def fun_upd_idem)
  then show ?thesis using n assms(2,3) by simp
qed

lemma getn_body:
  "body h p = Some (tg, b, s, x, hp, tp) \<Longrightarrow> \<exists>n. getn h p = Inr n \<and> n_tag n = tg \<and> n_head n = hp \<and> n_tail n = tp"
  by (auto simp: body_def cont_def)

lemma append_node_maps:
  assumes c: "lk h c = Some (cp, cpv, cn, k)"
    and p: "body h p = Some (tg, b, s, x, hp, tp)"
    and t: "\<And>t. tp = Some t \<Longrightarrow> t \<noteq> c \<and> lk h t = Some (L1 t, L2 t, L3 t, L4 t)"
  shows "\<exists>h'. append_node h p c = Inr h' \<and>
    lk h' = (case tp of None \<Rightarrow> lk h | Some t \<Rightarrow> (lk h)(t \<mapsto> (L1 t, L2 t, Some c, L4 t)))(c \<mapsto> (Some p, tp, None, k)) \<and>
    body h' = (body h)(p \<mapsto> (tg, b, s, x, (if tp = None then Some c else hp), Some c))"
proof -
  obtain h1 where h1: "modn h c (\<lambda>n. n\<lparr>n_parent := Some p\<rparr>) = Inr h1"
      "lk h1 = (lk h)(c \<mapsto> (Some p, cpv, cn, k))" "body h1 = body h"
    using modn_link [OF c, of "\<lambda>n. n\<lparr>n_parent := Some p\<rparr>" "(Some p, cpv, cn, k)"] by (auto simp: cont_def links_def)
  obtain p1 where p1: "getn h1 p = Inr p1" "n_tail p1 = tp" using getn_body [of h1 p] p h1(3) by auto
  have "lk h1 c = Some (Some p, cpv, cn, k)" by (simp add: h1)
  then obtain h2 where h2: "modn h1 c (\<lambda>n. n\<lparr>n_prev := n_tail p1, n_next := None\<rparr>) = Inr h2"
      "lk h2 = (lk h)(c \<mapsto> (Some p, tp, None, k))" "body h2 = body h"
    using modn_link [of h1 c _ _ _ _ "\<lambda>n. n\<lparr>n_prev := n_tail p1, n_next := None\<rparr>" "(Some p, tp, None, k)"] p1(2) h1
    by (auto simp: cont_def links_def)
  obtain p2 where p2: "getn h2 p = Inr p2" "n_tail p2 = tp" using getn_body [of h2 p] p h2(3) by auto
  obtain h3 where h3: "(case n_tail p2 of Some t \<Rightarrow> modn h2 t (\<lambda>n. n\<lparr>n_next := Some c\<rparr>)
      | None \<Rightarrow> modn h2 p (\<lambda>n. n\<lparr>n_head := Some c\<rparr>)) = Inr h3"
      "lk h3 = (case tp of None \<Rightarrow> lk h | Some t \<Rightarrow> (lk h)(t \<mapsto> (L1 t, L2 t, Some c, L4 t)))(c \<mapsto> (Some p, tp, None, k))"
      "body h3 = (body h)(p \<mapsto> (tg, b, s, x, (if tp = None then Some c else hp), tp))"
  proof (cases tp)
    case None
    have "body h2 p = Some (tg, b, s, x, hp, tp)" using p h2(3) by simp
    from modn_cont [OF this, of "\<lambda>n. n\<lparr>n_head := Some c\<rparr>" "(tg, b, s, x, Some c, tp)"] show thesis
      using that p2(2) h2 None by (auto simp: cont_def links_def)
  next
    case (Some q)
    have "lk h2 q = Some (L1 q, L2 q, L3 q, L4 q)" using t [OF Some] h2(2) by simp
    from modn_link [OF this, of "\<lambda>n. n\<lparr>n_next := Some c\<rparr>" "(L1 q, L2 q, Some c, L4 q)"] show thesis
      using that p p2(2) h2 Some t [OF Some] by (auto simp: cont_def links_def fun_upd_idem fun_upd_twist)
  qed
  have "body h3 p = Some (tg, b, s, x, (if tp = None then Some c else hp), tp)" by (simp add: h3)
  from modn_cont [OF this, of "\<lambda>n. n\<lparr>n_tail := Some c\<rparr>" "(tg, b, s, x, (if tp = None then Some c else hp), Some c)"]
  obtain h4 where h4: "modn h3 p (\<lambda>n. n\<lparr>n_tail := Some c\<rparr>) = Inr h4" "lk h4 = lk h3"
      "body h4 = (body h3)(p \<mapsto> (tg, b, s, x, (if tp = None then Some c else hp), Some c))"
    by (auto simp: cont_def links_def)
  have "append_node h p c = Inr h4"
    by (simp only: append_node_def h1(1) p1(1) h2(1) p2(1) h3(1) h4(1) rbind_simps)
  then show ?thesis using h4 h3 by simp
qed

lemma prepend_node_maps:
  assumes c: "lk h c = Some (cp, cpv, cn, k)"
    and p: "body h p = Some (tg, b, s, x, hp, tp)"
    and t: "\<And>t. hp = Some t \<Longrightarrow> t \<noteq> c \<and> lk h t = Some (L1 t, L2 t, L3 t, L4 t)"
  shows "\<exists>h'. prepend_node h p c = Inr h' \<and>
    lk h' = (case hp of None \<Rightarrow> lk h | Some t \<Rightarrow> (lk h)(t \<mapsto> (L1 t, Some c, L3 t, L4 t)))(c \<mapsto> (Some p, None, hp, k)) \<and>
    body h' = (body h)(p \<mapsto> (tg, b, s, x, Some c, (if hp = None then Some c else tp)))"
proof -
  obtain h1 where h1: "modn h c (\<lambda>n. n\<lparr>n_parent := Some p, n_prev := None\<rparr>) = Inr h1"
      "lk h1 = (lk h)(c \<mapsto> (Some p, None, cn, k))" "body h1 = body h"
    using modn_link [OF c, of "\<lambda>n. n\<lparr>n_parent := Some p, n_prev := None\<rparr>" "(Some p, None, cn, k)"]
    by (auto simp: cont_def links_def)
  obtain p1 where p1: "getn h1 p = Inr p1" "n_head p1 = hp" using getn_body [of h1 p] p h1(3) by auto
  have "lk h1 c = Some (Some p, None, cn, k)" by (simp add: h1)
  then obtain h2 where h2: "modn h1 c (\<lambda>n. n\<lparr>n_next := n_head p1\<rparr>) = Inr h2"
      "lk h2 = (lk h)(c \<mapsto> (Some p, None, hp, k))" "body h2 = body h"
    using modn_link [of h1 c _ _ _ _ "\<lambda>n. n\<lparr>n_next := n_head p1\<rparr>" "(Some p, None, hp, k)"] p1(2) h1
    by (auto simp: cont_def links_def)
  obtain p2 where p2: "getn h2 p = Inr p2" "n_head p2 = hp" using getn_body [of h2 p] p h2(3) by auto
  obtain h3 where h3: "(case n_head p2 of Some t \<Rightarrow> modn h2 t (\<lambda>n. n\<lparr>n_prev := Some c\<rparr>)
      | None \<Rightarrow> modn h2 p (\<lambda>n. n\<lparr>n_tail := Some c\<rparr>)) = Inr h3"
      "lk h3 = (case hp of None \<Rightarrow> lk h | Some t \<Rightarrow> (lk h)(t \<mapsto> (L1 t, Some c, L3 t, L4 t)))(c \<mapsto> (Some p, None, hp, k))"
      "body h3 = (body h)(p \<mapsto> (tg, b, s, x, hp, (if hp = None then Some c else tp)))"
  proof (cases hp)
    case None
    have "body h2 p = Some (tg, b, s, x, hp, tp)" using p h2(3) by simp
    from modn_cont [OF this, of "\<lambda>n. n\<lparr>n_tail := Some c\<rparr>" "(tg, b, s, x, hp, Some c)"] show thesis
      using that p2(2) h2 None by (auto simp: cont_def links_def)
  next
    case (Some q)
    have "lk h2 q = Some (L1 q, L2 q, L3 q, L4 q)" using t [OF Some] h2(2) by simp
    from modn_link [OF this, of "\<lambda>n. n\<lparr>n_prev := Some c\<rparr>" "(L1 q, Some c, L3 q, L4 q)"] show thesis
      using that p p2(2) h2 Some t [OF Some] by (auto simp: cont_def links_def fun_upd_idem fun_upd_twist)
  qed
  have "body h3 p = Some (tg, b, s, x, hp, (if hp = None then Some c else tp))" by (simp add: h3)
  from modn_cont [OF this, of "\<lambda>n. n\<lparr>n_head := Some c\<rparr>" "(tg, b, s, x, Some c, (if hp = None then Some c else tp))"]
  obtain h4 where h4: "modn h3 p (\<lambda>n. n\<lparr>n_head := Some c\<rparr>) = Inr h4" "lk h4 = lk h3"
      "body h4 = (body h3)(p \<mapsto> (tg, b, s, x, Some c, (if hp = None then Some c else tp)))"
    by (auto simp: cont_def links_def)
  have "prepend_node h p c = Inr h4"
    by (simp only: prepend_node_def h1(1) p1(1) h2(1) p2(1) h3(1) h4(1) rbind_simps)
  then show ?thesis using h4 h3 by simp
qed

text \<open>Relinking the children of one node keeps the relation.\<close>

lemma forest_relink:
  assumes R: "forest_rep h A" and p: "A p = Some v"
    and c: "\<And>q w. q \<noteq> p \<Longrightarrow> A q = Some w \<Longrightarrow> c \<notin> set (kids w)"
    and keep: "\<And>q. q \<noteq> c \<Longrightarrow> q \<notin> set (kids v) \<Longrightarrow> lk h' q = lk h q"
    and new: "seg (lk h') p None (entries v') None" "distinct (kids v')"
    and gone: "\<And>q. q = c \<or> q \<in> set (kids v) \<Longrightarrow> q \<notin> set (kids v') \<Longrightarrow> lk h' q = Some (None, None, None, None)"
    and body: "body h' = (body h)(p \<mapsto> b)" "body_rel b v'"
  shows "forest_rep h' (A(p \<mapsto> v'))"
proof -
  have old: "lk h' q = lk h q" if "A r = Some w" "r \<noteq> p" "q \<in> set (kids w)" for q r w
  proof -
    have "\<exists>pv nx k. lk h q = Some (Some r, pv, nx, k)"
      using seg_linked [OF forest_seg [OF R that(1)], of q] that(3) by simp
    then have "q \<notin> set (kids v)"
      using seg_linked [OF forest_seg [OF R p], of q] that(2) by force
    moreover have "q \<noteq> c" using c [OF that(2,1)] that(3) by blast
    ultimately show ?thesis by (simp add: keep)
  qed
  have segs: "seg (lk h') r None (entries w) None \<and> distinct (kids w)" if "(A(p \<mapsto> v')) r = Some w" for r w
  proof (cases "r = p")
    case True
    then show ?thesis using that new by simp
  next
    case False
    then have r: "A r = Some w" using that by simp
    have "seg (lk h') r None (entries w) None"
      by (rule seg_cong [OF _ forest_seg [OF R r]]) (use old [OF r False] in simp)
    then show ?thesis using forest_distinct [OF R r] by blast
  qed
  have link: "if q \<in> set (kids v') then \<exists>pv nx k. lk h' q = Some (Some p, pv, nx, k)
      else lk h' q = Some (None, None, None, None) \<or> (lk h' q = lk h q \<and> q \<notin> set (kids v))" for q
    using seg_linked [OF new(1), of q] gone [of q] keep [of q] by auto
  have parent: "\<exists>w. (A(p \<mapsto> v')) r = Some w \<and> q \<in> set (kids w)" if "lk h' q = Some (Some r, pv, nx, k)" for q r pv nx k
    using link [of q] that forest_parent [OF R, of q r pv nx k] p
    by (cases "q \<in> set (kids v')"; cases "r = p") auto
  have root: "pv = None \<and> nx = None \<and> k = None" if "lk h' q = Some (None, pv, nx, k)" for q pv nx k
    using link [of q] that forest_root [OF R, of q pv nx k] by (cases "q \<in> set (kids v')") auto
  show ?thesis
    unfolding forest_rep_def using body forest_body [OF R] segs parent root by (auto simp: fun_upd_def)
qed

text \<open>The parts of a container with at least one child, seen from either end.\<close>

lemma seg_last: "seg L p prv (es @ [(k, t)]) nxt \<Longrightarrow> L t = Some (Some p, last_or es prv, nxt, k)"
  by (simp add: seg_append)

lemma forest_append:
  assumes R: "forest_rep h A" and p: "A p = Some v" "tag_of v = TAG_ARRAY \<or> tag_of v = TAG_OBJECT"
    and c: "lk h c = Some (None, None, None, None)" "c \<noteq> p"
    and h1: "lk h1 = (lk h)(c \<mapsto> (None, None, None, k))" "body h1 = body h"
    and v': "entries v' = entries v @ [(k, c)]" "tag_of v' = tag_of v"
  shows "\<exists>h'. append_node h1 p c = Inr h' \<and> forest_rep h' (A(p \<mapsto> v'))"
proof -
  obtain b s x where b: "body h p = Some (tag_of v, b, s, x, first_or (entries v) None, last_or (entries v) None)"
    using forest_body [OF R, of p] p
    by (cases v) (auto simp: option_rel_Some2 json_tags)
  have nc: "c \<notin> set (kids w)" if "A q = Some w" for q w
    using seg_linked [OF forest_seg [OF R that], of c] c(1) by auto
  let ?es = "entries v"
  have "\<exists>h'. append_node h1 p c = Inr h' \<and> body h' = (body h)(p \<mapsto> (tag_of v, b, s, x, first_or (entries v') None, Some c)) \<and>
    seg (lk h') p None (entries v') None \<and> (\<forall>q. q \<noteq> c \<longrightarrow> q \<notin> set (kids v) \<longrightarrow> lk h' q = lk h q)"
  proof (cases ?es rule: rev_cases)
    case Nil
    then show ?thesis
      using append_node_maps [of h1 c None None None k p "tag_of v" b s x None None] b h1 v'(1)
      by (auto simp: first_or_def last_or_def)
  next
    case (snoc es e)
    obtain kt t where e: "e = (kt, t)" by (cases e)
    have sg: "seg (lk h) p None (es @ [(kt, t)]) None" using forest_seg [OF R p(1)] snoc e by simp
    have t: "t \<noteq> c" "lk h t = Some (Some p, last_or es None, None, kt)" "t \<notin> snd ` set es"
      using nc [OF p(1)] seg_last [OF sg] forest_distinct [OF R p(1)] snoc e by auto
    have ce: "c \<notin> snd ` set es" using nc [OF p(1)] snoc by auto
    let ?L = "(lk h)(t \<mapsto> (Some p, last_or es None, Some c, kt), c \<mapsto> (Some p, Some t, None, k))"
    have "seg ?L p None (es @ [(kt, t)]) (Some c)"
      using seg_end [OF sg t(3), of "Some c"] ce t(1) by (subst seg_upd) auto
    then have "seg ?L p None (entries v') None"
      using snoc e v'(1) seg_append [of ?L p None "es @ [(kt, t)]" "[(k, c)]" None] by simp
    moreover have "(lk h1)(t \<mapsto> (Some p, last_or es None, Some c, kt), c \<mapsto> (Some p, Some t, None, k)) = ?L"
      by (simp add: h1 fun_upd_twist t(1))
    ultimately show ?thesis
      using append_node_maps [of h1 c None None None k p "tag_of v" b s x "first_or ?es None" "Some t"
          "\<lambda>_. Some p" "\<lambda>_. last_or es None" "\<lambda>_. None" "\<lambda>_. kt"] b h1 v'(1) snoc e t(1,2)
      by auto
  qed
  then obtain h' where h': "append_node h1 p c = Inr h'"
      "body h' = (body h)(p \<mapsto> (tag_of v, b, s, x, first_or (entries v') None, Some c))"
      "seg (lk h') p None (entries v') None" "\<And>q. q \<noteq> c \<Longrightarrow> q \<notin> set (kids v) \<Longrightarrow> lk h' q = lk h q"
    by blast
  have "forest_rep h' (A(p \<mapsto> v'))"
  proof (rule forest_relink [OF R p(1) nc _ h'(3) _ _ h'(2)])
    show "distinct (kids v')" using forest_distinct [OF R p(1)] nc [OF p(1)] by (simp add: v')
    show "body_rel (tag_of v, b, s, x, first_or (entries v') None, Some c) v'"
      using p(2) v' by (cases v') (auto simp: json_tags)
  qed (use h'(4) v'(1) in auto)
  then show ?thesis using h'(1) by blast
qed

lemma forest_prepend:
  assumes R: "forest_rep h A" and p: "A p = Some v" "tag_of v = TAG_ARRAY \<or> tag_of v = TAG_OBJECT"
    and c: "lk h c = Some (None, None, None, None)" "c \<noteq> p"
    and h1: "lk h1 = (lk h)(c \<mapsto> (None, None, None, k))" "body h1 = body h"
    and v': "entries v' = (k, c) # entries v" "tag_of v' = tag_of v"
  shows "\<exists>h'. prepend_node h1 p c = Inr h' \<and> forest_rep h' (A(p \<mapsto> v'))"
proof -
  obtain b s x where b: "body h p = Some (tag_of v, b, s, x, first_or (entries v) None, last_or (entries v) None)"
    using forest_body [OF R, of p] p
    by (cases v) (auto simp: option_rel_Some2 json_tags)
  have nc: "c \<notin> set (kids w)" if "A q = Some w" for q w
    using seg_linked [OF forest_seg [OF R that], of c] c(1) by auto
  let ?es = "entries v"
  have "\<exists>h'. prepend_node h1 p c = Inr h' \<and> body h' = (body h)(p \<mapsto> (tag_of v, b, s, x, Some c, last_or (entries v') None)) \<and>
    seg (lk h') p None (entries v') None \<and> (\<forall>q. q \<noteq> c \<longrightarrow> q \<notin> set (kids v) \<longrightarrow> lk h' q = lk h q)"
  proof (cases ?es)
    case Nil
    then show ?thesis
      using prepend_node_maps [of h1 c None None None k p "tag_of v" b s x None None] b h1 v'(1)
      by (auto simp: first_or_def last_or_def)
  next
    case (Cons e es)
    obtain kt t where e: "e = (kt, t)" by (cases e)
    have sg: "seg (lk h) p None ((kt, t) # es) None" using forest_seg [OF R p(1)] Cons e by simp
    have t: "t \<noteq> c" "lk h t = Some (Some p, None, first_or es None, kt)" "t \<notin> snd ` set es"
      using nc [OF p(1)] sg forest_distinct [OF R p(1)] Cons e by auto
    have ce: "c \<notin> snd ` set es" using nc [OF p(1)] Cons by auto
    let ?L = "(lk h)(t \<mapsto> (Some p, Some c, first_or es None, kt), c \<mapsto> (Some p, None, Some t, k))"
    have "seg ?L p (Some c) ((kt, t) # es) None"
      using seg_begin [OF sg t(3), of "Some c"] ce t(1) by (subst seg_upd) auto
    then have "seg ?L p None (entries v') None"
      using Cons e v'(1) by simp
    moreover have "(lk h1)(t \<mapsto> (Some p, Some c, first_or es None, kt), c \<mapsto> (Some p, None, Some t, k)) = ?L"
      by (simp add: h1 fun_upd_twist t(1))
    ultimately show ?thesis
      using prepend_node_maps [of h1 c None None None k p "tag_of v" b s x "Some t" "last_or ?es None"
          "\<lambda>_. Some p" "\<lambda>_. None" "\<lambda>_. first_or es None" "\<lambda>_. kt"] b h1 v'(1) Cons e t(1,2)
      by auto
  qed
  then obtain h' where h': "prepend_node h1 p c = Inr h'"
      "body h' = (body h)(p \<mapsto> (tag_of v, b, s, x, Some c, last_or (entries v') None))"
      "seg (lk h') p None (entries v') None" "\<And>q. q \<noteq> c \<Longrightarrow> q \<notin> set (kids v) \<Longrightarrow> lk h' q = lk h q"
    by blast
  have "forest_rep h' (A(p \<mapsto> v'))"
  proof (rule forest_relink [OF R p(1) nc _ h'(3) _ _ h'(2)])
    show "distinct (kids v')" using forest_distinct [OF R p(1)] nc [OF p(1)] by (simp add: v')
    show "body_rel (tag_of v, b, s, x, Some c, last_or (entries v') None) v'"
      using p(2) v' by (cases v') (auto simp: json_tags)
  qed (use h'(4) v'(1) in auto)
  then show ?thesis using h'(1) by blast
qed

section \<open>Removing\<close>

lemma remove_maps:
  assumes c: "lk h c = Some (Some p, pv, nx, k)"
    and p: "body h p = Some (tg, b, s, x, hp, tp)"
    and q: "\<And>q. pv = Some q \<Longrightarrow> q \<noteq> c \<and> lk h q = Some (P1 q, P2 q, P3 q, P4 q)"
    and r: "\<And>r. nx = Some r \<Longrightarrow> r \<noteq> c \<and> pv \<noteq> Some r \<and> lk h r = Some (N1 r, N2 r, N3 r, N4 r)"
  shows "\<exists>h'. json_remove_from_parent h c = Inr h' \<and>
    lk h' = (let L1 = (case pv of None \<Rightarrow> lk h | Some q \<Rightarrow> (lk h)(q \<mapsto> (P1 q, P2 q, nx, P4 q)));
                 L2 = (case nx of None \<Rightarrow> L1 | Some r \<Rightarrow> L1(r \<mapsto> (N1 r, pv, N3 r, N4 r)))
             in L2(c \<mapsto> (None, None, None, None))) \<and>
    body h' = (body h)(p \<mapsto> (tg, b, s, x, (if pv = None then nx else hp), (if nx = None then pv else tp)))"
proof -
  obtain n where n: "getn h c = Inr n" "n_parent n = Some p" "n_prev n = pv" "n_next n = nx"
    using c by (auto elim: lk_SomeE)
  let ?L1 = "case pv of None \<Rightarrow> lk h | Some q \<Rightarrow> (lk h)(q \<mapsto> (P1 q, P2 q, nx, P4 q))"
  let ?L2 = "case nx of None \<Rightarrow> ?L1 | Some r \<Rightarrow> ?L1(r \<mapsto> (N1 r, pv, N3 r, N4 r))"
  obtain h1 where h1: "(case n_prev n of Some q \<Rightarrow> modn h q (\<lambda>m. m\<lparr>n_next := n_next n\<rparr>)
      | None \<Rightarrow> modn h p (\<lambda>m. m\<lparr>n_head := n_next n\<rparr>)) = Inr h1" "lk h1 = ?L1"
      "body h1 = (body h)(p \<mapsto> (tg, b, s, x, (if pv = None then nx else hp), tp))"
  proof (cases pv)
    case None
    from modn_cont [OF p, of "\<lambda>m. m\<lparr>n_head := n_next n\<rparr>" "(tg, b, s, x, nx, tp)"] show thesis
      using that n None by (auto simp: cont_def links_def)
  next
    case (Some q')
    from modn_link [OF conjunct2 [OF q [OF Some]], of "\<lambda>m. m\<lparr>n_next := n_next n\<rparr>" "(P1 q', P2 q', nx, P4 q')"] show thesis
      using that n p Some by (auto simp: cont_def links_def fun_upd_idem)
  qed
  have c1: "lk h1 c = Some (Some p, pv, nx, k)" using c q h1(2) by (auto split: option.split)
  then obtain n1 where n1: "getn h1 c = Inr n1" "n_prev n1 = pv" "n_next n1 = nx"
    by (auto elim: lk_SomeE)
  have p1: "body h1 p = Some (tg, b, s, x, (if pv = None then nx else hp), tp)" by (simp add: h1)
  obtain h2 where h2: "(case n_next n1 of Some q \<Rightarrow> modn h1 q (\<lambda>m. m\<lparr>n_prev := n_prev n1\<rparr>)
      | None \<Rightarrow> modn h1 p (\<lambda>m. m\<lparr>n_tail := n_prev n1\<rparr>)) = Inr h2" "lk h2 = ?L2"
      "body h2 = (body h)(p \<mapsto> (tg, b, s, x, (if pv = None then nx else hp), (if nx = None then pv else tp)))"
  proof (cases nx)
    case None
    from modn_cont [OF p1, of "\<lambda>m. m\<lparr>n_tail := n_prev n1\<rparr>" "(tg, b, s, x, (if pv = None then nx else hp), pv)"] show thesis
      using that n1 h1 None by (auto simp: cont_def links_def)
  next
    case (Some r')
    have "lk h1 r' = Some (N1 r', N2 r', N3 r', N4 r')"
      using r [OF Some] h1(2) by (auto split: option.split)
    from modn_link [OF this, of "\<lambda>m. m\<lparr>n_prev := n_prev n1\<rparr>" "(N1 r', pv, N3 r', N4 r')"] show thesis
      using that n1 h1 Some by (auto simp: cont_def links_def)
  qed
  have "lk h2 c = Some (Some p, pv, nx, k)" using c1 r h1(2) h2(2) by (auto split: option.split)
  from modn_link [OF this, of "\<lambda>m. m\<lparr>n_parent := None, n_prev := None, n_next := None, n_key := None\<rparr>" "(None, None, None, None)"]
  obtain h3 where h3: "modn h2 c (\<lambda>m. m\<lparr>n_parent := None, n_prev := None, n_next := None, n_key := None\<rparr>) = Inr h3"
      "lk h3 = (lk h2)(c \<mapsto> (None, None, None, None))" "body h3 = body h2"
    by (auto simp: cont_def links_def)
  have "json_remove_from_parent h c = Inr h3"
    by (simp only: json_remove_from_parent_def n(1,2) h1(1) n1(1) h2(1) h3(1) rbind_simps option.case)
  then show ?thesis using h3 h2 by (simp add: Let_def)
qed

lemma entries_drop_kid: "entries (drop_kid c v) = filter (\<lambda>e. snd e \<noteq> c) (entries v)"
  by (cases v) (auto simp: filter_map o_def case_prod_beta)

lemma drop_kid_other: "c \<notin> set (kids v) \<Longrightarrow> drop_kid c v = v"
  by (cases v) (auto simp: filter_id_conv image_iff)

lemma tag_of_drop_kid [simp]: "tag_of (drop_kid c v) = tag_of v"
  by (cases v) simp_all

lemma seg_relast:
  assumes "seg L p prv xs (Some c)" "distinct (map snd xs)"
    and "\<And>x. x \<in> snd ` set xs \<Longrightarrow> last_or xs None \<noteq> Some x \<Longrightarrow> L' x = L x"
    and "\<And>q. last_or xs None = Some q \<Longrightarrow> \<exists>pq kq. L q = Some (Some p, pq, Some c, kq) \<and> L' q = Some (Some p, pq, nx, kq)"
  shows "seg L' p prv xs nx"
proof (cases xs rule: rev_cases)
  case (snoc es e)
  obtain k t where e: "e = (k, t)" by (cases e)
  have "L' t = Some (Some p, last_or es prv, nx, k)"
    using assms(1) assms(4) [of t] by (auto simp: snoc e seg_append)
  moreover have "seg L' p prv es (Some t)"
    by (rule seg_cong [where L = L]) (use assms(1-3) in \<open>auto simp: snoc e seg_append\<close>)
  ultimately show ?thesis by (simp add: snoc e seg_append)
qed simp

lemma seg_refirst:
  assumes "seg L p (Some c) ys nxt" "distinct (map snd ys)"
    and "\<And>x. x \<in> snd ` set ys \<Longrightarrow> first_or ys None \<noteq> Some x \<Longrightarrow> L' x = L x"
    and "\<And>r. first_or ys None = Some r \<Longrightarrow> \<exists>nr kr. L r = Some (Some p, Some c, nr, kr) \<and> L' r = Some (Some p, pv, nr, kr)"
  shows "seg L' p pv ys nxt"
proof (cases ys)
  case (Cons e es)
  obtain k t where e: "e = (k, t)" by (cases e)
  have "L' t = Some (Some p, pv, first_or es nxt, k)"
    using assms(1) assms(4) [of t] by (auto simp: Cons e)
  moreover have "seg L' p (Some t) es nxt"
    by (rule seg_cong [where L = L]) (use assms(1-3) in \<open>auto simp: Cons e\<close>)
  ultimately show ?thesis by (simp add: Cons e)
qed simp

lemma last_or_SomeD: "last_or xs None = Some q \<Longrightarrow> \<exists>es k. xs = es @ [(k, q)]"
  by (cases xs rule: rev_cases) (auto simp: last_or_def)

lemma first_or_SomeD: "first_or xs None = Some q \<Longrightarrow> \<exists>es k. xs = (k, q) # es"
  by (cases xs) (auto simp: first_or_def)

lemma ends_mem:
  "last_or xs None = Some q \<Longrightarrow> q \<in> snd ` set xs" "first_or xs None = Some q \<Longrightarrow> q \<in> snd ` set xs"
  by (force dest: last_or_SomeD first_or_SomeD)+

text \<open>The links after the removal of a child with \<open>xs\<close> before it and \<open>ys\<close> behind it.\<close>

definition unlinked :: "(nat \<Rightarrow> (nat option \<times> nat option \<times> nat option \<times> byte list option) option) \<Rightarrow> nat \<Rightarrow> nat \<Rightarrow>
    nat option \<Rightarrow> nat option \<Rightarrow> nat \<Rightarrow> (nat option \<times> nat option \<times> nat option \<times> byte list option) option" where
  "unlinked L p c pv nx y =
     (if y = c then Some (None, None, None, None)
      else if nx = Some y then Some (Some p, pv, fst (snd (snd (the (L y)))), snd (snd (snd (the (L y)))))
      else if pv = Some y then Some (Some p, fst (snd (the (L y))), nx, snd (snd (snd (the (L y)))))
      else L y)"

lemma seg_unlinked:
  assumes "seg L p None (xs @ (k, c) # ys) None" "distinct (map snd (xs @ (k, c) # ys))"
  shows "seg (unlinked L p c (last_or xs None) (first_or ys None)) p None (xs @ ys) None"
proof -
  let ?L = "unlinked L p c (last_or xs None) (first_or ys None)"
  have sg: "seg L p None xs (Some c)" "seg L p (Some c) ys None" using assms(1) by (simp_all add: seg_append)
  have d: "distinct (map snd xs)" "distinct (map snd ys)" "c \<notin> snd ` set xs" "c \<notin> snd ` set ys"
      "snd ` set xs \<inter> snd ` set ys = {}"
    using assms(2) by auto
  have "seg ?L p None xs (first_or ys None)"
  proof (rule seg_relast [OF sg(1) d(1)])
    fix y assume y: "y \<in> snd ` set xs" "last_or xs None \<noteq> Some y"
    have "y \<noteq> c" using y(1) d(3) by metis
    moreover have "first_or ys None \<noteq> Some y" using y(1) d(5) ends_mem(2) [of ys y] by (metis disjoint_iff)
    ultimately show "?L y = L y" using y by (simp add: unlinked_def)
  next
    fix y assume y: "last_or xs None = Some y"
    then have "y \<noteq> c" "first_or ys None \<noteq> Some y" using d(3,5) ends_mem(1) [OF y] ends_mem(2) [of ys y] by (auto simp: disjoint_iff)
    then show "\<exists>pq kq. L y = Some (Some p, pq, Some c, kq) \<and> ?L y = Some (Some p, pq, first_or ys None, kq)"
      using last_or_SomeD [OF y] sg(1) y by (auto simp: unlinked_def seg_append)
  qed
  moreover have "seg ?L p (last_or xs None) ys None"
  proof (rule seg_refirst [OF sg(2) d(2)])
    fix y assume y: "y \<in> snd ` set ys" "first_or ys None \<noteq> Some y"
    have "y \<noteq> c" using y(1) d(4) by metis
    moreover have "last_or xs None \<noteq> Some y" using y(1) d(5) ends_mem(1) [of xs y] by (metis disjoint_iff)
    ultimately show "?L y = L y" using y by (simp add: unlinked_def)
  next
    fix y assume y: "first_or ys None = Some y"
    then have "y \<noteq> c" using d(4) ends_mem(2) [OF y] by auto
    then show "\<exists>nr kr. L y = Some (Some p, Some c, nr, kr) \<and> ?L y = Some (Some p, last_or xs None, nr, kr)"
      using first_or_SomeD [OF y] sg(2) y by (auto simp: unlinked_def)
  qed
  ultimately show ?thesis by (simp add: seg_append)
qed

lemma remove_unlinks:
  assumes s: "seg (lk h) p None (xs @ (k, c) # ys) None" "distinct (map snd (xs @ (k, c) # ys))"
    and b: "body h p = Some (tg, b, s, x, first_or (xs @ (k, c) # ys) None, last_or (xs @ (k, c) # ys) None)"
  shows "\<exists>h'. json_remove_from_parent h c = Inr h' \<and> lk h' = unlinked (lk h) p c (last_or xs None) (first_or ys None) \<and>
    body h' = (body h)(p \<mapsto> (tg, b, s, x, first_or (xs @ ys) None, last_or (xs @ ys) None))"
proof -
  let ?L = "lk h" and ?pv = "last_or xs None" and ?nx = "first_or ys None"
  have c: "?L c = Some (Some p, ?pv, ?nx, k)" and sg: "seg ?L p None xs (Some c)" "seg ?L p (Some c) ys None"
    using s(1) by (simp_all add: seg_append)
  have d: "c \<notin> snd ` set xs" "c \<notin> snd ` set ys" "snd ` set xs \<inter> snd ` set ys = {}" using s(2) by auto
  have q: "q \<noteq> c \<and> ?L q = Some (Some p, fst (snd (the (?L q))), Some c, snd (snd (snd (the (?L q)))))" if "?pv = Some q" for q
    using last_or_SomeD [OF that] sg(1) d(1) by (auto simp: seg_append)
  have r: "r \<noteq> c \<and> ?pv \<noteq> Some r \<and> ?L r = Some (Some p, Some c, fst (snd (snd (the (?L r)))), snd (snd (snd (the (?L r)))))"
    if "?nx = Some r" for r
    using first_or_SomeD [OF that] last_or_SomeD [of xs r] sg(2) d by auto
  obtain h' where h': "json_remove_from_parent h c = Inr h'"
      "lk h' = (let L1 = (case ?pv of None \<Rightarrow> ?L | Some q \<Rightarrow> ?L(q \<mapsto> (Some p, fst (snd (the (?L q))), ?nx, snd (snd (snd (the (?L q)))))));
                 L2 = (case ?nx of None \<Rightarrow> L1 | Some r \<Rightarrow> L1(r \<mapsto> (Some p, ?pv, fst (snd (snd (the (?L r)))), snd (snd (snd (the (?L r)))))))
             in L2(c \<mapsto> (None, None, None, None)))"
      "body h' = (body h)(p \<mapsto> (tg, b, s, x, (if ?pv = None then ?nx else first_or (xs @ (k, c) # ys) None),
         (if ?nx = None then ?pv else last_or (xs @ (k, c) # ys) None)))"
    using remove_maps [OF c b, of "\<lambda>_. Some p" "\<lambda>q. fst (snd (the (?L q)))" "\<lambda>_. Some c" "\<lambda>q. snd (snd (snd (the (?L q))))",
        OF q r] by blast
  have "lk h' = unlinked ?L p c ?pv ?nx"
    by (auto simp: h'(2) Let_def unlinked_def fun_eq_iff split: option.split)
  moreover have "(if ?pv = None then ?nx else first_or (xs @ (k, c) # ys) None) = first_or (xs @ ys) None"
    by (cases xs) (simp_all add: last_or_def)
  moreover have "(if ?nx = None then ?pv else last_or (xs @ (k, c) # ys) None) = last_or (xs @ ys) None"
    by (cases ys) (simp_all add: last_or_def)
  ultimately show ?thesis using h' by simp
qed

lemma forest_remove:
  assumes R: "forest_rep h A" and c: "lk h c = Some (Some p, pv, nx, k)"
  shows "\<exists>h' v. json_remove_from_parent h c = Inr h' \<and> A p = Some v \<and> c \<in> set (kids v) \<and>
    forest_rep h' (A(p \<mapsto> drop_kid c v)) \<and> lk h' c = Some (None, None, None, None)"
proof -
  obtain v where v: "A p = Some v" "c \<in> set (kids v)" using forest_parent [OF R c] by blast
  obtain xs k' ys where es: "entries v = xs @ (k', c) # ys" using v(2) by (auto dest: split_list)
  have sg: "seg (lk h) p None (xs @ (k', c) # ys) None" using forest_seg [OF R v(1)] by (simp add: es)
  have d: "distinct (map snd (xs @ (k', c) # ys))" using forest_distinct [OF R v(1)] by (simp add: es)
  have tag: "tag_of v = TAG_ARRAY \<or> tag_of v = TAG_OBJECT" using v(2) by (cases v) simp_all
  obtain b s x where b: "body h p = Some (tag_of v, b, s, x, first_or (xs @ (k', c) # ys) None, last_or (xs @ (k', c) # ys) None)"
    using forest_body [OF R, of p] v es by (cases v) (auto simp: option_rel_Some2 json_tags)
  obtain h' where h': "json_remove_from_parent h c = Inr h'"
      "lk h' = unlinked (lk h) p c (last_or xs None) (first_or ys None)"
      "body h' = (body h)(p \<mapsto> (tag_of v, b, s, x, first_or (xs @ ys) None, last_or (xs @ ys) None))"
    using remove_unlinks [OF sg d b] by blast
  have ed: "entries (drop_kid c v) = xs @ ys"
  proof -
    have "filter (\<lambda>e. snd e \<noteq> c) xs = xs" "filter (\<lambda>e. snd e \<noteq> c) ys = ys"
      using d by (force simp: filter_id_conv)+
    then show ?thesis by (simp add: entries_drop_kid es)
  qed
  have "seg (lk h') p None (entries (drop_kid c v)) None" using seg_unlinked [OF sg d] by (simp add: ed h'(2))
  then have "forest_rep h' (A(p \<mapsto> drop_kid c v))"
  proof (rule forest_relink [OF R v(1), where c = c, rotated 2])
    fix q w assume "q \<noteq> p" "A q = Some w"
    then show "c \<notin> set (kids w)" using seg_linked [OF forest_seg [OF R, of q w], of c] c by force
  next
    fix y assume y: "y \<noteq> c" "y \<notin> set (kids v)"
    then have "first_or ys None \<noteq> Some y" "last_or xs None \<noteq> Some y"
      using ends_mem(2) [of ys y] ends_mem(1) [of xs y] by (auto simp: es)
    then show "lk h' y = lk h y" using y by (simp add: h'(2) unlinked_def)
  next
    fix y assume "y = c \<or> y \<in> set (kids v)" "y \<notin> set (kids (drop_kid c v))"
    then have "y = c" by (auto simp: ed es)
    then show "lk h' y = Some (None, None, None, None)" by (simp add: h'(2) unlinked_def)
  next
    show "distinct (kids (drop_kid c v))" using d by (simp add: ed)
    show "body_rel (tag_of v, b, s, x, first_or (xs @ ys) None, last_or (xs @ ys) None) (drop_kid c v)"
      using body_rel_container [of "drop_kid c v"] tag by (simp add: ed)
  qed (rule h'(3))
  then show ?thesis using h'(1,2) v by (auto simp: unlinked_def)
qed

section \<open>Refinement of the operations\<close>

text \<open>One constructor for each operation that builds or changes trees; the first argument of a creation is the
  address of the new node.\<close>

datatype 'd jop =
    Mknull nat
  | Mkbool nat bool
  | Mkstring nat "byte list"
  | Mknumber nat 'd
  | Mkarray nat
  | Mkobject nat
  | Append_element nat nat
  | Prepend_element nat nat
  | Append_member nat "byte list" nat
  | Prepend_member nat "byte list" nat
  | Remove_from_parent nat

fun run_op :: "('d::zero) jop \<Rightarrow> 'd jheap \<Rightarrow> 'd jheap res" where
  "run_op (Mknull a) h = Inr (h(a \<mapsto> json_mknull))"
| "run_op (Mkbool a b) h = Inr (h(a \<mapsto> json_mkbool b))"
| "run_op (Mkstring a s) h = Inr (h(a \<mapsto> json_mkstring s))"
| "run_op (Mknumber a x) h = Inr (h(a \<mapsto> json_mknumber x))"
| "run_op (Mkarray a) h = Inr (h(a \<mapsto> json_mkarray))"
| "run_op (Mkobject a) h = Inr (h(a \<mapsto> json_mkobject))"
| "run_op (Append_element p c) h = json_append_element h p c"
| "run_op (Prepend_element p c) h = json_prepend_element h p c"
| "run_op (Append_member p k c) h = json_append_member h p k c"
| "run_op (Prepend_member p k c) h = json_prepend_member h p k c"
| "run_op (Remove_from_parent c) h = json_remove_from_parent h c"

definition spec_new :: "nat \<Rightarrow> 'd aval \<Rightarrow> 'd forest \<Rightarrow> 'd forest option" where
  "spec_new a v A = (if A a = None then Some (A(a \<mapsto> v)) else None)"

definition spec_array :: "(nat list \<Rightarrow> nat list) \<Rightarrow> nat \<Rightarrow> nat \<Rightarrow> 'd forest \<Rightarrow> 'd forest option" where
  "spec_array f p c A =
     (case A p of Some (AArray cs) \<Rightarrow> if orphan A c \<and> c \<noteq> p then Some (A(p \<mapsto> AArray (f cs))) else None | _ \<Rightarrow> None)"

definition spec_object :: "((byte list \<times> nat) list \<Rightarrow> (byte list \<times> nat) list) \<Rightarrow> nat \<Rightarrow> nat \<Rightarrow> 'd forest \<Rightarrow> 'd forest option" where
  "spec_object f p c A =
     (case A p of Some (AObject ms) \<Rightarrow> if orphan A c \<and> c \<noteq> p then Some (A(p \<mapsto> AObject (f ms))) else None | _ \<Rightarrow> None)"

text \<open>The specification of an operation; \<open>None\<close> where it may not be used.\<close>

fun spec_op :: "'d jop \<Rightarrow> 'd forest \<Rightarrow> 'd forest option" where
  "spec_op (Mknull a) A = spec_new a ANull A"
| "spec_op (Mkbool a b) A = spec_new a (ABool b) A"
| "spec_op (Mkstring a s) A = spec_new a (AString s) A"
| "spec_op (Mknumber a x) A = spec_new a (ANumber x) A"
| "spec_op (Mkarray a) A = spec_new a (AArray []) A"
| "spec_op (Mkobject a) A = spec_new a (AObject []) A"
| "spec_op (Append_element p c) A = spec_array (\<lambda>cs. cs @ [c]) p c A"
| "spec_op (Prepend_element p c) A = spec_array (\<lambda>cs. c # cs) p c A"
| "spec_op (Append_member p k c) A = spec_object (\<lambda>ms. ms @ [(k, c)]) p c A"
| "spec_op (Prepend_member p k c) A = spec_object (\<lambda>ms. (k, c) # ms) p c A"
| "spec_op (Remove_from_parent c) A = (if c \<in> dom A then Some (\<lambda>p. map_option (drop_kid c) (A p)) else None)"

fun run_ops :: "('d::zero) jop list \<Rightarrow> 'd jheap \<Rightarrow> 'd jheap res" where
  "run_ops [] h = Inr h"
| "run_ops (x # xs) h = rbind (run_op x h) (run_ops xs)"

fun spec_ops :: "'d jop list \<Rightarrow> 'd forest \<Rightarrow> 'd forest option" where
  "spec_ops [] A = Some A"
| "spec_ops (x # xs) A = (case spec_op x A of None \<Rightarrow> None | Some A1 \<Rightarrow> spec_ops xs A1)"

lemma forest_new:
  assumes R: "forest_rep h A" and A: "spec_new a v A = Some A'"
    and n: "links n = (None, None, None, None)" "body_rel (cont n) v" and v: "entries v = []"
  shows "forest_rep (h(a \<mapsto> n)) A'"
proof -
  have a: "A a = None" "A' = A(a \<mapsto> v)" using A by (auto simp: spec_new_def split: if_splits)
  then have ha: "h a = None" using forest_dom [OF R] by simp
  have old: "a \<notin> set (kids w)" if "A q = Some w" for q w
    using seg_linked [OF forest_seg [OF R that], of a] ha by (auto simp: lk_def)
  have "seg ((lk h)(a \<mapsto> links n)) q None (entries w) None \<and> distinct (kids w)" if "(A(a \<mapsto> v)) q = Some w" for q w
    using that forest_seg [OF R, of q w] forest_distinct [OF R, of q w] old [of q w] v seg_upd [of a "entries w"]
    by (auto split: if_splits)
  moreover have "\<exists>w. (A(a \<mapsto> v)) q = Some w \<and> c \<in> set (kids w)" if "((lk h)(a \<mapsto> links n)) c = Some (Some q, pv, nx, k)" for c q pv nx k
    using that forest_parent [OF R, of c q pv nx k] a n(1) by (auto split: if_splits)
  moreover have "pv = None \<and> nx = None \<and> k = None" if "((lk h)(a \<mapsto> links n)) c = Some (None, pv, nx, k)" for c pv nx k
    using that forest_root [OF R, of c pv nx k] n(1) by (auto split: if_splits)
  moreover have "rel_option body_rel (((body h)(a \<mapsto> cont n)) q) ((A(a \<mapsto> v)) q)" for q
    using n(2) forest_body [OF R, of q] by simp
  ultimately show ?thesis
    unfolding a(2) forest_rep_def lk_upd body_upd by blast
qed

lemma assert_kind_ok:
  assumes "forest_rep h A" "A p = Some v" "orphan A c"
  shows "assert_kind h (tag_of v) p c = Inr ()"
proof -
  obtain n where n: "h p = Some n" "body_rel (cont n) v" using forest_some [OF assms(1,2)] .
  have "c \<in> dom A" using assms(3) by (simp add: orphan_def)
  then have "lk h c = Some (None, None, None, None)" using forest_orphan [OF assms(1)] assms(3) by blast
  then obtain m where "h c = Some m" "n_parent m = None" by (auto elim: lk_SomeE)
  then show ?thesis using n by (simp add: assert_kind_def cont_def)
qed

lemma set_key:
  assumes "lk h c = Some (None, None, None, None)"
  shows "\<exists>h1. modn h c (\<lambda>n. n\<lparr>n_key := Some k\<rparr>) = Inr h1 \<and> lk h1 = (lk h)(c \<mapsto> (None, None, None, Some k)) \<and> body h1 = body h"
  using modn_link [OF assms, of "\<lambda>n. n\<lparr>n_key := Some k\<rparr>"] by (simp add: cont_def links_def)

lemma orphan_lk: "forest_rep h A \<Longrightarrow> orphan A c \<Longrightarrow> lk h c = Some (None, None, None, None)"
  using forest_orphan by (auto simp: orphan_def)

lemma array_refines:
  assumes R: "forest_rep h A" and A: "spec_array f p c A = Some A'"
  shows "f = (\<lambda>cs. cs @ [c]) \<Longrightarrow> \<exists>h'. json_append_element h p c = Inr h' \<and> forest_rep h' A'"
    and "f = (\<lambda>cs. c # cs) \<Longrightarrow> \<exists>h'. json_prepend_element h p c = Inr h' \<and> forest_rep h' A'"
proof -
  obtain cs where cs: "A p = Some (AArray cs)" "orphan A c" "c \<noteq> p" "A' = A(p \<mapsto> AArray (f cs))"
    using A by (auto simp: spec_array_def split: option.splits aval.splits if_splits)
  note c = orphan_lk [OF R cs(2)]
  have lk: "lk h = (lk h)(c \<mapsto> (None, None, None, None))" using c by (simp add: fun_upd_idem)
  have as: "assert_kind h TAG_ARRAY p c = Inr ()" using assert_kind_ok [OF R cs(1,2)] by simp
  show "\<exists>h'. json_append_element h p c = Inr h' \<and> forest_rep h' A'" if "f = (\<lambda>cs. cs @ [c])"
    using forest_append [OF R cs(1) _ c cs(3) lk refl, of "AArray (f cs)"] as cs(4) that
    by (simp add: json_append_element_def)
  show "\<exists>h'. json_prepend_element h p c = Inr h' \<and> forest_rep h' A'" if "f = (\<lambda>cs. c # cs)"
    using forest_prepend [OF R cs(1) _ c cs(3) lk refl, of "AArray (f cs)"] as cs(4) that
    by (simp add: json_prepend_element_def)
qed

lemma object_refines:
  assumes R: "forest_rep h A" and A: "spec_object f p c A = Some A'"
  shows "f = (\<lambda>ms. ms @ [(k, c)]) \<Longrightarrow> \<exists>h'. json_append_member h p k c = Inr h' \<and> forest_rep h' A'"
    and "f = (\<lambda>ms. (k, c) # ms) \<Longrightarrow> \<exists>h'. json_prepend_member h p k c = Inr h' \<and> forest_rep h' A'"
proof -
  obtain ms where ms: "A p = Some (AObject ms)" "orphan A c" "c \<noteq> p" "A' = A(p \<mapsto> AObject (f ms))"
    using A by (auto simp: spec_object_def split: option.splits aval.splits if_splits)
  note c = orphan_lk [OF R ms(2)]
  obtain h1 where h1: "modn h c (\<lambda>n. n\<lparr>n_key := Some k\<rparr>) = Inr h1" "lk h1 = (lk h)(c \<mapsto> (None, None, None, Some k))" "body h1 = body h"
    using set_key [OF c] by blast
  have as: "assert_kind h TAG_OBJECT p c = Inr ()" using assert_kind_ok [OF R ms(1,2)] by simp
  show "\<exists>h'. json_append_member h p k c = Inr h' \<and> forest_rep h' A'" if "f = (\<lambda>ms. ms @ [(k, c)])"
    using forest_append [OF R ms(1) _ c ms(3) h1(2,3), of "AObject (f ms)"] as ms(4) that h1(1)
    by (simp add: json_append_member_def append_member_def)
  show "\<exists>h'. json_prepend_member h p k c = Inr h' \<and> forest_rep h' A'" if "f = (\<lambda>ms. (k, c) # ms)"
    using forest_prepend [OF R ms(1) _ c ms(3) h1(2,3), of "AObject (f ms)"] as ms(4) that h1(1)
    by (simp add: json_prepend_member_def)
qed

lemma remove_refines:
  assumes R: "forest_rep h A" and c: "c \<in> dom A"
  shows "\<exists>h'. json_remove_from_parent h c = Inr h' \<and> forest_rep h' (\<lambda>p. map_option (drop_kid c) (A p)) \<and>
    lk h' c = Some (None, None, None, None)"
proof (cases "orphan A c")
  case True
  then have "(\<lambda>p. map_option (drop_kid c) (A p)) = A"
    by (auto simp: fun_eq_iff orphan_def ran_def drop_kid_other intro!: option.map_ident_strong)
  moreover obtain n where "h c = Some n" "n_parent n = None"
    using orphan_lk [OF R True] by (auto elim: lk_SomeE)
  ultimately show ?thesis using R orphan_lk [OF R True] by (simp add: json_remove_from_parent_def)
next
  case False
  obtain a pv nx k where l': "lk h c = Some (a, pv, nx, k)"
    using forest_dom [OF R, of c] c by (cases "lk h c") auto
  then obtain p where "a = Some p" using forest_root [OF R] forest_orphan [OF R c] False by (cases a) auto
  note l = l' [unfolded this]
  obtain h' v where h': "json_remove_from_parent h c = Inr h'" "A p = Some v" "c \<in> set (kids v)"
      "forest_rep h' (A(p \<mapsto> drop_kid c v))" "lk h' c = Some (None, None, None, None)"
    using forest_remove [OF R l] by blast
  have "drop_kid c w = w" if "A q = Some w" "q \<noteq> p" for q w
    using seg_linked [OF forest_seg [OF R that(1)], of c] that(2) l by (force intro: drop_kid_other)
  then have "(\<lambda>q. map_option (drop_kid c) (A q)) = A(p \<mapsto> drop_kid c v)"
    using h'(2) by (auto simp: fun_eq_iff intro!: option.map_ident_strong)
  then show ?thesis using h' by simp
qed

lemmas mk_nodes = json_mknull_def json_mkbool_def json_mkstring_def mkstring_def json_mknumber_def json_mkarray_def
  json_mkobject_def mknode_def links_def cont_def

lemma op_refines:
  assumes "forest_rep h A" "spec_op x A = Some A'"
  shows "\<exists>h'. run_op x h = Inr h' \<and> forest_rep h' A'"
proof (cases x)
  case (Remove_from_parent c)
  then have "c \<in> dom A" "A' = (\<lambda>p. map_option (drop_kid c) (A p))" using assms(2) by (auto split: if_splits)
  then show ?thesis using remove_refines [OF assms(1), of c] Remove_from_parent by auto
qed (use assms in \<open>auto simp: mk_nodes json_tags intro!: forest_new array_refines object_refines\<close>)

lemma ops_refine:
  assumes "forest_rep h A" "spec_ops xs A = Some A'"
  shows "\<exists>h'. run_ops xs h = Inr h' \<and> forest_rep h' A'"
  using assms
proof (induction xs arbitrary: h A)
  case (Cons x xs)
  then obtain A1 where A1: "spec_op x A = Some A1" "spec_ops xs A1 = Some A'" by (auto split: option.splits)
  then obtain h1 where "run_op x h = Inr h1" "forest_rep h1 A1" using op_refines [OF Cons.prems(1)] by blast
  then show ?case using Cons.IH [OF _ A1(2)] by simp
qed simp

lemma forest_empty: "forest_rep Map.empty Map.empty"
  by (simp add: forest_rep_def lk_def body_def)

section \<open>Lookups\<close>

lemma forest_head:
  assumes "forest_rep h A" "A p = Some v"
  shows "\<exists>n. h p = Some n \<and> n_tag n = tag_of v \<and>
    ((tag_of v = TAG_ARRAY \<or> tag_of v = TAG_OBJECT) \<longrightarrow> n_head n = first_or (entries v) None \<and> n_tail n = last_or (entries v) None)"
proof -
  obtain n where "h p = Some n" "body_rel (cont n) v" using forest_some [OF assms] .
  then show ?thesis by (cases v) (auto simp: cont_def json_tags)
qed

lemma element_loop_seg:
  assumes "seg (lk h) p prv es None" "length es \<le> fuel"
  shows "element_loop fuel h (first_or es None) i index =
    Inr (if i \<le> index \<and> index < i + int (length es) then Some (snd (es ! nat (index - i))) else None)"
  using assms
proof (induction es arbitrary: prv fuel i)
  case (Cons e es)
  obtain k c where e: "e = (k, c)" by (cases e)
  obtain f where f: "fuel = Suc f" "length es \<le> f" using Cons.prems(2) by (cases fuel) auto
  obtain n where n: "h c = Some n" "n_next n = first_or es None"
    using Cons.prems(1) by (auto simp: e elim: lk_SomeE)
  have s: "seg (lk h) p (Some c) es None" using Cons.prems(1) by (simp add: e)
  show ?case
  proof (cases "i < index")
    case True
    then have "nat (index - i) = Suc (nat (index - (i + 1)))" by simp
    then show ?thesis using Cons.IH [OF s f(2), of "i + 1"] n f(1) e True by simp
  next
    case False
    then show ?thesis using Cons.IH [OF s f(2), of "i + 1"] n f(1) e by auto
  qed
qed simp

lemma member_loop_seg:
  assumes "seg (lk h) p prv (map (\<lambda>(k, c). (Some k, c)) ms) None" "length ms \<le> fuel"
  shows "member_loop fuel h (first_or ms None) name = Inr (map_of ms name)"
  using assms
proof (induction ms arbitrary: prv fuel)
  case (Cons m ms)
  obtain k c where m: "m = (k, c)" by (cases m)
  obtain f where f: "fuel = Suc f" "length ms \<le> f" using Cons.prems(2) by (cases fuel) auto
  have fo: "first_or (map (\<lambda>(k, c). (Some k, c)) ms) None = first_or ms None" by (cases ms) auto
  obtain n where n: "h c = Some n" "n_next n = first_or ms None" "n_key n = Some k"
    using Cons.prems(1) by (auto simp: m fo elim: lk_SomeE)
  have s: "seg (lk h) p (Some c) (map (\<lambda>(k, c). (Some k, c)) ms) None" using Cons.prems(1) by (simp add: m)
  show ?case
    using Cons.IH [OF s f(2)] n f(1) m by auto
qed simp

section \<open>Deleting a tree\<close>

text \<open>The trees below a node: the addresses with the trees of the children. \<open>spans\<close> says that a tree is what the
  forest holds below an address.\<close>

datatype jtree = JT (root: nat) (subs: "jtree list")

fun nodes :: "jtree \<Rightarrow> nat list" where
  "nodes (JT p ts) = p # concat (map nodes ts)"

fun spans :: "'d forest \<Rightarrow> jtree \<Rightarrow> bool" where
  "spans A (JT p ts) \<longleftrightarrow> (case A p of None \<Rightarrow> False | Some v \<Rightarrow> kids v = map root ts) \<and> (\<forall>t \<in> set ts. spans A t)"

definition cut :: "'d forest \<Rightarrow> jtree \<Rightarrow> 'd forest" where
  "cut A t = (\<lambda>q. if q \<in> set (nodes t) then None else map_option (drop_kid (root t)) (A q))"

lemma root_in_nodes [simp]: "root t \<in> set (nodes t)"
  by (cases t) simp

lemma spans_cong: "(\<And>q. q \<in> set (nodes t) \<Longrightarrow> A' q = A q) \<Longrightarrow> spans A t \<Longrightarrow> spans A' t"
  by (induction t) auto

lemma forest_kid_unique:
  assumes "forest_rep h A" "A p = Some v" "A q = Some w" "c \<in> set (kids v)" "c \<in> set (kids w)"
  shows "p = q"
  using seg_linked [OF forest_seg [OF assms(1,2)], of c] seg_linked [OF forest_seg [OF assms(1,3)], of c] assms(4,5) by auto

lemma forest_free:
  assumes R: "forest_rep h A" and p: "orphan A p" "A p = Some v" "entries v = []"
  shows "forest_rep (h(p := None)) (A(p := None))"
proof -
  have np: "p \<notin> set (kids w)" if "A q = Some w" for q w using p(1) that by (auto simp: orphan_def ran_def)
  have "seg ((lk h)(p := None)) q None (entries w) None \<and> distinct (kids w)" if "(A(p := None)) q = Some w" for q w
    using that forest_seg [OF R, of q w] forest_distinct [OF R, of q w] np [of q w] seg_upd [of p "entries w"]
    by (auto split: if_splits)
  moreover have "\<exists>w. (A(p := None)) q = Some w \<and> c \<in> set (kids w)" if "((lk h)(p := None)) c = Some (Some q, pv, nx, k)" for c q pv nx k
    using that forest_parent [OF R, of c q pv nx k] p(2,3) by (auto split: if_splits)
  moreover have "pv = None \<and> nx = None \<and> k = None" if "((lk h)(p := None)) c = Some (None, pv, nx, k)" for c pv nx k
    using that forest_root [OF R, of c pv nx k] by (auto split: if_splits)
  moreover have "rel_option body_rel (((body h)(p := None)) q) ((A(p := None)) q)" for q
    using forest_body [OF R, of q] by simp
  ultimately show ?thesis unfolding forest_rep_def lk_del body_del by blast
qed

text \<open>The loop over the children, given that deleting each of them works.\<close>

definition delete_ok :: "'d itself \<Rightarrow> jtree \<Rightarrow> bool" where
  "delete_ok _ t \<longleftrightarrow> (\<forall>fuel h (A :: 'd forest). forest_rep h A \<longrightarrow> spans A t \<longrightarrow> distinct (nodes t) \<longrightarrow> 2 * length (nodes t) \<le> fuel \<longrightarrow>
     (\<exists>h'. json_delete fuel h (Some (root t)) = Inr h' \<and> forest_rep h' (cut A t)))"

lemma cut_child:
  assumes "forest_rep h A" "A p = Some v" "root t \<in> set (kids v)" "p \<notin> set (nodes t)"
  shows "cut A t = (\<lambda>q. if q \<in> set (nodes t) then None else if q = p then Some (drop_kid (root t) v) else A q)"
proof
  fix q
  have "drop_kid (root t) w = w" if "A q = Some w" "q \<noteq> p" for w
    using forest_kid_unique [OF assms(1,2) that(1) assms(3)] that(2) by (intro drop_kid_other) blast
  then show "cut A t q = (if q \<in> set (nodes t) then None else if q = p then Some (drop_kid (root t) v) else A q)"
    using assms(2,4) by (cases "A q") (auto simp: cut_def)
qed

lemma delete_loop_ok:
  fixes A :: "'d forest"
  assumes "\<And>t. t \<in> set ts \<Longrightarrow> delete_ok TYPE('d) t"
    and "forest_rep h A" "A p = Some v" "kids v = map root ts" "\<And>t. t \<in> set ts \<Longrightarrow> spans A t"
    and "distinct (p # concat (map nodes ts))" "2 * length (concat (map nodes ts)) + 1 \<le> fuel"
  shows "\<exists>h' v'. delete_loop fuel h (first_or (entries v) None) = Inr h' \<and> entries v' = [] \<and> tag_of v' = tag_of v \<and>
    forest_rep h' (\<lambda>q. if q \<in> set (concat (map nodes ts)) then None else if q = p then Some v' else A q)"
  using assms
proof (induction ts arbitrary: h A v fuel)
  case Nil
  then have "(\<lambda>q. if q = p then Some v else A q) = A" by auto
  then show ?case using Nil by (intro exI [of _ h] exI [of _ v]) simp
next
  case (Cons t ts)
  obtain f where f: "fuel = Suc f" using Cons.prems(7) by (cases fuel) auto
  obtain k es where es: "entries v = (k, root t) # es" "map snd es = map root ts"
    using Cons.prems(4) by (cases "entries v") auto
  have len: "1 \<le> length (nodes t)" by (cases t) simp
  have lk: "lk h (root t) = Some (Some p, None, first_or es None, k)"
    using forest_seg [OF Cons.prems(2,3)] by (simp add: es)
  then obtain n where n: "h (root t) = Some n" "n_next n = first_or es None" by (auto elim: lk_SomeE)
  have pt: "p \<notin> set (nodes t)" using Cons.prems(6) by simp
  have rt: "root t \<in> set (kids v)" by (simp add: es)
  obtain h1 where h1: "json_delete f h (Some (root t)) = Inr h1" "forest_rep h1 (cut A t)"
  proof -
    have "2 * length (nodes t) \<le> f" "distinct (nodes t)" "spans A t" using Cons.prems f by auto
    then show thesis using Cons.prems(1) [of t] Cons.prems(2) that by (auto simp: delete_ok_def)
  qed
  let ?A = "\<lambda>q. if q \<in> set (nodes t) then None else if q = p then Some (drop_kid (root t) v) else A q"
  have R1: "forest_rep h1 ?A" using h1(2) cut_child [OF Cons.prems(2,3) rt pt] by simp
  have ed: "entries (drop_kid (root t) v) = es"
  proof -
    have "root t \<notin> snd ` set es" using forest_distinct [OF Cons.prems(2,3)] by (simp add: es(1))
    then show ?thesis by (force simp: entries_drop_kid es filter_id_conv)
  qed
  have "\<exists>h' v'. delete_loop f h1 (first_or (entries (drop_kid (root t) v)) None) = Inr h' \<and> entries v' = [] \<and>
      tag_of v' = tag_of (drop_kid (root t) v) \<and>
      forest_rep h' (\<lambda>q. if q \<in> set (concat (map nodes ts)) then None else if q = p then Some v' else ?A q)"
  proof (rule Cons.IH)
    show "?A p = Some (drop_kid (root t) v)" using pt by simp
    show "spans ?A u" if "u \<in> set ts" for u
    proof (rule spans_cong)
      show "spans A u" using Cons.prems(5) that by simp
      have "set (nodes u) \<inter> set (nodes t) = {}" "p \<notin> set (nodes u)" using Cons.prems(6) that by auto
      then show "?A q = A q" if "q \<in> set (nodes u)" for q using that by auto
    qed
  qed (use Cons.prems R1 ed es f len in auto)
  then obtain h' v' where h': "delete_loop f h1 (first_or es None) = Inr h'" "entries v' = []" "tag_of v' = tag_of v"
      "forest_rep h' (\<lambda>q. if q \<in> set (concat (map nodes ts)) then None else if q = p then Some v' else ?A q)"
    by (auto simp: ed)
  have "(\<lambda>q. if q \<in> set (concat (map nodes ts)) then None else if q = p then Some v' else ?A q) =
      (\<lambda>q. if q \<in> set (concat (map nodes (t # ts))) then None else if q = p then Some v' else A q)"
    using Cons.prems(6) by auto
  then show ?case using h' h1(1) n f es(1) by (intro exI [of _ h'] exI [of _ v']) simp
qed

lemma spans_kids:
  assumes "spans A t" "distinct (nodes t)" "q \<in> set (nodes t)" "A q = Some w"
  shows "root t \<notin> set (kids w) \<and> set (kids w) \<subseteq> set (nodes t)"
  using assms
proof (induction t)
  case (JT p ts)
  show ?case
  proof (cases "q = p")
    case True
    then have "kids w = map root ts" using JT.prems(1,4) by simp
    moreover have "root ` set ts \<subseteq> set (concat (map nodes ts))" by auto
    ultimately show ?thesis using JT.prems(2) by auto
  next
    case False
    then obtain u where u: "u \<in> set ts" "q \<in> set (nodes u)" using JT.prems(3) by auto
    moreover have "distinct (nodes u)" "p \<notin> set (nodes u)"
      using JT.prems(2) u(1) by (auto simp: distinct_concat_iff)
    ultimately show ?thesis using JT.IH [OF u(1) _ _ u(2) JT.prems(4)] JT.prems(1) by auto
  qed
qed

lemma kids_drop_kid: "set (kids (drop_kid c v)) = set (kids v) - {c}"
  by (auto simp: entries_drop_kid)

lemma json_delete_ok: "delete_ok TYPE('d) t"
proof (induction t)
  case (JT p ts)
  have "\<exists>h'. json_delete fuel h (Some p) = Inr h' \<and> forest_rep h' (cut A (JT p ts))"
    if R: "forest_rep h A" and sp: "spans A (JT p ts)" and d: "distinct (nodes (JT p ts))"
      and fl: "2 * length (nodes (JT p ts)) \<le> fuel" for fuel h and A :: "'d forest"
  proof -
    obtain f where f: "fuel = Suc f" "2 * length (concat (map nodes ts)) + 1 \<le> f" using fl by (cases fuel) auto
    obtain v where v: "A p = Some v" "kids v = map root ts" using sp by (auto split: option.splits)
    let ?A = "\<lambda>q. map_option (drop_kid p) (A q)"
    obtain h1 where h1: "json_remove_from_parent h p = Inr h1" "forest_rep h1 ?A"
      using remove_refines [OF R, of p] v by auto
    have same: "?A q = A q" if "q \<in> set (nodes (JT p ts))" for q
      using spans_kids [OF sp d that] by (cases "A q") (auto simp: drop_kid_other)
    have Ap: "?A p = Some v" using same [of p] v(1) by simp
    obtain n where n: "h1 p = Some n" "n_tag n = tag_of v"
        "tag_of v = TAG_ARRAY \<or> tag_of v = TAG_OBJECT \<Longrightarrow> n_head n = first_or (entries v) None"
      using forest_head [OF h1(2) Ap] by blast
    have sub: "spans ?A u" if "u \<in> set ts" for u
      by (rule spans_cong [of u _ A]) (use same sp that in auto)
    have dd: "distinct (p # concat (map nodes ts))" using d by simp
    obtain h2 v' where h2: "delete_loop f h1 (first_or (entries v) None) = Inr h2" "entries v' = []"
        "forest_rep h2 (\<lambda>q. if q \<in> set (concat (map nodes ts)) then None else if q = p then Some v' else ?A q)"
      using delete_loop_ok [OF JT.IH h1(2) Ap v(2) sub dd f(2)] by auto
    let ?B = "\<lambda>q. if q \<in> set (concat (map nodes ts)) then None else if q = p then Some v' else ?A q"
    have Bp: "?B p = Some v'" using d by simp
    have "p \<notin> set (kids w)" if "?B q = Some w" for q w
      using that h2(2) kids_drop_kid [of p] by (auto split: if_splits)
    then have "orphan ?B p" using Bp unfolding orphan_def ran_def by blast
    from forest_free [OF h2(3) this Bp h2(2)]
    have "forest_rep (h2(p := None)) (?B(p := None))" .
    moreover have "?B(p := None) = cut A (JT p ts)" by (auto simp: cut_def)
    moreover have "h2 p \<noteq> None" using forest_dom [OF h2(3), of p] Bp by simp
    moreover have "(if n_tag n = TAG_ARRAY \<or> n_tag n = TAG_OBJECT then delete_loop f h1 (n_head n) else Inr h1) = Inr h2"
      using n h2(1) by (cases v) (auto simp: json_tags)
    ultimately show ?thesis using f(1) h1(1) n(1) by (auto simp: getn_def)
  qed
  then show ?case by (simp add: delete_ok_def)
qed

section \<open>The checker on represented trees\<close>

text \<open>The strings of a forest are valid UTF-8.\<close>

definition strings_valid :: "'d forest \<Rightarrow> bool" where
  "strings_valid A \<longleftrightarrow> (\<forall>v \<in> ran A. (case v of AString s \<Rightarrow> utf8_validate s | AObject ms \<Rightarrow> (\<forall>m \<in> set ms. utf8_validate (fst m)) | _ \<Rightarrow> True))"

lemma strings_validD:
  assumes "strings_valid A" "A p = Some v"
  shows "v = AString s \<Longrightarrow> utf8_validate s" "(Some k, c) \<in> set (entries v) \<Longrightarrow> utf8_validate k"
proof -
  have v: "v \<in> ran A" using assms(2) by (rule ranI)
  show "v = AString s \<Longrightarrow> utf8_validate s" "(Some k, c) \<in> set (entries v) \<Longrightarrow> utf8_validate k"
    using bspec [OF assms(1) [unfolded strings_valid_def] v] by (cases v; fastforce)+
qed

definition check_ok :: "'d itself \<Rightarrow> jtree \<Rightarrow> bool" where
  "check_ok _ t \<longleftrightarrow> (\<forall>fuel h (A :: 'd forest). forest_rep h A \<longrightarrow> strings_valid A \<longrightarrow> spans A t \<longrightarrow> distinct (nodes t) \<longrightarrow>
     2 * length (nodes t) \<le> fuel \<longrightarrow> json_check fuel h (root t) = Inr None)"

lemma forest_key:
  assumes R: "forest_rep h A" "strings_valid A" and n: "h c = Some n" "n_key n = Some k"
  shows "utf8_validate k"
proof -
  have l: "lk h c = Some (n_parent n, n_prev n, n_next n, Some k)" using n by (simp add: lk_def links_def)
  obtain p where p: "n_parent n = Some p" using forest_root [OF R(1)] l by (cases "n_parent n") auto
  then obtain v where v: "A p = Some v" "c \<in> set (kids v)" using forest_parent [OF R(1)] l by metis
  obtain xs k' ys where es: "entries v = xs @ (k', c) # ys" using v(2) by (auto dest: split_list)
  have "k' = Some k" using forest_seg [OF R(1) v(1)] l by (simp add: es seg_append)
  then have "(Some k, c) \<in> set (entries v)" by (simp add: es)
  then show ?thesis by (rule strings_validD(2) [OF R(2) v(1)])
qed

text \<open>What the checker sees of one child: its links, and that its successor is neither itself nor the first.\<close>

lemma forest_child:
  assumes R: "forest_rep h A" and p: "A p = Some v" and es: "entries v = xs @ (k, c) # ys" and hp: "first_or (entries v) None = Some hp"
  shows "\<exists>n. h c = Some n \<and> n_parent n = Some p \<and> n_next n = first_or ys None \<and> n_key n = k \<and>
    first_or ys None \<noteq> Some c \<and> first_or ys None \<noteq> Some hp \<and>
    (case first_or ys None of None \<Rightarrow> Inr False | Some y \<Rightarrow> rbind (getn h y) (\<lambda>m. Inr (n_prev m \<noteq> Some c))) = Inr False"
proof -
  have s: "lk h c = Some (Some p, last_or xs None, first_or ys None, k)" "seg (lk h) p (Some c) ys None"
    using forest_seg [OF R p] by (simp_all add: es seg_append)
  have d: "distinct (map snd (xs @ (k, c) # ys))" using forest_distinct [OF R p] by (simp add: es)
  have ne: "first_or ys None \<noteq> Some c" using d ends_mem(2) [of ys c] by auto
  have "hp \<in> insert c (snd ` set xs)" using hp by (cases xs) (auto simp: es)
  then have nh: "first_or ys None \<noteq> Some hp" using d ends_mem(2) [of ys hp] by (auto simp: disjoint_iff)
  have "(case first_or ys None of None \<Rightarrow> Inr False | Some y \<Rightarrow> rbind (getn h y) (\<lambda>m. Inr (n_prev m \<noteq> Some c))) = Inr False"
  proof (cases ys)
    case (Cons y ys')
    obtain ky cy where y: "y = (ky, cy)" by (cases y)
    then obtain m where "h cy = Some m" "n_prev m = Some c" using s(2) Cons by (auto elim: lk_SomeE)
    then show ?thesis by (simp add: Cons y)
  qed simp
  then show ?thesis using s(1) ne nh by (auto elim: lk_SomeE)
qed

lemma entries_kind:
  "(k, c) \<in> set (entries v) \<Longrightarrow> (tag_of v = TAG_ARRAY \<and> k = None) \<or> (tag_of v = TAG_OBJECT \<and> k \<noteq> None)"
  by (cases v) auto

lemma check_loop_ok:
  fixes A :: "'d forest"
  assumes R: "forest_rep h A" "strings_valid A" and p: "A p = Some v" and hp: "first_or (entries v) None = Some hp"
    and ts: "\<And>t. t \<in> set ts \<Longrightarrow> check_ok TYPE('d) t" "\<And>t. t \<in> set ts \<Longrightarrow> spans A t"
    and es: "entries v = xs @ ys" "map snd ys = map root ts"
    and d: "distinct (p # concat (map nodes ts))" and fuel: "2 * length (concat (map nodes ts)) + 1 \<le> fuel"
  shows "check_loop fuel h p hp (last_or xs None) (first_or ys None) = Inr None"
  using ts es d fuel
proof (induction ts arbitrary: xs ys fuel)
  case Nil
  obtain n where "h p = Some n" "n_tail n = last_or (entries v) None"
    using forest_head [OF R(1) p] hp by (cases v) auto
  then show ?case using Nil by simp
next
  case (Cons t ts)
  obtain f where f: "fuel = Suc f" using Cons.prems(6) by (cases fuel) auto
  obtain k ys' where ys: "ys = (k, root t) # ys'" "map snd ys' = map root ts" using Cons.prems(4) by (cases ys) auto
  have len: "1 \<le> length (nodes t)" by (cases t) simp
  have e: "entries v = xs @ (k, root t) # ys'" using Cons.prems(3) by (simp add: ys)
  obtain n where n: "h (root t) = Some n" "n_parent n = Some p" "n_next n = first_or ys' None" "n_key n = k"
      "first_or ys' None \<noteq> Some (root t)" "first_or ys' None \<noteq> Some hp"
      "(case first_or ys' None of None \<Rightarrow> Inr False | Some y \<Rightarrow> rbind (getn h y) (\<lambda>m. Inr (n_prev m \<noteq> Some (root t)))) = Inr False"
    using forest_child [OF R(1) p e hp] by blast
  have kind: "(tag_of v = TAG_ARRAY \<and> k = None) \<or> (tag_of v = TAG_OBJECT \<and> k \<noteq> None)"
    by (rule entries_kind [of k "root t"]) (simp add: e)
  obtain m where m: "h p = Some m" "n_tag m = tag_of v" using forest_head [OF R(1) p] by blast
  have "root t \<noteq> p" using Cons.prems(5) root_in_nodes [of t] by auto
  moreover have "json_check f h (root t) = Inr None"
  proof -
    have "2 * length (nodes t) \<le> f" "distinct (nodes t)" "spans A t" using Cons.prems f by auto
    then show ?thesis using Cons.prems(1) [of t] R by (auto simp: check_ok_def)
  qed
  moreover have "check_loop f h p hp (last_or (xs @ [(k, root t)]) None) (first_or ys' None) = Inr None"
    by (rule Cons.IH) (use Cons.prems ys f len in auto)
  ultimately show ?case using n kind m f by (auto simp: ys json_tags)
qed

lemma json_check_ok: "check_ok TYPE('d) t"
proof (induction t)
  case (JT p ts)
  have "json_check fuel h p = Inr None"
    if R: "forest_rep h A" "strings_valid A" and sp: "spans A (JT p ts)" and d: "distinct (nodes (JT p ts))"
      and fl: "2 * length (nodes (JT p ts)) \<le> fuel" for fuel h and A :: "'d forest"
  proof -
    obtain f where f: "fuel = Suc f" "2 * length (concat (map nodes ts)) + 1 \<le> f" using fl by (cases fuel) auto
    obtain v where v: "A p = Some v" "kids v = map root ts" using sp by (auto split: option.splits)
    obtain n where n: "h p = Some n" "body_rel (cont n) v" using forest_some [OF R(1) v(1)] .
    have key: "\<not> (case n_key n of None \<Rightarrow> False | Some k \<Rightarrow> \<not> utf8_validate k)"
      using forest_key [OF R n(1)] by (auto split: option.split)
    have tag: "n_tag n = tag_of v" "tag_is_valid (tag_of v)"
      using n(2) by (cases v; simp add: cont_def tag_is_valid_def json_tags)+
    have loop: "check_loop f h p hp None (Some hp) = Inr None" if "first_or (entries v) None = Some hp" for hp
      using check_loop_ok [OF R v(1) that JT.IH, of ts "[]" "entries v" f] sp d f v(2) that by auto
    have head: "\<exists>m. h hp = Some m \<and> n_prev m = None" if hp: "first_or (entries v) None = Some hp" for hp
    proof -
      obtain es k where "entries v = (k, hp) # es" using first_or_SomeD [OF hp] by blast
      then show ?thesis using forest_seg [OF R(1) v(1)] by (auto elim: lk_SomeE)
    qed
    show ?thesis
    proof (cases "tag_of v = TAG_ARRAY \<or> tag_of v = TAG_OBJECT")
      case True
      then have "n_head n = first_or (entries v) None" "n_tail n = last_or (entries v) None"
        using n(2) by (cases v; simp add: cont_def json_tags)+
      moreover have "first_or (entries v) None = None \<longleftrightarrow> last_or (entries v) None = None"
        by (cases "entries v") (simp_all add: last_or_def)
      ultimately show ?thesis
        using True n(1) key tag loop head f(1)
        by (cases "first_or (entries v) None") (auto simp: json_tags)
    next
      case False
      then show ?thesis
        using n key tag f(1) strings_validD(1) [OF R(2) v(1)] by (cases v) (auto simp: json_tags cont_def)
    qed
  qed
  then show ?case by (simp add: check_ok_def)
qed

section \<open>A sample forest\<close>

definition sample_ops :: "int jop list" where
  "sample_ops = [Mkobject 1, Mkarray 2, Mknumber 3 7, Mkstring 4 (bs ''x''), Append_element 2 3, Prepend_element 2 4,
     Append_member 1 (bs ''a'') 2]"

definition sample_forest :: "int forest" where
  "sample_forest = [1 \<mapsto> AObject [(bs ''a'', 2)], 2 \<mapsto> AArray [4, 3], 3 \<mapsto> ANumber 7, 4 \<mapsto> AString (bs ''x'')]"

definition sample_tree :: jtree where
  "sample_tree = JT 1 [JT 2 [JT 4 [], JT 3 []]]"

lemma sample_spec: "spec_ops sample_ops Map.empty = Some sample_forest"
  by (auto simp: sample_ops_def sample_forest_def spec_new_def spec_array_def spec_object_def orphan_def fun_eq_iff)

lemma sample_spans: "spans sample_forest sample_tree" "distinct (nodes sample_tree)" "2 * length (nodes sample_tree) \<le> 8"
  by (simp_all add: sample_forest_def sample_tree_def)

lemma sample_built: "\<exists>h. run_ops sample_ops Map.empty = Inr h \<and> forest_rep h sample_forest"
  using ops_refine [OF forest_empty sample_spec] .

text \<open>Two arrays appended to each other.\<close>

definition cycle_heap :: "int jheap" where
  "cycle_heap = [1 \<mapsto> (mknode TAG_ARRAY)\<lparr>n_parent := Some 2, n_head := Some 2, n_tail := Some 2\<rparr>,
                 2 \<mapsto> (mknode TAG_ARRAY)\<lparr>n_parent := Some 1, n_head := Some 1, n_tail := Some 1\<rparr>]"

lemma cycle_loops:
  "json_check fuel cycle_heap 1 = Inl Out_of_fuel \<and> json_check fuel cycle_heap 2 = Inl Out_of_fuel \<and>
   check_loop fuel cycle_heap 1 2 None (Some 2) = Inl Out_of_fuel \<and> check_loop fuel cycle_heap 2 1 None (Some 1) = Inl Out_of_fuel"
proof (induction fuel)
  case (Suc fuel)
  then show ?case by (simp add: cycle_heap_def mknode_def getn_def tag_is_valid_def json_tags)
qed simp

section \<open>Properties\<close>

text \<open>(C6) The operations on linked nodes implement the operations on lists: any sequence of creations, insertions
  and removals that the specification allows runs without a failed assertion and without following a dangling
  pointer, and the heap then represents the forest of the specification. In it arrays are lists of addresses
  and objects lists of keys with addresses, so the order of the elements, the keys and the absence of sharing are
  those of the lists.\<close>

theorem json_ops_refine:
  assumes "forest_rep h A" "spec_ops xs A = Some A'"
  shows "\<exists>h'. run_ops xs h = Inr h' \<and> forest_rep h' A'"
  using assms by (rule ops_refine)

theorem json_ops_refine_witness:
  "\<exists>h. run_ops sample_ops Map.empty = Inr h \<and> forest_rep h sample_forest"
  using json_ops_refine [OF forest_empty sample_spec] .

text \<open>Lookups: on a represented forest \<open>json_find_element\<close> returns the element at the index and nothing outside
  the range, negative indexes included; \<open>json_find_member\<close> returns the first member with the name;
  both end after as many steps as there are children.\<close>

theorem json_lookups_correct:
  assumes "forest_rep h A" "A p = Some (AArray cs)" "A q = Some (AObject ms)" "length cs \<le> fuel" "length ms \<le> fuel"
  shows "json_find_element fuel h (Some p) i = Inr (if 0 \<le> i \<and> i < int (length cs) then Some (cs ! nat i) else None)"
    and "json_find_member fuel h (Some q) name = Inr (map_of ms name)"
    and "json_find_member fuel h (Some p) name = Inr None" "json_find_element fuel h (Some q) i = Inr None"
proof -
  obtain n where n: "h p = Some n" "n_tag n = TAG_ARRAY" "n_head n = first_or (entries (AArray cs :: 'a aval)) None"
    using forest_head [OF assms(1,2)] by auto
  obtain m where m: "h q = Some m" "n_tag m = TAG_OBJECT" "n_head m = first_or (entries (AObject ms :: 'a aval)) None"
    using forest_head [OF assms(1,3)] by auto
  have fo: "first_or (entries (AObject ms :: 'a aval)) None = first_or ms None" by (cases ms) auto
  show "json_find_element fuel h (Some p) i = Inr (if 0 \<le> i \<and> i < int (length cs) then Some (cs ! nat i) else None)"
    using element_loop_seg [OF forest_seg [OF assms(1,2)], of fuel 0 i] assms(4) n
    by (auto simp: json_find_element_def json_first_child_def nat_less_iff)
  show "json_find_member fuel h (Some q) name = Inr (map_of ms name)"
    using member_loop_seg [of h q None ms fuel name] forest_seg [OF assms(1,3)] assms(5) m fo
    by (simp add: json_find_member_def json_first_child_def)
  show "json_find_member fuel h (Some p) name = Inr None" "json_find_element fuel h (Some q) i = Inr None"
    using n m by (simp_all add: json_find_member_def json_find_element_def json_tags)
qed

theorem json_lookups_correct_witness:
  "\<exists>h. run_ops sample_ops Map.empty = Inr h \<and> json_find_element 2 h (Some 2) 1 = Inr (Some 3) \<and>
     json_find_element 2 h (Some 2) (- 1) = Inr None \<and> json_find_member 2 h (Some 1) (bs ''a'') = Inr (Some 2)"
proof -
  obtain h where h: "run_ops sample_ops Map.empty = Inr h" "forest_rep h sample_forest" using sample_built by blast
  have A: "sample_forest 2 = Some (AArray [4, 3])" "sample_forest 1 = Some (AObject [(bs ''a'', 2)])"
    by (simp_all add: sample_forest_def)
  show ?thesis
    using h(1) json_lookups_correct(1) [OF h(2) A, of 2 1] json_lookups_correct(1) [OF h(2) A, of 2 "- 1"]
      json_lookups_correct(2) [OF h(2) A, of 2 "bs ''a''"] by simp
qed

text \<open>(C7) \<open>json_delete\<close> frees exactly the tree below its argument: it ends, follows no dangling pointer, frees no node
  twice, and what is left represents the forest with the tree cut off from its parent.\<close>

theorem json_delete_frees:
  assumes "forest_rep h A" "spans A t" "distinct (nodes t)" "2 * length (nodes t) \<le> fuel"
  shows "\<exists>h'. json_delete fuel h (Some (root t)) = Inr h' \<and> dom h' = dom h - set (nodes t) \<and> forest_rep h' (cut A t)"
proof -
  obtain h' where h': "json_delete fuel h (Some (root t)) = Inr h'" "forest_rep h' (cut A t)"
    using json_delete_ok [of t] assms unfolding delete_ok_def by blast
  have "dom h' = dom h - set (nodes t)"
    using forest_dom [OF h'(2)] forest_dom [OF assms(1)] by (auto simp: dom_def cut_def split: if_splits)
  then show ?thesis using h' by blast
qed

theorem json_delete_frees_witness:
  "\<exists>h h'. run_ops sample_ops Map.empty = Inr h \<and> json_delete 8 h (Some 1) = Inr h' \<and> dom h' = {}"
proof -
  obtain h where h: "run_ops sample_ops Map.empty = Inr h" "forest_rep h sample_forest" using sample_built by blast
  obtain h' where h': "json_delete 8 h (Some (root sample_tree)) = Inr h'" "dom h' = dom h - set (nodes sample_tree)"
    using json_delete_frees [OF h(2) sample_spans] by blast
  have "dom h \<subseteq> {1, 2, 3, 4}"
    using forest_dom [OF h(2)] by (auto simp: dom_def sample_forest_def split: if_splits)
  then have "dom h' = {}" using h'(2) by (auto simp: sample_tree_def)
  then show ?thesis using h(1) h'(1) by (auto simp: sample_tree_def)
qed

text \<open>The checker accepts every heap that represents a tree of valid strings, and ends on it.\<close>

theorem json_check_accepts:
  assumes "forest_rep h A" "strings_valid A" "spans A t" "distinct (nodes t)" "2 * length (nodes t) \<le> fuel"
  shows "json_check fuel h (root t) = Inr None"
  using json_check_ok [of t] assms unfolding check_ok_def by blast

theorem json_check_accepts_witness:
  "\<exists>h. run_ops sample_ops Map.empty = Inr h \<and> json_check 8 h 1 = Inr None"
proof -
  obtain h where h: "run_ops sample_ops Map.empty = Inr h" "forest_rep h sample_forest" using sample_built by blast
  have "utf8_validate (bs ''x'')" "utf8_validate (bs ''a'')" by code_simp+
  then have "strings_valid sample_forest" by (auto simp: strings_valid_def sample_forest_def ran_def split: if_splits)
  from json_check_accepts [OF h(2) this sample_spans] show ?thesis
    using h(1) by (auto simp: sample_tree_def)
qed

text \<open>The checker does not always return: two arrays that are appended to each other pass the
  assertions of \<open>json_append_element\<close>, and then \<open>json_check\<close> recurses for ever, whatever the fuel.\<close>

theorem json_check_diverges:
  "\<exists>h :: int jheap. run_ops [Mkarray 1, Mkarray 2, Append_element 1 2, Append_element 2 1] Map.empty = Inr h \<and>
     (\<forall>fuel. json_check fuel h 1 = Inl Out_of_fuel)"
proof -
  have "run_ops [Mkarray 1, Mkarray 2, Append_element 1 2, Append_element 2 1] Map.empty = Inr cycle_heap"
    by (simp add: json_append_element_def assert_kind_def append_node_def json_mkarray_def cycle_heap_def mknode_def fun_upd_twist)
  then show ?thesis using cycle_loops by blast
qed

end
