(* ===== verification/Http_Text.thy ===== *)
theory Http_Text
  imports Kore_Str Kore_Buf
begin

text \<open>
  Requests of \<open>base/kore/http.h\<close> as data, and the parts of \<open>base/kore/http.c\<close> that work on text: headers,
  arguments and their typed access, URL decoding in place, the query string, and the tables of
  status and method names.

  Strings a request owns are values; \<open>None\<close> is \<open>NULL\<close>. A flag word is the record of its bits. The
  application's own pointers of a request (\<open>data\<close>) are left out.
\<close>

section \<open>Requests\<close>

definition HTTP_METHOD_GET :: int where "HTTP_METHOD_GET = 0"
definition HTTP_METHOD_POST :: int where "HTTP_METHOD_POST = 1"
definition HTTP_METHOD_PUT :: int where "HTTP_METHOD_PUT = 2"
definition HTTP_METHOD_DELETE :: int where "HTTP_METHOD_DELETE = 3"
definition HTTP_METHOD_HEAD :: int where "HTTP_METHOD_HEAD = 4"

lemmas http_methods = HTTP_METHOD_GET_def HTTP_METHOD_POST_def HTTP_METHOD_PUT_def HTTP_METHOD_DELETE_def
  HTTP_METHOD_HEAD_def

record http_header =
  hdr_header :: "byte list"
  hdr_value :: "byte list"

record http_arg =
  q_name :: "byte list"
  s_value :: "byte list"

record http_file =
  f_name :: "byte list"
  f_filename :: "byte list"
  f_position :: nat
  f_offset :: nat
  f_length :: nat

text \<open>A body that was offloaded to disk: the bytes of the file, the position of its descriptor, and what the next
  calls of \<open>read\<close> on it will do: be interrupted, fail, or return at most so many bytes (but at least one where there is one).
  Later calls return all that was asked for.\<close>

datatype fread = Fr_intr | Fr_error | Fr_take nat

record body_file =
  bf_data :: "byte list"
  bf_pos :: nat
  bf_reads :: "fread list"

record http_request =
  rq_method :: int
  fsm_state :: nat
  rq_complete :: bool
  rq_delete :: bool
  rq_sleeping :: bool
  rq_pgsql_queue :: bool
  rq_expect_body :: bool
  rq_retain_extra :: bool
  rq_no_content_length :: bool
  rq_authed :: bool
  rq_status :: int
  rq_start :: u64
  rq_end :: u64
  rq_total :: u64
  rq_host :: "byte list"
  rq_path :: "byte list"
  rq_agent :: "byte list option"
  rq_owner :: nat
  http_body :: "kore_buf option"
  http_body_fd :: "body_file option"
  http_body_path :: "byte list option"
  http_body_length :: nat
  http_body_offset :: nat
  content_length :: nat
  rq_hdlr_extra :: "nat option"
  query_string :: "byte list option"
  rq_hdlr :: nat
  req_headers :: "http_header list"
  resp_headers :: "http_header list"
  rq_arguments :: "http_arg list"
  rq_files :: "http_file list"

section \<open>Names\<close>

definition http_status_text :: "int \<Rightarrow> byte list" where
  "http_status_text status =
     (if status = 100 then bs ''Continue''
      else if status = 101 then bs ''Switching Protocols''
      else if status = 200 then bs ''OK''
      else if status = 201 then bs ''Created''
      else if status = 202 then bs ''Accepted''
      else if status = 203 then bs ''Non-Authoritative Information''
      else if status = 204 then bs ''No Content''
      else if status = 205 then bs ''Reset Content''
      else if status = 206 then bs ''Partial Content''
      else if status = 300 then bs ''Multiple Choices''
      else if status = 301 then bs ''Moved Permanently''
      else if status = 302 then bs ''Found''
      else if status = 303 then bs ''See Other''
      else if status = 304 then bs ''Not Modified''
      else if status = 305 then bs ''Use Proxy''
      else if status = 307 then bs ''Temporary Redirect''
      else if status = 400 then bs ''Bad Request''
      else if status = 401 then bs ''Unauthorized''
      else if status = 402 then bs ''Payment Required''
      else if status = 403 then bs ''Forbidden''
      else if status = 404 then bs ''Not Found''
      else if status = 405 then bs ''Method Not Allowed''
      else if status = 406 then bs ''Not Acceptable''
      else if status = 407 then bs ''Proxy Authentication Required''
      else if status = 408 then bs ''Request Time-out''
      else if status = 409 then bs ''Conflict''
      else if status = 410 then bs ''Gone''
      else if status = 411 then bs ''Length Required''
      else if status = 412 then bs ''Precondition Failed''
      else if status = 413 then bs ''Request Entity Too Large''
      else if status = 414 then bs ''Request-URI Too Large''
      else if status = 415 then bs ''Unsupported Media Type''
      else if status = 416 then bs ''Requested range not satisfiable''
      else if status = 417 then bs ''Expectation Failed''
      else if status = 500 then bs ''Internal Server Error''
      else if status = 501 then bs ''Not Implemented''
      else if status = 502 then bs ''Bad Gateway''
      else if status = 503 then bs ''Service Unavailable''
      else if status = 504 then bs ''Gateway Time-out''
      else if status = 505 then bs ''HTTP Version not supported''
      else [])"

definition http_method_text :: "int \<Rightarrow> byte list" where
  "http_method_text m =
     (if m = HTTP_METHOD_GET then bs ''GET''
      else if m = HTTP_METHOD_POST then bs ''POST''
      else if m = HTTP_METHOD_PUT then bs ''PUT''
      else if m = HTTP_METHOD_DELETE then bs ''DELETE''
      else if m = HTTP_METHOD_HEAD then bs ''HEAD''
      else [])"

section \<open>Headers\<close>

text \<open>\<open>*out\<close>, or \<open>None\<close> for \<open>KORE_RESULT_ERROR\<close>.\<close>

definition http_request_header :: "('a) http_request_scheme \<Rightarrow> byte list \<Rightarrow> byte list option" where
  "http_request_header req header =
     map_option hdr_value (find (\<lambda>hdr. strcaseeq (hdr_header hdr) header) (req_headers req))"

definition http_response_header :: "'a http_request_scheme \<Rightarrow> byte list \<Rightarrow> byte list \<Rightarrow> 'a http_request_scheme" where
  "http_response_header req header val =
     req\<lparr>resp_headers := resp_headers req @ [\<lparr>hdr_header = header, hdr_value = val\<rparr>]\<rparr>"

section \<open>Arguments\<close>

definition http_argument_add :: "'a http_request_scheme \<Rightarrow> byte list \<Rightarrow> byte list \<Rightarrow> 'a http_request_scheme" where
  "http_argument_add req name val = req\<lparr>rq_arguments := rq_arguments req @ [\<lparr>q_name = name, s_value = val\<rparr>]\<rparr>"

text \<open>The names of the types, \<open>Other\<close> for every other number.\<close>

datatype http_arg_type = HTTP_ARG_TYPE_RAW | HTTP_ARG_TYPE_BYTE | HTTP_ARG_TYPE_INT16 | HTTP_ARG_TYPE_UINT16
  | HTTP_ARG_TYPE_INT32 | HTTP_ARG_TYPE_UINT32 | HTTP_ARG_TYPE_STRING | HTTP_ARG_TYPE_INT64 | HTTP_ARG_TYPE_UINT64
  | HTTP_ARG_TYPE_other

text \<open>What is stored through \<open>out\<close> or \<open>nout\<close>.\<close>

datatype arg_out = Str "byte list" | Num int

text \<open>\<open>COPY_AS_INTTYPE\<close>: \<open>have_nout\<close> says that \<open>nout\<close> is not \<open>NULL\<close>.\<close>

definition COPY_AS_INTTYPE :: "bool \<Rightarrow> byte list \<Rightarrow> int \<Rightarrow> int \<Rightarrow> arg_out option res" where
  "COPY_AS_INTTYPE have_nout s mn mx =
     (if \<not> have_nout then Inr None
      else case kore_strtonum s 10 mn mx of (nval, err) \<Rightarrow>
        if err \<noteq> KORE_RESULT_OK then Inr None else Inr (Some (Num nval)))"

definition to_int64 :: "int \<Rightarrow> int" where
  "to_int64 v = (if v < 2 ^ 63 then v else v - 2 ^ 64)"

definition COPY_AS_INTTYPE_64 :: "bool \<Rightarrow> bool \<Rightarrow> byte list \<Rightarrow> bool \<Rightarrow> arg_out option res" where
  "COPY_AS_INTTYPE_64 errno0 have_nout s sign =
     (if \<not> have_nout then Inr None
      else case kore_strtonum64 errno0 s sign of (nval, err) \<Rightarrow>
        if err \<noteq> KORE_RESULT_OK then Inr None else Inr (Some (Num (if sign then to_int64 nval else nval))))"

text \<open>The result is \<open>None\<close> for \<open>KORE_RESULT_ERROR\<close>; storing through a null pointer is a fault.\<close>

definition http_argument_get ::
    "bool \<Rightarrow> 'a http_request_scheme \<Rightarrow> byte list \<Rightarrow> bool \<Rightarrow> bool \<Rightarrow> http_arg_type \<Rightarrow> arg_out option res" where
  "http_argument_get errno0 req name have_out have_nout type =
     (case find (\<lambda>q. q_name q = name) (rq_arguments req) of
        None \<Rightarrow> Inr None
      | Some q \<Rightarrow>
          (case type of
             HTTP_ARG_TYPE_RAW \<Rightarrow> if have_out then Inr (Some (Str (s_value q))) else Inl Null_deref
           | HTTP_ARG_TYPE_BYTE \<Rightarrow>
               if have_nout then Inr (Some (Num (case s_value q of [] \<Rightarrow> 0 | c # _ \<Rightarrow> uint c))) else Inl Null_deref
           | HTTP_ARG_TYPE_INT16 \<Rightarrow> COPY_AS_INTTYPE have_nout (s_value q) (- (2 ^ 15)) (2 ^ 15 - 1)
           | HTTP_ARG_TYPE_UINT16 \<Rightarrow> COPY_AS_INTTYPE have_nout (s_value q) 0 (2 ^ 16 - 1)
           | HTTP_ARG_TYPE_INT32 \<Rightarrow> COPY_AS_INTTYPE have_nout (s_value q) (- (2 ^ 31)) (2 ^ 31 - 1)
           | HTTP_ARG_TYPE_UINT32 \<Rightarrow> COPY_AS_INTTYPE have_nout (s_value q) 0 (2 ^ 32 - 1)
           | HTTP_ARG_TYPE_INT64 \<Rightarrow> COPY_AS_INTTYPE_64 errno0 have_nout (s_value q) True
           | HTTP_ARG_TYPE_UINT64 \<Rightarrow> COPY_AS_INTTYPE_64 errno0 have_nout (s_value q) False
           | HTTP_ARG_TYPE_STRING \<Rightarrow> if have_out then Inr (Some (Str (s_value q))) else Inl Null_deref
           | HTTP_ARG_TYPE_other \<Rightarrow> Inr None))"

section \<open>The query string\<close>

definition HTTP_MAX_QUERY_ARGS :: nat where "HTTP_MAX_QUERY_ARGS = 20"

text \<open>The loop over the fields that \<open>http_populate_get\<close> and \<open>http_populate_post\<close> have in common.\<close>

fun add_args :: "'a http_request_scheme \<Rightarrow> byte list list \<Rightarrow> 'a http_request_scheme" where
  "add_args req [] = req"
| "add_args req (a # as) =
     (case kore_split_string a (bs ''='') 3 of
        v0 # v1 # _ \<Rightarrow> add_args (http_argument_add req v0 v1) as
      | _ \<Rightarrow> add_args req as)"

definition http_populate_get :: "'a http_request_scheme \<Rightarrow> 'a http_request_scheme" where
  "http_populate_get req =
     (case query_string req of
        None \<Rightarrow> req
      | Some query \<Rightarrow> add_args req (kore_split_string query (bs ''&'') HTTP_MAX_QUERY_ARGS))"

section \<open>URL decoding\<close>

text \<open>\<open>http_argument_urldecode\<close> works in place: \<open>arg\<close> is the whole block, \<open>i\<close> the offset of \<open>in\<close> and \<open>p\<close> that of
  the read pointer.\<close>

function urldecode_loop :: "byte list \<Rightarrow> nat \<Rightarrow> nat \<Rightarrow> nat \<Rightarrow> int \<times> byte list" where
  "urldecode_loop arg len i p =
     (if arg ! p \<noteq> 0 \<and> p < len then
        let arg1 = (if arg ! p = ch (CHR ''+'') then arg[p := ch (CHR '' '')] else arg) in
        if arg1 ! p \<noteq> ch (CHR ''%'') then urldecode_loop (arg1[i := arg1 ! p]) len (i + 1) (p + 1)
        else if p + 2 \<ge> len then (KORE_RESULT_ERROR, arg1)
        else if \<not> isxdigit (arg1 ! (p + 1)) \<or> \<not> isxdigit (arg1 ! (p + 2))
          then urldecode_loop (arg1[i := arg1 ! p]) len (i + 1) (p + 1)
        else case kore_strtonum [ch (CHR ''0''), ch (CHR ''x''), arg1 ! (p + 1), arg1 ! (p + 2)] 16 0 255 of (v, err) \<Rightarrow>
          if err \<noteq> KORE_RESULT_OK then (err, arg1)
          else urldecode_loop (arg1[i := word_of_int v]) len (i + 1) (p + 3)
      else (KORE_RESULT_OK, arg[i := 0]))"
  by pat_completeness auto
termination by (relation "measure (\<lambda>(arg, len, i, p). len - p)") auto

declare urldecode_loop.simps [simp del]

text \<open>\<open>s\<close> is the string at \<open>arg\<close>; the result is the return code and the block afterwards.\<close>

definition http_argument_urldecode :: "byte list \<Rightarrow> int \<times> byte list" where
  "http_argument_urldecode s = urldecode_loop (s @ [0]) (length s) 0 0"

section \<open>URL decoding against a reference\<close>

text \<open>The text a percent-encoded text stands for. A percent sign that no two hex digits follow is kept,
  unless fewer than two characters are left, which is an error.\<close>

definition hex_byte :: "byte \<Rightarrow> byte \<Rightarrow> byte" where
  "hex_byte a b = of_nat (16 * the (digit_val a) + the (digit_val b))"

fun urldec :: "byte list \<Rightarrow> byte list option" where
  "urldec [] = Some []"
| "urldec (c # cs) =
     (if c = ch (CHR ''%'') then
        (case cs of
           a # b # r \<Rightarrow>
             if isxdigit a \<and> isxdigit b then map_option ((#) (hex_byte a b)) (urldec r)
             else map_option ((#) c) (urldec cs)
         | _ \<Rightarrow> None)
      else map_option ((#) (if c = ch (CHR ''+'') then ch (CHR '' '') else c)) (urldec cs))"

lemma isxdigit_digit_val:
  assumes "isxdigit c"
  obtains v where "digit_val c = Some v" "v < 16" "\<not> isspace c" "c \<noteq> 45" "c \<noteq> 43"
proof -
  have "48 \<le> unat c" using assms by (auto simp: isxdigit_def isdigit_def word_le_nat_alt)
  then have ne: "\<not> isspace c" "c \<noteq> 45" "c \<noteq> 43" by (auto simp: isspace_def word_le_nat_alt)
  consider "isdigit c" | "\<not> isdigit c" "65 \<le> c" "c \<le> 70" | "\<not> isdigit c" "97 \<le> c" "c \<le> 102"
    using assms by (auto simp: isxdigit_def)
  then show thesis
    by cases (rule that [OF _ _ ne], auto simp: digit_val_def isdigit_def word_le_nat_alt)+
qed

lemma kore_strtonum_hex_pair:
  assumes "isxdigit a" "isxdigit b"
  shows "kore_strtonum [ch (CHR ''0''), ch (CHR ''x''), a, b] 16 0 255 =
    (int (16 * the (digit_val a) + the (digit_val b)), KORE_RESULT_OK)"
proof -
  from isxdigit_digit_val [OF assms(1)] obtain v where v: "digit_val a = Some v" "v < 16" by blast
  from isxdigit_digit_val [OF assms(2)] obtain w where w: "digit_val b = Some w" "w < 16" by blast
  have "scan_num 16 [ch (CHR ''0''), ch (CHR ''x''), a, b] = Some (False, 16 * v + w, [])"
    using v w by (simp add: scan_num_def skip_sign_def isspace_def skip_0x_def is_base_digit_def digits_val_def)
  then show ?thesis using v w
    by (simp add: kore_strtonum_def strtoll_def LLONG_MIN_def LLONG_MAX_def)
qed

lemma put_in_place:
  "u \<noteq> [] \<Longrightarrow> (out @ junk @ u @ r)[length out := v] = (out @ [v]) @ tl (junk @ u) @ r"
  by (cases junk) (auto simp: neq_Nil_conv)

text \<open>The loop in the middle of its work: \<open>out\<close> is written, \<open>junk\<close> lies between the pointers, \<open>s\<close> is still to
  be read.\<close>

definition urldecode_at :: "byte list \<Rightarrow> byte list \<Rightarrow> byte list \<Rightarrow> int \<times> byte list" where
  "urldecode_at out junk s = urldecode_loop (out @ junk @ s @ [0]) (length out + length junk + length s)
     (length out) (length out + length junk)"

lemma urldecode_at_Nil: "urldecode_at out junk [] = (KORE_RESULT_OK, out @ 0 # tl (junk @ [0]))"
proof -
  have "(out @ junk @ [0])[length out := 0] = out @ 0 # tl (junk @ [0])"
    using put_in_place [of "[0]" out junk "[]"] by simp
  then show ?thesis by (simp add: urldecode_at_def urldecode_loop.simps nth_append)
qed

lemma nth_past: "(out @ junk @ xs) ! (length out + length junk + k) = xs ! k"
  by (simp add: nth_append)

lemma urldecode_at_plain:
  assumes "c \<noteq> 0" "c \<noteq> 37"
  shows "urldecode_at out junk (c # cs) =
    (let d = if c = 43 then 32 else c in urldecode_at (out @ [d]) (tl (junk @ [d])) cs)"
proof (cases "c = 43")
  case True
  have upd: "(out @ junk @ 43 # cs @ [0])[length out + length junk := 32] = out @ junk @ 32 # cs @ [0]"
    by (simp add: list_update_append)
  show ?thesis
    using True upd nth_past [of out junk "32 # cs @ [0]" 0] put_in_place [of "[32]" out junk "cs @ [0]" 32]
      nth_past [of out junk "43 # cs @ [0]" 0]
    by (simp add: urldecode_at_def urldecode_loop.simps [of "out @ junk @ 43 # cs @ [0]"] Let_def)
next
  case False
  then show ?thesis
    using assms nth_past [of out junk "c # cs @ [0]" 0] put_in_place [of "[c]" out junk "cs @ [0]" c]
    by (simp add: urldecode_at_def urldecode_loop.simps [of "out @ junk @ c # cs @ [0]"] Let_def)
qed

lemma urldecode_at_percent:
  "urldecode_at out junk (37 # cs) =
    (if length cs < 2 then (KORE_RESULT_ERROR, out @ junk @ 37 # cs @ [0])
     else if isxdigit (cs ! 0) \<and> isxdigit (cs ! 1)
       then urldecode_at (out @ [hex_byte (cs ! 0) (cs ! 1)]) (tl (junk @ [37, cs ! 0, cs ! 1])) (drop 2 cs)
     else urldecode_at (out @ [37]) (tl (junk @ [37])) cs)"
proof (cases "length cs < 2")
  case True
  then show ?thesis using nth_past [of out junk "37 # cs @ [0]" 0]
    by (simp add: urldecode_at_def urldecode_loop.simps [of "out @ junk @ 37 # cs @ [0]"])
next
  case False
  then obtain a b r where cs: "cs = a # b # r" by (cases cs; cases "tl cs") auto
  note at = nth_past [of out junk "37 # a # b # r @ [0]" 0] nth_past [of out junk "37 # a # b # r @ [0]" 1]
    nth_past [of out junk "37 # a # b # r @ [0]" 2]
  show ?thesis
    using at put_in_place [of "[37]" out junk "a # b # r @ [0]" 37]
      put_in_place [of "[37, a, b]" out junk "r @ [0]" "hex_byte a b"] kore_strtonum_hex_pair [of a b]
    by (auto simp: urldecode_at_def urldecode_loop.simps [of "out @ junk @ 37 # a # b # r @ [0]"] cs Let_def hex_byte_def
        numeral_3_eq_3)
qed

lemma urldecode_at_ok:
  assumes "0 \<notin> set s"
  shows "case urldec s of
       None \<Rightarrow> fst (urldecode_at out junk s) = KORE_RESULT_ERROR
     | Some t \<Rightarrow> \<exists>rest. urldecode_at out junk s = (KORE_RESULT_OK, out @ t @ 0 # rest)"
  using assms
proof (induction s arbitrary: out junk rule: urldec.induct)
  case 1
  show ?case by (simp add: urldecode_at_Nil)
next
  case (2 c cs)
  show ?case
  proof (cases "c = 37")
    case False
    define d where "d = (if c = 43 then 32 else c :: byte)"
    from "2.IH"(3) [of "out @ [d]" "tl (junk @ [d])"] "2.prems" False show ?thesis
      by (auto simp: urldecode_at_plain d_def Let_def split: option.splits)
  next
    case True
    show ?thesis
    proof (cases "length cs < 2")
      case True
      with \<open>c = 37\<close> show ?thesis by (cases cs; cases "tl cs") (simp_all add: urldecode_at_percent)
    next
      case False
      then obtain a b r where cs: "cs = a # b # r" by (cases cs; cases "tl cs") auto
      have z: "0 \<notin> set r" "0 \<notin> set cs" using "2.prems" cs by auto
      show ?thesis
      proof (cases "isxdigit a \<and> isxdigit b")
        case True
        from "2.IH"(1) [OF _ cs refl True z(1), of "out @ [hex_byte a b]" "tl (junk @ [37, a, b])"] \<open>c = 37\<close>
        show ?thesis using True by (cases "urldec r") (simp_all add: cs urldecode_at_percent)
      next
        case False
        from "2.IH"(2) [OF _ cs refl False z(2), of "out @ [37]" "tl (junk @ [37])"] \<open>c = 37\<close>
        show ?thesis using False
          by (cases "urldec cs") (auto simp: cs urldecode_at_percent urldec.simps(2) [of 37] simp del: urldec.simps(2))
      qed
    qed
  qed
qed

section \<open>Encoding\<close>

text \<open>A reference encoder: every byte as a percent sign and two hex digits.\<close>

definition hex_char :: "nat \<Rightarrow> byte" where
  "hex_char n = (if n < 10 then of_nat (48 + n) else of_nat (55 + n))"

definition urlenc :: "byte list \<Rightarrow> byte list" where
  "urlenc s = concat (map (\<lambda>c. [37, hex_char (unat c div 16), hex_char (unat c mod 16)]) s)"

lemma digit_val_hex_char:
  assumes "n < 16"
  shows "isxdigit (hex_char n) \<and> digit_val (hex_char n) = Some n"
proof -
  from assms have "n \<in> set [0..<16]" by simp
  then show ?thesis by (simp add: upt_rec hex_char_def isxdigit_def isdigit_def digit_val_def) (elim disjE; simp)
qed

lemma hex_byte_hex_char: "hex_byte (hex_char (unat c div 16)) (hex_char (unat c mod 16)) = c"
proof -
  have "unat c < 256" using unat_bound [of c] by simp
  then have "unat c div 16 < 16" by simp
  then show ?thesis by (simp add: hex_byte_def digit_val_hex_char del: of_nat_add of_nat_mult)
qed

lemma urldec_urlenc: "urldec (urlenc s) = Some s"
proof (induction s)
  case (Cons c s)
  have "unat c div 16 < 16" using unat_bound [of c] by simp
  then show ?case using Cons by (simp add: urlenc_def digit_val_hex_char hex_byte_hex_char)
qed (simp add: urlenc_def)

lemma length_urldecode_loop: "length (snd (urldecode_loop arg len i p)) = length arg"
proof (induction "len - p" arbitrary: arg i p rule: less_induct)
  case less
  have step: "length (snd (urldecode_loop a len i' (p + Suc k))) = length a" if "p < len" for a i' k
    using less [of "p + Suc k" a i'] that by simp
  from step [of _ _ 0] step [of _ _ 2] show ?case
    by (subst urldecode_loop.simps) (simp add: Let_def split: prod.split)
qed

section \<open>Queries\<close>

text \<open>The query string of a list of pairs.\<close>

fun query_of :: "(byte list \<times> byte list) list \<Rightarrow> byte list" where
  "query_of [] = []"
| "query_of [(n, v)] = n @ bs ''='' @ v"
| "query_of ((n, v) # ps) = n @ bs ''='' @ v @ bs ''&'' @ query_of ps"

definition plain_text :: "byte list \<Rightarrow> bool" where
  "plain_text s \<longleftrightarrow> s \<noteq> [] \<and> 38 \<notin> set s \<and> 61 \<notin> set s"

definition arg_of :: "byte list \<times> byte list \<Rightarrow> http_arg" where
  "arg_of p = \<lparr>q_name = fst p, s_value = snd p\<rparr>"

lemma fields_query_of:
  "\<forall>(n, v) \<in> set ps. plain_text n \<and> plain_text v \<Longrightarrow> ps \<noteq> [] \<Longrightarrow>
    Kore_Str.fields (bs ''&'') (query_of ps) = map (\<lambda>(n, v). n @ bs ''='' @ v) ps"
proof (induction ps rule: query_of.induct)
  case (2 n v)
  then show ?case by (auto simp: plain_text_def bs_def intro!: fields_single)
next
  case (3 n v p ps)
  have "38 \<notin> set (n @ 61 # v)" using "3.prems" by (auto simp: plain_text_def)
  then have "Kore_Str.fields [38] ((n @ 61 # v) @ 38 # query_of (p # ps)) = (n @ 61 # v) # Kore_Str.fields [38] (query_of (p # ps))"
    by (intro fields_join) auto
  with 3 show ?case by (simp add: bs_def)
qed simp

lemma split_pair:
  assumes "plain_text n" "plain_text v"
  shows "kore_split_string (n @ bs ''='' @ v) (bs ''='') 3 = [n, v]"
proof -
  have "Kore_Str.fields [61] (n @ 61 # v) = n # Kore_Str.fields [61] v" using assms by (intro fields_join) (auto simp: plain_text_def)
  moreover have "Kore_Str.fields [61] v = [v]" using assms by (intro fields_single) (auto simp: plain_text_def)
  ultimately show ?thesis using assms
    by (simp add: kore_split_string_def split_loop_fields bs_def plain_text_def)
qed

lemma add_args_pairs:
  "\<forall>(n, v) \<in> set ps. plain_text n \<and> plain_text v \<Longrightarrow>
    add_args req (map (\<lambda>(n, v). n @ bs ''='' @ v) ps) = req\<lparr>rq_arguments := rq_arguments req @ map arg_of ps\<rparr>"
proof (induction ps arbitrary: req)
  case (Cons p ps)
  obtain n v where p: "p = (n, v)" by fastforce
  from Cons.prems p have "plain_text n" "plain_text v" by auto
  note sp = split_pair [OF this]
  from Cons.IH [of "http_argument_add req n v"] Cons.prems show ?case
    by (simp add: p sp http_argument_add_def arg_of_def)
qed simp

lemma http_populate_get_pairs:
  assumes "\<forall>(n, v) \<in> set ps. plain_text n \<and> plain_text v" "length ps < HTTP_MAX_QUERY_ARGS"
    and "query_string req = Some (query_of ps)"
  shows "http_populate_get req = req\<lparr>rq_arguments := rq_arguments req @ map arg_of ps\<rparr>"
proof (cases "ps = []")
  case True
  then show ?thesis using assms(3)
    by (simp add: http_populate_get_def kore_split_string_def split_loop_fields HTTP_MAX_QUERY_ARGS_def)
next
  case False
  have "filter (\<lambda>f. f \<noteq> []) (map (\<lambda>(n, v). n @ bs ''='' @ v) ps) = map (\<lambda>(n, v). n @ bs ''='' @ v) ps"
    by (auto simp: filter_id_conv bs_def)
  then have "kore_split_string (query_of ps) (bs ''&'') HTTP_MAX_QUERY_ARGS = map (\<lambda>(n, v). n @ bs ''='' @ v) ps"
    using assms(2) fields_query_of [OF assms(1) False]
    by (simp add: kore_split_string_def split_loop_fields HTTP_MAX_QUERY_ARGS_def)
  with add_args_pairs [OF assms(1)] assms(3) show ?thesis by (simp add: http_populate_get_def)
qed

lemma find_arg_of: "find (\<lambda>q. q_name q = n) (map arg_of ps) = map_option (\<lambda>v. arg_of (n, v)) (map_of ps n)"
  by (induction ps) (auto simp: arg_of_def)

section \<open>Properties\<close>

text \<open>\<open>http_argument_urldecode\<close> decodes in place: it fails exactly when the reference decoder does, and
  otherwise leaves the decoded text, NUL-terminated, in a block of unchanged size; percent-encoded
  text decodes to the original bytes.\<close>

theorem http_argument_urldecode_correct:
  assumes "0 \<notin> set s"
  shows "(urldec s = None \<longrightarrow> fst (http_argument_urldecode s) = KORE_RESULT_ERROR) \<and>
    (\<forall>t. urldec s = Some t \<longrightarrow> (\<exists>rest. http_argument_urldecode s = (KORE_RESULT_OK, t @ 0 # rest) \<and>
       length (t @ 0 # rest) = length s + 1)) \<and>
    urldec (urlenc u) = Some u"
proof -
  have eq: "http_argument_urldecode s = urldecode_at [] [] s"
    by (simp add: http_argument_urldecode_def urldecode_at_def)
  have len: "length (snd (http_argument_urldecode s)) = length s + 1"
    by (simp add: http_argument_urldecode_def length_urldecode_loop)
  show ?thesis
    using urldecode_at_ok [OF assms, of "[]" "[]"] len by (auto simp: eq urldec_urlenc split: option.splits)
qed

theorem http_argument_urldecode_correct_witness:
  "http_argument_urldecode (bs ''a%41+b'') = (KORE_RESULT_OK, bs ''aA b'' @ 0 # [98, 0]) \<and>
   urldec (bs ''a%41+b'') = Some (bs ''aA b'') \<and> fst (http_argument_urldecode (bs ''a%4'')) = KORE_RESULT_ERROR"
proof -
  have "0 \<notin> set (bs ''a%4'')" by (simp add: bs_def)
  moreover have "urldec (bs ''a%4'') = None" by (simp add: bs_def)
  ultimately have "fst (http_argument_urldecode (bs ''a%4'')) = KORE_RESULT_ERROR"
    using http_argument_urldecode_correct by blast
  moreover have "http_argument_urldecode (bs ''a%41+b'') = (KORE_RESULT_OK, bs ''aA b'' @ 0 # [98, 0])" by code_simp
  moreover have "urldec (bs ''a%41+b'') = Some (bs ''aA b'')" by code_simp
  ultimately show ?thesis by blast
qed

text \<open>The arguments of a query: \<open>http_populate_get\<close> on the query string of at most nineteen pairs of
  non-empty names and values free of separators adds exactly these pairs in order, and on a
  request without earlier arguments \<open>http_argument_get\<close> then returns the first value of a name, or an error for any other
  name.\<close>

theorem http_query_roundtrip:
  assumes "\<forall>(n, v) \<in> set ps. plain_text n \<and> plain_text v" and "length ps < HTTP_MAX_QUERY_ARGS"
    and "query_string req = Some (query_of ps)" and "rq_arguments req = []"
  shows "rq_arguments (http_populate_get req) = map arg_of ps \<and>
    http_argument_get e (http_populate_get req) n True nn HTTP_ARG_TYPE_STRING = Inr (map_option Str (map_of ps n))"
  using http_populate_get_pairs [OF assms(1-3)] assms(4)
  by (simp add: http_argument_get_def find_arg_of arg_of_def split: option.split)

definition blank_request :: http_request where
  "blank_request = \<lparr>rq_method = HTTP_METHOD_GET, fsm_state = 0, rq_complete = False, rq_delete = False,
     rq_sleeping = False, rq_pgsql_queue = False, rq_expect_body = False, rq_retain_extra = False,
     rq_no_content_length = False, rq_authed = False, rq_status = 0, rq_start = 0, rq_end = 0, rq_total = 0,
     rq_host = [], rq_path = [], rq_agent = None, rq_owner = 0, http_body = None, http_body_fd = None,
     http_body_path = None, http_body_length = 0, http_body_offset = 0, content_length = 0, rq_hdlr_extra = None,
     query_string = None, rq_hdlr = 0, req_headers = [], resp_headers = [], rq_arguments = [], rq_files = []\<rparr>"

theorem http_query_roundtrip_witness:
  "rq_arguments (http_populate_get (blank_request\<lparr>query_string := Some (bs ''id=7&q=xy'')\<rparr>)) =
     map arg_of [(bs ''id'', bs ''7''), (bs ''q'', bs ''xy'')] \<and>
   http_argument_get False (http_populate_get (blank_request\<lparr>query_string := Some (bs ''id=7&q=xy'')\<rparr>)) (bs ''q'') True False
     HTTP_ARG_TYPE_STRING = Inr (map_option Str (map_of [(bs ''id'', bs ''7''), (bs ''q'', bs ''xy'')] (bs ''q'')))"
  by (rule http_query_roundtrip)
    (simp_all add: blank_request_def plain_text_def bs_def HTTP_MAX_QUERY_ARGS_def)

text \<open>The range of a numeric argument type.\<close>

fun arg_range :: "http_arg_type \<Rightarrow> (int \<times> int) option" where
  "arg_range HTTP_ARG_TYPE_INT16 = Some (- (2 ^ 15), 2 ^ 15 - 1)"
| "arg_range HTTP_ARG_TYPE_UINT16 = Some (0, 2 ^ 16 - 1)"
| "arg_range HTTP_ARG_TYPE_INT32 = Some (- (2 ^ 31), 2 ^ 31 - 1)"
| "arg_range HTTP_ARG_TYPE_UINT32 = Some (0, 2 ^ 32 - 1)"
| "arg_range _ = None"

text \<open>(C18) Typed access: for the 16 and 32 bit types \<open>http_argument_get\<close> stores \<open>v\<close> exactly when the first argument of
  that name is a decimal numeral of value \<open>v\<close> within the range of the type, and reports an error for
  everything else, never a truncated number.\<close>

theorem http_argument_get_numeric:
  assumes "arg_range t = Some (lo, hi)"
  shows "http_argument_get e req n ho True t = Inr (Some (Num v)) \<longleftrightarrow>
    (\<exists>q. find (\<lambda>q. q_name q = n) (rq_arguments req) = Some q \<and> is_decimal (s_value q) v \<and> lo \<le> v \<and> v \<le> hi)"
proof -
  have "- (2 ^ 31) \<le> lo \<and> hi \<le> 2 ^ 32 - 1" using assms by (cases t) auto
  then have bnd: "LLONG_MIN \<le> v \<and> v \<le> LLONG_MAX" if "lo \<le> v" "v \<le> hi" for v
    using that by (simp add: LLONG_MIN_def LLONG_MAX_def)
  have "http_argument_get e req n ho True t = (case find (\<lambda>q. q_name q = n) (rq_arguments req) of
      None \<Rightarrow> Inr None | Some q \<Rightarrow> COPY_AS_INTTYPE True (s_value q) lo hi)"
    using assms by (cases t) (auto simp: http_argument_get_def split: option.split)
  moreover have "COPY_AS_INTTYPE True s lo hi = Inr (Some (Num v)) \<longleftrightarrow> is_decimal s v \<and> lo \<le> v \<and> v \<le> hi" for s
    using kore_strtonum_OK_iff [of s lo hi v] bnd
    by (cases "kore_strtonum s 10 lo hi") (auto simp: COPY_AS_INTTYPE_def)
  ultimately show ?thesis by (simp split: option.split)
qed

theorem http_argument_get_numeric_witness:
  "http_argument_get False (blank_request\<lparr>rq_arguments := [arg_of (bs ''n'', bs ''-12'')]\<rparr>) (bs ''n'') False True
     HTTP_ARG_TYPE_INT16 = Inr (Some (Num (-12))) \<and>
   (\<exists>q. find (\<lambda>q. q_name q = bs ''n'') (rq_arguments (blank_request\<lparr>rq_arguments := [arg_of (bs ''n'', bs ''-12'')]\<rparr>)) = Some q \<and>
     is_decimal (s_value q) (-12) \<and> - (2 ^ 15) \<le> (-12 :: int) \<and> (-12 :: int) \<le> 2 ^ 15 - 1)"
proof -
  have range: "arg_range HTTP_ARG_TYPE_INT16 = Some (- (2 ^ 15), 2 ^ 15 - 1)" by simp
  have "http_argument_get False (blank_request\<lparr>rq_arguments := [arg_of (bs ''n'', bs ''-12'')]\<rparr>) (bs ''n'') False True
     HTTP_ARG_TYPE_INT16 = Inr (Some (Num (-12)))" by code_simp
  with http_argument_get_numeric [OF range] show ?thesis by blast
qed

end
