(* ===== verification/Http_Body.thy ===== *)
theory Http_Body
  imports Http_Text
begin

text \<open>
  Reading the body of a request, \<open>base/kore/http.c\<close>: from memory or from the file it was offloaded to, the
  files of a multipart form, the arguments of a posted form, and the multipart parser, which
  searches the body for the boundary piece by piece.

  A result \<open>None\<close> of a read is the return value \<open>-1\<close>. The loops of the multipart parser carry fuel; the bodies
  that call them pass enough, and running out is the fault \<open>Out_of_fuel\<close>, which the lemmas exclude.
\<close>

section \<open>Reading\<close>

text \<open>\<open>read\<close> of \<open>n\<close> bytes of a file that has \<open>d\<close> left, with the loop around \<open>EINTR\<close>.\<close>

fun fd_read :: "fread list \<Rightarrow> byte list \<Rightarrow> nat \<Rightarrow> byte list option \<times> fread list" where
  "fd_read [] d n = (Some (take n d), [])"
| "fd_read (Fr_intr # rs) d n = fd_read rs d n"
| "fd_read (Fr_error # rs) d n = (None, rs)"
| "fd_read (Fr_take k # rs) d n = (Some (take (min n (max 1 k)) d), rs)"

text \<open>\<open>memcpy\<close> of \<open>n\<close> bytes out of the block of a buffer.\<close>

definition buf_read_at :: "kore_buf \<Rightarrow> nat \<Rightarrow> nat \<Rightarrow> byte list res" where
  "buf_read_at b off n =
     (case bdata b of
        None \<Rightarrow> Inl Null_deref
      | Some xs \<Rightarrow> if off + n \<le> length xs then Inr (take n (drop off xs)) else Inl Out_of_bounds)"

definition http_body_read ::
    "'a http_request_scheme \<Rightarrow> nat \<Rightarrow> (byte list option \<times> 'a http_request_scheme) res" where
  "http_body_read req len =
     (let toread = min (http_body_length req) len in
      if toread \<le> 0 then Inr (Some [], req)
      else case http_body_fd req of
          Some bf \<Rightarrow>
            (case fd_read (bf_reads bf) (drop (bf_pos bf) (bf_data bf)) toread of
               (None, rs) \<Rightarrow> Inr (None, req\<lparr>http_body_fd := Some (bf\<lparr>bf_reads := rs\<rparr>)\<rparr>)
             | (Some d, rs) \<Rightarrow>
                 let bf1 = bf\<lparr>bf_pos := bf_pos bf + length d, bf_reads := rs\<rparr> in
                 if d = [] then Inr (Some [], req\<lparr>http_body_fd := Some bf1\<rparr>)
                 else Inr (Some d, req\<lparr>http_body_fd := Some bf1, http_body_length := http_body_length req - length d,
                        http_body_offset := http_body_offset req + length d\<rparr>))
        | None \<Rightarrow>
            (case http_body req of
               Some b \<Rightarrow> rbind (buf_read_at b (boffset b) toread) (\<lambda>d.
                 Inr (Some d, req\<lparr>http_body := Some (b\<lparr>boffset := boffset b + toread\<rparr>),
                   http_body_length := http_body_length req - toread,
                   http_body_offset := http_body_offset req + toread\<rparr>))
             | None \<Rightarrow> Inr (None, req)))"

text \<open>\<open>lseek_ok\<close> is the success of \<open>lseek\<close>.\<close>

definition http_body_rewind :: "bool \<Rightarrow> 'a http_request_scheme \<Rightarrow> (int \<times> 'a http_request_scheme) res" where
  "http_body_rewind lseek_ok req =
     (case http_body_fd req of
        Some bf \<Rightarrow>
          if lseek_ok then Inr (KORE_RESULT_OK, req\<lparr>http_body_fd := Some (bf\<lparr>bf_pos := 0\<rparr>)\<rparr>)
          else Inr (KORE_RESULT_ERROR, req)
      | None \<Rightarrow>
          (case http_body req of
             None \<Rightarrow> Inl Null_deref
           | Some b \<Rightarrow> Inr (KORE_RESULT_OK, req\<lparr>http_body := Some (kore_buf_reset b)\<rparr>)))"

section \<open>Files of a form\<close>

definition http_file_lookup :: "'a http_request_scheme \<Rightarrow> byte list \<Rightarrow> http_file option" where
  "http_file_lookup req name = find (\<lambda>f. f_name f = name) (rq_files req)"

definition http_file_rewind :: "http_file \<Rightarrow> http_file" where
  "http_file_rewind f = f\<lparr>f_offset := 0\<rparr>"

definition http_file_read ::
    "bool \<Rightarrow> 'a http_request_scheme \<Rightarrow> http_file \<Rightarrow> nat \<Rightarrow> (byte list option \<times> http_file \<times> 'a http_request_scheme) res" where
  "http_file_read lseek_ok req file len =
     (if f_length file < f_offset file then Inr (None, file, req)
      else if wadd64 (f_offset file) len < f_offset file then Inr (None, file, req)
      else if wadd64 (f_position file) (f_offset file) < f_position file then Inr (None, file, req)
      else let off = wadd64 (f_position file) (f_offset file); toread = min len (f_length file - f_offset file) in
        if toread \<le> 0 then Inr (Some [], file, req)
        else case http_body_fd req of
            Some bf \<Rightarrow>
              if \<not> lseek_ok then Inr (None, file, req)
              else (case fd_read (bf_reads bf) (drop off (bf_data bf)) toread of
                  (None, rs) \<Rightarrow> Inr (None, file, req\<lparr>http_body_fd := Some (bf\<lparr>bf_pos := off, bf_reads := rs\<rparr>)\<rparr>)
                | (Some d, rs) \<Rightarrow>
                    Inr (Some d, file\<lparr>f_offset := f_offset file + length d\<rparr>,
                      req\<lparr>http_body_fd := Some (bf\<lparr>bf_pos := off + length d, bf_reads := rs\<rparr>)\<rparr>))
          | None \<Rightarrow>
              (case http_body req of
                 None \<Rightarrow> Inr (None, file, req)
               | Some b \<Rightarrow>
                   if off > blength b then Inr (Some [], file, req)
                   else rbind (buf_read_at b off toread) (\<lambda>d.
                     Inr (Some d, file\<lparr>f_offset := f_offset file + toread\<rparr>, req))))"

section \<open>Posted forms\<close>

text \<open>The C string at the start of the block of a buffer.\<close>

definition buf_string :: "kore_buf \<Rightarrow> byte list" where
  "buf_string b = (case bdata b of None \<Rightarrow> [] | Some xs \<Rightarrow> takeWhile (\<lambda>c. c \<noteq> 0) xs)"

text \<open>The loop that collects the body; every read but the last makes it shorter, so that the body length is
  fuel enough.\<close>

fun collect_body ::
    "nat \<Rightarrow> (nat \<Rightarrow> byte) \<Rightarrow> 'a http_request_scheme \<Rightarrow> kore_buf \<Rightarrow> (bool \<times> 'a http_request_scheme \<times> kore_buf) res" where
  "collect_body 0 junk req body = Inl Out_of_fuel"
| "collect_body (Suc fuel) junk req body =
     rbind (http_body_read req BUFSIZ) (\<lambda>(ret, req1).
       case ret of
         None \<Rightarrow> Inr (False, req1, body)
       | Some d \<Rightarrow>
           if d = [] then Inr (True, req1, body)
           else rbind (kore_buf_append junk body d) (\<lambda>body1. collect_body fuel junk req1 body1))"

definition http_populate_post :: "(nat \<Rightarrow> byte) \<Rightarrow> 'a http_request_scheme \<Rightarrow> 'a http_request_scheme res" where
  "http_populate_post junk req =
     (let add = (\<lambda>req string. Inr (add_args req (kore_split_string string (bs ''&'') HTTP_MAX_QUERY_ARGS))) in
      if rq_method req \<noteq> HTTP_METHOD_POST then Inr req
      else case http_body req of
          Some b \<Rightarrow>
            rbind (kore_buf_stringify junk (b\<lparr>boffset := content_length req\<rparr>)) (\<lambda>(b1, _).
              add (req\<lparr>http_body := Some b1\<rparr>) (buf_string b1))
        | None \<Rightarrow>
            rbind (kore_buf_alloc junk 128) (\<lambda>body.
            rbind (collect_body (Suc (http_body_length req)) junk req body) (\<lambda>(ok, req1, body1).
              if \<not> ok then Inr req1
              else rbind (kore_buf_stringify junk body1) (\<lambda>(body2, _). add req1 (buf_string body2)))))"

section \<open>Multipart forms\<close>

text \<open>\<open>memmove\<close> of what is left at offset \<open>k\<close> to the front.\<close>

definition buf_shift :: "kore_buf \<Rightarrow> nat \<Rightarrow> nat \<Rightarrow> kore_buf" where
  "buf_shift b k left = b\<lparr>bdata := map_option (\<lambda>xs. memcpy_at xs 0 (take left (drop k xs))) (bdata b), boffset := left\<rparr>"

text \<open>\<open>kore_buf_append(out, in->data, n)\<close> where \<open>out\<close> is given.\<close>

definition append_front :: "(nat \<Rightarrow> byte) \<Rightarrow> kore_buf option \<Rightarrow> kore_buf \<Rightarrow> nat \<Rightarrow> kore_buf option res" where
  "append_front junk out inb n =
     (case out of
        None \<Rightarrow> Inr None
      | Some o1 \<Rightarrow> rbind (kore_buf_append junk o1 (take n (case bdata inb of None \<Rightarrow> [] | Some xs \<Rightarrow> xs))) (\<lambda>o2. Inr (Some o2)))"

text \<open>The loop of \<open>multipart_find_data\<close>. The result is the return code, both buffers, \<open>*olen\<close> and the request.\<close>

fun find_data_loop ::
    "nat \<Rightarrow> (nat \<Rightarrow> byte) \<Rightarrow> byte list \<Rightarrow> kore_buf \<Rightarrow> kore_buf option \<Rightarrow> nat \<Rightarrow> 'a http_request_scheme \<Rightarrow>
      (int \<times> kore_buf \<times> kore_buf option \<times> nat \<times> 'a http_request_scheme) res" where
  "find_data_loop 0 junk needle inb out olen req = Inl Out_of_fuel"
| "find_data_loop (Suc fuel) junk needle inb out olen req =
     (let len = length needle; xs = (case bdata inb of None \<Rightarrow> [] | Some xs \<Rightarrow> xs) in
      if boffset inb < len then
        rbind (http_body_read req 4096) (\<lambda>(ret, req1).
          case ret of
            None \<Rightarrow> Inr (KORE_RESULT_ERROR, inb, out, olen, req1)
          | Some d \<Rightarrow>
              if d = [] then Inr (KORE_RESULT_ERROR, inb, out, olen, req1)
              else rbind (kore_buf_append junk inb d) (\<lambda>inb1. find_data_loop fuel junk needle inb1 out olen req1))
      else case kore_mem_find (take (boffset inb) xs) (take 1 needle) 1 of
          None \<Rightarrow>
            rbind (append_front junk out inb (boffset inb)) (\<lambda>out1.
              find_data_loop fuel junk needle (kore_buf_reset inb) out1 (olen + boffset inb) req)
        | Some p \<Rightarrow>
            let left = boffset inb - p in
            if left < len then
              rbind (append_front junk out inb p) (\<lambda>out1.
                find_data_loop fuel junk needle (buf_shift inb p left) out1 (olen + p) req)
            else if take len (drop p xs) = needle then
              rbind (append_front junk out inb p) (\<lambda>out1.
                Inr (KORE_RESULT_OK, buf_shift inb (p + len) (left - len), out1, olen + p, req))
            else
              rbind (append_front junk out inb (p + 1)) (\<lambda>out1.
                find_data_loop fuel junk needle (buf_shift inb (p + 1) (left - 1)) out1 (olen + p + 1) req))"

declare find_data_loop.simps(2) [simp del]

definition multipart_find_data ::
    "(nat \<Rightarrow> byte) \<Rightarrow> kore_buf \<Rightarrow> kore_buf option \<Rightarrow> 'a http_request_scheme \<Rightarrow> byte list \<Rightarrow>
      (int \<times> kore_buf \<times> kore_buf option \<times> nat \<times> 'a http_request_scheme) res" where
  "multipart_find_data junk inb out req needle =
     find_data_loop (Suc (2 * http_body_length req + boffset inb)) junk needle inb out 0 req"

definition multipart_add_field ::
    "(nat \<Rightarrow> byte) \<Rightarrow> 'a http_request_scheme \<Rightarrow> kore_buf \<Rightarrow> byte list \<Rightarrow> byte list \<Rightarrow> ('a http_request_scheme \<times> kore_buf) res" where
  "multipart_add_field junk req inb name boundary =
     rbind (kore_buf_alloc junk 128) (\<lambda>data0.
     rbind (multipart_find_data junk inb (Some data0) req boundary) (\<lambda>(r, inb1, out, _, req1).
       case out of
         None \<Rightarrow> Inl Null_deref
       | Some data1 \<Rightarrow>
           if r = KORE_RESULT_ERROR then Inr (req1, inb1)
           else if boffset data1 < 3 then Inr (req1, inb1)
           else rbind (kore_buf_stringify junk (data1\<lparr>boffset := boffset data1 - 2\<rparr>)) (\<lambda>(data2, _).
             Inr (http_argument_add req1 name (buf_string data2), inb1))))"

definition multipart_file_add ::
    "(nat \<Rightarrow> byte) \<Rightarrow> 'a http_request_scheme \<Rightarrow> kore_buf \<Rightarrow> byte list \<Rightarrow> byte list \<Rightarrow> byte list \<Rightarrow>
      ('a http_request_scheme \<times> kore_buf) res" where
  "multipart_file_add junk req inb name fname boundary =
     (let pos = wsub64 (http_body_offset req) (boffset inb) in
      rbind (multipart_find_data junk inb None req boundary) (\<lambda>(r, inb1, _, len, req1).
        if r = KORE_RESULT_ERROR then Inr (req1, inb1)
        else if len < 3 then Inr (req1, inb1)
        else Inr (req1\<lparr>rq_files := rq_files req1 @ [\<lparr>f_name = name, f_filename = fname, f_position = pos,
                f_offset = 0, f_length = len - 2\<rparr>]\<rparr>, inb1)))"

text \<open>One header of a part.\<close>

definition part_header ::
    "(nat \<Rightarrow> byte) \<Rightarrow> 'a http_request_scheme \<Rightarrow> kore_buf \<Rightarrow> byte list \<Rightarrow> byte list \<Rightarrow> ('a http_request_scheme \<times> kore_buf) res" where
  "part_header junk req inb boundary header =
     (case kore_split_string header (bs '':'') 5 of
        [a0, a1] \<Rightarrow>
          if \<not> strcaseeq a0 (bs ''content-disposition'') then Inr (req, inb)
          else let opt = kore_split_string (dropWhile isspace a1) (bs '';'') 5 in
            if length opt < 2 then Inr (req, inb)
            else if \<not> strcaseeq (opt ! 0) (bs ''form-data'') then Inr (req, inb)
            else (case strchr (opt ! 1) (ch (CHR ''='')) of
                None \<Rightarrow> Inr (req, inb)
              | Some val \<Rightarrow>
                  if length val < 3 then Inr (req, inb)
                  else rbind (kore_strip_chars (drop 1 val) (ch (CHR 0x22))) (\<lambda>name.
                    if length opt = 2 then multipart_add_field junk req inb name boundary
                    else let d = dropWhile isspace (opt ! 2) in
                      if strncaseeq d (bs ''filename='') 9 then
                        (case strchr d (ch (CHR ''='')) of
                           None \<Rightarrow> Inr (req, inb)
                         | Some fval \<Rightarrow> rbind (kore_strip_chars (drop 1 fval) (ch (CHR 0x22))) (\<lambda>fname.
                             if length fname > 0 then multipart_file_add junk req inb name fname boundary
                             else Inr (req, inb)))
                      else Inr (req, inb)))
      | _ \<Rightarrow> Inr (req, inb))"

fun part_headers ::
    "(nat \<Rightarrow> byte) \<Rightarrow> 'a http_request_scheme \<Rightarrow> kore_buf \<Rightarrow> byte list \<Rightarrow> byte list list \<Rightarrow>
      ('a http_request_scheme \<times> kore_buf) res" where
  "part_headers junk req inb boundary [] = Inr (req, inb)"
| "part_headers junk req inb boundary (h # hs) =
     rbind (part_header junk req inb boundary h) (\<lambda>(req1, inb1). part_headers junk req1 inb1 boundary hs)"

text \<open>The result is the request, \<open>in\<close> and \<open>hbuf\<close>; the C function always returns \<open>KORE_RESULT_OK\<close>.\<close>

definition multipart_parse_headers ::
    "(nat \<Rightarrow> byte) \<Rightarrow> 'a http_request_scheme \<Rightarrow> kore_buf \<Rightarrow> kore_buf \<Rightarrow> byte list \<Rightarrow>
      ('a http_request_scheme \<times> kore_buf \<times> kore_buf) res" where
  "multipart_parse_headers junk req inb hbuf boundary =
     rbind (kore_buf_stringify junk hbuf) (\<lambda>(hbuf1, _).
     rbind (part_headers junk req inb boundary (kore_split_string (buf_string hbuf1) [13, 10] 5)) (\<lambda>(req1, inb1).
       Inr (req1, inb1, hbuf1)))"

fun multipart_loop ::
    "nat \<Rightarrow> (nat \<Rightarrow> byte) \<Rightarrow> 'a http_request_scheme \<Rightarrow> kore_buf \<Rightarrow> kore_buf \<Rightarrow> byte list \<Rightarrow> 'a http_request_scheme res" where
  "multipart_loop 0 junk req inb out boundary = Inl Out_of_fuel"
| "multipart_loop (Suc fuel) junk req inb out boundary =
     rbind (multipart_find_data junk inb None req [13, 10]) (\<lambda>(r, inb1, _, _, req1).
       if r = KORE_RESULT_ERROR then Inr req1
       else if boffset inb1 < 4 \<and> http_body_length req1 = 0 then Inr req1
       else rbind (multipart_find_data junk inb1 (Some out) req1 [13, 10, 13, 10]) (\<lambda>(r2, inb2, out2, _, req2).
         if r2 = KORE_RESULT_ERROR then Inr req2
         else case out2 of
             None \<Rightarrow> Inl Null_deref
           | Some o2 \<Rightarrow> rbind (multipart_parse_headers junk req2 inb2 o2 boundary) (\<lambda>(req3, inb3, o3).
               multipart_loop fuel junk req3 inb3 (kore_buf_reset o3) boundary)))"

definition HTTP_BOUNDARY_MAX :: nat where "HTTP_BOUNDARY_MAX = 80"

text \<open>\<open>kore_split_string\<close> cuts the stored header value at its first delimiter.\<close>

fun cut_header :: "http_header list \<Rightarrow> byte list \<Rightarrow> http_header list" where
  "cut_header [] name = []"
| "cut_header (h # hs) name =
     (if strcaseeq (hdr_header h) name then h\<lparr>hdr_value := fst (strsep (hdr_value h) (bs '';''))\<rparr> # hs
      else h # cut_header hs name)"

definition http_populate_multipart_form ::
    "(nat \<Rightarrow> byte) \<Rightarrow> 'a http_request_scheme \<Rightarrow> 'a http_request_scheme res" where
  "http_populate_multipart_form junk req =
     (if rq_method req \<noteq> HTTP_METHOD_POST then Inr req
      else case http_request_header req (bs ''content-type'') of
          None \<Rightarrow> Inr req
        | Some type \<Rightarrow>
            let req1 = req\<lparr>req_headers := cut_header (req_headers req) (bs ''content-type'')\<rparr> in
            (case kore_split_string type (bs '';'') 3 of
               [a0, a1] \<Rightarrow>
                 if \<not> strcaseeq a0 (bs ''multipart/form-data'') then Inr req1
                 else (case strchr a1 (ch (CHR ''='')) of
                     None \<Rightarrow> Inr req1
                   | Some val \<Rightarrow>
                       let boundary = bs ''--'' @ drop 1 val in
                       if length boundary \<ge> HTTP_BOUNDARY_MAX then Inr req1
                       else rbind (kore_buf_alloc junk 128) (\<lambda>inb.
                         rbind (kore_buf_alloc junk 128) (\<lambda>out.
                         rbind (multipart_find_data junk inb None req1 boundary) (\<lambda>(r, inb1, _, _, req2).
                           if r = KORE_RESULT_ERROR then Inr req2
                           else multipart_loop (Suc (http_body_length req2 + boffset inb1)) junk req2 inb1 out boundary))))
             | _ \<Rightarrow> Inr req1))"

section \<open>The body as a source of bytes\<close>

text \<open>What is still to be read of a body, and when reading it cannot go wrong.\<close>

definition body_rest :: "'a http_request_scheme \<Rightarrow> byte list" where
  "body_rest req = take (http_body_length req)
     (case http_body_fd req of
        Some bf \<Rightarrow> drop (bf_pos bf) (bf_data bf)
      | None \<Rightarrow> (case http_body req of
          Some b \<Rightarrow> drop (boffset b) (case bdata b of None \<Rightarrow> [] | Some xs \<Rightarrow> xs)
        | None \<Rightarrow> []))"

definition body_ok :: "'a http_request_scheme \<Rightarrow> bool" where
  "body_ok req \<longleftrightarrow>
     (case http_body_fd req of
        Some bf \<Rightarrow> bf_pos bf + http_body_length req \<le> length (bf_data bf) \<and> Fr_error \<notin> set (bf_reads bf)
      | None \<Rightarrow> (case http_body req of
          Some b \<Rightarrow> (case bdata b of None \<Rightarrow> False | Some xs \<Rightarrow> boffset b + http_body_length req \<le> length xs)
        | None \<Rightarrow> http_body_length req = 0))"

lemma length_body_rest: "body_ok req \<Longrightarrow> length (body_rest req) = http_body_length req"
  by (auto simp: body_rest_def body_ok_def split: option.splits)

lemma fd_read_ok:
  assumes "Fr_error \<notin> set rs" "0 < n"
  shows "\<exists>k rs'. fd_read rs d n = (Some (take k d), rs') \<and> 0 < k \<and> k \<le> n \<and> set rs' \<subseteq> set rs"
  using assms
proof (induction rs d n rule: fd_read.induct)
  case (4 k rs d n)
  then show ?case by (intro exI [of _ "min n (max 1 k)"]) auto
qed auto

text \<open>The parts of a request that reading its body leaves alone.\<close>

definition same_request :: "'a http_request_scheme \<Rightarrow> 'a http_request_scheme \<Rightarrow> bool" where
  "same_request r r' \<longleftrightarrow> (\<exists>b fd l p. r' = r\<lparr>http_body := b, http_body_fd := fd, http_body_length := l, http_body_offset := p\<rparr>)"

lemma same_request_refl [simp, intro]: "same_request r r"
  unfolding same_request_def
  by (intro exI [of _ "http_body r"] exI [of _ "http_body_fd r"] exI [of _ "http_body_length r"] exI [of _ "http_body_offset r"]) simp

lemma same_request_trans [trans]: "same_request r r' \<Longrightarrow> same_request r' r'' \<Longrightarrow> same_request r r''"
  by (fastforce simp: same_request_def)

lemma same_requestD:
  "same_request r r' \<Longrightarrow> rq_arguments r' = rq_arguments r \<and> rq_files r' = rq_files r \<and> req_headers r' = req_headers r \<and>
     rq_method r' = rq_method r"
  by (auto simp: same_request_def)

lemma http_body_read_ok:
  assumes "body_ok req" "0 < n"
  shows "\<exists>d req'. http_body_read req n = Inr (Some d, req') \<and> body_ok req' \<and> body_rest req = d @ body_rest req' \<and>
    (d = [] \<longleftrightarrow> body_rest req = []) \<and> length d \<le> n \<and> same_request req req' \<and>
    http_body_offset req' = http_body_offset req + length d"
proof -
  let ?t = "min (http_body_length req) n"
  consider (none) "?t = 0" | (fd) bf where "0 < ?t" "http_body_fd req = Some bf"
    | (mem) b where "0 < ?t" "http_body_fd req = None" "http_body req = Some b"
    using assms by (cases "http_body_length req"; cases "http_body_fd req"; cases "http_body req") (auto simp: body_ok_def)
  then show ?thesis
  proof cases
    case none
    with assms(2) have "http_body_length req = 0" by (simp add: min_def split: if_splits)
    with none assms(1) show ?thesis by (auto simp: http_body_read_def body_rest_def)
  next
    case (fd bf)
    let ?d = "drop (bf_pos bf) (bf_data bf)"
    from assms fd have ok: "bf_pos bf + http_body_length req \<le> length (bf_data bf)" "Fr_error \<notin> set (bf_reads bf)"
      by (auto simp: body_ok_def)
    from fd_read_ok [OF ok(2) fd(1), of ?d] obtain k rs where
      r: "fd_read (bf_reads bf) ?d ?t = (Some (take k ?d), rs)" "0 < k" "k \<le> ?t" "set rs \<subseteq> set (bf_reads bf)" by blast
    have lk: "length (take k ?d) = k" using r(3) ok(1) by auto
    then have ne: "take k ?d \<noteq> []" using r(2) by force
    have "take (http_body_length req) ?d = take k ?d @ take (http_body_length req - k) (drop (bf_pos bf + k) (bf_data bf))"
      using r(3) by (metis add.commute drop_drop le_add_diff_inverse min.boundedE take_add)
    then have rest: "body_rest req = take k ?d @ take (http_body_length req - k) (drop (bf_pos bf + k) (bf_data bf))"
      using fd by (simp add: body_rest_def)
    let ?bf = "bf\<lparr>bf_pos := bf_pos bf + k, bf_reads := rs\<rparr>"
    let ?req = "req\<lparr>http_body_fd := Some ?bf, http_body_length := http_body_length req - k,
      http_body_offset := http_body_offset req + k\<rparr>"
    have "http_body_read req n = Inr (Some (take k ?d), ?req)"
      using fd r(1) ne lk by (simp add: http_body_read_def Let_def)
    moreover have "body_ok ?req" using ok r(3,4) by (auto simp: body_ok_def)
    moreover have "same_request req ?req" unfolding same_request_def
      by (intro exI [of _ "http_body req"] exI) simp
    ultimately show ?thesis using rest ne r(3) lk
      by (intro exI [of _ "take k ?d"] exI [of _ ?req]) (simp add: body_rest_def del: length_take)
  next
    case (mem b)
    with assms obtain xs where xs: "bdata b = Some xs" "boffset b + http_body_length req \<le> length xs"
      by (auto simp: body_ok_def split: option.splits)
    define t where "t = ?t"
    then have t: "0 < t" "t \<le> http_body_length req" "t \<le> n" using mem(1) by auto
    have "take (http_body_length req) (drop (boffset b) xs) =
        take t (drop (boffset b) xs) @ take (http_body_length req - t) (drop (boffset b + t) xs)"
      using t(2) by (metis add.commute drop_drop le_add_diff_inverse take_add)
    then have rest: "body_rest req = take t (drop (boffset b) xs) @ take (http_body_length req - t) (drop (boffset b + t) xs)"
      using mem xs by (simp add: body_rest_def)
    let ?req = "req\<lparr>http_body := Some (b\<lparr>boffset := boffset b + t\<rparr>), http_body_length := http_body_length req - t,
      http_body_offset := http_body_offset req + t\<rparr>"
    have lt: "length (take t (drop (boffset b) xs)) = t" using xs t by simp
    then have ne: "take t (drop (boffset b) xs) \<noteq> []" using t(1) by force
    have "http_body_read req n = Inr (Some (take t (drop (boffset b) xs)), ?req)"
      using mem xs t by (simp add: http_body_read_def Let_def buf_read_at_def t_def)
    moreover have "body_ok ?req" using mem xs t by (auto simp: body_ok_def)
    moreover have "same_request req ?req" unfolding same_request_def
      by (intro exI [of _ "Some (b\<lparr>boffset := boffset b + t\<rparr>)"] exI [of _ "http_body_fd req"] exI) simp
    ultimately show ?thesis using rest ne lt mem xs t
      by (intro exI [of _ "take t (drop (boffset b) xs)"] exI [of _ ?req]) (simp add: body_rest_def del: length_take)
  qed
qed

section \<open>Searching the body\<close>

text \<open>The pending input of the multipart parser: its buffer, then the unread body.\<close>

definition src :: "kore_buf \<Rightarrow> 'a http_request_scheme \<Rightarrow> byte list" where
  "src inb req = buf_contents inb @ body_rest req"

definition src_ok :: "kore_buf \<Rightarrow> 'a http_request_scheme \<Rightarrow> bool" where
  "src_ok inb req \<longleftrightarrow> buf_ok inb \<and> bdata inb \<noteq> None \<and> body_ok req \<and> blength inb + http_body_length req < 2 ^ 64"

lemma length_src: "src_ok inb req \<Longrightarrow> length (src inb req) = boffset inb + http_body_length req"
  by (simp add: src_ok_def src_def length_buf_contents length_body_rest)

text \<open>The optional output buffer takes \<open>n\<close> more bytes; it took exactly \<open>d\<close>.\<close>

definition out_ok :: "kore_buf option \<Rightarrow> nat \<Rightarrow> bool" where
  "out_ok out n \<longleftrightarrow> (case out of None \<Rightarrow> True | Some b \<Rightarrow> buf_ok b \<and> blength b + n < 2 ^ 64)"

definition out_adds :: "kore_buf option \<Rightarrow> kore_buf option \<Rightarrow> byte list \<Rightarrow> bool" where
  "out_adds out out' d \<longleftrightarrow>
     (case out of
        None \<Rightarrow> out' = None
      | Some b \<Rightarrow> (\<exists>b'. out' = Some b' \<and> buf_ok b' \<and> buf_contents b' = buf_contents b @ d \<and> blength b' \<le> blength b + length d))"

lemma out_adds_trans: "out_adds a b d \<Longrightarrow> out_adds b c e \<Longrightarrow> out_adds a c (d @ e)"
  by (fastforce simp: out_adds_def split: option.splits)

lemma out_adds_ok: "out_adds a b d \<Longrightarrow> out_ok a (length d + n) \<Longrightarrow> out_ok b n"
  by (auto simp: out_adds_def out_ok_def split: option.splits)

lemma out_ok_mono: "out_ok a n \<Longrightarrow> m \<le> n \<Longrightarrow> out_ok a m"
  by (auto simp: out_ok_def split: option.splits)

lemma out_adds_refl: "out_ok a n \<Longrightarrow> out_adds a a []"
  by (auto simp: out_adds_def out_ok_def split: option.splits)

lemma append_front_ok:
  assumes "out_ok out n" "n \<le> boffset inb" "buf_ok inb" "bdata inb = Some xs"
  shows "\<exists>out1. append_front junk out inb n = Inr out1 \<and> out_adds out out1 (take n (buf_contents inb))"
proof (cases out)
  case None
  then show ?thesis by (simp add: append_front_def out_adds_def)
next
  case (Some b)
  have t: "take n (buf_contents inb) = take n xs" using assms by (simp add: buf_contents_def min_def)
  have "n \<le> length xs" using assms by (auto simp: buf_ok_def)
  then have "length (take n xs) = n" by simp
  with kore_buf_append_ok [of b "take n xs" junk] assms(1) Some show ?thesis
    by (auto simp: append_front_def out_adds_def out_ok_def buf_room_def t assms(4))
qed

lemma buf_shift_ok:
  assumes "src_ok inb req" "n + left = boffset inb"
  shows "src_ok (buf_shift inb n left) req" "src (buf_shift inb n left) req = drop n (src inb req)"
    "boffset (buf_shift inb n left) = left" "blength (buf_shift inb n left) = blength inb"
proof -
  obtain xs where xs: "bdata inb = Some xs" "boffset inb \<le> length xs" "blength inb = length xs"
    using assms(1) by (auto simp: src_ok_def buf_ok_def)
  let ?d = "take left (drop n xs)"
  have l: "length ?d = left" using xs assms(2) by simp
  then have m: "length (memcpy_at xs 0 ?d) = length xs" "take left (memcpy_at xs 0 ?d) = ?d"
    using xs assms(2) by (auto simp: memcpy_at_def)
  have "buf_contents inb = take n xs @ ?d" using xs assms(2) by (simp add: buf_contents_def take_add [symmetric])
  then have c: "?d = drop n (buf_contents inb)" "n \<le> length (buf_contents inb)" using xs assms(2) by auto
  show "src_ok (buf_shift inb n left) req" using assms xs m l
    by (auto simp: src_ok_def buf_shift_def buf_ok_def)
  show "src (buf_shift inb n left) req = drop n (src inb req)"
    using c m xs by (simp add: src_def buf_shift_def buf_contents_def)
  show "boffset (buf_shift inb n left) = left" "blength (buf_shift inb n left) = blength inb"
    by (simp_all add: buf_shift_def)
qed

lemma first_occ_skip:
  assumes "nd \<noteq> []" "n \<le> length s" "\<forall>q < n. \<not> prefix nd (drop q s)"
  shows "first_occ nd s = map_option (\<lambda>k. n + k) (first_occ nd (drop n s))"
  using assms(2,3)
proof (induction n)
  case (Suc n)
  then obtain x xs where d: "drop n s = x # xs" by (metis Cons_nth_drop_Suc Suc_le_lessD)
  then have "drop (Suc n) s = xs" by (metis drop_Suc tl_drop list.sel(3))
  moreover have "\<not> prefix nd (drop n s)" using Suc.prems by simp
  ultimately have "first_occ nd (drop n s) = map_option Suc (first_occ nd (drop (Suc n) s))" using d by simp
  with Suc show ?case by (cases "first_occ nd (drop (Suc n) s)") auto
qed (cases "first_occ nd s"; simp)

text \<open>What a finished search has achieved.\<close>

definition found ::
    "byte list \<Rightarrow> kore_buf \<Rightarrow> kore_buf option \<Rightarrow> nat \<Rightarrow> 'a http_request_scheme \<Rightarrow>
      int \<times> kore_buf \<times> kore_buf option \<times> nat \<times> 'a http_request_scheme \<Rightarrow> bool" where
  "found needle inb out olen req = (\<lambda>(r, inb', out', olen', req').
     src_ok inb' req' \<and> same_request req req' \<and>
     blength inb' + http_body_length req' \<le> blength inb + http_body_length req \<and>
     http_body_offset req' + http_body_length req' = http_body_offset req + http_body_length req \<and>
     (case first_occ needle (src inb req) of
        None \<Rightarrow> r = KORE_RESULT_ERROR \<and> length (src inb' req') \<le> length (src inb req) \<and> (\<exists>d. out_adds out out' d)
      | Some k \<Rightarrow> r = KORE_RESULT_OK \<and> src inb' req' = drop (k + length needle) (src inb req) \<and> olen' = olen + k \<and>
          out_adds out out' (take k (src inb req))))"

lemma found_skip:
  assumes "needle \<noteq> []" "n \<le> length (src inb req)" "\<forall>q < n. \<not> prefix needle (drop q (src inb req))"
    and "out_adds out out1 (take n (src inb req))" "src inb1 req = drop n (src inb req)" "blength inb1 = blength inb"
    and "found needle inb1 out1 (olen + n) req R"
  shows "found needle inb out olen req R"
proof -
  obtain r inb' out' olen' req' where R: "R = (r, inb', out', olen', req')" by (cases R) auto
  note f = assms(7) [unfolded R found_def prod.case assms(5,6)]
  note sk = first_occ_skip [OF assms(1-3)]
  show ?thesis
  proof (cases "first_occ needle (drop n (src inb req))")
    case None
    with f sk out_adds_trans [OF assms(4)] show ?thesis unfolding R found_def prod.case by fastforce
  next
    case (Some k)
    have "out_adds out out' (take n (src inb req) @ take k (drop n (src inb req)))"
      using f Some by (intro out_adds_trans [OF assms(4)]) simp
    then have "out_adds out out' (take (n + k) (src inb req))" by (simp add: take_add)
    with f sk Some show ?thesis unfolding R found_def prod.case by (simp add: ac_simps)
  qed
qed

text \<open>No match starts before the first byte of the needle occurs.\<close>

lemma no_match_before:
  assumes "needle = x # r" "x \<notin> set (take p s)" "q < p"
  shows "\<not> prefix needle (drop q s)"
proof
  assume "prefix needle (drop q s)"
  then have q: "q < length s" "s ! q = x" using assms(1)
    by (metis drop_eq_Nil not_le prefix_Nil list.distinct(1), metis Cons_prefix_Cons Cons_nth_drop_Suc drop_eq_Nil not_le prefix_Nil list.distinct(1))
  then have "s ! q \<in> set (take p s)" using assms(3) by (auto simp: in_set_conv_nth intro!: exI [of _ q])
  with q assms(2) show False by simp
qed

lemma mem_find_byte:
  "kore_mem_find xs [x] (Suc 0) = (if x \<in> set xs then Some (length (takeWhile (\<lambda>c. c \<noteq> x) xs)) else None)"
proof -
  have "mem_find_from pos xs [x] (Suc 0) = (if x \<in> set xs then Some (pos + length (takeWhile (\<lambda>c. c \<noteq> x) xs)) else None)" for pos
    by (induction xs arbitrary: pos) auto
  then show ?thesis by (simp add: kore_mem_find_def)
qed

lemma first_byte:
  assumes "kore_mem_find s [x] (Suc 0) = Some p"
  shows "p < length s" "s ! p = x" "x \<notin> set (take p s)"
proof -
  have p: "x \<in> set s" "p = length (takeWhile (\<lambda>c. c \<noteq> x) s)" using assms by (auto simp: mem_find_byte split: if_splits)
  then have "takeWhile (\<lambda>c. c \<noteq> x) s \<noteq> s" by (auto simp: takeWhile_eq_all_conv)
  then show "p < length s" using p(2) by (metis length_takeWhile_le le_neq_implies_less take_all_iff takeWhile_eq_take)
  with p show "s ! p = x" using nth_length_takeWhile [of "\<lambda>c. c \<noteq> x" s] by simp
  have "take p s = takeWhile (\<lambda>c. c \<noteq> x) s" using p by (metis takeWhile_eq_take)
  then show "x \<notin> set (take p s)" by (metis (mono_tags, lifting) set_takeWhileD)
qed

lemma found_read:
  assumes "src inb1 req1 = src inb req" "same_request req req1"
    and "blength inb1 + http_body_length req1 \<le> blength inb + http_body_length req"
    and "http_body_offset req1 + http_body_length req1 = http_body_offset req + http_body_length req"
    and "found needle inb1 out olen req1 R"
  shows "found needle inb out olen req R"
  using assms same_request_trans [OF assms(2)] by (fastforce simp: found_def split: option.splits)

lemma read_into:
  assumes "src_ok inb req" "http_body_read req n = Inr (Some d, req1)" "0 < n"
  shows "\<exists>inb1. kore_buf_append junk inb d = Inr inb1 \<and> src_ok inb1 req1 \<and> src inb1 req1 = src inb req \<and>
    same_request req req1 \<and> blength inb1 + http_body_length req1 \<le> blength inb + http_body_length req \<and>
    http_body_offset req1 + http_body_length req1 = http_body_offset req + http_body_length req \<and>
    boffset inb1 = boffset inb + length d \<and> http_body_length req = length d + http_body_length req1"
proof -
  have ok: "buf_ok inb" "bdata inb \<noteq> None" "body_ok req" "blength inb + http_body_length req < 2 ^ 64"
    using assms(1) by (auto simp: src_ok_def)
  from http_body_read_ok [OF ok(3) assms(3)] assms(2) have
    r: "body_ok req1" "body_rest req = d @ body_rest req1" "same_request req req1"
      "http_body_offset req1 = http_body_offset req + length d" by auto
  then have l: "http_body_length req = length d + http_body_length req1"
    using length_body_rest [OF ok(3)] length_body_rest [OF r(1)] by simp
  from kore_buf_append_ok [OF ok(1), of d junk] ok(4) l obtain inb1 where
    a: "kore_buf_append junk inb d = Inr inb1" "buf_ok inb1" "buf_contents inb1 = buf_contents inb @ d"
      "blength inb1 \<le> blength inb + length d" by (auto simp: buf_room_def)
  have "boffset inb1 = boffset inb + length d"
    using a(3) length_buf_contents [OF a(2)] length_buf_contents [OF ok(1)] by simp
  moreover have "bdata inb1 \<noteq> None" using a(1) ok(2)
    by (auto simp: kore_buf_append_def kore_buf_reserve_def rbind_eq_Inr Let_def split: if_splits option.splits)
  ultimately show ?thesis using a r l ok(4) by (auto simp: src_ok_def src_def)
qed

lemma find_data_loop_found:
  assumes "needle \<noteq> []"
  shows "src_ok inb req \<Longrightarrow> out_ok out (length (src inb req)) \<Longrightarrow> 2 * http_body_length req + boffset inb < fuel \<Longrightarrow>
    \<exists>R. find_data_loop fuel junk needle inb out olen req = Inr R \<and> found needle inb out olen req R"
proof (induction fuel arbitrary: inb out olen req)
  case (Suc fuel)
  note ok = Suc.prems(1)
  then obtain xs where xs: "bdata inb = Some xs" "boffset inb \<le> length xs" and bi: "buf_ok inb" and bo: "body_ok req"
    by (auto simp: src_ok_def buf_ok_def)
  obtain x nr where nd: "needle = x # nr" using assms by (cases needle) auto
  then have t1: "take (Suc 0) needle = [x]" by simp
  have con: "buf_contents inb = take (boffset inb) xs" using xs by (simp add: buf_contents_def)
  have lc: "length (buf_contents inb) = boffset inb" by (rule length_buf_contents [OF bi])
  let ?S = "src inb req"
  have tS: "take n ?S = take n (buf_contents inb)" if "n \<le> boffset inb" for n using that lc by (simp add: src_def)
  have lS: "boffset inb \<le> length ?S" using lc by (simp add: src_def)
  have oo: "out_ok out n" if "n \<le> boffset inb" for n using Suc.prems(2) that lS by (blast intro: out_ok_mono le_trans)
  show ?case
  proof (cases "boffset inb < length needle")
    case True
    from http_body_read_ok [OF bo, of 4096] obtain d req1 where
      r: "http_body_read req 4096 = Inr (Some d, req1)" "d = [] \<longleftrightarrow> body_rest req = []" "body_ok req1"
        "same_request req req1" "body_rest req = d @ body_rest req1" by auto
    from read_into [OF ok r(1), of junk] obtain inb1 where
      a: "kore_buf_append junk inb d = Inr inb1" "src_ok inb1 req1" "src inb1 req1 = ?S"
        "blength inb1 + http_body_length req1 \<le> blength inb + http_body_length req"
        "http_body_offset req1 + http_body_length req1 = http_body_offset req + http_body_length req"
        "boffset inb1 = boffset inb + length d" "http_body_length req = length d + http_body_length req1" by auto
    show ?thesis
    proof (cases "d = []")
      case True
      with r have "body_rest req = []" by simp
      then have "length ?S < length needle" using \<open>boffset inb < length needle\<close> lc by (simp add: src_def)
      then have n: "first_occ needle ?S = None" using assms by (intro first_occ_short) auto
      have "src_ok inb req1" using ok r(3) a(7) True by (simp add: src_ok_def)
      moreover have "src inb req1 = ?S" using r(5) True by (simp add: src_def)
      moreover have "\<exists>d. out_adds out out d" using out_adds_refl oo by blast
      ultimately show ?thesis using n r a True \<open>boffset inb < length needle\<close>
        by (auto simp: find_data_loop.simps found_def Let_def)
    next
      case False
      then have "2 * http_body_length req1 + boffset inb1 < fuel" using a(6,7) Suc.prems(3) by (cases d) auto
      with Suc.IH [OF a(2)] Suc.prems(2) a(3) obtain R where
        R: "find_data_loop fuel junk needle inb1 out olen req1 = Inr R" "found needle inb1 out olen req1 R" by metis
      from found_read [OF a(3) r(4) a(4,5) R(2)] R(1) show ?thesis using True False r(1) a(1)
        by (simp add: find_data_loop.simps Let_def)
    qed
  next
    case ge: False
    show ?thesis
    proof (cases "kore_mem_find (take (boffset inb) xs) [x] (Suc 0)")
      case None
      then have nx: "x \<notin> set (take (boffset inb) ?S)" using con lc by (auto simp: mem_find_byte src_def split: if_splits)
      from append_front_ok [OF oo le_refl bi xs(1), OF le_refl, of junk] obtain out1 where
        o: "append_front junk out inb (boffset inb) = Inr out1" "out_adds out out1 (take (boffset inb) ?S)"
        using tS by auto
      let ?i = "kore_buf_reset inb"
      have i: "src_ok ?i req" "src ?i req = drop (boffset inb) ?S" "boffset ?i = 0" "blength ?i = blength inb"
        using ok lc by (auto simp: src_ok_def kore_buf_reset_def buf_ok_def src_def buf_contents_def split: option.splits)
      have "out_ok out1 (length (src ?i req))"
        using out_adds_ok [OF o(2)] Suc.prems(2) lS by (simp add: i(2))
      moreover have "0 < boffset inb" using ge assms by (cases needle) auto
      ultimately obtain R where
        R: "find_data_loop fuel junk needle ?i out1 (olen + boffset inb) req = Inr R" "found needle ?i out1 (olen + boffset inb) req R"
        using Suc.IH [OF i(1), of out1 "olen + boffset inb"] Suc.prems(3) i(3) by auto
      have "\<forall>q < boffset inb. \<not> prefix needle (drop q ?S)" using no_match_before [OF nd nx] by blast
      from found_skip [OF assms lS this o(2) i(2,4) R(2)] R(1) o(1) None ge xs t1 show ?thesis
        by (simp add: find_data_loop.simps(2) Let_def)
    next
      case (Some p)
      note fb = first_byte [OF Some]
      then have p: "p < boffset inb" "xs ! p = x" using xs by auto
      have nx: "x \<notin> set (take p ?S)" using fb(3) p con tS [of p] by simp
      have nomatch: "\<forall>q < p. \<not> prefix needle (drop q ?S)" using no_match_before [OF nd nx] by blast
      have cont: "\<exists>R. rbind (append_front junk out inb n) (\<lambda>out1.
          find_data_loop fuel junk needle (buf_shift inb n (boffset inb - n)) out1 (olen + n) req) = Inr R \<and>
          found needle inb out olen req R"
        if n: "0 < n" "n \<le> boffset inb" "\<forall>q < n. \<not> prefix needle (drop q ?S)" for n
      proof -
        from append_front_ok [OF oo n(2) bi xs(1), OF n(2), of junk] tS [OF n(2)] obtain out1 where
          o: "append_front junk out inb n = Inr out1" "out_adds out out1 (take n ?S)" by auto
        have sum: "n + (boffset inb - n) = boffset inb" using n(2) by simp
        note i = buf_shift_ok [OF ok sum]
        have "out_ok out1 (length (src (buf_shift inb n (boffset inb - n)) req))"
          using out_adds_ok [OF o(2)] Suc.prems(2) lS n(2) by (simp add: i(2))
        moreover have "2 * http_body_length req + boffset (buf_shift inb n (boffset inb - n)) < fuel"
          using Suc.prems(3) n(1,2) i(3) by linarith
        ultimately obtain R where
          R: "find_data_loop fuel junk needle (buf_shift inb n (boffset inb - n)) out1 (olen + n) req = Inr R"
            "found needle (buf_shift inb n (boffset inb - n)) out1 (olen + n) req R" using Suc.IH [OF i(1)] by meson
        from found_skip [OF assms le_trans [OF n(2) lS] n(3) o(2) i(2,4) R(2)] R(1) o(1) show ?thesis by simp
      qed
      note unf = find_data_loop.simps(2) [of fuel junk needle inb out olen req]
      consider (short) "boffset inb - p < length needle"
        | (match) "length needle \<le> boffset inb - p" "take (length needle) (drop p xs) = needle"
        | (differ) "length needle \<le> boffset inb - p" "take (length needle) (drop p xs) \<noteq> needle" by linarith
      then show ?thesis
      proof cases
        case short
        then have "0 < p" using ge by (cases p) auto
        from cont [OF this _ nomatch] p(1) short ge Some xs t1 show ?thesis by (simp add: unf Let_def)
      next
        case match
        have "take (length needle) (drop p ?S) = needle"
          using match p con lc by (simp add: src_def drop_take min_absorb1)
        then have pre: "prefix needle (drop p ?S)" by (metis take_is_prefix)
        then have occ: "first_occ needle ?S = Some p" using nomatch assms by (simp add: first_occ_Some)
        from append_front_ok [OF oo [OF less_imp_le [OF p(1)]] less_imp_le [OF p(1)] bi xs(1), of junk] tS [of p] p(1) obtain out1 where
          o: "append_front junk out inb p = Inr out1" "out_adds out out1 (take p ?S)" by auto
        have sum: "p + length needle + (boffset inb - p - length needle) = boffset inb" using match p by simp
        note i = buf_shift_ok [OF ok sum]
        show ?thesis using match ge Some xs t1 o i occ by (simp add: unf Let_def found_def)
      next
        case differ
        have "take (length needle) (drop p ?S) = take (length needle) (drop p xs)"
          using differ p con lc by (simp add: src_def drop_take min_absorb1)
        then have "\<not> prefix needle (drop p ?S)" using differ by (auto simp: prefix_take_iff)
        with nomatch have "\<forall>q < Suc p. \<not> prefix needle (drop q ?S)" using less_Suc_eq by auto
        from cont [OF _ _ this] p(1) differ ge Some xs t1 show ?thesis by (simp add: unf Let_def)
      qed
    qed
  qed
qed simp

lemma multipart_find_data_found:
  assumes "needle \<noteq> []" "src_ok inb req" "out_ok out (length (src inb req))"
  shows "\<exists>R. multipart_find_data junk inb out req needle = Inr R \<and> found needle inb out 0 req R"
  using find_data_loop_found [OF assms] by (simp add: multipart_find_data_def del: find_data_loop.simps)

text \<open>The two ways the parser calls it, when the needle is found at \<open>k\<close>.\<close>

lemma multipart_find_skip:
  assumes "src_ok inb req" "first_occ needle (src inb req) = Some k" "needle \<noteq> []"
  shows "\<exists>inb' req'. multipart_find_data junk inb None req needle = Inr (KORE_RESULT_OK, inb', None, k, req') \<and>
    src_ok inb' req' \<and> src inb' req' = drop (k + length needle) (src inb req) \<and> same_request req req'"
proof -
  from multipart_find_data_found [OF assms(3,1), of None junk] obtain R where
    "multipart_find_data junk inb None req needle = Inr R" "found needle inb None 0 req R" by (auto simp: out_ok_def)
  then show ?thesis using assms(2) by (cases R) (auto simp: found_def out_adds_def)
qed

lemma multipart_find_copy:
  assumes "src_ok inb req" "first_occ needle (src inb req) = Some k" "needle \<noteq> []"
    and "buf_ok b" "blength b + length (src inb req) < 2 ^ 64"
  shows "\<exists>inb' req' b'. multipart_find_data junk inb (Some b) req needle = Inr (KORE_RESULT_OK, inb', Some b', k, req') \<and>
    src_ok inb' req' \<and> src inb' req' = drop (k + length needle) (src inb req) \<and> same_request req req' \<and>
    buf_ok b' \<and> buf_contents b' = buf_contents b @ take k (src inb req) \<and> blength b' \<le> blength b + k"
proof -
  have "out_ok (Some b) (length (src inb req))" using assms(4,5) by (simp add: out_ok_def)
  from multipart_find_data_found [OF assms(3,1) this, of junk] obtain R where
    R: "multipart_find_data junk inb (Some b) req needle = Inr R" "found needle inb (Some b) 0 req R" by blast
  have "k + length needle \<le> length (src inb req)" by (rule first_occ_bound [OF assms(3,2)])
  then have "length (take k (src inb req)) = k" by simp
  with R show ?thesis using assms(2) by (cases R) (auto simp: found_def out_adds_def simp del: length_take)
qed

lemma kore_buf_stringify_string:
  assumes "buf_ok b" "blength b + 1 < 2 ^ 64" "buf_contents b \<noteq> []" "0 \<notin> set (buf_contents b)"
  shows "\<exists>b'. kore_buf_stringify junk b = Inr (b', boffset b) \<and> buf_ok b' \<and> buf_string b' = buf_contents b \<and>
    blength b' \<le> blength b + 1 \<and> bdata b' \<noteq> None"
proof -
  obtain xs where xs: "bdata b = Some xs" using assms(3) by (auto simp: buf_contents_def split: option.splits)
  have len: "length (buf_contents b) = boffset b" "boffset b \<le> length xs"
    using assms(1) length_buf_contents [OF assms(1)] xs by (auto simp: buf_ok_def)
  then have "0 < boffset b" using assms(3) by (metis length_greater_0_conv)
  note len = len this
  have "xs ! (boffset b - 1) \<in> set (buf_contents b)"
    using len xs by (auto simp: buf_contents_def in_set_conv_nth intro!: exI [of _ "boffset b - 1"])
  then have "xs ! (boffset b - 1) \<noteq> 0" using assms(4) by metis
  moreover obtain b' where b': "kore_buf_append junk b [0] = Inr b'" "buf_ok b'" "buf_contents b' = buf_contents b @ [0]"
    "blength b' \<le> blength b + 1" using kore_buf_append_ok [OF assms(1), of "[0]" junk] assms(2) by (auto simp: buf_room_def)
  moreover obtain ys where ys: "bdata b' = Some ys" using b'(3) by (auto simp: buf_contents_def split: option.splits)
  moreover have "buf_string b' = buf_contents b"
  proof -
    have "ys = buf_contents b @ 0 # drop (boffset b') ys"
      using b'(3) ys by (metis append.assoc append_Cons append_Nil append_take_drop_id buf_contents_def option.simps(5))
    then show ?thesis using ys assms(4) by (metis (mono_tags, lifting) buf_string_def option.simps(5) takeWhile_append2 takeWhile.simps(2) append_Nil2)
  qed
  ultimately show ?thesis using xs len by (auto simp: kore_buf_stringify_def)
qed

section \<open>A form of fields\<close>

text \<open>The body that encodes a list of fields, with \<open>dash\<close> the boundary line.\<close>

definition part_head :: "byte list \<Rightarrow> byte list" where
  "part_head n = bs ''Content-Disposition: form-data; name='' @ [34] @ n @ [34]"

definition field_part :: "byte list \<times> byte list \<Rightarrow> byte list" where
  "field_part f = [13, 10] @ part_head (fst f) @ [13, 10, 13, 10] @ snd f @ [13, 10]"

definition form_body :: "byte list \<Rightarrow> (byte list \<times> byte list) list \<Rightarrow> byte list" where
  "form_body dash fs = concat (map (\<lambda>f. dash @ field_part f) fs) @ dash @ bs ''--'' @ [13, 10]"

definition field_ok :: "byte list \<Rightarrow> byte list \<times> byte list \<Rightarrow> bool" where
  "field_ok dash f \<longleftrightarrow> set (fst f) \<inter> {0, 13, 10, 34, 58, 59, 61} = {} \<and> length (fst f) + 3 < 2 ^ 32 \<and> 0 \<notin> set (snd f) \<and>
     first_occ dash (snd f @ [13, 10] @ dash) = Some (length (snd f) + 2)"

lemma prefix_drop_append:
  assumes "q + length nd \<le> length xs"
  shows "prefix nd (drop q (xs @ ys)) \<longleftrightarrow> prefix nd (drop q xs)"
  using assms by (auto simp: prefix_take_iff)

lemma first_occ_append:
  assumes "nd \<noteq> []" "first_occ nd xs = Some k"
  shows "first_occ nd (xs @ ys) = Some k"
proof -
  have b: "k + length nd \<le> length xs" by (rule first_occ_bound [OF assms])
  have "prefix nd (drop k xs)" "\<forall>q < k. \<not> prefix nd (drop q xs)" using assms by (auto simp: first_occ_Some)
  then show ?thesis using b prefix_drop_append [of _ nd xs ys] assms(1) by (auto simp: first_occ_Some)
qed

text \<open>A needle that starts with a byte not in \<open>a\<close> is found right behind \<open>a\<close>.\<close>

lemma first_occ_after:
  assumes "x \<notin> set a"
  shows "first_occ (x # nr) (a @ (x # nr) @ r) = Some (length a)"
  using assms by (induction a) auto

lemma kore_split_single:
  assumes "set s \<inter> set delim = {}" "s \<noteq> []" "1 < ele"
  shows "kore_split_string s delim ele = [s]"
  using assms by (simp add: kore_split_string_def split_loop_fields fields_single)

lemma kore_split_two:
  assumes "d \<notin> set a" "d \<notin> set b" "a \<noteq> []" "b \<noteq> []" "2 < ele"
  shows "kore_split_string (a @ d # b) [d] ele = [a, b]"
proof -
  have "Kore_Str.fields [d] (a @ d # b) = a # Kore_Str.fields [d] b" using assms by (intro fields_join) auto
  then show ?thesis using assms by (simp add: kore_split_string_def split_loop_fields fields_single)
qed

lemma part_header_field:
  assumes "field_ok dash f"
  shows "kore_split_string (part_head (fst f)) [13, 10] 5 = [part_head (fst f)]" (is ?A)
    and "part_header junk req inb boundary (part_head (fst f)) = multipart_add_field junk req inb (fst f) boundary" (is ?B)
proof -
  let ?n = "fst f"
  have n: "0 \<notin> set ?n" "13 \<notin> set ?n" "10 \<notin> set ?n" "34 \<notin> set ?n" "58 \<notin> set ?n" "59 \<notin> set ?n" "61 \<notin> set ?n"
    and ln: "length ?n + 3 < 2 ^ 32" using assms by (auto simp: field_ok_def)
  show ?A using n by (intro kore_split_single) (auto simp: part_head_def bs_def)
  have h: "part_head ?n = bs ''Content-Disposition'' @ 58 # bs '' form-data; name='' @ 34 # ?n @ [34]"
    by (simp add: part_head_def bs_def)
  have s1: "kore_split_string (part_head ?n) (bs '':'') 5 = [bs ''Content-Disposition'', bs '' form-data; name='' @ 34 # ?n @ [34]]"
    using n kore_split_two [of 58 "bs ''Content-Disposition''" "bs '' form-data; name='' @ 34 # ?n @ [34]" 5]
    by (simp add: h bs_def)
  have d: "dropWhile isspace (bs '' form-data; name='' @ 34 # ?n @ [34]) = bs ''form-data'' @ 59 # bs '' name='' @ 34 # ?n @ [34]"
    by (simp add: bs_def isspace_def)
  have s2: "kore_split_string (bs ''form-data'' @ 59 # bs '' name='' @ 34 # ?n @ [34]) (bs '';'') 5 =
      [bs ''form-data'', bs '' name='' @ 34 # ?n @ [34]]"
    using n kore_split_two [of 59 "bs ''form-data''" "bs '' name='' @ 34 # ?n @ [34]" 5] by (simp add: bs_def)
  have c: "strchr (bs '' name='' @ 34 # ?n @ [34]) 61 = Some (61 # 34 # ?n @ [34])" by (simp add: bs_def)
  have st: "kore_strip_chars (34 # ?n @ [34]) 34 = Inr ?n"
    using ln n by (auto simp: kore_strip_chars_def Let_def filter_id_conv)
  have eq: "strcaseeq (bs ''Content-Disposition'') (bs ''content-disposition'')" "strcaseeq (bs ''form-data'') (bs ''form-data'')"
    by (simp_all add: strcaseeq_def bs_def tolower_def)
  show ?B using c st by (simp add: part_header_def s1 d s2 eq Let_def)
qed

lemma src_arguments [simp]:
  "src_ok inb (req\<lparr>rq_arguments := as\<rparr>) = src_ok inb req" "src inb (req\<lparr>rq_arguments := as\<rparr>) = src inb req"
  "src_ok inb (req\<lparr>req_headers := hs\<rparr>) = src_ok inb req" "src inb (req\<lparr>req_headers := hs\<rparr>) = src inb req"
  by (simp_all add: src_ok_def src_def body_ok_def body_rest_def split: option.split)

lemma multipart_add_field_ok:
  assumes ok: "src_ok inb req" and S: "src inb req = v @ [13, 10] @ dash @ rest" and dash: "dash \<noteq> []"
    and occ: "first_occ dash (v @ [13, 10] @ dash) = Some (length v + 2)" and v0: "0 \<notin> set v"
    and size: "length (src inb req) + 129 < 2 ^ 64"
  shows "\<exists>req' inb'. multipart_add_field junk req inb n dash = Inr (req', inb') \<and> src_ok inb' req' \<and> src inb' req' = rest \<and>
    rq_arguments req' = rq_arguments req @ (if v = [] then [] else [arg_of (n, v)]) \<and> rq_files req' = rq_files req"
proof -
  have "first_occ dash ((v @ [13, 10] @ dash) @ rest) = Some (length v + 2)" by (rule first_occ_append [OF dash occ])
  then have occ': "first_occ dash (src inb req) = Some (length v + 2)" by (simp add: S)
  from kore_buf_alloc_ok [of 128 junk] obtain b where
    b: "kore_buf_alloc junk 128 = Inr b" "buf_ok b" "buf_contents b = []" "blength b = 128" by auto
  have "blength b + length (src inb req) < 2 ^ 64" using b(4) size by simp
  from multipart_find_copy [OF ok occ' dash b(2) this, of junk] obtain inb' req1 b' where
    f: "multipart_find_data junk inb (Some b) req dash = Inr (KORE_RESULT_OK, inb', Some b', length v + 2, req1)"
      "src_ok inb' req1" "src inb' req1 = drop (length v + 2 + length dash) (src inb req)" "same_request req req1"
      "buf_ok b'" "buf_contents b' = v @ [13, 10]" "blength b' \<le> 130 + length v"
    by (auto simp: b(3,4) S)
  have r: "src inb' req1 = rest" using f(3) by (simp add: S)
  have off: "boffset b' = length v + 2" using length_buf_contents [OF f(5)] f(6) by simp
  show ?thesis
  proof (cases "v = []")
    case True
    then show ?thesis using b(1) f(1,2) r off same_requestD [OF f(4)] by (simp add: multipart_add_field_def)
  next
    case False
    let ?b = "b'\<lparr>boffset := boffset b' - 2\<rparr>"
    have "buf_ok ?b" "blength ?b + 1 < 2 ^ 64" using f(5,7) size S by (auto simp: buf_ok_def)
    moreover have c: "buf_contents ?b = v"
    proof -
      have "buf_contents ?b = take (length v) (buf_contents b')" by (simp add: buf_contents_def off split: option.split)
      then show ?thesis using f(6) by simp
    qed
    ultimately obtain b2 where "kore_buf_stringify junk ?b = Inr (b2, boffset ?b)" "buf_string b2 = v"
      using kore_buf_stringify_string [of ?b junk] False v0 by auto
    then show ?thesis using b(1) f(1,2) r off same_requestD [OF f(4)] False
      by (cases v) (auto simp: multipart_add_field_def http_argument_add_def arg_of_def)
  qed
qed

lemma part_head_free: "field_ok dash f \<Longrightarrow> 13 \<notin> set (part_head (fst f)) \<and> 0 \<notin> set (part_head (fst f)) \<and> part_head (fst f) \<noteq> []"
  by (auto simp: field_ok_def part_head_def bs_def)

lemma multipart_loop_field:
  assumes ok: "src_ok inb req" and f: "field_ok dash f" and dash: "dash \<noteq> []"
    and S: "src inb req = field_part f @ dash @ rest"
    and out: "buf_ok out" "buf_contents out = []" "blength out + length (src inb req) < 2 ^ 64" "length (src inb req) + 129 < 2 ^ 64"
  shows "\<exists>req' inb' out'. multipart_loop (Suc fuel) junk req inb out dash = multipart_loop fuel junk req' inb' out' dash \<and>
    src_ok inb' req' \<and> src inb' req' = rest \<and> buf_ok out' \<and> buf_contents out' = [] \<and> blength out' + length rest < 2 ^ 64 \<and>
    rq_arguments req' = rq_arguments req @ (if snd f = [] then [] else [arg_of f]) \<and> rq_files req' = rq_files req"
proof -
  let ?h = "part_head (fst f)" and ?v = "snd f"
  have hf: "13 \<notin> set ?h" "0 \<notin> set ?h" "?h \<noteq> []" using part_head_free [OF f] by auto
  have S1: "src inb req = [13, 10] @ ?h @ [13, 10, 13, 10] @ ?v @ [13, 10] @ dash @ rest" by (simp add: S field_part_def)
  have "first_occ [13, 10] (src inb req) = Some 0" by (simp add: S1)
  from multipart_find_skip [OF ok this, of junk] obtain inb1 req1 where
    a: "multipart_find_data junk inb None req [13, 10] = Inr (KORE_RESULT_OK, inb1, None, 0, req1)"
      "src_ok inb1 req1" "src inb1 req1 = ?h @ [13, 10, 13, 10] @ ?v @ [13, 10] @ dash @ rest" "same_request req req1"
    by (auto simp: S1)
  have len1: "length (src inb1 req1) = boffset inb1 + http_body_length req1"
    by (rule length_src [OF a(2)])
  have "\<not> (boffset inb1 < 4 \<and> http_body_length req1 = 0)" using len1 a(3) by auto
  note more = this
  have "first_occ [13, 10, 13, 10] (src inb1 req1) = Some (length ?h)"
    using first_occ_after [OF hf(1), of "[10, 13, 10]"] by (simp add: a(3))
  from multipart_find_copy [OF a(2) this _ out(1), of junk] out(2,3) obtain inb2 req2 b where
    c: "multipart_find_data junk inb1 (Some out) req1 [13, 10, 13, 10] = Inr (KORE_RESULT_OK, inb2, Some b, length ?h, req2)"
      "src_ok inb2 req2" "src inb2 req2 = ?v @ [13, 10] @ dash @ rest" "same_request req1 req2"
      "buf_ok b" "buf_contents b = ?h" "blength b \<le> blength out + length ?h"
    by (auto simp: a(3) S1)
  have "blength b + 1 < 2 ^ 64" using c(7) out(3) by (simp add: S1)
  from kore_buf_stringify_string [OF c(5) this, of junk] c(6) hf obtain b2 where
    s: "kore_buf_stringify junk b = Inr (b2, boffset b)" "buf_ok b2" "buf_string b2 = ?h" "blength b2 \<le> blength b + 1" by auto
  have occ: "first_occ dash (?v @ [13, 10] @ dash) = Some (length ?v + 2)" "0 \<notin> set ?v" using f by (auto simp: field_ok_def)
  have "length (src inb2 req2) + 129 < 2 ^ 64" using out(4) by (simp add: c(3) S1)
  from multipart_add_field_ok [OF c(2,3) dash occ this, of junk "fst f"] obtain req3 inb3 where
    m: "multipart_add_field junk req2 inb2 (fst f) dash = Inr (req3, inb3)" "src_ok inb3 req3" "src inb3 req3 = rest"
      "rq_arguments req3 = rq_arguments req2 @ (if ?v = [] then [] else [arg_of (fst f, ?v)])" "rq_files req3 = rq_files req2"
    by auto
  have p: "multipart_parse_headers junk req2 inb2 b dash = Inr (req3, inb3, b2)"
    using s m(1) by (simp add: multipart_parse_headers_def part_header_field [OF f])
  have fin: "buf_ok (kore_buf_reset b2)" "buf_contents (kore_buf_reset b2) = []" "blength (kore_buf_reset b2) + length rest < 2 ^ 64"
    using s c(7) out(3) by (auto simp: kore_buf_reset_def buf_ok_def buf_contents_def S1 split: option.splits)
  have "multipart_loop (Suc fuel) junk req inb out dash = multipart_loop fuel junk req3 inb3 (kore_buf_reset b2) dash"
    using a(1) more c(1) p by auto
  moreover have "rq_arguments req3 = rq_arguments req @ (if ?v = [] then [] else [arg_of f])" "rq_files req3 = rq_files req"
    using m(4,5) same_requestD [OF a(4)] same_requestD [OF c(4)] by simp_all
  ultimately show ?thesis using m(2,3) fin by blast
qed

lemma length_form_body: "length fs + length dash \<le> length (form_body dash fs)"
  by (induction fs) (auto simp: form_body_def field_part_def)

lemma multipart_loop_form:
  assumes "dash \<noteq> []"
  shows "\<forall>f \<in> set fs. field_ok dash f \<Longrightarrow> src_ok inb req \<Longrightarrow>
    dash @ src inb req = form_body dash fs \<Longrightarrow> buf_ok out \<Longrightarrow> buf_contents out = [] \<Longrightarrow>
    blength out + length (src inb req) < 2 ^ 64 \<Longrightarrow> length (src inb req) + 129 < 2 ^ 64 \<Longrightarrow> length fs < fuel \<Longrightarrow>
    \<exists>req'. multipart_loop fuel junk req inb out dash = Inr req' \<and>
      rq_arguments req' = rq_arguments req @ map arg_of (filter (\<lambda>f. snd f \<noteq> []) fs) \<and> rq_files req' = rq_files req"
proof (induction fs arbitrary: req inb out fuel)
  case Nil
  then obtain n where n: "fuel = Suc n" by (cases fuel) auto
  have S: "src inb req = bs ''--'' @ [13, 10]" using Nil.prems(3) by (simp add: form_body_def)
  have "first_occ [13, 10] (src inb req) = Some 2"
    using first_occ_after [of 13 "bs ''--''" "[10]" "[]"] by (simp add: S bs_def)
  from multipart_find_skip [OF Nil.prems(2) this, of junk] obtain inb' req' where
    f: "multipart_find_data junk inb None req [13, 10] = Inr (KORE_RESULT_OK, inb', None, 2, req')" "src_ok inb' req'"
      "src inb' req' = []" "same_request req req'" by (auto simp: S bs_def)
  have "boffset inb' = 0" "http_body_length req' = 0"
    using length_src [OF f(2)] f(3) by simp_all
  then show ?case using f(1) n same_requestD [OF f(4)] by auto
next
  case (Cons f fs)
  then obtain n where n: "fuel = Suc n" by (cases fuel) auto
  have S: "src inb req = field_part f @ form_body dash fs" using Cons.prems(3) by (simp add: form_body_def)
  moreover obtain r where r: "form_body dash fs = dash @ r" by (cases fs) (auto simp: form_body_def)
  ultimately have S': "src inb req = field_part f @ dash @ r" by simp
  from Cons.prems(1) have f: "field_ok dash f" by simp
  from multipart_loop_field [OF Cons.prems(2) f assms S' Cons.prems(4-7), of n junk] obtain req' inb' out' where
    l: "multipart_loop (Suc n) junk req inb out dash = multipart_loop n junk req' inb' out' dash"
      "src_ok inb' req'" "src inb' req' = r" "buf_ok out'" "buf_contents out' = []" "blength out' + length r < 2 ^ 64"
      "rq_arguments req' = rq_arguments req @ (if snd f = [] then [] else [arg_of f])" "rq_files req' = rq_files req" by blast
  have "length (src inb' req') + 129 < 2 ^ 64" using Cons.prems(7) by (simp add: S' l(3))
  moreover have "blength out' + length (src inb' req') < 2 ^ 64" using l(3,6) by simp
  moreover have "dash @ src inb' req' = form_body dash fs" using r l(3) by simp
  ultimately obtain req'' where
    "multipart_loop n junk req' inb' out' dash = Inr req''"
    "rq_arguments req'' = rq_arguments req' @ map arg_of (filter (\<lambda>f. snd f \<noteq> []) fs)" "rq_files req'' = rq_files req'"
    using Cons.IH [OF _ l(2) _ l(4,5), of n] Cons.prems(1,8) n by auto
  then show ?case using l n by simp
qed

section \<open>Properties\<close>

text \<open>The multipart search: whatever pieces the body arrives in, \<open>multipart_find_data\<close> ends, and it finds the
  needle exactly when it occurs in the pending input; then the output buffer has got precisely the
  bytes in front of its first occurrence, their number is returned, and the input goes on behind it.\<close>

theorem multipart_find_data_correct:
  assumes "needle \<noteq> []" and "src_ok inb req" and "buf_ok b" and "blength b + length (src inb req) < 2 ^ 64"
  shows "case first_occ needle (src inb req) of
      None \<Rightarrow> \<exists>inb' out' n req'. multipart_find_data junk inb (Some b) req needle = Inr (KORE_RESULT_ERROR, inb', out', n, req')
    | Some k \<Rightarrow> \<exists>inb' b' req'. multipart_find_data junk inb (Some b) req needle = Inr (KORE_RESULT_OK, inb', Some b', k, req') \<and>
        buf_contents b' = buf_contents b @ take k (src inb req) \<and>
        src inb' req' = drop (k + length needle) (src inb req)"
proof (cases "first_occ needle (src inb req)")
  case None
  have "out_ok (Some b) (length (src inb req))" using assms(3,4) by (simp add: out_ok_def)
  from multipart_find_data_found [OF assms(1,2) this, of junk] None show ?thesis by (auto simp: found_def)
next
  case (Some k)
  with multipart_find_copy [OF assms(2) Some assms(1,3,4), of junk] show ?thesis by auto
qed

definition body_request :: "byte list \<Rightarrow> http_request" where
  "body_request d = blank_request\<lparr>rq_method := HTTP_METHOD_POST, http_body_length := length d,
     http_body_fd := Some \<lparr>bf_data = d, bf_pos = 0, bf_reads = [Fr_intr, Fr_take 1, Fr_take 2]\<rparr>\<rparr>"

definition empty_buf :: kore_buf where
  "empty_buf = \<lparr>bdata = Some [0, 0, 0, 0], bflags = 0, blength = 4, boffset = 0\<rparr>"

lemma body_request_src: "src_ok empty_buf (body_request d) \<longleftrightarrow> 4 + length d < 2 ^ 64" "src empty_buf (body_request d) = d"
  by (auto simp: src_ok_def src_def empty_buf_def body_request_def buf_ok_def body_ok_def body_rest_def buf_contents_def)

theorem multipart_find_data_correct_witness:
  "\<exists>inb' b' req'. multipart_find_data (\<lambda>_. 7) empty_buf (Some empty_buf) (body_request (bs ''ab-c--d'')) (bs ''--'') =
      Inr (KORE_RESULT_OK, inb', Some b', 4, req') \<and>
    buf_contents b' = buf_contents empty_buf @ take 4 (bs ''ab-c--d'') \<and> src inb' req' = drop (4 + length (bs ''--'')) (bs ''ab-c--d'')"
proof -
  have "first_occ (bs ''--'') (bs ''ab-c--d'') = Some 4" by (simp add: bs_def)
  moreover have "src_ok empty_buf (body_request (bs ''ab-c--d''))" by (simp add: body_request_src bs_def)
  moreover have "buf_ok empty_buf" "bs ''--'' \<noteq> []" by (simp_all add: empty_buf_def buf_ok_def bs_def)
  moreover have "blength empty_buf + length (src empty_buf (body_request (bs ''ab-c--d''))) < 2 ^ 64"
    by (simp only: body_request_src) (simp add: empty_buf_def bs_def)
  ultimately show ?thesis
    using multipart_find_data_correct [of "bs ''--''" empty_buf "body_request (bs ''ab-c--d'')" empty_buf "\<lambda>_. 7"]
    by (simp add: body_request_src)
qed


definition form_request :: http_request where
  "form_request = (body_request (form_body (bs ''--'' @ bs ''X'') [(bs ''id'', bs ''7''), (bs ''e'', []), (bs ''t'', bs ''a-b'')]))
     \<lparr>req_headers := [\<lparr>hdr_header = bs ''Content-Type'', hdr_value = bs ''multipart/form-data; boundary='' @ bs ''X''\<rparr>]\<rparr>"


text \<open>An empty posted form crashes the server: for a request with the method \<open>POST\<close> and no body,
  \<open>http_populate_post\<close> stringifies an empty buffer, which reads in front of the block.\<close>

theorem http_populate_post_empty:
  assumes "rq_method req = HTTP_METHOD_POST" and "http_body req = None" and "http_body_length req = 0"
  shows "http_populate_post junk req = Inl Out_of_bounds"
  using assms by (simp add: http_populate_post_def http_body_read_def kore_buf_alloc_def kore_buf_init_def malloc_block_def
      kore_buf_stringify_def Let_def)

theorem http_populate_post_empty_witness:
  "http_populate_post (\<lambda>_. 0) (blank_request\<lparr>rq_method := HTTP_METHOD_POST\<rparr>) = Inl Out_of_bounds"
  by (rule http_populate_post_empty) (simp_all add: blank_request_def)

end
