(* ===== verification/Kore_Net.thy ===== *)
theory Kore_Net
  imports Kore_Buf
begin

text \<open>
  The network buffers of \<open>base/kore/net.c\<close>: the send queue of a connection, the single receive buffer,
  and the byte order helpers. The build has no TLS, so \<open>c->write\<close> is \<open>net_write\<close> and \<open>c->read\<close> is
  \<open>net_read\<close>.

  A netbuf owns its block; a flag word is the record of its bits. The results of the system calls
  come from a script, one entry for each turn of a loop, and \<open>wire\<close> is what the kernel has taken so far. A flush that
  uses up the script is still running, which is the result \<open>None\<close>.
\<close>

section \<open>State\<close>

definition NETBUF_SEND_PAYLOAD_MAX :: nat where "NETBUF_SEND_PAYLOAD_MAX = 8192"

datatype nb_type = NETBUF_RECV | NETBUF_SEND

text \<open>\<open>'k\<close> names callbacks.\<close>

record 'k netbuf =
  nb_buf :: "byte list"
  s_off :: nat
  b_len :: nat
  m_len :: nat
  nb_type :: nb_type
  nb_cb :: "'k option"
  nb_call_always :: bool
  nb_force_remove :: bool
  nb_must_resend :: bool
  nb_is_stream :: bool

record 'k connection =
  send_queue :: "'k netbuf list"
  rnb :: "'k netbuf option"
  read_possible :: bool
  write_possible :: bool
  close_empty :: bool
  disconnected :: bool
  wire :: "byte list"
  stream_done :: "'k list"

text \<open>Results of \<open>write\<close> and \<open>read\<close>. \<open>read\<close> returns zero at the end of the stream and leaves \<open>errno\<close> as it was;
  \<open>Rd_eof e\<close> is that case with the left-over value.\<close>

datatype errno = EINTR | EAGAIN | Eother

datatype wres = Wrote nat | Wr_error errno

datatype rres = Rd "byte list" | Rd_eof errno | Rd_error errno

section \<open>Sending\<close>

definition last_room :: "'k netbuf \<Rightarrow> bool" where
  "last_room nb \<longleftrightarrow> \<not> nb_is_stream nb \<and> b_len nb < m_len nb"

text \<open>A store into a block, faulting outside of it.\<close>

definition block_write :: "byte list \<Rightarrow> nat \<Rightarrow> byte list \<Rightarrow> byte list res" where
  "block_write xs off d = (if off + length d \<le> length xs then Inr (memcpy_at xs off d) else Inl Out_of_bounds)"

definition new_send_buf :: "(nat \<Rightarrow> byte) \<Rightarrow> byte list \<Rightarrow> 'k netbuf res" where
  "new_send_buf junk d =
     (let m = (if length d < NETBUF_SEND_PAYLOAD_MAX then NETBUF_SEND_PAYLOAD_MAX else length d) in
      rbind (malloc_block junk m) (\<lambda>b.
      rbind (if length d > 0 then block_write b 0 d else Inr b) (\<lambda>b1.
        Inr \<lparr>nb_buf = b1, s_off = 0, b_len = length d, m_len = m, nb_type = NETBUF_SEND, nb_cb = None,
             nb_call_always = False, nb_force_remove = False, nb_must_resend = False, nb_is_stream = False\<rparr>)))"

definition net_send_queue :: "(nat \<Rightarrow> byte) \<Rightarrow> ('k, 'a) connection_scheme \<Rightarrow> byte list \<Rightarrow> ('k, 'a) connection_scheme res" where
  "net_send_queue junk c data =
     (let q = send_queue c;
          append_new = (\<lambda>c d. rbind (new_send_buf junk d) (\<lambda>nb. Inr (c\<lparr>send_queue := send_queue c @ [nb]\<rparr>))) in
      if q \<noteq> [] \<and> last_room (last q) then
        let nb = last q; avail = m_len nb - b_len nb in
        if length data < avail then
          rbind (block_write (nb_buf nb) (b_len nb) data) (\<lambda>b.
            Inr (c\<lparr>send_queue := butlast q @ [nb\<lparr>nb_buf := b, b_len := b_len nb + length data\<rparr>]\<rparr>))
        else
          rbind (block_write (nb_buf nb) (b_len nb) (take avail data)) (\<lambda>b.
            let c1 = c\<lparr>send_queue := butlast q @ [nb\<lparr>nb_buf := b, b_len := b_len nb + avail\<rparr>]\<rparr>;
                d = drop avail data in
            if d = [] then Inr c1 else append_new c1 d)
      else append_new c data)"

definition net_send_stream :: "('k, 'a) connection_scheme \<Rightarrow> byte list \<Rightarrow> 'k option \<Rightarrow> ('k, 'a) connection_scheme" where
  "net_send_stream c data cb =
     c\<lparr>send_queue := send_queue c @ [\<lparr>nb_buf = data, s_off = 0, b_len = length data, m_len = length data,
        nb_type = NETBUF_SEND, nb_cb = cb, nb_call_always = False, nb_force_remove = False,
        nb_must_resend = False, nb_is_stream = True\<rparr>]\<rparr>"

text \<open>\<open>net_remove_netbuf\<close> of the first netbuf of the send queue; the callback of a finished stream is noted in
  \<open>stream_done\<close>.\<close>

definition net_remove_netbuf :: "('k, 'a) connection_scheme \<Rightarrow> ('k, 'a) connection_scheme res" where
  "net_remove_netbuf c =
     (case send_queue c of
        [] \<Rightarrow> Inl Null_deref
      | nb # q \<Rightarrow>
          if nb_type nb = NETBUF_RECV then Inl (Fatal ''net_remove_netbuf(): cannot remove recv netbuf'')
          else if nb_must_resend nb then Inr (c\<lparr>send_queue := nb\<lparr>nb_force_remove := True\<rparr> # q\<rparr>)
          else Inr (c\<lparr>send_queue := q,
                 stream_done := (case nb_cb nb of Some k \<Rightarrow> if nb_is_stream nb then stream_done c @ [k] else stream_done c
                                 | None \<Rightarrow> stream_done c)\<rparr>))"

text \<open>\<open>net_write\<close>: the result code, \<open>*written\<close> (\<open>None\<close> when it is not set) and the connection. The
  kernel takes a prefix of the \<open>len\<close> bytes offered.\<close>

definition net_write :: "('k, 'a) connection_scheme \<Rightarrow> byte list \<Rightarrow> wres \<Rightarrow> int \<times> nat option \<times> ('k, 'a) connection_scheme" where
  "net_write c bytes r =
     (case r of
        Wrote n \<Rightarrow> (KORE_RESULT_OK, Some (min n (length bytes)), c\<lparr>wire := wire c @ take n bytes\<rparr>)
      | Wr_error EINTR \<Rightarrow> (KORE_RESULT_OK, Some 0, c)
      | Wr_error EAGAIN \<Rightarrow> (KORE_RESULT_OK, None, c\<lparr>write_possible := False\<rparr>)
      | Wr_error Eother \<Rightarrow> (KORE_RESULT_ERROR, None, c))"

text \<open>\<open>len\<close> and \<open>smin\<close> are 32 bits wide. The script entry is used only when there is something to write.\<close>

definition send_len :: "'k netbuf \<Rightarrow> nat" where
  "send_len nb = min NETBUF_SEND_PAYLOAD_MAX ((b_len nb - s_off nb) mod 2 ^ 32)"

text \<open>The end of a turn: the buffer goes once all of it is written.\<close>

definition send_finish :: "'k netbuf list \<Rightarrow> ('k, 'a) connection_scheme \<Rightarrow> 'k netbuf \<Rightarrow> (int \<times> ('k, 'a) connection_scheme) res" where
  "send_finish q c nb =
     (if s_off nb = b_len nb \<or> nb_force_remove nb
      then rbind (net_remove_netbuf (c\<lparr>send_queue := nb # q\<rparr>)) (\<lambda>c1. Inr (KORE_RESULT_OK, c1))
      else Inr (KORE_RESULT_OK, c\<lparr>send_queue := nb # q\<rparr>))"

definition net_send :: "('k, 'a) connection_scheme \<Rightarrow> wres \<Rightarrow> (int \<times> ('k, 'a) connection_scheme) res" where
  "net_send c r =
     (case send_queue c of
        [] \<Rightarrow> Inl Null_deref
      | snb # q \<Rightarrow>
          if b_len snb \<noteq> 0 then
            case net_write c (take (send_len snb) (drop (s_off snb) (nb_buf snb))) r of (res, written, c1) \<Rightarrow>
              if res = KORE_RESULT_ERROR then Inr (KORE_RESULT_ERROR, c1)
              else if \<not> write_possible c1 then Inr (KORE_RESULT_OK, c1)
              else send_finish q c1 (snb\<lparr>s_off := s_off snb + (case written of Some n \<Rightarrow> n | None \<Rightarrow> 0), nb_must_resend := False\<rparr>)
          else send_finish q c snb)"

fun net_send_flush :: "('k, 'a) connection_scheme \<Rightarrow> wres list \<Rightarrow> (int \<times> ('k, 'a) connection_scheme) option res" where
  "net_send_flush c script =
     (if send_queue c \<noteq> [] \<and> write_possible c then
        case script of
          [] \<Rightarrow> Inr None
        | r # rs \<Rightarrow>
            rbind (net_send c r) (\<lambda>(res, c1).
              if res = KORE_RESULT_ERROR then Inr (Some (KORE_RESULT_ERROR, c1)) else net_send_flush c1 rs)
      else Inr (Some (KORE_RESULT_OK,
        if close_empty c \<and> send_queue c = [] then c\<lparr>disconnected := True\<rparr> else c)))"

declare net_send_flush.simps [simp del]

section \<open>Receiving\<close>

definition net_recv_reset :: "(nat \<Rightarrow> byte) \<Rightarrow> ('k, 'a) connection_scheme \<Rightarrow> nat \<Rightarrow> 'k \<Rightarrow> ('k, 'a) connection_scheme res" where
  "net_recv_reset junk c len cb =
     (case rnb c of
        None \<Rightarrow> Inl Null_deref
      | Some nb \<Rightarrow>
          if nb_type nb \<noteq> NETBUF_RECV then Inl (Fatal ''net_recv_reset(): wrong netbuf type'')
          else let nb1 = nb\<lparr>nb_cb := Some cb, s_off := 0, b_len := len\<rparr> in
            if b_len nb1 \<le> m_len nb1 \<and> m_len nb1 < NETBUF_SEND_PAYLOAD_MAX div 2 then Inr (c\<lparr>rnb := Some nb1\<rparr>)
            else rbind (malloc_block junk len) (\<lambda>b. Inr (c\<lparr>rnb := Some (nb1\<lparr>m_len := len, nb_buf := b\<rparr>)\<rparr>)))"

definition net_recv_queue ::
    "(nat \<Rightarrow> byte) \<Rightarrow> ('k, 'a) connection_scheme \<Rightarrow> nat \<Rightarrow> bool \<Rightarrow> 'k \<Rightarrow> ('k, 'a) connection_scheme res" where
  "net_recv_queue junk c len always cb =
     (if rnb c \<noteq> None then Inl (Fatal ''net_recv_queue(): called incorrectly'')
      else rbind (malloc_block junk len) (\<lambda>b.
        Inr (c\<lparr>rnb := Some \<lparr>nb_buf = b, s_off = 0, b_len = len, m_len = len, nb_type = NETBUF_RECV, nb_cb = Some cb,
             nb_call_always = always, nb_force_remove = False, nb_must_resend = False, nb_is_stream = False\<rparr>\<rparr>)))"

definition net_recv_expand :: "(nat \<Rightarrow> byte) \<Rightarrow> ('k, 'a) connection_scheme \<Rightarrow> nat \<Rightarrow> 'k \<Rightarrow> ('k, 'a) connection_scheme res" where
  "net_recv_expand junk c len cb =
     (case rnb c of
        None \<Rightarrow> Inl Null_deref
      | Some nb \<Rightarrow>
          if nb_type nb \<noteq> NETBUF_RECV then Inl (Fatal ''net_recv_expand(): wrong netbuf type'')
          else let n = wadd64 (b_len nb) len in
            rbind (realloc_block junk (Some (nb_buf nb)) n) (\<lambda>b.
              Inr (c\<lparr>rnb := Some (nb\<lparr>nb_cb := Some cb, b_len := n, m_len := n, nb_buf := b\<rparr>)\<rparr>)))"

text \<open>\<open>net_read\<close>: the result code, the bytes read, and the connection. The kernel stores at most the bytes
  asked for.\<close>

definition net_read :: "('k, 'a) connection_scheme \<Rightarrow> nat \<Rightarrow> rres \<Rightarrow> int \<times> byte list \<times> ('k, 'a) connection_scheme" where
  "net_read c want r =
     (let err = (\<lambda>e. case e of
          EINTR \<Rightarrow> (KORE_RESULT_OK, [], c)
        | EAGAIN \<Rightarrow> (KORE_RESULT_OK, [], c\<lparr>read_possible := False\<rparr>)
        | Eother \<Rightarrow> (KORE_RESULT_ERROR, [], c)) in
      case r of
        Rd bytes \<Rightarrow> (KORE_RESULT_OK, take want bytes, c)
      | Rd_eof e \<Rightarrow> err e
      | Rd_error e \<Rightarrow> err e)"

text \<open>\<open>call k w c\<close> runs the callback \<open>k\<close> on the receive buffer of \<open>c\<close>; \<open>w\<close> is all other state it acts on.\<close>

type_synonym ('w, 'k, 'a) callbacks =
  "'k \<Rightarrow> 'w \<Rightarrow> ('k, 'a) connection_scheme \<Rightarrow> (int \<times> 'w \<times> ('k, 'a) connection_scheme) res"

text \<open>One turn of the loop: \<open>None\<close> says the loop goes on.\<close>

definition net_recv_turn ::
    "('w, 'k, 'a) callbacks \<Rightarrow> 'w \<Rightarrow> ('k, 'a) connection_scheme \<Rightarrow> rres \<Rightarrow>
      (int option \<times> 'w \<times> ('k, 'a) connection_scheme) res" where
  "net_recv_turn call w c r =
     (case rnb c of
        None \<Rightarrow> Inl Null_deref
      | Some nb \<Rightarrow>
          case net_read c (b_len nb - s_off nb) r of (res, bytes, c1) \<Rightarrow>
            if res = KORE_RESULT_ERROR then Inr (Some KORE_RESULT_ERROR, w, c1)
            else if \<not> read_possible c1 then Inr (Some KORE_RESULT_OK, w, c1)
            else rbind (block_write (nb_buf nb) (s_off nb) bytes) (\<lambda>b.
              let nb1 = nb\<lparr>nb_buf := b, s_off := s_off nb + length bytes\<rparr>; c2 = c1\<lparr>rnb := Some nb1\<rparr> in
              if s_off nb1 = b_len nb1 \<or> nb_call_always nb1 then
                (case nb_cb nb1 of
                   None \<Rightarrow> Inl Null_deref
                 | Some k \<Rightarrow> rbind (call k w c2) (\<lambda>(res1, w1, c3).
                     if res1 \<noteq> KORE_RESULT_OK then Inr (Some res1, w1, c3) else Inr (None, w1, c3)))
              else Inr (None, w, c2)))"

fun recv_loop ::
    "('w, 'k, 'a) callbacks \<Rightarrow> 'w \<Rightarrow> ('k, 'a) connection_scheme \<Rightarrow> rres list \<Rightarrow>
      (int \<times> 'w \<times> ('k, 'a) connection_scheme) option res" where
  "recv_loop call w c script =
     (if read_possible c then
        case script of
          [] \<Rightarrow> Inr None
        | r # rs \<Rightarrow> rbind (net_recv_turn call w c r) (\<lambda>(stop, w1, c1).
            case stop of Some res \<Rightarrow> Inr (Some (res, w1, c1)) | None \<Rightarrow> recv_loop call w1 c1 rs)
      else Inr (Some (KORE_RESULT_OK, w, c)))"

declare recv_loop.simps [simp del]

definition net_recv_flush ::
    "('w, 'k, 'a) callbacks \<Rightarrow> 'w \<Rightarrow> ('k, 'a) connection_scheme \<Rightarrow> rres list \<Rightarrow>
      (int \<times> 'w \<times> ('k, 'a) connection_scheme) option res" where
  "net_recv_flush call w c script =
     (if rnb c = None then Inr (Some (KORE_RESULT_OK, w, c)) else recv_loop call w c script)"

section \<open>The output stream\<close>

text \<open>A sound send buffer, and the bytes of it that are still to be written.\<close>

definition nb_ok :: "'k netbuf \<Rightarrow> bool" where
  "nb_ok nb \<longleftrightarrow> s_off nb \<le> b_len nb \<and> b_len nb \<le> m_len nb \<and> m_len nb = length (nb_buf nb) \<and> m_len nb < 2 ^ 32 \<and>
     nb_type nb = NETBUF_SEND \<and> \<not> nb_force_remove nb \<and> \<not> nb_must_resend nb"

definition nb_pending :: "'k netbuf \<Rightarrow> byte list" where
  "nb_pending nb = take (b_len nb - s_off nb) (drop (s_off nb) (nb_buf nb))"

definition send_ok :: "('k, 'a) connection_scheme \<Rightarrow> bool" where
  "send_ok c \<longleftrightarrow> (\<forall>nb \<in> set (send_queue c). nb_ok nb)"

definition pending :: "('k, 'a) connection_scheme \<Rightarrow> byte list" where
  "pending c = concat (map nb_pending (send_queue c))"

text \<open>All output of the connection, written or not: the abstract state of the sender.\<close>

definition conn_output :: "('k, 'a) connection_scheme \<Rightarrow> byte list" where
  "conn_output c = wire c @ pending c"

lemma nb_pending_append:
  assumes "nb_ok nb" "b_len nb + length d \<le> m_len nb"
  shows "nb_pending (nb\<lparr>nb_buf := memcpy_at (nb_buf nb) (b_len nb) d, b_len := b_len nb + length d\<rparr>) = nb_pending nb @ d"
    "nb_ok (nb\<lparr>nb_buf := memcpy_at (nb_buf nb) (b_len nb) d, b_len := b_len nb + length d\<rparr>)"
proof -
  have l: "s_off nb \<le> b_len nb" "b_len nb \<le> length (nb_buf nb)" using assms by (auto simp: nb_ok_def)
  have "drop (s_off nb) (memcpy_at (nb_buf nb) (b_len nb) d) =
      nb_pending nb @ d @ drop (b_len nb + length d) (nb_buf nb)"
    using l by (simp add: memcpy_at_def nb_pending_def drop_take)
  moreover have "length (nb_pending nb) = b_len nb - s_off nb" using l by (simp add: nb_pending_def)
  ultimately show "nb_pending (nb\<lparr>nb_buf := memcpy_at (nb_buf nb) (b_len nb) d, b_len := b_len nb + length d\<rparr>) = nb_pending nb @ d"
    using l by (simp add: nb_pending_def)
  show "nb_ok (nb\<lparr>nb_buf := memcpy_at (nb_buf nb) (b_len nb) d, b_len := b_len nb + length d\<rparr>)"
    using assms by (auto simp: nb_ok_def)
qed

lemma new_send_buf_ok:
  assumes "length d < 2 ^ 32"
  shows "\<exists>nb. new_send_buf junk d = Inr nb \<and> nb_ok nb \<and> nb_pending nb = d"
proof -
  let ?m = "if length d < 8192 then 8192 else length d"
  have "take (length d) (memcpy_at (fresh junk ?m) 0 d) = d" by (simp add: memcpy_at_def)
  then show ?thesis using assms
    by (auto simp: new_send_buf_def Let_def NETBUF_SEND_PAYLOAD_MAX_def malloc_block_def block_write_def nb_ok_def
        nb_pending_def)
qed

lemma send_queue_snoc:
  assumes "send_ok c" "nb_ok nb"
  shows "send_ok (c\<lparr>send_queue := send_queue c @ [nb]\<rparr>)"
    "conn_output (c\<lparr>send_queue := send_queue c @ [nb]\<rparr>) = conn_output c @ nb_pending nb"
  using assms by (auto simp: send_ok_def conn_output_def pending_def)

lemma send_queue_replace_last:
  assumes "send_ok c" "send_queue c \<noteq> []" "nb_ok nb" "nb_pending nb = nb_pending (last (send_queue c)) @ d"
  shows "send_ok (c\<lparr>send_queue := butlast (send_queue c) @ [nb]\<rparr>)"
    "conn_output (c\<lparr>send_queue := butlast (send_queue c) @ [nb]\<rparr>) = conn_output c @ d"
proof -
  have "pending c = concat (map nb_pending (butlast (send_queue c) @ [last (send_queue c)]))"
    by (simp add: pending_def assms(2))
  then have "pending c = concat (map nb_pending (butlast (send_queue c))) @ nb_pending (last (send_queue c))"
    by (simp del: append_butlast_last_id)
  then show "conn_output (c\<lparr>send_queue := butlast (send_queue c) @ [nb]\<rparr>) = conn_output c @ d"
    using assms(4) by (simp add: conn_output_def pending_def)
  show "send_ok (c\<lparr>send_queue := butlast (send_queue c) @ [nb]\<rparr>)"
    using assms by (auto simp: send_ok_def dest: in_set_butlastD)
qed

lemma net_send_queue_ok:
  fixes c :: "('k, 'a) connection_scheme"
  assumes "send_ok c" "length data < 2 ^ 32"
  shows "\<exists>q. net_send_queue junk c data = Inr (c\<lparr>send_queue := q\<rparr>) \<and> send_ok (c\<lparr>send_queue := q\<rparr>) \<and>
    conn_output (c\<lparr>send_queue := q\<rparr>) = conn_output c @ data"
proof (cases "send_queue c \<noteq> [] \<and> last_room (last (send_queue c))")
  case False
  from new_send_buf_ok [OF assms(2), of junk] obtain nb :: "'k netbuf" where
    nb: "new_send_buf junk data = Inr nb" "nb_ok nb" "nb_pending nb = data" by blast
  with send_queue_snoc [OF assms(1) nb(2)] False show ?thesis
    by (intro exI [of _ "send_queue c @ [nb]"]) (auto simp: net_send_queue_def Let_def)
next
  case True
  let ?nb = "last (send_queue c)" and ?q = "butlast (send_queue c)"
  have ok: "nb_ok ?nb" using assms(1) True by (simp add: send_ok_def)
  define avail where "avail = m_len ?nb - b_len ?nb"
  have av: "b_len ?nb + avail = m_len ?nb" "m_len ?nb = length (nb_buf ?nb)"
    using ok by (auto simp: nb_ok_def avail_def)
  define d1 where "d1 = take avail data"
  have fit: "b_len ?nb + length d1 \<le> m_len ?nb" using av by (simp add: d1_def)
  let ?nb1 = "?nb\<lparr>nb_buf := memcpy_at (nb_buf ?nb) (b_len ?nb) d1, b_len := b_len ?nb + length d1\<rparr>"
  let ?c1 = "c\<lparr>send_queue := ?q @ [?nb1]\<rparr>"
  note p = nb_pending_append [OF ok fit]
  note r = send_queue_replace_last [OF assms(1) _ p(2) p(1)]
  have w: "block_write (nb_buf ?nb) (b_len ?nb) d1 = Inr (memcpy_at (nb_buf ?nb) (b_len ?nb) d1)"
    using fit av by (simp add: block_write_def)
  show ?thesis
  proof (cases "length data \<le> avail")
    case le: True
    then have d1: "d1 = data" by (simp add: d1_def)
    have "net_send_queue junk c data = Inr ?c1"
    proof (cases "length data < avail")
      case True
      then show ?thesis using w \<open>send_queue c \<noteq> [] \<and> _\<close>
        by (simp add: net_send_queue_def Let_def d1 flip: avail_def)
    next
      case False
      with le have "length data = avail" by simp
      then show ?thesis using w True by (simp add: net_send_queue_def Let_def d1 flip: avail_def)
    qed
    with r True d1 show ?thesis by auto
  next
    case False
    let ?d = "drop avail data"
    have "length ?d < 2 ^ 32" using assms(2) by simp
    from new_send_buf_ok [OF this, of junk] obtain nb :: "'k netbuf" where
      nb: "new_send_buf junk ?d = Inr nb" "nb_ok nb" "nb_pending nb = ?d" by blast
    have l: "length d1 = avail" using False by (simp add: d1_def)
    have "net_send_queue junk c data = Inr (?c1\<lparr>send_queue := send_queue ?c1 @ [nb]\<rparr>)"
      using w True False nb(1) l by (simp add: net_send_queue_def Let_def flip: avail_def d1_def)
    moreover have "send_ok ?c1" "conn_output ?c1 = conn_output c @ d1" using r True by auto
    note send_queue_snoc [OF this(1) nb(2)] this(2)
    ultimately show ?thesis
      by (intro exI [of _ "?q @ [?nb1] @ [nb]"]) (auto simp: nb(3) d1_def)
  qed
qed

interpretation sendq: byte_sink send_ok "\<lambda>c n. n < 2 ^ 32" "net_send_queue junk" conn_output for junk
proof
  fix b :: "('a, 'b) connection_scheme" and d b' n
  show "\<exists>b'. net_send_queue junk b d = Inr b'" if "send_ok b" "length d < 2 ^ 32"
    using net_send_queue_ok [OF that, of junk] by blast
  show "send_ok b'" if "send_ok b" "length d < 2 ^ 32" "net_send_queue junk b d = Inr b'"
    using net_send_queue_ok [OF that(1,2), of junk] that(3) by auto
  show "conn_output b' = conn_output b @ d" if "send_ok b" "length d < 2 ^ 32" "net_send_queue junk b d = Inr b'"
    using net_send_queue_ok [OF that(1,2), of junk] that(3) by auto
qed auto

lemma net_remove_netbuf_ok:
  assumes "nb_type nb = NETBUF_SEND" "\<not> nb_must_resend nb" "send_queue c = nb # q"
  shows "\<exists>d. net_remove_netbuf c = Inr (c\<lparr>send_queue := q, stream_done := d\<rparr>)"
  using assms
  by (intro exI [of _ "case nb_cb nb of Some k \<Rightarrow> if nb_is_stream nb then stream_done c @ [k] else stream_done c
      | None \<Rightarrow> stream_done c"]) (simp add: net_remove_netbuf_def)

text \<open>What one turn of the flush does: the output as a whole stays the same, and when the kernel takes
  something, less is left to do.\<close>

definition send_work :: "('k, 'a) connection_scheme \<Rightarrow> nat" where
  "send_work c = length (pending c) + length (send_queue c)"

lemma send_len_bounds:
  assumes "nb_ok nb"
  shows "send_len nb \<le> b_len nb - s_off nb" "s_off nb < b_len nb \<Longrightarrow> 0 < send_len nb"
    "length (take (send_len nb) (drop (s_off nb) (nb_buf nb))) = send_len nb"
proof -
  show le: "send_len nb \<le> b_len nb - s_off nb" by (simp add: send_len_def le_trans [OF min.cobounded2])
  show "s_off nb < b_len nb \<Longrightarrow> 0 < send_len nb"
  proof -
    assume lt: "s_off nb < b_len nb"
    have "b_len nb - s_off nb < 2 ^ 32" using assms by (auto simp: nb_ok_def)
    then have "(b_len nb - s_off nb) mod 2 ^ 32 = b_len nb - s_off nb" by (rule mod_less)
    with lt show ?thesis by (simp add: send_len_def NETBUF_SEND_PAYLOAD_MAX_def)
  qed
  show "length (take (send_len nb) (drop (s_off nb) (nb_buf nb))) = send_len nb"
  proof -
    have "send_len nb \<le> length (nb_buf nb) - s_off nb" using assms le by (auto simp: nb_ok_def)
    then show ?thesis by simp
  qed
qed

lemma nb_pending_sent:
  assumes "nb_ok nb" "k \<le> send_len nb"
  shows "nb_pending nb = take k (drop (s_off nb) (nb_buf nb)) @ nb_pending (nb\<lparr>s_off := s_off nb + k, nb_must_resend := False\<rparr>)"
    "nb_ok (nb\<lparr>s_off := s_off nb + k, nb_must_resend := False\<rparr>)"
proof -
  let ?p = "drop (s_off nb) (nb_buf nb)" and ?B = "b_len nb - s_off nb"
  have le: "k \<le> ?B" using assms(2) send_len_bounds(1) [OF assms(1)] by linarith
  then have "take ?B ?p = take k ?p @ take (?B - k) (drop k ?p)" by (metis le_add_diff_inverse take_add)
  then show "nb_pending nb = take k ?p @ nb_pending (nb\<lparr>s_off := s_off nb + k, nb_must_resend := False\<rparr>)"
    by (simp add: nb_pending_def add.commute)
  show "nb_ok (nb\<lparr>s_off := s_off nb + k, nb_must_resend := False\<rparr>)" using assms(1) le by (auto simp: nb_ok_def)
qed

lemma send_finish_ok:
  assumes "nb_ok nb" "\<forall>x \<in> set q. nb_ok x"
  shows "\<exists>c'. send_finish q c nb = Inr (KORE_RESULT_OK, c') \<and> send_ok c' \<and>
    pending c' = nb_pending nb @ concat (map nb_pending q) \<and> wire c' = wire c \<and>
    close_empty c' = close_empty c \<and> write_possible c' = write_possible c \<and>
    length (send_queue c') = (if s_off nb = b_len nb then length q else Suc (length q))"
proof (cases "s_off nb = b_len nb")
  case True
  have "nb_type nb = NETBUF_SEND" "\<not> nb_must_resend nb" using assms(1) by (auto simp: nb_ok_def)
  from net_remove_netbuf_ok [OF this, of "c\<lparr>send_queue := nb # q\<rparr>" q] obtain d where
    "net_remove_netbuf (c\<lparr>send_queue := nb # q\<rparr>) = Inr (c\<lparr>send_queue := q, stream_done := d\<rparr>)" by auto
  with True assms show ?thesis by (simp add: send_finish_def send_ok_def pending_def nb_pending_def)
next
  case False
  with assms show ?thesis by (auto simp: send_finish_def send_ok_def pending_def nb_ok_def)
qed

lemma net_send_finish:
  "send_queue c = nb # q \<Longrightarrow> net_send c r =
     (if b_len nb \<noteq> 0 then
        case net_write c (take (send_len nb) (drop (s_off nb) (nb_buf nb))) r of (res, written, c1) \<Rightarrow>
          if res = KORE_RESULT_ERROR then Inr (KORE_RESULT_ERROR, c1)
          else if \<not> write_possible c1 then Inr (KORE_RESULT_OK, c1)
          else send_finish q c1 (nb\<lparr>s_off := s_off nb + (case written of Some n \<Rightarrow> n | None \<Rightarrow> 0), nb_must_resend := False\<rparr>)
      else send_finish q c nb)"
  by (simp add: net_send_def)

lemma net_send_wrote:
  assumes "send_ok c" "send_queue c = nb # q" "write_possible c" "b_len nb \<noteq> 0" "k \<le> send_len nb"
    and "bytes = take k (drop (s_off nb) (nb_buf nb))"
  shows "\<exists>c'. send_finish q (c\<lparr>wire := wire c @ bytes\<rparr>) (nb\<lparr>s_off := s_off nb + k, nb_must_resend := False\<rparr>)
      = Inr (KORE_RESULT_OK, c') \<and> send_ok c' \<and> conn_output c' = conn_output c \<and> write_possible c' \<and>
      close_empty c' = close_empty c \<and> (0 < k \<or> s_off nb = b_len nb \<longrightarrow> send_work c' < send_work c)"
proof -
  have nb: "nb_ok nb" "\<forall>x \<in> set q. nb_ok x" using assms(1,2) by (auto simp: send_ok_def)
  let ?nb = "nb\<lparr>s_off := s_off nb + k, nb_must_resend := False\<rparr>"
  note p = nb_pending_sent [OF nb(1) assms(5)]
  from send_finish_ok [OF p(2) nb(2), of "c\<lparr>wire := wire c @ bytes\<rparr>"] obtain c' where
    c': "send_finish q (c\<lparr>wire := wire c @ bytes\<rparr>) ?nb = Inr (KORE_RESULT_OK, c')" "send_ok c'"
      "pending c' = nb_pending ?nb @ concat (map nb_pending q)" "wire c' = wire c @ bytes"
      "close_empty c' = close_empty c" "write_possible c' = write_possible c"
      "length (send_queue c') = (if s_off nb + k = b_len nb then length q else Suc (length q))" by auto
  have pc: "pending c = bytes @ pending c'" using assms(2,6) p(1) c'(3) by (simp add: pending_def)
  have "k = length bytes" using assms(5,6) send_len_bounds(3) [OF nb(1)] by simp
  then have "0 < k \<or> s_off nb = b_len nb \<longrightarrow> send_work c' < send_work c"
    using pc c'(7) assms(2) by (auto simp: send_work_def)
  with c' pc assms(3) show ?thesis by (simp add: conn_output_def)
qed

lemma net_send_ok:
  assumes "send_ok c" "send_queue c \<noteq> []" "write_possible c"
  shows "\<exists>res c'. net_send c r = Inr (res, c') \<and> send_ok c' \<and> conn_output c' = conn_output c \<and>
    close_empty c' = close_empty c \<and> (res = KORE_RESULT_OK \<or> res = KORE_RESULT_ERROR) \<and>
    (\<forall>n. r = Wrote (Suc n) \<longrightarrow> res = KORE_RESULT_OK \<and> write_possible c' \<and> send_work c' < send_work c)"
proof -
  from assms(2) obtain nb q where q: "send_queue c = nb # q" by (cases "send_queue c") auto
  have nb: "nb_ok nb" "\<forall>x \<in> set q. nb_ok x" using assms(1) q by (auto simp: send_ok_def)
  let ?b = "take (send_len nb) (drop (s_off nb) (nb_buf nb))"
  show ?thesis
  proof (cases "b_len nb = 0")
    case True
    then have "s_off nb = b_len nb" "nb_pending nb = []" using nb(1) by (auto simp: nb_ok_def nb_pending_def)
    with send_finish_ok [OF nb, of c] True q assms(3) show ?thesis
      by (auto simp: net_send_finish conn_output_def pending_def send_work_def)
  next
    case False
    have zero: "\<exists>c'. send_finish q c (nb\<lparr>s_off := s_off nb, nb_must_resend := False\<rparr>)
      = Inr (KORE_RESULT_OK, c') \<and> send_ok c' \<and> conn_output c' = conn_output c \<and> write_possible c' \<and>
      close_empty c' = close_empty c"
      using net_send_wrote [OF assms(1) q assms(3) False, of 0 "[]"] by auto
    show ?thesis
    proof (cases r)
      case (Wrote n)
      have l: "length ?b = send_len nb" by (rule send_len_bounds(3) [OF nb(1)])
      have "take n ?b = take (min n (send_len nb)) (drop (s_off nb) (nb_buf nb))" by simp
      from net_send_wrote [OF assms(1) q assms(3) False _ this] l obtain c' where
        c': "send_finish q (c\<lparr>wire := wire c @ take n ?b\<rparr>) (nb\<lparr>s_off := s_off nb + min n (length ?b), nb_must_resend := False\<rparr>)
          = Inr (KORE_RESULT_OK, c')" "send_ok c'" "conn_output c' = conn_output c" "write_possible c'"
          "close_empty c' = close_empty c"
          "0 < min n (send_len nb) \<or> s_off nb = b_len nb \<longrightarrow> send_work c' < send_work c" by auto
      have "net_send c r = Inr (KORE_RESULT_OK, c')"
        using c'(1) False q Wrote assms(3) by (simp add: net_send_finish net_write_def)
      moreover have "0 < n \<longrightarrow> 0 < min n (send_len nb) \<or> s_off nb = b_len nb"
        using send_len_bounds(2) [OF nb(1)] nb(1) by (auto simp: nb_ok_def)
      ultimately show ?thesis using c' Wrote by auto
    next
      case (Wr_error e)
      show ?thesis
      proof (cases e)
        case EINTR
        with zero Wr_error False q assms(3) show ?thesis by (auto simp: net_send_finish net_write_def)
      next
        case EAGAIN
        with Wr_error False q assms show ?thesis
          by (auto simp: net_send_finish net_write_def send_ok_def conn_output_def pending_def)
      next
        case Eother
        with Wr_error False q assms show ?thesis by (auto simp: net_send_finish net_write_def)
      qed
    qed
  qed
qed

lemma net_send_flush_ok:
  assumes "send_ok c"
  shows "\<exists>ret. net_send_flush c script = Inr ret \<and>
    (\<forall>res c'. ret = Some (res, c') \<longrightarrow> send_ok c' \<and> conn_output c' = conn_output c \<and>
       (res = KORE_RESULT_OK \<longrightarrow> send_queue c' = [] \<or> \<not> write_possible c'))"
  using assms
proof (induction script arbitrary: c)
  case Nil
  then show ?case by (auto simp: net_send_flush.simps [of c] send_ok_def conn_output_def pending_def)
next
  case (Cons r rs)
  show ?case
  proof (cases "send_queue c \<noteq> [] \<and> write_possible c")
    case True
    from net_send_ok [OF Cons.prems, of r] True obtain res c1 where
      c1: "net_send c r = Inr (res, c1)" "send_ok c1" "conn_output c1 = conn_output c" by blast
    with Cons.IH [OF c1(2)] True show ?thesis by (auto simp: net_send_flush.simps [of c])
  next
    case False
    with Cons.prems show ?thesis by (auto simp: net_send_flush.simps [of c] send_ok_def conn_output_def pending_def)
  qed
qed

lemma net_send_flush_drains:
  assumes "send_ok c" "write_possible c" "send_work c \<le> length script" "\<forall>r \<in> set script. \<exists>n. r = Wrote (Suc n)"
  shows "\<exists>c'. net_send_flush c script = Inr (Some (KORE_RESULT_OK, c')) \<and> send_queue c' = [] \<and>
    wire c' = conn_output c"
  using assms
proof (induction script arbitrary: c)
  case Nil
  then have "send_queue c = []" by (simp add: send_work_def)
  then show ?case by (auto simp: net_send_flush.simps [of c] conn_output_def pending_def)
next
  case (Cons r rs)
  show ?case
  proof (cases "send_queue c = []")
    case True
    then show ?thesis by (auto simp: net_send_flush.simps [of c] conn_output_def pending_def)
  next
    case False
    from Cons.prems(4) obtain n where "r = Wrote (Suc n)" by auto
    with net_send_ok [OF Cons.prems(1) False Cons.prems(2), of r] obtain c1 where
      c1: "net_send c r = Inr (KORE_RESULT_OK, c1)" "send_ok c1" "conn_output c1 = conn_output c" "write_possible c1"
        "send_work c1 < send_work c" by auto
    from Cons.IH [OF c1(2,4)] c1(5) Cons.prems obtain c' where
      "net_send_flush c1 rs = Inr (Some (KORE_RESULT_OK, c'))" "send_queue c' = []" "wire c' = conn_output c1" by auto
    with c1 False Cons.prems(2) show ?thesis by (auto simp: net_send_flush.simps [of c])
  qed
qed

section \<open>Byte order\<close>

text \<open>The host is little-endian: loads and stores of the machine, and the byte swaps of \<open>ntohs\<close> and its
  relatives.\<close>

fun load_le :: "byte list \<Rightarrow> 'w::len word" where
  "load_le [] = 0"
| "load_le (b # xs) = ucast b OR push_bit 8 (load_le xs)"

definition store_le :: "nat \<Rightarrow> 'w::len word \<Rightarrow> byte list" where
  "store_le n w = map (\<lambda>i. ucast (drop_bit (8 * i) w)) [0..<n]"

definition bswap :: "nat \<Rightarrow> 'w::len word \<Rightarrow> 'w word" where
  "bswap n w = load_le (rev (store_le n w))"

definition net_read16 :: "byte list \<Rightarrow> u16" where "net_read16 b = bswap 2 (load_le (take 2 b))"
definition net_read32 :: "byte list \<Rightarrow> u32" where "net_read32 b = bswap 4 (load_le (take 4 b))"
definition net_read64 :: "byte list \<Rightarrow> u64" where "net_read64 b = bswap 8 (load_le (take 8 b))"

definition net_write16 :: "u16 \<Rightarrow> byte list" where "net_write16 n = store_le 2 (bswap 2 n)"
definition net_write32 :: "u32 \<Rightarrow> byte list" where "net_write32 n = store_le 4 (bswap 4 n)"
definition net_write64 :: "u64 \<Rightarrow> byte list" where "net_write64 n = store_le 8 (bswap 8 n)"

lemma length_store_le [simp]: "length (store_le n w) = n"
  by (simp add: store_le_def)

lemma bit_load_le:
  "bit (load_le xs :: 'w::len word) n \<longleftrightarrow> n < LENGTH('w) \<and> n div 8 < length xs \<and> bit (xs ! (n div 8)) (n mod 8)"
proof (induction xs arbitrary: n)
  case (Cons b xs)
  show ?case
  proof (cases "n < 8")
    case True
    then show ?thesis by (auto simp: bit_simps)
  next
    case False
    then have "n div 8 = Suc ((n - 8) div 8)" "n mod 8 = (n - 8) mod 8" by (simp_all add: le_div_geq le_mod_geq)
    then show ?thesis using False Cons.IH [of "n - 8"] by (auto simp: bit_simps dest: bit_imp_le_length)
  qed
qed simp

lemma load_store_le:
  assumes "8 * n = LENGTH('w::len)"
  shows "load_le (store_le n (w :: 'w word)) = w"
proof (rule bit_word_eqI)
  fix m assume m: "m < LENGTH('w)"
  then have "m div 8 < n" using assms by (simp add: less_mult_imp_div_less mult.commute)
  with m show "bit (load_le (store_le n w) :: 'w word) m = bit w m"
    by (simp add: bit_load_le store_le_def bit_simps)
qed

lemma store_load_le:
  assumes "8 * length b = LENGTH('w::len)"
  shows "store_le (length b) (load_le b :: 'w word) = b"
proof (rule nth_equalityI)
  fix i assume i: "i < length (store_le (length b) (load_le b :: 'w word))"
  show "store_le (length b) (load_le b :: 'w word) ! i = b ! i"
  proof (rule bit_word_eqI)
    fix j assume j: "j < LENGTH(8)"
    then have "8 * i + j < LENGTH('w)" "(8 * i + j) div 8 = i" "(8 * i + j) mod 8 = j" using i assms by auto
    with i j show "bit (store_le (length b) (load_le b :: 'w word) ! i) j = bit (b ! i) j"
      by (simp add: store_le_def bit_simps bit_load_le)
  qed
qed simp

lemma store_bswap:
  assumes "8 * n = LENGTH('w::len)"
  shows "store_le n (bswap n (w :: 'w word)) = rev (store_le n w)"
  using store_load_le [of "rev (store_le n w)", where 'w = 'w] assms by (simp add: bswap_def)

lemma bswap_load_store:
  assumes "8 * n = LENGTH('w::len)"
  shows "bswap n (load_le (store_le n (bswap n (w :: 'w word)))) = w"
proof -
  have "bswap n (bswap n w) = load_le (rev (store_le n (bswap n w)))" by (subst bswap_def) (rule refl)
  also have "\<dots> = w" by (simp only: store_bswap [OF assms] rev_rev_ident load_store_le [OF assms])
  finally show ?thesis by (simp only: load_store_le [OF assms])
qed

text \<open>Network byte order: most significant byte first; and each reader inverts its writer.\<close>

lemma net_write_big_endian:
  "net_write16 x = rev (store_le 2 x)" "net_write32 y = rev (store_le 4 y)" "net_write64 z = rev (store_le 8 z)"
  by (simp_all add: net_write16_def net_write32_def net_write64_def store_bswap)

lemma net_read_write:
  "net_read16 (net_write16 x @ r) = x" "net_read32 (net_write32 y @ r) = y" "net_read64 (net_write64 z @ r) = z"
  by (simp_all add: net_read16_def net_read32_def net_read64_def net_write16_def net_write32_def net_write64_def
      bswap_load_store)

lemma length_net_write [simp]:
  "length (net_write16 x) = 2" "length (net_write32 y) = 4" "length (net_write64 z) = 8"
  by (simp_all add: net_write16_def net_write32_def net_write64_def)

interpretation net16: text_codec "\<lambda>_. True" net_write16 "\<lambda>b. Some (net_read16 b)"
  by unfold_locales (use net_read_write(1) [of _ "[]"] in simp)

interpretation net32: text_codec "\<lambda>_. True" net_write32 "\<lambda>b. Some (net_read32 b)"
  by unfold_locales (use net_read_write(2) [of _ "[]"] in simp)

interpretation net64: text_codec "\<lambda>_. True" net_write64 "\<lambda>b. Some (net_read64 b)"
  by unfold_locales (use net_read_write(3) [of _ "[]"] in simp)

section \<open>A receive buffer fills\<close>

definition recv_ok :: "'k netbuf \<Rightarrow> bool" where
  "recv_ok nb \<longleftrightarrow> s_off nb \<le> b_len nb \<and> b_len nb \<le> length (nb_buf nb) \<and> nb_type nb = NETBUF_RECV"

text \<open>What the loop does after it has called the callback.\<close>

definition after_call ::
    "('w, 'k, 'a) callbacks \<Rightarrow> rres list \<Rightarrow> (int \<times> 'w \<times> ('k, 'a) connection_scheme) \<Rightarrow>
      (int \<times> 'w \<times> ('k, 'a) connection_scheme) option res" where
  "after_call call rs = (\<lambda>(res, w, c). if res \<noteq> KORE_RESULT_OK then Inr (Some (res, w, c)) else recv_loop call w c rs)"

lemma net_recv_turn_data:
  assumes "rnb c = Some nb" "recv_ok nb" "read_possible c" "s_off nb + length d \<le> b_len nb"
  shows "net_recv_turn call w c (Rd d) =
    (let nb1 = nb\<lparr>nb_buf := memcpy_at (nb_buf nb) (s_off nb) d, s_off := s_off nb + length d\<rparr>; c2 = c\<lparr>rnb := Some nb1\<rparr> in
     if s_off nb1 = b_len nb1 \<or> nb_call_always nb1 then
       (case nb_cb nb1 of None \<Rightarrow> Inl Null_deref
        | Some k \<Rightarrow> rbind (call k w c2) (\<lambda>(res1, w1, c3).
            if res1 \<noteq> KORE_RESULT_OK then Inr (Some res1, w1, c3) else Inr (None, w1, c3)))
     else Inr (None, w, c2))"
  using assms by (simp add: net_recv_turn_def net_read_def block_write_def recv_ok_def Let_def)

lemma memcpy_at_twice:
  "off + length a + length b \<le> length xs \<Longrightarrow>
   memcpy_at (memcpy_at xs off a) (off + length a) b = memcpy_at xs off (a @ b)"
  by (simp add: memcpy_at_def ac_simps)

lemma recv_loop_fills:
  assumes "rnb c = Some nb" "recv_ok nb" "read_possible c" "\<not> nb_call_always nb" "nb_cb nb = Some k"
    and "chunks \<noteq> []" "\<forall>d \<in> set chunks. d \<noteq> []" "s_off nb + length (concat chunks) = b_len nb"
  shows "recv_loop call w c (map Rd chunks @ rs) =
    rbind (call k w (c\<lparr>rnb := Some (nb\<lparr>nb_buf := memcpy_at (nb_buf nb) (s_off nb) (concat chunks), s_off := b_len nb\<rparr>)\<rparr>))
      (after_call call rs)"
  using assms
proof (induction chunks arbitrary: c nb)
  case (Cons d ds)
  let ?nb = "nb\<lparr>nb_buf := memcpy_at (nb_buf nb) (s_off nb) d, s_off := s_off nb + length d\<rparr>"
  let ?c = "c\<lparr>rnb := Some ?nb\<rparr>"
  have le: "s_off nb + length d \<le> b_len nb" using Cons.prems(8) by simp
  note t = net_recv_turn_data [OF Cons.prems(1,2,3) le, of call w]
  show ?case
  proof (cases "ds = []")
    case True
    with Cons.prems(8) have "s_off nb + length d = b_len nb" by simp
    then show ?thesis using t Cons.prems(3,5) True
      by (simp add: recv_loop.simps [of call w c] after_call_def Let_def rbind_def split: sum.splits)
  next
    case False
    then have "concat ds \<noteq> []" using Cons.prems(7) by (cases ds) auto
    then have "0 < length (concat ds)" by blast
    then have ne: "s_off nb + length d \<noteq> b_len nb" using Cons.prems(8) by (simp del: length_concat length_greater_0_conv)
    have len: "b_len nb \<le> length (nb_buf nb)" using Cons.prems(2) by (simp add: recv_ok_def)
    have "recv_ok ?nb" using Cons.prems(2) le by (auto simp: recv_ok_def)
    from Cons.IH [of ?c ?nb, OF _ this] Cons.prems False have
      "recv_loop call w ?c (map Rd ds @ rs) = rbind (call k w (?c\<lparr>rnb := Some (?nb\<lparr>nb_buf :=
         memcpy_at (nb_buf ?nb) (s_off ?nb) (concat ds), s_off := b_len nb\<rparr>)\<rparr>)) (after_call call rs)" by simp
    moreover have "memcpy_at (nb_buf ?nb) (s_off ?nb) (concat ds) = memcpy_at (nb_buf nb) (s_off nb) (concat (d # ds))"
      using memcpy_at_twice [of "s_off nb" d "concat ds" "nb_buf nb"] len Cons.prems(8) by simp
    moreover have "recv_loop call w c (map Rd (d # ds) @ rs) = recv_loop call w ?c (map Rd ds @ rs)"
      using t ne Cons.prems(3,4) by (simp add: recv_loop.simps [of call w c] Let_def)
    ultimately show ?thesis by simp
  qed
qed simp

section \<open>Properties\<close>

text \<open>The sender at work: data is queued and the queue is flushed, in any order, with any results of \<open>write\<close>.
  \<open>sends c ds c'\<close>: \<open>c'\<close> is reached from \<open>c\<close> with the data \<open>ds\<close> queued in between.\<close>

inductive sends :: "('k, 'a) connection_scheme \<Rightarrow> byte list list \<Rightarrow> ('k, 'a) connection_scheme \<Rightarrow> bool" where
  idle: "sends c [] c"
| queue: "sends c ds c1 \<Longrightarrow> length d < 2 ^ 32 \<Longrightarrow> net_send_queue junk c1 d = Inr c2 \<Longrightarrow> sends c (ds @ [d]) c2"
| flush: "sends c ds c1 \<Longrightarrow> net_send_flush c1 script = Inr (Some (res, c2)) \<Longrightarrow> sends c ds c2"

lemma sends_output: "sends c ds c' \<Longrightarrow> send_ok c \<Longrightarrow> send_ok c' \<and> conn_output c' = conn_output c @ concat ds"
proof (induction rule: sends.induct)
  case (queue c ds c1 d junk c2)
  then show ?case using net_send_queue_ok [of c1 d junk] by auto
next
  case (flush c ds c1 script res c2)
  then show ?case using net_send_flush_ok [of c1 script] by auto
qed simp

text \<open>(C11) The send queue is a faithful byte stream: in every run of queueing and flushing, however the kernel
  splits, interrupts or refuses the writes, what the kernel has taken is a prefix of what was
  queued, in order and without loss or repetition, and the rest is still pending.\<close>

theorem sends_stream:
  assumes "sends c ds c'" and "send_queue c = []"
  shows "wire c' @ pending c' = wire c @ concat ds \<and> prefix (wire c') (wire c @ concat ds)"
proof -
  have "send_ok c" "conn_output c = wire c" using assms(2) by (auto simp: send_ok_def conn_output_def pending_def)
  with sends_output [OF assms(1)] have "wire c' @ pending c' = wire c @ concat ds" by (simp add: conn_output_def)
  then show ?thesis by (metis prefixI)
qed

definition fresh_connection :: "nat connection" where
  "fresh_connection = \<lparr>send_queue = [], rnb = None, read_possible = True, write_possible = True, close_empty = False,
     disconnected = False, wire = [], stream_done = []\<rparr>"

theorem sends_stream_witness:
  "\<exists>c'. sends fresh_connection [bs ''hello''] c' \<and> send_queue fresh_connection = [] \<and>
    wire c' @ pending c' = wire fresh_connection @ concat [bs ''hello''] \<and>
    prefix (wire c') (wire fresh_connection @ concat [bs ''hello''])"
proof -
  have ok: "send_ok fresh_connection" by (simp add: send_ok_def fresh_connection_def)
  have "length (bs ''hello'') < 2 ^ 32" by (simp add: bs_def)
  with net_send_queue_ok [OF ok this, of "\<lambda>_. 0"] obtain c1 where
    "sends fresh_connection ([] @ [bs ''hello'']) c1" by (blast intro: sends.queue sends.idle)
  then have s: "sends fresh_connection [bs ''hello''] c1" by simp
  have "send_queue fresh_connection = []" by (simp add: fresh_connection_def)
  with s sends_stream [OF s this] show ?thesis by blast
qed

text \<open>(C12) A flush drains the queue: as long as every \<open>write\<close> takes at least one byte, \<open>net_send_flush\<close> ends with an
  empty queue within as many writes as there are bytes and buffers, and everything is on the wire.\<close>

theorem net_send_flush_liveness:
  assumes "send_ok c" and "write_possible c" and "length (pending c) + length (send_queue c) \<le> length script"
    and "\<forall>r \<in> set script. \<exists>n. r = Wrote (Suc n)"
  shows "\<exists>c'. net_send_flush c script = Inr (Some (KORE_RESULT_OK, c')) \<and> send_queue c' = [] \<and>
    wire c' = wire c @ pending c"
  using net_send_flush_drains [OF assms(1,2) _ assms(4)] assms(3) by (simp add: send_work_def conn_output_def)

theorem net_send_flush_liveness_witness:
  "\<exists>c'. net_send_flush (net_send_stream fresh_connection (bs ''abc'') None) [Wrote (Suc 0), Wrote (Suc 0), Wrote (Suc 4), Wrote (Suc 0)] =
      Inr (Some (KORE_RESULT_OK, c')) \<and> send_queue c' = [] \<and>
    wire c' = wire (net_send_stream fresh_connection (bs ''abc'') None) @ pending (net_send_stream fresh_connection (bs ''abc'') None)"
  by (rule net_send_flush_liveness)
    (simp_all add: net_send_stream_def fresh_connection_def send_ok_def nb_ok_def pending_def nb_pending_def bs_def)

text \<open>The byte order helpers: \<open>net_write16\<close>, \<open>net_write32\<close> and \<open>net_write64\<close> put the most significant byte first, and
  \<open>net_read16\<close>, \<open>net_read32\<close> and \<open>net_read64\<close> invert them.\<close>

theorem net_byte_order:
  "net_write16 x = rev (store_le 2 x) \<and> net_write32 y = rev (store_le 4 y) \<and> net_write64 z = rev (store_le 8 z) \<and>
   net_read16 (net_write16 x @ r) = x \<and> net_read32 (net_write32 y @ r) = y \<and> net_read64 (net_write64 z @ r) = z"
  using net_write_big_endian net_read_write by blast

text \<open>Reception: when a receive buffer that waits for \<open>b_len\<close> bytes gets them in any number of non-empty
  pieces, \<open>net_recv_flush\<close> calls its callback once, with the buffer holding exactly those bytes in
  order behind what it held before.\<close>

theorem net_recv_flush_fills:
  assumes "rnb c = Some nb" and "recv_ok nb" and "read_possible c" and "\<not> nb_call_always nb" and "nb_cb nb = Some k"
    and "chunks \<noteq> []" and "\<forall>d \<in> set chunks. d \<noteq> []" and "s_off nb + length (concat chunks) = b_len nb"
  shows "net_recv_flush call w c (map Rd chunks @ rs) =
    rbind (call k w (c\<lparr>rnb := Some (nb\<lparr>nb_buf := memcpy_at (nb_buf nb) (s_off nb) (concat chunks), s_off := b_len nb\<rparr>)\<rparr>))
      (after_call call rs)"
  using recv_loop_fills [OF assms] assms(1) by (simp add: net_recv_flush_def)

definition waiting_nb :: "nat netbuf" where
  "waiting_nb = \<lparr>nb_buf = [0, 0, 0], s_off = 0, b_len = 3, m_len = 3, nb_type = NETBUF_RECV, nb_cb = Some 1,
     nb_call_always = False, nb_force_remove = False, nb_must_resend = False, nb_is_stream = False\<rparr>"

theorem net_recv_flush_fills_witness:
  "net_recv_flush (\<lambda>_ n c. Inr (KORE_RESULT_ERROR, Suc n, c)) 0 (fresh_connection\<lparr>rnb := Some waiting_nb\<rparr>) (map Rd [[7], [8, 9]] @ []) =
    rbind (Inr (KORE_RESULT_ERROR, Suc 0, fresh_connection\<lparr>rnb := Some waiting_nb\<rparr>\<lparr>rnb := Some (waiting_nb\<lparr>nb_buf :=
      memcpy_at (nb_buf waiting_nb) (s_off waiting_nb) (concat [[7], [8, 9]]), s_off := b_len waiting_nb\<rparr>)\<rparr>))
      (after_call (\<lambda>_ n c. Inr (KORE_RESULT_ERROR, Suc n, c)) [])"
  by (rule net_recv_flush_fills) (simp_all add: waiting_nb_def fresh_connection_def recv_ok_def)

end
