(* ===== verification/Http_Conn.thy ===== *)
theory Http_Conn
  imports Http_Body Kore_Net
begin

text \<open>
  Requests on a connection, \<open>base/kore/http.c\<close>: creation from the received header, reception of the body,
  sleeping and waking, and responses. A request lives in the store \<open>reqs\<close> under the address its pool
  element has; the global lists hold addresses. \<open>c\<close> is the connection a callback runs on; the receive
  callbacks are named by the datatype \<open>net_cb\<close>.

  The environment record holds the settings of the server, what the C library and the system return, and
  the lookup of page handlers.
\<close>

section \<open>State\<close>

datatype net_cb = Http_header_recv | Http_body_recv | Websocket_recv_opcode | Websocket_recv_frame
  | Msg_recv_packet | Msg_recv_data | Stream_done nat

datatype conn_state = CONN_STATE_UNKNOWN | CONN_STATE_SSL_SHAKE | CONN_STATE_ESTABLISHED | CONN_STATE_DISCONNECTING

datatype conn_proto = CONN_PROTO_UNKNOWN | CONN_PROTO_HTTP | CONN_PROTO_WEBSOCKET | CONN_PROTO_MSG

text \<open>\<open>rnb_extra\<close> is \<open>c->rnb->extra\<close>; \<open>disc_cb\<close> says that \<open>c->disconnect\<close> is set; \<open>wscbs\<close> is the address of the
  websocket callbacks.\<close>

record conn = "net_cb connection" +
  cid :: nat
  cstate :: conn_state
  proto :: conn_proto
  idle_act :: bool
  idle_start :: u64
  idle_length :: u64
  rnb_extra :: "nat option"
  disc_cb :: bool
  wscbs :: "nat option"
  c_http_requests :: "nat list"

record http =
  reqs :: "nat \<rightharpoonup> http_request"
  http_requests :: "nat list"
  http_requests_sleeping :: "nat list"
  http_request_count :: int
  header_buf :: kore_buf

text \<open>\<open>e_out2\<close> gives the output of the second \<open>printf\<close> call of \<open>kore_buf_appendv\<close>; \<open>e_uninit\<close> is what a field
  holds that is not initialised; \<open>e_mkstemp\<close> is the name \<open>mkstemp\<close> creates from its template, if it succeeds;
  \<open>e_write_ok\<close> and \<open>e_lseek_ok\<close> say that the calls on a body file succeed.\<close>

record http_env =
  e_junk :: "nat \<Rightarrow> byte"
  e_out2 :: "byte list \<Rightarrow> byte list option"
  e_uninit :: nat
  e_mkstemp :: "byte list \<Rightarrow> byte list option"
  e_write_ok :: bool
  e_lseek_ok :: bool
  http_request_limit :: nat
  http_hsts_enable :: nat
  http_header_max :: nat
  http_keepalive_time :: nat
  http_body_max :: nat
  http_body_disk_offload :: nat
  http_body_disk_path :: "byte list"
  kore_module_handler_find :: "byte list \<Rightarrow> byte list \<Rightarrow> nat option"

definition KORE_DOMAINNAME_LEN :: nat where "KORE_DOMAINNAME_LEN = 255"
definition HTTP_URI_LEN :: nat where "HTTP_URI_LEN = 2000"
definition HTTP_REQ_HEADER_MAX :: nat where "HTTP_REQ_HEADER_MAX = 25"
definition HTTP_BODY_PATH_MAX :: nat where "HTTP_BODY_PATH_MAX = 256"
definition LONG_MAX :: int where "LONG_MAX = 2 ^ 63 - 1"

definition CRLF :: "byte list" where "CRLF = [13, 10]"

section \<open>Responses\<close>

text \<open>Decimal output of \<open>printf\<close>.\<close>

fun dec_nat :: "nat \<Rightarrow> byte list" where
  "dec_nat n = (if n < 10 then [of_nat (48 + n)] else dec_nat (n div 10) @ [of_nat (48 + n mod 10)])"

declare dec_nat.simps [simp del]

definition dec_int :: "int \<Rightarrow> byte list" where
  "dec_int i = (if i < 0 then ch (CHR ''-'') # dec_nat (nat (- i)) else dec_nat (nat i))"

fun appendf_all :: "http_env \<Rightarrow> kore_buf \<Rightarrow> byte list list \<Rightarrow> kore_buf res" where
  "appendf_all env b [] = Inr b"
| "appendf_all env b (l # ls) =
     rbind (kore_buf_appendv (e_junk env) b (Some l) (e_out2 env l)) (\<lambda>b1. appendf_all env b1 ls)"

text \<open>Whether the connection is to be closed after the response.\<close>

definition connection_close :: "http_request option \<Rightarrow> conn \<Rightarrow> bool" where
  "connection_close req c =
     (close_empty c \<or>
      (case req of
         None \<Rightarrow> False
       | Some r \<Rightarrow>
           (case http_request_header r (bs ''connection'') of
              None \<Rightarrow> False
            | Some v \<Rightarrow> v \<noteq> [] \<and> (hd v = ch (CHR ''c'') \<or> hd v = ch (CHR ''C'')) \<and> strcaseeq v (bs ''close''))))"

text \<open>The pieces the response header is put together from.\<close>

definition keepalive_lines :: "http_env \<Rightarrow> bool \<Rightarrow> byte list list" where
  "keepalive_lines env keep =
     (if keep then
        [bs ''connection: keep-alive'' @ CRLF,
         bs ''keep-alive: timeout='' @ dec_nat (http_keepalive_time env) @ CRLF]
      else [bs ''connection: close'' @ CRLF])"

definition hsts_lines :: "http_env \<Rightarrow> byte list list" where
  "hsts_lines env =
     (if http_hsts_enable env \<noteq> 0 then
        [bs ''strict-transport-security: '',
         bs ''max-age='' @ dec_nat (http_hsts_enable env) @ bs ''; includeSubDomains'' @ CRLF]
      else [])"

definition header_line :: "http_header \<Rightarrow> byte list" where
  "header_line hdr = hdr_header hdr @ bs '': '' @ hdr_value hdr @ CRLF"

definition length_lines :: "http_request option \<Rightarrow> int \<Rightarrow> nat \<Rightarrow> byte list list" where
  "length_lines req status len =
     (let l = [bs ''content-length: '' @ dec_nat len @ CRLF] in
      case req of
        Some r \<Rightarrow> if status \<noteq> 204 \<and> status \<ge> 200 \<and> \<not> rq_no_content_length r then l else []
      | None \<Rightarrow> if status \<noteq> 204 \<and> status \<ge> 200 then l else [])"

definition response_lines :: "http_env \<Rightarrow> http_request option \<Rightarrow> conn \<Rightarrow> int \<Rightarrow> nat \<Rightarrow> byte list list" where
  "response_lines env req c status len =
     [bs ''HTTP/1.1 '' @ dec_int status @ bs '' '' @ http_status_text status @ CRLF] @
     (if req \<noteq> None \<and> proto c \<noteq> CONN_PROTO_WEBSOCKET
      then keepalive_lines env (http_keepalive_time env \<noteq> 0 \<and> \<not> connection_close req c) else []) @
     hsts_lines env @
     (case req of Some r \<Rightarrow> map header_line (resp_headers r) | None \<Rightarrow> []) @
     length_lines req status len"

text \<open>The header buffer and the connection afterwards. \<open>d\<close> is \<open>None\<close> for \<open>NULL\<close>.\<close>

definition http_response_normal ::
    "http_env \<Rightarrow> kore_buf \<Rightarrow> http_request option \<Rightarrow> conn \<Rightarrow> int \<Rightarrow> byte list option \<Rightarrow> nat \<Rightarrow> (kore_buf \<times> conn) res" where
  "http_response_normal env hb req c status d len =
     rbind (appendf_all env (hb\<lparr>boffset := 0\<rparr>) (response_lines env req c status len)) (\<lambda>hb1.
     rbind (kore_buf_append (e_junk env) hb1 CRLF) (\<lambda>hb2.
       let c1 = (if req \<noteq> None \<and> proto c \<noteq> CONN_PROTO_WEBSOCKET \<and>
                    \<not> (http_keepalive_time env \<noteq> 0 \<and> \<not> connection_close req c)
                 then c\<lparr>close_empty := True\<rparr> else c) in
       rbind (net_send_queue (e_junk env) c1 (buf_contents hb2)) (\<lambda>c2.
       rbind (case (d, req) of
           (Some b, Some r) \<Rightarrow> if rq_method r \<noteq> HTTP_METHOD_HEAD then net_send_queue (e_junk env) c2 b else Inr c2
         | _ \<Rightarrow> Inr c2) (\<lambda>c3.
       rbind (if close_empty c3 then Inr c3
              else net_recv_reset (e_junk env) c3 (http_header_max env) Http_header_recv) (\<lambda>c4.
         Inr (hb2, c4))))))"

definition http_error_response :: "http_env \<Rightarrow> http \<Rightarrow> conn \<Rightarrow> int \<Rightarrow> (http \<times> conn) res" where
  "http_error_response env h c status =
     (if proto c = CONN_PROTO_HTTP then
        rbind (http_response_normal env (header_buf h) None c status None 0) (\<lambda>(hb, c1). Inr (h\<lparr>header_buf := hb\<rparr>, c1))
      else Inl (Fatal ''http_error_response() bad proto''))"

definition set_req :: "http \<Rightarrow> nat \<Rightarrow> http_request \<Rightarrow> http" where
  "set_req h r req = h\<lparr>reqs := (reqs h)(r \<mapsto> req)\<rparr>"

definition http_response ::
    "http_env \<Rightarrow> http \<Rightarrow> conn \<Rightarrow> nat \<Rightarrow> int \<Rightarrow> byte list option \<Rightarrow> nat \<Rightarrow> (http \<times> conn) res" where
  "http_response env h c r status d l =
     (case reqs h r of
        None \<Rightarrow> Inl Null_deref
      | Some req \<Rightarrow>
          let req1 = req\<lparr>rq_status := status mod 2 ^ 16\<rparr>; h1 = set_req h r req1 in
          if proto c = CONN_PROTO_HTTP \<or> proto c = CONN_PROTO_WEBSOCKET then
            rbind (http_response_normal env (header_buf h1) (Some req1) c status d l) (\<lambda>(hb, c1).
              Inr (h1\<lparr>header_buf := hb\<rparr>, c1))
          else Inl (Fatal ''http_response() bad proto''))"

definition http_response_stream ::
    "http_env \<Rightarrow> http \<Rightarrow> conn \<Rightarrow> nat \<Rightarrow> int \<Rightarrow> byte list \<Rightarrow> net_cb option \<Rightarrow> (http \<times> conn) res" where
  "http_response_stream env h c r status base cb =
     (case reqs h r of
        None \<Rightarrow> Inl Null_deref
      | Some req \<Rightarrow>
          let req1 = req\<lparr>rq_status := status mod 2 ^ 16\<rparr>; h1 = set_req h r req1 in
          if proto c = CONN_PROTO_HTTP then
            rbind (http_response_normal env (header_buf h1) (Some req1) c status None (length base)) (\<lambda>(hb, c1).
              Inr (h1\<lparr>header_buf := hb\<rparr>,
                if rq_method req1 \<noteq> HTTP_METHOD_HEAD then net_send_stream c1 base cb else c1))
          else Inl (Fatal ''http_response_stream() bad proto''))"

section \<open>Sleeping requests\<close>

definition http_request_sleep :: "http \<Rightarrow> nat \<Rightarrow> http res" where
  "http_request_sleep h r =
     (case reqs h r of
        None \<Rightarrow> Inl Null_deref
      | Some req \<Rightarrow>
          Inr (if \<not> rq_sleeping req then
             (set_req h r (req\<lparr>rq_sleeping := True\<rparr>))
               \<lparr>http_requests := remove1 r (http_requests h), http_requests_sleeping := http_requests_sleeping h @ [r]\<rparr>
           else h))"

definition http_request_wakeup :: "http \<Rightarrow> nat \<Rightarrow> http res" where
  "http_request_wakeup h r =
     (case reqs h r of
        None \<Rightarrow> Inl Null_deref
      | Some req \<Rightarrow>
          Inr (if rq_sleeping req then
             (set_req h r (req\<lparr>rq_sleeping := False\<rparr>))
               \<lparr>http_requests_sleeping := remove1 r (http_requests_sleeping h), http_requests := http_requests h @ [r]\<rparr>
           else h))"

section \<open>New requests\<close>

definition method_of :: "byte list \<Rightarrow> (int \<times> bool) option" where
  "method_of m =
     (if strcaseeq m (bs ''get'') then Some (HTTP_METHOD_GET, False)
      else if strcaseeq m (bs ''delete'') then Some (HTTP_METHOD_DELETE, False)
      else if strcaseeq m (bs ''post'') then Some (HTTP_METHOD_POST, True)
      else if strcaseeq m (bs ''put'') then Some (HTTP_METHOD_PUT, True)
      else if strcaseeq m (bs ''head'') then Some (HTTP_METHOD_HEAD, False)
      else None)"

text \<open>The host without what follows its last colon.\<close>

definition cut_port :: "byte list \<Rightarrow> byte list" where
  "cut_port host = (if ch (CHR '':'') \<in> set host then rev (tl (dropWhile (\<lambda>c. c \<noteq> ch (CHR '':'')) (rev host))) else host)"

text \<open>The path up to the question mark, and what follows it. A question mark in first place counts as
  none (\<open>qsoff\<close> is zero then).\<close>

definition cut_query :: "byte list \<Rightarrow> byte list \<times> byte list option" where
  "cut_query path =
     (let p = takeWhile (\<lambda>c. c \<noteq> ch (CHR ''?'')) path in
      if ch (CHR ''?'') \<in> set path \<and> p \<noteq> [] then (p, Some (drop (length p + 1) path)) else (path, None))"

definition new_request :: "http_env \<Rightarrow> nat \<Rightarrow> byte list \<Rightarrow> byte list \<Rightarrow> int \<Rightarrow> bool \<Rightarrow> nat \<Rightarrow> http_request" where
  "new_request env owner host path m expect_body hdlr =
     \<lparr>rq_method = m, fsm_state = 0, rq_complete = \<not> expect_body, rq_delete = False, rq_sleeping = False,
      rq_pgsql_queue = False, rq_expect_body = expect_body, rq_retain_extra = False, rq_no_content_length = False,
      rq_authed = False, rq_status = 0, rq_start = 0, rq_end = 0, rq_total = 0, rq_host = cut_port host,
      rq_path = fst (cut_query path), rq_agent = None, rq_owner = owner, http_body = None, http_body_fd = None,
      http_body_path = None, http_body_length = 0, http_body_offset = 0, content_length = e_uninit env,
      rq_hdlr_extra = None, query_string = snd (cut_query path), rq_hdlr = hdlr, req_headers = [], resp_headers = [],
      rq_arguments = [], rq_files = []\<rparr>"

text \<open>\<open>a\<close> is the address the request pool hands out. The result is \<open>*out\<close>, \<open>None\<close> for \<open>KORE_RESULT_ERROR\<close>.\<close>

definition http_request_new ::
    "http_env \<Rightarrow> nat \<Rightarrow> http \<Rightarrow> conn \<Rightarrow> byte list \<Rightarrow> byte list \<Rightarrow> byte list \<Rightarrow> byte list \<Rightarrow> (nat option \<times> http \<times> conn) res" where
  "http_request_new env a h c host meth path version =
     (let err = (\<lambda>status. rbind (http_error_response env h c status) (\<lambda>(h1, c1). Inr (None, h1, c1))) in
      if length host \<ge> KORE_DOMAINNAME_LEN - 1 then err 500
      else if length path \<ge> HTTP_URI_LEN - 1 then err 414
      else if \<not> strcaseeq version (bs ''http/1.1'') then err 505
      else case kore_module_handler_find env host (takeWhile (\<lambda>c. c \<noteq> ch (CHR ''?'')) path) of
          None \<Rightarrow> err 404
        | Some hdlr \<Rightarrow>
            (case method_of meth of
               None \<Rightarrow> err 400
             | Some (m, expect_body) \<Rightarrow>
                 Inr (Some a,
                   h\<lparr>reqs := (reqs h)(a \<mapsto> new_request env (cid c) host path m expect_body hdlr),
                     http_request_count := http_request_count h + 1, http_requests := a # http_requests h\<rparr>,
                   c\<lparr>c_http_requests := c_http_requests c @ [a]\<rparr>)))"

section \<open>What splitting leaves in the receive buffer\<close>

text \<open>\<open>kore_split_string\<close> overwrites the delimiters it meets with NUL until its slots are used up. The
  header buffer keeps these marks, and a later callback that was not preceded by \<open>net_recv_reset\<close> sees them.\<close>

fun split_marks :: "nat \<Rightarrow> bool \<Rightarrow> byte list \<Rightarrow> byte list \<Rightarrow> byte list" where
  "split_marks n tok delim [] = []"
| "split_marks n tok delim (c # cs) =
     (if n = 0 then c # cs
      else if c \<in> set delim then 0 # split_marks (if tok then n - 1 else n) False delim cs
      else c # split_marks n True delim cs)"

definition mark_string :: "(byte list \<Rightarrow> byte list) \<Rightarrow> byte list \<Rightarrow> byte list" where
  "mark_string f s = f (takeWhile (\<lambda>c. c \<noteq> 0) s) @ dropWhile (\<lambda>c. c \<noteq> 0) s"

definition mark_first :: "byte \<Rightarrow> byte list \<Rightarrow> byte list" where
  "mark_first d s = (case dropWhile (\<lambda>c. c \<noteq> d) s of [] \<Rightarrow> s | _ # r \<Rightarrow> takeWhile (\<lambda>c. c \<noteq> d) s @ 0 # r)"

fun mark_tokens :: "nat \<Rightarrow> (nat \<Rightarrow> byte list \<Rightarrow> byte list) \<Rightarrow> byte list list \<Rightarrow> byte list" where
  "mark_tokens i f [] = []"
| "mark_tokens i f [s] = (if s = [] then [] else f i s)"
| "mark_tokens i f (s # ss) = (if s = [] then 0 # mark_tokens i f ss else f i s @ 0 # mark_tokens (Suc i) f ss)"

text \<open>The marks in token \<open>i\<close>: of the request line, of the host line, of the other lines.\<close>

definition token_marks :: "bool \<Rightarrow> nat option \<Rightarrow> nat option \<Rightarrow> nat \<Rightarrow> byte list \<Rightarrow> byte list" where
  "token_marks request host skip i s =
     (let s1 = (if request \<and> i = 0 then split_marks 3 False (bs '' '') s else s);
          s2 = (if host = Some i then mark_string (split_marks 2 False (bs '':'')) s1 else s1)
      in case skip of
           Some k \<Rightarrow> if i \<ge> 1 \<and> i \<noteq> k then mark_string (mark_first (ch (CHR '':''))) s2 else s2
         | None \<Rightarrow> s2)"

text \<open>\<open>hbuf\<close> is the header text and \<open>e\<close> its end.\<close>

definition mark_header :: "bool \<Rightarrow> nat option \<Rightarrow> nat option \<Rightarrow> nat \<Rightarrow> byte list \<Rightarrow> conn \<Rightarrow> conn" where
  "mark_header request host skip e hbuf c =
     (case rnb c of
        None \<Rightarrow> c
      | Some nb \<Rightarrow>
          let m = mark_tokens 0 (token_marks request host skip)
                    (Kore_Str.fields [0] (split_marks (HTTP_REQ_HEADER_MAX - 1) False CRLF hbuf))
          in c\<lparr>rnb := Some (nb\<lparr>nb_buf := memcpy_at ((nb_buf nb)[e := 0]) 0 m\<rparr>)\<rparr>)"

section \<open>Receiving a header\<close>

text \<open>The end of the header in the received bytes: its position and the length of the empty line.\<close>

definition find_end :: "byte list \<Rightarrow> (nat \<times> nat) option" where
  "find_end buf =
     (case kore_mem_find buf [13, 10, 13, 10] 4 of
        Some e \<Rightarrow> Some (e, 4)
      | None \<Rightarrow> (case kore_mem_find buf [10, 10] 2 of Some e \<Rightarrow> Some (e, 2) | None \<Rightarrow> None))"

datatype host_line = No_host | Bad_host nat | Host nat "byte list"

text \<open>The search for the host line. \<open>host[1] - host[0]\<close> is the distance of the two fields in the line.\<close>

fun find_host :: "nat \<Rightarrow> byte list list \<Rightarrow> host_line" where
  "find_host i [] = No_host"
| "find_host i (l # ls) =
     (if \<not> strncaseeq l (bs ''host'') 4 then find_host (Suc i) ls
      else case kore_split_string l (bs '':'') 3 of
          [h0, h1] \<Rightarrow>
            let gap = length h0 + length (takeWhile (\<lambda>c. c = ch (CHR '':'')) (drop (length h0) l)) in
            if gap \<noteq> 5 \<or> \<not> strncaseeq h0 (bs ''host'') 4 then Bad_host i
            else Host i (drop 1 h1)
        | _ \<Rightarrow> Bad_host i)"

text \<open>The other header lines; the first \<open>user-agent\<close> is remembered.\<close>

definition header_of :: "byte list \<Rightarrow> http_header option" where
  "header_of l =
     (case strchr l (ch (CHR '':'')) of
        None \<Rightarrow> None
      | Some p \<Rightarrow>
          let v = drop 1 p; v1 = (case v of c # r \<Rightarrow> if c = ch (CHR '' '') then r else v | [] \<Rightarrow> v)
          in Some \<lparr>hdr_header = takeWhile (\<lambda>c. c \<noteq> ch (CHR '':'')) l, hdr_value = v1\<rparr>)"

definition add_header :: "http_header \<Rightarrow> http_request \<Rightarrow> http_request" where
  "add_header hdr req =
     (let req1 = req\<lparr>req_headers := req_headers req @ [hdr]\<rparr> in
      if rq_agent req1 = None \<and> strcaseeq (hdr_header hdr) (bs ''user-agent'') then req1\<lparr>rq_agent := Some (hdr_value hdr)\<rparr>
      else req1)"

fun add_headers :: "nat \<Rightarrow> nat \<Rightarrow> byte list list \<Rightarrow> http_request \<Rightarrow> http_request" where
  "add_headers i skip [] req = req"
| "add_headers i skip (l # ls) req =
     (if i = skip then add_headers (Suc i) skip ls req
      else case header_of l of
          None \<Rightarrow> add_headers (Suc i) skip ls req
        | Some hdr \<Rightarrow> add_headers (Suc i) skip ls (add_header hdr req))"

text \<open>Setting up the body of request \<open>r\<close>: \<open>got\<close> is what was received behind the header.\<close>

definition fail_request :: "http_env \<Rightarrow> http \<Rightarrow> conn \<Rightarrow> nat \<Rightarrow> http_request \<Rightarrow> int \<Rightarrow> int \<Rightarrow> (int \<times> http \<times> conn) res" where
  "fail_request env h c r req status ret =
     rbind (http_error_response env (set_req h r (req\<lparr>rq_delete := True\<rparr>)) c status) (\<lambda>(h1, c1). Inr (ret, h1, c1))"

definition body_start ::
    "http_env \<Rightarrow> http \<Rightarrow> conn \<Rightarrow> nat \<Rightarrow> http_request \<Rightarrow> byte list \<Rightarrow> (int \<times> http \<times> conn) res" where
  "body_start env h c r req got =
     (let bytes_left = wsub64 (content_length req) (length got) in
      if bytes_left > 0 then
        rbind (net_recv_reset (e_junk env) c (min bytes_left NETBUF_SEND_PAYLOAD_MAX) Http_body_recv) (\<lambda>c1.
        rbind (http_request_sleep (set_req h r req) r) (\<lambda>h1.
          case reqs h1 r of
            None \<Rightarrow> Inl Null_deref
          | Some req1 \<Rightarrow>
              Inr (KORE_RESULT_OK, set_req h1 r (req1\<lparr>content_length := bytes_left\<rparr>), c1\<lparr>rnb_extra := Some r\<rparr>)))
      else
        let req1 = req\<lparr>rq_complete := True, rq_expect_body := False\<rparr> in
        rbind (http_body_rewind (e_lseek_ok env) req1) (\<lambda>(ret, req2).
          if ret = KORE_RESULT_ERROR then fail_request env h c r req2 500 KORE_RESULT_OK
          else Inr (KORE_RESULT_OK, set_req h r req2, c)))"

definition body_setup ::
    "http_env \<Rightarrow> http \<Rightarrow> conn \<Rightarrow> nat \<Rightarrow> http_request \<Rightarrow> byte list \<Rightarrow> (int \<times> http \<times> conn) res" where
  "body_setup env h c r req got =
     (if http_body_max env = 0 then fail_request env h c r req 405 KORE_RESULT_OK
      else case http_request_header req (bs ''content-length'') of
          None \<Rightarrow> fail_request env h c r req 411 KORE_RESULT_OK
        | Some p \<Rightarrow>
            (case kore_strtonum p 10 0 LONG_MAX of (n, v) \<Rightarrow>
               let req1 = req\<lparr>content_length := nat n\<rparr> in
               if v = KORE_RESULT_ERROR then fail_request env h c r req1 411 KORE_RESULT_OK
               else if n = 0 then
                 Inr (KORE_RESULT_OK, set_req h r (req1\<lparr>rq_complete := True, rq_expect_body := False\<rparr>), c)
               else if nat n > http_body_max env then fail_request env h c r req1 413 KORE_RESULT_OK
               else let req2 = req1\<lparr>http_body_length := nat n\<rparr> in
                 if http_body_disk_offload env > 0 \<and> nat n > http_body_disk_offload env then
                   let template = http_body_disk_path env @ bs ''/http_body.XXXXXX'' in
                   if length template \<ge> HTTP_BODY_PATH_MAX
                     then fail_request env h c r (req2\<lparr>http_body_path := Some (take (HTTP_BODY_PATH_MAX - 1) template)\<rparr>) 500 KORE_RESULT_ERROR
                   else (case e_mkstemp env template of
                       None \<Rightarrow> fail_request env h c r (req2\<lparr>http_body_path := Some template, http_body := None\<rparr>) 500 KORE_RESULT_OK
                     | Some path \<Rightarrow>
                         let req3 = req2\<lparr>http_body_path := Some path, http_body := None,
                               http_body_fd := Some \<lparr>bf_data = got, bf_pos = length got, bf_reads = []\<rparr>\<rparr> in
                         if \<not> e_write_ok env then fail_request env h c r req3 500 KORE_RESULT_OK
                         else body_start env h c r req3 got)
                 else
                   rbind (kore_buf_alloc (e_junk env) (nat n)) (\<lambda>b.
                   rbind (kore_buf_append (e_junk env) b got) (\<lambda>b1.
                     body_start env h c r (req2\<lparr>http_body_fd := None, http_body := Some b1\<rparr>) got))))"

text \<open>The work once the header is complete: \<open>e\<close> and \<open>skip\<close> as \<open>find_end\<close> gives them.\<close>

definition header_complete ::
    "http_env \<Rightarrow> nat \<Rightarrow> http \<Rightarrow> conn \<Rightarrow> byte list \<Rightarrow> nat \<Rightarrow> nat \<Rightarrow> (int \<times> http \<times> conn) res" where
  "header_complete env a h c buf e skip =
     (let hbuf = takeWhile (\<lambda>x. x \<noteq> 0) (take e buf); got = drop (e + skip) buf;
          headers = kore_split_string hbuf CRLF HTTP_REQ_HEADER_MAX;
          bad = (\<lambda>c. rbind (http_error_response env h c 400) (\<lambda>(h1, c1). Inr (KORE_RESULT_OK, h1, c1))) in
      if length headers < 2 then bad (mark_header False None None e hbuf c)
      else case kore_split_string (headers ! 0) (bs '' '') 4 of
          [meth, path, version] \<Rightarrow>
            (case find_host 0 (headers[0 := fst (strsep (headers ! 0) (bs '' ''))]) of
               No_host \<Rightarrow> bad (mark_header True None None e hbuf c)
             | Bad_host i \<Rightarrow> bad (mark_header True (Some i) None e hbuf c)
             | Host i host \<Rightarrow>
                 rbind (http_request_new env a h (mark_header True (Some i) None e hbuf c) host meth path version)
                   (\<lambda>(r, h1, c1).
                     case r of
                       None \<Rightarrow> Inr (KORE_RESULT_OK, h1, c1)
                     | Some r1 \<Rightarrow>
                         (case reqs h1 r1 of
                            None \<Rightarrow> Inl Null_deref
                          | Some req \<Rightarrow>
                              let req1 = add_headers 1 i (tl headers) req;
                                  h2 = set_req h1 r1 req1;
                                  c2 = mark_header True (Some i) (Some i) e hbuf c1 in
                              if rq_expect_body req1 then body_setup env h2 c2 r1 req1 got
                              else Inr (KORE_RESULT_OK, h2, c2))))
        | _ \<Rightarrow> bad (mark_header True None None e hbuf c))"

definition http_header_recv :: "http_env \<Rightarrow> nat \<Rightarrow> http \<Rightarrow> conn \<Rightarrow> (int \<times> http \<times> conn) res" where
  "http_header_recv env a h c =
     (case rnb c of
        None \<Rightarrow> Inl Null_deref
      | Some nb \<Rightarrow>
          if b_len nb < 4 then Inr (KORE_RESULT_OK, h, c)
          else (case find_end (take (s_off nb) (nb_buf nb)) of
              None \<Rightarrow> Inr (KORE_RESULT_OK, h, c)
            | Some (e, skip) \<Rightarrow> header_complete env a h c (take (s_off nb) (nb_buf nb)) e skip))"

section \<open>Receiving a body\<close>

definition http_body_recv :: "http_env \<Rightarrow> http \<Rightarrow> conn \<Rightarrow> (int \<times> http \<times> conn) res" where
  "http_body_recv env h c =
     (case (rnb c, rnb_extra c) of
        (Some nb, Some r) \<Rightarrow>
          (case reqs h r of
             None \<Rightarrow> Inl Null_deref
           | Some req \<Rightarrow>
               let got = take (s_off nb) (nb_buf nb) in
               rbind (case http_body_fd req of
                   Some bf \<Rightarrow>
                     if e_write_ok env
                     then Inr (Some (req\<lparr>http_body_fd := Some (bf\<lparr>bf_data := memcpy_at (bf_data bf) (bf_pos bf) got,
                            bf_pos := bf_pos bf + length got\<rparr>)\<rparr>))
                     else Inr None
                 | None \<Rightarrow>
                     (case http_body req of
                        Some b \<Rightarrow> rbind (kore_buf_append (e_junk env) b got) (\<lambda>b1. Inr (Some (req\<lparr>http_body := Some b1\<rparr>)))
                      | None \<Rightarrow> Inr None)) (\<lambda>written.
               case written of
                 None \<Rightarrow> fail_request env h c r req 500 KORE_RESULT_ERROR
               | Some req1 \<Rightarrow>
                   let left = wsub64 (content_length req1) (s_off nb); req2 = req1\<lparr>content_length := left\<rparr> in
                   if left = 0 then
                     rbind (http_request_wakeup (set_req h r req2) r) (\<lambda>h1.
                       case reqs h1 r of
                         None \<Rightarrow> Inl Null_deref
                       | Some req3 \<Rightarrow>
                           let req4 = req3\<lparr>rq_complete := True, rq_expect_body := False, content_length := http_body_length req3\<rparr>;
                               c1 = c\<lparr>rnb_extra := None\<rparr> in
                           rbind (http_body_rewind (e_lseek_ok env) req4) (\<lambda>(ret, req5).
                             if ret = KORE_RESULT_ERROR then fail_request env h1 c1 r req5 500 KORE_RESULT_ERROR
                             else rbind (net_recv_reset (e_junk env) c1 (http_header_max env) Http_header_recv) (\<lambda>c2.
                               Inr (KORE_RESULT_OK, set_req h1 r req5, c2))))
                   else
                     rbind (net_recv_reset (e_junk env) c (min left NETBUF_SEND_PAYLOAD_MAX) Http_body_recv) (\<lambda>c1.
                       Inr (KORE_RESULT_OK, set_req h r req2, c1))))
      | _ \<Rightarrow> Inl Null_deref)"

section \<open>State machines of handlers\<close>

definition HTTP_STATE_ERROR :: int where "HTTP_STATE_ERROR = 0"
definition HTTP_STATE_CONTINUE :: int where "HTTP_STATE_CONTINUE = 1"
definition HTTP_STATE_COMPLETE :: int where "HTTP_STATE_COMPLETE = 2"
definition HTTP_STATE_RETRY :: int where "HTTP_STATE_RETRY = 3"

text \<open>The states are given as functions on the world and the request. The loop runs as long as the states say so,
  so it carries fuel; \<open>None\<close> is a run that is still going on.\<close>

fun http_state_run ::
    "nat \<Rightarrow> (nat \<Rightarrow> 'w \<Rightarrow> http_request \<Rightarrow> int \<times> 'w \<times> http_request) \<Rightarrow> nat \<Rightarrow> 'w \<Rightarrow> http_request \<Rightarrow>
      (int \<times> 'w \<times> http_request) option res" where
  "http_state_run 0 states elm w req = Inr None"
| "http_state_run (Suc fuel) states elm w req =
     (if fsm_state req \<ge> elm then Inl (Fatal ''http_state_run: fsm_state > elm'')
      else case states (fsm_state req) w req of (r, w1, req1) \<Rightarrow>
        if r = HTTP_STATE_ERROR then Inr (Some (KORE_RESULT_OK, w1, req1))
        else if r = HTTP_STATE_RETRY then Inr (Some (KORE_RESULT_RETRY, w1, req1))
        else if r = HTTP_STATE_CONTINUE then http_state_run fuel states elm w1 req1
        else if r = HTTP_STATE_COMPLETE then Inr (Some (KORE_RESULT_OK, w1, req1\<lparr>fsm_state := 0\<rparr>))
        else Inl (Fatal ''http_state_run: unknown return value''))"

end
