(* ===== verification/Http_Flow.thy ===== *)
theory Http_Flow
  imports Http_Conn
begin

text \<open>
  What the request handling of \<open>Http_Conn\<close> achieves: the bytes of a response and their framing, the parsing of a
  request header, the reception of a body in pieces, and the invariant of the request lists.
\<close>

section \<open>Lines\<close>

fun join_lines :: "byte list list \<Rightarrow> byte list" where
  "join_lines [] = []"
| "join_lines [l] = l"
| "join_lines (l # ls) = l @ CRLF @ join_lines ls"

definition line_ok :: "byte list \<Rightarrow> bool" where
  "line_ok l \<longleftrightarrow> l \<noteq> [] \<and> 13 \<notin> set l \<and> 10 \<notin> set l"

lemma first_occ_free: "x \<notin> set a \<Longrightarrow> first_occ (x # nr) (a @ b) = map_option (\<lambda>k. length a + k) (first_occ (x # nr) b)"
  using first_occ_skip [of "x # nr" "length a" "a @ b"] no_match_before [of "x # nr" x nr "length a" "a @ b"] by auto

lemma first_occ_join_lines:
  "ls \<noteq> [] \<Longrightarrow> \<forall>l \<in> set ls. line_ok l \<Longrightarrow>
    first_occ [13, 10, 13, 10] (join_lines ls @ [13, 10, 13, 10] @ d) = Some (length (join_lines ls))"
proof (induction ls rule: join_lines.induct)
  case (2 l)
  then show ?case using first_occ_after [of 13 l "[10, 13, 10]" d] by (simp add: line_ok_def)
next
  case (3 l l2 ls)
  let ?r = "join_lines (l2 # ls) @ [13, 10, 13, 10] @ d"
  have l: "13 \<notin> set l" using "3.prems" by (simp add: line_ok_def)
  obtain x t where x: "?r = x # t" "x \<noteq> 13" using "3.prems" by (cases ls; cases l2) (auto simp: line_ok_def)
  have "first_occ [13, 10, 13, 10] (13 # 10 # ?r) = map_option (\<lambda>k. 2 + k) (first_occ [13, 10, 13, 10] ?r)"
    using x by (simp add: option.map_comp comp_def)
  then show ?case using 3 first_occ_free [OF l, of "[10, 13, 10]" "13 # 10 # ?r"] by (simp add: CRLF_def)
qed simp

lemma kore_mem_find_eq: "nd \<noteq> [] \<Longrightarrow> n = length nd \<Longrightarrow> kore_mem_find s nd n = first_occ nd s"
  using mem_find_from_first_occ [of nd 0 s "[]"] by (simp add: kore_mem_find_def option.map_ident)

lemma find_end_join_lines:
  "ls \<noteq> [] \<Longrightarrow> \<forall>l \<in> set ls. line_ok l \<Longrightarrow> find_end (join_lines ls @ CRLF @ CRLF @ d) = Some (length (join_lines ls), 4)"
  using first_occ_join_lines [of ls d] by (simp add: find_end_def kore_mem_find_eq CRLF_def)

lemma fields_delim:
  "d \<in> set delim \<Longrightarrow> set a \<inter> set delim = {} \<Longrightarrow> Kore_Str.fields delim (a @ d # b) = a # Kore_Str.fields delim b"
  by (induction a) auto

lemma fields_join_lines:
  "ls \<noteq> [] \<Longrightarrow> \<forall>l \<in> set ls. line_ok l \<Longrightarrow> filter (\<lambda>f. f \<noteq> []) (Kore_Str.fields CRLF (join_lines ls)) = ls"
proof (induction ls rule: join_lines.induct)
  case (2 l)
  then have "Kore_Str.fields CRLF l = [l]" by (intro fields_single) (auto simp: line_ok_def CRLF_def)
  then show ?case using 2 by (simp add: line_ok_def)
next
  case (3 l l2 ls)
  have "Kore_Str.fields CRLF (l @ 13 # 10 # join_lines (l2 # ls)) = l # [] # Kore_Str.fields CRLF (join_lines (l2 # ls))"
    using fields_delim [of 13 CRLF l] "3.prems" by (simp add: line_ok_def CRLF_def)
  then show ?case using 3 by (simp add: CRLF_def line_ok_def)
qed simp

lemma split_join_lines:
  assumes "ls \<noteq> []" "\<forall>l \<in> set ls. line_ok l" "length ls < ele"
  shows "kore_split_string (join_lines ls) CRLF ele = ls"
  using assms by (simp add: kore_split_string_def split_loop_fields fields_join_lines)

lemma concat_lines: "ls \<noteq> [] \<Longrightarrow> concat (map (\<lambda>l. l @ CRLF) ls) = join_lines ls @ CRLF"
  by (induction ls rule: join_lines.induct) simp_all

section \<open>Responses\<close>

lemma appendf_all_ok:
  "buf_holds b cs (length (concat ls) + n) \<Longrightarrow> \<forall>l \<in> set ls. length l < BUFSIZ \<Longrightarrow>
    \<exists>b'. appendf_all env b ls = Inr b' \<and> buf_holds b' (cs @ concat ls) n"
proof (induction ls arbitrary: b cs)
  case (Cons l ls)
  then have "buf_holds b cs (length l + (length (concat ls) + n))" by (simp add: ac_simps)
  from buf_holds_append [OF this, of "e_junk env"] obtain b1 where
    b1: "kore_buf_append (e_junk env) b l = Inr b1" "buf_holds b1 (cs @ l) (length (concat ls) + n)" by blast
  from Cons.IH [OF b1(2)] Cons.prems(2) b1(1) show ?case by (simp add: kore_buf_appendv_def)
qed simp

text \<open>A response changes only the send queue, the receive buffer and the closing flag of a connection.\<close>

definition same_conn :: "conn \<Rightarrow> conn \<Rightarrow> bool" where
  "same_conn c c' \<longleftrightarrow> (\<exists>q b ce. c' = c\<lparr>send_queue := q, rnb := b, close_empty := ce\<rparr>)"

lemma same_conn_refl [simp, intro]: "same_conn c c"
  unfolding same_conn_def by (intro exI [of _ "send_queue c"] exI [of _ "rnb c"] exI [of _ "close_empty c"]) simp

lemma same_conn_update [simp, intro]:
  "same_conn c (c\<lparr>send_queue := q\<rparr>)" "same_conn c (c\<lparr>rnb := b\<rparr>)" "same_conn c (c\<lparr>close_empty := ce\<rparr>)"
proof -
  show "same_conn c (c\<lparr>send_queue := q\<rparr>)" unfolding same_conn_def
    by (intro exI [of _ q] exI [of _ "rnb c"] exI [of _ "close_empty c"]) simp
  show "same_conn c (c\<lparr>rnb := b\<rparr>)" unfolding same_conn_def
    by (intro exI [of _ "send_queue c"] exI [of _ b] exI [of _ "close_empty c"]) simp
  show "same_conn c (c\<lparr>close_empty := ce\<rparr>)" unfolding same_conn_def
    by (intro exI [of _ "send_queue c"] exI [of _ "rnb c"] exI [of _ ce]) simp
qed

lemma same_conn_trans [trans]: "same_conn a b \<Longrightarrow> same_conn b c \<Longrightarrow> same_conn a c"
  by (fastforce simp: same_conn_def)

lemma same_connD:
  "same_conn c c' \<Longrightarrow> cid c' = cid c \<and> proto c' = proto c \<and> cstate c' = cstate c \<and> c_http_requests c' = c_http_requests c \<and>
    wire c' = wire c \<and> read_possible c' = read_possible c \<and> rnb_extra c' = rnb_extra c"
  by (auto simp: same_conn_def)

lemma net_recv_reset_ok:
  assumes "rnb c = Some nb" "nb_type nb = NETBUF_RECV" "0 < len"
  shows "\<exists>nb'. net_recv_reset junk c len cb = Inr (c\<lparr>rnb := Some nb'\<rparr>) \<and> nb_type nb' = NETBUF_RECV \<and> nb_cb nb' = Some cb \<and>
    s_off nb' = 0 \<and> b_len nb' = len \<and> nb_call_always nb' = nb_call_always nb \<and>
    (m_len nb = length (nb_buf nb) \<longrightarrow> m_len nb' = length (nb_buf nb') \<and> recv_ok nb')"
  using assms by (auto simp: net_recv_reset_def Let_def malloc_block_def recv_ok_def)

text \<open>The bytes of a response.\<close>

definition response_text :: "http_env \<Rightarrow> http_request option \<Rightarrow> conn \<Rightarrow> int \<Rightarrow> nat \<Rightarrow> byte list" where
  "response_text env req c status len = concat (response_lines env req c status len) @ CRLF"

definition response_body :: "http_request option \<Rightarrow> byte list option \<Rightarrow> byte list" where
  "response_body req d =
     (case (d, req) of (Some b, Some r) \<Rightarrow> if rq_method r \<noteq> HTTP_METHOD_HEAD then b else [] | _ \<Rightarrow> [])"

text \<open>The conditions under which a response cannot fault: sizes, and a receive buffer to go on with.\<close>

definition response_ok :: "http_env \<Rightarrow> kore_buf \<Rightarrow> http_request option \<Rightarrow> conn \<Rightarrow> int \<Rightarrow> byte list option \<Rightarrow> nat \<Rightarrow> bool" where
  "response_ok env hb req c status d len \<longleftrightarrow>
     buf_ok hb \<and> blength hb + length (response_text env req c status len) < 2 ^ 64 \<and>
     length (response_text env req c status len) < 2 ^ 32 \<and>
     (\<forall>l \<in> set (response_lines env req c status len). length l < BUFSIZ) \<and>
     (case d of None \<Rightarrow> True | Some b \<Rightarrow> length b < 2 ^ 32) \<and>
     send_ok c \<and> 0 < http_header_max env \<and> (\<exists>nb. rnb c = Some nb \<and> nb_type nb = NETBUF_RECV)"

lemma conn_output_frame [simp]:
  "conn_output (c\<lparr>rnb := b\<rparr>) = conn_output c" "conn_output (c\<lparr>close_empty := x\<rparr>) = conn_output c"
  "send_ok (c\<lparr>rnb := b\<rparr>) = send_ok c" "send_ok (c\<lparr>close_empty := x\<rparr>) = send_ok c"
  by (simp_all add: conn_output_def pending_def send_ok_def)

lemma send_body_ok:
  assumes "send_ok c" "case d of None \<Rightarrow> True | Some b \<Rightarrow> length b < 2 ^ 32"
  shows "\<exists>q. (case (d, req) of
      (Some b, Some r) \<Rightarrow> if rq_method r \<noteq> HTTP_METHOD_HEAD then net_send_queue junk c b else Inr c
    | _ \<Rightarrow> Inr c) = Inr (c\<lparr>send_queue := q\<rparr>) \<and> send_ok (c\<lparr>send_queue := q\<rparr>) \<and>
    conn_output (c\<lparr>send_queue := q\<rparr>) = conn_output c @ response_body req d"
proof (cases "\<exists>b r. d = Some b \<and> req = Some r \<and> rq_method r \<noteq> HTTP_METHOD_HEAD")
  case True
  then obtain b r where "d = Some b" "req = Some r" "rq_method r \<noteq> HTTP_METHOD_HEAD" by blast
  then show ?thesis using net_send_queue_ok [OF assms(1), of b junk] assms(2) by (auto simp: response_body_def)
next
  case False
  then show ?thesis using assms(1)
    by (intro exI [of _ "send_queue c"]) (auto simp: response_body_def split: option.splits)
qed

text \<open>The receive buffer has the size it claims.\<close>

definition rnb_sized :: "conn \<Rightarrow> bool" where
  "rnb_sized c \<longleftrightarrow> (case rnb c of None \<Rightarrow> False | Some nb \<Rightarrow> m_len nb = length (nb_buf nb))"

text \<open>The receive buffer was set up for the next header.\<close>

definition rnb_reset :: "nat \<Rightarrow> conn \<Rightarrow> conn \<Rightarrow> bool" where
  "rnb_reset len c c' \<longleftrightarrow> (\<exists>nb'. rnb c' = Some nb' \<and> nb_cb nb' = Some Http_header_recv \<and> b_len nb' = len \<and> s_off nb' = 0 \<and>
     (rnb_sized c \<longrightarrow> recv_ok nb' \<and> m_len nb' = length (nb_buf nb')))"

lemma http_response_normal_ok:
  assumes "response_ok env hb req c status d len"
  shows "\<exists>hb' c'. http_response_normal env hb req c status d len = Inr (hb', c') \<and> buf_ok hb' \<and> send_ok c' \<and>
    conn_output c' = conn_output c @ response_text env req c status len @ response_body req d \<and> same_conn c c' \<and>
    (close_empty c' \<longleftrightarrow> close_empty c \<or> (req \<noteq> None \<and> proto c \<noteq> CONN_PROTO_WEBSOCKET \<and>
       (http_keepalive_time env = 0 \<or> connection_close req c))) \<and>
    (\<exists>nb'. rnb c' = Some nb' \<and> nb_type nb' = NETBUF_RECV \<and> (rnb_sized c \<longrightarrow> rnb_sized c')) \<and>
    (rnb c' = rnb c \<or> rnb_reset (http_header_max env) c c') \<and>
    (blength hb + length (response_text env req c status len) + n < 2 ^ 64 \<longrightarrow> blength hb' + n < 2 ^ 64)"
proof -
  let ?ls = "response_lines env req c status len" and ?j = "e_junk env"
  from assms have a: "buf_ok hb" "blength hb + length (concat ?ls @ CRLF) < 2 ^ 64" "length (concat ?ls @ CRLF) < 2 ^ 32"
    "\<forall>l \<in> set ?ls. length l < BUFSIZ" "case d of None \<Rightarrow> True | Some b \<Rightarrow> length b < 2 ^ 32" "send_ok c" "0 < http_header_max env"
    by (auto simp: response_ok_def response_text_def)
  from assms obtain nb where nb: "rnb c = Some nb" "nb_type nb = NETBUF_RECV" by (auto simp: response_ok_def)
  let ?m = "if blength hb + length (response_text env req c status len) + n < 2 ^ 64 then n else 0"
  have "buf_holds (hb\<lparr>boffset := 0\<rparr>) [] (length (concat ?ls) + (length CRLF + ?m))"
    using a(1,2) by (auto simp: response_text_def add.assoc buf_holds_def buf_ok_def buf_contents_def buf_room_def split: option.split)
  from appendf_all_ok [OF this a(4), of env] obtain hb1 where
    hb1: "appendf_all env (hb\<lparr>boffset := 0\<rparr>) ?ls = Inr hb1" "buf_holds hb1 (concat ?ls) (length CRLF + ?m)" by auto
  from buf_holds_append [OF hb1(2), of ?j] obtain hb2 where
    hb2: "kore_buf_append ?j hb1 CRLF = Inr hb2" "buf_ok hb2" "buf_contents hb2 = concat ?ls @ CRLF" "buf_room hb2 ?m"
    by (auto simp: buf_holds_def)
  define cl where "cl \<longleftrightarrow> req \<noteq> None \<and> proto c \<noteq> CONN_PROTO_WEBSOCKET \<and> \<not> (http_keepalive_time env \<noteq> 0 \<and> \<not> connection_close req c)"
  define c1 where "c1 = (if cl then c\<lparr>close_empty := True\<rparr> else c)"
  have c1: "send_ok c1" "conn_output c1 = conn_output c" "rnb c1 = Some nb" "same_conn c c1" "close_empty c1 = (close_empty c \<or> cl)"
    using a(6) nb by (auto simp: c1_def)
  from net_send_queue_ok [OF c1(1), of "concat ?ls @ CRLF" ?j] a(3) obtain q where
    q: "net_send_queue ?j c1 (concat ?ls @ CRLF) = Inr (c1\<lparr>send_queue := q\<rparr>)" "send_ok (c1\<lparr>send_queue := q\<rparr>)"
      "conn_output (c1\<lparr>send_queue := q\<rparr>) = conn_output c @ concat ?ls @ CRLF" by (auto simp: c1(2))
  from send_body_ok [OF q(2) a(5), where req = req and junk = ?j] obtain q2 where
    q2: "(case (d, req) of (Some b, Some r) \<Rightarrow> if rq_method r \<noteq> HTTP_METHOD_HEAD then net_send_queue ?j (c1\<lparr>send_queue := q\<rparr>) b
         else Inr (c1\<lparr>send_queue := q\<rparr>) | _ \<Rightarrow> Inr (c1\<lparr>send_queue := q\<rparr>)) = Inr (c1\<lparr>send_queue := q2\<rparr>)"
      "send_ok (c1\<lparr>send_queue := q2\<rparr>)"
      "conn_output (c1\<lparr>send_queue := q2\<rparr>) = conn_output c @ (concat ?ls @ CRLF) @ response_body req d"
    by (auto simp: q(3))
  let ?c = "c1\<lparr>send_queue := q2\<rparr>"
  have sc: "same_conn c ?c" by (rule same_conn_trans [OF c1(4)]) simp
  have "\<exists>c'. (if close_empty ?c then Inr ?c else net_recv_reset ?j ?c (http_header_max env) Http_header_recv) = Inr c' \<and>
      send_ok c' \<and> conn_output c' = conn_output ?c \<and> same_conn ?c c' \<and> close_empty c' = close_empty ?c \<and>
      (\<exists>nb'. rnb c' = Some nb' \<and> nb_type nb' = NETBUF_RECV \<and> (rnb_sized c \<longrightarrow> rnb_sized c')) \<and>
      (rnb c' = rnb c \<or> rnb_reset (http_header_max env) c c')"
  proof (cases "close_empty ?c")
    case True
    then show ?thesis using q2 c1(3) nb by (auto simp: rnb_sized_def rnb_reset_def)
  next
    case False
    have "rnb ?c = Some nb" using c1(3) by simp
    from net_recv_reset_ok [OF this nb(2) a(7), of ?j Http_header_recv] obtain nb' where
      r: "net_recv_reset ?j ?c (http_header_max env) Http_header_recv = Inr (?c\<lparr>rnb := Some nb'\<rparr>)" "nb_type nb' = NETBUF_RECV"
        "m_len nb = length (nb_buf nb) \<longrightarrow> m_len nb' = length (nb_buf nb') \<and> recv_ok nb'"
        "nb_cb nb' = Some Http_header_recv" "b_len nb' = http_header_max env" "s_off nb' = 0" by blast
    have "same_conn ?c (?c\<lparr>rnb := Some nb'\<rparr>)" by (rule same_conn_update)
    with False r q2(2) nb show ?thesis by (auto simp: rnb_sized_def rnb_reset_def)
  qed
  then obtain c' where c': "(if close_empty ?c then Inr ?c else net_recv_reset ?j ?c (http_header_max env) Http_header_recv) = Inr c'"
    "send_ok c'" "conn_output c' = conn_output ?c" "same_conn ?c c'" "close_empty c' = close_empty ?c"
    "\<exists>nb'. rnb c' = Some nb' \<and> nb_type nb' = NETBUF_RECV \<and> (rnb_sized c \<longrightarrow> rnb_sized c')"
    "rnb c' = rnb c \<or> rnb_reset (http_header_max env) c c'" by blast
  have "http_response_normal env hb req c status d len = Inr (hb2, c')"
    using hb1(1) hb2(1-3) q(1) q2(1) c'(1)
    by (simp only: http_response_normal_def rbind_simps Let_def c1_def [symmetric] cl_def [symmetric])
  moreover have "close_empty c' = (close_empty c \<or> cl)" using c'(5) c1(5) by simp
  ultimately show ?thesis using c' q2(3) same_conn_trans [OF sc c'(4)] hb2(2,4)
    by (auto simp: response_text_def cl_def buf_room_def)
qed

section \<open>The framing of a response\<close>

lemma isdigit_dec: "n < 10 \<Longrightarrow> isdigit (of_nat (48 + n))"
proof -
  assume "n < 10"
  then have "n \<in> set [0..<10]" by simp
  then show ?thesis by (simp add: upt_rec isdigit_def) (elim disjE; simp)
qed

lemma dec_nat_digits: "c \<in> set (dec_nat n) \<Longrightarrow> isdigit c"
proof (induction n rule: dec_nat.induct)
  case (1 n)
  have "n mod 10 < 10" by simp
  with 1 isdigit_dec [of n] isdigit_dec [of "n mod 10"] show ?case
    by (auto simp: dec_nat.simps [of n] simp del: of_nat_add split: if_splits)
qed

lemma isdigit_not_eol: "isdigit c \<Longrightarrow> c \<noteq> 13 \<and> c \<noteq> 10"
  by (auto simp: isdigit_def)

lemma dec_free: "13 \<notin> set (dec_nat n)" "10 \<notin> set (dec_nat n)" "13 \<notin> set (dec_int i)" "10 \<notin> set (dec_int i)"
  using dec_nat_digits isdigit_not_eol by (auto simp: dec_int_def)

lemma http_status_text_free: "13 \<notin> set (http_status_text s)" "10 \<notin> set (http_status_text s)"
  by (simp_all add: http_status_text_def bs_def)

text \<open>The header lines of a response, without their ends.\<close>

definition status_line :: "int \<Rightarrow> byte list" where
  "status_line status = bs ''HTTP/1.1 '' @ dec_int status @ bs '' '' @ http_status_text status"

definition length_line :: "nat \<Rightarrow> byte list" where
  "length_line len = bs ''content-length: '' @ dec_nat len"

definition text_lines :: "http_env \<Rightarrow> http_request \<Rightarrow> conn \<Rightarrow> int \<Rightarrow> nat \<Rightarrow> byte list list" where
  "text_lines env r c status len =
     [status_line status] @
     (if proto c = CONN_PROTO_WEBSOCKET then []
      else if http_keepalive_time env \<noteq> 0 \<and> \<not> connection_close (Some r) c then
        [bs ''connection: keep-alive'', bs ''keep-alive: timeout='' @ dec_nat (http_keepalive_time env)]
      else [bs ''connection: close'']) @
     (if http_hsts_enable env \<noteq> 0
      then [bs ''strict-transport-security: '' @ bs ''max-age='' @ dec_nat (http_hsts_enable env) @ bs ''; includeSubDomains'']
      else []) @
     map (\<lambda>hdr. hdr_header hdr @ bs '': '' @ hdr_value hdr) (resp_headers r) @
     (if status \<noteq> 204 \<and> status \<ge> 200 \<and> \<not> rq_no_content_length r then [length_line len] else [])"

definition header_clean :: "http_header \<Rightarrow> bool" where
  "header_clean hdr \<longleftrightarrow> {13, 10} \<inter> (set (hdr_header hdr) \<union> set (hdr_value hdr)) = {}"

lemma concat_header_lines:
  "concat (map header_line hs) = concat (map (\<lambda>l. l @ CRLF) (map (\<lambda>hdr. hdr_header hdr @ bs '': '' @ hdr_value hdr) hs))"
  by (induction hs) (simp_all add: header_line_def)

lemma text_lines_ne: "text_lines env r c status len \<noteq> []"
  by (simp add: text_lines_def)

lemma response_text_lines:
  "response_text env (Some r) c status len = join_lines (text_lines env r c status len) @ CRLF @ CRLF"
proof -
  have "concat (response_lines env (Some r) c status len) = concat (map (\<lambda>l. l @ CRLF) (text_lines env r c status len))"
    by (auto simp: response_lines_def text_lines_def status_line_def length_line_def keepalive_lines_def hsts_lines_def
        length_lines_def concat_header_lines)
  then show ?thesis by (simp add: response_text_def concat_lines text_lines_ne)
qed

lemma text_lines_ok:
  "\<forall>hdr \<in> set (resp_headers r). header_clean hdr \<Longrightarrow> \<forall>l \<in> set (text_lines env r c status len). line_ok l"
  by (auto simp: text_lines_def line_ok_def status_line_def length_line_def header_clean_def dec_free http_status_text_free bs_def)

lemma response_frame:
  assumes "\<forall>hdr \<in> set (resp_headers r). header_clean hdr"
  shows "find_end (response_text env (Some r) c status len @ d) = Some (length (join_lines (text_lines env r c status len)), 4)"
    "drop (length (join_lines (text_lines env r c status len)) + 4) (response_text env (Some r) c status len @ d) = d"
  using find_end_join_lines [of "text_lines env r c status len" d] text_lines_ok [OF assms]
  by (simp_all add: response_text_lines text_lines_ne CRLF_def)

lemma response_ignores_status:
  "response_text env (Some (r\<lparr>rq_status := s\<rparr>)) c status len = response_text env (Some r) c status len"
  "connection_close (Some (r\<lparr>rq_status := s\<rparr>)) c = connection_close (Some r) c"
  "response_lines env (Some (r\<lparr>rq_status := s\<rparr>)) c status len = response_lines env (Some r) c status len"
proof -
  show cc: "connection_close (Some (r\<lparr>rq_status := s\<rparr>)) c = connection_close (Some r) c"
    by (simp add: connection_close_def http_request_header_def)
  show rl: "response_lines env (Some (r\<lparr>rq_status := s\<rparr>)) c status len = response_lines env (Some r) c status len"
    by (simp add: response_lines_def cc length_lines_def)
  show "response_text env (Some (r\<lparr>rq_status := s\<rparr>)) c status len = response_text env (Some r) c status len"
    by (simp add: response_text_def rl)
qed

section \<open>Parsing a request\<close>

text \<open>The text of a request without a body.\<close>

definition request_lines :: "byte list \<Rightarrow> byte list \<Rightarrow> byte list \<Rightarrow> (byte list \<times> byte list) list \<Rightarrow> byte list list" where
  "request_lines meth path host hs =
     (meth @ bs '' '' @ path @ bs '' HTTP/1.1'') # (bs ''Host: '' @ host) # map (\<lambda>(n, v). n @ bs '': '' @ v) hs"

definition request_text :: "byte list \<Rightarrow> byte list \<Rightarrow> byte list \<Rightarrow> (byte list \<times> byte list) list \<Rightarrow> byte list" where
  "request_text meth path host hs = join_lines (request_lines meth path host hs) @ CRLF @ CRLF"

definition token_ok :: "byte list \<Rightarrow> bool" where
  "token_ok s \<longleftrightarrow> s \<noteq> [] \<and> set s \<inter> {0, 10, 13, 32} = {}"

definition host_ok :: "byte list \<Rightarrow> bool" where
  "host_ok s \<longleftrightarrow> set s \<inter> {0, 10, 13, 58} = {} \<and> length s < 254"

definition pair_ok :: "byte list \<times> byte list \<Rightarrow> bool" where
  "pair_ok p \<longleftrightarrow> set (fst p) \<inter> {0, 10, 13, 58} = {} \<and> set (snd p) \<inter> {0, 10, 13} = {}"

definition header_pair :: "byte list \<times> byte list \<Rightarrow> http_header" where
  "header_pair p = \<lparr>hdr_header = fst p, hdr_value = snd p\<rparr>"

lemma method_of_token:
  assumes "method_of meth = Some m"
  shows "token_ok meth" "\<not> strncaseeq meth (bs ''host'') 4"
proof -
  have "map tolower meth \<in> {bs ''get'', bs ''delete'', bs ''post'', bs ''put'', bs ''head''}"
    using assms by (auto simp: method_of_def strcaseeq_def bs_def tolower_def split: if_splits)
  then have low: "\<forall>c \<in> set (map tolower meth). 97 \<le> c" and ne: "map tolower meth \<noteq> []"
    and t4: "take 4 (map tolower meth) \<noteq> bs ''host''"
    by (auto simp: bs_def)
  have "c \<notin> {0, 10, 13, 32}" if "c \<in> set meth" for c
  proof
    assume "c \<in> {0, 10, 13, 32}"
    then have "tolower c = c" "\<not> 97 \<le> c" by (auto simp: tolower_def)
    with low that show False by (metis image_eqI list.set_map)
  qed
  then show "token_ok meth" using ne by (auto simp: token_ok_def)
  have "map tolower (take 4 (bs ''host'')) = bs ''host''" by (simp add: bs_def tolower_def)
  then show "\<not> strncaseeq meth (bs ''host'') 4" using t4 by (simp add: strncaseeq_def take_map)
qed

lemma split_request_line:
  assumes "token_ok meth" "token_ok path"
  shows "kore_split_string (meth @ bs '' '' @ path @ bs '' HTTP/1.1'') (bs '' '') 4 = [meth, path, bs ''HTTP/1.1'']"
    "fst (strsep (meth @ bs '' '' @ path @ bs '' HTTP/1.1'') (bs '' '')) = meth"
proof -
  have "Kore_Str.fields [32] (meth @ 32 # path @ 32 # bs ''HTTP/1.1'') = meth # path # Kore_Str.fields [32] (bs ''HTTP/1.1'')"
    using assms by (auto simp: fields_delim token_ok_def)
  moreover have "Kore_Str.fields [32] (bs ''HTTP/1.1'') = [bs ''HTTP/1.1'']" by (intro fields_single) (simp add: bs_def)
  ultimately show "kore_split_string (meth @ bs '' '' @ path @ bs '' HTTP/1.1'') (bs '' '') 4 = [meth, path, bs ''HTTP/1.1'']"
    using assms by (simp add: kore_split_string_def split_loop_fields bs_def token_ok_def)
  have "fst (strsep (a @ 32 # b) [32]) = a" if "32 \<notin> set a" for a b :: "byte list"
    using that by (induction a) (auto split: prod.splits)
  then show "fst (strsep (meth @ bs '' '' @ path @ bs '' HTTP/1.1'') (bs '' '')) = meth"
    using assms by (simp add: bs_def token_ok_def)
qed

lemma find_host_line:
  assumes "host_ok host" "\<not> strncaseeq l (bs ''host'') 4"
  shows "find_host 0 (l # (bs ''Host: '' @ host) # ls) = Host 1 host"
proof -
  have "kore_split_string (bs ''Host'' @ 58 # bs '' '' @ host) [58] 3 = [bs ''Host'', bs '' '' @ host]"
    using assms(1) by (intro kore_split_two) (auto simp: host_ok_def bs_def)
  then show ?thesis using assms(2)
    by (simp add: bs_def strncaseeq_def tolower_def)
qed

lemma header_of_pair: "pair_ok p \<Longrightarrow> header_of (fst p @ bs '': '' @ snd p) = Some (header_pair p)"
proof -
  assume "pair_ok p"
  then have n: "58 \<notin> set (fst p)" by (auto simp: pair_ok_def)
  have "strchr (a @ 58 # b) 58 = Some (58 # b)" if "58 \<notin> set a" for a b :: "byte list" using that by (induction a) auto
  moreover have "takeWhile (\<lambda>c. c \<noteq> 58) (a @ 58 # b) = a" if "58 \<notin> set a" for a b :: "byte list" using that by (induction a) auto
  ultimately show ?thesis using n by (simp add: header_of_def header_pair_def bs_def)
qed

lemma add_headers_pairs:
  "\<forall>p \<in> set hs. pair_ok p \<Longrightarrow> skip < i \<Longrightarrow>
    add_headers i skip (map (\<lambda>(n, v). n @ bs '': '' @ v) hs) req = fold add_header (map header_pair hs) req"
proof (induction hs arbitrary: i req)
  case (Cons p hs)
  from Cons.prems header_of_pair [of p] have "header_of (case p of (n, v) \<Rightarrow> n @ bs '': '' @ v) = Some (header_pair p)"
    by (simp add: case_prod_beta)
  with Cons show ?case by simp
qed simp

lemma request_lines_ok:
  assumes "token_ok meth" "token_ok path" "host_ok host" "\<forall>p \<in> set hs. pair_ok p"
  shows "\<forall>l \<in> set (request_lines meth path host hs). line_ok l" "0 \<notin> set (join_lines (request_lines meth path host hs))"
proof -
  have "\<forall>l \<in> set (request_lines meth path host hs). line_ok l \<and> 0 \<notin> set l"
    using assms by (auto simp: request_lines_def line_ok_def token_ok_def host_ok_def pair_ok_def bs_def)
  moreover have "\<forall>l \<in> set ls. 0 \<notin> set l \<Longrightarrow> 0 \<notin> set (join_lines ls)" for ls
    by (induction ls rule: join_lines.induct) (auto simp: CRLF_def)
  ultimately show "\<forall>l \<in> set (request_lines meth path host hs). line_ok l" "0 \<notin> set (join_lines (request_lines meth path host hs))"
    by auto
qed

text \<open>The request that the text describes.\<close>

definition parsed_request :: "http_env \<Rightarrow> nat \<Rightarrow> byte list \<Rightarrow> byte list \<Rightarrow> int \<Rightarrow> bool \<Rightarrow> nat \<Rightarrow> (byte list \<times> byte list) list \<Rightarrow> http_request" where
  "parsed_request env owner host path m body hdlr hs = fold add_header (map header_pair hs) (new_request env owner host path m body hdlr)"

lemma fold_add_header:
  "\<exists>ag. fold add_header hs req = req\<lparr>req_headers := req_headers req @ hs, rq_agent := ag\<rparr>"
proof (induction hs arbitrary: req)
  case Nil
  show ?case by (intro exI [of _ "rq_agent req"]) simp
next
  case (Cons h hs)
  define a where "a = rq_agent (add_header h req)"
  have a: "add_header h req = req\<lparr>req_headers := req_headers req @ [h], rq_agent := a\<rparr>"
    by (simp add: a_def add_header_def Let_def)
  from Cons.IH [of "add_header h req"] show ?case by (auto simp: a)
qed

lemma parsed_request_expect [simp]:
  "rq_expect_body (parsed_request env owner host path m body hdlr hs) = body"
  "req_headers (parsed_request env owner host path m body hdlr hs) = map header_pair hs"
  using fold_add_header [of "map header_pair hs" "new_request env owner host path m body hdlr"]
  by (auto simp: parsed_request_def new_request_def)

lemma length_split_marks [simp]: "length (split_marks n tok delim s) = length s"
  by (induction n tok delim s rule: split_marks.induct) auto

lemma length_while: "length (takeWhile P s) + length (dropWhile P s) = length s"
  by (induction s) auto

lemma length_mark_string: "(\<And>s. length (f s) = length s) \<Longrightarrow> length (mark_string f s) = length s"
  using length_while [of "\<lambda>c. c \<noteq> 0" s] by (simp add: mark_string_def)

lemma length_mark_first: "length (mark_first d s) = length s"
  using length_while [of "\<lambda>c. c \<noteq> d" s] by (auto simp: mark_first_def split: list.split)

lemma length_token_marks: "length (token_marks rq hst sk i s) = length s"
  by (auto simp: token_marks_def Let_def length_mark_string length_mark_first split: option.split)

lemma length_mark_tokens:
  "(\<And>i s. length (f i s) = length s) \<Longrightarrow> ss \<noteq> [] \<Longrightarrow> Suc (length (mark_tokens i f ss)) = sum_list (map length ss) + length ss"
  by (induction i f ss rule: mark_tokens.induct) auto

lemma length_fields: "sum_list (map length (Kore_Str.fields delim s)) + length (Kore_Str.fields delim s) = Suc (length s) \<and> Kore_Str.fields delim s \<noteq> []"
  by (induction s) (auto split: list.splits)

lemma mark_header_frame:
  assumes "rnb c = Some nb" "length hb \<le> length (nb_buf nb)"
  shows "\<exists>buf. length buf = length (nb_buf nb) \<and> mark_header q hst sk e hb c = c\<lparr>rnb := Some (nb\<lparr>nb_buf := buf\<rparr>)\<rparr>"
proof -
  let ?m = "mark_tokens 0 (token_marks q hst sk) (Kore_Str.fields [0] (split_marks (HTTP_REQ_HEADER_MAX - 1) False CRLF hb))"
  have "length ?m = length hb"
    using length_mark_tokens [of "token_marks q hst sk" "Kore_Str.fields [0] (split_marks (HTTP_REQ_HEADER_MAX - 1) False CRLF hb)" 0]
      length_fields [of "[0]" "split_marks (HTTP_REQ_HEADER_MAX - 1) False CRLF hb"] by (simp add: length_token_marks)
  then show ?thesis using assms
    by (intro exI [of _ "memcpy_at ((nb_buf nb)[e := 0]) 0 ?m"]) (simp add: mark_header_def Let_def memcpy_at_def)
qed

text \<open>A complete header: what it says, up to the point where the request exists.\<close>

lemma header_text_parse:
  assumes "method_of meth = Some (m, body)" "token_ok path" "host_ok host" "\<forall>p \<in> set hs. pair_ok p" "length hs \<le> 22"
  shows "find_end (request_text meth path host hs @ d) = Some (length (join_lines (request_lines meth path host hs)), 4)"
    "takeWhile (\<lambda>x. x \<noteq> 0) (take (length (join_lines (request_lines meth path host hs))) (request_text meth path host hs @ d)) =
       join_lines (request_lines meth path host hs)"
    "kore_split_string (join_lines (request_lines meth path host hs)) CRLF HTTP_REQ_HEADER_MAX = request_lines meth path host hs"
    "drop (length (join_lines (request_lines meth path host hs)) + 4) (request_text meth path host hs @ d) = d"
proof -
  note ok = request_lines_ok [OF method_of_token(1) [OF assms(1)] assms(2-4)]
  have ne: "request_lines meth path host hs \<noteq> []" by (simp add: request_lines_def)
  show "find_end (request_text meth path host hs @ d) = Some (length (join_lines (request_lines meth path host hs)), 4)"
    using find_end_join_lines [OF ne ok(1), of d] by (simp add: request_text_def)
  show "takeWhile (\<lambda>x. x \<noteq> 0) (take (length (join_lines (request_lines meth path host hs))) (request_text meth path host hs @ d)) =
      join_lines (request_lines meth path host hs)"
    using ok(2) by (simp add: request_text_def takeWhile_eq_all_conv) (metis)
  show "kore_split_string (join_lines (request_lines meth path host hs)) CRLF HTTP_REQ_HEADER_MAX = request_lines meth path host hs"
    using ne ok(1) assms(5) by (intro split_join_lines) (simp_all add: request_lines_def HTTP_REQ_HEADER_MAX_def)
  show "drop (length (join_lines (request_lines meth path host hs)) + 4) (request_text meth path host hs @ d) = d"
    by (simp add: request_text_def CRLF_def)
qed

text \<open>The state after the creation of the request.\<close>

definition add_request :: "http \<Rightarrow> nat \<Rightarrow> http_request \<Rightarrow> http" where
  "add_request h a req = h\<lparr>reqs := (reqs h)(a \<mapsto> req), http_request_count := http_request_count h + 1,
     http_requests := a # http_requests h\<rparr>"

lemma http_header_recv_parse:
  assumes nb: "rnb c = Some nb" "4 \<le> b_len nb" "take (s_off nb) (nb_buf nb) = request_text meth path host hs @ d"
    and meth: "method_of meth = Some (m, body)" and path: "token_ok path" "length path < 1999" and host: "host_ok host"
    and hs: "\<forall>p \<in> set hs. pair_ok p" "length hs \<le> 22"
    and hdlr: "kore_module_handler_find env host (takeWhile (\<lambda>c. c \<noteq> ch (CHR ''?'')) path) = Some hdlr"
  shows "\<exists>buf. length buf = length (nb_buf nb) \<and> http_header_recv env a h c =
    (let req = parsed_request env (cid c) host path m body hdlr hs;
         c1 = c\<lparr>c_http_requests := c_http_requests c @ [a], rnb := Some (nb\<lparr>nb_buf := buf\<rparr>)\<rparr> in
     if body then body_setup env (add_request h a req) c1 a req d
     else Inr (KORE_RESULT_OK, add_request h a req, c1))"
proof -
  define B where "B = request_text meth path host hs @ d"
  note p = header_text_parse(1,2,4) [OF meth path(1) host hs, of d, folded B_def] header_text_parse(3) [OF meth path(1) host hs]
  let ?L = "request_lines meth path host hs" and ?hb = "join_lines (request_lines meth path host hs)"
  let ?e = "length ?hb"
  have l0: "?L ! 0 = meth @ bs '' '' @ path @ bs '' HTTP/1.1''" by (simp add: request_lines_def)
  note sp = split_request_line [OF method_of_token(1) [OF meth] path(1)]
  have fh: "find_host 0 (?L[0 := meth]) = Host 1 host"
    using find_host_line [OF host method_of_token(2) [OF meth]] by (simp add: request_lines_def)
  have "length (take (s_off nb) (nb_buf nb)) = length (request_text meth path host hs @ d)" by (simp only: nb(3))
  then have lhb: "length ?hb \<le> length (nb_buf nb)" by (simp add: request_text_def)
  obtain b1 where b1: "length b1 = length (nb_buf nb)" "mark_header True (Some 1) None ?e ?hb c = c\<lparr>rnb := Some (nb\<lparr>nb_buf := b1\<rparr>)\<rparr>"
    using mark_header_frame [OF nb(1) lhb] by blast
  let ?c1 = "c\<lparr>rnb := Some (nb\<lparr>nb_buf := b1\<rparr>), c_http_requests := c_http_requests c @ [a]\<rparr>"
  have new: "http_request_new env a h (c\<lparr>rnb := Some (nb\<lparr>nb_buf := b1\<rparr>)\<rparr>) host meth path (bs ''HTTP/1.1'') =
      Inr (Some a, add_request h a (new_request env (cid c) host path m body hdlr), ?c1)"
    using path(2) host hdlr meth
    by (simp add: http_request_new_def KORE_DOMAINNAME_LEN_def HTTP_URI_LEN_def host_ok_def strcaseeq_def tolower_def bs_def
        add_request_def)
  have ah: "add_headers 1 1 (tl ?L) (new_request env (cid c) host path m body hdlr) = parsed_request env (cid c) host path m body hdlr hs"
    using add_headers_pairs [OF hs(1), of "Suc 0" "Suc (Suc 0)"] by (simp add: request_lines_def parsed_request_def)
  have "\<exists>buf. length buf = length (nb_buf (nb\<lparr>nb_buf := b1\<rparr>)) \<and>
      mark_header True (Some 1) (Some 1) ?e ?hb ?c1 = ?c1\<lparr>rnb := Some (nb\<lparr>nb_buf := b1\<rparr>\<lparr>nb_buf := buf\<rparr>)\<rparr>"
    by (rule mark_header_frame) (simp_all add: b1(1) lhb)
  then obtain b2 where lb2: "length b2 = length (nb_buf nb)" and b2: "mark_header True (Some 1) (Some 1) ?e ?hb ?c1 =
      c\<lparr>c_http_requests := c_http_requests c @ [a], rnb := Some (nb\<lparr>nb_buf := b2\<rparr>)\<rparr>" by (auto simp: b1(1))
  have two: "\<not> length ?L < 2" by (simp add: request_lines_def)
  have set: "set_req (add_request h a r) a r' = add_request h a r'" for r r' by (simp add: set_req_def add_request_def)
  have get: "reqs (add_request h a r) a = Some r" for r by (simp add: add_request_def)
  have "http_header_recv env a h c = header_complete env a h c B ?e 4"
    using nb p(1) by (simp add: http_header_recv_def B_def)
  also have "\<dots> = (let req = parsed_request env (cid c) host path m body hdlr hs;
         c1 = c\<lparr>c_http_requests := c_http_requests c @ [a], rnb := Some (nb\<lparr>nb_buf := b2\<rparr>)\<rparr> in
     if body then body_setup env (add_request h a req) c1 a req d
     else Inr (KORE_RESULT_OK, add_request h a req, c1))"
    using two by (simp add: header_complete_def p l0 sp fh b1(2) new ah b2 set get Let_def
        sp(1) [unfolded l0 [symmetric]] del: One_nat_def)
  finally show ?thesis using lb2 by blast
qed

section \<open>A request in pieces\<close>

text \<open>The receive callbacks by name. \<open>alloc\<close> gives the address the request pool hands out next; the callbacks of
  other components are a parameter.\<close>

definition http_callback ::
    "http_env \<Rightarrow> (http \<Rightarrow> nat) \<Rightarrow> (net_cb \<Rightarrow> http \<Rightarrow> conn \<Rightarrow> (int \<times> http \<times> conn) res) \<Rightarrow>
      net_cb \<Rightarrow> http \<Rightarrow> conn \<Rightarrow> (int \<times> http \<times> conn) res" where
  "http_callback env alloc other k h c =
     (case k of
        Http_header_recv \<Rightarrow> http_header_recv env (alloc h) h c
      | Http_body_recv \<Rightarrow> http_body_recv env h c
      | _ \<Rightarrow> other k h c)"

lemma join_lines_no_lflf:
  "\<forall>l \<in> set ls. line_ok l \<Longrightarrow> ls \<noteq> [] \<Longrightarrow> first_occ [10, 10] (join_lines ls @ CRLF @ CRLF) = None \<and> hd (join_lines ls) \<noteq> 10 \<and> join_lines ls \<noteq> []"
proof (induction ls rule: join_lines.induct)
  case (2 l)
  then have "10 \<notin> set l" "l \<noteq> []" by (auto simp: line_ok_def)
  moreover from this have "hd l \<noteq> 10" by (cases l) auto
  ultimately show ?case using first_occ_free [of 10 l "[10]" "CRLF @ CRLF"] by (auto simp: CRLF_def)
next
  case (3 l l2 ls)
  let ?r = "join_lines (l2 # ls) @ CRLF @ CRLF"
  have l: "10 \<notin> set l" "l \<noteq> []" using "3.prems" by (auto simp: line_ok_def)
  then have "hd l \<noteq> 10" by (cases l) auto
  note l = l this
  have r: "first_occ [10, 10] ?r = None" "hd ?r \<noteq> 10" "?r \<noteq> []" using 3 by auto
  then have "first_occ [10, 10] (13 # 10 # ?r) = None" by (cases ?r) auto
  then show ?case using first_occ_free [OF l(1), of "[10]" "13 # 10 # ?r"] l by (auto simp: CRLF_def)
qed simp

lemma find_end_partial:
  assumes "ls \<noteq> []" "\<forall>l \<in> set ls. line_ok l" "join_lines ls @ CRLF @ CRLF = p @ q" "q \<noteq> []"
  shows "find_end p = None"
proof -
  have whole: "first_occ [13, 10, 13, 10] (p @ q) = Some (length (join_lines ls))"
    using first_occ_join_lines [OF assms(1,2), of "[]"] assms(3) by (simp add: CRLF_def)
  have "first_occ [13, 10, 13, 10] p = None"
  proof (rule ccontr)
    assume "first_occ [13, 10, 13, 10] p \<noteq> None"
    then obtain k where k: "first_occ [13, 10, 13, 10] p = Some k" by blast
    with first_occ_append [OF _ k, of q] whole have "k = length (join_lines ls)" by simp
    moreover have "k + 4 \<le> length p" using first_occ_bound [OF _ k] by simp
    moreover have "length (join_lines ls) + 4 = length p + length q"
      using arg_cong [OF assms(3), of length] by (simp add: CRLF_def)
    ultimately show False using assms(4) by (cases q) auto
  qed
  moreover have "first_occ [10, 10] p = None"
  proof (rule ccontr)
    assume "first_occ [10, 10] p \<noteq> None"
    then obtain k where "first_occ [10, 10] p = Some k" by blast
    from first_occ_append [OF _ this, of q] join_lines_no_lflf [OF assms(2,1)] assms(3) show False by simp
  qed
  ultimately show ?thesis by (simp add: find_end_def kore_mem_find_eq)
qed

text \<open>A connection that waits for a header, with \<open>got\<close> received so far.\<close>

definition header_wait :: "conn \<Rightarrow> byte list \<Rightarrow> bool" where
  "header_wait c got \<longleftrightarrow> (\<exists>nb. rnb c = Some nb \<and> recv_ok nb \<and> m_len nb = length (nb_buf nb) \<and> nb_call_always nb \<and>
     nb_cb nb = Some Http_header_recv \<and> 4 \<le> b_len nb \<and> take (s_off nb) (nb_buf nb) = got) \<and> read_possible c"

definition header_space :: "conn \<Rightarrow> nat" where
  "header_space c = (case rnb c of None \<Rightarrow> 0 | Some nb \<Rightarrow> b_len nb - s_off nb)"

lemma header_turn:
  assumes "header_wait c got" "length d \<le> header_space c"
  shows "\<exists>c1. header_wait c1 (got @ d) \<and> header_space c1 = header_space c - length d \<and> (\<exists>b. c1 = c\<lparr>rnb := b\<rparr>) \<and>
    recv_loop (http_callback env alloc other) h c (Rd d # rs) =
      rbind (http_header_recv env (alloc h) h c1) (after_call (http_callback env alloc other) rs)"
proof -
  from assms(1) obtain nb where nb: "rnb c = Some nb" "recv_ok nb" "m_len nb = length (nb_buf nb)" "nb_call_always nb"
    "nb_cb nb = Some Http_header_recv" "4 \<le> b_len nb" "take (s_off nb) (nb_buf nb) = got" "read_possible c"
    by (auto simp: header_wait_def)
  have so: "s_off nb \<le> b_len nb" "b_len nb \<le> length (nb_buf nb)" using nb(2) by (auto simp: recv_ok_def)
  have fit: "s_off nb + length d \<le> b_len nb" using assms(2) nb(1) so by (simp add: header_space_def)
  let ?nb = "nb\<lparr>nb_buf := memcpy_at (nb_buf nb) (s_off nb) d, s_off := s_off nb + length d\<rparr>"
  let ?c = "c\<lparr>rnb := Some ?nb\<rparr>"
  have "header_wait ?c (got @ d)" using nb so fit
    by (auto simp: header_wait_def recv_ok_def)
  moreover have "header_space ?c = header_space c - length d" using nb(1) by (simp add: header_space_def)
  moreover have "recv_loop (http_callback env alloc other) h c (Rd d # rs) =
      rbind (http_header_recv env (alloc h) h ?c) (after_call (http_callback env alloc other) rs)"
    using net_recv_turn_data [OF nb(1,2,8) fit, of "http_callback env alloc other" h] nb(4,5,8)
    by (simp add: recv_loop.simps [of _ h c] Let_def http_callback_def [of env alloc other Http_header_recv] after_call_def rbind_def
        split: sum.splits)
  ultimately show ?thesis by blast
qed

lemma http_header_recv_partial:
  assumes "header_wait c got" "find_end got = None"
  shows "http_header_recv env a h c = Inr (KORE_RESULT_OK, h, c)"
  using assms by (auto simp: header_wait_def http_header_recv_def)

lemma recv_header_pieces:
  assumes "ls \<noteq> []" "\<forall>l \<in> set ls. line_ok l"
  shows "header_wait c got \<Longrightarrow> got @ concat ps @ q = (join_lines ls @ CRLF @ CRLF) @ d \<Longrightarrow>
    length (got @ concat ps) < length (join_lines ls @ CRLF @ CRLF) \<Longrightarrow> length (concat ps @ q) \<le> header_space c \<Longrightarrow>
    \<exists>c1. header_wait c1 ((join_lines ls @ CRLF @ CRLF) @ d) \<and> (\<exists>b. c1 = c\<lparr>rnb := b\<rparr>) \<and>
      recv_loop (http_callback env alloc other) h c (map Rd ps @ Rd q # rs) =
        rbind (http_header_recv env (alloc h) h c1) (after_call (http_callback env alloc other) rs)"
proof (induction ps arbitrary: c got)
  case Nil
  from header_turn [OF Nil.prems(1), of q env alloc other h rs] Nil.prems(2,4) show ?case by auto
next
  case (Cons p ps)
  have "length p \<le> header_space c" using Cons.prems(4) by simp
  from header_turn [OF Cons.prems(1) this, of env alloc other h "map Rd ps @ Rd q # rs"] obtain c1 b where
    t: "header_wait c1 (got @ p)" "header_space c1 = header_space c - length p" "c1 = c\<lparr>rnb := b\<rparr>"
      "recv_loop (http_callback env alloc other) h c (Rd p # map Rd ps @ Rd q # rs) =
        rbind (http_header_recv env (alloc h) h c1) (after_call (http_callback env alloc other) (map Rd ps @ Rd q # rs))" by blast
  let ?T = "join_lines ls @ CRLF @ CRLF"
  have lt: "length (got @ p) < length ?T" using Cons.prems(3) by simp
  have "take (length (got @ p)) (?T @ d) = got @ p" using Cons.prems(2) [symmetric] by simp
  with lt have "?T = (got @ p) @ drop (length (got @ p)) ?T"
    by (metis append_take_drop_id take_append diff_is_0_eq' less_imp_le take0 append_Nil2)
  moreover have "drop (length (got @ p)) ?T \<noteq> []" using lt by (simp only: drop_eq_Nil not_le not_False_eq_True)
  ultimately have fe: "find_end (got @ p) = None" by (rule find_end_partial [OF assms])
  have "\<exists>c2. header_wait c2 (?T @ d) \<and> (\<exists>b. c2 = c1\<lparr>rnb := b\<rparr>) \<and>
      recv_loop (http_callback env alloc other) h c1 (map Rd ps @ Rd q # rs) =
        rbind (http_header_recv env (alloc h) h c2) (after_call (http_callback env alloc other) rs)"
    using Cons.prems by (intro Cons.IH [OF t(1)]) (auto simp: t(2))
  then show ?case using t(3,4) http_header_recv_partial [OF t(1) fe] by (auto simp: after_call_def)
qed

section \<open>A body in pieces\<close>

text \<open>What the reception of the body keeps of a request.\<close>

definition same_head :: "http_request \<Rightarrow> http_request \<Rightarrow> bool" where
  "same_head r r' \<longleftrightarrow> rq_method r' = rq_method r \<and> rq_host r' = rq_host r \<and> rq_path r' = rq_path r \<and>
     query_string r' = query_string r \<and> req_headers r' = req_headers r \<and> rq_owner r' = rq_owner r \<and> rq_hdlr r' = rq_hdlr r"

text \<open>A connection in the middle of a body: \<open>got\<close> is in the buffer, \<open>n\<close> bytes are missing.\<close>

definition body_wait :: "http \<Rightarrow> conn \<Rightarrow> nat \<Rightarrow> http_request \<Rightarrow> byte list \<Rightarrow> nat \<Rightarrow> bool" where
  "body_wait h c r req0 got n \<longleftrightarrow>
     (\<exists>req b. reqs h r = Some req \<and> same_head req0 req \<and> rq_sleeping req \<and> http_body_fd req = None \<and> http_body req = Some b \<and>
        buf_ok b \<and> bdata b \<noteq> None \<and> buf_contents b = got \<and> blength b + n < 2 ^ 64 \<and> content_length req = n \<and>
        http_body_length req = length got + n) \<and>
     0 < n \<and> rnb_extra c = Some r \<and> read_possible c \<and>
     (\<exists>nb. rnb c = Some nb \<and> recv_ok nb \<and> m_len nb = length (nb_buf nb) \<and> nb_call_always nb \<and> nb_cb nb = Some Http_body_recv \<and>
        s_off nb = 0 \<and> b_len nb = min n NETBUF_SEND_PAYLOAD_MAX)"

text \<open>The request is complete and its body can be read from the start.\<close>

definition body_done :: "http \<Rightarrow> nat \<Rightarrow> http_request \<Rightarrow> byte list \<Rightarrow> bool" where
  "body_done h r req0 got \<longleftrightarrow>
     (\<exists>req. reqs h r = Some req \<and> same_head req0 req \<and> rq_complete req \<and> \<not> rq_expect_body req \<and> \<not> rq_sleeping req \<and>
        body_ok req \<and> body_rest req = got \<and> content_length req = length got)"

lemma body_turn:
  assumes "body_wait h c r req0 got n" "d \<noteq> []" "length d \<le> n" "length d \<le> NETBUF_SEND_PAYLOAD_MAX" "4 \<le> http_header_max env"
  shows "\<exists>h' c'. recv_loop (http_callback env alloc other) h c (Rd d # rs) = recv_loop (http_callback env alloc other) h' c' rs \<and>
    (if length d = n then body_done h' r req0 (got @ d) \<and> header_wait c' [] else body_wait h' c' r req0 (got @ d) (n - length d)) \<and>
    (\<forall>r'. r' \<noteq> r \<longrightarrow> reqs h' r' = reqs h r')"
proof -
  let ?cb = "http_callback env alloc other" and ?j = "e_junk env"
  from assms(1) obtain req b nb where
    q: "reqs h r = Some req" "same_head req0 req" "rq_sleeping req" "http_body_fd req = None" "http_body req = Some b" "buf_ok b"
      "bdata b \<noteq> None" "buf_contents b = got" "blength b + n < 2 ^ 64" "content_length req = n" "http_body_length req = length got + n"
    and c: "0 < n" "rnb_extra c = Some r" "read_possible c"
    and nb: "rnb c = Some nb" "recv_ok nb" "m_len nb = length (nb_buf nb)" "nb_call_always nb" "nb_cb nb = Some Http_body_recv"
      "s_off nb = 0" "b_len nb = min n NETBUF_SEND_PAYLOAD_MAX" by (auto simp: body_wait_def)
  have fit: "s_off nb + length d \<le> b_len nb" using assms(3,4) nb(6,7) by simp
  let ?nb = "nb\<lparr>nb_buf := memcpy_at (nb_buf nb) (s_off nb) d, s_off := s_off nb + length d\<rparr>"
  let ?c = "c\<lparr>rnb := Some ?nb\<rparr>"
  have lb: "length d \<le> length (nb_buf nb)" using fit nb(2,6) by (auto simp: recv_ok_def)
  have step: "recv_loop ?cb h c (Rd d # rs) = rbind (http_body_recv env h ?c) (after_call ?cb rs)"
    using net_recv_turn_data [OF nb(1,2) c(3) fit, of ?cb h] nb(4,5) c(3)
    by (simp add: recv_loop.simps [of _ h c] Let_def http_callback_def [of env alloc other Http_body_recv] after_call_def rbind_def
        split: sum.splits)
  have got: "take (s_off ?nb) (nb_buf ?nb) = d" using lb nb(6) by (simp add: memcpy_at_def)
  have room: "blength b + length d < 2 ^ 64" using q(9) assms(3) by simp
  from kore_buf_append_ok [OF q(6), of d ?j] room obtain b1 where
    b1: "kore_buf_append ?j b d = Inr b1" "buf_ok b1" "buf_contents b1 = got @ d" "blength b1 \<le> blength b + length d"
    by (auto simp: buf_room_def q(8))
  obtain xs where xs: "bdata b1 = Some xs" using b1(3) assms(2) by (auto simp: buf_contents_def split: option.splits)
  have off: "boffset b1 = length got + length d" using length_buf_contents [OF b1(2)] b1(3) by simp
  have n64: "n < 2 ^ 64" using q(9) by simp
  have left: "wsub64 (content_length req) (s_off ?nb) = n - length d" using assms(3) n64 q(10) nb(6) by simp
  define req1 where "req1 = req\<lparr>http_body := Some b1, content_length := n - length d\<rparr>"
  have nbq: "rnb ?c = Some ?nb" "nb_type ?nb = NETBUF_RECV" using nb(2) by (simp_all add: recv_ok_def)
  have recv: "http_body_recv env h ?c = (if n - length d = 0 then
       rbind (http_request_wakeup (set_req h r req1) r) (\<lambda>h1.
         case reqs h1 r of None \<Rightarrow> Inl Null_deref
         | Some req3 \<Rightarrow>
             let req4 = req3\<lparr>rq_complete := True, rq_expect_body := False, content_length := http_body_length req3\<rparr>;
                 c1 = ?c\<lparr>rnb_extra := None\<rparr> in
             rbind (http_body_rewind (e_lseek_ok env) req4) (\<lambda>(ret, req5).
               if ret = KORE_RESULT_ERROR then fail_request env h1 c1 r req5 500 KORE_RESULT_ERROR
               else rbind (net_recv_reset ?j c1 (http_header_max env) Http_header_recv) (\<lambda>c2.
                 Inr (KORE_RESULT_OK, set_req h1 r req5, c2))))
     else rbind (net_recv_reset ?j ?c (min (n - length d) NETBUF_SEND_PAYLOAD_MAX) Http_body_recv) (\<lambda>c1.
            Inr (KORE_RESULT_OK, set_req h r req1, c1)))"
    using q(1,4,5) c(2) got b1(1) left by (simp add: http_body_recv_def Let_def req1_def)
  show ?thesis
  proof (cases "length d = n")
    case False
    then have lt: "length d < n" using assms(3) by simp
    have pos: "0 < min (n - length d) NETBUF_SEND_PAYLOAD_MAX" using lt by (simp add: NETBUF_SEND_PAYLOAD_MAX_def)
    from net_recv_reset_ok [OF nbq pos, of ?j Http_body_recv] obtain nb2 where
      n2: "net_recv_reset ?j ?c (min (n - length d) NETBUF_SEND_PAYLOAD_MAX) Http_body_recv = Inr (?c\<lparr>rnb := Some nb2\<rparr>)"
        "nb_cb nb2 = Some Http_body_recv" "s_off nb2 = 0" "b_len nb2 = min (n - length d) NETBUF_SEND_PAYLOAD_MAX"
        "nb_call_always nb2" "m_len nb2 = length (nb_buf nb2)" "recv_ok nb2"
      using nb(3,4,6) lb by auto
    have "recv_loop ?cb h c (Rd d # rs) = recv_loop ?cb (set_req h r req1) (c\<lparr>rnb := Some nb2\<rparr>) rs"
      using step recv n2(1) lt by (simp add: after_call_def)
    moreover have "body_wait (set_req h r req1) (c\<lparr>rnb := Some nb2\<rparr>) r req0 (got @ d) (n - length d)"
      using q b1 n2 lt c assms(3) xs by (auto simp: body_wait_def set_req_def req1_def same_head_def)
    ultimately show ?thesis using False
      by (intro exI [of _ "set_req h r req1"] exI [of _ "c\<lparr>rnb := Some nb2\<rparr>"]) (simp add: set_req_def)
  next
    case True
    let ?req2 = "req1\<lparr>rq_sleeping := False\<rparr>"
    let ?h1 = "(set_req (set_req h r req1) r ?req2)\<lparr>http_requests_sleeping := remove1 r (http_requests_sleeping h),
      http_requests := http_requests h @ [r]\<rparr>"
    let ?req5 = "?req2\<lparr>rq_complete := True, rq_expect_body := False, content_length := length got + n, http_body := Some (kore_buf_reset b1)\<rparr>"
    have wk: "http_request_wakeup (set_req h r req1) r = Inr ?h1"
      using q(3) by (simp add: http_request_wakeup_def set_req_def req1_def)
    have rw: "http_body_rewind (e_lseek_ok env) (?req2\<lparr>rq_complete := True, rq_expect_body := False, content_length := http_body_length ?req2\<rparr>)
        = Inr (KORE_RESULT_OK, ?req5)"
      using q(4,11) by (simp add: http_body_rewind_def req1_def)
    from net_recv_reset_ok [of "?c\<lparr>rnb_extra := None\<rparr>" ?nb "http_header_max env" ?j Http_header_recv] nbq assms(5) obtain nb2 where
      n2: "net_recv_reset ?j (?c\<lparr>rnb_extra := None\<rparr>) (http_header_max env) Http_header_recv = Inr (?c\<lparr>rnb_extra := None, rnb := Some nb2\<rparr>)"
        "nb_cb nb2 = Some Http_header_recv" "s_off nb2 = 0" "b_len nb2 = http_header_max env"
        "nb_call_always nb2" "m_len nb2 = length (nb_buf nb2)" "recv_ok nb2"
      using nb(3,4,6) lb by auto
    let ?c2 = "?c\<lparr>rnb_extra := None, rnb := Some nb2\<rparr>" and ?h2 = "set_req ?h1 r ?req5"
    have get: "reqs ?h1 r = Some ?req2" by (simp add: set_req_def)
    have "http_body_recv env h ?c = Inr (KORE_RESULT_OK, ?h2, ?c2)"
      using recv True wk rw n2(1) get by (simp add: Let_def)
    then have "recv_loop ?cb h c (Rd d # rs) = recv_loop ?cb ?h2 ?c2 rs" using step by (simp add: after_call_def)
    moreover have "header_wait ?c2 []" using n2 c(3) assms(5) by (simp add: header_wait_def)
    moreover have "body_done ?h2 r req0 (got @ d)"
    proof -
      have "take (length got + n) xs = got @ d" using b1(3) xs off True by (simp add: buf_contents_def)
      moreover have "length got + n \<le> length xs" using b1(2) xs off True by (auto simp: buf_ok_def)
      ultimately show ?thesis using q(2,4,11) xs True
        by (auto simp: body_done_def set_req_def body_ok_def body_rest_def req1_def same_head_def kore_buf_reset_def)
    qed
    ultimately show ?thesis using True by (intro exI [of _ ?h2] exI [of _ ?c2]) (simp add: set_req_def)
  qed
qed

text \<open>Pieces a body of \<open>n\<close> bytes may arrive in.\<close>

fun chunks_fit :: "nat \<Rightarrow> byte list list \<Rightarrow> bool" where
  "chunks_fit n [] \<longleftrightarrow> n = 0"
| "chunks_fit n (d # ds) \<longleftrightarrow> d \<noteq> [] \<and> length d \<le> n \<and> length d \<le> NETBUF_SEND_PAYLOAD_MAX \<and> chunks_fit (n - length d) ds"

lemma recv_body_pieces:
  assumes "4 \<le> http_header_max env"
  shows "body_wait h c r req0 got n \<Longrightarrow> chunks_fit n ds \<Longrightarrow>
    \<exists>h' c'. recv_loop (http_callback env alloc other) h c (map Rd ds @ rs) = recv_loop (http_callback env alloc other) h' c' rs \<and>
      body_done h' r req0 (got @ concat ds) \<and> header_wait c' [] \<and> (\<forall>r'. r' \<noteq> r \<longrightarrow> reqs h' r' = reqs h r')"
proof (induction ds arbitrary: h c got n)
  case Nil
  then show ?case by (simp add: body_wait_def)
next
  case (Cons d ds)
  from Cons.prems(2) have d: "d \<noteq> []" "length d \<le> n" "length d \<le> NETBUF_SEND_PAYLOAD_MAX" "chunks_fit (n - length d) ds" by auto
  from body_turn [OF Cons.prems(1) d(1-3) assms, of alloc other "map Rd ds @ rs"] obtain h1 c1 where
    t: "recv_loop (http_callback env alloc other) h c (Rd d # map Rd ds @ rs) = recv_loop (http_callback env alloc other) h1 c1 (map Rd ds @ rs)"
      "if length d = n then body_done h1 r req0 (got @ d) \<and> header_wait c1 [] else body_wait h1 c1 r req0 (got @ d) (n - length d)"
      "\<forall>r'. r' \<noteq> r \<longrightarrow> reqs h1 r' = reqs h r'" by blast
  show ?case
  proof (cases "length d = n")
    case True
    then have "ds = []" using d(4) by (cases ds) auto
    with t True show ?thesis by auto
  next
    case False
    with t(2) have "body_wait h1 c1 r req0 (got @ d) (n - length d)" by simp
    from Cons.IH [OF this d(4)] t(1,3) show ?thesis by auto
  qed
qed

text \<open>The start of a body kept in memory.\<close>

lemma body_setup_memory:
  assumes nb: "rnb c = Some nb" "recv_ok nb" "m_len nb = length (nb_buf nb)" "nb_call_always nb" "read_possible c"
    and req: "reqs h r = Some req" "\<not> rq_sleeping req" "http_body_fd req = None"
    and cl: "http_request_header req (bs ''content-length'') = Some p" "kore_strtonum p 10 0 LONG_MAX = (int n, KORE_RESULT_OK)"
    and n: "0 < n" "n \<le> http_body_max env" "http_body_disk_offload env = 0" "n < 2 ^ 62" and d: "length d \<le> n"
  shows "\<exists>h' c'. body_setup env h c r req d = Inr (KORE_RESULT_OK, h', c') \<and>
    (if length d = n then body_done h' r req d \<and> c' = c else body_wait h' c' r req d (n - length d)) \<and>
    (\<forall>r'. r' \<noteq> r \<longrightarrow> reqs h' r' = reqs h r')"
proof -
  let ?j = "e_junk env"
  from kore_buf_alloc_ok [of n ?j] n(4) obtain b where
    b: "kore_buf_alloc ?j n = Inr b" "buf_ok b" "buf_contents b = []" "blength b = n" by auto
  from kore_buf_append_ok [OF b(2), of d ?j] b(3,4) d n(4) obtain b1 where
    b1: "kore_buf_append ?j b d = Inr b1" "buf_ok b1" "buf_contents b1 = d" "blength b1 \<le> n + length d" by (auto simp: buf_room_def)
  have off: "boffset b1 = length d" using length_buf_contents [OF b1(2)] b1(3) by simp
  have "bdata b \<noteq> None" using b(2,4) n(1) by (auto simp: buf_ok_def split: option.splits)
  then have bd: "bdata b1 \<noteq> None" using b1(1)
    by (auto simp: kore_buf_append_def kore_buf_reserve_def rbind_eq_Inr Let_def split: if_splits option.splits)
  let ?req = "req\<lparr>content_length := n, http_body_length := n, http_body_fd := None, http_body := Some b1\<rparr>"
  have st: "body_setup env h c r req d = body_start env h c r ?req d"
    using n cl b(1) b1(1) by (simp add: body_setup_def Let_def)
  have left: "wsub64 (content_length ?req) (length d) = n - length d" using d n(4) by simp
  show ?thesis
  proof (cases "length d = n")
    case True
    obtain xs where xs: "bdata b1 = Some xs" using bd by blast
    have "take n xs = d" "n \<le> length xs" using b1(2,3) xs off True by (auto simp: buf_contents_def buf_ok_def)
    then have "body_done (set_req h r (?req\<lparr>rq_complete := True, rq_expect_body := False, http_body := Some (kore_buf_reset b1)\<rparr>)) r req d"
      using req(2) xs True by (auto simp: body_done_def set_req_def body_ok_def body_rest_def same_head_def kore_buf_reset_def)
    moreover have "body_start env h c r ?req d =
        Inr (KORE_RESULT_OK, set_req h r (?req\<lparr>rq_complete := True, rq_expect_body := False, http_body := Some (kore_buf_reset b1)\<rparr>), c)"
      using left True by (simp add: body_start_def http_body_rewind_def Let_def)
    ultimately show ?thesis using st True by (auto simp: set_req_def)
  next
    case False
    then have lt: "length d < n" using d by simp
    have pos: "0 < min (n - length d) NETBUF_SEND_PAYLOAD_MAX" using lt by (simp add: NETBUF_SEND_PAYLOAD_MAX_def)
    have ty: "nb_type nb = NETBUF_RECV" using nb(2) by (simp add: recv_ok_def)
    from net_recv_reset_ok [OF nb(1) ty pos, of ?j Http_body_recv] nb(3,4) obtain nb2 where
      n2: "net_recv_reset ?j c (min (n - length d) NETBUF_SEND_PAYLOAD_MAX) Http_body_recv = Inr (c\<lparr>rnb := Some nb2\<rparr>)"
        "nb_cb nb2 = Some Http_body_recv" "s_off nb2 = 0" "b_len nb2 = min (n - length d) NETBUF_SEND_PAYLOAD_MAX"
        "nb_call_always nb2" "m_len nb2 = length (nb_buf nb2)" "recv_ok nb2" by auto
    let ?h1 = "(set_req (set_req h r ?req) r (?req\<lparr>rq_sleeping := True\<rparr>))
      \<lparr>http_requests := remove1 r (http_requests h), http_requests_sleeping := http_requests_sleeping h @ [r]\<rparr>"
    have sl: "http_request_sleep (set_req h r ?req) r = Inr ?h1" using req(2) by (simp add: http_request_sleep_def set_req_def)
    have get: "reqs ?h1 r = Some (?req\<lparr>rq_sleeping := True\<rparr>)" by (simp add: set_req_def)
    let ?h2 = "set_req ?h1 r (?req\<lparr>rq_sleeping := True, content_length := n - length d\<rparr>)" and ?c2 = "c\<lparr>rnb := Some nb2, rnb_extra := Some r\<rparr>"
    have "body_start env h c r ?req d = Inr (KORE_RESULT_OK, ?h2, ?c2)"
      using left lt n2(1) sl get by (simp add: body_start_def)
    moreover have "body_wait ?h2 ?c2 r req d (n - length d)"
      using b1 bd n2 lt n(4) nb(5) by (auto simp: body_wait_def set_req_def same_head_def)
    ultimately show ?thesis using st False
      by (intro exI [of _ ?h2] exI [of _ ?c2]) (simp add: set_req_def)
  qed
qed

lemma digits_val_dec_nat: "digits_val 10 (dec_nat n) = n"
proof (induction n rule: dec_nat.induct)
  case (1 n)
  have dv: "the (digit_val (of_nat (48 + k))) = k" if "k < 10" for k :: nat
  proof -
    have "k \<in> set [0..<10]" using that by simp
    then show ?thesis by (simp add: upt_rec digit_val_def isdigit_def) (elim disjE; simp)
  qed
  show ?case
  proof (cases "n < 10")
    case True
    then show ?thesis using dv [OF True] by (simp add: dec_nat.simps [of n] digits_val_def del: of_nat_add)
  next
    case False
    have "n mod 10 < 10" by simp
    note m = dv [OF this]
    from 1 [OF False] False m show ?thesis by (simp add: dec_nat.simps [of n] digits_val_def del: of_nat_add)
  qed
qed

lemma kore_strtonum_dec_nat:
  assumes "int n \<le> LONG_MAX"
  shows "kore_strtonum (dec_nat n) 10 0 LONG_MAX = (int n, KORE_RESULT_OK)"
proof -
  have "list_all isdigit (dec_nat n)" by (simp add: list_all_iff dec_nat_digits)
  moreover have "dec_nat n \<noteq> []" by (simp add: dec_nat.simps [of n])
  ultimately have "is_decimal (dec_nat n) (int n)" unfolding is_decimal_def
    by (intro exI [of _ "[]"] exI [of _ "dec_nat n"]) (simp add: digits_val_dec_nat bs_def)
  then show ?thesis using assms by (simp add: kore_strtonum_OK_iff LLONG_MIN_def LLONG_MAX_def LONG_MAX_def)
qed

lemma http_request_header_parsed:
  "http_request_header (parsed_request env owner host path m body hdlr hs) n = map_option snd (find (\<lambda>p. strcaseeq (fst p) n) hs)"
proof -
  have "find (\<lambda>hdr. strcaseeq (hdr_header hdr) n) (map header_pair hs) = map_option header_pair (find (\<lambda>p. strcaseeq (fst p) n) hs)"
    by (induction hs) (auto simp: header_pair_def)
  then show ?thesis by (simp add: http_request_header_def option.map_comp comp_def header_pair_def)
qed

lemma parsed_request_body:
  "\<not> rq_sleeping (parsed_request env owner host path m body hdlr hs)" "http_body_fd (parsed_request env owner host path m body hdlr hs) = None"
  "rq_complete (parsed_request env owner host path m body hdlr hs) = (\<not> body)" "\<not> rq_delete (parsed_request env owner host path m body hdlr hs)"
  using fold_add_header [of "map header_pair hs" "new_request env owner host path m body hdlr"]
  by (auto simp: parsed_request_def new_request_def)

text \<open>The request text as it comes in: \<open>ps\<close> and \<open>q\<close> are the pieces, \<open>d\<close> what follows the header in the last of them.\<close>

lemma recv_request_pieces:
  assumes c: "header_wait c []" "concat ps @ q = request_text meth path host hs @ d"
      "length (concat ps) < length (request_text meth path host hs)" "length (concat ps @ q) \<le> header_space c"
    and meth: "method_of meth = Some (m, body)" and path: "token_ok path" "length path < 1999" and host: "host_ok host"
    and hs: "\<forall>p \<in> set hs. pair_ok p" "length hs \<le> 22"
    and hdlr: "kore_module_handler_find env host (takeWhile (\<lambda>c. c \<noteq> ch (CHR ''?'')) path) = Some hdlr"
  shows "\<exists>c1 nb. rnb c1 = Some nb \<and> recv_ok nb \<and> m_len nb = length (nb_buf nb) \<and> nb_call_always nb \<and> read_possible c1 \<and>
    c_http_requests c1 = c_http_requests c @ [alloc h] \<and>
    recv_loop (http_callback env alloc other) h c (map Rd ps @ Rd q # rs) =
      (let req = parsed_request env (cid c) host path m body hdlr hs in
       rbind (if body then body_setup env (add_request h (alloc h) req) c1 (alloc h) req d
              else Inr (KORE_RESULT_OK, add_request h (alloc h) req, c1)) (after_call (http_callback env alloc other) rs))"
proof -
  note ok = request_lines_ok(1) [OF method_of_token(1) [OF meth] path(1) host hs(1)]
  have ne: "request_lines meth path host hs \<noteq> []" by (simp add: request_lines_def)
  from recv_header_pieces [OF ne ok c(1), of ps q d env alloc other h rs] c(2-4) obtain c1 b where
    c1: "header_wait c1 (request_text meth path host hs @ d)" "c1 = c\<lparr>rnb := b\<rparr>"
      "recv_loop (http_callback env alloc other) h c (map Rd ps @ Rd q # rs) =
        rbind (http_header_recv env (alloc h) h c1) (after_call (http_callback env alloc other) rs)"
    by (auto simp: request_text_def)
  from c1(1) obtain nb where nb: "rnb c1 = Some nb" "recv_ok nb" "m_len nb = length (nb_buf nb)" "nb_call_always nb"
    "4 \<le> b_len nb" "take (s_off nb) (nb_buf nb) = request_text meth path host hs @ d" "read_possible c1" by (auto simp: header_wait_def)
  from http_header_recv_parse [OF nb(1,5,6) meth path host hs hdlr, of "alloc h" h] obtain buf where
    buf: "length buf = length (nb_buf nb)" "http_header_recv env (alloc h) h c1 =
      (let req = parsed_request env (cid c1) host path m body hdlr hs;
           c2 = c1\<lparr>c_http_requests := c_http_requests c1 @ [alloc h], rnb := Some (nb\<lparr>nb_buf := buf\<rparr>)\<rparr> in
       if body then body_setup env (add_request h (alloc h) req) c2 (alloc h) req d
       else Inr (KORE_RESULT_OK, add_request h (alloc h) req, c2))" by blast
  let ?c2 = "c1\<lparr>c_http_requests := c_http_requests c1 @ [alloc h], rnb := Some (nb\<lparr>nb_buf := buf\<rparr>)\<rparr>"
  have "cid c1 = cid c" "c_http_requests ?c2 = c_http_requests c @ [alloc h]" using c1(2) by simp_all
  moreover have "recv_ok (nb\<lparr>nb_buf := buf\<rparr>)" using nb(2) buf(1) by (simp add: recv_ok_def)
  ultimately show ?thesis using c1(3) buf nb(3,4,7)
    by (intro exI [of _ ?c2] exI [of _ "nb\<lparr>nb_buf := buf\<rparr>"]) (simp add: Let_def)
qed

section \<open>Properties\<close>


definition test_env :: http_env where
  "test_env = \<lparr>e_junk = \<lambda>_. 0, e_out2 = \<lambda>_. None, e_uninit = 0, e_mkstemp = \<lambda>_. None, e_write_ok = True, e_lseek_ok = True,
     http_request_limit = 1000, http_hsts_enable = 31536000, http_header_max = 4096, http_keepalive_time = 20,
     http_body_max = 1024000, http_body_disk_offload = 0, http_body_disk_path = bs ''tmp'',
     kore_module_handler_find = \<lambda>_ _. Some 7\<rparr>"

definition test_conn :: conn where
  "test_conn = \<lparr>send_queue = [], rnb = Some \<lparr>nb_buf = replicate 90 0, s_off = 0, b_len = 90, m_len = 90, nb_type = NETBUF_RECV,
       nb_cb = Some Http_header_recv, nb_call_always = True, nb_force_remove = False, nb_must_resend = False, nb_is_stream = False\<rparr>,
     read_possible = True, write_possible = True, close_empty = False, disconnected = False, wire = [], stream_done = [],
     cid = 3, cstate = CONN_STATE_ESTABLISHED, proto = CONN_PROTO_HTTP, idle_act = False, idle_start = 0, idle_length = 20000,
     rnb_extra = None, disc_cb = False, wscbs = None, c_http_requests = []\<rparr>"

definition test_http :: http where
  "test_http = \<lparr>reqs = Map.empty, http_requests = [], http_requests_sleeping = [], http_request_count = 0,
     header_buf = \<lparr>bdata = Some [0], bflags = 1, blength = 1, boffset = 0\<rparr>\<rparr>"

lemma test_conn_waits: "header_wait test_conn []" "header_space test_conn = 90"
  by (simp_all add: header_wait_def header_space_def test_conn_def recv_ok_def)



definition get_text :: "byte list" where
  "get_text = request_text (bs ''GET'') (bs ''/a?b'') (bs ''h'') [(bs ''X'', bs ''y'')]"


text \<open>(C15) Requests with a body kept in memory: the header and the body arrive in any pieces, and in the end the request is
  complete and awake, no other request has changed, and reading its body yields exactly the bytes behind the header.\<close>

theorem http_body_received:
  assumes "header_wait c []" and "concat ps @ q = request_text meth path host hs @ d"
    and "length (concat ps) < length (request_text meth path host hs)" and "length (concat ps @ q) \<le> header_space c"
    and "method_of meth = Some (m, True)" and "token_ok path" and "length path < 1999" and "host_ok host"
    and "\<forall>p \<in> set hs. pair_ok p" and "length hs \<le> 22"
    and "kore_module_handler_find env host (takeWhile (\<lambda>c. c \<noteq> ch (CHR ''?'')) path) = Some hdlr"
    and "find (\<lambda>p. strcaseeq (fst p) (bs ''content-length'')) hs = Some (cl, dec_nat n)" and "0 < n" and "n \<le> http_body_max env"
    and "http_body_disk_offload env = 0" and "n < 2 ^ 62" and "4 \<le> http_header_max env"
    and "length d \<le> n" and "chunks_fit (n - length d) ds"
  shows "\<exists>h' c'. recv_loop (http_callback env alloc other) h c (map Rd ps @ Rd q # map Rd ds @ rs) =
      recv_loop (http_callback env alloc other) h' c' rs \<and>
    body_done h' (alloc h) (parsed_request env (cid c) host path m True hdlr hs) (d @ concat ds) \<and>
    (\<forall>r. r \<noteq> alloc h \<longrightarrow> reqs h' r = reqs h r)"
proof -
  let ?cb = "http_callback env alloc other" and ?req = "parsed_request env (cid c) host path m True hdlr hs"
  let ?h = "add_request h (alloc h) ?req"
  from recv_request_pieces [OF assms(1-11), of alloc h other "map Rd ds @ rs"] obtain c1 nb where
    c1: "rnb c1 = Some nb" "recv_ok nb" "m_len nb = length (nb_buf nb)" "nb_call_always nb" "read_possible c1"
      "recv_loop ?cb h c (map Rd ps @ Rd q # map Rd ds @ rs) =
        rbind (body_setup env ?h c1 (alloc h) ?req d) (after_call ?cb (map Rd ds @ rs))"
    by (auto simp: Let_def)
  have get: "reqs ?h (alloc h) = Some ?req" by (simp add: add_request_def)
  have cl: "http_request_header ?req (bs ''content-length'') = Some (dec_nat n)"
    using assms(12) by (simp add: http_request_header_parsed)
  have num: "kore_strtonum (dec_nat n) 10 0 LONG_MAX = (int n, KORE_RESULT_OK)"
    by (rule kore_strtonum_dec_nat) (use assms(16) in \<open>simp add: LONG_MAX_def\<close>)
  from body_setup_memory [OF c1(1-5) get parsed_request_body(1,2) cl num assms(13-16,18)] obtain h1 c2 where
    s: "body_setup env ?h c1 (alloc h) ?req d = Inr (KORE_RESULT_OK, h1, c2)"
      "if length d = n then body_done h1 (alloc h) ?req d \<and> c2 = c1 else body_wait h1 c2 (alloc h) ?req d (n - length d)"
      "\<forall>r. r \<noteq> alloc h \<longrightarrow> reqs h1 r = reqs ?h r" by blast
  have run: "recv_loop ?cb h c (map Rd ps @ Rd q # map Rd ds @ rs) = recv_loop ?cb h1 c2 (map Rd ds @ rs)"
    using c1(6) s(1) by (simp add: after_call_def)
  have other: "reqs h1 r = reqs h r" if "r \<noteq> alloc h" for r using s(3) that by (simp add: add_request_def)
  show ?thesis
  proof (cases "length d = n")
    case True
    then have "ds = []" using assms(19) by (cases ds) auto
    with run s(2) True other show ?thesis by auto
  next
    case False
    with s(2) have "body_wait h1 c2 (alloc h) ?req d (n - length d)" by simp
    from recv_body_pieces [OF assms(17) this assms(19), of alloc other rs] run other show ?thesis by auto
  qed
qed

definition post_text :: "byte list" where
  "post_text = request_text (bs ''POST'') (bs ''/'') (bs ''h'') [(bs ''Content-Length'', dec_nat 3)]"

lemma post_text_facts:
  "length post_text = 47" "method_of (bs ''POST'') = Some (HTTP_METHOD_POST, True)"
  "find (\<lambda>p. strcaseeq (fst p) (bs ''content-length'')) [(bs ''Content-Length'', dec_nat 3)] = Some (bs ''Content-Length'', dec_nat 3)"
  by (simp_all add: post_text_def request_text_def request_lines_def bs_def CRLF_def dec_nat.simps method_of_def strcaseeq_def tolower_def)

theorem http_body_received_witness:
  "\<exists>h' c'. recv_loop (http_callback test_env (\<lambda>_. 5) (\<lambda>_ _ _. Inl Null_deref)) test_http test_conn
      (map Rd [take 10 post_text] @ Rd (drop 10 post_text @ bs ''a'') # map Rd [bs ''b'', bs ''c''] @ [Rd_error EAGAIN]) =
      recv_loop (http_callback test_env (\<lambda>_. 5) (\<lambda>_ _ _. Inl Null_deref)) h' c' [Rd_error EAGAIN] \<and>
    body_done h' 5 (parsed_request test_env (cid test_conn) (bs ''h'') (bs ''/'') HTTP_METHOD_POST True 7 [(bs ''Content-Length'', dec_nat 3)])
      (bs ''a'' @ concat [bs ''b'', bs ''c'']) \<and>
    (\<forall>r. r \<noteq> 5 \<longrightarrow> reqs h' r = reqs test_http r)"
proof (rule http_body_received [OF test_conn_waits(1) _ _ _ post_text_facts(2) _ _ _ _ _ _ post_text_facts(3)])
  show "concat [take 10 post_text] @ drop 10 post_text @ bs ''a'' =
      request_text (bs ''POST'') (bs ''/'') (bs ''h'') [(bs ''Content-Length'', dec_nat 3)] @ bs ''a''"
    by (simp add: post_text_def [symmetric])
  show "length (concat [take 10 post_text]) < length (request_text (bs ''POST'') (bs ''/'') (bs ''h'') [(bs ''Content-Length'', dec_nat 3)])"
    using post_text_facts(1) by (simp add: post_text_def [symmetric])
  show "length (concat [take 10 post_text] @ drop 10 post_text @ bs ''a'') \<le> header_space test_conn"
    using post_text_facts(1) by (simp add: test_conn_waits bs_def)
  show "\<forall>p \<in> set [(bs ''Content-Length'', dec_nat 3)]. pair_ok p" by (simp add: pair_ok_def bs_def dec_nat.simps)
qed (simp_all add: token_ok_def host_ok_def test_env_def bs_def NETBUF_SEND_PAYLOAD_MAX_def)

text \<open>More body than announced: when the bytes received with the header exceed the content length, the number of missing
  bytes wraps around and the request sleeps, waiting for nearly two to the power of 64 bytes.\<close>

theorem http_body_excess:
  assumes "header_wait c []" and "concat ps @ q = request_text meth path host hs @ d"
    and "length (concat ps) < length (request_text meth path host hs)" and "length (concat ps @ q) \<le> header_space c"
    and "method_of meth = Some (m, True)" and "token_ok path" and "length path < 1999" and "host_ok host"
    and "\<forall>p \<in> set hs. pair_ok p" and "length hs \<le> 22"
    and "kore_module_handler_find env host (takeWhile (\<lambda>c. c \<noteq> ch (CHR ''?'')) path) = Some hdlr"
    and "find (\<lambda>p. strcaseeq (fst p) (bs ''content-length'')) hs = Some (cl, dec_nat n)" and "0 < n" and "n \<le> http_body_max env"
    and "http_body_disk_offload env = 0" and "n < 2 ^ 62" and "n < length d" and "length d < 2 ^ 62"
  shows "\<exists>h' c' req. recv_loop (http_callback env alloc other) h c (map Rd ps @ Rd q # rs) =
      recv_loop (http_callback env alloc other) h' c' rs \<and> reqs h' (alloc h) = Some req \<and> rq_sleeping req \<and> \<not> rq_complete req \<and>
    content_length req = 2 ^ 64 - (length d - n)"
proof -
  let ?cb = "http_callback env alloc other" and ?req = "parsed_request env (cid c) host path m True hdlr hs" and ?j = "e_junk env"
  let ?h = "add_request h (alloc h) ?req" and ?r = "alloc h"
  from recv_request_pieces [OF assms(1-11), of alloc h other rs] obtain c1 nb where
    c1: "rnb c1 = Some nb" "recv_ok nb"
      "recv_loop ?cb h c (map Rd ps @ Rd q # rs) = rbind (body_setup env ?h c1 ?r ?req d) (after_call ?cb rs)"
    by (auto simp: Let_def)
  have cl: "http_request_header ?req (bs ''content-length'') = Some (dec_nat n)"
    using assms(12) by (simp add: http_request_header_parsed)
  have num: "kore_strtonum (dec_nat n) 10 0 LONG_MAX = (int n, KORE_RESULT_OK)"
    by (rule kore_strtonum_dec_nat) (use assms(16) in \<open>simp add: LONG_MAX_def\<close>)
  from kore_buf_alloc_ok [of n ?j] assms(16) obtain b where
    b: "kore_buf_alloc ?j n = Inr b" "buf_ok b" "blength b = n" by auto
  from kore_buf_append_ok [OF b(2), of d ?j] b(3) assms(16,18) obtain b1 where
    b1: "kore_buf_append ?j b d = Inr b1" by (auto simp: buf_room_def)
  define L where "L = 2 ^ 64 - (length d - n)"
  have left: "wsub64 n (length d) = L" "0 < L" using assms(17,18) by (simp_all add: wsub64_def L_def)
  let ?req1 = "?req\<lparr>content_length := n, http_body_length := n, http_body_fd := None, http_body := Some b1\<rparr>"
  have st: "body_setup env ?h c1 ?r ?req d = body_start env ?h c1 ?r ?req1 d"
    using assms(13-15) cl num b(1) b1 by (simp add: body_setup_def Let_def)
  have ty: "nb_type nb = NETBUF_RECV" and pos: "0 < min L NETBUF_SEND_PAYLOAD_MAX"
    using c1(2) left(2) by (simp_all add: recv_ok_def NETBUF_SEND_PAYLOAD_MAX_def)
  from net_recv_reset_ok [OF c1(1) ty pos, of ?j Http_body_recv] obtain nb2 where
    n2: "net_recv_reset ?j c1 (min L NETBUF_SEND_PAYLOAD_MAX) Http_body_recv = Inr (c1\<lparr>rnb := Some nb2\<rparr>)" by blast
  have "\<exists>h1. http_request_sleep (set_req ?h ?r ?req1) ?r = Inr h1 \<and> reqs h1 ?r = Some (?req1\<lparr>rq_sleeping := True\<rparr>)"
    by (simp add: http_request_sleep_def set_req_def parsed_request_body)
  then obtain h1 where h1: "http_request_sleep (set_req ?h ?r ?req1) ?r = Inr h1" "reqs h1 ?r = Some (?req1\<lparr>rq_sleeping := True\<rparr>)" by blast
  let ?h2 = "set_req h1 ?r (?req1\<lparr>rq_sleeping := True, content_length := L\<rparr>)"
  have "body_start env ?h c1 ?r ?req1 d = Inr (KORE_RESULT_OK, ?h2, c1\<lparr>rnb := Some nb2, rnb_extra := Some ?r\<rparr>)"
    using left n2 h1 by (simp add: body_start_def Let_def)
  then have "recv_loop ?cb h c (map Rd ps @ Rd q # rs) = recv_loop ?cb ?h2 (c1\<lparr>rnb := Some nb2, rnb_extra := Some ?r\<rparr>) rs"
    using c1(3) st by (simp add: after_call_def)
  then show ?thesis
    by (intro exI [of _ ?h2] exI [of _ "c1\<lparr>rnb := Some nb2, rnb_extra := Some ?r\<rparr>"]
        exI [of _ "?req1\<lparr>rq_sleeping := True, content_length := L\<rparr>"]) (simp add: set_req_def parsed_request_body L_def)
qed

theorem http_body_excess_witness:
  "\<exists>h' c' req. recv_loop (http_callback test_env (\<lambda>_. 5) (\<lambda>_ _ _. Inl Null_deref)) test_http test_conn
      (map Rd [] @ Rd (post_text @ bs ''abcd'') # [Rd_error EAGAIN]) =
      recv_loop (http_callback test_env (\<lambda>_. 5) (\<lambda>_ _ _. Inl Null_deref)) h' c' [Rd_error EAGAIN] \<and>
    reqs h' 5 = Some req \<and> rq_sleeping req \<and> \<not> rq_complete req \<and> content_length req = 2 ^ 64 - (length (bs ''abcd'') - 3)"
proof (rule http_body_excess [OF test_conn_waits(1) _ _ _ post_text_facts(2) _ _ _ _ _ _ post_text_facts(3)])
  show "concat [] @ post_text @ bs ''abcd'' = request_text (bs ''POST'') (bs ''/'') (bs ''h'') [(bs ''Content-Length'', dec_nat 3)] @ bs ''abcd''"
    by (simp add: post_text_def)
  show "length (concat []) < length (request_text (bs ''POST'') (bs ''/'') (bs ''h'') [(bs ''Content-Length'', dec_nat 3)])"
    using post_text_facts(1) by (simp add: post_text_def)
  show "length (concat [] @ post_text @ bs ''abcd'') \<le> header_space test_conn"
    using post_text_facts(1) by (simp add: test_conn_waits bs_def)
  show "\<forall>p \<in> set [(bs ''Content-Length'', dec_nat 3)]. pair_ok p" by (simp add: pair_ok_def bs_def dec_nat.simps)
qed (simp_all add: token_ok_def host_ok_def test_env_def bs_def)

end
