(* ===== verification/Kore_Auth.thy ===== *)
theory Kore_Auth
  imports Http_Flow
begin

text \<open>
  Validators and authentication, \<open>base/kore/validator.c\<close> and \<open>base/kore/auth.c\<close>, with the symbol lookup of
  \<open>base/kore/module.c\<close> they use. Validators and authentication blocks are never freed, so a pointer to one is its
  position in the list. The functions of the application, the dynamic linker and the regular expressions of the C
  library are parameters, collected in the record \<open>mod_env\<close>.
\<close>

section \<open>Environment\<close>

text \<open>What a validator gets to see: a string, or the request itself (\<open>m_raw\<close> is what the bytes of a request
  look like when they are read as a string).\<close>

datatype vdata = Vstring "byte list" | Vrequest

type_synonym vfunc = "vdata \<Rightarrow> http \<Rightarrow> conn \<Rightarrow> nat \<Rightarrow> (int \<times> http \<times> conn) res"

record mod_env =
  m_regcomp :: "byte list \<Rightarrow> bool"
  m_regexec :: "byte list \<Rightarrow> byte list \<Rightarrow> bool"
  m_fnmatch :: "byte list \<Rightarrow> byte list \<Rightarrow> bool"
  m_dlsym :: "nat \<Rightarrow> byte list \<Rightarrow> nat option"
  m_raw :: "http_request \<Rightarrow> byte list"
  m_func :: "nat \<Rightarrow> vfunc"

text \<open>Modules in load order, by the handle \<open>dlopen\<close> returned.\<close>

fun kore_module_getsym :: "mod_env \<Rightarrow> nat list \<Rightarrow> byte list \<Rightarrow> nat option" where
  "kore_module_getsym env [] symbol = None"
| "kore_module_getsym env (m # ms) symbol =
     (case m_dlsym env m symbol of Some p \<Rightarrow> Some p | None \<Rightarrow> kore_module_getsym env ms symbol)"

section \<open>Validators\<close>

definition KORE_VALIDATOR_TYPE_REGEX :: byte where "KORE_VALIDATOR_TYPE_REGEX = 1"
definition KORE_VALIDATOR_TYPE_FUNCTION :: byte where "KORE_VALIDATOR_TYPE_FUNCTION = 2"

lemmas validator_types = KORE_VALIDATOR_TYPE_REGEX_def KORE_VALIDATOR_TYPE_FUNCTION_def

text \<open>The compiled expression \<open>rctx\<close> is given by its text \<open>vl_arg\<close>; \<open>vl_func\<close> is an address.\<close>

record kore_validator =
  vl_type :: byte
  vl_name :: "byte list"
  vl_arg :: "byte list"
  vl_func :: nat

definition kore_validator_add ::
    "mod_env \<Rightarrow> nat list \<Rightarrow> kore_validator list \<Rightarrow> byte list \<Rightarrow> byte \<Rightarrow> byte list \<Rightarrow> int \<times> kore_validator list" where
  "kore_validator_add env mods vals name type arg =
     (let val = \<lparr>vl_type = type, vl_name = name, vl_arg = arg, vl_func = 0\<rparr> in
      if type = KORE_VALIDATOR_TYPE_REGEX then
        (if \<not> m_regcomp env arg then (KORE_RESULT_ERROR, vals) else (KORE_RESULT_OK, vals @ [val]))
      else if type = KORE_VALIDATOR_TYPE_FUNCTION then
        (case kore_module_getsym env mods arg of
           None \<Rightarrow> (KORE_RESULT_ERROR, vals)
         | Some f \<Rightarrow> (KORE_RESULT_OK, vals @ [val\<lparr>vl_func := f\<rparr>]))
      else (KORE_RESULT_ERROR, vals))"

definition kore_validator_check ::
    "mod_env \<Rightarrow> kore_validator \<Rightarrow> vdata \<Rightarrow> http \<Rightarrow> conn \<Rightarrow> nat \<Rightarrow> (int \<times> http \<times> conn) res" where
  "kore_validator_check env val d h c r =
     (if vl_type val = KORE_VALIDATOR_TYPE_REGEX then
        (case reqs h r of
           None \<Rightarrow> Inl Null_deref
         | Some req \<Rightarrow>
             let text = (case d of Vstring s \<Rightarrow> s | Vrequest \<Rightarrow> m_raw env req) in
             Inr (if m_regexec env (vl_arg val) text then KORE_RESULT_OK else KORE_RESULT_ERROR, h, c))
      else if vl_type val = KORE_VALIDATOR_TYPE_FUNCTION then m_func env (vl_func val) d h c r
      else Inr (KORE_RESULT_ERROR, h, c))"

fun kore_validator_run ::
    "mod_env \<Rightarrow> kore_validator list \<Rightarrow> byte list \<Rightarrow> byte list \<Rightarrow> http \<Rightarrow> conn \<Rightarrow> nat \<Rightarrow> (int \<times> http \<times> conn) res" where
  "kore_validator_run env [] name d h c r = Inr (KORE_RESULT_ERROR, h, c)"
| "kore_validator_run env (val # vals) name d h c r =
     (if vl_name val \<noteq> name then kore_validator_run env vals name d h c r
      else kore_validator_check env val (Vstring d) h c r)"

fun kore_validator_reload :: "mod_env \<Rightarrow> nat list \<Rightarrow> kore_validator list \<Rightarrow> kore_validator list res" where
  "kore_validator_reload env mods [] = Inr []"
| "kore_validator_reload env mods (val # vals) =
     (if vl_type val \<noteq> KORE_VALIDATOR_TYPE_FUNCTION
      then rbind (kore_validator_reload env mods vals) (\<lambda>vs. Inr (val # vs))
      else case kore_module_getsym env mods (vl_arg val) of
          None \<Rightarrow> Inl (Fatal ''no function for validator found'')
        | Some f \<Rightarrow> rbind (kore_validator_reload env mods vals) (\<lambda>vs. Inr (val\<lparr>vl_func := f\<rparr> # vs)))"

text \<open>The position of the first element with a property: the pointer a lookup loop returns.\<close>

fun first_at :: "('a \<Rightarrow> bool) \<Rightarrow> 'a list \<Rightarrow> nat option" where
  "first_at P [] = None"
| "first_at P (x # xs) = (if P x then Some 0 else map_option Suc (first_at P xs))"

definition kore_validator_lookup :: "kore_validator list \<Rightarrow> byte list \<Rightarrow> nat option" where
  "kore_validator_lookup vals name = first_at (\<lambda>val. vl_name val = name) vals"

section \<open>Authentication blocks\<close>

definition HTTP_MAX_COOKIES :: nat where "HTTP_MAX_COOKIES = 10"
definition KORE_AUTH_TYPE_COOKIE :: byte where "KORE_AUTH_TYPE_COOKIE = 1"
definition KORE_AUTH_TYPE_HEADER :: byte where "KORE_AUTH_TYPE_HEADER = 2"
definition KORE_AUTH_TYPE_REQUEST :: byte where "KORE_AUTH_TYPE_REQUEST = 3"

lemmas auth_types = KORE_AUTH_TYPE_COOKIE_def KORE_AUTH_TYPE_HEADER_def KORE_AUTH_TYPE_REQUEST_def

record kore_auth =
  au_type :: byte
  au_name :: "byte list"
  au_value :: "byte list option"
  au_redirect :: "byte list option"
  au_validator :: "nat option"

definition kore_auth_lookup :: "kore_auth list \<Rightarrow> byte list \<Rightarrow> nat option" where
  "kore_auth_lookup auths name = first_at (\<lambda>auth. au_name auth = name) auths"

definition kore_auth_new :: "kore_auth list \<Rightarrow> byte list \<Rightarrow> int \<times> kore_auth list" where
  "kore_auth_new auths name =
     (if kore_auth_lookup auths name \<noteq> None then (KORE_RESULT_ERROR, auths)
      else (KORE_RESULT_OK, auths @ [\<lparr>au_type = 0, au_name = name, au_value = None, au_redirect = None, au_validator = None\<rparr>]))"

text \<open>Dereference of \<open>auth->validator\<close>.\<close>

definition auth_check ::
    "mod_env \<Rightarrow> kore_validator list \<Rightarrow> kore_auth \<Rightarrow> vdata \<Rightarrow> http \<Rightarrow> conn \<Rightarrow> nat \<Rightarrow> (int \<times> http \<times> conn) res" where
  "auth_check env vals auth d h c r =
     (case au_validator auth of
        None \<Rightarrow> Inl Null_deref
      | Some i \<Rightarrow> if i < length vals then kore_validator_check env (vals ! i) d h c r else Inl Out_of_bounds)"

text \<open>The search for the cookie compares only as many characters as the shorter of the name and the cookie has.\<close>

fun cookie_find :: "byte list \<Rightarrow> byte list list \<Rightarrow> byte list option" where
  "cookie_find val [] = None"
| "cookie_find val (ck # cks) =
     (if strneq (dropWhile isspace ck) val (min (length val) (length ck)) then Some ck else cookie_find val cks)"

definition kore_auth_cookie ::
    "mod_env \<Rightarrow> kore_validator list \<Rightarrow> kore_auth \<Rightarrow> http \<Rightarrow> conn \<Rightarrow> nat \<Rightarrow> http_request \<Rightarrow> (int \<times> http \<times> conn) res" where
  "kore_auth_cookie env vals auth h c r req =
     (case http_request_header req (bs ''cookie'') of
        None \<Rightarrow> Inr (KORE_RESULT_ERROR, h, c)
      | Some cookie \<Rightarrow>
          (case au_value auth of
             None \<Rightarrow> Inl Null_deref
           | Some v \<Rightarrow>
               (case cookie_find v (kore_split_string cookie (bs '';'') HTTP_MAX_COOKIES) of
                  None \<Rightarrow> Inr (KORE_RESULT_ERROR, h, c)
                | Some ck \<Rightarrow>
                    (case strchr ck (ch (CHR ''='')) of
                       None \<Rightarrow> Inr (KORE_RESULT_ERROR, h, c)
                     | Some e \<Rightarrow> auth_check env vals auth (Vstring (drop 1 e)) h c r))))"

definition kore_auth_header ::
    "mod_env \<Rightarrow> kore_validator list \<Rightarrow> kore_auth \<Rightarrow> http \<Rightarrow> conn \<Rightarrow> nat \<Rightarrow> http_request \<Rightarrow> (int \<times> http \<times> conn) res" where
  "kore_auth_header env vals auth h c r req =
     (case au_value auth of
        None \<Rightarrow> Inl Null_deref
      | Some v \<Rightarrow>
          (case http_request_header req v of
             None \<Rightarrow> Inr (KORE_RESULT_ERROR, h, c)
           | Some header \<Rightarrow> auth_check env vals auth (Vstring header) h c r))"

definition kore_auth_request ::
    "mod_env \<Rightarrow> kore_validator list \<Rightarrow> kore_auth \<Rightarrow> http \<Rightarrow> conn \<Rightarrow> nat \<Rightarrow> (int \<times> http \<times> conn) res" where
  "kore_auth_request env vals auth h c r = auth_check env vals auth Vrequest h c r"

definition with_req :: "http \<Rightarrow> nat \<Rightarrow> (http_request \<Rightarrow> http_request) \<Rightarrow> http res" where
  "with_req h r f = (case reqs h r of None \<Rightarrow> Inl Null_deref | Some req \<Rightarrow> Inr (set_req h r (f req)))"

definition kore_auth_run ::
    "http_env \<Rightarrow> mod_env \<Rightarrow> kore_validator list \<Rightarrow> kore_auth \<Rightarrow> http \<Rightarrow> conn \<Rightarrow> nat \<Rightarrow> (int \<times> http \<times> conn) res" where
  "kore_auth_run env menv vals auth h c r =
     (case reqs h r of
        None \<Rightarrow> Inl Null_deref
      | Some req \<Rightarrow>
          let check = (if au_type auth = KORE_AUTH_TYPE_COOKIE then Some (kore_auth_cookie menv vals auth h c r req)
            else if au_type auth = KORE_AUTH_TYPE_HEADER then Some (kore_auth_header menv vals auth h c r req)
            else if au_type auth = KORE_AUTH_TYPE_REQUEST then Some (kore_auth_request menv vals auth h c r)
            else None) in
          case check of
            None \<Rightarrow> Inr (KORE_RESULT_ERROR, h, c)
          | Some m \<Rightarrow> rbind m (\<lambda>(ret, h1, c1).
              if ret = KORE_RESULT_OK then rbind (with_req h1 r (\<lambda>q. q\<lparr>rq_authed := True\<rparr>)) (\<lambda>h2. Inr (ret, h2, c1))
              else if ret = KORE_RESULT_RETRY then Inr (ret, h1, c1)
              else if au_type auth = KORE_AUTH_TYPE_REQUEST then Inr (ret, h1, c1)
              else case au_redirect auth of
                  None \<Rightarrow> rbind (http_response env h1 c1 r 403 None 0) (\<lambda>(h2, c2). Inr (KORE_RESULT_ERROR, h2, c2))
                | Some url \<Rightarrow>
                    rbind (with_req h1 r (\<lambda>q. http_response_header q (bs ''location'') url)) (\<lambda>h2.
                    rbind (http_response env h2 c1 r 302 None 0) (\<lambda>(h3, c3). Inr (KORE_RESULT_ERROR, h3, c3)))))"

section \<open>Cookies\<close>

text \<open>The text of a cookie header, as a browser sends it: pairs of name and value between semicolons.\<close>

fun cookie_text :: "(byte list \<times> byte list) list \<Rightarrow> byte list" where
  "cookie_text [] = []"
| "cookie_text [(n, v)] = n @ 61 # v"
| "cookie_text ((n, v) # p # ps) = n @ 61 # v @ 59 # 32 # cookie_text (p # ps)"

definition cookie_ok :: "byte list \<times> byte list \<Rightarrow> bool" where
  "cookie_ok p \<longleftrightarrow> 59 \<notin> set (fst p) \<and> 59 \<notin> set (snd p) \<and> 61 \<notin> set (fst p) \<and> (fst p = [] \<or> \<not> isspace (hd (fst p)))"

definition cookie_tokens :: "byte list \<Rightarrow> (byte list \<times> byte list) list \<Rightarrow> byte list list" where
  "cookie_tokens sp ps = (case ps of [] \<Rightarrow> [] | p # qs \<Rightarrow> (sp @ fst p @ 61 # snd p) # map (\<lambda>q. 32 # fst q @ 61 # snd q) qs)"

lemma fields_cookie:
  assumes "\<forall>p \<in> set ps. cookie_ok p" "ps \<noteq> []" "59 \<notin> set sp"
  shows "Kore_Str.fields [59] (sp @ cookie_text ps) = cookie_tokens sp ps"
  using assms
proof (induction ps arbitrary: sp rule: cookie_text.induct)
  case (2 n v)
  then show ?case by (simp add: cookie_tokens_def cookie_ok_def fields_single)
next
  case (3 n v p ps)
  have "Kore_Str.fields [59] ((sp @ n @ 61 # v) @ 59 # (32 # cookie_text (p # ps))) = (sp @ n @ 61 # v) # Kore_Str.fields [59] (32 # cookie_text (p # ps))"
    using 3(2,4) by (intro fields_join) (auto simp: cookie_ok_def)
  moreover have "Kore_Str.fields [59] ([32] @ cookie_text (p # ps)) = cookie_tokens [32] (p # ps)"
    using 3(2) by (intro 3(1)) auto
  ultimately show ?case by (simp add: cookie_tokens_def)
qed simp

lemma cookie_match:
  assumes "61 \<notin> set v" "61 \<notin> set n" "length n < m" "length (n @ 61 # y) \<le> m"
  shows "strneq (n @ 61 # y) v (min (length v) m) \<longleftrightarrow> prefix v n"
proof
  assume eq: "strneq (n @ 61 # y) v (min (length v) m)"
  show "prefix v n"
  proof (cases "length v \<le> m")
    case True
    then have "take (length v) (n @ 61 # y) = v" using eq by (simp add: strneq_def)
    then have "prefix v (n @ 61 # y)" by (metis take_is_prefix)
    then show ?thesis using assms(1) by (auto simp: prefix_append prefix_Cons)
  next
    case False
    then have "n @ 61 # y = take m v" using eq assms(4) by (simp add: strneq_def)
    then have "61 \<in> set (take m v)" by (metis in_set_conv_decomp)
    then show ?thesis using assms(1) by (auto dest: in_set_takeD)
  qed
next
  assume "prefix v n"
  then show "strneq (n @ 61 # y) v (min (length v) m)"
    using assms(3) by (auto simp: strneq_def prefix_def)
qed

definition cookie_token :: "byte list \<Rightarrow> byte list \<times> byte list \<Rightarrow> byte list" where
  "cookie_token sp p = sp @ fst p @ 61 # snd p"

lemma cookie_token_facts:
  assumes "cookie_ok p" "sp = [] \<or> sp = [32]"
  shows "dropWhile isspace (cookie_token sp p) = fst p @ 61 # snd p" "strchr (cookie_token sp p) 61 = Some (61 # snd p)"
proof -
  have "\<not> isspace 61" "isspace 32" by (simp_all add: isspace_def)
  then have "dropWhile isspace (fst p @ 61 # snd p) = fst p @ 61 # snd p"
    using assms(1) by (cases "fst p") (auto simp: cookie_ok_def)
  then show "dropWhile isspace (cookie_token sp p) = fst p @ 61 # snd p"
    using assms(2) \<open>isspace 32\<close> by (auto simp: cookie_token_def)
  have "strchr (n @ 61 # y) 61 = Some (61 # y)" if "61 \<notin> set n" for n y :: "byte list"
    using that by (induction n) auto
  then show "strchr (cookie_token sp p) 61 = Some (61 # snd p)"
    using assms by (auto simp: cookie_token_def cookie_ok_def)
qed

lemma cookie_find_tokens:
  assumes "61 \<notin> set v" "\<forall>p \<in> set ps. cookie_ok p" "length sps = length ps" "\<forall>sp \<in> set sps. sp = [] \<or> sp = [32]"
  shows "case find (\<lambda>p. prefix v (fst p)) ps of
      None \<Rightarrow> cookie_find v (map2 cookie_token sps ps) = None
    | Some p \<Rightarrow> \<exists>sp. (sp = [] \<or> sp = [32]) \<and> cookie_ok p \<and> cookie_find v (map2 cookie_token sps ps) = Some (cookie_token sp p)"
  using assms
proof (induction ps arbitrary: sps)
  case (Cons p ps)
  obtain sp sps' where sps: "sps = sp # sps'" "sp = [] \<or> sp = [32]" using Cons.prems(3,4) by (cases sps) auto
  have p: "cookie_ok p" using Cons.prems(2) by simp
  have "strneq (dropWhile isspace (cookie_token sp p)) v (min (length v) (length (cookie_token sp p))) \<longleftrightarrow> prefix v (fst p)"
    unfolding cookie_token_facts [OF p sps(2)]
    by (rule cookie_match) (use Cons.prems(1) p in \<open>auto simp: cookie_ok_def cookie_token_def\<close>)
  then show ?case
    using Cons.IH [of sps'] Cons.prems sps p by (auto split: option.splits)
qed simp

lemma cookie_tokens_map2: "cookie_tokens [] ps = map2 cookie_token ([] # replicate (length ps - 1) [32]) ps"
  by (cases ps) (auto simp: cookie_tokens_def cookie_token_def zip_replicate1)

lemma cookie_text_split:
  assumes "\<forall>p \<in> set ps. cookie_ok p" "ps \<noteq> []"
  shows "kore_split_string (cookie_text ps) (bs '';'') n =
    map2 cookie_token (take (n - 1) ([] # replicate (length ps - 1) [32])) (take (n - 1) ps)"
proof -
  have "bs '';'' = [59]" by (simp add: bs_def)
  moreover have "Kore_Str.fields [59] (cookie_text ps) = cookie_tokens [] ps" using fields_cookie [OF assms, of "[]"] by simp
  moreover have "filter (\<lambda>f. f \<noteq> []) (cookie_tokens [] ps) = cookie_tokens [] ps"
    by (auto simp: filter_id_conv cookie_tokens_def split: list.splits)
  ultimately have "kore_split_string (cookie_text ps) (bs '';'') n = (if n = 0 then [] else
      map2 cookie_token (take (n - 1) ([] # replicate (length ps - 1) [32])) (take (n - 1) ps))"
    by (simp only: kore_split_string_def split_loop_fields cookie_tokens_map2 take_map take_zip)
  then show ?thesis by simp
qed

section \<open>Properties\<close>

text \<open>The answer to a request that is not let through: status and the request with its response headers.\<close>

definition denial :: "kore_auth \<Rightarrow> http_request \<Rightarrow> int \<times> http_request" where
  "denial auth req =
     (case au_redirect auth of None \<Rightarrow> (403, req) | Some url \<Rightarrow> (302, http_response_header req (bs ''location'') url))"

text \<open>Which cookie is validated: for a cookie header of well-formed pairs \<open>kore_auth_cookie\<close> gives the validator the
  value of the first of the first nine cookies whose name begins with the configured name, and refuses when
  there is none. (Not only the cookie of exactly that name: the comparison stops at the end of the configured name.)\<close>

theorem kore_auth_cookie_matches:
  assumes "http_request_header req (bs ''cookie'') = Some (cookie_text ps)" "ps \<noteq> []" "\<forall>p \<in> set ps. cookie_ok p"
    and "au_value auth = Some v" "61 \<notin> set v"
  shows "kore_auth_cookie menv vals auth h c r req =
    (case find (\<lambda>p. prefix v (fst p)) (take (HTTP_MAX_COOKIES - 1) ps) of
       None \<Rightarrow> Inr (KORE_RESULT_ERROR, h, c)
     | Some p \<Rightarrow> auth_check menv vals auth (Vstring (snd p)) h c r)"
proof -
  let ?n = "HTTP_MAX_COOKIES - 1"
  let ?sps = "take ?n ([] # replicate (length ps - 1) [32])"
  have sp: "kore_split_string (cookie_text ps) (bs '';'') HTTP_MAX_COOKIES = map2 cookie_token ?sps (take ?n ps)"
    by (rule cookie_text_split [OF assms(3,2)])
  have "length ?sps = length (take ?n ps)" using assms(2) by (cases ps) auto
  moreover have "\<forall>sp \<in> set ?sps. sp = [] \<or> sp = [32]" by (auto dest!: in_set_takeD)
  moreover have "\<forall>p \<in> set (take ?n ps). cookie_ok p" using assms(3) by (auto dest: in_set_takeD)
  ultimately have f: "case find (\<lambda>p. prefix v (fst p)) (take ?n ps) of
      None \<Rightarrow> cookie_find v (map2 cookie_token ?sps (take ?n ps)) = None
    | Some p \<Rightarrow> \<exists>sp. (sp = [] \<or> sp = [32]) \<and> cookie_ok p \<and>
        cookie_find v (map2 cookie_token ?sps (take ?n ps)) = Some (cookie_token sp p)"
    by (intro cookie_find_tokens [OF assms(5)])
  have eq: "ch (CHR ''='') = (61 :: byte)" by simp
  have run: "kore_auth_cookie menv vals auth h c r req =
    (case cookie_find v (map2 cookie_token ?sps (take ?n ps)) of
       None \<Rightarrow> Inr (KORE_RESULT_ERROR, h, c)
     | Some ck \<Rightarrow> (case strchr ck 61 of None \<Rightarrow> Inr (KORE_RESULT_ERROR, h, c)
         | Some e \<Rightarrow> auth_check menv vals auth (Vstring (drop 1 e)) h c r))"
    by (simp only: kore_auth_cookie_def assms(1,4) sp option.case eq)
  show ?thesis
  proof (cases "find (\<lambda>p. prefix v (fst p)) (take ?n ps)")
    case None
    then show ?thesis using f by (simp only: run option.case)
  next
    case (Some p)
    then obtain sp where "sp = [] \<or> sp = [32]" "cookie_ok p"
        "cookie_find v (map2 cookie_token ?sps (take ?n ps)) = Some (cookie_token sp p)"
      using f by auto
    then show ?thesis using cookie_token_facts(2) [of p sp] Some by (simp only: run option.case) simp
  qed
qed

text \<open>Authentication is a guard: for a cookie or header block whose validator leaves the state alone,
  \<open>kore_auth_run\<close> marks the request as authenticated exactly when the validator accepts, and otherwise, unless the
  validator asks to be run again, answers with status 403, or 302 and a location header, and reports an error.\<close>

theorem kore_auth_run_guards:
  assumes "au_type auth = KORE_AUTH_TYPE_COOKIE \<and> kore_auth_cookie menv vals auth h c r req = Inr (ret, h, c) \<or>
           au_type auth = KORE_AUTH_TYPE_HEADER \<and> kore_auth_header menv vals auth h c r req = Inr (ret, h, c)"
    and "reqs h r = Some req" "\<not> rq_authed req" "proto c = CONN_PROTO_HTTP" "denial auth req = (status, req1)"
    and "response_ok env (header_buf h) (Some req1) c status None 0"
  shows "\<exists>ret' h' c' req'. kore_auth_run env menv vals auth h c r = Inr (ret', h', c') \<and> reqs h' r = Some req' \<and>
    (rq_authed req' \<longleftrightarrow> ret = KORE_RESULT_OK) \<and> (ret' = KORE_RESULT_OK \<longleftrightarrow> ret = KORE_RESULT_OK) \<and>
    conn_output c' = conn_output c @
      (if ret = KORE_RESULT_OK \<or> ret = KORE_RESULT_RETRY then [] else response_text env (Some req1) c status 0)"
proof -
  have run: "kore_auth_run env menv vals auth h c r =
    (if ret = KORE_RESULT_OK then Inr (ret, set_req h r (req\<lparr>rq_authed := True\<rparr>), c)
     else if ret = KORE_RESULT_RETRY then Inr (ret, h, c)
     else rbind (http_response env (set_req h r req1) c r status None 0) (\<lambda>(h2, c2). Inr (KORE_RESULT_ERROR, h2, c2)))"
    using assms(1)
    by (elim disjE conjE; cases "au_redirect auth"; use assms(2,5) in
        \<open>simp add: kore_auth_run_def auth_types with_req_def denial_def set_req_def fun_upd_idem\<close>)
  let ?req = "req1\<lparr>rq_status := status mod 2 ^ 16\<rparr>"
  have au: "rq_authed req1 = rq_authed req"
    using assms(5) by (auto simp: denial_def http_response_header_def split: option.splits)
  have "response_ok env (header_buf h) (Some ?req) c status None 0"
    using assms(6) by (simp add: response_ok_def response_ignores_status)
  from http_response_normal_ok [OF this, where n = 0] obtain hb c' where
    n: "http_response_normal env (header_buf h) (Some ?req) c status None 0 = Inr (hb, c')"
      "conn_output c' = conn_output c @ response_text env (Some req1) c status 0"
    by (auto simp: response_ignores_status response_body_def)
  have resp: "http_response env (set_req h r req1) c r status None 0 = Inr ((set_req h r ?req)\<lparr>header_buf := hb\<rparr>, c')"
    using assms(4) n(1) by (simp add: http_response_def Let_def set_req_def)
  consider "ret = KORE_RESULT_OK" | "ret = KORE_RESULT_RETRY" | "ret \<noteq> KORE_RESULT_OK" "ret \<noteq> KORE_RESULT_RETRY" by blast
  then show ?thesis
  proof cases
    case 3
    then show ?thesis using run resp n(2) au assms(3)
      by (intro exI [of _ KORE_RESULT_ERROR] exI [of _ "(set_req h r ?req)\<lparr>header_buf := hb\<rparr>"] exI [of _ c'] exI [of _ ?req])
        (simp add: set_req_def)
  qed (use run assms(2,3) in \<open>simp_all add: set_req_def\<close>)
qed

section \<open>Concrete instances\<close>

text \<open>A validator that accepts exactly the text of its expression.\<close>

definition plain_menv :: mod_env where
  "plain_menv = \<lparr>m_regcomp = \<lambda>_. True, m_regexec = (=), m_fnmatch = strcaseeq, m_dlsym = \<lambda>_ _. None, m_raw = \<lambda>_. [],
     m_func = \<lambda>_ _ _ _ _. Inl Null_deref\<rparr>"

definition secret_validator :: kore_validator where
  "secret_validator = \<lparr>vl_type = KORE_VALIDATOR_TYPE_REGEX, vl_name = bs ''v'', vl_arg = bs ''secret'', vl_func = 0\<rparr>"

definition cookie_auth :: kore_auth where
  "cookie_auth = \<lparr>au_type = KORE_AUTH_TYPE_COOKIE, au_name = bs ''a'', au_value = Some (bs ''id''), au_redirect = None, au_validator = Some 0\<rparr>"

definition cookie_request :: http_request where
  "cookie_request = blank_request\<lparr>req_headers := [\<lparr>hdr_header = bs ''Cookie'', hdr_value = bs ''x=1; idx=secret''\<rparr>]\<rparr>"

definition cookie_http :: http where
  "cookie_http = set_req test_http 5 cookie_request"

lemma cookie_request_header:
  "http_request_header cookie_request (bs ''cookie'') = Some (cookie_text [(bs ''x'', bs ''1''), (bs ''idx'', bs ''secret'')])"
  by (simp add: http_request_header_def cookie_request_def strcaseeq_def bs_def tolower_def)

theorem kore_auth_cookie_matches_witness:
  "kore_auth_cookie plain_menv [secret_validator] cookie_auth cookie_http test_conn 5 cookie_request =
     Inr (KORE_RESULT_OK, cookie_http, test_conn)"
proof -
  have "\<forall>p \<in> set [(bs ''x'', bs ''1''), (bs ''idx'', bs ''secret'')]. cookie_ok p"
    by (simp add: cookie_ok_def bs_def isspace_def)
  moreover have "au_value cookie_auth = Some (bs ''id'')" "61 \<notin> set (bs ''id'')"
    by (simp_all add: cookie_auth_def bs_def)
  ultimately have "kore_auth_cookie plain_menv [secret_validator] cookie_auth cookie_http test_conn 5 cookie_request =
    (case find (\<lambda>p. prefix (bs ''id'') (fst p)) (take (HTTP_MAX_COOKIES - 1) [(bs ''x'', bs ''1''), (bs ''idx'', bs ''secret'')]) of
       None \<Rightarrow> Inr (KORE_RESULT_ERROR, cookie_http, test_conn)
     | Some p \<Rightarrow> auth_check plain_menv [secret_validator] cookie_auth (Vstring (snd p)) cookie_http test_conn 5)"
    by (intro kore_auth_cookie_matches [OF cookie_request_header]) simp_all
  also have "\<dots> = Inr (KORE_RESULT_OK, cookie_http, test_conn)"
    by (simp add: HTTP_MAX_COOKIES_def auth_check_def cookie_auth_def kore_validator_check_def secret_validator_def
        cookie_http_def set_req_def plain_menv_def bs_def)
  finally show ?thesis .
qed

text \<open>A header block, and a request that has the header but not the value.\<close>

definition header_auth :: kore_auth where
  "header_auth = cookie_auth\<lparr>au_type := KORE_AUTH_TYPE_HEADER, au_value := Some (bs ''cookie'')\<rparr>"

theorem kore_auth_run_guards_witness:
  "\<exists>ret' h' c' req'. kore_auth_run test_env plain_menv [secret_validator] header_auth cookie_http test_conn 5 = Inr (ret', h', c') \<and>
     reqs h' 5 = Some req' \<and> \<not> rq_authed req' \<and> ret' \<noteq> KORE_RESULT_OK \<and>
     conn_output c' = conn_output test_conn @ response_text test_env (Some cookie_request) test_conn 403 0"
proof -
  have hdr: "kore_auth_header plain_menv [secret_validator] header_auth cookie_http test_conn 5 cookie_request =
      Inr (KORE_RESULT_ERROR, cookie_http, test_conn)"
    by (simp add: kore_auth_header_def header_auth_def cookie_auth_def cookie_request_header auth_check_def kore_validator_check_def
        secret_validator_def cookie_http_def set_req_def plain_menv_def)
  have ok: "response_ok test_env (header_buf cookie_http) (Some cookie_request) test_conn 403 None 0"
    by (simp add: response_ok_def response_text_def response_lines_def test_env_def test_http_def test_conn_def set_req_def
        cookie_http_def cookie_request_def blank_request_def buf_ok_def keepalive_lines_def hsts_lines_def length_lines_def
        connection_close_def http_request_header_def http_status_text_def dec_int_def dec_nat.simps bs_def CRLF_def BUFSIZ_def
        send_ok_def strcaseeq_def tolower_def)
  have "\<not> rq_authed cookie_request" "proto test_conn = CONN_PROTO_HTTP" "reqs cookie_http 5 = Some cookie_request"
      "denial header_auth cookie_request = (403, cookie_request)"
    by (simp_all add: cookie_request_def blank_request_def test_conn_def cookie_http_def set_req_def denial_def header_auth_def cookie_auth_def)
  from kore_auth_run_guards [OF disjI2 [OF conjI [OF _ hdr]] this(3,1,2,4) ok] show ?thesis
    by (auto simp: header_auth_def)
qed

end
