(* ===== verification/Kore_Domain.thy ===== *)
theory Kore_Domain
  imports Kore_Auth
begin

text \<open>
  Domains and page handlers, \<open>base/kore/domain.c\<close> and \<open>base/kore/module.c\<close>, as the build without TLS and with a
  single binary compiles them. Domains and handlers live in stores under their addresses; a domain has the
  list of its handlers. The addresses \<open>kore_malloc\<close> returns are arguments.
\<close>

section \<open>State\<close>

definition HANDLER_TYPE_STATIC :: int where "HANDLER_TYPE_STATIC = 1"
definition HANDLER_TYPE_DYNAMIC :: int where "HANDLER_TYPE_DYNAMIC = 2"

text \<open>The compiled expression \<open>rctx\<close> of a dynamic handler is given by its text \<open>h_path\<close>.\<close>

record kore_module_handle =
  h_path :: "byte list"
  h_func :: "byte list"
  h_addr :: nat
  h_type :: int
  h_errors :: int
  h_dom :: nat
  h_auth :: "nat option"

record kore_domain =
  d_domain :: "byte list"
  d_accesslog :: int
  d_handlers :: "nat list"

record modtab =
  modules :: "nat list"
  domains :: "nat list"
  doms :: "nat \<rightharpoonup> kore_domain"
  hdlrs :: "nat \<rightharpoonup> kore_module_handle"
  primary_dom :: "nat option"
  validators :: "kore_validator list"
  auth_list :: "kore_auth list"
  closed :: "int list"

section \<open>Modules\<close>

text \<open>\<open>dlo\<close> is the handle \<open>dlopen\<close> returns, \<open>None\<close> when it fails.\<close>

definition kore_module_load :: "mod_env \<Rightarrow> nat option \<Rightarrow> byte list option \<Rightarrow> modtab \<Rightarrow> modtab res" where
  "kore_module_load env dlo onload t =
     (case dlo of
        None \<Rightarrow> Inl (Fatal ''dlopen'')
      | Some m \<Rightarrow>
          (case onload of
             Some f \<Rightarrow> if m_dlsym env m f = None then Inl (Fatal ''onload not present'') else Inr (t\<lparr>modules := modules t @ [m]\<rparr>)
           | None \<Rightarrow> Inr (t\<lparr>modules := modules t @ [m]\<rparr>)))"

definition kore_module_cleanup :: "modtab \<Rightarrow> modtab" where
  "kore_module_cleanup t = t\<lparr>modules := []\<rparr>"

definition kore_module_loaded :: "modtab \<Rightarrow> bool" where
  "kore_module_loaded t \<longleftrightarrow> modules t \<noteq> []"

section \<open>Domains\<close>

definition kore_domain_init :: "modtab \<Rightarrow> modtab" where
  "kore_domain_init t = t\<lparr>domains := []\<rparr>"

fun domain_loop :: "mod_env \<Rightarrow> (nat \<rightharpoonup> kore_domain) \<Rightarrow> nat list \<Rightarrow> byte list \<Rightarrow> nat option res" where
  "domain_loop env ds [] name = Inr None"
| "domain_loop env ds (d # xs) name =
     (case ds d of
        None \<Rightarrow> Inl Use_after_free
      | Some dm \<Rightarrow> if m_fnmatch env (d_domain dm) name then Inr (Some d) else domain_loop env ds xs name)"

definition kore_domain_lookup :: "mod_env \<Rightarrow> modtab \<Rightarrow> byte list \<Rightarrow> nat option res" where
  "kore_domain_lookup env t name = domain_loop env (doms t) (domains t) name"

definition kore_domain_new :: "mod_env \<Rightarrow> nat \<Rightarrow> modtab \<Rightarrow> byte list \<Rightarrow> (int \<times> modtab) res" where
  "kore_domain_new env a t name =
     rbind (kore_domain_lookup env t name) (\<lambda>d.
       if d \<noteq> None then Inr (KORE_RESULT_ERROR, t)
       else Inr (KORE_RESULT_OK, t\<lparr>doms := (doms t)(a \<mapsto> \<lparr>d_domain = name, d_accesslog = - 1, d_handlers = []\<rparr>),
              domains := domains t @ [a],
              primary_dom := (if primary_dom t = None then Some a else primary_dom t)\<rparr>))"

definition kore_module_handler_free :: "modtab \<Rightarrow> nat option \<Rightarrow> modtab res" where
  "kore_module_handler_free t hdlr =
     (case hdlr of
        None \<Rightarrow> Inr t
      | Some x \<Rightarrow> if hdlrs t x = None then Inl Use_after_free else Inr (t\<lparr>hdlrs := (hdlrs t)(x := None)\<rparr>))"

text \<open>The loop that drops the handlers of a domain.\<close>

fun free_handlers :: "nat \<Rightarrow> nat list \<Rightarrow> modtab \<Rightarrow> modtab res" where
  "free_handlers d [] t = Inr t"
| "free_handlers d (x # xs) t =
     (case doms t d of
        None \<Rightarrow> Inl Use_after_free
      | Some dm \<Rightarrow>
          rbind (kore_module_handler_free (t\<lparr>doms := (doms t)(d \<mapsto> dm\<lparr>d_handlers := xs\<rparr>)\<rparr>) (Some x)) (free_handlers d xs))"

text \<open>\<open>TAILQ_REMOVE\<close> on a domain that was just taken from the front of the list writes the links that are there
  already, so it has no effect.\<close>

definition kore_domain_free :: "modtab \<Rightarrow> nat option \<Rightarrow> modtab res" where
  "kore_domain_free t p =
     (case p of
        None \<Rightarrow> Inr t
      | Some d \<Rightarrow>
          (case doms t d of
             None \<Rightarrow> Inl Use_after_free
           | Some dm \<Rightarrow>
               let t1 = t\<lparr>primary_dom := (if primary_dom t = Some d then None else primary_dom t), domains := remove1 d (domains t)\<rparr> in
               rbind (free_handlers d (d_handlers dm) t1) (\<lambda>t2. Inr (t2\<lparr>doms := (doms t2)(d := None)\<rparr>))))"

fun cleanup_loop :: "nat list \<Rightarrow> modtab \<Rightarrow> modtab res" where
  "cleanup_loop [] t = Inr t"
| "cleanup_loop (d # ds) t = rbind (kore_domain_free (t\<lparr>domains := ds\<rparr>) (Some d)) (cleanup_loop ds)"

definition kore_domain_cleanup :: "modtab \<Rightarrow> modtab res" where
  "kore_domain_cleanup t = cleanup_loop (domains t) t"

fun closelogs_loop :: "(nat \<rightharpoonup> kore_domain) \<Rightarrow> nat list \<Rightarrow> int list res" where
  "closelogs_loop ds [] = Inr []"
| "closelogs_loop ds (d # xs) =
     (case ds d of
        None \<Rightarrow> Inl Use_after_free
      | Some dm \<Rightarrow> rbind (closelogs_loop ds xs) (\<lambda>fds. Inr (if d_accesslog dm \<noteq> - 1 then d_accesslog dm # fds else fds)))"

definition kore_domain_closelogs :: "modtab \<Rightarrow> modtab res" where
  "kore_domain_closelogs t = rbind (closelogs_loop (doms t) (domains t)) (\<lambda>fds. Inr (t\<lparr>closed := closed t @ fds\<rparr>))"

fun kore_domain_callback :: "(nat \<Rightarrow> modtab \<Rightarrow> modtab res) \<Rightarrow> nat list \<Rightarrow> modtab \<Rightarrow> modtab res" where
  "kore_domain_callback cb [] t = Inr t"
| "kore_domain_callback cb (d # ds) t = rbind (cb d t) (kore_domain_callback cb ds)"

section \<open>Handlers\<close>

definition kore_module_handler_new ::
    "mod_env \<Rightarrow> nat \<Rightarrow> modtab \<Rightarrow> byte list \<Rightarrow> byte list \<Rightarrow> byte list \<Rightarrow> byte list option \<Rightarrow> int \<Rightarrow> (int \<times> modtab) res" where
  "kore_module_handler_new env a t path domain func auth type =
     (case kore_module_getsym env (modules t) func of
        None \<Rightarrow> Inr (KORE_RESULT_ERROR, t)
      | Some addr \<Rightarrow>
          rbind (kore_domain_lookup env t domain) (\<lambda>p.
            case p of
              None \<Rightarrow> Inr (KORE_RESULT_ERROR, t)
            | Some d \<Rightarrow>
                rbind (case auth of
                    None \<Rightarrow> Inr None
                  | Some name \<Rightarrow> (case kore_auth_lookup (auth_list t) name of
                        None \<Rightarrow> Inl (Fatal ''no authentication block found'')
                      | Some i \<Rightarrow> Inr (Some i))) (\<lambda>ap.
                let hdlr = \<lparr>h_path = path, h_func = func, h_addr = addr, h_type = type, h_errors = 0, h_dom = d, h_auth = ap\<rparr> in
                if type = HANDLER_TYPE_DYNAMIC \<and> \<not> m_regcomp env path then
                  rbind (kore_module_handler_free (t\<lparr>hdlrs := (hdlrs t)(a \<mapsto> hdlr)\<rparr>) (Some a)) (\<lambda>t1. Inr (KORE_RESULT_ERROR, t1))
                else
                  (case doms t d of
                     None \<Rightarrow> Inl Use_after_free
                   | Some dm \<Rightarrow> Inr (KORE_RESULT_OK,
                       t\<lparr>hdlrs := (hdlrs t)(a \<mapsto> hdlr), doms := (doms t)(d \<mapsto> dm\<lparr>d_handlers := d_handlers dm @ [a]\<rparr>)\<rparr>)))))"

definition handler_matches :: "mod_env \<Rightarrow> kore_module_handle \<Rightarrow> byte list \<Rightarrow> bool" where
  "handler_matches env hdlr path =
     (if h_type hdlr = HANDLER_TYPE_STATIC then h_path hdlr = path else m_regexec env (h_path hdlr) path)"

fun handler_loop :: "mod_env \<Rightarrow> (nat \<rightharpoonup> kore_module_handle) \<Rightarrow> nat list \<Rightarrow> byte list \<Rightarrow> nat option res" where
  "handler_loop env hs [] path = Inr None"
| "handler_loop env hs (x # xs) path =
     (case hs x of
        None \<Rightarrow> Inl Use_after_free
      | Some hdlr \<Rightarrow> if handler_matches env hdlr path then Inr (Some x) else handler_loop env hs xs path)"

definition module_handler_find :: "mod_env \<Rightarrow> modtab \<Rightarrow> byte list \<Rightarrow> byte list \<Rightarrow> nat option res" where
  "module_handler_find env t domain path =
     rbind (kore_domain_lookup env t domain) (\<lambda>p.
       case p of
         None \<Rightarrow> Inr None
       | Some d \<Rightarrow> (case doms t d of None \<Rightarrow> Inl Use_after_free | Some dm \<Rightarrow> handler_loop env (hdlrs t) (d_handlers dm) path))"

section \<open>Invariant\<close>

text \<open>The tables own their nodes: the domain list and the handler lists have no duplicates and no dangling addresses, every
  domain is on the list, and every handler is on the list of exactly the domain it points back to.\<close>

definition modtab_ok :: "modtab \<Rightarrow> bool" where
  "modtab_ok t \<longleftrightarrow> distinct (domains t) \<and> set (domains t) = dom (doms t) \<and>
     (\<forall>d dm. doms t d = Some dm \<longrightarrow> distinct (d_handlers dm) \<and>
        (\<forall>x. x \<in> set (d_handlers dm) \<longleftrightarrow> (\<exists>hh. hdlrs t x = Some hh \<and> h_dom hh = d))) \<and>
     (\<forall>x hh. hdlrs t x = Some hh \<longrightarrow> h_dom hh \<in> dom (doms t)) \<and>
     (\<forall>d. primary_dom t = Some d \<longrightarrow> d \<in> dom (doms t))"

lemma modtab_okD:
  assumes "modtab_ok t"
  shows "distinct (domains t)" "set (domains t) = dom (doms t)"
    "doms t d = Some dm \<Longrightarrow> distinct (d_handlers dm)"
    "doms t d = Some dm \<Longrightarrow> x \<in> set (d_handlers dm) \<longleftrightarrow> (\<exists>hh. hdlrs t x = Some hh \<and> h_dom hh = d)"
    "hdlrs t x = Some hh \<Longrightarrow> h_dom hh \<in> dom (doms t)"
    "primary_dom t = Some d \<Longrightarrow> d \<in> dom (doms t)"
  using assms unfolding modtab_ok_def by blast+

lemma domain_loop_find:
  assumes "set xs \<subseteq> dom ds"
  shows "domain_loop env ds xs name = Inr (find (\<lambda>d. m_fnmatch env (d_domain (the (ds d))) name) xs)"
  using assms by (induction xs) auto

lemma kore_domain_lookup_ok:
  assumes "modtab_ok t"
  shows "kore_domain_lookup env t name = Inr (find (\<lambda>d. m_fnmatch env (d_domain (the (doms t d))) name) (domains t))"
  unfolding kore_domain_lookup_def by (rule domain_loop_find) (simp add: modtab_okD(2) [OF assms])

lemma handler_loop_find:
  assumes "set xs \<subseteq> dom hs"
  shows "handler_loop env hs xs path = Inr (find (\<lambda>x. handler_matches env (the (hs x)) path) xs)"
  using assms by (induction xs) auto

lemma find_mem: "find P xs = Some x \<Longrightarrow> x \<in> set xs \<and> P x"
  by (auto simp: find_Some_iff)

section \<open>Operations keep the invariant\<close>

lemma kore_domain_new_ok:
  assumes "modtab_ok t" "a \<notin> dom (doms t)"
  shows "\<exists>r t'. kore_domain_new env a t name = Inr (r, t') \<and> modtab_ok t'"
proof -
  have nx: "h_dom hh \<noteq> a" if "hdlrs t x = Some hh" for x hh using modtab_okD(5) [OF assms(1) that] assms(2) by blast
  show ?thesis
  proof (cases "find (\<lambda>d. m_fnmatch env (d_domain (the (doms t d))) name) (domains t)")
    case None
    let ?t = "t\<lparr>doms := (doms t)(a \<mapsto> \<lparr>d_domain = name, d_accesslog = - 1, d_handlers = []\<rparr>), domains := domains t @ [a],
      primary_dom := (if primary_dom t = None then Some a else primary_dom t)\<rparr>"
    have "kore_domain_new env a t name = Inr (KORE_RESULT_OK, ?t)"
      using None by (simp add: kore_domain_new_def kore_domain_lookup_ok [OF assms(1)])
    moreover have "modtab_ok ?t"
      using assms nx unfolding modtab_ok_def by (auto split: if_splits)
    ultimately show ?thesis by blast
  next
    case (Some d)
    then have "kore_domain_new env a t name = Inr (KORE_RESULT_ERROR, t)"
      by (simp add: kore_domain_new_def kore_domain_lookup_ok [OF assms(1)])
    then show ?thesis using assms(1) by blast
  qed
qed

lemma add_handler_ok:
  assumes "modtab_ok t" "hdlrs t a = None" "doms t d = Some dm" "h_dom hh = d"
  shows "modtab_ok (t\<lparr>hdlrs := (hdlrs t)(a \<mapsto> hh), doms := (doms t)(d \<mapsto> dm\<lparr>d_handlers := d_handlers dm @ [a]\<rparr>)\<rparr>)"
proof -
  have na: "a \<notin> set (d_handlers dm)" using modtab_okD(4) [OF assms(1,3)] assms(2) by simp
  have "distinct (d_handlers d2) \<and> (\<forall>x. x \<in> set (d_handlers d2) \<longleftrightarrow> (\<exists>h2. ((hdlrs t)(a \<mapsto> hh)) x = Some h2 \<and> h_dom h2 = d1))"
    if "((doms t)(d \<mapsto> dm\<lparr>d_handlers := d_handlers dm @ [a]\<rparr>)) d1 = Some d2" for d1 d2
  proof (cases "d1 = d")
    case True
    then show ?thesis using that na modtab_okD(3,4) [OF assms(1,3)] assms(2,4) by auto
  next
    case False
    then have "doms t d1 = Some d2" using that by simp
    then show ?thesis using modtab_okD(3,4) [OF assms(1), of d1 d2] assms(2,4) False by auto
  qed
  then show ?thesis
    using assms modtab_okD(1,2,5,6) [OF assms(1)] unfolding modtab_ok_def by (auto simp: insert_absorb split: if_splits)
qed

lemma module_handler_find_ok:
  assumes "modtab_ok t"
  shows "module_handler_find env t domain path =
    Inr (case find (\<lambda>d. m_fnmatch env (d_domain (the (doms t d))) domain) (domains t) of
           None \<Rightarrow> None
         | Some d \<Rightarrow> find (\<lambda>x. handler_matches env (the (hdlrs t x)) path) (d_handlers (the (doms t d))))"
proof (cases "find (\<lambda>d. m_fnmatch env (d_domain (the (doms t d))) domain) (domains t)")
  case (Some d)
  then obtain dm where d: "doms t d = Some dm" using find_mem [OF Some] modtab_okD(2) [OF assms] by auto
  then have "set (d_handlers dm) \<subseteq> dom (hdlrs t)" using modtab_okD(4) [OF assms d] by auto
  then show ?thesis
    using Some d handler_loop_find [of "d_handlers dm" "hdlrs t"]
    by (simp add: module_handler_find_def kore_domain_lookup_ok [OF assms])
qed (simp add: module_handler_find_def kore_domain_lookup_ok [OF assms])

lemma find_append: "find P (xs @ ys) = (case find P xs of None \<Rightarrow> find P ys | Some x \<Rightarrow> Some x)"
  by (induction xs) simp_all

lemma find_cong': "(\<And>x. x \<in> set xs \<Longrightarrow> P x = Q x) \<Longrightarrow> find P xs = find Q xs"
  by (induction xs) auto

section \<open>Cleanup\<close>

text \<open>Freeing the handlers of one domain.\<close>

lemma free_handlers_ok:
  assumes "doms t d = Some dm" "d_handlers dm = xs" "distinct xs" "set xs \<subseteq> dom (hdlrs t)"
  shows "\<exists>t'. free_handlers d xs t = Inr t' \<and> domains t' = domains t \<and> primary_dom t' = primary_dom t \<and>
    (\<forall>x. hdlrs t' x = (if x \<in> set xs then None else hdlrs t x)) \<and> (\<forall>e. e \<noteq> d \<longrightarrow> doms t' e = doms t e) \<and> doms t' d \<noteq> None"
  using assms
proof (induction xs arbitrary: t dm)
  case (Cons x xs)
  let ?t = "t\<lparr>doms := (doms t)(d \<mapsto> dm\<lparr>d_handlers := xs\<rparr>), hdlrs := (hdlrs t)(x := None)\<rparr>"
  have "\<exists>t'. free_handlers d xs ?t = Inr t' \<and> domains t' = domains ?t \<and> primary_dom t' = primary_dom ?t \<and>
    (\<forall>y. hdlrs t' y = (if y \<in> set xs then None else hdlrs ?t y)) \<and> (\<forall>e. e \<noteq> d \<longrightarrow> doms t' e = doms ?t e) \<and> doms t' d \<noteq> None"
    by (rule Cons.IH [where dm = "dm\<lparr>d_handlers := xs\<rparr>"]) (use Cons.prems in auto)
  then obtain t' where t': "free_handlers d xs ?t = Inr t'" "domains t' = domains ?t" "primary_dom t' = primary_dom ?t"
      "\<And>y. hdlrs t' y = (if y \<in> set xs then None else hdlrs ?t y)" "\<And>e. e \<noteq> d \<Longrightarrow> doms t' e = doms ?t e" "doms t' d \<noteq> None"
    by blast
  have "hdlrs t' y = (if y \<in> set (x # xs) then None else hdlrs t y)" for y using t'(4) [of y] by auto
  moreover have "doms t' e = doms t e" if "e \<noteq> d" for e using t'(5) [OF that] that by simp
  moreover have "free_handlers d (x # xs) t = Inr t'"
    using Cons.prems t'(1) by (auto simp: kore_module_handler_free_def)
  ultimately show ?case using t'(2,3,6) by (intro exI [of _ t']) simp
qed simp

lemma kore_domain_free_ok:
  assumes "modtab_ok (t\<lparr>domains := d # ds\<rparr>)"
  shows "\<exists>t'. kore_domain_free (t\<lparr>domains := ds\<rparr>) (Some d) = Inr t' \<and> modtab_ok t' \<and> domains t' = ds"
proof -
  let ?t0 = "t\<lparr>domains := d # ds\<rparr>"
  note ok = modtab_okD [OF assms]
  have d: "d \<notin> set ds" "distinct ds" "insert d (set ds) = dom (doms t)" using ok(1,2) by auto
  obtain dm where dm: "doms t d = Some dm" using d(3) by blast
  have hs: "distinct (d_handlers dm)" "\<And>x. x \<in> set (d_handlers dm) \<longleftrightarrow> (\<exists>hh. hdlrs t x = Some hh \<and> h_dom hh = d)"
    using ok(3,4) [of d dm] dm by simp_all
  let ?t1 = "t\<lparr>primary_dom := (if primary_dom t = Some d then None else primary_dom t), domains := ds\<rparr>"
  have r: "remove1 d ds = ds" using d(1) by (simp add: remove1_idem)
  have "set (d_handlers dm) \<subseteq> dom (hdlrs t)" using hs(2) by auto
  then obtain t2 where t2: "free_handlers d (d_handlers dm) ?t1 = Inr t2" "domains t2 = ds"
      "primary_dom t2 = (if primary_dom t = Some d then None else primary_dom t)"
      "\<forall>x. hdlrs t2 x = (if x \<in> set (d_handlers dm) then None else hdlrs t x)" "\<forall>e. e \<noteq> d \<longrightarrow> doms t2 e = doms t e" "doms t2 d \<noteq> None"
    using free_handlers_ok [of ?t1 d dm "d_handlers dm"] dm hs(1) by auto
  let ?t = "t2\<lparr>doms := (doms t2)(d := None)\<rparr>"
  have run: "kore_domain_free (t\<lparr>domains := ds\<rparr>) (Some d) = Inr ?t"
    using dm t2(1) r by (simp add: kore_domain_free_def Let_def split del: if_split cong: if_cong)
  have dd: "doms ?t = (doms t)(d := None)" using t2(5) by auto
  have hh: "hdlrs ?t = (\<lambda>x. if \<exists>h. hdlrs t x = Some h \<and> h_dom h = d then None else hdlrs t x)"
    using t2(4) hs(2) by auto
  have "modtab_ok ?t"
    unfolding modtab_ok_def dd hh
  proof (intro conjI allI impI)
    show "distinct (domains ?t)" using d(2) t2(2) by simp
    show "set (domains ?t) = dom ((doms t)(d := None))" using d t2(2) by auto
  next
    fix e em assume e: "((doms t)(d := None)) e = Some em"
    then have e': "e \<noteq> d" "doms t e = Some em" by (auto split: if_splits)
    then show "distinct (d_handlers em)" using ok(3) [of e em] by simp
    fix x
    show "x \<in> set (d_handlers em) \<longleftrightarrow> (\<exists>hh. (if \<exists>h. hdlrs t x = Some h \<and> h_dom h = d then None else hdlrs t x) = Some hh \<and> h_dom hh = e)"
      using ok(4) [of e em x] e' by auto
  next
    fix x hh assume "(if \<exists>h. hdlrs t x = Some h \<and> h_dom h = d then None else hdlrs t x) = Some hh"
    then have "hdlrs t x = Some hh" "h_dom hh \<noteq> d" by (auto split: if_splits)
    then show "h_dom hh \<in> dom ((doms t)(d := None))" using ok(5) [of x hh] by auto
  next
    fix e assume "primary_dom ?t = Some e"
    then have "primary_dom t = Some e" "e \<noteq> d" using t2(3) by (auto split: if_splits)
    then show "e \<in> dom ((doms t)(d := None))" using ok(6) [of e] by auto
  qed
  then show ?thesis using run t2(2) by auto
qed

lemma cleanup_loop_ok:
  assumes "modtab_ok t" "domains t = ds"
  shows "\<exists>t'. cleanup_loop ds t = Inr t' \<and> modtab_ok t' \<and> domains t' = []"
  using assms
proof (induction ds arbitrary: t)
  case (Cons d ds)
  have "modtab_ok (t\<lparr>domains := d # ds\<rparr>)" using Cons.prems by (simp flip: Cons.prems(2))
  then obtain t1 where t1: "kore_domain_free (t\<lparr>domains := ds\<rparr>) (Some d) = Inr t1" "modtab_ok t1" "domains t1 = ds"
    using kore_domain_free_ok by blast
  then show ?case using Cons.IH [OF t1(2,3)] by simp
qed auto

section \<open>Properties\<close>

text \<open>Registration and lookup: a successful \<open>kore_module_handler_new\<close> keeps the tables sound, and afterwards
  \<open>kore_module_handler_find\<close> still returns what it returned before; where it returned nothing it now
  returns the new handler, exactly for the domain the handler was registered for and the paths the handler
  matches. So of several handlers the one registered first wins.\<close>

theorem kore_module_handler_register:
  assumes "modtab_ok t" "hdlrs t a = None"
    and "kore_module_handler_new env a t path domain func auth type = Inr (KORE_RESULT_OK, t')"
  shows "modtab_ok t' \<and> module_handler_find env t' dn p =
      (case module_handler_find env t dn p of
         Inr None \<Rightarrow> Inr (if kore_domain_lookup env t dn = kore_domain_lookup env t domain \<and>
                            (if type = HANDLER_TYPE_STATIC then path = p else m_regexec env path p) then Some a else None)
       | r \<Rightarrow> r)"
proof -
  let ?look = "\<lambda>t name. find (\<lambda>d. m_fnmatch env (d_domain (the (doms t d))) name) (domains t)"
  obtain addr d ap dm where n: "kore_module_getsym env (modules t) func = Some addr" "?look t domain = Some d" "doms t d = Some dm"
      "t' = t\<lparr>hdlrs := (hdlrs t)(a \<mapsto> \<lparr>h_path = path, h_func = func, h_addr = addr, h_type = type, h_errors = 0, h_dom = d, h_auth = ap\<rparr>),
              doms := (doms t)(d \<mapsto> dm\<lparr>d_handlers := d_handlers dm @ [a]\<rparr>)\<rparr>"
    using assms(3) unfolding kore_module_handler_new_def kore_domain_lookup_ok [OF assms(1)]
    by (auto simp: rbind_eq_Inr Let_def split: option.splits if_splits)
  let ?h = "\<lparr>h_path = path, h_func = func, h_addr = addr, h_type = type, h_errors = 0, h_dom = d, h_auth = ap\<rparr>"
  have ok': "modtab_ok t'" unfolding n(4) by (rule add_handler_ok [OF assms(1,2) n(3)]) simp
  have look: "?look t' dn = ?look t dn"
    using n(3) by (auto simp: n(4) intro!: find_cong')
  have hs: "find (\<lambda>x. handler_matches env (the (hdlrs t' x)) p) (d_handlers (the (doms t e))) =
      find (\<lambda>x. handler_matches env (the (hdlrs t x)) p) (d_handlers (the (doms t e)))" if e: "?look t dn = Some e" for e
  proof (rule find_cong')
    obtain em where em: "doms t e = Some em" using find_mem [OF e] modtab_okD(2) [OF assms(1)] by auto
    fix x assume "x \<in> set (d_handlers (the (doms t e)))"
    then have "x \<noteq> a" using modtab_okD(4) [OF assms(1) em] assms(2) em by auto
    then show "handler_matches env (the (hdlrs t' x)) p = handler_matches env (the (hdlrs t x)) p" by (simp add: n(4))
  qed
  have ma: "handler_matches env (the (hdlrs t' a)) p \<longleftrightarrow> (if type = HANDLER_TYPE_STATIC then path = p else m_regexec env path p)"
    by (simp add: n(4) handler_matches_def)
  have "module_handler_find env t' dn p =
      (case module_handler_find env t dn p of
         Inr None \<Rightarrow> Inr (if kore_domain_lookup env t dn = kore_domain_lookup env t domain \<and>
                            (if type = HANDLER_TYPE_STATIC then path = p else m_regexec env path p) then Some a else None)
       | r \<Rightarrow> r)"
  proof (cases "?look t dn")
    case None
    then show ?thesis
      using n(2) by (simp add: module_handler_find_ok ok' assms(1) look kore_domain_lookup_ok)
  next
    case (Some e)
    show ?thesis
    proof (cases "e = d")
      case True
      then have "d_handlers (the (doms t' e)) = d_handlers (the (doms t e)) @ [a]" by (simp add: n(3,4))
      then show ?thesis
        using Some True n(2) hs [OF Some] ma
        by (auto simp: module_handler_find_ok ok' assms(1) look kore_domain_lookup_ok find_append split: option.splits)
    next
      case False
      then have "doms t' e = doms t e" by (simp add: n(4))
      then show ?thesis
        using Some False n(2) hs [OF Some]
        by (auto simp: module_handler_find_ok ok' assms(1) look kore_domain_lookup_ok split: option.splits)
    qed
  qed
  with ok' show ?thesis ..
qed

text \<open>Cleanup frees everything once: \<open>kore_domain_cleanup\<close> on sound tables ends without freeing a domain or a
  handler twice and leaves no domain, no handler and no primary domain behind.\<close>

theorem kore_domain_cleanup_frees:
  assumes "modtab_ok t"
  shows "\<exists>t'. kore_domain_cleanup t = Inr t' \<and> domains t' = [] \<and> doms t' = Map.empty \<and> hdlrs t' = Map.empty \<and> primary_dom t' = None"
proof -
  obtain t' where t': "cleanup_loop (domains t) t = Inr t'" "modtab_ok t'" "domains t' = []"
    using cleanup_loop_ok [OF assms refl] by blast
  have d: "dom (doms t') = {}" using modtab_okD(2) [OF t'(2)] t'(3) by simp
  then have "hdlrs t' = Map.empty" using modtab_okD(5) [OF t'(2)] by (intro ext, rename_tac x, case_tac "hdlrs t' x") auto
  moreover have "primary_dom t' = None" using modtab_okD(6) [OF t'(2)] d by (cases "primary_dom t'") auto
  ultimately show ?thesis using t' d by (auto simp: kore_domain_cleanup_def)
qed

text \<open>An empty table, and one with a domain and a module that has every symbol.\<close>

definition empty_tab :: modtab where
  "empty_tab = \<lparr>modules = [9], domains = [], doms = Map.empty, hdlrs = Map.empty, primary_dom = None, validators = [],
     auth_list = [], closed = []\<rparr>"

definition site_tab :: modtab where
  "site_tab = empty_tab\<lparr>domains := [1], doms := [1 \<mapsto> \<lparr>d_domain = bs ''site'', d_accesslog = - 1, d_handlers = [2]\<rparr>],
     hdlrs := [2 \<mapsto> \<lparr>h_path = bs ''/'', h_func = bs ''f'', h_addr = 7, h_type = HANDLER_TYPE_STATIC, h_errors = 0, h_dom = 1, h_auth = None\<rparr>],
     primary_dom := Some 1\<rparr>"

definition site_menv :: mod_env where
  "site_menv = plain_menv\<lparr>m_dlsym := \<lambda>_ _. Some 7\<rparr>"

lemma site_tab_ok: "modtab_ok site_tab"
  by (auto simp: modtab_ok_def site_tab_def empty_tab_def split: if_splits)

theorem kore_module_handler_register_witness:
  "\<exists>t'. kore_module_handler_new site_menv 3 site_tab (bs ''/a'') (bs ''SITE'') (bs ''g'') None HANDLER_TYPE_STATIC = Inr (KORE_RESULT_OK, t') \<and>
     modtab_ok t' \<and> module_handler_find site_menv t' (bs ''site'') (bs ''/a'') = Inr (Some 3) \<and>
     module_handler_find site_menv t' (bs ''site'') (bs ''/'') = Inr (Some 2)"
proof -
  have eq: "strcaseeq (bs ''site'') (bs ''SITE'')" "strcaseeq (bs ''site'') (bs ''site'')"
    by (simp_all add: strcaseeq_def bs_def tolower_def)
  note d = site_tab_def empty_tab_def site_menv_def plain_menv_def kore_domain_lookup_def eq
  have new: "\<exists>t'. kore_module_handler_new site_menv 3 site_tab (bs ''/a'') (bs ''SITE'') (bs ''g'') None HANDLER_TYPE_STATIC = Inr (KORE_RESULT_OK, t')"
    by (simp add: kore_module_handler_new_def d HANDLER_TYPE_STATIC_def HANDLER_TYPE_DYNAMIC_def)
  then obtain t' where t': "kore_module_handler_new site_menv 3 site_tab (bs ''/a'') (bs ''SITE'') (bs ''g'') None HANDLER_TYPE_STATIC = Inr (KORE_RESULT_OK, t')"
    by blast
  have "hdlrs site_tab 3 = None" by (simp add: site_tab_def)
  note r = kore_module_handler_register [OF site_tab_ok this t']
  have "module_handler_find site_menv site_tab (bs ''site'') (bs ''/a'') = Inr None"
      "module_handler_find site_menv site_tab (bs ''site'') (bs ''/'') = Inr (Some 2)"
      "kore_domain_lookup site_menv site_tab (bs ''site'') = kore_domain_lookup site_menv site_tab (bs ''SITE'')"
    by (simp_all add: module_handler_find_def d handler_matches_def) (simp_all add: bs_def)
  then show ?thesis using t' r [of "bs ''site''" "bs ''/a''"] r [of "bs ''site''" "bs ''/''"] by simp
qed

theorem kore_domain_cleanup_frees_witness:
  "\<exists>t'. kore_domain_cleanup site_tab = Inr t' \<and> domains t' = [] \<and> doms t' = Map.empty \<and> hdlrs t' = Map.empty \<and> primary_dom t' = None"
  by (rule kore_domain_cleanup_frees [OF site_tab_ok])

end
