(* ===== verification/Http_Inv.thy ===== *)
theory Http_Inv
  imports Http_Flow
begin

text \<open>
  What holds on the HTTP receive path whatever bytes arrive: no fault, and the request lists stay consistent. The
  interface \<open>recv_client\<close> says what \<open>net_recv_flush\<close> of \<open>base/kore/net.c\<close> needs of its callbacks; the callbacks of
  \<open>base/kore/http.c\<close> provide it.
\<close>

section \<open>The interface of receive callbacks\<close>

text \<open>\<open>inv n\<close> is the state in which the loop may take \<open>n\<close> more turns; \<open>fin\<close> holds after the last one. A
  callback is run when the buffer is full, or on every piece when it asked for that.\<close>

locale recv_client =
  fixes call :: "('w, 'k, 'a) callbacks"
    and inv :: "nat \<Rightarrow> 'w \<Rightarrow> ('k, 'a) connection_scheme \<Rightarrow> bool"
    and fin :: "'w \<Rightarrow> ('k, 'a) connection_scheme \<Rightarrow> bool"
  assumes inv_buf: "inv n w c \<Longrightarrow> \<exists>nb k. rnb c = Some nb \<and> recv_ok nb \<and> nb_cb nb = Some k"
    and inv_fill: "inv (Suc n) w c \<Longrightarrow> rnb c = Some nb \<Longrightarrow> s_off nb + length d \<le> b_len nb \<Longrightarrow>
          inv (Suc n) w (c\<lparr>rnb := Some (nb\<lparr>nb_buf := memcpy_at (nb_buf nb) (s_off nb) d, s_off := s_off nb + length d\<rparr>)\<rparr>)"
    and inv_down: "inv (Suc n) w c \<Longrightarrow> inv n w c"
    and inv_fin: "inv n w c \<Longrightarrow> fin w (c\<lparr>read_possible := p\<rparr>)"
    and call_ok: "inv (Suc n) w c \<Longrightarrow> rnb c = Some nb \<Longrightarrow> nb_cb nb = Some k \<Longrightarrow> s_off nb = b_len nb \<or> nb_call_always nb \<Longrightarrow>
          \<exists>res w' c'. call k w c = Inr (res, w', c') \<and> (if res = KORE_RESULT_OK then inv n w' c' else fin w' c')"
begin

lemma fin_same: "inv n w c \<Longrightarrow> fin w c"
  using inv_fin [of n w c "read_possible c"] by simp

lemma turn_ok:
  assumes "inv (Suc n) w c" "read_possible c"
  shows "\<exists>stop w' c'. net_recv_turn call w c r = Inr (stop, w', c') \<and>
    (case stop of None \<Rightarrow> inv n w' c' | Some res \<Rightarrow> fin w' c')"
proof -
  from inv_buf [OF assms(1)] obtain nb k where nb: "rnb c = Some nb" "recv_ok nb" "nb_cb nb = Some k" by blast
  have data: ?thesis if "net_recv_turn call w c r = net_recv_turn call w c (Rd d)" "s_off nb + length d \<le> b_len nb" for d
  proof -
    let ?nb = "nb\<lparr>nb_buf := memcpy_at (nb_buf nb) (s_off nb) d, s_off := s_off nb + length d\<rparr>"
    let ?c = "c\<lparr>rnb := Some ?nb\<rparr>"
    note i = inv_fill [OF assms(1) nb(1) that(2)]
    show ?thesis
    proof (cases "s_off ?nb = b_len ?nb \<or> nb_call_always ?nb")
      case True
      from call_ok [OF i, of ?nb k] True nb(3) obtain res w' c' where
        "call k w ?c = Inr (res, w', c')" "if res = KORE_RESULT_OK then inv n w' c' else fin w' c'" by auto
      with True nb that(1) show ?thesis
        by (simp add: net_recv_turn_data [OF nb(1,2) assms(2) that(2)] Let_def)
    next
      case False
      with nb that(1) inv_down [OF i] show ?thesis
        by (simp add: net_recv_turn_data [OF nb(1,2) assms(2) that(2)] Let_def)
    qed
  qed
  have err: ?thesis if "e = EAGAIN \<or> e = Eother" "r = Rd_eof e \<or> r = Rd_error e" for e
    using that nb assms(2) inv_fin [OF assms(1), of False] fin_same [OF assms(1)]
    by (auto simp: net_recv_turn_def net_read_def)
  show ?thesis
  proof (cases r)
    case (Rd bytes)
    then have "net_recv_turn call w c r = net_recv_turn call w c (Rd (take (b_len nb - s_off nb) bytes))"
      using nb(1) by (simp add: net_recv_turn_def net_read_def min_def)
    then show ?thesis by (rule data) (use nb(2) in \<open>auto simp: recv_ok_def\<close>)
  next
    case (Rd_eof e)
    show ?thesis
    proof (cases e)
      case EINTR
      with Rd_eof nb show ?thesis by (intro data [of "[]"]) (auto simp: net_recv_turn_def net_read_def recv_ok_def)
    qed (use Rd_eof err in auto)
  next
    case (Rd_error e)
    show ?thesis
    proof (cases e)
      case EINTR
      with Rd_error nb show ?thesis by (intro data [of "[]"]) (auto simp: net_recv_turn_def net_read_def recv_ok_def)
    qed (use Rd_error err in auto)
  qed
qed

text \<open>Whatever the kernel returns, the loop does not fault.\<close>

lemma recv_loop_ok:
  "length script \<le> n \<Longrightarrow> inv n w c \<Longrightarrow>
    \<exists>r. recv_loop call w c script = Inr r \<and> (case r of None \<Rightarrow> True | Some (res, w', c') \<Rightarrow> fin w' c')"
proof (induction script arbitrary: n w c)
  case Nil
  then show ?case using fin_same [OF Nil.prems(2)] by (auto simp: recv_loop.simps [of call w c])
next
  case (Cons r rs)
  then obtain m where m: "n = Suc m" by (cases n) auto
  show ?case
  proof (cases "read_possible c")
    case True
    from turn_ok [OF Cons.prems(2) [unfolded m] True, of r] obtain stop w' c' where
      t: "net_recv_turn call w c r = Inr (stop, w', c')" "case stop of None \<Rightarrow> inv m w' c' | Some res \<Rightarrow> fin w' c'" by blast
    show ?thesis
    proof (cases stop)
      case None
      with Cons.IH [of m w' c'] Cons.prems(1) m t True show ?thesis by (simp add: recv_loop.simps [of call w c])
    qed (use t True in \<open>simp add: recv_loop.simps [of call w c]\<close>)
  qed (use fin_same [OF Cons.prems(2)] in \<open>simp add: recv_loop.simps [of call w c]\<close>)
qed

lemma net_recv_flush_ok:
  "length script \<le> n \<Longrightarrow> inv n w c \<Longrightarrow>
    \<exists>r. net_recv_flush call w c script = Inr r \<and> (case r of None \<Rightarrow> True | Some (res, w', c') \<Rightarrow> fin w' c')"
  using recv_loop_ok inv_buf by (fastforce simp: net_recv_flush_def)

end

section \<open>The request lists\<close>

definition http_ok :: "http \<Rightarrow> bool" where
  "http_ok h \<longleftrightarrow> distinct (http_requests h @ http_requests_sleeping h) \<and>
     set (http_requests h) \<union> set (http_requests_sleeping h) = dom (reqs h) \<and>
     http_request_count h = int (length (http_requests h @ http_requests_sleeping h)) \<and>
     (\<forall>r req. reqs h r = Some req \<longrightarrow> (rq_sleeping req \<longleftrightarrow> r \<in> set (http_requests_sleeping h)))"

text \<open>The requests on the list of a connection are the live requests that belong to it.\<close>

definition owns :: "http \<Rightarrow> conn \<Rightarrow> bool" where
  "owns h c \<longleftrightarrow> distinct (c_http_requests c) \<and>
     (\<forall>r. r \<in> set (c_http_requests c) \<longleftrightarrow> (\<exists>req. reqs h r = Some req \<and> rq_owner req = cid c))"

lemma set_req_simps [simp]:
  "http_requests (set_req h r req) = http_requests h" "http_requests_sleeping (set_req h r req) = http_requests_sleeping h"
  "reqs (set_req h r req) = (reqs h)(r \<mapsto> req)" "http_request_count (set_req h r req) = http_request_count h"
  "header_buf (set_req h r req) = header_buf h"
  by (simp_all add: set_req_def)

lemma http_ok_header_buf [simp]: "http_ok (h\<lparr>header_buf := b\<rparr>) = http_ok h"
  by (simp add: http_ok_def)

lemma owns_header_buf [simp]: "owns (h\<lparr>header_buf := b\<rparr>) c = owns h c"
  by (simp add: owns_def)

lemma http_ok_set_req:
  "http_ok h \<Longrightarrow> reqs h r = Some req \<Longrightarrow> rq_sleeping req' = rq_sleeping req \<Longrightarrow> http_ok (set_req h r req')"
  by (auto simp: http_ok_def)

lemma owns_set_req:
  "owns h c \<Longrightarrow> reqs h r = Some req \<Longrightarrow> rq_owner req' = rq_owner req \<Longrightarrow> owns (set_req h r req') c"
  by (auto simp: owns_def)

lemma http_request_sleep_ok:
  assumes "http_ok h" "reqs h r = Some req"
  shows "\<exists>h'. http_request_sleep h r = Inr h' \<and> http_ok h' \<and> reqs h' = (reqs h)(r \<mapsto> req\<lparr>rq_sleeping := True\<rparr>) \<and>
    header_buf h' = header_buf h"
proof (cases "rq_sleeping req")
  case True
  then have "req\<lparr>rq_sleeping := True\<rparr> = req" by simp
  with True assms show ?thesis by (auto simp: http_request_sleep_def)
next
  case False
  with assms have m: "r \<in> set (http_requests h)" "r \<notin> set (http_requests_sleeping h)" by (auto simp: http_ok_def)
  from split_list [OF m(1)] obtain xs ys where xs: "http_requests h = xs @ r # ys" by blast
  with assms(1) m(2) have d: "r \<notin> set xs" "r \<notin> set ys" by (auto simp: http_ok_def)
  with xs False assms m show ?thesis by (auto simp: http_request_sleep_def http_ok_def remove1_append)
qed

lemma http_request_wakeup_ok:
  assumes "http_ok h" "reqs h r = Some req"
  shows "\<exists>h'. http_request_wakeup h r = Inr h' \<and> http_ok h' \<and> reqs h' = (reqs h)(r \<mapsto> req\<lparr>rq_sleeping := False\<rparr>) \<and>
    header_buf h' = header_buf h"
proof (cases "rq_sleeping req")
  case False
  then have "req\<lparr>rq_sleeping := False\<rparr> = req" by simp
  with False assms show ?thesis by (auto simp: http_request_wakeup_def)
next
  case True
  with assms have m: "r \<in> set (http_requests_sleeping h)" "r \<notin> set (http_requests h)" by (auto simp: http_ok_def)
  from split_list [OF m(1)] obtain xs ys where xs: "http_requests_sleeping h = xs @ r # ys" by blast
  with assms(1) m(2) have d: "r \<notin> set xs" "r \<notin> set ys" by (auto simp: http_ok_def)
  with xs True assms m show ?thesis by (auto simp: http_request_wakeup_def http_ok_def remove1_append)
qed

section \<open>Error responses\<close>

text \<open>The settings of the server in the ranges of their types, and bodies below four exabytes.\<close>

definition http_env_ok :: "http_env \<Rightarrow> bool" where
  "http_env_ok env \<longleftrightarrow> 0 < http_header_max env \<and> http_header_max env < 2 ^ 16 \<and> http_body_max env < 2 ^ 62 \<and>
     http_hsts_enable env < 2 ^ 64"

lemma length_dec_nat: "n < 10 ^ k \<Longrightarrow> 0 < k \<Longrightarrow> length (dec_nat n) \<le> k"
proof (induction k arbitrary: n)
  case (Suc k)
  show ?case
  proof (cases "n < 10")
    case False
    with Suc.prems have "n div 10 < 10 ^ k" "0 < k" by (auto simp: less_mult_imp_div_less mult.commute intro: gr0I)
    from Suc.IH [OF this] False show ?thesis by (subst dec_nat.simps) simp
  qed (simp add: dec_nat.simps)
qed simp

lemma length_status_text: "length (http_status_text s) \<le> 40"
  by (simp add: http_status_text_def bs_def)

definition error_status :: "int \<Rightarrow> bool" where
  "error_status s \<longleftrightarrow> s \<in> {400, 404, 405, 411, 413, 414, 500, 505}"

lemma error_lines:
  assumes "http_env_ok env" "error_status s"
  shows "\<forall>l \<in> set (response_lines env None c s 0). length l < 200" "length (response_lines env None c s 0) \<le> 4"
proof -
  have "dec_int s = dec_nat (nat s)" "nat s < 10 ^ 3" using assms(2) by (auto simp: error_status_def dec_int_def)
  with length_dec_nat [of "nat s" 3] have d1: "length (dec_int s) \<le> 3" by simp
  have "http_hsts_enable env < 10 ^ 20" using assms(1) by (simp add: http_env_ok_def)
  from length_dec_nat [OF this] have d2: "length (dec_nat (http_hsts_enable env)) \<le> 20" by simp
  have d3: "length (dec_nat 0) \<le> 1" by (simp add: dec_nat.simps)
  note t = length_status_text [of s]
  show "\<forall>l \<in> set (response_lines env None c s 0). length l < 200" using d1 d2 d3 t
    by (auto simp: response_lines_def hsts_lines_def length_lines_def bs_def CRLF_def)
  show "length (response_lines env None c s 0) \<le> 4"
    by (auto simp: response_lines_def hsts_lines_def length_lines_def)
qed

lemma length_concat_le: "\<forall>l \<in> set ls. length l < n \<Longrightarrow> length (concat ls) \<le> n * length ls"
  by (induction ls) auto

lemma error_text:
  assumes "http_env_ok env" "error_status s"
  shows "length (response_text env None c s 0) \<le> 1000"
  using length_concat_le [OF error_lines(1) [OF assms, of c]] error_lines(2) [OF assms, of c]
  by (auto simp: response_text_def CRLF_def)

section \<open>Connections on the receive path\<close>

text \<open>\<open>own\<close> are the requests that were there at the start, with their owners, and \<open>c0\<close> the connection then.\<close>

definition http_fin :: "(nat \<rightharpoonup> nat) \<Rightarrow> conn \<Rightarrow> http \<Rightarrow> conn \<Rightarrow> bool" where
  "http_fin own c0 h c \<longleftrightarrow> http_ok h \<and> owns h c \<and> (\<forall>r i. own r = Some i \<longrightarrow> (\<exists>req. reqs h r = Some req \<and> rq_owner req = i)) \<and>
     (\<forall>r req. reqs h r = Some req \<longrightarrow> rq_owner req = cid c0 \<or> own r = Some (rq_owner req)) \<and>
     buf_ok (header_buf h) \<and> send_ok c \<and> cid c = cid c0 \<and> cstate c = cstate c0 \<and> proto c = proto c0 \<and>
     disc_cb c = disc_cb c0 \<and> wscbs c = wscbs c0"

text \<open>What is waited for: a header, or the body of a live request.\<close>

definition body_live :: "nat \<Rightarrow> http_request \<Rightarrow> bool" where
  "body_live n req \<longleftrightarrow> (\<forall>b. http_body req = Some b \<longrightarrow> buf_ok b \<and> blength b + n * 2 ^ 16 < 2 ^ 63)"

definition rnb_live :: "nat \<Rightarrow> http \<Rightarrow> conn \<Rightarrow> bool" where
  "rnb_live n h c \<longleftrightarrow> (\<exists>nb. rnb c = Some nb \<and> recv_ok nb \<and> m_len nb = length (nb_buf nb) \<and> b_len nb < 2 ^ 16 \<and>
     (nb_cb nb = Some Http_header_recv \<or>
      nb_cb nb = Some Http_body_recv \<and> (\<exists>r req. rnb_extra c = Some r \<and> reqs h r = Some req \<and> body_live n req)))"

definition http_live :: "(nat \<rightharpoonup> nat) \<Rightarrow> conn \<Rightarrow> nat \<Rightarrow> http \<Rightarrow> conn \<Rightarrow> bool" where
  "http_live own c0 n h c \<longleftrightarrow> n < 2 ^ 40 \<and> proto c0 = CONN_PROTO_HTTP \<and> http_fin own c0 h c \<and>
     blength (header_buf h) + n * 1000 < 2 ^ 64 \<and> rnb_live n h c"

lemma rnb_live_sized: "rnb_live n h c \<Longrightarrow> rnb_sized c"
  by (auto simp: rnb_live_def rnb_sized_def)

lemma rnb_live_reset:
  "rnb_reset len c c' \<Longrightarrow> rnb_sized c \<Longrightarrow> len < 2 ^ 16 \<Longrightarrow> rnb_live n h c'"
  by (auto simp: rnb_reset_def rnb_live_def)

lemma http_fin_same_conn:
  assumes "http_fin own c0 h c" "same_conn c c'" "send_ok c'" "http_ok h'" "owns h' c'" "buf_ok (header_buf h')"
    "\<And>r. map_option rq_owner (reqs h' r) = map_option rq_owner (reqs h r)"
  shows "http_fin own c0 h' c'"
proof -
  have "disc_cb c' = disc_cb c" "wscbs c' = wscbs c" using assms(2) by (auto simp: same_conn_def)
  moreover have "\<exists>req. reqs h' r = Some req \<and> rq_owner req = i" if o: "own r = Some i" for r i
  proof -
    obtain req where "reqs h r = Some req" "rq_owner req = i" using o assms(1) unfolding http_fin_def by blast
    then show ?thesis using assms(7) [of r] by auto
  qed
  moreover have "rq_owner req = cid c0 \<or> own r = Some (rq_owner req)" if q: "reqs h' r = Some req" for r req
  proof -
    obtain req0 where "reqs h r = Some req0" "rq_owner req0 = rq_owner req" using q assms(7) [of r] by (cases "reqs h r") auto
    then show ?thesis using assms(1) unfolding http_fin_def by metis
  qed
  ultimately show ?thesis using assms(1,3-6) same_connD [OF assms(2)] unfolding http_fin_def by simp
qed

text \<open>An error response on such a connection.\<close>

lemma http_error_response_fin:
  assumes "http_env_ok env" "error_status s" "http_fin own c0 h c" "proto c = CONN_PROTO_HTTP" "rnb c = Some nb" "nb_type nb = NETBUF_RECV"
    "blength (header_buf h) + (n + 1000) < 2 ^ 64"
  shows "\<exists>hb' c'. http_error_response env h c s = Inr (h\<lparr>header_buf := hb'\<rparr>, c') \<and> http_fin own c0 (h\<lparr>header_buf := hb'\<rparr>) c' \<and>
    rnb_extra c' = rnb_extra c \<and> (rnb c' = rnb c \<or> rnb_reset (http_header_max env) c c') \<and> blength hb' + n < 2 ^ 64"
proof -
  from assms(3) have l: "buf_ok (header_buf h)" "send_ok c" "owns h c" "http_ok h" by (auto simp: http_fin_def)
  note t = error_text [OF assms(1,2), of c] and ll = error_lines(1) [OF assms(1,2), of c]
  have "response_ok env (header_buf h) None c s None 0"
    using l t ll assms by (fastforce simp: response_ok_def BUFSIZ_def http_env_ok_def)
  from http_response_normal_ok [OF this, where n = n] obtain hb' c' where
    r: "http_response_normal env (header_buf h) None c s None 0 = Inr (hb', c')" "buf_ok hb'" "send_ok c'" "same_conn c c'"
      "rnb c' = rnb c \<or> rnb_reset (http_header_max env) c c'"
      "blength (header_buf h) + length (response_text env None c s 0) + n < 2 ^ 64 \<longrightarrow> blength hb' + n < 2 ^ 64"
    by blast
  have sc: "c_http_requests c' = c_http_requests c" "cid c' = cid c" "rnb_extra c' = rnb_extra c" using same_connD [OF r(4)] by auto
  have "http_fin own c0 (h\<lparr>header_buf := hb'\<rparr>) c'"
    by (rule http_fin_same_conn [OF assms(3) r(4,3)]) (use l r(2) sc in \<open>auto simp: owns_def\<close>)
  moreover have "blength hb' + n < 2 ^ 64" using r(6) t assms(7) by simp
  ultimately show ?thesis using r(1,5) assms(4) sc(3) by (auto simp: http_error_response_def)
qed

lemma http_error_response_live:
  assumes "http_env_ok env" "error_status s" "http_live own c0 (Suc n) h c"
  shows "\<exists>h' c'. http_error_response env h c s = Inr (h', c') \<and> http_live own c0 n h' c'"
proof -
  from assms(3) have l: "proto c = CONN_PROTO_HTTP" "http_fin own c0 h c" "blength (header_buf h) + (n * 1000 + 1000) < 2 ^ 64"
    "rnb_live (Suc n) h c" by (auto simp: http_live_def http_fin_def)
  then obtain nb where nb: "rnb c = Some nb" "nb_type nb = NETBUF_RECV" by (auto simp: rnb_live_def recv_ok_def)
  from http_error_response_fin [OF assms(1,2) l(2,1) nb l(3)] obtain hb' c' where
    r: "http_error_response env h c s = Inr (h\<lparr>header_buf := hb'\<rparr>, c')" "http_fin own c0 (h\<lparr>header_buf := hb'\<rparr>) c'"
      "rnb_extra c' = rnb_extra c" "rnb c' = rnb c \<or> rnb_reset (http_header_max env) c c'" "blength hb' + n * 1000 < 2 ^ 64" by blast
  have "rnb_live n (h\<lparr>header_buf := hb'\<rparr>) c'" using r(4)
  proof
    assume "rnb c' = rnb c"
    with l(4) r(3) show ?thesis by (fastforce simp: rnb_live_def body_live_def)
  next
    assume "rnb_reset (http_header_max env) c c'"
    then show ?thesis by (rule rnb_live_reset [OF _ rnb_live_sized [OF l(4)]]) (use assms(1) in \<open>simp add: http_env_ok_def\<close>)
  qed
  with r assms(3) show ?thesis by (auto simp: http_live_def)
qed

section \<open>The header callback\<close>

lemma http_live_down: "http_live own c0 (Suc n) h c \<Longrightarrow> http_live own c0 n h c"
  by (fastforce simp: http_live_def rnb_live_def body_live_def)

lemma http_fin_set_req:
  assumes "http_fin own c0 h c" "reqs h r = Some req" "rq_sleeping req' = rq_sleeping req" "rq_owner req' = rq_owner req"
  shows "http_fin own c0 (set_req h r req') c"
proof -
  have "http_ok (set_req h r req')" "owns (set_req h r req') c"
    using assms http_ok_set_req owns_set_req by (auto simp: http_fin_def)
  with assms show ?thesis by (rule_tac http_fin_same_conn [OF assms(1)]) (auto simp: http_fin_def)
qed

lemma http_live_set_req:
  assumes "http_live own c0 n h c" "reqs h r = Some req" "rq_sleeping req' = rq_sleeping req" "rq_owner req' = rq_owner req"
    "body_live n req'"
  shows "http_live own c0 n (set_req h r req') c"
proof -
  have "http_fin own c0 (set_req h r req') c" using assms by (intro http_fin_set_req [OF _ assms(2-4)]) (simp add: http_live_def)
  moreover have "rnb_live n (set_req h r req') c" using assms by (fastforce simp: http_live_def rnb_live_def)
  ultimately show ?thesis using assms(1) by (simp add: http_live_def)
qed

text \<open>Only the contents of the receive buffer change.\<close>

lemma http_live_buf:
  assumes "http_live own c0 n h c" "rnb c = Some nb" "length buf = length (nb_buf nb)"
  shows "http_live own c0 n h (c\<lparr>rnb := Some (nb\<lparr>nb_buf := buf\<rparr>)\<rparr>)"
proof -
  let ?c = "c\<lparr>rnb := Some (nb\<lparr>nb_buf := buf\<rparr>)\<rparr>"
  have f: "http_fin own c0 h c" using assms(1) by (simp add: http_live_def)
  have "http_fin own c0 h ?c"
    by (rule http_fin_same_conn [OF f]) (use f in \<open>auto simp: http_fin_def owns_def\<close>)
  moreover have "rnb_live n h ?c" using assms by (auto simp: http_live_def rnb_live_def recv_ok_def)
  ultimately show ?thesis using assms(1) by (simp add: http_live_def)
qed

lemma http_live_mark:
  assumes "http_live own c0 n h c" "rnb c = Some nb" "length hb \<le> length (nb_buf nb)"
  shows "http_live own c0 n h (mark_header q hst sk e hb c)"
    "\<exists>buf. length buf = length (nb_buf nb) \<and> mark_header q hst sk e hb c = c\<lparr>rnb := Some (nb\<lparr>nb_buf := buf\<rparr>)\<rparr>"
  using mark_header_frame [OF assms(2,3), of q hst sk e] http_live_buf [OF assms(1,2)] by auto

lemma fail_request_live:
  assumes "http_env_ok env" "error_status s" "http_live own c0 (Suc n) h c" "reqs h r = Some req0"
    "rq_sleeping req = rq_sleeping req0" "rq_owner req = rq_owner req0" "body_live (Suc n) req"
  shows "\<exists>h' c'. fail_request env h c r req s ret = Inr (ret, h', c') \<and> http_live own c0 n h' c'"
proof -
  have "http_live own c0 (Suc n) (set_req h r (req\<lparr>rq_delete := True\<rparr>)) c"
    by (rule http_live_set_req [OF assms(3,4)]) (use assms(5-7) in \<open>simp_all add: body_live_def\<close>)
  from http_error_response_live [OF assms(1,2) this] show ?thesis by (auto simp: fail_request_def)
qed

lemma http_request_new_live:
  assumes "http_env_ok env" "http_live own c0 (Suc n) h c" "reqs h a = None"
  shows "\<exists>r h' c'. http_request_new env a h c host meth path version = Inr (r, h', c') \<and>
    (case r of
       None \<Rightarrow> http_live own c0 n h' c'
     | Some r1 \<Rightarrow> r1 = a \<and> http_live own c0 (Suc n) h' c' \<and> rnb c' = rnb c \<and>
         (\<exists>req. reqs h' a = Some req \<and> body_live (Suc n) req \<and> \<not> rq_sleeping req))"
proof -
  define P where "P = (\<lambda>x :: (nat option \<times> http \<times> conn) res. \<exists>r h' c'. x = Inr (r, h', c') \<and>
    (case r of
       None \<Rightarrow> http_live own c0 n h' c'
     | Some r1 \<Rightarrow> r1 = a \<and> http_live own c0 (Suc n) h' c' \<and> rnb c' = rnb c \<and>
         (\<exists>req. reqs h' a = Some req \<and> body_live (Suc n) req \<and> \<not> rq_sleeping req)))"
  have err: "P (rbind (http_error_response env h c s) (\<lambda>(h1, c1). Inr (None, h1, c1)))" if "error_status s" for s
    using http_error_response_live [OF assms(1) that assms(2)] by (auto simp: P_def)
  have new: "P (Inr (Some a, h\<lparr>reqs := (reqs h)(a \<mapsto> new_request env (cid c) host path m eb hdlr),
        http_request_count := http_request_count h + 1, http_requests := a # http_requests h\<rparr>,
      c\<lparr>c_http_requests := c_http_requests c @ [a]\<rparr>))" for m eb hdlr
  proof -
    let ?req = "new_request env (cid c) host path m eb hdlr"
    let ?h = "h\<lparr>reqs := (reqs h)(a \<mapsto> ?req), http_request_count := http_request_count h + 1, http_requests := a # http_requests h\<rparr>"
    let ?c = "c\<lparr>c_http_requests := c_http_requests c @ [a]\<rparr>"
    have l: "http_ok h" "owns h c" "http_fin own c0 h c" using assms(2) by (auto simp: http_live_def http_fin_def)
    have fr: "a \<notin> set (http_requests h)" "a \<notin> set (http_requests_sleeping h)"
      using l(1) assms(3) by (auto simp: http_ok_def)
    have "http_ok ?h" using l(1) fr unfolding http_ok_def by (auto simp: new_request_def)
    moreover have "owns ?h ?c" using l(2) assms(3) by (auto simp: owns_def new_request_def)
    moreover have "\<forall>r i. own r = Some i \<longrightarrow> (\<exists>req. reqs ?h r = Some req \<and> rq_owner req = i)"
      using l(3) assms(3) unfolding http_fin_def by (fastforce simp: new_request_def)
    moreover have "\<forall>r req. reqs ?h r = Some req \<longrightarrow> rq_owner req = cid c0 \<or> own r = Some (rq_owner req)"
      using l(3) unfolding http_fin_def by (auto simp: new_request_def)
    ultimately have "http_fin own c0 ?h ?c" using l(3) unfolding http_fin_def by (simp add: send_ok_def)
    moreover have "rnb_live (Suc n) ?h ?c" using assms(2) by (fastforce simp: http_live_def rnb_live_def body_live_def new_request_def)
    ultimately have "http_live own c0 (Suc n) ?h ?c" using assms(2) by (simp add: http_live_def)
    then show ?thesis by (simp add: P_def body_live_def new_request_def)
  qed
  have "P (http_request_new env a h c host meth path version)"
    unfolding http_request_new_def Let_def
    by (simp split: if_split option.split prod.split) (auto intro!: err new simp: error_status_def)
  then show ?thesis by (simp add: P_def)
qed

lemma net_recv_reset_live:
  assumes "rnb_live m h c" "0 < len" "len < 2 ^ 16" "e = Http_header_recv"
  shows "\<exists>nb'. net_recv_reset junk c len e = Inr (c\<lparr>rnb := Some nb'\<rparr>) \<and> rnb_live n h' (c\<lparr>rnb := Some nb', rnb_extra := x\<rparr>)"
proof -
  from assms(1) obtain nb where nb: "rnb c = Some nb" "nb_type nb = NETBUF_RECV" "m_len nb = length (nb_buf nb)"
    by (auto simp: rnb_live_def recv_ok_def)
  from net_recv_reset_ok [OF nb(1,2) assms(2), of junk e] nb(3) assms(3,4) show ?thesis by (auto simp: rnb_live_def)
qed

lemma net_recv_reset_body_live:
  assumes "rnb_live m h c" "0 < len" "len < 2 ^ 16" "reqs h' r = Some req" "body_live n req" "rnb_extra c = Some r \<or> x = Some r"
  shows "\<exists>nb'. net_recv_reset junk c len Http_body_recv = Inr (c\<lparr>rnb := Some nb'\<rparr>) \<and>
    (x = Some r \<longrightarrow> rnb_live n h' (c\<lparr>rnb := Some nb', rnb_extra := x\<rparr>)) \<and>
    (rnb_extra c = Some r \<longrightarrow> rnb_live n h' (c\<lparr>rnb := Some nb'\<rparr>))"
proof -
  from assms(1) obtain nb where nb: "rnb c = Some nb" "nb_type nb = NETBUF_RECV" "m_len nb = length (nb_buf nb)"
    by (auto simp: rnb_live_def recv_ok_def)
  from net_recv_reset_ok [OF nb(1,2) assms(2), of junk Http_body_recv] nb(3) assms(3-5) show ?thesis by (auto simp: rnb_live_def)
qed

lemma http_fin_rnb [simp]:
  "http_fin own c0 h (c\<lparr>rnb := b\<rparr>) = http_fin own c0 h c" "http_fin own c0 h (c\<lparr>rnb_extra := x\<rparr>) = http_fin own c0 h c"
  by (simp_all add: http_fin_def owns_def send_ok_def)

lemma body_start_live:
  assumes "http_env_ok env" "http_live own c0 (Suc n) h c" "reqs h r = Some req0" "rq_sleeping req = rq_sleeping req0"
    "rq_owner req = rq_owner req0" "body_live (Suc n) req" "http_body_fd req = None \<longrightarrow> http_body req \<noteq> None"
  shows "\<exists>h' c'. body_start env h c r req got = Inr (KORE_RESULT_OK, h', c') \<and> http_live own c0 n h' c'"
proof -
  let ?left = "wsub64 (content_length req) (length got)"
  note live = http_live_down [OF assms(2)]
  have bl: "body_live n req" using assms(6) by (auto simp: body_live_def)
  show ?thesis
  proof (cases "?left > 0")
    case True
    have f: "http_fin own c0 (set_req h r req) c" using assms(2) by (intro http_fin_set_req [OF _ assms(3-5)]) (simp add: http_live_def)
    then have "http_ok (set_req h r req)" by (simp add: http_fin_def)
    from http_request_sleep_ok [OF this, of r req] obtain h1 where
      s: "http_request_sleep (set_req h r req) r = Inr h1" "http_ok h1" "header_buf h1 = header_buf h"
        "reqs h1 = (reqs h)(r \<mapsto> req\<lparr>rq_sleeping := True\<rparr>)" by auto
    let ?req = "req\<lparr>rq_sleeping := True, content_length := ?left\<rparr>" let ?h = "set_req h1 r ?req"
    have rl: "rnb_live (Suc n) h c" using assms(2) by (simp add: http_live_def)
    have "\<exists>nb'. net_recv_reset (e_junk env) c (min ?left NETBUF_SEND_PAYLOAD_MAX) Http_body_recv = Inr (c\<lparr>rnb := Some nb'\<rparr>) \<and>
      (Some r = Some r \<longrightarrow> rnb_live n ?h (c\<lparr>rnb := Some nb', rnb_extra := Some r\<rparr>)) \<and>
      (rnb_extra c = Some r \<longrightarrow> rnb_live n ?h (c\<lparr>rnb := Some nb'\<rparr>))"
      by (rule net_recv_reset_body_live [OF rl, where req = ?req]) (use True bl in \<open>auto simp: NETBUF_SEND_PAYLOAD_MAX_def body_live_def\<close>)
    then obtain nb' where nb': "net_recv_reset (e_junk env) c (min ?left NETBUF_SEND_PAYLOAD_MAX) Http_body_recv = Inr (c\<lparr>rnb := Some nb'\<rparr>)"
      "rnb_live n ?h (c\<lparr>rnb := Some nb', rnb_extra := Some r\<rparr>)" by blast
    have ok: "http_ok ?h" using http_ok_set_req [OF s(2), of r] s(4) by simp
    have "http_fin own c0 ?h c"
      by (rule http_fin_same_conn [OF f same_conn_refl])
        (use f ok s in \<open>auto simp: http_fin_def owns_def split: if_splits\<close>)
    then have "http_live own c0 n ?h (c\<lparr>rnb := Some nb', rnb_extra := Some r\<rparr>)"
      using live nb'(2) s(3) by (simp add: http_live_def)
    then show ?thesis using True nb'(1) s(1,4) by (simp add: body_start_def Let_def)
  next
    case False
    let ?req = "req\<lparr>rq_complete := True, rq_expect_body := False\<rparr>"
    have fine: "\<exists>h' c'. Inr (KORE_RESULT_OK, set_req h r req2, c) = Inr (KORE_RESULT_OK, h', c') \<and> http_live own c0 n h' c'"
      if "rq_sleeping req2 = rq_sleeping req0" "rq_owner req2 = rq_owner req0" "body_live n req2" for req2
      using http_live_set_req [OF live assms(3) that] by simp
    show ?thesis
    proof (cases "http_body_fd req")
      case None
      with assms(7) obtain b where b: "http_body req = Some b" by blast
      have "body_live n (?req\<lparr>http_body := Some (kore_buf_reset b)\<rparr>)" using bl b
        by (auto simp: body_live_def kore_buf_reset_def buf_ok_def split: option.splits)
      with False None b assms(4,5) show ?thesis using fine [of "?req\<lparr>http_body := Some (kore_buf_reset b)\<rparr>"]
        by (simp add: body_start_def http_body_rewind_def Let_def)
    next
      case (Some bf)
      show ?thesis
      proof (cases "e_lseek_ok env")
        case True
        with False Some assms(4,5) bl show ?thesis using fine [of "?req\<lparr>http_body_fd := Some (bf\<lparr>bf_pos := 0\<rparr>)\<rparr>"]
          by (simp add: body_start_def http_body_rewind_def Let_def body_live_def)
      next
        case lf: False
        have "\<exists>h' c'. fail_request env h c r ?req 500 KORE_RESULT_OK = Inr (KORE_RESULT_OK, h', c') \<and> http_live own c0 n h' c'"
          by (rule fail_request_live [OF assms(1) _ assms(2,3)]) (use assms(4-6) in \<open>simp_all add: error_status_def body_live_def\<close>)
        with False lf Some show ?thesis by (simp add: body_start_def http_body_rewind_def Let_def)
      qed
    qed
  qed
qed

text \<open>A result of a callback that leaves the connection live.\<close>

definition live_result :: "(nat \<rightharpoonup> nat) \<Rightarrow> conn \<Rightarrow> nat \<Rightarrow> (int \<times> http \<times> conn) res \<Rightarrow> bool" where
  "live_result own c0 n x \<longleftrightarrow> (\<exists>res h' c'. x = Inr (res, h', c') \<and> http_live own c0 n h' c')"

lemma body_setup_live:
  assumes "http_env_ok env" "http_live own c0 (Suc n) h c" "reqs h r = Some req" "body_live (Suc n) req" "length got < 2 ^ 16"
  shows "live_result own c0 n (body_setup env h c r req got)"
proof -
  let ?R = "live_result own c0 n"
  have fail: "?R (fail_request env h c r req' s ret)"
    if "error_status s" "rq_sleeping req' = rq_sleeping req" "rq_owner req' = rq_owner req" "http_body req' = http_body req \<or> http_body req' = None"
    for s req' ret
    using fail_request_live [OF assms(1) that(1) assms(2,3) that(2,3), of ret] that(4) assms(4)
    by (auto simp: live_result_def body_live_def)
  have start: "?R (body_start env h c r req' got)"
    if "rq_sleeping req' = rq_sleeping req" "rq_owner req' = rq_owner req" "body_live (Suc n) req'"
      "http_body_fd req' = None \<longrightarrow> http_body req' \<noteq> None" for req'
    using body_start_live [OF assms(1-3) that, of got] by (auto simp: live_result_def)
  have zero: "?R (Inr (KORE_RESULT_OK, set_req h r (req\<lparr>content_length := k, rq_complete := True, rq_expect_body := False\<rparr>), c))" for k
    using http_live_set_req [OF http_live_down [OF assms(2)] assms(3),
        of "req\<lparr>content_length := k, rq_complete := True, rq_expect_body := False\<rparr>"] assms(4)
    by (fastforce simp: live_result_def body_live_def)
  have mem: "?R (rbind (kore_buf_alloc (e_junk env) m) (\<lambda>b. rbind (kore_buf_append (e_junk env) b got) (\<lambda>b1.
      body_start env h c r (req\<lparr>content_length := k, http_body_length := m, http_body_fd := None, http_body := Some b1\<rparr>) got)))"
    if "m \<le> http_body_max env" for m k
  proof -
    have m: "m < 2 ^ 62" using that assms(1) by (simp add: http_env_ok_def)
    then obtain b where b: "kore_buf_alloc (e_junk env) m = Inr b" "buf_ok b" "blength b = m"
      using kore_buf_alloc_ok [of m "e_junk env"] by auto
    have "buf_room b (length got)" using b(3) m assms(5) by (simp add: buf_room_def)
    from kore_buf_append_ok [OF b(2) this, of "e_junk env"] obtain b1 where
      b1: "kore_buf_append (e_junk env) b got = Inr b1" "buf_ok b1" "blength b1 \<le> m + length got" using b(3) by auto
    have "Suc n < 2 ^ 40" using assms(2) by (simp add: http_live_def)
    then have "blength b1 + Suc n * 2 ^ 16 < 2 ^ 63" using b1(3) m assms(5) by simp
    then show ?thesis using b(1) b1(1,2) by (auto simp: body_live_def intro!: start)
  qed
  have disk: "?R (body_start env h c r (req\<lparr>content_length := k, http_body_length := m, http_body_path := p, http_body := None,
      http_body_fd := Some bf\<rparr>) got)" for k m p bf
    by (rule start) (simp_all add: body_live_def)
  show ?thesis
  proof (cases "http_body_max env = 0")
    case True
    then show ?thesis by (simp add: body_setup_def fail error_status_def)
  next
    case mx: False
    show ?thesis
    proof (cases "http_request_header req (bs ''content-length'')")
      case None
      with mx show ?thesis by (simp add: body_setup_def fail error_status_def)
    next
      case (Some p)
      obtain k v where kv: "kore_strtonum p 10 0 LONG_MAX = (k, v)" by (cases "kore_strtonum p 10 0 LONG_MAX")
      note bs = body_setup_def Let_def mx Some kv
      consider "v = KORE_RESULT_ERROR" | "v \<noteq> KORE_RESULT_ERROR" "k = 0" | "v \<noteq> KORE_RESULT_ERROR" "k \<noteq> 0" "nat k > http_body_max env"
        | "v \<noteq> KORE_RESULT_ERROR" "k \<noteq> 0" "nat k \<le> http_body_max env" "http_body_disk_offload env > 0 \<and> nat k > http_body_disk_offload env"
        | "v \<noteq> KORE_RESULT_ERROR" "k \<noteq> 0" "nat k \<le> http_body_max env" "\<not> (http_body_disk_offload env > 0 \<and> nat k > http_body_disk_offload env)"
        by linarith
      then show ?thesis
      proof cases
        case 1
        then show ?thesis by (simp add: bs fail error_status_def)
      next
        case 2
        then show ?thesis by (simp add: bs zero)
      next
        case 3
        then show ?thesis by (simp add: bs fail error_status_def)
      next
        case 4
        then show ?thesis by (simp add: bs fail disk error_status_def split: option.split)
      next
        case 5
        then show ?thesis using mem [OF 5(3)] mx unfolding bs option.case prod.case
          by (simp only: if_False not_less if_not_P)
      qed
    qed
  qed
qed

lemma add_headers_frame:
  "rq_sleeping (add_headers i skip ls req) = rq_sleeping req \<and> rq_owner (add_headers i skip ls req) = rq_owner req \<and>
    http_body (add_headers i skip ls req) = http_body req"
  by (induction i skip ls req rule: add_headers.induct) (auto simp: add_header_def Let_def split: option.split)

lemma header_complete_live:
  assumes "http_env_ok env" "http_live own c0 (Suc n) h c" "reqs h a = None" "rnb c = Some nb"
    "length buf \<le> length (nb_buf nb)" "length buf < 2 ^ 16"
  shows "live_result own c0 n (header_complete env a h c buf e skip)"
proof -
  let ?hb = "takeWhile (\<lambda>x. x \<noteq> 0) (take e buf)" and ?got = "drop (e + skip) buf"
  have lh: "length ?hb \<le> length (nb_buf nb)"
    using assms(5) length_takeWhile_le [of "\<lambda>x. x \<noteq> 0" "take e buf"] by simp
  have lg: "length ?got < 2 ^ 16" using assms(6) by simp
  note mark = http_live_mark [OF assms(2,4) lh]
  define bad where "bad = (\<lambda>c. rbind (http_error_response env h c 400) (\<lambda>(h1, c1). Inr (KORE_RESULT_OK, h1, c1)))"
  have bad: "live_result own c0 n (bad (mark_header q i k e ?hb c))" for q i k
    using http_error_response_live [OF assms(1) _ mark(1), of 400 q i k e]
    by (auto simp: live_result_def bad_def error_status_def)
  have host: "live_result own c0 n (rbind (http_request_new env a h (mark_header True (Some i) None e ?hb c) host meth path version)
      (\<lambda>(r, h1, c1). case r of None \<Rightarrow> Inr (KORE_RESULT_OK, h1, c1)
        | Some r1 \<Rightarrow> (case reqs h1 r1 of None \<Rightarrow> Inl Null_deref
            | Some req \<Rightarrow> let req1 = add_headers 1 i hs req; h2 = set_req h1 r1 req1;
                c2 = mark_header True (Some i) (Some i) e ?hb c1 in
                if rq_expect_body req1 then body_setup env h2 c2 r1 req1 ?got else Inr (KORE_RESULT_OK, h2, c2))))"
    (is "live_result own c0 n ?X") for i host meth path version hs
  proof -
    let ?c = "mark_header True (Some i) None e ?hb c"
    obtain b where b: "length b = length (nb_buf nb)" "?c = c\<lparr>rnb := Some (nb\<lparr>nb_buf := b\<rparr>)\<rparr>" using mark(2) by blast
    from http_request_new_live [OF assms(1) mark(1) assms(3), of True "Some i" None e host meth path version] obtain r h1 c1 where
      r: "http_request_new env a h ?c host meth path version = Inr (r, h1, c1)"
        "case r of None \<Rightarrow> http_live own c0 n h1 c1
         | Some r1 \<Rightarrow> r1 = a \<and> http_live own c0 (Suc n) h1 c1 \<and> rnb c1 = rnb ?c \<and>
             (\<exists>req. reqs h1 a = Some req \<and> body_live (Suc n) req \<and> \<not> rq_sleeping req)" by blast
    show ?thesis
    proof (cases r)
      case None
      with r show ?thesis by (simp add: live_result_def)
    next
      case (Some r1)
      with r(2) obtain req where q: "r1 = a" "http_live own c0 (Suc n) h1 c1" "rnb c1 = rnb ?c" "reqs h1 a = Some req"
        "body_live (Suc n) req" by auto
      define req1 where "req1 = add_headers 1 i hs req"
      have same: "rq_sleeping req1 = rq_sleeping req" "rq_owner req1 = rq_owner req" "http_body req1 = http_body req"
        by (simp_all add: req1_def add_headers_frame)
      let ?h2 = "set_req h1 a req1" and ?c2 = "mark_header True (Some i) (Some i) e ?hb c1"
      have bl: "body_live (Suc n) req1" using q(5) same(3) by (simp add: body_live_def)
      have l2: "http_live own c0 (Suc n) ?h2 c1" by (rule http_live_set_req [OF q(2,4) same(1,2) bl])
      have "rnb c1 = Some (nb\<lparr>nb_buf := b\<rparr>)" using q(3) b(2) by simp
      from http_live_mark(1) [OF l2 this, of ?hb] lh b(1) have l3: "http_live own c0 (Suc n) ?h2 ?c2" by simp
      have "?X = (if rq_expect_body req1 then body_setup env ?h2 ?c2 a req1 ?got else Inr (KORE_RESULT_OK, ?h2, ?c2))"
        using r(1) Some q(1,4) by (simp add: req1_def Let_def)
      moreover have "live_result own c0 n (body_setup env ?h2 ?c2 a req1 ?got)"
        by (rule body_setup_live [OF assms(1) l3 _ bl lg]) simp
      moreover have "live_result own c0 n (Inr (KORE_RESULT_OK, ?h2, ?c2))"
        using http_live_down [OF l3] by (simp add: live_result_def)
      ultimately show ?thesis by simp
    qed
  qed
  show ?thesis unfolding header_complete_def Let_def bad_def [symmetric]
    by (simp split: list.split host_line.split) (auto intro!: bad host [unfolded Let_def, simplified])
qed

lemma http_header_recv_live:
  assumes "http_env_ok env" "http_live own c0 (Suc n) h c" "reqs h a = None"
  shows "live_result own c0 n (http_header_recv env a h c)"
proof -
  from assms(2) obtain nb where nb: "rnb c = Some nb" "s_off nb \<le> b_len nb" "b_len nb \<le> length (nb_buf nb)" "b_len nb < 2 ^ 16"
    by (auto simp: http_live_def rnb_live_def recv_ok_def)
  have "live_result own c0 n (Inr (KORE_RESULT_OK, h, c))" using http_live_down [OF assms(2)] by (simp add: live_result_def)
  moreover have "live_result own c0 n (header_complete env a h c (take (s_off nb) (nb_buf nb)) e skip)" for e skip
    by (rule header_complete_live [OF assms nb(1)]) (use nb in auto)
  ultimately show ?thesis using nb(1) by (auto simp: http_header_recv_def split: option.split)
qed

section \<open>The body callback\<close>

definition fin_result :: "(nat \<rightharpoonup> nat) \<Rightarrow> conn \<Rightarrow> nat \<Rightarrow> (int \<times> http \<times> conn) res \<Rightarrow> bool" where
  "fin_result own c0 n x \<longleftrightarrow> (case x of
      Inl e \<Rightarrow> False
    | Inr (res, h', c') \<Rightarrow> if res = KORE_RESULT_OK then http_live own c0 n h' c' else http_fin own c0 h' c')"

lemma fin_resultD:
  assumes "fin_result own c0 n x"
  shows "\<exists>res h' c'. x = Inr (res, h', c') \<and> (if res = KORE_RESULT_OK then http_live own c0 n h' c' else http_fin own c0 h' c')"
proof -
  obtain res h' c' where "x = Inr (res, h', c')" using assms by (cases x) (auto simp: fin_result_def)
  with assms show ?thesis by (intro exI [of _ res] exI [of _ h'] exI [of _ c']) (simp add: fin_result_def)
qed

lemma live_imp_fin: "live_result own c0 n x \<Longrightarrow> fin_result own c0 n x"
  by (auto simp: live_result_def fin_result_def http_live_def)

text \<open>The end of a body: the request wakes up and the connection waits for the next header.\<close>

lemma body_end_live:
  assumes "http_env_ok env" "http_live own c0 (Suc n) h c" "reqs h r = Some req0" "rq_owner req = rq_owner req0" "rq_sleeping req = rq_sleeping req0"
    "http_body_fd req = None \<longrightarrow> http_body req \<noteq> None"
  shows "fin_result own c0 n (rbind (http_request_wakeup (set_req h r req) r) (\<lambda>h1.
    case reqs h1 r of
      None \<Rightarrow> Inl Null_deref
    | Some req3 \<Rightarrow>
        let req4 = req3\<lparr>rq_complete := True, rq_expect_body := False, content_length := http_body_length req3\<rparr>;
            c1 = c\<lparr>rnb_extra := None\<rparr> in
        rbind (http_body_rewind (e_lseek_ok env) req4) (\<lambda>(ret, req5).
          if ret = KORE_RESULT_ERROR then fail_request env h1 c1 r req5 500 KORE_RESULT_ERROR
          else rbind (net_recv_reset (e_junk env) c1 (http_header_max env) Http_header_recv) (\<lambda>c2.
            Inr (KORE_RESULT_OK, set_req h1 r req5, c2)))))"
    (is "fin_result own c0 n ?X")
proof -
  have l: "http_fin own c0 h c" "rnb_live (Suc n) h c" "blength (header_buf h) + (n * 1000 + 1000) < 2 ^ 64" "proto c = CONN_PROTO_HTTP"
    using assms(2) by (auto simp: http_live_def http_fin_def)
  have f0: "http_fin own c0 (set_req h r req) c" by (rule http_fin_set_req [OF l(1) assms(3,5,4)])
  then have "http_ok (set_req h r req)" by (simp add: http_fin_def)
  from http_request_wakeup_ok [OF this, of r req] obtain h1 where
    w: "http_request_wakeup (set_req h r req) r = Inr h1" "http_ok h1" "header_buf h1 = header_buf h"
      "reqs h1 = (reqs h)(r \<mapsto> req\<lparr>rq_sleeping := False\<rparr>)" by auto
  have f1: "http_fin own c0 h1 c"
    by (rule http_fin_same_conn [OF f0 same_conn_refl]) (use f0 w in \<open>auto simp: http_fin_def owns_def split: if_splits\<close>)
  let ?req4 = "req\<lparr>rq_sleeping := False, rq_complete := True, rq_expect_body := False, content_length := http_body_length req\<rparr>"
  let ?c1 = "c\<lparr>rnb_extra := None\<rparr>"
  have X: "?X = rbind (http_body_rewind (e_lseek_ok env) ?req4) (\<lambda>(ret, req5).
      if ret = KORE_RESULT_ERROR then fail_request env h1 ?c1 r req5 500 KORE_RESULT_ERROR
      else rbind (net_recv_reset (e_junk env) ?c1 (http_header_max env) Http_header_recv) (\<lambda>c2. Inr (KORE_RESULT_OK, set_req h1 r req5, c2)))"
    using w(1,4) by (simp add: Let_def)
  obtain nb where nb: "rnb ?c1 = Some nb" "nb_type nb = NETBUF_RECV" "m_len nb = length (nb_buf nb)"
    using l(2) by (auto simp: rnb_live_def recv_ok_def)
  have mx: "0 < http_header_max env" "http_header_max env < 2 ^ 16" using assms(1) by (auto simp: http_env_ok_def)
  have good: "fin_result own c0 n (rbind (net_recv_reset (e_junk env) ?c1 (http_header_max env) Http_header_recv)
      (\<lambda>c2. Inr (KORE_RESULT_OK, set_req h1 r req5, c2)))"
    if "rq_sleeping req5 = False" "rq_owner req5 = rq_owner req" for req5
  proof -
    from net_recv_reset_ok [OF nb(1,2) mx(1), of "e_junk env" Http_header_recv] nb(3) obtain nb' where
      nb': "net_recv_reset (e_junk env) ?c1 (http_header_max env) Http_header_recv = Inr (?c1\<lparr>rnb := Some nb'\<rparr>)"
        "nb_cb nb' = Some Http_header_recv" "recv_ok nb'" "m_len nb' = length (nb_buf nb')" "b_len nb' = http_header_max env" by blast
    have "http_fin own c0 (set_req h1 r req5) c"
      by (rule http_fin_set_req [OF f1, of r "req\<lparr>rq_sleeping := False\<rparr>"]) (simp_all add: w(4) that)
    moreover have "rnb_live n (set_req h1 r req5) (?c1\<lparr>rnb := Some nb'\<rparr>)" using nb' mx(2) by (auto simp: rnb_live_def)
    ultimately have "http_live own c0 n (set_req h1 r req5) (?c1\<lparr>rnb := Some nb'\<rparr>)"
      using assms(2) l(3) w(3) by (simp add: http_live_def)
    then show ?thesis using nb'(1) by (simp add: fin_result_def)
  qed
  have bad: "fin_result own c0 n (fail_request env h1 ?c1 r req5 500 KORE_RESULT_ERROR)"
    if "rq_sleeping req5 = False" "rq_owner req5 = rq_owner req" for req5
  proof -
    let ?h = "set_req h1 r (req5\<lparr>rq_delete := True\<rparr>)"
    have "http_fin own c0 ?h ?c1"
      using http_fin_set_req [OF f1, of r "req\<lparr>rq_sleeping := False\<rparr>" "req5\<lparr>rq_delete := True\<rparr>"] w(4) that by simp
    from http_error_response_fin [OF assms(1) _ this _ nb(1,2), of 500 "n * 1000"] l(3,4) w(3)
    show ?thesis by (auto simp: fin_result_def fail_request_def error_status_def)
  qed
  show ?thesis
  proof (cases "http_body_fd req")
    case None
    with assms(6) obtain b where "http_body req = Some b" by blast
    with None good [of "?req4\<lparr>http_body := Some (kore_buf_reset b)\<rparr>"] show ?thesis unfolding X by (simp add: http_body_rewind_def)
  next
    case (Some bf)
    with good [of "?req4\<lparr>http_body_fd := Some (bf\<lparr>bf_pos := 0\<rparr>)\<rparr>"] bad [of ?req4] show ?thesis
      unfolding X by (simp add: http_body_rewind_def)
  qed
qed

lemma http_body_recv_live:
  assumes "http_env_ok env" "http_live own c0 (Suc n) h c" "rnb c = Some nb" "nb_cb nb = Some Http_body_recv"
  shows "fin_result own c0 n (http_body_recv env h c)"
proof -
  from assms(2-4) obtain r req where r: "rnb_extra c = Some r" "reqs h r = Some req" "body_live (Suc n) req"
    by (auto simp: http_live_def rnb_live_def)
  have nb: "s_off nb \<le> b_len nb" "b_len nb < 2 ^ 16" "rnb_live (Suc n) h c"
    using assms(2,3) by (auto simp: http_live_def rnb_live_def recv_ok_def)
  let ?got = "take (s_off nb) (nb_buf nb)"
  have lg: "length ?got < 2 ^ 16" using nb by simp
  let ?rest = "\<lambda>written. case written of
      None \<Rightarrow> fail_request env h c r req 500 KORE_RESULT_ERROR
    | Some req1 \<Rightarrow>
        let left = wsub64 (content_length req1) (s_off nb); req2 = req1\<lparr>content_length := left\<rparr> in
        if left = 0 then
          rbind (http_request_wakeup (set_req h r req2) r) (\<lambda>h1.
            case reqs h1 r of
              None \<Rightarrow> Inl Null_deref
            | Some req3 \<Rightarrow>
                let req4 = req3\<lparr>rq_complete := True, rq_expect_body := False, content_length := http_body_length req3\<rparr>;
                    c1 = c\<lparr>rnb_extra := None\<rparr> in
                rbind (http_body_rewind (e_lseek_ok env) req4) (\<lambda>(ret, req5).
                  if ret = KORE_RESULT_ERROR then fail_request env h1 c1 r req5 500 KORE_RESULT_ERROR
                  else rbind (net_recv_reset (e_junk env) c1 (http_header_max env) Http_header_recv) (\<lambda>c2.
                    Inr (KORE_RESULT_OK, set_req h1 r req5, c2))))
        else
          rbind (net_recv_reset (e_junk env) c (min left NETBUF_SEND_PAYLOAD_MAX) Http_body_recv) (\<lambda>c1.
            Inr (KORE_RESULT_OK, set_req h r req2, c1))"
  have none: "fin_result own c0 n (?rest None)"
    using fail_request_live [OF assms(1) _ assms(2) r(2) _ _ r(3), of 500 KORE_RESULT_ERROR]
    by (auto simp: error_status_def live_result_def intro!: live_imp_fin)
  have some: "fin_result own c0 n (?rest (Some req1))"
    if "rq_owner req1 = rq_owner req" "rq_sleeping req1 = rq_sleeping req" "body_live n req1"
      "http_body_fd req1 = None \<longrightarrow> http_body req1 \<noteq> None" for req1
  proof (cases "wsub64 (content_length req1) (s_off nb) = 0")
    case True
    then show ?thesis
      using body_end_live [OF assms(1,2) r(2), of "req1\<lparr>content_length := 0\<rparr>"] that by (simp add: Let_def)
  next
    case False
    let ?left = "wsub64 (content_length req1) (s_off nb)" let ?h = "set_req h r (req1\<lparr>content_length := ?left\<rparr>)"
    have "\<exists>nb'. net_recv_reset (e_junk env) c (min ?left NETBUF_SEND_PAYLOAD_MAX) Http_body_recv = Inr (c\<lparr>rnb := Some nb'\<rparr>) \<and>
      (None = Some r \<longrightarrow> rnb_live n ?h (c\<lparr>rnb := Some nb', rnb_extra := None\<rparr>)) \<and>
      (rnb_extra c = Some r \<longrightarrow> rnb_live n ?h (c\<lparr>rnb := Some nb'\<rparr>))"
      by (rule net_recv_reset_body_live [OF nb(3), where req = "req1\<lparr>content_length := ?left\<rparr>"])
        (use False r(1) that(3) in \<open>auto simp: NETBUF_SEND_PAYLOAD_MAX_def body_live_def\<close>)
    then obtain nb' where nb': "net_recv_reset (e_junk env) c (min ?left NETBUF_SEND_PAYLOAD_MAX) Http_body_recv = Inr (c\<lparr>rnb := Some nb'\<rparr>)"
      "rnb_live n ?h (c\<lparr>rnb := Some nb'\<rparr>)" using r(1) by blast
    have "http_fin own c0 ?h c"
      by (rule http_fin_set_req [OF _ r(2)]) (use assms(2) that in \<open>simp_all add: http_live_def\<close>)
    with nb'(2) assms(2) have "http_live own c0 n ?h (c\<lparr>rnb := Some nb'\<rparr>)" by (simp add: http_live_def)
    with False nb'(1) show ?thesis by (simp add: Let_def fin_result_def)
  qed
  have bln: "body_live n req" using r(3) by (auto simp: body_live_def)
  have eq: "http_body_recv env h c = rbind (case http_body_fd req of
        Some bf \<Rightarrow>
          if e_write_ok env
          then Inr (Some (req\<lparr>http_body_fd := Some (bf\<lparr>bf_data := memcpy_at (bf_data bf) (bf_pos bf) ?got,
                 bf_pos := bf_pos bf + length ?got\<rparr>)\<rparr>))
          else Inr None
      | None \<Rightarrow>
          (case http_body req of
             Some b \<Rightarrow> rbind (kore_buf_append (e_junk env) b ?got) (\<lambda>b1. Inr (Some (req\<lparr>http_body := Some b1\<rparr>)))
           | None \<Rightarrow> Inr None)) ?rest"
    unfolding http_body_recv_def assms(3) r(1) prod.case option.case r(2) Let_def by (rule refl)
  show ?thesis
  proof (cases "http_body_fd req")
    case (Some bf)
    let ?req = "req\<lparr>http_body_fd := Some (bf\<lparr>bf_data := memcpy_at (bf_data bf) (bf_pos bf) ?got, bf_pos := bf_pos bf + length ?got\<rparr>)\<rparr>"
    have "body_live n ?req" using bln by (simp add: body_live_def)
    from some [OF _ _ this] Some none show ?thesis unfolding eq by (cases "e_write_ok env") simp_all
  next
    case fd: None
    show ?thesis
    proof (cases "http_body req")
      case None
      with fd none show ?thesis unfolding eq by simp
    next
      case (Some b)
      with r(3) have b: "buf_ok b" "blength b + Suc n * 2 ^ 16 < 2 ^ 63" by (auto simp: body_live_def)
      then have "buf_room b (length ?got)" using lg by (simp add: buf_room_def)
      from kore_buf_append_ok [OF b(1) this, of "e_junk env"] obtain b1 where
        b1: "kore_buf_append (e_junk env) b ?got = Inr b1" "buf_ok b1" "blength b1 \<le> blength b + length ?got" by blast
      have "body_live n (req\<lparr>http_body := Some b1\<rparr>)" using b1(2,3) b(2) lg by (simp add: body_live_def)
      from some [OF _ _ this] fd Some b1(1) show ?thesis unfolding eq by simp
    qed
  qed
qed

section \<open>The HTTP callbacks as receive callbacks\<close>

lemma http_live_fill:
  assumes "http_live own c0 n h c" "rnb c = Some nb" "s_off nb + length d \<le> b_len nb"
  shows "http_live own c0 n h (c\<lparr>rnb := Some (nb\<lparr>nb_buf := memcpy_at (nb_buf nb) (s_off nb) d, s_off := s_off nb + length d\<rparr>)\<rparr>)"
proof -
  have "rnb_live n h (c\<lparr>rnb := Some (nb\<lparr>nb_buf := memcpy_at (nb_buf nb) (s_off nb) d, s_off := s_off nb + length d\<rparr>)\<rparr>)"
    using assms by (auto simp: http_live_def rnb_live_def recv_ok_def)
  with assms(1) show ?thesis by (simp add: http_live_def)
qed

locale http_receiver =
  fixes env :: http_env and alloc :: "http \<Rightarrow> nat" and other :: "net_cb \<Rightarrow> http \<Rightarrow> conn \<Rightarrow> (int \<times> http \<times> conn) res"
    and own :: "nat \<rightharpoonup> nat" and c0 :: conn
  assumes env_ok: "http_env_ok env" and fresh: "http_ok h \<Longrightarrow> reqs h (alloc h) = None"

sublocale http_receiver \<subseteq> recv_client "http_callback env alloc other" "http_live own c0" "http_fin own c0"
proof unfold_locales
  fix n w c p assume l: "http_live own c0 n w c"
  then show "\<exists>nb k. rnb c = Some nb \<and> recv_ok nb \<and> nb_cb nb = Some k" by (auto simp: http_live_def rnb_live_def)
  from l show "http_fin own c0 w (c\<lparr>read_possible := p\<rparr>)" by (auto simp: http_live_def http_fin_def owns_def send_ok_def)
next
  fix n w c nb k
  assume l: "http_live own c0 (Suc n) w c" "rnb c = Some nb" "nb_cb nb = Some k"
  from l have "k = Http_header_recv \<or> k = Http_body_recv" by (auto simp: http_live_def rnb_live_def)
  moreover have "reqs w (alloc w) = None" using fresh l(1) by (simp add: http_live_def http_fin_def)
  ultimately have "fin_result own c0 n (http_callback env alloc other k w c)"
    using live_imp_fin [OF http_header_recv_live [OF env_ok l(1), of "alloc w"]] http_body_recv_live [OF env_ok l(1,2)] l(3)
    by (auto simp: http_callback_def)
  then show "\<exists>res w' c'. http_callback env alloc other k w c = Inr (res, w', c') \<and>
      (if res = KORE_RESULT_OK then http_live own c0 n w' c' else http_fin own c0 w' c')"
    by (rule fin_resultD)
qed (use http_live_down http_live_fill in auto)

context http_receiver
begin

lemma http_recv_flush_ok:
  "length script \<le> n \<Longrightarrow> http_live own c0 n h c \<Longrightarrow>
    \<exists>r. net_recv_flush (http_callback env alloc other) h c script = Inr r \<and>
      (case r of None \<Rightarrow> True | Some (res, h', c') \<Rightarrow> http_fin own c0 h' c')"
  by (rule net_recv_flush_ok)

end

text \<open>An allocator that hands out the first address above all live requests.\<close>

definition first_free :: "http \<Rightarrow> nat" where
  "first_free h = Suc (fold max (http_requests h @ http_requests_sleeping h) 0)"

lemma fold_max_ge: "x \<in> set xs \<Longrightarrow> x \<le> fold max xs (a :: nat)"
proof (induction xs arbitrary: a)
  case (Cons y ys)
  have "b \<le> fold max zs b" for zs and b :: nat by (induction zs arbitrary: b) (simp, metis fold_simps(2) le_trans max.cobounded2 o_def)
  with Cons show ?case by (auto intro: le_trans [of _ "max y a"])
qed simp

lemma first_free_fresh: "http_ok h \<Longrightarrow> reqs h (first_free h) = None"
proof (rule ccontr)
  assume h: "http_ok h" "reqs h (first_free h) \<noteq> None"
  then have "first_free h \<in> set (http_requests h @ http_requests_sleeping h)" unfolding http_ok_def set_append by blast
  from fold_max_ge [OF this, of 0] show False by (simp add: first_free_def del: set_append)
qed

text \<open>The server with the settings of \<open>http.h\<close>.\<close>

definition http_default_env :: "(byte list \<Rightarrow> byte list \<Rightarrow> nat option) \<Rightarrow> http_env" where
  "http_default_env hdlrs = \<lparr>e_junk = \<lambda>_. 0, e_out2 = \<lambda>_. None, e_uninit = 0, e_mkstemp = Some, e_write_ok = True, e_lseek_ok = True,
     http_request_limit = 1000, http_hsts_enable = 31536000, http_header_max = 4096, http_keepalive_time = 20,
     http_body_max = 1024000, http_body_disk_offload = 0, http_body_disk_path = bs ''tmp_files'', kore_module_handler_find = hdlrs\<rparr>"

interpretation default_http: http_receiver "http_default_env hdlrs" first_free other own c0 for hdlrs other own c0
  by unfold_locales (simp_all add: http_env_ok_def http_default_env_def first_free_fresh)

section \<open>Properties\<close>

text \<open>(C19) Whatever bytes arrive on an HTTP connection, in whatever pieces and with whatever errors in between, the receive
  path does not fault: no access outside a buffer, no failed check. The request lists stay consistent, no
  request is lost or changes its owner, and the requests on the list of the connection are its own.\<close>

theorem http_recv_safe:
  assumes "http_env_ok env" and "\<forall>h. http_ok h \<longrightarrow> reqs h (alloc h) = None"
    and "http_ok h" and "owns h c" and "buf_ok (header_buf h)" and "send_ok c" and "proto c = CONN_PROTO_HTTP"
    and "rnb_live (length script) h c" and "length script < 2 ^ 40" and "blength (header_buf h) + length script * 1000 < 2 ^ 64"
  shows "\<exists>r. net_recv_flush (http_callback env alloc other) h c script = Inr r \<and>
    (case r of
       None \<Rightarrow> True
     | Some (res, h', c') \<Rightarrow> http_ok h' \<and> owns h' c' \<and> send_ok c' \<and> cid c' = cid c \<and> cstate c' = cstate c \<and>
         (\<forall>r req. reqs h r = Some req \<longrightarrow> (\<exists>req'. reqs h' r = Some req' \<and> rq_owner req' = rq_owner req)))"
proof -
  let ?own = "\<lambda>r. map_option rq_owner (reqs h r)"
  have "http_receiver env alloc" using assms(1,2) by unfold_locales auto
  moreover have "http_live ?own c (length script) h c" using assms(3-10) by (auto simp: http_live_def http_fin_def)
  ultimately obtain r where r: "net_recv_flush (http_callback env alloc other) h c script = Inr r"
    "case r of None \<Rightarrow> True | Some (res, w', c') \<Rightarrow> http_fin ?own c w' c'"
    using http_receiver.http_recv_flush_ok [of env alloc script "length script" ?own c h c other] by blast
  have "\<exists>req'. reqs h' r = Some req' \<and> rq_owner req' = rq_owner req" if "http_fin ?own c h' c'" "reqs h r = Some req" for h' c' r req
    using that by (auto simp: http_fin_def)
  with r show ?thesis by (auto simp: http_fin_def split: option.splits)
qed

theorem http_recv_safe_witness:
  "\<exists>r. net_recv_flush (http_callback test_env first_free (\<lambda>_ _ _. Inl Null_deref)) test_http test_conn
      [Rd [13, 10, 13, 10, 0, 255], Rd_error EAGAIN] = Inr r \<and>
    (case r of
       None \<Rightarrow> True
     | Some (res, h', c') \<Rightarrow> http_ok h' \<and> owns h' c' \<and> send_ok c' \<and> cid c' = cid test_conn \<and> cstate c' = cstate test_conn \<and>
         (\<forall>r req. reqs test_http r = Some req \<longrightarrow> (\<exists>req'. reqs h' r = Some req' \<and> rq_owner req' = rq_owner req)))"
  by (rule http_recv_safe)
    (simp_all add: http_env_ok_def test_env_def first_free_fresh http_ok_def test_http_def owns_def test_conn_def buf_ok_def
      send_ok_def rnb_live_def recv_ok_def)

end
