(* ===== verification/Kore_Connection.thy ===== *)
theory Kore_Connection
  imports Http_Inv
begin

text \<open>
  The connections of a worker, \<open>base/kore/connection.c\<close>: creation, the idle timer, disconnection and removal.
  The worker record holds the store of live connections under the addresses of their pool elements, the two global
  lists \<open>connections\<close> and \<open>disconnected\<close>, the HTTP state and the state of the application.

  An operation on a connection takes the worker and the connection next to it; the entry of that connection in
  the store is written when the operation is over. Callbacks of the application are parameters of the same
  shape. \<open>now\<close> is what \<open>kore_time_ms\<close> returns.
\<close>

section \<open>State\<close>

record 'u worker =
  whttp :: http
  conns :: "nat \<rightharpoonup> conn"
  connections :: "nat list"
  disconnected_list :: "nat list"
  worker_active_connections :: u32
  streams_freed :: "net_cb list"
  user :: 'u

type_synonym 'u conn_cb = "'u worker \<Rightarrow> conn \<Rightarrow> ('u worker \<times> conn) res"

record 'u kore_wscbs =
  ws_connect :: "'u conn_cb option"
  ws_message :: "(byte \<Rightarrow> byte list \<Rightarrow> 'u conn_cb) option"
  ws_disconnect :: "'u conn_cb option"

text \<open>\<open>e_wscbs\<close> is the memory at the address \<open>c->wscbs\<close>; \<open>e_sha1\<close> is the digest of OpenSSL; \<open>e_after\<close> is the memory
  behind the buffer that \<open>kore_base64_encode\<close> reads on into.\<close>

record 'u kore_env =
  e_http :: http_env
  e_wscbs :: "nat \<Rightarrow> 'u kore_wscbs"
  e_sha1 :: "byte list \<Rightarrow> byte list"
  e_after :: "byte list"
  kore_websocket_timeout :: u64
  kore_websocket_maxframe :: nat

definition KORE_IDLE_TIMER_MAX :: u64 where "KORE_IDLE_TIMER_MAX = 20000"

text \<open>\<open>TAILQ_FIRST\<close>, \<open>TAILQ_NEXT\<close> and \<open>TAILQ_REMOVE\<close>.\<close>

definition tailq_first :: "nat list \<Rightarrow> nat option" where
  "tailq_first xs = (case xs of [] \<Rightarrow> None | x # _ \<Rightarrow> Some x)"

definition tailq_next :: "nat \<Rightarrow> nat list \<Rightarrow> nat option" where
  "tailq_next x xs = tailq_first (tl (dropWhile (\<lambda>y. y \<noteq> x) xs))"

definition tailq_remove :: "nat \<Rightarrow> nat list \<Rightarrow> nat list res" where
  "tailq_remove x xs = (if x \<in> set xs then Inr (remove1 x xs) else Inl Use_after_free)"

text \<open>The successor of a connection on the list it is on.\<close>

definition list_next :: "'u worker \<Rightarrow> nat \<Rightarrow> nat option" where
  "list_next w i = (if i \<in> set (connections w) then tailq_next i (connections w) else tailq_next i (disconnected_list w))"

definition put_conn :: "'u worker \<Rightarrow> conn \<Rightarrow> 'u worker" where
  "put_conn w c = w\<lparr>conns := (conns w)(cid c \<mapsto> c)\<rparr>"

definition on_conn :: "'u worker \<Rightarrow> nat \<Rightarrow> 'u conn_cb \<Rightarrow> 'u worker res" where
  "on_conn w i f = (case conns w i of None \<Rightarrow> Inl Use_after_free | Some c \<Rightarrow> rbind (f w c) (\<lambda>(w1, c1). Inr (put_conn w1 c1)))"

section \<open>Creation\<close>

text \<open>\<open>state\<close> is not initialised; \<open>junk\<close> is what it holds.\<close>

definition kore_connection_new :: "nat \<Rightarrow> conn_state \<Rightarrow> conn" where
  "kore_connection_new a junk =
     \<lparr>send_queue = [], rnb = None, read_possible = False, write_possible = False, close_empty = False,
      disconnected = False, wire = [], stream_done = [], cid = a, cstate = junk, proto = CONN_PROTO_UNKNOWN,
      idle_act = False, idle_start = 0, idle_length = KORE_IDLE_TIMER_MAX, rnb_extra = None, disc_cb = False,
      wscbs = None, c_http_requests = []\<rparr>"

definition kore_connection_start_idletimer :: "u64 \<Rightarrow> conn \<Rightarrow> conn" where
  "kore_connection_start_idletimer now c = c\<lparr>idle_act := True, idle_start := now\<rparr>"

definition kore_connection_stop_idletimer :: "conn \<Rightarrow> conn" where
  "kore_connection_stop_idletimer c = c\<lparr>idle_act := False, idle_start := 0\<rparr>"

text \<open>\<open>acc\<close> and \<open>nonblock\<close> say that \<open>accept\<close> and \<open>kore_connection_nonblock\<close> succeed; \<open>connect\<close> is the callback of
  the listener. The result is \<open>*out\<close>.\<close>

definition kore_connection_accept ::
    "'u kore_env \<Rightarrow> u64 \<Rightarrow> nat \<Rightarrow> conn_state \<Rightarrow> bool \<Rightarrow> bool \<Rightarrow> 'u conn_cb option \<Rightarrow> 'u worker \<Rightarrow> (nat option \<times> 'u worker) res" where
  "kore_connection_accept env now a junk acc nonblock connect w =
     (let c = kore_connection_new a junk in
      if \<not> acc then Inr (None, w)
      else if \<not> nonblock then Inr (None, w)
      else let w1 = w\<lparr>connections := connections w @ [a]\<rparr>; c1 = c\<lparr>cstate := CONN_STATE_ESTABLISHED\<rparr> in
        rbind (case connect of
            Some f \<Rightarrow> f w1 c1
          | None \<Rightarrow>
              let c2 = c1\<lparr>proto := CONN_PROTO_HTTP,
                    idle_length := (if http_keepalive_time (e_http env) \<noteq> 0
                                    then of_nat (http_keepalive_time (e_http env) * 1000) else idle_length c1)\<rparr> in
              rbind (net_recv_queue (e_junk (e_http env)) c2 (http_header_max (e_http env)) True Http_header_recv)
                (\<lambda>c3. Inr (w1, c3))) (\<lambda>(w2, c2).
          Inr (Some a, (put_conn w2 (kore_connection_start_idletimer now c2))
            \<lparr>worker_active_connections := worker_active_connections w2 + 1\<rparr>)))"

section \<open>Disconnection\<close>

definition websocket_disconnect :: "'u kore_env \<Rightarrow> 'u conn_cb" where
  "websocket_disconnect env w c =
     (case wscbs c of
        None \<Rightarrow> Inl Null_deref
      | Some k \<Rightarrow> (case ws_disconnect (e_wscbs env k) of None \<Rightarrow> Inr (w, c) | Some f \<Rightarrow> f w c))"

definition kore_connection_disconnect :: "'u kore_env \<Rightarrow> 'u conn_cb" where
  "kore_connection_disconnect env w c =
     (if cstate c \<noteq> CONN_STATE_DISCONNECTING then
        let c1 = c\<lparr>cstate := CONN_STATE_DISCONNECTING\<rparr> in
        rbind (if disc_cb c1 then websocket_disconnect env w c1 else Inr (w, c1)) (\<lambda>(w2, c2).
        rbind (tailq_remove (cid c2) (connections w2)) (\<lambda>cs.
          Inr (w2\<lparr>connections := cs, disconnected_list := disconnected_list w2 @ [cid c2]\<rparr>, c2)))
      else Inr (w, c))"

text \<open>\<open>net_send_flush\<close> of \<open>Kore_Net\<close> notes in \<open>disconnected\<close> that it calls \<open>kore_connection_disconnect\<close>; here is
  the call.\<close>

definition conn_send_flush :: "'u kore_env \<Rightarrow> 'u worker \<Rightarrow> conn \<Rightarrow> wres list \<Rightarrow> (int \<times> 'u worker \<times> conn) option res" where
  "conn_send_flush env w c script =
     rbind (net_send_flush (c\<lparr>disconnected := False\<rparr>) script) (\<lambda>r.
       case r of
         None \<Rightarrow> Inr None
       | Some (res, c1) \<Rightarrow>
           if disconnected c1 then rbind (kore_connection_disconnect env w c1) (\<lambda>(w2, c2). Inr (Some (res, w2, c2)))
           else Inr (Some (res, w, c1)))"

definition kore_connection_check_idletimer :: "'u kore_env \<Rightarrow> u64 \<Rightarrow> 'u conn_cb" where
  "kore_connection_check_idletimer env now w c =
     (let d = now - idle_start c in
      if d \<ge> idle_length c then kore_connection_disconnect env w c else Inr (w, c))"

text \<open>The loop reads the successor of a connection after the check, which may have moved the connection to the
  other list.\<close>

fun check_timeout_loop :: "nat \<Rightarrow> 'u kore_env \<Rightarrow> u64 \<Rightarrow> nat option \<Rightarrow> 'u worker \<Rightarrow> 'u worker res" where
  "check_timeout_loop fuel env now None w = Inr w"
| "check_timeout_loop 0 env now (Some i) w = Inl Out_of_fuel"
| "check_timeout_loop (Suc fuel) env now (Some i) w =
     (case conns w i of
        None \<Rightarrow> Inl Use_after_free
      | Some c \<Rightarrow>
          if proto c = CONN_PROTO_MSG \<or> \<not> idle_act c then check_timeout_loop fuel env now (list_next w i) w
          else rbind (on_conn w i (kore_connection_check_idletimer env now)) (\<lambda>w1.
            check_timeout_loop fuel env now (list_next w1 i) w1))"

definition kore_connection_check_timeout :: "nat \<Rightarrow> 'u kore_env \<Rightarrow> u64 \<Rightarrow> 'u worker \<Rightarrow> 'u worker res" where
  "kore_connection_check_timeout fuel env now w = check_timeout_loop fuel env now (tailq_first (connections w)) w"

section \<open>Removal\<close>

fun drop_requests :: "http \<Rightarrow> nat list \<Rightarrow> http res" where
  "drop_requests h [] = Inr h"
| "drop_requests h (r # rs) =
     (case reqs h r of
        None \<Rightarrow> Inl Use_after_free
      | Some req \<Rightarrow>
          rbind (http_request_wakeup (set_req h r (req\<lparr>rq_delete := True\<rparr>)) r) (\<lambda>h1. drop_requests h1 rs))"

definition stream_cbs :: "net_cb netbuf list \<Rightarrow> net_cb list" where
  "stream_cbs q = concat (map (\<lambda>nb. if nb_is_stream nb then (case nb_cb nb of None \<Rightarrow> [] | Some k \<Rightarrow> [k]) else []) q)"

definition kore_connection_remove :: "'u worker \<Rightarrow> conn \<Rightarrow> 'u worker res" where
  "kore_connection_remove w c =
     rbind (drop_requests (whttp w) (c_http_requests c)) (\<lambda>h.
       Inr (w\<lparr>whttp := h, streams_freed := streams_freed w @ stream_cbs (send_queue c),
              conns := (conns w)(cid c := None), worker_active_connections := worker_active_connections w - 1\<rparr>))"

text \<open>The two loops of \<open>kore_connection_prune\<close>; both read the successor before they move the connection. \<open>scripts\<close>
  gives the results of \<open>write\<close> for each connection.\<close>

fun prune_flush :: "nat \<Rightarrow> 'u kore_env \<Rightarrow> (nat \<Rightarrow> wres list) \<Rightarrow> nat option \<Rightarrow> 'u worker \<Rightarrow> 'u worker option res" where
  "prune_flush fuel env scripts None w = Inr (Some w)"
| "prune_flush 0 env scripts (Some i) w = Inl Out_of_fuel"
| "prune_flush (Suc fuel) env scripts (Some i) w =
     (case conns w i of
        None \<Rightarrow> Inl Use_after_free
      | Some c \<Rightarrow>
          let cnext = list_next w i in
          rbind (conn_send_flush env w c (scripts i)) (\<lambda>r.
            case r of
              None \<Rightarrow> Inr None
            | Some (res, w1, c1) \<Rightarrow>
                rbind (kore_connection_disconnect env w1 c1) (\<lambda>(w2, c2).
                  prune_flush fuel env scripts cnext (put_conn w2 c2))))"

fun prune_remove :: "nat list \<Rightarrow> 'u worker \<Rightarrow> 'u worker res" where
  "prune_remove [] w = Inr w"
| "prune_remove (i # is) w =
     (case conns w i of
        None \<Rightarrow> Inl Use_after_free
      | Some c \<Rightarrow>
          rbind (tailq_remove i (disconnected_list w)) (\<lambda>ds.
          rbind (kore_connection_remove (w\<lparr>disconnected_list := ds\<rparr>) c) (\<lambda>w1. prune_remove is w1)))"

definition kore_connection_prune ::
    "nat \<Rightarrow> 'u kore_env \<Rightarrow> (nat \<Rightarrow> wres list) \<Rightarrow> bool \<Rightarrow> 'u worker \<Rightarrow> 'u worker option res" where
  "kore_connection_prune fuel env scripts all w =
     rbind (if all then prune_flush fuel env scripts (tailq_first (connections w)) w else Inr (Some w)) (\<lambda>r.
       case r of
         None \<Rightarrow> Inr None
       | Some w1 \<Rightarrow> rbind (prune_remove (disconnected_list w1) w1) (\<lambda>w2. Inr (Some w2)))"

section \<open>The connection invariant\<close>

text \<open>Every live connection is on exactly one of the two lists, on \<open>disconnected\<close> exactly when its state says so, and
  the worker counts them.\<close>

definition conn_ok :: "'u worker \<Rightarrow> nat \<Rightarrow> conn \<Rightarrow> bool" where
  "conn_ok w i c \<longleftrightarrow> cid c = i \<and> (cstate c = CONN_STATE_DISCONNECTING \<longleftrightarrow> i \<in> set (disconnected_list w)) \<and>
     (disc_cb c \<longrightarrow> wscbs c \<noteq> None)"

definition conns_ok :: "'u worker \<Rightarrow> bool" where
  "conns_ok w \<longleftrightarrow> distinct (connections w @ disconnected_list w) \<and>
     set (connections w) \<union> set (disconnected_list w) = dom (conns w) \<and>
     (\<forall>i c. conns w i = Some c \<longrightarrow> conn_ok w i c) \<and>
     worker_active_connections w = of_nat (length (connections w @ disconnected_list w))"

text \<open>What the operations do not change.\<close>

definition same_lists :: "'u worker \<Rightarrow> 'u worker \<Rightarrow> bool" where
  "same_lists w w' \<longleftrightarrow> connections w' = connections w \<and> disconnected_list w' = disconnected_list w \<and>
     worker_active_connections w' = worker_active_connections w \<and> dom (conns w') = dom (conns w) \<and>
     (\<forall>i c c'. conns w i = Some c \<longrightarrow> conns w' i = Some c' \<longrightarrow>
        cid c' = cid c \<and> cstate c' = cstate c \<and> disc_cb c' = disc_cb c \<and> wscbs c' = wscbs c)"

text \<open>Disconnect callbacks that return and leave the lists alone; they may send and change the state of the application.\<close>

definition quiet_disconnect :: "'u kore_env \<Rightarrow> bool" where
  "quiet_disconnect env \<longleftrightarrow> (\<forall>k f w c. ws_disconnect (e_wscbs env k) = Some f \<longrightarrow>
     (\<exists>w' c'. f w c = Inr (w', c') \<and> same_lists w w' \<and> cid c' = cid c \<and> cstate c' = cstate c \<and> disc_cb c' = disc_cb c \<and>
       wscbs c' = wscbs c))"

lemma same_lists_refl [simp, intro]: "same_lists w w"
  by (auto simp: same_lists_def)

lemma same_lists_conns_ok:
  assumes "same_lists w w'" "conns_ok w"
  shows "conns_ok w'"
proof -
  have "conn_ok w' i c'" if "conns w' i = Some c'" for i c'
  proof -
    from that assms(1) have "i \<in> dom (conns w)" by (auto simp: same_lists_def)
    then obtain c where c: "conns w i = Some c" by blast
    with assms(2) have "conn_ok w i c" by (simp add: conns_ok_def)
    moreover from assms(1) c that have "cid c' = cid c \<and> cstate c' = cstate c \<and> disc_cb c' = disc_cb c \<and> wscbs c' = wscbs c"
      by (simp add: same_lists_def)
    ultimately show ?thesis using assms(1) by (simp add: conn_ok_def same_lists_def)
  qed
  with assms show ?thesis by (auto simp: conns_ok_def same_lists_def)
qed

lemma conns_okD:
  assumes "conns_ok w" "conns w i = Some c"
  shows "cid c = i" "cstate c = CONN_STATE_DISCONNECTING \<longleftrightarrow> i \<in> set (disconnected_list w)" "disc_cb c \<longrightarrow> wscbs c \<noteq> None"
    "i \<in> set (connections w) \<longleftrightarrow> i \<notin> set (disconnected_list w)"
  using assms by (auto simp: conns_ok_def conn_ok_def)

lemma conns_ok_lookup: "conns_ok w \<Longrightarrow> i \<in> set (connections w) \<or> i \<in> set (disconnected_list w) \<Longrightarrow> \<exists>c. conns w i = Some c"
  by (auto simp: conns_ok_def)

lemma put_conn_simps [simp]:
  "connections (put_conn w c) = connections w" "disconnected_list (put_conn w c) = disconnected_list w"
  "conns (put_conn w c) = (conns w)(cid c \<mapsto> c)" "worker_active_connections (put_conn w c) = worker_active_connections w"
  "whttp (put_conn w c) = whttp w" "user (put_conn w c) = user w"
  by (simp_all add: put_conn_def)

lemma conns_ok_put:
  assumes "conns_ok (put_conn w c)" "cid c' = cid c" "cstate c' = cstate c" "disc_cb c' \<longrightarrow> wscbs c' \<noteq> None"
  shows "conns_ok (put_conn w c')"
proof -
  have "conn_ok (put_conn w c) (cid c) c" using assms(1) by (simp add: conns_ok_def)
  then have "conn_ok (put_conn w c') (cid c) c'" using assms(2-4) by (simp add: conn_ok_def)
  moreover have "conn_ok (put_conn w c') i x" if "i \<noteq> cid c" "conns w i = Some x" for i x
    using conns_okD(1-3) [OF assms(1), of i x] that by (simp add: conn_ok_def)
  ultimately have "\<forall>i x. conns (put_conn w c') i = Some x \<longrightarrow> conn_ok (put_conn w c') i x" using assms(2) by auto
  then show ?thesis using assms(1,2) unfolding conns_ok_def by simp
qed

lemma same_lists_put:
  assumes "same_lists w w'" "cid c' = cid c" "cstate c' = cstate c" "disc_cb c' = disc_cb c" "wscbs c' = wscbs c"
  shows "same_lists (put_conn w c) (put_conn w' c')"
proof -
  have "cid x' = cid x \<and> cstate x' = cstate x \<and> disc_cb x' = disc_cb x \<and> wscbs x' = wscbs x"
    if "conns (put_conn w c) i = Some x" "conns (put_conn w' c') i = Some x'" for i x x'
  proof (cases "i = cid c")
    case True
    with that assms(2-5) show ?thesis by simp
  next
    case False
    with that assms(2) have "conns w i = Some x" "conns w' i = Some x'" by simp_all
    with assms(1) show ?thesis unfolding same_lists_def by blast
  qed
  then have all: "\<forall>i x x'. conns (put_conn w c) i = Some x \<longrightarrow> conns (put_conn w' c') i = Some x' \<longrightarrow>
    cid x' = cid x \<and> cstate x' = cstate x \<and> disc_cb x' = disc_cb x \<and> wscbs x' = wscbs x" by blast
  have lists: "connections w' = connections w" "disconnected_list w' = disconnected_list w"
    "worker_active_connections w' = worker_active_connections w" "dom (conns w') = dom (conns w)"
    using assms(1) by (simp_all add: same_lists_def)
  show ?thesis unfolding same_lists_def
    by (intro conjI; (rule all)?; simp add: assms(2) lists)
qed

text \<open>A disconnection, from the run of the callback on.\<close>

lemma conns_ok_move:
  assumes "conns_ok (put_conn w (c\<lparr>cstate := s\<rparr>))" "s \<noteq> CONN_STATE_DISCONNECTING" "cstate c = CONN_STATE_DISCONNECTING"
    "w' = w\<lparr>connections := remove1 (cid c) (connections w), disconnected_list := disconnected_list w @ [cid c]\<rparr>"
  shows "cid c \<in> set (connections w)" "conns_ok (put_conn w' c)"
proof -
  have l: "conns (put_conn w (c\<lparr>cstate := s\<rparr>)) (cid c) = Some (c\<lparr>cstate := s\<rparr>)" by simp
  note k = conns_okD [OF assms(1) l]
  with assms(2) show m: "cid c \<in> set (connections w)" by simp
  from split_list [OF this] obtain xs ys where cs: "connections w = xs @ cid c # ys" by blast
  with assms(1) have d: "cid c \<notin> set xs" "cid c \<notin> set ys" by (auto simp: conns_ok_def)
  have r: "remove1 (cid c) (connections w) = xs @ ys" using cs d by (simp add: remove1_append)
  have "conn_ok (put_conn w' c) (cid c) c" using assms(3,4) k(3) by (simp add: conn_ok_def)
  moreover have "conn_ok (put_conn w' c) i x" if "i \<noteq> cid c" "conns w i = Some x" for i x
  proof -
    have "conns (put_conn w (c\<lparr>cstate := s\<rparr>)) i = Some x" using that by simp
    from conns_okD [OF assms(1) this] that assms(4) show ?thesis by (simp add: conn_ok_def)
  qed
  ultimately have "\<forall>i x. conns (put_conn w' c) i = Some x \<longrightarrow> conn_ok (put_conn w' c) i x" using assms(4) by auto
  moreover have "set (xs @ ys) \<union> set (disconnected_list w @ [cid c]) = insert (cid c) (dom (conns w))"
    using assms(1) cs by (auto simp: conns_ok_def)
  moreover have "distinct ((xs @ ys) @ disconnected_list w @ [cid c])" using assms(1) cs by (auto simp: conns_ok_def)
  ultimately show "conns_ok (put_conn w' c)" using assms(1,4) cs r by (simp add: conns_ok_def)
qed

lemma kore_connection_disconnect_ok:
  assumes "quiet_disconnect env" "conns_ok (put_conn w c)" "cstate c \<noteq> CONN_STATE_DISCONNECTING"
  shows "\<exists>w' c'. kore_connection_disconnect env w c = Inr (w', c') \<and> conns_ok (put_conn w' c') \<and> cid c' = cid c \<and>
    cstate c' = CONN_STATE_DISCONNECTING \<and> connections w' = remove1 (cid c) (connections w) \<and>
    disconnected_list w' = disconnected_list w @ [cid c]"
proof -
  let ?c1 = "c\<lparr>cstate := CONN_STATE_DISCONNECTING\<rparr>"
  have ws: "disc_cb c \<longrightarrow> wscbs c \<noteq> None" using conns_okD(3) [OF assms(2), of "cid c" c] by simp
  have "\<exists>w2 c2. (if disc_cb ?c1 then websocket_disconnect env w ?c1 else Inr (w, ?c1)) = Inr (w2, c2) \<and> same_lists w w2 \<and>
    cid c2 = cid c \<and> cstate c2 = CONN_STATE_DISCONNECTING \<and> disc_cb c2 = disc_cb c \<and> wscbs c2 = wscbs c"
  proof (cases "\<exists>k f. disc_cb c \<and> wscbs c = Some k \<and> ws_disconnect (e_wscbs env k) = Some f")
    case True
    then obtain k f where k: "disc_cb c" "wscbs c = Some k" "ws_disconnect (e_wscbs env k) = Some f" by blast
    from assms(1) k(3) obtain w2 c2 where "f w ?c1 = Inr (w2, c2)" "same_lists w w2" "cid c2 = cid ?c1"
      "cstate c2 = cstate ?c1" "disc_cb c2 = disc_cb ?c1" "wscbs c2 = wscbs ?c1" unfolding quiet_disconnect_def by blast
    with k show ?thesis by (simp add: websocket_disconnect_def)
  next
    case False
    with ws show ?thesis by (auto simp: websocket_disconnect_def split: option.splits)
  qed
  then obtain w2 c2 where r: "(if disc_cb ?c1 then websocket_disconnect env w ?c1 else Inr (w, ?c1)) = Inr (w2, c2)"
    "same_lists w w2" "cid c2 = cid c" "cstate c2 = CONN_STATE_DISCONNECTING" "disc_cb c2 = disc_cb c" "wscbs c2 = wscbs c" by blast
  have "conns_ok (put_conn w2 (c2\<lparr>cstate := cstate c\<rparr>))"
    by (rule same_lists_conns_ok [OF same_lists_put [OF r(2), of "c2\<lparr>cstate := cstate c\<rparr>" c] assms(2)]) (simp_all add: r)
  note mv = conns_ok_move [OF this assms(3) r(4) refl]
  show ?thesis using r mv assms(3) by (simp add: kore_connection_disconnect_def tailq_remove_def same_lists_def)
qed

section \<open>Idle connections\<close>

text \<open>The connections the check would close.\<close>

definition expired :: "'u worker \<Rightarrow> u64 \<Rightarrow> nat \<Rightarrow> bool" where
  "expired w now i \<longleftrightarrow> (case conns w i of None \<Rightarrow> False
     | Some c \<Rightarrow> proto c \<noteq> CONN_PROTO_MSG \<and> idle_act c \<and> now - idle_start c \<ge> idle_length c)"

lemma tailq_next_append: "x \<notin> set xs \<Longrightarrow> tailq_next x (xs @ x # ys) = tailq_first ys"
  by (induction xs) (auto simp: tailq_next_def)

lemma put_conn_id: "conns w (cid c) = Some c \<Longrightarrow> put_conn w c = w"
  by (simp add: put_conn_def fun_upd_idem)

lemma check_timeout_skip:
  assumes "conns_ok w" "connections w = ys @ i # zs" "\<not> expired w now i"
  shows "check_timeout_loop (Suc fuel) env now (Some i) w = check_timeout_loop fuel env now (tailq_first zs) w"
proof -
  from conns_ok_lookup [OF assms(1), of i] assms(2) obtain c where c: "conns w i = Some c" by auto
  have d: "i \<notin> set ys" using assms(1,2) by (auto simp: conns_ok_def)
  have "list_next w i = tailq_first zs" using tailq_next_append [OF d] assms(2) by (simp add: list_next_def)
  moreover have "on_conn w i (kore_connection_check_idletimer env now) = Inr w"
    if "\<not> (proto c = CONN_PROTO_MSG \<or> \<not> idle_act c)"
    using that assms(3) c put_conn_id [of w c] conns_okD(1) [OF assms(1) c]
    by (simp add: on_conn_def kore_connection_check_idletimer_def expired_def)
  ultimately show ?thesis using c by simp
qed

lemma check_timeout_none:
  assumes "conns_ok w"
  shows "connections w = ys @ zs \<Longrightarrow> \<forall>i \<in> set zs. \<not> expired w now i \<Longrightarrow> length zs \<le> fuel \<Longrightarrow>
    check_timeout_loop fuel env now (tailq_first zs) w = Inr w"
proof (induction zs arbitrary: ys fuel)
  case (Cons i zs)
  then obtain f where f: "fuel = Suc f" by (cases fuel) auto
  from check_timeout_skip [OF assms, of ys i zs now f env] Cons.IH [of "ys @ [i]" f] Cons.prems f show ?case
    by (simp add: tailq_first_def)
qed (simp add: tailq_first_def)

lemma check_timeout_hit:
  assumes "conns_ok w" "quiet_disconnect env" "connections w = ys @ i # zs" "expired w now i"
  shows "\<exists>w'. check_timeout_loop (Suc fuel) env now (Some i) w = Inr w' \<and> conns_ok w' \<and> connections w' = ys @ zs \<and>
    disconnected_list w' = disconnected_list w @ [i]"
proof -
  from conns_ok_lookup [OF assms(1), of i] assms(3) obtain c where c: "conns w i = Some c" by auto
  have d: "i \<notin> set ys" "i \<notin> set zs" "i \<notin> set (disconnected_list w)" using assms(1,3) by (auto simp: conns_ok_def)
  note k = conns_okD [OF assms(1) c]
  have put: "put_conn w c = w" using put_conn_id c k(1) by blast
  from kore_connection_disconnect_ok [OF assms(2), of w c] put assms(1) k d(3) obtain w1 c1 where
    dc: "kore_connection_disconnect env w c = Inr (w1, c1)" "conns_ok (put_conn w1 c1)" "cid c1 = i"
      "connections w1 = remove1 i (connections w)" "disconnected_list w1 = disconnected_list w @ [i]" by auto
  have cs: "connections w1 = ys @ zs" using dc(4) assms(3) d by (simp add: remove1_append)
  have "list_next (put_conn w1 c1) i = None"
    using d dc(5) cs tailq_next_append [OF d(3), of "[]"] by (simp add: list_next_def tailq_first_def)
  moreover have "on_conn w i (kore_connection_check_idletimer env now) = Inr (put_conn w1 c1)"
    using c dc(1) assms(4) by (simp add: on_conn_def kore_connection_check_idletimer_def expired_def)
  ultimately show ?thesis using c assms(4) dc cs by (auto simp: expired_def)
qed

lemma check_timeout_first:
  assumes "conns_ok w" "quiet_disconnect env" "expired w now i"
  shows "connections w = zs @ ys @ i # cs \<Longrightarrow> \<forall>j \<in> set ys. \<not> expired w now j \<Longrightarrow> length ys < fuel \<Longrightarrow>
    \<exists>w'. check_timeout_loop fuel env now (tailq_first (ys @ i # cs)) w = Inr w' \<and> conns_ok w' \<and> connections w' = zs @ ys @ cs \<and>
      disconnected_list w' = disconnected_list w @ [i]"
proof (induction ys arbitrary: zs fuel)
  case Nil
  then obtain f where "fuel = Suc f" by (cases fuel) auto
  with check_timeout_hit [OF assms(1,2) _ assms(3), of zs cs f] Nil.prems(1) show ?case by (simp add: tailq_first_def)
next
  case (Cons j ys)
  then obtain f where f: "fuel = Suc f" by (cases fuel) auto
  from check_timeout_skip [OF assms(1), of zs j "ys @ i # cs" now f env] Cons.IH [of "zs @ [j]" f] Cons.prems f show ?case
    by (simp add: tailq_first_def)
qed

section \<open>Removal of connections\<close>

definition worker_ok :: "'u worker \<Rightarrow> bool" where
  "worker_ok w \<longleftrightarrow> conns_ok w \<and> http_ok (whttp w) \<and> (\<forall>i c. conns w i = Some c \<longrightarrow> owns (whttp w) c)"

definition dropped :: "http_request \<Rightarrow> http_request" where
  "dropped req = req\<lparr>rq_delete := True, rq_sleeping := False\<rparr>"

lemma drop_requests_ok:
  "http_ok h \<Longrightarrow> distinct rs \<Longrightarrow> \<forall>r \<in> set rs. reqs h r \<noteq> None \<Longrightarrow>
    \<exists>h'. drop_requests h rs = Inr h' \<and> http_ok h' \<and> header_buf h' = header_buf h \<and>
      (\<forall>q. reqs h' q = (if q \<in> set rs then map_option dropped (reqs h q) else reqs h q))"
proof (induction rs arbitrary: h)
  case (Cons r rs)
  then obtain req where req: "reqs h r = Some req" by auto
  let ?h = "set_req h r (req\<lparr>rq_delete := True\<rparr>)"
  have ok: "http_ok ?h" by (rule http_ok_set_req [OF Cons.prems(1) req]) simp
  from http_request_wakeup_ok [OF ok, of r "req\<lparr>rq_delete := True\<rparr>"] obtain h1 where
    h1: "http_request_wakeup ?h r = Inr h1" "http_ok h1" "header_buf h1 = header_buf h" "reqs h1 = (reqs h)(r \<mapsto> dropped req)"
    by (auto simp: dropped_def)
  have "\<forall>q \<in> set rs. reqs h1 q \<noteq> None" using Cons.prems(3) h1(4) by simp
  from Cons.IH [OF h1(2) _ this] Cons.prems(2) obtain h' where
    h': "drop_requests h1 rs = Inr h'" "http_ok h'" "header_buf h' = header_buf h1"
      "\<forall>q. reqs h' q = (if q \<in> set rs then map_option dropped (reqs h1 q) else reqs h1 q)" by auto
  have "reqs h' q = (if q \<in> set (r # rs) then map_option dropped (reqs h q) else reqs h q)" for q
    using h'(4) h1(4) req Cons.prems(2) by (cases "q = r") simp_all
  with h' h1 req show ?case by simp
qed simp

text \<open>Removing one connection that is on no list any more.\<close>

lemma kore_connection_remove_ok:
  assumes "http_ok (whttp w)" "owns (whttp w) c"
  shows "\<exists>h'. kore_connection_remove w c = Inr (w\<lparr>whttp := h', streams_freed := streams_freed w @ stream_cbs (send_queue c),
      conns := (conns w)(cid c := None), worker_active_connections := worker_active_connections w - 1\<rparr>) \<and> http_ok h' \<and>
    (\<forall>r. reqs h' r = (if r \<in> set (c_http_requests c) then map_option dropped (reqs (whttp w) r) else reqs (whttp w) r))"
proof -
  have "distinct (c_http_requests c)" "\<forall>r \<in> set (c_http_requests c). reqs (whttp w) r \<noteq> None"
    using assms(2) by (auto simp: owns_def)
  from drop_requests_ok [OF assms(1) this] show ?thesis by (auto simp: kore_connection_remove_def)
qed

lemma owns_dropped:
  assumes "owns h c" "\<forall>r. reqs h' r = (if r \<in> R then map_option dropped (reqs h r) else reqs h r)"
  shows "owns h' c"
  using assms by (fastforce simp: owns_def dropped_def)

lemma conns_ok_drop:
  assumes "conns_ok w" "disconnected_list w = i # ds" "conns w' = (conns w)(i := None)" "connections w' = connections w"
    "disconnected_list w' = ds" "worker_active_connections w' = worker_active_connections w - 1"
  shows "conns_ok w'"
proof -
  have "conn_ok w' j c" if "conns w' j = Some c" for j c
    using that assms conns_okD [OF assms(1), of j c] by (auto simp: conn_ok_def split: if_splits)
  moreover have "set (connections w') \<union> set ds = dom (conns w')" using assms by (auto simp: conns_ok_def)
  ultimately show ?thesis using assms by (auto simp: conns_ok_def)
qed

lemma prune_remove_ok:
  "worker_ok w \<Longrightarrow> disconnected_list w = is \<Longrightarrow>
    \<exists>w'. prune_remove is w = Inr w' \<and> worker_ok w' \<and> connections w' = connections w \<and> disconnected_list w' = [] \<and>
      (\<forall>i. conns w' i = (if i \<in> set is then None else conns w i)) \<and>
      (\<forall>r. reqs (whttp w') r = (if \<exists>i \<in> set is. r \<in> set (c_http_requests (the (conns w i)))
         then map_option dropped (reqs (whttp w) r) else reqs (whttp w) r))"
proof (induction "is" arbitrary: w)
  case (Cons i "is")
  have ok: "conns_ok w" "http_ok (whttp w)" using Cons.prems(1) by (simp_all add: worker_ok_def)
  from conns_ok_lookup [OF ok(1), of i] Cons.prems(2) obtain c where c: "conns w i = Some c" by auto
  then have cid: "cid c = i" and ow: "owns (whttp w) c" using conns_okD(1) [OF ok(1) c] Cons.prems(1) by (auto simp: worker_ok_def)
  let ?w = "w\<lparr>disconnected_list := is\<rparr>"
  from kore_connection_remove_ok [of ?w c] ok(2) ow obtain h' where
    r: "kore_connection_remove ?w c = Inr (?w\<lparr>whttp := h', streams_freed := streams_freed w @ stream_cbs (send_queue c),
        conns := (conns w)(i := None), worker_active_connections := worker_active_connections w - 1\<rparr>)" "http_ok h'"
      "\<forall>r. reqs h' r = (if r \<in> set (c_http_requests c) then map_option dropped (reqs (whttp w) r) else reqs (whttp w) r)"
    by (auto simp: cid)
  define w1 where "w1 = ?w\<lparr>whttp := h', streams_freed := streams_freed w @ stream_cbs (send_queue c),
        conns := (conns w)(i := None), worker_active_connections := worker_active_connections w - 1\<rparr>"
  have "conns_ok w1" by (rule conns_ok_drop [OF ok(1) Cons.prems(2)]) (simp_all add: w1_def)
  moreover have "owns h' c'" if "conns w1 j = Some c'" for j c'
    using that Cons.prems(1) owns_dropped [OF _ r(3)] by (auto simp: w1_def worker_ok_def split: if_splits)
  ultimately have "worker_ok w1" using r(2) by (simp add: worker_ok_def w1_def)
  from Cons.IH [OF this] obtain w' where
    w': "prune_remove is w1 = Inr w'" "worker_ok w'" "connections w' = connections w" "disconnected_list w' = []"
      "\<forall>j. conns w' j = (if j \<in> set is then None else conns w1 j)"
      "\<forall>r. reqs (whttp w') r = (if \<exists>i \<in> set is. r \<in> set (c_http_requests (the (conns w1 i)))
         then map_option dropped (reqs h' r) else reqs h' r)" by (auto simp: w1_def)
  have ni: "i \<notin> set is" using ok(1) Cons.prems(2) by (auto simp: conns_ok_def)
  have "prune_remove (i # is) w = Inr w'" using c Cons.prems(2) r(1) w'(1) by (simp add: tailq_remove_def w1_def)
  moreover have "\<forall>j. conns w' j = (if j \<in> set (i # is) then None else conns w j)" using w'(5) by (simp add: w1_def)
  moreover have "reqs (whttp w') q = (if \<exists>j \<in> set (i # is). q \<in> set (c_http_requests (the (conns w j)))
      then map_option dropped (reqs (whttp w) q) else reqs (whttp w) q)" for q
  proof -
    have eq: "(\<exists>j \<in> set is. q \<in> set (c_http_requests (the (conns w1 j)))) \<longleftrightarrow> (\<exists>j \<in> set is. q \<in> set (c_http_requests (the (conns w j))))"
      using ni by (auto simp: w1_def)
    have dd: "map_option dropped (map_option dropped x) = map_option dropped x" for x by (cases x) (simp_all add: dropped_def)
    show ?thesis unfolding w'(6) [rule_format] eq r(3) [rule_format] using c by (auto simp: dd)
  qed
  ultimately show ?case using w'(2-4) by blast
qed (auto simp: worker_ok_def)

lemma kore_connection_accept_http:
  assumes "worker_ok w" "conns w a = None" "0 < http_header_max (e_http env)"
    and fresh_owner: "\<And>r req. reqs (whttp w) r = Some req \<Longrightarrow> rq_owner req \<noteq> a"
  shows "\<exists>w' c. kore_connection_accept env now a junk True True None w = Inr (Some a, w') \<and> worker_ok w' \<and>
    connections w' = connections w @ [a] \<and> conns w' = (conns w)(a \<mapsto> c) \<and> whttp w' = whttp w \<and>
    proto c = CONN_PROTO_HTTP \<and> cstate c = CONN_STATE_ESTABLISHED \<and> send_queue c = [] \<and> c_http_requests c = [] \<and>
    (\<exists>nb. rnb c = Some nb \<and> recv_ok nb \<and> m_len nb = length (nb_buf nb) \<and> nb_cb nb = Some Http_header_recv \<and>
       b_len nb = http_header_max (e_http env) \<and> s_off nb = 0 \<and> nb_call_always nb)"
proof -
  let ?m = "http_header_max (e_http env)"
  let ?nb = "\<lparr>nb_buf = fresh (e_junk (e_http env)) ?m, s_off = 0, b_len = ?m, m_len = ?m, nb_type = NETBUF_RECV, nb_cb = Some Http_header_recv,
      nb_call_always = True, nb_force_remove = False, nb_must_resend = False, nb_is_stream = False\<rparr>"
  define c where "c = (kore_connection_new a junk)\<lparr>cstate := CONN_STATE_ESTABLISHED, proto := CONN_PROTO_HTTP,
      idle_length := (if http_keepalive_time (e_http env) \<noteq> 0 then of_nat (http_keepalive_time (e_http env) * 1000) else KORE_IDLE_TIMER_MAX),
      rnb := Some ?nb, idle_act := True, idle_start := now\<rparr>"
  let ?w = "(put_conn (w\<lparr>connections := connections w @ [a]\<rparr>) c)\<lparr>worker_active_connections := worker_active_connections w + 1\<rparr>"
  have acc: "kore_connection_accept env now a junk True True None w = Inr (Some a, ?w)"
    using assms(3) by (simp add: kore_connection_accept_def kore_connection_new_def net_recv_queue_def malloc_block_def Let_def
        kore_connection_start_idletimer_def c_def)
  have ok: "conns_ok w" "http_ok (whttp w)" using assms(1) by (auto simp: worker_ok_def)
  have na: "a \<notin> set (connections w)" "a \<notin> set (disconnected_list w)" using ok(1) assms(2) by (auto simp: conns_ok_def)
  have cc: "cid c = a" "cstate c = CONN_STATE_ESTABLISHED" "\<not> disc_cb c" "c_http_requests c = []" by (simp_all add: c_def kore_connection_new_def)
  have "conn_ok ?w i x" if "conns ?w i = Some x" for i x
    using that conns_okD [OF ok(1), of i x] na cc by (cases "i = a") (auto simp: conn_ok_def)
  moreover have "insert a (set (connections w)) \<union> set (disconnected_list w) = insert a (dom (conns w))"
    using ok(1) by (auto simp: conns_ok_def)
  ultimately have "conns_ok ?w" using ok(1) na cc(1) by (auto simp: conns_ok_def)
  moreover have "owns (whttp w) x" if "conns ?w i = Some x" for i x
    using that assms(1) cc fresh_owner by (cases "i = a") (auto simp: worker_ok_def owns_def)
  ultimately have "worker_ok ?w" using ok(2) by (simp add: worker_ok_def)
  with acc cc(1) show ?thesis
    by (intro exI [of _ ?w] exI [of _ c]) (auto simp: c_def kore_connection_new_def recv_ok_def)
qed

section \<open>Properties\<close>

text \<open>(C20) Pruning removes exactly the disconnected connections, and the invariant of the worker holds again: the requests of
  the removed connections are awake and marked for deletion, all others are as they were.\<close>

theorem kore_connection_prune_correct:
  assumes "worker_ok w"
  shows "\<exists>w'. kore_connection_prune fuel env scripts False w = Inr (Some w') \<and> worker_ok w' \<and>
    connections w' = connections w \<and> disconnected_list w' = [] \<and>
    (\<forall>i. conns w' i = (if i \<in> set (disconnected_list w) then None else conns w i)) \<and>
    (\<forall>r. reqs (whttp w') r = (if \<exists>i \<in> set (disconnected_list w). r \<in> set (c_http_requests (the (conns w i)))
       then map_option dropped (reqs (whttp w) r) else reqs (whttp w) r))"
  using prune_remove_ok [OF assms refl] by (auto simp: kore_connection_prune_def)

definition plain_kenv :: "nat kore_env" where
  "plain_kenv = \<lparr>e_http = test_env, e_wscbs = \<lambda>_. \<lparr>ws_connect = None, ws_message = None, ws_disconnect = None\<rparr>,
     e_sha1 = \<lambda>_. replicate 20 7, e_after = [0], kore_websocket_timeout = 120000, kore_websocket_maxframe = 16384\<rparr>"

definition idle_conn :: "nat \<Rightarrow> conn_state \<Rightarrow> nat list \<Rightarrow> conn" where
  "idle_conn i s rs = (kore_connection_new i s)\<lparr>idle_act := True, proto := CONN_PROTO_HTTP, c_http_requests := rs\<rparr>"

text \<open>Two idle connections, and one that is disconnected while its request waits for a body.\<close>

definition idle_worker :: "nat worker" where
  "idle_worker = \<lparr>whttp = \<lparr>reqs = [5 \<mapsto> blank_request\<lparr>rq_owner := 3, rq_sleeping := True\<rparr>], http_requests = [],
       http_requests_sleeping = [5], http_request_count = 1, header_buf = header_buf test_http\<rparr>,
     conns = [1 \<mapsto> idle_conn 1 CONN_STATE_ESTABLISHED [], 2 \<mapsto> idle_conn 2 CONN_STATE_ESTABLISHED [],
       3 \<mapsto> idle_conn 3 CONN_STATE_DISCONNECTING [5]],
     connections = [1, 2], disconnected_list = [3], worker_active_connections = 3, streams_freed = [], user = 0\<rparr>"

lemma idle_worker_ok: "worker_ok idle_worker" "quiet_disconnect plain_kenv"
  by (auto simp: worker_ok_def conns_ok_def conn_ok_def http_ok_def owns_def idle_worker_def idle_conn_def kore_connection_new_def
      quiet_disconnect_def plain_kenv_def split: if_splits)

theorem kore_connection_prune_correct_witness:
  "\<exists>w'. kore_connection_prune 9 plain_kenv (\<lambda>_. []) False idle_worker = Inr (Some w') \<and> worker_ok w' \<and>
    connections w' = connections idle_worker \<and> disconnected_list w' = [] \<and>
    (\<forall>i. conns w' i = (if i \<in> set (disconnected_list idle_worker) then None else conns idle_worker i)) \<and>
    (\<forall>r. reqs (whttp w') r = (if \<exists>i \<in> set (disconnected_list idle_worker). r \<in> set (c_http_requests (the (conns idle_worker i)))
       then map_option dropped (reqs (whttp idle_worker) r) else reqs (whttp idle_worker) r))"
  by (rule kore_connection_prune_correct) (rule idle_worker_ok)

text \<open>The idle check closes the first connection that is idle for too long and no other: the loop goes on from the list the
  closed connection was moved to, whose end it is, so the connections behind it are not looked at, idle or not.\<close>

theorem check_timeout_closes_one:
  assumes "conns_ok w" and "quiet_disconnect env" and "connections w = ys @ i # zs" and "\<forall>j \<in> set ys. \<not> expired w now j"
    and "expired w now i" and "length ys < fuel"
  shows "\<exists>w'. kore_connection_check_timeout fuel env now w = Inr w' \<and> conns_ok w' \<and> connections w' = ys @ zs \<and>
    disconnected_list w' = disconnected_list w @ [i]"
  using check_timeout_first [OF assms(1,2,5), of "[]" ys zs fuel] assms(3,4,6) by (simp add: kore_connection_check_timeout_def)

theorem check_timeout_closes_one_witness:
  "(\<exists>w'. kore_connection_check_timeout 9 plain_kenv 20000 idle_worker = Inr w' \<and> conns_ok w' \<and> connections w' = [] @ [2] \<and>
    disconnected_list w' = disconnected_list idle_worker @ [1]) \<and> expired idle_worker 20000 2"
proof
  show "\<exists>w'. kore_connection_check_timeout 9 plain_kenv 20000 idle_worker = Inr w' \<and> conns_ok w' \<and> connections w' = [] @ [2] \<and>
    disconnected_list w' = disconnected_list idle_worker @ [1]"
  proof (rule check_timeout_closes_one [OF _ idle_worker_ok(2)])
    show "conns_ok idle_worker" using idle_worker_ok(1) by (simp add: worker_ok_def)
  qed (simp_all add: idle_worker_def expired_def idle_conn_def kore_connection_new_def KORE_IDLE_TIMER_MAX_def)
qed (simp add: idle_worker_def expired_def idle_conn_def kore_connection_new_def KORE_IDLE_TIMER_MAX_def)

end
