(* ===== verification/Kore_Websocket.thy ===== *)
theory Kore_Websocket
  imports Kore_Connection Kore_Base64
begin

text \<open>
  The websocket protocol, \<open>base/kore/websocket.c\<close>: the handshake, building and receiving frames, and broadcasts. A frame
  is received in two or three steps through the receive buffer of the connection: two bytes of header, as much as
  the length byte says at least, and what the extended length says beyond that.
\<close>

section \<open>Constants\<close>

definition WEBSOCKET_FRAME_HDR :: nat where "WEBSOCKET_FRAME_HDR = 2"
definition WEBSOCKET_MASK_LEN :: nat where "WEBSOCKET_MASK_LEN = 4"
definition WEBSOCKET_PAYLOAD_SINGLE :: byte where "WEBSOCKET_PAYLOAD_SINGLE = 125"
definition WEBSOCKET_PAYLOAD_EXTEND_1 :: byte where "WEBSOCKET_PAYLOAD_EXTEND_1 = 126"
definition WEBSOCKET_PAYLOAD_EXTEND_2 :: byte where "WEBSOCKET_PAYLOAD_EXTEND_2 = 127"
definition WEBSOCKET_OPCODE_MASK :: byte where "WEBSOCKET_OPCODE_MASK = 0x0f"

definition WEBSOCKET_FRAME_LENGTH :: "byte \<Rightarrow> byte" where "WEBSOCKET_FRAME_LENGTH x = x AND 0x7f"
definition WEBSOCKET_HAS_MASK :: "byte \<Rightarrow> bool" where "WEBSOCKET_HAS_MASK x \<longleftrightarrow> x AND 0x80 \<noteq> 0"
definition WEBSOCKET_HAS_FINFLAG :: "byte \<Rightarrow> bool" where "WEBSOCKET_HAS_FINFLAG x \<longleftrightarrow> x AND 0x80 \<noteq> 0"
definition WEBSOCKET_RSV :: "byte \<Rightarrow> nat \<Rightarrow> bool" where "WEBSOCKET_RSV x i \<longleftrightarrow> x AND push_bit (7 - i) 1 \<noteq> 0"

definition WEBSOCKET_OP_CONT :: byte where "WEBSOCKET_OP_CONT = 0x00"
definition WEBSOCKET_OP_TEXT :: byte where "WEBSOCKET_OP_TEXT = 0x01"
definition WEBSOCKET_OP_BINARY :: byte where "WEBSOCKET_OP_BINARY = 0x02"
definition WEBSOCKET_OP_CLOSE :: byte where "WEBSOCKET_OP_CLOSE = 0x08"
definition WEBSOCKET_OP_PING :: byte where "WEBSOCKET_OP_PING = 0x09"
definition WEBSOCKET_OP_PONG :: byte where "WEBSOCKET_OP_PONG = 0x10"

definition WEBSOCKET_SERVER_RESPONSE :: "byte list" where
  "WEBSOCKET_SERVER_RESPONSE = bs ''258EAFA5-E914-47DA-95CA-C5AB0DC85B11''"

lemmas ws_ops = WEBSOCKET_OP_CONT_def WEBSOCKET_OP_TEXT_def WEBSOCKET_OP_BINARY_def WEBSOCKET_OP_CLOSE_def WEBSOCKET_OP_PING_def
  WEBSOCKET_OP_PONG_def

lemmas ws_consts = WEBSOCKET_FRAME_HDR_def WEBSOCKET_MASK_LEN_def WEBSOCKET_PAYLOAD_SINGLE_def WEBSOCKET_PAYLOAD_EXTEND_1_def
  WEBSOCKET_PAYLOAD_EXTEND_2_def WEBSOCKET_OPCODE_MASK_def WEBSOCKET_FRAME_LENGTH_def WEBSOCKET_HAS_MASK_def
  WEBSOCKET_HAS_FINFLAG_def WEBSOCKET_RSV_def

section \<open>Sending\<close>

definition websocket_frame_build :: "(nat \<Rightarrow> byte) \<Rightarrow> kore_buf \<Rightarrow> byte \<Rightarrow> byte list \<Rightarrow> kore_buf res" where
  "websocket_frame_build junk frame op data =
     (let len = length data;
          len_1 = (if len > unat WEBSOCKET_PAYLOAD_SINGLE
                   then if len < 65535 then WEBSOCKET_PAYLOAD_EXTEND_1 else WEBSOCKET_PAYLOAD_EXTEND_2
                   else of_nat len);
          len_2 = len_1 AND 0x7f in
      rbind (kore_buf_append junk frame [op OR 0x80]) (\<lambda>f1.
      rbind (kore_buf_append junk f1 [len_2]) (\<lambda>f2.
      rbind (if len_2 > WEBSOCKET_PAYLOAD_SINGLE then
               if len_2 = WEBSOCKET_PAYLOAD_EXTEND_1 then kore_buf_append junk f2 (net_write16 (of_nat len))
               else if len_2 = WEBSOCKET_PAYLOAD_EXTEND_2 then kore_buf_append junk f2 (net_write64 (of_nat len))
               else Inr f2
             else Inr f2) (\<lambda>f3.
        kore_buf_append junk f3 data))))"

definition kore_websocket_send :: "(nat \<Rightarrow> byte) \<Rightarrow> conn \<Rightarrow> byte \<Rightarrow> byte list \<Rightarrow> conn res" where
  "kore_websocket_send junk c op data =
     rbind (kore_buf_alloc junk (length data)) (\<lambda>f.
     rbind (websocket_frame_build junk f op data) (\<lambda>frame. net_send_queue junk c (buf_contents frame)))"

fun broadcast_loop ::
    "nat \<Rightarrow> 'u kore_env \<Rightarrow> byte list \<Rightarrow> nat option \<Rightarrow> (nat \<Rightarrow> wres list) \<Rightarrow> nat option \<Rightarrow> 'u worker \<Rightarrow> 'u worker option res" where
  "broadcast_loop fuel env frame skip scripts None w = Inr (Some w)"
| "broadcast_loop 0 env frame skip scripts (Some i) w = Inl Out_of_fuel"
| "broadcast_loop (Suc fuel) env frame skip scripts (Some i) w =
     (case conns w i of
        None \<Rightarrow> Inl Use_after_free
      | Some c \<Rightarrow>
          if Some i \<noteq> skip \<and> proto c = CONN_PROTO_WEBSOCKET then
            rbind (net_send_queue (e_junk (e_http env)) c frame) (\<lambda>c1.
            rbind (conn_send_flush env w c1 (scripts i)) (\<lambda>r.
              case r of
                None \<Rightarrow> Inr None
              | Some (res, w1, c2) \<Rightarrow>
                  let w2 = put_conn w1 c2 in broadcast_loop fuel env frame skip scripts (list_next w2 i) w2))
          else broadcast_loop fuel env frame skip scripts (list_next w i) w)"

text \<open>The second result is what a broadcast to all workers hands to \<open>kore_msg_send\<close>.\<close>

definition kore_websocket_broadcast ::
    "nat \<Rightarrow> 'u kore_env \<Rightarrow> nat option \<Rightarrow> byte \<Rightarrow> byte list \<Rightarrow> bool \<Rightarrow> (nat \<Rightarrow> wres list) \<Rightarrow> 'u worker \<Rightarrow>
      ('u worker \<times> byte list option) option res" where
  "kore_websocket_broadcast fuel env skip op data global scripts w =
     (let junk = e_junk (e_http env) in
      rbind (kore_buf_alloc junk (length data)) (\<lambda>f.
      rbind (websocket_frame_build junk f op data) (\<lambda>frame.
      rbind (broadcast_loop fuel env (buf_contents frame) skip scripts (tailq_first (connections w)) w) (\<lambda>r.
        case r of
          None \<Rightarrow> Inr None
        | Some w1 \<Rightarrow> Inr (Some (w1, if global then Some (buf_contents frame) else None))))))"

section \<open>Receiving\<close>

definition websocket_recv_opcode :: "'u kore_env \<Rightarrow> 'u worker \<Rightarrow> conn \<Rightarrow> (int \<times> 'u worker \<times> conn) res" where
  "websocket_recv_opcode env w c =
     (case rnb c of
        None \<Rightarrow> Inl Null_deref
      | Some nb \<Rightarrow>
          if length (nb_buf nb) < 2 then Inl Out_of_bounds
          else let b0 = nb_buf nb ! 0; b1 = nb_buf nb ! 1 in
            if \<not> WEBSOCKET_HAS_MASK b1 then Inr (KORE_RESULT_ERROR, w, c)
            else if WEBSOCKET_RSV b0 1 \<or> WEBSOCKET_RSV b0 2 \<or> WEBSOCKET_RSV b0 2 then Inr (KORE_RESULT_ERROR, w, c)
            else let len = WEBSOCKET_FRAME_LENGTH b1; op = b0 AND WEBSOCKET_OPCODE_MASK;
                go = (let len1 = (if len = WEBSOCKET_PAYLOAD_EXTEND_1 then len + 2
                                  else if len = WEBSOCKET_PAYLOAD_EXTEND_2 then len + 8 else len);
                          len2 = len1 + of_nat WEBSOCKET_MASK_LEN in
                      rbind (net_recv_expand (e_junk (e_http env)) c (unat len2) Websocket_recv_frame) (\<lambda>c1.
                        Inr (KORE_RESULT_OK, w, c1))) in
              if op = WEBSOCKET_OP_CONT \<or> op = WEBSOCKET_OP_TEXT \<or> op = WEBSOCKET_OP_BINARY then go
              else if op = WEBSOCKET_OP_CLOSE \<or> op = WEBSOCKET_OP_PING \<or> op = WEBSOCKET_OP_PONG then
                if len > WEBSOCKET_PAYLOAD_SINGLE \<or> \<not> WEBSOCKET_HAS_FINFLAG b0 then Inr (KORE_RESULT_ERROR, w, c) else go
              else Inr (KORE_RESULT_ERROR, w, c))"

text \<open>The loop that takes the mask off.\<close>

function unmask :: "nat \<Rightarrow> nat \<Rightarrow> nat \<Rightarrow> byte list \<Rightarrow> byte list res" where
  "unmask moff i len buf =
     (if i < len then
        if moff + 4 + i < length buf
        then unmask moff (Suc i) len (buf[moff + 4 + i := buf ! (moff + 4 + i) XOR buf ! (moff + i mod 4)])
        else Inl Out_of_bounds
      else Inr buf)"
  by pat_completeness auto
termination by (relation "measure (\<lambda>(moff, i, len, buf). len - i)") auto

declare unmask.simps [simp del]

text \<open>The length of the payload with the offset of the mask and the bytes of extended length, read from the header.\<close>

definition frame_length :: "byte list \<Rightarrow> (nat \<times> nat \<times> nat) res" where
  "frame_length buf =
     (if length buf < 2 then Inl Out_of_bounds
      else let len = WEBSOCKET_FRAME_LENGTH (buf ! 1) in
        if len = WEBSOCKET_PAYLOAD_EXTEND_1 then
          if length buf < 4 then Inl Out_of_bounds else Inr (unat (net_read16 (drop 2 buf)), 4, 2)
        else if len = WEBSOCKET_PAYLOAD_EXTEND_2 then
          if length buf < 10 then Inl Out_of_bounds else Inr (unat (net_read64 (drop 2 buf)), 10, 8)
        else Inr (unat len, 2, 0))"

definition websocket_recv_frame :: "'u kore_env \<Rightarrow> 'u worker \<Rightarrow> conn \<Rightarrow> (int \<times> 'u worker \<times> conn) res" where
  "websocket_recv_frame env w c =
     (let junk = e_junk (e_http env) in
      case rnb c of
        None \<Rightarrow> Inl Null_deref
      | Some nb \<Rightarrow>
          rbind (frame_length (nb_buf nb)) (\<lambda>(len, moff, extra).
            let op = nb_buf nb ! 0 AND WEBSOCKET_OPCODE_MASK in
            if len > kore_websocket_maxframe env then Inr (KORE_RESULT_ERROR, w, c)
            else let total = wadd64 len (extra + WEBSOCKET_FRAME_HDR + WEBSOCKET_MASK_LEN) in
              if total > b_len nb then
                rbind (net_recv_expand junk c (total - b_len nb) Websocket_recv_frame) (\<lambda>c1. Inr (KORE_RESULT_OK, w, c1))
              else if total \<noteq> b_len nb then Inr (KORE_RESULT_ERROR, w, c)
              else rbind (unmask moff 0 len (nb_buf nb)) (\<lambda>buf.
                let c1 = c\<lparr>rnb := Some (nb\<lparr>nb_buf := buf\<rparr>)\<rparr>;
                    payload = take len (drop (moff + 4) buf);
                    finish = (\<lambda>ret w c. rbind (net_recv_reset junk c WEBSOCKET_FRAME_HDR Websocket_recv_opcode) (\<lambda>c2.
                      Inr (ret, w, c2))) in
                if op = WEBSOCKET_OP_CONT \<or> op = WEBSOCKET_OP_PONG then finish KORE_RESULT_ERROR w c1
                else if op = WEBSOCKET_OP_TEXT \<or> op = WEBSOCKET_OP_BINARY then
                  (case wscbs c1 of
                     None \<Rightarrow> Inl Null_deref
                   | Some k \<Rightarrow>
                       (case ws_message (e_wscbs env k) of
                          None \<Rightarrow> finish KORE_RESULT_OK w c1
                        | Some f \<Rightarrow> rbind (f op payload w c1) (\<lambda>(w2, c2). finish KORE_RESULT_OK w2 c2)))
                else if op = WEBSOCKET_OP_CLOSE then
                  rbind (kore_connection_disconnect env w c1) (\<lambda>(w2, c2). finish KORE_RESULT_OK w2 c2)
                else if op = WEBSOCKET_OP_PING then
                  rbind (kore_websocket_send junk c1 WEBSOCKET_OP_PONG payload) (\<lambda>c2. finish KORE_RESULT_OK w c2)
                else Inr (KORE_RESULT_ERROR, w, c1))))"

section \<open>The handshake\<close>

text \<open>\<open>r\<close> is the request and \<open>c\<close> its owner; \<open>k\<close> is the address of the callbacks.\<close>

definition kore_websocket_handshake :: "'u kore_env \<Rightarrow> u64 \<Rightarrow> nat \<Rightarrow> nat \<Rightarrow> 'u conn_cb" where
  "kore_websocket_handshake env now r k w c =
     (let henv = e_http env; junk = e_junk henv; h = whttp w;
          respond = (\<lambda>h c status. http_response henv h c r status None 0);
          refuse = (\<lambda>h status. rbind (respond h c status) (\<lambda>(h1, c1). Inr (w\<lparr>whttp := h1\<rparr>, c1))) in
      case reqs h r of
        None \<Rightarrow> Inl Use_after_free
      | Some req \<Rightarrow>
          (case http_request_header req (bs ''sec-websocket-key'') of
             None \<Rightarrow> refuse h 400
           | Some key \<Rightarrow>
               let h13 = set_req h r (http_response_header req (bs ''sec-websocket-version'') (bs ''13'')) in
               (case http_request_header req (bs ''sec-websocket-version'') of
                  None \<Rightarrow> refuse h13 400
                | Some version \<Rightarrow>
                    if version \<noteq> bs ''13'' then refuse h13 400
                    else
                      rbind (kore_buf_alloc junk 128) (\<lambda>b.
                      rbind (kore_buf_appendv junk b (Some (key @ WEBSOCKET_SERVER_RESPONSE))
                          (e_out2 henv (key @ WEBSOCKET_SERVER_RESPONSE))) (\<lambda>b1.
                      rbind (kore_base64_encode junk (e_after env) (e_sha1 env (buf_contents b1))) (\<lambda>(res, base64).
                        if res = KORE_RESULT_ERROR then refuse h 500
                        else
                          let req1 = http_response_header req (bs ''upgrade'') (bs ''websocket'');
                              req2 = http_response_header req1 (bs ''connection'') (bs ''upgrade'');
                              req3 = http_response_header req2 (bs ''sec-websocket-accept'') (takeWhile (\<lambda>x. x \<noteq> 0) base64) in
                          rbind (respond (set_req h r req3) (c\<lparr>proto := CONN_PROTO_WEBSOCKET\<rparr>) 101) (\<lambda>(h1, c1).
                          rbind (net_recv_reset junk c1 WEBSOCKET_FRAME_HDR Websocket_recv_opcode) (\<lambda>c2.
                            let w1 = w\<lparr>whttp := h1\<rparr>;
                                c3 = c2\<lparr>disc_cb := True, rnb := map_option (\<lambda>nb. nb\<lparr>nb_call_always := False\<rparr>) (rnb c2),
                                       wscbs := Some k, idle_start := now, idle_length := kore_websocket_timeout env\<rparr> in
                            case ws_connect (e_wscbs env k) of None \<Rightarrow> Inr (w1, c3) | Some f \<Rightarrow> f w1 c3))))))))"

section \<open>The text of frames\<close>

definition server_len :: "nat \<Rightarrow> byte list" where
  "server_len n = (if n \<le> 125 then [of_nat n] else if n < 65535 then 126 # net_write16 (of_nat n) else 127 # net_write64 (of_nat n))"

definition server_frame :: "byte \<Rightarrow> byte list \<Rightarrow> byte list" where
  "server_frame op d = (op OR 0x80) # server_len (length d) @ d"

lemma and_7f: "n < 128 \<Longrightarrow> (of_nat n :: byte) AND 0x7f = of_nat n"
proof -
  assume "n < 128"
  then have "take_bit 7 (of_nat n :: byte) = of_nat n" by (simp add: take_bit_of_nat take_bit_nat_eq_self)
  moreover have "(0x7f :: byte) = mask 7" by (simp add: mask_eq_exp_minus_1)
  ultimately show ?thesis by (simp add: take_bit_eq_mask)
qed

lemma or_80:
  "((x :: byte) OR 0x80) AND 0x80 \<noteq> 0" "((x :: byte) OR 0x80) AND 0x7f = x AND 0x7f" "((x :: byte) OR 0x80) AND 0x0f = x AND 0x0f"
proof -
  have "(x OR 0x80) AND 0x80 = (0x80 :: byte)" by (rule bit_word_eqI) (auto simp: bit_simps)
  then show "((x :: byte) OR 0x80) AND 0x80 \<noteq> 0" by simp
  have z: "(0x80 :: byte) AND 0x7f = 0" "(0x80 :: byte) AND 0x0f = 0" by simp_all
  show "((x :: byte) OR 0x80) AND 0x7f = x AND 0x7f" by (simp only: bit.conj_disj_distrib2 z or.right_neutral)
  show "((x :: byte) OR 0x80) AND 0x0f = x AND 0x0f" by (simp only: bit.conj_disj_distrib2 z or.right_neutral)
qed

lemma byte_le: "n < 256 \<Longrightarrow> m < 256 \<Longrightarrow> (of_nat n :: byte) \<le> of_nat m \<longleftrightarrow> n \<le> m"
  by (simp add: word_le_nat_alt unat_of_nat take_bit_nat_eq_self)

lemma websocket_frame_build_ok:
  assumes "buf_holds b [] (10 + length d)" "length d < 2 ^ 32"
  shows "\<exists>b'. websocket_frame_build junk b op d = Inr b' \<and> buf_contents b' = server_frame op d"
proof -
  let ?n = "length d"
  define len_1 :: byte where "len_1 = (if ?n > unat WEBSOCKET_PAYLOAD_SINGLE
     then if ?n < 65535 then WEBSOCKET_PAYLOAD_EXTEND_1 else WEBSOCKET_PAYLOAD_EXTEND_2 else of_nat ?n)"
  define ext where "ext = (if ?n \<le> 125 then [] else if ?n < 65535 then net_write16 (of_nat ?n) else net_write64 (of_nat ?n))"
  have l1: "len_1 AND 0x7f = len_1" "len_1 # ext = server_len ?n"
    using and_7f [of ?n] by (auto simp: len_1_def ext_def server_len_def ws_consts)
  have le: "length ext \<le> 8" by (auto simp: ext_def)
  from buf_holds_mono [OF assms(1), of "length [op OR 0x80] + (length [len_1] + (length ext + length d))"] le
  have b: "buf_holds b [] (length [op OR 0x80] + (length [len_1] + (length ext + (length d + 0))))" by simp
  from buf_holds_append [OF b, of junk] obtain f1 where
    f1: "kore_buf_append junk b [op OR 0x80] = Inr f1" "buf_holds f1 ([] @ [op OR 0x80]) (length [len_1] + (length ext + (length d + 0)))" by blast
  from buf_holds_append [OF f1(2), of junk] obtain f2 where
    f2: "kore_buf_append junk f1 [len_1] = Inr f2" "buf_holds f2 (([] @ [op OR 0x80]) @ [len_1]) (length ext + (length d + 0))" by blast
  from buf_holds_append [OF f2(2), of junk] obtain f3 where
    f3: "kore_buf_append junk f2 ext = Inr f3" "buf_holds f3 ((([] @ [op OR 0x80]) @ [len_1]) @ ext) (length d + 0)" by blast
  have f2': "buf_holds f2 (([] @ [op OR 0x80]) @ [len_1]) (length d + 0)" by (rule buf_holds_mono [OF f2(2)]) simp
  let ?mid = "if len_1 > WEBSOCKET_PAYLOAD_SINGLE then
       if len_1 = WEBSOCKET_PAYLOAD_EXTEND_1 then kore_buf_append junk f2 (net_write16 (of_nat ?n))
       else if len_1 = WEBSOCKET_PAYLOAD_EXTEND_2 then kore_buf_append junk f2 (net_write64 (of_nat ?n)) else Inr f2
     else Inr f2"
  have "\<exists>f. ?mid = Inr f \<and> buf_holds f ((([] @ [op OR 0x80]) @ [len_1]) @ ext) (length d + 0)"
  proof (cases "?n \<le> 125")
    case True
    then have "\<not> len_1 > WEBSOCKET_PAYLOAD_SINGLE" "ext = []" using byte_le [of ?n 125] by (auto simp: len_1_def ext_def ws_consts not_less)
    then show ?thesis using f2' by simp
  next
    case False
    then show ?thesis using f3 by (auto simp: len_1_def ext_def ws_consts)
  qed
  then obtain f where f: "?mid = Inr f" "buf_holds f ((([] @ [op OR 0x80]) @ [len_1]) @ ext) (length d + 0)" by blast
  from buf_holds_append [OF f(2), of junk] obtain f4 where
    f4: "kore_buf_append junk f d = Inr f4" "buf_contents f4 = [op OR 0x80, len_1] @ ext @ d" by (auto simp: buf_holds_def)
  have "websocket_frame_build junk b op d = Inr f4"
    unfolding websocket_frame_build_def Let_def len_1_def [symmetric] l1(1) using f1(1) f2(1) f(1) f4(1) by simp
  then show ?thesis using f4(2) l1(2) by (auto simp: server_frame_def)
qed

lemma kore_websocket_send_ok:
  assumes "send_ok c" "length d < 2 ^ 31"
  shows "\<exists>q. kore_websocket_send junk c op d = Inr (c\<lparr>send_queue := q\<rparr>) \<and> send_ok (c\<lparr>send_queue := q\<rparr>) \<and>
    conn_output (c\<lparr>send_queue := q\<rparr>) = conn_output c @ server_frame op d"
proof -
  from buf_holds_alloc [of "length d" "10 + length d" junk] assms(2) obtain b where
    b: "kore_buf_alloc junk (length d) = Inr b" "buf_holds b [] (10 + length d)" by auto
  from websocket_frame_build_ok [OF b(2), of junk op] assms(2) obtain b' where
    b': "websocket_frame_build junk b op d = Inr b'" "buf_contents b' = server_frame op d" by auto
  have "length (server_frame op d) < 2 ^ 32" using assms(2) by (simp add: server_frame_def server_len_def)
  from net_send_queue_ok [OF assms(1) this, of junk] b b' show ?thesis by (auto simp: kore_websocket_send_def)
qed

text \<open>How a client reads an unmasked frame: the first byte and the payload.\<close>

definition read_frame :: "byte list \<Rightarrow> (byte \<times> byte list) option" where
  "read_frame t =
     (case t of
        b0 # b1 # r \<Rightarrow>
          if b1 \<le> 125 then if length r = unat b1 then Some (b0, r) else None
          else if b1 = 126 then
            if 2 \<le> length r \<and> length (drop 2 r) = unat (net_read16 r) then Some (b0, drop 2 r) else None
          else if b1 = 127 then
            if 8 \<le> length r \<and> length (drop 8 r) = unat (net_read64 r) then Some (b0, drop 8 r) else None
          else None
      | _ \<Rightarrow> None)"

lemma read_server_frame:
  assumes "length d < 2 ^ 64"
  shows "read_frame (server_frame op d) = Some (op OR 0x80, d)"
proof -
  consider "length d \<le> 125" | "125 < length d" "length d < 65535" | "65535 \<le> length d" by linarith
  then show ?thesis
  proof cases
    case 1
    then have "(of_nat (length d) :: byte) \<le> 125" using byte_le [of "length d" 125] by simp
    then show ?thesis using 1 by (simp add: read_frame_def server_frame_def server_len_def unat_of_nat take_bit_nat_eq_self)
  next
    case 2
    then show ?thesis using net_read_write(1) [of "of_nat (length d)" d]
      by (simp add: read_frame_def server_frame_def server_len_def unat_of_nat take_bit_nat_eq_self)
  next
    case 3
    then show ?thesis using net_read_write(3) [of "of_nat (length d)" d] assms
      by (simp add: read_frame_def server_frame_def server_len_def unat_of_nat take_bit_nat_eq_self)
  qed
qed

interpretation ws_frame: text_codec "\<lambda>(b0, d). b0 AND 0x80 \<noteq> 0 \<and> length d < 2 ^ 64" "\<lambda>(b0, d). server_frame b0 d" read_frame
proof unfold_locales
  fix x :: "byte \<times> byte list"
  assume v: "case x of (b0, d) \<Rightarrow> b0 AND 0x80 \<noteq> 0 \<and> length d < 2 ^ 64"
  obtain b0 d where x: "x = (b0, d)" by (cases x)
  have "bit b0 7"
  proof (rule ccontr)
    assume "\<not> bit b0 7"
    then have "b0 AND 0x80 = 0" by (intro bit_word_eqI) (auto simp: bit_simps less_Suc_eq numeral_eq_Suc)
    with v x show False by simp
  qed
  then have "b0 OR 0x80 = b0" by (intro bit_word_eqI) (auto simp: bit_simps less_Suc_eq numeral_eq_Suc)
  with v x show "read_frame (case x of (b0, d) \<Rightarrow> server_frame b0 d) = Some x" by (simp add: read_server_frame)
qed

text \<open>A masked frame as a client sends it.\<close>

definition xor_mask :: "byte list \<Rightarrow> byte list \<Rightarrow> byte list" where
  "xor_mask key d = map (\<lambda>i. d ! i XOR key ! (i mod 4)) [0..<length d]"

definition client_len :: "nat \<Rightarrow> byte list" where
  "client_len n = (if n \<le> 125 then [of_nat n OR 0x80] else if n < 65536 then (126 OR 0x80) # net_write16 (of_nat n)
     else (127 OR 0x80) # net_write64 (of_nat n))"

definition client_frame :: "byte \<Rightarrow> byte list \<Rightarrow> byte list \<Rightarrow> byte list" where
  "client_frame b0 key d = b0 # client_len (length d) @ key @ xor_mask key d"

text \<open>How far the first two steps of the reception go.\<close>

definition first_total :: "nat \<Rightarrow> nat" where
  "first_total n = (if n \<le> 125 then n + 6 else if n < 65536 then 134 else 141)"

lemma length_client_len: "length (client_len n) = (if n \<le> 125 then 1 else if n < 65536 then 3 else 9)"
  by (simp add: client_len_def)

lemma length_xor_mask [simp]: "length (xor_mask key d) = length d"
  by (simp add: xor_mask_def)

lemma first_total_le: "length key = 4 \<Longrightarrow> first_total (length d) \<le> length (client_frame b0 key d)"
  by (auto simp: first_total_def client_frame_def length_client_len)

lemma client_len_byte:
  "\<exists>l. hd (client_len n) AND 0x7f = l \<and> hd (client_len n) AND 0x80 \<noteq> 0 \<and>
    (if n \<le> 125 then l = of_nat n \<and> l \<le> 125 else if n < 65536 then l = 126 else l = 127)"
  using and_7f [of n] byte_le [of n 125] or_80 [of "of_nat n"] by (auto simp: client_len_def)

lemma frame_length_client:
  assumes "length key = 4" "length d < 2 ^ 63" "length (client_len (length d)) < k" "take k buf = take k (client_frame b0 key d)"
    "k \<le> length buf" "k \<le> length (client_frame b0 key d)" "2 \<le> k"
  shows "frame_length buf = Inr (length d, 1 + length (client_len (length d)), length (client_len (length d)) - 1)"
proof -
  let ?F = "client_frame b0 key d" and ?n = "length d"
  have nth: "buf ! i = ?F ! i" if "i < k" for i using that assms(4) by (metis nth_take)
  have dr: "take (k - 2) (drop 2 buf) = take (k - 2) (drop 2 ?F)" using arg_cong [OF assms(4), of "drop 2"] by (simp add: drop_take)
  have b1: "buf ! 1 = hd (client_len ?n)" using nth [of 1] assms(7) by (simp add: client_frame_def client_len_def)
  note lb = client_len_byte [of ?n, folded b1]
  consider "?n \<le> 125" | "125 < ?n" "?n < 65536" | "65536 \<le> ?n" by linarith
  then show ?thesis
  proof cases
    case 1
    with lb have "buf ! 1 AND 0x7f = of_nat ?n" "(of_nat ?n :: byte) \<le> 125" by auto
    moreover from this(2) have "(of_nat ?n :: byte) \<noteq> 126" "(of_nat ?n :: byte) \<noteq> 127" by auto
    ultimately show ?thesis using 1 assms(5,7)
      by (simp add: frame_length_def ws_consts length_client_len unat_of_nat take_bit_nat_eq_self)
  next
    case 2
    with lb have l: "buf ! 1 AND 0x7f = 126" by auto
    have k: "4 \<le> k" using 2 assms(3) by (simp add: length_client_len)
    have "take 2 (drop 2 buf) = take 2 (drop 2 ?F)" using arg_cong [OF dr, of "take 2"] k by (simp add: min_absorb1 le_diff_conv2)
    then have "net_read16 (drop 2 buf) = net_read16 (drop 2 ?F)" by (simp add: net_read16_def)
    also have "\<dots> = of_nat ?n" using 2 net_read_write(1) [of "of_nat ?n"] by (simp add: client_frame_def client_len_def)
    finally show ?thesis using 2 l k assms(5) by (simp add: frame_length_def ws_consts length_client_len unat_of_nat take_bit_nat_eq_self)
  next
    case 3
    with lb have l: "buf ! 1 AND 0x7f = 127" by auto
    have k: "10 \<le> k" using 3 assms(3) by (simp add: length_client_len)
    have "take 8 (drop 2 buf) = take 8 (drop 2 ?F)" using arg_cong [OF dr, of "take 8"] k by (simp add: min_absorb1 le_diff_conv2)
    then have "net_read64 (drop 2 buf) = net_read64 (drop 2 ?F)" by (simp add: net_read64_def)
    also have "\<dots> = of_nat ?n" using 3 net_read_write(3) [of "of_nat ?n"] by (simp add: client_frame_def client_len_def)
    finally show ?thesis using 3 l k assms(2,5) by (simp add: frame_length_def ws_consts length_client_len unat_of_nat take_bit_nat_eq_self)
  qed
qed

lemma unmask_from:
  "length pre = moff \<Longrightarrow> length key = 4 \<Longrightarrow> i \<le> length xs \<Longrightarrow>
    unmask moff i (length xs) (pre @ key @ map (\<lambda>j. xs ! j XOR key ! (j mod 4)) [0..<i] @ drop i xs) =
      Inr (pre @ key @ xor_mask key xs)"
proof (induction "length xs - i" arbitrary: i)
  case 0
  then show ?case by (simp add: unmask.simps [of _ i] xor_mask_def)
next
  case (Suc k)
  let ?m = "\<lambda>i. map (\<lambda>j. xs ! j XOR key ! (j mod 4)) [0..<i]"
  let ?buf = "\<lambda>i. pre @ key @ ?m i @ drop i xs"
  have i: "i < length xs" using Suc by simp
  have v: "?buf i ! (moff + 4 + i) = xs ! i" "?buf i ! (moff + i mod 4) = key ! (i mod 4)"
    using Suc.prems i by (simp_all add: nth_append)
  have "(?buf i)[moff + 4 + i := xs ! i XOR key ! (i mod 4)] = ?buf (Suc i)"
    using Suc.prems i by (simp add: list_update_append Cons_nth_drop_Suc [symmetric])
  then have "unmask moff i (length xs) (?buf i) = unmask moff (Suc i) (length xs) (?buf (Suc i))"
    using Suc.prems i v by (subst unmask.simps) simp
  also have "\<dots> = Inr (pre @ key @ xor_mask key xs)" by (rule Suc.hyps(1)) (use Suc in auto)
  finally show ?case .
qed

lemma xor_mask_twice [simp]: "xor_mask key (xor_mask key d) = d"
  by (rule nth_equalityI) (simp_all add: xor_mask_def xor.assoc)

lemma unmask_client:
  assumes "length key = 4"
  shows "unmask (1 + length (client_len (length d))) 0 (length d) (client_frame b0 key d) = Inr (b0 # client_len (length d) @ key @ d)"
  using unmask_from [of "b0 # client_len (length d)" "1 + length (client_len (length d))" key 0 "xor_mask key d"] assms
  by (simp add: client_frame_def)

section \<open>Reception in steps\<close>

definition ws_wait :: "conn \<Rightarrow> bool" where
  "ws_wait c \<longleftrightarrow> (\<exists>nb. rnb c = Some nb \<and> recv_ok nb \<and> m_len nb = length (nb_buf nb) \<and> \<not> nb_call_always nb \<and>
     nb_cb nb = Some Websocket_recv_opcode \<and> s_off nb = 0 \<and> b_len nb = 2) \<and> read_possible c"

text \<open>Byte \<open>j\<close> of the frame \<open>F\<close> is the next one, and the callback runs at byte \<open>m\<close>.\<close>

definition frame_buf :: "byte list \<Rightarrow> nat \<Rightarrow> nat \<Rightarrow> net_cb netbuf \<Rightarrow> bool" where
  "frame_buf F m j nb \<longleftrightarrow> nb_type nb = NETBUF_RECV \<and> nb_cb nb = Some Websocket_recv_frame \<and> \<not> nb_call_always nb \<and>
     b_len nb = m \<and> length (nb_buf nb) = m \<and> m_len nb = m \<and> s_off nb = j \<and> j \<le> m \<and> take j (nb_buf nb) = take j F"

lemma net_recv_expand_frame:
  assumes "rnb c = Some nb" "nb_type nb = NETBUF_RECV" "\<not> nb_call_always nb" "s_off nb = b_len nb" "b_len nb \<le> length (nb_buf nb)"
    "take (b_len nb) (nb_buf nb) = take (b_len nb) F" "0 < n" "b_len nb + n < 2 ^ 64"
  shows "\<exists>nb'. net_recv_expand junk c n Websocket_recv_frame = Inr (c\<lparr>rnb := Some nb'\<rparr>) \<and> frame_buf F (b_len nb + n) (b_len nb) nb'"
proof -
  let ?m = "b_len nb + n"
  have w: "wadd64 (b_len nb) n = ?m" using assms(8) by simp
  let ?b = "memcpy_at (fresh junk ?m) 0 (take (min ?m (length (nb_buf nb))) (nb_buf nb))"
  have r: "realloc_block junk (Some (nb_buf nb)) ?m = Inr ?b" using assms(7) by (simp add: realloc_block_def malloc_block_def)
  have "take (b_len nb) ?b = take (b_len nb) (nb_buf nb)" using assms(5) by (simp add: memcpy_at_def min_def)
  moreover have "length ?b = ?m" using assms(5) by (simp add: memcpy_at_def min_def)
  ultimately show ?thesis using assms w r
    by (intro exI [of _ "nb\<lparr>nb_cb := Some Websocket_recv_frame, b_len := ?m, m_len := ?m, nb_buf := ?b\<rparr>"])
      (simp add: net_recv_expand_def Let_def frame_buf_def)
qed

text \<open>The first bytes that are taken for data: no reserved bits but the last, and a data opcode.\<close>

definition data_op :: "byte \<Rightarrow> bool" where
  "data_op b0 \<longleftrightarrow> b0 AND 0x60 = 0 \<and> (b0 AND 0x0f = WEBSOCKET_OP_TEXT \<or> b0 AND 0x0f = WEBSOCKET_OP_BINARY)"

definition ping_op :: "byte \<Rightarrow> bool" where
  "ping_op b0 \<longleftrightarrow> b0 AND 0x60 = 0 \<and> b0 AND 0x0f = WEBSOCKET_OP_PING \<and> b0 AND 0x80 \<noteq> 0"

lemma rsv_clear: "b0 AND 0x60 = 0 \<Longrightarrow> \<not> WEBSOCKET_RSV b0 1 \<and> \<not> WEBSOCKET_RSV b0 2"
proof -
  assume z: "b0 AND (0x60 :: byte) = 0"
  have "b0 AND 0x40 = (b0 AND 0x60) AND 0x40" "b0 AND 0x20 = (b0 AND 0x60) AND 0x20" by (simp_all add: and.assoc)
  with z show ?thesis by (simp add: WEBSOCKET_RSV_def)
qed

lemma recv_opcode_client:
  assumes "rnb c = Some nb" "nb_type nb = NETBUF_RECV" "\<not> nb_call_always nb" "s_off nb = 2" "b_len nb = 2" "2 \<le> length (nb_buf nb)"
    "take 2 (nb_buf nb) = take 2 (client_frame b0 key d)" "data_op b0 \<or> ping_op b0 \<and> length d \<le> 125"
  shows "\<exists>nb'. websocket_recv_opcode env w c = Inr (KORE_RESULT_OK, w, c\<lparr>rnb := Some nb'\<rparr>) \<and>
    frame_buf (client_frame b0 key d) (first_total (length d)) 2 nb'"
proof -
  let ?F = "client_frame b0 key d" and ?n = "length d"
  have b: "nb_buf nb ! 0 = b0" "nb_buf nb ! 1 = hd (client_len ?n)"
    using nth_take [of 0 2 "nb_buf nb"] nth_take [of 1 2 "nb_buf nb"] nth_take [of 0 2 ?F] nth_take [of 1 2 ?F] assms(7)
    by (simp_all add: client_frame_def client_len_def)
  note lb = client_len_byte [of ?n]
  define l where "l = hd (client_len ?n) AND 0x7f"
  define len2 where "len2 = (if l = 126 then l + 2 else if l = 127 then l + 8 else l) + (4 :: byte)"
  have len2: "2 + unat len2 = first_total ?n" "0 < unat len2"
  proof -
    have small: "unat ((of_nat ?n :: byte) + 4) = ?n + 4" if "?n \<le> 125"
      using that unat_of_nat [of "?n + 4", where 'a = 8] by (simp add: take_bit_nat_eq_self)
    have ne: "(of_nat ?n :: byte) \<noteq> 126" "(of_nat ?n :: byte) \<noteq> 127" if "?n \<le> 125"
      using that byte_le [of ?n 125] by auto
    show "2 + unat len2 = first_total ?n" "0 < unat len2"
      using lb small ne by (auto simp: len2_def l_def first_total_def split: if_splits)
  qed
  have "\<exists>nb'. net_recv_expand (e_junk (e_http env)) c (unat len2) Websocket_recv_frame = Inr (c\<lparr>rnb := Some nb'\<rparr>) \<and>
      frame_buf ?F (b_len nb + unat len2) (b_len nb) nb'"
    by (rule net_recv_expand_frame [OF assms(1-3)]) (use assms(4-7) len2 in \<open>auto simp: first_total_def split: if_splits\<close>)
  then obtain nb' where nb': "net_recv_expand (e_junk (e_http env)) c (unat len2) Websocket_recv_frame = Inr (c\<lparr>rnb := Some nb'\<rparr>)"
    "frame_buf ?F (first_total ?n) 2 nb'" using len2(1) assms(5) by auto
  have rsv: "\<not> WEBSOCKET_RSV b0 1" "\<not> WEBSOCKET_RSV b0 2" using rsv_clear [of b0] assms(8) by (auto simp: data_op_def ping_op_def)
  have m: "WEBSOCKET_HAS_MASK (hd (client_len ?n))" "WEBSOCKET_FRAME_LENGTH (hd (client_len ?n)) = l"
    using lb by (simp_all add: l_def WEBSOCKET_HAS_MASK_def WEBSOCKET_FRAME_LENGTH_def)
  have go: "(if l = WEBSOCKET_PAYLOAD_EXTEND_1 then l + 2 else if l = WEBSOCKET_PAYLOAD_EXTEND_2 then l + 8 else l) + of_nat WEBSOCKET_MASK_LEN = len2"
    by (simp add: len2_def ws_consts)
  have op: "b0 AND WEBSOCKET_OPCODE_MASK = WEBSOCKET_OP_TEXT \<or> b0 AND WEBSOCKET_OPCODE_MASK = WEBSOCKET_OP_BINARY \<or>
      b0 AND WEBSOCKET_OPCODE_MASK = WEBSOCKET_OP_PING \<and> \<not> l > WEBSOCKET_PAYLOAD_SINGLE \<and> WEBSOCKET_HAS_FINFLAG b0"
    using assms(8) lb by (auto simp: data_op_def ping_op_def l_def ws_consts not_less)
  have "\<not> length (nb_buf nb) < 2" using assms(6) by simp
  then have "websocket_recv_opcode env w c = Inr (KORE_RESULT_OK, w, c\<lparr>rnb := Some nb'\<rparr>)"
    unfolding websocket_recv_opcode_def assms(1) option.case Let_def b m(2) go nb'(1) rbind_simps
    using m(1) rsv op by auto
  with nb'(2) show ?thesis by blast
qed

lemma length_client_frame:
  "length key = 4 \<Longrightarrow> length (client_frame b0 key d) = length d + (length (client_len (length d)) - 1 + WEBSOCKET_FRAME_HDR + WEBSOCKET_MASK_LEN)"
  by (simp add: client_frame_def ws_consts length_client_len)

lemma recv_frame_partial:
  assumes "rnb c = Some nb" "frame_buf (client_frame b0 key d) (first_total (length d)) (first_total (length d)) nb"
    "first_total (length d) < length (client_frame b0 key d)" "length key = 4" "length d \<le> kore_websocket_maxframe env" "length d < 2 ^ 62"
  shows "\<exists>nb'. websocket_recv_frame env w c = Inr (KORE_RESULT_OK, w, c\<lparr>rnb := Some nb'\<rparr>) \<and>
    frame_buf (client_frame b0 key d) (length (client_frame b0 key d)) (first_total (length d)) nb'"
proof -
  let ?F = "client_frame b0 key d" and ?n = "length d" let ?m = "first_total ?n"
  have lF: "length ?F = ?n + (length (client_len ?n) - 1 + WEBSOCKET_FRAME_HDR + WEBSOCKET_MASK_LEN)" by (rule length_client_frame [OF assms(4)])
  have nb: "nb_type nb = NETBUF_RECV" "\<not> nb_call_always nb" "b_len nb = ?m" "length (nb_buf nb) = ?m" "s_off nb = ?m"
    "take ?m (nb_buf nb) = take ?m ?F" using assms(2) by (auto simp: frame_buf_def)
  have fl: "frame_length (nb_buf nb) = Inr (?n, 1 + length (client_len ?n), length (client_len ?n) - 1)"
    by (rule frame_length_client [OF assms(4) _ _ nb(6)])
      (use assms(3,6) nb(4) in \<open>auto simp: length_client_len first_total_def split: if_splits\<close>)
  have total: "wadd64 ?n (length (client_len ?n) - 1 + WEBSOCKET_FRAME_HDR + WEBSOCKET_MASK_LEN) = length ?F"
    using lF assms(6) by (simp add: ws_consts length_client_len)
  have "\<exists>nb'. net_recv_expand (e_junk (e_http env)) c (length ?F - ?m) Websocket_recv_frame = Inr (c\<lparr>rnb := Some nb'\<rparr>) \<and>
      frame_buf ?F (b_len nb + (length ?F - ?m)) (b_len nb) nb'"
    by (rule net_recv_expand_frame [OF assms(1) nb(1,2)]) (use nb assms(3,6) lF in \<open>auto simp: ws_consts length_client_len\<close>)
  then obtain nb' where "net_recv_expand (e_junk (e_http env)) c (length ?F - ?m) Websocket_recv_frame = Inr (c\<lparr>rnb := Some nb'\<rparr>)"
    "frame_buf ?F (length ?F) ?m nb'" using nb(3) assms(3) by auto
  then show ?thesis using assms(1,3,5) nb(3) fl total by (auto simp: websocket_recv_frame_def Let_def)
qed

text \<open>A complete frame: the mask is off and the payload is at hand. The connection waits for the next frame header once
  \<open>net_recv_reset\<close> has run.\<close>

lemma recv_frame_complete:
  assumes "rnb c = Some nb" "frame_buf (client_frame b0 key d) (length (client_frame b0 key d)) (length (client_frame b0 key d)) nb"
    "length key = 4" "length d \<le> kore_websocket_maxframe env" "length d < 2 ^ 62"
  shows "frame_length (nb_buf nb) = Inr (length d, 1 + length (client_len (length d)), length (client_len (length d)) - 1)"
    "wadd64 (length d) (length (client_len (length d)) - 1 + WEBSOCKET_FRAME_HDR + WEBSOCKET_MASK_LEN) = b_len nb"
    "unmask (1 + length (client_len (length d))) 0 (length d) (nb_buf nb) = Inr (b0 # client_len (length d) @ key @ d)"
    "nb_buf nb ! 0 = b0"
    "take (length d) (drop (1 + length (client_len (length d)) + 4) (b0 # client_len (length d) @ key @ d)) = d"
proof -
  let ?F = "client_frame b0 key d" and ?n = "length d"
  have nb: "b_len nb = length ?F" "nb_buf nb = ?F" using assms(2) by (auto simp: frame_buf_def)
  have lF: "length ?F = ?n + (length (client_len ?n) - 1 + WEBSOCKET_FRAME_HDR + WEBSOCKET_MASK_LEN)" by (rule length_client_frame [OF assms(3)])
  show "frame_length (nb_buf nb) = Inr (?n, 1 + length (client_len ?n), length (client_len ?n) - 1)" unfolding nb(2)
    by (rule frame_length_client [where k = "length ?F", OF assms(3) _ _ refl]) (use assms(5) lF in \<open>auto simp: length_client_len ws_consts\<close>)
  show "wadd64 ?n (length (client_len ?n) - 1 + WEBSOCKET_FRAME_HDR + WEBSOCKET_MASK_LEN) = b_len nb"
    using lF assms(5) nb(1) by (simp add: ws_consts length_client_len)
  show "unmask (1 + length (client_len ?n)) 0 ?n (nb_buf nb) = Inr (b0 # client_len ?n @ key @ d)"
    unfolding nb(2) by (rule unmask_client [OF assms(3)])
  show "nb_buf nb ! 0 = b0" unfolding nb(2) by (simp add: client_frame_def)
  show "take ?n (drop (1 + length (client_len ?n) + 4) (b0 # client_len ?n @ key @ d)) = d" using assms(3) by (simp add: drop_Cons')
qed

lemma ws_reset:
  assumes "rnb c = Some nb" "nb_type nb = NETBUF_RECV" "\<not> nb_call_always nb" "m_len nb = length (nb_buf nb)" "read_possible c"
  shows "\<exists>nb'. net_recv_reset junk c WEBSOCKET_FRAME_HDR Websocket_recv_opcode = Inr (c\<lparr>rnb := Some nb'\<rparr>) \<and> ws_wait (c\<lparr>rnb := Some nb'\<rparr>)"
  using net_recv_reset_ok [OF assms(1,2), of 2 junk Websocket_recv_opcode] assms(3-5) by (auto simp: WEBSOCKET_FRAME_HDR_def ws_wait_def)

lemma recv_frame_data:
  assumes "rnb c = Some nb" "frame_buf (client_frame b0 key d) (length (client_frame b0 key d)) (length (client_frame b0 key d)) nb"
    "length key = 4" "length d \<le> kore_websocket_maxframe env" "length d < 2 ^ 62" "data_op b0" "read_possible c"
    "wscbs c = Some k" "ws_message (e_wscbs env k) = Some f" "\<And>op d w c. f op d w c = Inr (deliver op d w, c)"
  shows "\<exists>c'. websocket_recv_frame env w c = Inr (KORE_RESULT_OK, deliver (b0 AND 0x0f) d w, c') \<and> ws_wait c' \<and> (\<exists>b. c' = c\<lparr>rnb := b\<rparr>)"
proof -
  let ?n = "length d"
  note k = recv_frame_complete [OF assms(1-5)]
  let ?c = "c\<lparr>rnb := Some (nb\<lparr>nb_buf := b0 # client_len ?n @ key @ d\<rparr>)\<rparr>"
  have "length (nb_buf nb) = length (client_frame b0 key d)" "m_len nb = length (client_frame b0 key d)" "nb_type nb = NETBUF_RECV" "\<not> nb_call_always nb"
    using assms(2) by (auto simp: frame_buf_def)
  then have "\<exists>nb'. net_recv_reset (e_junk (e_http env)) ?c WEBSOCKET_FRAME_HDR Websocket_recv_opcode = Inr (?c\<lparr>rnb := Some nb'\<rparr>) \<and>
      ws_wait (?c\<lparr>rnb := Some nb'\<rparr>)"
    using assms(3,7) by (intro ws_reset [of _ "nb\<lparr>nb_buf := b0 # client_len ?n @ key @ d\<rparr>"]) (simp_all add: client_frame_def)
  then obtain nb' where r: "net_recv_reset (e_junk (e_http env)) ?c WEBSOCKET_FRAME_HDR Websocket_recv_opcode = Inr (c\<lparr>rnb := Some nb'\<rparr>)"
    "ws_wait (c\<lparr>rnb := Some nb'\<rparr>)" by auto
  have op: "b0 AND WEBSOCKET_OPCODE_MASK \<noteq> WEBSOCKET_OP_CONT" "b0 AND WEBSOCKET_OPCODE_MASK \<noteq> WEBSOCKET_OP_PONG"
    "b0 AND WEBSOCKET_OPCODE_MASK = WEBSOCKET_OP_TEXT \<or> b0 AND WEBSOCKET_OPCODE_MASK = WEBSOCKET_OP_BINARY"
    using assms(6) by (auto simp: data_op_def WEBSOCKET_OPCODE_MASK_def ws_ops)
  have "websocket_recv_frame env w c = Inr (KORE_RESULT_OK, deliver (b0 AND WEBSOCKET_OPCODE_MASK) d w, c\<lparr>rnb := Some nb'\<rparr>)"
    unfolding websocket_recv_frame_def assms(1) option.case Let_def k(1) rbind_simps prod.case k(2-5)
    using op assms(4,8,9,10) r(1) by (simp add: k(5) [simplified])
  then show ?thesis using r(2) by (auto simp: WEBSOCKET_OPCODE_MASK_def)
qed

lemma recv_frame_ping:
  assumes "rnb c = Some nb" "frame_buf (client_frame b0 key d) (length (client_frame b0 key d)) (length (client_frame b0 key d)) nb"
    "length key = 4" "length d \<le> kore_websocket_maxframe env" "length d < 2 ^ 31" "ping_op b0" "read_possible c" "send_ok c"
  shows "\<exists>c'. websocket_recv_frame env w c = Inr (KORE_RESULT_OK, w, c') \<and> ws_wait c' \<and> send_ok c' \<and>
    conn_output c' = conn_output c @ server_frame WEBSOCKET_OP_PONG d"
proof -
  let ?n = "length d"
  have n62: "?n < 2 ^ 62" using assms(5) by simp
  note k = recv_frame_complete [OF assms(1-4) n62]
  let ?c = "c\<lparr>rnb := Some (nb\<lparr>nb_buf := b0 # client_len ?n @ key @ d\<rparr>)\<rparr>"
  from kore_websocket_send_ok [of ?c d "e_junk (e_http env)" WEBSOCKET_OP_PONG] assms(5,8) obtain q where
    q: "kore_websocket_send (e_junk (e_http env)) ?c WEBSOCKET_OP_PONG d = Inr (?c\<lparr>send_queue := q\<rparr>)" "send_ok (?c\<lparr>send_queue := q\<rparr>)"
      "conn_output (?c\<lparr>send_queue := q\<rparr>) = conn_output c @ server_frame WEBSOCKET_OP_PONG d" by auto
  let ?c2 = "?c\<lparr>send_queue := q\<rparr>"
  have "length (nb_buf nb) = length (client_frame b0 key d)" "m_len nb = length (client_frame b0 key d)" "nb_type nb = NETBUF_RECV" "\<not> nb_call_always nb"
    using assms(2) by (auto simp: frame_buf_def)
  then have "\<exists>nb'. net_recv_reset (e_junk (e_http env)) ?c2 WEBSOCKET_FRAME_HDR Websocket_recv_opcode = Inr (?c2\<lparr>rnb := Some nb'\<rparr>) \<and>
      ws_wait (?c2\<lparr>rnb := Some nb'\<rparr>)"
    using assms(3,7) by (intro ws_reset [of _ "nb\<lparr>nb_buf := b0 # client_len ?n @ key @ d\<rparr>"]) (simp_all add: client_frame_def)
  then obtain nb' where r: "net_recv_reset (e_junk (e_http env)) ?c2 WEBSOCKET_FRAME_HDR Websocket_recv_opcode = Inr (?c2\<lparr>rnb := Some nb'\<rparr>)"
    "ws_wait (?c2\<lparr>rnb := Some nb'\<rparr>)" by auto
  have op: "b0 AND WEBSOCKET_OPCODE_MASK = WEBSOCKET_OP_PING" using assms(6) by (simp add: ping_op_def WEBSOCKET_OPCODE_MASK_def)
  have "websocket_recv_frame env w c = Inr (KORE_RESULT_OK, w, ?c2\<lparr>rnb := Some nb'\<rparr>)"
    unfolding websocket_recv_frame_def assms(1) option.case Let_def k(1) rbind_simps prod.case k(2-5) op
    using assms(4) q(1) r(1) by (simp add: k(5) [simplified] ws_ops)
  then show ?thesis using r(2) q(2,3) by (metis conn_output_frame(1,3))
qed

section \<open>Frames in pieces\<close>

definition ws_callback ::
    "'u kore_env \<Rightarrow> (net_cb \<Rightarrow> 'u worker \<Rightarrow> conn \<Rightarrow> (int \<times> 'u worker \<times> conn) res) \<Rightarrow>
      net_cb \<Rightarrow> 'u worker \<Rightarrow> conn \<Rightarrow> (int \<times> 'u worker \<times> conn) res" where
  "ws_callback env other k w c =
     (case k of
        Websocket_recv_opcode \<Rightarrow> websocket_recv_opcode env w c
      | Websocket_recv_frame \<Rightarrow> websocket_recv_frame env w c
      | _ \<Rightarrow> other k w c)"

text \<open>The pieces the kernel can deliver: each has at least one byte, and no more than were asked for.\<close>

fun fits :: "('w, 'k, 'a) callbacks \<Rightarrow> 'w \<Rightarrow> ('k, 'a) connection_scheme \<Rightarrow> byte list list \<Rightarrow> bool" where
  "fits call w c [] = True"
| "fits call w c (p # ps) \<longleftrightarrow>
     p \<noteq> [] \<and> (case rnb c of None \<Rightarrow> False | Some nb \<Rightarrow> length p \<le> b_len nb - s_off nb) \<and>
     (case net_recv_turn call w c (Rd p) of Inr (None, w1, c1) \<Rightarrow> fits call w1 c1 ps | _ \<Rightarrow> True)"

lemma recv_phase:
  assumes "rnb c = Some nb" "recv_ok nb" "read_possible c" "\<not> nb_call_always nb" "nb_cb nb = Some k" "s_off nb < b_len nb"
    "fits call w c ps" "b_len nb - s_off nb \<le> length (concat ps)"
  shows "\<exists>ps1 ps2 c1. ps = ps1 @ ps2 \<and> length (concat ps1) = b_len nb - s_off nb \<and>
    c1 = c\<lparr>rnb := Some (nb\<lparr>nb_buf := memcpy_at (nb_buf nb) (s_off nb) (concat ps1), s_off := b_len nb\<rparr>)\<rparr> \<and>
    recv_loop call w c (map Rd ps @ rs) = rbind (call k w c1) (after_call call (map Rd ps2 @ rs)) \<and>
    (\<forall>w' c'. call k w c1 = Inr (KORE_RESULT_OK, w', c') \<longrightarrow> fits call w' c' ps2)"
  using assms
proof (induction ps arbitrary: c nb)
  case (Cons p ps)
  have p: "p \<noteq> []" "length p \<le> b_len nb - s_off nb" using Cons.prems(1,7) by auto
  let ?nb = "nb\<lparr>nb_buf := memcpy_at (nb_buf nb) (s_off nb) p, s_off := s_off nb + length p\<rparr>" let ?c = "c\<lparr>rnb := Some ?nb\<rparr>"
  have le: "s_off nb + length p \<le> b_len nb" "b_len nb \<le> length (nb_buf nb)" using p(2) Cons.prems(2,6) by (auto simp: recv_ok_def)
  note t = net_recv_turn_data [OF Cons.prems(1,2,3) le(1), of call w]
  show ?case
  proof (cases "s_off nb + length p = b_len nb")
    case True
    have step: "recv_loop call w c (map Rd (p # ps) @ rs) = rbind (call k w ?c) (after_call call (map Rd ps @ rs))"
      using t True Cons.prems(3,5)
      by (simp add: recv_loop.simps [of call w c] after_call_def Let_def rbind_def split: sum.splits)
    have "fits call w' c' ps" if "call k w ?c = Inr (KORE_RESULT_OK, w', c')" for w' c'
      using Cons.prems(5,7) t True that by (simp add: Let_def)
    with step True show ?thesis
      by (intro exI [of _ "[p]"] exI [of _ ps] exI [of _ ?c]) auto
  next
    case False
    have turn: "net_recv_turn call w c (Rd p) = Inr (None, w, ?c)" using t False Cons.prems(4) by (simp add: Let_def)
    have "fits call w ?c ps" using Cons.prems(7) turn by simp
    moreover have "recv_ok ?nb" using Cons.prems(2) le by (auto simp: recv_ok_def)
    moreover have "b_len nb - (s_off nb + length p) \<le> length (concat ps)" using Cons.prems(8) by simp
    ultimately obtain ps1 ps2 c1 where ih: "ps = ps1 @ ps2" "length (concat ps1) = b_len nb - (s_off nb + length p)"
      "c1 = ?c\<lparr>rnb := Some (?nb\<lparr>nb_buf := memcpy_at (nb_buf ?nb) (s_off ?nb) (concat ps1), s_off := b_len nb\<rparr>)\<rparr>"
      "recv_loop call w ?c (map Rd ps @ rs) = rbind (call k w c1) (after_call call (map Rd ps2 @ rs))"
      "\<forall>w' c'. call k w c1 = Inr (KORE_RESULT_OK, w', c') \<longrightarrow> fits call w' c' ps2"
      using Cons.IH [of ?c ?nb] Cons.prems(3-5) le False by auto
    have "memcpy_at (nb_buf ?nb) (s_off ?nb) (concat ps1) = memcpy_at (nb_buf nb) (s_off nb) (concat (p # ps1))"
      using memcpy_at_twice [of "s_off nb" p "concat ps1" "nb_buf nb"] ih(2) le by simp
    then have c1: "c1 = c\<lparr>rnb := Some (nb\<lparr>nb_buf := memcpy_at (nb_buf nb) (s_off nb) (concat (p # ps1)), s_off := b_len nb\<rparr>)\<rparr>"
      using ih(3) by simp
    have "recv_loop call w c (map Rd (p # ps) @ rs) = recv_loop call w ?c (map Rd ps @ rs)"
      using turn Cons.prems(3) by (simp add: recv_loop.simps [of call w c])
    with ih c1 le show ?thesis by (intro exI [of _ "p # ps1"] exI [of _ ps2] exI [of _ c1]) auto
  qed
qed simp

lemma concat_split:
  assumes "concat (ps1 @ ps2) = xs @ ys" "length (concat ps1) = n" "n \<le> length xs"
  shows "concat ps1 = take n xs" "concat ps2 = drop n xs @ ys"
  using assms by (auto simp: append_eq_append_conv_if split: if_splits)

lemma frame_phase:
  assumes "rnb c = Some nb" "frame_buf F m j nb" "read_possible c" "j < m" "m \<le> length F" "fits call w c ps" "concat ps = drop j F @ rest"
  shows "\<exists>ps2 nb1. concat ps2 = drop m F @ rest \<and> frame_buf F m m nb1 \<and>
    recv_loop call w c (map Rd ps @ rs) = rbind (call Websocket_recv_frame w (c\<lparr>rnb := Some nb1\<rparr>)) (after_call call (map Rd ps2 @ rs)) \<and>
    (\<forall>w' c'. call Websocket_recv_frame w (c\<lparr>rnb := Some nb1\<rparr>) = Inr (KORE_RESULT_OK, w', c') \<longrightarrow> fits call w' c' ps2)"
proof -
  have nb: "recv_ok nb" "\<not> nb_call_always nb" "nb_cb nb = Some Websocket_recv_frame" "s_off nb = j" "b_len nb = m" "length (nb_buf nb) = m"
    "take j (nb_buf nb) = take j F" using assms(2) by (auto simp: frame_buf_def recv_ok_def)
  have len: "b_len nb - s_off nb \<le> length (concat ps)" using assms(4,5,7) nb(4,5) by simp
  have lt: "s_off nb < b_len nb" using assms(4) nb(4,5) by simp
  obtain ps1 ps2 c1 where p0: "ps = ps1 @ ps2 \<and> length (concat ps1) = b_len nb - s_off nb \<and>
    c1 = c\<lparr>rnb := Some (nb\<lparr>nb_buf := memcpy_at (nb_buf nb) (s_off nb) (concat ps1), s_off := b_len nb\<rparr>)\<rparr> \<and>
    recv_loop call w c (map Rd ps @ rs) = rbind (call Websocket_recv_frame w c1) (after_call call (map Rd ps2 @ rs)) \<and>
    (\<forall>w' c'. call Websocket_recv_frame w c1 = Inr (KORE_RESULT_OK, w', c') \<longrightarrow> fits call w' c' ps2)"
    using recv_phase [OF assms(1) nb(1) assms(3) nb(2,3) lt assms(6) len, of rs] by (elim exE)
  note p1 = p0 [THEN conjunct1] p0 [THEN conjunct2, THEN conjunct1] p0 [THEN conjunct2, THEN conjunct2, THEN conjunct1]
    p0 [THEN conjunct2, THEN conjunct2, THEN conjunct2, THEN conjunct1] p0 [THEN conjunct2, THEN conjunct2, THEN conjunct2, THEN conjunct2]
  note p = p1(1) p1(2) [unfolded nb(4,5)] p1(4,5) [unfolded p1(3) nb(4,5)]
  have cc: "concat (ps1 @ ps2) = drop j F @ rest" unfolding p(1) [symmetric] by (rule assms(7))
  have mj: "m - j \<le> length (drop j F)" using assms(5) by simp
  note c1 = concat_split [OF cc p(2) mj]
  have "take m (memcpy_at (nb_buf nb) j (concat ps1)) = take m F"
  proof -
    have "j + length (concat ps1) = m" using p(2) assms(4) by simp
    then have "take m (memcpy_at (nb_buf nb) j (concat ps1)) = take j (nb_buf nb) @ concat ps1"
      using take_memcpy_at [of j "nb_buf nb" "concat ps1"] nb(6) assms(4) by simp
    also have "\<dots> = take m F" using nb(7) c1(1) assms(4) by (simp add: take_add [symmetric] less_imp_le)
    finally show ?thesis .
  qed
  moreover have "length (memcpy_at (nb_buf nb) j (concat ps1)) = m" using p(2) nb(6) assms(4) by simp
  ultimately have "frame_buf F m m (nb\<lparr>nb_buf := memcpy_at (nb_buf nb) j (concat ps1), s_off := m\<rparr>)"
    using assms(2) by (simp add: frame_buf_def)
  moreover have "concat ps2 = drop m F @ rest" using c1(2) assms(4) by (simp add: less_imp_le)
  ultimately show ?thesis using p(3,4) by blast
qed

text \<open>From the first byte of a frame to the call that finds it complete.\<close>

lemma frame_pieces:
  fixes env :: "'u kore_env" and other :: "net_cb \<Rightarrow> 'u worker \<Rightarrow> conn \<Rightarrow> (int \<times> 'u worker \<times> conn) res"
  defines "call \<equiv> ws_callback env other"
  assumes "ws_wait c" "length key = 4" "length d \<le> kore_websocket_maxframe env" "length d < 2 ^ 62"
    "data_op b0 \<or> ping_op b0 \<and> length d \<le> 125" "fits call w c ps" "concat ps = client_frame b0 key d @ rest"
  shows "\<exists>ps2 nb1. concat ps2 = rest \<and> frame_buf (client_frame b0 key d) (length (client_frame b0 key d)) (length (client_frame b0 key d)) nb1 \<and>
    recv_loop call w c (map Rd ps @ rs) = rbind (websocket_recv_frame env w (c\<lparr>rnb := Some nb1\<rparr>)) (after_call call (map Rd ps2 @ rs)) \<and>
    (\<forall>w' c'. websocket_recv_frame env w (c\<lparr>rnb := Some nb1\<rparr>) = Inr (KORE_RESULT_OK, w', c') \<longrightarrow> fits call w' c' ps2)"
proof -
  let ?F = "client_frame b0 key d" let ?m = "first_total (length d)"
  have cb: "call Websocket_recv_opcode = websocket_recv_opcode env" "call Websocket_recv_frame = websocket_recv_frame env"
    by (intro ext; simp add: call_def ws_callback_def)+
  have rp: "read_possible c" using assms(2) by (simp add: ws_wait_def)
  from assms(2) obtain nb where nb: "rnb c = Some nb" "recv_ok nb" "\<not> nb_call_always nb" "nb_cb nb = Some Websocket_recv_opcode"
    "s_off nb = 0" "b_len nb = 2" by (auto simp: ws_wait_def)
  have lF: "?m \<le> length ?F" "2 < ?m" "2 \<le> length ?F" using first_total_le [OF assms(3), of d b0] by (auto simp: first_total_def split: if_splits)
  have l2: "b_len nb - s_off nb \<le> length (concat ps)" using assms(8) lF(3) nb(5,6) by simp
  have lt: "s_off nb < b_len nb" using nb(5,6) by simp
  obtain ps1 ps2 c1 where p0: "ps = ps1 @ ps2 \<and> length (concat ps1) = b_len nb - s_off nb \<and>
    c1 = c\<lparr>rnb := Some (nb\<lparr>nb_buf := memcpy_at (nb_buf nb) (s_off nb) (concat ps1), s_off := b_len nb\<rparr>)\<rparr> \<and>
    recv_loop call w c (map Rd ps @ rs) = rbind (call Websocket_recv_opcode w c1) (after_call call (map Rd ps2 @ rs)) \<and>
    (\<forall>w' c'. call Websocket_recv_opcode w c1 = Inr (KORE_RESULT_OK, w', c') \<longrightarrow> fits call w' c' ps2)"
    using recv_phase [OF nb(1,2) rp nb(3,4) lt assms(7) l2, of rs] by (elim exE)
  note p = p0 [THEN conjunct1] p0 [THEN conjunct2, THEN conjunct1] p0 [THEN conjunct2, THEN conjunct2, THEN conjunct1]
    p0 [THEN conjunct2, THEN conjunct2, THEN conjunct2, THEN conjunct1] p0 [THEN conjunct2, THEN conjunct2, THEN conjunct2, THEN conjunct2]
  have cc: "concat (ps1 @ ps2) = ?F @ rest" unfolding p(1) [symmetric] by (rule assms(8))
  have l1: "length (concat ps1) = 2" using p(2) nb(5,6) by simp
  note sp = concat_split [OF cc l1 lF(3)]
  let ?nb1 = "nb\<lparr>nb_buf := memcpy_at (nb_buf nb) 0 (concat ps1), s_off := 2\<rparr>"
  have c1: "c1 = c\<lparr>rnb := Some ?nb1\<rparr>" using p(3) nb(5,6) by simp
  have "2 \<le> length (nb_buf nb)" using nb(2,6) by (simp add: recv_ok_def)
  then have "take 2 (nb_buf ?nb1) = take 2 ?F" "2 \<le> length (nb_buf ?nb1)"
    using take_memcpy_at [of 0 "nb_buf nb" "concat ps1"] l1 sp(1) by simp_all
  from recv_opcode_client [of c1 ?nb1 b0 key d env w] this c1 nb(2,3,6) assms(6) obtain nb2 where
    o: "websocket_recv_opcode env w c1 = Inr (KORE_RESULT_OK, w, c1\<lparr>rnb := Some nb2\<rparr>)" "frame_buf ?F ?m 2 nb2" by (auto simp: recv_ok_def)
  let ?c2 = "c\<lparr>rnb := Some nb2\<rparr>"
  have r1: "recv_loop call w c (map Rd ps @ rs) = recv_loop call w ?c2 (map Rd ps2 @ rs)" "fits call w ?c2 ps2"
    using p(4,5) o(1) c1 cb by (simp_all add: after_call_def)
  obtain ps3 nb3 where f: "concat ps3 = drop ?m ?F @ rest" "frame_buf ?F ?m ?m nb3"
    "recv_loop call w ?c2 (map Rd ps2 @ rs) = rbind (websocket_recv_frame env w (c\<lparr>rnb := Some nb3\<rparr>)) (after_call call (map Rd ps3 @ rs))"
    "\<forall>w' c'. websocket_recv_frame env w (c\<lparr>rnb := Some nb3\<rparr>) = Inr (KORE_RESULT_OK, w', c') \<longrightarrow> fits call w' c' ps3"
    using frame_phase [OF _ o(2) _ lF(2,1) r1(2) sp(2), of rs] rp cb(2) by auto
  show ?thesis
  proof (cases "?m = length ?F")
    case True
    with f r1(1) show ?thesis by (intro exI [of _ ps3] exI [of _ nb3]) simp
  next
    case False
    with lF(1) have lt: "?m < length ?F" by simp
    from recv_frame_partial [of "c\<lparr>rnb := Some nb3\<rparr>" nb3, OF _ f(2) lt assms(3-5), of w] obtain nb4 where
      q: "websocket_recv_frame env w (c\<lparr>rnb := Some nb3\<rparr>) = Inr (KORE_RESULT_OK, w, c\<lparr>rnb := Some nb4\<rparr>)" "frame_buf ?F (length ?F) ?m nb4" by auto
    have r2: "recv_loop call w ?c2 (map Rd ps2 @ rs) = recv_loop call w (c\<lparr>rnb := Some nb4\<rparr>) (map Rd ps3 @ rs)"
      "fits call w (c\<lparr>rnb := Some nb4\<rparr>) ps3" using f(3,4) q(1) by (simp_all add: after_call_def)
    obtain ps5 nb5 where g: "concat ps5 = drop (length ?F) ?F @ rest" "frame_buf ?F (length ?F) (length ?F) nb5"
      "recv_loop call w (c\<lparr>rnb := Some nb4\<rparr>) (map Rd ps3 @ rs) =
         rbind (websocket_recv_frame env w (c\<lparr>rnb := Some nb5\<rparr>)) (after_call call (map Rd ps5 @ rs))"
      "\<forall>w' c'. websocket_recv_frame env w (c\<lparr>rnb := Some nb5\<rparr>) = Inr (KORE_RESULT_OK, w', c') \<longrightarrow> fits call w' c' ps5"
      using frame_phase [OF _ q(2) _ lt order_refl r2(2) f(1), of rs] rp cb(2) by auto
    then show ?thesis using r1(1) r2(1) by (intro exI [of _ ps5] exI [of _ nb5]) simp
  qed
qed

text \<open>A message: first byte of its frame, mask and data.\<close>

type_synonym ws_msg = "byte \<times> byte list \<times> byte list"

definition msg_frame :: "ws_msg \<Rightarrow> byte list" where
  "msg_frame = (\<lambda>(b0, key, d). client_frame b0 key d)"

definition msg_ok :: "'u kore_env \<Rightarrow> ws_msg \<Rightarrow> bool" where
  "msg_ok env = (\<lambda>(b0, key, d). data_op b0 \<and> length key = 4 \<and> length d \<le> kore_websocket_maxframe env \<and> length d < 2 ^ 62)"

lemma messages_pieces:
  fixes env :: "'u kore_env" and other :: "net_cb \<Rightarrow> 'u worker \<Rightarrow> conn \<Rightarrow> (int \<times> 'u worker \<times> conn) res"
  defines "call \<equiv> ws_callback env other"
  assumes "wscbs c = Some k" "ws_message (e_wscbs env k) = Some f" "\<And>op d w c. f op d w c = Inr (deliver op d w, c)"
  shows "ws_wait c \<Longrightarrow> \<forall>m \<in> set msgs. msg_ok env m \<Longrightarrow> concat ps = concat (map msg_frame msgs) @ rest \<Longrightarrow> fits call w c ps \<Longrightarrow>
    \<exists>ps2 c'. concat ps2 = rest \<and> ws_wait c' \<and> (\<exists>b. c' = c\<lparr>rnb := b\<rparr>) \<and> fits call (fold (\<lambda>(b0, key, d). deliver (b0 AND 0x0f) d) msgs w) c' ps2 \<and>
      recv_loop call w c (map Rd ps @ rs) = recv_loop call (fold (\<lambda>(b0, key, d). deliver (b0 AND 0x0f) d) msgs w) c' (map Rd ps2 @ rs)"
  using assms(2)
proof (induction msgs arbitrary: c w ps)
  case Nil
  then show ?case by (intro exI [of _ ps] exI [of _ c]) (auto intro: exI [of _ "rnb c"])
next
  case (Cons m msgs)
  obtain b0 key d where m: "m = (b0, key, d)" by (cases m)
  have ok: "data_op b0" "length key = 4" "length d \<le> kore_websocket_maxframe env" "length d < 2 ^ 62"
    using Cons.prems(2) m by (auto simp: msg_ok_def)
  have cc: "concat ps = client_frame b0 key d @ concat (map msg_frame msgs) @ rest" using Cons.prems(3) m by (simp add: msg_frame_def)
  have rp: "read_possible c" using Cons.prems(1) by (simp add: ws_wait_def)
  obtain ps2 nb1 where p: "concat ps2 = concat (map msg_frame msgs) @ rest"
    "frame_buf (client_frame b0 key d) (length (client_frame b0 key d)) (length (client_frame b0 key d)) nb1"
    "recv_loop call w c (map Rd ps @ rs) = rbind (websocket_recv_frame env w (c\<lparr>rnb := Some nb1\<rparr>)) (after_call call (map Rd ps2 @ rs))"
    "\<forall>w' c'. websocket_recv_frame env w (c\<lparr>rnb := Some nb1\<rparr>) = Inr (KORE_RESULT_OK, w', c') \<longrightarrow> fits call w' c' ps2"
    using frame_pieces [OF Cons.prems(1) ok(2-4) disjI1 [OF ok(1)] Cons.prems(4) [unfolded call_def] cc, of rs] unfolding call_def by blast
  from recv_frame_data [of "c\<lparr>rnb := Some nb1\<rparr>" nb1, OF _ p(2) ok(2-4,1), of k f deliver w] rp Cons.prems(5) assms(3,4) obtain c1 b where
    r: "websocket_recv_frame env w (c\<lparr>rnb := Some nb1\<rparr>) = Inr (KORE_RESULT_OK, deliver (b0 AND 0x0f) d w, c1)" "ws_wait c1" "c1 = c\<lparr>rnb := b\<rparr>"
    by auto
  let ?w = "deliver (b0 AND 0x0f) d w"
  have s: "recv_loop call w c (map Rd ps @ rs) = recv_loop call ?w c1 (map Rd ps2 @ rs)" "fits call ?w c1 ps2"
    using p(3,4) r(1) by (simp_all add: after_call_def)
  have "wscbs c1 = Some k" using r(3) Cons.prems(5) by simp
  from Cons.IH [OF r(2) _ p(1) s(2) this] Cons.prems(2) obtain ps3 c' b' where
    ih: "concat ps3 = rest" "ws_wait c'" "c' = c1\<lparr>rnb := b'\<rparr>" "fits call (fold (\<lambda>(b0, key, d). deliver (b0 AND 0x0f) d) msgs ?w) c' ps3"
      "recv_loop call ?w c1 (map Rd ps2 @ rs) = recv_loop call (fold (\<lambda>(b0, key, d). deliver (b0 AND 0x0f) d) msgs ?w) c' (map Rd ps3 @ rs)" by auto
  then show ?case using s(1) m r(3) by (intro exI [of _ ps3] exI [of _ c']) auto
qed

section \<open>The handshake completed\<close>

text \<open>The request as the successful handshake answers it.\<close>

definition upgraded :: "'u kore_env \<Rightarrow> byte list \<Rightarrow> http_request \<Rightarrow> http_request" where
  "upgraded env key req = req\<lparr>resp_headers := resp_headers req @
     [\<lparr>hdr_header = bs ''upgrade'', hdr_value = bs ''websocket''\<rparr>, \<lparr>hdr_header = bs ''connection'', hdr_value = bs ''upgrade''\<rparr>,
      \<lparr>hdr_header = bs ''sec-websocket-accept'', hdr_value = base64 (e_sha1 env (key @ WEBSOCKET_SERVER_RESPONSE))\<rparr>]\<rparr>"

lemma accept_key_ok:
  assumes "length key < 8000" "length (e_sha1 env (key @ WEBSOCKET_SERVER_RESPONSE)) = 20" "0 \<in> set (e_after env)"
  shows "\<exists>b b1. kore_buf_alloc junk 128 = Inr b \<and>
    kore_buf_appendv junk b (Some (key @ WEBSOCKET_SERVER_RESPONSE)) out2 = Inr b1 \<and> buf_contents b1 = key @ WEBSOCKET_SERVER_RESPONSE \<and>
    kore_base64_encode junk (e_after env) (e_sha1 env (buf_contents b1)) =
      Inr (KORE_RESULT_OK, base64 (e_sha1 env (key @ WEBSOCKET_SERVER_RESPONSE)) @ [0])"
proof -
  have g: "length WEBSOCKET_SERVER_RESPONSE = 36" by (simp add: WEBSOCKET_SERVER_RESPONSE_def bs_def)
  from buf_holds_alloc [of 128 "length (key @ WEBSOCKET_SERVER_RESPONSE) + 0" junk] assms(1) g obtain b where
    b: "kore_buf_alloc junk 128 = Inr b" "buf_holds b [] (length (key @ WEBSOCKET_SERVER_RESPONSE) + 0)" by auto
  from buf_holds_append [OF b(2), of junk] obtain b1 where
    b1: "kore_buf_append junk b (key @ WEBSOCKET_SERVER_RESPONSE) = Inr b1" "buf_contents b1 = key @ WEBSOCKET_SERVER_RESPONSE"
    by (auto simp: buf_holds_def)
  have "kore_buf_appendv junk b (Some (key @ WEBSOCKET_SERVER_RESPONSE)) out2 = Inr b1"
    using b1(1) assms(1) g by (simp add: kore_buf_appendv_def BUFSIZ_def)
  moreover have "kore_base64_encode junk (e_after env) (e_sha1 env (buf_contents b1)) =
      Inr (KORE_RESULT_OK, base64 (e_sha1 env (key @ WEBSOCKET_SERVER_RESPONSE)) @ [0])"
  proof -
    have "e_sha1 env (key @ WEBSOCKET_SERVER_RESPONSE) \<noteq> []" using assms(2) by (metis length_0_conv zero_neq_numeral)
    then show ?thesis using kore_base64_encode_eq [of "e_sha1 env (buf_contents b1)" "e_after env" junk] assms(2,3) b1(2) by simp
  qed
  ultimately show ?thesis using b(1) b1(2) by blast
qed

lemma takeWhile_base64: "takeWhile (\<lambda>x. x \<noteq> 0) (base64 d @ [0]) = base64 d"
  by (subst takeWhile_append2) (use base64_no_nul [of d] in auto)

lemma conn_output_proto [simp]: "conn_output (c\<lparr>proto := p\<rparr>) = conn_output c" "send_ok (c\<lparr>proto := p\<rparr>) = send_ok c"
  by (simp_all add: conn_output_def pending_def send_ok_def)

lemma handshake_ok:
  assumes "reqs (whttp w) r = Some req" "http_request_header req (bs ''sec-websocket-key'') = Some key"
    "http_request_header req (bs ''sec-websocket-version'') = Some (bs ''13'')"
    "length key < 8000" "length (e_sha1 env (key @ WEBSOCKET_SERVER_RESPONSE)) = 20" "0 \<in> set (e_after env)"
    "response_ok (e_http env) (header_buf (whttp w)) (Some (upgraded env key req)) (c\<lparr>proto := CONN_PROTO_WEBSOCKET\<rparr>) 101 None 0"
    "rnb_sized c" "read_possible c"
  shows "\<exists>w' c'. kore_websocket_handshake env now r k w c = (case ws_connect (e_wscbs env k) of None \<Rightarrow> Inr (w', c') | Some f \<Rightarrow> f w' c') \<and>
    ws_wait c' \<and> proto c' = CONN_PROTO_WEBSOCKET \<and> wscbs c' = Some k \<and> send_ok c' \<and>
    conn_output c' = conn_output c @ response_text (e_http env) (Some (upgraded env key req)) (c\<lparr>proto := CONN_PROTO_WEBSOCKET\<rparr>) 101 0"
proof -
  let ?junk = "e_junk (e_http env)" and ?h = "whttp w" and ?c = "c\<lparr>proto := CONN_PROTO_WEBSOCKET\<rparr>"
  let ?req = "upgraded env key req" let ?rs = "?req\<lparr>rq_status := 101 mod 2 ^ 16\<rparr>"
  from accept_key_ok [OF assms(4-6), of ?junk "e_out2 (e_http env) (key @ WEBSOCKET_SERVER_RESPONSE)"] obtain b b1 where
    a: "kore_buf_alloc ?junk 128 = Inr b"
      "kore_buf_appendv ?junk b (Some (key @ WEBSOCKET_SERVER_RESPONSE)) (e_out2 (e_http env) (key @ WEBSOCKET_SERVER_RESPONSE)) = Inr b1"
      "kore_base64_encode ?junk (e_after env) (e_sha1 env (buf_contents b1)) =
        Inr (KORE_RESULT_OK, base64 (e_sha1 env (key @ WEBSOCKET_SERVER_RESPONSE)) @ [0])" by blast
  have rok: "response_ok (e_http env) (header_buf ?h) (Some ?rs) ?c 101 None 0"
    using assms(7) by (simp add: response_ok_def response_ignores_status del: mod_simps)
  from http_response_normal_ok [OF rok, where n = 0] obtain hb c1 where
    n: "http_response_normal (e_http env) (header_buf ?h) (Some ?rs) ?c 101 None 0 = Inr (hb, c1)" "send_ok c1"
      "conn_output c1 = conn_output ?c @ response_text (e_http env) (Some ?rs) ?c 101 0 @ response_body (Some ?rs) None" "same_conn ?c c1"
      "\<exists>nb'. rnb c1 = Some nb' \<and> nb_type nb' = NETBUF_RECV \<and> (rnb_sized ?c \<longrightarrow> rnb_sized c1)" by blast
  from n(5) assms(8) obtain nb where nb: "rnb c1 = Some nb" "nb_type nb = NETBUF_RECV" "m_len nb = length (nb_buf nb)"
    by (auto simp: rnb_sized_def)
  let ?h1 = "(set_req (set_req ?h r ?req) r ?rs)\<lparr>header_buf := hb\<rparr>"
  have resp: "http_response (e_http env) (set_req ?h r ?req) ?c r 101 None 0 = Inr (?h1, c1)"
    using n(1) by (simp add: http_response_def Let_def set_req_def)
  from net_recv_reset_ok [OF nb(1,2), of 2 ?junk Websocket_recv_opcode] nb(3) obtain nb' where
    r: "net_recv_reset ?junk c1 WEBSOCKET_FRAME_HDR Websocket_recv_opcode = Inr (c1\<lparr>rnb := Some nb'\<rparr>)" "nb_cb nb' = Some Websocket_recv_opcode"
      "s_off nb' = 0" "b_len nb' = 2" "m_len nb' = length (nb_buf nb')" "recv_ok nb'" by (auto simp: WEBSOCKET_FRAME_HDR_def)
  let ?c3 = "c1\<lparr>rnb := Some nb', disc_cb := True, rnb := Some (nb'\<lparr>nb_call_always := False\<rparr>), wscbs := Some k, idle_start := now,
    idle_length := kore_websocket_timeout env\<rparr>"
  have req3: "http_response_header (http_response_header (http_response_header req (bs ''upgrade'') (bs ''websocket'')) (bs ''connection'') (bs ''upgrade''))
      (bs ''sec-websocket-accept'') (takeWhile (\<lambda>x. x \<noteq> 0) (base64 (e_sha1 env (key @ WEBSOCKET_SERVER_RESPONSE)) @ [0])) = ?req"
    by (simp add: http_response_header_def upgraded_def takeWhile_base64)
  have "kore_websocket_handshake env now r k w c =
      (case ws_connect (e_wscbs env k) of None \<Rightarrow> Inr (w\<lparr>whttp := ?h1\<rparr>, ?c3) | Some f \<Rightarrow> f (w\<lparr>whttp := ?h1\<rparr>) ?c3)"
    unfolding kore_websocket_handshake_def Let_def assms(1-3) option.case a rbind_simps prod.case req3 resp r(1)
    by (cases "ws_connect (e_wscbs env k)") simp_all
  moreover have "ws_wait ?c3"
    using r same_connD [OF n(4)] assms(9) by (auto simp: ws_wait_def recv_ok_def)
  moreover have "conn_output ?c3 = conn_output c1" "send_ok ?c3" using n(2) by (simp_all add: conn_output_def pending_def send_ok_def)
  ultimately show ?thesis using n(3) same_connD [OF n(4)]
    by (intro exI [of _ "w\<lparr>whttp := ?h1\<rparr>"] exI [of _ ?c3]) (simp add: response_body_def response_ignores_status del: mod_simps)
qed

section \<open>Properties\<close>


definition log_kenv :: "(byte \<times> byte list) list kore_env" where
  "log_kenv = \<lparr>e_http = test_env, e_wscbs = \<lambda>_. \<lparr>ws_connect = None,
       ws_message = Some (\<lambda>op d w c. Inr (w\<lparr>user := user w @ [(op, d)]\<rparr>, c)), ws_disconnect = None\<rparr>,
     e_sha1 = \<lambda>_. replicate 20 7, e_after = [0], kore_websocket_timeout = 120000, kore_websocket_maxframe = 16384\<rparr>"

definition log_worker :: "(byte \<times> byte list) list worker" where
  "log_worker = \<lparr>whttp = test_http, conns = Map.empty, connections = [], disconnected_list = [], worker_active_connections = 0,
     streams_freed = [], user = []\<rparr>"

definition ws_conn :: conn where
  "ws_conn = test_conn\<lparr>proto := CONN_PROTO_WEBSOCKET, wscbs := Some 4, rnb := Some \<lparr>nb_buf = [0, 0], s_off = 0, b_len = 2, m_len = 2,
     nb_type = NETBUF_RECV, nb_cb = Some Websocket_recv_opcode, nb_call_always = False, nb_force_remove = False, nb_must_resend = False,
     nb_is_stream = False\<rparr>\<rparr>"

lemmas ws_example = net_recv_turn_def net_read_def block_write_def ws_conn_def test_conn_def memcpy_at_def ws_callback_def
  websocket_recv_opcode_def Let_def ws_consts ws_ops net_recv_expand_def realloc_block_def malloc_block_def fresh_def log_kenv_def test_env_def

definition hi_msg :: ws_msg where "hi_msg = (0x81, [1, 2, 3, 4], [0x68, 0x69])"


text \<open>Sent frames can be read: what \<open>kore_websocket_send\<close> adds to the output of the connection is one frame, and a
  client reads from it the final fragment with the opcode and the data that were sent.\<close>

theorem websocket_send_roundtrip:
  assumes "send_ok c" and "length d < 2 ^ 31"
  shows "\<exists>c' t. kore_websocket_send junk c op d = Inr c' \<and> send_ok c' \<and> conn_output c' = conn_output c @ t \<and> read_frame t = Some (op OR 0x80, d)"
proof -
  have "length d < 2 ^ 64" using assms(2) by simp
  with kore_websocket_send_ok [OF assms, of junk op] read_server_frame [of d op] show ?thesis by blast
qed

theorem websocket_send_roundtrip_witness:
  "\<exists>c' t. kore_websocket_send (\<lambda>_. 0) ws_conn 1 (bs ''hi'') = Inr c' \<and> send_ok c' \<and> conn_output c' = conn_output ws_conn @ t \<and>
    read_frame t = Some (1 OR 0x80, bs ''hi'')"
  by (rule websocket_send_roundtrip) (simp_all add: send_ok_def ws_conn_def test_conn_def bs_def)

text \<open>The answer to a ping is no pong: the constant \<open>WEBSOCKET_OP_PONG\<close> is \<open>0x10\<close>, so the frame sent back has the opcode of
  a continuation and the third reserved bit set.\<close>

theorem websocket_ping_misanswered:
  assumes "ws_wait c" and "send_ok c" and "length key = 4" and "ping_op b0" and "length d \<le> 125" and "125 \<le> kore_websocket_maxframe env"
    and "concat ps = client_frame b0 key d" and "fits (ws_callback env other) w c ps"
  shows "\<exists>c' t. recv_loop (ws_callback env other) w c (map Rd ps @ rs) = recv_loop (ws_callback env other) w c' rs \<and>
    conn_output c' = conn_output c @ t \<and> t ! 0 AND 0x0f = WEBSOCKET_OP_CONT \<and> t ! 0 AND 0x10 \<noteq> 0 \<and> drop 2 t = d"
proof -
  have d: "length d \<le> kore_websocket_maxframe env" "length d < 2 ^ 62" "length d < 2 ^ 31" using assms(5,6) by auto
  have rp: "read_possible c" using assms(1) by (simp add: ws_wait_def)
  have cc: "concat ps = client_frame b0 key d @ []" using assms(7) by simp
  from frame_pieces [OF assms(1,3) d(1,2) _ assms(8) cc, of rs] assms(4,5) obtain ps2 nb1 where
    p: "concat ps2 = []" "frame_buf (client_frame b0 key d) (length (client_frame b0 key d)) (length (client_frame b0 key d)) nb1"
      "recv_loop (ws_callback env other) w c (map Rd ps @ rs) =
        rbind (websocket_recv_frame env w (c\<lparr>rnb := Some nb1\<rparr>)) (after_call (ws_callback env other) (map Rd ps2 @ rs))"
      "\<forall>w' c'. websocket_recv_frame env w (c\<lparr>rnb := Some nb1\<rparr>) = Inr (KORE_RESULT_OK, w', c') \<longrightarrow> fits (ws_callback env other) w' c' ps2" by auto
  from recv_frame_ping [of "c\<lparr>rnb := Some nb1\<rparr>" nb1, OF _ p(2) assms(3) d(1,3) assms(4), of w] rp assms(2) obtain c' where
    r: "websocket_recv_frame env w (c\<lparr>rnb := Some nb1\<rparr>) = Inr (KORE_RESULT_OK, w, c')"
      "conn_output c' = conn_output c @ server_frame WEBSOCKET_OP_PONG d" by auto
  have "ps2 = []" using p(1,4) r(1) by (cases ps2) auto
  with p(3) r(1) have "recv_loop (ws_callback env other) w c (map Rd ps @ rs) = recv_loop (ws_callback env other) w c' rs" by (simp add: after_call_def)
  with r(2) assms(5) show ?thesis
    by (intro exI [of _ c'] exI [of _ "server_frame WEBSOCKET_OP_PONG d"]) (simp add: server_frame_def server_len_def ws_ops)
qed

theorem websocket_ping_misanswered_witness:
  "\<exists>c' t. recv_loop (ws_callback log_kenv (\<lambda>_ _ _. Inl Null_deref)) log_worker ws_conn (map Rd [[0x89, 0x82], [1, 2, 3, 4, 0x69, 0x6b]] @ [Rd_error EAGAIN]) =
      recv_loop (ws_callback log_kenv (\<lambda>_ _ _. Inl Null_deref)) log_worker c' [Rd_error EAGAIN] \<and>
    conn_output c' = conn_output ws_conn @ t \<and> t ! 0 AND 0x0f = WEBSOCKET_OP_CONT \<and> t ! 0 AND 0x10 \<noteq> 0 \<and> drop 2 t = [0x68, 0x69]"
proof (rule websocket_ping_misanswered)
  show "ws_wait ws_conn" by (simp add: ws_wait_def ws_conn_def test_conn_def recv_ok_def)
  show "concat [[0x89, 0x82], [1, 2, 3, 4, 0x69, 0x6b]] = client_frame 0x89 [1, 2, 3, 4] [0x68, 0x69]"
    by (simp add: client_frame_def client_len_def xor_mask_def)
  show "fits (ws_callback log_kenv (\<lambda>_ _ _. Inl Null_deref)) log_worker ws_conn [[0x89, 0x82], [1, 2, 3, 4, 0x69, 0x6b]]"
    by (simp add: ws_example split: sum.split option.split prod.split)
qed (simp_all add: ws_conn_def test_conn_def send_ok_def log_kenv_def ping_op_def ws_ops)

text \<open>A handshake with a key and version 13 is answered with status 101 and the accept value RFC 6455 asks for, base64 of the SHA-1
  digest of the key and the fixed identifier; the connection then speaks the websocket protocol and waits for
  a frame.\<close>

theorem websocket_handshake_accepts:
  assumes "reqs (whttp w) r = Some req" and "http_request_header req (bs ''sec-websocket-key'') = Some key"
    and "http_request_header req (bs ''sec-websocket-version'') = Some (bs ''13'')"
    and "length key < 8000" and "length (e_sha1 env (key @ WEBSOCKET_SERVER_RESPONSE)) = 20" and "0 \<in> set (e_after env)"
    and "response_ok (e_http env) (header_buf (whttp w)) (Some (upgraded env key req)) (c\<lparr>proto := CONN_PROTO_WEBSOCKET\<rparr>) 101 None 0"
    and "rnb_sized c" and "read_possible c" and "ws_connect (e_wscbs env k) = None" and "resp_headers req = []" and "http_hsts_enable (e_http env) = 0"
  shows "\<exists>w' c'. kore_websocket_handshake env now r k w c = Inr (w', c') \<and> ws_wait c' \<and> proto c' = CONN_PROTO_WEBSOCKET \<and> wscbs c' = Some k \<and>
    conn_output c' = conn_output c @ join_lines [bs ''HTTP/1.1 101 Switching Protocols'', bs ''upgrade: websocket'', bs ''connection: upgrade'',
      bs ''sec-websocket-accept: '' @ base64 (e_sha1 env (key @ WEBSOCKET_SERVER_RESPONSE))] @ CRLF @ CRLF"
proof -
  have st: "status_line 101 = bs ''HTTP/1.1 101 Switching Protocols''"
    by (simp add: status_line_def dec_int_def dec_nat.simps http_status_text_def bs_def)
  have "text_lines (e_http env) (upgraded env key req) (c\<lparr>proto := CONN_PROTO_WEBSOCKET\<rparr>) 101 0 =
      [bs ''HTTP/1.1 101 Switching Protocols'', bs ''upgrade: websocket'', bs ''connection: upgrade'',
        bs ''sec-websocket-accept: '' @ base64 (e_sha1 env (key @ WEBSOCKET_SERVER_RESPONSE))]"
    using assms(11,12) by (simp add: text_lines_def st upgraded_def) (simp add: bs_def)
  with handshake_ok [OF assms(1-9), of now k] assms(10) show ?thesis by (auto simp: response_text_lines)
qed

definition upgrade_request :: http_request where
  "upgrade_request = blank_request\<lparr>req_headers := [\<lparr>hdr_header = bs ''Sec-WebSocket-Key'', hdr_value = bs ''dGVzdA==''\<rparr>,
     \<lparr>hdr_header = bs ''Sec-WebSocket-Version'', hdr_value = bs ''13''\<rparr>]\<rparr>"

definition plain_log_kenv :: "(byte \<times> byte list) list kore_env" where
  "plain_log_kenv = log_kenv\<lparr>e_http := test_env\<lparr>http_hsts_enable := 0\<rparr>\<rparr>"

lemma upgrade_response_ok:
  "response_ok (e_http plain_log_kenv) (header_buf test_http) (Some (upgraded plain_log_kenv (bs ''dGVzdA=='') upgrade_request))
     (test_conn\<lparr>proto := CONN_PROTO_WEBSOCKET\<rparr>) 101 None 0"
proof -
  let ?d = "replicate 20 (7 :: byte)"
  have b: "length (base64 ?d) \<le> 80" using length_base64_le [of ?d] by simp
  define b64 where "b64 = base64 ?d"
  have lines: "response_lines (e_http plain_log_kenv) (Some (upgraded plain_log_kenv (bs ''dGVzdA=='') upgrade_request))
      (test_conn\<lparr>proto := CONN_PROTO_WEBSOCKET\<rparr>) 101 0 =
    [bs ''HTTP/1.1 '' @ dec_int 101 @ bs '' '' @ http_status_text 101 @ CRLF, bs ''upgrade: websocket'' @ CRLF, bs ''connection: upgrade'' @ CRLF,
      bs ''sec-websocket-accept: '' @ b64 @ CRLF]"
    by (simp add: response_lines_def hsts_lines_def length_lines_def header_line_def upgraded_def upgrade_request_def blank_request_def
        plain_log_kenv_def log_kenv_def b64_def) (simp add: bs_def)
  show ?thesis using b unfolding b64_def [symmetric] response_ok_def response_text_def lines
    by (simp add: test_http_def buf_ok_def dec_int_def dec_nat.simps http_status_text_def bs_def CRLF_def BUFSIZ_def send_ok_def test_conn_def
        plain_log_kenv_def test_env_def)
qed

theorem websocket_handshake_accepts_witness:
  "\<exists>w' c'. kore_websocket_handshake plain_log_kenv 99 5 4 (log_worker\<lparr>whttp := set_req test_http 5 upgrade_request\<rparr>) test_conn = Inr (w', c') \<and>
    ws_wait c' \<and> proto c' = CONN_PROTO_WEBSOCKET \<and> wscbs c' = Some 4 \<and>
    conn_output c' = conn_output test_conn @ join_lines [bs ''HTTP/1.1 101 Switching Protocols'', bs ''upgrade: websocket'', bs ''connection: upgrade'',
      bs ''sec-websocket-accept: '' @ base64 (e_sha1 plain_log_kenv (bs ''dGVzdA=='' @ WEBSOCKET_SERVER_RESPONSE))] @ CRLF @ CRLF"
proof (rule websocket_handshake_accepts)
  show "reqs (whttp (log_worker\<lparr>whttp := set_req test_http 5 upgrade_request\<rparr>)) 5 = Some upgrade_request" by simp
  show "http_request_header upgrade_request (bs ''sec-websocket-key'') = Some (bs ''dGVzdA=='')"
    by (simp add: http_request_header_def upgrade_request_def strcaseeq_def bs_def tolower_def)
  show "http_request_header upgrade_request (bs ''sec-websocket-version'') = Some (bs ''13'')"
    by (simp add: http_request_header_def upgrade_request_def strcaseeq_def bs_def tolower_def)
  show "response_ok (e_http plain_log_kenv) (header_buf (whttp (log_worker\<lparr>whttp := set_req test_http 5 upgrade_request\<rparr>)))
      (Some (upgraded plain_log_kenv (bs ''dGVzdA=='') upgrade_request)) (test_conn\<lparr>proto := CONN_PROTO_WEBSOCKET\<rparr>) 101 None 0"
    using upgrade_response_ok by simp
qed (simp_all add: plain_log_kenv_def log_kenv_def rnb_sized_def test_conn_def upgrade_request_def blank_request_def bs_def)

end
