(* ===== verification/Kore_Worker.thy ===== *)
theory Kore_Worker
  imports Kore_Domain Kore_Websocket
begin

text \<open>
  The work of a worker process: \<open>http_process\<close>, \<open>http_process_request\<close> and \<open>http_request_free\<close> of \<open>base/kore/http.c\<close>,
  \<open>kore_connection_handle\<close> of \<open>base/kore/connection.c\<close>, the log packets of \<open>base/kore/accesslog.c\<close>, the event
  dispatch of \<open>base/kore/linux.c\<close> and one turn of the main loop of \<open>base/kore/worker.c\<close>.

  The server record holds the worker of \<open>Kore_Connection\<close>, the log packets sent to the parent process and the body
  files removed. Page handlers are functions of the application; \<open>s_page\<close> gives the function at an address. Times
  and the results of system calls are arguments.
\<close>

section \<open>State\<close>

record kore_log_packet =
  lp_method :: byte
  lp_status :: int
  lp_time_req :: u16
  lp_worker_id :: u16
  lp_worker_cpu :: u16
  lp_host :: "byte list"
  lp_path :: "byte list"
  lp_agent :: "byte list"

record 'u server =
  sw :: "'u worker"
  log_packets :: "kore_log_packet list"
  unlinked :: "byte list list"

text \<open>\<open>s_free_extra\<close> is \<open>req->free_hdlr_extra\<close>, or \<open>kore_free\<close> where it is not set, at an address.\<close>

record 'u server_env =
  s_kore :: "'u kore_env"
  s_mod :: mod_env
  s_tab :: modtab
  s_page :: "nat \<Rightarrow> nat \<Rightarrow> 'u worker \<Rightarrow> (int \<times> 'u worker) res"
  s_free_extra :: "nat \<Rightarrow> nat \<Rightarrow> 'u worker \<Rightarrow> 'u worker res"
  s_worker_id :: byte
  s_worker_cpu :: byte
  worker_max_connections :: u32
  worker_accept_threshold :: u32

definition HTTP_USERAGENT_LEN :: nat where "HTTP_USERAGENT_LEN = 256"

definition put_req :: "'u worker \<Rightarrow> nat \<Rightarrow> http_request \<Rightarrow> 'u worker" where
  "put_req w r req = w\<lparr>whttp := set_req (whttp w) r req\<rparr>"

text \<open>An operation on \<open>req->owner\<close>.\<close>

definition on_owner :: "'u worker \<Rightarrow> http_request \<Rightarrow> ('u worker \<Rightarrow> conn \<Rightarrow> ('b \<times> 'u worker \<times> conn) res) \<Rightarrow> ('b \<times> 'u worker) res" where
  "on_owner w req f =
     (case conns w (rq_owner req) of
        None \<Rightarrow> Inl Use_after_free
      | Some c \<Rightarrow> rbind (f w c) (\<lambda>(x, w1, c1). Inr (x, put_conn w1 c1)))"

section \<open>Access log\<close>

text \<open>The fields hold what \<open>kore_strlcpy\<close> stores. The address of the peer is not part of the model.\<close>

definition kore_accesslog :: "'u server_env \<Rightarrow> http_request \<Rightarrow> kore_log_packet" where
  "kore_accesslog env req =
     \<lparr>lp_method = word_of_int (rq_method req), lp_status = rq_status req, lp_time_req = ucast (rq_total req),
      lp_worker_id = ucast (s_worker_id env), lp_worker_cpu = ucast (s_worker_cpu env),
      lp_host = take (KORE_DOMAINNAME_LEN - 1) (rq_host req), lp_path = take (HTTP_URI_LEN - 1) (rq_path req),
      lp_agent = (case rq_agent req of Some a \<Rightarrow> take (HTTP_USERAGENT_LEN - 1) a | None \<Rightarrow> bs ''unknown'')\<rparr>"

text \<open>The line the parent process writes; \<open>tbuf\<close> is the date and \<open>addr\<close> the text of the address; \<open>sent\<close> is the result of
  \<open>write\<close>. The result is the file descriptor and the line, if one was written. The size of a packet is that of the
  structure with two bytes of padding at the end, the record \<open>p\<close> what a message of this size holds. That \<open>asprintf\<close> is out
  of memory is not modelled.\<close>

definition log_packet_size :: nat where
  "log_packet_size = 8 + 3 * 2 + 1 + 16 + KORE_DOMAINNAME_LEN + HTTP_URI_LEN + HTTP_USERAGENT_LEN + 2"

definition log_line :: "byte list \<Rightarrow> byte list \<Rightarrow> kore_log_packet \<Rightarrow> byte list" where
  "log_line tbuf addr p =
     bs ''['' @ tbuf @ bs ''] '' @ addr @ bs '' '' @ dec_int (lp_status p) @ bs '' '' @
     (let m = uint (lp_method p) in
      if m = HTTP_METHOD_GET then bs ''GET'' else if m = HTTP_METHOD_POST then bs ''POST''
      else if m = HTTP_METHOD_PUT then bs ''PUT'' else if m = HTTP_METHOD_DELETE then bs ''DELETE''
      else if m = HTTP_METHOD_HEAD then bs ''HEAD'' else bs ''UNKNOWN'') @ bs '' '' @ lp_path p @
     bs '' (w#'' @ dec_nat (unat (lp_worker_id p)) @ bs '') ('' @ dec_nat (unat (lp_time_req p)) @ bs ''ms) (none) ('' @
     lp_agent p @ bs '')'' @ [10]"

definition kore_accesslog_write ::
    "mod_env \<Rightarrow> modtab \<Rightarrow> byte list \<Rightarrow> byte list \<Rightarrow> kore_log_packet \<Rightarrow> nat \<Rightarrow> int \<Rightarrow> (int \<times> (int \<times> byte list) option) res" where
  "kore_accesslog_write env t tbuf addr p len sent =
     (if len \<noteq> log_packet_size then Inr (KORE_RESULT_ERROR, None) else
     rbind (kore_domain_lookup env t (lp_host p)) (\<lambda>d.
       case d of
         None \<Rightarrow> Inr (KORE_RESULT_OK, None)
       | Some x \<Rightarrow>
           (case doms t x of
              None \<Rightarrow> Inl Use_after_free
            | Some dm \<Rightarrow>
                if sent = - 1 then Inr (KORE_RESULT_ERROR, None)
                else Inr (KORE_RESULT_OK, Some (d_accesslog dm, log_line tbuf addr p)))))"

section \<open>Requests\<close>

text \<open>The queries of the database client and its queue are not modelled. The strings and buffers of a request go with its record.
  Every request has a handler (\<open>http_request_new\<close> makes no others), so the test for a missing one in
  \<open>http_process_request\<close> does not appear.\<close>

definition http_request_free :: "'u server_env \<Rightarrow> nat \<Rightarrow> 'u server \<Rightarrow> 'u server res" where
  "http_request_free env r s =
     (case reqs (whttp (sw s)) r of
        None \<Rightarrow> Inl Use_after_free
      | Some req \<Rightarrow>
          rbind (tailq_remove r (http_requests (whttp (sw s)))) (\<lambda>rs.
          let w1 = (sw s)\<lparr>whttp := (whttp (sw s))\<lparr>http_requests := rs\<rparr>\<rparr> in
          rbind (on_owner w1 req (\<lambda>w c.
            rbind (tailq_remove r (c_http_requests c)) (\<lambda>cs. Inr ((), w, c\<lparr>c_http_requests := cs\<rparr>)))) (\<lambda>(_, w2).
          let s2 = s\<lparr>sw := w2, unlinked := unlinked s @ (case http_body_path req of Some p \<Rightarrow> [p] | None \<Rightarrow> [])\<rparr> in
          rbind (case rq_hdlr_extra req of
              Some p \<Rightarrow> if rq_retain_extra req then Inr w2 else s_free_extra env p r w2
            | None \<Rightarrow> Inr w2) (\<lambda>w3.
            Inr (s2\<lparr>sw := w3\<lparr>whttp := (whttp w3)\<lparr>reqs := (reqs (whttp w3))(r := None),
                   http_request_count := http_request_count (whttp w3) - 1\<rparr>\<rparr>\<rparr>)))))"

text \<open>Authentication on the connection of the request.\<close>

definition run_auth :: "'u server_env \<Rightarrow> nat \<Rightarrow> http_request \<Rightarrow> nat \<Rightarrow> 'u worker \<Rightarrow> (int \<times> 'u worker) res" where
  "run_auth env r req i w =
     (if i < length (auth_list (s_tab env)) then
        on_owner w req (\<lambda>w1 c.
          rbind (kore_auth_run (e_http (s_kore env)) (s_mod env) (validators (s_tab env)) (auth_list (s_tab env) ! i) (whttp w1) c r)
            (\<lambda>(ret, h, c1). Inr (ret, w1\<lparr>whttp := h\<rparr>, c1)))
      else Inl Out_of_bounds)"

text \<open>The end of \<open>http_process_request\<close>: the log and the mark for deletion.\<close>

definition finish_request :: "'u server_env \<Rightarrow> nat \<Rightarrow> kore_module_handle \<Rightarrow> 'u server \<Rightarrow> 'u server res" where
  "finish_request env r hdlr s =
     (case (reqs (whttp (sw s)) r, doms (s_tab env) (h_dom hdlr)) of
        (Some req, Some dm) \<Rightarrow>
          let s1 = (if d_accesslog dm \<noteq> - 1 then s\<lparr>log_packets := log_packets s @ [kore_accesslog env req]\<rparr> else s) in
          Inr (s1\<lparr>sw := put_req (sw s) r (req\<lparr>rq_delete := True\<rparr>)\<rparr>)
      | _ \<Rightarrow> Inl Use_after_free)"

text \<open>Flushing the send queue of the owner, and its disconnection when that fails.\<close>

definition flush_owner :: "'u kore_env \<Rightarrow> wres list \<Rightarrow> http_request \<Rightarrow> 'u worker \<Rightarrow> 'u worker option res" where
  "flush_owner env script req w =
     (case conns w (rq_owner req) of
        None \<Rightarrow> Inl Use_after_free
      | Some c \<Rightarrow>
          rbind (conn_send_flush env w c script) (\<lambda>x.
            case x of
              None \<Rightarrow> Inr None
            | Some (ret, w1, c1) \<Rightarrow>
                if ret = KORE_RESULT_ERROR
                then rbind (kore_connection_disconnect env w1 c1) (\<lambda>(w2, c2). Inr (Some (put_conn w2 c2)))
                else Inr (Some (put_conn w1 c1))))"

text \<open>Authentication and the page handler.\<close>

definition run_handler :: "'u server_env \<Rightarrow> nat \<Rightarrow> http_request \<Rightarrow> kore_module_handle \<Rightarrow> 'u worker \<Rightarrow> (int \<times> 'u worker) res" where
  "run_handler env r req hdlr w =
     rbind (case h_auth hdlr of
         Some i \<Rightarrow> if \<not> rq_authed req then run_auth env r req i w else Inr (KORE_RESULT_OK, w)
       | None \<Rightarrow> Inr (KORE_RESULT_OK, w)) (\<lambda>(ret, w1).
       if ret = KORE_RESULT_OK then s_page env (h_addr hdlr) r w1
       else if ret = KORE_RESULT_RETRY then Inr (ret, w1)
       else if ret = KORE_RESULT_ERROR then Inr (KORE_RESULT_OK, w1)
       else Inl (Fatal ''kore_auth() returned unknown''))"

text \<open>\<open>now1\<close> and \<open>now2\<close> are the times before and after the handler, \<open>script\<close> the results of \<open>write\<close>; \<open>None\<close> is a flush
  that is still going on when the script ends.\<close>

definition http_process_request ::
    "'u server_env \<Rightarrow> u64 \<Rightarrow> u64 \<Rightarrow> wres list \<Rightarrow> nat \<Rightarrow> 'u server \<Rightarrow> 'u server option res" where
  "http_process_request env now1 now2 script r s =
     (case reqs (whttp (sw s)) r of
        None \<Rightarrow> Inl Use_after_free
      | Some req \<Rightarrow>
          if rq_delete req then Inr (Some s)
          else case hdlrs (s_tab env) (rq_hdlr req) of
              None \<Rightarrow> Inl Use_after_free
            | Some hdlr \<Rightarrow>
                rbind (run_handler env r req hdlr (put_req (sw s) r (req\<lparr>rq_start := now1\<rparr>))) (\<lambda>(ret, w2).
                case reqs (whttp w2) r of
                  None \<Rightarrow> Inl Use_after_free
                | Some req2 \<Rightarrow>
                    let w3 = put_req w2 r (req2\<lparr>rq_end := now2, rq_total := rq_total req2 + (now2 - rq_start req2)\<rparr>) in
                    if ret = KORE_RESULT_OK then
                      rbind (flush_owner (s_kore env) script req2 w3) (\<lambda>x.
                        case x of
                          None \<Rightarrow> Inr None
                        | Some w4 \<Rightarrow> rbind (finish_request env r hdlr (s\<lparr>sw := w4\<rparr>)) (\<lambda>s1. Inr (Some s1)))
                    else if ret = KORE_RESULT_ERROR then
                      rbind (on_owner w3 req2 (\<lambda>w c. rbind (kore_connection_disconnect (s_kore env) w c) (\<lambda>(w1, c1). Inr ((), w1, c1))))
                        (\<lambda>(_, w4). rbind (finish_request env r hdlr (s\<lparr>sw := w4\<rparr>)) (\<lambda>s1. Inr (Some s1)))
                    else if ret = KORE_RESULT_RETRY then Inr (Some (s\<lparr>sw := w3\<rparr>))
                    else Inl (Fatal ''A page handler returned an unknown result'')))"

text \<open>The successor of a request on the list it is on.\<close>

definition req_next :: "http \<Rightarrow> nat \<Rightarrow> nat option" where
  "req_next h r = (if r \<in> set (http_requests h) then tailq_next r (http_requests h) else tailq_next r (http_requests_sleeping h))"

fun process_loop ::
    "nat \<Rightarrow> 'u server_env \<Rightarrow> (nat \<Rightarrow> u64 \<times> u64 \<times> wres list) \<Rightarrow> nat \<Rightarrow> nat option \<Rightarrow> 'u server \<Rightarrow> 'u server option res" where
  "process_loop fuel env run cnt None s = Inr (Some s)"
| "process_loop 0 env run cnt (Some r) s = Inl Out_of_fuel"
| "process_loop (Suc fuel) env run cnt (Some r) s =
     (if cnt \<ge> http_request_limit (e_http (s_kore env)) then Inr (Some s)
      else case reqs (whttp (sw s)) r of
          None \<Rightarrow> Inl Use_after_free
        | Some req \<Rightarrow>
            let nxt = req_next (whttp (sw s)) r in
            if rq_delete req then rbind (http_request_free env r s) (\<lambda>s1. process_loop fuel env run cnt nxt s1)
            else if rq_sleeping req then Inl (Fatal ''http_process: sleeping request on list'')
            else if \<not> rq_complete req then process_loop fuel env run cnt nxt s
            else case run r of (now1, now2, script) \<Rightarrow>
              rbind (http_process_request env now1 now2 script r s) (\<lambda>x.
                case x of None \<Rightarrow> Inr None | Some s1 \<Rightarrow> process_loop fuel env run (Suc cnt) nxt s1))"

definition http_process :: "nat \<Rightarrow> 'u server_env \<Rightarrow> (nat \<Rightarrow> u64 \<times> u64 \<times> wres list) \<Rightarrow> 'u server \<Rightarrow> 'u server option res" where
  "http_process fuel env run s = process_loop fuel env run 0 (tailq_first (http_requests (whttp (sw s)))) s"

section \<open>Connections\<close>

text \<open>The receive callbacks on the state of the worker. \<open>alloc\<close> is the address the request pool hands out; \<open>other\<close> are the callbacks
  of the message pipes.\<close>

definition on_http :: "(http \<Rightarrow> conn \<Rightarrow> (int \<times> http \<times> conn) res) \<Rightarrow> 'u worker \<Rightarrow> conn \<Rightarrow> (int \<times> 'u worker \<times> conn) res" where
  "on_http f w c = rbind (f (whttp w) c) (\<lambda>(ret, h, c1). Inr (ret, w\<lparr>whttp := h\<rparr>, c1))"

definition conn_callback ::
    "'u kore_env \<Rightarrow> (http \<Rightarrow> nat) \<Rightarrow> (net_cb \<Rightarrow> 'u worker \<Rightarrow> conn \<Rightarrow> (int \<times> 'u worker \<times> conn) res) \<Rightarrow>
      net_cb \<Rightarrow> 'u worker \<Rightarrow> conn \<Rightarrow> (int \<times> 'u worker \<times> conn) res" where
  "conn_callback env alloc other k w c =
     (if k = Http_header_recv \<or> k = Http_body_recv then on_http (http_callback (e_http env) alloc (\<lambda>_ _ _. Inl Null_deref) k) w c
      else ws_callback env other k w c)"

text \<open>\<open>now\<close> is the time of the restart of the idle timer.\<close>

definition kore_connection_handle ::
    "'u kore_env \<Rightarrow> (net_cb \<Rightarrow> 'u worker \<Rightarrow> conn \<Rightarrow> (int \<times> 'u worker \<times> conn) res) \<Rightarrow> u64 \<Rightarrow> rres list \<Rightarrow> wres list \<Rightarrow>
      'u worker \<Rightarrow> conn \<Rightarrow> (int \<times> 'u worker \<times> conn) option res" where
  "kore_connection_handle env callback now rscript wscript w c =
     (let c0 = kore_connection_stop_idletimer c in
      if cstate c0 = CONN_STATE_ESTABLISHED then
        rbind (if read_possible c0 then net_recv_flush callback w c0 rscript else Inr (Some (KORE_RESULT_OK, w, c0))) (\<lambda>x.
          case x of
            None \<Rightarrow> Inr None
          | Some (ret, w1, c1) \<Rightarrow>
              if ret = KORE_RESULT_ERROR then Inr (Some (KORE_RESULT_ERROR, w1, c1))
              else rbind (if write_possible c1 then conn_send_flush env w1 c1 wscript else Inr (Some (KORE_RESULT_OK, w1, c1))) (\<lambda>y.
                case y of
                  None \<Rightarrow> Inr None
                | Some (ret2, w2, c2) \<Rightarrow>
                    if ret2 = KORE_RESULT_ERROR then Inr (Some (KORE_RESULT_ERROR, w2, c2))
                    else Inr (Some (KORE_RESULT_OK, w2, kore_connection_start_idletimer now c2))))
      else Inr (Some (KORE_RESULT_OK, w, kore_connection_start_idletimer now c0)))"

section \<open>Events\<close>

text \<open>No part of the program sets \<open>CONN_READ_BLOCK\<close> or \<open>CONN_WRITE_BLOCK\<close>. Events of the database client are not modelled.
  What \<open>epoll_wait\<close> reports: the number of the connection with the bits of the event and the results of the system calls
  its handler makes, or a listener with the results of \<open>accept\<close> (the address of the connection, the contents of its state, and
  whether \<open>accept\<close> and \<open>kore_connection_nonblock\<close> succeed).\<close>

datatype kevent =
    Conn_event nat bool bool bool "rres list" "wres list"
  | Listener_event bool "(nat \<times> conn_state \<times> bool \<times> bool) list"

text \<open>The loop over a listener; \<open>connect\<close> is its callback. The counter of accepted connections is a 32-bit number; the loop
  also ends with the script.\<close>

fun accept_loop ::
    "'u server_env \<Rightarrow> u64 \<Rightarrow> 'u conn_cb option \<Rightarrow> (nat \<times> conn_state \<times> bool \<times> bool) list \<Rightarrow> u32 \<Rightarrow> 'u worker \<Rightarrow> (u32 \<times> 'u worker) option res" where
  "accept_loop env now connect script n w =
     (if \<not> worker_active_connections w < worker_max_connections env then Inr (Some (n, w))
      else if worker_accept_threshold env \<noteq> 0 \<and> n \<ge> worker_accept_threshold env then Inr (Some (n, w))
      else case script of
          [] \<Rightarrow> Inr None
        | (a, junk, acc, nb) # rest \<Rightarrow>
            rbind (kore_connection_accept (s_kore env) now a junk acc nb connect w) (\<lambda>(out, w1).
              case out of None \<Rightarrow> Inr (Some (1, w1)) | Some _ \<Rightarrow> accept_loop env now connect rest (n + 1) w1))"

declare accept_loop.simps [simp del]

definition conn_event ::
    "'u kore_env \<Rightarrow> (net_cb \<Rightarrow> 'u worker \<Rightarrow> conn \<Rightarrow> (int \<times> 'u worker \<times> conn) res) \<Rightarrow> u64 \<Rightarrow> nat \<Rightarrow> bool \<Rightarrow> bool \<Rightarrow> bool \<Rightarrow>
      rres list \<Rightarrow> wres list \<Rightarrow> 'u worker \<Rightarrow> 'u worker option res" where
  "conn_event env callback now i err rd wr rscript wscript w =
     (case conns w i of
        None \<Rightarrow> Inl Use_after_free
      | Some c \<Rightarrow>
          if err then rbind (kore_connection_disconnect env w c) (\<lambda>(w1, c1). Inr (Some (put_conn w1 c1)))
          else
            let c0 = c\<lparr>read_possible := read_possible c \<or> rd, write_possible := write_possible c \<or> wr\<rparr> in
            rbind (kore_connection_handle env callback now rscript wscript w c0) (\<lambda>x.
              case x of
                None \<Rightarrow> Inr None
              | Some (ret, w1, c1) \<Rightarrow>
                  if ret = KORE_RESULT_ERROR then rbind (kore_connection_disconnect env w1 c1) (\<lambda>(w2, c2). Inr (Some (put_conn w2 c2)))
                  else Inr (Some (put_conn w1 c1))))"

fun kore_platform_event_wait ::
    "'u server_env \<Rightarrow> (net_cb \<Rightarrow> 'u worker \<Rightarrow> conn \<Rightarrow> (int \<times> 'u worker \<times> conn) res) \<Rightarrow> 'u conn_cb option \<Rightarrow> u64 \<Rightarrow> kevent list \<Rightarrow>
      u32 \<Rightarrow> 'u worker \<Rightarrow> (u32 \<times> 'u worker) option res" where
  "kore_platform_event_wait env callback connect now [] n w = Inr (Some (n, w))"
| "kore_platform_event_wait env callback connect now (Conn_event i err rd wr rscript wscript # evs) n w =
     rbind (conn_event (s_kore env) callback now i err rd wr rscript wscript w) (\<lambda>x.
       case x of None \<Rightarrow> Inr None | Some w1 \<Rightarrow> kore_platform_event_wait env callback connect now evs n w1)"
| "kore_platform_event_wait env callback connect now (Listener_event err script # evs) n w =
     (if err then Inl (Fatal ''failed on listener socket'')
      else rbind (accept_loop env now connect script n w) (\<lambda>x.
        case x of None \<Rightarrow> Inr None | Some (n1, w1) \<Rightarrow> kore_platform_event_wait env callback connect now evs n1 w1))"

text \<open>One turn of the loop of \<open>kore_worker_entry\<close> behind the timers and the accept lock: events, requests, the idle check every
  ten seconds, and the removal of disconnected connections.\<close>

definition worker_turn ::
    "nat \<Rightarrow> 'u server_env \<Rightarrow> (net_cb \<Rightarrow> 'u worker \<Rightarrow> conn \<Rightarrow> (int \<times> 'u worker \<times> conn) res) \<Rightarrow> 'u conn_cb option \<Rightarrow> u64 \<Rightarrow> u64 \<Rightarrow> kevent list \<Rightarrow>
      (nat \<Rightarrow> u64 \<times> u64 \<times> wres list) \<Rightarrow> 'u server \<Rightarrow> (u64 \<times> 'u server) option res" where
  "worker_turn fuel env callback connect now idle_check evs run s =
     rbind (kore_platform_event_wait env callback connect now evs 0 (sw s)) (\<lambda>x.
       case x of
         None \<Rightarrow> Inr None
       | Some (n, w1) \<Rightarrow>
           rbind (http_process fuel env run (s\<lparr>sw := w1\<rparr>)) (\<lambda>y.
             case y of
               None \<Rightarrow> Inr None
             | Some s1 \<Rightarrow>
                 let check = (now - idle_check \<ge> 10000) in
                 rbind (if check then kore_connection_check_timeout fuel (s_kore env) now (sw s1) else Inr (sw s1)) (\<lambda>w2.
                 rbind (kore_connection_prune fuel (s_kore env) (\<lambda>_. []) False w2) (\<lambda>z.
                   case z of
                     None \<Rightarrow> Inr None
                   | Some w3 \<Rightarrow> Inr (Some (if check then now else idle_check, s1\<lparr>sw := w3\<rparr>))))))"

section \<open>The invariant of a serving worker\<close>

definition small_response :: "http_request \<Rightarrow> bool" where
  "small_response req \<longleftrightarrow> (\<forall>hdr \<in> set (resp_headers req). length (header_line hdr) < BUFSIZ) \<and>
     length (concat (map header_line (resp_headers req))) < 2 ^ 19"

definition owner_ready :: "'u worker \<Rightarrow> http_request \<Rightarrow> bool" where
  "owner_ready w req \<longleftrightarrow> (\<exists>c nb. conns w (rq_owner req) = Some c \<and> proto c = CONN_PROTO_HTTP \<and> \<not> disc_cb c \<and> send_ok c \<and>
     rnb c = Some nb \<and> nb_type nb = NETBUF_RECV)"

definition handler_known :: "'u server_env \<Rightarrow> http_request \<Rightarrow> bool" where
  "handler_known env req \<longleftrightarrow> (\<exists>hdlr. hdlrs (s_tab env) (rq_hdlr req) = Some hdlr \<and> doms (s_tab env) (h_dom hdlr) \<noteq> None)"

text \<open>The lists are consistent, the owner of every request is alive, and requests that are to be served have a connection that
  can take the response and a handler. \<open>n\<close> is the number of responses the header buffer has room for.\<close>

definition serving :: "'u server_env \<Rightarrow> nat \<Rightarrow> 'u worker \<Rightarrow> bool" where
  "serving env n w \<longleftrightarrow> worker_ok w \<and> buf_ok (header_buf (whttp w)) \<and> blength (header_buf (whttp w)) + n * 2 ^ 20 < 2 ^ 64 \<and>
     (\<forall>r req. reqs (whttp w) r = Some req \<longrightarrow> rq_owner req \<in> dom (conns w) \<and>
        (\<not> rq_delete req \<longrightarrow> owner_ready w req \<and> small_response req \<and> handler_known env req))"

text \<open>What a handler leaves alone while it serves request \<open>r\<close>.\<close>

definition keeps :: "nat \<Rightarrow> 'u worker \<Rightarrow> 'u worker \<Rightarrow> bool" where
  "keeps r w w' \<longleftrightarrow> (\<forall>q. q \<noteq> r \<longrightarrow> reqs (whttp w') q = reqs (whttp w) q) \<and>
     (\<exists>req req'. reqs (whttp w) r = Some req \<and> reqs (whttp w') r = Some req' \<and> rq_owner req' = rq_owner req \<and>
        rq_hdlr req' = rq_hdlr req \<and> rq_delete req' = rq_delete req) \<and>
     (http_requests (whttp w') = http_requests (whttp w) \<or> http_requests (whttp w') = remove1 r (http_requests (whttp w)))"

lemma servingD:
  assumes "serving env n w"
  shows "worker_ok w" "conns_ok w" "http_ok (whttp w)" "buf_ok (header_buf (whttp w))"
    "blength (header_buf (whttp w)) + n * 2 ^ 20 < 2 ^ 64"
    "conns w i = Some c \<Longrightarrow> owns (whttp w) c" "reqs (whttp w) r = Some req \<Longrightarrow> \<exists>c. conns w (rq_owner req) = Some c"
    "reqs (whttp w) r = Some req \<Longrightarrow> \<not> rq_delete req \<Longrightarrow> owner_ready w req \<and> small_response req \<and> handler_known env req"
  using assms unfolding serving_def worker_ok_def by blast+

lemma serving_down: "serving env (Suc n) w \<Longrightarrow> serving env n w"
  unfolding serving_def by auto

lemma owner_ready_cong: "rq_owner req' = rq_owner req \<Longrightarrow> conns w' = conns w \<Longrightarrow> owner_ready w' req' = owner_ready w req"
  by (simp add: owner_ready_def)

lemma put_req_simps [simp]:
  "whttp (put_req w r req) = set_req (whttp w) r req" "conns (put_req w r req) = conns w" "connections (put_req w r req) = connections w"
  "disconnected_list (put_req w r req) = disconnected_list w" "worker_active_connections (put_req w r req) = worker_active_connections w"
  by (simp_all add: put_req_def)

lemma conns_ok_whttp [simp]: "conns_ok (w\<lparr>whttp := h\<rparr>) = conns_ok w"
  by (simp add: conns_ok_def conn_ok_def)

lemma serving_put_req:
  assumes S: "serving env n w" and r: "reqs (whttp w) r = Some req"
    and same: "rq_sleeping req' = rq_sleeping req" "rq_owner req' = rq_owner req" "rq_hdlr req' = rq_hdlr req"
    and del: "rq_delete req' \<or> (\<not> rq_delete req \<and> resp_headers req' = resp_headers req)"
  shows "serving env n (put_req w r req')"
proof -
  have ok: "http_ok (set_req (whttp w) r req')" using http_ok_set_req [OF servingD(3) [OF S] r same(1)] .
  have "owns (set_req (whttp w) r req') c" if "conns w i = Some c" for i c
    using owns_set_req [OF servingD(6) [OF S that] r same(2)] .
  then have "worker_ok (put_req w r req')"
    using ok servingD(2) [OF S] by (simp add: worker_ok_def put_req_def)
  moreover have "rq_owner q' \<in> dom (conns w) \<and> (\<not> rq_delete q' \<longrightarrow> owner_ready (put_req w r req') q' \<and> small_response q' \<and> handler_known env q')"
    if q: "reqs (whttp (put_req w r req')) q = Some q'" for q q'
  proof (cases "q = r")
    case True
    then have e: "q' = req'" using q by simp
    have "rq_owner req \<in> dom (conns w)" using servingD(7) [OF S r] by blast
    moreover have "owner_ready (put_req w r req') req' \<and> small_response req' \<and> handler_known env req'" if "\<not> rq_delete req'"
    proof -
      have d: "\<not> rq_delete req" "resp_headers req' = resp_headers req" using del that by auto
      show ?thesis
        using servingD(8) [OF S r d(1)] d(2) same owner_ready_cong [of req' req "put_req w r req'" w]
        by (simp add: small_response_def handler_known_def)
    qed
    ultimately show ?thesis using e same(2) by simp
  next
    case False
    then have e: "reqs (whttp w) q = Some q'" using q by simp
    show ?thesis
      using servingD(7) [OF S e] servingD(8) [OF S e] owner_ready_cong [of q' q' "put_req w r req'" w] by auto
  qed
  ultimately show ?thesis using servingD(4,5) [OF S] unfolding serving_def by simp
qed

section \<open>Sending and disconnecting keep it\<close>

text \<open>What sending does not touch.\<close>

definition send_frame :: "('k, 'a) connection_scheme \<Rightarrow> ('k, 'a) connection_scheme \<Rightarrow> bool" where
  "send_frame c c' \<longleftrightarrow> rnb c' = rnb c \<and> connection.more c' = connection.more c"

lemma net_send_frame: "net_send c r = Inr (res, c') \<Longrightarrow> send_frame c c'"
  by (auto simp: net_send_def net_write_def send_finish_def net_remove_netbuf_def send_frame_def
      split: list.splits wres.splits errno.splits if_splits)

lemma net_send_flush_frame: "net_send_flush c script = Inr (Some (res, c')) \<Longrightarrow> send_frame c c'"
proof (induction script arbitrary: c)
  case Nil
  then show ?case by (auto simp: net_send_flush.simps [of c] send_frame_def split: if_splits)
next
  case (Cons r rs)
  show ?case
  proof (cases "send_queue c \<noteq> [] \<and> write_possible c")
    case True
    obtain res1 c1 where c1: "net_send c r = Inr (res1, c1)"
      using Cons.prems True by (cases "net_send c r") (auto simp: net_send_flush.simps [of c])
    have "send_frame c c1" using net_send_frame [OF c1] .
    moreover have "send_frame c1 c'"
      using Cons.prems True c1 Cons.IH [of c1] by (auto simp: net_send_flush.simps [of c] send_frame_def split: if_splits)
    ultimately show ?thesis by (simp add: send_frame_def)
  next
    case False
    then show ?thesis using Cons.prems by (auto simp: net_send_flush.simps [of c] send_frame_def split: if_splits)
  qed
qed

lemma send_frame_conn:
  fixes c c' :: conn
  assumes "send_frame c c'"
  shows "rnb c' = rnb c" "cid c' = cid c" "cstate c' = cstate c" "proto c' = proto c" "disc_cb c' = disc_cb c" "wscbs c' = wscbs c"
    "c_http_requests c' = c_http_requests c"
  using assms by (cases c, cases c', simp add: send_frame_def)+

lemma serving_conn:
  assumes S: "serving env n w" and c: "conns w i = Some c"
    and w': "whttp w' = whttp w" "conns w' = conns w" and ok: "conns_ok (put_conn w' c')"
    and same: "cid c' = cid c" "proto c' = proto c" "disc_cb c' = disc_cb c" "rnb c' = rnb c" "c_http_requests c' = c_http_requests c"
    and send: "send_ok c \<Longrightarrow> send_ok c'"
  shows "serving env n (put_conn w' c')"
proof -
  have i: "cid c = i" using conns_okD(1) [OF servingD(2) [OF S] c] .
  have "owns (whttp w) x" if "conns (put_conn w' c') j = Some x" for j x
    using that servingD(6) [OF S] c i same(1,5) w' by (cases "j = i") (auto simp: owns_def)
  then have "worker_ok (put_conn w' c')" using ok servingD(3) [OF S] w' by (simp add: worker_ok_def)
  moreover have "owner_ready (put_conn w' c') req" if "owner_ready w req" for req
    using that c i same send w' by (cases "rq_owner req = i") (auto simp: owner_ready_def)
  moreover have "dom (conns w) \<subseteq> dom (conns (put_conn w' c'))" using w' by auto
  ultimately show ?thesis
    using servingD(4,5) [OF S] servingD(7,8) [OF S] w' unfolding serving_def by fastforce
qed

lemma disconnect_plain:
  assumes "conns_ok (put_conn w c)" "\<not> disc_cb c"
  shows "\<exists>w'. kore_connection_disconnect env w c = Inr (w', c\<lparr>cstate := CONN_STATE_DISCONNECTING\<rparr>) \<and>
    conns_ok (put_conn w' (c\<lparr>cstate := CONN_STATE_DISCONNECTING\<rparr>)) \<and> whttp w' = whttp w \<and> conns w' = conns w"
proof (cases "cstate c = CONN_STATE_DISCONNECTING")
  case True
  then have e: "c\<lparr>cstate := CONN_STATE_DISCONNECTING\<rparr> = c" by (cases c) simp
  have "kore_connection_disconnect env w c = Inr (w, c)" using True by (simp add: kore_connection_disconnect_def)
  then show ?thesis unfolding e using assms(1) by blast
next
  case False
  let ?c = "c\<lparr>cstate := CONN_STATE_DISCONNECTING\<rparr>"
  let ?w = "w\<lparr>connections := remove1 (cid c) (connections w), disconnected_list := disconnected_list w @ [cid c]\<rparr>"
  have e: "?c\<lparr>cstate := cstate c\<rparr> = c" by (cases c) simp
  have ok: "conns_ok (put_conn w (?c\<lparr>cstate := cstate c\<rparr>))" using assms(1) e by simp
  have mv: "cid ?c \<in> set (connections w)" "conns_ok (put_conn ?w ?c)"
    by (rule conns_ok_move [OF ok False]; simp)+
  then show ?thesis using False assms(2) by (simp add: kore_connection_disconnect_def tailq_remove_def)
qed

lemma flush_owner_ok:
  assumes S: "serving env n w" and rdy: "owner_ready w req"
  shows "\<exists>x. flush_owner (s_kore env) script req w = Inr x \<and>
    (\<forall>w'. x = Some w' \<longrightarrow> serving env n w' \<and> whttp w' = whttp w)"
proof -
  obtain c where c: "conns w (rq_owner req) = Some c" "\<not> disc_cb c" "send_ok c" using rdy by (auto simp: owner_ready_def)
  let ?c = "c\<lparr>disconnected := False\<rparr>"
  have i: "cid c = rq_owner req" using conns_okD(1) [OF servingD(2) [OF S] c(1)] .
  have pc: "put_conn w c = w" using c(1) i by (simp add: put_conn_id)
  have "send_ok ?c" using c(3) by (simp add: send_ok_def)
  from net_send_flush_ok [OF this, of script] obtain x where
    x: "net_send_flush ?c script = Inr x" "\<And>res c'. x = Some (res, c') \<Longrightarrow> send_ok c'" by auto
  show ?thesis
  proof (cases x)
    case None
    then show ?thesis using x(1) c(1) by (simp add: flush_owner_def conn_send_flush_def)
  next
    case (Some y)
    obtain res c1 where y: "y = (res, c1)" by (cases y)
    have fr: "send_frame ?c c1" using net_send_flush_frame [of ?c script res c1] x(1) Some y by simp
    have f: "rnb c1 = rnb c" "cid c1 = cid c" "cstate c1 = cstate c" "proto c1 = proto c" "disc_cb c1 = disc_cb c"
        "wscbs c1 = wscbs c" "c_http_requests c1 = c_http_requests c"
      using send_frame_conn [OF fr] by simp_all
    have s1: "send_ok c1" using x(2) Some y by simp
    have ok: "conns_ok (put_conn w c1)"
      by (rule conns_ok_put [of w c]) (use pc servingD(2) [OF S] f c(2) in simp_all)
    obtain w2 where w2: "kore_connection_disconnect (s_kore env) w c1 = Inr (w2, c1\<lparr>cstate := CONN_STATE_DISCONNECTING\<rparr>)"
        "conns_ok (put_conn w2 (c1\<lparr>cstate := CONN_STATE_DISCONNECTING\<rparr>))" "whttp w2 = whttp w" "conns w2 = conns w"
      using disconnect_plain [OF ok, of "s_kore env"] f(5) c(2) by auto
    have again: "kore_connection_disconnect (s_kore env) w2 (c1\<lparr>cstate := CONN_STATE_DISCONNECTING\<rparr>) =
        Inr (w2, c1\<lparr>cstate := CONN_STATE_DISCONNECTING\<rparr>)" by (simp add: kore_connection_disconnect_def)
    have sd: "serving env n (put_conn w2 (c1\<lparr>cstate := CONN_STATE_DISCONNECTING\<rparr>))"
      by (rule serving_conn [OF S c(1) w2(3,4,2)]) (use f s1 in \<open>auto simp: send_ok_def\<close>)
    have sk: "serving env n (put_conn w c1)"
      by (rule serving_conn [OF S c(1) refl refl ok]) (use f s1 in auto)
    show ?thesis
      using x(1) Some y c(1) w2(1,3) again sd sk by (auto simp: flush_owner_def conn_send_flush_def)
  qed
qed

lemma disconnect_owner_ok:
  assumes S: "serving env n w" and rdy: "owner_ready w req"
  shows "\<exists>w'. on_owner w req (\<lambda>w c. rbind (kore_connection_disconnect (s_kore env) w c) (\<lambda>(w1, c1). Inr ((), w1, c1))) = Inr ((), w') \<and>
    serving env n w' \<and> whttp w' = whttp w"
proof -
  obtain c where c: "conns w (rq_owner req) = Some c" "\<not> disc_cb c" using rdy by (auto simp: owner_ready_def)
  have "put_conn w c = w" using c(1) conns_okD(1) [OF servingD(2) [OF S] c(1)] by (simp add: put_conn_id)
  then obtain w2 where w2: "kore_connection_disconnect (s_kore env) w c = Inr (w2, c\<lparr>cstate := CONN_STATE_DISCONNECTING\<rparr>)"
      "conns_ok (put_conn w2 (c\<lparr>cstate := CONN_STATE_DISCONNECTING\<rparr>))" "whttp w2 = whttp w" "conns w2 = conns w"
    using disconnect_plain [of w c "s_kore env"] servingD(2) [OF S] c(2) by auto
  have "serving env n (put_conn w2 (c\<lparr>cstate := CONN_STATE_DISCONNECTING\<rparr>))"
    by (rule serving_conn [OF S c(1) w2(3,4,2)]) (auto simp: send_ok_def)
  then show ?thesis using c(1) w2(1,3) by (simp add: on_owner_def)
qed

section \<open>Freeing a request keeps it\<close>

lemma serving_user [simp]: "serving env n (w\<lparr>user := u\<rparr>) = serving env n w"
  by (simp add: serving_def worker_ok_def conns_ok_def conn_ok_def owner_ready_def)

lemma http_ok_free:
  assumes "http_ok h" "r \<in> set (http_requests h)"
  shows "http_ok (h\<lparr>http_requests := remove1 r (http_requests h), reqs := (reqs h)(r := None),
    http_request_count := http_request_count h - 1\<rparr>)"
proof -
  have d: "distinct (http_requests h)" "distinct (http_requests_sleeping h)" "set (http_requests h) \<inter> set (http_requests_sleeping h) = {}"
    using assms(1) by (auto simp: http_ok_def)
  have l: "int (length (remove1 r (http_requests h))) = int (length (http_requests h)) - 1"
    using length_remove1 [of r "http_requests h"] assms(2) by (cases "http_requests h") (simp_all del: remove1.simps)
  have "set (remove1 r (http_requests h)) \<union> set (http_requests_sleeping h) = dom ((reqs h)(r := None))"
    using assms d by (auto simp: http_ok_def)
  then show ?thesis using assms d l by (auto simp: http_ok_def)
qed

lemma owns_free:
  assumes "owns h c" "reqs h r = Some req"
  shows "owns (h\<lparr>http_requests := rs, reqs := (reqs h)(r := None), http_request_count := k\<rparr>)
    (c\<lparr>c_http_requests := remove1 r (c_http_requests c)\<rparr>)"
  using assms by (auto simp: owns_def)

lemma http_request_free_ok:
  assumes S: "serving env n (sw s)" and r: "reqs (whttp (sw s)) r = Some req" "r \<in> set (http_requests (whttp (sw s)))"
    and extra: "\<And>p w. \<exists>u. s_free_extra env p r w = Inr (w\<lparr>user := u\<rparr>)"
  shows "\<exists>s'. http_request_free env r s = Inr s' \<and> serving env n (sw s') \<and> reqs (whttp (sw s')) = (reqs (whttp (sw s)))(r := None) \<and>
    http_requests (whttp (sw s')) = remove1 r (http_requests (whttp (sw s)))"
proof -
  let ?w = "sw s" let ?h = "whttp ?w" let ?i = "rq_owner req"
  obtain c where c: "conns ?w ?i = Some c" using servingD(7) [OF S r(1)] by blast
  have cid: "cid c = ?i" using conns_okD(1) [OF servingD(2) [OF S] c] .
  have own: "owns ?h c" using servingD(6) [OF S c] .
  then have m: "r \<in> set (c_http_requests c)" using r(1) cid by (auto simp: owns_def)
  let ?c = "c\<lparr>c_http_requests := remove1 r (c_http_requests c)\<rparr>"
  let ?h' = "?h\<lparr>http_requests := remove1 r (http_requests ?h), reqs := (reqs ?h)(r := None), http_request_count := http_request_count ?h - 1\<rparr>"
  let ?w' = "(put_conn ?w ?c)\<lparr>whttp := ?h'\<rparr>"
  have pc: "put_conn ?w c = ?w" using c cid by (simp add: put_conn_id)
  have "conns_ok (put_conn ?w ?c)"
    by (rule conns_ok_put [of ?w c]) (use pc servingD(2) [OF S] conns_okD(3) [OF servingD(2) [OF S] c] in simp_all)
  moreover have "owns ?h' x" if "conns (put_conn ?w ?c) j = Some x" for j x
  proof (cases "j = ?i")
    case True
    then show ?thesis using that owns_free [OF own r(1)] cid by simp
  next
    case False
    then have x: "conns ?w j = Some x" using that cid by simp
    then have "cid x = j" using conns_okD(1) [OF servingD(2) [OF S]] by blast
    then show ?thesis using servingD(6) [OF S x] r(1) False by (auto simp: owns_def)
  qed
  ultimately have "worker_ok ?w'" using http_ok_free [OF servingD(3) [OF S] r(2)] by (simp add: worker_ok_def)
  moreover have "owner_ready ?w' q" if "owner_ready ?w q" for q
    using that c cid by (cases "rq_owner q = ?i") (auto simp: owner_ready_def send_ok_def)
  ultimately have S': "serving env n ?w'"
    using servingD(4,5) [OF S] servingD(7,8) [OF S] unfolding serving_def by (auto split: if_splits)
  obtain u where u: "(case rq_hdlr_extra req of
      Some p \<Rightarrow> if rq_retain_extra req then Inr (put_conn (?w\<lparr>whttp := ?h\<lparr>http_requests := remove1 r (http_requests ?h)\<rparr>\<rparr>) ?c)
        else s_free_extra env p r (put_conn (?w\<lparr>whttp := ?h\<lparr>http_requests := remove1 r (http_requests ?h)\<rparr>\<rparr>) ?c)
    | None \<Rightarrow> Inr (put_conn (?w\<lparr>whttp := ?h\<lparr>http_requests := remove1 r (http_requests ?h)\<rparr>\<rparr>) ?c)) =
    Inr ((put_conn (?w\<lparr>whttp := ?h\<lparr>http_requests := remove1 r (http_requests ?h)\<rparr>\<rparr>) ?c)\<lparr>user := u\<rparr>)"
  proof (cases "rq_hdlr_extra req = None \<or> rq_retain_extra req")
    case True
    then show thesis using that [of "user ?w"] by (auto simp: put_conn_def split: option.splits)
  next
    case False
    then obtain p where "rq_hdlr_extra req = Some p" "\<not> rq_retain_extra req" by auto
    then show thesis using that extra [of p] by auto
  qed
  let ?s = "s\<lparr>sw := ?w'\<lparr>user := u\<rparr>, unlinked := unlinked s @ (case http_body_path req of Some p \<Rightarrow> [p] | None \<Rightarrow> [])\<rparr>"
  have "http_request_free env r s = Inr ?s"
    using r c m by (simp add: http_request_free_def tailq_remove_def on_owner_def Let_def u) (simp add: put_conn_def)
  then show ?thesis using S' by (intro exI [of _ ?s]) simp
qed

section \<open>Page handlers as an interface\<close>

text \<open>Serving one request: the list of waiting requests loses at most this one, the others are not touched.\<close>

definition served :: "nat \<Rightarrow> http \<Rightarrow> http \<Rightarrow> bool" where
  "served r h h' \<longleftrightarrow> (http_requests h' = http_requests h \<or> http_requests h' = remove1 r (http_requests h)) \<and>
     (\<forall>q. q \<noteq> r \<longrightarrow> reqs h' q = reqs h q)"

text \<open>A flush whose script ends before the queue is empty.\<close>

definition unfinished :: "'u server_env \<Rightarrow> wres list \<Rightarrow> bool" where
  "unfinished env script \<longleftrightarrow> (\<exists>req w. flush_owner (s_kore env) script req w = Inr None)"

text \<open>What the server relies on: a handler (with the authentication in front of it) returns one of the three results, keeps the
  invariant and leaves other requests alone; freeing the data of a handler changes only the state of the application.\<close>

locale page_client =
  fixes env :: "'u server_env"
  assumes handler: "serving env (Suc n) w \<Longrightarrow> reqs (whttp w) r = Some req \<Longrightarrow> \<not> rq_delete req \<Longrightarrow> rq_complete req \<Longrightarrow>
      \<not> rq_sleeping req \<Longrightarrow> hdlrs (s_tab env) (rq_hdlr req) = Some hdlr \<Longrightarrow> req0 = req\<lparr>rq_start := rq_start req0\<rparr> \<Longrightarrow>
      \<exists>ret w'. run_handler env r req0 hdlr w = Inr (ret, w') \<and> ret \<in> {KORE_RESULT_OK, KORE_RESULT_ERROR, KORE_RESULT_RETRY} \<and>
        serving env n w' \<and> keeps r w w'"
    and free_extra: "\<exists>u. s_free_extra env p r w = Inr (w\<lparr>user := u\<rparr>)"
begin

lemma finish_request_ok:
  assumes "serving env n (sw s)" "reqs (whttp (sw s)) r = Some req" "doms (s_tab env) (h_dom hdlr) \<noteq> None"
  shows "\<exists>s'. finish_request env r hdlr s = Inr s' \<and> serving env n (sw s') \<and> whttp (sw s') = set_req (whttp (sw s)) r (req\<lparr>rq_delete := True\<rparr>)"
proof -
  have "serving env n (put_req (sw s) r (req\<lparr>rq_delete := True\<rparr>))" by (rule serving_put_req [OF assms(1,2)]) simp_all
  then show ?thesis using assms(2,3) by (auto simp: finish_request_def Let_def split: option.splits)
qed

lemma process_request_ok:
  assumes S: "serving env (Suc n) (sw s)" and r: "reqs (whttp (sw s)) r = Some req" "\<not> rq_delete req" "rq_complete req" "\<not> rq_sleeping req"
  shows "\<exists>x. http_process_request env now1 now2 script r s = Inr x \<and> (x = None \<longrightarrow> unfinished env script) \<and>
    (\<forall>s'. x = Some s' \<longrightarrow> serving env n (sw s') \<and> served r (whttp (sw s)) (whttp (sw s')))"
proof -
  obtain hdlr where h: "hdlrs (s_tab env) (rq_hdlr req) = Some hdlr" "doms (s_tab env) (h_dom hdlr) \<noteq> None"
    using servingD(8) [OF S r(1,2)] by (auto simp: handler_known_def)
  let ?w1 = "put_req (sw s) r (req\<lparr>rq_start := now1\<rparr>)"
  have S1: "serving env (Suc n) ?w1" by (rule serving_put_req [OF S r(1)]) (simp_all add: r)
  have "req = (req\<lparr>rq_start := now1\<rparr>)\<lparr>rq_start := rq_start req\<rparr>" by simp
  then obtain ret w2 where w2: "run_handler env r req hdlr ?w1 = Inr (ret, w2)"
      "ret \<in> {KORE_RESULT_OK, KORE_RESULT_ERROR, KORE_RESULT_RETRY}" "serving env n w2" "keeps r ?w1 w2"
    using handler [OF S1, of r "req\<lparr>rq_start := now1\<rparr>" hdlr req] r h(1) by auto
  obtain req2 where req2: "reqs (whttp w2) r = Some req2" "\<not> rq_delete req2" using w2(4) r by (auto simp: keeps_def)
  let ?req3 = "req2\<lparr>rq_end := now2, rq_total := rq_total req2 + (now2 - rq_start req2)\<rparr>"
  let ?w3 = "put_req w2 r ?req3"
  have S3: "serving env n ?w3" by (rule serving_put_req [OF w2(3) req2(1)]) (simp_all add: req2)
  have rdy: "owner_ready ?w3 req2" using servingD(8) [OF S3, of r ?req3] req2(2) by (simp add: owner_ready_def)
  have sv: "served r (whttp (sw s)) h'" if "\<And>q. q \<noteq> r \<Longrightarrow> reqs h' q = reqs (whttp ?w3) q" "http_requests h' = http_requests (whttp ?w3)" for h'
    using w2(4) that by (auto simp: served_def keeps_def)
  have fin: "\<exists>s'. finish_request env r hdlr (s\<lparr>sw := w4\<rparr>) = Inr s' \<and> serving env n (sw s') \<and> served r (whttp (sw s)) (whttp (sw s'))"
    if "serving env n w4" "whttp w4 = whttp ?w3" for w4
    using finish_request_ok [of n "s\<lparr>sw := w4\<rparr>" r ?req3 hdlr] that h(2) sv by auto
  consider "ret = KORE_RESULT_OK" | "ret = KORE_RESULT_ERROR" | "ret = KORE_RESULT_RETRY" using w2(2) by auto
  then show ?thesis
  proof cases
    case 1
    obtain x where x: "flush_owner (s_kore env) script req2 ?w3 = Inr x"
        "\<And>w'. x = Some w' \<Longrightarrow> serving env n w' \<and> whttp w' = whttp ?w3"
      using flush_owner_ok [OF S3 rdy, of script] by blast
    show ?thesis
    proof (cases x)
      case None
      then have "unfinished env script" using x(1) unfolding unfinished_def by blast
      then show ?thesis using None r h(1) w2(1) req2(1) 1 x(1) by (simp add: http_process_request_def Let_def)
    next
      case (Some w4)
      then obtain s' where "finish_request env r hdlr (s\<lparr>sw := w4\<rparr>) = Inr s'" "serving env n (sw s')"
          "served r (whttp (sw s)) (whttp (sw s'))" using fin [of w4] x(2) by blast
      then show ?thesis using r h(1) w2(1) req2(1) 1 x(1) Some by (simp add: http_process_request_def Let_def)
    qed
  next
    case 2
    obtain w4 where w4: "on_owner ?w3 req2 (\<lambda>w c. rbind (kore_connection_disconnect (s_kore env) w c) (\<lambda>(w1, c1). Inr ((), w1, c1))) = Inr ((), w4)"
        "serving env n w4" "whttp w4 = whttp ?w3" using disconnect_owner_ok [OF S3 rdy] by blast
    then obtain s' where "finish_request env r hdlr (s\<lparr>sw := w4\<rparr>) = Inr s'" "serving env n (sw s')"
        "served r (whttp (sw s)) (whttp (sw s'))" using fin by blast
    then show ?thesis using r h(1) w2(1) req2(1) 2 w4(1) by (simp add: http_process_request_def Let_def)
  next
    case 3
    have "served r (whttp (sw s)) (whttp ?w3)" by (rule sv) simp_all
    then show ?thesis using r h(1) w2(1) req2(1) 3 S3 by (simp add: http_process_request_def Let_def)
  qed
qed

end

context page_client
begin

lemma process_step:
  assumes S: "serving env (Suc n) (sw s)" and l: "http_requests (whttp (sw s)) = xs @ r # rs"
    and cnt: "cnt < http_request_limit (e_http (s_kore env))"
  shows "\<exists>y. (\<forall>fuel. process_loop (Suc fuel) env run cnt (Some r) s =
      (case y of None \<Rightarrow> Inr None | Some (k, s1) \<Rightarrow> process_loop fuel env run k (tailq_first rs) s1)) \<and>
    (y = None \<longrightarrow> unfinished env (snd (snd (run r)))) \<and>
    (\<forall>k s1. y = Some (k, s1) \<longrightarrow> k \<le> Suc cnt \<and> serving env n (sw s1) \<and> (\<exists>ys. http_requests (whttp (sw s1)) = ys @ rs) \<and>
       (\<forall>q. q \<noteq> r \<longrightarrow> reqs (whttp (sw s1)) q = reqs (whttp (sw s)) q) \<and>
       (\<forall>req. reqs (whttp (sw s)) r = Some req \<longrightarrow> rq_delete req \<longrightarrow> reqs (whttp (sw s1)) r = None))"
proof -
  let ?h = "whttp (sw s)"
  have ok: "http_ok ?h" using servingD(3) [OF S] .
  have d: "r \<notin> set xs" "r \<notin> set rs" "r \<in> set (http_requests ?h)" using ok l by (auto simp: http_ok_def)
  have "r \<in> dom (reqs ?h)" using ok d(3) unfolding http_ok_def by blast
  then obtain req where req: "reqs ?h r = Some req" by blast
  have aw: "\<not> rq_sleeping req" using ok req d(3) by (auto simp: http_ok_def)
  have nxt: "req_next ?h r = tailq_first rs" using d l by (simp add: req_next_def tailq_next_append)
  have rem: "remove1 r (http_requests ?h) = xs @ rs" using d l by (simp add: remove1_append)
  have nl: "\<not> http_request_limit (e_http (s_kore env)) \<le> cnt" using cnt by simp
  consider "rq_delete req" | "\<not> rq_delete req" "\<not> rq_complete req" | "\<not> rq_delete req" "rq_complete req" by blast
  then show ?thesis
  proof cases
    case 1
    obtain s1 where s1: "http_request_free env r s = Inr s1" "serving env (Suc n) (sw s1)"
        "reqs (whttp (sw s1)) = (reqs ?h)(r := None)" "http_requests (whttp (sw s1)) = remove1 r (http_requests ?h)"
      using http_request_free_ok [OF S req d(3) free_extra] by blast
    then show ?thesis
      using 1 req nl nxt rem serving_down by (intro exI [of _ "Some (cnt, s1)"]) (auto simp: Let_def)
  next
    case 2
    then show ?thesis
      using req nl nxt aw serving_down [OF S] l
      by (intro exI [of _ "Some (cnt, s)"]) (auto simp: Let_def intro: exI [of _ "xs @ [r]"])
  next
    case 3
    obtain now1 now2 script where run: "run r = (now1, now2, script)" by (cases "run r")
    obtain x where x: "http_process_request env now1 now2 script r s = Inr x" "x = None \<longrightarrow> unfinished env script"
        "\<And>s'. x = Some s' \<Longrightarrow> serving env n (sw s') \<and> served r ?h (whttp (sw s'))"
      using process_request_ok [OF S req 3 aw] by blast
    show ?thesis
    proof (cases x)
      case None
      then show ?thesis using 3 req nl aw run x(1,2) by (intro exI [of _ None]) (auto simp: Let_def)
    next
      case (Some s1)
      then have s1: "serving env n (sw s1)" "served r ?h (whttp (sw s1))" using x(3) by auto
      then have "\<exists>ys. http_requests (whttp (sw s1)) = ys @ rs"
        using rem l by (auto simp: served_def intro: exI [of _ "xs @ [r]"])
      then show ?thesis
        using 3 req nl aw run x(1) Some s1 nxt by (intro exI [of _ "Some (Suc cnt, s1)"]) (auto simp: Let_def served_def)
    qed
  qed
qed

lemma process_loop_ok:
  assumes "serving env (length rs) (sw s)" "http_requests (whttp (sw s)) = xs @ rs" "length rs \<le> fuel"
  shows "\<exists>x. process_loop fuel env run cnt (tailq_first rs) s = Inr x \<and>
    (x = None \<longrightarrow> (\<exists>r \<in> set rs. unfinished env (snd (snd (run r))))) \<and>
    (\<forall>s'. x = Some s' \<longrightarrow> serving env 0 (sw s') \<and>
       (\<forall>q. q \<notin> set rs \<longrightarrow> reqs (whttp (sw s')) q = reqs (whttp (sw s)) q) \<and>
       (cnt + length rs \<le> http_request_limit (e_http (s_kore env)) \<longrightarrow>
          (\<forall>r \<in> set rs. \<forall>req. reqs (whttp (sw s)) r = Some req \<longrightarrow> rq_delete req \<longrightarrow> reqs (whttp (sw s')) r = None)))"
  using assms
proof (induction rs arbitrary: xs s fuel cnt)
  case Nil
  then show ?case by (simp add: tailq_first_def)
next
  case (Cons r rs)
  let ?lim = "http_request_limit (e_http (s_kore env))"
  obtain f where f: "fuel = Suc f" "length rs \<le> f" using Cons.prems(3) by (cases fuel) auto
  have S: "serving env (Suc (length rs)) (sw s)" using Cons.prems(1) by simp
  show ?case
  proof (cases "cnt < ?lim")
    case False
    have "serving env 0 (sw s)" using S unfolding serving_def by simp
    then show ?thesis using False f(1) by (auto simp: tailq_first_def)
  next
    case True
    obtain y where y: "process_loop (Suc f) env run cnt (Some r) s =
        (case y of None \<Rightarrow> Inr None | Some (k, s1) \<Rightarrow> process_loop f env run k (tailq_first rs) s1)"
      "y = None \<longrightarrow> unfinished env (snd (snd (run r)))"
      "\<And>k s1. y = Some (k, s1) \<Longrightarrow> k \<le> Suc cnt \<and> serving env (length rs) (sw s1) \<and> (\<exists>ys. http_requests (whttp (sw s1)) = ys @ rs) \<and>
         (\<forall>q. q \<noteq> r \<longrightarrow> reqs (whttp (sw s1)) q = reqs (whttp (sw s)) q) \<and>
         (\<forall>req. reqs (whttp (sw s)) r = Some req \<longrightarrow> rq_delete req \<longrightarrow> reqs (whttp (sw s1)) r = None)"
      using process_step [OF S Cons.prems(2) True, of run] by blast
    show ?thesis
    proof (cases y)
      case None
      then show ?thesis using y(1,2) f(1) by (simp add: tailq_first_def del: process_loop.simps)
    next
      case (Some ks)
      obtain k s1 where ks: "ks = (k, s1)" by (cases ks)
      note s1 = y(3) [OF Some [unfolded ks]]
      then obtain ys where ys: "http_requests (whttp (sw s1)) = ys @ rs" by blast
      have nr: "r \<notin> set rs" using servingD(3) [OF S] Cons.prems(2) by (auto simp: http_ok_def)
      obtain x where x: "process_loop f env run k (tailq_first rs) s1 = Inr x"
          "x = None \<longrightarrow> (\<exists>r \<in> set rs. unfinished env (snd (snd (run r))))"
          "\<And>s'. x = Some s' \<Longrightarrow> serving env 0 (sw s') \<and>
             (\<forall>q. q \<notin> set rs \<longrightarrow> reqs (whttp (sw s')) q = reqs (whttp (sw s1)) q) \<and>
             (k + length rs \<le> ?lim \<longrightarrow>
               (\<forall>r \<in> set rs. \<forall>req. reqs (whttp (sw s1)) r = Some req \<longrightarrow> rq_delete req \<longrightarrow> reqs (whttp (sw s')) r = None))"
        using Cons.IH [of s1 ys f k] s1 ys f(2) by blast
      have "process_loop fuel env run cnt (tailq_first (r # rs)) s = Inr x"
        using y(1) x(1) Some ks f(1) by (simp add: tailq_first_def del: process_loop.simps)
      moreover have "serving env 0 (sw s') \<and> (\<forall>q. q \<notin> set (r # rs) \<longrightarrow> reqs (whttp (sw s')) q = reqs (whttp (sw s)) q) \<and>
          (cnt + length (r # rs) \<le> ?lim \<longrightarrow>
            (\<forall>q \<in> set (r # rs). \<forall>req. reqs (whttp (sw s)) q = Some req \<longrightarrow> rq_delete req \<longrightarrow> reqs (whttp (sw s')) q = None))"
        if "x = Some s'" for s'
        using x(3) [OF that] s1 nr by (auto; metis)
      ultimately show ?thesis using x(2) by (intro exI [of _ x]) auto
    qed
  qed
qed

end

section \<open>Handlers that answer with a page\<close>

text \<open>A handler that answers with a status and a body, and a server whose handlers are of this kind and need no
  authentication. Nothing is allocated for a request.\<close>

definition static_page :: "http_env \<Rightarrow> int \<times> byte list \<Rightarrow> nat \<Rightarrow> 'u worker \<Rightarrow> (int \<times> 'u worker) res" where
  "static_page henv p r w =
     (case reqs (whttp w) r of
        None \<Rightarrow> Inl Null_deref
      | Some req \<Rightarrow> on_owner w req (\<lambda>w1 c.
          rbind (http_response henv (whttp w1) c r (fst p) (Some (snd p)) (length (snd p)))
            (\<lambda>(h, c1). Inr (KORE_RESULT_OK, w1\<lparr>whttp := h\<rparr>, c1))))"

definition page_fits :: "int \<times> byte list \<Rightarrow> bool" where
  "page_fits p \<longleftrightarrow> 0 \<le> fst p \<and> fst p < 1000 \<and> length (snd p) < 2 ^ 32"

lemma response_lines_bound:
  assumes "http_env_ok env" "http_keepalive_time env < 2 ^ 16" "small_response req" "0 \<le> status" "status < 1000" "len < 2 ^ 32"
  shows "\<forall>l \<in> set (response_lines env (Some req) c status len). length l < BUFSIZ"
    "length (response_text env (Some req) c status len) < 2 ^ 20"
proof -
  have d1: "length (dec_int status) \<le> 3" using assms(4,5) length_dec_nat [of "nat status" 3] by (simp add: dec_int_def)
  have d2: "length (dec_nat (http_hsts_enable env)) \<le> 20"
    using assms(1) length_dec_nat [of "http_hsts_enable env" 20] by (simp add: http_env_ok_def)
  have d3: "length (dec_nat (http_keepalive_time env)) \<le> 5" using assms(2) length_dec_nat [of "http_keepalive_time env" 5] by simp
  have d4: "length (dec_nat len) \<le> 10" using assms(6) length_dec_nat [of len 10] by simp
  note t = length_status_text [of status]
  have h: "\<forall>hdr \<in> set (resp_headers req). length (header_line hdr) < BUFSIZ"
      "length (concat (map header_line (resp_headers req))) < 2 ^ 19" using assms(3) by (auto simp: small_response_def)
  let ?k = "keepalive_lines env (http_keepalive_time env \<noteq> 0 \<and> \<not> connection_close (Some req) c)"
  have k: "length (concat ?k) \<le> 100" "\<forall>l \<in> set ?k. length l \<le> 100" using d3 by (auto simp: keepalive_lines_def bs_def CRLF_def)
  have s: "length (concat (hsts_lines env)) \<le> 100" "\<forall>l \<in> set (hsts_lines env). length l \<le> 100"
    using d2 by (auto simp: hsts_lines_def bs_def CRLF_def)
  have l: "length (concat (length_lines (Some req) status len)) \<le> 100" "\<forall>l \<in> set (length_lines (Some req) status len). length l \<le> 100"
    using d4 by (auto simp: length_lines_def bs_def CRLF_def)
  have z: "length (bs ''HTTP/1.1 '' @ dec_int status @ bs '' '' @ http_status_text status @ CRLF) \<le> 100"
    using d1 t by (simp add: bs_def CRLF_def)
  have B: "(100 :: nat) < BUFSIZ" by (simp add: BUFSIZ_def)
  show "\<forall>l \<in> set (response_lines env (Some req) c status len). length l < BUFSIZ"
  proof
    fix x assume "x \<in> set (response_lines env (Some req) c status len)"
    then consider "x = bs ''HTTP/1.1 '' @ dec_int status @ bs '' '' @ http_status_text status @ CRLF" | "x \<in> set ?k"
      | "x \<in> set (hsts_lines env)" | hdr where "hdr \<in> set (resp_headers req)" "x = header_line hdr" | "x \<in> set (length_lines (Some req) status len)"
      by (auto simp: response_lines_def split: if_splits)
    then show "length x < BUFSIZ"
    proof cases
      case 1
      then show ?thesis using z B by simp
    next
      case 2
      then show ?thesis using k(2) B by force
    next
      case 3
      then show ?thesis using s(2) B by force
    next
      case (4 hdr)
      then show ?thesis using h(1) by simp
    next
      case 5
      then show ?thesis using l(2) B by force
    qed
  qed
  show "length (response_text env (Some req) c status len) < 2 ^ 20"
    using z k(1) s(1) l(1) h(2) unfolding response_text_def response_lines_def by (simp add: CRLF_def)
qed

lemma static_page_ok:
  assumes S: "serving env (Suc n) w" and r: "reqs (whttp w) r = Some req" "\<not> rq_delete req"
    and henv: "http_env_ok henv" "http_keepalive_time henv < 2 ^ 16" and p: "page_fits p"
  shows "\<exists>w'. static_page henv p r w = Inr (KORE_RESULT_OK, w') \<and> serving env n w' \<and> keeps r w w'"
proof -
  let ?h = "whttp w" let ?st = "fst p" let ?d = "snd p"
  obtain c nb where c: "conns w (rq_owner req) = Some c" "proto c = CONN_PROTO_HTTP" "\<not> disc_cb c" "send_ok c"
      "rnb c = Some nb" "nb_type nb = NETBUF_RECV" and small: "small_response req"
    using servingD(8) [OF S r] by (auto simp: owner_ready_def)
  have i: "cid c = rq_owner req" using conns_okD(1) [OF servingD(2) [OF S] c(1)] .
  let ?req = "req\<lparr>rq_status := ?st mod 2 ^ 16\<rparr>"
  note st = p [unfolded page_fits_def]
  note b = response_lines_bound [OF henv small, of ?st "length ?d" c]
  have room: "blength (header_buf ?h) + (2 ^ 20 + n * 2 ^ 20) < 2 ^ 64" using servingD(5) [OF S] by simp
  have "response_ok henv (header_buf ?h) (Some ?req) c ?st (Some ?d) (length ?d)"
    unfolding response_ok_def response_ignores_status
  proof (intro conjI)
    show "\<forall>l \<in> set (response_lines henv (Some req) c ?st (length ?d)). length l < BUFSIZ" using b(1) st by blast
    have t: "length (response_text henv (Some req) c ?st (length ?d)) < 2 ^ 20" using b(2) st by blast
    show "length (response_text henv (Some req) c ?st (length ?d)) < 2 ^ 32" using t by simp
    show "blength (header_buf ?h) + length (response_text henv (Some req) c ?st (length ?d)) < 2 ^ 64" using t room by linarith
  qed (use st servingD(4) [OF S] c henv in \<open>auto simp: http_env_ok_def\<close>)
  from http_response_normal_ok [OF this, where n = "n * 2 ^ 20"] obtain hb c' nb' where
    n: "http_response_normal henv (header_buf ?h) (Some ?req) c ?st (Some ?d) (length ?d) = Inr (hb, c')" "buf_ok hb" "send_ok c'"
      "same_conn c c'" "rnb c' = Some nb'" "nb_type nb' = NETBUF_RECV" "blength hb + n * 2 ^ 20 < 2 ^ 64"
    using b(2) st room unfolding response_ignores_status by auto
  let ?h' = "(set_req ?h r ?req)\<lparr>header_buf := hb\<rparr>"
  let ?w' = "put_conn (w\<lparr>whttp := ?h'\<rparr>) c'"
  have sc: "cid c' = cid c" "proto c' = proto c" "cstate c' = cstate c" "c_http_requests c' = c_http_requests c" "disc_cb c' = disc_cb c" "wscbs c' = wscbs c"
    using n(4) by (auto simp: same_conn_def)
  have run: "static_page henv p r w = Inr (KORE_RESULT_OK, ?w')"
    using r c n(1) by (simp add: static_page_def on_owner_def http_response_def Let_def set_req_def)
  have pc: "put_conn w c = w" using c(1) i by (simp add: put_conn_id)
  have "conns_ok (put_conn w c')"
    by (rule conns_ok_put [of w c]) (use pc servingD(2) [OF S] sc c(3) in simp_all)
  moreover have "?w' = (put_conn w c')\<lparr>whttp := ?h'\<rparr>" by (simp add: put_conn_def)
  ultimately have cok: "conns_ok ?w'" by simp
  have hok: "http_ok ?h'" using http_ok_set_req [OF servingD(3) [OF S] r(1), of ?req] by (simp add: http_ok_def)
  have own: "owns ?h' x" if x: "conns ?w' j = Some x" for j x
  proof -
    obtain y where y: "conns w j = Some y" "cid x = cid y" "c_http_requests x = c_http_requests y"
      using x c(1) i sc by (cases "j = rq_owner req") auto
    have "owns (set_req ?h r ?req) y" using owns_set_req [OF servingD(6) [OF S y(1)] r(1), of ?req] by simp
    then show ?thesis using y by (simp add: owns_def)
  qed
  have rdy: "owner_ready ?w' q" if "owner_ready w q" for q
    using that c i sc n by (cases "rq_owner q = rq_owner req") (auto simp: owner_ready_def)
  have "rq_owner q' \<in> dom (conns ?w') \<and> (\<not> rq_delete q' \<longrightarrow> owner_ready ?w' q' \<and> small_response q' \<and> handler_known env q')"
    if q: "reqs (whttp ?w') q = Some q'" for q q'
  proof (cases "q = r")
    case True
    then have q': "q' = ?req" using q by simp
    have "owner_ready ?w' req" using rdy servingD(8) [OF S r] by blast
    then have o: "owner_ready ?w' ?req" by (simp add: owner_ready_def)
    have "small_response ?req" "handler_known env ?req" using servingD(8) [OF S r] by (simp_all add: small_response_def handler_known_def)
    then show ?thesis unfolding q' using c(1) o by auto
  next
    case False
    then have q': "reqs ?h q = Some q'" using q by simp
    show ?thesis using servingD(7) [OF S q'] servingD(8) [OF S q'] rdy by auto
  qed
  then have "serving env n ?w'" using cok hok own n(2,7) unfolding serving_def worker_ok_def by simp
  moreover have "keeps r w ?w'" using r by (simp add: keeps_def)
  ultimately show ?thesis using run by blast
qed

text \<open>Servers all of whose handlers are pages form instances of the interface.\<close>

definition page_server :: "(nat \<Rightarrow> int \<times> byte list) \<Rightarrow> 'u server_env \<Rightarrow> bool" where
  "page_server pages env \<longleftrightarrow> s_page env = (\<lambda>a. static_page (e_http (s_kore env)) (pages a)) \<and> s_free_extra env = (\<lambda>p r. Inr) \<and>
     http_env_ok (e_http (s_kore env)) \<and> http_keepalive_time (e_http (s_kore env)) < 2 ^ 16 \<and>
     (\<forall>a. page_fits (pages a)) \<and> (\<forall>x hdlr. hdlrs (s_tab env) x = Some hdlr \<longrightarrow> h_auth hdlr = None)"

lemma page_server_client:
  assumes "page_server pages env"
  shows "page_client env"
proof
  fix n w r req hdlr req0
  assume S: "serving env (Suc n) w" and r: "reqs (whttp w) r = Some req" "\<not> rq_delete req" and h: "hdlrs (s_tab env) (rq_hdlr req) = Some hdlr"
  have p: "s_page env = (\<lambda>a. static_page (e_http (s_kore env)) (pages a))" "h_auth hdlr = None" "page_fits (pages (h_addr hdlr))"
      "http_env_ok (e_http (s_kore env))" "http_keepalive_time (e_http (s_kore env)) < 2 ^ 16"
    using assms h by (auto simp: page_server_def)
  obtain w' where "static_page (e_http (s_kore env)) (pages (h_addr hdlr)) r w = Inr (KORE_RESULT_OK, w')" "serving env n w'" "keeps r w w'"
    using static_page_ok [OF S r p(4,5,3)] by blast
  then show "\<exists>ret w'. run_handler env r req0 hdlr w = Inr (ret, w') \<and> ret \<in> {KORE_RESULT_OK, KORE_RESULT_ERROR, KORE_RESULT_RETRY} \<and>
        serving env n w' \<and> keeps r w w'"
    using p(1,2) by (simp add: run_handler_def)
next
  fix p r w
  show "\<exists>u. s_free_extra env p r w = Inr (w\<lparr>user := u\<rparr>)"
    using assms by (intro exI [of _ "user w"]) (simp add: page_server_def)
qed

text \<open>The server of \<open>site_tab\<close>: one domain with one handler, which answers with a short page; the settings are those of
  \<open>http.h\<close>.\<close>

definition site_find :: "byte list \<Rightarrow> byte list \<Rightarrow> nat option" where
  "site_find domain path = (case module_handler_find site_menv site_tab domain path of Inr x \<Rightarrow> x | Inl _ \<Rightarrow> None)"

definition site_kenv :: "nat kore_env" where
  "site_kenv = plain_kenv\<lparr>e_http := http_default_env site_find\<rparr>"

definition site_pages :: "nat \<Rightarrow> int \<times> byte list" where
  "site_pages a = (if a = 7 then (200, bs ''welcome'') else (404, []))"

definition site_env :: "nat server_env" where
  "site_env = \<lparr>s_kore = site_kenv, s_mod = site_menv, s_tab = site_tab,
     s_page = (\<lambda>a. static_page (http_default_env site_find) (site_pages a)), s_free_extra = (\<lambda>p r. Inr),
     s_worker_id = 1, s_worker_cpu = 0, worker_max_connections = 512, worker_accept_threshold = 0\<rparr>"

lemma site_page_server: "page_server site_pages site_env"
  unfolding page_server_def
  by (auto simp: site_env_def site_kenv_def http_default_env_def http_env_ok_def site_pages_def page_fits_def site_tab_def bs_def
      split: if_splits)

interpretation site: page_client site_env
  by (rule page_server_client [OF site_page_server])

section \<open>Properties\<close>

text \<open>(C22) Serving: when the invariant holds and the handlers keep their contract, \<open>http_process\<close> with fuel for the waiting
  requests touches no freed object and trips no check, keeps the invariant and leaves requests that do not wait alone.
  It frees all requests marked for deletion unless it reaches the limit of requests per turn. It is without result only
  when a flush goes on beyond its script.\<close>

theorem http_process_safe:
  assumes "page_client env" and "serving env (length (http_requests (whttp (sw s)))) (sw s)"
    and "length (http_requests (whttp (sw s))) \<le> fuel"
  shows "\<exists>x. http_process fuel env run s = Inr x \<and>
    (x = None \<longrightarrow> (\<exists>r \<in> set (http_requests (whttp (sw s))). unfinished env (snd (snd (run r))))) \<and>
    (\<forall>s'. x = Some s' \<longrightarrow> serving env 0 (sw s') \<and>
       (\<forall>q. q \<notin> set (http_requests (whttp (sw s))) \<longrightarrow> reqs (whttp (sw s')) q = reqs (whttp (sw s)) q) \<and>
       (length (http_requests (whttp (sw s))) \<le> http_request_limit (e_http (s_kore env)) \<longrightarrow>
          (\<forall>r \<in> set (http_requests (whttp (sw s))). \<forall>req. reqs (whttp (sw s)) r = Some req \<longrightarrow> rq_delete req \<longrightarrow>
             reqs (whttp (sw s')) r = None)))"
  using page_client.process_loop_ok [OF assms(1,2), of "[]" fuel run 0] assms(3) by (simp add: http_process_def)

text \<open>(C23) A request outlives its connection: when the client of the only request disconnects, the clean-up at the end of the
  turn frees the connection and marks the request, and the next \<open>http_process\<close> frees the request through its pointer to
  the freed connection. \<open>kore_connection_remove\<close> leaves that pointer in place.\<close>

theorem http_process_dangling_owner:
  assumes "worker_ok w" "disconnected_list w = [i]" "conns w i = Some c" "c_http_requests c = [r]" "dom (reqs (whttp w)) = {r}"
    and "0 < http_request_limit (e_http (s_kore env))"
  shows "\<exists>w'. kore_connection_prune fuel (s_kore env) scripts False w = Inr (Some w') \<and>
    http_process (Suc fuel) env run \<lparr>sw = w', log_packets = ps, unlinked = us\<rparr> = Inl Use_after_free"
proof -
  obtain w' where w': "prune_remove [i] w = Inr w'" "worker_ok w'" "\<And>j. conns w' j = (if j \<in> set [i] then None else conns w j)"
      "\<And>q. reqs (whttp w') q = (if \<exists>j \<in> set [i]. q \<in> set (c_http_requests (the (conns w j)))
         then map_option dropped (reqs (whttp w) q) else reqs (whttp w) q)"
    using prune_remove_ok [OF assms(1,2)] by blast
  obtain req where req: "reqs (whttp w) r = Some req" using assms(5) by auto
  have "cid c = i" "owns (whttp w) c" using assms(1,3) conns_okD(1) [OF _ assms(3)] by (auto simp: worker_ok_def)
  then have own: "rq_owner req = i" using req assms(4) unfolding owns_def by force
  have r': "reqs (whttp w') r = Some (dropped req)" using w'(4) [of r] assms(3,4) req by simp
  have "dom (reqs (whttp w')) = {r}"
  proof -
    have "reqs (whttp w') q = None" if "q \<noteq> r" for q using w'(4) [of q] assms(3-5) that by auto
    then have "q = r" if "reqs (whttp w') q = Some y" for q y using that by force
    then show ?thesis using r' by blast
  qed
  moreover have ok: "http_ok (whttp w')" using w'(2) by (simp add: worker_ok_def)
  moreover have "r \<notin> set (http_requests_sleeping (whttp w'))"
  proof -
    have "rq_sleeping (dropped req) = (r \<in> set (http_requests_sleeping (whttp w')))" using ok r' unfolding http_ok_def by blast
    then show ?thesis by (simp add: dropped_def)
  qed
  ultimately have "set (http_requests (whttp w')) = {r}" "distinct (http_requests (whttp w'))" by (auto simp: http_ok_def)
  then have l: "http_requests (whttp w') = [r]" by (cases "http_requests (whttp w')" rule: remdups_adj.cases) auto
  have "conns w' i = None" using w'(3) by simp
  then have "http_process (Suc fuel) env run \<lparr>sw = w', log_packets = ps, unlinked = us\<rparr> = Inl Use_after_free"
    using l r' assms(6) own
    by (simp add: http_process_def tailq_first_def Let_def dropped_def http_request_free_def tailq_remove_def on_owner_def)
  moreover have "kore_connection_prune fuel (s_kore env) scripts False w = Inr (Some w')"
    using w'(1) assms(2) by (simp add: kore_connection_prune_def)
  ultimately show ?thesis by blast
qed

text \<open>A worker with one connection whose request for the page is complete.\<close>

definition site_request :: http_request where
  "site_request = blank_request\<lparr>rq_complete := True, rq_owner := 3, rq_hdlr := 2, rq_host := bs ''site'', rq_path := bs ''/''\<rparr>"

definition site_worker :: "nat worker" where
  "site_worker = \<lparr>whttp = \<lparr>reqs = [5 \<mapsto> site_request, 6 \<mapsto> site_request\<lparr>rq_delete := True\<rparr>], http_requests = [5, 6],
       http_requests_sleeping = [], http_request_count = 2, header_buf = header_buf test_http\<rparr>,
     conns = [3 \<mapsto> test_conn\<lparr>c_http_requests := [5, 6]\<rparr>],
     connections = [3], disconnected_list = [], worker_active_connections = 1, streams_freed = [], user = 0\<rparr>"

lemma site_worker_serving: "serving site_env 2 site_worker"
  unfolding serving_def worker_ok_def
proof (intro conjI)
  show "conns_ok site_worker" by (auto simp: conns_ok_def conn_ok_def site_worker_def test_conn_def split: if_splits)
  show "http_ok (whttp site_worker)"
    by (auto simp: http_ok_def site_worker_def site_request_def blank_request_def split: if_splits)
  show "\<forall>i c. conns site_worker i = Some c \<longrightarrow> owns (whttp site_worker) c"
    by (auto simp: owns_def site_worker_def test_conn_def site_request_def split: if_splits)
  show "buf_ok (header_buf (whttp site_worker))" "blength (header_buf (whttp site_worker)) + 2 * 2 ^ 20 < 2 ^ 64"
    by (simp_all add: site_worker_def test_http_def buf_ok_def)
  show "\<forall>r req. reqs (whttp site_worker) r = Some req \<longrightarrow> rq_owner req \<in> dom (conns site_worker) \<and>
      (\<not> rq_delete req \<longrightarrow> owner_ready site_worker req \<and> small_response req \<and> handler_known site_env req)"
    by (auto simp: site_worker_def site_request_def blank_request_def owner_ready_def test_conn_def send_ok_def small_response_def
        handler_known_def site_env_def site_tab_def split: if_splits)
qed

theorem http_process_safe_witness:
  "\<exists>x. http_process 2 site_env (\<lambda>_. (0, 1, [Wrote 500, Wrote 500])) \<lparr>sw = site_worker, log_packets = [], unlinked = []\<rparr> = Inr x \<and>
    (\<forall>s'. x = Some s' \<longrightarrow> serving site_env 0 (sw s') \<and> reqs (whttp (sw s')) 6 = None)"
proof -
  let ?s = "\<lparr>sw = site_worker, log_packets = [], unlinked = []\<rparr>"
  have l: "http_requests (whttp site_worker) = [5, 6]"
      "reqs (whttp site_worker) 6 = Some (site_request\<lparr>rq_delete := True\<rparr>)" by (simp_all add: site_worker_def)
  have S: "serving site_env (length (http_requests (whttp (sw ?s)))) (sw ?s)"
    using site_worker_serving by (simp add: l numeral_2_eq_2)
  have lim: "http_request_limit (e_http (s_kore site_env)) = 1000" by (simp add: site_env_def site_kenv_def http_default_env_def)
  show ?thesis
    using http_process_safe [OF site.page_client_axioms S, of 2 "\<lambda>_. (0, 1, [Wrote 500, Wrote 500])"] by (auto simp: l lim)
qed

theorem http_process_dangling_owner_witness:
  "\<exists>w'. kore_connection_prune 9 (s_kore site_env) (\<lambda>_. []) False idle_worker = Inr (Some w') \<and>
    http_process (Suc 9) site_env (\<lambda>_. (0, 1, [])) \<lparr>sw = w', log_packets = [], unlinked = []\<rparr> = Inl Use_after_free"
  by (rule http_process_dangling_owner [where i = 3 and r = 5 and c = "idle_conn 3 CONN_STATE_DISCONNECTING [5]"])
    (simp_all add: idle_worker_ok(1), simp_all add: idle_worker_def idle_conn_def site_env_def site_kenv_def http_default_env_def)

end
