(* ===== verification/Kore_Lock.thy ===== *)
theory Kore_Lock
  imports Kore_Prelude
begin

text \<open>
  The workers and the accept lock, \<open>base/kore/worker.c\<close>: at most one worker process takes new connections. The lock and the
  entries of the workers lie in memory that all processes share; the parent frees the lock of a worker that died and starts
  another one in its place.

  Each access to the shared lock is a step of its own, at a program counter of its own, and the steps of the processes
  interleave. Access to the lock is sequentially consistent: the code goes through \<open>__sync_bool_compare_and_swap\<close>, a full
  barrier. What a worker does with its connections in a turn is the matter of \<open>Kore_Worker\<close>; here a turn consists of the inputs that
  steer the lock. The identifier of a new process is none of those in the table. The count of errors of the handler that was running when a worker died is left out.
\<close>

section \<open>State\<close>

text \<open>The places of a worker in the loop of \<open>kore_worker_entry\<close> and in the functions of the lock that are inlined there.\<close>

datatype pc = Top | Obtain | Trylock | Set_current | Take | Granted | Check | Wait | Release | Unlock_current | Unlock_cas | Drop | Rest

datatype life = Running | Exited int | Reaped

text \<open>An entry of the table of workers (\<open>kw_pid\<close>, \<open>kw_has_lock\<close>) with the local variables of the process; \<open>accepting\<close>: the listeners are
  registered for events.\<close>

record wproc =
  kw_pid :: int
  kw_has_lock :: bool
  had_lock :: bool
  accepting :: bool
  next_lock :: u64
  w_now :: u64
  w_quit :: bool
  w_pc :: pc
  life :: life

text \<open>Where the parent is: starting workers, waiting, or dealing with a worker that is gone.\<close>

datatype ppc = Starting nat | Waiting | Reaping nat | P_unlock_current nat | P_unlock_cas nat | Respawn nat

record sys =
  a_lock :: int
  a_current :: int
  worker_count :: nat
  kw :: "nat \<Rightarrow> wproc"
  parent :: ppc

definition set_kw :: "sys \<Rightarrow> nat \<Rightarrow> wproc \<Rightarrow> sys" where
  "set_kw s i w = s\<lparr>kw := (kw s)(i := w)\<rparr>"

definition WORKER_LOCK_TIMEOUT :: u64 where "WORKER_LOCK_TIMEOUT = 500"

section \<open>The lock\<close>

definition sync_cas :: "int \<Rightarrow> int \<Rightarrow> sys \<Rightarrow> bool \<times> sys" where
  "sync_cas old new s = (if a_lock s = old then (True, s\<lparr>a_lock := new\<rparr>) else (False, s))"

text \<open>\<open>worker_trylock\<close>: the swap, then \<open>current\<close>. \<open>worker_unlock\<close>: \<open>current\<close>, then the swap.\<close>

definition worker_trylock :: "nat \<Rightarrow> sys \<Rightarrow> sys" where
  "worker_trylock i s =
     (case w_pc (kw s i) of
        Trylock \<Rightarrow> (case sync_cas 0 1 s of (ok, s1) \<Rightarrow> set_kw s1 i ((kw s i)\<lparr>w_pc := if ok then Set_current else Check\<rparr>))
      | _ \<Rightarrow> set_kw (s\<lparr>a_current := kw_pid (kw s i)\<rparr>) i ((kw s i)\<lparr>w_pc := Take\<rparr>))"

definition unlock_current :: "sys \<Rightarrow> sys" where
  "unlock_current s = s\<lparr>a_current := 0\<rparr>"

definition unlock_cas :: "sys \<Rightarrow> sys" where
  "unlock_cas s = snd (sync_cas 1 0 s)"

definition kore_worker_acceptlock_obtain :: "bool \<Rightarrow> nat \<Rightarrow> sys \<Rightarrow> sys" where
  "kore_worker_acceptlock_obtain full i s =
     (let w = kw s i in
      case w_pc w of
        Obtain \<Rightarrow>
          if kw_has_lock w then set_kw s i (w\<lparr>w_pc := Granted\<rparr>)
          else if worker_count s = 1 then set_kw s i (w\<lparr>kw_has_lock := True, w_pc := Granted\<rparr>)
          else if full then set_kw s i (w\<lparr>w_pc := Check\<rparr>)
          else set_kw s i (w\<lparr>w_pc := Trylock\<rparr>)
      | _ \<Rightarrow> set_kw s i (w\<lparr>kw_has_lock := True, w_pc := Granted\<rparr>))"

definition kore_worker_acceptlock_release :: "nat \<Rightarrow> sys \<Rightarrow> sys" where
  "kore_worker_acceptlock_release i s =
     (let w = kw s i; next = w_now w + WORKER_LOCK_TIMEOUT in
      case w_pc w of
        Release \<Rightarrow>
          if worker_count s = 1 \<or> \<not> kw_has_lock w then set_kw s i (w\<lparr>next_lock := next, w_pc := Rest\<rparr>)
          else set_kw s i (w\<lparr>w_pc := Unlock_current\<rparr>)
      | Unlock_current \<Rightarrow> set_kw (unlock_current s) i (w\<lparr>w_pc := Unlock_cas\<rparr>)
      | Unlock_cas \<Rightarrow> set_kw (unlock_cas s) i (w\<lparr>w_pc := Drop\<rparr>)
      | _ \<Rightarrow> set_kw s i (w\<lparr>kw_has_lock := False, next_lock := next, w_pc := Rest\<rparr>))"

section \<open>A worker\<close>

text \<open>The inputs of a turn: the time, a signal that ends the worker, whether it has all the connections it may have, and
  whether \<open>kore_platform_event_wait\<close> reports events.\<close>

record turn_in =
  in_now :: u64
  in_quit :: bool
  in_full :: bool
  in_events :: bool

definition worker_step :: "turn_in \<Rightarrow> nat \<Rightarrow> sys \<Rightarrow> sys" where
  "worker_step inp i s =
     (let w = kw s i in
      case w_pc w of
        Top \<Rightarrow> set_kw s i (w\<lparr>w_quit := w_quit w \<or> in_quit inp, w_now := in_now inp,
                 w_pc := if in_now inp > next_lock w then Obtain else Check\<rparr>)
      | Obtain \<Rightarrow> kore_worker_acceptlock_obtain (in_full inp) i s
      | Trylock \<Rightarrow> worker_trylock i s
      | Set_current \<Rightarrow> worker_trylock i s
      | Take \<Rightarrow> kore_worker_acceptlock_obtain (in_full inp) i s
      | Granted \<Rightarrow> set_kw s i (if had_lock w then w\<lparr>w_pc := Check\<rparr> else w\<lparr>accepting := True, had_lock := True, w_pc := Check\<rparr>)
      | Check \<Rightarrow> set_kw s i (if \<not> kw_has_lock w \<and> had_lock w then w\<lparr>had_lock := False, accepting := False, w_pc := Wait\<rparr>
                 else w\<lparr>w_pc := Wait\<rparr>)
      | Wait \<Rightarrow> set_kw s i (w\<lparr>w_pc := if kw_has_lock w \<and> in_events inp then Release else Rest\<rparr>)
      | Release \<Rightarrow> kore_worker_acceptlock_release i s
      | Unlock_current \<Rightarrow> kore_worker_acceptlock_release i s
      | Unlock_cas \<Rightarrow> kore_worker_acceptlock_release i s
      | Drop \<Rightarrow> kore_worker_acceptlock_release i s
      | Rest \<Rightarrow> set_kw s i (if w_quit w then w\<lparr>life := Exited 0\<rparr> else w\<lparr>w_pc := Top\<rparr>))"

text \<open>A worker is killed, or exits with an error, with the wait status \<open>st\<close>.\<close>

definition worker_dies :: "int \<Rightarrow> nat \<Rightarrow> sys \<Rightarrow> sys" where
  "worker_dies st i s = set_kw s i ((kw s i)\<lparr>life := Exited st\<rparr>)"

section \<open>The parent\<close>

definition kore_worker_spawn :: "int \<Rightarrow> wproc" where
  "kore_worker_spawn pid = \<lparr>kw_pid = pid, kw_has_lock = False, had_lock = False, accepting = False, next_lock = 0, w_now = 0,
     w_quit = False, w_pc = Top, life = Running\<rparr>"

text \<open>The macros of \<open>sys/wait.h\<close>.\<close>

definition WEXITSTATUS :: "int \<Rightarrow> int" where "WEXITSTATUS st = (st div 256) mod 256"
definition WTERMSIG :: "int \<Rightarrow> int" where "WTERMSIG st = st mod 128"
definition WCOREDUMP :: "int \<Rightarrow> bool" where "WCOREDUMP st \<longleftrightarrow> (st div 128) mod 2 = 1"

definition gone :: "int \<Rightarrow> bool" where
  "gone st \<longleftrightarrow> WEXITSTATUS st \<noteq> 0 \<or> WTERMSIG st \<noteq> 0 \<or> WCOREDUMP st"

definition find_worker :: "int \<Rightarrow> sys \<Rightarrow> nat option" where
  "find_worker pid s = List.find (\<lambda>k. kw_pid (kw s k) = pid) [0..<worker_count s]"

text \<open>\<open>kore_worker_wait(0)\<close> when \<open>waitpid\<close> returns the identifier of worker \<open>i\<close>.\<close>

definition kore_worker_wait :: "nat \<Rightarrow> sys \<Rightarrow> sys" where
  "kore_worker_wait i s =
     (case life (kw s i) of
        Exited st \<Rightarrow>
          let s1 = set_kw s i ((kw s i)\<lparr>life := Reaped\<rparr>) in
          (case find_worker (kw_pid (kw s i)) s of
             None \<Rightarrow> s1
           | Some k \<Rightarrow> if gone st then s1\<lparr>parent := Reaping k\<rparr> else s1)
      | _ \<Rightarrow> s)"

text \<open>The parent goes on: \<open>kore_worker_init\<close> starts the workers one by one; \<open>kore_worker_wait\<close> frees the lock of the worker that is gone
  and starts a new one. \<open>pid\<close> is the result of \<open>fork\<close>.\<close>

definition parent_step :: "int \<Rightarrow> sys \<Rightarrow> sys" where
  "parent_step pid s =
     (case parent s of
        Starting i \<Rightarrow> (set_kw s i (kore_worker_spawn pid))\<lparr>parent := if Suc i < worker_count s then Starting (Suc i) else Waiting\<rparr>
      | Waiting \<Rightarrow> s
      | Reaping i \<Rightarrow> s\<lparr>parent := if kw_pid (kw s i) = a_current s then P_unlock_current i else Respawn i\<rparr>
      | P_unlock_current i \<Rightarrow> (unlock_current s)\<lparr>parent := P_unlock_cas i\<rparr>
      | P_unlock_cas i \<Rightarrow> (unlock_cas s)\<lparr>parent := Respawn i\<rparr>
      | Respawn i \<Rightarrow> (set_kw s i (kore_worker_spawn pid))\<lparr>parent := Waiting\<rparr>)"

text \<open>The start: \<open>n\<close> cleared entries (\<open>kore_worker_init\<close> takes one when the count is zero).\<close>

definition worker_init :: "nat \<Rightarrow> sys" where
  "worker_init n = \<lparr>a_lock = 0, a_current = 0, worker_count = (if n = 0 then 1 else n),
     kw = (\<lambda>_. (kore_worker_spawn 0)\<lparr>life := Reaped\<rparr>), parent = Starting 0\<rparr>"

section \<open>Interleaving\<close>

definition fresh_pid :: "int \<Rightarrow> sys \<Rightarrow> bool" where
  "fresh_pid pid s \<longleftrightarrow> 0 < pid \<and> (\<forall>i < worker_count s. kw_pid (kw s i) \<noteq> pid)"

inductive lock_step :: "sys \<Rightarrow> sys \<Rightarrow> bool" where
  works: "i < worker_count s \<Longrightarrow> life (kw s i) = Running \<Longrightarrow> lock_step s (worker_step inp i s)"
| dies: "i < worker_count s \<Longrightarrow> life (kw s i) = Running \<Longrightarrow> gone st \<Longrightarrow> lock_step s (worker_dies st i s)"
| waits: "i < worker_count s \<Longrightarrow> parent s = Waiting \<Longrightarrow> life (kw s i) = Exited st \<Longrightarrow> lock_step s (kore_worker_wait i s)"
| parent: "parent s \<noteq> Waiting \<Longrightarrow> fresh_pid pid s \<Longrightarrow> lock_step s (parent_step pid s)"

text \<open>A worker that can take a connection: it waits for events and its listeners are registered.\<close>

definition accepts :: "sys \<Rightarrow> nat \<Rightarrow> bool" where
  "accepts s i \<longleftrightarrow> i < worker_count s \<and> life (kw s i) = Running \<and> w_pc (kw s i) = Wait \<and> accepting (kw s i)"

text \<open>Runs by a list of events, for concrete runs.\<close>

datatype lock_event = Works nat turn_in | Dies nat int | Waits nat | Parent int

fun lock_event_ok :: "sys \<Rightarrow> lock_event \<Rightarrow> bool" where
  "lock_event_ok s (Works i inp) \<longleftrightarrow> i < worker_count s \<and> life (kw s i) = Running"
| "lock_event_ok s (Dies i st) \<longleftrightarrow> i < worker_count s \<and> life (kw s i) = Running \<and> gone st"
| "lock_event_ok s (Waits i) \<longleftrightarrow> i < worker_count s \<and> parent s = Waiting \<and> (case life (kw s i) of Exited _ \<Rightarrow> True | _ \<Rightarrow> False)"
| "lock_event_ok s (Parent pid) \<longleftrightarrow> parent s \<noteq> Waiting \<and> 0 < pid \<and> list_all (\<lambda>i. kw_pid (kw s i) \<noteq> pid) [0..<worker_count s]"

fun lock_event_do :: "sys \<Rightarrow> lock_event \<Rightarrow> sys" where
  "lock_event_do s (Works i inp) = worker_step inp i s"
| "lock_event_do s (Dies i st) = worker_dies st i s"
| "lock_event_do s (Waits i) = kore_worker_wait i s"
| "lock_event_do s (Parent pid) = parent_step pid s"

fun lock_run :: "sys \<Rightarrow> lock_event list \<Rightarrow> sys option" where
  "lock_run s [] = Some s"
| "lock_run s (e # es) = (if lock_event_ok s e then lock_run (lock_event_do s e) es else None)"

lemma lock_event_step: "lock_event_ok s e \<Longrightarrow> lock_step s (lock_event_do s e)"
  by (cases e) (auto simp: fresh_pid_def list_all_iff intro: lock_step.intros split: life.splits)

lemma lock_run_steps: "lock_run s es = Some s' \<Longrightarrow> lock_step\<^sup>*\<^sup>* s s'"
  by (induction es arbitrary: s) (auto split: if_splits intro: converse_rtranclp_into_rtranclp lock_event_step)

lemma lock_run_the: "lock_run s es \<noteq> None \<Longrightarrow> lock_step\<^sup>*\<^sup>* s (the (lock_run s es))"
  by (metis lock_run_steps option.collapse)

section \<open>Shutting down\<close>

text \<open>\<open>kore_worker_wait(1)\<close> on the identifiers in the table; \<open>waitpid\<close> blocks until the next child exits, and fails when there is
  none. \<open>children\<close> are the children that were not waited for yet, in the order in which they exit.\<close>

fun clear_pid :: "int \<Rightarrow> int list \<Rightarrow> int list" where
  "clear_pid p [] = []"
| "clear_pid p (x # xs) = (if x = p then 0 # xs else x # clear_pid p xs)"

definition wait_final :: "int list \<times> int list \<Rightarrow> int list \<times> int list" where
  "wait_final pc = (case pc of (pids, children) \<Rightarrow> (case children of [] \<Rightarrow> (pids, []) | p # cs \<Rightarrow> (clear_pid p pids, cs)))"

text \<open>One pass over the table; the entries cleared so far are counted in \<open>done\<close>.\<close>

fun shutdown_pass :: "nat list \<Rightarrow> nat \<Rightarrow> int list \<times> int list \<Rightarrow> nat \<times> int list \<times> int list" where
  "shutdown_pass [] n pc = (n, pc)"
| "shutdown_pass (k # ks) n pc = (if fst pc ! k \<noteq> 0 then shutdown_pass ks n (wait_final pc) else shutdown_pass ks (Suc n) pc)"

fun kore_worker_shutdown :: "nat \<Rightarrow> int list \<times> int list \<Rightarrow> (int list \<times> int list) res" where
  "kore_worker_shutdown 0 pc = Inl Out_of_fuel"
| "kore_worker_shutdown (Suc fuel) pc =
     (case shutdown_pass [0..<length (fst pc)] 0 pc of (n, pc1) \<Rightarrow>
        if n = length (fst pc) then Inr pc1 else kore_worker_shutdown fuel pc1)"

section \<open>The invariant\<close>

text \<open>A worker in its critical section: from the swap that takes the lock to the swap that gives it back. \<open>owner_pc\<close>: the part in which
  \<open>current\<close> is its identifier.\<close>

definition crit_pc :: "wproc \<Rightarrow> bool" where
  "crit_pc w \<longleftrightarrow> w_pc w = Set_current \<or> w_pc w = Take \<or> (kw_has_lock w \<and> w_pc w \<noteq> Drop)"

definition owner_pc :: "wproc \<Rightarrow> bool" where
  "owner_pc w \<longleftrightarrow> crit_pc w \<and> w_pc w \<noteq> Set_current \<and> w_pc w \<noteq> Unlock_cas"

text \<open>What holds of each process on its own: \<open>has_lock\<close> fits the program counter, and a worker waits for connections with the
  lock only.\<close>

definition local_ok :: "wproc \<Rightarrow> bool" where
  "local_ok w \<longleftrightarrow> (w_pc w \<in> {Trylock, Set_current, Take} \<longrightarrow> \<not> kw_has_lock w) \<and>
     (w_pc w \<in> {Granted, Release, Unlock_current, Unlock_cas, Drop} \<longrightarrow> kw_has_lock w) \<and>
     (accepting w \<longleftrightarrow> had_lock w) \<and> (w_pc w = Wait \<longrightarrow> accepting w \<longrightarrow> kw_has_lock w)"

definition crit :: "sys \<Rightarrow> nat \<Rightarrow> bool" where
  "crit s i \<longleftrightarrow> i < worker_count s \<and> crit_pc (kw s i) \<and> parent s \<noteq> Respawn i"

definition parent_ok :: "sys \<Rightarrow> bool" where
  "parent_ok s = (case parent s of
      Starting i \<Rightarrow> i < worker_count s \<and> (\<forall>k < worker_count s. i \<le> k \<longrightarrow> life (kw s k) = Reaped \<and> kw_pid (kw s k) = 0 \<and> \<not> crit_pc (kw s k))
    | Waiting \<Rightarrow> True
    | Reaping i \<Rightarrow> i < worker_count s \<and> life (kw s i) = Reaped \<and> kw_pid (kw s i) \<noteq> 0
    | P_unlock_current i \<Rightarrow> crit s i \<and> life (kw s i) = Reaped \<and> kw_pid (kw s i) = a_current s
    | P_unlock_cas i \<Rightarrow> crit s i \<and> life (kw s i) = Reaped \<and> a_current s = 0
    | Respawn i \<Rightarrow> i < worker_count s \<and> life (kw s i) = Reaped)"

definition pids_ok :: "sys \<Rightarrow> bool" where
  "pids_ok s \<longleftrightarrow> (\<forall>i < worker_count s. \<forall>k < worker_count s. kw_pid (kw s i) = kw_pid (kw s k) \<longrightarrow> kw_pid (kw s i) \<noteq> 0 \<longrightarrow> i = k) \<and>
     (\<forall>i < worker_count s. life (kw s i) \<noteq> Reaped \<longrightarrow> kw_pid (kw s i) \<noteq> 0) \<and>
     (\<forall>i < worker_count s. crit_pc (kw s i) \<longrightarrow> kw_pid (kw s i) \<noteq> 0)"

definition owners_ok :: "sys \<Rightarrow> bool" where
  "owners_ok s \<longleftrightarrow> (\<forall>i k. crit s i \<longrightarrow> crit s k \<longrightarrow> i = k) \<and> (\<forall>i. crit s i \<longrightarrow> a_lock s = 1) \<and>
     (a_current s \<noteq> 0 \<longrightarrow> (\<exists>i. crit s i \<and> owner_pc (kw s i) \<and> kw_pid (kw s i) = a_current s)) \<and>
     (a_lock s = 0 \<or> a_lock s = 1)"

definition lock_ok :: "sys \<Rightarrow> bool" where
  "lock_ok s \<longleftrightarrow> (\<forall>i < worker_count s. local_ok (kw s i)) \<and> parent_ok s \<and> pids_ok s \<and> owners_ok s"

lemmas worker_defs = worker_step_def worker_trylock_def kore_worker_acceptlock_obtain_def kore_worker_acceptlock_release_def
  unlock_current_def unlock_cas_def sync_cas_def set_kw_def Let_def

lemma worker_step_count [simp]: "worker_count (worker_step inp i s) = worker_count s" "parent (worker_step inp i s) = parent s"
  by (simp_all add: worker_defs split: pc.split)

lemma worker_step_other: "k \<noteq> i \<Longrightarrow> kw (worker_step inp i s) k = kw s k"
  by (simp add: worker_defs split: pc.split)

text \<open>The effect of a step of a worker on its own entry and on the lock.\<close>

lemma worker_step_local: "local_ok (kw s i) \<Longrightarrow> local_ok (kw (worker_step inp i s) i)"
  by (cases "w_pc (kw s i)") (auto simp: worker_defs local_ok_def)

lemma worker_step_pid: "kw_pid (kw (worker_step inp i s) i) = kw_pid (kw s i)"
  by (cases "w_pc (kw s i)") (simp_all add: worker_defs)

lemma worker_step_life: "life (kw (worker_step inp i s) i) = life (kw s i) \<or> life (kw (worker_step inp i s) i) = Exited 0"
  by (cases "w_pc (kw s i)") (simp_all add: worker_defs)

lemma worker_step_lock:
  assumes "local_ok (kw s i)" and "worker_count s \<noteq> 1"
  shows "crit_pc (kw (worker_step inp i s) i) \<longleftrightarrow> (crit_pc (kw s i) \<and> w_pc (kw s i) \<noteq> Unlock_cas) \<or> (w_pc (kw s i) = Trylock \<and> a_lock s = 0)"
    and "a_lock (worker_step inp i s) = (if w_pc (kw s i) = Trylock \<and> a_lock s = 0 then 1 else if w_pc (kw s i) = Unlock_cas \<and> a_lock s = 1 then 0 else a_lock s)"
    and "a_current (worker_step inp i s) = (if w_pc (kw s i) = Set_current then kw_pid (kw s i) else if w_pc (kw s i) = Unlock_current then 0 else a_current s)"
    and "owner_pc (kw (worker_step inp i s) i) \<longleftrightarrow> w_pc (kw s i) = Set_current \<or> (owner_pc (kw s i) \<and> w_pc (kw s i) \<noteq> Unlock_current)"
  using assms by (cases "w_pc (kw s i)"; auto simp: worker_defs local_ok_def crit_pc_def owner_pc_def)+

lemma local_ok_crit: "local_ok w \<Longrightarrow> w_pc w \<in> {Set_current, Take, Granted, Release, Unlock_current, Unlock_cas} \<Longrightarrow> crit_pc w"
  unfolding local_ok_def crit_pc_def by (elim insertE) simp_all

section \<open>Every step keeps the invariant\<close>

lemma lock_okI:
  assumes "\<And>i. i < worker_count s \<Longrightarrow> local_ok (kw s i)" "parent_ok s" "pids_ok s" "owners_ok s"
  shows "lock_ok s"
  using assms by (simp add: lock_ok_def)

lemma lock_okD:
  assumes "lock_ok s"
  shows "i < worker_count s \<Longrightarrow> local_ok (kw s i)" "parent_ok s" "pids_ok s" "owners_ok s"
  using assms by (simp_all add: lock_ok_def)

lemma parent_ok_alive:
  assumes "parent_ok s" "life (kw s i) = Running" "i < worker_count s"
  shows "parent s \<noteq> Reaping i" "parent s \<noteq> P_unlock_current i" "parent s \<noteq> P_unlock_cas i" "parent s \<noteq> Respawn i"
    "parent s = Starting k \<Longrightarrow> i < k"
  using assms by (auto simp: parent_ok_def split: ppc.splits intro: not_le_imp_less)

lemma crit_works:
  assumes "lock_ok s" "i < worker_count s" "life (kw s i) = Running" "worker_count s \<noteq> 1"
  shows "crit (worker_step inp i s) k \<longleftrightarrow>
    (if k = i then (crit s i \<and> w_pc (kw s i) \<noteq> Unlock_cas) \<or> (w_pc (kw s i) = Trylock \<and> a_lock s = 0) else crit s k)"
  using worker_step_lock(1) [OF lock_okD(1) [OF assms(1,2)] assms(4)] parent_ok_alive [OF lock_okD(2) [OF assms(1)] assms(3,2)] assms(2)
  by (auto simp: crit_def worker_step_other)

lemma owners_works:
  assumes "lock_ok s" "i < worker_count s" "life (kw s i) = Running" "worker_count s \<noteq> 1"
  shows "owners_ok (worker_step inp i s)"
proof -
  note c = crit_works [OF assms] and l = worker_step_lock [OF lock_okD(1) [OF assms(1,2)] assms(4)]
  have o: "crit s a \<Longrightarrow> crit s b \<Longrightarrow> a = b" "crit s a \<Longrightarrow> a_lock s = 1" "a_lock s = 0 \<or> a_lock s = 1"
      "a_current s \<noteq> 0 \<Longrightarrow> \<exists>a. crit s a \<and> owner_pc (kw s a) \<and> kw_pid (kw s a) = a_current s" for a b
    using lock_okD(4) [OF assms(1)] unfolding owners_ok_def by blast+
  have ci: "crit s i" if "crit_pc (kw s i)" using that parent_ok_alive [OF lock_okD(2) [OF assms(1)] assms(3,2)] assms(2) by (simp add: crit_def)
  have cu: "crit s i" if "w_pc (kw s i) \<in> {Set_current, Take, Unlock_current, Unlock_cas}"
    using that local_ok_crit [OF lock_okD(1) [OF assms(1,2)]] by (intro ci) blast
  have un: "\<not> crit s a" if "a_lock s = 0" for a using o(2) that by fastforce
  show ?thesis
    unfolding owners_ok_def
  proof (intro conjI allI impI)
    fix a b assume "crit (worker_step inp i s) a" "crit (worker_step inp i s) b"
    then show "a = b" using c o(1) un by (metis (full_types))
  next
    fix a assume a: "crit (worker_step inp i s) a"
    show "a_lock (worker_step inp i s) = 1"
    proof (cases "w_pc (kw s i) = Trylock \<and> a_lock s = 0")
      case False
      then have "crit s a" "a = i \<Longrightarrow> w_pc (kw s i) \<noteq> Unlock_cas" using a c [where k = a] by (auto split: if_splits)
      moreover from this have "w_pc (kw s i) \<noteq> Unlock_cas" using o(1) [of a i] cu by blast
      ultimately show ?thesis using False l(2) o(2) [of a] by simp
    qed (simp add: l(2))
  next
    assume n: "a_current (worker_step inp i s) \<noteq> 0"
    show "\<exists>a. crit (worker_step inp i s) a \<and> owner_pc (kw (worker_step inp i s) a) \<and> kw_pid (kw (worker_step inp i s) a) = a_current (worker_step inp i s)"
    proof (cases "w_pc (kw s i) = Set_current")
      case True
      then have "crit (worker_step inp i s) i" using c [where k = i] cu by simp
      then show ?thesis using True l(3,4) worker_step_pid by auto
    next
      case False
      then have u: "w_pc (kw s i) \<noteq> Unlock_current" "a_current (worker_step inp i s) = a_current s" using l(3) n by (auto split: if_splits)
      then obtain a where a: "crit s a" "owner_pc (kw s a)" "kw_pid (kw s a) = a_current s" using o(4) n by auto
      have "crit (worker_step inp i s) a" using c [where k = a] a by (auto simp: owner_pc_def)
      moreover have "owner_pc (kw (worker_step inp i s) a)" using a(2) l(4) u(1) worker_step_other by (cases "a = i") auto
      ultimately show ?thesis using a(3) u(2) worker_step_pid worker_step_other by (metis (no_types))
    qed
  next
    show "a_lock (worker_step inp i s) = 0 \<or> a_lock (worker_step inp i s) = 1" using l(2) o(3) by auto
  qed
qed

lemma lock_ok_works:
  assumes "lock_ok s" "i < worker_count s" "life (kw s i) = Running" "worker_count s \<noteq> 1"
  shows "lock_ok (worker_step inp i s)"
proof (rule lock_okI)
  note p = parent_ok_alive [OF lock_okD(2) [OF assms(1)] assms(3,2)]
  have kwo: "kw (worker_step inp i s) k = kw s k" if "k \<noteq> i" for k using worker_step_other that by blast
  show "local_ok (kw (worker_step inp i s) k)" if "k < worker_count (worker_step inp i s)" for k
    using worker_step_local lock_okD(1) [OF assms(1)] that kwo by (cases "k = i") auto
  have pd: "kw_pid (kw (worker_step inp i s) k) = kw_pid (kw s k)" for k using worker_step_pid kwo by (cases "k = i") auto
  show "pids_ok (worker_step inp i s)"
  proof -
    have ni: "kw_pid (kw s i) \<noteq> 0" using lock_okD(3) [OF assms(1)] assms(2,3) by (simp add: pids_ok_def)
    have "kw_pid (kw s k) \<noteq> 0" if "k < worker_count s" "life (kw (worker_step inp i s) k) \<noteq> Reaped \<or> crit_pc (kw (worker_step inp i s) k)" for k
      using that lock_okD(3) [OF assms(1)] kwo ni unfolding pids_ok_def by (cases "k = i") auto
    then show ?thesis using lock_okD(3) [OF assms(1)] unfolding pids_ok_def worker_step_count pd by blast
  qed
  show "parent_ok (worker_step inp i s)"
  proof -
    have cr: "crit (worker_step inp i s) k \<longleftrightarrow> crit s k" if "k \<noteq> i" for k using crit_works [OF assms] that by simp
    have cur: "a_current (worker_step inp i s) = a_current s" if "crit s k" "k \<noteq> i" for k
    proof -
      have "\<not> crit s i" using lock_okD(4) [OF assms(1)] that unfolding owners_ok_def by blast
      then have "\<not> crit_pc (kw s i)" using p(4) assms(2) by (simp add: crit_def)
      then have "w_pc (kw s i) \<noteq> Set_current" "w_pc (kw s i) \<noteq> Unlock_current"
        using local_ok_crit [OF lock_okD(1) [OF assms(1,2)]] by fastforce+
      then show ?thesis using worker_step_lock(3) [OF lock_okD(1) [OF assms(1,2)] assms(4)] by simp
    qed
    show ?thesis
    proof (cases "parent s")
      case (Starting k)
      then have "kw (worker_step inp i s) m = kw s m" if "k \<le> m" for m using p(5) kwo that by (simp add: not_le)
      then show ?thesis using lock_okD(2) [OF assms(1)] Starting by (simp add: parent_ok_def)
    next
      case (P_unlock_current k)
      then have "k \<noteq> i" "crit s k" using lock_okD(2) [OF assms(1)] p(2) by (auto simp: parent_ok_def)
      then show ?thesis using lock_okD(2) [OF assms(1)] P_unlock_current kwo cr cur by (simp add: parent_ok_def)
    next
      case (P_unlock_cas k)
      then have "k \<noteq> i" "crit s k" using lock_okD(2) [OF assms(1)] p(3) by (auto simp: parent_ok_def)
      then show ?thesis using lock_okD(2) [OF assms(1)] P_unlock_cas kwo cr cur by (simp add: parent_ok_def)
    next
      case (Reaping k)
      then have "k \<noteq> i" using p(1) by auto
      then show ?thesis using lock_okD(2) [OF assms(1)] Reaping kwo by (simp add: parent_ok_def)
    next
      case (Respawn k)
      then have "k \<noteq> i" using p(4) by auto
      then show ?thesis using lock_okD(2) [OF assms(1)] Respawn kwo by (simp add: parent_ok_def)
    qed (simp add: parent_ok_def)
  qed
qed (rule owners_works [OF assms])

text \<open>Steps that change nothing but whether a process is alive.\<close>

lemma set_kw_simps [simp]:
  "worker_count (set_kw s i w) = worker_count s" "parent (set_kw s i w) = parent s" "a_lock (set_kw s i w) = a_lock s"
  "a_current (set_kw s i w) = a_current s"
  by (simp_all add: set_kw_def)

lemma kw_set_kw: "kw (set_kw s i w) k = (if k = i then w else kw s k)"
  by (simp add: set_kw_def)

lemma kw_set_life:
  "kw_pid (kw (set_kw s i ((kw s i)\<lparr>life := l\<rparr>)) k) = kw_pid (kw s k)"
  "crit_pc (kw (set_kw s i ((kw s i)\<lparr>life := l\<rparr>)) k) = crit_pc (kw s k)"
  "owner_pc (kw (set_kw s i ((kw s i)\<lparr>life := l\<rparr>)) k) = owner_pc (kw s k)"
  "local_ok (kw (set_kw s i ((kw s i)\<lparr>life := l\<rparr>)) k) = local_ok (kw s k)"
  "life (kw (set_kw s i ((kw s i)\<lparr>life := l\<rparr>)) k) = (if k = i then l else life (kw s k))"
  by (simp_all add: kw_set_kw crit_pc_def owner_pc_def local_ok_def)

lemma crit_life: "crit (set_kw s i ((kw s i)\<lparr>life := l\<rparr>)) k \<longleftrightarrow> crit s k"
  by (simp add: crit_def kw_set_life)

lemma owners_life: "owners_ok (set_kw s i ((kw s i)\<lparr>life := l\<rparr>)) = owners_ok s"
  unfolding owners_ok_def crit_life kw_set_life set_kw_simps by (rule refl)

lemma pids_life:
  assumes "pids_ok s" "life (kw s i) \<noteq> Reaped"
  shows "pids_ok (set_kw s i ((kw s i)\<lparr>life := l\<rparr>))"
  using assms unfolding pids_ok_def kw_set_life set_kw_simps by (elim conjE, intro conjI) (auto split: if_splits)

lemma owners_parent: "(\<And>k. crit (s\<lparr>parent := p\<rparr>) k = crit s k) \<Longrightarrow> owners_ok (s\<lparr>parent := p\<rparr>) = owners_ok s"
  by (simp add: owners_ok_def)

lemma pids_parent [simp]: "pids_ok (s\<lparr>parent := p\<rparr>) = pids_ok s"
  by (simp add: pids_ok_def)

lemma lock_ok_dies:
  assumes "lock_ok s" "i < worker_count s" "life (kw s i) = Running"
  shows "lock_ok (worker_dies st i s)"
proof (rule lock_okI)
  note p = parent_ok_alive [OF lock_okD(2) [OF assms(1)] assms(3,2)]
  show "parent_ok (worker_dies st i s)"
    using lock_okD(2) [OF assms(1)] p unfolding parent_ok_def worker_dies_def
    by (cases "parent s") (auto simp: not_le crit_life kw_set_life)
  show "pids_ok (worker_dies st i s)"
    unfolding worker_dies_def by (rule pids_life) (use lock_okD(3) [OF assms(1)] assms(3) in simp_all)
qed (use lock_okD(1,4) [OF assms(1)] in \<open>simp_all add: worker_dies_def owners_life kw_set_life\<close>)

lemma find_worker_pid:
  assumes "pids_ok s" "i < worker_count s" "kw_pid (kw s i) \<noteq> 0"
  shows "find_worker (kw_pid (kw s i)) s = Some i"
proof -
  have "find_worker (kw_pid (kw s i)) s \<noteq> None" unfolding find_worker_def using assms(2) by (auto simp: find_None_iff)
  then obtain k where k: "find_worker (kw_pid (kw s i)) s = Some k" by blast
  then have "k < worker_count s" "kw_pid (kw s k) = kw_pid (kw s i)" unfolding find_worker_def by (auto simp: find_Some_iff)
  then have "k = i" using assms unfolding pids_ok_def by metis
  then show ?thesis using k by simp
qed

lemma wait_eq:
  assumes "lock_ok s" "i < worker_count s" "life (kw s i) = Exited st"
  shows "kore_worker_wait i s =
    (if gone st then (set_kw s i ((kw s i)\<lparr>life := Reaped\<rparr>))\<lparr>parent := Reaping i\<rparr> else set_kw s i ((kw s i)\<lparr>life := Reaped\<rparr>))"
proof -
  have "kw_pid (kw s i) \<noteq> 0" using lock_okD(3) [OF assms(1)] assms(2,3) by (simp add: pids_ok_def)
  then show ?thesis using find_worker_pid [OF lock_okD(3) [OF assms(1)] assms(2)] assms(3) by (simp add: kore_worker_wait_def)
qed

lemma lock_ok_waits:
  assumes "lock_ok s" "i < worker_count s" "parent s = Waiting" "life (kw s i) = Exited st"
  shows "lock_ok (kore_worker_wait i s)"
proof -
  let ?s = "set_kw s i ((kw s i)\<lparr>life := Reaped\<rparr>)"
  have p: "kw_pid (kw s i) \<noteq> 0" using lock_okD(3) [OF assms(1)] assms(2,4) by (simp add: pids_ok_def)
  have "pids_ok ?s" by (rule pids_life) (use lock_okD(3) [OF assms(1)] assms(4) in simp_all)
  moreover have "owners_ok ?s" using lock_okD(4) [OF assms(1)] by (simp add: owners_life)
  moreover have "parent_ok ?s" using assms(3) by (simp add: parent_ok_def)
  ultimately have s: "lock_ok ?s" using lock_okD(1) [OF assms(1)] by (simp add: lock_ok_def kw_set_life)
  moreover have "owners_ok (?s\<lparr>parent := Reaping i\<rparr>)"
    using lock_okD(4) [OF s] by (subst owners_parent) (simp_all add: crit_def assms(3))
  then have "lock_ok (?s\<lparr>parent := Reaping i\<rparr>)"
    using s assms(2,3) p by (simp add: lock_ok_def parent_ok_def kw_set_life)
  ultimately show ?thesis using wait_eq [OF assms(1,2,4)] by simp
qed

lemma crit_pc_spawn [simp]: "\<not> crit_pc (kore_worker_spawn pid)" "local_ok (kore_worker_spawn pid)" "kw_pid (kore_worker_spawn pid) = pid"
    "life (kore_worker_spawn pid) = Running"
  by (simp_all add: crit_pc_def kore_worker_spawn_def local_ok_def)

text \<open>A new process in a place that is not critical.\<close>

lemma lock_ok_spawn:
  assumes "lock_ok s" "i < worker_count s" "fresh_pid pid s" "parent s = Starting i \<or> parent s = Respawn i"
    and "q = Waiting \<or> (parent s = Starting i \<and> q = Starting (Suc i) \<and> Suc i < worker_count s)"
  shows "lock_ok ((set_kw s i (kore_worker_spawn pid))\<lparr>parent := q\<rparr>)"
proof (rule lock_okI)
  let ?s = "(set_kw s i (kore_worker_spawn pid))\<lparr>parent := q\<rparr>"
  have nc: "\<not> crit s i" using assms(2,4) lock_okD(2) [OF assms(1)] by (auto simp: crit_def parent_ok_def)
  have c: "crit ?s k \<longleftrightarrow> crit s k" for k
    using nc assms(4,5) by (cases "k = i") (auto simp: crit_def kw_set_kw)
  have f: "0 < pid" "k < worker_count s \<Longrightarrow> kw_pid (kw s k) \<noteq> pid" for k using assms(3) by (auto simp: fresh_pid_def)
  show "owners_ok ?s"
    using lock_okD(4) [OF assms(1)] nc unfolding owners_ok_def c by (simp add: kw_set_kw) metis
  show "pids_ok ?s"
    using lock_okD(3) [OF assms(1)] f unfolding pids_ok_def by (simp add: kw_set_kw) metis
  show "parent_ok ?s"
    using assms(5) lock_okD(2) [OF assms(1)] by (auto simp: parent_ok_def kw_set_kw)
  show "local_ok (kw ?s k)" if "k < worker_count ?s" for k using that lock_okD(1) [OF assms(1)] by (simp add: kw_set_kw)
qed

lemma lock_ok_parent:
  assumes "lock_ok s" "parent s \<noteq> Waiting" "fresh_pid pid s"
  shows "lock_ok (parent_step pid s)"
proof (cases "parent s")
  case (Starting i)
  then have "i < worker_count s" using lock_okD(2) [OF assms(1)] by (simp add: parent_ok_def)
  then show ?thesis using lock_ok_spawn [OF assms(1) _ assms(3)] Starting by (simp add: parent_step_def)
next
  case (Respawn i)
  then have "i < worker_count s" using lock_okD(2) [OF assms(1)] by (simp add: parent_ok_def)
  then show ?thesis using lock_ok_spawn [OF assms(1) _ assms(3)] Respawn by (simp add: parent_step_def)
next
  case (Reaping i)
  then have i: "i < worker_count s" "life (kw s i) = Reaped" "kw_pid (kw s i) \<noteq> 0" using lock_okD(2) [OF assms(1)] by (simp_all add: parent_ok_def)
  show ?thesis
  proof (cases "kw_pid (kw s i) = a_current s")
    case True
    then obtain a where "crit s a" "kw_pid (kw s a) = kw_pid (kw s i)"
      using lock_okD(4) [OF assms(1)] i(3) unfolding owners_ok_def by auto
    then have "crit s i" using lock_okD(3) [OF assms(1)] i unfolding pids_ok_def crit_def by metis
    moreover have "crit (s\<lparr>parent := P_unlock_current i\<rparr>) k \<longleftrightarrow> crit s k" for k using Reaping by (simp add: crit_def)
    ultimately show ?thesis
      using assms(1) True i by (simp add: parent_step_def Reaping lock_ok_def parent_ok_def owners_parent)
  next
    case False
    have c: "crit (s\<lparr>parent := Respawn i\<rparr>) k \<longleftrightarrow> crit s k \<and> k \<noteq> i" for k using Reaping by (auto simp: crit_def)
    have "owners_ok (s\<lparr>parent := Respawn i\<rparr>)"
      using lock_okD(4) [OF assms(1)] False unfolding owners_ok_def c by auto
    then show ?thesis using assms(1) False i by (simp add: parent_step_def Reaping lock_ok_def parent_ok_def)
  qed
next
  case (P_unlock_current i)
  let ?s = "(unlock_current s)\<lparr>parent := P_unlock_cas i\<rparr>"
  have c: "crit ?s k \<longleftrightarrow> crit s k" for k using P_unlock_current by (simp add: crit_def unlock_current_def)
  have "owners_ok ?s" using lock_okD(4) [OF assms(1)] unfolding owners_ok_def c by (simp add: unlock_current_def)
  moreover have "parent_ok ?s" using lock_okD(2) [OF assms(1)] P_unlock_current c [of i] by (simp add: parent_ok_def unlock_current_def)
  ultimately show ?thesis using lock_okD(1,3) [OF assms(1)]
    by (simp add: parent_step_def P_unlock_current lock_ok_def pids_ok_def unlock_current_def)
next
  case (P_unlock_cas i)
  let ?s = "(unlock_cas s)\<lparr>parent := Respawn i\<rparr>"
  have p: "crit s i" "life (kw s i) = Reaped" "a_current s = 0" using lock_okD(2) [OF assms(1)] P_unlock_cas by (simp_all add: parent_ok_def)
  have u: "crit s a \<Longrightarrow> a = i" "a_lock s = 1" for a using lock_okD(4) [OF assms(1)] p(1) unfolding owners_ok_def by blast+
  have e: "unlock_cas s = s\<lparr>a_lock := 0\<rparr>" using u(2) by (simp add: unlock_cas_def sync_cas_def)
  have "\<not> crit ?s k" for k using u(1) [of k] P_unlock_cas by (auto simp: crit_def e)
  then have "owners_ok ?s" using p(3) by (simp add: owners_ok_def e)
  moreover have "parent_ok ?s" using p by (simp add: parent_ok_def e crit_def)
  ultimately show ?thesis using lock_okD(1,3) [OF assms(1)] by (simp add: parent_step_def P_unlock_cas lock_ok_def pids_ok_def e)
qed (use assms(2) in simp)

lemma worker_init_ok: "lock_ok (worker_init n)"
  by (simp add: lock_ok_def worker_init_def local_ok_def parent_ok_def pids_ok_def owners_ok_def crit_def crit_pc_def kore_worker_spawn_def)

lemma wait_count: "worker_count (kore_worker_wait i s) = worker_count s"
  by (simp add: kore_worker_wait_def Let_def split: life.split option.split)

lemma parent_count: "worker_count (parent_step pid s) = worker_count s"
  by (simp add: parent_step_def unlock_current_def unlock_cas_def sync_cas_def split: ppc.split)

lemma lock_step_count: "lock_step s s' \<Longrightarrow> worker_count s' = worker_count s"
  by (induction rule: lock_step.induct) (simp_all add: worker_dies_def wait_count parent_count)

lemma lock_steps_count: "lock_step\<^sup>*\<^sup>* s s' \<Longrightarrow> worker_count s' = worker_count s"
  by (induction rule: rtranclp_induct) (auto dest: lock_step_count)

lemma lock_step_ok: "lock_step s s' \<Longrightarrow> lock_ok s \<Longrightarrow> worker_count s \<noteq> 1 \<Longrightarrow> lock_ok s'"
  by (induction rule: lock_step.induct) (auto intro: lock_ok_works lock_ok_dies lock_ok_waits lock_ok_parent)

lemma lock_steps_ok:
  assumes "lock_step\<^sup>*\<^sup>* s s'" "lock_ok s" "worker_count s \<noteq> 1"
  shows "lock_ok s'"
  using assms
proof (induction rule: rtranclp_induct)
  case (step y z)
  then show ?case using lock_step_ok lock_steps_count [OF step.hyps(1)] by metis
qed simp

lemma accepts_crit:
  assumes "lock_ok s" "accepts s i"
  shows "crit s i"
proof -
  have i: "i < worker_count s" "life (kw s i) = Running" "w_pc (kw s i) = Wait" "accepting (kw s i)" using assms(2) by (simp_all add: accepts_def)
  then have "crit_pc (kw s i)" using lock_okD(1) [OF assms(1) i(1)] by (simp add: local_ok_def crit_pc_def)
  then show ?thesis using parent_ok_alive(4) [OF lock_okD(2) [OF assms(1)] i(2,1)] i(1) by (simp add: crit_def)
qed

section \<open>A lost lock\<close>

text \<open>The lock is taken, no running worker is in its critical section, and the parent will not free it: the identifier in \<open>current\<close> is
  that of no process that can still die.\<close>

definition dead_owner :: "sys \<Rightarrow> nat \<Rightarrow> bool" where
  "dead_owner s i \<longleftrightarrow> life (kw s i) = Reaped \<or> (\<exists>st. life (kw s i) = Exited st \<and> \<not> gone st)"

definition lost :: "sys \<Rightarrow> bool" where
  "lost s \<longleftrightarrow> worker_count s \<noteq> 1 \<and> a_lock s = 1 \<and>
     (\<forall>i < worker_count s. life (kw s i) = Running \<longrightarrow> \<not> crit_pc (kw s i)) \<and>
     (a_current s \<noteq> 0 \<longrightarrow> (\<exists>i < worker_count s. kw_pid (kw s i) = a_current s)) \<and>
     (a_current s \<noteq> 0 \<longrightarrow> (\<forall>i < worker_count s. kw_pid (kw s i) = a_current s \<longrightarrow> dead_owner s i)) \<and>
     (case parent s of Starting i \<Rightarrow> True | Waiting \<Rightarrow> True | Reaping i \<Rightarrow> kw_pid (kw s i) \<noteq> a_current s
        | P_unlock_current i \<Rightarrow> False | P_unlock_cas i \<Rightarrow> False | Respawn i \<Rightarrow> a_current s = 0 \<or> kw_pid (kw s i) \<noteq> a_current s)"

lemma lost_works:
  assumes "lost s" "lock_ok s" "i < worker_count s" "life (kw s i) = Running"
  shows "lost (worker_step inp i s)"
proof -
  have c: "worker_count s \<noteq> 1" "a_lock s = 1" "\<not> crit_pc (kw s i)" using assms by (auto simp: lost_def)
  note l = worker_step_lock [OF lock_okD(1) [OF assms(2,3)] c(1)]
  have pc: "w_pc (kw s i) \<notin> {Set_current, Unlock_current, Unlock_cas}" using local_ok_crit [OF lock_okD(1) [OF assms(2,3)]] c(3) by blast
  have e: "a_lock (worker_step inp i s) = 1" "a_current (worker_step inp i s) = a_current s" "\<not> crit_pc (kw (worker_step inp i s) i)"
    using l pc c by auto
  have pd: "kw_pid (kw (worker_step inp i s) k) = kw_pid (kw s k)" for k
    using worker_step_pid worker_step_other by (cases "k = i") auto
  have "a_current s = 0 \<or> kw_pid (kw s i) \<noteq> a_current s" using assms(1,3,4) by (auto simp: lost_def dead_owner_def)
  then have d: "dead_owner (worker_step inp i s) k" if "a_current s \<noteq> 0" "kw_pid (kw s k) = a_current s" "dead_owner s k" for k
    using that worker_step_other [of k i] by (cases "k = i") (auto simp: dead_owner_def)
  have nc: "\<not> crit_pc (kw (worker_step inp i s) k)" if "k < worker_count s" "life (kw (worker_step inp i s) k) = Running" for k
    using that e(3) assms(1) worker_step_other [of k i] by (cases "k = i") (auto simp: lost_def)
  show ?thesis
    using assms(1) nc d unfolding lost_def worker_step_count e pd by (auto split: ppc.splits)
qed

lemma dead_owner_set_life: "dead_owner (set_kw s i ((kw s i)\<lparr>life := l\<rparr>)) k \<longleftrightarrow>
    (if k = i then l = Reaped \<or> (\<exists>st. l = Exited st \<and> \<not> gone st) else dead_owner s k)"
  by (simp add: dead_owner_def kw_set_life)

lemma lost_dies:
  assumes "lost s" "i < worker_count s" "life (kw s i) = Running"
  shows "lost (worker_dies st i s)"
  using assms unfolding lost_def worker_dies_def kw_set_life set_kw_simps dead_owner_set_life
  by (auto simp: dead_owner_def split: ppc.splits)

lemma lost_reaped:
  assumes "lost s" "i < worker_count s"
  shows "lost (set_kw s i ((kw s i)\<lparr>life := Reaped\<rparr>))"
  using assms unfolding lost_def kw_set_life set_kw_simps dead_owner_set_life by (auto split: ppc.splits)

lemma lost_waits:
  assumes "lost s" "lock_ok s" "i < worker_count s" "parent s = Waiting" "life (kw s i) = Exited st"
  shows "lost (kore_worker_wait i s)"
proof -
  let ?s = "set_kw s i ((kw s i)\<lparr>life := Reaped\<rparr>)"
  have p: "kw_pid (kw s i) \<noteq> 0" using lock_okD(3) [OF assms(2)] assms(3,5) by (simp add: pids_ok_def)
  have "kw_pid (kw s i) \<noteq> a_current s" if "gone st"
    using that assms(1,3,5) p by (auto simp: lost_def dead_owner_def)
  then have "lost (?s\<lparr>parent := Reaping i\<rparr>)" if "gone st"
    using that lost_reaped [OF assms(1,3)] assms(4) by (simp add: lost_def kw_set_life dead_owner_def)
  then show ?thesis using wait_eq [OF assms(2,3,5)] lost_reaped [OF assms(1,3)] by simp
qed

lemma lost_spawn:
  assumes "lost s" "fresh_pid pid s" "kw_pid (kw s i) \<noteq> a_current s \<or> a_current s = 0" "q = Waiting \<or> (\<exists>k. q = Starting k)"
  shows "lost ((set_kw s i (kore_worker_spawn pid))\<lparr>parent := q\<rparr>)"
proof -
  let ?s = "(set_kw s i (kore_worker_spawn pid))\<lparr>parent := q\<rparr>"
  have o: "\<exists>k < worker_count s. kw_pid (kw s k) = a_current s" if "a_current s \<noteq> 0" using assms(1) that by (simp add: lost_def)
  then have f: "pid \<noteq> a_current s" using assms(2) by (auto simp: fresh_pid_def)
  have "a_current s \<noteq> 0 \<longrightarrow> (\<exists>k < worker_count s. kw_pid (kw ?s k) = a_current s)" using o assms(3) by (auto simp: kw_set_kw)
  moreover have "a_current s \<noteq> 0 \<longrightarrow> (\<forall>k < worker_count s. kw_pid (kw ?s k) = a_current s \<longrightarrow> dead_owner ?s k)"
    using assms(1) f by (auto simp: kw_set_kw lost_def dead_owner_def)
  moreover have "\<forall>k < worker_count s. life (kw ?s k) = Running \<longrightarrow> \<not> crit_pc (kw ?s k)"
    using assms(1) by (auto simp: kw_set_kw lost_def)
  ultimately show ?thesis using assms(1,4) by (auto simp: lost_def)
qed

lemma lost_parent:
  assumes "lost s" "lock_ok s" "parent s \<noteq> Waiting" "fresh_pid pid s"
  shows "lost (parent_step pid s)"
proof (cases "parent s")
  case (Starting i)
  then have "kw_pid (kw s i) = 0" using lock_okD(2) [OF assms(2)] by (simp add: parent_ok_def)
  then show ?thesis using lost_spawn [OF assms(1,4), of i] Starting by (auto simp: parent_step_def)
next
  case (Respawn i)
  then have "kw_pid (kw s i) \<noteq> a_current s \<or> a_current s = 0" using assms(1) by (auto simp: lost_def)
  then show ?thesis using lost_spawn [OF assms(1,4), of i] Respawn by (simp add: parent_step_def)
next
  case (Reaping i)
  then show ?thesis using assms(1) by (simp add: parent_step_def lost_def dead_owner_def)
qed (use assms(1,3) in \<open>simp_all add: lost_def\<close>)

lemma lost_step: "lock_step s s' \<Longrightarrow> lost s \<Longrightarrow> lock_ok s \<Longrightarrow> lost s'"
  by (induction rule: lock_step.induct) (auto intro: lost_works lost_dies lost_waits lost_parent)

lemma lost_steps:
  assumes "lock_step\<^sup>*\<^sup>* s s'" "lost s" "lock_ok s"
  shows "lost s' \<and> lock_ok s'"
  using assms
proof (induction rule: rtranclp_induct)
  case (step y z)
  then have "lost y" "lock_ok y" by simp_all
  moreover have "worker_count y \<noteq> 1" using \<open>lost y\<close> by (simp add: lost_def)
  ultimately show ?case using lost_step lock_step_ok step.hyps(2) by blast
qed simp

lemma lost_accepts: "lost s \<Longrightarrow> lock_ok s \<Longrightarrow> \<not> accepts s i"
  using accepts_crit [of s i] by (auto simp: lost_def accepts_def crit_def)

section \<open>Properties\<close>

text \<open>(C37) Mutual exclusion: however the steps of the workers and of the parent interleave, and wherever workers die and are
  replaced, at most one worker waits for new connections.\<close>

theorem accept_exclusive:
  assumes "lock_step\<^sup>*\<^sup>* (worker_init n) s" and "accepts s i" and "accepts s k"
  shows "i = k"
proof (cases "worker_count s = 1")
  case True
  then show ?thesis using assms(2,3) by (simp add: accepts_def)
next
  case False
  then have "lock_ok s" using lock_steps_ok [OF assms(1) worker_init_ok] lock_steps_count [OF assms(1)] by simp
  then have "crit s i" "crit s k" "owners_ok s" using accepts_crit assms(2,3) lock_okD(4) by blast+
  then show ?thesis unfolding owners_ok_def by blast
qed

text \<open>A worker that leaves for good while it holds the lock: killed between the swap and the writes to \<open>current\<close>, or told to
  quit.\<close>

definition leaves_locked :: "sys \<Rightarrow> nat \<Rightarrow> sys \<Rightarrow> bool" where
  "leaves_locked s i s1 \<longleftrightarrow>
     (w_pc (kw s i) \<in> {Set_current, Unlock_cas} \<and> (\<exists>st. gone st \<and> s1 = worker_dies st i s)) \<or>
     (w_pc (kw s i) = Rest \<and> w_quit (kw s i) \<and> kw_has_lock (kw s i) \<and> (\<exists>inp. s1 = worker_step inp i s))"

lemma leaves_locked_lost:
  assumes "lock_ok s" "i < worker_count s" "worker_count s \<noteq> 1" "life (kw s i) = Running" "leaves_locked s i s1"
  shows "lost s1" "lock_ok s1"
proof -
  have step: "lock_step s s1" using assms(2,4,5) by (auto simp: leaves_locked_def intro: lock_step.intros)
  then show "lock_ok s1" using lock_step_ok assms(1,3) by blast
  note p = parent_ok_alive [OF lock_okD(2) [OF assms(1)] assms(4,2)]
  have "crit_pc (kw s i)" using assms(5) local_ok_crit [OF lock_okD(1) [OF assms(1,2)]] by (auto simp: leaves_locked_def crit_pc_def)
  then have ci: "crit s i" using p(4) assms(2) by (simp add: crit_def)
  then have o: "a_lock s = 1" "crit s k \<Longrightarrow> k = i" "a_current s \<noteq> 0 \<Longrightarrow> owner_pc (kw s i) \<and> kw_pid (kw s i) = a_current s" for k
    using lock_okD(4) [OF assms(1)] unfolding owners_ok_def by metis+
  have r: "\<not> crit_pc (kw s k)" if "k < worker_count s" "k \<noteq> i" "life (kw s k) = Running" for k
    using o(2) [of k] that parent_ok_alive(4) [OF lock_okD(2) [OF assms(1)] that(3,1)] by (auto simp: crit_def)
  have pu: "parent s \<noteq> P_unlock_current k" "parent s \<noteq> P_unlock_cas k" for k
    using lock_okD(2) [OF assms(1)] o(2) p(2,3) by (auto simp: parent_ok_def)
  have pr: "kw_pid (kw s k) \<noteq> a_current s" if "parent s = Reaping k \<or> (parent s = Respawn k \<and> kw_pid (kw s k) \<noteq> 0)" for k
  proof -
    have k: "k < worker_count s" "kw_pid (kw s k) \<noteq> 0" "k \<noteq> i" using that lock_okD(2) [OF assms(1)] p by (auto simp: parent_ok_def)
    then show ?thesis using o(3) lock_okD(3) [OF assms(1)] assms(2) unfolding pids_ok_def by metis
  qed
  obtain st where s1: "s1 = set_kw s i ((kw s i)\<lparr>life := Exited st\<rparr>)" and st: "a_current s \<noteq> 0 \<longrightarrow> \<not> gone st"
  proof (cases "w_pc (kw s i) = Rest")
    case True
    then have "s1 = set_kw s i ((kw s i)\<lparr>life := Exited 0\<rparr>)" using assms(5) by (auto simp: leaves_locked_def worker_step_def)
    moreover have "\<not> gone 0" by (simp add: gone_def WEXITSTATUS_def WTERMSIG_def WCOREDUMP_def)
    ultimately show ?thesis using that by blast
  next
    case False
    then have "w_pc (kw s i) \<in> {Set_current, Unlock_cas}" using assms(5) by (auto simp: leaves_locked_def)
    then have "a_current s = 0" using o(3) by (auto simp: owner_pc_def)
    then show ?thesis using that False assms(5) by (auto simp: leaves_locked_def worker_dies_def)
  qed
  have run: "\<forall>k < worker_count s. (if k = i then Exited st else life (kw s k)) = Running \<longrightarrow> \<not> crit_pc (kw s k)" using r by simp
  have own: "k = i" if "a_current s \<noteq> 0" "k < worker_count s" "kw_pid (kw s k) = a_current s" for k
    using that o(3) lock_okD(3) [OF assms(1)] assms(2) unfolding pids_ok_def by metis
  have par: "case parent s of Starting i \<Rightarrow> True | Waiting \<Rightarrow> True | Reaping i \<Rightarrow> kw_pid (kw s i) \<noteq> a_current s
        | P_unlock_current i \<Rightarrow> False | P_unlock_cas i \<Rightarrow> False | Respawn i \<Rightarrow> a_current s = 0 \<or> kw_pid (kw s i) \<noteq> a_current s"
    using pu pr by (cases "parent s") auto
  show "lost s1"
    unfolding lost_def s1 set_kw_simps kw_set_life dead_owner_set_life
    using run o(1,3) assms(2,3) par by (intro conjI) (use own st in auto)
qed

text \<open>(C38) A lost lock: when a worker dies between taking the lock and noting itself as its holder, or between clearing this note and freeing the
  lock, or when it quits with the lock, then no worker ever takes a connection again, whatever the others and the parent
  do.\<close>

theorem accept_lock_lost:
  assumes "lock_step\<^sup>*\<^sup>* (worker_init n) s" and "1 < n" and "i < n" and "life (kw s i) = Running" and "leaves_locked s i s1"
    and "lock_step\<^sup>*\<^sup>* s1 s2"
  shows "\<not> accepts s2 k"
proof -
  have c: "worker_count s = n" using lock_steps_count [OF assms(1)] assms(2) by (simp add: worker_init_def)
  then have "lock_ok s" using lock_steps_ok [OF assms(1) worker_init_ok] assms(2) by (simp add: worker_init_def)
  then have "lost s1" "lock_ok s1" using leaves_locked_lost assms(2-5) c by auto
  then show ?thesis using lost_steps [OF assms(6)] lost_accepts by blast
qed

lemma length_clear_pid [simp]: "length (clear_pid p xs) = length xs"
  by (induction xs) auto

lemma length_wait_final [simp]: "length (fst (wait_final pc)) = length (fst pc)"
  by (auto simp: wait_final_def split: prod.split list.split)

lemma shutdown_pass_done:
  "shutdown_pass ks n pc = (n', pc') \<Longrightarrow> n' \<le> n + length ks \<and> length (fst pc') = length (fst pc)"
  by (induction ks n pc arbitrary: n' pc' rule: shutdown_pass.induct) (fastforce split: if_splits)+

lemma clear_pid_keeps: "q \<in> set xs \<Longrightarrow> q \<noteq> p \<Longrightarrow> q \<in> set (clear_pid p xs)"
  by (induction xs) auto

text \<open>An entry that belongs to no child stays.\<close>

lemma clear_pid_nth: "k < length xs \<Longrightarrow> clear_pid p xs ! k = (if xs ! k = p \<and> p \<notin> set (take k xs) then 0 else xs ! k)"
proof (induction xs arbitrary: k)
  case (Cons x xs)
  then show ?case by (cases k) auto
qed simp

definition stuck :: "int list \<times> int list \<Rightarrow> nat \<Rightarrow> bool" where
  "stuck pc k \<longleftrightarrow> k < length (fst pc) \<and> fst pc ! k \<noteq> 0 \<and> fst pc ! k \<notin> set (snd pc)"

lemma stuck_wait: "stuck pc k \<Longrightarrow> stuck (wait_final pc) k"
  by (auto simp: stuck_def wait_final_def clear_pid_nth split: prod.splits list.splits)

lemma stuck_pass:
  assumes "stuck pc k" "shutdown_pass ks n pc = (n', pc')"
  shows "stuck pc' k \<and> (k \<in> set ks \<longrightarrow> n' < n + length ks)"
  using assms
proof (induction ks n pc rule: shutdown_pass.induct)
  case (2 i ks n pc)
  show ?case
  proof (cases "fst pc ! i \<noteq> 0")
    case True
    then have "shutdown_pass ks n (wait_final pc) = (n', pc')" using "2.prems"(2) by simp
    moreover from this have "n' \<le> n + length ks" using shutdown_pass_done by blast
    ultimately show ?thesis using "2.IH"(1) [OF True stuck_wait [OF "2.prems"(1)]] by simp
  next
    case False
    then have "shutdown_pass ks (Suc n) pc = (n', pc')" "k \<noteq> i" using "2.prems" by (auto simp: stuck_def)
    then show ?thesis using "2.IH"(2) [OF _ "2.prems"(1)] False by simp
  qed
qed simp

text \<open>With every entry a child that is still to be waited for, a pass that is not the last one uses up a child.\<close>

definition all_children :: "int list \<times> int list \<Rightarrow> bool" where
  "all_children pc \<longleftrightarrow> distinct (filter (\<lambda>p. p \<noteq> 0) (fst pc)) \<and> set (fst pc) - {0} \<subseteq> set (snd pc)"

lemma clear_pid_filter: "filter (\<lambda>p. p \<noteq> 0) (clear_pid q xs) = remove1 q (filter (\<lambda>p. p \<noteq> 0) xs)" if "q \<noteq> 0"
  using that by (induction xs) auto

lemma clear_pid_zero [simp]: "clear_pid 0 xs = xs"
  by (induction xs) auto

lemma set_filter_zero: "set xs - {0} = set (filter (\<lambda>p. p \<noteq> (0 :: int)) xs)"
  by auto

lemma all_children_wait: "all_children pc \<Longrightarrow> all_children (wait_final pc)"
proof -
  assume a: "all_children pc"
  obtain pids cs where pc: "pc = (pids, cs)" by (cases pc)
  show ?thesis
  proof (cases cs)
    case (Cons q qs)
    show ?thesis
    proof (cases "q = 0")
      case False
      then show ?thesis
        using a pc Cons by (auto simp: all_children_def wait_final_def set_filter_zero clear_pid_filter distinct_remove1)
    qed (use a pc Cons in \<open>auto simp: all_children_def wait_final_def\<close>)
  qed (use a pc in \<open>simp add: all_children_def wait_final_def\<close>)
qed

lemma snd_wait_final: "snd (wait_final pc) = tl (snd pc)"
  by (simp add: wait_final_def split: prod.split list.split)

lemma all_children_busy: "all_children pc \<Longrightarrow> i < length (fst pc) \<Longrightarrow> fst pc ! i \<noteq> 0 \<Longrightarrow> snd pc \<noteq> []"
  unfolding all_children_def by (metis DiffI empty_iff empty_set nth_mem singletonD subsetD)

lemma shutdown_pass_progress:
  assumes "all_children pc" "shutdown_pass ks n pc = (n', pc')"
  shows "all_children pc' \<and> length (snd pc') \<le> length (snd pc) \<and> (n' < n + length ks \<and> set ks \<subseteq> {..<length (fst pc)} \<longrightarrow> length (snd pc') < length (snd pc))"
  using assms
proof (induction ks n pc rule: shutdown_pass.induct)
  case (2 i ks n pc)
  show ?case
  proof (cases "fst pc ! i \<noteq> 0")
    case True
    then have e: "shutdown_pass ks n (wait_final pc) = (n', pc')" using "2.prems"(2) by simp
    have "length (snd (wait_final pc)) \<le> length (snd pc)" "i < length (fst pc) \<longrightarrow> length (snd (wait_final pc)) < length (snd pc)"
      using all_children_busy [OF "2.prems"(1) _ True] by (simp_all add: snd_wait_final)
    then show ?thesis using "2.IH"(1) [OF True all_children_wait [OF "2.prems"(1)] e] by auto
  next
    case False
    then have "shutdown_pass ks (Suc n) pc = (n', pc')" using "2.prems"(2) by simp
    then show ?thesis using "2.IH"(2) [OF _ "2.prems"(1)] False by simp
  qed
qed simp

lemma kore_worker_shutdown_ends:
  "all_children pc \<Longrightarrow> length (snd pc) < fuel \<Longrightarrow> \<exists>pc'. kore_worker_shutdown fuel pc = Inr pc'"
proof (induction fuel arbitrary: pc)
  case (Suc fuel)
  obtain n pc1 where e: "shutdown_pass [0..<length (fst pc)] 0 pc = (n, pc1)" by (cases "shutdown_pass [0..<length (fst pc)] 0 pc")
  show ?case
  proof (cases "n = length (fst pc)")
    case False
    then have "n < length (fst pc)" using shutdown_pass_done [OF e] by simp
    then have "all_children pc1" "length (snd pc1) < length (snd pc)"
      using shutdown_pass_progress [OF Suc.prems(1) e] by (simp_all add: subset_eq)
    then show ?thesis using Suc.IH [of pc1] Suc.prems(2) e False by simp
  qed (simp add: e)
qed simp

lemma kore_worker_shutdown_spins: "stuck pc k \<Longrightarrow> kore_worker_shutdown fuel pc = Inl Out_of_fuel"
proof (induction fuel arbitrary: pc)
  case (Suc fuel)
  obtain n pc1 where e: "shutdown_pass [0..<length (fst pc)] 0 pc = (n, pc1)" by (cases "shutdown_pass [0..<length (fst pc)] 0 pc")
  have "k \<in> set [0..<length (fst pc)]" using Suc.prems by (simp add: stuck_def)
  then have "stuck pc1 k" "n \<noteq> length (fst pc)" using stuck_pass [OF Suc.prems e] by auto
  then show ?case using Suc.IH e by simp
qed simp

text \<open>(C39) When the parent shuts down, \<open>kore_worker_shutdown\<close> returns exactly if every identifier left in the table is that of a child
  that was not waited for yet. A worker that quit on its own stays in the table after it was waited for, and the parent
  then never ends.\<close>

theorem kore_worker_shutdown_ends_iff:
  assumes "distinct (filter (\<lambda>p. p \<noteq> 0) pids)"
  shows "(\<exists>fuel r. kore_worker_shutdown fuel (pids, children) = Inr r) \<longleftrightarrow> set pids - {0} \<subseteq> set children"
proof
  assume "set pids - {0} \<subseteq> set children"
  then have "all_children (pids, children)" using assms by (simp add: all_children_def)
  then show "\<exists>fuel r. kore_worker_shutdown fuel (pids, children) = Inr r" using kore_worker_shutdown_ends by fastforce
next
  assume "\<exists>fuel r. kore_worker_shutdown fuel (pids, children) = Inr r"
  then have "\<not> stuck (pids, children) k" for k using kore_worker_shutdown_spins by fastforce
  then show "set pids - {0} \<subseteq> set children" unfolding stuck_def fst_conv snd_conv by (metis DiffE in_set_conv_nth insertI1 subsetI)
qed

section \<open>Witnesses\<close>

definition busy :: turn_in where "busy = \<lparr>in_now = 1, in_quit = False, in_full = False, in_events = True\<rparr>"

text \<open>Worker 0 takes the lock and waits; worker 0 dies just after taking it, and worker 1 and its successor get nowhere.\<close>

definition waiting_run :: "lock_event list" where
  "waiting_run = [Parent 11, Parent 12] @ replicate 7 (Works 0 busy)"

definition dying_run :: "lock_event list" where
  "dying_run = [Parent 11, Parent 12] @ replicate 3 (Works 0 busy)"

theorem accept_exclusive_witness: "{k. accepts (the (lock_run (worker_init 2) waiting_run)) k} = {0}"
proof -
  let ?s = "the (lock_run (worker_init 2) waiting_run)"
  have "lock_run (worker_init 2) waiting_run \<noteq> None" by code_simp
  then have "lock_step\<^sup>*\<^sup>* (worker_init 2) ?s" by (rule lock_run_the)
  moreover have a: "accepts ?s 0" by code_simp
  ultimately have "k = 0" if "accepts ?s k" for k using accept_exclusive that by blast
  then show ?thesis using a by blast
qed

theorem accept_lock_lost_witness:
  "\<not> accepts (the (lock_run (worker_dies 9 0 (the (lock_run (worker_init 2) dying_run)))
     ([Waits 0, Parent 13, Parent 13] @ replicate 5 (Works 1 busy)))) 1"
proof -
  let ?s = "the (lock_run (worker_init 2) dying_run)" and ?es = "[Waits 0, Parent 13, Parent 13] @ replicate 5 (Works 1 busy)"
  let ?s1 = "worker_dies 9 0 ?s"
  have "lock_run (worker_init 2) dying_run \<noteq> None" by code_simp
  then have r: "lock_step\<^sup>*\<^sup>* (worker_init 2) ?s" by (rule lock_run_the)
  have l: "life (kw ?s 0) = Running" "w_pc (kw ?s 0) = Set_current" "gone 9" by code_simp+
  have "lock_run ?s1 ?es \<noteq> None" by code_simp
  then have "lock_step\<^sup>*\<^sup>* ?s1 (the (lock_run ?s1 ?es))" by (rule lock_run_the)
  moreover have "leaves_locked ?s 0 ?s1" using l by (auto simp: leaves_locked_def)
  ultimately show ?thesis using accept_lock_lost [OF r _ _ l(1)] by simp
qed

theorem kore_worker_shutdown_ends_iff_witness:
  "(\<exists>fuel r. kore_worker_shutdown fuel ([11, 0], [12, 11]) = Inr r) \<and> \<not> (\<exists>fuel r. kore_worker_shutdown fuel ([11, 12], [11]) = Inr r)"
  using kore_worker_shutdown_ends_iff [of "[11, 0]" "[12, 11]"] kore_worker_shutdown_ends_iff [of "[11, 12]" "[11]"] by auto

end
