(* ===== verification/Kore_Mem.thy ===== *)
theory Kore_Mem
  imports Kore_Pool Kore_Str
begin

text \<open>
  The allocator of \<open>base/kore/mem.c\<close>. Small blocks come from eleven pools (\<open>Kore_Pool\<close>) for the sizes 8 to 8192, larger ones from
  \<open>calloc\<close>. In front of a block lies its size, behind it a magic number that \<open>kore_free\<close> and \<open>kore_realloc\<close> check.

  Unlike in the other theories memory is a map from addresses to bytes here, since the point is where the allocator writes. The
  headers of the pool elements are part of the pools. The answers of \<open>mmap\<close> and \<open>calloc\<close> are arguments; what
  fresh memory holds is whatever \<open>ram\<close> has there.
\<close>

section \<open>Memory\<close>

definition KORE_MEM_BLOCKS :: nat where "KORE_MEM_BLOCKS = 11"
definition KORE_MEM_BLOCK_SIZE_MAX :: nat where "KORE_MEM_BLOCK_SIZE_MAX = 8192"
definition KORE_MEM_BLOCK_PREALLOC :: nat where "KORE_MEM_BLOCK_PREALLOC = 128"
definition sizeof_size_t :: nat where "sizeof_size_t = 8"
definition sizeof_meminfo :: nat where "sizeof_meminfo = 2"

text \<open>\<open>0xd0d0\<close> as its two bytes.\<close>

definition KORE_MEM_MAGIC :: "byte list" where "KORE_MEM_MAGIC = [0xd0, 0xd0]"

lemmas mem_sizes = KORE_MEM_BLOCKS_def KORE_MEM_BLOCK_SIZE_MAX_def sizeof_size_t_def sizeof_meminfo_def

type_synonym ram = "nat \<Rightarrow> byte"

definition ram_read :: "ram \<Rightarrow> nat \<Rightarrow> nat \<Rightarrow> byte list" where
  "ram_read m a n = map m [a..<a + n]"

definition ram_write :: "ram \<Rightarrow> nat \<Rightarrow> byte list \<Rightarrow> ram" where
  "ram_write m a xs = (\<lambda>x. if a \<le> x \<and> x < a + length xs then xs ! (x - a) else m x)"

text \<open>A \<open>size_t\<close> in memory, least significant byte first.\<close>

fun enc_le :: "nat \<Rightarrow> nat \<Rightarrow> byte list" where
  "enc_le 0 n = []"
| "enc_le (Suc k) n = word_of_nat (n mod 256) # enc_le k (n div 256)"

fun dec_le :: "byte list \<Rightarrow> nat" where
  "dec_le [] = 0"
| "dec_le (b # xs) = unat b + 256 * dec_le xs"

text \<open>The state: the pools, the blocks of \<open>calloc\<close> with their lengths, and the bytes.\<close>

record memory =
  blocks :: "kore_pool list"
  bigs :: "(nat \<times> nat) list"
  ram :: ram

record mem_env =
  e_mmap :: "nat \<Rightarrow> nat option"
  e_calloc :: "nat \<Rightarrow> nat option"

definition KORE_MEMSIZE :: "memory \<Rightarrow> nat \<Rightarrow> nat" where
  "KORE_MEMSIZE m ptr = dec_le (ram_read (ram m) (ptr - sizeof_size_t) sizeof_size_t)"

definition KORE_MEMINFO :: "memory \<Rightarrow> nat \<Rightarrow> nat" where
  "KORE_MEMINFO m ptr = ptr + KORE_MEMSIZE m ptr"

definition magic_at :: "memory \<Rightarrow> nat \<Rightarrow> byte list" where
  "magic_at m a = ram_read (ram m) a sizeof_meminfo"

section \<open>Operations\<close>

text \<open>The size of the elements of a pool, computed in 32 bits.\<close>

definition block_mlen :: "nat \<Rightarrow> nat" where
  "block_mlen sz =
     unat ((word_of_nat (sizeof_size_t + sz + sizeof_meminfo + sizeof_size_t) :: u32) AND NOT (word_of_nat (sizeof_size_t - 1)))"

fun mem_init_loop :: "(nat \<Rightarrow> nat \<Rightarrow> nat option) \<Rightarrow> nat \<Rightarrow> nat \<Rightarrow> kore_pool list \<Rightarrow> kore_pool list res" where
  "mem_init_loop mm 0 sz bl = Inr bl"
| "mem_init_loop mm (Suc n) sz bl =
     rbind (kore_pool_init (mm (length bl)) ''block'' (block_mlen sz) ((KORE_MEM_BLOCK_PREALLOC * 1024) div sz))
       (\<lambda>pool. mem_init_loop mm n (2 * sz) (bl @ [pool]))"

text \<open>The name of a pool is only used in messages. \<open>mm i\<close> answers the \<open>mmap\<close> for pool \<open>i\<close>.\<close>

definition kore_mem_init :: "(nat \<Rightarrow> nat \<Rightarrow> nat option) \<Rightarrow> ram \<Rightarrow> memory res" where
  "kore_mem_init mm r =
     rbind (mem_init_loop mm KORE_MEM_BLOCKS 8 []) (\<lambda>bl. Inr \<lparr>blocks = bl, bigs = [], ram = r\<rparr>)"

text \<open>The loop of \<open>memblock_index\<close>; in 64 bits it ends or runs for ever within 64 turns.\<close>

fun index_loop :: "nat \<Rightarrow> nat \<Rightarrow> nat \<Rightarrow> nat \<Rightarrow> nat res" where
  "index_loop 0 mlen idx len = Inl Out_of_fuel"
| "index_loop (Suc fuel) mlen idx len = (if mlen < len then index_loop fuel ((2 * mlen) mod 2 ^ 64) (idx + 1) len else Inr idx)"

definition memblock_index :: "nat \<Rightarrow> nat res" where
  "memblock_index len =
     rbind (index_loop 64 8 0 len) (\<lambda>idx. if idx > KORE_MEM_BLOCKS - 1 then Inl (Fatal ''idx too high'') else Inr idx)"

text \<open>The size and the magic number are written into a block of \<open>blen\<close> bytes at \<open>ptr\<close>.\<close>

definition mem_mark :: "nat \<Rightarrow> nat \<Rightarrow> nat \<Rightarrow> memory \<Rightarrow> (memory \<times> nat) res" where
  "mem_mark blen ptr len m =
     (if blen < sizeof_size_t + len + sizeof_meminfo then Inl Out_of_bounds
      else let addr = ptr + sizeof_size_t in
        Inr (m\<lparr>ram := ram_write (ram_write (ram m) ptr (enc_le 8 len)) (addr + len) KORE_MEM_MAGIC\<rparr>, addr))"

definition kore_malloc :: "mem_env \<Rightarrow> nat \<Rightarrow> memory \<Rightarrow> (memory \<times> nat) res" where
  "kore_malloc env len m =
     (if len = 0 then Inl (Fatal ''kore_malloc(): zero size'')
      else if len \<le> KORE_MEM_BLOCK_SIZE_MAX then
        rbind (memblock_index len) (\<lambda>idx.
          if length (blocks m) \<le> idx then Inl Out_of_bounds
          else rbind (kore_pool_get (e_mmap env) (blocks m ! idx)) (\<lambda>(pool, ptr).
            mem_mark (elen pool) ptr len (m\<lparr>blocks := (blocks m)[idx := pool]\<rparr>)))
      else let mlen = wadd64 (wadd64 sizeof_size_t len) sizeof_meminfo in
        case e_calloc env mlen of
          None \<Rightarrow> Inl (Fatal ''kore_malloc'')
        | Some ptr \<Rightarrow> mem_mark mlen ptr len (m\<lparr>bigs := (ptr, mlen) # bigs m, ram := ram_write (ram m) ptr (replicate mlen 0)\<rparr>))"

definition kore_free :: "nat option \<Rightarrow> memory \<Rightarrow> memory res" where
  "kore_free p m =
     (case p of
        None \<Rightarrow> Inr m
      | Some ptr \<Rightarrow>
          if magic_at m (KORE_MEMINFO m ptr) \<noteq> KORE_MEM_MAGIC then Inl (Fatal ''kore_free(): magic boundary not found'')
          else let len = KORE_MEMSIZE m ptr; addr = ptr - sizeof_size_t in
            if len \<le> KORE_MEM_BLOCK_SIZE_MAX then
              rbind (memblock_index len) (\<lambda>idx.
                if length (blocks m) \<le> idx then Inl Out_of_bounds
                else rbind (kore_pool_put (blocks m ! idx) addr) (\<lambda>pool. Inr (m\<lparr>blocks := (blocks m)[idx := pool]\<rparr>)))
            else if addr \<in> fst ` set (bigs m) then Inr (m\<lparr>bigs := filter (\<lambda>b. fst b \<noteq> addr) (bigs m)\<rparr>)
            else Inl Use_after_free)"

definition kore_realloc :: "mem_env \<Rightarrow> nat option \<Rightarrow> nat \<Rightarrow> memory \<Rightarrow> (memory \<times> nat) res" where
  "kore_realloc env p len m =
     (if len = 0 then Inl (Fatal ''kore_realloc(): zero size'')
      else case p of
          None \<Rightarrow> kore_malloc env len m
        | Some ptr \<Rightarrow>
            if magic_at m (KORE_MEMINFO m ptr) \<noteq> KORE_MEM_MAGIC then Inl (Fatal ''kore_realloc(): magic boundary not found'')
            else rbind (kore_malloc env len m) (\<lambda>(m1, nptr).
              let m2 = m1\<lparr>ram := ram_write (ram m1) nptr (ram_read (ram m1) ptr (min len (KORE_MEMSIZE m1 ptr)))\<rparr> in
              rbind (kore_free (Some ptr) m2) (\<lambda>m3. Inr (m3, nptr))))"

definition kore_calloc :: "mem_env \<Rightarrow> nat \<Rightarrow> nat \<Rightarrow> memory \<Rightarrow> (memory \<times> nat) res" where
  "kore_calloc env memb len m =
     (if memb = 0 \<or> len = 0 then Inl (Fatal ''kore_calloc(): zero size'')
      else if SIZE_MAX div memb < len then Inl (Fatal ''kore_calloc(): memb * len > SIZE_MAX'')
      else kore_malloc env (memb * len) m)"

text \<open>\<open>str\<close> is the memory from the string on.\<close>

definition kore_strndup :: "mem_env \<Rightarrow> byte list \<Rightarrow> nat \<Rightarrow> memory \<Rightarrow> (memory \<times> nat) res" where
  "kore_strndup env str len m =
     rbind (if len = 0 then rbind (scan_nul str) (\<lambda>n. Inr (n + 1)) else Inr len) (\<lambda>alen.
     rbind (kore_malloc env alen m) (\<lambda>(m1, nstr).
     rbind (kore_strlcpy str alen) (\<lambda>(w, _). Inr (m1\<lparr>ram := ram_write (ram m1) nstr w\<rparr>, nstr))))"

definition kore_strdup :: "mem_env \<Rightarrow> byte list \<Rightarrow> memory \<Rightarrow> (memory \<times> nat) res" where
  "kore_strdup env str m = kore_strndup env str 0 m"

section \<open>Bytes and sizes\<close>

lemma length_enc_le [simp]: "length (enc_le k n) = k"
  by (induction k arbitrary: n) auto

lemma dec_enc_le: "n < 256 ^ k \<Longrightarrow> dec_le (enc_le k n) = n"
proof (induction k arbitrary: n)
  case (Suc k)
  then have "n div 256 < 256 ^ k" by (simp add: less_mult_imp_div_less mult.commute)
  moreover have "unat (word_of_nat (n mod 256) :: byte) = n mod 256" by (simp add: unat_of_nat)
  ultimately show ?case using Suc.IH by simp
qed simp

lemma length_ram_read [simp]: "length (ram_read m a n) = n"
  by (simp add: ram_read_def)

lemma ram_read_write_same: "n = length xs \<Longrightarrow> ram_read (ram_write m a xs) a n = xs"
  by (rule nth_equalityI) (auto simp: ram_read_def ram_write_def)

lemma ram_read_write_other: "a + length xs \<le> b \<or> b + n \<le> a \<Longrightarrow> ram_read (ram_write m a xs) b n = ram_read m b n"
  by (auto simp: ram_read_def ram_write_def)

lemma index_loop_pow:
  assumes "len \<le> 8 * 2 ^ j" "j \<le> 10" "i \<le> j" "j < i + fuel" "i = 0 \<or> 8 * 2 ^ (i - 1) < len"
  shows "\<exists>k. index_loop fuel (8 * 2 ^ i) i len = Inr k \<and> k \<le> j \<and> len \<le> 8 * 2 ^ k \<and> (k = 0 \<or> 8 * 2 ^ (k - 1) < len)"
  using assms
proof (induction fuel arbitrary: i)
  case (Suc fuel)
  show ?case
  proof (cases "8 * 2 ^ i < len")
    case True
    then have "(8 :: nat) * 2 ^ i < 8 * 2 ^ j" using Suc.prems(1) by (rule less_le_trans)
    then have ij: "i < j" by simp
    have "(8 :: nat) * 2 ^ Suc i \<le> 8 * 2 ^ 10" using ij Suc.prems(2) by (intro mult_le_mono2 power_increasing) auto
    then have "(2 * (8 * 2 ^ i)) mod 2 ^ 64 = (8 :: nat) * 2 ^ Suc i" by simp
    then show ?thesis using Suc.IH [of "Suc i"] Suc.prems ij True by simp
  qed (use Suc.prems in auto)
qed simp

lemma memblock_index_ok:
  assumes "len \<le> KORE_MEM_BLOCK_SIZE_MAX"
  shows "\<exists>k. memblock_index len = Inr k \<and> k \<le> 10 \<and> len \<le> 8 * 2 ^ k \<and> (k = 0 \<or> 8 * 2 ^ (k - 1) < len)"
  using index_loop_pow [of len 10 0 64] assms by (auto simp: memblock_index_def mem_sizes)

lemma block_mlen_values: "i \<le> 10 \<Longrightarrow> block_mlen (8 * 2 ^ i) = 8 * 2 ^ i + 16"
proof -
  assume "i \<le> 10"
  then have "i \<in> {0, 1, 2, 3, 4, 5, 6, 7, 8, 9, 10}" unfolding insert_iff empty_iff by presburger
  then show ?thesis by (elim insertE; simp add: block_mlen_def mem_sizes)
qed

section \<open>The invariant\<close>

text \<open>Areas of memory, as start and length.\<close>

definition apart :: "nat \<times> nat \<Rightarrow> nat \<times> nat \<Rightarrow> bool" where
  "apart a b \<longleftrightarrow> fst a + snd a \<le> fst b \<or> fst b + snd b \<le> fst a"

definition within :: "nat \<times> nat \<Rightarrow> nat \<times> nat \<Rightarrow> bool" where
  "within a b \<longleftrightarrow> fst b \<le> fst a \<and> fst a + snd a \<le> fst b + snd b"

lemma apart_within: "apart c d \<Longrightarrow> within a c \<Longrightarrow> within b d \<Longrightarrow> apart a b"
  by (auto simp: apart_def within_def)

lemma apart_sym: "apart a b \<Longrightarrow> apart b a"
  by (auto simp: apart_def)

definition reg_area :: "kore_pool_region \<Rightarrow> nat \<times> nat" where
  "reg_area r = (reg_start r, reg_length r)"

definition pool_areas :: "memory \<Rightarrow> nat \<Rightarrow> (nat \<times> nat) set" where
  "pool_areas m i = reg_area ` set (regions (blocks m ! i))"

text \<open>Pools and large blocks lie apart from each other.\<close>

definition struct_ok :: "memory \<Rightarrow> bool" where
  "struct_ok m \<longleftrightarrow> length (blocks m) = KORE_MEM_BLOCKS \<and>
     (\<forall>i < KORE_MEM_BLOCKS. pool_ok (blocks m ! i) \<and> elen (blocks m ! i) = 8 * 2 ^ i + 16) \<and>
     (\<forall>i < KORE_MEM_BLOCKS. \<forall>k < KORE_MEM_BLOCKS. i \<noteq> k \<longrightarrow> (\<forall>a \<in> pool_areas m i. \<forall>b \<in> pool_areas m k. apart a b)) \<and>
     (\<forall>i < KORE_MEM_BLOCKS. \<forall>a \<in> pool_areas m i. \<forall>b \<in> set (bigs m). apart a b) \<and>
     (\<forall>a \<in> set (bigs m). \<forall>b \<in> set (bigs m). a \<noteq> b \<longrightarrow> apart a b)"

text \<open>The whole of a block of \<open>len\<close> bytes at \<open>p\<close>, with its size and its magic number; where it lies; and what is written there.\<close>

definition extent :: "nat \<Rightarrow> nat \<Rightarrow> nat \<times> nat" where
  "extent p len = (p - 8, len + 10)"

definition placed :: "memory \<Rightarrow> nat \<Rightarrow> nat \<Rightarrow> bool" where
  "placed m p len \<longleftrightarrow> 8 \<le> p \<and> 0 < len \<and> len + 10 < 2 ^ 64 \<and>
     (if len \<le> KORE_MEM_BLOCK_SIZE_MAX then \<exists>k. memblock_index len = Inr k \<and> p - 8 \<in> pool_live (blocks m ! k)
      else extent p len \<in> set (bigs m))"

definition marked :: "memory \<Rightarrow> nat \<Rightarrow> nat \<Rightarrow> bool" where
  "marked m p len \<longleftrightarrow> KORE_MEMSIZE m p = len \<and> magic_at m (p + len) = KORE_MEM_MAGIC"

definition mem_ok :: "memory \<Rightarrow> (nat \<rightharpoonup> nat) \<Rightarrow> bool" where
  "mem_ok m L \<longleftrightarrow> struct_ok m \<and> (\<forall>p len. L p = Some len \<longrightarrow> placed m p len \<and> marked m p len)"

text \<open>What the system promises: new memory lies apart from what is in use.\<close>

definition env_ok :: "mem_env \<Rightarrow> memory \<Rightarrow> bool" where
  "env_ok env m \<longleftrightarrow>
     (\<forall>n a. e_mmap env n = Some a \<longrightarrow> (\<forall>i < KORE_MEM_BLOCKS. \<forall>b \<in> pool_areas m i. apart (a, n) b) \<and> (\<forall>b \<in> set (bigs m). apart (a, n) b)) \<and>
     (\<forall>n a. e_calloc env n = Some a \<longrightarrow> (\<forall>i < KORE_MEM_BLOCKS. \<forall>b \<in> pool_areas m i. apart (a, n) b) \<and> (\<forall>b \<in> set (bigs m). apart (a, n) b))"

lemma struct_okD:
  assumes "struct_ok m"
  shows "length (blocks m) = KORE_MEM_BLOCKS"
    "i < KORE_MEM_BLOCKS \<Longrightarrow> pool_ok (blocks m ! i)" "i < KORE_MEM_BLOCKS \<Longrightarrow> elen (blocks m ! i) = 8 * 2 ^ i + 16"
    "i < KORE_MEM_BLOCKS \<Longrightarrow> k < KORE_MEM_BLOCKS \<Longrightarrow> i \<noteq> k \<Longrightarrow> a \<in> pool_areas m i \<Longrightarrow> b \<in> pool_areas m k \<Longrightarrow> apart a b"
    "i < KORE_MEM_BLOCKS \<Longrightarrow> a \<in> pool_areas m i \<Longrightarrow> b \<in> set (bigs m) \<Longrightarrow> apart a b"
    "a \<in> set (bigs m) \<Longrightarrow> b \<in> set (bigs m) \<Longrightarrow> a \<noteq> b \<Longrightarrow> apart a b"
  using assms unfolding struct_ok_def by blast+

text \<open>A small block lies in a region of its pool.\<close>

lemma memblock_indexD: "len \<le> KORE_MEM_BLOCK_SIZE_MAX \<Longrightarrow> memblock_index len = Inr k \<Longrightarrow> k < KORE_MEM_BLOCKS \<and> len \<le> 8 * 2 ^ k"
  using memblock_index_ok [of len] by (auto simp: mem_sizes)

lemma pool_live_region:
  assumes "pool_ok pool" "p \<in> pool_live pool" "n \<le> elen pool"
  shows "\<exists>a \<in> reg_area ` set (regions pool). within (p, n) a"
proof -
  obtain e where e: "p = e + sizeof_pool_entry" "e \<in> dom (estate pool)" using assms(2) by (auto simp: pool_live_def)
  then obtain r where "r \<in> set (regions pool)" "reg_start r \<le> e" "e + slen pool \<le> reg_start r + reg_length r"
    using pool_okD(9) [OF assms(1)] by (auto simp: in_regions_def)
  moreover have "slen pool = elen pool + sizeof_pool_entry" using pool_okD(1) [OF assms(1)] .
  ultimately show ?thesis using e(1) assms(3) by (auto simp: within_def reg_area_def intro!: rev_bexI)
qed

lemma placed_small:
  assumes "struct_ok m" "placed m p len" "len \<le> KORE_MEM_BLOCK_SIZE_MAX" "memblock_index len = Inr k"
  shows "p - 8 \<in> pool_live (blocks m ! k)" "\<exists>a \<in> pool_areas m k. within (extent p len) a"
proof -
  show p: "p - 8 \<in> pool_live (blocks m ! k)" using assms(2-4) by (auto simp: placed_def)
  have k: "k < KORE_MEM_BLOCKS" "len \<le> 8 * 2 ^ k" using memblock_indexD assms(3,4) by blast+
  then show "\<exists>a \<in> pool_areas m k. within (extent p len) a"
    unfolding pool_areas_def extent_def
    by (intro pool_live_region struct_okD(2) [OF assms(1)] p) (simp_all add: struct_okD(3) [OF assms(1)])
qed

lemma placed_apart:
  assumes "struct_ok m" "placed m p a" "placed m q b"
    and "p \<noteq> q \<or> memblock_index a \<noteq> memblock_index b \<or> (KORE_MEM_BLOCK_SIZE_MAX < a \<and> a \<noteq> b)"
  shows "apart (extent p a) (extent q b)"
proof -
  have small: "\<exists>k a. memblock_index n = Inr k \<and> k < KORE_MEM_BLOCKS \<and> a \<in> pool_areas m k \<and> within (extent r n) a"
    if "placed m r n" "n \<le> KORE_MEM_BLOCK_SIZE_MAX" for r n
    using placed_small(2) [OF assms(1) that] memblock_index_ok [OF that(2)] memblock_indexD [OF that(2)] by blast
  have big: "extent r n \<in> set (bigs m)" if "placed m r n" "\<not> n \<le> KORE_MEM_BLOCK_SIZE_MAX" for r n using that by (simp add: placed_def)
  have refl: "within x x" for x by (simp add: within_def)
  consider "a \<le> KORE_MEM_BLOCK_SIZE_MAX" "b \<le> KORE_MEM_BLOCK_SIZE_MAX" | "a \<le> KORE_MEM_BLOCK_SIZE_MAX" "\<not> b \<le> KORE_MEM_BLOCK_SIZE_MAX"
    | "\<not> a \<le> KORE_MEM_BLOCK_SIZE_MAX" "b \<le> KORE_MEM_BLOCK_SIZE_MAX" | "\<not> a \<le> KORE_MEM_BLOCK_SIZE_MAX" "\<not> b \<le> KORE_MEM_BLOCK_SIZE_MAX"
    by blast
  then show ?thesis
  proof cases
    case 1
    obtain k x where k: "memblock_index a = Inr k" "k < KORE_MEM_BLOCKS" "x \<in> pool_areas m k" "within (extent p a) x" using small [OF assms(2) 1(1)] by blast
    obtain l y where l: "memblock_index b = Inr l" "l < KORE_MEM_BLOCKS" "y \<in> pool_areas m l" "within (extent q b) y" using small [OF assms(3) 1(2)] by blast
    show ?thesis
    proof (cases "k = l")
      case True
      then have "p \<noteq> q" using assms(4) k(1) l(1) 1 by auto
      then have ne: "p - 8 \<noteq> q - 8" using assms(2,3) by (auto simp: placed_def)
      have lv: "p - 8 \<in> pool_live (blocks m ! k)" "q - 8 \<in> pool_live (blocks m ! k)"
        using placed_small(1) [OF assms(1,2) 1(1) k(1)] placed_small(1) [OF assms(1,3) 1(2) l(1)] True by simp_all
      have "a \<le> 8 * 2 ^ k" "b \<le> 8 * 2 ^ k" using memblock_indexD 1 k(1) l(1) True by blast+
      then show ?thesis
        using pool_live_apart [OF struct_okD(2) [OF assms(1) k(2)] lv ne] struct_okD(3) [OF assms(1) k(2)]
        by (auto simp: apart_def extent_def)
    qed (use apart_within [OF _ k(4) l(4)] struct_okD(4) [OF assms(1) k(2) l(2) _ k(3) l(3)] in simp)
  next
    case 2
    then show ?thesis using small [OF assms(2)] big [OF assms(3)] apart_within refl struct_okD(5) [OF assms(1)] by meson
  next
    case 3
    then show ?thesis using small [OF assms(3)] big [OF assms(2)] apart_within refl struct_okD(5) [OF assms(1)] apart_sym by meson
  next
    case 4
    then have "extent p a \<noteq> extent q b" using assms by (auto simp: extent_def placed_def)
    then show ?thesis using struct_okD(6) [OF assms(1)] big assms(2,3) 4 by blast
  qed
qed

lemma mem_okD:
  assumes "mem_ok m L"
  shows "struct_ok m" "L p = Some len \<Longrightarrow> placed m p len" "L p = Some len \<Longrightarrow> marked m p len"
  using assms by (simp_all add: mem_ok_def)

section \<open>Allocation\<close>

lemma kore_pool_get_frame:
  assumes "kore_pool_get mm pool = Inr (pool', ptr)"
  shows "elen pool' = elen pool"
    "r \<in> set (regions pool') \<Longrightarrow> r \<in> set (regions pool) \<or> (\<exists>n a. mm n = Some a \<and> r = \<lparr>reg_start = a, reg_length = n\<rparr>)"
proof -
  obtain pool1 where src: "(if freelist pool = [] then pool_region_create mm pool (elms pool) else Inr pool) = Inr pool1"
      and c: "(case freelist pool1 of [] \<Rightarrow> Inl Null_deref | entry # rest \<Rightarrow>
        if estate pool1 entry \<noteq> Some POOL_ELEMENT_FREE then Inl (Fatal ''element was not free'')
        else Inr (entry_taken pool1 entry rest, entry + sizeof_pool_entry)) = Inr (pool', ptr)"
    using assms unfolding kore_pool_get_def rbind_eq_Inr entry_taken_def by blast
  then have e: "elen pool' = elen pool1" "regions pool' = regions pool1" by (auto split: list.splits if_splits)
  show "elen pool' = elen pool" using src e by (auto simp: pool_region_create_Inr region_added_fields split: if_splits)
  show "r \<in> set (regions pool') \<Longrightarrow> r \<in> set (regions pool) \<or> (\<exists>n a. mm n = Some a \<and> r = \<lparr>reg_start = a, reg_length = n\<rparr>)"
    using src e by (auto simp: pool_region_create_Inr region_added_fields split: if_splits)
qed

lemma mmap_ok_env: "env_ok env m \<Longrightarrow> i < KORE_MEM_BLOCKS \<Longrightarrow> mmap_ok (blocks m ! i) (e_mmap env)"
  by (fastforce simp: env_ok_def mmap_ok_def pool_areas_def reg_area_def apart_def)

text \<open>The pools after one of them changed within the memory that was free.\<close>

lemma struct_ok_pool:
  assumes "struct_ok m" "k < KORE_MEM_BLOCKS" "pool_ok pool" "elen pool = elen (blocks m ! k)"
    and new: "\<And>a. a \<in> reg_area ` set (regions pool) \<Longrightarrow> a \<in> pool_areas m k \<or>
      (\<forall>i < KORE_MEM_BLOCKS. \<forall>b \<in> pool_areas m i. apart a b) \<and> (\<forall>b \<in> set (bigs m). apart a b)"
  shows "struct_ok (m\<lparr>blocks := (blocks m)[k := pool]\<rparr>)"
proof -
  let ?m = "m\<lparr>blocks := (blocks m)[k := pool]\<rparr>"
  have len: "length (blocks m) = KORE_MEM_BLOCKS" using struct_okD(1) [OF assms(1)] .
  have ar: "pool_areas ?m i = (if i = k then reg_area ` set (regions pool) else pool_areas m i)" if "i < KORE_MEM_BLOCKS" for i
    using that len assms(2) by (simp add: pool_areas_def)
  have ak: "apart a b" if "a \<in> reg_area ` set (regions pool)" "i < KORE_MEM_BLOCKS" "i \<noteq> k" "b \<in> pool_areas m i" for a b i
    using new [OF that(1)] that struct_okD(4) [OF assms(1,2) that(2)] by blast
  have ab: "apart a b" if "a \<in> reg_area ` set (regions pool)" "b \<in> set (bigs m)" for a b
    using new [OF that(1)] that struct_okD(5) [OF assms(1,2)] by blast
  show ?thesis
    unfolding struct_ok_def
  proof (intro conjI allI impI ballI)
    fix i assume i: "i < KORE_MEM_BLOCKS"
    show "pool_ok (blocks ?m ! i)" "elen (blocks ?m ! i) = 8 * 2 ^ i + 16"
      using i struct_okD(2,3) [OF assms(1) i] assms(3,4) len by (cases "i = k"; simp)+
  next
    fix i l a b assume il: "i < KORE_MEM_BLOCKS" "l < KORE_MEM_BLOCKS" "i \<noteq> l" and "a \<in> pool_areas ?m i" "b \<in> pool_areas ?m l"
    then show "apart a b"
      using ar [of i] ar [of l] ak apart_sym struct_okD(4) [OF assms(1) il] by (auto split: if_splits)
  next
    fix i a b assume "i < KORE_MEM_BLOCKS" "a \<in> pool_areas ?m i" "b \<in> set (bigs ?m)"
    then show "apart a b" using ar [of i] ab struct_okD(5) [OF assms(1)] by (simp split: if_splits)
  next
    fix a b assume "a \<in> set (bigs ?m)" "b \<in> set (bigs ?m)" "a \<noteq> b"
    then show "apart a b" using struct_okD(6) [OF assms(1)] by simp
  qed (simp add: len)
qed

lemma struct_ok_ram [simp]: "struct_ok (m\<lparr>ram := r\<rparr>) = struct_ok m"
  by (simp add: struct_ok_def pool_areas_def)

lemma placed_ram [simp]: "placed (m\<lparr>ram := r\<rparr>) p len = placed m p len"
  by (simp add: placed_def)

text \<open>Where \<open>kore_malloc\<close> finds the memory for a block: \<open>m1\<close> is the state before the block is marked.\<close>

lemma malloc_place:
  assumes "struct_ok m" "env_ok env m" "kore_malloc env len m = Inr (m', p)"
  obtains m1 where "struct_ok m1" "placed m1 p len" "\<forall>q b. placed m q b \<longrightarrow> placed m1 q b \<and> apart (extent q b) (extent p len)"
    "m' = m1\<lparr>ram := ram_write (ram_write (ram m1) (p - 8) (enc_le 8 len)) (p + len) KORE_MEM_MAGIC\<rparr>"
    "ram m1 = ram m \<or> ram m1 = ram_write (ram m) (p - 8) (replicate (len + 10) 0)"
proof (cases "len \<le> KORE_MEM_BLOCK_SIZE_MAX")
  case True
  then obtain k where k: "memblock_index len = Inr k" "k < KORE_MEM_BLOCKS" "len \<le> 8 * 2 ^ k"
    using memblock_index_ok [OF True] memblock_indexD [OF True] by blast
  have l0: "0 < len" using assms(3) by (auto simp: kore_malloc_def split: if_splits)
  then obtain pool ptr where g: "kore_pool_get (e_mmap env) (blocks m ! k) = Inr (pool, ptr)"
      and mk: "mem_mark (elen pool) ptr len (m\<lparr>blocks := (blocks m)[k := pool]\<rparr>) = Inr (m', p)"
    using assms(3) True k struct_okD(1) [OF assms(1)] by (auto simp: kore_malloc_def rbind_eq_Inr)
  let ?m = "m\<lparr>blocks := (blocks m)[k := pool]\<rparr>"
  have kl: "k < length (blocks m)" using k(2) struct_okD(1) [OF assms(1)] by simp
  note ok = struct_okD(2) [OF assms(1) k(2)] and mm = mmap_ok_env [OF assms(2) k(2)]
  have p: "p = ptr + 8" and m': "m' = ?m\<lparr>ram := ram_write (ram_write (ram m) ptr (enc_le 8 len)) (ptr + 8 + len) KORE_MEM_MAGIC\<rparr>"
    using mk by (auto simp: mem_mark_def mem_sizes Let_def split: if_splits)
  have live: "pool_live pool = insert ptr (pool_live (blocks m ! k))" "ptr \<notin> pool_live (blocks m ! k)" "pool_ok pool"
    using pool.alloc_live [OF ok mm g] pool.alloc_fresh [OF ok mm g] pool.alloc_inv [OF ok mm g] by auto
  have so: "struct_ok ?m"
  proof (rule struct_ok_pool [OF assms(1) k(2) live(3) kore_pool_get_frame(1) [OF g]])
    fix a assume "a \<in> reg_area ` set (regions pool)"
    then obtain r where r: "r \<in> set (regions pool)" "a = reg_area r" by blast
    show "a \<in> pool_areas m k \<or> (\<forall>i < KORE_MEM_BLOCKS. \<forall>b \<in> pool_areas m i. apart a b) \<and> (\<forall>b \<in> set (bigs m). apart a b)"
    proof (cases "r \<in> set (regions (blocks m ! k))")
      case False
      then obtain n s where "e_mmap env n = Some s" "r = \<lparr>reg_start = s, reg_length = n\<rparr>"
        using kore_pool_get_frame(2) [OF g r(1)] by blast
      then show ?thesis using assms(2) r(2) by (auto simp: env_ok_def reg_area_def)
    qed (use r in \<open>auto simp: pool_areas_def\<close>)
  qed
  have keep: "placed ?m q b" if pl: "placed m q b" for q b
  proof (cases "b \<le> KORE_MEM_BLOCK_SIZE_MAX")
    case True
    then obtain l where "memblock_index b = Inr l" "q - 8 \<in> pool_live (blocks m ! l)" using pl by (auto simp: placed_def)
    then show ?thesis using pl live(1) kl True by (cases "l = k") (auto simp: placed_def)
  qed (use pl in \<open>simp add: placed_def\<close>)
  have np: "placed ?m p len"
    using True k l0 p live(1) kl by (auto simp: placed_def mem_sizes)
  have ap: "apart (extent q b) (extent p len)" if "placed m q b" for q b
  proof (rule placed_apart [OF so keep [OF that] np])
    have "q - 8 \<noteq> ptr" if "b \<le> KORE_MEM_BLOCK_SIZE_MAX" "memblock_index b = Inr k"
      using placed_small(1) [OF assms(1) \<open>placed m q b\<close> that] live(2) by auto
    then show "q \<noteq> p \<or> memblock_index b \<noteq> memblock_index len \<or> (KORE_MEM_BLOCK_SIZE_MAX < b \<and> b \<noteq> len)"
      using p k(1) True by (cases "b \<le> KORE_MEM_BLOCK_SIZE_MAX") auto
  qed
  show thesis by (rule that [OF so np]) (use keep ap m' p in auto)
next
  case False
  let ?n = "wadd64 (wadd64 sizeof_size_t len) sizeof_meminfo"
  obtain ptr where g: "e_calloc env ?n = Some ptr"
      and mk: "mem_mark ?n ptr len (m\<lparr>bigs := (ptr, ?n) # bigs m, ram := ram_write (ram m) ptr (replicate ?n 0)\<rparr>) = Inr (m', p)"
    using assms(3) False by (auto simp: kore_malloc_def Let_def split: if_splits option.splits)
  let ?m = "m\<lparr>bigs := (ptr, ?n) # bigs m, ram := ram_write (ram m) ptr (replicate ?n 0)\<rparr>"
  have fits: "len + 10 \<le> ?n" using mk by (auto simp: mem_mark_def mem_sizes split: if_splits)
  then have small: "len + 10 < 2 ^ 64" using wadd64_lt by (rule le_less_trans)
  then have n: "?n = len + 10" by (simp add: mem_sizes)
  have p: "p = ptr + 8" and m': "m' = ?m\<lparr>ram := ram_write (ram_write (ram ?m) ptr (enc_le 8 len)) (ptr + 8 + len) KORE_MEM_MAGIC\<rparr>"
    using mk by (auto simp: mem_mark_def mem_sizes Let_def split: if_splits)
  have fr: "i < KORE_MEM_BLOCKS \<Longrightarrow> b \<in> pool_areas m i \<Longrightarrow> apart (ptr, len + 10) b" "b \<in> set (bigs m) \<Longrightarrow> apart (ptr, len + 10) b" for i b
    using assms(2) g n by (auto simp: env_ok_def)
  have so: "struct_ok ?m"
    using assms(1) fr apart_sym unfolding struct_ok_def by (simp add: n pool_areas_def)
  have keep: "placed ?m q b" if "placed m q b" for q b using that by (simp add: placed_def)
  have ex: "extent p len = (ptr, len + 10)" by (simp add: extent_def p)
  have np: "placed ?m p len" using False small n p by (simp add: placed_def extent_def)
  have ap: "apart (extent q b) (extent p len)" if pl: "placed m q b" for q b
  proof (cases "b \<le> KORE_MEM_BLOCK_SIZE_MAX")
    case True
    then obtain l a where "memblock_index b = Inr l" "l < KORE_MEM_BLOCKS" "a \<in> pool_areas m l" "within (extent q b) a"
      using memblock_index_ok memblock_indexD placed_small(2) [OF assms(1) pl True] by blast
    then show ?thesis using fr(1) apart_within apart_sym unfolding ex by (metis (no_types) apart_def within_def order_refl)
  next
    case big: False
    then show ?thesis using pl fr(2) apart_sym unfolding ex placed_def by auto
  qed
  show thesis by (rule that [OF so np]) (use keep ap m' p n in auto)
qed

text \<open>What is written in a block that lies apart leaves the reads in another one alone.\<close>

lemma ram_write_apart:
  assumes "apart (extent q b) (extent p len)" "within (x, n) (extent q b)" "within (a, length xs) (extent p len)"
  shows "ram_read (ram_write m a xs) x n = ram_read m x n"
  using assms by (intro ram_read_write_other) (auto simp: apart_def within_def)

lemma marked_cong:
  assumes "8 \<le> p" "\<And>x n. within (x, n) (extent p len) \<Longrightarrow> ram_read (ram m') x n = ram_read (ram m) x n"
  shows "marked m' p len = marked m p len"
proof -
  have "within (p - 8, 8) (extent p len)" "within (p + len, 2) (extent p len)" using assms(1) by (auto simp: within_def extent_def)
  then show ?thesis using assms(2) by (simp add: marked_def KORE_MEMSIZE_def magic_at_def mem_sizes)
qed

lemma kore_malloc_ok:
  assumes "mem_ok m L" "env_ok env m" "kore_malloc env len m = Inr (m', p)"
  shows "L p = None" "mem_ok m' (L(p \<mapsto> len))"
    "L q = Some b \<Longrightarrow> within (x, n) (extent q b) \<Longrightarrow> ram_read (ram m') x n = ram_read (ram m) x n"
proof -
  obtain m1 where m1: "struct_ok m1" "placed m1 p len" "\<forall>q b. placed m q b \<longrightarrow> placed m1 q b \<and> apart (extent q b) (extent p len)"
      and m': "m' = m1\<lparr>ram := ram_write (ram_write (ram m1) (p - 8) (enc_le 8 len)) (p + len) KORE_MEM_MAGIC\<rparr>"
      and r: "ram m1 = ram m \<or> ram m1 = ram_write (ram m) (p - 8) (replicate (len + 10) 0)"
    using malloc_place [OF mem_okD(1) [OF assms(1)] assms(2,3)] by blast
  have p: "8 \<le> p" "len < 2 ^ 64" using m1(2) by (auto simp: placed_def)
  have w: "within (p - 8, length (enc_le 8 len)) (extent p len)" "within (p + len, length KORE_MEM_MAGIC) (extent p len)"
      "within (p - 8, length (replicate (len + 10) (0 :: byte))) (extent p len)"
    using p(1) by (auto simp: within_def extent_def KORE_MEM_MAGIC_def)
  have keep: "ram_read (ram m') x n = ram_read (ram m) x n" if "L q = Some b" "within (x, n) (extent q b)" for q b x n
  proof -
    have a: "apart (extent q b) (extent p len)" using m1(3) mem_okD(2) [OF assms(1) that(1)] by blast
    note rw = ram_write_apart [OF a that(2) w(1)] ram_write_apart [OF a that(2) w(2)] ram_write_apart [OF a that(2) w(3)]
    show ?thesis using r unfolding m' by (elim disjE) (simp_all add: rw)
  qed
  then show "L q = Some b \<Longrightarrow> within (x, n) (extent q b) \<Longrightarrow> ram_read (ram m') x n = ram_read (ram m) x n" .
  show new: "L p = None"
  proof (rule ccontr)
    assume "L p \<noteq> None"
    then obtain b where "L p = Some b" by blast
    then have "apart (extent p b) (extent p len)" using m1(3) mem_okD(2) [OF assms(1)] by blast
    then show False by (simp add: apart_def extent_def)
  qed
  have "marked m' p len"
  proof -
    have "ram_read (ram m') (p - 8) 8 = enc_le 8 len"
      unfolding m' using p(1) by (simp add: ram_read_write_other ram_read_write_same)
    then have "KORE_MEMSIZE m' p = len" using p(2) dec_enc_le [of len 8] by (simp add: KORE_MEMSIZE_def mem_sizes)
    moreover have "ram_read (ram m') (p + len) 2 = KORE_MEM_MAGIC" unfolding m' by (simp add: ram_read_write_same KORE_MEM_MAGIC_def)
    ultimately show ?thesis by (simp add: marked_def magic_at_def mem_sizes)
  qed
  moreover have "placed m' q b \<and> marked m' q b" if "L q = Some b" for q b
  proof -
    have pl: "placed m q b" using mem_okD(2) [OF assms(1) that] .
    then have "marked m' q b = marked m q b" using keep [OF that] by (intro marked_cong) (auto simp: placed_def)
    then show ?thesis using mem_okD(3) [OF assms(1) that] m1(3) [rule_format, OF pl] by (simp add: m')
  qed
  ultimately show "mem_ok m' (L(p \<mapsto> len))" using m1(1,2) by (simp add: mem_ok_def m')
qed

section \<open>Release\<close>

lemma kore_free_ok:
  assumes "mem_ok m L" "L p = Some len"
  shows "\<exists>m'. kore_free (Some p) m = Inr m' \<and> mem_ok m' (L(p := None)) \<and> ram m' = ram m"
proof -
  note so = mem_okD(1) [OF assms(1)] and pl = mem_okD(2) [OF assms]
  have mk: "KORE_MEMSIZE m p = len" "magic_at m (p + len) = KORE_MEM_MAGIC" using mem_okD(3) [OF assms] by (simp_all add: marked_def)
  have marks: "marked m' q b = marked m q b" if "ram m' = ram m" for m' q b using that by (simp add: marked_def KORE_MEMSIZE_def magic_at_def)
  have p8: "q - 8 \<noteq> p - 8" if "L q = Some b" "q \<noteq> p" for q b
    using that mem_okD(2) [OF assms(1) that(1)] pl by (auto simp: placed_def)
  show ?thesis
  proof (cases "len \<le> KORE_MEM_BLOCK_SIZE_MAX")
    case True
    then obtain k where k: "memblock_index len = Inr k" "p - 8 \<in> pool_live (blocks m ! k)" "k < KORE_MEM_BLOCKS"
      using pl memblock_indexD [OF True] by (auto simp: placed_def)
    note ok = struct_okD(2) [OF so k(3)]
    obtain pool where g: "kore_pool_put (blocks m ! k) (p - 8) = Inr pool" using pool.release_total [OF ok k(2)] by blast
    let ?m = "m\<lparr>blocks := (blocks m)[k := pool]\<rparr>"
    have lv: "pool_live pool = pool_live (blocks m ! k) - {p - 8}" "pool_ok pool"
      using pool.release_live [OF ok g] pool.release_inv [OF ok g] by simp_all
    have fr: "elen pool = elen (blocks m ! k)" "regions pool = regions (blocks m ! k)" using g by (auto simp: kore_pool_put_Inr)
    have kl: "k < length (blocks m)" using k(3) struct_okD(1) [OF so] by simp
    have "kore_free (Some p) m = Inr ?m"
      using mk True k(1) g kl by (simp add: kore_free_def KORE_MEMINFO_def mem_sizes)
    moreover have "struct_ok ?m" by (rule struct_ok_pool [OF so k(3) lv(2) fr(1)]) (simp add: fr(2) pool_areas_def)
    moreover have "placed ?m q b" if "L q = Some b" "q \<noteq> p" for q b
    proof (cases "b \<le> KORE_MEM_BLOCK_SIZE_MAX")
      case b: True
      note pq = mem_okD(2) [OF assms(1) that(1)]
      from b pq obtain l where l: "memblock_index b = Inr l" "q - 8 \<in> pool_live (blocks m ! l)" by (auto simp: placed_def)
      then show ?thesis using pq lv(1) p8 [OF that] kl b by (cases "l = k") (auto simp: placed_def)
    qed (use mem_okD(2) [OF assms(1) that(1)] in \<open>simp add: placed_def\<close>)
    ultimately show ?thesis using mem_okD(3) [OF assms(1)] marks [of ?m] by (auto simp: mem_ok_def)
  next
    case False
    then have b: "(p - 8, len + 10) \<in> set (bigs m)" using pl by (simp add: placed_def extent_def)
    then have f: "p - 8 \<in> fst ` set (bigs m)" by force
    let ?m = "m\<lparr>bigs := filter (\<lambda>b. fst b \<noteq> p - 8) (bigs m)\<rparr>"
    have "kore_free (Some p) m = Inr ?m"
      using mk False f by (auto simp: kore_free_def KORE_MEMINFO_def mem_sizes Let_def)
    moreover have "struct_ok ?m" using so by (auto simp: struct_ok_def pool_areas_def)
    moreover have "placed ?m q b" if "L q = Some b" "q \<noteq> p" for q b
      using mem_okD(2) [OF assms(1) that(1)] p8 [OF that] by (auto simp: placed_def extent_def)
    ultimately show ?thesis using mem_okD(3) [OF assms(1)] marks [of ?m] by (auto simp: mem_ok_def)
  qed
qed

section \<open>The start\<close>

definition init_env_ok :: "(nat \<Rightarrow> nat \<Rightarrow> nat option) \<Rightarrow> bool" where
  "init_env_ok mm \<longleftrightarrow> (\<forall>i k n l a b. i \<noteq> k \<longrightarrow> mm i n = Some a \<longrightarrow> mm k l = Some b \<longrightarrow> apart (a, n) (b, l))"

definition fresh_pool :: "(nat \<Rightarrow> nat \<Rightarrow> nat option) \<Rightarrow> nat \<Rightarrow> kore_pool \<Rightarrow> bool" where
  "fresh_pool mm i pool \<longleftrightarrow> pool_ok pool \<and> pool_live pool = {} \<and> freelist pool \<noteq> [] \<and> elen pool = 8 * 2 ^ i + 16 \<and>
     (\<exists>a n. mm i n = Some a \<and> regions pool = [\<lparr>reg_start = a, reg_length = n\<rparr>])"

lemma kore_pool_init_fresh:
  assumes "kore_pool_init (mm i) name (block_mlen (8 * 2 ^ i)) elm = Inr pool" "i \<le> 10"
  shows "fresh_pool mm i pool"
proof -
  have "(8 :: nat) * 2 ^ i \<le> 8 * 2 ^ 10" using assms(2) by (intro mult_le_mono2 power_increasing) auto
  then have l: "block_mlen (8 * 2 ^ i) = 8 * 2 ^ i + 16" "8 * 2 ^ i + 16 + sizeof_pool_entry < 2 ^ 64"
    using block_mlen_values [OF assms(2)] by (simp_all add: sizeof_pool_entry_def)
  have ok: "pool_ok pool \<and> pool_live pool = {}" using kore_pool_init_ok [OF assms(1)] l by simp
  from assms(1) obtain start where n: "elm \<noteq> 0" and st: "mm i (elm * (48 + 8 * 2 ^ i)) = Some start"
      and pool: "pool = region_added \<lparr>elen = 8 * 2 ^ i + 16, slen = 48 + 8 * 2 ^ i, elms = 0, inuse = 0, pool_name = Some name,
        regions = [], freelist = [], estate = Map.empty\<rparr> elm start"
    using l(2) by (auto simp: kore_pool_init_def pool_region_create_Inr l(1) sizeof_pool_entry_def)
  then show ?thesis using ok by (simp add: fresh_pool_def region_added_fields fill_entries_def)
qed

lemma mem_init_loop_ok:
  assumes "mem_init_loop mm n (8 * 2 ^ length bl) bl = Inr bl'" "length bl + n \<le> 11" "\<forall>i < length bl. fresh_pool mm i (bl ! i)"
  shows "length bl' = length bl + n \<and> (\<forall>i < length bl'. fresh_pool mm i (bl' ! i))"
  using assms
proof (induction n arbitrary: bl)
  case (Suc n)
  then obtain pool where g: "kore_pool_init (mm (length bl)) ''block'' (block_mlen (8 * 2 ^ length bl)) (KORE_MEM_BLOCK_PREALLOC * 1024 div (8 * 2 ^ length bl)) = Inr pool"
      and r: "mem_init_loop mm n (8 * 2 ^ length (bl @ [pool])) (bl @ [pool]) = Inr bl'"
    by (auto simp: rbind_eq_Inr)
  have "fresh_pool mm (length bl) pool" using kore_pool_init_fresh [of mm "length bl", OF g] Suc.prems(2) by simp
  then have "\<forall>i < length (bl @ [pool]). fresh_pool mm i ((bl @ [pool]) ! i)" using Suc.prems(3) by (auto simp: nth_append less_Suc_eq)
  then show ?case using Suc.IH [OF r] Suc.prems(2) by simp
qed simp

lemma kore_mem_init_pools:
  assumes "kore_mem_init mm r = Inr m"
  shows "length (blocks m) = KORE_MEM_BLOCKS \<and> (\<forall>i < KORE_MEM_BLOCKS. fresh_pool mm i (blocks m ! i)) \<and> bigs m = []"
  using assms mem_init_loop_ok [of mm 11 "[]"] by (auto simp: kore_mem_init_def rbind_eq_Inr KORE_MEM_BLOCKS_def)

lemma kore_mem_init_ok:
  assumes "kore_mem_init mm r = Inr m" "init_env_ok mm"
  shows "mem_ok m Map.empty"
proof -
  note f = kore_mem_init_pools [OF assms(1)]
  have a: "\<exists>n s. mm i n = Some s \<and> pool_areas m i = {(s, n)}" if "i < KORE_MEM_BLOCKS" for i
    using f that by (fastforce simp: fresh_pool_def pool_areas_def reg_area_def)
  have "apart x y" if "i < KORE_MEM_BLOCKS" "k < KORE_MEM_BLOCKS" "i \<noteq> k" "x \<in> pool_areas m i" "y \<in> pool_areas m k" for i k x y
    using a [OF that(1)] a [OF that(2)] that(3-5) assms(2) by (auto simp: init_env_ok_def)
  then have "struct_ok m" using f by (simp add: struct_ok_def fresh_pool_def)
  then show ?thesis by (simp add: mem_ok_def)
qed

section \<open>The allocator over time\<close>

text \<open>Clients allocate, write into their blocks, and release them. The second component has the blocks in use and their sizes.\<close>

inductive mem_reach :: "memory \<Rightarrow> (nat \<rightharpoonup> nat) \<Rightarrow> bool" where
  init: "kore_mem_init mm r = Inr m \<Longrightarrow> init_env_ok mm \<Longrightarrow> mem_reach m Map.empty"
| malloc: "mem_reach m L \<Longrightarrow> env_ok env m \<Longrightarrow> kore_malloc env len m = Inr (m', p) \<Longrightarrow> mem_reach m' (L(p \<mapsto> len))"
| writes: "mem_reach m L \<Longrightarrow> L p = Some len \<Longrightarrow> within (a, length xs) (p, len) \<Longrightarrow> mem_reach (m\<lparr>ram := ram_write (ram m) a xs\<rparr>) L"
| free: "mem_reach m L \<Longrightarrow> L p = Some len \<Longrightarrow> kore_free (Some p) m = Inr m' \<Longrightarrow> mem_reach m' (L(p := None))"

lemma live_apart:
  assumes "mem_ok m L" "L p = Some a" "L q = Some b" "p \<noteq> q"
  shows "apart (extent p a) (extent q b)"
  using placed_apart [OF mem_okD(1) [OF assms(1)]] mem_okD(2) [OF assms(1)] assms(2-4) by blast

lemma client_write_ok:
  assumes "mem_ok m L" "L p = Some len" "within (a, length xs) (p, len)"
  shows "mem_ok (m\<lparr>ram := ram_write (ram m) a xs\<rparr>) L"
proof -
  let ?m = "m\<lparr>ram := ram_write (ram m) a xs\<rparr>"
  have p: "8 \<le> p" using mem_okD(2) [OF assms(1,2)] by (simp add: placed_def)
  have w: "within (a, length xs) (extent p len)" using assms(3) p by (auto simp: within_def extent_def)
  have "marked ?m q b" if "L q = Some b" for q b
  proof (cases "q = p")
    case True
    then have "b = len" using that assms(2) by simp
    moreover have "ram_read (ram ?m) (p - 8) 8 = ram_read (ram m) (p - 8) 8" "ram_read (ram ?m) (p + len) 2 = ram_read (ram m) (p + len) 2"
      using assms(3) p by (simp_all add: ram_read_write_other within_def)
    ultimately show ?thesis using mem_okD(3) [OF assms(1) that] True by (simp add: marked_def KORE_MEMSIZE_def magic_at_def mem_sizes)
  next
    case False
    have "marked ?m q b = marked m q b"
      using live_apart [OF assms(1) that assms(2) False] w mem_okD(2) [OF assms(1) that]
      by (intro marked_cong) (auto simp: placed_def ram_write_apart)
    then show ?thesis using mem_okD(3) [OF assms(1) that] by simp
  qed
  then show ?thesis using assms(1) by (simp add: mem_ok_def)
qed

lemma mem_reach_ok: "mem_reach m L \<Longrightarrow> mem_ok m L"
proof (induction rule: mem_reach.induct)
  case (init mm r m)
  then show ?case by (rule kore_mem_init_ok)
next
  case (malloc m L env len m' p)
  then show ?case using kore_malloc_ok(2) by blast
next
  case (writes m L p len a xs)
  then show ?case using client_write_ok by blast
next
  case (free m L p len m')
  then show ?case using kore_free_ok [of m L p len] by (metis Inr_inject)
qed

section \<open>Properties\<close>


text \<open>Reallocation: whenever \<open>kore_malloc\<close> delivers the new block, \<open>kore_realloc\<close> of a block in use succeeds with it; the new block starts with the
  bytes of the old one, as far as both go, the old one is released, and every other block keeps its bytes.\<close>

theorem kore_realloc_keeps:
  assumes "mem_reach m L" and "env_ok env m" and "L p = Some n" and "kore_malloc env len m = Inr (m1, q)"
  shows "\<exists>m'. kore_realloc env (Some p) len m = Inr (m', q) \<and> mem_reach m' (L(q \<mapsto> len, p := None)) \<and>
    ram_read (ram m') q (min len n) = ram_read (ram m) p (min len n) \<and>
    (\<forall>r b. L r = Some b \<and> r \<noteq> p \<longrightarrow> ram_read (ram m') r b = ram_read (ram m) r b)"
proof -
  note ok = mem_reach_ok [OF assms(1)]
  note a = kore_malloc_ok [OF ok assms(2,4)]
  let ?L = "L(q \<mapsto> len)"
  have pq: "p \<noteq> q" using a(1) assms(3) by auto
  have l0: "len \<noteq> 0" using assms(4) by (auto simp: kore_malloc_def split: if_splits)
  have mk: "magic_at m (KORE_MEMINFO m p) = KORE_MEM_MAGIC" using mem_okD(3) [OF ok assms(3)] by (simp add: marked_def KORE_MEMINFO_def)
  have sz: "KORE_MEMSIZE m1 p = n" using mem_okD(3) [OF a(2)] assms(3) pq by (simp add: marked_def)
  have p8: "8 \<le> p" "8 \<le> q" using mem_okD(2) [OF a(2)] assms(3) pq by (auto simp: placed_def)
  let ?xs = "ram_read (ram m1) p (min len n)"
  let ?m2 = "m1\<lparr>ram := ram_write (ram m1) q ?xs\<rparr>"
  have r1: "mem_reach m1 ?L" using mem_reach.malloc [OF assms(1,2,4)] .
  have w: "within (q, length ?xs) (q, len)" by (simp add: within_def)
  have r2: "mem_reach ?m2 ?L" by (rule mem_reach.writes [OF r1 _ w]) simp
  have Lp: "?L p = Some n" using assms(3) pq by simp
  obtain m3 where f: "kore_free (Some p) ?m2 = Inr m3" "ram m3 = ram ?m2" using kore_free_ok [OF mem_reach_ok [OF r2] Lp] by blast
  have r3: "mem_reach m3 (?L(p := None))" using mem_reach.free [OF r2 Lp f(1)] .
  have e: "kore_realloc env (Some p) len m = Inr (m3, q)" using assms(4) l0 mk sz f(1) by (simp add: kore_realloc_def)
  have old: "ram_read (ram m1) r b = ram_read (ram m) r b" if "L r = Some c" "b \<le> c" for r b c
  proof (rule a(3) [OF that(1)])
    show "within (r, b) (extent r c)" using that mem_okD(2) [OF ok that(1)] by (auto simp: within_def extent_def placed_def)
  qed
  have "ram_read (ram m3) q (min len n) = ram_read (ram m) p (min len n)"
    using f(2) old [OF assms(3)] by (simp add: ram_read_write_same)
  moreover have "ram_read (ram m3) r b = ram_read (ram m) r b" if "L r = Some b" "r \<noteq> p" for r b
  proof -
    have "r \<noteq> q" using that a(1) by auto
    then have ap: "apart (extent r b) (extent q len)" using live_apart [OF a(2), of r b q len] that(1) by simp
    have "within (r, b) (extent r b)" "within (q, length ?xs) (extent q len)"
      using mem_okD(2) [OF ok that(1)] p8 by (auto simp: within_def extent_def placed_def)
    then show ?thesis using ram_write_apart [OF ap] old [OF that(1)] f(2) by simp
  qed
  ultimately show ?thesis using e r3 by blast
qed

text \<open>\<open>kore_calloc\<close> does not clear memory: a block that is released and asked for again through it comes back with the bytes
  its last owner left.\<close>

theorem kore_calloc_stale:
  assumes "mem_reach m L" and "L p = Some (memb * n)" and "memb * n \<le> KORE_MEM_BLOCK_SIZE_MAX"
  shows "\<exists>m1 m2. kore_free (Some p) m = Inr m1 \<and> kore_calloc env memb n m1 = Inr (m2, p) \<and>
    ram_read (ram m2) p (memb * n) = ram_read (ram m) p (memb * n)"
proof -
  let ?n = "memb * n"
  note ok = mem_reach_ok [OF assms(1)]
  note so = mem_okD(1) [OF ok] and pl = mem_okD(2) [OF ok assms(2)]
  have mk: "KORE_MEMSIZE m p = ?n" "magic_at m (p + ?n) = KORE_MEM_MAGIC" using mem_okD(3) [OF ok assms(2)] by (simp_all add: marked_def)
  obtain k where k: "memblock_index ?n = Inr k" "p - 8 \<in> pool_live (blocks m ! k)" "k < KORE_MEM_BLOCKS" "?n \<le> 8 * 2 ^ k"
    using pl assms(3) memblock_indexD [OF assms(3)] by (auto simp: placed_def)
  have p: "8 \<le> p" "0 < ?n" using pl by (auto simp: placed_def)
  have kl: "k < length (blocks m)" using k(3) struct_okD(1) [OF so] by simp
  obtain e where e: "p - 8 = e + sizeof_pool_entry" "estate (blocks m ! k) e = Some POOL_ELEMENT_BUSY" using k(2) by (auto simp: pool_live_def)
  let ?pool = "(blocks m ! k)\<lparr>estate := (estate (blocks m ! k))(e \<mapsto> POOL_ELEMENT_FREE), freelist := e # freelist (blocks m ! k),
    inuse := wsub64 (inuse (blocks m ! k)) 1\<rparr>"
  let ?m1 = "m\<lparr>blocks := (blocks m)[k := ?pool]\<rparr>"
  have put: "kore_pool_put (blocks m ! k) (p - 8) = Inr ?pool" unfolding kore_pool_put_Inr using e by blast
  have f: "kore_free (Some p) m = Inr ?m1"
    using mk assms(3) k(1) put kl by (simp add: kore_free_def KORE_MEMINFO_def sizeof_size_t_def)
  have g: "kore_pool_get (e_mmap env) ?pool = Inr (entry_taken ?pool e (freelist (blocks m ! k)), p - 8)"
    using e(1) by (simp add: kore_pool_get_def entry_taken_def)
  have el: "8 + ?n + 2 \<le> elen (blocks m ! k)" using struct_okD(3) [OF so k(3)] k(4) by simp
  have "memb \<noteq> 0" "n \<noteq> 0" using p(2) by auto
  moreover have "\<not> SIZE_MAX div memb < n"
  proof -
    have "?n \<le> SIZE_MAX" using assms(3) by (simp add: SIZE_MAX_def mem_sizes)
    then show ?thesis using \<open>memb \<noteq> 0\<close> by (simp add: not_less less_eq_div_iff_mult_less_eq mult.commute)
  qed
  ultimately have c: "kore_calloc env memb n ?m1 = kore_malloc env ?n ?m1" by (simp add: kore_calloc_def)
  let ?m2 = "?m1\<lparr>blocks := (blocks ?m1)[k := entry_taken ?pool e (freelist (blocks m ! k))],
      ram := ram_write (ram_write (ram m) (p - 8) (enc_le 8 ?n)) (p + ?n) KORE_MEM_MAGIC\<rparr>"
  have "kore_malloc env ?n ?m1 = Inr (?m2, p)"
    using p assms(3) k(1) kl g el by (simp add: kore_malloc_def mem_mark_def sizeof_size_t_def sizeof_meminfo_def Let_def)
  moreover have "ram_read (ram ?m2) p ?n = ram_read (ram m) p ?n"
    using p(1) by (simp add: ram_read_write_other)
  ultimately show ?thesis using f c by metis
qed

text \<open>The computation of the size of a large block wraps around: a request for the last ten sizes below \<open>2 ^ 64\<close> gets a few bytes, and the
  magic number is written far outside of them.\<close>

theorem kore_malloc_wraps:
  assumes "2 ^ 64 \<le> len + 10" and "len < 2 ^ 64" and "e_calloc env (len + 10 - 2 ^ 64) = Some a"
  shows "kore_malloc env len m = Inl Out_of_bounds"
proof -
  have "wadd64 (wadd64 8 len) 2 = (len + 10) mod 2 ^ 64" by (simp add: wadd64_def mod_simps ac_simps)
  also have "\<dots> = len + 10 - 2 ^ 64" using assms(1,2) by (subst le_mod_geq) simp_all
  finally have "wadd64 (wadd64 8 len) 2 = len + 10 - 2 ^ 64" .
  moreover have "len + 10 - 2 ^ 64 < 8 + len + 2" by simp
  ultimately show ?thesis using assms by (simp add: kore_malloc_def mem_mark_def mem_sizes Let_def)
qed

text \<open>Copies of strings.\<close>

theorem kore_strdup_copies:
  assumes "mem_reach m L" and "env_ok env m" and "0 \<notin> set s" and "kore_malloc env (length s + 1) m = Inr (m1, p)"
  shows "\<exists>m'. kore_strdup env (s @ 0 # r) m = Inr (m', p) \<and> mem_reach m' (L(p \<mapsto> length s + 1)) \<and>
    ram_read (ram m') p (length s + 1) = s @ [0]"
proof -
  let ?m = "m1\<lparr>ram := ram_write (ram m1) p (s @ [0])\<rparr>"
  have "kore_strdup env (s @ 0 # r) m = Inr (?m, p)"
    using assms(3,4) by (simp add: kore_strdup_def kore_strndup_def scan_nul_string kore_strlcpy_string)
  moreover have "mem_reach ?m (L(p \<mapsto> length s + 1))"
    by (rule mem_reach.writes [OF mem_reach.malloc [OF assms(1,2,4)], where p = p and len = "length s + 1"]) (simp_all add: within_def)
  ultimately show ?thesis by (simp add: ram_read_write_same)
qed

section \<open>Witnesses\<close>

text \<open>Pools mapped a terabyte apart, and one block of five bytes.\<close>

definition tera_map :: "nat \<Rightarrow> nat \<Rightarrow> nat option" where
  "tera_map i n = (if n \<le> 2 ^ 40 then Some (2 ^ 40 * (i + 1)) else None)"

definition no_mem :: mem_env where "no_mem = \<lparr>e_mmap = (\<lambda>_. None), e_calloc = (\<lambda>_. None)\<rparr>"

lemma tera_map_ok: "init_env_ok tera_map"
proof -
  have "2 ^ 40 * (i + 1) + n \<le> 2 ^ 40 * (k + 1 :: nat)" if "i < k" "n \<le> 2 ^ 40" for i k n :: nat
  proof -
    have "2 ^ 40 * (i + 1) + 2 ^ 40 \<le> 2 ^ 40 * (k + 1 :: nat)" using that(1) by simp
    then show ?thesis using that(2) by linarith
  qed
  then show ?thesis by (auto simp: init_env_ok_def tera_map_def apart_def neq_iff split: if_splits)
qed

lemma mem_init_loop_tera:
  "length bl + n \<le> 11 \<Longrightarrow> \<exists>bl'. mem_init_loop tera_map n (8 * 2 ^ length bl) bl = Inr bl'"
proof (induction n arbitrary: bl)
  case (Suc n)
  let ?i = "length bl"
  have i: "?i \<le> 10" using Suc.prems by simp
  let ?elm = "KORE_MEM_BLOCK_PREALLOC * 1024 div (8 * 2 ^ ?i)"
  have e: "?elm = 2 ^ (14 - ?i)" "?elm * (48 + 8 * 2 ^ ?i) \<le> 2 ^ 40" "48 + 8 * 2 ^ ?i \<le> SIZE_MAX div ?elm" "0 < ?elm"
  proof -
    have "?i \<in> {0, 1, 2, 3, 4, 5, 6, 7, 8, 9, 10}" using i unfolding insert_iff empty_iff by presburger
    then show "?elm = 2 ^ (14 - ?i)" "?elm * (48 + 8 * 2 ^ ?i) \<le> 2 ^ 40" "48 + 8 * 2 ^ ?i \<le> SIZE_MAX div ?elm" "0 < ?elm"
      by (elim insertE; simp add: KORE_MEM_BLOCK_PREALLOC_def SIZE_MAX_def)+
  qed
  have "\<exists>pool. kore_pool_init (tera_map ?i) ''block'' (block_mlen (8 * 2 ^ ?i)) ?elm = Inr pool"
  proof -
    have "(8 :: nat) * 2 ^ ?i \<le> 8 * 2 ^ 10" using i by (intro mult_le_mono2 power_increasing) auto
    then have "wadd64 (8 * 2 ^ ?i + 16) 32 = 48 + 8 * 2 ^ ?i" by simp
    then show ?thesis
      using e(2-4) unfolding kore_pool_init_def block_mlen_values [OF i] sizeof_pool_entry_def pool_region_create_Inr
      by (simp add: tera_map_def)
  qed
  then obtain pool where "kore_pool_init (tera_map ?i) ''block'' (block_mlen (8 * 2 ^ ?i)) ?elm = Inr pool" by blast
  then show ?case using Suc.IH [of "bl @ [pool]"] Suc.prems by simp
qed simp

lemma memblock_index_eq:
  assumes "len \<le> KORE_MEM_BLOCK_SIZE_MAX" "len \<le> 8 * 2 ^ j" "j = 0 \<or> 8 * 2 ^ (j - 1) < len"
  shows "memblock_index len = Inr j"
proof -
  obtain k where k: "memblock_index len = Inr k" "len \<le> 8 * 2 ^ k" "k = 0 \<or> 8 * 2 ^ (k - 1) < len"
    using memblock_index_ok [OF assms(1)] by blast
  have less: "\<not> a < b" if "len \<le> 8 * 2 ^ a" "b = 0 \<or> 8 * 2 ^ (b - 1) < len" for a b :: nat
  proof
    assume "a < b"
    then have "(8 :: nat) * 2 ^ a \<le> 8 * 2 ^ (b - 1)" by (intro mult_le_mono2 power_increasing) auto
    moreover have "8 * 2 ^ (b - 1) < len" using that(2) \<open>a < b\<close> by blast
    ultimately show False using that(1) by linarith
  qed
  have "k = j" using less [OF k(2) assms(3)] less [OF assms(2) k(3)] by simp
  then show ?thesis using k(1) by simp
qed

lemma malloc_fresh:
  assumes "fresh_pool mm k (blocks m ! k)" "length (blocks m) = KORE_MEM_BLOCKS" "memblock_index len = Inr k" "0 < len" "len \<le> KORE_MEM_BLOCK_SIZE_MAX"
  shows "\<exists>m' p. kore_malloc env len m = Inr (m', p) \<and> length (blocks m') = KORE_MEM_BLOCKS \<and> (\<forall>i. i \<noteq> k \<longrightarrow> blocks m' ! i = blocks m ! i)"
proof -
  have k: "k < KORE_MEM_BLOCKS" "len \<le> 8 * 2 ^ k" using memblock_indexD [OF assms(5,3)] by auto
  obtain en rest where fl: "freelist (blocks m ! k) = en # rest" using assms(1) by (cases "freelist (blocks m ! k)") (auto simp: fresh_pool_def)
  have fe: "estate (blocks m ! k) en = Some POOL_ELEMENT_FREE" using assms(1) pool_okD(3) [of "blocks m ! k"] fl by (auto simp: fresh_pool_def)
  then have "kore_pool_get (e_mmap env) (blocks m ! k) = Inr (entry_taken (blocks m ! k) en rest, en + sizeof_pool_entry)"
    using fl by (simp add: kore_pool_get_def entry_taken_def)
  then show ?thesis
    using assms k by (simp add: kore_malloc_def mem_mark_def sizeof_size_t_def sizeof_meminfo_def fresh_pool_def Let_def)
qed

lemma mem_example:
  "\<exists>m0 m p m1 q. kore_mem_init tera_map (\<lambda>_. 0) = Inr m0 \<and> kore_malloc no_mem 5 m0 = Inr (m, p) \<and> mem_reach m [p \<mapsto> 5] \<and>
     kore_malloc no_mem 9 m = Inr (m1, q)"
proof -
  obtain bl where "mem_init_loop tera_map 11 8 [] = Inr bl" using mem_init_loop_tera [of "[]" 11] by auto
  then obtain m0 where m0: "kore_mem_init tera_map (\<lambda>_. 0) = Inr m0" by (simp add: kore_mem_init_def KORE_MEM_BLOCKS_def)
  then have r: "mem_reach m0 Map.empty" using tera_map_ok by (rule mem_reach.init)
  have f: "length (blocks m0) = KORE_MEM_BLOCKS" "fresh_pool tera_map 0 (blocks m0 ! 0)" "fresh_pool tera_map 1 (blocks m0 ! 1)"
    using kore_mem_init_pools [OF m0] by (simp_all add: KORE_MEM_BLOCKS_def)
  have ix: "memblock_index 5 = Inr 0" "memblock_index 9 = Inr 1" by (rule memblock_index_eq; simp add: mem_sizes)+
  obtain m p where g: "kore_malloc no_mem 5 m0 = Inr (m, p)" "length (blocks m) = KORE_MEM_BLOCKS" "blocks m ! 1 = blocks m0 ! 1"
    using malloc_fresh [OF f(2,1) ix(1), of no_mem] by (auto simp: mem_sizes)
  obtain m1 q where "kore_malloc no_mem 9 m = Inr (m1, q)"
    using malloc_fresh [of tera_map 1 m 9 no_mem] f(3) g(2,3) ix(2) by (auto simp: mem_sizes)
  moreover have "env_ok no_mem m0" by (simp add: env_ok_def no_mem_def)
  then have "mem_reach m [p \<mapsto> 5]" using mem_reach.malloc [OF r _ g(1)] by simp
  ultimately show ?thesis using m0 g(1) by blast
qed


theorem kore_realloc_keeps_witness:
  "\<exists>m0 m m' p q. kore_malloc no_mem 5 m0 = Inr (m, p) \<and> kore_realloc no_mem (Some p) 9 m = Inr (m', q) \<and>
     ram_read (ram m') q (min 9 5) = ram_read (ram m) p (min 9 5)"
proof -
  obtain m0 m p m1 q where e: "kore_malloc no_mem 5 m0 = Inr (m, p)" "mem_reach m [p \<mapsto> 5]" "kore_malloc no_mem 9 m = Inr (m1, q)"
    using mem_example by blast
  have "env_ok no_mem m" by (simp add: env_ok_def no_mem_def)
  then show ?thesis using kore_realloc_keeps [OF e(2) _ _ e(3), of p 5] e(1) by fastforce
qed

theorem kore_calloc_stale_witness:
  "\<exists>m0 m m1 m2 p. kore_malloc no_mem 5 m0 = Inr (m, p) \<and> kore_free (Some p) m = Inr m1 \<and> kore_calloc no_mem 1 5 m1 = Inr (m2, p) \<and>
     ram_read (ram m2) p (1 * 5) = ram_read (ram m) p (1 * 5)"
proof -
  obtain m0 m p where e: "kore_malloc no_mem 5 m0 = Inr (m, p)" "mem_reach m [p \<mapsto> 5]" using mem_example by blast
  then show ?thesis using kore_calloc_stale [OF e(2), of p 1 5 no_mem] by (fastforce simp: mem_sizes)
qed

end
