(* ===== verification/Kore_Msg.thy ===== *)
theory Kore_Msg
  imports Kore_Worker
begin

text \<open>
  Messages between the processes, \<open>base/kore/msg.c\<close>. Each worker has a pipe to the parent process, on both ends a connection
  with the protocol \<open>CONN_PROTO_MSG\<close>. A message is a structure \<open>kore_msg\<close> and its data. The parent handles the types registered with
  it and relays all others to the workers they are addressed to.

  The record \<open>mproc\<close> is one process: its connections (the worker record of \<open>Kore_Connection\<close>), the pointers \<open>hdlr_extra\<close> of the
  connections to \<open>kw->id\<close>, the registered types and, in the parent, the lines written to access logs. Callbacks are
  named by a datatype. The results of \<open>write\<close> that a flush meets are a function of the connection, which holds all that was written
  before; a flush that is not over when they end is the fault \<open>Out_of_fuel\<close>. The host is little-endian.
\<close>

section \<open>State\<close>

definition KORE_MSG_ACCESSLOG :: byte where "KORE_MSG_ACCESSLOG = 1"
definition KORE_MSG_WEBSOCKET :: byte where "KORE_MSG_WEBSOCKET = 2"
definition KORE_MSG_PARENT :: u16 where "KORE_MSG_PARENT = 1000"
definition KORE_MSG_WORKER_ALL :: u16 where "KORE_MSG_WORKER_ALL = 1001"

lemmas msg_consts = KORE_MSG_ACCESSLOG_def KORE_MSG_WEBSOCKET_def KORE_MSG_PARENT_def KORE_MSG_WORKER_ALL_def

record kore_msg =
  m_id :: byte
  m_src :: u16
  m_dst :: u16
  m_length :: u32

datatype msg_fn = Msg_type_accesslog | Msg_type_websocket | Msg_app nat

record msg_type =
  t_id :: byte
  t_cb :: msg_fn

text \<open>\<open>self\<close> is the number of the worker, \<open>None\<close> in the parent, where the pointer \<open>worker\<close> is \<open>NULL\<close>. \<open>kw_msg\<close> is \<open>kw->msg[0]\<close> of
  the workers in the parent, and \<open>worker->msg[1]\<close> of the worker itself.\<close>

record 'u mproc =
  mw :: "'u worker"
  self :: "byte option"
  msg_types :: "msg_type list"
  hdlr_extra :: "nat \<rightharpoonup> byte"
  kw_msg :: "byte \<rightharpoonup> nat"
  log_out :: "(int \<times> byte list) list"

text \<open>\<open>x_app\<close> are the callbacks of the application, \<open>x_script\<close> the results of \<open>write\<close>; \<open>x_date\<close>, \<open>x_ntop\<close> and \<open>x_sent\<close> are the date,
  the text of an address and the result of \<open>write\<close> in \<open>kore_accesslog_write\<close>.\<close>

record 'u msg_env =
  x_kore :: "'u kore_env"
  x_mod :: mod_env
  x_tab :: modtab
  x_app :: "nat \<Rightarrow> kore_msg \<Rightarrow> byte list \<Rightarrow> 'u mproc \<Rightarrow> conn \<Rightarrow> ('u mproc \<times> conn) res"
  x_script :: "conn \<Rightarrow> wres list"
  x_date :: "byte list"
  x_ntop :: "byte \<Rightarrow> byte list \<Rightarrow> byte list"
  x_sent :: int

abbreviation x_junk :: "'u msg_env \<Rightarrow> nat \<Rightarrow> byte" where
  "x_junk env \<equiv> e_junk (e_http (x_kore env))"

text \<open>The structure in memory: the fields lie at 0, 2, 4 and 8, with padding between them.\<close>

definition sizeof_kore_msg :: nat where "sizeof_kore_msg = 12"

definition msg_bytes :: "(nat \<Rightarrow> byte) \<Rightarrow> kore_msg \<Rightarrow> byte list" where
  "msg_bytes pad m =
     [m_id m, pad 1] @ store_le 2 (m_src m) @ store_le 2 (m_dst m) @ [pad 6, pad 7] @ store_le 4 (m_length m)"

definition msg_hdr :: "byte list \<Rightarrow> kore_msg" where
  "msg_hdr b = \<lparr>m_id = b ! 0, m_src = load_le (take 2 (drop 2 b)), m_dst = load_le (take 2 (drop 4 b)),
     m_length = load_le (take 4 (drop 8 b))\<rparr>"

definition msg_at :: "byte list \<Rightarrow> kore_msg res" where
  "msg_at b = (if length b < sizeof_kore_msg then Inl Out_of_bounds else Inr (msg_hdr b))"

text \<open>The store to \<open>msg->dst\<close>.\<close>

definition put_dst :: "byte list \<Rightarrow> u16 \<Rightarrow> byte list" where
  "put_dst b dst = memcpy_at b 4 (store_le 2 dst)"

section \<open>Types of messages\<close>

fun lookup_loop :: "byte \<Rightarrow> msg_type list \<Rightarrow> msg_type option" where
  "lookup_loop i [] = None"
| "lookup_loop i (t # ts) = (if t_id t = i then Some t else lookup_loop i ts)"

definition msg_type_lookup :: "'u mproc \<Rightarrow> byte \<Rightarrow> msg_type option" where
  "msg_type_lookup p i = lookup_loop i (msg_types p)"

definition kore_msg_init :: "'u mproc \<Rightarrow> 'u mproc" where
  "kore_msg_init p = p\<lparr>msg_types := []\<rparr>"

definition kore_msg_register :: "byte \<Rightarrow> msg_fn \<Rightarrow> 'u mproc \<Rightarrow> int \<times> 'u mproc" where
  "kore_msg_register i cb p =
     (case msg_type_lookup p i of
        Some _ \<Rightarrow> (KORE_RESULT_ERROR, p)
      | None \<Rightarrow> (KORE_RESULT_OK, p\<lparr>msg_types := msg_types p @ [\<lparr>t_id = i, t_cb = cb\<rparr>]\<rparr>))"

section \<open>The ends of a pipe\<close>

text \<open>A new connection at the address \<open>a\<close> whose state holds \<open>junk\<close>; it waits for the header of a message.\<close>

definition msg_connection :: "'u msg_env \<Rightarrow> nat \<Rightarrow> conn_state \<Rightarrow> conn res" where
  "msg_connection env a junk =
     net_recv_queue (x_junk env) ((kore_connection_new a junk)\<lparr>proto := CONN_PROTO_MSG, cstate := CONN_STATE_ESTABLISHED\<rparr>)
       sizeof_kore_msg False Msg_recv_packet"

definition link_conn :: "nat \<Rightarrow> conn \<Rightarrow> 'u mproc \<Rightarrow> 'u mproc" where
  "link_conn a c p = p\<lparr>mw := put_conn ((mw p)\<lparr>connections := connections (mw p) @ [a]\<rparr>) c\<rparr>"

definition kore_msg_parent_add :: "'u msg_env \<Rightarrow> nat \<Rightarrow> conn_state \<Rightarrow> byte \<Rightarrow> 'u mproc \<Rightarrow> 'u mproc res" where
  "kore_msg_parent_add env a junk k p =
     rbind (msg_connection env a junk) (\<lambda>c.
       Inr ((link_conn a c p)\<lparr>hdlr_extra := (hdlr_extra p)(a \<mapsto> k), kw_msg := (kw_msg p)(k \<mapsto> a)\<rparr>))"

text \<open>\<open>as\<close> are the addresses of the new connections, one for each of the workers \<open>ks\<close>.\<close>

fun parent_add_all :: "'u msg_env \<Rightarrow> (nat \<times> conn_state) list \<Rightarrow> byte list \<Rightarrow> 'u mproc \<Rightarrow> 'u mproc res" where
  "parent_add_all env ((a, junk) # as) (k # ks) p =
     rbind (kore_msg_parent_add env a junk k p) (parent_add_all env as ks)"
| "parent_add_all env as ks p = Inr p"

definition kore_msg_parent_init :: "'u msg_env \<Rightarrow> nat \<Rightarrow> (nat \<times> conn_state) list \<Rightarrow> 'u mproc \<Rightarrow> 'u mproc res" where
  "kore_msg_parent_init env worker_count as p =
     rbind (parent_add_all env as (map of_nat [0..<worker_count]) p) (\<lambda>p1.
       Inr (snd (kore_msg_register KORE_MSG_ACCESSLOG Msg_type_accesslog p1)))"

text \<open>\<open>kore_connection_disconnect\<close> of the end of a pipe in the parent, with its callback \<open>msg_disconnected_worker\<close>.\<close>

definition msg_disconnected_worker :: "nat \<Rightarrow> 'u mproc \<Rightarrow> 'u mproc" where
  "msg_disconnected_worker i p = p\<lparr>hdlr_extra := (hdlr_extra p)(i := None)\<rparr>"

definition msg_disconnect :: "'u msg_env \<Rightarrow> nat \<Rightarrow> 'u mproc \<Rightarrow> 'u mproc res" where
  "msg_disconnect env i p =
     (case conns (mw p) i of
        None \<Rightarrow> Inl Use_after_free
      | Some c \<Rightarrow>
          let p1 = (if cstate c \<noteq> CONN_STATE_DISCONNECTING then msg_disconnected_worker i p else p) in
          rbind (kore_connection_disconnect (x_kore env) (mw p1) c) (\<lambda>(w, c1). Inr (p1\<lparr>mw := put_conn w c1\<rparr>)))"

definition kore_msg_parent_remove :: "'u msg_env \<Rightarrow> byte \<Rightarrow> 'u mproc \<Rightarrow> 'u mproc res" where
  "kore_msg_parent_remove env k p =
     (case kw_msg p k of
        None \<Rightarrow> Inl Null_deref
      | Some a \<Rightarrow>
          rbind (msg_disconnect env a p) (\<lambda>p1.
          rbind (kore_connection_prune 0 (x_kore env) (\<lambda>_. []) False (mw p1)) (\<lambda>r.
            case r of None \<Rightarrow> Inl Out_of_fuel | Some w \<Rightarrow> Inr (p1\<lparr>mw := w\<rparr>))))"

definition kore_msg_worker_init :: "'u msg_env \<Rightarrow> nat \<Rightarrow> conn_state \<Rightarrow> byte \<Rightarrow> 'u mproc \<Rightarrow> 'u mproc res" where
  "kore_msg_worker_init env a junk me p =
     (let p1 = snd (kore_msg_register KORE_MSG_WEBSOCKET Msg_type_websocket p) in
      rbind (msg_connection env a junk) (\<lambda>c. Inr ((link_conn a c p1)\<lparr>kw_msg := (kw_msg p1)(me \<mapsto> a)\<rparr>)))"

text \<open>What a forked process does with the state it inherits from the parent, as far as connections and messages go: it knows its number,
  starts with empty lists and opens its end of the pipe. The counter of connections is not reset. \<open>b\<close> is the address of the new
  connection in the child, \<open>a\<close> the one in the parent.\<close>

definition kore_connection_init :: "'u worker \<Rightarrow> 'u worker" where
  "kore_connection_init w = w\<lparr>connections := [], disconnected_list := [], conns := Map.empty\<rparr>"

definition worker_boot :: "'u msg_env \<Rightarrow> nat \<Rightarrow> conn_state \<Rightarrow> byte \<Rightarrow> 'u mproc \<Rightarrow> 'u mproc res" where
  "worker_boot env b junk me p = kore_msg_worker_init env b junk me (p\<lparr>self := Some me, mw := kore_connection_init (mw p)\<rparr>)"

text \<open>The restart of a worker in \<open>kore_worker_wait\<close>: the parent and the new worker.\<close>

definition restart_worker ::
    "'u msg_env \<Rightarrow> nat \<Rightarrow> conn_state \<Rightarrow> nat \<Rightarrow> conn_state \<Rightarrow> byte \<Rightarrow> 'u mproc \<Rightarrow> ('u mproc \<times> 'u mproc) res" where
  "restart_worker env a ja b jb k p =
     rbind (kore_msg_parent_remove env k p) (\<lambda>p1.
     rbind (worker_boot env b jb k p1) (\<lambda>child.
     rbind (kore_msg_parent_add env a ja k p1) (\<lambda>parent. Inr (parent, child))))"

section \<open>Sending\<close>

text \<open>\<open>net_send_queue\<close> and \<open>net_send_flush\<close> one after the other, as all senders of this file call them.\<close>

definition queue_flush :: "'u msg_env \<Rightarrow> byte list \<Rightarrow> 'u worker \<Rightarrow> conn \<Rightarrow> 'u worker res" where
  "queue_flush env data w c =
     rbind (net_send_queue (x_junk env) c data) (\<lambda>c1.
     rbind (conn_send_flush (x_kore env) w c1 (x_script env c1)) (\<lambda>r.
       case r of None \<Rightarrow> Inl Out_of_fuel | Some (res, w1, c2) \<Rightarrow> Inr (put_conn w1 c2)))"

text \<open>\<open>pad\<close> is what the padding of the structure on the stack holds.\<close>

definition kore_msg_send :: "'u msg_env \<Rightarrow> (nat \<Rightarrow> byte) \<Rightarrow> u16 \<Rightarrow> byte \<Rightarrow> byte list \<Rightarrow> 'u mproc \<Rightarrow> 'u mproc res" where
  "kore_msg_send env pad dst i data p =
     (case self p of
        None \<Rightarrow> Inl Null_deref
      | Some me \<Rightarrow>
          let m = \<lparr>m_id = i, m_src = ucast me, m_dst = dst, m_length = of_nat (length data)\<rparr> in
          (case kw_msg p me of
             None \<Rightarrow> Inl Null_deref
           | Some a \<Rightarrow>
               (case conns (mw p) a of
                  None \<Rightarrow> Inl Use_after_free
                | Some c \<Rightarrow>
                    rbind (net_send_queue (x_junk env) c (msg_bytes pad m)) (\<lambda>c1.
                    rbind (queue_flush env data (mw p) c1) (\<lambda>w. Inr (p\<lparr>mw := w\<rparr>))))))"

text \<open>\<open>TAILQ_FOREACH\<close> over the connections; the body gets the address, and \<open>s\<close> is the memory it works on besides the
  connections. The successor is read after the body has run.\<close>

fun conn_foreach ::
    "nat \<Rightarrow> (nat \<Rightarrow> conn \<Rightarrow> 's \<Rightarrow> 'u worker \<Rightarrow> ('s \<times> 'u worker) res) \<Rightarrow> nat option \<Rightarrow> 's \<Rightarrow> 'u worker \<Rightarrow> ('s \<times> 'u worker) res" where
  "conn_foreach fuel body None s w = Inr (s, w)"
| "conn_foreach 0 body (Some i) s w = Inl Out_of_fuel"
| "conn_foreach (Suc fuel) body (Some i) s w =
     (case conns w i of
        None \<Rightarrow> Inl Use_after_free
      | Some c \<Rightarrow> rbind (body i c s w) (\<lambda>(s1, w1). conn_foreach fuel body (list_next w1 i) s1 w1))"

definition websocket_body :: "'u msg_env \<Rightarrow> byte list \<Rightarrow> nat \<Rightarrow> conn \<Rightarrow> unit \<Rightarrow> 'u worker \<Rightarrow> (unit \<times> 'u worker) res" where
  "websocket_body env data i c s w =
     (if proto c = CONN_PROTO_WEBSOCKET then rbind (queue_flush env data w c) (\<lambda>w1. Inr (s, w1)) else Inr (s, w))"

definition msg_type_websocket :: "nat \<Rightarrow> 'u msg_env \<Rightarrow> byte list \<Rightarrow> 'u mproc \<Rightarrow> 'u mproc res" where
  "msg_type_websocket fuel env data p =
     rbind (conn_foreach fuel (websocket_body env data) (tailq_first (connections (mw p))) () (mw p)) (\<lambda>(s, w). Inr (p\<lparr>mw := w\<rparr>))"

section \<open>The access log\<close>

text \<open>The structure \<open>kore_log_packet\<close> in memory: arrays of characters hold a string and its terminator, then whatever was there; three
  bytes of padding follow the method and two the end. The type and the bytes of the address stand beside the record.\<close>

definition char_array :: "(nat \<Rightarrow> byte) \<Rightarrow> nat \<Rightarrow> byte list \<Rightarrow> byte list" where
  "char_array junk n s = take n (s @ [0] @ map junk [0..<n])"

definition log_packet_bytes :: "(nat \<Rightarrow> byte) \<Rightarrow> byte \<Rightarrow> byte list \<Rightarrow> kore_log_packet \<Rightarrow> byte list" where
  "log_packet_bytes junk addrtype addr p =
     [lp_method p, junk 1, junk 2, junk 3] @ store_le 4 (word_of_int (lp_status p) :: u32) @ store_le 2 (lp_time_req p) @
     store_le 2 (lp_worker_id p) @ store_le 2 (lp_worker_cpu p) @ [addrtype] @ addr @
     char_array junk KORE_DOMAINNAME_LEN (lp_host p) @ char_array junk HTTP_URI_LEN (lp_path p) @
     char_array junk HTTP_USERAGENT_LEN (lp_agent p) @ [junk 4, junk 5]"

definition c_string :: "byte list \<Rightarrow> byte list" where
  "c_string b = takeWhile (\<lambda>x. x \<noteq> 0) b"

definition log_packet_of :: "byte list \<Rightarrow> kore_log_packet" where
  "log_packet_of b =
     \<lparr>lp_method = b ! 0, lp_status = sint (load_le (take 4 (drop 4 b)) :: u32), lp_time_req = load_le (take 2 (drop 8 b)),
      lp_worker_id = load_le (take 2 (drop 10 b)), lp_worker_cpu = load_le (take 2 (drop 12 b)),
      lp_host = c_string (drop 31 b), lp_path = c_string (drop 286 b), lp_agent = c_string (drop 2286 b)\<rparr>"

text \<open>The callback compares the result with \<open>-1\<close> to log a warning; the log of the program is not part of the model.\<close>

definition msg_type_accesslog :: "'u msg_env \<Rightarrow> kore_msg \<Rightarrow> byte list \<Rightarrow> 'u mproc \<Rightarrow> 'u mproc res" where
  "msg_type_accesslog env m data p =
     rbind (kore_accesslog_write (x_mod env) (x_tab env) (x_date env) (x_ntop env (data ! 14) (take 16 (drop 15 data)))
         (log_packet_of data) (unat (m_length m)) (x_sent env)) (\<lambda>(r, out).
       Inr (case out of None \<Rightarrow> p | Some l \<Rightarrow> p\<lparr>log_out := log_out p @ [l]\<rparr>))"

section \<open>Receiving\<close>

definition msg_recv_packet :: "'u msg_env \<Rightarrow> 'u mproc \<Rightarrow> conn \<Rightarrow> (int \<times> 'u mproc \<times> conn) res" where
  "msg_recv_packet env p c =
     (case rnb c of
        None \<Rightarrow> Inl Null_deref
      | Some nb \<Rightarrow>
          rbind (msg_at (nb_buf nb)) (\<lambda>m.
          rbind (net_recv_expand (x_junk env) c (unat (m_length m)) Msg_recv_data) (\<lambda>c1. Inr (KORE_RESULT_OK, p, c1))))"

definition msg_call :: "nat \<Rightarrow> 'u msg_env \<Rightarrow> msg_fn \<Rightarrow> kore_msg \<Rightarrow> byte list \<Rightarrow> 'u mproc \<Rightarrow> conn \<Rightarrow> ('u mproc \<times> conn) res" where
  "msg_call fuel env f m data p c =
     (case f of
        Msg_type_accesslog \<Rightarrow> rbind (msg_type_accesslog env m data p) (\<lambda>p1. Inr (p1, c))
      | Msg_type_websocket \<Rightarrow> rbind (msg_type_websocket fuel env (take (unat (m_length m)) data) p) (\<lambda>p1. Inr (p1, c))
      | Msg_app k \<Rightarrow> x_app env k m data p c)"

text \<open>The body of the loop of the parent; \<open>buf\<close> is \<open>nb->buf\<close> and \<open>n\<close> is \<open>nb->s_off\<close>.\<close>

definition forward_body ::
    "'u msg_env \<Rightarrow> (nat \<rightharpoonup> byte) \<Rightarrow> nat \<Rightarrow> u16 \<Rightarrow> nat \<Rightarrow> nat \<Rightarrow> conn \<Rightarrow> byte list \<Rightarrow> 'u worker \<Rightarrow> (byte list \<times> 'u worker) res" where
  "forward_body env extra owner destination n i c buf w =
     (if i = owner then Inr (buf, w)
      else if proto c \<noteq> CONN_PROTO_MSG then Inr (buf, w)
      else case extra i of
          None \<Rightarrow> Inr (buf, w)
        | Some k \<Rightarrow>
            if destination \<noteq> KORE_MSG_WORKER_ALL \<and> ucast k \<noteq> destination then Inr (buf, w)
            else let buf1 = put_dst buf (ucast k) in
              rbind (queue_flush env (take n buf1) w c) (\<lambda>w1. Inr (buf1, w1)))"

definition msg_recv_data :: "nat \<Rightarrow> 'u msg_env \<Rightarrow> 'u mproc \<Rightarrow> conn \<Rightarrow> (int \<times> 'u mproc \<times> conn) res" where
  "msg_recv_data fuel env p c =
     (case rnb c of
        None \<Rightarrow> Inl Null_deref
      | Some nb \<Rightarrow>
          rbind (msg_at (nb_buf nb)) (\<lambda>m.
          rbind (case msg_type_lookup p (m_id m) of
              Some t \<Rightarrow>
                if self p = None \<and> m_dst m \<noteq> KORE_MSG_PARENT then Inl (Fatal ''received parent msg for non parent dst'')
                else if (case self p of None \<Rightarrow> False | Some me \<Rightarrow> m_dst m \<noteq> ucast me) then Inl (Fatal ''received message for incorrect worker'')
                else msg_call fuel env (t_cb t) m (drop sizeof_kore_msg (nb_buf nb)) p c
            | None \<Rightarrow>
                if self p = None then
                  rbind (conn_foreach fuel (forward_body env (hdlr_extra p) (cid c) (m_dst m) (s_off nb))
                      (tailq_first (connections (mw p))) (nb_buf nb) (mw p)) (\<lambda>(buf, w).
                    Inr (p\<lparr>mw := w\<rparr>, c\<lparr>rnb := Some (nb\<lparr>nb_buf := buf\<rparr>)\<rparr>))
                else Inr (p, c)) (\<lambda>(p1, c1).
          rbind (net_recv_reset (x_junk env) c1 sizeof_kore_msg Msg_recv_packet) (\<lambda>c2. Inr (KORE_RESULT_OK, p1, c2)))))"

definition msg_callback :: "nat \<Rightarrow> 'u msg_env \<Rightarrow> net_cb \<Rightarrow> 'u mproc \<Rightarrow> conn \<Rightarrow> (int \<times> 'u mproc \<times> conn) res" where
  "msg_callback fuel env k p c =
     (case k of
        Msg_recv_packet \<Rightarrow> msg_recv_packet env p c
      | Msg_recv_data \<Rightarrow> msg_recv_data fuel env p c
      | _ \<Rightarrow> Inl Null_deref)"

section \<open>Layout\<close>

lemma length_msg_bytes [simp]: "length (msg_bytes pad m) = sizeof_kore_msg"
  by (simp add: msg_bytes_def sizeof_kore_msg_def)

lemma msg_hdr_bytes [simp]: "msg_hdr (msg_bytes pad m @ d) = m"
  by (simp add: msg_hdr_def msg_bytes_def load_store_le)

text \<open>A message as it stands in the pipe: a header that gives the length of the data, and data.\<close>

definition message_ok :: "byte list \<Rightarrow> bool" where
  "message_ok f \<longleftrightarrow> sizeof_kore_msg < length f \<and> length f < 2 ^ 32 \<and> unat (m_length (msg_hdr f)) = length f - sizeof_kore_msg"

lemma message_okI:
  assumes "d \<noteq> []" "length d + sizeof_kore_msg < 2 ^ 32" "m_length m = of_nat (length d)"
  shows "message_ok (msg_bytes pad m @ d)"
  using assms by (auto simp: message_ok_def unat_of_nat take_bit_nat_eq_self sizeof_kore_msg_def)

lemma put_dst_hdr:
  assumes "sizeof_kore_msg \<le> length f"
  shows "msg_hdr (put_dst f x) = (msg_hdr f)\<lparr>m_dst := x\<rparr>" "length (put_dst f x) = length f"
    "drop sizeof_kore_msg (put_dst f x) = drop sizeof_kore_msg f" "put_dst (put_dst f x) y = put_dst f y"
proof -
  have l: "12 \<le> length f" using assms by (simp add: sizeof_kore_msg_def)
  then obtain a0 a1 a2 a3 a4 a5 g where f: "f = a0 # a1 # a2 # a3 # a4 # a5 # g" "6 \<le> length g"
    by (auto simp: Suc_le_length_iff numeral_eq_Suc)
  have e: "put_dst (a0 # a1 # a2 # a3 # a4 # a5 # g) x = a0 # a1 # a2 # a3 # store_le 2 x @ g" for x
    by (simp add: put_dst_def memcpy_at_def)
  show "msg_hdr (put_dst f x) = (msg_hdr f)\<lparr>m_dst := x\<rparr>" unfolding f(1) e by (simp add: msg_hdr_def load_store_le)
  show "length (put_dst f x) = length f" by (simp add: e f)
  show "drop sizeof_kore_msg (put_dst f x) = drop sizeof_kore_msg f" by (simp add: e f sizeof_kore_msg_def)
  show "put_dst (put_dst f x) y = put_dst f y" unfolding f(1) e by (simp add: put_dst_def memcpy_at_def)
qed

lemma put_dst_same:
  assumes "sizeof_kore_msg \<le> length f"
  shows "put_dst f (m_dst (msg_hdr f)) = f"
proof -
  have l: "4 + 2 \<le> length f" using assms by (simp add: sizeof_kore_msg_def)
  then have "store_le 2 (load_le (take 2 (drop 4 f)) :: u16) = take 2 (drop 4 f)"
    using store_load_le [of "take 2 (drop 4 f)", where 'w = 16] by simp
  moreover have "take 4 f @ take 2 (drop 4 f) @ drop (4 + 2) f = f"
    by (metis append_assoc append_take_drop_id take_add)
  ultimately show ?thesis using l by (simp add: put_dst_def memcpy_at_def msg_hdr_def min_absorb2)
qed

lemma message_ok_put_dst [simp]: "message_ok f \<Longrightarrow> message_ok (put_dst f x)"
  by (simp add: message_ok_def put_dst_hdr)

section \<open>Flushing and loops over connections\<close>

text \<open>A kernel that gives a flush as many results as it needs, none of them an interruption or a write of nothing.\<close>

definition progress :: "wres \<Rightarrow> bool" where
  "progress r \<longleftrightarrow> (case r of Wrote n \<Rightarrow> 0 < n | Wr_error e \<Rightarrow> e \<noteq> EINTR)"

definition kernel_ok :: "'u msg_env \<Rightarrow> bool" where
  "kernel_ok env \<longleftrightarrow> (\<forall>c. send_work c \<le> length (x_script env c) \<and> (\<forall>r \<in> set (x_script env c). progress r))"

lemma net_send_disconnected: "net_send c r = Inr (res, c') \<Longrightarrow> disconnected c' = disconnected c"
  by (auto simp: net_send_def net_write_def send_finish_def net_remove_netbuf_def
      split: list.splits wres.splits errno.splits if_splits)

lemma net_send_progress:
  assumes "send_ok c" "send_queue c \<noteq> []" "write_possible c" "progress r" "net_send c r = Inr (res, c')"
  shows "res = KORE_RESULT_ERROR \<or> \<not> write_possible c' \<or> send_work c' < send_work c"
proof -
  from assms(2) obtain nb q where q: "send_queue c = nb # q" by (cases "send_queue c") auto
  show ?thesis
  proof (cases "b_len nb = 0")
    case True
    then have "net_send c r = net_send c (Wrote (Suc 0))" by (simp add: net_send_finish [OF q])
    with net_send_ok [OF assms(1-3), of "Wrote (Suc 0)"] assms(5) show ?thesis by auto
  next
    case False
    show ?thesis
    proof (cases r)
      case (Wrote n)
      with assms(4) obtain k where "r = Wrote (Suc k)" by (cases n) (auto simp: progress_def)
      with net_send_ok [OF assms(1-3), of r] assms(5) show ?thesis by auto
    next
      case (Wr_error e)
      with False assms(4,5) show ?thesis
        by (cases e) (auto simp: net_send_finish [OF q] net_write_def progress_def)
    qed
  qed
qed

lemma net_send_flush_ends:
  assumes "send_ok c" "send_work c \<le> length script" "\<forall>r \<in> set script. progress r" "\<not> close_empty c"
  shows "\<exists>res c'. net_send_flush c script = Inr (Some (res, c')) \<and> send_ok c' \<and> conn_output c' = conn_output c \<and>
    disconnected c' = disconnected c \<and> \<not> close_empty c'"
  using assms
proof (induction script arbitrary: c)
  case Nil
  then show ?case by (auto simp: net_send_flush.simps [of c] send_work_def)
next
  case (Cons r rs)
  show ?case
  proof (cases "send_queue c \<noteq> [] \<and> write_possible c")
    case True
    then have t: "send_queue c \<noteq> []" "write_possible c" by auto
    from net_send_ok [OF Cons.prems(1) t, of r] obtain res c1 where
      c1: "net_send c r = Inr (res, c1)" "send_ok c1" "conn_output c1 = conn_output c" "close_empty c1 = close_empty c" by blast
    have d: "disconnected c1 = disconnected c" by (rule net_send_disconnected [OF c1(1)])
    have f: "net_send_flush c (r # rs) = (if res = KORE_RESULT_ERROR then Inr (Some (KORE_RESULT_ERROR, c1)) else net_send_flush c1 rs)"
      using t c1(1) by (simp add: net_send_flush.simps [of c])
    consider "res = KORE_RESULT_ERROR" | "\<not> write_possible c1" | "send_work c1 < send_work c"
      using net_send_progress [OF Cons.prems(1) t _ c1(1)] Cons.prems(3) by auto
    then show ?thesis
    proof cases
      case 1
      then show ?thesis using f c1 d Cons.prems(4) by auto
    next
      case 2
      then show ?thesis using f c1 d Cons.prems(4) by (auto simp: net_send_flush.simps [of c1])
    next
      case 3
      with Cons.prems(2) have "send_work c1 \<le> length rs" by simp
      with Cons.IH [OF c1(2)] Cons.prems(3,4) c1(3,4) d f show ?thesis by (cases "res = KORE_RESULT_ERROR") (auto simp: c1(2))
    qed
  next
    case False
    with Cons.prems show ?thesis by (auto simp: net_send_flush.simps [of c])
  qed
qed

lemma conn_output_disconnected [simp]:
  "conn_output (c\<lparr>disconnected := b\<rparr>) = conn_output c" "send_ok (c\<lparr>disconnected := b\<rparr>) = send_ok c"
  "send_work (c\<lparr>disconnected := b\<rparr>) = send_work c"
  by (simp_all add: conn_output_def pending_def send_ok_def send_work_def)

lemma queue_flush_ok:
  assumes "kernel_ok env" "send_ok c" "\<not> close_empty c" "length data < 2 ^ 32"
  shows "\<exists>c'. queue_flush env data w c = Inr (put_conn w c') \<and> send_ok c' \<and> \<not> close_empty c' \<and> conn_output c' = conn_output c @ data \<and>
    send_frame c c'"
proof -
  from net_send_queue_ok [OF assms(2,4), of "x_junk env"] obtain q where
    q: "net_send_queue (x_junk env) c data = Inr (c\<lparr>send_queue := q\<rparr>)" "send_ok (c\<lparr>send_queue := q\<rparr>)"
      "conn_output (c\<lparr>send_queue := q\<rparr>) = conn_output c @ data" by blast
  let ?c = "c\<lparr>send_queue := q\<rparr>"
  from net_send_flush_ends [of "?c\<lparr>disconnected := False\<rparr>" "x_script env ?c"] assms(1,3) q(2) obtain res c' where
    c': "net_send_flush (?c\<lparr>disconnected := False\<rparr>) (x_script env ?c) = Inr (Some (res, c'))" "send_ok c'" "conn_output c' = conn_output ?c"
      "\<not> disconnected c'" "\<not> close_empty c'" by (auto simp: kernel_ok_def)
  have "send_frame c c'" using net_send_flush_frame [OF c'(1)] by (simp add: send_frame_def)
  then show ?thesis using q c' by (intro exI [of _ c']) (simp add: queue_flush_def conn_send_flush_def)
qed

text \<open>The listed connections are live.\<close>

definition listed_ok :: "'u worker \<Rightarrow> bool" where
  "listed_ok w \<longleftrightarrow> distinct (connections w) \<and> (\<forall>i \<in> set (connections w). \<exists>c. conns w i = Some c \<and> cid c = i)"

text \<open>The contract of a loop body: on a connection it can work with (\<open>Q\<close>), it updates that connection only, as \<open>R\<close> says, and
  keeps \<open>I\<close> of the other memory.\<close>

locale foreach_body =
  fixes body :: "nat \<Rightarrow> conn \<Rightarrow> 's \<Rightarrow> 'u worker \<Rightarrow> ('s \<times> 'u worker) res"
    and I :: "'s \<Rightarrow> bool" and Q :: "nat \<Rightarrow> conn \<Rightarrow> bool" and R :: "nat \<Rightarrow> conn \<Rightarrow> conn \<Rightarrow> bool"
  assumes body_ok: "I s \<Longrightarrow> Q i c \<Longrightarrow> cid c = i \<Longrightarrow> conns w i = Some c \<Longrightarrow>
    \<exists>s1 c'. body i c s w = Inr (s1, put_conn w c') \<and> cid c' = i \<and> R i c c' \<and> I s1"
begin

lemma foreach_suffix:
  assumes "connections w = xs @ ys" "distinct (connections w)" "length ys \<le> fuel" "I s"
    "\<forall>i \<in> set ys. \<exists>c. conns w i = Some c \<and> cid c = i \<and> Q i c"
  shows "\<exists>s' m. conn_foreach fuel body (tailq_first ys) s w = Inr (s', w\<lparr>conns := m\<rparr>) \<and> I s' \<and>
    (\<forall>i \<in> set ys. \<exists>c c'. conns w i = Some c \<and> m i = Some c' \<and> cid c' = i \<and> R i c c') \<and> (\<forall>i. i \<notin> set ys \<longrightarrow> m i = conns w i)"
  using assms
proof (induction ys arbitrary: xs s w fuel)
  case Nil
  then show ?case by (intro exI [of _ s] exI [of _ "conns w"]) (simp add: tailq_first_def)
next
  case (Cons i ys)
  obtain f where f: "fuel = Suc f" "length ys \<le> f" using Cons.prems(3) by (cases fuel) auto
  obtain c where c: "conns w i = Some c" "cid c = i" "Q i c" using Cons.prems(5) by auto
  from body_ok [OF Cons.prems(4) c(3,2,1)] obtain s1 c' where
    b: "body i c s w = Inr (s1, put_conn w c')" "cid c' = i" "R i c c'" "I s1" by blast
  let ?w = "put_conn w c'"
  have i: "i \<notin> set xs" "i \<notin> set ys" using Cons.prems(1,2) by auto
  have cs: "connections ?w = (xs @ [i]) @ ys" "distinct (connections ?w)" using Cons.prems(1,2) by (auto simp: put_conn_def)
  have next_i: "list_next ?w i = tailq_first ys"
    using tailq_next_append [of i xs ys] i Cons.prems(1) by (simp add: list_next_def put_conn_def)
  have rest: "conns ?w j = conns w j" if "j \<noteq> i" for j using that b(2) by (simp add: put_conn_def)
  have ys: "\<forall>j \<in> set ys. \<exists>c. conns ?w j = Some c \<and> cid c = j \<and> Q j c"
  proof
    fix j assume j: "j \<in> set ys"
    then have "j \<noteq> i" using i(2) by auto
    then show "\<exists>c. conns ?w j = Some c \<and> cid c = j \<and> Q j c" unfolding rest [OF \<open>j \<noteq> i\<close>] using Cons.prems(5) j by simp
  qed
  from Cons.IH [OF cs f(2) b(4) ys] obtain s' m where
    m: "conn_foreach f body (tailq_first ys) s1 ?w = Inr (s', ?w\<lparr>conns := m\<rparr>)" "I s'"
      "\<forall>j \<in> set ys. \<exists>c c'. conns ?w j = Some c \<and> m j = Some c' \<and> cid c' = j \<and> R j c c'" "\<forall>j. j \<notin> set ys \<longrightarrow> m j = conns ?w j" by blast
  have w: "?w\<lparr>conns := m\<rparr> = w\<lparr>conns := m\<rparr>" by (simp add: put_conn_def)
  have run: "conn_foreach fuel body (tailq_first (i # ys)) s w = Inr (s', w\<lparr>conns := m\<rparr>)"
    using m(1) b(1) c(1) f(1) next_i w by (simp add: tailq_first_def)
  have mi: "m i = Some c'" using m(4) i(2) b(2) by (simp add: put_conn_def)
  have all: "\<exists>c c'. conns w j = Some c \<and> m j = Some c' \<and> cid c' = j \<and> R j c c'" if "j \<in> set (i # ys)" for j
  proof (cases "j = i")
    case True
    then show ?thesis using c(1) mi b(2,3) by auto
  next
    case False
    then show ?thesis using m(3) that rest by auto
  qed
  have "m j = conns w j" if "j \<notin> set (i # ys)" for j using m(4) rest that by simp
  with run m(2) all show ?case by blast
qed

lemma foreach_ok:
  assumes "listed_ok w" "length (connections w) \<le> fuel" "I s" "\<And>i c. i \<in> set (connections w) \<Longrightarrow> conns w i = Some c \<Longrightarrow> Q i c"
  shows "\<exists>s' m. conn_foreach fuel body (tailq_first (connections w)) s w = Inr (s', w\<lparr>conns := m\<rparr>) \<and>
    (\<forall>i \<in> set (connections w). \<exists>c c'. conns w i = Some c \<and> m i = Some c' \<and> cid c' = i \<and> R i c c') \<and>
    (\<forall>i. i \<notin> set (connections w) \<longrightarrow> m i = conns w i)"
proof -
  have "\<forall>i \<in> set (connections w). \<exists>c. conns w i = Some c \<and> cid c = i \<and> Q i c"
    using assms(1,4) unfolding listed_ok_def by blast
  from foreach_suffix [of w "[]", OF _ _ assms(2,3) this] assms(1) show ?thesis by (auto simp: listed_ok_def)
qed

end

text \<open>A connection that takes the data \<open>d\<close>, and stays what it was otherwise.\<close>

definition sendable :: "conn \<Rightarrow> bool" where
  "sendable c \<longleftrightarrow> send_ok c \<and> \<not> close_empty c"

definition took :: "byte list \<Rightarrow> conn \<Rightarrow> conn \<Rightarrow> bool" where
  "took d c c' \<longleftrightarrow> (sendable c \<longrightarrow> sendable c') \<and> conn_output c' = conn_output c @ d \<and> send_frame c c'"

lemma took_refl [simp]: "took [] c c"
  by (simp add: took_def send_frame_def)

lemma took_trans: "took d c c1 \<Longrightarrow> took e c1 c2 \<Longrightarrow> took (d @ e) c c2"
  by (auto simp: took_def send_frame_def)

lemma queue_flush_took:
  assumes "kernel_ok env" "sendable c" "length data < 2 ^ 32"
  shows "\<exists>c'. queue_flush env data w c = Inr (put_conn w c') \<and> cid c' = cid c \<and> took data c c'"
  using queue_flush_ok [OF assms(1) _ _ assms(3), of c w] assms(2) send_frame_conn by (fastforce simp: sendable_def took_def)

text \<open>What the parent sends to the worker behind connection \<open>i\<close> for the message \<open>f\<close>.\<close>

definition relay :: "(nat \<rightharpoonup> byte) \<Rightarrow> nat \<Rightarrow> nat \<Rightarrow> conn_proto \<Rightarrow> byte list \<Rightarrow> byte list" where
  "relay extra owner i pr f =
     (case extra i of
        None \<Rightarrow> []
      | Some k \<Rightarrow>
          if i \<noteq> owner \<and> pr = CONN_PROTO_MSG \<and> (m_dst (msg_hdr f) = KORE_MSG_WORKER_ALL \<or> m_dst (msg_hdr f) = ucast k)
          then put_dst f (ucast k) else [])"

text \<open>The memory of the loop is the message with any destination.\<close>

lemma forward_body_ok:
  assumes k: "kernel_ok env" and f: "message_ok f" and I: "\<exists>x. buf = put_dst f x" and c: "cid c = i" "conns w i = Some c"
    and Q: "proto c = CONN_PROTO_MSG \<longrightarrow> sendable c"
  shows "\<exists>buf1 c'. forward_body env extra owner (m_dst (msg_hdr f)) (length f) i c buf w = Inr (buf1, put_conn w c') \<and> cid c' = i \<and>
    took (relay extra owner i (proto c) f) c c' \<and> (\<exists>x. buf1 = put_dst f x)"
proof (cases "relay extra owner i (proto c) f = []")
  case True
  have p: "put_conn w c = w" using put_conn_id [of w c] c by simp
  have "put_dst f x \<noteq> []" for x using f put_dst_hdr(2) [of f x] by (auto simp: message_ok_def sizeof_kore_msg_def)
  then have "forward_body env extra owner (m_dst (msg_hdr f)) (length f) i c buf w = Inr (buf, w)"
    using True by (auto simp: forward_body_def relay_def split: option.splits if_splits)
  then show ?thesis using True I c(1) p by (intro exI [of _ buf] exI [of _ c]) simp
next
  case False
  then obtain b where b: "extra i = Some b" "i \<noteq> owner" "proto c = CONN_PROTO_MSG"
    "m_dst (msg_hdr f) = KORE_MSG_WORKER_ALL \<or> m_dst (msg_hdr f) = ucast b" "relay extra owner i (proto c) f = put_dst f (ucast b)"
    by (auto simp: relay_def split: option.splits if_splits)
  have l: "sizeof_kore_msg \<le> length f" "length f < 2 ^ 32" using f by (auto simp: message_ok_def)
  have buf: "put_dst buf (ucast b) = put_dst f (ucast b)" using I put_dst_hdr(4) [OF l(1)] by auto
  have len: "length (put_dst f (ucast b)) = length f" by (rule put_dst_hdr(2) [OF l(1)])
  have lt: "length (put_dst f (ucast b)) < 2 ^ 32" using len l(2) by simp
  from queue_flush_took [OF k _ lt, of c w] Q b(3) obtain c' where
    c': "queue_flush env (put_dst f (ucast b)) w c = Inr (put_conn w c')" "cid c' = cid c" "took (put_dst f (ucast b)) c c'" by auto
  have "forward_body env extra owner (m_dst (msg_hdr f)) (length f) i c buf w = Inr (put_dst f (ucast b), put_conn w c')"
    using b c'(1) by (auto simp: forward_body_def buf len Let_def)
  then show ?thesis using c' c(1) b(5) by auto
qed

interpretation fwd: foreach_body "forward_body env extra owner (m_dst (msg_hdr f)) (length f)" "\<lambda>buf. \<exists>x. buf = put_dst f x"
    "\<lambda>i c. kernel_ok env \<and> message_ok f \<and> (proto c = CONN_PROTO_MSG \<longrightarrow> sendable c)"
    "\<lambda>i c c'. took (relay extra owner i (proto c) f) c c'" for env extra owner f
  by unfold_locales (rule forward_body_ok, auto)

interpretation wsb: foreach_body "websocket_body env data" "\<lambda>_. True"
    "\<lambda>i c. kernel_ok env \<and> length data < 2 ^ 32 \<and> (proto c = CONN_PROTO_WEBSOCKET \<longrightarrow> sendable c)"
    "\<lambda>i c c'. took (if proto c = CONN_PROTO_WEBSOCKET then data else []) c c'" for env data
proof (unfold_locales, goal_cases)
  case (1 s i c w)
  then have k: "kernel_ok env" "length data < 2 ^ 32" "proto c = CONN_PROTO_WEBSOCKET \<longrightarrow> sendable c" by auto
  show ?case
  proof (cases "proto c = CONN_PROTO_WEBSOCKET")
    case True
    then show ?thesis using queue_flush_took [OF k(1) _ k(2), of c w] k(3) 1(3) by (auto simp: websocket_body_def)
  next
    case False
    have "put_conn w c = w" using put_conn_id [of w c] 1(3,4) by simp
    then show ?thesis using False 1(3) by (intro exI [of _ s] exI [of _ c]) (simp add: websocket_body_def)
  qed
qed

section \<open>Reception in pieces\<close>

lemma recv_phase_bytes:
  assumes nb: "rnb c = Some nb" "recv_ok nb" "read_possible c" "\<not> nb_call_always nb" "nb_cb nb = Some k" "s_off nb < b_len nb"
    and ps: "fits call w c ps" "concat ps = x @ rest" "length x = b_len nb - s_off nb"
  shows "\<exists>ps2 c1. concat ps2 = rest \<and> c1 = c\<lparr>rnb := Some (nb\<lparr>nb_buf := memcpy_at (nb_buf nb) (s_off nb) x, s_off := b_len nb\<rparr>)\<rparr> \<and>
    recv_loop call w c (map Rd ps @ rs) = rbind (call k w c1) (after_call call (map Rd ps2 @ rs)) \<and>
    (\<forall>w' c'. call k w c1 = Inr (KORE_RESULT_OK, w', c') \<longrightarrow> fits call w' c' ps2)"
proof -
  have "b_len nb - s_off nb \<le> length (concat ps)" using ps(2,3) by simp
  from recv_phase [OF nb ps(1) this, of rs] obtain ps1 ps2 c1 where
    p: "ps = ps1 @ ps2" "length (concat ps1) = b_len nb - s_off nb"
      "c1 = c\<lparr>rnb := Some (nb\<lparr>nb_buf := memcpy_at (nb_buf nb) (s_off nb) (concat ps1), s_off := b_len nb\<rparr>)\<rparr>"
      "recv_loop call w c (map Rd ps @ rs) = rbind (call k w c1) (after_call call (map Rd ps2 @ rs))"
      "\<forall>w' c'. call k w c1 = Inr (KORE_RESULT_OK, w', c') \<longrightarrow> fits call w' c' ps2" by blast
  have "concat (ps1 @ ps2) = x @ rest" using ps(2) p(1) by simp
  from concat_split [OF this p(2)] ps(3) have "concat ps1 = x" "concat ps2 = rest" by simp_all
  with p show ?thesis by blast
qed

text \<open>The end of a pipe waits for the header of a message.\<close>

definition msg_wait :: "conn \<Rightarrow> bool" where
  "msg_wait c \<longleftrightarrow> (\<exists>nb. rnb c = Some nb \<and> recv_ok nb \<and> m_len nb = length (nb_buf nb) \<and> \<not> nb_call_always nb \<and>
     nb_cb nb = Some Msg_recv_packet \<and> s_off nb = 0 \<and> b_len nb = sizeof_kore_msg) \<and> read_possible c"

text \<open>The buffer holds the message \<open>f\<close>.\<close>

definition msg_full :: "byte list \<Rightarrow> net_cb netbuf \<Rightarrow> bool" where
  "msg_full f nb \<longleftrightarrow> nb_buf nb = f \<and> s_off nb = length f \<and> b_len nb = length f \<and> m_len nb = length f \<and> nb_type nb = NETBUF_RECV \<and>
     \<not> nb_call_always nb"

lemma msg_hdr_take: "length h = sizeof_kore_msg \<Longrightarrow> msg_hdr (h @ r) = msg_hdr (h @ r')"
  by (simp add: msg_hdr_def sizeof_kore_msg_def nth_append)

lemma net_recv_expand_msg:
  assumes "rnb c = Some nb" "nb_type nb = NETBUF_RECV" "b_len nb \<le> length (nb_buf nb)" "0 < n" "b_len nb + n < 2 ^ 64"
  shows "\<exists>b. net_recv_expand junk c n k = Inr (c\<lparr>rnb := Some (nb\<lparr>nb_cb := Some k, b_len := b_len nb + n, m_len := b_len nb + n, nb_buf := b\<rparr>)\<rparr>) \<and>
    length b = b_len nb + n \<and> take (b_len nb) b = take (b_len nb) (nb_buf nb)"
proof -
  let ?m = "b_len nb + n"
  have w: "wadd64 (b_len nb) n = ?m" using assms(5) by simp
  let ?b = "memcpy_at (fresh junk ?m) 0 (take (min ?m (length (nb_buf nb))) (nb_buf nb))"
  have "realloc_block junk (Some (nb_buf nb)) ?m = Inr ?b" using assms(4) by (simp add: realloc_block_def malloc_block_def)
  moreover have "take (b_len nb) ?b = take (b_len nb) (nb_buf nb)" "length ?b = ?m" using assms(3) by (simp_all add: memcpy_at_def min_def)
  ultimately show ?thesis using assms(1,2) w by (intro exI [of _ ?b]) (simp add: net_recv_expand_def Let_def)
qed

lemma msg_pieces:
  fixes env :: "'u msg_env" and fuel :: nat
  defines "call \<equiv> msg_callback fuel env"
  assumes c: "msg_wait c" and f: "message_ok f" and ps: "fits call p c ps" "concat ps = f @ rest"
  shows "\<exists>ps2 nb1. concat ps2 = rest \<and> msg_full f nb1 \<and>
    recv_loop call p c (map Rd ps @ rs) = rbind (msg_recv_data fuel env p (c\<lparr>rnb := Some nb1\<rparr>)) (after_call call (map Rd ps2 @ rs)) \<and>
    (\<forall>p' c'. msg_recv_data fuel env p (c\<lparr>rnb := Some nb1\<rparr>) = Inr (KORE_RESULT_OK, p', c') \<longrightarrow> fits call p' c' ps2)"
proof -
  let ?h = "take sizeof_kore_msg f" and ?d = "drop sizeof_kore_msg f"
  have cb: "call Msg_recv_packet = msg_recv_packet env" "call Msg_recv_data = msg_recv_data fuel env"
    by (intro ext; simp add: call_def msg_callback_def)+
  have rp: "read_possible c" using c by (simp add: msg_wait_def)
  from c obtain nb where nb: "rnb c = Some nb" "recv_ok nb" "m_len nb = length (nb_buf nb)" "\<not> nb_call_always nb"
    "nb_cb nb = Some Msg_recv_packet" "s_off nb = 0" "b_len nb = sizeof_kore_msg" by (auto simp: msg_wait_def)
  have lf: "sizeof_kore_msg < length f" "length f < 2 ^ 32" "unat (m_length (msg_hdr f)) = length ?d" using f by (auto simp: message_ok_def)
  have lt: "s_off nb < b_len nb" "length ?h = b_len nb - s_off nb" using nb(6,7) lf(1) by (auto simp: sizeof_kore_msg_def)
  have ps': "concat ps = ?h @ ?d @ rest" using ps(2) by simp
  let ?nb1 = "nb\<lparr>nb_buf := memcpy_at (nb_buf nb) 0 ?h, s_off := sizeof_kore_msg\<rparr>"
  obtain ps2 where p: "concat ps2 = ?d @ rest"
    "recv_loop call p c (map Rd ps @ rs) = rbind (msg_recv_packet env p (c\<lparr>rnb := Some ?nb1\<rparr>)) (after_call call (map Rd ps2 @ rs))"
    "\<forall>w' c'. msg_recv_packet env p (c\<lparr>rnb := Some ?nb1\<rparr>) = Inr (KORE_RESULT_OK, w', c') \<longrightarrow> fits call w' c' ps2"
    using recv_phase_bytes [OF nb(1,2) rp nb(4,5) lt(1) ps(1) ps' lt(2), of rs] unfolding nb(6,7) cb by auto
  have lb: "sizeof_kore_msg \<le> length (nb_buf nb)" "nb_type nb = NETBUF_RECV" using nb(2,7) by (auto simp: recv_ok_def)
  have b1: "nb_buf ?nb1 = ?h @ drop sizeof_kore_msg (nb_buf nb)" using lt(2) nb(6,7) by (simp add: memcpy_at_def)
  have m: "msg_at (nb_buf ?nb1) = Inr (msg_hdr f)"
    using msg_hdr_take [of ?h "drop sizeof_kore_msg (nb_buf nb)" ?d] lb(1) lt(2) nb(6,7) unfolding b1 by (simp add: msg_at_def)
  have "0 < length ?d" "b_len ?nb1 + length ?d < 2 ^ 64" "b_len ?nb1 \<le> length (nb_buf ?nb1)"
    using lf nb(7) lb(1) lt(2) nb(6) by (simp_all add: b1)
  from net_recv_expand_msg [of "c\<lparr>rnb := Some ?nb1\<rparr>" ?nb1, OF _ _ this(3,1,2), of "x_junk env" Msg_recv_data] lb(2) nb(7) obtain b where
    e: "net_recv_expand (x_junk env) (c\<lparr>rnb := Some ?nb1\<rparr>) (length ?d) Msg_recv_data =
        Inr (c\<lparr>rnb := Some (?nb1\<lparr>nb_cb := Some Msg_recv_data, b_len := length f, m_len := length f, nb_buf := b\<rparr>)\<rparr>)"
      "length b = length f" "take sizeof_kore_msg b = take sizeof_kore_msg (nb_buf ?nb1)" using lf(1) by auto
  let ?nb2 = "?nb1\<lparr>nb_cb := Some Msg_recv_data, b_len := length f, m_len := length f, nb_buf := b\<rparr>" let ?c2 = "c\<lparr>rnb := Some ?nb2\<rparr>"
  have r1: "msg_recv_packet env p (c\<lparr>rnb := Some ?nb1\<rparr>) = Inr (KORE_RESULT_OK, p, ?c2)" using m e(1) lf(3) by (simp add: msg_recv_packet_def)
  have n2: "recv_ok ?nb2" "s_off ?nb2 < b_len ?nb2" "length ?d = b_len ?nb2 - s_off ?nb2"
    using lf(1) lb(2) e(2) by (auto simp: recv_ok_def)
  have fit2: "fits call p ?c2 ps2" and loop2: "recv_loop call p c (map Rd ps @ rs) = recv_loop call p ?c2 (map Rd ps2 @ rs)"
    using p(2,3) r1 by (simp_all add: after_call_def)
  let ?nb3 = "?nb2\<lparr>nb_buf := memcpy_at b sizeof_kore_msg ?d, s_off := length f\<rparr>"
  obtain ps3 where q: "concat ps3 = rest"
    "recv_loop call p ?c2 (map Rd ps2 @ rs) = rbind (msg_recv_data fuel env p (c\<lparr>rnb := Some ?nb3\<rparr>)) (after_call call (map Rd ps3 @ rs))"
    "\<forall>w' c'. msg_recv_data fuel env p (c\<lparr>rnb := Some ?nb3\<rparr>) = Inr (KORE_RESULT_OK, w', c') \<longrightarrow> fits call w' c' ps3"
    using recv_phase_bytes [OF _ n2(1) _ _ _ n2(2) fit2 p(1) n2(3), of Msg_recv_data rs] rp nb(4) unfolding cb by auto
  have "memcpy_at b sizeof_kore_msg ?d = f"
    using e(2,3) b1 lt(2) nb(6,7) lf(1) by (simp add: memcpy_at_def)
  then have "msg_full f ?nb3" using lb(2) nb(4) by (simp add: msg_full_def)
  with q loop2 show ?thesis by (intro exI [of _ ps3] exI [of _ ?nb3]) simp
qed

text \<open>However the bytes \<open>t\<close> arrive in pieces, the process \<open>p\<close> reads all of them from \<open>c\<close>, waits for the next message then, and is in a state
  with \<open>P\<close>.\<close>

definition reads :: "'u msg_env \<Rightarrow> nat \<Rightarrow> 'u mproc \<Rightarrow> conn \<Rightarrow> byte list \<Rightarrow> ('u mproc \<Rightarrow> bool) \<Rightarrow> bool" where
  "reads env fuel p c t P \<longleftrightarrow> (\<forall>ps rs. concat ps = t \<longrightarrow> fits (msg_callback fuel env) p c ps \<longrightarrow>
     (\<exists>p' b. recv_loop (msg_callback fuel env) p c (map Rd ps @ rs) = recv_loop (msg_callback fuel env) p' (c\<lparr>rnb := b\<rparr>) rs \<and>
        msg_wait (c\<lparr>rnb := b\<rparr>) \<and> P p'))"

lemma reads_mono:
  assumes "reads env fuel p c t P" "\<And>p'. P p' \<Longrightarrow> P' p'"
  shows "reads env fuel p c t P'"
  unfolding reads_def
proof (intro allI impI)
  fix ps rs assume "concat ps = t" "fits (msg_callback fuel env) p c ps"
  then obtain p' b where "recv_loop (msg_callback fuel env) p c (map Rd ps @ rs) = recv_loop (msg_callback fuel env) p' (c\<lparr>rnb := b\<rparr>) rs"
    "msg_wait (c\<lparr>rnb := b\<rparr>)" "P p'" using assms(1) [unfolded reads_def, rule_format, of ps rs] by blast
  then show "\<exists>p' b. recv_loop (msg_callback fuel env) p c (map Rd ps @ rs) = recv_loop (msg_callback fuel env) p' (c\<lparr>rnb := b\<rparr>) rs \<and>
      msg_wait (c\<lparr>rnb := b\<rparr>) \<and> P' p'" using assms(2) by blast
qed

text \<open>One step for each message.\<close>

fun chain :: "('a \<Rightarrow> 's \<Rightarrow> 's \<Rightarrow> bool) \<Rightarrow> 'a list \<Rightarrow> 's \<Rightarrow> 's \<Rightarrow> bool" where
  "chain step [] p p' \<longleftrightarrow> p' = p"
| "chain step (f # fs) p p' \<longleftrightarrow> (\<exists>q. step f p q \<and> chain step fs q p')"

text \<open>The contract of a process that reads messages from a pipe, the one at address \<open>owner\<close>: a message that is complete and acceptable is
  handled in one step, the buffer keeps its size, and the process is ready for the next one.\<close>

locale msg_reader =
  fixes env :: "'u msg_env" and fuel :: nat and owner :: nat and ready :: "'u mproc \<Rightarrow> bool" and accepts :: "byte list \<Rightarrow> bool"
    and step :: "byte list \<Rightarrow> 'u mproc \<Rightarrow> 'u mproc \<Rightarrow> bool"
  assumes accepts_message: "accepts f \<Longrightarrow> message_ok f"
    and handles: "ready p \<Longrightarrow> accepts f \<Longrightarrow> cid c = owner \<Longrightarrow> rnb c = Some nb \<Longrightarrow> msg_full f nb \<Longrightarrow>
      \<exists>p' b. length b = length f \<and> step f p p' \<and> ready p' \<and> msg_recv_data fuel env p c =
        rbind (net_recv_reset (x_junk env) (c\<lparr>rnb := Some (nb\<lparr>nb_buf := b\<rparr>)\<rparr>) sizeof_kore_msg Msg_recv_packet) (\<lambda>c2. Inr (KORE_RESULT_OK, p', c2))"
begin

lemma handles_reset:
  assumes "ready p" "accepts f" "cid c = owner" "rnb c = Some nb" "msg_full f nb" "read_possible c"
  shows "\<exists>p' b. msg_recv_data fuel env p c = Inr (KORE_RESULT_OK, p', c\<lparr>rnb := b\<rparr>) \<and> msg_wait (c\<lparr>rnb := b\<rparr>) \<and> step f p p' \<and> ready p'"
proof -
  from handles [OF assms(1-5)] obtain p' b where h: "length b = length f" "step f p p'" "ready p'"
    "msg_recv_data fuel env p c = rbind (net_recv_reset (x_junk env) (c\<lparr>rnb := Some (nb\<lparr>nb_buf := b\<rparr>)\<rparr>) sizeof_kore_msg Msg_recv_packet)
       (\<lambda>c2. Inr (KORE_RESULT_OK, p', c2))" by blast
  let ?nb = "nb\<lparr>nb_buf := b\<rparr>"
  have "nb_type ?nb = NETBUF_RECV" "m_len ?nb = length (nb_buf ?nb)" "\<not> nb_call_always ?nb" using assms(5) h(1) by (auto simp: msg_full_def)
  with net_recv_reset_ok [of "c\<lparr>rnb := Some ?nb\<rparr>" ?nb sizeof_kore_msg "x_junk env" Msg_recv_packet] obtain nb2 where
    r: "net_recv_reset (x_junk env) (c\<lparr>rnb := Some ?nb\<rparr>) sizeof_kore_msg Msg_recv_packet = Inr (c\<lparr>rnb := Some nb2\<rparr>)"
      "nb_cb nb2 = Some Msg_recv_packet" "s_off nb2 = 0" "b_len nb2 = sizeof_kore_msg" "\<not> nb_call_always nb2" "m_len nb2 = length (nb_buf nb2)" "recv_ok nb2"
    by (auto simp: sizeof_kore_msg_def)
  then have "msg_wait (c\<lparr>rnb := Some nb2\<rparr>)" using assms(6) by (simp add: msg_wait_def)
  with h r(1) show ?thesis by (intro exI [of _ p'] exI [of _ "Some nb2"]) simp
qed

lemma messages_handled:
  assumes "ready p" "\<forall>f \<in> set fs. accepts f" "msg_wait c" "cid c = owner" "fits (msg_callback fuel env) p c ps" "concat ps = concat fs @ rest"
  shows "\<exists>p' b ps2. recv_loop (msg_callback fuel env) p c (map Rd ps @ rs) = recv_loop (msg_callback fuel env) p' (c\<lparr>rnb := b\<rparr>) (map Rd ps2 @ rs) \<and>
    concat ps2 = rest \<and> fits (msg_callback fuel env) p' (c\<lparr>rnb := b\<rparr>) ps2 \<and> chain step fs p p' \<and> ready p' \<and> msg_wait (c\<lparr>rnb := b\<rparr>)"
  using assms
proof (induction fs arbitrary: p c ps)
  case Nil
  then show ?case by (intro exI [of _ p] exI [of _ "rnb c"] exI [of _ ps]) simp
next
  case (Cons f fs)
  have f: "accepts f" "message_ok f" using Cons.prems(2) accepts_message by auto
  have cc: "concat ps = f @ concat fs @ rest" using Cons.prems(6) by simp
  from msg_pieces [OF Cons.prems(3) f(2) Cons.prems(5) cc, of rs] obtain ps2 nb1 where
    m: "concat ps2 = concat fs @ rest" "msg_full f nb1"
      "recv_loop (msg_callback fuel env) p c (map Rd ps @ rs) =
         rbind (msg_recv_data fuel env p (c\<lparr>rnb := Some nb1\<rparr>)) (after_call (msg_callback fuel env) (map Rd ps2 @ rs))"
      "\<forall>p' c'. msg_recv_data fuel env p (c\<lparr>rnb := Some nb1\<rparr>) = Inr (KORE_RESULT_OK, p', c') \<longrightarrow> fits (msg_callback fuel env) p' c' ps2" by blast
  have rp: "read_possible c" using Cons.prems(3) by (simp add: msg_wait_def)
  from handles_reset [OF Cons.prems(1) f(1), of "c\<lparr>rnb := Some nb1\<rparr>" nb1] m(2) rp Cons.prems(4) obtain q b where
    h: "msg_recv_data fuel env p (c\<lparr>rnb := Some nb1\<rparr>) = Inr (KORE_RESULT_OK, q, c\<lparr>rnb := b\<rparr>)" "msg_wait (c\<lparr>rnb := b\<rparr>)" "step f p q" "ready q" by auto
  have fit: "fits (msg_callback fuel env) q (c\<lparr>rnb := b\<rparr>) ps2" using m(4) h(1) by blast
  have loop: "recv_loop (msg_callback fuel env) p c (map Rd ps @ rs) = recv_loop (msg_callback fuel env) q (c\<lparr>rnb := b\<rparr>) (map Rd ps2 @ rs)"
    using m(3) h(1) by (simp add: after_call_def)
  from Cons.IH [OF h(4) _ h(2) _ fit m(1)] Cons.prems(2,4) obtain p' b' ps3 where
    ih: "recv_loop (msg_callback fuel env) q (c\<lparr>rnb := b\<rparr>) (map Rd ps2 @ rs) = recv_loop (msg_callback fuel env) p' (c\<lparr>rnb := b'\<rparr>) (map Rd ps3 @ rs)"
      "concat ps3 = rest" "fits (msg_callback fuel env) p' (c\<lparr>rnb := b'\<rparr>) ps3" "chain step fs q p'" "ready p'" "msg_wait (c\<lparr>rnb := b'\<rparr>)" by auto
  then show ?case using loop h(3) by (intro exI [of _ p'] exI [of _ b'] exI [of _ ps3]) auto
qed

lemma reads_all:
  assumes "ready p" "\<forall>f \<in> set fs. accepts f" "msg_wait c" "cid c = owner" "\<And>p'. chain step fs p p' \<Longrightarrow> P p'"
  shows "reads env fuel p c (concat fs) P"
  unfolding reads_def
proof (intro allI impI)
  fix ps rs assume ps: "concat ps = concat fs" "fits (msg_callback fuel env) p c ps"
  from messages_handled [OF assms(1-4) ps(2), of "[]" rs] ps(1) obtain p' b ps2 where
    h: "recv_loop (msg_callback fuel env) p c (map Rd ps @ rs) = recv_loop (msg_callback fuel env) p' (c\<lparr>rnb := b\<rparr>) (map Rd ps2 @ rs)"
      "concat ps2 = []" "fits (msg_callback fuel env) p' (c\<lparr>rnb := b\<rparr>) ps2" "chain step fs p p'" "msg_wait (c\<lparr>rnb := b\<rparr>)" by auto
  then have "ps2 = []" by (cases ps2) auto
  with h assms(5) show "\<exists>p' b. recv_loop (msg_callback fuel env) p c (map Rd ps @ rs) = recv_loop (msg_callback fuel env) p' (c\<lparr>rnb := b\<rparr>) rs \<and>
      msg_wait (c\<lparr>rnb := b\<rparr>) \<and> P p'" by auto
qed

end

section \<open>Processes that read messages\<close>

text \<open>\<open>sent g p p'\<close>: each listed connection \<open>i\<close> of \<open>p\<close> has taken the data \<open>g i\<close>, which depends on its protocol; nothing else changed.\<close>

definition sent :: "(nat \<Rightarrow> conn_proto \<Rightarrow> byte list) \<Rightarrow> 'u mproc \<Rightarrow> 'u mproc \<Rightarrow> bool" where
  "sent g p p' \<longleftrightarrow> (\<exists>m. p' = p\<lparr>mw := (mw p)\<lparr>conns := m\<rparr>\<rparr> \<and>
     (\<forall>i \<in> set (connections (mw p)). \<exists>c c'. conns (mw p) i = Some c \<and> m i = Some c' \<and> cid c' = i \<and> took (g i (proto c)) c c') \<and>
     (\<forall>i. i \<notin> set (connections (mw p)) \<longrightarrow> m i = conns (mw p) i))"

text \<open>The process can send on all its connections of protocol \<open>pr\<close>.\<close>

definition ends_ok :: "nat \<Rightarrow> conn_proto \<Rightarrow> 'u mproc \<Rightarrow> bool" where
  "ends_ok fuel pr p \<longleftrightarrow> listed_ok (mw p) \<and> length (connections (mw p)) \<le> fuel \<and>
     (\<forall>i c. i \<in> set (connections (mw p)) \<longrightarrow> conns (mw p) i = Some c \<longrightarrow> proto c = pr \<longrightarrow> sendable c)"

lemma took_proto: "took d c c' \<Longrightarrow> proto c' = proto c"
  by (simp add: took_def send_frame_conn(4))

lemma sent_refl: "ends_ok fuel pr p \<Longrightarrow> sent (\<lambda>_ _. []) p p"
  unfolding sent_def ends_ok_def listed_ok_def by (intro exI [of _ "conns (mw p)"]) auto

lemma sent_trans:
  assumes "sent g p q" "sent h q r"
  shows "sent (\<lambda>i pr. g i pr @ h i pr) p r"
proof -
  from assms(1) obtain m where m: "q = p\<lparr>mw := (mw p)\<lparr>conns := m\<rparr>\<rparr>"
    "\<forall>i \<in> set (connections (mw p)). \<exists>c c'. conns (mw p) i = Some c \<and> m i = Some c' \<and> cid c' = i \<and> took (g i (proto c)) c c'"
    "\<forall>i. i \<notin> set (connections (mw p)) \<longrightarrow> m i = conns (mw p) i" by (auto simp: sent_def)
  from assms(2) obtain k where k: "r = q\<lparr>mw := (mw q)\<lparr>conns := k\<rparr>\<rparr>"
    "\<forall>i \<in> set (connections (mw q)). \<exists>c c'. conns (mw q) i = Some c \<and> k i = Some c' \<and> cid c' = i \<and> took (h i (proto c)) c c'"
    "\<forall>i. i \<notin> set (connections (mw q)) \<longrightarrow> k i = conns (mw q) i" unfolding sent_def by blast
  have "\<exists>c c'. conns (mw p) i = Some c \<and> k i = Some c' \<and> cid c' = i \<and> took (g i (proto c) @ h i (proto c)) c c'"
    if i: "i \<in> set (connections (mw p))" for i
  proof -
    from m(2) i obtain c c1 where c: "conns (mw p) i = Some c" "m i = Some c1" "took (g i (proto c)) c c1" by blast
    from k(2) i m(1) c(2) obtain c2 where d: "k i = Some c2" "cid c2 = i" "took (h i (proto c1)) c1 c2" by auto
    show ?thesis using c d took_trans [OF c(3)] took_proto [OF c(3)] by auto
  qed
  moreover have "r = p\<lparr>mw := (mw p)\<lparr>conns := k\<rparr>\<rparr>" using k(1) m(1) by simp
  moreover have "k i = conns (mw p) i" if "i \<notin> set (connections (mw p))" for i using k(3) m(1,3) that by simp
  ultimately show ?thesis unfolding sent_def by blast
qed

lemma sent_ends_ok:
  assumes "sent g p p'" "ends_ok fuel pr p"
  shows "ends_ok fuel pr p'"
proof -
  from assms(1) obtain m where m: "p' = p\<lparr>mw := (mw p)\<lparr>conns := m\<rparr>\<rparr>"
    "\<And>i. i \<in> set (connections (mw p)) \<Longrightarrow> \<exists>c c'. conns (mw p) i = Some c \<and> m i = Some c' \<and> cid c' = i \<and> took (g i (proto c)) c c'"
    by (auto simp: sent_def)
  have "sendable c'" if i: "i \<in> set (connections (mw p))" "m i = Some c'" "proto c' = pr" for i c'
  proof -
    from m(2) [OF i(1)] i(2) obtain c where c: "conns (mw p) i = Some c" "took (g i (proto c)) c c'" by auto
    have "proto c = pr" using took_proto [OF c(2)] i(3) by simp
    then have "sendable c" using assms(2) i(1) c(1) by (auto simp: ends_ok_def)
    then show ?thesis using c(2) by (simp add: took_def)
  qed
  moreover have "\<exists>c. m i = Some c \<and> cid c = i" if "i \<in> set (connections (mw p))" for i using m(2) [OF that] by blast
  ultimately show ?thesis using assms(2) m(1) by (simp add: ends_ok_def listed_ok_def)
qed

lemma sent_same:
  "sent g p p' \<Longrightarrow> self p' = self p \<and> msg_types p' = msg_types p \<and> hdlr_extra p' = hdlr_extra p \<and> kw_msg p' = kw_msg p \<and>
     connections (mw p') = connections (mw p) \<and> log_out p' = log_out p"
  by (auto simp: sent_def)

lemma chain_sent:
  assumes "chain (\<lambda>f. sent (g f)) fs p p'" "ends_ok fuel pr p"
  shows "sent (\<lambda>i k. concat (map (\<lambda>f. g f i k) fs)) p p'"
  using assms
proof (induction fs arbitrary: p)
  case Nil
  then show ?case using sent_refl by simp
next
  case (Cons f fs)
  then obtain q where q: "sent (g f) p q" "chain (\<lambda>f. sent (g f)) fs q p'" by auto
  from sent_trans [OF q(1) Cons.IH [OF q(2) sent_ends_ok [OF q(1) Cons.prems(2)]]] show ?case by simp
qed

text \<open>The parent, with the types \<open>ts\<close> registered.\<close>

definition parent_ready :: "'u msg_env \<Rightarrow> nat \<Rightarrow> msg_type list \<Rightarrow> (nat \<rightharpoonup> byte) \<Rightarrow> 'u mproc \<Rightarrow> bool" where
  "parent_ready env fuel ts extra p \<longleftrightarrow> kernel_ok env \<and> ends_ok fuel CONN_PROTO_MSG p \<and> self p = None \<and> msg_types p = ts \<and> hdlr_extra p = extra"

definition relayed :: "msg_type list \<Rightarrow> byte list \<Rightarrow> bool" where
  "relayed ts f \<longleftrightarrow> message_ok f \<and> lookup_loop (m_id (msg_hdr f)) ts = None"

lemma msg_at_full: "msg_full f nb \<Longrightarrow> message_ok f \<Longrightarrow> msg_at (nb_buf nb) = Inr (msg_hdr f)"
  by (simp add: msg_at_def msg_full_def message_ok_def)

lemma rnb_same: "rnb c = Some nb \<Longrightarrow> nb_buf nb = f \<Longrightarrow> c\<lparr>rnb := Some (nb\<lparr>nb_buf := f\<rparr>)\<rparr> = (c :: conn)"
  by (cases c; cases nb) simp

interpretation relay_reader: msg_reader env fuel owner "parent_ready env fuel ts extra" "relayed ts" "\<lambda>f. sent (\<lambda>i pr. relay extra owner i pr f)"
  for env fuel owner ts extra
proof (unfold_locales, goal_cases)
  case (1 f)
  then show ?case by (simp add: relayed_def)
next
  case (2 p f c nb)
  have p: "kernel_ok env" "ends_ok fuel CONN_PROTO_MSG p" "self p = None" "msg_types p = ts" "hdlr_extra p = extra" using 2(1) by (auto simp: parent_ready_def)
  have f: "message_ok f" "lookup_loop (m_id (msg_hdr f)) ts = None" using 2(2) by (auto simp: relayed_def)
  have l: "sizeof_kore_msg \<le> length f" using f(1) by (simp add: message_ok_def)
  have nb: "nb_buf nb = f" "s_off nb = length f" using 2(5) by (auto simp: msg_full_def)
  have w: "listed_ok (mw p)" "length (connections (mw p)) \<le> fuel"
    "\<And>i c. i \<in> set (connections (mw p)) \<Longrightarrow> conns (mw p) i = Some c \<Longrightarrow>
       kernel_ok env \<and> message_ok f \<and> (proto c = CONN_PROTO_MSG \<longrightarrow> sendable c)"
    using p(1,2) f(1) by (auto simp: ends_ok_def)
  have I: "\<exists>x. f = put_dst f x" using put_dst_same [OF l] by metis
  from fwd.foreach_suffix [of "mw p" "[]" "connections (mw p)" fuel f f env extra owner] w I obtain b m where
    m: "conn_foreach fuel (forward_body env extra owner (m_dst (msg_hdr f)) (length f)) (tailq_first (connections (mw p))) f (mw p) =
        Inr (b, (mw p)\<lparr>conns := m\<rparr>)" "\<exists>x. b = put_dst f x"
      "\<forall>i \<in> set (connections (mw p)). \<exists>c c'. conns (mw p) i = Some c \<and> m i = Some c' \<and> cid c' = i \<and> took (relay extra owner i (proto c) f) c c'"
      "\<forall>i. i \<notin> set (connections (mw p)) \<longrightarrow> m i = conns (mw p) i"
    unfolding listed_ok_def by fastforce
  let ?p = "p\<lparr>mw := (mw p)\<lparr>conns := m\<rparr>\<rparr>"
  have s: "sent (\<lambda>i pr. relay extra owner i pr f) p ?p" using m(3,4) unfolding sent_def by blast
  have r: "parent_ready env fuel ts extra ?p" using p sent_ends_ok [OF s p(2)] by (simp add: parent_ready_def)
  have b: "length b = length f" using m(2) put_dst_hdr(2) [OF l] by auto
  have "msg_recv_data fuel env p c =
      rbind (net_recv_reset (x_junk env) (c\<lparr>rnb := Some (nb\<lparr>nb_buf := b\<rparr>)\<rparr>) sizeof_kore_msg Msg_recv_packet) (\<lambda>c2. Inr (KORE_RESULT_OK, ?p, c2))"
    using m(1) msg_at_full [OF 2(5) f(1)] p(3-5) f(2) 2(3,4) nb by (simp add: msg_recv_data_def msg_type_lookup_def)
  with s r b show ?case by blast
qed

text \<open>A worker that gets broadcast frames.\<close>

definition worker_ready :: "'u msg_env \<Rightarrow> nat \<Rightarrow> byte \<Rightarrow> 'u mproc \<Rightarrow> bool" where
  "worker_ready env fuel me p \<longleftrightarrow> kernel_ok env \<and> ends_ok fuel CONN_PROTO_WEBSOCKET p \<and> self p = Some me \<and>
     map_option t_cb (msg_type_lookup p KORE_MSG_WEBSOCKET) = Some Msg_type_websocket"

definition for_websockets :: "byte \<Rightarrow> byte list \<Rightarrow> bool" where
  "for_websockets me f \<longleftrightarrow> message_ok f \<and> m_id (msg_hdr f) = KORE_MSG_WEBSOCKET \<and> m_dst (msg_hdr f) = ucast me"

definition to_websockets :: "byte list \<Rightarrow> nat \<Rightarrow> conn_proto \<Rightarrow> byte list" where
  "to_websockets f i pr = (if pr = CONN_PROTO_WEBSOCKET then drop sizeof_kore_msg f else [])"

interpretation websocket_reader: msg_reader env fuel owner "worker_ready env fuel me" "for_websockets me" "\<lambda>f. sent (to_websockets f)"
  for env fuel owner me
proof (unfold_locales, goal_cases)
  case (1 f)
  then show ?case by (simp add: for_websockets_def)
next
  case (2 p f c nb)
  from 2(1) obtain t where p: "kernel_ok env" "ends_ok fuel CONN_PROTO_WEBSOCKET p" "self p = Some me"
    "msg_type_lookup p KORE_MSG_WEBSOCKET = Some t" "t_cb t = Msg_type_websocket" by (auto simp: worker_ready_def)
  have f: "message_ok f" "m_id (msg_hdr f) = KORE_MSG_WEBSOCKET" "m_dst (msg_hdr f) = ucast me" using 2(2) by (auto simp: for_websockets_def)
  let ?d = "drop sizeof_kore_msg f"
  have nb: "nb_buf nb = f" using 2(5) by (auto simp: msg_full_def)
  have d: "take (unat (m_length (msg_hdr f))) ?d = ?d" "length ?d < 2 ^ 32" using f(1) by (auto simp: message_ok_def)
  have w: "listed_ok (mw p)" "length (connections (mw p)) \<le> fuel"
    "\<And>i c. i \<in> set (connections (mw p)) \<Longrightarrow> conns (mw p) i = Some c \<Longrightarrow>
       kernel_ok env \<and> length ?d < 2 ^ 32 \<and> (proto c = CONN_PROTO_WEBSOCKET \<longrightarrow> sendable c)"
    using p(1,2) d(2) by (auto simp: ends_ok_def)
  from wsb.foreach_ok [OF w(1,2) TrueI, of env ?d "()"] w(3) obtain s' m where
    m: "conn_foreach fuel (websocket_body env ?d) (tailq_first (connections (mw p))) () (mw p) = Inr (s', (mw p)\<lparr>conns := m\<rparr>)"
      "\<forall>i \<in> set (connections (mw p)). \<exists>c c'. conns (mw p) i = Some c \<and> m i = Some c' \<and> cid c' = i \<and>
         took (if proto c = CONN_PROTO_WEBSOCKET then ?d else []) c c'"
      "\<forall>i. i \<notin> set (connections (mw p)) \<longrightarrow> m i = conns (mw p) i" by blast
  let ?p = "p\<lparr>mw := (mw p)\<lparr>conns := m\<rparr>\<rparr>"
  have s: "sent (to_websockets f) p ?p" using m(2,3) unfolding sent_def to_websockets_def by blast
  have r: "worker_ready env fuel me ?p" using p sent_ends_ok [OF s p(2)] by (simp add: worker_ready_def msg_type_lookup_def)
  have "msg_recv_data fuel env p c =
      rbind (net_recv_reset (x_junk env) (c\<lparr>rnb := Some (nb\<lparr>nb_buf := f\<rparr>)\<rparr>) sizeof_kore_msg Msg_recv_packet) (\<lambda>c2. Inr (KORE_RESULT_OK, ?p, c2))"
    unfolding rnb_same [OF 2(4) nb]
    using m(1) msg_at_full [OF 2(5) f(1)] p(3-5) f(2,3) 2(4) nb d(1) by (simp add: msg_recv_data_def msg_call_def msg_type_websocket_def)
  with s r show ?case by blast
qed

text \<open>The parent that writes access logs.\<close>

lemma length_char_array [simp]: "length (char_array junk n x) = n"
  by (simp add: char_array_def)

lemma c_string_char_array: "length x < n \<Longrightarrow> 0 \<notin> set x \<Longrightarrow> c_string (char_array junk n x @ r) = x"
  by (auto simp: c_string_def char_array_def takeWhile_append2 takeWhile_append take_Cons' not_le)

definition packet_ok :: "kore_log_packet \<Rightarrow> bool" where
  "packet_ok k \<longleftrightarrow> - (2 ^ 31) \<le> lp_status k \<and> lp_status k < 2 ^ 31 \<and> length (lp_host k) < KORE_DOMAINNAME_LEN \<and> length (lp_path k) < HTTP_URI_LEN \<and>
     length (lp_agent k) < HTTP_USERAGENT_LEN \<and> 0 \<notin> set (lp_host k) \<and> 0 \<notin> set (lp_path k) \<and> 0 \<notin> set (lp_agent k)"

lemma log_packet_roundtrip:
  assumes "packet_ok k" "length addr = 16"
  shows "length (log_packet_bytes junk ty addr k) = log_packet_size" "log_packet_of (log_packet_bytes junk ty addr k) = k"
    "log_packet_bytes junk ty addr k ! 14 = ty" "take 16 (drop 15 (log_packet_bytes junk ty addr k)) = addr"
proof -
  let ?b = "log_packet_bytes junk ty addr k"
  let ?h = "char_array junk KORE_DOMAINNAME_LEN (lp_host k)" and ?p = "char_array junk HTTP_URI_LEN (lp_path k)"
    and ?a = "char_array junk HTTP_USERAGENT_LEN (lp_agent k)"
  have l: "length ?h = 255" "length ?p = 2000" "length ?a = 256" by (simp_all add: KORE_DOMAINNAME_LEN_def HTTP_URI_LEN_def HTTP_USERAGENT_LEN_def)
  show "length ?b = log_packet_size" using assms(2) by (simp add: log_packet_bytes_def log_packet_size_def)
  have d31: "drop 31 ?b = ?h @ ?p @ ?a @ [junk 4, junk 5]" using assms(2) by (simp add: log_packet_bytes_def)
  have "drop 286 ?b = drop 255 (drop 31 ?b)" "drop 2286 ?b = drop 2255 (drop 31 ?b)" by simp_all
  then have d: "drop 286 ?b = ?p @ ?a @ [junk 4, junk 5]" "drop 2286 ?b = ?a @ [junk 4, junk 5]" unfolding d31 using l by simp_all
  have st: "sint (word_of_int (lp_status k) :: u32) = lp_status k"
    using assms(1) by (simp add: packet_ok_def signed_of_int signed_take_bit_int_eq_self)
  have "?b ! 0 = lp_method k" "load_le (take 4 (drop 4 ?b)) = (word_of_int (lp_status k) :: u32)" "load_le (take 2 (drop 8 ?b)) = lp_time_req k"
    "load_le (take 2 (drop 10 ?b)) = lp_worker_id k" "load_le (take 2 (drop 12 ?b)) = lp_worker_cpu k"
    by (simp_all add: log_packet_bytes_def load_store_le)
  then show "log_packet_of ?b = k"
    using assms(1) st unfolding log_packet_of_def d31 d by (simp add: packet_ok_def c_string_char_array)
  show "?b ! 14 = ty" "take 16 (drop 15 ?b) = addr" using assms(2) by (simp_all add: log_packet_bytes_def nth_append)
qed

definition logger_ready :: "'u msg_env \<Rightarrow> 'u mproc \<Rightarrow> bool" where
  "logger_ready env p \<longleftrightarrow> modtab_ok (x_tab env) \<and> self p = None \<and> map_option t_cb (msg_type_lookup p KORE_MSG_ACCESSLOG) = Some Msg_type_accesslog"

definition for_log :: "byte list \<Rightarrow> bool" where
  "for_log f \<longleftrightarrow> message_ok f \<and> m_id (msg_hdr f) = KORE_MSG_ACCESSLOG \<and> m_dst (msg_hdr f) = KORE_MSG_PARENT"

definition log_written :: "'u msg_env \<Rightarrow> byte list \<Rightarrow> (int \<times> byte list) list" where
  "log_written env f =
     (let data = drop sizeof_kore_msg f in
      case kore_accesslog_write (x_mod env) (x_tab env) (x_date env) (x_ntop env (data ! 14) (take 16 (drop 15 data))) (log_packet_of data)
          (unat (m_length (msg_hdr f))) (x_sent env) of Inr (_, Some l) \<Rightarrow> [l] | _ \<Rightarrow> [])"

lemma kore_accesslog_write_ok:
  assumes "modtab_ok t"
  shows "\<exists>r out. kore_accesslog_write env t tbuf addr k len wr = Inr (r, out)"
proof -
  let ?x = "find (\<lambda>d. m_fnmatch env (d_domain (the (doms t d))) (lp_host k)) (domains t)"
  show ?thesis
  proof (cases ?x)
    case None
    then show ?thesis by (simp add: kore_accesslog_write_def kore_domain_lookup_ok [OF assms])
  next
    case (Some x)
    then obtain dm where "doms t x = Some dm" using find_mem [OF Some] modtab_okD(2) [OF assms] by auto
    with Some show ?thesis by (simp add: kore_accesslog_write_def kore_domain_lookup_ok [OF assms])
  qed
qed

interpretation log_reader: msg_reader env fuel owner "logger_ready env" for_log "\<lambda>f p p'. p' = p\<lparr>log_out := log_out p @ log_written env f\<rparr>"
  for env fuel owner
proof (unfold_locales, goal_cases)
  case (1 f)
  then show ?case by (simp add: for_log_def)
next
  case (2 p f c nb)
  from 2(1) obtain t where p: "modtab_ok (x_tab env)" "self p = None" "msg_type_lookup p KORE_MSG_ACCESSLOG = Some t" "t_cb t = Msg_type_accesslog"
    by (auto simp: logger_ready_def)
  have f: "message_ok f" "m_id (msg_hdr f) = KORE_MSG_ACCESSLOG" "m_dst (msg_hdr f) = KORE_MSG_PARENT" using 2(2) by (auto simp: for_log_def)
  have nb: "nb_buf nb = f" using 2(5) by (auto simp: msg_full_def)
  let ?d = "drop sizeof_kore_msg f" and ?p = "p\<lparr>log_out := log_out p @ log_written env f\<rparr>"
  obtain r out where w: "kore_accesslog_write (x_mod env) (x_tab env) (x_date env) (x_ntop env (?d ! 14) (take 16 (drop 15 ?d))) (log_packet_of ?d)
      (unat (m_length (msg_hdr f))) (x_sent env) = Inr (r, out)" using kore_accesslog_write_ok [OF p(1)] by blast
  have "msg_type_accesslog env (msg_hdr f) ?d p = Inr ?p"
    unfolding msg_type_accesslog_def log_written_def Let_def w by (simp split: option.split)
  then have "msg_recv_data fuel env p c =
      rbind (net_recv_reset (x_junk env) (c\<lparr>rnb := Some (nb\<lparr>nb_buf := f\<rparr>)\<rparr>) sizeof_kore_msg Msg_recv_packet) (\<lambda>c2. Inr (KORE_RESULT_OK, ?p, c2))"
    unfolding rnb_same [OF 2(4) nb]
    using msg_at_full [OF 2(5) f(1)] p(2-4) f(2,3) 2(4) nb by (simp add: msg_recv_data_def msg_call_def)
  moreover have "logger_ready env ?p" using p by (simp add: logger_ready_def msg_type_lookup_def)
  ultimately show ?case by blast
qed

lemma chain_log: "chain (\<lambda>f p p'. p' = p\<lparr>log_out := log_out p @ log_written env f\<rparr>) fs p p' \<Longrightarrow> log_out p' = log_out p @ concat (map (log_written env) fs)"
  by (induction fs arbitrary: p) auto

section \<open>The parent after its start\<close>

lemma msg_connection_ok:
  "\<exists>c. msg_connection env a junk = Inr c \<and> cid c = a \<and> proto c = CONN_PROTO_MSG \<and> sendable c \<and> msg_wait (c\<lparr>read_possible := True\<rparr>)"
  by (simp add: msg_connection_def net_recv_queue_def kore_connection_new_def malloc_block_def sizeof_kore_msg_def sendable_def send_ok_def
      msg_wait_def recv_ok_def)

lemma parent_add_ok:
  assumes "ends_ok n CONN_PROTO_MSG p" "a \<notin> set (connections (mw p))"
  shows "\<exists>p'. kore_msg_parent_add env a junk k p = Inr p' \<and> ends_ok (Suc n) CONN_PROTO_MSG p' \<and> connections (mw p') = connections (mw p) @ [a] \<and>
    hdlr_extra p' = (hdlr_extra p)(a \<mapsto> k) \<and> self p' = self p \<and> msg_types p' = msg_types p"
proof -
  obtain c where c: "msg_connection env a junk = Inr c" "cid c = a" "proto c = CONN_PROTO_MSG" "sendable c" using msg_connection_ok by blast
  let ?p = "(link_conn a c p)\<lparr>hdlr_extra := (hdlr_extra p)(a \<mapsto> k), kw_msg := (kw_msg p)(k \<mapsto> a)\<rparr>"
  have "ends_ok (Suc n) CONN_PROTO_MSG ?p"
    using assms c by (auto simp: ends_ok_def listed_ok_def link_conn_def put_conn_def split: if_splits)
  then show ?thesis using c by (intro exI [of _ ?p]) (simp add: kore_msg_parent_add_def link_conn_def put_conn_def)
qed

lemma parent_add_all_ok:
  assumes "ends_ok n CONN_PROTO_MSG p" "distinct (map fst as)" "set (map fst as) \<inter> set (connections (mw p)) = {}" "length as = length ks"
  shows "\<exists>p'. parent_add_all env as ks p = Inr p' \<and> ends_ok (n + length as) CONN_PROTO_MSG p' \<and>
    connections (mw p') = connections (mw p) @ map fst as \<and> hdlr_extra p' = hdlr_extra p ++ map_of (zip (map fst as) ks) \<and>
    self p' = self p \<and> msg_types p' = msg_types p"
  using assms
proof (induction env as ks p arbitrary: n rule: parent_add_all.induct)
  case (1 env a junk as k ks p)
  from parent_add_ok [OF 1(2), of a env junk k] 1(4) obtain p1 where
    p1: "kore_msg_parent_add env a junk k p = Inr p1" "ends_ok (Suc n) CONN_PROTO_MSG p1" "connections (mw p1) = connections (mw p) @ [a]"
      "hdlr_extra p1 = (hdlr_extra p)(a \<mapsto> k)" "self p1 = self p" "msg_types p1 = msg_types p" by auto
  from 1(1) [OF p1(1,2)] 1(3-5) p1(3) obtain p' where
    p': "parent_add_all env as ks p1 = Inr p'" "ends_ok (Suc n + length as) CONN_PROTO_MSG p'" "connections (mw p') = connections (mw p1) @ map fst as"
      "hdlr_extra p' = hdlr_extra p1 ++ map_of (zip (map fst as) ks)" "self p' = self p1" "msg_types p' = msg_types p1" by auto
  have "a \<notin> dom (map_of (zip (map fst as) ks))" using 1(3,5) by (simp add: dom_map_of_zip)
  with p1 p' show ?case by (simp add: map_add_upd_left) (simp add: fun_eq_iff map_add_def)
qed auto

text \<open>After \<open>kore_msg_parent_init\<close> the parent is ready to relay: it has one pipe for each worker, and handles log packets itself.\<close>

theorem parent_init_ready:
  assumes "kernel_ok env" and "self p = None" and "connections (mw p) = []" and "distinct (map fst as)" and "hdlr_extra p = Map.empty"
  shows "\<exists>p'. kore_msg_parent_init env (length as) as (kore_msg_init p) = Inr p' \<and>
    parent_ready env (length as) [\<lparr>t_id = KORE_MSG_ACCESSLOG, t_cb = Msg_type_accesslog\<rparr>]
      (map_of (zip (map fst as) (map of_nat [0..<length as]))) p' \<and> connections (mw p') = map fst as"
proof -
  have "ends_ok 0 CONN_PROTO_MSG (kore_msg_init p)" using assms(3) by (simp add: ends_ok_def listed_ok_def kore_msg_init_def)
  from parent_add_all_ok [OF this assms(4), of "map of_nat [0..<length as]" env] assms(2,3,5) obtain p' where
    p': "parent_add_all env as (map of_nat [0..<length as]) (kore_msg_init p) = Inr p'" "ends_ok (length as) CONN_PROTO_MSG p'"
      "connections (mw p') = map fst as" "hdlr_extra p' = map_of (zip (map fst as) (map of_nat [0..<length as]))" "self p' = None" "msg_types p' = []"
    by (auto simp: kore_msg_init_def)
  then show ?thesis using assms(1)
    by (simp add: kore_msg_parent_init_def kore_msg_register_def msg_type_lookup_def parent_ready_def ends_ok_def)
qed

section \<open>Senders\<close>

text \<open>Messages sent one after the other, each with the padding of its header, its destination, type and data; and the bytes of one.\<close>

fun send_all :: "'u msg_env \<Rightarrow> ((nat \<Rightarrow> byte) \<times> u16 \<times> byte \<times> byte list) list \<Rightarrow> 'u mproc \<Rightarrow> 'u mproc res" where
  "send_all env [] p = Inr p"
| "send_all env ((pad, dst, i, d) # ms) p = rbind (kore_msg_send env pad dst i d p) (send_all env ms)"

definition wire_msg :: "byte \<Rightarrow> (nat \<Rightarrow> byte) \<times> u16 \<times> byte \<times> byte list \<Rightarrow> byte list" where
  "wire_msg me = (\<lambda>(pad, dst, i, d). msg_bytes pad \<lparr>m_id = i, m_src = ucast me, m_dst = dst, m_length = of_nat (length d)\<rparr> @ d)"

definition sender :: "'u msg_env \<Rightarrow> byte \<Rightarrow> nat \<Rightarrow> 'u mproc \<Rightarrow> conn \<Rightarrow> bool" where
  "sender env me a p c \<longleftrightarrow> kernel_ok env \<and> self p = Some me \<and> kw_msg p me = Some a \<and> conns (mw p) a = Some c \<and> cid c = a \<and> sendable c"

lemma kore_msg_send_ok:
  assumes "sender env me a p c" "length d < 2 ^ 32"
  shows "\<exists>p' c'. kore_msg_send env pad dst i d p = Inr p' \<and> sender env me a p' c' \<and> conn_output c' = conn_output c @ wire_msg me (pad, dst, i, d)"
proof -
  let ?m = "\<lparr>m_id = i, m_src = ucast me, m_dst = dst, m_length = of_nat (length d)\<rparr>"
  have s: "kernel_ok env" "self p = Some me" "kw_msg p me = Some a" "conns (mw p) a = Some c" "cid c = a" "send_ok c" "\<not> close_empty c"
    using assms(1) by (auto simp: sender_def sendable_def)
  have "length (msg_bytes pad ?m) < 2 ^ 32" by (simp add: sizeof_kore_msg_def)
  from net_send_queue_ok [OF s(6) this, of "x_junk env"] obtain q where
    q: "net_send_queue (x_junk env) c (msg_bytes pad ?m) = Inr (c\<lparr>send_queue := q\<rparr>)" "send_ok (c\<lparr>send_queue := q\<rparr>)"
      "conn_output (c\<lparr>send_queue := q\<rparr>) = conn_output c @ msg_bytes pad ?m" by blast
  have "sendable (c\<lparr>send_queue := q\<rparr>)" using q(2) s(7) by (simp add: sendable_def)
  from queue_flush_took [OF s(1) this assms(2), of "mw p"] obtain c' where
    c': "queue_flush env d (mw p) (c\<lparr>send_queue := q\<rparr>) = Inr (put_conn (mw p) c')" "cid c' = a" "sendable c'"
      "conn_output c' = conn_output c @ wire_msg me (pad, dst, i, d)"
    using q(2,3) s(5,7) by (auto simp: took_def sendable_def wire_msg_def)
  then show ?thesis using s q(1)
    by (intro exI [of _ "p\<lparr>mw := put_conn (mw p) c'\<rparr>"] exI [of _ c']) (simp add: kore_msg_send_def sender_def put_conn_def Let_def)
qed

lemma send_all_ok:
  assumes "sender env me a p c" "\<forall>(pad, dst, i, d) \<in> set ms. length d < 2 ^ 32"
  shows "\<exists>p' c'. send_all env ms p = Inr p' \<and> sender env me a p' c' \<and> conn_output c' = conn_output c @ concat (map (wire_msg me) ms)"
  using assms
proof (induction ms arbitrary: p c)
  case Nil
  then show ?case by auto
next
  case (Cons m ms)
  obtain pad dst i d where m: "m = (pad, dst, i, d)" by (cases m)
  from kore_msg_send_ok [OF Cons.prems(1), of d pad dst i] Cons.prems(2) m obtain p1 c1 where
    1: "kore_msg_send env pad dst i d p = Inr p1" "sender env me a p1 c1" "conn_output c1 = conn_output c @ wire_msg me m" by auto
  from Cons.IH [OF 1(2)] Cons.prems(2) obtain p' c' where
    "send_all env ms p1 = Inr p'" "sender env me a p' c'" "conn_output c' = conn_output c1 @ concat (map (wire_msg me) ms)" by auto
  with 1 m show ?case by auto
qed

section \<open>The end of a pipe reads what arrives\<close>

definition gets :: "(nat \<Rightarrow> conn_proto \<Rightarrow> byte list) \<Rightarrow> 'u mproc \<Rightarrow> 'u mproc \<Rightarrow> bool" where
  "gets g p p' \<longleftrightarrow> (\<forall>i c. i \<in> set (connections (mw p)) \<longrightarrow> conns (mw p) i = Some c \<longrightarrow>
     (\<exists>c'. conns (mw p') i = Some c' \<and> conn_output c' = conn_output c @ g i (proto c)))"

lemma sent_gets: "sent g p p' \<Longrightarrow> gets g p p'"
  by (fastforce simp: sent_def gets_def took_def)

lemma relay_reads:
  assumes "parent_ready env fuel ts extra q" "\<forall>f \<in> set fs. relayed ts f" "msg_wait c"
  shows "reads env fuel q c (concat fs) (gets (\<lambda>i pr. concat (map (relay extra (cid c) i pr) fs)) q)"
proof (rule relay_reader.reads_all [OF assms refl])
  fix q' assume "chain (\<lambda>f. sent (\<lambda>i pr. relay extra (cid c) i pr f)) fs q q'"
  moreover have "ends_ok fuel CONN_PROTO_MSG q" using assms(1) by (simp add: parent_ready_def)
  ultimately show "gets (\<lambda>i pr. concat (map (relay extra (cid c) i pr) fs)) q q'" by (intro sent_gets chain_sent)
qed

lemma websocket_reads:
  assumes "worker_ready env fuel me r" "\<forall>f \<in> set fs. for_websockets me f" "msg_wait c"
  shows "reads env fuel r c (concat fs) (gets (\<lambda>i pr. concat (map (\<lambda>f. to_websockets f i pr) fs)) r)"
proof (rule websocket_reader.reads_all [OF assms refl])
  fix r' assume "chain (\<lambda>f. sent (to_websockets f)) fs r r'"
  moreover have "ends_ok fuel CONN_PROTO_WEBSOCKET r" using assms(1) by (simp add: worker_ready_def)
  ultimately show "gets (\<lambda>i pr. concat (map (\<lambda>f. to_websockets f i pr) fs)) r r'" by (intro sent_gets chain_sent)
qed

lemma log_reads:
  assumes "logger_ready env p" "\<forall>f \<in> set fs. for_log f" "msg_wait c"
  shows "reads env fuel p c (concat fs) (\<lambda>p'. log_out p' = log_out p @ concat (map (log_written env) fs))"
  by (rule log_reader.reads_all [OF assms refl]) (rule chain_log)

text \<open>A broadcast on its way: as the sender writes it and as the parent relays it to worker \<open>k\<close>.\<close>

definition broadcast_msg :: "(nat \<Rightarrow> byte) \<Rightarrow> byte list \<Rightarrow> (nat \<Rightarrow> byte) \<times> u16 \<times> byte \<times> byte list" where
  "broadcast_msg pad d = (pad, KORE_MSG_WORKER_ALL, KORE_MSG_WEBSOCKET, d)"

lemma broadcast_relayed:
  assumes "d \<noteq> []" "length d + sizeof_kore_msg < 2 ^ 32" "lookup_loop KORE_MSG_WEBSOCKET ts = None"
  shows "relayed ts (wire_msg me (broadcast_msg pad d))"
  using assms by (simp add: relayed_def wire_msg_def broadcast_msg_def message_okI)

lemma relay_broadcast:
  assumes "extra i = Some k" "i \<noteq> owner"
  shows "relay extra owner i CONN_PROTO_MSG (wire_msg me (broadcast_msg pad d)) = put_dst (wire_msg me (broadcast_msg pad d)) (ucast k)"
  using assms by (simp add: relay_def wire_msg_def broadcast_msg_def)

lemma broadcast_for_websockets:
  assumes "d \<noteq> []" "length d + sizeof_kore_msg < 2 ^ 32"
  shows "for_websockets k (put_dst (wire_msg me (broadcast_msg pad d)) (ucast k))"
    "drop sizeof_kore_msg (put_dst (wire_msg me (broadcast_msg pad d)) (ucast k)) = d"
proof -
  let ?f = "wire_msg me (broadcast_msg pad d)"
  have ok: "message_ok ?f" using assms by (simp add: wire_msg_def broadcast_msg_def message_okI)
  have l: "sizeof_kore_msg \<le> length ?f" using ok by (simp add: message_ok_def)
  show "for_websockets k (put_dst ?f (ucast k))"
    using ok put_dst_hdr(1) [OF l] by (simp add: for_websockets_def) (simp add: wire_msg_def broadcast_msg_def)
  show "drop sizeof_kore_msg (put_dst ?f (ucast k)) = d"
    using put_dst_hdr(3) [OF l] by (simp add: wire_msg_def broadcast_msg_def)
qed

section \<open>Properties\<close>

text \<open>(C34) A broadcast reaches the websockets of all workers. A worker sends frames to all workers; however the bytes of its pipe arrive at
  the parent, the parent reads them and adds bytes to the pipe of any other worker \<open>k\<close>; and however those arrive there, worker \<open>k\<close> adds all
  the frames, in order, to the output of each of its websocket connections, and nothing to the output of others.\<close>

theorem msg_broadcast_reaches:
  assumes sender: "sender env me a p ca" "\<forall>d \<in> set ds. d \<noteq> [] \<and> length d + sizeof_kore_msg < 2 ^ 32"
    and parent: "parent_ready env1 fuel1 ts extra q" "lookup_loop KORE_MSG_WEBSOCKET ts = None" "msg_wait c1"
    and pipe: "i \<in> set (connections (mw q))" "i \<noteq> cid c1" "extra i = Some k" "conns (mw q) i = Some ci" "proto ci = CONN_PROTO_MSG"
    and receiver: "worker_ready env2 fuel2 k r" "msg_wait c2"
  shows "\<exists>p' ca' t. send_all env (map (broadcast_msg pad) ds) p = Inr p' \<and> conns (mw p') a = Some ca' \<and> conn_output ca' = conn_output ca @ t \<and>
    reads env1 fuel1 q c1 t (\<lambda>q'. \<exists>ci' u. conns (mw q') i = Some ci' \<and> conn_output ci' = conn_output ci @ u \<and>
      reads env2 fuel2 r c2 u (gets (\<lambda>j pr. if pr = CONN_PROTO_WEBSOCKET then concat ds else []) r))"
proof -
  let ?w = "\<lambda>d. wire_msg me (broadcast_msg pad d)" let ?r = "\<lambda>d. put_dst (?w d) (ucast k)"
  have "\<forall>(pad, dst, i, d) \<in> set (map (broadcast_msg pad) ds). length d < 2 ^ 32" using sender(2) by (auto simp: broadcast_msg_def)
  from send_all_ok [OF sender(1) this] obtain p' ca' where
    s: "send_all env (map (broadcast_msg pad) ds) p = Inr p'" "sender env me a p' ca'" "conn_output ca' = conn_output ca @ concat (map ?w ds)"
    by (auto simp: o_def)
  have rel: "concat (map (relay extra (cid c1) i CONN_PROTO_MSG) (map ?w ds)) = concat (map ?r ds)"
    using relay_broadcast [where extra = extra and i = i and owner = "cid c1", OF pipe(3,2)] by (simp add: o_def)
  have "\<forall>f \<in> set (map ?r ds). for_websockets k f" using sender(2) broadcast_for_websockets(1) by auto
  from websocket_reads [OF receiver(1) this receiver(2)]
  have "reads env2 fuel2 r c2 (concat (map ?r ds)) (gets (\<lambda>j pr. if pr = CONN_PROTO_WEBSOCKET then concat ds else []) r)"
  proof (rule reads_mono)
    fix p' assume g: "gets (\<lambda>i pr. concat (map (\<lambda>f. to_websockets f i pr) (map ?r ds))) r p'"
    have "concat (map (\<lambda>f. to_websockets f j pr) (map ?r ds)) = (if pr = CONN_PROTO_WEBSOCKET then concat ds else [])" for j pr
      using sender(2) by (induction ds) (auto simp: to_websockets_def broadcast_for_websockets(2))
    with g show "gets (\<lambda>j pr. if pr = CONN_PROTO_WEBSOCKET then concat ds else []) r p'" by (simp add: gets_def)
  qed
  moreover have "\<forall>f \<in> set (map ?w ds). relayed ts f" using sender(2) broadcast_relayed parent(2) by auto
  from relay_reads [OF parent(1) this parent(3)]
  have "reads env1 fuel1 q c1 (concat (map ?w ds)) (\<lambda>q'. \<exists>ci'. conns (mw q') i = Some ci' \<and> conn_output ci' = conn_output ci @ concat (map ?r ds))"
    by (rule reads_mono) (use pipe rel in \<open>auto simp: gets_def simp del: map_map\<close>)
  ultimately have "reads env1 fuel1 q c1 (concat (map ?w ds)) (\<lambda>q'. \<exists>ci' u. conns (mw q') i = Some ci' \<and> conn_output ci' = conn_output ci @ u \<and>
      reads env2 fuel2 r c2 u (gets (\<lambda>j pr. if pr = CONN_PROTO_WEBSOCKET then concat ds else []) r))"
    by (elim reads_mono) blast
  with s show ?thesis by (auto simp: sender_def)
qed

text \<open>Three processes: worker 0, which sends, the parent, and worker 1 with a websocket.\<close>

definition pipe_end :: "nat \<Rightarrow> conn" where
  "pipe_end a = (kore_connection_new a CONN_STATE_ESTABLISHED)\<lparr>proto := CONN_PROTO_MSG, read_possible := True, write_possible := True,
     rnb := Some \<lparr>nb_buf = replicate 12 0, s_off = 0, b_len = 12, m_len = 12, nb_type = NETBUF_RECV, nb_cb = Some Msg_recv_packet,
       nb_call_always = False, nb_force_remove = False, nb_must_resend = False, nb_is_stream = False\<rparr>\<rparr>"

definition site_msg_env :: "(byte \<times> byte list) list msg_env" where
  "site_msg_env = \<lparr>x_kore = log_kenv, x_mod = site_menv, x_tab = site_tab, x_app = (\<lambda>_ _ _ p c. Inr (p, c)),
     x_script = (\<lambda>c. replicate (send_work c) (Wrote 8192)), x_date = bs ''today'', x_ntop = (\<lambda>_ _. bs ''127.0.0.1''), x_sent = 80\<rparr>"

definition site_proc :: "byte option \<Rightarrow> msg_type list \<Rightarrow> conn list \<Rightarrow> (byte \<times> byte list) list mproc" where
  "site_proc me ts cs = \<lparr>mw = log_worker\<lparr>conns := map_of (map (\<lambda>c. (cid c, c)) cs), connections := map cid cs\<rparr>, self = me, msg_types = ts,
     hdlr_extra = (if me = None then [5 \<mapsto> 0, 6 \<mapsto> 1] else Map.empty), kw_msg = [0 \<mapsto> 5, 1 \<mapsto> 6], log_out = []\<rparr>"

definition site_parent :: "(byte \<times> byte list) list mproc" where
  "site_parent = site_proc None [\<lparr>t_id = KORE_MSG_ACCESSLOG, t_cb = Msg_type_accesslog\<rparr>] [pipe_end 5, pipe_end 6]"

definition site_sender :: "(byte \<times> byte list) list mproc" where
  "site_sender = site_proc (Some 0) [] [pipe_end 5]"

definition site_receiver :: "(byte \<times> byte list) list mproc" where
  "site_receiver = site_proc (Some 1) [\<lparr>t_id = KORE_MSG_WEBSOCKET, t_cb = Msg_type_websocket\<rparr>] [pipe_end 6, ws_conn]"

lemma pipe_end_ok [simp]:
  "cid (pipe_end a) = a" "proto (pipe_end a) = CONN_PROTO_MSG" "sendable (pipe_end a)" "msg_wait (pipe_end a)"
  by (simp_all add: pipe_end_def kore_connection_new_def sendable_def send_ok_def msg_wait_def recv_ok_def sizeof_kore_msg_def)

lemma site_kernel: "kernel_ok site_msg_env" "x_tab site_msg_env = site_tab"
  by (simp_all add: kernel_ok_def site_msg_env_def progress_def)

lemma ws_conn_ok: "cid ws_conn = 3" "sendable ws_conn" "proto ws_conn = CONN_PROTO_WEBSOCKET"
  by (simp_all add: ws_conn_def test_conn_def sendable_def send_ok_def)

lemma site_ready:
  "parent_ready site_msg_env 2 [\<lparr>t_id = KORE_MSG_ACCESSLOG, t_cb = Msg_type_accesslog\<rparr>] [5 \<mapsto> 0, 6 \<mapsto> 1] site_parent"
  "sender site_msg_env 0 5 site_sender (pipe_end 5)"
  "worker_ready site_msg_env 2 1 site_receiver"
  "logger_ready site_msg_env site_parent"
  by (auto simp: parent_ready_def sender_def worker_ready_def logger_ready_def site_kernel ends_ok_def listed_ok_def site_parent_def site_sender_def
      site_receiver_def site_proc_def msg_type_lookup_def log_worker_def ws_conn_ok site_tab_ok split: if_splits)

theorem msg_broadcast_reaches_witness:
  "\<exists>p' ca' t. send_all site_msg_env (map (broadcast_msg (\<lambda>_. 0)) [bs ''hello'', bs ''you'']) site_sender = Inr p' \<and>
    conns (mw p') 5 = Some ca' \<and> conn_output ca' = conn_output (pipe_end 5) @ t \<and>
    reads site_msg_env 2 site_parent (pipe_end 5) t (\<lambda>q'. \<exists>ci' u. conns (mw q') 6 = Some ci' \<and> conn_output ci' = conn_output (pipe_end 6) @ u \<and>
      reads site_msg_env 2 site_receiver (pipe_end 6) u
        (gets (\<lambda>j pr. if pr = CONN_PROTO_WEBSOCKET then concat [bs ''hello'', bs ''you''] else []) site_receiver))"
  by (rule msg_broadcast_reaches [OF site_ready(2) _ site_ready(1) _ _ _ _ _ _ _ site_ready(3)])
    (simp_all add: bs_def sizeof_kore_msg_def msg_consts site_parent_def site_proc_def log_worker_def)

text \<open>What a line of the access log says of a request, and the packets that carry it.\<close>

definition log_entry :: "'u msg_env \<Rightarrow> byte list \<Rightarrow> kore_log_packet \<Rightarrow> (int \<times> byte list) list" where
  "log_entry env addr k =
     (case find (\<lambda>d. m_fnmatch (x_mod env) (d_domain (the (doms (x_tab env) d))) (lp_host k)) (domains (x_tab env)) of
        None \<Rightarrow> []
      | Some x \<Rightarrow> [(d_accesslog (the (doms (x_tab env) x)), log_line (x_date env) addr k)])"

definition loggable :: "http_request \<Rightarrow> bool" where
  "loggable req \<longleftrightarrow> - (2 ^ 31) \<le> rq_status req \<and> rq_status req < 2 ^ 31 \<and> 0 \<notin> set (rq_host req) \<and> 0 \<notin> set (rq_path req) \<and>
     (case rq_agent req of None \<Rightarrow> True | Some a \<Rightarrow> 0 \<notin> set a)"

definition log_msg :: "'v server_env \<Rightarrow> (nat \<Rightarrow> byte) \<Rightarrow> byte \<times> byte list \<times> http_request \<Rightarrow> (nat \<Rightarrow> byte) \<times> u16 \<times> byte \<times> byte list" where
  "log_msg senv junk = (\<lambda>(ty, addr, req). (junk, KORE_MSG_PARENT, KORE_MSG_ACCESSLOG, log_packet_bytes junk ty addr (kore_accesslog senv req)))"

lemma accesslog_packet_ok: "loggable req \<Longrightarrow> packet_ok (kore_accesslog senv req)"
  by (auto simp: loggable_def packet_ok_def kore_accesslog_def KORE_DOMAINNAME_LEN_def HTTP_URI_LEN_def HTTP_USERAGENT_LEN_def bs_def
      dest: in_set_takeD split: option.splits)

lemma log_msg_written:
  assumes "modtab_ok (x_tab env)" "loggable req" "length addr = 16" "x_sent env \<noteq> - 1"
  shows "for_log (wire_msg me (log_msg senv junk (ty, addr, req)))"
    "log_written env (wire_msg me (log_msg senv junk (ty, addr, req))) = log_entry env (x_ntop env ty addr) (kore_accesslog senv req)"
proof -
  let ?k = "kore_accesslog senv req" let ?b = "log_packet_bytes junk ty addr ?k"
  note r = log_packet_roundtrip [OF accesslog_packet_ok [OF assms(2)] assms(3), of junk ty senv]
  have l: "length ?b = 2544" using r(1) by (simp add: log_packet_size_def KORE_DOMAINNAME_LEN_def HTTP_URI_LEN_def HTTP_USERAGENT_LEN_def)
  let ?m = "\<lparr>m_id = KORE_MSG_ACCESSLOG, m_src = ucast me, m_dst = KORE_MSG_PARENT, m_length = of_nat (length ?b)\<rparr>"
  have f: "wire_msg me (log_msg senv junk (ty, addr, req)) = msg_bytes junk ?m @ ?b" by (simp add: wire_msg_def log_msg_def)
  have ne: "?b \<noteq> []" using l by auto
  have "message_ok (msg_bytes junk ?m @ ?b)" by (rule message_okI [OF ne]) (simp_all add: l sizeof_kore_msg_def)
  then show "for_log (wire_msg me (log_msg senv junk (ty, addr, req)))" unfolding f by (simp add: for_log_def)
  have z: "log_packet_size = 2544" using l r(1) by simp
  have u: "unat (m_length ?m) = log_packet_size" unfolding kore_msg.simps l z by simp
  have d: "drop sizeof_kore_msg (msg_bytes junk ?m @ ?b) = ?b" by simp
  let ?x = "find (\<lambda>d. m_fnmatch (x_mod env) (d_domain (the (doms (x_tab env) d))) (lp_host ?k)) (domains (x_tab env))"
  have "\<exists>dm. doms (x_tab env) x = Some dm" if "?x = Some x" for x using find_mem [OF that] modtab_okD(2) [OF assms(1)] by auto
  then show "log_written env (wire_msg me (log_msg senv junk (ty, addr, req))) = log_entry env (x_ntop env ty addr) ?k"
    using assms(4) unfolding f log_written_def Let_def d msg_hdr_bytes r(2-4) u
    by (cases ?x) (auto simp: log_entry_def kore_accesslog_write_def kore_domain_lookup_ok [OF assms(1)])
qed



text \<open>An empty message blocks its pipe. Once the header of a message without data has arrived, the next read asks for no bytes and returns zero, which
  \<open>net_read\<close> takes for an error: with \<open>errno\<close> still at \<open>EAGAIN\<close> the loop ends, the message is not handled, and the same happens each time the
  pipe becomes readable again; with another \<open>errno\<close> the connection is given up.\<close>

theorem msg_empty_blocks:
  assumes "msg_wait c" and "m_length m = 0" and "concat ps = msg_bytes pad m" and "fits (msg_callback fuel env) p c ps"
  shows "\<exists>c'. recv_loop (msg_callback fuel env) p c (map Rd ps @ Rd_eof EAGAIN # rs) = Inr (Some (KORE_RESULT_OK, p, c')) \<and>
    (\<forall>rs'. recv_loop (msg_callback fuel env) p (c'\<lparr>read_possible := True\<rparr>) (Rd_eof EAGAIN # rs') = Inr (Some (KORE_RESULT_OK, p, c'))) \<and>
    (\<forall>rs'. recv_loop (msg_callback fuel env) p (c'\<lparr>read_possible := True\<rparr>) (Rd_eof Eother # rs') =
       Inr (Some (KORE_RESULT_ERROR, p, c'\<lparr>read_possible := True\<rparr>)))"
proof -
  from assms(1) obtain nb where nb: "rnb c = Some nb" "recv_ok nb" "\<not> nb_call_always nb" "nb_cb nb = Some Msg_recv_packet"
    "s_off nb = 0" "b_len nb = sizeof_kore_msg" "read_possible c" by (auto simp: msg_wait_def)
  have lt: "s_off nb < b_len nb" "length (msg_bytes pad m) = b_len nb - s_off nb" using nb(5,6) by (simp_all add: sizeof_kore_msg_def)
  have cc: "concat ps = msg_bytes pad m @ []" using assms(3) by simp
  let ?nb1 = "nb\<lparr>nb_buf := memcpy_at (nb_buf nb) 0 (msg_bytes pad m), s_off := sizeof_kore_msg\<rparr>" let ?c1 = "c\<lparr>rnb := Some ?nb1\<rparr>"
  obtain ps2 where p: "concat ps2 = []"
    "recv_loop (msg_callback fuel env) p c (map Rd ps @ Rd_eof EAGAIN # rs) =
       rbind (msg_recv_packet env p ?c1) (after_call (msg_callback fuel env) (map Rd ps2 @ Rd_eof EAGAIN # rs))"
    "\<forall>w' c'. msg_recv_packet env p ?c1 = Inr (KORE_RESULT_OK, w', c') \<longrightarrow> fits (msg_callback fuel env) w' c' ps2"
    using recv_phase_bytes [OF nb(1,2,7,3,4) lt(1) assms(4) cc lt(2), of "Rd_eof EAGAIN # rs"] unfolding nb(5,6) by (auto simp: msg_callback_def)
  have lb: "sizeof_kore_msg \<le> length (nb_buf nb)" "nb_type nb = NETBUF_RECV" using nb(2,6) by (auto simp: recv_ok_def)
  have b1: "nb_buf ?nb1 = msg_bytes pad m @ drop sizeof_kore_msg (nb_buf nb)" by (simp add: memcpy_at_def)
  have m: "msg_at (nb_buf ?nb1) = Inr m" unfolding b1 by (simp add: msg_at_def)
  have e: "\<exists>b. net_recv_expand (x_junk env) ?c1 0 Msg_recv_data =
      Inr (c\<lparr>rnb := Some (?nb1\<lparr>nb_cb := Some Msg_recv_data, b_len := sizeof_kore_msg, m_len := sizeof_kore_msg, nb_buf := b\<rparr>)\<rparr>)"
    using lb(2) nb(6) by (simp add: net_recv_expand_def Let_def realloc_block_def malloc_block_def sizeof_kore_msg_def) (rule exI, rule refl)
  then obtain nb2 where r: "msg_recv_packet env p ?c1 = Inr (KORE_RESULT_OK, p, c\<lparr>rnb := Some nb2\<rparr>)" "s_off nb2 = b_len nb2"
    using m assms(2) by (auto simp: msg_recv_packet_def)
  have "ps2 = []" using p(1,3) r(1) by (cases ps2) auto
  then have l: "recv_loop (msg_callback fuel env) p c (map Rd ps @ Rd_eof EAGAIN # rs) =
      recv_loop (msg_callback fuel env) p (c\<lparr>rnb := Some nb2\<rparr>) (Rd_eof EAGAIN # rs)" using p(2) r(1) by (simp add: after_call_def)
  have stuck: "recv_loop (msg_callback fuel env) p x (Rd_eof EAGAIN # rs') = Inr (Some (KORE_RESULT_OK, p, x\<lparr>read_possible := False\<rparr>))"
    "recv_loop (msg_callback fuel env) p x (Rd_eof Eother # rs') = Inr (Some (KORE_RESULT_ERROR, p, x))"
    if "rnb x = Some nb2" "read_possible x" for x rs'
    using that by (simp_all add: recv_loop.simps [of _ _ x] net_recv_turn_def net_read_def KORE_RESULT_OK_def KORE_RESULT_ERROR_def)
  show ?thesis
    using l stuck [of "c\<lparr>rnb := Some nb2\<rparr>"] stuck [of "c\<lparr>rnb := Some nb2, read_possible := True\<rparr>"] nb(7)
    by (intro exI [of _ "c\<lparr>rnb := Some nb2, read_possible := False\<rparr>"]) simp
qed

theorem msg_empty_blocks_witness:
  "\<exists>c'. recv_loop (msg_callback 2 site_msg_env) site_parent (pipe_end 5)
      (map Rd [msg_bytes (\<lambda>_. 0) \<lparr>m_id = 9, m_src = 0, m_dst = 1, m_length = 0\<rparr>] @ Rd_eof EAGAIN # []) = Inr (Some (KORE_RESULT_OK, site_parent, c')) \<and>
    (\<forall>rs'. recv_loop (msg_callback 2 site_msg_env) site_parent (c'\<lparr>read_possible := True\<rparr>) (Rd_eof EAGAIN # rs') =
       Inr (Some (KORE_RESULT_OK, site_parent, c'))) \<and>
    (\<forall>rs'. recv_loop (msg_callback 2 site_msg_env) site_parent (c'\<lparr>read_possible := True\<rparr>) (Rd_eof Eother # rs') =
       Inr (Some (KORE_RESULT_ERROR, site_parent, c'\<lparr>read_possible := True\<rparr>)))"
proof (rule msg_empty_blocks)
  let ?h = "msg_bytes (\<lambda>_. 0) \<lparr>m_id = 9, m_src = 0, m_dst = 1, m_length = 0\<rparr>"
  show "fits (msg_callback 2 site_msg_env) site_parent (pipe_end 5) [?h]"
    by (auto simp: pipe_end_def sizeof_kore_msg_def msg_bytes_def split: sum.split option.split prod.split)
qed simp_all

text \<open>(C35) A restarted worker never serves. Connections of pipes are not counted when they are made, but \<open>kore_connection_remove\<close> counts them when
  they go; so when the parent, which has accepted no connections, gives up the pipe of a worker that died, its counter wraps around to the largest
  value. The new worker is forked with this counter, which nothing resets: it is at any limit there is, so \<open>kore_worker_acceptlock_obtain\<close> refuses
  the lock and the loop that accepts connections accepts none.\<close>

theorem restarted_worker_starves:
  assumes "kw_msg p k = Some x" and "conns (mw p) x = Some c" and "cid c = x" and "cstate c \<noteq> CONN_STATE_DISCONNECTING" and "\<not> disc_cb c"
    and "c_http_requests c = []" and "x \<in> set (connections (mw p))" and "disconnected_list (mw p) = []" and "worker_active_connections (mw p) = 0"
  shows "\<exists>parent child. restart_worker env a ja b jb k p = Inr (parent, child) \<and>
    hdlr_extra parent a = Some k \<and> self child = Some k \<and> worker_active_connections (mw child) = - 1 \<and>
    (\<forall>limit. worker_active_connections (mw child) \<ge> limit) \<and>
    (\<forall>senv now connect script n. accept_loop senv now connect script n (mw child) = Inr (Some (n, mw child)))"
proof -
  let ?w = "(mw p)\<lparr>connections := remove1 x (connections (mw p)), disconnected_list := [x], conns := (conns (mw p))(x \<mapsto> c\<lparr>cstate := CONN_STATE_DISCONNECTING\<rparr>)\<rparr>"
  let ?p1 = "p\<lparr>hdlr_extra := (hdlr_extra p)(x := None), mw := ?w\<rparr>"
  have d: "msg_disconnect env x p = Inr ?p1"
    using assms(2-5,7,8) by (simp add: msg_disconnect_def msg_disconnected_worker_def kore_connection_disconnect_def tailq_remove_def put_conn_def)
  obtain w2 where w2: "kore_connection_prune 0 (x_kore env) (\<lambda>_. []) False ?w = Inr (Some w2)" "worker_active_connections w2 = - 1"
    using assms(3,6,9) by (simp add: kore_connection_prune_def kore_connection_remove_def tailq_remove_def)
  have r: "kore_msg_parent_remove env k p = Inr (?p1\<lparr>mw := w2\<rparr>)" using assms(1) d w2(1) by (simp add: kore_msg_parent_remove_def)
  have conn: "\<exists>c. msg_connection env i j = Inr c" for i j
    by (simp add: msg_connection_def net_recv_queue_def kore_connection_new_def malloc_block_def sizeof_kore_msg_def)
  obtain cb where cb: "msg_connection env b jb = Inr cb" using conn by blast
  obtain child where ch: "worker_boot env b jb k (?p1\<lparr>mw := w2\<rparr>) = Inr child" "self child = Some k" "worker_active_connections (mw child) = - 1"
    using cb w2(2) by (simp add: worker_boot_def kore_msg_worker_init_def kore_msg_register_def link_conn_def kore_connection_init_def put_conn_def Let_def
        split: option.split)
  obtain parent where pa: "kore_msg_parent_add env a ja k (?p1\<lparr>mw := w2\<rparr>) = Inr parent" "hdlr_extra parent a = Some k"
    using conn [of a ja] by (auto simp: kore_msg_parent_add_def)
  have full: "limit \<le> (- 1 :: u32)" for limit by simp
  have "accept_loop senv now connect script n (mw child) = Inr (Some (n, mw child))" for senv now connect script n
    using ch(3) by (simp add: accept_loop.simps [of _ _ _ script])
  then show ?thesis using r ch pa full by (simp add: restart_worker_def)
qed

theorem restarted_worker_starves_witness:
  "\<exists>parent child. restart_worker site_msg_env 8 CONN_STATE_UNKNOWN 9 CONN_STATE_UNKNOWN 1 site_parent = Inr (parent, child) \<and>
    hdlr_extra parent 8 = Some 1 \<and> self child = Some 1 \<and> worker_active_connections (mw child) = - 1 \<and>
    (\<forall>limit. worker_active_connections (mw child) \<ge> limit) \<and>
    (\<forall>senv now connect script n. accept_loop senv now connect script n (mw child) = Inr (Some (n, mw child)))"
  by (rule restarted_worker_starves [where x = 6 and c = "pipe_end 6"])
    (simp_all add: site_parent_def site_proc_def log_worker_def, simp_all add: pipe_end_def kore_connection_new_def)

end
