(* ===== verification/Sparc_Router.thy ===== *)
theory Sparc_Router
  imports Kore_Str
begin

text \<open>
  The router of the C++ layer, \<open>sparc/detail/router.cpp\<close>, and the parameters of \<open>HttpRequest\<close> in
  \<open>sparc/detail/request.cpp\<close>. Routes hang on a trie of characters. Every node is owned by its parent and reached
  through it only, so the trie is a tree of values; a function that the code applies to the node it has reached is applied in place.

  Application handlers, transformers and data are numbers. The interface \<open>route_table\<close> says what the router needs of the
  trie, a map from prefixes to routes.
\<close>

section \<open>Handlers and routes\<close>

text \<open>\<open>params\<close> is the array of parameter names, without its \<open>NULL\<close>.\<close>

record route_handler =
  rh_route :: "byte list"
  rh_content_type :: "byte list option"
  rh_transformer :: "nat option"
  rh_h :: "nat option"
  rh_m :: nat
  rh_params :: "byte list list"
  rh_prefix :: "byte list"
  rh_nparams :: byte
  rh_data :: "nat option"

record route =
  rt_prefix :: "byte list"
  rt_methods :: u32
  rt_handlers :: "route_handler list"

definition Route :: "byte list \<Rightarrow> route" where
  "Route pre = \<lparr>rt_prefix = pre, rt_methods = 0, rt_handlers = []\<rparr>"

definition Route_find :: "route \<Rightarrow> nat \<Rightarrow> int \<Rightarrow> route_handler option" where
  "Route_find r m ntoks =
     (if rt_methods r AND push_bit m 1 \<noteq> 0
      then List.find (\<lambda>rh. rh_m rh = m \<and> ntoks = uint (rh_nparams rh)) (rt_handlers r)
      else None)"

text \<open>The new handler; \<open>Router::add\<close> fills in the other members, here with \<open>fill\<close>.\<close>

definition Route_add :: "route \<Rightarrow> nat \<Rightarrow> byte list list \<Rightarrow> int \<Rightarrow> (route_handler \<Rightarrow> route_handler) \<Rightarrow> route" where
  "Route_add r m toks ntoks fill =
     r\<lparr>rt_methods := rt_methods r OR push_bit m 1,
       rt_handlers := rt_handlers r @
         [fill \<lparr>rh_route = [], rh_content_type = None, rh_transformer = None, rh_h = None, rh_m = m, rh_params = toks,
            rh_prefix = rt_prefix r, rh_nparams = word_of_int ntoks, rh_data = None\<rparr>]\<rparr>"

section \<open>The trie\<close>

datatype node = Node (tag: byte) (nroute: "route option") (children: "node list")

definition Node_get :: "node \<Rightarrow> byte \<Rightarrow> node option" where
  "Node_get n c = List.find (\<lambda>k. tag k = c) (children n)"

text \<open>\<open>Node::add\<close> puts a new node behind the other children; \<open>f\<close> is what the caller goes on to do with it.\<close>

definition Node_add :: "node \<Rightarrow> byte \<Rightarrow> (node \<Rightarrow> node) \<Rightarrow> node" where
  "Node_add n c f = Node (tag n) (nroute n) (children n @ [f (Node c None [])])"

text \<open>The first child with a tag, replaced.\<close>

fun replace_child :: "byte \<Rightarrow> (node \<Rightarrow> node) \<Rightarrow> node list \<Rightarrow> node list" where
  "replace_child c f [] = []"
| "replace_child c f (k # ks) = (if tag k = c then f k # ks else k # replace_child c f ks)"

text \<open>The loop of the private \<open>Router::add\<close> from a node on, then \<open>f\<close> on the node it returns; and how often it adds to \<open>depth\<close>.\<close>

fun descend :: "(node \<Rightarrow> node) \<Rightarrow> byte list \<Rightarrow> node \<Rightarrow> node" where
  "descend f [] n = f n"
| "descend f (c # cs) n =
     (case Node_get n c of
        None \<Rightarrow> Node_add n c (descend f cs)
      | Some _ \<Rightarrow> Node (tag n) (nroute n) (replace_child c (descend f cs) (children n)))"

fun missing :: "byte list \<Rightarrow> node \<Rightarrow> nat" where
  "missing [] n = 0"
| "missing (c # cs) n = (case Node_get n c of None \<Rightarrow> Suc (length cs) | Some k \<Rightarrow> missing cs k)"

text \<open>The node a string leads to.\<close>

fun node_at :: "byte list \<Rightarrow> node \<Rightarrow> node option" where
  "node_at [] n = Some n"
| "node_at (c # cs) n = (case Node_get n c of None \<Rightarrow> None | Some k \<Rightarrow> node_at cs k)"

section \<open>The router\<close>

record router =
  root_node :: node
  router_depth :: int

definition slash :: byte where "slash = ch (CHR ''/'')"
definition colon :: byte where "colon = ch (CHR '':'')"

definition Router :: router where
  "Router = \<lparr>root_node = Node slash None [], router_depth = 1\<rparr>"

text \<open>The private \<open>Router::add\<close>; an empty prefix does not occur.\<close>

definition Router_add_node :: "router \<Rightarrow> byte list \<Rightarrow> (node \<Rightarrow> node) \<Rightarrow> router option" where
  "Router_add_node rt pre f =
     (case pre of
        [] \<Rightarrow> None
      | c # cs \<Rightarrow>
          if tag (root_node rt) \<noteq> c then None
          else Some (rt\<lparr>root_node := descend f cs (root_node rt), router_depth := router_depth rt + int (missing cs (root_node rt))\<rparr>))"

definition route_of :: "router \<Rightarrow> byte list \<Rightarrow> route option" where
  "route_of rt pre =
     (case pre of
        [] \<Rightarrow> None
      | c # cs \<Rightarrow> if tag (root_node rt) = c then (case node_at cs (root_node rt) of None \<Rightarrow> None | Some n \<Rightarrow> nroute n) else None)"

text \<open>The names of the parameters are cut at the next slash. The array of tokens has 32 slots; its size in bytes, 256, is passed as
  the number of slots, and slot number \<open>ntoks\<close> is written too. The result is \<open>NULL\<close> or the route.\<close>

definition param_name :: "byte list \<Rightarrow> byte list" where
  "param_name tok = takeWhile (\<lambda>c. c \<noteq> slash) tok"

definition Router_add ::
    "router \<Rightarrow> nat \<Rightarrow> byte list \<Rightarrow> nat option \<Rightarrow> byte list option \<Rightarrow> nat option \<Rightarrow> nat option \<Rightarrow> (bool \<times> router) res" where
  "Router_add rt m route hh contentType t data =
     (let toks = kore_split_string route [colon] 256 in
      if 32 \<le> length toks then Inl Out_of_bounds
      else case toks of
          [] \<Rightarrow> Inr (False, rt)
        | pre # names \<Rightarrow>
            (case Router_add_node rt pre (\<lambda>n.
                Node (tag n) (Some (case nroute n of None \<Rightarrow> Route pre | Some r \<Rightarrow> r)) (children n)) of
               None \<Rightarrow> Inr (False, rt)
             | Some rt1 \<Rightarrow>
                 (case route_of rt1 pre of
                    None \<Rightarrow> Inl Null_deref
                  | Some r \<Rightarrow>
                      if Route_find r m (int (length names)) \<noteq> None then Inr (False, rt1)
                      else case Router_add_node rt1 pre (\<lambda>n. Node (tag n)
                             (Some (Route_add r m (map param_name names) (int (length names)) (\<lambda>rh. rh\<lparr>rh_route := takeWhile (\<lambda>c. c \<noteq> colon) route,
                                rh_content_type := contentType, rh_h := hh, rh_transformer := t, rh_data := data\<rparr>))) (children n)) of
                          None \<Rightarrow> Inl Null_deref
                        | Some rt2 \<Rightarrow> Inr (True, rt2))))"

text \<open>A handler at a node, for what is left of the tokens behind number \<open>itok\<close>.\<close>

definition try_node :: "nat \<Rightarrow> byte list list \<Rightarrow> node \<Rightarrow> nat \<Rightarrow> (route_handler \<times> byte list list) option" where
  "try_node m toks n itok =
     (case nroute n of
        None \<Rightarrow> None
      | Some r \<Rightarrow>
          let rtoks = (if toks = [] then 0 else int (length toks) - int itok) in
          map_option (\<lambda>rh. (rh, take (nat rtoks) (drop itok toks))) (Route_find r m rtoks))"

text \<open>The loop of \<open>Router::find\<close> at character \<open>i\<close> of a path of \<open>rlen\<close> characters.\<close>

fun find_loop ::
    "nat \<Rightarrow> byte list list \<Rightarrow> node \<Rightarrow> nat \<Rightarrow> nat \<Rightarrow> node \<Rightarrow> nat \<Rightarrow> nat \<Rightarrow> byte list \<Rightarrow> (route_handler \<times> byte list list) option" where
  "find_loop m toks root rlen i n itok tlen [] = None"
| "find_loop m toks root rlen i n itok tlen (c # cs) =
     (case if i = 0 then Some root else Node_get n c of
        None \<Rightarrow> None
      | Some k \<Rightarrow>
          if c = slash \<or> tlen = 0 then
            if i \<noteq> 0 \<and> c = slash then
              if length toks \<le> itok + 1 then None
              else (case try_node m toks k (itok + 1) of
                  Some res \<Rightarrow> Some res
                | None \<Rightarrow> find_loop m toks root rlen (i + 1) k (itok + 1) (length (toks ! (itok + 1)) - 1) cs)
            else
              let itok1 = (if i = rlen - 1 then itok + 1 else itok) in
              (case try_node m toks k itok1 of
                 Some res \<Rightarrow> Some res
               | None \<Rightarrow> find_loop m toks root rlen (i + 1) k itok1 (tlen - 1) cs)
          else find_loop m toks root rlen (i + 1) k itok (tlen - 1) cs)"

text \<open>\<open>ntoks\<close> is the size of the array of tokens; the result is the handler with the values of its parameters.\<close>

definition Router_find :: "router \<Rightarrow> nat \<Rightarrow> byte list \<Rightarrow> nat \<Rightarrow> (route_handler \<times> byte list list) option" where
  "Router_find rt m route ntoks =
     (let toks = kore_split_string route [slash] ntoks in
      find_loop m toks (root_node rt) (length route) 0 (root_node rt) 0 (case toks of [] \<Rightarrow> 0 | t # _ \<Rightarrow> length t) route)"

text \<open>\<open>resolveRoute\<close> has room for 16 tokens; \<open>param\<close> compares names in order.\<close>

definition resolveRoute :: "router \<Rightarrow> nat \<Rightarrow> byte list \<Rightarrow> (route_handler \<times> byte list list) option" where
  "resolveRoute rt m path = Router_find rt m path 16"

fun param_loop :: "byte list list \<Rightarrow> byte list list \<Rightarrow> byte list \<Rightarrow> byte list option" where
  "param_loop (p # ps) (v # vs) name = (if p = name then Some v else param_loop ps vs name)"
| "param_loop _ _ name = None"

definition request_param :: "route_handler \<times> byte list list \<Rightarrow> byte list \<Rightarrow> byte list option" where
  "request_param h name = param_loop (rh_params (fst h)) (snd h) name"

section \<open>The trie as a map\<close>

lemma Node_get_simps [simp]:
  "Node_get (Node t r []) c = None"
  "Node_get (Node t r (k # ks)) c = (if tag k = c then Some k else Node_get (Node t r ks) c)"
  by (simp_all add: Node_get_def)

lemma Node_get_eta [simp]: "Node_get (Node t r (children n)) c = Node_get n c"
  by (simp add: Node_get_def)

lemma Node_get_snoc: "Node_get (Node t r (ks @ [k])) c = (case Node_get (Node t r ks) c of None \<Rightarrow> if tag k = c then Some k else None | Some x \<Rightarrow> Some x)"
  by (induction ks) auto

lemma Node_get_replace:
  assumes "\<And>k. tag (f k) = tag k"
  shows "Node_get (Node t r (replace_child c f ks)) d = (if d = c then map_option f (Node_get (Node t r ks) c) else Node_get (Node t r ks) d)"
  by (induction ks) (auto simp: assms)

text \<open>A change of the route of the node that is reached.\<close>

definition set_route :: "(route option \<Rightarrow> route option) \<Rightarrow> node \<Rightarrow> node" where
  "set_route g n = Node (tag n) (g (nroute n)) (children n)"

lemma tag_descend [simp]: "tag (descend (set_route g) cs n) = tag n"
  by (cases cs) (auto simp: set_route_def Node_add_def split: option.splits)

definition look :: "byte list \<Rightarrow> node \<Rightarrow> route option" where
  "look cs n = (case node_at cs n of None \<Rightarrow> None | Some k \<Rightarrow> nroute k)"

lemma look_simps [simp]:
  "look [] n = nroute n" "look (c # cs) n = (case Node_get n c of None \<Rightarrow> None | Some k \<Rightarrow> look cs k)"
  by (simp_all add: look_def split: option.split)

lemma look_fresh: "look cs (Node c None []) = None"
  by (cases cs) simp_all

lemma Node_get_descend:
  "Node_get (descend (set_route g) (c # cs) n) d =
    (if d = c then Some (descend (set_route g) cs (case Node_get n c of None \<Rightarrow> Node c None [] | Some k \<Rightarrow> k)) else Node_get n d)"
proof (cases "Node_get n c")
  case None
  then show ?thesis by (auto simp: Node_add_def Node_get_snoc split: option.splits)
next
  case (Some k)
  have "Node_get (descend (set_route g) (c # cs) n) d =
      (if d = c then map_option (descend (set_route g) cs) (Node_get (Node (tag n) (nroute n) (children n)) c)
       else Node_get (Node (tag n) (nroute n) (children n)) d)"
    using Some by (simp add: Node_get_replace)
  then show ?thesis using Some by simp
qed

lemma look_descend: "look t (descend (set_route g) s n) = (if t = s then g (look s n) else look t n)"
proof (induction s arbitrary: n t)
  case Nil
  then show ?case
    by (cases t) (auto simp: set_route_def)
next
  case (Cons c s)
  show ?case
  proof (cases t)
    case Nil
    then show ?thesis by (auto simp: Node_add_def split: option.split)
  next
    case (Cons d t')
    show ?thesis
    proof (cases "d = c")
      case True
      have "look t (descend (set_route g) (c # s) n) =
          look t' (descend (set_route g) s (case Node_get n c of None \<Rightarrow> Node c None [] | Some k \<Rightarrow> k))"
        unfolding Cons True by (simp only: look_simps Node_get_descend) simp
      then show ?thesis unfolding Cons.IH using True Cons by (simp add: look_fresh split: option.split)
    next
      case False
      then show ?thesis unfolding Cons by (simp only: look_simps Node_get_descend) simp
    qed
  qed
qed

section \<open>The interface of the trie\<close>

text \<open>A map from prefixes to routes: what the router relies on.\<close>

locale route_table =
  fixes lookup :: "'t \<Rightarrow> byte list \<Rightarrow> route option"
    and change :: "'t \<Rightarrow> byte list \<Rightarrow> (route option \<Rightarrow> route option) \<Rightarrow> 't option"
    and valid :: "'t \<Rightarrow> bool"
  assumes change_defined: "valid t \<Longrightarrow> (\<exists>t'. change t p g = Some t') \<longleftrightarrow> (\<exists>cs. p = slash # cs)"
    and change_valid: "valid t \<Longrightarrow> change t p g = Some t' \<Longrightarrow> valid t'"
    and lookup_change: "valid t \<Longrightarrow> change t p g = Some t' \<Longrightarrow> lookup t' q = (if q = p then g (lookup t p) else lookup t q)"
begin

text \<open>Two changes at one prefix.\<close>

lemma change_twice:
  assumes "valid t" "change t p g = Some t1"
  obtains t2 where "change t1 p h = Some t2" "valid t2" "\<And>q. lookup t2 q = (if q = p then h (g (lookup t p)) else lookup t q)"
proof -
  have v: "valid t1" using change_valid [OF assms] .
  obtain t2 where t2: "change t1 p h = Some t2" using change_defined [OF assms(1), of p g] change_defined [OF v, of p h] assms(2) by blast
  show thesis
  proof (rule that [OF t2 change_valid [OF v t2]])
    fix q
    show "lookup t2 q = (if q = p then h (g (lookup t p)) else lookup t q)"
      using lookup_change [OF v t2, of q] lookup_change [OF assms, of q] lookup_change [OF assms, of p] by simp
  qed
qed

lemma change_idle:
  assumes "valid t" "change t p g = Some t1" "g (lookup t p) = lookup t p"
  shows "lookup t1 = lookup t"
  using lookup_change [OF assms(1,2)] assms(3) by (auto simp: fun_eq_iff)

end

definition trie_change :: "router \<Rightarrow> byte list \<Rightarrow> (route option \<Rightarrow> route option) \<Rightarrow> router option" where
  "trie_change rt pre g = Router_add_node rt pre (set_route g)"

definition rooted :: "router \<Rightarrow> bool" where
  "rooted rt \<longleftrightarrow> tag (root_node rt) = slash"

interpretation trie: route_table route_of trie_change rooted
proof
  fix t p g
  assume "rooted t"
  then show "(\<exists>t'. trie_change t p g = Some t') \<longleftrightarrow> (\<exists>cs. p = slash # cs)"
    by (auto simp: trie_change_def Router_add_node_def rooted_def split: list.split)
next
  fix t p g t'
  assume "rooted t" "trie_change t p g = Some t'"
  then show "rooted t'" by (auto simp: trie_change_def Router_add_node_def rooted_def split: list.splits if_splits)
next
  fix t p g t' q
  assume a: "rooted t" "trie_change t p g = Some t'"
  then obtain cs where p: "p = slash # cs" and t': "root_node t' = descend (set_route g) cs (root_node t)"
    by (auto simp: trie_change_def Router_add_node_def rooted_def split: list.splits if_splits)
  have rt: "route_of x (c # ds) = (if c = slash then look ds (root_node x) else None)" if "rooted x" for x c ds
    using that by (auto simp: route_of_def rooted_def look_def)
  have "rooted t'" using a by (auto simp: trie_change_def Router_add_node_def rooted_def split: list.splits if_splits)
  then show "route_of t' q = (if q = p then g (route_of t p) else route_of t q)"
    using a(1) p t' by (cases q) (auto simp: rt look_descend, simp add: route_of_def)
qed

section \<open>Registration\<close>

definition takes :: "nat \<Rightarrow> int \<Rightarrow> route_handler \<Rightarrow> bool" where
  "takes m k rh \<longleftrightarrow> rh_m rh = m \<and> k = uint (rh_nparams rh)"

text \<open>The bits of \<open>methods\<close> are the methods of the handlers, and no two handlers answer the same method and number of parameters.\<close>

definition route_ok :: "byte list \<Rightarrow> route \<Rightarrow> bool" where
  "route_ok p r \<longleftrightarrow> rt_prefix r = p \<and> (\<forall>m < 32. bit (rt_methods r) m \<longleftrightarrow> (\<exists>rh \<in> set (rt_handlers r). rh_m rh = m)) \<and>
     (\<forall>rh \<in> set (rt_handlers r). int (length (rh_params rh)) = uint (rh_nparams rh)) \<and>
     distinct (map (\<lambda>rh. (rh_m rh, rh_nparams rh)) (rt_handlers r))"

definition router_ok :: "router \<Rightarrow> bool" where
  "router_ok rt \<longleftrightarrow> rooted rt \<and> (\<forall>p r. route_of rt p = Some r \<longrightarrow> route_ok p r)"

text \<open>The table of handlers a router stands for.\<close>

definition handles :: "router \<Rightarrow> nat \<Rightarrow> byte list \<Rightarrow> int \<Rightarrow> route_handler option" where
  "handles rt m p k = (case route_of rt p of None \<Rightarrow> None | Some r \<Rightarrow> Route_find r m k)"

lemma find_None_absent: "List.find P xs = None \<longleftrightarrow> (\<forall>x \<in> set xs. \<not> P x)"
  by (auto simp: find_None_iff)

lemma Route_find_takes:
  assumes "route_ok p r" "m < 32"
  shows "Route_find r m k = List.find (takes m k) (rt_handlers r)"
proof (cases "bit (rt_methods r) m")
  case True
  then have "rt_methods r AND push_bit m 1 \<noteq> 0" by (simp add: and_exp_eq_0_iff_not_bit)
  then show ?thesis by (simp add: Route_find_def takes_def [abs_def])
next
  case False
  then have "rt_methods r AND push_bit m 1 = 0" "\<forall>rh \<in> set (rt_handlers r). rh_m rh \<noteq> m"
    using assms by (auto simp: and_exp_eq_0_iff_not_bit route_ok_def)
  moreover have "List.find (takes m k) (rt_handlers r) = None" using calculation(2) by (auto simp: find_None_absent takes_def)
  ultimately show ?thesis by (simp add: Route_find_def)
qed

lemma find_snoc: "List.find P (xs @ [x]) = (case List.find P xs of None \<Rightarrow> if P x then Some x else None | Some y \<Rightarrow> Some y)"
  by (induction xs) auto

lemma Route_add_ok:
  assumes "route_ok p r" "m < 32" "Route_find r m (int (length ps)) = None" "length ps < 256"
    and fill: "\<And>rh. rh_m (fill rh) = rh_m rh \<and> rh_nparams (fill rh) = rh_nparams rh \<and> rh_params (fill rh) = rh_params rh \<and> rh_prefix (fill rh) = rh_prefix rh"
  shows "route_ok p (Route_add r m ps (int (length ps)) fill) \<and>
    (\<forall>m' k. m' < 32 \<longrightarrow> Route_find (Route_add r m ps (int (length ps)) fill) m' k =
       (if m' = m \<and> k = int (length ps) then Some (last (rt_handlers (Route_add r m ps (int (length ps)) fill))) else Route_find r m' k))"
proof -
  let ?r = "Route_add r m ps (int (length ps)) fill"
  define new where "new = last (rt_handlers ?r)"
  have hs: "rt_handlers ?r = rt_handlers r @ [new]" by (simp add: Route_add_def new_def)
  have new: "rh_m new = m" "uint (rh_nparams new) = int (length ps)" "rh_params new = ps"
    using assms(4) by (simp_all add: new_def Route_add_def fill unsigned_of_nat take_bit_nat_eq_self)
  have none: "\<forall>rh \<in> set (rt_handlers r). \<not> (rh_m rh = m \<and> uint (rh_nparams rh) = int (length ps))"
    using assms(3) unfolding Route_find_takes [OF assms(1,2)] by (auto simp: find_None_absent takes_def)
  then have "(rh_m new, rh_nparams new) \<notin> (\<lambda>rh. (rh_m rh, rh_nparams rh)) ` set (rt_handlers r)" using new by auto
  moreover have "bit (rt_methods ?r) m' \<longleftrightarrow> (\<exists>rh \<in> set (rt_handlers ?r). rh_m rh = m')" if "m' < 32" for m'
  proof -
    have "bit (rt_methods ?r) m' \<longleftrightarrow> bit (rt_methods r) m' \<or> m' = m"
      using that by (auto simp: Route_add_def bit_or_iff bit_exp_iff)
    then show ?thesis using assms(1) that new(1) unfolding hs by (auto simp: route_ok_def)
  qed
  moreover have "rt_prefix ?r = p" using assms(1) by (simp add: Route_add_def route_ok_def)
  moreover have "\<forall>rh \<in> set (rt_handlers ?r). int (length (rh_params rh)) = uint (rh_nparams rh)"
    using assms(1) new unfolding hs by (auto simp: route_ok_def)
  ultimately have ok: "route_ok p ?r" using assms(1) unfolding route_ok_def hs by simp
  have "Route_find ?r m' k = (if m' = m \<and> k = int (length ps) then Some new else Route_find r m' k)" if "m' < 32" for m' k
  proof -
    have "Route_find r m' k = None" if "m' = m \<and> k = int (length ps)" using assms(3) that by simp
    then show ?thesis
      using new unfolding Route_find_takes [OF ok that] Route_find_takes [OF assms(1) that] hs
      by (auto simp: find_snoc takes_def split: option.split)
  qed
  then show ?thesis using ok new_def by simp
qed

lemma Route_ok: "route_ok p (Route p)" "Route_find (Route p) m k = None"
  by (simp_all add: route_ok_def Route_def Route_find_def)

lemma Router_ok: "router_ok Router" "handles Router m p k = None"
proof -
  have "route_of Router p = None" for p by (cases p; cases "tl p") (auto simp: route_of_def Router_def)
  then show "router_ok Router" "handles Router m p k = None" by (auto simp: router_ok_def rooted_def Router_def handles_def)
qed

text \<open>The handler a registration makes.\<close>

definition new_handler :: "nat \<Rightarrow> byte list \<Rightarrow> byte list \<Rightarrow> byte list list \<Rightarrow> nat option \<Rightarrow> byte list option \<Rightarrow> nat option \<Rightarrow> nat option \<Rightarrow> route_handler" where
  "new_handler m route pre names hh contentType t data =
     \<lparr>rh_route = takeWhile (\<lambda>c. c \<noteq> colon) route, rh_content_type = contentType, rh_transformer = t, rh_h = hh, rh_m = m,
      rh_params = map param_name names, rh_prefix = pre, rh_nparams = of_nat (length names), rh_data = data\<rparr>"

lemma Router_add_step:
  assumes ok: "router_ok rt" and m: "m < 32" and toks: "kore_split_string route [colon] 256 = (slash # cs) # names" "length names < 31"
  shows "\<exists>rt'. Router_add rt m route hh contentType t data = Inr (handles rt m (slash # cs) (int (length names)) = None, rt') \<and> router_ok rt' \<and>
    (\<forall>m' p k. m' < 32 \<longrightarrow> handles rt' m' p k =
       (if handles rt m (slash # cs) (int (length names)) = None \<and> m' = m \<and> p = slash # cs \<and> k = int (length names)
        then Some (new_handler m route (slash # cs) names hh contentType t data) else handles rt m' p k))"
proof -
  let ?p = "slash # cs" and ?k = "int (length names)"
  let ?g = "\<lambda>r. Some (case r of None \<Rightarrow> Route ?p | Some r \<Rightarrow> r)"
  have v: "rooted rt" and rok: "\<And>p r. route_of rt p = Some r \<Longrightarrow> route_ok p r" using ok by (auto simp: router_ok_def)
  obtain rt1 where rt1: "trie_change rt ?p ?g = Some rt1" using trie.change_defined [OF v, of ?p ?g] by blast
  have one: "route_of rt1 q = (if q = ?p then ?g (route_of rt ?p) else route_of rt q)" for q by (rule trie.lookup_change [OF v rt1])
  define r where "r = (case route_of rt ?p of None \<Rightarrow> Route ?p | Some r \<Rightarrow> r)"
  have r1: "route_of rt1 ?p = Some r" using one [of ?p] by (simp add: r_def)
  have r: "route_ok ?p r" using rok [of ?p] Route_ok(1) [of ?p] by (simp add: r_def split: option.split)
  have fr: "Route_find r m' k = handles rt m' ?p k" for m' k by (auto simp: r_def handles_def Route_ok split: option.split)
  have h1: "handles rt1 m' p k = handles rt m' p k" for m' p k
    using one [of p] fr [of m' k] r_def by (auto simp: handles_def split: option.splits)
  have ok1: "router_ok rt1"
    using trie.change_valid [OF v rt1] one r rok r1 by (auto simp: router_ok_def split: if_splits)
  have run1: "Router_add_node rt ?p (\<lambda>n. Node (tag n) (?g (nroute n)) (children n)) = Some rt1"
    using rt1 by (simp add: trie_change_def set_route_def [abs_def])
  let ?fill = "\<lambda>rh. rh\<lparr>rh_route := takeWhile (\<lambda>c. c \<noteq> colon) route, rh_content_type := contentType, rh_h := hh, rh_transformer := t, rh_data := data\<rparr>"
  let ?r = "Route_add r m (map param_name names) ?k ?fill"
  show ?thesis
  proof (cases "handles rt m ?p ?k = None")
    case False
    then have "Router_add rt m route hh contentType t data = Inr (False, rt1)"
      using toks run1 r1 fr by (simp add: Router_add_def Let_def)
    then show ?thesis using False h1 ok1 by simp
  next
    case True
    obtain rt2 where rt2: "trie_change rt1 ?p (\<lambda>_. Some ?r) = Some rt2" "rooted rt2"
        "\<And>q. route_of rt2 q = (if q = ?p then Some ?r else route_of rt q)"
      by (rule trie.change_twice [OF v rt1, of "\<lambda>_. Some ?r"], rule that)
    have fn: "Route_find r m (int (length (map param_name names))) = None" using True fr by simp
    have a: "route_ok ?p ?r \<and> (\<forall>m' k. m' < 32 \<longrightarrow> Route_find ?r m' k =
        (if m' = m \<and> k = ?k then Some (last (rt_handlers ?r)) else Route_find r m' k))"
      using Route_add_ok [OF r m fn, of ?fill] toks(2) by simp
    have nh: "last (rt_handlers ?r) = new_handler m route ?p names hh contentType t data"
      using r by (simp add: Route_add_def new_handler_def route_ok_def)
    have run2: "Router_add_node rt1 ?p (\<lambda>n. Node (tag n) (Some ?r) (children n)) = Some rt2"
      using rt2(1) by (simp add: trie_change_def set_route_def [abs_def])
    have "handles rt2 m' p k = (if m' = m \<and> p = ?p \<and> k = ?k then Some (new_handler m route ?p names hh contentType t data) else handles rt m' p k)"
      if "m' < 32" for m' p k
      using that a nh rt2(3) [of p] fr [of m' k] by (auto simp: handles_def)
    moreover have "router_ok rt2" using rt2(2,3) a rok by (auto simp: router_ok_def split: if_splits)
    moreover have "Router_add rt m route hh contentType t data = Inr (True, rt2)"
      using True toks run1 r1 fr run2 by (simp add: Router_add_def Let_def)
    ultimately show ?thesis using True by auto
  qed
qed

section \<open>Lookup\<close>

text \<open>A path from its components.\<close>

definition tok_ok :: "byte list \<Rightarrow> bool" where
  "tok_ok t \<longleftrightarrow> t \<noteq> [] \<and> slash \<notin> set t"

fun join_toks :: "byte list list \<Rightarrow> byte list" where
  "join_toks [] = []"
| "join_toks [t] = t"
| "join_toks (t # ts) = t @ slash # join_toks ts"

definition path_text :: "byte list list \<Rightarrow> byte list" where
  "path_text ts = slash # join_toks ts"

text \<open>The prefixes at which the search looks for a handler, with the number of parameters it has to have there.\<close>

fun stops :: "byte list \<Rightarrow> byte list list \<Rightarrow> (byte list \<times> nat) list" where
  "stops pre [] = []"
| "stops pre [t] = [(pre @ t, 0)]"
| "stops pre (t # ts) = (pre @ t, Suc (length ts)) # (pre @ t @ [slash], length ts) # stops (pre @ t @ [slash]) ts"

fun first_match :: "router \<Rightarrow> nat \<Rightarrow> byte list list \<Rightarrow> (byte list \<times> nat) list \<Rightarrow> (route_handler \<times> byte list list) option" where
  "first_match rt m ts [] = None"
| "first_match rt m ts ((p, k) # ss) =
     (case handles rt m p (int k) of Some rh \<Rightarrow> Some (rh, drop (length ts - k) ts) | None \<Rightarrow> first_match rt m ts ss)"

lemma node_at_append: "node_at (a @ b) n = (case node_at a n of None \<Rightarrow> None | Some k \<Rightarrow> node_at b k)"
  by (induction a arbitrary: n) (auto split: option.split)

lemma handles_node:
  assumes "rooted rt"
  shows "handles rt m (slash # s) k =
    (case node_at s (root_node rt) of None \<Rightarrow> None | Some n \<Rightarrow> (case nroute n of None \<Rightarrow> None | Some r \<Rightarrow> Route_find r m k))"
  using assms by (auto simp: handles_def route_of_def rooted_def split: option.split)

lemma try_node_handles:
  assumes "rooted rt" "node_at s (root_node rt) = Some n" "i \<le> length toks"
  shows "try_node m toks n i = map_option (\<lambda>rh. (rh, drop i toks)) (handles rt m (slash # s) (int (length toks - i)))"
  using assms by (auto simp: try_node_def handles_node Let_def of_nat_diff split: option.split)

lemma stops_dead:
  assumes "rooted rt" "node_at s (root_node rt) = None"
  shows "first_match rt m toks (stops (slash # s) ts) = None"
  using assms(2)
proof (induction "slash # s" ts arbitrary: s rule: stops.induct)
  case (3 t u us)
  have "node_at (s @ t @ [slash]) (root_node rt) = None" "node_at (s @ t) (root_node rt) = None"
    using 3(2) by (simp_all add: node_at_append)
  then show ?case using 3(1) [of "s @ t @ [slash]"] by (simp add: handles_node [OF assms(1)])
qed (simp_all add: handles_node [OF assms(1)] node_at_append)

text \<open>The search along one component, and over a slash.\<close>

lemma find_loop_tok:
  assumes "t \<noteq> []" "slash \<notin> set t" "0 < i"
  shows "find_loop m toks root rlen i n itok (length t - 1) (t @ rest) =
    (case node_at t n of
       None \<Rightarrow> None
     | Some k \<Rightarrow>
         let itok1 = (if i + length t = rlen then itok + 1 else itok) in
         case try_node m toks k itok1 of Some res \<Rightarrow> Some res | None \<Rightarrow> find_loop m toks root rlen (i + length t) k itok1 0 rest)"
  using assms
proof (induction t arbitrary: i n rule: list_nonempty_induct)
  case (single c)
  then have "c \<noteq> slash" "(i = rlen - 1) = (Suc i = rlen)" by auto
  then show ?case using single by (simp add: Let_def split: option.split)
next
  case (cons c t)
  then have "c \<noteq> slash" "length t \<noteq> 0" by auto
  then have "find_loop m toks root rlen i n itok (length (c # t) - 1) ((c # t) @ rest) =
      (case Node_get n c of None \<Rightarrow> None | Some k \<Rightarrow> find_loop m toks root rlen (i + 1) k itok (length t - 1) (t @ rest))"
    using cons.prems(2) by (simp split: option.split)
  moreover have "find_loop m toks root rlen (i + 1) k itok (length t - 1) (t @ rest) =
      (case node_at t k of
         None \<Rightarrow> None
       | Some k \<Rightarrow>
           let itok1 = (if i + length (c # t) = rlen then itok + 1 else itok) in
           case try_node m toks k itok1 of Some res \<Rightarrow> Some res | None \<Rightarrow> find_loop m toks root rlen (i + length (c # t)) k itok1 0 rest)" for k
    using cons.IH [of "i + 1" k] cons.prems by (simp cong: option.case_cong add: Let_def)
  ultimately show ?case by (simp split: option.split)
qed

lemma find_loop_slash:
  assumes "0 < i" "itok + 1 < length toks"
  shows "find_loop m toks root rlen i n itok tlen (slash # rest) =
    (case Node_get n slash of
       None \<Rightarrow> None
     | Some k \<Rightarrow>
         (case try_node m toks k (itok + 1) of
            Some res \<Rightarrow> Some res
          | None \<Rightarrow> find_loop m toks root rlen (i + 1) k (itok + 1) (length (toks ! (itok + 1)) - 1) rest))"
  using assms by (simp split: option.split)

declare find_loop.simps(2) [simp del]

lemma find_loop_stops:
  assumes v: "rooted rt"
  shows "ts \<noteq> [] \<Longrightarrow> \<forall>t \<in> set ts. tok_ok t \<Longrightarrow> toks = ds @ ts \<Longrightarrow> node_at s (root_node rt) = Some n \<Longrightarrow> 0 < i \<Longrightarrow>
    i + length (join_toks ts) = rlen \<Longrightarrow>
    find_loop m toks (root_node rt) rlen i n (length ds) (length (List.hd ts) - 1) (join_toks ts) = first_match rt m toks (stops (slash # s) ts)"
proof (induction ts arbitrary: ds s n i rule: join_toks.induct)
  case (2 t)
  have t: "t \<noteq> []" "slash \<notin> set t" using 2 by (auto simp: tok_ok_def)
  have at: "node_at (s @ t) (root_node rt) = node_at t n" using 2 by (simp add: node_at_append)
  show ?case
  proof (cases "node_at t n")
    case None
    then show ?thesis
      using find_loop_tok [OF t \<open>0 < i\<close>, of m toks "root_node rt" rlen n "length ds" "[]"] at by (simp add: handles_node [OF v])
  next
    case (Some k)
    have "try_node m toks k (Suc (length ds)) = map_option (\<lambda>rh. (rh, [])) (handles rt m (slash # s @ t) 0)"
      using try_node_handles [OF v, of "s @ t" k "Suc (length ds)" toks m] at Some 2 by simp
    then show ?thesis
      using find_loop_tok [OF t \<open>0 < i\<close>, of m toks "root_node rt" rlen n "length ds" "[]"] at Some 2
      by (auto simp: Let_def split: option.split)
  qed
next
  case (3 t u us)
  let ?ts = "u # us"
  have t: "t \<noteq> []" "slash \<notin> set t" using 3 by (auto simp: tok_ok_def)
  have at: "node_at (s @ t) (root_node rt) = node_at t n" using 3 by (simp add: node_at_append)
  have len: "i + length t \<noteq> rlen" using 3 by simp
  note tok = find_loop_tok [OF t \<open>0 < i\<close>, of m toks "root_node rt" rlen n "length ds" "slash # join_toks ?ts"]
  have lens: "length toks - length ds = Suc (length ?ts)" "length toks - Suc (length ds) = length ?ts" "length ds + 1 < length toks"
    "toks ! (length ds + 1) = u" "length toks - Suc (Suc (length us)) = length ds" "length toks - Suc (length us) = Suc (length ds)"
    using 3 by (simp_all add: nth_append)
  show ?case
  proof (cases "node_at t n")
    case None
    then have "node_at (s @ t @ [slash]) (root_node rt) = None" using at by (simp add: node_at_append [of "s @ t" "[slash]", simplified])
    from stops_dead [OF v this, of m toks ?ts] show ?thesis
      using tok None at \<open>node_at (s @ t @ [slash]) (root_node rt) = None\<close> by (simp add: handles_node [OF v])
  next
    case k: (Some k)
    have h1: "try_node m toks k (length ds) = map_option (\<lambda>rh. (rh, drop (length ds) toks)) (handles rt m (slash # s @ t) (int (Suc (length ?ts))))"
      using try_node_handles [OF v, of "s @ t" k "length ds" toks m] at k lens by simp
    show ?thesis
    proof (cases "Node_get k slash")
      case None
      then have dead: "node_at (s @ t @ [slash]) (root_node rt) = None" using at k by (simp add: node_at_append [of "s @ t" "[slash]", simplified])
      have sl: "find_loop m toks (root_node rt) rlen (i + length t) k (length ds) 0 (slash # join_toks ?ts) = None"
        using find_loop_slash [of "i + length t" "length ds" toks m "root_node rt" rlen k 0 "join_toks ?ts"] \<open>0 < i\<close> lens None by simp
      have h0: "handles rt m (slash # s @ t @ [slash]) (int (length ?ts)) = None" using dead by (simp add: handles_node [OF v])
      from stops_dead [OF v dead, of m toks ?ts] h0 show ?thesis
        using tok k h1 len sl lens by (auto simp: Let_def split: option.split)
    next
      case (Some k')
      have at': "node_at (s @ t @ [slash]) (root_node rt) = Some k'" using at k Some by (simp add: node_at_append [of "s @ t" "[slash]", simplified])
      have h2: "try_node m toks k' (Suc (length ds)) =
          map_option (\<lambda>rh. (rh, drop (Suc (length ds)) toks)) (handles rt m (slash # s @ t @ [slash]) (int (length ?ts)))"
        using try_node_handles [OF v at', of "Suc (length ds)" toks m] lens by simp
      have IH: "find_loop m toks (root_node rt) rlen (i + length t + 1) k' (length (ds @ [t])) (length (List.hd ?ts) - 1) (join_toks ?ts) =
          first_match rt m toks (stops (slash # s @ t @ [slash]) ?ts)"
        by (rule "3.IH" [OF _ _ _ at']) (use 3 in auto)
      have sl: "find_loop m toks (root_node rt) rlen (i + length t) k (length ds) 0 (slash # join_toks ?ts) =
          (case try_node m toks k' (Suc (length ds)) of Some res \<Rightarrow> Some res
           | None \<Rightarrow> first_match rt m toks (stops (slash # s @ t @ [slash]) ?ts))"
        using find_loop_slash [of "i + length t" "length ds" toks m "root_node rt" rlen k 0 "join_toks ?ts"] \<open>0 < i\<close> lens Some IH
        by (simp cong: option.case_cong)
      show ?thesis using tok k h1 h2 len sl lens by (auto simp: Let_def split: option.split)
    qed
  qed
qed simp

definition checkpoints :: "byte list list \<Rightarrow> (byte list \<times> nat) list" where
  "checkpoints ts = ([slash], length ts) # stops [slash] ts"

lemma fields_join_toks: "\<forall>t \<in> set ts. tok_ok t \<Longrightarrow> filter (\<lambda>f. f \<noteq> []) (Kore_Str.fields [slash] (join_toks ts)) = ts"
  by (induction ts rule: join_toks.induct) (auto simp: tok_ok_def fields_single fields_join)

lemma split_path: "\<forall>t \<in> set ts. tok_ok t \<Longrightarrow> kore_split_string (path_text ts) [slash] ele = take (ele - 1) ts"
  by (simp add: kore_split_string_def split_loop_fields path_text_def fields_join_toks)

lemma Router_find_checkpoints:
  assumes "rooted rt" "\<forall>t \<in> set ts. tok_ok t" "length ts < ele"
  shows "Router_find rt m (path_text ts) ele = first_match rt m ts (checkpoints ts)"
proof -
  have s: "kore_split_string (path_text ts) [slash] ele = ts" using split_path [OF assms(2)] assms(3) by simp
  have root: "node_at [] (root_node rt) = Some (root_node rt)" by simp
  show ?thesis
  proof (cases ts)
    case Nil
    have "try_node m [] (root_node rt) 1 = map_option (\<lambda>rh. (rh, [])) (handles rt m [slash] 0)"
      by (auto simp: try_node_def handles_node [OF assms(1)] split: option.split)
    then show ?thesis using s Nil
      by (auto simp: Router_find_def path_text_def checkpoints_def find_loop.simps Let_def split: option.split)
  next
    case (Cons t us)
    let ?l = "length (path_text ts)"
    have j: "join_toks ts \<noteq> []" using Cons assms(2) by (cases us) (auto simp: tok_ok_def)
    have loop: "find_loop m ts (root_node rt) ?l 1 (root_node rt) (length ([] :: byte list list)) (length (List.hd ts) - 1) (join_toks ts) =
        first_match rt m ts (stops (slash # []) ts)"
      by (rule find_loop_stops [OF assms(1)]) (use Cons assms(2) in \<open>simp_all add: path_text_def\<close>)
    have t0: "try_node m ts (root_node rt) 0 = map_option (\<lambda>rh. (rh, ts)) (handles rt m [slash] (int (length ts)))"
      using try_node_handles [OF assms(1) root, of 0 ts m] by simp
    have "Router_find rt m (path_text ts) ele =
        find_loop m ts (root_node rt) ?l 0 (root_node rt) 0 (length t) (slash # join_toks ts)"
      unfolding Router_find_def Let_def s by (simp add: Cons path_text_def)
    also have "\<dots> = (case try_node m ts (root_node rt) 0 of Some res \<Rightarrow> Some res
        | None \<Rightarrow> find_loop m ts (root_node rt) ?l 1 (root_node rt) 0 (length t - 1) (join_toks ts))"
      using j by (simp add: find_loop.simps Let_def path_text_def cong: option.case_cong)
    finally show ?thesis using t0 loop Cons by (auto simp: checkpoints_def split: option.split)
  qed
qed

section \<open>Registered routes are found\<close>

text \<open>The text of a route: fixed components, then parameters.\<close>

fun param_text :: "byte list list \<Rightarrow> byte list" where
  "param_text [] = []"
| "param_text [x] = colon # x"
| "param_text (x # xs) = colon # x @ slash # param_text xs"

definition route_prefix :: "byte list list \<Rightarrow> byte list list \<Rightarrow> byte list" where
  "route_prefix ps xs = (if ps = [] then [slash] else if xs = [] then path_text ps else path_text ps @ [slash])"

definition route_text :: "byte list list \<Rightarrow> byte list list \<Rightarrow> byte list" where
  "route_text ps xs = route_prefix ps xs @ param_text xs"

fun slashed :: "byte list list \<Rightarrow> byte list list" where
  "slashed [] = []"
| "slashed [x] = [x]"
| "slashed (x # xs) = (x @ [slash]) # slashed xs"

lemma slashed_length [simp]: "length (slashed xs) = length xs"
  by (induction xs rule: slashed.induct) auto

lemma param_name_slash: "slash \<notin> set x \<Longrightarrow> param_name (x @ [slash]) = x" "slash \<notin> set x \<Longrightarrow> param_name x = x"
  unfolding param_name_def by (induction x) auto

lemma slashed_names: "\<forall>x \<in> set xs. tok_ok x \<Longrightarrow> map param_name (slashed xs) = xs"
  by (induction xs rule: slashed.induct) (auto simp: param_name_slash tok_ok_def)

lemma slash_colon [simp]: "slash \<noteq> colon" "colon \<noteq> slash"
  by (simp_all add: slash_def colon_def)

lemma fields_params: "\<forall>x \<in> set xs. tok_ok x \<and> colon \<notin> set x \<Longrightarrow> colon \<notin> set p \<Longrightarrow> Kore_Str.fields [colon] (p @ param_text xs) = p # slashed xs"
proof (induction xs arbitrary: p rule: slashed.induct)
  case (2 x)
  then show ?case by (simp add: fields_join fields_single)
next
  case (3 x y ys)
  have "Kore_Str.fields [colon] ((x @ [slash]) @ param_text (y # ys)) = (x @ [slash]) # slashed (y # ys)"
    by (rule "3.IH") (use 3 in auto)
  then show ?case using 3 by (simp add: fields_join)
qed (simp add: fields_single)

lemma slashed_nonempty: "\<forall>x \<in> set xs. tok_ok x \<Longrightarrow> filter (\<lambda>f. f \<noteq> []) (slashed xs) = slashed xs"
  by (induction xs rule: slashed.induct) (auto simp: tok_ok_def)

lemma colon_free_join: "\<forall>t \<in> set ts. colon \<notin> set t \<Longrightarrow> colon \<notin> set (join_toks ts)"
  using slash_colon by (induction ts rule: join_toks.induct) auto

lemma split_route:
  assumes "\<forall>t \<in> set ps. colon \<notin> set t" "\<forall>x \<in> set xs. tok_ok x \<and> colon \<notin> set x" "length xs < 255"
  shows "kore_split_string (route_text ps xs) [colon] 256 = route_prefix ps xs # slashed xs"
proof -
  have "colon \<notin> set (route_prefix ps xs)" "route_prefix ps xs \<noteq> []"
    using colon_free_join [OF assms(1)] slash_colon by (auto simp: route_prefix_def path_text_def)
  then show ?thesis
    using fields_params [OF assms(2)] slashed_nonempty [of xs] assms(2,3)
    by (simp add: kore_split_string_def split_loop_fields route_text_def)
qed

lemma stops_last: "ts \<noteq> [] \<Longrightarrow> (pre @ join_toks ts, 0) \<in> set (stops pre ts)"
  by (induction pre ts rule: stops.induct) auto

lemma stops_mid: "ps \<noteq> [] \<Longrightarrow> vs \<noteq> [] \<Longrightarrow> (pre @ join_toks ps @ [slash], length vs) \<in> set (stops pre (ps @ vs))"
proof (induction ps arbitrary: pre rule: join_toks.induct)
  case (2 t)
  then show ?case by (cases vs) auto
next
  case (3 t u us)
  then show ?case using "3.IH" [of "pre @ t @ [slash]"] by simp
qed simp

lemma route_checkpoint:
  assumes "length vs = length xs"
  shows "(route_prefix ps xs, length vs) \<in> set (checkpoints (ps @ vs))"
  using assms stops_last [of ps "[slash]"] stops_mid [of ps vs "[slash]"]
  by (cases "ps = []"; cases "vs = []") (auto simp: route_prefix_def checkpoints_def path_text_def)

lemma first_match_new:
  assumes "first_match rt m ts ss = None" "(p, n) \<in> set ss"
    and "\<And>q k. handles rt' m q k = (if q = p \<and> k = int n then Some new else handles rt m q k)"
  shows "first_match rt' m ts ss = Some (new, drop (length ts - n) ts)"
  using assms(1,2)
proof (induction ss)
  case (Cons s ss)
  obtain q k where s: "s = (q, k)" by (cases s)
  show ?case using Cons s assms(3) [of q "int k"] by (auto split: option.splits if_splits)
qed simp

section \<open>Paths with a slash at the end\<close>

lemma try_node_params:
  assumes "try_node m toks n i = Some (rh, vs)" "i < length toks"
  shows "rh_nparams rh \<noteq> 0"
proof -
  obtain r where "Route_find r m (int (length toks) - int i) = Some rh"
    using assms by (cases toks) (auto simp: try_node_def Let_def split: option.splits)
  then have "int (length toks) - int i = uint (rh_nparams rh)"
    by (auto simp: Route_find_def find_Some_iff split: if_splits)
  then show ?thesis using assms(2) by auto
qed

lemma find_loop_trailing:
  "find_loop m toks root rlen i n itok tlen cs = Some (rh, vs) \<Longrightarrow> last cs = slash \<Longrightarrow> itok < length toks \<Longrightarrow>
    i + length cs = rlen \<Longrightarrow> 1 < rlen \<Longrightarrow> rh_nparams rh \<noteq> 0"
proof (induction cs arbitrary: i n itok tlen)
  case (Cons c cs)
  obtain k where k: "(if i = 0 then Some root else Node_get n c) = Some k"
    using Cons.prems(1) by (cases "if i = 0 then Some root else Node_get n c") (auto simp: find_loop.simps)
  have IH: "rh_nparams rh \<noteq> 0" if "find_loop m toks root rlen (i + 1) k itok' tlen' cs = Some (rh, vs)" "itok' < length toks" for itok' tlen'
    using Cons.IH [OF that(1) _ that(2)] Cons.prems that by (cases "cs = []") auto
  have here: "rh_nparams rh \<noteq> 0"
    if "(case try_node m toks k itok' of Some res \<Rightarrow> Some res | None \<Rightarrow> find_loop m toks root rlen (i + 1) k itok' tlen' cs) = Some (rh, vs)"
      "itok' < length toks" for itok' tlen'
    using that IH try_node_params [of m toks k itok'] by (auto split: option.splits)
  consider "i \<noteq> 0" "c = slash" | "c \<noteq> slash \<or> i = 0" "c = slash \<or> tlen = 0" | "c \<noteq> slash" "tlen \<noteq> 0" by blast
  then show ?case
  proof cases
    case 1
    then show ?thesis using Cons.prems(1) k here [of "itok + 1"] by (auto simp: find_loop.simps split: if_splits)
  next
    case 2
    then have "i \<noteq> rlen - 1" using Cons.prems by (cases "cs = []") auto
    then show ?thesis using 2 Cons.prems(1,3) k here [of itok] by (auto simp: find_loop.simps Let_def split: if_splits)
  next
    case 3
    then show ?thesis using Cons.prems(1,3) k IH [of itok] by (auto simp: find_loop.simps split: if_splits)
  qed
qed simp

lemma split_nonempty:
  assumes "c \<in> set p" "c \<notin> set d" "1 < ele"
  shows "kore_split_string p d ele \<noteq> []"
proof -
  have "\<exists>f \<in> set (Kore_Str.fields d p). f \<noteq> []" using assms(1,2)
    by (induction p) (auto split: list.splits)
  then have "filter (\<lambda>f. f \<noteq> []) (Kore_Str.fields d p) \<noteq> []" by (auto simp: filter_empty_conv)
  then show ?thesis using assms(3) by (simp add: kore_split_string_def split_loop_fields)
qed

section \<open>Properties\<close>


text \<open>(C25) Registration and resolution: registering a route of fixed components followed by parameters on a sound router, when
  the method and number of parameters are still free there, succeeds and keeps the router sound; every path that fits the route and was
  not answered before is then answered by the new handler, and each parameter has the component at its place.\<close>

theorem router_register_resolve:
  assumes "router_ok rt" and "m < 32" and "\<forall>t \<in> set ps. tok_ok t \<and> colon \<notin> set t" and "\<forall>x \<in> set xs. tok_ok x \<and> colon \<notin> set x"
    and "distinct xs" and "length vs = length xs" and "\<forall>v \<in> set vs. tok_ok v" and "length ps + length vs < 16"
    and "handles rt m (route_prefix ps xs) (int (length xs)) = None" and "resolveRoute rt m (path_text (ps @ vs)) = None"
  shows "\<exists>rt' rh. Router_add rt m (route_text ps xs) (Some h) ct tr d = Inr (True, rt') \<and> router_ok rt' \<and>
    resolveRoute rt' m (path_text (ps @ vs)) = Some (rh, vs) \<and> rh_h rh = Some h \<and> rh_prefix rh = route_prefix ps xs \<and>
    (\<forall>i < length xs. request_param (rh, vs) (xs ! i) = Some (vs ! i))"
proof -
  let ?p = "route_prefix ps xs" and ?n = "length xs" and ?ts = "ps @ vs"
  obtain cs where cs: "?p = slash # cs"
    by (cases "ps = []"; cases "xs = []") (simp_all add: route_prefix_def path_text_def)
  have sp: "kore_split_string (route_text ps xs) [colon] 256 = (slash # cs) # slashed xs"
    using split_route [of ps xs] assms(3,4,6,8) cs by auto
  have l31: "length (slashed xs) < 31" using assms(6,8) by simp
  let ?new = "new_handler m (route_text ps xs) (slash # cs) (slashed xs) (Some h) ct tr d"
  obtain rt' where rt': "Router_add rt m (route_text ps xs) (Some h) ct tr d = Inr (True, rt')" "router_ok rt'"
      "\<And>q k. handles rt' m q k = (if q = ?p \<and> k = int ?n then Some ?new else handles rt m q k)"
    using Router_add_step [OF assms(1,2) sp l31, of "Some h" ct tr d] assms(2,9) cs by auto
  have tk: "\<forall>t \<in> set ?ts. tok_ok t" and l16: "length ?ts < 16" using assms(3,7,8) by auto
  have f: "resolveRoute x m (path_text ?ts) = first_match x m ?ts (checkpoints ?ts)" if "router_ok x" for x
    using Router_find_checkpoints [of x ?ts 16 m] that tk l16 by (simp add: resolveRoute_def router_ok_def)
  have "first_match rt m ?ts (checkpoints ?ts) = None" using assms(10) f [OF assms(1)] by simp
  then have "first_match rt' m ?ts (checkpoints ?ts) = Some (?new, drop (length ?ts - ?n) ?ts)"
    by (rule first_match_new [OF _ _ rt'(3)]) (use route_checkpoint [OF assms(6), of ps] assms(6) in simp)
  then have res: "resolveRoute rt' m (path_text ?ts) = Some (?new, vs)" using f [OF rt'(2)] assms(6) by simp
  have names: "rh_params ?new = xs" using slashed_names [of xs] assms(4) by (auto simp: new_handler_def)
  have look: "param_loop ys us (ys ! i) = Some (us ! i)" if "distinct ys" "length us = length ys" "i < length ys" for ys us :: "byte list list" and i
    using that
  proof (induction ys arbitrary: us i)
    case (Cons y ys)
    then show ?case by (cases us; cases i) auto
  qed simp
  have "request_param (?new, vs) (xs ! i) = Some (vs ! i)" if "i < length xs" for i
    using look [OF assms(5,6) that] names by (simp add: request_param_def)
  then show ?thesis using rt'(1,2) res cs by (intro exI [of _ rt'] exI [of _ ?new]) (simp add: new_handler_def)
qed

text \<open>A path that ends in a slash (and is more than slashes) is never answered by a handler without parameters. So a
  route such as \<open>/user/\<close>, which registers without complaint, does not answer requests for its own path.\<close>

theorem router_trailing_slash:
  assumes "resolveRoute rt m p = Some (rh, vs)" and "p \<noteq> []" and "last p = slash" and "\<exists>c \<in> set p. c \<noteq> slash"
  shows "rh_nparams rh \<noteq> 0"
proof -
  let ?toks = "kore_split_string p [slash] 16"
  have "?toks \<noteq> []" using assms(4) split_nonempty [of _ p "[slash]" 16] by auto
  moreover have "1 < length p" using assms(2-4) by (cases p; cases "tl p") auto
  ultimately show ?thesis
    using find_loop_trailing [of m ?toks "root_node rt" "length p" 0 "root_node rt" 0 _ p rh vs] assms(1,3)
    by (auto simp: resolveRoute_def Router_find_def Let_def)
qed

text \<open>What follows a parameter up to the next one is dropped: the route \<open>/u/:id/edit\<close> is the route \<open>/u/:id\<close>, whatever the
  router.\<close>

theorem router_add_drops_tail:
  assumes "colon \<notin> set p" and "p \<noteq> []" and "x \<noteq> []" and "colon \<notin> set x" and "slash \<notin> set x" and "colon \<notin> set s"
  shows "Router_add rt m (p @ colon # x @ slash # s) hh ct tr d = Router_add rt m (p @ colon # x) hh ct tr d"
proof -
  have k: "kore_split_string (p @ colon # y) [colon] 256 = [p, y]" if "y \<noteq> []" "colon \<notin> set y" for y
    using that assms(1,2) by (simp add: kore_split_string_def split_loop_fields fields_join fields_single)
  have s: "kore_split_string (p @ colon # x @ slash # s) [colon] 256 = [p, x @ slash # s]" using k [of "x @ slash # s"] assms by simp
  have "param_name (x @ slash # s) = x" "param_name x = x"
    using assms(5) unfolding param_name_def by (induction x) auto
  moreover have "takeWhile (\<lambda>c. c \<noteq> colon) (p @ colon # y) = p" for y using assms(1) by (induction p) auto
  ultimately have e: "map param_name [x @ slash # s] = [x]" "map param_name [x] = [x]" "int (length [x @ slash # s]) = int (length [x])"
    "takeWhile (\<lambda>c. c \<noteq> colon) (p @ colon # y) = p" for y by simp_all
  show ?thesis unfolding Router_add_def Let_def s k [OF assms(3,4)] list.case(2) e by simp
qed

text \<open>A route of 32 or more tokens is stored outside the array of 32: the size of the array in bytes is passed as its number of
  slots.\<close>

theorem router_add_overruns:
  assumes "colon \<notin> set p" and "p \<noteq> []" and "\<forall>x \<in> set xs. tok_ok x \<and> colon \<notin> set x" and "31 \<le> length xs"
  shows "Router_add rt m (p @ param_text xs) hh ct tr d = Inl Out_of_bounds"
proof -
  have "kore_split_string (p @ param_text xs) [colon] 256 = take 255 (p # slashed xs)"
    using fields_params [OF assms(3,1)] slashed_nonempty [of xs] assms(2,3) by (simp add: kore_split_string_def split_loop_fields)
  then have "32 \<le> length (kore_split_string (p @ param_text xs) [colon] 256)" using assms(4) by simp
  then show ?thesis by (simp add: Router_add_def)
qed


theorem router_register_resolve_witness:
  "\<exists>rt' rh. Router_add Router 0 (route_text [bs ''users''] [bs ''name'', bs ''age'']) (Some 1) None None None = Inr (True, rt') \<and> router_ok rt' \<and>
    resolveRoute rt' 0 (path_text ([bs ''users''] @ [bs ''jo'', bs ''30''])) = Some (rh, [bs ''jo'', bs ''30'']) \<and> rh_h rh = Some 1 \<and>
    rh_prefix rh = route_prefix [bs ''users''] [bs ''name'', bs ''age''] \<and>
    (\<forall>i < length [bs ''name'', bs ''age'']. request_param (rh, [bs ''jo'', bs ''30'']) ([bs ''name'', bs ''age''] ! i) = Some ([bs ''jo'', bs ''30''] ! i))"
proof (rule router_register_resolve [OF Router_ok(1)])
  have "first_match Router 0 ts ss = None" for ts ss by (induction ss) (auto simp: Router_ok)
  then show "resolveRoute Router 0 (path_text ([bs ''users''] @ [bs ''jo'', bs ''30''])) = None"
    using Router_find_checkpoints [of Router "[bs ''users''] @ [bs ''jo'', bs ''30'']" 16 0] Router_ok(1)
    by (simp add: resolveRoute_def router_ok_def tok_ok_def slash_def bs_def)
qed (simp_all add: Router_ok tok_ok_def slash_def colon_def bs_def)

text \<open>A router on which a path with a slash at its end has an answer: the component before the slash is taken for the parameter.\<close>

definition odd_router :: router where
  "odd_router = \<lparr>root_node = Node slash None [Node 97 (Some (Route_add (Route [slash, 97]) 0 [[98]] 1 (\<lambda>rh. rh))) []], router_depth = 2\<rparr>"

lemma odd_router_answers:
  "resolveRoute odd_router 0 [slash, 97, slash] = Some (List.hd (rt_handlers (Route_add (Route [slash, 97]) 0 [[98]] 1 (\<lambda>rh. rh))), [[97]])"
  by (simp add: resolveRoute_def Router_find_def odd_router_def kore_split_string_def split_loop_fields find_loop.simps try_node_def slash_def
      Route_find_def Route_add_def Route_def Let_def)

theorem router_trailing_slash_witness:
  "rh_nparams (List.hd (rt_handlers (Route_add (Route [slash, 97]) 0 [[98]] 1 (\<lambda>rh. rh)))) \<noteq> 0"
  by (rule router_trailing_slash [OF odd_router_answers]) (simp_all add: slash_def)

theorem router_add_drops_tail_witness:
  "Router_add Router 0 (bs ''/u/'' @ colon # bs ''id'' @ slash # bs ''edit'') (Some 1) None None None =
    Router_add Router 0 (bs ''/u/'' @ colon # bs ''id'') (Some 1) None None None"
  by (rule router_add_drops_tail) (simp_all add: colon_def slash_def bs_def)

theorem router_add_overruns_witness:
  "Router_add Router 0 ([slash] @ param_text (replicate 31 [97])) None None None None = Inl Out_of_bounds"
  by (rule router_add_overruns) (simp_all add: colon_def slash_def tok_ok_def)

end
