(* ===== verification/Sparc_App.thy ===== *)
theory Sparc_App
  imports Sparc_Router Http_Conn
begin

text \<open>
  The handling of a request in the C++ layer: \<open>HttpResponse\<close> of \<open>sparc/detail/response.cpp\<close>, the static files of
  \<open>sparc/detail/static_file.cpp\<close>, and \<open>App::handle\<close>, \<open>App::completeRequest\<close>, the filters (\<open>callFidecs\<close>) and the call of the
  page handler in \<open>sparc/detail/app.cpp\<close>.

  Page handlers, filters and transformers are functions of the application. They get the state \<open>'u\<close> of the application, the
  request included, and the response, and they return a number, halt or throw. What the response sends is
  noted in \<open>rs_sent\<close>, one entry for each call of \<open>http_response\<close>. Buffers are the lists they stand for.
\<close>

section \<open>Responses\<close>

record http_cookie =
  ck_name :: "byte list"
  ck_value :: "byte list"
  ck_path :: "byte list option"
  ck_domain :: "byte list option"
  ck_expiry :: int
  ck_secure :: bool

record response =
  rs_status :: int
  rs_ended :: bool
  rs_body :: "byte list"
  rs_cookies :: "http_cookie list"
  rs_headers :: "http_header list"
  rs_sent :: "(int \<times> http_header list \<times> byte list) list"

definition OK :: int where "OK = 200"
definition NOT_MODIFIED :: int where "NOT_MODIFIED = 304"
definition NOT_FOUND :: int where "NOT_FOUND = 404"
definition INTERNAL_ERROR :: int where "INTERNAL_ERROR = 500"

definition HttpResponse :: response where
  "HttpResponse = \<lparr>rs_status = OK, rs_ended = False, rs_body = [], rs_cookies = [], rs_headers = [], rs_sent = []\<rparr>"

definition resp_header :: "response \<Rightarrow> byte list \<Rightarrow> byte list \<Rightarrow> response" where
  "resp_header r name val = r\<lparr>rs_headers := rs_headers r @ [\<lparr>hdr_header = name, hdr_value = val\<rparr>]\<rparr>"

definition resp_body :: "response \<Rightarrow> byte list \<Rightarrow> response" where
  "resp_body r s = r\<lparr>rs_body := s\<rparr>"

definition resp_append :: "response \<Rightarrow> byte list \<Rightarrow> response" where
  "resp_append r s = r\<lparr>rs_body := rs_body r @ s\<rparr>"

text \<open>A cookie that exists keeps its path and domain.\<close>

fun cookie_set :: "http_cookie \<Rightarrow> http_cookie list \<Rightarrow> http_cookie list" where
  "cookie_set c [] = [c]"
| "cookie_set c (i # is) =
     (if ck_name i = ck_name c then i\<lparr>ck_value := ck_value c, ck_expiry := ck_expiry c, ck_secure := ck_secure c\<rparr> # is
      else i # cookie_set c is)"

definition resp_cookie :: "response \<Rightarrow> byte list \<Rightarrow> byte list \<Rightarrow> byte list option \<Rightarrow> byte list option \<Rightarrow> int \<Rightarrow> bool \<Rightarrow> response" where
  "resp_cookie r name val path domain expire secure =
     r\<lparr>rs_cookies := cookie_set \<lparr>ck_name = name, ck_value = val, ck_path = path, ck_domain = domain, ck_expiry = expire,
        ck_secure = secure\<rparr> (rs_cookies r)\<rparr>"

fun cookie_erase :: "byte list \<Rightarrow> http_cookie list \<Rightarrow> http_cookie list" where
  "cookie_erase name [] = []"
| "cookie_erase name (c # cs) = (if ck_name c = name then cs else c # cookie_erase name cs)"

definition resp_removeCookie :: "response \<Rightarrow> byte list \<Rightarrow> response" where
  "resp_removeCookie r name = r\<lparr>rs_cookies := cookie_erase name (rs_cookies r)\<rparr>"

definition resp_find_header :: "response \<Rightarrow> byte list \<Rightarrow> byte list option" where
  "resp_find_header r name = map_option hdr_value (List.find (\<lambda>h. strcaseeq (hdr_header h) name) (rs_headers r))"

fun retype :: "byte list \<Rightarrow> http_header list \<Rightarrow> http_header list option" where
  "retype t [] = None"
| "retype t (h # hs) =
     (if strcaseeq (hdr_header h) (bs ''Content-Type'') then Some (h\<lparr>hdr_value := t\<rparr> # hs)
      else map_option (\<lambda>hs'. h # hs') (retype t hs))"

definition resp_type :: "response \<Rightarrow> byte list \<Rightarrow> response" where
  "resp_type r t = (case retype t (rs_headers r) of Some hs \<Rightarrow> r\<lparr>rs_headers := hs\<rparr> | None \<Rightarrow> resp_header r (bs ''Content-Type'') t)"

definition resp_redirect :: "response \<Rightarrow> byte list \<Rightarrow> int \<Rightarrow> response" where
  "resp_redirect r location status =
     (resp_header (resp_header (r\<lparr>rs_status := status\<rparr>) (bs ''Location'') location) (bs ''Connection'') (bs ''close''))\<lparr>rs_body := []\<rparr>"

definition resp_status :: "response \<Rightarrow> int \<Rightarrow> response" where
  "resp_status r s = (if s \<noteq> 0 \<and> s > OK then r\<lparr>rs_status := s\<rparr> else r)"

text \<open>The text of a cookie. The expiry time is printed with \<open>%d\<close>, here its low 32 bits.\<close>

definition dec32 :: "int \<Rightarrow> byte list" where
  "dec32 i = dec_int (sint (word_of_int i :: u32))"

definition cookie_line :: "http_cookie \<Rightarrow> byte list" where
  "cookie_line c = ck_name c @ bs ''='' @ ck_value c @ bs ''; '' @
     (case ck_domain c of Some d \<Rightarrow> bs ''Domain='' @ d @ bs ''; '' | None \<Rightarrow> []) @
     (case ck_path c of Some p \<Rightarrow> bs ''Domain='' @ p @ bs ''; '' | None \<Rightarrow> []) @
     (if ck_secure c then bs ''Secure; '' else []) @
     (if ck_expiry c \<noteq> 0 then bs ''Max-Age='' @ dec32 (ck_expiry c) else [])"

text \<open>\<open>flushCookies\<close>: the buffer \<open>cbuf\<close> is made once. \<open>kore_buf_stringify\<close> puts a NUL at its end unless there is one, and
  the header is the string at its start.\<close>

fun flush_loop :: "byte list \<Rightarrow> http_cookie list \<Rightarrow> response \<Rightarrow> response" where
  "flush_loop cbuf [] r = r"
| "flush_loop cbuf (c # cs) r =
     (let b = cbuf @ cookie_line c; b0 = (if last b = 0 then b else b @ [0]) in
      flush_loop b0 cs (resp_header r (bs ''Set-Cookie'') (takeWhile (\<lambda>x. x \<noteq> 0) b0)))"

definition flushCookies :: "response \<Rightarrow> response" where
  "flushCookies r = flush_loop [] (rs_cookies r) (r\<lparr>rs_cookies := []\<rparr>)"

text \<open>\<open>end\<close> with \<open>data\<close>, or with the body for \<open>NULL\<close>.\<close>

definition resp_end :: "response \<Rightarrow> int \<Rightarrow> byte list option \<Rightarrow> response" where
  "resp_end r status d =
     (if rs_ended r then r
      else let r1 = flushCookies (r\<lparr>rs_status := status\<rparr>); out = (case d of Some b \<Rightarrow> b | None \<Rightarrow> rs_body r1) in
        r1\<lparr>rs_sent := rs_sent r1 @ [(status, rs_headers r1, out)], rs_ended := True, rs_body := []\<rparr>)"

definition resp_flush :: "response \<Rightarrow> response" where
  "resp_flush r = resp_end r (rs_status r) None"

text \<open>\<open>operator<<\<close> of a JSON value with text \<open>json\<close> (\<open>None\<close> when encoding fails).\<close>

definition resp_json :: "response \<Rightarrow> byte list option \<Rightarrow> response" where
  "resp_json r json =
     (if \<not> rs_ended r \<and> rs_body r = [] then (case json of Some t \<Rightarrow> r\<lparr>rs_body := rs_body r @ t\<rparr> | None \<Rightarrow> r) else r)"

section \<open>Static files\<close>

record static_file =
  sf_path :: "byte list"
  sf_content_type :: "byte list"
  sf_data :: "byte list"
  sf_last_mod :: int

text \<open>The file system (modification time and contents of a regular file that can be read) and the conversions of dates are
  parameters.\<close>

record static_env =
  st_file :: "byte list \<Rightarrow> (int \<times> byte list) option"
  st_load :: "byte list \<Rightarrow> bool"
  st_date_to_time :: "byte list \<Rightarrow> int"
  st_time_to_date :: "int \<Rightarrow> byte list"

record static_router =
  base_dir :: "byte list"
  sr_files :: "(byte list \<rightharpoonup> static_file)"
  sr_expires :: int
  sr_headers :: "http_header list"

definition ends_in :: "byte list \<Rightarrow> string \<Rightarrow> bool" where
  "ends_in d s \<longleftrightarrow> strcaseeq d (bs s)"

definition getContentType :: "byte list \<Rightarrow> byte list" where
  "getContentType path =
     (case strchr path (ch (CHR ''.'')) of
        None \<Rightarrow> bs ''text/plain''
      | Some dot \<Rightarrow>
          let d = drop 1 dot in
          if ends_in d ''html'' then bs ''text/html'' else if ends_in d ''json'' then bs ''application/json''
          else if ends_in d ''pdf'' then bs ''application/pdf'' else if ends_in d ''png'' then bs ''image/png''
          else if ends_in d ''jpeg'' then bs ''image/jpeg'' else if ends_in d ''jpg'' then bs ''image/jpg''
          else if ends_in d ''gif'' then bs ''image/gif'' else if ends_in d ''bmp'' then bs ''image/bmp''
          else if ends_in d ''css'' then bs ''text/css'' else if ends_in d ''js'' then bs ''text/javascript''
          else bs ''text/plain'')"

fun static_header_set :: "byte list \<Rightarrow> byte list \<Rightarrow> http_header list \<Rightarrow> http_header list" where
  "static_header_set name val [] = [\<lparr>hdr_header = name, hdr_value = val\<rparr>]"
| "static_header_set name val (h # hs) =
     (if strcaseeq name (hdr_header h) then h\<lparr>hdr_value := val\<rparr> # hs else h # static_header_set name val hs)"

definition static_header :: "static_router \<Rightarrow> byte list \<Rightarrow> byte list \<Rightarrow> static_router" where
  "static_header sr name val = sr\<lparr>sr_headers := static_header_set name val (sr_headers sr)\<rparr>"

text \<open>\<open>loadFile\<close> and \<open>reloadFile\<close>, and the lookup; the path of the file is cut to what fits a buffer of 256 bytes. \<open>last_access\<close> is only
  written, and so left out.\<close>

definition loadFile :: "static_env \<Rightarrow> byte list \<Rightarrow> byte list \<Rightarrow> int \<times> byte list \<Rightarrow> static_file option" where
  "loadFile env full path st =
     (if st_load env full
      then Some \<lparr>sf_path = path, sf_content_type = getContentType full, sf_data = snd st, sf_last_mod = fst st\<rparr> else None)"

definition reloadFile :: "static_env \<Rightarrow> byte list \<Rightarrow> static_file \<Rightarrow> int \<times> byte list \<Rightarrow> static_file option" where
  "reloadFile env full sf st = (if st_load env full then Some (sf\<lparr>sf_data := snd st, sf_last_mod := fst st\<rparr>) else None)"

definition static_find :: "static_env \<Rightarrow> static_router \<Rightarrow> byte list \<Rightarrow> static_file option \<times> static_router" where
  "static_find env sr path =
     (let sfp = (if path = bs ''/'' then bs ''index.html'' else path); full = take 255 (base_dir sr @ sfp) in
      case st_file env full of
        None \<Rightarrow> (None, sr)
      | Some st \<Rightarrow>
          (case sr_files sr sfp of
             None \<Rightarrow>
               (case loadFile env full path st of
                  None \<Rightarrow> (None, sr)
                | Some sf \<Rightarrow> (Some sf, sr\<lparr>sr_files := (sr_files sr)(path \<mapsto> sf)\<rparr>))
           | Some sf \<Rightarrow>
               if sf_last_mod sf \<noteq> fst st then
                 (case reloadFile env full sf st of
                    None \<Rightarrow> (None, sr\<lparr>sr_files := (sr_files sr)(sfp := None)\<rparr>)
                  | Some sf1 \<Rightarrow> (Some sf1, sr\<lparr>sr_files := (sr_files sr)(sfp \<mapsto> sf1)\<rparr>))
               else (Some sf, sr)))"

fun add_static_headers :: "http_header list \<Rightarrow> response \<Rightarrow> response" where
  "add_static_headers [] r = r"
| "add_static_headers (h # hs) r = add_static_headers hs (resp_header r (hdr_header h) (hdr_value h))"

text \<open>\<open>modified_since\<close> is the header of the request.\<close>

definition applyHeaders :: "static_env \<Rightarrow> static_router \<Rightarrow> byte list option \<Rightarrow> response \<Rightarrow> static_file \<Rightarrow> int \<times> response" where
  "applyHeaders env sr modified_since r sf =
     (let cache = (case strchr (sf_path sf) (ch (CHR ''.'')) of None \<Rightarrow> False | Some dot \<Rightarrow> \<not> strcaseeq (bs ''.html'') dot) in
      if cache \<and> (case modified_since of None \<Rightarrow> False | Some d \<Rightarrow> st_date_to_time env d \<ge> sf_last_mod sf) then (NOT_MODIFIED, r)
      else
        let r1 = (if cache then
                    let r0 = resp_header r (bs ''Last-Modified'') (st_time_to_date env (sf_last_mod sf)) in
                    if sr_expires sr > 0 then resp_header r0 (bs ''Cache-Control'') (bs ''public, max-age='' @ dec_int (sr_expires sr)) else r0
                  else r) in
        (OK, add_static_headers (sr_headers sr) r1))"

section \<open>Filters and handlers\<close>

definition CONTINUE :: int where "CONTINUE = 1"
definition ABORT :: int where "ABORT = 0"
definition SKIP_FLUSH :: int where "SKIP_FLUSH = 2"
definition ASYNC :: int where "ASYNC = 3"

text \<open>How a function of the application ends: it returns, throws a \<open>HaltException\<close> with a 16-bit status and a message, or another
  exception.\<close>

datatype outcome = Returns int | Halts u16 "byte list" | Throws

type_synonym 'u page = "'u \<Rightarrow> response \<Rightarrow> outcome \<times> 'u \<times> response"

record 'u fidec =
  fd_match :: "byte list option"
  fd_h :: "'u page"

definition halt_status :: "u16 \<Rightarrow> int" where
  "halt_status st = (if uint st < OK then INTERNAL_ERROR else uint st)"

text \<open>A filter applies to routes whose prefix starts with its text.\<close>

definition fidec_matches :: "'u fidec \<Rightarrow> byte list \<Rightarrow> bool" where
  "fidec_matches fc pre =
     (case fd_match fc of None \<Rightarrow> True | Some t \<Rightarrow> length t \<le> length pre \<and> strncaseeq t pre (length t))"

fun fidec_loop :: "'u fidec list \<Rightarrow> byte list \<Rightarrow> int \<Rightarrow> 'u \<Rightarrow> response \<Rightarrow> int \<times> 'u \<times> response" where
  "fidec_loop [] pre status u r = (status, u, r)"
| "fidec_loop (fc # fcs) pre status u r =
     (if \<not> fidec_matches fc pre then fidec_loop fcs pre status u r
      else case fd_h fc u r of
          (Returns s, u1, r1) \<Rightarrow> if s = ABORT \<or> rs_ended r1 then (s, u1, r1) else fidec_loop fcs pre s u1 r1
        | (Halts st msg, u1, r1) \<Rightarrow> fidec_loop fcs pre ABORT u1 (resp_end r1 (halt_status st) (Some msg))
        | (Throws, u1, r1) \<Rightarrow> (INTERNAL_ERROR, u1, r1))"

definition callFidecs :: "'u fidec list \<Rightarrow> byte list \<Rightarrow> 'u \<Rightarrow> response \<Rightarrow> int \<times> 'u \<times> response" where
  "callFidecs fcs pre u r = fidec_loop fcs pre CONTINUE u r"

definition callRequestHandler :: "'u page option \<Rightarrow> 'u \<Rightarrow> response \<Rightarrow> int \<times> 'u \<times> response" where
  "callRequestHandler h u r =
     (case h of
        None \<Rightarrow> (OK, u, r)
      | Some f \<Rightarrow>
          (case f u r of
             (Returns s, u1, r1) \<Rightarrow> (s, u1, r1)
           | (Halts st msg, u1, r1) \<Rightarrow> (ABORT, u1, resp_end r1 (halt_status st) (Some msg))
           | (Throws, u1, r1) \<Rightarrow> (ABORT, u1, r1)))"

section \<open>The application\<close>

text \<open>The parts of \<open>App\<close> that handle requests. \<open>ap_page\<close> and \<open>ap_transform\<close> give the functions behind the numbers of a route
  handler; a transformer returns a status and the new body.\<close>

record 'u app =
  ap_before :: "'u fidec list"
  ap_after :: "'u fidec list"
  ap_router :: router
  ap_static :: static_router
  ap_page :: "nat \<Rightarrow> 'u page"
  ap_transform :: "nat \<Rightarrow> 'u \<Rightarrow> response \<Rightarrow> int \<times> byte list \<times> 'u \<times> response"

definition addFidec :: "'u app \<Rightarrow> bool \<Rightarrow> 'u fidec \<Rightarrow> 'u app" where
  "addFidec a bf fc = (if bf then a\<lparr>ap_before := ap_before a @ [fc]\<rparr> else a\<lparr>ap_after := ap_after a @ [fc]\<rparr>)"

text \<open>What the after filters decide about the status.\<close>

definition after_status :: "int \<Rightarrow> response \<Rightarrow> response" where
  "after_status ret r =
     (if ret \<ge> OK then resp_status r ret
      else if ret = CONTINUE \<or> ret = SKIP_FLUSH then r
      else resp_status r INTERNAL_ERROR)"

definition completeRequest :: "'u app \<Rightarrow> 'u \<Rightarrow> response \<Rightarrow> route_handler \<Rightarrow> int \<Rightarrow> 'u \<times> response" where
  "completeRequest a u r rh status =
     (case (case rh_transformer rh of
              None \<Rightarrow> (status, u, r)
            | Some k \<Rightarrow> (case ap_transform a k u r of (s, b, u1, r1) \<Rightarrow>
                (s, u1, if s = ABORT then r1 else r1\<lparr>rs_body := b\<rparr>))) of
        (s, u1, r1) \<Rightarrow>
          if rh_transformer rh \<noteq> None \<and> s = ABORT then (u1, resp_flush r1)
          else
            let r2 = (case rh_content_type rh of Some t \<Rightarrow> resp_header r1 (bs ''Content-Type'') t | None \<Rightarrow> r1) in
            (case callFidecs (ap_after a) (rh_prefix rh) u1 (resp_status r2 s) of
               (ret, u3, r3) \<Rightarrow>
                 let r4 = after_status ret r3 in
                 (u3, if ret \<noteq> SKIP_FLUSH then resp_flush r4 else r4)))"

text \<open>A request for a file: there is a dot in the path and no slash behind the first dot.\<close>

definition static_path :: "byte list \<Rightarrow> bool" where
  "static_path path =
     (case strchr path (ch (CHR ''.'')) of None \<Rightarrow> False | Some tok \<Rightarrow> strchr tok (ch (CHR ''/'')) = None)"

text \<open>\<open>async u\<close> says whether the request has states to go on with; then \<open>http_state_run\<close> takes over, and the result is
  \<open>Goes_on\<close>.\<close>

datatype 'u handled = Handled 'u response | Goes_on 'u response

definition app_handle ::
    "'u app \<Rightarrow> static_env \<Rightarrow> byte list \<Rightarrow> ('u \<Rightarrow> bool) \<Rightarrow> nat \<Rightarrow> byte list \<Rightarrow> byte list option \<Rightarrow> 'u \<Rightarrow> 'u app \<times> 'u handled" where
  "app_handle a env version async m path modified_since u =
     (let r = resp_header HttpResponse (bs ''server'') version in
      if static_path path then
        (case static_find env (ap_static a) path of
           (None, sr) \<Rightarrow> (a\<lparr>ap_static := sr\<rparr>, Handled u (resp_flush (resp_end r NOT_FOUND None)))
         | (Some sf, sr) \<Rightarrow>
             (case applyHeaders env sr modified_since (resp_header r (bs ''Content-Type'') (sf_content_type sf)) sf of
                (status, r1) \<Rightarrow>
                  (a\<lparr>ap_static := sr\<rparr>, Handled u (resp_flush
                     (if status = NOT_MODIFIED then resp_end r1 NOT_MODIFIED None else resp_end r1 OK (Some (sf_data sf)))))))
      else
        (case resolveRoute (ap_router a) m path of
           None \<Rightarrow> (a, Handled u (resp_end r NOT_FOUND None))
         | Some (rh, _) \<Rightarrow>
             (case callFidecs (ap_before a) (rh_prefix rh) u r of
                (status, u1, r1) \<Rightarrow>
                  if status = ABORT then (a, Handled u1 (resp_flush r1))
                  else (case callRequestHandler (map_option (ap_page a) (rh_h rh)) u1 r1 of
                      (status2, u2, r2) \<Rightarrow>
                        if status2 = ASYNC then
                          if async u2 then (a, Goes_on u2 r2) else (a, Handled u2 (resp_status r2 INTERNAL_ERROR))
                        else (case completeRequest a u2 r2 rh status2 of (u3, r3) \<Rightarrow> (a, Handled u3 r3))))))"

section \<open>What a response sends\<close>

definition resp_ok :: "response \<Rightarrow> bool" where
  "resp_ok r \<longleftrightarrow> (if rs_ended r then length (rs_sent r) = 1 else rs_sent r = [])"

lemma resp_header_simps [simp]:
  "rs_ended (resp_header r n v) = rs_ended r" "rs_sent (resp_header r n v) = rs_sent r" "rs_status (resp_header r n v) = rs_status r"
  "rs_body (resp_header r n v) = rs_body r" "rs_cookies (resp_header r n v) = rs_cookies r"
  "rs_headers (resp_header r n v) = rs_headers r @ [\<lparr>hdr_header = n, hdr_value = v\<rparr>]"
  by (simp_all add: resp_header_def)

lemma resp_status_simps [simp]:
  "rs_ended (resp_status r s) = rs_ended r" "rs_sent (resp_status r s) = rs_sent r" "rs_body (resp_status r s) = rs_body r"
  "rs_cookies (resp_status r s) = rs_cookies r" "rs_headers (resp_status r s) = rs_headers r"
  by (simp_all add: resp_status_def)

lemma flush_loop_frame [simp]:
  "rs_ended (flush_loop b cs r) = rs_ended r" "rs_sent (flush_loop b cs r) = rs_sent r" "rs_body (flush_loop b cs r) = rs_body r"
  by (induction cs arbitrary: b r) (simp_all add: Let_def)

lemma flushCookies_frame [simp]:
  "rs_ended (flushCookies r) = rs_ended r" "rs_sent (flushCookies r) = rs_sent r" "rs_body (flushCookies r) = rs_body r"
  by (simp_all add: flushCookies_def)

lemma resp_end_ended [simp]: "rs_ended (resp_end r s d)" "rs_ended (resp_flush r)"
  by (simp_all add: resp_end_def resp_flush_def Let_def)

lemma resp_ok_ops [simp]:
  "resp_ok r \<Longrightarrow> resp_ok (resp_header r n v)" "resp_ok r \<Longrightarrow> resp_ok (resp_status r s)" "resp_ok r \<Longrightarrow> resp_ok (resp_end r s d)"
  "resp_ok r \<Longrightarrow> resp_ok (resp_flush r)" "resp_ok r \<Longrightarrow> resp_ok (after_status s r)" "resp_ok r \<Longrightarrow> resp_ok (r\<lparr>rs_body := b\<rparr>)"
  "resp_ok HttpResponse"
  by (auto simp: resp_ok_def resp_end_def resp_flush_def after_status_def HttpResponse_def Let_def)

lemma add_static_headers_ok [simp]: "resp_ok r \<Longrightarrow> resp_ok (add_static_headers hs r)" "rs_ended (add_static_headers hs r) = rs_ended r"
  by (induction hs arbitrary: r) auto

lemma resp_ok_sent: "resp_ok r \<Longrightarrow> rs_ended r \<Longrightarrow> \<exists>s. rs_sent r = [s]"
  by (auto simp: resp_ok_def length_Suc_conv)

section \<open>Applications as an interface\<close>

text \<open>What \<open>App\<close> relies on in the functions of the application: they use the response through its methods, so that it sends at most one
  answer.\<close>

locale app_client =
  fixes a :: "'u app"
  assumes fidec: "fc \<in> set (ap_before a) \<or> fc \<in> set (ap_after a) \<Longrightarrow> resp_ok r \<Longrightarrow> resp_ok (snd (snd (fd_h fc u r)))"
    and page: "resp_ok r \<Longrightarrow> resp_ok (snd (snd (ap_page a k u r)))"
    and transform: "resp_ok r \<Longrightarrow> resp_ok (snd (snd (snd (ap_transform a k u r))))"
begin

lemma fidec_loop_ok:
  assumes "\<forall>fc \<in> set fcs. fc \<in> set (ap_before a) \<or> fc \<in> set (ap_after a)" "resp_ok r" "fidec_loop fcs pre st u r = (s, u', r')"
  shows "resp_ok r'"
  using assms
proof (induction fcs arbitrary: st u r)
  case (Cons fc fcs)
  obtain oc u1 r1 where h: "fd_h fc u r = (oc, u1, r1)" by (cases "fd_h fc u r")
  have r1: "resp_ok r1" using fidec [of fc r u] Cons.prems h by auto
  show ?case
  proof (cases "fidec_matches fc pre")
    case True
    show ?thesis
    proof (cases oc)
      case (Returns x)
      then show ?thesis using Cons.prems Cons.IH [OF _ r1] True h r1 by (auto split: if_splits)
    next
      case (Halts st' msg)
      then show ?thesis using Cons.prems Cons.IH [of "resp_end r1 (halt_status st') (Some msg)"] True h r1 by auto
    next
      case Throws
      then show ?thesis using Cons.prems True h r1 by auto
    qed
  next
    case False
    then show ?thesis using Cons by auto
  qed
qed auto

lemma callRequestHandler_ok:
  assumes "resp_ok r" "callRequestHandler (map_option (ap_page a) k) u r = (s, u', r')"
  shows "resp_ok r'"
proof (cases k)
  case (Some n)
  obtain oc u1 r1 where h: "ap_page a n u r = (oc, u1, r1)" by (cases "ap_page a n u r")
  have "resp_ok r1" using page [OF assms(1), of n u] h by simp
  then show ?thesis using assms(2) Some h by (cases oc) (auto simp: callRequestHandler_def)
qed (use assms in \<open>auto simp: callRequestHandler_def\<close>)

lemma completeRequest_ok:
  assumes "resp_ok r" "completeRequest a u r rh s = (u', r')"
    and nf: "\<forall>fc \<in> set (ap_after a). \<forall>u r. fst (fd_h fc u r) \<noteq> Returns SKIP_FLUSH"
  shows "resp_ok r' \<and> rs_ended r'"
proof -
  have skip: "ret \<noteq> SKIP_FLUSH" if "fidec_loop fcs pre st u r = (ret, u', r')" "set fcs \<subseteq> set (ap_after a)" "st \<noteq> SKIP_FLUSH"
    for fcs pre st u r ret u' r'
    using that
  proof (induction fcs arbitrary: st u r)
    case (Cons fc fcs)
    obtain oc u1 r1 where h: "fd_h fc u r = (oc, u1, r1)" by (cases "fd_h fc u r")
    have n: "oc \<noteq> Returns SKIP_FLUSH" using nf Cons.prems(2) h by (metis fst_conv list.set_intros(1) subsetD)
    show ?case
      using Cons.prems Cons.IH h n
      by (cases oc) (auto simp: SKIP_FLUSH_def ABORT_def INTERNAL_ERROR_def split: if_splits)
  qed auto
  define x where "x = (case rh_transformer rh of None \<Rightarrow> (s, u, r)
      | Some k \<Rightarrow> (case ap_transform a k u r of (s, b, u1, r1) \<Rightarrow> (s, u1, if s = ABORT then r1 else r1\<lparr>rs_body := b\<rparr>)))"
  obtain s1 u1 r1 where x: "x = (s1, u1, r1)" by (cases x)
  have r1: "resp_ok r1"
  proof (cases "rh_transformer rh")
    case (Some k)
    then show ?thesis using x transform [OF assms(1), of k u] by (auto simp: x_def split: prod.splits if_splits)
  qed (use x assms(1) in \<open>simp add: x_def\<close>)
  define r2 where "r2 = resp_status (case rh_content_type rh of Some t \<Rightarrow> resp_header r1 (bs ''Content-Type'') t | None \<Rightarrow> r1) s1"
  have r2: "resp_ok r2" using r1 by (simp add: r2_def split: option.split)
  obtain ret u3 r3 where c: "callFidecs (ap_after a) (rh_prefix rh) u1 r2 = (ret, u3, r3)" by (cases "callFidecs (ap_after a) (rh_prefix rh) u1 r2")
  have r3: "resp_ok r3" using fidec_loop_ok [OF _ r2 c [unfolded callFidecs_def]] by auto
  have "ret \<noteq> SKIP_FLUSH" using skip [OF c [unfolded callFidecs_def]] by (simp add: CONTINUE_def SKIP_FLUSH_def)
  then have "r' = resp_flush r1 \<or> r' = resp_flush (after_status ret r3)"
    using assms(2) x c unfolding completeRequest_def x_def [symmetric] by (auto simp: Let_def r2_def split: if_splits)
  then show ?thesis using r1 r3 by auto
qed

lemma handle_ok:
  assumes na: "\<forall>k u r. fst (ap_page a k u r) \<noteq> Returns ASYNC"
    and nf: "\<forall>fc \<in> set (ap_after a). \<forall>u r. fst (fd_h fc u r) \<noteq> Returns SKIP_FLUSH"
  shows "\<exists>a' u' r' s. app_handle a env version async m path ms u = (a', Handled u' r') \<and> rs_sent r' = [s]"
proof -
  let ?r = "resp_header HttpResponse (bs ''server'') version"
  have r: "resp_ok ?r" by simp
  have fin: "\<exists>s. rs_sent (resp_flush x) = [s]" if "resp_ok x" for x using resp_ok_sent [of "resp_flush x"] that by simp
  show ?thesis
  proof (cases "static_path path")
    case True
    obtain sf sr where f: "static_find env (ap_static a) path = (sf, sr)" by (cases "static_find env (ap_static a) path")
    show ?thesis
    proof (cases sf)
      case None
      then show ?thesis using True f fin [of "resp_end ?r NOT_FOUND None"] r by (auto simp: app_handle_def Let_def)
    next
      case (Some x)
      let ?r0 = "resp_header ?r (bs ''Content-Type'') (sf_content_type x)"
      obtain st r1 where h: "applyHeaders env sr ms ?r0 x = (st, r1)" by (cases "applyHeaders env sr ms ?r0 x")
      have "resp_ok r1" using h r by (auto simp: applyHeaders_def Let_def split: if_splits)
      then show ?thesis
        using True f Some h fin [of "if st = NOT_MODIFIED then resp_end r1 NOT_MODIFIED None else resp_end r1 OK (Some (sf_data x))"]
        by (auto simp: app_handle_def Let_def)
    qed
  next
    case False
    show ?thesis
    proof (cases "resolveRoute (ap_router a) m path")
      case None
      then show ?thesis using False resp_ok_sent [of "resp_end ?r NOT_FOUND None"] r by (auto simp: app_handle_def Let_def)
    next
      case (Some y)
      obtain rh vs where y: "y = (rh, vs)" by (cases y)
      obtain s1 u1 r1 where b: "callFidecs (ap_before a) (rh_prefix rh) u ?r = (s1, u1, r1)" by (cases "callFidecs (ap_before a) (rh_prefix rh) u ?r")
      have r1: "resp_ok r1" using fidec_loop_ok [OF _ r b [unfolded callFidecs_def]] by auto
      obtain s2 u2 r2 where h: "callRequestHandler (map_option (ap_page a) (rh_h rh)) u1 r1 = (s2, u2, r2)"
        by (cases "callRequestHandler (map_option (ap_page a) (rh_h rh)) u1 r1")
      have r2: "resp_ok r2" using callRequestHandler_ok [OF r1 h] .
      have s2: "s2 \<noteq> ASYNC"
      proof (cases "rh_h rh")
        case (Some k)
        obtain oc u' r' where "ap_page a k u1 r1 = (oc, u', r')" by (cases "ap_page a k u1 r1")
        then show ?thesis using na h Some by (cases oc) (auto simp: callRequestHandler_def ASYNC_def ABORT_def, metis fst_conv)
      qed (use h in \<open>auto simp: callRequestHandler_def OK_def ASYNC_def\<close>)
      obtain u3 r3 where c: "completeRequest a u2 r2 rh s2 = (u3, r3)" by (cases "completeRequest a u2 r2 rh s2")
      have "\<exists>s. rs_sent r3 = [s]" using resp_ok_sent completeRequest_ok [OF r2 c nf] by blast
      then show ?thesis
        using False Some y b h c s2 fin [OF r1] by (auto simp: app_handle_def Let_def)
    qed
  qed
qed

end

section \<open>An application\<close>

text \<open>The example of the README: a filter that lets only known users pass, a second one for \<open>/hello\<close> that sets a header, a page and an
  after filter. The state says whether the user is known, and counts the runs of the page.\<close>

definition check_user :: "(bool \<times> nat) fidec" where
  "check_user = \<lparr>fd_match = None, fd_h = (\<lambda>u r. if fst u then (Returns CONTINUE, u, r) else (Halts 401 (bs ''Gotcha''), u, r))\<rparr>"

definition set_foo :: "(bool \<times> nat) fidec" where
  "set_foo = \<lparr>fd_match = Some (bs ''/hello''), fd_h = (\<lambda>u r. (Returns CONTINUE, u, resp_header r (bs ''Foo'') (bs ''second'')))\<rparr>"

definition set_sparc :: "(bool \<times> nat) fidec" where
  "set_sparc = \<lparr>fd_match = Some (bs ''/hello''), fd_h = (\<lambda>u r. (Returns OK, u, resp_header r (bs ''Sparc'') (bs ''after'')))\<rparr>"

definition hello_handler :: route_handler where
  "hello_handler = new_handler 0 (bs ''/hello'') (bs ''/hello'') [] (Some 1) None None None"

definition hello_page :: "(bool \<times> nat) page" where
  "hello_page u r = (Returns OK, (fst u, Suc (snd u)), resp_append r (bs ''hello''))"

definition hello_app :: "(bool \<times> nat) app" where
  "hello_app = \<lparr>ap_before = [check_user, set_foo], ap_after = [set_sparc],
     ap_router = (case Router_add Router 0 (bs ''/hello'') (Some 1) None None None of Inr (_, rt) \<Rightarrow> rt | Inl _ \<Rightarrow> Router),
     ap_static = \<lparr>base_dir = bs ''/www'', sr_files = Map.empty, sr_expires = - 1, sr_headers = []\<rparr>,
     ap_page = (\<lambda>_. hello_page), ap_transform = (\<lambda>_ u r. (OK, rs_body r, u, r))\<rparr>"

interpretation hello: app_client hello_app
  by unfold_locales
    (auto simp: hello_app_def check_user_def set_foo_def set_sparc_def hello_page_def resp_append_def resp_ok_def split: if_splits)

definition no_files :: static_env where
  "no_files = \<lparr>st_file = \<lambda>_. None, st_load = \<lambda>_. False, st_date_to_time = \<lambda>_. 0, st_time_to_date = \<lambda>_. []\<rparr>"

lemma hello_route: "resolveRoute (ap_router hello_app) 0 (bs ''/hello'') = Some (hello_handler, [])"
proof -
  have p: "\<forall>t \<in> set [bs ''hello'']. tok_ok t \<and> colon \<notin> set t" by (simp add: tok_ok_def slash_def colon_def bs_def)
  have rt: "route_text [bs ''hello''] [] = bs ''/hello''" "path_text ([bs ''hello''] @ []) = bs ''/hello''"
    by (simp_all add: route_text_def route_prefix_def path_text_def slash_def bs_def)
  have sp: "kore_split_string (bs ''/hello'') [colon] 256 = (slash # bs ''hello'') # []"
    by (simp add: kore_split_string_def split_loop_fields bs_def colon_def slash_def)
  obtain rt' where a: "Router_add Router 0 (bs ''/hello'') (Some 1) None None None = Inr (True, rt')" "router_ok rt'"
      "\<And>p k. handles rt' 0 p k = (if p = slash # bs ''hello'' \<and> k = 0 then Some hello_handler else None)"
    using Router_add_step [OF Router_ok(1) _ sp, of 0 "Some 1" None None None]
    by (auto simp: Router_ok hello_handler_def slash_def bs_def)
  have "resolveRoute rt' 0 (bs ''/hello'') = first_match rt' 0 [bs ''hello''] (checkpoints [bs ''hello''])"
    using Router_find_checkpoints [of rt' "[bs ''hello'']" 16 0] a(2) p rt(2) by (simp add: resolveRoute_def router_ok_def)
  also have "\<dots> = Some (hello_handler, [])" by (simp add: checkpoints_def a(3) slash_def bs_def)
  finally show ?thesis by (simp add: hello_app_def a(1) del: One_nat_def)
qed

section \<open>Properties\<close>

text \<open>(C26) One answer for each request: when the functions of the application use the response through its methods, no page asks to
  go on asynchronously and no after filter suppresses the answer, handling a request ends with exactly one response
  sent, on every path: files, missing routes, aborting filters, halts and exceptions.\<close>

theorem app_responds_once:
  assumes "app_client a" and "\<forall>k u r. fst (ap_page a k u r) \<noteq> Returns ASYNC"
    and "\<forall>fc \<in> set (ap_after a). \<forall>u r. fst (fd_h fc u r) \<noteq> Returns SKIP_FLUSH"
  shows "\<exists>a' u' r' s. app_handle a env version async m path ms u = (a', Handled u' r') \<and> rs_sent r' = [s]"
  by (rule app_client.handle_ok [OF assms])

theorem app_responds_once_witness:
  "\<exists>a' u' r' s. app_handle hello_app no_files (bs ''v1'') (\<lambda>_. False) 0 (bs ''/hello'') None (True, 0) = (a', Handled u' r') \<and> rs_sent r' = [s]"
  by (rule app_responds_once [OF hello.app_client_axioms])
    (auto simp: hello_app_def hello_page_def set_sparc_def OK_def ASYNC_def SKIP_FLUSH_def)

text \<open>(C27) A halt does not stop the pipeline: after a before filter has halted the request, the next matching filter
  still runs, and when it returns anything but \<open>$ABORT\<close> the page handler runs as well, with whatever effect it has on the
  application.\<close>

theorem app_halt_bypassed:
  assumes "\<not> static_path path" and "resolveRoute (ap_router a) m path = Some (rh, vs)" and "rh_h rh = Some k" and "rh_transformer rh = None"
    and "ap_before a = f1 # f2 # fs" and "fidec_matches f1 (rh_prefix rh)" and "fidec_matches f2 (rh_prefix rh)"
    and "fd_h f1 u (resp_header HttpResponse (bs ''server'') version) = (Halts st msg, u1, r1)"
    and "fd_h f2 u1 (resp_end r1 (halt_status st) (Some msg)) = (Returns s, u2, r2)" and "s \<noteq> ABORT" and "rs_ended r2"
    and "ap_page a k u2 r2 = (Returns s3, u3, r3)" and "s3 \<noteq> ASYNC"
  shows "app_handle a env version async m path ms u =
    (a, Handled (fst (completeRequest a u3 r3 rh s3)) (snd (completeRequest a u3 r3 rh s3)))"
  using assms by (simp add: app_handle_def Let_def callFidecs_def callRequestHandler_def split: prod.split)

theorem app_halt_bypassed_witness:
  "\<exists>r'. app_handle hello_app no_files (bs ''v1'') (\<lambda>_. False) 0 (bs ''/hello'') None (False, 0) = (hello_app, Handled (False, 1) r')"
proof -
  let ?r = "resp_header HttpResponse (bs ''server'') (bs ''v1'')"
  let ?r2 = "resp_header (resp_end ?r (halt_status 401) (Some (bs ''Gotcha''))) (bs ''Foo'') (bs ''second'')"
  have e: "app_handle hello_app no_files (bs ''v1'') (\<lambda>_. False) 0 (bs ''/hello'') None (False, 0) =
      (hello_app, Handled (fst (completeRequest hello_app (False, 1) (resp_append ?r2 (bs ''hello'')) hello_handler OK))
        (snd (completeRequest hello_app (False, 1) (resp_append ?r2 (bs ''hello'')) hello_handler OK)))"
  proof (rule app_halt_bypassed [OF _ hello_route])
    show "\<not> static_path (bs ''/hello'')" by (simp add: static_path_def bs_def)
    show "ap_before hello_app = check_user # set_foo # []" by (simp add: hello_app_def)
    show "fd_h check_user (False, 0) ?r = (Halts 401 (bs ''Gotcha''), (False, 0), ?r)" by (simp add: check_user_def)
    show "fd_h set_foo (False, 0) (resp_end ?r (halt_status 401) (Some (bs ''Gotcha''))) = (Returns CONTINUE, (False, 0), ?r2)"
      by (simp add: set_foo_def)
    show "ap_page hello_app 1 (False, 0) ?r2 = (Returns OK, (False, 1), resp_append ?r2 (bs ''hello''))" by (simp add: hello_app_def hello_page_def)
  qed (simp_all add: hello_handler_def new_handler_def fidec_matches_def check_user_def set_foo_def strncaseeq_def CONTINUE_def ABORT_def OK_def ASYNC_def)
  have "fst (completeRequest hello_app (False, 1) (resp_append ?r2 (bs ''hello'')) hello_handler OK) = (False, 1)"
    by (simp add: completeRequest_def hello_handler_def new_handler_def callFidecs_def hello_app_def set_sparc_def fidec_matches_def Let_def
        split: prod.split)
  then show ?thesis using e by auto
qed

text \<open>Suppressing the answer from the page handler has no effect: a page that returns \<open>$SKIP_FLUSH\<close>, as the one behind a
  websocket route does after the handshake, is followed by a response with the status of the response object.\<close>

theorem app_skip_flush_ignored:
  assumes "\<not> static_path path" and "resolveRoute (ap_router a) m path = Some (rh, vs)" and "rh_h rh = Some k" and "rh_transformer rh = None"
    and "ap_before a = []" and "ap_after a = []" and "rh_content_type rh = None"
    and "ap_page a k u (resp_header HttpResponse (bs ''server'') version) = (Returns SKIP_FLUSH, u1, r1)"
    and "\<not> rs_ended r1" and "rs_sent r1 = []"
  shows "\<exists>r' hs. app_handle a env version async m path ms u = (a, Handled u1 r') \<and> rs_sent r' = [(rs_status r1, hs, rs_body r1)]"
  using assms
  by (simp add: app_handle_def Let_def callFidecs_def callRequestHandler_def completeRequest_def CONTINUE_def SKIP_FLUSH_def ABORT_def
      ASYNC_def OK_def resp_status_def after_status_def resp_flush_def resp_end_def)

definition socket_app :: "(bool \<times> nat) app" where
  "socket_app = hello_app\<lparr>ap_before := [], ap_after := [], ap_page := (\<lambda>_ u r. (Returns SKIP_FLUSH, u, r))\<rparr>"

theorem app_skip_flush_ignored_witness:
  "\<exists>r' hs. app_handle socket_app no_files (bs ''v1'') (\<lambda>_. False) 0 (bs ''/hello'') None (True, 0) = (socket_app, Handled (True, 0) r') \<and>
    rs_sent r' = [(200, hs, [])]"
proof -
  have "\<not> static_path (bs ''/hello'')" by (simp add: static_path_def bs_def)
  moreover have "resolveRoute (ap_router socket_app) 0 (bs ''/hello'') = Some (hello_handler, [])" using hello_route by (simp add: socket_app_def)
  ultimately show ?thesis
    using app_skip_flush_ignored [of "bs ''/hello''" socket_app 0 hello_handler "[]" 1 "(True, 0)" "bs ''v1''" "(True, 0)"
      "resp_header HttpResponse (bs ''server'') (bs ''v1'')" no_files "\<lambda>_. False" None]
    by (simp add: hello_handler_def new_handler_def socket_app_def HttpResponse_def OK_def)
qed

text \<open>An unhandled exception in the page handler is answered with the status of the response object, which is 200 unless the page changed
  it.\<close>

lemma app_exception_answers_ok:
  assumes "\<not> static_path path" and "resolveRoute (ap_router a) m path = Some (rh, vs)" and "rh_h rh = Some k" and "rh_transformer rh = None"
    and "ap_before a = []" and "ap_after a = []" and "rh_content_type rh = None"
    and "ap_page a k u (resp_header HttpResponse (bs ''server'') version) = (Throws, u1, r1)"
    and "\<not> rs_ended r1" and "rs_sent r1 = []"
  shows "\<exists>r' hs. app_handle a env version async m path ms u = (a, Handled u1 r') \<and> rs_sent r' = [(rs_status r1, hs, rs_body r1)]"
  using assms
  by (simp add: app_handle_def Let_def callFidecs_def callRequestHandler_def completeRequest_def CONTINUE_def SKIP_FLUSH_def ABORT_def
      ASYNC_def OK_def resp_status_def after_status_def resp_flush_def resp_end_def)

lemma takeWhile_nul: "0 \<notin> set xs \<Longrightarrow> takeWhile (\<lambda>x. x \<noteq> (0 :: byte)) (xs @ 0 # ys) = xs"
  by (induction xs) auto

lemma flush_loop_repeats:
  assumes "0 \<notin> set l"
  shows "rs_headers (flush_loop (l @ 0 # zs) cs r) = rs_headers r @ replicate (length cs) \<lparr>hdr_header = bs ''Set-Cookie'', hdr_value = l\<rparr>"
proof (induction cs arbitrary: zs r)
  case (Cons c cs)
  let ?b = "(l @ 0 # zs) @ cookie_line c"
  obtain ys where b0: "(if last ?b = 0 then ?b else ?b @ [0]) = l @ 0 # ys" by (cases "last ?b = 0") auto
  show ?case using Cons.IH [of ys] takeWhile_nul [OF assms, of ys]
    by (simp only: flush_loop.simps Let_def b0) (simp add: replicate_append_same)
qed simp

text \<open>Cookies repeat the first one: the buffer of \<open>flushCookies\<close> is not reset, and its string ends at the NUL behind the first
  cookie, so a response with several cookies carries the first one as often as there are cookies and none of the
  others.\<close>

theorem response_cookies_repeat:
  assumes "rs_cookies r = c # cs" and "0 \<notin> set (cookie_line c)"
  shows "rs_headers (flushCookies r) = rs_headers r @ replicate (Suc (length cs)) \<lparr>hdr_header = bs ''Set-Cookie'', hdr_value = cookie_line c\<rparr>"
proof -
  have "cookie_line c \<noteq> []" by (simp add: cookie_line_def bs_def)
  then have l: "last (cookie_line c) \<noteq> 0" using assms(2) last_in_set by metis
  show ?thesis
    using flush_loop_repeats [OF assms(2), of "[]" cs] takeWhile_nul [OF assms(2), of "[]"] l
    by (simp add: flushCookies_def assms(1) Let_def)
qed

theorem response_cookies_repeat_witness:
  "rs_headers (flushCookies (resp_cookie (resp_cookie HttpResponse (bs ''a'') (bs ''1'') None None 0 False) (bs ''b'') (bs ''2'') None None 0 False)) =
    [] @ replicate (Suc 1) \<lparr>hdr_header = bs ''Set-Cookie'', hdr_value = bs ''a=1; ''\<rparr>"
proof -
  let ?c = "\<lambda>n v. \<lparr>ck_name = n, ck_value = v, ck_path = None, ck_domain = None, ck_expiry = 0, ck_secure = False\<rparr>"
  let ?r = "resp_cookie (resp_cookie HttpResponse (bs ''a'') (bs ''1'') None None 0 False) (bs ''b'') (bs ''2'') None None 0 False"
  have c: "rs_cookies ?r = ?c (bs ''a'') (bs ''1'') # [?c (bs ''b'') (bs ''2'')]" by (simp add: resp_cookie_def HttpResponse_def bs_def)
  have l: "cookie_line (?c (bs ''a'') (bs ''1'')) = bs ''a=1; ''" by (simp add: cookie_line_def bs_def)
  have "rs_headers ?r = []" by (simp add: resp_cookie_def HttpResponse_def)
  moreover have "0 \<notin> set (cookie_line (?c (bs ''a'') (bs ''1'')))" unfolding l by (simp add: bs_def)
  ultimately show ?thesis using response_cookies_repeat [OF c] by (simp add: l)
qed

definition climbs :: "byte list \<Rightarrow> bool" where
  "climbs p \<longleftrightarrow> (\<exists>x y. p = x @ bs ''../'' @ y)"

lemma static_path_stays:
  assumes "static_path p"
  shows "\<not> climbs p" "p \<noteq> bs ''/''"
proof -
  let ?dot = "ch (CHR ''.'')" and ?sl = "ch (CHR ''/'')"
  obtain tok where tok: "strchr p ?dot = Some tok" "strchr tok ?sl = None" using assms by (auto simp: static_path_def split: option.splits)
  have sl: "?sl \<notin> set tok" using tok(2) strchr_None_iff by metis
  obtain q where q: "p = q @ ?dot # tl tok" "tok = ?dot # tl tok" "?dot \<notin> set q" using tok(1) strchr_Some_iff by metis
  show "\<not> climbs p"
  proof
    assume "climbs p"
    then obtain x y where xy: "p = x @ bs ''../'' @ y" by (auto simp: climbs_def)
    have dot: "bs ''../'' = [?dot, ?dot, ?sl]" by (simp add: bs_def)
    have "length q \<le> length x"
    proof (rule ccontr)
      assume "\<not> length q \<le> length x"
      then have "p ! length x = q ! length x" "length x < length q" using q(1) by (simp_all add: nth_append)
      moreover have "p ! length x = ?dot" using xy dot by (simp add: nth_append)
      ultimately show False using q(3) nth_mem by metis
    qed
    moreover have "drop (length q) p = tok" using q by simp
    ultimately have "drop (length x - length q) tok = bs ''../'' @ y"
      using xy by (metis append_eq_conv_conj drop_drop le_add_diff_inverse2)
    then have "?sl \<in> set tok" unfolding dot by (metis append_Cons in_set_dropD list.set_intros(1) list.set_intros(2))
    then show False using sl by simp
  qed
  show "p \<noteq> bs ''/''" using tok by (auto simp: bs_def)
qed

text \<open>(C31) Requests cannot leave the directory of the static files: what the application answers depends on no file whose path
  below the directory contains \<open>../\<close>.\<close>

theorem static_no_traversal:
  assumes "\<forall>p. \<not> climbs p \<longrightarrow> st_file env (take 255 (base_dir (ap_static a) @ p)) = st_file env' (take 255 (base_dir (ap_static a) @ p)) \<and>
      st_load env (take 255 (base_dir (ap_static a) @ p)) = st_load env' (take 255 (base_dir (ap_static a) @ p))"
    and "st_date_to_time env = st_date_to_time env'" and "st_time_to_date env = st_time_to_date env'"
  shows "app_handle a env version async m path ms u = app_handle a env' version async m path ms u"
proof (cases "static_path path")
  case True
  note s = static_path_stays [OF True]
  let ?full = "take 255 (base_dir (ap_static a) @ path)"
  have f: "st_file env ?full = st_file env' ?full" "st_load env ?full = st_load env' ?full" using assms(1) s(1) by blast+
  then have "loadFile env ?full = loadFile env' ?full" "reloadFile env ?full = reloadFile env' ?full"
    by (simp_all only: loadFile_def fun_eq_iff reloadFile_def) simp_all
  then have "static_find env (ap_static a) path = static_find env' (ap_static a) path"
    using f s(2) unfolding static_find_def Let_def by (simp only: if_False simp_thms)
  moreover have "applyHeaders env = applyHeaders env'" by (intro ext) (simp only: applyHeaders_def assms(2,3))
  ultimately show ?thesis by (simp only: app_handle_def)
qed (simp add: app_handle_def Let_def)

definition secret_files :: static_env where
  "secret_files = no_files\<lparr>st_file := (\<lambda>p. if p = bs ''/www/a../secret'' then Some (1, bs ''x'') else None)\<rparr>"

theorem static_no_traversal_witness:
  "app_handle hello_app secret_files (bs ''v1'') (\<lambda>_. False) 0 (bs ''/a../secret'') None (True, 0) =
    app_handle hello_app no_files (bs ''v1'') (\<lambda>_. False) 0 (bs ''/a../secret'') None (True, 0)"
proof (rule static_no_traversal)
  show "\<forall>p. \<not> climbs p \<longrightarrow>
      st_file secret_files (take 255 (base_dir (ap_static hello_app) @ p)) = st_file no_files (take 255 (base_dir (ap_static hello_app) @ p)) \<and>
      st_load secret_files (take 255 (base_dir (ap_static hello_app) @ p)) = st_load no_files (take 255 (base_dir (ap_static hello_app) @ p))"
  proof (intro allI impI)
    fix p assume n: "\<not> climbs p"
    have "take 255 (bs ''/www'' @ p) \<noteq> bs ''/www/a../secret''"
    proof
      assume e: "take 255 (bs ''/www'' @ p) = bs ''/www/a../secret''"
      then have "length (take 255 (bs ''/www'' @ p)) = 15" by (simp only: e) (simp add: bs_def)
      then have "p = bs ''/a../secret''" using e by (simp add: bs_def)
      then have "climbs p" unfolding climbs_def by (intro exI [of _ "bs ''/a''"] exI [of _ "bs ''secret''"]) (simp add: bs_def)
      then show False using n by simp
    qed
    then show "st_file secret_files (take 255 (base_dir (ap_static hello_app) @ p)) = st_file no_files (take 255 (base_dir (ap_static hello_app) @ p)) \<and>
        st_load secret_files (take 255 (base_dir (ap_static hello_app) @ p)) = st_load no_files (take 255 (base_dir (ap_static hello_app) @ p))"
      by (simp add: secret_files_def no_files_def hello_app_def)
  qed
qed (simp_all add: secret_files_def no_files_def)

end
