(* ===== verification/Sparc_Session.thy ===== *)
theory Sparc_Session
  imports Kore_Prelude "HOL-Library.AList"
begin

text \<open>
  Sessions of the C++ layer, \<open>sparc/detail/session.cpp\<close>: the attributes of a session, and the manager that finds, refreshes, drops
  and creates sessions by the address of the client.

  The hash table of the manager is the map it stands for, keyed by the identifier of a session. A session and its \<open>HttpSession\<close>
  object are one record. The time of \<open>datetime::now\<close> is an argument, the digest of \<open>md5Hash\<close> a parameter. Times are 64 bits
  wide: the expiry time is signed, the time of the day is not.
\<close>

section \<open>Attributes\<close>

record http_session =
  hs_id :: "byte list"
  hs_expiry :: int
  hs_attrs :: "(byte list \<times> byte list) list"
  hs_new :: bool

definition session_find_attribute :: "http_session \<Rightarrow> byte list \<Rightarrow> (byte list \<times> byte list) option" where
  "session_find_attribute s name = List.find (\<lambda>kv. fst kv = name) (hs_attrs s)"

definition session_attribute :: "http_session \<Rightarrow> byte list \<Rightarrow> byte list option" where
  "session_attribute s name = map_option snd (session_find_attribute s name)"

fun replace_attr :: "byte list \<Rightarrow> byte list \<Rightarrow> (byte list \<times> byte list) list \<Rightarrow> (byte list \<times> byte list) list" where
  "replace_attr name v [] = []"
| "replace_attr name v (kv # kvs) = (if fst kv = name then (fst kv, v) # kvs else kv # replace_attr name v kvs)"

definition session_addAttribute :: "http_session \<Rightarrow> byte list \<Rightarrow> byte list \<Rightarrow> http_session" where
  "session_addAttribute s name v =
     (case session_find_attribute s name of
        None \<Rightarrow> s\<lparr>hs_attrs := hs_attrs s @ [(name, v)]\<rparr>
      | Some _ \<Rightarrow> s\<lparr>hs_attrs := replace_attr name v (hs_attrs s)\<rparr>)"

fun remove_attr :: "byte list \<Rightarrow> (byte list \<times> byte list) list \<Rightarrow> (byte list \<times> byte list) list" where
  "remove_attr name [] = []"
| "remove_attr name (kv # kvs) = (if fst kv = name then kvs else kv # remove_attr name kvs)"

definition session_removeAttribute :: "http_session \<Rightarrow> byte list \<Rightarrow> byte list option \<times> http_session" where
  "session_removeAttribute s name =
     (case session_find_attribute s name of
        None \<Rightarrow> (None, s)
      | Some kv \<Rightarrow> (Some (snd kv), s\<lparr>hs_attrs := remove_attr name (hs_attrs s)\<rparr>))"

text \<open>\<open>eachAttribute\<close>: the iterator threads a state and may stop the loop.\<close>

fun each_attr :: "(byte list \<times> byte list \<Rightarrow> 's \<Rightarrow> bool \<times> 's) \<Rightarrow> (byte list \<times> byte list) list \<Rightarrow> 's \<Rightarrow> 's" where
  "each_attr it [] st = st"
| "each_attr it (kv # kvs) st = (case it kv st of (go, st1) \<Rightarrow> if go then each_attr it kvs st1 else st1)"

section \<open>The manager\<close>

record session_mgr =
  sm_sessions :: "byte list \<rightharpoonup> http_session"
  sm_timeout :: int
  sm_key :: "byte list"

definition ipToSessionId :: "(byte list \<Rightarrow> byte list) \<Rightarrow> session_mgr \<Rightarrow> byte list \<Rightarrow> byte list" where
  "ipToSessionId md5 m ip = md5 (sm_key m @ ip)"

definition new_expiry :: "session_mgr \<Rightarrow> u64 \<Rightarrow> int" where
  "new_expiry m now = (if sm_timeout m < 0 then sm_timeout m else sint (word_of_int (sm_timeout m) + now :: u64))"

definition session_discard :: "session_mgr \<Rightarrow> byte list \<Rightarrow> session_mgr" where
  "session_discard m i = m\<lparr>sm_sessions := (sm_sessions m)(i := None)\<rparr>"

definition expired :: "http_session \<Rightarrow> u64 \<Rightarrow> bool" where
  "expired s now \<longleftrightarrow> hs_expiry s > 0 \<and> word_of_int (hs_expiry s) < now"

definition session_find :: "session_mgr \<Rightarrow> byte list \<Rightarrow> u64 \<Rightarrow> http_session option \<times> session_mgr" where
  "session_find m i now =
     (case sm_sessions m i of
        None \<Rightarrow> (None, m)
      | Some s \<Rightarrow>
          if expired s now then (None, session_discard m i)
          else let s1 = s\<lparr>hs_expiry := new_expiry m now\<rparr> in (Some s1, m\<lparr>sm_sessions := (sm_sessions m)(i \<mapsto> s1)\<rparr>))"

definition session_create :: "(byte list \<Rightarrow> byte list) \<Rightarrow> session_mgr \<Rightarrow> byte list \<Rightarrow> bool \<Rightarrow> u64 \<Rightarrow> http_session option \<times> session_mgr" where
  "session_create md5 m ip create now =
     (let i = ipToSessionId md5 m ip in
      case session_find m i now of
        (None, m1) \<Rightarrow>
          if create then
            let s = \<lparr>hs_id = i, hs_expiry = new_expiry m1 now, hs_attrs = [], hs_new = True\<rparr> in
            (Some s, m1\<lparr>sm_sessions := (sm_sessions m1)(i \<mapsto> s)\<rparr>)
          else (None, m1)
      | (Some s, m1) \<Rightarrow>
          let s1 = s\<lparr>hs_new := False\<rparr> in (Some s1, m1\<lparr>sm_sessions := (sm_sessions m1)(i \<mapsto> s1)\<rparr>))"

text \<open>A change a request makes to the session it holds.\<close>

definition session_store :: "session_mgr \<Rightarrow> http_session \<Rightarrow> session_mgr" where
  "session_store m s = m\<lparr>sm_sessions := (sm_sessions m)(hs_id s \<mapsto> s)\<rparr>"

section \<open>Attributes as a map\<close>

definition attrs_ok :: "http_session \<Rightarrow> bool" where
  "attrs_ok s \<longleftrightarrow> distinct (map fst (hs_attrs s))"

lemma find_map_of: "map_option snd (List.find (\<lambda>kv. fst kv = name) kvs) = map_of kvs name"
  by (induction kvs) auto

lemma find_attr_None: "List.find (\<lambda>kv. fst kv = name) kvs = None \<longleftrightarrow> name \<notin> fst ` set kvs"
  by (force simp: find_None_iff)

lemma replace_attr_update: "name \<in> fst ` set kvs \<Longrightarrow> replace_attr name v kvs = AList.update name v kvs"
  by (induction kvs) auto

lemma append_attr_update: "name \<notin> fst ` set kvs \<Longrightarrow> kvs @ [(name, v)] = AList.update name v kvs"
  by (induction kvs) auto

lemma addAttribute_update: "hs_attrs (session_addAttribute s name v) = AList.update name v (hs_attrs s)"
  by (auto simp: session_addAttribute_def session_find_attribute_def find_attr_None replace_attr_update append_attr_update
      split: option.split) (metis find_attr_None option.distinct(1) replace_attr_update)

lemma remove_attr_distinct:
  "distinct (map fst kvs) \<Longrightarrow> distinct (map fst (remove_attr name kvs)) \<and> map_of (remove_attr name kvs) = (map_of kvs)(name := None) \<and>
    fst ` set (remove_attr name kvs) \<subseteq> fst ` set kvs"
proof (induction kvs)
  case (Cons kv kvs)
  obtain k v where kv: "kv = (k, v)" by (cases kv)
  show ?case
  proof (cases "k = name")
    case True
    then have "map_of kvs name = None" using Cons.prems kv by (simp add: map_of_eq_None_iff)
    then show ?thesis using True Cons.prems kv by (auto simp: fun_eq_iff)
  next
    case False
    then show ?thesis using Cons kv by (auto simp: fun_upd_twist)
  qed
qed auto

section \<open>Properties\<close>

text \<open>(C33) The attributes of a session are a map from names to values: reading, setting and removing an attribute act on the map, and no
  name occurs twice.\<close>

theorem session_attributes_refine:
  assumes "attrs_ok s"
  shows "session_attribute s name = map_of (hs_attrs s) name \<and>
    attrs_ok (session_addAttribute s name v) \<and> map_of (hs_attrs (session_addAttribute s name v)) = (map_of (hs_attrs s))(name \<mapsto> v) \<and>
    fst (session_removeAttribute s name) = map_of (hs_attrs s) name \<and>
    attrs_ok (snd (session_removeAttribute s name)) \<and>
    map_of (hs_attrs (snd (session_removeAttribute s name))) = (map_of (hs_attrs s))(name := None)"
proof -
  have g: "session_attribute s name = map_of (hs_attrs s) name"
    by (simp add: session_attribute_def session_find_attribute_def find_map_of)
  have r: "fst (session_removeAttribute s name) = map_of (hs_attrs s) name"
    using g by (auto simp: session_removeAttribute_def session_attribute_def split: option.split)
  have d: "attrs_ok (snd (session_removeAttribute s name)) \<and>
      map_of (hs_attrs (snd (session_removeAttribute s name))) = (map_of (hs_attrs s))(name := None)"
  proof (cases "session_find_attribute s name")
    case None
    then have "map_of (hs_attrs s) name = None" using g by (simp add: session_attribute_def)
    then show ?thesis using assms None by (auto simp: session_removeAttribute_def fun_eq_iff)
  next
    case (Some kv)
    then show ?thesis using remove_attr_distinct [of "hs_attrs s" name] assms by (simp add: session_removeAttribute_def attrs_ok_def)
  qed
  show ?thesis using g r d assms by (simp add: addAttribute_update attrs_ok_def distinct_update update_conv')
qed

text \<open>The life of a session: asking for the session of an address returns the stored one, no longer new and with its attributes, as
  long as its time is not over, and moves the time on; when the time is over the stored one is gone, and a new one without
  attributes is made exactly when the caller wants one. Sessions of other identifiers are not touched.\<close>

theorem session_lifecycle:
  assumes "sm_sessions m (ipToSessionId md5 m ip) = Some s" and "0 < hs_expiry s" and "hs_expiry s < 2 ^ 63"
  shows "session_create md5 m ip create now =
    (let i = ipToSessionId md5 m ip;
         kept = s\<lparr>hs_expiry := new_expiry m now, hs_new := False\<rparr>;
         fresh = \<lparr>hs_id = i, hs_expiry = new_expiry m now, hs_attrs = [], hs_new = True\<rparr> in
     if hs_expiry s \<ge> uint now then (Some kept, m\<lparr>sm_sessions := (sm_sessions m)(i \<mapsto> kept)\<rparr>)
     else if create then (Some fresh, m\<lparr>sm_sessions := (sm_sessions m)(i \<mapsto> fresh)\<rparr>)
     else (None, m\<lparr>sm_sessions := (sm_sessions m)(i := None)\<rparr>))"
proof -
  have "uint (word_of_int (hs_expiry s) :: u64) = hs_expiry s"
    using assms(2,3) by (simp add: uint_word_of_int_eq take_bit_eq_mod)
  then have "expired s now \<longleftrightarrow> \<not> hs_expiry s \<ge> uint now" using assms(2) by (auto simp: expired_def word_less_def)
  then show ?thesis
    using assms(1) by (simp add: session_create_def session_find_def session_discard_def new_expiry_def Let_def)
qed

definition one_session :: session_mgr where
  "one_session = \<lparr>sm_sessions = [bs ''k1'' \<mapsto> \<lparr>hs_id = bs ''k1'', hs_expiry = 5000, hs_attrs = [(bs ''u'', bs ''jo'')], hs_new = True\<rparr>],
     sm_timeout = 1000, sm_key = bs ''k''\<rparr>"

theorem session_attributes_refine_witness:
  "session_attribute (the (sm_sessions one_session (bs ''k1''))) (bs ''u'') = Some (bs ''jo'') \<and>
   session_attribute (session_addAttribute (the (sm_sessions one_session (bs ''k1''))) (bs ''u'') (bs ''al'')) (bs ''u'') = Some (bs ''al'')"
proof -
  let ?s = "the (sm_sessions one_session (bs ''k1''))"
  have ok: "attrs_ok ?s" by (simp add: one_session_def attrs_ok_def)
  have ok2: "attrs_ok (session_addAttribute ?s (bs ''u'') (bs ''al''))" using session_attributes_refine [OF ok] by blast
  show ?thesis
    using session_attributes_refine [OF ok, of "bs ''u''" "bs ''al''"] session_attributes_refine [OF ok2, of "bs ''u''"]
    by (simp add: one_session_def)
qed

theorem session_lifecycle_witness:
  "fst (session_create id one_session (bs ''1'') True 4000) =
     Some \<lparr>hs_id = bs ''k1'', hs_expiry = 5000, hs_attrs = [(bs ''u'', bs ''jo'')], hs_new = False\<rparr> \<and>
   fst (session_create id one_session (bs ''1'') True 6000) =
     Some \<lparr>hs_id = bs ''k1'', hs_expiry = 7000, hs_attrs = [], hs_new = True\<rparr>"
proof -
  let ?s = "\<lparr>hs_id = bs ''k1'', hs_expiry = 5000, hs_attrs = [(bs ''u'', bs ''jo'')], hs_new = True\<rparr>"
  have i: "ipToSessionId id one_session (bs ''1'') = bs ''k1''" by (simp add: ipToSessionId_def one_session_def bs_def)
  have s: "sm_sessions one_session (ipToSessionId id one_session (bs ''1'')) = Some ?s" unfolding i by (simp add: one_session_def)
  have e: "new_expiry one_session 4000 = 5000" "new_expiry one_session 6000 = 7000" by (simp_all add: new_expiry_def one_session_def)
  show ?thesis
    using session_lifecycle [OF s, of True 4000] session_lifecycle [OF s, of True 6000] by (simp add: Let_def i e)
qed

end
