(* ===== verification/Kore_Date.thy ===== *)
theory Kore_Date
  imports Sparc_App Http_Flow
begin

text \<open>
  The dates of HTTP, \<open>base/kore/utils.c\<close>: \<open>kore_time_to_date\<close> prints a time for a header, with a cache of one entry, and
  \<open>kore_date_to_time\<close> reads such a text. Of the C library, \<open>gmtime\<close> and the inverse \<open>timegm\<close> are the Gregorian calendar; \<open>mktime\<close> depends on the
  time zone and is a parameter. The static files of \<open>sparc/detail/static_file.cpp\<close> use both for \<open>Last-Modified\<close>.
\<close>

section \<open>The calendar\<close>

record tm =
  tm_sec :: int
  tm_min :: int
  tm_hour :: int
  tm_mday :: int
  tm_mon :: int
  tm_year :: int
  tm_wday :: int
  tm_isdst :: int

definition leap :: "int \<Rightarrow> bool" where
  "leap y \<longleftrightarrow> y mod 4 = 0 \<and> (y mod 100 \<noteq> 0 \<or> y mod 400 = 0)"

definition year_days :: "int \<Rightarrow> int" where
  "year_days y = (if leap y then 366 else 365)"

definition month_lengths :: "int \<Rightarrow> int list" where
  "month_lengths y = [31, if leap y then 29 else 28, 31, 30, 31, 30, 31, 31, 30, 31, 30, 31]"

text \<open>The year a day lies in and the days before it in that year, from the first day of year \<open>y\<close> on upwards and downwards; and the month of
  a day of the year.\<close>

function civil_up :: "int \<Rightarrow> int \<Rightarrow> int \<times> int" where
  "civil_up y d = (if d < year_days y then (y, d) else civil_up (y + 1) (d - year_days y))"
  by pat_completeness auto
termination by (relation "measure (\<lambda>(y, d). nat d)") (auto simp: year_days_def split: if_splits)

function civil_down :: "int \<Rightarrow> int \<Rightarrow> int \<times> int" where
  "civil_down y d = (if 0 \<le> d then (y, d) else civil_down (y - 1) (d + year_days (y - 1)))"
  by pat_completeness auto
termination by (relation "measure (\<lambda>(y, d). nat (- d))") (auto simp: year_days_def split: if_splits)

declare civil_up.simps [simp del] civil_down.simps [simp del]

fun month_up :: "int list \<Rightarrow> int \<Rightarrow> int \<Rightarrow> int \<times> int" where
  "month_up [] k d = (k, d)"
| "month_up (m # ms) k d = (if d < m then (k, d) else month_up ms (k + 1) (d - m))"

definition gmtime :: "int \<Rightarrow> tm" where
  "gmtime t =
     (let days = t div 86400; s = t mod 86400 in
      case (if 0 \<le> days then civil_up 1970 days else civil_down 1970 days) of (y, d) \<Rightarrow>
      case month_up (month_lengths y) 0 d of (mon, md) \<Rightarrow>
        \<lparr>tm_sec = s mod 60, tm_min = s div 60 mod 60, tm_hour = s div 3600, tm_mday = md + 1, tm_mon = mon, tm_year = y - 1900,
         tm_wday = (days + 4) mod 7, tm_isdst = 0\<rparr>)"

text \<open>The number of the first day of a year, and \<open>timegm\<close>.\<close>

definition year_start :: "int \<Rightarrow> int" where
  "year_start y = 365 * (y - 1970) + ((y - 1) div 4 - (y - 1) div 100 + (y - 1) div 400) - 477"

definition timegm :: "tm \<Rightarrow> int" where
  "timegm x =
     (let y = tm_year x + 1900 in
      (year_start y + sum_list (take (nat (tm_mon x)) (month_lengths y)) + tm_mday x - 1) * 86400 +
      tm_hour x * 3600 + tm_min x * 60 + tm_sec x)"

section \<open>Printing\<close>

definition day_names :: "byte list list" where
  "day_names = [bs ''Sun'', bs ''Mon'', bs ''Tue'', bs ''Wed'', bs ''Thu'', bs ''Fri'', bs ''Sat'']"

definition month_names :: "(byte list \<times> int) list" where
  "month_names = [(bs ''Jan'', 0), (bs ''Feb'', 1), (bs ''Mar'', 2), (bs ''Apr'', 3), (bs ''May'', 4), (bs ''Jun'', 5), (bs ''Jul'', 6),
     (bs ''Aug'', 7), (bs ''Sep'', 8), (bs ''Oct'', 9), (bs ''Nov'', 10), (bs ''Dec'', 11)]"

text \<open>A number with at least two digits, and \<open>strftime\<close> with the format \<open>%a, %d %b %Y %T GMT\<close>.\<close>

definition pad2 :: "int \<Rightarrow> byte list" where
  "pad2 n = (if n < 10 then [48] else []) @ dec_nat (nat n)"

definition strftime_date :: "tm \<Rightarrow> byte list" where
  "strftime_date x =
     day_names ! nat (tm_wday x) @ bs '', '' @ pad2 (tm_mday x) @ bs '' '' @ fst (month_names ! nat (tm_mon x)) @ bs '' '' @
     dec_int (tm_year x + 1900) @ bs '' '' @ pad2 (tm_hour x) @ bs '':'' @ pad2 (tm_min x) @ bs '':'' @ pad2 (tm_sec x) @ bs '' GMT''"

text \<open>The static variables \<open>last\<close> and \<open>tbuf\<close>. \<open>gmtime\<close> fails when the year does not fit an \<open>int\<close>, and \<open>strftime\<close> returns zero when the text and its
  terminator need more than the 32 bytes of \<open>tbuf\<close>, whose contents, \<open>junk\<close>, are unspecified then.\<close>

record date_cache =
  last_time :: int
  tbuf :: "byte list"

definition date_cache_init :: date_cache where
  "date_cache_init = \<lparr>last_time = 0, tbuf = []\<rparr>"

definition kore_time_to_date :: "byte list \<Rightarrow> int \<Rightarrow> date_cache \<Rightarrow> (byte list option \<times> date_cache) res" where
  "kore_time_to_date junk now dc =
     (if now \<noteq> last_time dc then
        let dc1 = dc\<lparr>last_time := now\<rparr>; x = gmtime now in
        if \<not> (- (2 ^ 31) \<le> tm_year x \<and> tm_year x < 2 ^ 31) then Inl Null_deref
        else if length (strftime_date x) + 1 > 32 then Inr (None, dc1\<lparr>tbuf := junk\<rparr>)
        else Inr (Some (strftime_date x), dc1\<lparr>tbuf := strftime_date x\<rparr>)
      else Inr (Some (tbuf dc), dc))"

section \<open>Reading\<close>

fun month_find :: "(byte list \<times> int) list \<Rightarrow> byte list \<Rightarrow> int option" where
  "month_find [] s = None"
| "month_find ((name, v) # ms) s = (if name = s then Some v else month_find ms s)"

text \<open>\<open>isdst\<close> and \<open>gmtoff\<close> are the fields of \<open>localtime\<close> for the current time.\<close>

definition kore_date_to_time :: "(tm \<Rightarrow> int) \<Rightarrow> int \<Rightarrow> int \<Rightarrow> byte list \<Rightarrow> int" where
  "kore_date_to_time mktime isdst gmtoff http_date =
     (let args = kore_split_string http_date (bs '' '') 7 in
      if length args \<noteq> 6 then KORE_RESULT_ERROR
      else case kore_strtonum (args ! 3) 10 1900 2068 of (year, err) \<Rightarrow>
      if err = KORE_RESULT_ERROR then KORE_RESULT_ERROR
      else case month_find month_names (args ! 2) of
        None \<Rightarrow> KORE_RESULT_ERROR
      | Some mon \<Rightarrow>
      case kore_strtonum (args ! 1) 10 1 31 of (mday, err) \<Rightarrow>
      if err = KORE_RESULT_ERROR then KORE_RESULT_ERROR
      else let parts = kore_split_string (args ! 4) (bs '':'') 5 in
      if length parts \<noteq> 3 then KORE_RESULT_ERROR
      else case kore_strtonum (parts ! 0) 10 0 23 of (hour, err) \<Rightarrow>
      if err = KORE_RESULT_ERROR then KORE_RESULT_ERROR
      else case kore_strtonum (parts ! 1) 10 0 59 of (minute, err) \<Rightarrow>
      if err = KORE_RESULT_ERROR then KORE_RESULT_ERROR
      else case kore_strtonum (parts ! 2) 10 0 60 of (sec, err) \<Rightarrow>
      if err = KORE_RESULT_ERROR then KORE_RESULT_ERROR
      else
        let t = mktime \<lparr>tm_sec = sec, tm_min = minute, tm_hour = hour, tm_mday = mday, tm_mon = mon, tm_year = year - 1900,
                  tm_wday = 0, tm_isdst = isdst\<rparr> + gmtoff in
        if t = - 1 then 0 else t)"

section \<open>The calendar is consistent\<close>

lemma div_step:
  assumes "0 < (n :: int)"
  shows "y div n = (y - 1) div n + (if y mod n = 0 then 1 else 0)"
proof -
  have y: "y - 1 = n * (y div n) + (y mod n - 1)" by simp
  have b: "0 \<le> y mod n" "y mod n < n" using assms by simp_all
  show ?thesis
  proof (cases "y mod n = 0")
    case True
    then have "y - 1 = n * (y div n - 1) + (n - 1)" using y by (simp add: algebra_simps)
    then have "(y - 1) div n = y div n - 1" by (rule int_div_pos_eq) (use assms in auto)
    with True show ?thesis by simp
  next
    case False
    from y have "(y - 1) div n = y div n" by (rule int_div_pos_eq) (use b False in auto)
    with False show ?thesis by simp
  qed
qed

lemma year_start_step: "year_start (y + 1) = year_start y + year_days y"
proof -
  define a b c d e f where "a = y div 4" "b = y div 100" "c = y div 400" "d = (y - 1) div 4" "e = (y - 1) div 100" "f = (y - 1) div 400"
  note names = this
  define P Q R where "P \<longleftrightarrow> y mod 4 = 0" "Q \<longleftrightarrow> y mod 100 = 0" "R \<longleftrightarrow> y mod 400 = 0"
  note mods = this
  have steps: "a = d + (if P then 1 else 0)" "b = e + (if Q then 1 else 0)" "c = f + (if R then 1 else 0)"
    unfolding names mods by (rule div_step; simp)+
  have "(100 :: int) dvd 400" "(4 :: int) dvd 100" by simp_all
  then have "400 dvd y \<longrightarrow> 100 dvd y" "100 dvd y \<longrightarrow> 4 dvd y" by (blast intro: dvd_trans)+
  then have imp: "R \<longrightarrow> Q" "Q \<longrightarrow> P" unfolding mods by (simp_all only: dvd_eq_mod_eq_0)
  have leap: "leap y = (P \<and> (\<not> Q \<or> R))" by (simp only: leap_def mods)
  have "a - b + c = d - e + f + (if leap y then 1 else 0)"
    unfolding steps leap using imp by (cases P; cases Q; cases R) simp_all
  moreover have "year_start (y + 1) = 365 * (y - 1970) + 365 + (a - b + c) - 477" "year_start y = 365 * (y - 1970) + (d - e + f) - 477"
    by (simp_all add: year_start_def names)
  ultimately show ?thesis by (simp add: year_days_def)
qed

lemma year_start_mono: "y \<le> z \<Longrightarrow> year_start y \<le> year_start z"
proof (induction z rule: int_ge_induct)
  case (step z)
  then show ?case using year_start_step [of z] by (simp add: year_days_def split: if_splits)
qed simp

lemma year_start_1970 [simp]: "year_start 1970 = 0"
  by (simp add: year_start_def)

lemma civil_up_ok:
  "0 \<le> d \<Longrightarrow> civil_up y d = (y', d') \<Longrightarrow> 0 \<le> d' \<and> d' < year_days y' \<and> year_start y' + d' = year_start y + d"
proof (induction y d rule: civil_up.induct)
  case (1 y d)
  then show ?case using year_start_step [of y] by (cases "d < year_days y") (auto simp: civil_up.simps [of y d])
qed

lemma civil_down_ok:
  "d < year_days y \<Longrightarrow> civil_down y d = (y', d') \<Longrightarrow> 0 \<le> d' \<and> d' < year_days y' \<and> year_start y' + d' = year_start y + d"
proof (induction y d rule: civil_down.induct)
  case (1 y d)
  then show ?case using year_start_step [of "y - 1"] by (cases "0 \<le> d") (auto simp: civil_down.simps [of y d])
qed

lemma month_up_ok:
  assumes "0 \<le> d" "d < sum_list ms" "month_up ms k d = (k', d')"
  shows "\<exists>j < length ms. k' = k + int j \<and> 0 \<le> d' \<and> d' < ms ! j \<and> sum_list (take j ms) + d' = d"
  using assms
proof (induction ms arbitrary: k d)
  case (Cons m ms)
  show ?case
  proof (cases "d < m")
    case True
    then show ?thesis using Cons.prems by (intro exI [of _ 0]) auto
  next
    case False
    with Cons.IH [of "d - m" "k + 1"] Cons.prems obtain j where
      "j < length ms" "k' = k + 1 + int j" "0 \<le> d'" "d' < ms ! j" "sum_list (take j ms) + d' = d - m" by auto
    then show ?thesis by (intro exI [of _ "Suc j"]) auto
  qed
qed simp

lemma month_lengths_sum: "sum_list (month_lengths y) = year_days y" "length (month_lengths y) = 12"
  by (simp_all add: month_lengths_def year_days_def)

lemma month_length_le: "j < 12 \<Longrightarrow> month_lengths y ! j \<le> 31"
proof -
  assume "j < 12"
  then have "month_lengths y ! j \<in> set (month_lengths y)" by (simp add: month_lengths_sum(2))
  then show ?thesis by (auto simp: month_lengths_def split: if_splits)
qed

text \<open>The ranges of the fields, and that \<open>gmtime\<close> inverts \<open>timegm\<close>.\<close>

definition tm_ok :: "tm \<Rightarrow> bool" where
  "tm_ok x \<longleftrightarrow> 0 \<le> tm_sec x \<and> tm_sec x < 60 \<and> 0 \<le> tm_min x \<and> tm_min x < 60 \<and> 0 \<le> tm_hour x \<and> tm_hour x < 24 \<and>
     1 \<le> tm_mday x \<and> tm_mday x \<le> 31 \<and> 0 \<le> tm_mon x \<and> tm_mon x < 12 \<and> 0 \<le> tm_wday x \<and> tm_wday x < 7"

lemma gmtime_ok:
  "tm_ok (gmtime t)" "timegm (gmtime t) = t"
  "year_start (tm_year (gmtime t) + 1900) * 86400 \<le> t" "t < year_start (tm_year (gmtime t) + 1901) * 86400"
proof -
  define days s where ds: "days = t div 86400" "s = t mod 86400"
  obtain y d where yd: "(if 0 \<le> days then civil_up 1970 days else civil_down 1970 days) = (y, d)" by fastforce
  have c: "0 \<le> d" "d < year_days y" "year_start y + d = days"
    using yd civil_up_ok [of days 1970 y d] civil_down_ok [of days 1970 y d] by (auto simp: year_days_def split: if_splits)
  obtain mon md where m: "month_up (month_lengths y) 0 d = (mon, md)" by fastforce
  from month_up_ok [OF c(1) _ m] c(2) month_lengths_sum obtain j where
    j: "j < 12" "mon = int j" "0 \<le> md" "md < month_lengths y ! j" "sum_list (take j (month_lengths y)) + md = d" by auto
  have g: "gmtime t = \<lparr>tm_sec = s mod 60, tm_min = s div 60 mod 60, tm_hour = s div 3600, tm_mday = md + 1, tm_mon = mon, tm_year = y - 1900,
      tm_wday = (days + 4) mod 7, tm_isdst = 0\<rparr>"
    using yd m by (simp add: gmtime_def Let_def flip: ds)
  have s: "0 \<le> s" "s < 86400" "t = days * 86400 + s" using ds by simp_all
  have "s div 3600 * 3600 + s div 60 mod 60 * 60 + s mod 60 = s"
  proof -
    have "s div 3600 = s div 60 div 60" by (simp add: zdiv_zmult2_eq [of 60 s 60, simplified])
    then show ?thesis using div_mult_mod_eq [of s 60] div_mult_mod_eq [of "s div 60" 60] by linarith
  qed
  then show "timegm (gmtime t) = t" unfolding g using j(2,5) c(3) s(3) by (simp add: timegm_def)
  show "tm_ok (gmtime t)" unfolding g using s(1,2) j month_length_le [OF j(1), of y] by (auto simp: tm_ok_def)
  show "year_start (tm_year (gmtime t) + 1900) * 86400 \<le> t" unfolding g using c(1,3) s by simp
  have "days < year_start (y + 1)" using c year_start_step [of y] by simp
  then show "t < year_start (tm_year (gmtime t) + 1901) * 86400" unfolding g using s by (simp add: add.commute)
qed

lemma gmtime_year:
  assumes "year_start a * 86400 \<le> t" "t < year_start (b + 1) * 86400"
  shows "a \<le> tm_year (gmtime t) + 1900" "tm_year (gmtime t) + 1900 \<le> b"
proof -
  let ?y = "tm_year (gmtime t) + 1900"
  have lt: "t < year_start (?y + 1) * 86400" using gmtime_ok(4) [of t] by (simp add: add.assoc)
  show "a \<le> ?y"
  proof (rule ccontr)
    assume "\<not> a \<le> ?y"
    then have "year_start (?y + 1) \<le> year_start a" by (intro year_start_mono) simp
    with lt assms(1) show False by linarith
  qed
  show "?y \<le> b"
  proof (rule ccontr)
    assume "\<not> ?y \<le> b"
    then have "year_start (b + 1) \<le> year_start ?y" by (intro year_start_mono) simp
    with gmtime_ok(3) [of t] assms(2) show False by linarith
  qed
qed

section \<open>The text of a date\<close>

lemma fields_token: "set a \<inter> set delim = {} \<Longrightarrow> c \<in> set delim \<Longrightarrow> Kore_Str.fields delim (a @ c # r) = a # Kore_Str.fields delim r"
  by (induction a) auto

lemma fields_last: "set a \<inter> set delim = {} \<Longrightarrow> Kore_Str.fields delim a = [a]"
  by (induction a) auto

lemma dec_nat_ne [simp]: "dec_nat n \<noteq> []"
  by (simp add: dec_nat.simps [of n])

lemma pad2_digits: "c \<in> set (pad2 n) \<Longrightarrow> isdigit c" "pad2 n \<noteq> []"
proof -
  have "isdigit 48" by (simp add: isdigit_def)
  then show "c \<in> set (pad2 n) \<Longrightarrow> isdigit c" by (auto simp: pad2_def dest: dec_nat_digits split: if_splits)
  show "pad2 n \<noteq> []" by (simp add: pad2_def)
qed

lemma pad2_decimal:
  assumes "0 \<le> n"
  shows "is_decimal (pad2 n) n"
proof -
  have "digits_val 10 (48 # ds) = digits_val 10 ds" for ds by (simp add: digits_val_def digit_val_def isdigit_def)
  then have v: "digits_val 10 (pad2 n) = nat n" by (simp add: pad2_def digits_val_dec_nat)
  show ?thesis unfolding is_decimal_def
    by (intro exI [of _ "[]"] exI [of _ "pad2 n"]) (use assms pad2_digits v in \<open>auto simp: list_all_iff bs_def\<close>)
qed

lemma dec_int_decimal: "0 \<le> n \<Longrightarrow> is_decimal (dec_int n) n"
  unfolding is_decimal_def
  by (intro exI [of _ "[]"] exI [of _ "dec_int n"])
    (simp add: dec_int_def list_all_iff digits_val_dec_nat dec_nat_digits bs_def)

lemma strtonum_decimal:
  assumes "is_decimal s v" "mn \<le> v" "v \<le> mx" "0 \<le> mn" "mx < 10000"
  shows "kore_strtonum s 10 mn mx = (v, KORE_RESULT_OK)"
  using assms kore_strtonum_OK_iff [of s mn mx v] by (simp add: LLONG_MIN_def LLONG_MAX_def)

lemma no_sep [simp]: "32 \<notin> set (pad2 n)" "58 \<notin> set (pad2 n)" "0 \<le> n \<Longrightarrow> 32 \<notin> set (dec_int n)"
proof -
  have "\<not> isdigit 32" "\<not> isdigit 58" by (simp_all add: isdigit_def)
  then show "32 \<notin> set (pad2 n)" "58 \<notin> set (pad2 n)" "0 \<le> n \<Longrightarrow> 32 \<notin> set (dec_int n)"
    using pad2_digits(1) [of _ n] dec_nat_digits [of _ "nat n"] by (auto simp: dec_int_def)
qed

lemma day_name:
  assumes "0 \<le> k" "k < 7"
  shows "32 \<notin> set (day_names ! nat k)" "day_names ! nat k \<noteq> []"
proof -
  have "day_names ! nat k \<in> set day_names" using assms by (intro nth_mem) (simp add: day_names_def)
  then show "32 \<notin> set (day_names ! nat k)" "day_names ! nat k \<noteq> []" by (auto simp: day_names_def bs_def)
qed

lemma month_name:
  assumes "0 \<le> k" "k < 12"
  shows "32 \<notin> set (fst (month_names ! nat k))" "fst (month_names ! nat k) \<noteq> []" "month_find month_names (fst (month_names ! nat k)) = Some k"
proof -
  have all: "\<forall>j \<in> set [0..<12]. 32 \<notin> set (fst (month_names ! j)) \<and> fst (month_names ! j) \<noteq> [] \<and>
      month_find month_names (fst (month_names ! j)) = Some (int j)"
    by code_simp
  have "nat k \<in> set [0..<12]" "int (nat k) = k" using assms by auto
  with all show "32 \<notin> set (fst (month_names ! nat k))" "fst (month_names ! nat k) \<noteq> []"
    "month_find month_names (fst (month_names ! nat k)) = Some k" by metis+
qed

definition clock :: "tm \<Rightarrow> byte list" where
  "clock x = pad2 (tm_hour x) @ bs '':'' @ pad2 (tm_min x) @ bs '':'' @ pad2 (tm_sec x)"

lemma split_clock: "kore_split_string (clock x) (bs '':'') 5 = [pad2 (tm_hour x), pad2 (tm_min x), pad2 (tm_sec x)]"
proof -
  have n: "set (pad2 k) \<inter> set (bs '':'') = {}" for k by (simp add: bs_def)
  have "clock x = pad2 (tm_hour x) @ 58 # pad2 (tm_min x) @ 58 # pad2 (tm_sec x)" by (simp add: clock_def bs_def)
  then have "Kore_Str.fields (bs '':'') (clock x) = [pad2 (tm_hour x), pad2 (tm_min x), pad2 (tm_sec x)]"
    using fields_token [OF n, of 58] fields_last [OF n] by (simp add: bs_def)
  then show ?thesis using pad2_digits(2) kore_split_string_fields [of "clock x" "bs '':''" 5] by simp
qed

lemma split_date:
  assumes "tm_ok x" "0 \<le> tm_year x + 1900"
  shows "kore_split_string (strftime_date x) (bs '' '') 7 =
    [day_names ! nat (tm_wday x) @ [44], pad2 (tm_mday x), fst (month_names ! nat (tm_mon x)), dec_int (tm_year x + 1900), clock x, bs ''GMT'']"
proof -
  let ?d = "day_names ! nat (tm_wday x)" and ?m = "fst (month_names ! nat (tm_mon x))" and ?y = "dec_int (tm_year x + 1900)"
  note k = day_name [of "tm_wday x"] month_name [of "tm_mon x"]
  have n: "set (?d @ [44]) \<inter> set (bs '' '') = {}" "set ?m \<inter> set (bs '' '') = {}" "set ?y \<inter> set (bs '' '') = {}"
    "set (pad2 i) \<inter> set (bs '' '') = {}" "set (clock x) \<inter> set (bs '' '') = {}" "set (bs ''GMT'') \<inter> set (bs '' '') = {}" for i
    using k assms by (auto simp: tm_ok_def bs_def clock_def)
  have ne: "?m \<noteq> []" "?y \<noteq> []" "clock x \<noteq> []"
    using k assms by (auto simp: tm_ok_def dec_int_def clock_def bs_def)
  have "strftime_date x = (?d @ [44]) @ 32 # pad2 (tm_mday x) @ 32 # ?m @ 32 # ?y @ 32 # clock x @ 32 # bs ''GMT''"
    by (simp add: strftime_date_def clock_def bs_def)
  then have "Kore_Str.fields (bs '' '') (strftime_date x) = [?d @ [44], pad2 (tm_mday x), ?m, ?y, clock x, bs ''GMT'']"
    using fields_token [OF n(1), of 32] fields_token [OF n(2), of 32] fields_token [OF n(3), of 32] fields_token [OF n(4), of 32]
      fields_token [OF n(5), of 32] fields_last [OF n(6)] by (simp only:) (simp add: bs_def)
  then show ?thesis using ne pad2_digits(2) kore_split_string_fields [of "strftime_date x" "bs '' ''" 7] by (simp add: bs_def)
qed

text \<open>What is assumed of \<open>mktime\<close>: in a zone whose offset is \<open>gmtoff\<close> while the flag for daylight saving is \<open>isdst\<close>, it reads a time as local time.\<close>

definition local_zone :: "(tm \<Rightarrow> int) \<Rightarrow> int \<Rightarrow> int \<Rightarrow> bool" where
  "local_zone mktime isdst gmtoff \<longleftrightarrow> (\<forall>x. tm_ok x \<longrightarrow> tm_isdst x = isdst \<longrightarrow> mktime x = timegm x - gmtoff)"

text \<open>The dates \<open>kore_date_to_time\<close> accepts, years 1900 to 2068.\<close>

definition date_range :: "int \<Rightarrow> bool" where
  "date_range t \<longleftrightarrow> - 2208988800 \<le> t \<and> t < 3124224000"

lemma date_range_year: "date_range t \<Longrightarrow> 1900 \<le> tm_year (gmtime t) + 1900 \<and> tm_year (gmtime t) + 1900 \<le> 2068"
  using gmtime_year [of 1900 t 2068] by (simp add: date_range_def year_start_def)

lemma date_to_time_strftime:
  assumes "date_range t" "t \<noteq> - 1" "local_zone mktime isdst gmtoff"
  shows "kore_date_to_time mktime isdst gmtoff (strftime_date (gmtime t)) = t"
proof -
  let ?x = "gmtime t"
  have x: "tm_ok ?x" by (rule gmtime_ok)
  have y: "1900 \<le> tm_year ?x + 1900" "tm_year ?x + 1900 \<le> 2068" using date_range_year [OF assms(1)] by auto
  have sp: "kore_split_string (strftime_date ?x) (bs '' '') 7 =
    [day_names ! nat (tm_wday ?x) @ [44], pad2 (tm_mday ?x), fst (month_names ! nat (tm_mon ?x)), dec_int (tm_year ?x + 1900), clock ?x, bs ''GMT'']"
    by (rule split_date [OF x]) (use y in simp)
  have num: "kore_strtonum (dec_int (tm_year ?x + 1900)) 10 1900 2068 = (tm_year ?x + 1900, KORE_RESULT_OK)"
    "kore_strtonum (pad2 (tm_mday ?x)) 10 1 31 = (tm_mday ?x, KORE_RESULT_OK)" "kore_strtonum (pad2 (tm_hour ?x)) 10 0 23 = (tm_hour ?x, KORE_RESULT_OK)"
    "kore_strtonum (pad2 (tm_min ?x)) 10 0 59 = (tm_min ?x, KORE_RESULT_OK)" "kore_strtonum (pad2 (tm_sec ?x)) 10 0 60 = (tm_sec ?x, KORE_RESULT_OK)"
    using x y by (auto simp: tm_ok_def intro!: strtonum_decimal dec_int_decimal pad2_decimal)
  have mon: "month_find month_names (fst (month_names ! nat (tm_mon ?x))) = Some (tm_mon ?x)" using month_name(3) x by (simp add: tm_ok_def)
  let ?z = "?x\<lparr>tm_wday := 0, tm_isdst := isdst\<rparr>"
  have "mktime ?z = timegm ?z - gmtoff" using assms(3) x by (simp add: local_zone_def tm_ok_def)
  moreover have "timegm ?z = t" using gmtime_ok(2) [of t] by (simp add: timegm_def)
  moreover have "?z = \<lparr>tm_sec = tm_sec ?x, tm_min = tm_min ?x, tm_hour = tm_hour ?x, tm_mday = tm_mday ?x, tm_mon = tm_mon ?x,
      tm_year = tm_year ?x + 1900 - 1900, tm_wday = 0, tm_isdst = isdst\<rparr>" by simp
  ultimately show ?thesis using assms(2) num mon
    unfolding kore_date_to_time_def Let_def sp by (simp add: split_clock KORE_RESULT_OK_def KORE_RESULT_ERROR_def)
qed

section \<open>The cache\<close>

text \<open>The cache holds the text of its time, or nothing yet.\<close>

definition cache_ok :: "date_cache \<Rightarrow> bool" where
  "cache_ok dc \<longleftrightarrow> dc = date_cache_init \<or> tbuf dc = strftime_date (gmtime (last_time dc))"

lemma length_pad2: "0 \<le> n \<Longrightarrow> n < 100 \<Longrightarrow> length (pad2 n) = 2"
  by (auto simp: pad2_def dec_nat.simps)

lemma length_dec_nat_4:
  assumes "1000 \<le> n" "n \<le> 9999"
  shows "length (dec_nat n) = 4"
proof -
  have "100 \<le> n div 10" "10 \<le> n div 10 div 10" "1 \<le> n div 10 div 10 div 10" "n div 10 div 10 div 10 < 10"
    using div_le_mono [OF assms(1), of 10] div_le_mono [OF assms(1), of 100] div_le_mono [OF assms(1), of 1000] div_le_mono [OF assms(2), of 1000]
    by (simp_all add: div_mult2_eq [symmetric])
  then show ?thesis using assms
    by (simp add: dec_nat.simps [of n] dec_nat.simps [of "n div 10"] dec_nat.simps [of "n div 10 div 10"] dec_nat.simps [of "n div 10 div 10 div 10"]
        del: div_mult2_eq)
qed

lemma length_strftime:
  assumes "tm_ok x" "1000 \<le> tm_year x + 1900" "tm_year x + 1900 \<le> 9999"
  shows "length (strftime_date x) = 29"
proof -
  have "length (day_names ! nat k) = 3" if "0 \<le> k" "k < 7" for k
  proof -
    have "day_names ! nat k \<in> set day_names" using that by (intro nth_mem) (simp add: day_names_def)
    then show ?thesis by (auto simp: day_names_def bs_def)
  qed
  moreover have "length (fst (month_names ! nat k)) = 3" if "0 \<le> k" "k < 12" for k
  proof -
    have "month_names ! nat k \<in> set month_names" using that by (intro nth_mem) (simp add: month_names_def)
    then show ?thesis by (auto simp: month_names_def bs_def)
  qed
  moreover have "length (dec_int (tm_year x + 1900)) = 4" using assms(2,3) length_dec_nat_4 [of "nat (tm_year x + 1900)"] by (simp add: dec_int_def)
  ultimately show ?thesis using assms(1) by (simp add: strftime_date_def tm_ok_def length_pad2 bs_def)
qed

lemma kore_time_to_date_ok:
  assumes "cache_ok dc" "date_range t" "t \<noteq> 0"
  shows "\<exists>dc'. kore_time_to_date junk t dc = Inr (Some (strftime_date (gmtime t)), dc') \<and> cache_ok dc'"
proof -
  have y: "1900 \<le> tm_year (gmtime t) + 1900" "tm_year (gmtime t) + 1900 \<le> 2068" using date_range_year [OF assms(2)] by auto
  then have "length (strftime_date (gmtime t)) = 29" by (intro length_strftime gmtime_ok) simp_all
  then show ?thesis using assms y by (auto simp: kore_time_to_date_def cache_ok_def Let_def date_cache_init_def)
qed

section \<open>Properties\<close>

text \<open>The text the C function gives to its caller, as the static files use it.\<close>

definition date_header :: "byte list \<Rightarrow> date_cache \<Rightarrow> int \<Rightarrow> byte list" where
  "date_header junk dc t = (case kore_time_to_date junk t dc of Inr (Some s, _) \<Rightarrow> s | _ \<Rightarrow> [])"

lemma add_static_headers_keeps: "set (rs_headers r) \<subseteq> set (rs_headers (add_static_headers hs r))"
  by (induction hs arbitrary: r) (fastforce simp: resp_header_def)+


definition style_file :: static_file where
  "style_file = \<lparr>sf_path = bs ''/a.css'', sf_content_type = bs ''text/css'', sf_data = [], sf_last_mod = 951782400\<rparr>"

definition dated_files :: static_env where
  "dated_files = no_files\<lparr>st_time_to_date := date_header [] date_cache_init, st_date_to_time := kore_date_to_time (\<lambda>x. timegm x - 3600) 0 3600\<rparr>"


text \<open>The cache starts as if it held the text for time 0, but is empty: the date of the epoch is the empty text until another date was printed.\<close>

theorem date_of_epoch_empty: "kore_time_to_date junk 0 date_cache_init = Inr (Some [], date_cache_init)"
  by (simp add: kore_time_to_date_def date_cache_init_def)

end
