(* ===== verification/Sparc_Config.thy ===== *)
theory Sparc_Config
  imports Kore_Domain "HOL-Library.Multiset"
begin

text \<open>
  The embedded server, \<open>sparc/detail/embed.cpp\<close>: the settings of the namespace \<open>config\<close>, the listening sockets, \<open>App::initConfig\<close>, which
  registers the one page handler of the framework, and the start of \<open>App::run\<close>. The globals of the server are the record \<open>settings\<close>.

  A string is a pointer: \<open>Null\<close>, to a block of \<open>kore_malloc\<close> (\<open>Heap\<close>), or to anything else (\<open>Foreign\<close>: a literal, or what an uninitialised
  field holds). Freeing a foreign pointer reads a size in front of memory that has none.
\<close>

section \<open>Settings\<close>

datatype cptr = Null | Heap "byte list" | Foreign "byte list"

text \<open>\<open>bindIp\<close>, \<open>bindPort\<close>, \<open>accessLog\<close> and \<open>sessionTimeout\<close> are fields of \<open>App\<close>, the others globals of the server.\<close>

record settings =
  g_bindIp :: cptr
  g_bindPort :: cptr
  g_accessLog :: cptr
  g_sessionTimeout :: "64 word"
  g_runas_user :: cptr
  g_pidfile :: cptr
  g_body_disk_path :: cptr
  g_chroot_path :: cptr
  g_header_max :: u16
  g_body_max :: u64
  g_body_disk_offload :: u64
  g_hsts_enable :: u64
  g_keepalive_time :: u16
  g_request_limit :: u32
  g_ws_maxframe :: u64
  g_ws_timeout :: u64
  g_worker_count :: byte
  g_worker_max_connections :: u32
  g_rlimit_nofiles :: u32
  g_accept_threshold :: u32
  g_set_affinity :: byte
  g_socket_backlog :: u32
  g_foreground :: byte
  g_debug :: byte
  g_skip_runas :: byte
  g_skip_chroot :: byte
  g_tab :: modtab

definition configString :: "cptr \<Rightarrow> byte list option \<Rightarrow> cptr res" where
  "configString p v =
     (case v of
        None \<Rightarrow> Inr p
      | Some s \<Rightarrow> (case p of Foreign _ \<Rightarrow> Inl Out_of_bounds | _ \<Rightarrow> Inr (Heap s)))"

text \<open>A number is set when it is not negative as a signed number of its width, and cast to the width of the variable.\<close>

definition set_num :: "'a::len word \<Rightarrow> 'b::len word \<Rightarrow> 'b word" where
  "set_num v old = (if 0 \<le> sint v then ucast v else old)"

definition config_ip :: "byte list option \<Rightarrow> settings \<Rightarrow> settings res" where
  "config_ip v s = rbind (configString (g_bindIp s) v) (\<lambda>p. Inr (s\<lparr>g_bindIp := p\<rparr>))"
definition config_port :: "byte list option \<Rightarrow> settings \<Rightarrow> settings res" where
  "config_port v s = rbind (configString (g_bindPort s) v) (\<lambda>p. Inr (s\<lparr>g_bindPort := p\<rparr>))"
definition config_accessLog :: "byte list option \<Rightarrow> settings \<Rightarrow> settings res" where
  "config_accessLog v s = rbind (configString (g_accessLog s) v) (\<lambda>p. Inr (s\<lparr>g_accessLog := p\<rparr>))"
definition config_user :: "byte list option \<Rightarrow> settings \<Rightarrow> settings res" where
  "config_user v s = rbind (configString (g_runas_user s) v) (\<lambda>p. Inr (s\<lparr>g_runas_user := p\<rparr>))"
definition config_pidFile :: "byte list option \<Rightarrow> settings \<Rightarrow> settings res" where
  "config_pidFile v s = rbind (configString (g_pidfile s) v) (\<lambda>p. Inr (s\<lparr>g_pidfile := p\<rparr>))"
definition config_httpBodyDiskPath :: "byte list option \<Rightarrow> settings \<Rightarrow> settings res" where
  "config_httpBodyDiskPath v s = rbind (configString (g_body_disk_path s) v) (\<lambda>p. Inr (s\<lparr>g_body_disk_path := p\<rparr>))"
definition config_chroot :: "byte list option \<Rightarrow> settings \<Rightarrow> settings res" where
  "config_chroot v s = rbind (configString (g_chroot_path s) v) (\<lambda>p. Inr (s\<lparr>g_chroot_path := p\<rparr>))"

definition config_sessionTimeout :: "64 word \<Rightarrow> settings \<Rightarrow> settings" where
  "config_sessionTimeout v s = (if sint v \<noteq> - (2 ^ 63 - 1) then s\<lparr>g_sessionTimeout := v\<rparr> else s)"

text \<open>\<open>a\<close> is the address of a new domain. The result of \<open>kore_domain_new\<close> is not looked at.\<close>

definition config_domain :: "mod_env \<Rightarrow> nat \<Rightarrow> byte list option \<Rightarrow> settings \<Rightarrow> settings res" where
  "config_domain env a v s =
     (case v of
        None \<Rightarrow> Inr s
      | Some name \<Rightarrow>
          (case primary_dom (g_tab s) of
             None \<Rightarrow> rbind (kore_domain_new env a (g_tab s) name) (\<lambda>(r, t). Inr (s\<lparr>g_tab := t\<rparr>))
           | Some d \<Rightarrow>
               (case doms (g_tab s) d of
                  None \<Rightarrow> Inl Use_after_free
                | Some dm \<Rightarrow> Inr (s\<lparr>g_tab := (g_tab s)\<lparr>doms := (doms (g_tab s))(d \<mapsto> dm\<lparr>d_domain := name\<rparr>)\<rparr>\<rparr>))))"

definition config_maxHttpHeader :: "u16 \<Rightarrow> settings \<Rightarrow> settings" where
  "config_maxHttpHeader v s = s\<lparr>g_header_max := set_num v (g_header_max s)\<rparr>"
definition config_maxHttpBody :: "u64 \<Rightarrow> settings \<Rightarrow> settings" where
  "config_maxHttpBody v s = s\<lparr>g_body_max := set_num v (g_body_max s)\<rparr>"
definition config_httpBodyDiskOffload :: "u64 \<Rightarrow> settings \<Rightarrow> settings" where
  "config_httpBodyDiskOffload v s = s\<lparr>g_body_disk_offload := set_num v (g_body_disk_offload s)\<rparr>"
definition config_httpHsts :: "u64 \<Rightarrow> settings \<Rightarrow> settings" where
  "config_httpHsts v s = s\<lparr>g_hsts_enable := set_num v (g_hsts_enable s)\<rparr>"
definition config_httpKeepAliveTime :: "u32 \<Rightarrow> settings \<Rightarrow> settings" where
  "config_httpKeepAliveTime v s = s\<lparr>g_keepalive_time := set_num v (g_keepalive_time s)\<rparr>"
definition config_httpRequestLimit :: "u32 \<Rightarrow> settings \<Rightarrow> settings" where
  "config_httpRequestLimit v s = s\<lparr>g_request_limit := set_num v (g_request_limit s)\<rparr>"
definition config_webSocketMaxFrame :: "u64 \<Rightarrow> settings \<Rightarrow> settings" where
  "config_webSocketMaxFrame v s = s\<lparr>g_ws_maxframe := set_num v (g_ws_maxframe s)\<rparr>"
definition config_webSocketTimeout :: "u64 \<Rightarrow> settings \<Rightarrow> settings" where
  "config_webSocketTimeout v s = s\<lparr>g_ws_timeout := set_num v (g_ws_timeout s)\<rparr>"
definition config_workers :: "byte \<Rightarrow> settings \<Rightarrow> settings" where
  "config_workers v s = s\<lparr>g_worker_count := set_num v (g_worker_count s)\<rparr>"
definition config_workerMaxConnections :: "u32 \<Rightarrow> settings \<Rightarrow> settings" where
  "config_workerMaxConnections v s = s\<lparr>g_worker_max_connections := set_num v (g_worker_max_connections s)\<rparr>"
definition config_rlimitNoFiles :: "u32 \<Rightarrow> settings \<Rightarrow> settings" where
  "config_rlimitNoFiles v s = s\<lparr>g_rlimit_nofiles := set_num v (g_rlimit_nofiles s)\<rparr>"
definition config_workerAcceptThreshold :: "u32 \<Rightarrow> settings \<Rightarrow> settings" where
  "config_workerAcceptThreshold v s = s\<lparr>g_accept_threshold := set_num v (g_accept_threshold s)\<rparr>"
definition config_workerSetAffinity :: "byte \<Rightarrow> settings \<Rightarrow> settings" where
  "config_workerSetAffinity v s = s\<lparr>g_set_affinity := set_num v (g_set_affinity s)\<rparr>"
definition config_socketBacklog :: "u32 \<Rightarrow> settings \<Rightarrow> settings" where
  "config_socketBacklog v s = s\<lparr>g_socket_backlog := set_num v (g_socket_backlog s)\<rparr>"
definition config_setForeground :: "byte \<Rightarrow> settings \<Rightarrow> settings" where
  "config_setForeground v s = s\<lparr>g_foreground := set_num v (g_foreground s)\<rparr>"
definition config_debug :: "byte \<Rightarrow> settings \<Rightarrow> settings" where
  "config_debug v s = s\<lparr>g_debug := set_num v (g_debug s)\<rparr>"
definition config_skipRunAs :: "byte \<Rightarrow> settings \<Rightarrow> settings" where
  "config_skipRunAs v s = s\<lparr>g_skip_runas := set_num v (g_skip_runas s)\<rparr>"
definition config_skipChroot :: "byte \<Rightarrow> settings \<Rightarrow> settings" where
  "config_skipChroot v s = s\<lparr>g_skip_chroot := set_num v (g_skip_chroot s)\<rparr>"

text \<open>\<open>App::initConfig\<close>. \<open>d\<close> and \<open>a\<close> are the addresses of the domain and the handler. The function falls off its end without a result except when
  the registration fails, which is the result \<open>Some False\<close>.\<close>

definition initConfig :: "mod_env \<Rightarrow> nat \<Rightarrow> nat \<Rightarrow> settings \<Rightarrow> (bool option \<times> settings) res" where
  "initConfig env d a s =
     rbind (config_ip (Some (bs ''127.0.0.1'')) s) (\<lambda>s1.
     rbind (config_port (Some (bs ''1080'')) s1) (\<lambda>s2.
     rbind (config_domain env d (Some (bs ''localhost'')) s2) (\<lambda>s3.
       let s4 = config_sessionTimeout 180000 (config_skipChroot 1 (config_skipRunAs 1 (config_setForeground 1 (config_workers 1 s3)))) in
       case primary_dom (g_tab s4) of
         None \<Rightarrow> Inr (None, s4)
       | Some p \<Rightarrow>
           (case doms (g_tab s4) p of
              None \<Rightarrow> Inl Use_after_free
            | Some dm \<Rightarrow>
                rbind (kore_module_handler_new env a (g_tab s4) (bs ''/'') (d_domain dm) (bs ''sparcxx'') None HANDLER_TYPE_DYNAMIC) (\<lambda>(status, t).
                  Inr (if status \<noteq> KORE_RESULT_OK then Some False else None, s4\<lparr>g_tab := t\<rparr>))))))"

section \<open>Listening sockets\<close>

text \<open>The listeners and the resources in use: open descriptors, listener structures and address lists.\<close>

record netstate =
  listeners :: "(int \<times> nat option) list"
  nlisteners :: byte
  open_fds :: "int list"
  live_listeners :: nat
  live_addrinfo :: nat

text \<open>What the system calls return: the family of the first address (\<open>None\<close>: \<open>getaddrinfo\<close> fails), the new socket (\<open>-1\<close>: an error), and
  whether the others succeed; \<open>b_sym\<close> is \<open>kore_module_getsym\<close>.\<close>

record bind_env =
  b_family :: "int option"
  b_socket :: int
  b_nonblock :: bool
  b_reuse :: bool
  b_bind :: bool
  b_listen :: bool
  b_sym :: "byte list \<Rightarrow> nat option"

definition AF_INET :: int where "AF_INET = 2"
definition AF_INET6 :: int where "AF_INET6 = 10"

definition close_fd :: "int \<Rightarrow> netstate \<Rightarrow> netstate" where
  "close_fd fd n = n\<lparr>open_fds := remove1 fd (open_fds n)\<rparr>"

definition free_listener :: "netstate \<Rightarrow> netstate" where
  "free_listener n = n\<lparr>live_listeners := live_listeners n - 1\<rparr>"

definition freeaddrinfo :: "netstate \<Rightarrow> netstate" where
  "freeaddrinfo n = n\<lparr>live_addrinfo := live_addrinfo n - 1\<rparr>"

definition kore_server_bind :: "bind_env \<Rightarrow> byte list option \<Rightarrow> netstate \<Rightarrow> (int \<times> netstate) res" where
  "kore_server_bind env ccb n =
     (case b_family env of
        None \<Rightarrow> Inl (Fatal ''getaddrinfo'')
      | Some fam \<Rightarrow>
          let n1 = n\<lparr>live_addrinfo := live_addrinfo n + 1, live_listeners := live_listeners n + 1\<rparr>; addrtype = fam mod 256 in
          if addrtype \<noteq> AF_INET \<and> addrtype \<noteq> AF_INET6 then Inl (Fatal ''getaddrinfo(): unknown address family'')
          else if b_socket env = - 1 then Inr (KORE_RESULT_ERROR, freeaddrinfo (free_listener n1))
          else
            let fd = b_socket env; n2 = n1\<lparr>open_fds := fd # open_fds n1\<rparr> in
            if \<not> b_nonblock env then Inr (KORE_RESULT_ERROR, freeaddrinfo (free_listener n2))
            else if \<not> b_reuse env then Inr (KORE_RESULT_ERROR, freeaddrinfo (free_listener (close_fd fd n2)))
            else if \<not> b_bind env then Inr (KORE_RESULT_ERROR, freeaddrinfo (free_listener (close_fd fd n2)))
            else
              let n3 = freeaddrinfo n2;
                  add = (\<lambda>cb. Inr (KORE_RESULT_OK, n3\<lparr>nlisteners := nlisteners n3 + 1, listeners := (fd, cb) # listeners n3\<rparr>)) in
              if \<not> b_listen env then Inr (KORE_RESULT_ERROR, free_listener (close_fd fd n3))
              else case ccb of
                  None \<Rightarrow> add None
                | Some name \<Rightarrow>
                    (case b_sym env name of
                       None \<Rightarrow> Inr (KORE_RESULT_ERROR, free_listener (close_fd fd n3))
                     | Some cb \<Rightarrow> add (Some cb)))"

function kore_listener_cleanup :: "netstate \<Rightarrow> netstate" where
  "kore_listener_cleanup n =
     (case listeners n of
        [] \<Rightarrow> n
      | (fd, cb) # ls \<Rightarrow> kore_listener_cleanup (free_listener (close_fd fd (n\<lparr>listeners := ls\<rparr>))))"
  by pat_completeness auto
termination by (relation "measure (\<lambda>n. length (listeners n))") (auto simp: close_fd_def free_listener_def)

declare kore_listener_cleanup.simps [simp del]

text \<open>\<open>App::run\<close>: \<open>env\<close> is what the system calls of \<open>kore_server_bind\<close> return and \<open>errno\<close> the error number after it, \<open>mkdir\<close> the result of
  \<open>mkdir\<close> with the error number, which keeps an older value when the call succeeds; \<open>serve\<close> is what \<open>kore_server_start\<close> and
  \<open>kore_worker_shutdown\<close> do to the sockets. The result is the exit code.\<close>

definition EXIT_FAILURE :: int where "EXIT_FAILURE = 1"
definition EEXIST :: int where "EEXIST = 17"

definition app_run :: "settings \<Rightarrow> bind_env \<Rightarrow> int \<Rightarrow> int \<times> int \<Rightarrow> (netstate \<Rightarrow> netstate) \<Rightarrow> netstate \<Rightarrow> (int \<times> netstate) res" where
  "app_run s env errno mkdir serve n =
     rbind (kore_server_bind env None n) (\<lambda>(r, n1).
       if r = KORE_RESULT_ERROR then Inr (errno, n1)
       else if g_body_disk_offload s > 0 \<and> fst mkdir \<noteq> - 1 \<and> snd mkdir \<noteq> EEXIST then Inr (EXIT_FAILURE, n1)
       else Inr (0, kore_listener_cleanup (serve n1)))"

section \<open>The settings are kept\<close>

text \<open>A number that is not negative and fits the variable is stored as it is; what does not fit is cut off.\<close>

lemma set_num_value:
  fixes v :: "'a::len word"
  assumes "0 \<le> sint v" "uint v < 2 ^ LENGTH('b)"
  shows "uint (set_num v old :: 'b::len word) = uint v"
  using assms by (simp add: set_num_def unsigned_ucast_eq take_bit_int_eq_self)

text \<open>The keep-alive time is taken as 32 bits and stored in 16: a time of 65536 seconds switches keep-alive off.\<close>

theorem keepalive_cut: "g_keepalive_time (config_httpKeepAliveTime 65536 s) = 0"
  by (simp add: config_httpKeepAliveTime_def set_num_def)

text \<open>A string setting that does not point to a block of the allocator cannot be set: the old value is freed. The file of the process number and
  the directory for bodies start as literals; the address and the port as whatever a new \<open>App\<close> holds there.\<close>

theorem config_frees_foreign:
  assumes "g_pidfile s = Foreign x"
  shows "config_pidFile (Some v) s = Inl Out_of_bounds"
  using assms by (simp add: config_pidFile_def configString_def)

theorem initConfig_uninitialised:
  assumes "g_bindIp s = Foreign x"
  shows "initConfig env d a s = Inl Out_of_bounds"
  using assms by (simp add: initConfig_def config_ip_def configString_def)

section \<open>Sockets\<close>

text \<open>A bind that fails leaves everything as it was, apart from the case below; one that succeeds adds the listener in front.\<close>

lemma kore_server_bind_cases:
  assumes "kore_server_bind env ccb n = Inr (r, n')"
  shows "r = KORE_RESULT_ERROR \<and> n' = (if b_socket env \<noteq> - 1 \<and> \<not> b_nonblock env then n\<lparr>open_fds := b_socket env # open_fds n\<rparr> else n) \<or>
    r = KORE_RESULT_OK \<and> n' = n\<lparr>listeners := (b_socket env, Option.bind ccb (b_sym env)) # listeners n, nlisteners := nlisteners n + 1,
      open_fds := b_socket env # open_fds n, live_listeners := live_listeners n + 1\<rparr>"
  using assms
  by (auto simp: kore_server_bind_def Let_def free_listener_def freeaddrinfo_def close_fd_def split: option.splits if_splits)

text \<open>Calls of \<open>kore_server_bind\<close> one after the other.\<close>

fun binds :: "(bind_env \<times> byte list option) list \<Rightarrow> netstate \<Rightarrow> netstate res" where
  "binds [] n = Inr n"
| "binds ((env, ccb) # bes) n = rbind (kore_server_bind env ccb n) (\<lambda>(r, n1). binds bes n1)"

definition listening :: "netstate \<Rightarrow> bool" where
  "listening n \<longleftrightarrow> mset (open_fds n) = mset (map fst (listeners n)) \<and> live_listeners n = length (listeners n) \<and> live_addrinfo n = 0"

lemma kore_server_bind_listening:
  assumes "listening n" "kore_server_bind env ccb n = Inr (r, n')" "b_socket env = - 1 \<or> b_nonblock env"
  shows "listening n'"
  using kore_server_bind_cases [OF assms(2)] assms(1,3) by (auto simp: listening_def)

lemma cleanup_all:
  assumes "listening n"
  shows "listening (kore_listener_cleanup n) \<and> listeners (kore_listener_cleanup n) = []"
  using assms
proof (induction n rule: kore_listener_cleanup.induct)
  case (1 n)
  show ?case
  proof (cases "listeners n")
    case Nil
    with 1(2) show ?thesis by (simp add: kore_listener_cleanup.simps [of n])
  next
    case (Cons l ls)
    obtain fd cb where l: "l = (fd, cb)" by fastforce
    let ?n = "free_listener (close_fd fd (n\<lparr>listeners := ls\<rparr>))"
    have "listening ?n" using 1(2) Cons l by (simp add: listening_def free_listener_def close_fd_def)
    from 1(1) [OF Cons l [symmetric] this] Cons l show ?thesis by (simp add: kore_listener_cleanup.simps [of n])
  qed
qed

lemma binds_listening:
  assumes "listening n" "binds bes n = Inr n'" "\<forall>(env, ccb) \<in> set bes. b_socket env = - 1 \<or> b_nonblock env"
  shows "listening n'"
  using assms
proof (induction bes arbitrary: n)
  case (Cons be bes)
  obtain env ccb where be: "be = (env, ccb)" by fastforce
  from Cons.prems(2) be obtain r n1 where n1: "kore_server_bind env ccb n = Inr (r, n1)" "binds bes n1 = Inr n'" by (auto simp: rbind_eq_Inr)
  have "listening n1" using kore_server_bind_listening [OF Cons.prems(1) n1(1)] Cons.prems(3) be by auto
  from Cons.IH [OF this n1(2)] Cons.prems(3) show ?case by auto
qed simp

text \<open>Whatever sockets were bound and whichever calls failed on the way, \<open>kore_listener_cleanup\<close> leaves no descriptor open and no structure allocated, as long
  as every socket could be made non-blocking; where one could not, it stays open.\<close>

theorem listeners_no_leak:
  assumes "binds bes \<lparr>listeners = [], nlisteners = 0, open_fds = [], live_listeners = 0, live_addrinfo = 0\<rparr> = Inr n"
    and "\<forall>(env, ccb) \<in> set bes. b_socket env = - 1 \<or> b_nonblock env"
  shows "open_fds (kore_listener_cleanup n) = [] \<and> live_listeners (kore_listener_cleanup n) = 0 \<and> live_addrinfo (kore_listener_cleanup n) = 0"
proof -
  have "listening \<lparr>listeners = [], nlisteners = 0, open_fds = [], live_listeners = 0, live_addrinfo = 0\<rparr>" by (simp add: listening_def)
  from cleanup_all [OF binds_listening [OF this assms]] show ?thesis by (auto simp: listening_def)
qed

theorem bind_leaks_socket:
  assumes "b_family env = Some AF_INET" and "b_socket env = fd" and "fd \<noteq> - 1" and "\<not> b_nonblock env"
  shows "\<exists>n'. kore_server_bind env ccb n = Inr (KORE_RESULT_ERROR, n') \<and> listeners n' = listeners n \<and> open_fds n' = fd # open_fds n"
  using assms by (simp add: kore_server_bind_def free_listener_def freeaddrinfo_def AF_INET_def)

text \<open>The check of \<open>mkdir\<close> is the wrong way round: when the directory for bodies is created the server ends with a failure, when it cannot be created the server
  runs without it.\<close>

theorem run_refuses_new_directory:
  assumes "kore_server_bind env None n = Inr (KORE_RESULT_OK, n1)" and "g_body_disk_offload s > 0" and "e \<noteq> EEXIST"
  shows "app_run s env err (0, e) serve n = Inr (EXIT_FAILURE, n1) \<and>
    app_run s env err (- 1, e) serve n = Inr (0, kore_listener_cleanup (serve n1))"
  using assms by (simp add: app_run_def KORE_RESULT_OK_def KORE_RESULT_ERROR_def)

text \<open>A server that ran to its end, and kept its listening socket until then, ends with no socket open.\<close>

theorem run_closes_sockets:
  assumes "listening n" "app_run s env err mk (\<lambda>n. n) n = Inr (0, n')" "err \<noteq> 0"
    and "b_socket env = - 1 \<or> b_nonblock env"
  shows "open_fds n' = [] \<and> live_listeners n' = 0"
proof -
  from assms(2,3) obtain r n1 where n1: "kore_server_bind env None n = Inr (r, n1)" "n' = kore_listener_cleanup n1"
    by (auto simp: app_run_def rbind_eq_Inr EXIT_FAILURE_def split: if_splits)
  from cleanup_all [OF kore_server_bind_listening [OF assms(1) n1(1) assms(4)]] n1(2) show ?thesis by (auto simp: listening_def)
qed

section \<open>Properties\<close>

text \<open>(C30) The framework gets all requests: on a fresh server \<open>App::initConfig\<close> registers the handler \<open>sparcxx\<close>, and whatever name the application gives its domain
  afterwards, the lookup of handlers returns this handler for exactly the hosts that match the name and the paths that match the
  expression \<open>/\<close>.\<close>

theorem config_routes_to_sparc:
  assumes "\<forall>x. g_bindIp s \<noteq> Foreign x" and "\<forall>x. g_bindPort s \<noteq> Foreign x"
    and "domains (g_tab s) = []" and "doms (g_tab s) = Map.empty" and "hdlrs (g_tab s) = Map.empty" and "primary_dom (g_tab s) = None"
    and "kore_module_getsym env (modules (g_tab s)) (bs ''sparcxx'') = Some f" and "m_regcomp env (bs ''/'')"
    and "m_fnmatch env (bs ''localhost'') (bs ''localhost'')"
  shows "\<exists>s1. initConfig env d a s = Inr (None, s1) \<and> g_bindIp s1 = Heap (bs ''127.0.0.1'') \<and> g_bindPort s1 = Heap (bs ''1080'') \<and>
    (\<forall>b name. \<exists>s2 hdlr. config_domain env b (Some name) s1 = Inr s2 \<and> hdlrs (g_tab s2) a = Some hdlr \<and> h_func hdlr = bs ''sparcxx'' \<and> h_addr hdlr = f \<and>
      (\<forall>host path. module_handler_find env (g_tab s2) host path =
         Inr (if m_fnmatch env name host \<and> m_regexec env (bs ''/'') path then Some a else None)))"
proof -
  let ?t = "g_tab s"
  let ?t1 = "?t\<lparr>doms := [d \<mapsto> \<lparr>d_domain = bs ''localhost'', d_accesslog = - 1, d_handlers = []\<rparr>], domains := [d], primary_dom := Some d\<rparr>"
  let ?h = "\<lparr>h_path = bs ''/'', h_func = bs ''sparcxx'', h_addr = f, h_type = HANDLER_TYPE_DYNAMIC, h_errors = 0, h_dom = d, h_auth = None\<rparr>"
  let ?t2 = "?t1\<lparr>hdlrs := [a \<mapsto> ?h], doms := [d \<mapsto> \<lparr>d_domain = bs ''localhost'', d_accesslog = - 1, d_handlers = [a]\<rparr>]\<rparr>"
  have str: "configString (g_bindIp s) (Some v) = Inr (Heap v)" "configString (g_bindPort s) (Some v) = Inr (Heap v)" for v
    using assms(1,2) by (auto simp: configString_def split: cptr.split)
  have dn: "kore_domain_new env d ?t (bs ''localhost'') = Inr (KORE_RESULT_OK, ?t1)"
    using assms(3-6) by (simp add: kore_domain_new_def kore_domain_lookup_def)
  have hn: "kore_module_handler_new env a ?t1 (bs ''/'') (bs ''localhost'') (bs ''sparcxx'') None HANDLER_TYPE_DYNAMIC = Inr (KORE_RESULT_OK, ?t2)"
    using assms(5,7-9) by (simp add: kore_module_handler_new_def kore_domain_lookup_def Let_def)
  obtain s1 where s1: "initConfig env d a s = Inr (None, s1)" "g_bindIp s1 = Heap (bs ''127.0.0.1'')" "g_bindPort s1 = Heap (bs ''1080'')" "g_tab s1 = ?t2"
    using assms(6) dn hn by (simp add: initConfig_def config_ip_def config_port_def str config_domain_def config_sessionTimeout_def config_skipChroot_def
        config_skipRunAs_def config_setForeground_def config_workers_def Let_def)
  have "\<exists>s2 hdlr. config_domain env b (Some name) s1 = Inr s2 \<and> hdlrs (g_tab s2) a = Some hdlr \<and> h_func hdlr = bs ''sparcxx'' \<and> h_addr hdlr = f \<and>
      (\<forall>host path. module_handler_find env (g_tab s2) host path =
         Inr (if m_fnmatch env name host \<and> m_regexec env (bs ''/'') path then Some a else None))" for b name
    by (simp add: config_domain_def s1(4) module_handler_find_def kore_domain_lookup_def handler_matches_def HANDLER_TYPE_STATIC_def HANDLER_TYPE_DYNAMIC_def)
  with s1 show ?thesis by blast
qed

definition empty_settings :: settings where
  "empty_settings = \<lparr>g_bindIp = Null, g_bindPort = Null, g_accessLog = Null, g_sessionTimeout = 0, g_runas_user = Null, g_pidfile = Foreign (bs ''kore.pid''),
     g_body_disk_path = Foreign (bs ''tmp_files''), g_chroot_path = Null, g_header_max = 0, g_body_max = 0, g_body_disk_offload = 0, g_hsts_enable = 0,
     g_keepalive_time = 0, g_request_limit = 0, g_ws_maxframe = 0, g_ws_timeout = 0, g_worker_count = 0, g_worker_max_connections = 0,
     g_rlimit_nofiles = 0, g_accept_threshold = 0, g_set_affinity = 0, g_socket_backlog = 0, g_foreground = 0, g_debug = 0, g_skip_runas = 0,
     g_skip_chroot = 0, g_tab = empty_tab\<rparr>"

theorem config_routes_to_sparc_witness:
  "\<exists>s1. initConfig site_menv 1 2 empty_settings = Inr (None, s1) \<and> (\<exists>s2. config_domain site_menv 3 (Some (bs ''site'')) s1 = Inr s2 \<and>
     module_handler_find site_menv (g_tab s2) (bs ''site'') (bs ''/'') = Inr (Some 2) \<and>
     module_handler_find site_menv (g_tab s2) (bs ''localhost'') (bs ''/'') = Inr None)"
proof -
  have eq: "strcaseeq (bs ''site'') (bs ''site'')" "\<not> strcaseeq (bs ''site'') (bs ''localhost'')" "strcaseeq (bs ''localhost'') (bs ''localhost'')"
    by (simp_all add: strcaseeq_def bs_def tolower_def)
  note d = empty_settings_def empty_tab_def site_menv_def plain_menv_def eq
  obtain s1 where s1: "initConfig site_menv 1 2 empty_settings = Inr (None, s1)"
    and f: "\<forall>b name. \<exists>s2 hdlr. config_domain site_menv b (Some name) s1 = Inr s2 \<and> hdlrs (g_tab s2) 2 = Some hdlr \<and>
      h_func hdlr = bs ''sparcxx'' \<and> h_addr hdlr = 7 \<and> (\<forall>host path. module_handler_find site_menv (g_tab s2) host path =
         Inr (if m_fnmatch site_menv name host \<and> m_regexec site_menv (bs ''/'') path then Some 2 else None))"
    using config_routes_to_sparc [of empty_settings site_menv 7 1 2] by (auto simp: d)
  from f obtain s2 where "config_domain site_menv 3 (Some (bs ''site'')) s1 = Inr s2"
    "\<forall>host path. module_handler_find site_menv (g_tab s2) host path =
       Inr (if m_fnmatch site_menv (bs ''site'') host \<and> m_regexec site_menv (bs ''/'') path then Some 2 else None)" by blast
  with s1 show ?thesis by (simp add: d)
qed

end
