(* ===== verification/Sparc_Auth.thy ===== *)
theory Sparc_Auth
  imports Sparc_App Sparc_Session Kore_Base64
begin

text \<open>
  Authentication of the C++ layer, \<open>sparc/detail/auth.cpp\<close>: the challenge of \<open>authorize\<close>, and \<open>authenticate\<close> with the basic and the digest
  scheme, on top of base64, the string splitter, sessions and responses.

  MD5 and the random bytes of OpenSSL are parameters, the function of the application that supplies a password is \<open>getInfo\<close>. Buffers
  are the texts they hold. The header of the digest scheme is cut up in place: its memory is a list of bytes, and the fields are positions
  in it, because the code writes terminators into it and moves pointers by fixed distances.
\<close>

section \<open>Texts\<close>

definition hex2 :: "byte \<Rightarrow> byte list" where
  "hex2 b = [bs ''0123456789abcdef'' ! (unat b div 16), bs ''0123456789abcdef'' ! (unat b mod 16)]"

text \<open>\<open>buffer::bytes\<close> and \<open>md5Hash\<close>.\<close>

definition hex_bytes :: "byte list \<Rightarrow> byte list" where
  "hex_bytes d = concat (map hex2 d)"

definition md5Hash :: "(byte list \<Rightarrow> byte list) \<Rightarrow> byte list \<Rightarrow> byte list" where
  "md5Hash md5 d = hex_bytes (md5 d)"

definition strstr :: "byte list \<Rightarrow> byte list \<Rightarrow> bool" where
  "strstr s t \<longleftrightarrow> sublist t s"

text \<open>The C string at a position of a memory.\<close>

definition cstr_at :: "byte list \<Rightarrow> nat \<Rightarrow> byte list res" where
  "cstr_at m p = (if 0 \<in> set (drop p m) then Inr (takeWhile (\<lambda>c. c \<noteq> 0) (drop p m)) else Inl Out_of_bounds)"

section \<open>Data\<close>

datatype auth_type = AUTH_TYPE_ANY | AUTH_TYPE_BASIC | AUTH_TYPE_DIGEST | AUTH_TYPE_TOKEN

record auth_info =
  ai_type :: auth_type
  ai_username :: "byte list"
  ai_password :: "byte list option"
  ai_salt :: "byte list option"

type_synonym auth_cb = "auth_info \<Rightarrow> bool \<times> auth_info"

definition auth_info_new :: "auth_type \<Rightarrow> byte list \<Rightarrow> auth_info" where
  "auth_info_new t u = \<lparr>ai_type = t, ai_username = u, ai_password = None, ai_salt = None\<rparr>"

record user =
  us_username :: "byte list option"
  us_password :: "byte list option"
  us_authenticated :: bool

text \<open>A request of the framework: the request of the server, the address of the client and the session it holds.\<close>

record sparc_request =
  sq_raw :: http_request
  sq_ip :: "byte list"
  sq_session :: "http_session option"

definition request_session :: "(byte list \<Rightarrow> byte list) \<Rightarrow> u64 \<Rightarrow> bool \<Rightarrow> sparc_request \<Rightarrow> session_mgr \<Rightarrow> http_session option \<times> sparc_request \<times> session_mgr" where
  "request_session md5 now create rq m =
     (case sq_session rq of
        Some s \<Rightarrow> (Some s, rq, m)
      | None \<Rightarrow> (case session_create (md5Hash md5) m (sq_ip rq) create now of (s, m1) \<Rightarrow> (s, rq\<lparr>sq_session := s\<rparr>, m1)))"

section \<open>The basic scheme\<close>

text \<open>\<open>after\<close> is the memory behind the decoded bytes, which have no terminator. An empty text is decoded to a null pointer, which has no
  tokens. The second result is the name stored in \<open>*usr\<close>.\<close>

definition basic :: "(nat \<Rightarrow> byte) \<Rightarrow> byte list \<Rightarrow> byte list \<Rightarrow> auth_cb \<Rightarrow> (bool \<times> byte list option) res" where
  "basic junk after auth_header getInfo =
     (case strchr auth_header (ch (CHR '' '')) of
        None \<Rightarrow> Inr (False, None)
      | Some t \<Rightarrow>
          rbind (kore_base64_decode junk (tl t)) (\<lambda>(r, outp).
            if r \<noteq> KORE_RESULT_OK then Inr (False, None)
            else rbind (if tl t = [] then Inr [] else cstr_at (outp @ after) 0) (\<lambda>s.
              case kore_split_string s (bs '':'') 3 of
                usr # pwd # _ \<Rightarrow>
                  (case getInfo (auth_info_new AUTH_TYPE_BASIC usr) of (ok, info) \<Rightarrow>
                     Inr (ok \<and> ai_password info \<noteq> None \<and> ai_salt info \<noteq> None \<and> ai_password info = Some pwd, Some usr))
              | _ \<Rightarrow> Inr (False, None))))"

section \<open>The digest scheme\<close>

text \<open>\<open>kore_split_string\<close> in place: the positions of the tokens, and the string with its delimiters overwritten. \<open>n\<close> slots are left before the last.\<close>

function split_mem :: "nat \<Rightarrow> nat \<Rightarrow> byte list \<Rightarrow> byte list \<Rightarrow> nat list \<times> byte list" where
  "split_mem n p delim s =
     (if n = 0 then ([], s)
      else case strsep s delim of
          (tok, None) \<Rightarrow> (if tok = [] then [] else [p], s)
        | (tok, Some r) \<Rightarrow>
            (case split_mem (if tok = [] then n else n - 1) (p + length tok + 1) delim r of (ps, m) \<Rightarrow>
               (if tok = [] then ps else p # ps, tok @ 0 # m)))"
  by pat_completeness auto
termination
  by (relation "measure (\<lambda>(n, p, delim, s). length s)") (auto dest: strsep_rest_shorter [OF sym])

declare split_mem.simps [simp del]

datatype dfield = Username | Realm | Nonce | Opaque | Uri | Response | Cnonce | Qop | Algorithm | Nc

text \<open>The tests of the loop in their order: a field is looked for while it is not set, in any part of a token; the values of the
  first seven are in quotes.\<close>

definition digest_names :: "(dfield \<times> string \<times> bool) list" where
  "digest_names = [(Username, ''username'', True), (Realm, ''realm'', True), (Nonce, ''nonce'', True), (Opaque, ''opaque'', True), (Uri, ''uri'', True),
     (Response, ''response'', True), (Cnonce, ''cnonce'', True), (Qop, ''qop'', False), (Algorithm, ''algorithm'', False), (Nc, ''nc'', False)]"

text \<open>One token. A value in quotes starts two bytes behind the equals sign and ends at the next quote; where one of them is missing the code writes through a pointer
  near zero. A value without quotes and equals sign is such a pointer, which only faults when it is read: it is the end of the memory here.\<close>

definition digest_token :: "byte list \<Rightarrow> (dfield \<Rightarrow> nat option) \<Rightarrow> nat \<Rightarrow> (byte list \<times> (dfield \<Rightarrow> nat option)) res" where
  "digest_token m f p =
     rbind (cstr_at m p) (\<lambda>tok.
       case List.find (\<lambda>(x, name, quoted). f x = None \<and> strstr tok (bs name)) digest_names of
         None \<Rightarrow> Inr (m, f)
       | Some (x, name, quoted) \<Rightarrow>
           (case strchr tok (ch (CHR ''='')) of
              None \<Rightarrow> if quoted then Inl Null_deref else Inr (m, f(x \<mapsto> length m))
            | Some t \<Rightarrow>
                let e = p + (length tok - length t) in
                if quoted then
                  rbind (cstr_at m (e + 2)) (\<lambda>v.
                    case strchr v 34 of
                      None \<Rightarrow> Inl Null_deref
                    | Some u \<Rightarrow> Inr (m[e + 2 + (length v - length u) := 0], f(x \<mapsto> e + 2)))
                else Inr (m, f(x \<mapsto> e + 1))))"

fun digest_loop :: "byte list \<Rightarrow> (dfield \<Rightarrow> nat option) \<Rightarrow> nat list \<Rightarrow> (byte list \<times> (dfield \<Rightarrow> nat option)) res" where
  "digest_loop m f [] = Inr (m, f)"
| "digest_loop m f (p # ps) = rbind (digest_token m f p) (\<lambda>(m1, f1). digest_loop m1 f1 ps)"

text \<open>\<open>_dbgstr\<close>: a field that is not set is printed as the empty text.\<close>

definition dfield_text :: "byte list \<Rightarrow> (dfield \<Rightarrow> nat option) \<Rightarrow> dfield \<Rightarrow> byte list res" where
  "dfield_text m f x = (case f x of None \<Rightarrow> Inr [] | Some p \<Rightarrow> cstr_at m p)"

text \<open>The text between the digests of user and request.\<close>

definition digest_middle :: "byte list \<Rightarrow> (dfield \<Rightarrow> nat option) \<Rightarrow> byte list res" where
  "digest_middle m f =
     rbind (dfield_text m f Qop) (\<lambda>qop.
     rbind (dfield_text m f Nonce) (\<lambda>nonce.
       if f Qop \<noteq> None \<and> qop = bs ''auth'' then
         rbind (dfield_text m f Nc) (\<lambda>nc.
         rbind (dfield_text m f Cnonce) (\<lambda>cnonce.
           Inr (bs '':'' @ nonce @ bs '':'' @ nc @ bs '':'' @ cnonce @ bs '':'' @ qop @ bs '':'')))
       else Inr (bs '':'' @ nonce @ bs '':'')))"

definition digest :: "(byte list \<Rightarrow> byte list) \<Rightarrow> byte list \<Rightarrow> int \<Rightarrow> auth_cb \<Rightarrow> (bool \<times> byte list option) res" where
  "digest md5 auth_header meth getInfo =
     (case strchr auth_header (ch (CHR '' '')) of
        None \<Rightarrow> Inr (False, None)
      | Some t \<Rightarrow>
          (case split_mem 9 0 (bs '','') (tl t) of (toks, m0) \<Rightarrow>
             if length toks < 7 then Inr (False, None)
             else rbind (digest_loop (m0 @ [0]) (\<lambda>_. None) toks) (\<lambda>(m, f).
               if f Username = None \<or> f Realm = None \<or> f Nonce = None \<or> f Opaque = None \<or> f Uri = None \<or> f Response = None
               then Inr (False, None)
               else
                 rbind (dfield_text m f Username) (\<lambda>username.
                   case ai_password (snd (getInfo (auth_info_new AUTH_TYPE_DIGEST username))) of
                     None \<Rightarrow> Inr (False, Some username)
                   | Some password \<Rightarrow>
                       rbind (dfield_text m f Realm) (\<lambda>realm.
                       rbind (dfield_text m f Uri) (\<lambda>uri.
                       rbind (digest_middle m f) (\<lambda>middle.
                       rbind (dfield_text m f Response) (\<lambda>response.
                         let a1 = md5 (username @ bs '':'' @ realm @ bs '':'' @ password);
                             a2 = md5 (http_method_text meth @ bs '':'' @ uri);
                             resp = hex_bytes (md5 (hex_bytes a1 @ middle @ hex_bytes a2)) in
                         Inr (strneq resp response (length resp), Some username)))))))))"

section \<open>The entry points\<close>

definition check_auth_type :: "auth_type \<Rightarrow> auth_type \<Rightarrow> bool" where
  "check_auth_type t a \<longleftrightarrow> t = a \<or> t = AUTH_TYPE_ANY"

definition authenticate :: "(nat \<Rightarrow> byte) \<Rightarrow> byte list \<Rightarrow> (byte list \<Rightarrow> byte list) \<Rightarrow> u64 \<Rightarrow> sparc_request \<Rightarrow> session_mgr \<Rightarrow> auth_cb option \<Rightarrow> auth_type \<Rightarrow>
    (user \<times> sparc_request \<times> session_mgr) res" where
  "authenticate junk after md5 now rq m getInfo t =
     (let cred = \<lparr>us_username = None, us_password = None, us_authenticated = False\<rparr> in
      case (getInfo, http_request_header (sq_raw rq) (bs ''Authorization'')) of
        (Some cb, Some auth_header) \<Rightarrow>
          if check_auth_type t AUTH_TYPE_BASIC \<and> strstr auth_header (bs ''Basic '') then
            rbind (basic junk after auth_header cb) (\<lambda>(ok, usr). Inr (cred\<lparr>us_username := usr, us_authenticated := ok\<rparr>, rq, m))
          else if check_auth_type t AUTH_TYPE_DIGEST \<and> strstr auth_header (bs ''Digest '') then
            (case request_session md5 now False rq m of
               (Some s, rq1, m1) \<Rightarrow>
                 if \<not> hs_new s then
                   rbind (digest md5 auth_header (rq_method (sq_raw rq1)) cb) (\<lambda>(ok, usr).
                     Inr (cred\<lparr>us_username := usr, us_authenticated := ok\<rparr>, rq1, m1))
                 else Inr (cred, rq1, m1)
             | (None, rq1, m1) \<Rightarrow> Inr (cred, rq1, m1))
          else Inr (cred, rq, m)
      | _ \<Rightarrow> Inr (cred, rq, m))"

text \<open>\<open>authorize\<close>: \<open>key\<close> is what \<open>RAND_bytes\<close> returns, \<open>None\<close> on failure. The identifier of the session is copied as 32 bytes.\<close>

definition authorize :: "(byte list \<Rightarrow> byte list) \<Rightarrow> u64 \<Rightarrow> byte list option \<Rightarrow> sparc_request \<Rightarrow> session_mgr \<Rightarrow> response \<Rightarrow> byte list \<Rightarrow> auth_type \<Rightarrow>
    (bool \<times> response \<times> sparc_request \<times> session_mgr) res" where
  "authorize md5 now key rq m rs realm t =
     (if t = AUTH_TYPE_BASIC \<or> t = AUTH_TYPE_ANY then
        Inr (True, resp_header rs (bs ''WWW-Authenticate'') (bs ''Basic realm='' @ 34 # realm @ [34]), rq, m)
      else case key of
          None \<Rightarrow> Inr (False, resp_status rs INTERNAL_ERROR, rq, m)
        | Some k \<Rightarrow>
            (case request_session md5 now True rq m of
               (None, _) \<Rightarrow> Inl Null_deref
             | (Some s, rq1, m1) \<Rightarrow>
                 if length (hs_id s) + 1 < 32 then Inl Out_of_bounds
                 else
                   Inr (True, resp_header rs (bs ''WWW-Authenticate'')
                     (bs ''Digest realm='' @ 34 # realm @ 34 # bs '', '' @ bs ''nonce='' @ 34 # hex_bytes (md5 k) @ 34 # bs '', algorithm=MD5, opaque='' @ 34 #
                      take 32 (hs_id s @ [0]) @ [34]), rq1, m1)))"

section \<open>Strings in memory\<close>

lemma set_hex_bytes: "set (hex_bytes d) \<subseteq> set (bs ''0123456789abcdef'')"
proof -
  have "bs ''0123456789abcdef'' ! n \<in> set (bs ''0123456789abcdef'')" if "n < 16" for n
    using that by (intro nth_mem) (simp add: bs_def)
  moreover have "unat b div 16 < 16" "unat b mod 16 < 16" for b :: byte using unat_bound [of b] by simp_all
  ultimately show ?thesis by (auto simp: hex_bytes_def hex2_def simp del: nth_mem)
qed

lemma length_hex_bytes: "length (hex_bytes d) = 2 * length d"
  by (induction d) (simp_all add: hex_bytes_def hex2_def)

text \<open>A text that can stand between quotes.\<close>

definition plain :: "byte list \<Rightarrow> bool" where
  "plain s \<longleftrightarrow> 0 \<notin> set s \<and> 34 \<notin> set s \<and> 44 \<notin> set s"

lemma plain_hex: "plain (hex_bytes d)"
  using set_hex_bytes [of d] by (auto simp: plain_def bs_def)

text \<open>\<open>v\<close> is the string at \<open>p\<close>, and its terminator is part of \<open>m\<close>.\<close>

definition reads :: "byte list \<Rightarrow> nat \<Rightarrow> byte list \<Rightarrow> bool" where
  "reads m p v \<longleftrightarrow> 0 \<notin> set v \<and> (\<exists>r. drop p m = v @ 0 # r)"

lemma reads_cstr: "reads m p v \<Longrightarrow> cstr_at m p = Inr v"
  by (auto simp: reads_def cstr_at_def takeWhile_tail)

lemma reads_append:
  assumes "reads m p v" shows "reads (m @ q) p v"
proof -
  from assms obtain r where r: "drop p m = v @ 0 # r" "0 \<notin> set v" by (auto simp: reads_def)
  then have "drop p m \<noteq> []" by simp
  then have "p < length m" by simp
  then show ?thesis using r by (auto simp: reads_def)
qed

lemma reads_here: "0 \<notin> set v \<Longrightarrow> reads (m @ v @ 0 # r) (length m) v"
  by (auto simp: reads_def)

text \<open>A search that cannot cross a separator.\<close>

lemma sublist_separated:
  assumes "c \<notin> set w"
  shows "sublist w (a @ c # b) \<longleftrightarrow> sublist w a \<or> sublist w b"
proof
  assume "sublist w (a @ c # b)"
  then consider "sublist w a" | "sublist w (c # b)" | x y where "w = x @ y" "suffix x a" "prefix y (c # b)"
    by (auto simp: sublist_append)
  then show "sublist w a \<or> sublist w b"
  proof cases
    case 2
    then show ?thesis using assms by (auto simp: sublist_Cons_right prefix_Cons)
  next
    case 3
    then have "y = []" using assms by (auto simp: prefix_Cons)
    with 3 show ?thesis by auto
  qed auto
qed (auto simp: sublist_append sublist_Cons_right)

section \<open>Splitting in place\<close>

fun commas :: "byte list list \<Rightarrow> byte list" where
  "commas [] = []"
| "commas [t] = t"
| "commas (t # ts) = t @ 44 # commas ts"

fun offsets :: "nat \<Rightarrow> byte list list \<Rightarrow> nat list" where
  "offsets p [] = []"
| "offsets p (t # ts) = p # offsets (p + length t + 1) ts"

lemma length_offsets [simp]: "length (offsets p ts) = length ts"
  by (induction ts arbitrary: p) auto

lemma strsep_single: "44 \<notin> set t \<Longrightarrow> strsep t [44] = (t, None)"
  by (induction t) auto

lemma strsep_join: "44 \<notin> set t \<Longrightarrow> strsep (t @ 44 # r) [44] = (t, Some r)"
  by (induction t) auto

lemma split_mem_commas:
  assumes "ts \<noteq> []" "length ts \<le> n" "\<forall>t \<in> set ts. t \<noteq> [] \<and> 44 \<notin> set t"
  shows "\<exists>m. split_mem n p [44] (commas ts) = (offsets p ts, m) \<and> m @ [0] = concat (map (\<lambda>t. t @ [0]) ts)"
  using assms
proof (induction ts arbitrary: n p rule: commas.induct)
  case (2 t)
  then show ?case by (auto simp: split_mem.simps [of n] strsep_single)
next
  case (3 t u ts)
  have "u # ts \<noteq> []" "length (u # ts) \<le> n - 1" "\<forall>t \<in> set (u # ts). t \<noteq> [] \<and> 44 \<notin> set t" using 3(3,4) by auto
  from 3(1) [OF this, of "p + length t + 1"] 3(3,4) show ?case by (auto simp: split_mem.simps [of n] strsep_join)
qed simp

section \<open>Fields\<close>

type_synonym ditem = "dfield \<times> bool \<times> byte list \<times> byte list"

fun item_text :: "ditem \<Rightarrow> byte list" where
  "item_text (x, quoted, k, v) = k @ 61 # (if quoted then 34 # v @ [34] else v)"

fun item_ok :: "ditem \<Rightarrow> bool" where
  "item_ok (x, quoted, k, v) \<longleftrightarrow> plain k \<and> 61 \<notin> set k \<and> plain v"

definition pick :: "dfield set \<Rightarrow> byte list \<Rightarrow> (dfield \<times> string \<times> bool) option" where
  "pick D tok = List.find (\<lambda>(x, name, quoted). x \<notin> D \<and> strstr tok (bs name)) digest_names"

text \<open>The items are taken for what they are, in their order.\<close>

fun digest_seq :: "dfield set \<Rightarrow> ditem list \<Rightarrow> bool" where
  "digest_seq D [] = True"
| "digest_seq D ((x, quoted, k, v) # is) \<longleftrightarrow>
     (\<exists>name. pick D (item_text (x, quoted, k, v)) = Some (x, name, quoted)) \<and> digest_seq (insert x D) is"

lemma strchr_at: "c \<notin> set k \<Longrightarrow> strchr (k @ c # r) c = Some (c # r)"
  by (induction k) auto

lemma digest_token_item:
  assumes "item_ok (x, quoted, k, v)" "pick (dom f) (item_text (x, quoted, k, v)) = Some (x, name, quoted)"
  shows "\<exists>seg p. digest_token (pre @ item_text (x, quoted, k, v) @ 0 # post) f (length pre) = Inr (pre @ seg @ 0 # post, f(x \<mapsto> p)) \<and>
    length seg = length (item_text (x, quoted, k, v)) \<and> reads (pre @ seg @ [0]) p v"
proof -
  let ?t = "item_text (x, quoted, k, v)"
  have z: "0 \<notin> set ?t" using assms(1) by (auto simp: plain_def)
  have tok: "cstr_at (pre @ ?t @ 0 # post) (length pre) = Inr ?t" by (rule reads_cstr [OF reads_here [OF z]])
  have fnd: "List.find (\<lambda>(x, name, quoted). f x = None \<and> strstr ?t (bs name)) digest_names = Some (x, name, quoted)"
    using assms(2) by (simp add: pick_def domIff)
  have eq: "strchr ?t 61 = Some (61 # (if quoted then 34 # v @ [34] else v))" using assms(1) by (simp add: strchr_at)
  show ?thesis
  proof (cases quoted)
    case True
    let ?e = "length pre + length k"
    let ?m = "(pre @ k @ [61, 34]) @ (v @ [34]) @ 0 # post"
    have v: "0 \<notin> set (v @ [34])" using assms(1) by (auto simp: plain_def)
    have "cstr_at ?m (?e + 2) = Inr (v @ [34])" using reads_cstr [OF reads_here [OF v, of "pre @ k @ [61, 34]" post]] by simp
    moreover have "strchr (v @ [34]) 34 = Some [34]" using assms(1) by (simp add: strchr_at plain_def)
    moreover have "?m[?e + 2 + length v := 0] = pre @ (k @ 61 # 34 # v @ [0]) @ 0 # post" by (simp add: list_update_append)
    moreover have "reads (pre @ (k @ 61 # 34 # v @ [0]) @ [0]) (?e + 2) v"
      using reads_here [of v "pre @ k @ [61, 34]" "[0]"] assms(1) by (simp add: plain_def)
    ultimately show ?thesis using tok fnd eq True
      by (intro exI [of _ "k @ 61 # 34 # v @ [0]"] exI [of _ "?e + 2"]) (simp add: digest_token_def)
  next
    case False
    have "reads (pre @ ?t @ [0]) (length pre + length k + 1) v"
      using reads_here [of v "pre @ k @ [61]" "[]"] assms(1) False by (simp add: plain_def)
    with tok fnd eq False show ?thesis
      by (intro exI [of _ ?t] exI [of _ "length pre + length k + 1"]) (simp add: digest_token_def)
  qed
qed

lemma digest_loop_items:
  assumes "\<forall>i \<in> set is. item_ok i" "digest_seq (dom f) is" "distinct (map fst is)"
  shows "\<exists>m' f'. digest_loop (pre @ concat (map (\<lambda>t. t @ [0]) (map item_text is))) f (offsets (length pre) (map item_text is)) = Inr (m', f') \<and>
    (\<forall>(x, q, k, v) \<in> set is. \<exists>p. f' x = Some p \<and> reads m' p v) \<and> (\<forall>x. x \<notin> fst ` set is \<longrightarrow> f' x = f x) \<and> (\<exists>r. m' = pre @ r)"
  using assms
proof (induction "is" arbitrary: pre f)
  case (Cons i "is")
  obtain x q k v where i: "i = (x, q, k, v)" by (cases i)
  let ?post = "concat (map (\<lambda>t. t @ [0]) (map item_text is))"
  from Cons.prems(2) i obtain name where "pick (dom f) (item_text i) = Some (x, name, q)" by auto
  with digest_token_item [of x q k v f name pre ?post] Cons.prems(1) i obtain seg p where
    tok: "digest_token (pre @ item_text i @ 0 # ?post) f (length pre) = Inr (pre @ seg @ 0 # ?post, f(x \<mapsto> p))"
      "length seg = length (item_text i)" "reads (pre @ seg @ [0]) p v" by auto
  have "digest_seq (dom (f(x \<mapsto> p))) is" using Cons.prems(2) i by simp
  from Cons.IH [where f = "f(x \<mapsto> p)" and pre = "pre @ seg @ [0]", OF _ this] Cons.prems(1,3) tok(2)
  have "\<exists>m' f'. digest_loop (pre @ seg @ 0 # ?post) (f(x \<mapsto> p)) (offsets (length pre + length (item_text i) + 1) (map item_text is)) = Inr (m', f') \<and>
      (\<forall>(x, q, k, v) \<in> set is. \<exists>p. f' x = Some p \<and> reads m' p v) \<and> (\<forall>y. y \<notin> fst ` set is \<longrightarrow> f' y = (f(x \<mapsto> p)) y) \<and>
      (\<exists>r. m' = (pre @ seg @ [0]) @ r)" by (simp del: fun_upd_apply)
  then obtain m' f' where
    m': "digest_loop (pre @ seg @ 0 # ?post) (f(x \<mapsto> p)) (offsets (length pre + length (item_text i) + 1) (map item_text is)) = Inr (m', f')"
      "\<forall>(x, q, k, v) \<in> set is. \<exists>p. f' x = Some p \<and> reads m' p v" "\<forall>y. y \<notin> fst ` set is \<longrightarrow> f' y = (f(x \<mapsto> p)) y"
      "\<exists>r. m' = (pre @ seg @ [0]) @ r" by blast
  have x: "x \<notin> fst ` set is" using Cons.prems(3) i by force
  from m'(4) obtain r where r: "m' = (pre @ seg @ [0]) @ r" by blast
  have "reads m' p v" unfolding r by (rule reads_append [OF tok(3)])
  moreover have "f' x = Some p" using m'(3) x by auto
  moreover have "\<forall>y. y \<notin> fst ` set (i # is) \<longrightarrow> f' y = f y" using m'(3) i by auto
  ultimately show ?case using tok(1) m'(1,2) r i by auto
qed simp

section \<open>Digest answers\<close>

text \<open>What a client answers to a challenge without quality of protection.\<close>

definition digest_response :: "(byte list \<Rightarrow> byte list) \<Rightarrow> byte list \<Rightarrow> byte list \<Rightarrow> byte list \<Rightarrow> byte list \<Rightarrow> int \<Rightarrow> byte list \<Rightarrow> byte list" where
  "digest_response md5 usr realm pwd nonce meth uri =
     hex_bytes (md5 (hex_bytes (md5 (usr @ bs '':'' @ realm @ bs '':'' @ pwd)) @ bs '':'' @ nonce @ bs '':'' @
       hex_bytes (md5 (http_method_text meth @ bs '':'' @ uri))))"

definition digest_items :: "byte list \<Rightarrow> byte list \<Rightarrow> byte list \<Rightarrow> byte list \<Rightarrow> byte list \<Rightarrow> byte list \<Rightarrow> ditem list" where
  "digest_items usr realm nonce uri response opaque =
     [(Username, True, bs ''username'', usr), (Realm, True, bs '' realm'', realm), (Nonce, True, bs '' nonce'', nonce), (Uri, True, bs '' uri'', uri),
      (Response, True, bs '' response'', response), (Opaque, True, bs '' opaque'', opaque), (Algorithm, False, bs '' algorithm'', bs ''MD5'')]"

definition digest_answer :: "byte list \<Rightarrow> byte list \<Rightarrow> byte list \<Rightarrow> byte list \<Rightarrow> byte list \<Rightarrow> byte list \<Rightarrow> byte list" where
  "digest_answer usr realm nonce uri response opaque = bs ''Digest '' @ commas (map item_text (digest_items usr realm nonce uri response opaque))"

lemma strstr_key: "sublist w k \<Longrightarrow> strstr (k @ r) w"
  by (auto simp: strstr_def sublist_append)

lemma strstr_quoted:
  assumes "34 \<notin> set w" "61 \<notin> set w" "w \<noteq> []"
  shows "strstr (k @ 61 # 34 # v @ [34]) w \<longleftrightarrow> sublist w k \<or> sublist w v"
proof -
  have "sublist w (34 # v @ [34]) \<longleftrightarrow> sublist w v"
    using sublist_separated [OF assms(1), of "[]" "v @ [34]"] sublist_separated [OF assms(1), of v "[]"] assms(3) by simp
  then show ?thesis by (simp add: strstr_def sublist_separated [OF assms(2)])
qed

lemma digest_items_seq:
  assumes "\<not> sublist (bs ''opaque'') uri" "\<not> sublist (bs ''opaque'') response"
  shows "digest_seq {} (digest_items usr realm nonce uri response opaque)"
proof -
  have key: "sublist (bs ''username'') (bs ''username'')" "sublist (bs ''realm'') (bs '' realm'')" "sublist (bs ''nonce'') (bs '' nonce'')"
    "sublist (bs ''uri'') (bs '' uri'')" "sublist (bs ''response'') (bs '' response'')" "sublist (bs ''opaque'') (bs '' opaque'')"
    by code_simp+
  have no: "\<not> sublist (bs ''opaque'') (bs '' uri'')" "\<not> sublist (bs ''opaque'') (bs '' response'')" by code_simp+
  have alg: "pick {Opaque, Response, Uri, Nonce, Realm, Username} (bs '' algorithm'' @ 61 # bs ''MD5'') = Some (Algorithm, ''algorithm'', False)" by code_simp
  have o: "34 \<notin> set (bs ''opaque'')" "61 \<notin> set (bs ''opaque'')" "bs ''opaque'' \<noteq> []" by (simp_all add: bs_def)
  show ?thesis
    using alg by (simp add: digest_items_def pick_def digest_names_def strstr_key [OF key(1)] strstr_key [OF key(2)] strstr_key [OF key(3)]
        strstr_key [OF key(4)] strstr_key [OF key(5)] strstr_key [OF key(6)] strstr_quoted [OF o] no key assms del: append_Cons)
qed

lemma digest_accepts:
  assumes pl: "plain usr" "plain realm" "plain nonce" "plain uri" "plain response" "plain opaque"
    and op: "\<not> sublist (bs ''opaque'') uri" "\<not> sublist (bs ''opaque'') response"
  shows "digest md5 (digest_answer usr realm nonce uri response opaque) meth getInfo =
    Inr (case ai_password (snd (getInfo (auth_info_new AUTH_TYPE_DIGEST usr))) of
           None \<Rightarrow> False
         | Some pwd \<Rightarrow> (let resp = digest_response md5 usr realm pwd nonce meth uri in strneq resp response (length resp)), Some usr)"
proof -
  let ?is = "digest_items usr realm nonce uri response opaque"
  let ?ts = "map item_text ?is"
  have ok: "\<forall>i \<in> set ?is. item_ok i" using pl by (simp add: digest_items_def) (simp add: plain_def bs_def)
  have ts: "?ts \<noteq> []" "length ?ts \<le> 9" "\<forall>t \<in> set ?ts. t \<noteq> [] \<and> 44 \<notin> set t" using pl by (auto simp: digest_items_def plain_def bs_def)
  from split_mem_commas [OF ts, of 0] obtain m0 where
    m0: "split_mem 9 0 [44] (commas ?ts) = (offsets 0 ?ts, m0)" "m0 @ [0] = concat (map (\<lambda>t. t @ [0]) ?ts)" by blast
  have "distinct (map fst ?is)" by (simp add: digest_items_def)
  from digest_loop_items [OF ok _ this, of "\<lambda>_. None" "[]"] digest_items_seq [OF op] obtain m f where
    l: "digest_loop (m0 @ [0]) (\<lambda>_. None) (offsets 0 ?ts) = Inr (m, f)"
    and r: "\<forall>(x, q, k, v) \<in> set ?is. \<exists>p. f x = Some p \<and> reads m p v" and n: "\<forall>x. x \<notin> fst ` set ?is \<longrightarrow> f x = None"
    unfolding m0(2) by (auto simp: dom_def)
  have get: "dfield_text m f x = Inr v \<and> f x \<noteq> None" if "(x, q, k, v) \<in> set ?is" for x q k v
    using bspec [OF r that] by (auto simp: dfield_text_def reads_cstr)
  have fs: "dfield_text m f Username = Inr usr" "dfield_text m f Realm = Inr realm" "dfield_text m f Nonce = Inr nonce" "dfield_text m f Uri = Inr uri"
    "dfield_text m f Response = Inr response" "f Username \<noteq> None" "f Realm \<noteq> None" "f Nonce \<noteq> None" "f Uri \<noteq> None" "f Response \<noteq> None" "f Opaque \<noteq> None"
    using get by (fastforce simp: digest_items_def)+
  have q: "f Qop = None" using n by (simp add: digest_items_def)
  have hdr: "strchr (digest_answer usr realm nonce uri response opaque) 32 = Some (32 # commas ?ts)"
    using strchr_at [of 32 "bs ''Digest''" "commas ?ts"] by (simp add: digest_answer_def bs_def)
  have "length (offsets 0 ?ts) = 7" by (simp add: digest_items_def)
  moreover have "digest_middle m f = Inr (bs '':'' @ nonce @ bs '':'')" using fs q by (simp add: digest_middle_def) (simp add: dfield_text_def)
  ultimately show ?thesis using hdr m0(1) l fs
    by (auto simp: digest_def digest_response_def Let_def bs_def split: option.split)
qed

section \<open>Basic answers\<close>

definition basic_answer :: "byte list \<Rightarrow> byte list \<Rightarrow> byte list" where
  "basic_answer usr pwd = bs ''Basic '' @ base64 (usr @ 58 # pwd)"

text \<open>The password is what stands in memory up to the next terminator or colon.\<close>

lemma basic_accepts:
  assumes "usr \<noteq> []" "58 \<notin> set usr" "0 \<notin> set usr" "pwd \<noteq> []" "58 \<notin> set pwd" "0 \<notin> set pwd" "length usr + length pwd < 2 ^ 59"
    and "after = junk' @ 0 # r" "0 \<notin> set junk'" "58 \<notin> set junk'"
  shows "basic junk after (basic_answer usr pwd) getInfo =
    (case getInfo (auth_info_new AUTH_TYPE_BASIC usr) of (ok, info) \<Rightarrow>
       Inr (ok \<and> ai_salt info \<noteq> None \<and> ai_password info = Some (pwd @ junk'), Some usr))"
proof -
  let ?d = "usr @ 58 # pwd"
  have len: "length ?d < 2 ^ 60" using assms(7) by simp
  have ne: "base64 ?d \<noteq> []" using length_base64_ge [of ?d] by auto
  have spc: "bs ''Basic '' @ base64 ?d = bs ''Basic'' @ 32 # base64 ?d" by (simp add: bs_def)
  have hdr: "strchr (basic_answer usr pwd) 32 = Some (32 # base64 ?d)"
    unfolding basic_answer_def spc by (rule strchr_at) (simp add: bs_def)
  have colon: "bs '':'' = [58]" "ch (CHR '' '') = 32" by (simp_all add: bs_def)
  have "reads (?d @ after) 0 (?d @ junk')" using assms by (auto simp: reads_def)
  from reads_cstr [OF this] have str: "cstr_at (?d @ after) 0 = Inr (usr @ 58 # pwd @ junk')" by simp
  have "Kore_Str.fields [58] (usr @ 58 # pwd @ junk') = usr # Kore_Str.fields [58] (pwd @ junk')" using assms by (intro fields_join) auto
  then have "kore_split_string (usr @ 58 # pwd @ junk') [58] 3 = [usr, pwd @ junk']"
    using assms(1,4,5,10) by (simp add: kore_split_string_def split_loop_fields fields_single)
  note sp = this
  have "basic junk after (basic_answer usr pwd) getInfo = (case getInfo (auth_info_new AUTH_TYPE_BASIC usr) of (ok, info) \<Rightarrow>
       Inr (ok \<and> ai_password info \<noteq> None \<and> ai_salt info \<noteq> None \<and> ai_password info = Some (pwd @ junk'), Some usr))"
    unfolding basic_def colon hdr by (simp only: option.case list.sel base64_decode_encode [OF len] rbind_simps prod.case simp_thms ne if_False if_True str sp list.case)
  then show ?thesis by (auto split: prod.split)
qed

section \<open>Sessions between challenge and answer\<close>

definition mgr_ids :: "session_mgr \<Rightarrow> bool" where
  "mgr_ids m \<longleftrightarrow> (\<forall>i s. sm_sessions m i = Some s \<longrightarrow> hs_id s = i)"

lemma session_create_stores:
  assumes "mgr_ids m"
  shows "\<exists>s m1. session_create h m ip True now = (Some s, m1) \<and> hs_id s = ipToSessionId h m ip \<and> hs_expiry s = new_expiry m now \<and>
    sm_sessions m1 (ipToSessionId h m ip) = Some s \<and> sm_timeout m1 = sm_timeout m \<and> sm_key m1 = sm_key m"
  using assms
  by (auto simp: session_create_def session_find_def Let_def session_discard_def mgr_ids_def new_expiry_def split: option.split)

lemma session_create_finds:
  assumes "sm_sessions m (ipToSessionId h m ip) = Some s" "\<not> expired s now"
  shows "\<exists>s' m'. session_create h m ip create now = (Some s', m') \<and> \<not> hs_new s'"
  using assms by (simp add: session_create_def session_find_def Let_def)

lemma strstr_prefix: "strstr (w @ r) w"
  by (auto simp: strstr_def sublist_append)

lemma authenticate_digest:
  assumes "sq_session rq = None"
    and "http_request_header (sq_raw rq) (bs ''Authorization'') = Some (digest_answer usr realm nonce uri response opaque)"
    and "session_create (md5Hash md5) m (sq_ip rq) False now = (Some s, m1)" "\<not> hs_new s"
  shows "authenticate junk after md5 now rq m (Some getInfo) AUTH_TYPE_DIGEST =
    rbind (digest md5 (digest_answer usr realm nonce uri response opaque) (rq_method (sq_raw rq)) getInfo) (\<lambda>(ok, usr).
      Inr (\<lparr>us_username = usr, us_password = None, us_authenticated = ok\<rparr>, rq\<lparr>sq_session := Some s\<rparr>, m1))"
proof -
  have "strstr (digest_answer usr realm nonce uri response opaque) (bs ''Digest '')" unfolding digest_answer_def by (rule strstr_prefix)
  with assms show ?thesis by (auto simp: authenticate_def Let_def check_auth_type_def request_session_def strstr_def)
qed

section \<open>Errors\<close>

text \<open>The decoded bytes have no terminator: bytes left behind them in memory count as part of the password, and a login with the right
  password fails.\<close>

theorem basic_reads_behind:
  assumes "usr \<noteq> []" "58 \<notin> set usr" "0 \<notin> set usr" "pwd \<noteq> []" "58 \<notin> set pwd" "0 \<notin> set pwd" "length usr + length pwd < 2 ^ 59"
    and "c \<noteq> 0" "c \<noteq> 58" "snd (getInfo (auth_info_new AUTH_TYPE_BASIC usr)) = info" "ai_password info = Some pwd"
  shows "basic junk (c # 0 # r) (basic_answer usr pwd) getInfo = Inr (False, Some usr)"
  using basic_accepts [OF assms(1-7), of "c # 0 # r" "[c]" r junk getInfo] assms(8-11) by (auto split: prod.splits)

text \<open>A field without an equals sign makes the process write through a pointer near zero.\<close>

theorem digest_null:
  "digest md5 (bs ''Digest username,a,b,c,d,e,f'') meth getInfo = Inl Null_deref"
proof -
  let ?t = "bs ''username,a,b,c,d,e,f''"
  let ?m = "map (\<lambda>c. if c = 44 then 0 else c) ?t"
  have "split_mem 9 0 (bs '','') ?t = ([0, 9, 11, 13, 15, 17, 19], ?m)" by code_simp
  moreover have "case digest_token (?m @ [0]) (\<lambda>_. None) 0 of Inl e \<Rightarrow> e = Null_deref | Inr _ \<Rightarrow> False" by code_simp
  then have "digest_token (?m @ [0]) (\<lambda>_. None) 0 = Inl Null_deref" by (simp split: sum.splits)
  moreover have "strchr (bs ''Digest username,a,b,c,d,e,f'') 32 = Some (32 # ?t)" by (simp add: bs_def)
  ultimately show ?thesis by (simp add: digest_def)
qed

text \<open>The field names are looked for anywhere in a token: the path of a request that contains the name of a later field is taken for that
  field, and the answer is rejected as one without a path, whatever the password.\<close>

theorem digest_path_lost:
  "digest md5 (digest_answer (bs ''u'') (bs ''r'') (bs ''n'') (bs ''/opaque'') (bs ''x'') (bs ''o'')) meth getInfo = Inr (False, None)"
proof -
  let ?t = "commas (map item_text (digest_items (bs ''u'') (bs ''r'') (bs ''n'') (bs ''/opaque'') (bs ''x'') (bs ''o'')))"
  have hdr: "bs ''Digest '' = bs ''Digest'' @ [32]" "32 \<notin> set (bs ''Digest'')" by (simp_all add: bs_def)
  then have "strchr (digest_answer (bs ''u'') (bs ''r'') (bs ''n'') (bs ''/opaque'') (bs ''x'') (bs ''o'')) 32 = Some (32 # ?t)"
    by (simp add: digest_answer_def strchr_at)
  moreover have "case split_mem 9 0 (bs '','') ?t of (toks, m0) \<Rightarrow> \<not> length toks < 7 \<and>
      (case digest_loop (m0 @ [0]) (\<lambda>_. None) toks of Inl _ \<Rightarrow> False | Inr (m, f) \<Rightarrow> f Uri = None)" by code_simp
  ultimately show ?thesis by (auto simp: digest_def rbind_def split: sum.splits prod.splits)
qed

section \<open>Properties\<close>


text \<open>(C28) Digest authentication: \<open>authorize\<close> sends a challenge with a fresh nonce and the session of the client; when the client answers it for a path and with its
  password, from the same address and before the session ends, \<open>authenticate\<close> finds the session and accepts exactly if the digest of the password of the
  application is the one of the client.\<close>

theorem digest_login:
  assumes "\<forall>x. length (md5 x) = 16" and "mgr_ids m"
    and "sq_session rq1 = None" and "sq_session rq2 = None" and "sq_ip rq2 = sq_ip rq1"
    and "\<not> (0 < new_expiry m now1 \<and> word_of_int (new_expiry m now1) < now2)"
    and "plain usr" and "plain realm" and "plain uri" and "\<not> sublist (bs ''opaque'') uri"
    and "nonce = md5Hash md5 key" and "opaque = ipToSessionId (md5Hash md5) m (sq_ip rq1)" and "meth = rq_method (sq_raw rq2)"
    and "http_request_header (sq_raw rq2) (bs ''Authorization'') =
      Some (digest_answer usr realm nonce uri (digest_response md5 usr realm pwd nonce meth uri) opaque)"
  shows "\<exists>rs1 rq1' m1 rq2' m2. authorize md5 now1 (Some key) rq1 m rs realm AUTH_TYPE_DIGEST = Inr (True, rs1, rq1', m1) \<and>
    rs_headers rs1 = rs_headers rs @ [\<lparr>hdr_header = bs ''WWW-Authenticate'', hdr_value =
      bs ''Digest realm='' @ 34 # realm @ 34 # bs '', nonce='' @ 34 # nonce @ 34 # bs '', algorithm=MD5, opaque='' @ 34 # opaque @ [34]\<rparr>] \<and>
    authenticate junk after md5 now2 rq2 m1 (Some getInfo) AUTH_TYPE_DIGEST = Inr (\<lparr>us_username = Some usr, us_password = None,
      us_authenticated = (case ai_password (snd (getInfo (auth_info_new AUTH_TYPE_DIGEST usr))) of
         None \<Rightarrow> False
       | Some pwd' \<Rightarrow> digest_response md5 usr realm pwd' nonce meth uri = digest_response md5 usr realm pwd nonce meth uri)\<rparr>, rq2', m2)"
proof -
  let ?r = "digest_response md5 usr realm pwd nonce meth uri"
  have hex: "plain (md5Hash md5 d)" "length (md5Hash md5 d) = 32" for d using assms(1) by (simp_all add: md5Hash_def plain_hex length_hex_bytes)
  have resp: "\<exists>d. digest_response md5 usr realm p nonce meth uri = md5Hash md5 d" for p by (auto simp: digest_response_def md5Hash_def)
  have op: "plain opaque" "length opaque = 32" using hex assms(12) by (simp_all add: ipToSessionId_def)
  have no: "\<not> sublist (bs ''opaque'') ?r"
    using set_mono_sublist [of "bs ''opaque''" ?r] set_hex_bytes by (force simp: digest_response_def bs_def)
  from session_create_stores [OF assms(2), of "md5Hash md5" "sq_ip rq1" now1] obtain s m1 where
    s: "session_create (md5Hash md5) m (sq_ip rq1) True now1 = (Some s, m1)" "hs_id s = opaque" "hs_expiry s = new_expiry m now1"
      "sm_sessions m1 opaque = Some s" "sm_key m1 = sm_key m" unfolding assms(12) by blast
  have "sm_sessions m1 (ipToSessionId (md5Hash md5) m1 (sq_ip rq2)) = Some s" using s(4,5) assms(5,12) by (simp add: ipToSessionId_def)
  from session_create_finds [OF this, of now2 False] assms(6) s(3) obtain s' m2 where
    s': "session_create (md5Hash md5) m1 (sq_ip rq2) False now2 = (Some s', m2)" "\<not> hs_new s'" by (auto simp: expired_def)
  have az: "authorize md5 now1 (Some key) rq1 m rs realm AUTH_TYPE_DIGEST = Inr (True, resp_header rs (bs ''WWW-Authenticate'')
      (bs ''Digest realm='' @ 34 # realm @ 34 # bs '', nonce='' @ 34 # nonce @ 34 # bs '', algorithm=MD5, opaque='' @ 34 # opaque @ [34]), rq1\<lparr>sq_session := Some s\<rparr>, m1)"
    using assms(3,11) s(1,2) op(2) by (simp add: authorize_def request_session_def md5Hash_def bs_def)
  have eq: "strneq (digest_response md5 usr realm p nonce meth uri) ?r (length (digest_response md5 usr realm p nonce meth uri)) \<longleftrightarrow>
      digest_response md5 usr realm p nonce meth uri = ?r" for p
    using resp [of p] resp [of pwd] hex(2) by (auto simp: strneq_def)
  have "plain ?r" "plain nonce" using resp [of pwd] hex(1) assms(11) by auto
  note dg = digest_accepts [OF assms(7,8) this(2) assms(9) this(1) op(1) assms(10) no, of md5 meth getInfo]
  show ?thesis using az authenticate_digest [OF assms(4,14) s'] dg assms(13)
    by (auto simp: resp_header_def eq [unfolded assms(13)] Let_def split: option.split)
qed

definition login_db :: auth_cb where
  "login_db info = (if ai_username info = bs ''jo'' then (True, info\<lparr>ai_password := Some (bs ''pw''), ai_salt := Some (bs ''s'')\<rparr>) else (False, info))"

definition login_request :: "byte list \<Rightarrow> sparc_request" where
  "login_request v = \<lparr>sq_raw = blank_request\<lparr>req_headers := [\<lparr>hdr_header = bs ''Authorization'', hdr_value = v\<rparr>]\<rparr>, sq_ip = bs ''10.0.0.1'', sq_session = None\<rparr>"

definition login_md5 :: "byte list \<Rightarrow> byte list" where
  "login_md5 d = replicate 16 (of_nat (length d))"

definition login_mgr :: session_mgr where
  "login_mgr = \<lparr>sm_sessions = Map.empty, sm_timeout = - 1, sm_key = bs ''key''\<rparr>"

lemma login_request_header [simp]:
  "http_request_header (sq_raw (login_request v)) (bs ''Authorization'') = Some v" "sq_session (login_request v) = None" "sq_ip (login_request v) = bs ''10.0.0.1''"
  by (simp_all add: login_request_def http_request_header_def strcaseeq_def)


theorem digest_login_witness:
  "\<exists>rs1 rq1 m1 rq2 m2. let nonce = md5Hash login_md5 (bs ''k''); opaque = ipToSessionId (md5Hash login_md5) login_mgr (bs ''10.0.0.1'');
       answer = digest_answer (bs ''jo'') (bs ''site'') nonce (bs ''/a'') (digest_response login_md5 (bs ''jo'') (bs ''site'') (bs ''pw'') nonce HTTP_METHOD_GET (bs ''/a'')) opaque in
     authorize login_md5 5 (Some (bs ''k'')) (login_request []) login_mgr HttpResponse (bs ''site'') AUTH_TYPE_DIGEST = Inr (True, rs1, rq1, m1) \<and>
     authenticate (\<lambda>_. 9) [0] login_md5 7 (login_request answer) m1 (Some login_db) AUTH_TYPE_DIGEST =
       Inr (\<lparr>us_username = Some (bs ''jo''), us_password = None, us_authenticated = True\<rparr>, rq2, m2)"
proof -
  let ?n = "md5Hash login_md5 (bs ''k'')" and ?o = "ipToSessionId (md5Hash login_md5) login_mgr (bs ''10.0.0.1'')"
  let ?a = "digest_answer (bs ''jo'') (bs ''site'') ?n (bs ''/a'') (digest_response login_md5 (bs ''jo'') (bs ''site'') (bs ''pw'') ?n HTTP_METHOD_GET (bs ''/a'')) ?o"
  have pw: "ai_password (snd (login_db (auth_info_new AUTH_TYPE_DIGEST (bs ''jo'')))) = Some (bs ''pw'')" by (simp add: login_db_def auth_info_new_def)
  have get: "HTTP_METHOD_GET = rq_method (sq_raw (login_request ?a))" by (simp add: login_request_def blank_request_def)
  have md5: "\<forall>x. length (login_md5 x) = 16" and m: "mgr_ids login_mgr" by (simp_all add: login_md5_def mgr_ids_def login_mgr_def)
  have time: "\<not> (0 < new_expiry login_mgr 5 \<and> word_of_int (new_expiry login_mgr 5) < (7::u64))" by (simp add: new_expiry_def login_mgr_def)
  have pl: "plain (bs ''jo'')" "plain (bs ''site'')" "plain (bs ''/a'')" by (simp_all add: plain_def bs_def)
  have uri: "\<not> sublist (bs ''opaque'') (bs ''/a'')" by code_simp
  have ip: "sq_ip (login_request ?a) = sq_ip (login_request [])" "?o = ipToSessionId (md5Hash login_md5) login_mgr (sq_ip (login_request []))" by simp_all
  note login = digest_login [OF md5 m login_request_header(2) login_request_header(2) ip(1) time pl uri refl ip(2) get login_request_header(1),
      of HttpResponse "\<lambda>_. 9" "[0]" login_db]
  show ?thesis using login unfolding Let_def pw option.case simp_thms by blast
qed

end
