(* ===== verification/Spec2Isabelle.thy ===== *)
theory Spec2Isabelle
  imports Kore_Pool Kore_Base64 Kore_Timer Ccan_Emit Ccan_Tree Kore_Worker Kore_Lock Kore_Mem Kore_Msg Sparc_App Sparc_Session Kore_Date Sparc_Config Sparc_Auth
begin

text \<open>
  Verification of sparc, a web framework in C++ (\<open>src/sparc\<close>) on top of a copy of the kore web server in C
  (\<open>src/base/kore\<close>) and a JSON library (\<open>src/base/ccan_json.c\<close>). The development models the C code as the
  build configures it (\<open>KORE_NO_TLS\<close>, \<open>KORE_SINGLE_BINARY\<close>, no tasks, no JSON-RPC), and of the C++ layer the way of a
  request through the application.

  \<^bold>\<open>How the program works.\<close> A worker process runs the loop of \<open>kore_worker_entry\<close>. The event
  dispatcher hands readable and writable sockets to \<open>kore_connection_handle\<close>, which fills the receive buffer of the connection and
  calls its callback (\<open>http_header_recv\<close>, \<open>http_body_recv\<close> or the websocket callbacks). A complete header creates a
  request on the list of waiting requests; \<open>http_process\<close> runs the page handler of each complete request behind its
  authentication, flushes the response and marks the request for deletion. Timers, the idle check and
  \<open>kore_connection_prune\<close> do the cleaning. Pools, buffers and string helpers serve all of them. The page handler that the
  framework registers is \<open>App::handle\<close>: it serves files, or resolves the path in a trie of routes and runs the filters and the
  handler of the application on a response. Workers and the parent process share the accept lock, and talk through pipes.

  \<^bold>\<open>Conventions.\<close> A C function is a function of the same name. Memory blocks are byte lists, addresses of
  structures are numbers into finite maps (the store), intrusive lists are lists of such numbers. Every operation that
  can read or write outside a block, follow \<open>NULL\<close> or a freed address, fail an assertion or call \<open>fatal\<close> returns in the
  sum type \<open>res\<close> of \<open>Kore_Prelude\<close> with the fault as a value, so a theorem that the result is an \<open>Inr\<close> says that
  the code does none of this. Integers keep their width where it matters: words, or numbers with the reduction written out.
  Results of system calls are scripts (lists of results); a run that is not over when its script ends has the value \<open>None\<close>.
  What allocators leave in fresh memory (\<open>junk\<close>), application callbacks and library functions are parameters.

  \<^bold>\<open>Theories, sources and what is shown.\<close>

  \<^item> \<open>Kore_Prelude\<close>: faults, the result type, bytes, character classes, the parts of the C library in use; lemmas on
    lists, words and memory blocks, collected for the automation of the other theories.
  \<^item> \<open>Kore_Pool\<close> (\<open>pool.c\<close>): regions and free list. In every reachable state held elements never overlap; \<open>kore_pool_get\<close>
    delivers when memory can be mapped.
  \<^item> \<open>Kore_Buf\<close> (\<open>buf.c\<close>, \<open>kore_mem_find\<close>): growable buffers refine byte strings with a capacity; replacement of strings.
  \<^item> \<open>Kore_Str\<close> (\<open>utils.c\<close>): copying, splitting, trimming and number conversion, against their functional specifications.
  \<^item> \<open>Kore_Base64\<close> (\<open>utils.c\<close>): encoder and decoder on the buffers; round trip.
  \<^item> \<open>Kore_Timer\<close> (\<open>timer.c\<close>): the sorted list of timers; a run ends and runs exactly what is due.
  \<^item> \<open>Kore_Net\<close> (\<open>net.c\<close>): the send queue as a byte stream, the receive buffer and its callbacks.
  \<^item> \<open>Ccan_Utf8\<close>, \<open>Ccan_SB\<close>, \<open>Ccan_Parse\<close>, \<open>Ccan_Grammar\<close>, \<open>Ccan_Emit\<close> (\<open>ccan_json.c\<close>): Unicode, the string buffer,
    the parser, the language it decides, and the emitter. The parser decides the grammar, emitting and
    parsing are inverse where the library promises it.
  \<^item> \<open>Ccan_Tree\<close> (\<open>ccan_json.c\<close>): the linked nodes on a heap. Every operation refines the one on forests of
    values; deletion frees each node once.
  \<^item> \<open>Http_Text\<close>, \<open>Http_Body\<close>, \<open>Http_Conn\<close>, \<open>Http_Flow\<close>, \<open>Http_Inv\<close> (\<open>http.c\<close>, \<open>http.h\<close>): requests as data, query
    strings and arguments, bodies and multipart forms; creation of requests, responses; requests and bodies arriving in any
    pieces are received as sent; and the safety of the receive path on arbitrary bytes, through the interface \<open>recv_client\<close>
    between \<open>net.c\<close> and its callbacks.
  \<^item> \<open>Kore_Connection\<close> (\<open>connection.c\<close>): the two lists of connections, the idle timer, removal; the invariant \<open>worker_ok\<close>
    ties the lists, the store of connections, the counter and the requests together.
  \<^item> \<open>Kore_Websocket\<close> (\<open>websocket.c\<close>): handshake, frames, delivery of messages.
  \<^item> \<open>Kore_Auth\<close> (\<open>validator.c\<close>, \<open>auth.c\<close>), \<open>Kore_Domain\<close> (\<open>domain.c\<close>, \<open>module.c\<close>): the tables of validators, authentication
    blocks, domains and handlers; registration and lookup, clean-up, and what authentication lets through.
  \<^item> \<open>Kore_Worker\<close> (\<open>http.c\<close>, \<open>connection.c\<close>, \<open>accesslog.c\<close>, \<open>linux.c\<close>, \<open>worker.c\<close>): serving requests, freeing them, the access
    log, event dispatch and a turn of the main loop. The interface \<open>page_client\<close> states what the server relies on in page
    handlers; with it \<open>http_process\<close> is safe and keeps the invariant \<open>serving\<close>.
  \<^item> \<open>Kore_Lock\<close> (\<open>worker.c\<close>): the accept lock, restart of workers that died and shutdown, as steps of processes that interleave. No
    two workers accept at once, whatever the interleaving and whichever worker dies.
  \<^item> \<open>Kore_Msg\<close> (\<open>msg.c\<close>, parts of \<open>worker.c\<close> and \<open>accesslog.c\<close>): the pipes between workers and parent. The interface \<open>msg_reader\<close> is a process
    that handles a complete message in one step; with it a process reads messages that arrive in any pieces. The parent relays broadcasts to the
    websockets of all workers and writes the access log; \<open>foreach_body\<close> is the interface of a loop over the connections.
  \<^item> \<open>Kore_Mem\<close> (\<open>mem.c\<close>): the allocator on the pools and a memory of bytes. In every reachable state the blocks in use do not
    overlap and carry their size and magic number; reallocation keeps the content.
  \<^item> \<open>Sparc_Router\<close> (\<open>router.cpp\<close>, parts of \<open>request.cpp\<close>): the trie of routes, which provides the interface \<open>route_table\<close> (a map from
    prefixes to routes); the search agrees with one over the prefixes of a path, and registered routes are resolved.
  \<^item> \<open>Sparc_App\<close> (\<open>response.cpp\<close>, \<open>static_file.cpp\<close>, \<open>app.cpp\<close>): responses, static files, filters and \<open>App::handle\<close>. The interface
    \<open>app_client\<close> is what the framework relies on in the functions of the application; with it a request is answered
    once. Requests for files stay below the base directory.
  \<^item> \<open>Kore_Date\<close> (\<open>utils.c\<close>): dates of HTTP and the calendar of the C library; the date of a file survives the way through the client and back.
  \<^item> \<open>Sparc_Session\<close> (\<open>session.cpp\<close>): attributes of a session refine a map; finding, dropping and renewing sessions.
  \<^item> \<open>Sparc_Auth\<close> (\<open>auth.cpp\<close>, parts of \<open>util.cpp\<close>): basic and digest logins on base64, the splitter, sessions and responses. A challenge that is
    answered with the right password is accepted; the digest header is parsed in place, in a memory of bytes.
  \<^item> \<open>Sparc_Config\<close> (\<open>embed.cpp\<close>): the settings of the embedded server, its listening sockets, \<open>App::initConfig\<close> and \<open>App::run\<close>. The default
    configuration sends every request of the domain to the framework; sockets are closed at the end.

  \<^bold>\<open>Errors of the code.\<close> Where the code does not do what it means to, a theorem says so on the model: the emitter and
  U+001F, cyclic trees, content lengths that are too small, the idle check that closes one connection per turn, the
  opcode of a pong, requests that outlive their connection, filters that halt without effect, cookies that repeat the first
  one, routes that lose their tail, a trailing slash or the end of the token array, an accept lock that a dying worker takes
  with it, a shutdown that waits for ever, cleared memory that is not, a restarted worker that serves nobody,
  an empty message that blocks a pipe, the empty date of the epoch, passwords read past their end, digest headers that end the
  process, settings that free what they do not own, and a server that ends when it can create its directory.

  \<^bold>\<open>Bounds and fuel.\<close> Loops that follow pointers or callbacks take fuel; the theorems name an amount that is
  enough (the number of timers that are due, of waiting requests, of nodes, of bytes), so an answer \<open>Out_of_fuel\<close> is excluded, or
  show that no amount is. Sizes are bounded where the code computes with them: texts below one gigabyte for the
  JSON parser, header and body sizes in the ranges of the settings, and header buffers with room left below the 64-bit limit.

  \<^bold>\<open>Not modelled.\<close> Process creation, privileges and signal handlers (the rest of \<open>worker.c\<close>); registration of descriptors with epoll;
  the database client (\<open>pgsql.c\<close>), a wrapper of libpq. The build
  leaves out \<open>kore.c\<close>, \<open>config.c\<close>, \<open>bsd.c\<close>, \<open>cli.c\<close> and \<open>jsonrpc.c\<close>, and with its options TLS, the key manager, tasks and module
  reloading. Of the C++ layer: the database, the wrappers for timers, JSON and websockets and the
  settings of TLS; the loop of \<open>kore_server_start\<close> is a parameter of \<open>App::run\<close>; the hash tables of \<open>uthash.h\<close> are maps.
\<close>

end
